(* ===== verification/Prelude.thy ===== *)
theory Prelude
  imports "HOL-Library.Word" "HOL-Library.Monad_Syntax"
begin

text \<open>
  Shared vocabulary of the development: bytes and machine words, little-endian
  integers, the refusals of the protocol crates, the code outside the repository that
  the sources call (as a record of parameters), the checked arithmetic of
  \<open>usize\<close>, and the list and word lemmas the component theories rely on.

  Conventions.  A Rust \<open>u16\<close>, \<open>u32\<close> or \<open>u64\<close> that the code keeps as a field is a
  word of that width; a \<open>usize\<close> (a length, a count, a roster position) is a
  \<open>nat\<close>, and where the code uses \<open>checked_add\<close> or \<open>checked_mul\<close> the bound of
  the 32-bit \<open>usize\<close> of the published WebAssembly module is written out.  A byte
  array or slice is a list of bytes.
\<close>

unbundle bit_operations_syntax

section \<open>Bytes, words and results\<close>

type_synonym byte = "8 word"
type_synonym bytes = "8 word list"
type_synonym u16 = "16 word"
type_synonym u32 = "32 word"
type_synonym u64 = "64 word"

named_theorems codec_simps \<open>lengths and read-backs of encoded fields\<close>

text \<open>The refusals of \<open>protocol-foundations/src/lib.rs\<close>.\<close>

datatype refusal = Shape | Context | Consumed | Crypto

type_synonym 'a result = "refusal + 'a"

text \<open>\<open>Option::ok_or\<close>, and \<open>map_err\<close> on a codec result.\<close>

definition ok_or :: "'e \<Rightarrow> 'a option \<Rightarrow> 'e + 'a" where
  "ok_or e r = (case r of None \<Rightarrow> Inl e | Some v \<Rightarrow> Inr v)"

lemma ok_or_simps [simp]:
  "ok_or e None = Inl e" "ok_or e (Some v) = Inr v"
  by (simp_all add: ok_or_def)

lemma ok_or_Inr_iff [simp]: "ok_or e r = Inr v \<longleftrightarrow> r = Some v"
  by (simp add: ok_or_def split: option.splits)

text \<open>The question mark operator: the first refusal is the result.\<close>

definition and_then :: "('e + 'a) \<Rightarrow> ('a \<Rightarrow> 'e + 'b) \<Rightarrow> 'e + 'b" where
  "and_then r f = (case r of Inl e \<Rightarrow> Inl e | Inr v \<Rightarrow> f v)"

lemma and_then_simps [simp]:
  "and_then (Inl e) f = Inl e" "and_then (Inr v) f = f v"
  by (simp_all add: and_then_def)

lemma and_then_Inr_iff: "and_then r f = Inr w \<longleftrightarrow> (\<exists>v. r = Inr v \<and> f v = Inr w)"
  by (cases r) simp_all

text \<open>
  Code outside \<open>src/\<close> that the sources call: the \<open>sha3\<close> crate's SHAKE256 (its first
  64 output bytes), the \<open>keccak\<close> crate's permutation, and the pinned
  \<open>unicode-normalization\<close> tables, which work on Unicode scalar values.
\<close>

record externals =
  shake256 :: "bytes \<Rightarrow> bytes"
  keccak_f1600 :: "u64 list \<Rightarrow> u64 list"
  unicode_is_nfc :: "nat list \<Rightarrow> bool"
  unicode_nfc :: "nat list \<Rightarrow> nat list"
  unicode_is_public_assigned :: "nat \<Rightarrow> bool"

text \<open>
  A concrete instance of the external functions, at which the hypotheses on them hold: a
  truncating hash, the identity permutation, and a text table that admits ASCII only.
\<close>

definition sample_externals :: externals where
  "sample_externals =
     \<lparr> shake256 = (\<lambda>bs. take 64 (bs @ replicate 64 0)), keccak_f1600 = (\<lambda>state. state),
       unicode_is_nfc = (\<lambda>_. True), unicode_nfc = (\<lambda>text. text),
       unicode_is_public_assigned = (\<lambda>c. c < 128) \<rparr>"

section \<open>usize arithmetic\<close>

definition usize_bound :: nat where
  "usize_bound = 2 ^ 32"

definition u32_bound :: nat where
  "u32_bound = 2 ^ 32"

definition checked_add :: "nat \<Rightarrow> nat \<Rightarrow> nat option" where
  "checked_add a b = (if a + b < usize_bound then Some (a + b) else None)"

definition checked_mul :: "nat \<Rightarrow> nat \<Rightarrow> nat option" where
  "checked_mul a b = (if a * b < usize_bound then Some (a * b) else None)"

text \<open>\<open>u32::try_from(usize)\<close> and \<open>u16::try_from(usize)\<close>, as the number they keep.\<close>

definition u32_try_from :: "nat \<Rightarrow> nat option" where
  "u32_try_from n = (if n < u32_bound then Some n else None)"

definition u16_try_from :: "nat \<Rightarrow> u16 option" where
  "u16_try_from n = (if n < 65536 then Some (word_of_nat n) else None)"

lemma checked_add_Some_iff [simp]:
  "checked_add a b = Some c \<longleftrightarrow> a + b < usize_bound \<and> c = a + b"
  by (auto simp: checked_add_def)

lemma checked_mul_Some_iff [simp]:
  "checked_mul a b = Some c \<longleftrightarrow> a * b < usize_bound \<and> c = a * b"
  by (auto simp: checked_mul_def)

lemma u32_try_from_Some_iff [simp]:
  "u32_try_from n = Some m \<longleftrightarrow> n < u32_bound \<and> m = n"
  by (auto simp: u32_try_from_def)

lemma u16_try_from_Some_iff:
  "u16_try_from n = Some w \<longleftrightarrow> n < 65536 \<and> w = word_of_nat n"
  by (auto simp: u16_try_from_def)

section \<open>Little-endian integers\<close>

text \<open>The byte of a number below 256 (\<open>as u8\<close> keeps the low eight bits).\<close>

definition byte_of :: "nat \<Rightarrow> byte" where
  "byte_of n = word_of_nat n"

lemma unat_byte_of [simp]: "n < 256 \<Longrightarrow> unat (byte_of n) = n"
  by (simp add: byte_of_def unat_of_nat)

lemma byte_of_unat [simp]: "byte_of (unat b) = b"
  by (simp add: byte_of_def)

lemma unat_byte_bound: "unat (b :: byte) < 256"
  using unsigned_less [of b] by simp

lemma byte_of_eqI: "unat b = n \<Longrightarrow> byte_of n = b"
  by auto

primrec le_bytes :: "nat \<Rightarrow> nat \<Rightarrow> bytes" where
  "le_bytes 0 v = []"
| "le_bytes (Suc n) v = byte_of (v mod 256) # le_bytes n (v div 256)"

primrec le_value :: "bytes \<Rightarrow> nat" where
  "le_value [] = 0"
| "le_value (b # bs) = unat b + 256 * le_value bs"

lemma length_le_bytes [simp, codec_simps]: "length (le_bytes n v) = n"
  by (induction n arbitrary: v) auto

lemma le_value_le_bytes: "le_value (le_bytes n v) = v mod 256 ^ n"
proof (induction n arbitrary: v)
  case 0
  then show ?case by simp
next
  case (Suc n)
  have "v mod 256 ^ Suc n = 256 * (v div 256 mod 256 ^ n) + v mod 256"
    by (simp add: mod_mult2_eq)
  with Suc show ?case by simp
qed

lemma le_value_le_bytes_small [simp, codec_simps]:
  "v < 256 ^ n \<Longrightarrow> le_value (le_bytes n v) = v"
  by (simp add: le_value_le_bytes)

lemma le_value_bound: "le_value bs < 256 ^ length bs"
proof (induction bs)
  case Nil
  then show ?case by simp
next
  case (Cons b bs)
  have "unat b < 256" by (rule unat_byte_bound)
  with Cons show ?case by simp
qed

lemma le_bytes_le_value [simp]: "le_bytes (length bs) (le_value bs) = bs"
proof (induction bs)
  case Nil
  then show ?case by simp
next
  case (Cons b bs)
  have "unat b < 256" by (rule unat_byte_bound)
  then have "(unat b + 256 * le_value bs) mod 256 = unat b"
    and "(unat b + 256 * le_value bs) div 256 = le_value bs" by auto
  with Cons show ?case by simp
qed

lemma le_value_inject:
  assumes "length xs = length ys" "le_value xs = le_value ys"
  shows "xs = ys"
  using le_bytes_le_value [of xs] le_bytes_le_value [of ys] assms by metis

lemma le_bytes_inject:
  "v < 256 ^ n \<Longrightarrow> w < 256 ^ n \<Longrightarrow> le_bytes n v = le_bytes n w \<longleftrightarrow> v = w"
  by (metis le_value_le_bytes_small)

text \<open>The \<open>to_le_bytes\<close> and \<open>from_le_bytes\<close> of the machine integers.\<close>

definition u16_to_le_bytes :: "u16 \<Rightarrow> bytes" where
  "u16_to_le_bytes w = le_bytes 2 (unat w)"

definition u16_from_le_bytes :: "bytes \<Rightarrow> u16" where
  "u16_from_le_bytes bs = word_of_nat (le_value bs)"

definition u64_to_le_bytes :: "u64 \<Rightarrow> bytes" where
  "u64_to_le_bytes w = le_bytes 8 (unat w)"

definition u64_from_le_bytes :: "bytes \<Rightarrow> u64" where
  "u64_from_le_bytes bs = word_of_nat (le_value bs)"

lemma length_u16_to_le_bytes [simp, codec_simps]: "length (u16_to_le_bytes w) = 2"
  by (simp add: u16_to_le_bytes_def)

lemma length_u64_to_le_bytes [simp, codec_simps]: "length (u64_to_le_bytes w) = 8"
  by (simp add: u64_to_le_bytes_def)

lemma u16_le_roundtrip [simp, codec_simps]: "u16_from_le_bytes (u16_to_le_bytes w) = w"
proof -
  have "unat w < 256 ^ 2" using unsigned_less [of w] by simp
  then show ?thesis by (simp add: u16_from_le_bytes_def u16_to_le_bytes_def)
qed

lemma u64_le_roundtrip [simp, codec_simps]: "u64_from_le_bytes (u64_to_le_bytes w) = w"
proof -
  have "unat w < 256 ^ 8" using unsigned_less [of w] by simp
  then show ?thesis by (simp add: u64_from_le_bytes_def u64_to_le_bytes_def)
qed

lemma u16_to_from_le_bytes: "length bs = 2 \<Longrightarrow> u16_to_le_bytes (u16_from_le_bytes bs) = bs"
  using le_value_bound [of bs] le_bytes_le_value [of bs]
  by (simp add: u16_to_le_bytes_def u16_from_le_bytes_def unat_of_nat)

lemma u64_to_from_le_bytes: "length bs = 8 \<Longrightarrow> u64_to_le_bytes (u64_from_le_bytes bs) = bs"
  using le_value_bound [of bs] le_bytes_le_value [of bs]
  by (simp add: u64_to_le_bytes_def u64_from_le_bytes_def unat_of_nat)

lemma unat_u16_from_le_bytes: "length bs = 2 \<Longrightarrow> unat (u16_from_le_bytes bs) = le_value bs"
  using le_value_bound [of bs] by (simp add: u16_from_le_bytes_def unat_of_nat)

lemma unat_u64_from_le_bytes: "length bs = 8 \<Longrightarrow> unat (u64_from_le_bytes bs) = le_value bs"
  using le_value_bound [of bs] by (simp add: u64_from_le_bytes_def unat_of_nat)

lemma unat_word_of_nat_u16 [simp]: "n < 65536 \<Longrightarrow> unat (word_of_nat n :: u16) = n"
  by (simp add: unat_of_nat)

lemma unat_u16_bound: "unat (w :: u16) < 65536"
  using unsigned_less [of w] by simp

section \<open>Slices and chunks\<close>

text \<open>\<open>bytes[a..b]\<close>; every use in the model is under the bound that keeps Rust's from panicking.\<close>

definition slice :: "nat \<Rightarrow> nat \<Rightarrow> 'a list \<Rightarrow> 'a list" where
  "slice a b xs = take (b - a) (drop a xs)"

lemma length_slice [simp]: "length (slice a b xs) = min (b - a) (length xs - a)"
  by (auto simp: slice_def)

lemma slice_append_left: "b \<le> length xs \<Longrightarrow> slice a b (xs @ ys) = slice a b xs"
  by (simp add: slice_def)

lemma slice_append_right:
  "length xs \<le> a \<Longrightarrow> slice a b (xs @ ys) = slice (a - length xs) (b - length xs) ys"
  by (simp add: slice_def)

lemma slice_whole [simp]: "slice 0 (length xs) xs = xs"
  by (simp add: slice_def)

lemma slice_middle: "slice (length xs) (length xs + length ys) (xs @ ys @ zs) = ys"
  by (simp add: slice_def)

lemma slice_split: "a \<le> b \<Longrightarrow> b \<le> c \<Longrightarrow> slice a b xs @ slice b c xs = slice a c xs"
proof -
  assume le: "a \<le> b" "b \<le> c"
  then have "drop b xs = drop (b - a) (drop a xs)" by simp
  then show ?thesis
    using le take_add [of "b - a" "c - b" "drop a xs"] by (simp add: slice_def)
qed

lemma take_slice: "take n xs = slice 0 n xs"
  by (simp add: slice_def)

lemma length_concat_const:
  "\<forall>x \<in> set xss. length x = n \<Longrightarrow> length (concat xss) = length xss * n"
  by (induction xss) auto

lemma chunk_slice:
  assumes "\<forall>x \<in> set xss. length x = n" "i < length xss"
  shows "slice (n * i) (n * i + n) (concat xss @ ys) = xss ! i"
  using assms
proof (induction xss arbitrary: i)
  case Nil
  then show ?case by simp
next
  case (Cons x xss)
  then show ?case by (cases i) (simp_all add: slice_def)
qed

lemma slices_concat:
  assumes "n * k \<le> length bs"
  shows "concat (map (\<lambda>i. slice (n * i) (n * i + n) bs) [0 ..< k]) = take (n * k) bs"
  using assms
proof (induction k)
  case 0
  then show ?case by simp
next
  case (Suc k)
  then show ?case by (simp add: take_slice slice_split add.commute)
qed

text \<open>\<open>chunks_exact\<close>: the remainder shorter than a chunk is left out.\<close>

function chunks_exact :: "nat \<Rightarrow> 'a list \<Rightarrow> 'a list list" where
  "chunks_exact n xs =
     (if n = 0 \<or> length xs < n then [] else take n xs # chunks_exact n (drop n xs))"
  by pat_completeness auto
termination
  by (relation "measure (\<lambda>(n, xs). length xs)") auto

declare chunks_exact.simps [simp del]

lemma chunks_exact_concat:
  assumes "0 < n" "\<forall>x \<in> set xss. length x = n"
  shows "chunks_exact n (concat xss) = xss"
  using assms(2)
proof (induction xss)
  case Nil
  then show ?case using assms(1) by (simp add: chunks_exact.simps)
next
  case (Cons x xss)
  then show ?case using assms(1) by (subst chunks_exact.simps) simp
qed

lemma concat_chunks_exact:
  assumes "0 < n" "n dvd length xs"
  shows "concat (chunks_exact n xs) = xs"
  using assms
proof (induction n xs rule: chunks_exact.induct)
  case (1 n xs)
  show ?case
  proof (cases "length xs < n")
    case True
    with "1.prems" have "xs = []" by (metis dvd_imp_le length_greater_0_conv not_le)
    then show ?thesis by (simp add: chunks_exact.simps)
  next
    case False
    with "1.prems" have "n dvd length (drop n xs)" by (simp add: dvd_diff_nat)
    with 1 False have "concat (chunks_exact n (drop n xs)) = drop n xs" by simp
    with False "1.prems"(1) show ?thesis by (subst chunks_exact.simps) simp
  qed
qed

lemma chunks_exact_lengths: "0 < n \<Longrightarrow> x \<in> set (chunks_exact n xs) \<Longrightarrow> length x = n"
proof (induction n xs rule: chunks_exact.induct)
  case (1 n xs)
  then show ?case
    by (subst (asm) (2) chunks_exact.simps) (auto split: if_splits)
qed

lemma length_chunks_exact: "0 < n \<Longrightarrow> length (chunks_exact n xs) = length xs div n"
proof (induction n xs rule: chunks_exact.induct)
  case (1 n xs)
  then show ?case
    by (subst chunks_exact.simps) (auto simp: le_div_geq not_less)
qed

section \<open>Codecs\<close>

text \<open>
  The contract of every fixed wire format of the protocol: the decoder accepts exactly
  the encodings of valid values.  Clients get unique decoding, injective encoding and
  the refusal of every other byte string.
\<close>

locale exact_codec =
  fixes encode :: "'a \<Rightarrow> bytes"
    and decode :: "bytes \<Rightarrow> 'a option"
    and valid :: "'a \<Rightarrow> bool"
  assumes decode_encode: "valid x \<Longrightarrow> decode (encode x) = Some x"
    and decode_sound: "decode bs = Some x \<Longrightarrow> valid x \<and> encode x = bs"
begin

lemma decode_iff: "decode bs = Some x \<longleftrightarrow> valid x \<and> encode x = bs"
  using decode_encode decode_sound by blast

lemma encode_inj: "valid x \<Longrightarrow> valid y \<Longrightarrow> encode x = encode y \<Longrightarrow> x = y"
  using decode_encode by (metis option.inject)

lemma decode_unique: "decode bs = Some x \<Longrightarrow> decode cs = Some x \<Longrightarrow> bs = cs"
  using decode_sound by metis

lemma decode_refuses: "decode bs = None \<longleftrightarrow> (\<forall>x. valid x \<longrightarrow> encode x \<noteq> bs)"
proof (cases "decode bs")
  case None
  then show ?thesis using decode_encode by fastforce
next
  case (Some x)
  then show ?thesis using decode_sound by auto
qed

end

end
