(* ===== verification/Display_Text.thy ===== *)
theory Display_Text
  imports Prelude
begin

text \<open>
  Stabilized display text (\<open>protocol-foundations/src/foundation/text.rs\<close>).  A Rust
  string is the list of its Unicode scalar values, and its bytes are their UTF-8
  encoding; \<open>str::from_utf8\<close> is the strict decoder below.  The normalization
  tables are parameters (record \<open>externals\<close>).
\<close>

section \<open>Strict UTF-8\<close>

definition is_scalar :: "nat \<Rightarrow> bool" where
  "is_scalar c \<longleftrightarrow> c < 55296 \<or> (57344 \<le> c \<and> c < 1114112)"

definition continuation :: "byte \<Rightarrow> bool" where
  "continuation b \<longleftrightarrow> 128 \<le> unat b \<and> unat b < 192"

definition utf8_char :: "nat \<Rightarrow> bytes" where
  "utf8_char c =
     (if c < 128 then [byte_of c]
      else if c < 2048 then [byte_of (192 + c div 64), byte_of (128 + c mod 64)]
      else if c < 65536 then
        [byte_of (224 + c div 4096), byte_of (128 + c div 64 mod 64),
         byte_of (128 + c mod 64)]
      else
        [byte_of (240 + c div 262144), byte_of (128 + c div 4096 mod 64),
         byte_of (128 + c div 64 mod 64), byte_of (128 + c mod 64)])"

definition utf8_encode :: "nat list \<Rightarrow> bytes" where
  "utf8_encode cs = concat (map utf8_char cs)"

text \<open>
  The decoder reads the length of a character from its first byte, refuses a missing or
  wrong continuation byte, and keeps only scalar values in their shortest form.
\<close>

fun utf8_take :: "bytes \<Rightarrow> (nat \<times> bytes) option" where
  "utf8_take [] = None"
| "utf8_take (b0 # bs) =
     (if unat b0 < 128 then Some (unat b0, bs)
      else if unat b0 < 192 then None
      else if unat b0 < 224 then
        (case bs of
           b1 # r \<Rightarrow>
             (let c = (unat b0 - 192) * 64 + (unat b1 - 128)
              in if continuation b1 \<and> 128 \<le> c then Some (c, r) else None)
         | _ \<Rightarrow> None)
      else if unat b0 < 240 then
        (case bs of
           b1 # b2 # r \<Rightarrow>
             (let c = (unat b0 - 224) * 4096 + (unat b1 - 128) * 64 + (unat b2 - 128)
              in if continuation b1 \<and> continuation b2 \<and> 2048 \<le> c \<and> is_scalar c
                 then Some (c, r) else None)
         | _ \<Rightarrow> None)
      else if unat b0 < 248 then
        (case bs of
           b1 # b2 # b3 # r \<Rightarrow>
             (let c = (unat b0 - 240) * 262144 + (unat b1 - 128) * 4096
                        + (unat b2 - 128) * 64 + (unat b3 - 128)
              in if continuation b1 \<and> continuation b2 \<and> continuation b3
                    \<and> 65536 \<le> c \<and> is_scalar c
                 then Some (c, r) else None)
         | _ \<Rightarrow> None)
      else None)"

lemma utf8_take_shorter: "utf8_take bs = Some (c, r) \<Longrightarrow> length r < length bs"
  by (cases bs) (auto simp: Let_def split: if_splits list.splits)

function utf8_decode :: "bytes \<Rightarrow> nat list option" where
  "utf8_decode bs =
     (if bs = [] then Some []
      else case utf8_take bs of
             None \<Rightarrow> None
           | Some (c, r) \<Rightarrow>
               (case utf8_decode r of None \<Rightarrow> None | Some cs \<Rightarrow> Some (c # cs)))"
  by pat_completeness auto
termination
  by (relation "measure length") (auto dest: utf8_take_shorter)

declare utf8_decode.simps [simp del]

section \<open>Stabilized text\<close>

definition is_noncharacter :: "nat \<Rightarrow> bool" where
  "is_noncharacter code_point \<longleftrightarrow>
     (64976 \<le> code_point \<and> code_point \<le> 65007) \<or> code_point mod 65536 \<ge> 65534"

definition is_private_use :: "nat \<Rightarrow> bool" where
  "is_private_use code_point \<longleftrightarrow>
     (57344 \<le> code_point \<and> code_point \<le> 63743)
   \<or> (983040 \<le> code_point \<and> code_point \<le> 1048573)
   \<or> (1048576 \<le> code_point \<and> code_point \<le> 1114109)"

definition validate_assigned_scalar_values :: "externals \<Rightarrow> nat list \<Rightarrow> bool" where
  "validate_assigned_scalar_values E value \<longleftrightarrow>
     (\<forall>code_point \<in> set value.
        \<not> is_noncharacter code_point \<and> \<not> is_private_use code_point
        \<and> unicode_is_public_assigned E code_point)"

type_synonym stabilized_display_text = "nat list"

definition from_ingress_utf8 :: "externals \<Rightarrow> bytes \<Rightarrow> stabilized_display_text option" where
  "from_ingress_utf8 E bs =
     (case utf8_decode bs of
        None \<Rightarrow> None
      | Some decoded \<Rightarrow>
          if \<not> validate_assigned_scalar_values E decoded then None
          else let normalized =
                     (if unicode_is_nfc E decoded then decoded else unicode_nfc E decoded)
               in if \<not> validate_assigned_scalar_values E normalized then None
                  else Some normalized)"

definition from_canonical_utf8 :: "externals \<Rightarrow> bytes \<Rightarrow> stabilized_display_text option" where
  "from_canonical_utf8 E bs =
     (case utf8_decode bs of
        None \<Rightarrow> None
      | Some decoded \<Rightarrow>
          if \<not> validate_assigned_scalar_values E decoded then None
          else if \<not> unicode_is_nfc E decoded then None
          else Some decoded)"

text \<open>\<open>as_str().as_bytes()\<close> of stabilized text.\<close>

definition text_bytes :: "stabilized_display_text \<Rightarrow> bytes" where
  "text_bytes value = utf8_encode value"

text \<open>What a stabilized value satisfies once constructed.\<close>

definition stabilized :: "externals \<Rightarrow> stabilized_display_text \<Rightarrow> bool" where
  "stabilized E value \<longleftrightarrow>
     (\<forall>c \<in> set value. is_scalar c) \<and> validate_assigned_scalar_values E value
     \<and> unicode_is_nfc E value"

section \<open>UTF-8 round trips\<close>

lemma utf8_char_nonempty [simp]: "utf8_char c \<noteq> []"
  by (simp add: utf8_char_def)

lemma scalar_bound: "is_scalar c \<Longrightarrow> c < 1114112"
  by (auto simp: is_scalar_def)

lemma div_4096: "c div 4096 = c div 64 div (64 :: nat)"
  by (simp add: div_mult2_eq [symmetric])

lemma div_262144: "c div 262144 = c div 64 div 64 div (64 :: nat)"
  by (simp add: div_mult2_eq [symmetric])

lemma split_64:
  assumes "k < (64 :: nat)"
  shows "(a * 64 + k) div 64 = a" "(a * 64 + k) mod 64 = k"
  using assms by simp_all

lemma utf8_take_char:
  assumes "is_scalar c"
  shows "utf8_take (utf8_char c @ r) = Some (c, r)"
proof -
  let ?d = "c div 64" and ?e = "c div 4096" and ?f = "c div 262144"
  have c: "c < 1114112" using assms by (rule scalar_bound)
  have "?d * 64 + c mod 64 = c" "?d div 64 * 64 + ?d mod 64 = ?d"
    by (rule div_mult_mod_eq)+
  then have e: "?e * 4096 + ?d mod 64 * 64 + c mod 64 = c"
    unfolding div_4096 by linarith
  have "?e div 64 * 64 + ?e mod 64 = ?e" by (rule div_mult_mod_eq)
  with e have f: "?f * 262144 + ?e mod 64 * 4096 + ?d mod 64 * 64 + c mod 64 = c"
    unfolding div_4096 div_262144 by linarith
  consider "c < 128" | "128 \<le> c" "c < 2048" | "2048 \<le> c" "c < 65536" | "65536 \<le> c"
    by linarith
  then show ?thesis
  proof cases
    case 1
    then show ?thesis by (simp add: utf8_char_def)
  next
    case 2
    then have d: "?d < 32" by (simp add: less_mult_imp_div_less)
    show ?thesis using 2 by (simp add: utf8_char_def continuation_def d)
  next
    case 3
    then have d: "?e < 16" by (simp add: less_mult_imp_div_less)
    show ?thesis using 3 assms by (simp add: utf8_char_def continuation_def d e)
  next
    case 4
    from c have d: "?f < 5" by (simp add: less_mult_imp_div_less)
    then have u: "unat (byte_of (240 + ?f)) = 240 + ?f" and d': "?f < 8" by simp_all
    show ?thesis using 4 assms by (simp add: utf8_char_def continuation_def f u d')
  qed
qed

lemma continuation_range: "continuation b \<Longrightarrow> \<exists>k < 64. b = byte_of (128 + k)"
  by (rule exI [of _ "unat b - 128"]) (auto simp: continuation_def)

lemma lead_range:
  "m \<le> unat b \<Longrightarrow> unat b < m + d \<Longrightarrow> m + d \<le> 256 \<Longrightarrow> \<exists>k < d. b = byte_of (m + k)"
  by (rule exI [of _ "unat b - m"]) auto

lemma utf8_take_two:
  assumes "k0 < 32" "k1 < 64" "128 \<le> k0 * 64 + k1"
  shows "utf8_char (k0 * 64 + k1) = [byte_of (192 + k0), byte_of (128 + k1)]"
proof -
  have "(k0 * 64 + k1) div 64 = k0" "(k0 * 64 + k1) mod 64 = k1" "k0 * 64 + k1 < 2048"
    using assms by auto
  with assms show ?thesis by (simp add: utf8_char_def)
qed

lemma utf8_take_three:
  assumes "k0 < 16" "k1 < 64" "k2 < 64" "2048 \<le> k0 * 4096 + k1 * 64 + k2"
  shows "utf8_char (k0 * 4096 + k1 * 64 + k2) =
    [byte_of (224 + k0), byte_of (128 + k1), byte_of (128 + k2)]"
proof -
  have c: "k0 * 4096 + k1 * 64 + k2 = (k0 * 64 + k1) * 64 + k2" by simp
  have "k0 * 4096 + k1 * 64 + k2 < 65536" using assms(1-3) by linarith
  with assms show ?thesis
    unfolding utf8_char_def div_4096 c by (simp only: split_64) simp
qed

lemma utf8_take_four:
  assumes "k0 < 8" "k1 < 64" "k2 < 64" "k3 < 64"
    "65536 \<le> k0 * 262144 + k1 * 4096 + k2 * 64 + k3"
  shows "utf8_char (k0 * 262144 + k1 * 4096 + k2 * 64 + k3) =
    [byte_of (240 + k0), byte_of (128 + k1), byte_of (128 + k2), byte_of (128 + k3)]"
proof -
  have c: "k0 * 262144 + k1 * 4096 + k2 * 64 + k3 = ((k0 * 64 + k1) * 64 + k2) * 64 + k3" by simp
  from assms show ?thesis
    unfolding utf8_char_def div_4096 div_262144 c by (simp only: split_64) simp
qed

lemma utf8_take_not_lead: "\<not> unat b < 128 \<Longrightarrow> unat b < 192 \<Longrightarrow> utf8_take (b # bs) = None"
  by simp

lemma utf8_take_above_lead: "\<not> unat b < 248 \<Longrightarrow> utf8_take (b # bs) = None"
  by simp

lemma utf8_take_lead_two:
  "192 \<le> unat b \<Longrightarrow> unat b < 224 \<Longrightarrow> utf8_take (b # bs) =
     (case bs of
        b1 # r \<Rightarrow>
          (let c = (unat b - 192) * 64 + (unat b1 - 128)
           in if continuation b1 \<and> 128 \<le> c then Some (c, r) else None)
      | _ \<Rightarrow> None)"
  by simp

lemma utf8_take_lead_three:
  "224 \<le> unat b \<Longrightarrow> unat b < 240 \<Longrightarrow> utf8_take (b # bs) =
     (case bs of
        b1 # b2 # r \<Rightarrow>
          (let c = (unat b - 224) * 4096 + (unat b1 - 128) * 64 + (unat b2 - 128)
           in if continuation b1 \<and> continuation b2 \<and> 2048 \<le> c \<and> is_scalar c
              then Some (c, r) else None)
      | _ \<Rightarrow> None)"
  by simp

lemma utf8_take_lead_four:
  "240 \<le> unat b \<Longrightarrow> unat b < 248 \<Longrightarrow> utf8_take (b # bs) =
     (case bs of
        b1 # b2 # b3 # r \<Rightarrow>
          (let c = (unat b - 240) * 262144 + (unat b1 - 128) * 4096
                     + (unat b2 - 128) * 64 + (unat b3 - 128)
           in if continuation b1 \<and> continuation b2 \<and> continuation b3
                 \<and> 65536 \<le> c \<and> is_scalar c
              then Some (c, r) else None)
      | _ \<Rightarrow> None)"
  by simp

declare utf8_take.simps(2) [simp del]

lemma utf8_take_sound:
  assumes "utf8_take bs = Some (c, r)"
  shows "is_scalar c \<and> bs = utf8_char c @ r"
proof -
  from assms obtain b0 bs' where bs: "bs = b0 # bs'" by (cases bs) auto
  note refuses = utf8_take_not_lead [of b0 bs'] utf8_take_above_lead [of b0 bs']
  have lead: "unat b0 < 128 \<or> 192 \<le> unat b0" "unat b0 < 248"
    using assms refuses unfolding bs by force+
  consider "unat b0 < 128" | "192 \<le> unat b0" "unat b0 < 192 + 32"
    | "224 \<le> unat b0" "unat b0 < 224 + 16" | "240 \<le> unat b0" "unat b0 < 240 + 8"
    using lead by linarith
  then show ?thesis
  proof cases
    case 1
    with assms show ?thesis by (auto simp: bs utf8_take.simps utf8_char_def is_scalar_def)
  next
    case 2
    then obtain k0 where k0: "k0 < 32" "b0 = byte_of (192 + k0)"
      using lead_range [of 192 b0 32] by auto
    with assms obtain b1 where b: "bs' = b1 # r" "continuation b1"
      and c: "c = k0 * 64 + (unat b1 - 128)" "128 \<le> c"
      by (auto simp: bs utf8_take_lead_two Let_def split: list.splits if_splits)
    from b(2) obtain k1 where "k1 < 64" "b1 = byte_of (128 + k1)"
      using continuation_range by blast
    with k0 b c show ?thesis using utf8_take_two [of k0 k1] by (auto simp: bs is_scalar_def)
  next
    case 3
    then obtain k0 where k0: "k0 < 16" "b0 = byte_of (224 + k0)"
      using lead_range [of 224 b0 16] by auto
    with assms obtain b1 b2 where b: "bs' = b1 # b2 # r" "continuation b1" "continuation b2"
      and c: "c = k0 * 4096 + (unat b1 - 128) * 64 + (unat b2 - 128)" "2048 \<le> c" "is_scalar c"
      by (auto simp: bs utf8_take_lead_three Let_def split: list.splits if_splits)
    obtain k1 where "k1 < 64" "b1 = byte_of (128 + k1)"
      using continuation_range [OF b(2)] by blast
    moreover obtain k2 where "k2 < 64" "b2 = byte_of (128 + k2)"
      using continuation_range [OF b(3)] by blast
    ultimately show ?thesis using k0 b c utf8_take_three [of k0 k1 k2] by (simp add: bs)
  next
    case 4
    then obtain k0 where k0: "k0 < 8" "b0 = byte_of (240 + k0)"
      using lead_range [of 240 b0 8] by auto
    with assms obtain b1 b2 b3 where
      b: "bs' = b1 # b2 # b3 # r" "continuation b1" "continuation b2" "continuation b3"
      and c: "c = k0 * 262144 + (unat b1 - 128) * 4096 + (unat b2 - 128) * 64 + (unat b3 - 128)"
        "65536 \<le> c" "is_scalar c"
      by (auto simp: bs utf8_take_lead_four Let_def split: list.splits if_splits)
    obtain k1 where "k1 < 64" "b1 = byte_of (128 + k1)"
      using continuation_range [OF b(2)] by blast
    moreover obtain k2 where "k2 < 64" "b2 = byte_of (128 + k2)"
      using continuation_range [OF b(3)] by blast
    moreover obtain k3 where "k3 < 64" "b3 = byte_of (128 + k3)"
      using continuation_range [OF b(4)] by blast
    ultimately show ?thesis using k0 b c utf8_take_four [of k0 k1 k2 k3] by (simp add: bs)
  qed
qed

lemma utf8_decode_encode:
  "\<forall>c \<in> set cs. is_scalar c \<Longrightarrow> utf8_decode (utf8_encode cs) = Some cs"
proof (induction cs)
  case Nil
  then show ?case by (simp add: utf8_encode_def utf8_decode.simps)
next
  case (Cons c cs)
  then show ?case
    by (subst utf8_decode.simps) (simp add: utf8_encode_def utf8_take_char)
qed

lemma utf8_decode_sound:
  "utf8_decode bs = Some cs \<Longrightarrow> (\<forall>c \<in> set cs. is_scalar c) \<and> utf8_encode cs = bs"
proof (induction bs arbitrary: cs rule: utf8_decode.induct)
  case (1 bs)
  show ?case
  proof (cases "bs = []")
    case True
    with "1.prems" show ?thesis by (simp add: utf8_decode.simps utf8_encode_def)
  next
    case False
    with "1.prems" obtain c r cs' where t: "utf8_take bs = Some (c, r)"
      and d: "utf8_decode r = Some cs'" and cs: "cs = c # cs'"
      by (subst (asm) utf8_decode.simps) (auto split: option.splits)
    from "1.IH" [OF False t refl d] utf8_take_sound [OF t] show ?thesis
      by (simp add: cs utf8_encode_def)
  qed
qed

interpretation utf8: exact_codec utf8_encode utf8_decode "\<lambda>cs. \<forall>c \<in> set cs. is_scalar c"
  by unfold_locales (auto simp: utf8_decode_encode dest: utf8_decode_sound)

section \<open>Stabilized text is a canonical encoding\<close>

text \<open>
  Canonical text bytes are exactly the encodings of stabilized values, so equal text has
  equal bytes.
\<close>

interpretation display_text: exact_codec text_bytes "from_canonical_utf8 E" "stabilized E" for E
proof
  fix x
  assume "stabilized E x"
  then show "from_canonical_utf8 E (text_bytes x) = Some x"
    by (simp add: stabilized_def from_canonical_utf8_def text_bytes_def utf8_decode_encode)
next
  fix bs x
  assume "from_canonical_utf8 E bs = Some x"
  then show "stabilized E x \<and> text_bytes x = bs"
    by (auto simp: stabilized_def from_canonical_utf8_def text_bytes_def
        dest: utf8_decode_sound split: option.splits if_splits)
qed

lemma from_ingress_stabilized:
  assumes "from_ingress_utf8 E bs = Some value"
    and nfc: "\<And>cs. unicode_is_nfc E (unicode_nfc E cs)"
    and scalars: "\<And>cs. \<forall>c \<in> set cs. is_scalar c \<Longrightarrow> \<forall>c \<in> set (unicode_nfc E cs). is_scalar c"
  shows "stabilized E value"
  using assms(1) nfc scalars
  by (auto simp: from_ingress_utf8_def stabilized_def Let_def
      dest!: utf8_decode_sound split: option.splits if_splits)

section \<open>Properties\<close>

text \<open>
  Canonical text bytes: the decoder of stored text accepts exactly the UTF-8 bytes of
  stabilized text, so equal text has one encoding and every other byte string is refused.
\<close>

theorem canonical_text_is_exact:
  "from_canonical_utf8 E bs = Some t \<longleftrightarrow> stabilized E t \<and> text_bytes t = bs"
  by (rule display_text.decode_iff)

end
