(* ===== verification/Canonical_Tuple.thy ===== *)
theory Canonical_Tuple
  imports Display_Text
begin

text \<open>
  The canonical tuple codec (\<open>protocol-foundations/src/foundation/canonical-tuple.rs\<close>
  with its \<open>value.rs\<close> and \<open>decoding.rs\<close>): typed items, the tuple encoder, and the
  bounded decoder that validates nested tuples, lists and text within a work and
  allocation budget.  \<open>CanonicalCodecRefusal\<close> has one value, so a codec result is an
  option.  A mutable budget is returned with the result; after a refusal no caller reads
  it, so it is not returned then.
\<close>

section \<open>Item types\<close>

datatype canonical_item_type =
  RawBytes | Ascii | Unsigned16 | Unsigned64 | Hash512 | NestedTuple | DisplayText
  | HomogeneousList

fun canonical_code :: "canonical_item_type \<Rightarrow> u16" where
  "canonical_code RawBytes = 1"
| "canonical_code Ascii = 2"
| "canonical_code Unsigned16 = 3"
| "canonical_code Unsigned64 = 5"
| "canonical_code Hash512 = 6"
| "canonical_code NestedTuple = 9"
| "canonical_code DisplayText = 12"
| "canonical_code HomogeneousList = 14"

definition from_canonical_code :: "u16 \<Rightarrow> canonical_item_type option" where
  "from_canonical_code code =
     (if code = 1 then Some RawBytes
      else if code = 2 then Some Ascii
      else if code = 3 then Some Unsigned16
      else if code = 5 then Some Unsigned64
      else if code = 6 then Some Hash512
      else if code = 9 then Some NestedTuple
      else if code = 12 then Some DisplayText
      else if code = 14 then Some HomogeneousList
      else None)"

record canonical_item =
  item_type :: canonical_item_type
  canonical_bytes :: bytes

record canonical_tuple =
  schema_identifier :: u16
  items :: "canonical_item list"

definition CANONICAL_TUPLE_SCHEMA_IDENTIFIER :: u16 where
  "CANONICAL_TUPLE_SCHEMA_IDENTIFIER = 1"

definition ABSOLUTE_MAXIMUM_NESTING_DEPTH :: nat where
  "ABSOLUTE_MAXIMUM_NESTING_DEPTH = 64"

definition CANONICAL_ITEM_LOGICAL_ALLOCATION_BYTE_LENGTH :: nat where
  "CANONICAL_ITEM_LOGICAL_ALLOCATION_BYTE_LENGTH = 32"

section \<open>Limits and budgets\<close>

record canonical_decode_limits =
  maximum_tuple_byte_length :: nat
  maximum_item_count :: nat
  maximum_item_byte_length :: nat
  maximum_nesting_depth :: nat
  maximum_cumulative_work_byte_length :: nat
  maximum_cumulative_allocation_byte_length :: nat

definition default_limits :: canonical_decode_limits where
  "default_limits =
     \<lparr> maximum_tuple_byte_length = 16 * 1024 * 1024,
       maximum_item_count = 4096,
       maximum_item_byte_length = 8 * 1024 * 1024,
       maximum_nesting_depth = 32,
       maximum_cumulative_work_byte_length = 64 * 1024 * 1024,
       maximum_cumulative_allocation_byte_length = 64 * 1024 * 1024 \<rparr>"

record canonical_decode_budget =
  remaining_work_byte_length :: nat
  remaining_allocation_byte_length :: nat

definition new_budget :: "canonical_decode_limits \<Rightarrow> canonical_decode_budget" where
  "new_budget limits =
     \<lparr> remaining_work_byte_length = maximum_cumulative_work_byte_length limits,
       remaining_allocation_byte_length = maximum_cumulative_allocation_byte_length limits \<rparr>"

definition charge_work ::
  "nat \<Rightarrow> canonical_decode_budget \<Rightarrow> canonical_decode_budget option" where
  "charge_work byte_length budget =
     (if byte_length > remaining_work_byte_length budget then None
      else Some (budget\<lparr>remaining_work_byte_length :=
                          remaining_work_byte_length budget - byte_length\<rparr>))"

definition charge_allocation ::
  "nat \<Rightarrow> canonical_decode_budget \<Rightarrow> canonical_decode_budget option" where
  "charge_allocation byte_length budget =
     (if byte_length > remaining_allocation_byte_length budget then None
      else Some (budget\<lparr>remaining_allocation_byte_length :=
                          remaining_allocation_byte_length budget - byte_length\<rparr>))"

section \<open>Variable values and item constructors\<close>

definition checked_variable_value_layout :: "nat \<Rightarrow> (nat \<times> nat) option" where
  "checked_variable_value_layout value_byte_length = do {
     byte_length \<leftarrow> u32_try_from value_byte_length;
     capacity \<leftarrow> checked_add value_byte_length 4;
     (if capacity > maximum_item_byte_length default_limits then None
      else Some (byte_length, capacity)) }"

definition encode_variable_value :: "bytes \<Rightarrow> bytes option" where
  "encode_variable_value value = do {
     (byte_length, capacity) \<leftarrow> checked_variable_value_layout (length value);
     Some (le_bytes 4 byte_length @ value) }"

definition decode_variable_value :: "bytes \<Rightarrow> bytes option" where
  "decode_variable_value bs =
     (if length bs < 4 then None
      else do {
        expected_length \<leftarrow> checked_add (le_value (take 4 bs)) 4;
        (if length bs \<noteq> expected_length then None else Some (drop 4 bs)) })"

definition ensure_default_item_limit :: "bytes \<Rightarrow> unit option" where
  "ensure_default_item_limit bs =
     (if length bs > maximum_item_byte_length default_limits then None else Some ())"

definition fixed_bytes :: "bytes \<Rightarrow> canonical_item option" where
  "fixed_bytes bs = do {
     _ \<leftarrow> ensure_default_item_limit bs;
     Some \<lparr>item_type = RawBytes, canonical_bytes = bs\<rparr> }"

definition variable_bytes :: "bytes \<Rightarrow> canonical_item option" where
  "variable_bytes bs = do {
     encoded \<leftarrow> encode_variable_value bs;
     (if length encoded > maximum_item_byte_length default_limits then None
      else Some \<lparr>item_type = RawBytes, canonical_bytes = encoded\<rparr>) }"

definition printable_ascii :: "bytes \<Rightarrow> bool" where
  "printable_ascii bs \<longleftrightarrow> (\<forall>b \<in> set bs. 32 \<le> unat b \<and> unat b \<le> 126)"

definition ascii :: "bytes \<Rightarrow> canonical_item option" where
  "ascii value = do {
     (byte_length, capacity) \<leftarrow> checked_variable_value_layout (length value);
     (if \<not> printable_ascii value then None
      else Some \<lparr>item_type = Ascii, canonical_bytes = le_bytes 4 byte_length @ value\<rparr>) }"

definition nonempty_ascii :: "bytes \<Rightarrow> canonical_item option" where
  "nonempty_ascii value = (if value = [] then None else ascii value)"

definition unsigned16 :: "u16 \<Rightarrow> canonical_item" where
  "unsigned16 value = \<lparr>item_type = Unsigned16, canonical_bytes = u16_to_le_bytes value\<rparr>"

definition unsigned64 :: "u64 \<Rightarrow> canonical_item" where
  "unsigned64 value = \<lparr>item_type = Unsigned64, canonical_bytes = u64_to_le_bytes value\<rparr>"

definition hash512 :: "bytes \<Rightarrow> canonical_item" where
  "hash512 value = \<lparr>item_type = Hash512, canonical_bytes = value\<rparr>"

definition hash512_list :: "bytes list \<Rightarrow> canonical_item option" where
  "hash512_list values =
     (if length values > maximum_item_count default_limits then None
      else do {
        count \<leftarrow> u32_try_from (length values);
        let encoded = u16_to_le_bytes (canonical_code Hash512) @ le_bytes 4 count
                        @ concat values;
        _ \<leftarrow> ensure_default_item_limit encoded;
        Some \<lparr>item_type = HomogeneousList, canonical_bytes = encoded\<rparr> })"

definition display_text_item :: "stabilized_display_text \<Rightarrow> canonical_item option" where
  "display_text_item value = do {
     encoded \<leftarrow> encode_variable_value (text_bytes value);
     _ \<leftarrow> ensure_default_item_limit encoded;
     Some \<lparr>item_type = DisplayText, canonical_bytes = encoded\<rparr> }"

definition variable_value_bytes :: "canonical_item \<Rightarrow> bytes option" where
  "variable_value_bytes item =
     (if item_type item \<notin> {RawBytes, Ascii, DisplayText} then None
      else decode_variable_value (canonical_bytes item))"

definition has_header :: "canonical_tuple \<Rightarrow> nat \<Rightarrow> bool" where
  "has_header tuple item_count \<longleftrightarrow>
     schema_identifier tuple = CANONICAL_TUPLE_SCHEMA_IDENTIFIER
     \<and> length (items tuple) = item_count"

section \<open>Decoding\<close>

definition expected_item_length :: "canonical_item_type \<Rightarrow> nat option" where
  "expected_item_length t =
     (case t of Unsigned16 \<Rightarrow> Some 2 | Unsigned64 \<Rightarrow> Some 8 | Hash512 \<Rightarrow> Some 64 | _ \<Rightarrow> None)"

text \<open>
  \<open>decode_tuple_at\<close>, its item loop, \<open>validate_item_bytes\<close> and \<open>validate_list_payload\<close>
  with its loop.  An item's bytes are strictly shorter than the tuple's, and a nested
  tuple is at most as long as the item that holds it.
\<close>

function decode_tuple_at ::
    "externals \<Rightarrow> canonical_decode_limits \<Rightarrow> bytes \<Rightarrow> canonical_decode_budget \<Rightarrow> nat
      \<Rightarrow> (canonical_tuple \<times> nat \<times> canonical_decode_budget) option"
  and decode_items ::
    "externals \<Rightarrow> canonical_decode_limits \<Rightarrow> bytes \<Rightarrow> canonical_decode_budget \<Rightarrow> nat
      \<Rightarrow> nat \<Rightarrow> nat \<Rightarrow> (canonical_item list \<times> nat \<times> canonical_decode_budget) option"
  and validate_item_bytes ::
    "externals \<Rightarrow> canonical_decode_limits \<Rightarrow> canonical_item_type \<Rightarrow> bytes
      \<Rightarrow> canonical_decode_budget \<Rightarrow> nat \<Rightarrow> canonical_decode_budget option"
  and validate_list_payload ::
    "externals \<Rightarrow> canonical_decode_limits \<Rightarrow> canonical_item_type \<Rightarrow> nat \<Rightarrow> bytes
      \<Rightarrow> canonical_decode_budget \<Rightarrow> nat \<Rightarrow> canonical_decode_budget option"
  and validate_tuples ::
    "externals \<Rightarrow> canonical_decode_limits \<Rightarrow> nat \<Rightarrow> bytes \<Rightarrow> nat
      \<Rightarrow> canonical_decode_budget \<Rightarrow> nat \<Rightarrow> (nat \<times> canonical_decode_budget) option"
where
  "decode_tuple_at E limits bs budget nesting_depth =
     (if nesting_depth > maximum_nesting_depth limits
         \<or> nesting_depth > ABSOLUTE_MAXIMUM_NESTING_DEPTH
         \<or> length bs > maximum_tuple_byte_length limits
         \<or> length bs < 6
      then None
      else
        let schema = u16_from_le_bytes (slice 0 2 bs);
            item_count = le_value (slice 2 6 bs)
        in if item_count > maximum_item_count limits then None
           else do {
             product \<leftarrow> checked_mul item_count 6;
             minimum_length \<leftarrow> checked_add product 6;
             (if minimum_length > length bs then None
              else do {
                budget1 \<leftarrow> charge_work minimum_length budget;
                allocation \<leftarrow>
                  checked_mul item_count CANONICAL_ITEM_LOGICAL_ALLOCATION_BYTE_LENGTH;
                budget2 \<leftarrow> charge_allocation allocation budget1;
                (decoded, offset, budget3) \<leftarrow>
                  decode_items E limits bs budget2 nesting_depth item_count 6;
                Some (\<lparr>schema_identifier = schema, items = decoded\<rparr>, offset, budget3) }) })"
| "decode_items E limits bs budget nesting_depth 0 offset = Some ([], offset, budget)"
| "decode_items E limits bs budget nesting_depth (Suc remaining) offset = do {
     header_end \<leftarrow> checked_add offset 6;
     (if header_end > length bs then None
      else do {
        kind \<leftarrow> from_canonical_code (u16_from_le_bytes (slice offset (offset + 2) bs));
        let byte_length = le_value (slice (offset + 2) (offset + 6) bs);
        (if byte_length > maximum_item_byte_length limits then None
         else do {
           value_end \<leftarrow> checked_add header_end byte_length;
           (if value_end > length bs then None
            else do {
              let value = slice header_end value_end bs;
              budget1 \<leftarrow> validate_item_bytes E limits kind value budget nesting_depth;
              budget2 \<leftarrow> charge_allocation (length value) budget1;
              (rest, final_offset, budget3) \<leftarrow>
                decode_items E limits bs budget2 nesting_depth remaining value_end;
              Some (\<lparr>item_type = kind, canonical_bytes = value\<rparr> # rest,
                    final_offset, budget3) }) }) }) }"
| "validate_item_bytes E limits kind bs budget nesting_depth =
     (if nesting_depth > maximum_nesting_depth limits
         \<or> nesting_depth > ABSOLUTE_MAXIMUM_NESTING_DEPTH
      then None
      else do {
        budget1 \<leftarrow> charge_work (length bs) budget;
        (if (case expected_item_length kind of None \<Rightarrow> False | Some n \<Rightarrow> length bs \<noteq> n)
         then None
         else case kind of
             Ascii \<Rightarrow> do {
               value \<leftarrow> decode_variable_value bs;
               (if printable_ascii value then Some budget1 else None) }
           | DisplayText \<Rightarrow> do {
               value \<leftarrow> decode_variable_value bs;
               budget2 \<leftarrow> charge_allocation (length value) budget1;
               _ \<leftarrow> from_canonical_utf8 E value;
               Some budget2 }
           | NestedTuple \<Rightarrow> do {
               (_, consumed, budget2) \<leftarrow>
                 decode_tuple_at E limits bs budget1 (nesting_depth + 1);
               (if consumed \<noteq> length bs then None else Some budget2) }
           | HomogeneousList \<Rightarrow>
               (if length bs < 6 then None
                else do {
                  element_type \<leftarrow> from_canonical_code (u16_from_le_bytes (slice 0 2 bs));
                  let count = le_value (slice 2 6 bs);
                  (if count > maximum_item_count limits then None
                   else validate_list_payload E limits element_type count (drop 6 bs)
                          budget1 nesting_depth) })
           | _ \<Rightarrow> Some budget1) })"
| "validate_list_payload E limits element_type count bs budget nesting_depth =
     (if element_type = Hash512 then
        (if checked_mul count 64 = Some (length bs) then Some budget else None)
      else if element_type \<noteq> NestedTuple then None
      else do {
        (offset, budget1) \<leftarrow>
          validate_tuples E limits count bs 0 budget (nesting_depth + 1);
        (if offset \<noteq> length bs then None else Some budget1) })"
| "validate_tuples E limits 0 bs offset budget next_depth = Some (offset, budget)"
| "validate_tuples E limits (Suc remaining) bs offset budget next_depth = do {
     (_, consumed, budget1) \<leftarrow> decode_tuple_at E limits (drop offset bs) budget next_depth;
     next_offset \<leftarrow> checked_add offset consumed;
     validate_tuples E limits remaining bs next_offset budget1 next_depth }"
  by pat_completeness auto
termination
  by (relation "measures
       [\<lambda>x. case x of
              Inl (Inl (E, limits, bs, budget, depth)) \<Rightarrow> length bs
            | Inl (Inr (E, limits, bs, budget, depth, count, offset)) \<Rightarrow> length bs
            | Inr (Inl (E, limits, kind, bs, budget, depth)) \<Rightarrow> length bs
            | Inr (Inr (Inl (E, limits, kind, count, bs, budget, depth))) \<Rightarrow> length bs
            | Inr (Inr (Inr (E, limits, count, bs, offset, budget, depth))) \<Rightarrow> length bs,
        \<lambda>x. case x of
              Inl (Inl _) \<Rightarrow> 1
            | Inl (Inr _) \<Rightarrow> 0
            | Inr (Inl _) \<Rightarrow> 4
            | Inr (Inr (Inl _)) \<Rightarrow> 3
            | Inr (Inr (Inr _)) \<Rightarrow> 2,
        \<lambda>x. case x of
              Inl (Inr (E, limits, bs, budget, depth, count, offset)) \<Rightarrow> count
            | Inr (Inr (Inr (E, limits, count, bs, offset, budget, depth))) \<Rightarrow> count
            | _ \<Rightarrow> 0]")
    (auto simp: slice_def)

declare decode_tuple_at.simps [simp del] decode_items.simps [simp del]
  validate_item_bytes.simps [simp del] validate_list_payload.simps [simp del]
  validate_tuples.simps [simp del]

section \<open>Encoding and decoding a whole tuple\<close>

text \<open>The bytes the encoder writes for one item and for a whole tuple.\<close>

definition encode_item :: "canonical_item \<Rightarrow> bytes" where
  "encode_item item =
     u16_to_le_bytes (canonical_code (item_type item))
     @ le_bytes 4 (length (canonical_bytes item)) @ canonical_bytes item"

definition tuple_bytes :: "canonical_tuple \<Rightarrow> bytes" where
  "tuple_bytes tuple =
     u16_to_le_bytes (schema_identifier tuple) @ le_bytes 4 (length (items tuple))
     @ concat (map encode_item (items tuple))"

text \<open>The encoder's validation loop and its checked length sum.\<close>

fun validate_items ::
  "externals \<Rightarrow> canonical_decode_limits \<Rightarrow> canonical_item list
    \<Rightarrow> canonical_decode_budget \<Rightarrow> canonical_decode_budget option" where
  "validate_items E limits [] budget = Some budget"
| "validate_items E limits (item # rest) budget =
     (if length (canonical_bytes item) > maximum_item_byte_length limits then None
      else do {
        budget1 \<leftarrow> validate_item_bytes E limits (item_type item)
                    (canonical_bytes item) budget 0;
        validate_items E limits rest budget1 })"

fun total_length :: "nat \<Rightarrow> canonical_item list \<Rightarrow> nat option" where
  "total_length len [] = Some len"
| "total_length len (item # rest) = do {
     _ \<leftarrow> u32_try_from (length (canonical_bytes item));
     sum1 \<leftarrow> checked_add len 6;
     sum2 \<leftarrow> checked_add sum1 (length (canonical_bytes item));
     total_length sum2 rest }"

definition tuple_encode :: "externals \<Rightarrow> canonical_tuple \<Rightarrow> bytes option" where
  "tuple_encode E tuple =
     (if length (items tuple) > maximum_item_count default_limits then None
      else do {
        _ \<leftarrow> validate_items E default_limits (items tuple) (new_budget default_limits);
        item_count \<leftarrow> u32_try_from (length (items tuple));
        total \<leftarrow> total_length 6 (items tuple);
        (if total > maximum_tuple_byte_length default_limits then None
         else Some (u16_to_le_bytes (schema_identifier tuple) @ le_bytes 4 item_count
                      @ concat (map encode_item (items tuple)))) })"

definition decode_with_budget ::
  "externals \<Rightarrow> bytes \<Rightarrow> canonical_decode_limits \<Rightarrow> canonical_decode_budget
    \<Rightarrow> (canonical_tuple \<times> canonical_decode_budget) option" where
  "decode_with_budget E bs limits budget = do {
     (tuple, consumed, budget1) \<leftarrow> decode_tuple_at E limits bs budget 0;
     (if consumed \<noteq> length bs then None else Some (tuple, budget1)) }"

definition tuple_decode ::
  "externals \<Rightarrow> bytes \<Rightarrow> canonical_decode_limits \<Rightarrow> canonical_tuple option" where
  "tuple_decode E bs limits = do {
     (tuple, _) \<leftarrow> decode_with_budget E bs limits (new_budget limits);
     Some tuple }"

fun encode_all :: "externals \<Rightarrow> canonical_tuple list \<Rightarrow> bytes list option" where
  "encode_all E [] = Some []"
| "encode_all E (tuple # rest) = do {
     encoded \<leftarrow> tuple_encode E tuple;
     others \<leftarrow> encode_all E rest;
     Some (encoded # others) }"

fun payload_length :: "nat \<Rightarrow> bytes list \<Rightarrow> nat option" where
  "payload_length len [] = Some len"
| "payload_length len (bs # rest) = do {
     sum \<leftarrow> checked_add len (length bs);
     payload_length sum rest }"

definition nested_tuple_list :: "externals \<Rightarrow> canonical_tuple list \<Rightarrow> canonical_item option" where
  "nested_tuple_list E values =
     (if length values > maximum_item_count default_limits then None
      else do {
        count \<leftarrow> u32_try_from (length values);
        encoded_values \<leftarrow> encode_all E values;
        payload \<leftarrow> payload_length 0 encoded_values;
        canonical_length \<leftarrow> checked_add 6 payload;
        (if canonical_length > maximum_item_byte_length default_limits
            \<or> u32_try_from canonical_length = None
         then None
         else Some \<lparr>item_type = HomogeneousList,
                    canonical_bytes = u16_to_le_bytes (canonical_code NestedTuple)
                      @ le_bytes 4 count @ concat encoded_values\<rparr>) })"

section \<open>Codes, charges and variable values\<close>

lemma from_canonical_code_code [simp]: "from_canonical_code (canonical_code t) = Some t"
  by (cases t) (simp_all add: from_canonical_code_def)

lemma from_canonical_code_Some_iff:
  "from_canonical_code c = Some t \<longleftrightarrow> c = canonical_code t"
  by (cases t) (auto simp: from_canonical_code_def split: if_splits)

lemma charge_work_Some_iff:
  "charge_work n b = Some b' \<longleftrightarrow>
     n \<le> remaining_work_byte_length b
     \<and> b' = b\<lparr>remaining_work_byte_length := remaining_work_byte_length b - n\<rparr>"
  by (auto simp: charge_work_def)

lemma charge_allocation_Some_iff:
  "charge_allocation n b = Some b' \<longleftrightarrow>
     n \<le> remaining_allocation_byte_length b
     \<and> b' = b\<lparr>remaining_allocation_byte_length := remaining_allocation_byte_length b - n\<rparr>"
  by (auto simp: charge_allocation_def)

lemma limits_below_bounds:
  "maximum_item_byte_length default_limits < u32_bound"
  "maximum_item_byte_length default_limits < usize_bound"
  "maximum_tuple_byte_length default_limits < usize_bound"
  by (simp_all add: default_limits_def u32_bound_def usize_bound_def)

lemma encode_variable_value_Some_iff:
  "encode_variable_value v = Some bs \<longleftrightarrow>
     length v + 4 \<le> maximum_item_byte_length default_limits \<and> bs = le_bytes 4 (length v) @ v"
  using limits_below_bounds
  by (auto simp: encode_variable_value_def checked_variable_value_layout_def
      Option.bind_eq_Some_conv split: if_splits)

lemma decode_variable_value_encoded:
  assumes "length v + 4 < usize_bound"
  shows "decode_variable_value (le_bytes 4 (length v) @ v) = Some v"
  using assms by (simp add: decode_variable_value_def usize_bound_def checked_add_def)

lemma decode_variable_value_sound:
  assumes "decode_variable_value bs = Some v"
  shows "bs = le_bytes 4 (length v) @ v"
proof -
  from assms have len: "length bs = le_value (take 4 bs) + 4" "4 \<le> length bs" "v = drop 4 bs"
    by (auto simp: decode_variable_value_def Option.bind_eq_Some_conv split: if_splits)
  then have "le_bytes 4 (length v) = take 4 bs"
    using le_bytes_le_value [of "take 4 bs"] by simp
  with len show ?thesis by simp
qed

section \<open>Canonicity: decoding determines the bytes\<close>

lemma encode_item_length [simp]:
  "length (encode_item item) = 6 + length (canonical_bytes item)"
  by (simp add: encode_item_def)

lemma item_header_bytes:
  assumes "off + 6 \<le> length bs"
    and "from_canonical_code (u16_from_le_bytes (slice off (off + 2) bs)) = Some kind"
    and "le_value (slice (off + 2) (off + 6) bs) = len"
  shows "u16_to_le_bytes (canonical_code kind) @ le_bytes 4 len = slice off (off + 6) bs"
proof -
  from assms(1) have l2: "length (slice off (off + 2) bs) = 2"
    and l4: "length (slice (off + 2) (off + 6) bs) = 4" by simp_all
  from assms(2) have "u16_to_le_bytes (canonical_code kind) = slice off (off + 2) bs"
    using u16_to_from_le_bytes [OF l2] by (simp add: from_canonical_code_Some_iff)
  moreover have "le_bytes 4 len = slice (off + 2) (off + 6) bs"
    using le_bytes_le_value [of "slice (off + 2) (off + 6) bs"] l4 assms(3) by simp
  ultimately show ?thesis by (simp add: slice_split)
qed

lemma decode_items_sound:
  "decode_items E limits bs budget depth n off = Some (decoded, off', budget') \<Longrightarrow>
   off \<le> length bs \<Longrightarrow>
     length decoded = n \<and> off \<le> off' \<and> off' \<le> length bs
     \<and> concat (map encode_item decoded) = slice off off' bs
     \<and> (\<forall>item \<in> set decoded. length (canonical_bytes item) \<le> maximum_item_byte_length limits)"
proof (induction n arbitrary: off budget decoded)
  case 0
  then show ?case by (simp add: decode_items.simps slice_def)
next
  case (Suc n)
  let ?he = "off + 6"
  let ?len = "le_value (slice (off + 2) (off + 6) bs)"
  from Suc.prems(1) obtain kind b1 b2 rest where
    he: "?he \<le> length bs"
    and kind: "from_canonical_code (u16_from_le_bytes (slice off (off + 2) bs)) = Some kind"
    and small: "?len \<le> maximum_item_byte_length limits"
    and ve: "?he + ?len \<le> length bs"
    and rest: "decode_items E limits bs b2 depth n (?he + ?len) = Some (rest, off', budget')"
    and dec: "decoded = \<lparr>item_type = kind, canonical_bytes = slice ?he (?he + ?len) bs\<rparr> # rest"
    by (auto simp: decode_items.simps Option.bind_eq_Some_conv Let_def split: if_splits prod.splits)
  from Suc.IH [OF rest ve] have IH: "length rest = n" "?he + ?len \<le> off'" "off' \<le> length bs"
    "concat (map encode_item rest) = slice (?he + ?len) off' bs"
    "\<forall>item \<in> set rest. length (canonical_bytes item) \<le> maximum_item_byte_length limits"
    by auto
  have "encode_item (hd decoded) = slice off ?he bs @ slice ?he (?he + ?len) bs"
    using item_header_bytes [OF he kind refl] ve by (simp add: dec encode_item_def)
  with IH he ve small show ?case by (simp add: dec slice_split)
qed

lemma decode_tuple_at_sound:
  assumes "decode_tuple_at E limits bs budget depth = Some (tuple, consumed, budget')"
  shows "consumed \<le> length bs \<and> 6 \<le> consumed \<and> take consumed bs = tuple_bytes tuple
    \<and> length (items tuple) \<le> maximum_item_count limits"
proof -
  let ?n = "le_value (slice 2 6 bs)"
  from assms obtain decoded b2 where
    len: "6 \<le> length bs" and n: "?n \<le> maximum_item_count limits"
    and dec: "decode_items E limits bs b2 depth ?n 6 = Some (decoded, consumed, budget')"
    and t: "tuple = \<lparr>schema_identifier = u16_from_le_bytes (slice 0 2 bs), items = decoded\<rparr>"
    by (auto simp: decode_tuple_at.simps Option.bind_eq_Some_conv Let_def
        split: if_splits prod.splits)
  from decode_items_sound [OF dec len] have d: "length decoded = ?n" "6 \<le> consumed"
    "consumed \<le> length bs" "concat (map encode_item decoded) = slice 6 consumed bs" by auto
  have "u16_to_le_bytes (u16_from_le_bytes (slice 0 2 bs)) = slice 0 2 bs"
    using len by (intro u16_to_from_le_bytes) simp
  moreover have "le_bytes 4 (length decoded) = slice 2 6 bs"
    using le_bytes_le_value [of "slice 2 6 bs"] len d(1) by simp
  ultimately have "tuple_bytes tuple = slice 0 2 bs @ slice 2 6 bs @ slice 6 consumed bs"
    by (simp add: tuple_bytes_def t d(4))
  also have "\<dots> = take consumed bs"
    using d(2) by (simp add: slice_split take_slice)
  finally show ?thesis using d n by (simp add: t)
qed

lemma tuple_decode_sound:
  assumes "tuple_decode E bs limits = Some tuple"
  shows "bs = tuple_bytes tuple \<and> length (items tuple) \<le> maximum_item_count limits"
proof -
  from assms obtain b where
    "decode_tuple_at E limits bs (new_budget limits) 0 = Some (tuple, length bs, b)"
    by (auto simp: tuple_decode_def decode_with_budget_def Option.bind_eq_Some_conv
        split: if_splits prod.splits)
  from decode_tuple_at_sound [OF this] show ?thesis by simp
qed

lemma tuple_encode_bytes:
  assumes "tuple_encode E tuple = Some bs"
  shows "bs = tuple_bytes tuple"
  using assms
  by (auto simp: tuple_encode_def tuple_bytes_def Option.bind_eq_Some_conv split: if_splits)

section \<open>Exact characterisations of acceptance\<close>

lemma decode_tuple_at_Some_iff:
  "decode_tuple_at E limits bs budget depth = Some (t, c, b') \<longleftrightarrow>
     depth \<le> maximum_nesting_depth limits \<and> depth \<le> ABSOLUTE_MAXIMUM_NESTING_DEPTH
     \<and> length bs \<le> maximum_tuple_byte_length limits \<and> 6 \<le> length bs
     \<and> le_value (slice 2 6 bs) \<le> maximum_item_count limits
     \<and> le_value (slice 2 6 bs) * 6 + 6 \<le> length bs
     \<and> le_value (slice 2 6 bs) * 6 + 6 < usize_bound
     \<and> le_value (slice 2 6 bs) * 32 < usize_bound
     \<and> (\<exists>b1 b2 its.
          charge_work (le_value (slice 2 6 bs) * 6 + 6) budget = Some b1
          \<and> charge_allocation (le_value (slice 2 6 bs) * 32) b1 = Some b2
          \<and> decode_items E limits bs b2 depth (le_value (slice 2 6 bs)) 6 = Some (its, c, b')
          \<and> t = \<lparr>schema_identifier = u16_from_le_bytes (slice 0 2 bs), items = its\<rparr>)"
  by (subst decode_tuple_at.simps)
    (auto simp: Option.bind_eq_Some_conv Let_def CANONICAL_ITEM_LOGICAL_ALLOCATION_BYTE_LENGTH_def
      split: if_splits prod.splits)

lemma decode_items_Suc_Some_iff:
  "decode_items E limits bs budget depth (Suc n) off = Some (its, off', b') \<longleftrightarrow>
     off + 6 < usize_bound \<and> off + 6 \<le> length bs
     \<and> le_value (slice (off + 2) (off + 6) bs) \<le> maximum_item_byte_length limits
     \<and> off + 6 + le_value (slice (off + 2) (off + 6) bs) < usize_bound
     \<and> off + 6 + le_value (slice (off + 2) (off + 6) bs) \<le> length bs
     \<and> (\<exists>kind v b1 b2 rest.
          from_canonical_code (u16_from_le_bytes (slice off (off + 2) bs)) = Some kind
          \<and> v = slice (off + 6) (off + 6 + le_value (slice (off + 2) (off + 6) bs)) bs
          \<and> validate_item_bytes E limits kind v budget depth = Some b1
          \<and> charge_allocation (length v) b1 = Some b2
          \<and> decode_items E limits bs b2 depth n
               (off + 6 + le_value (slice (off + 2) (off + 6) bs)) = Some (rest, off', b')
          \<and> its = \<lparr>item_type = kind, canonical_bytes = v\<rparr> # rest)"
  by (subst decode_items.simps)
    (auto simp: Option.bind_eq_Some_conv Let_def split: if_splits prod.splits)

lemma validate_item_bytes_Some_iff:
  "validate_item_bytes E limits kind bs budget depth = Some b' \<longleftrightarrow>
     depth \<le> maximum_nesting_depth limits \<and> depth \<le> ABSOLUTE_MAXIMUM_NESTING_DEPTH
     \<and> (\<forall>n. expected_item_length kind = Some n \<longrightarrow> length bs = n)
     \<and> (\<exists>b1. charge_work (length bs) budget = Some b1
          \<and> (case kind of
               Ascii \<Rightarrow> b' = b1 \<and> (\<exists>v. decode_variable_value bs = Some v \<and> printable_ascii v)
             | DisplayText \<Rightarrow> (\<exists>v. decode_variable_value bs = Some v
                 \<and> charge_allocation (length v) b1 = Some b'
                 \<and> from_canonical_utf8 E v \<noteq> None)
             | NestedTuple \<Rightarrow>
                 (\<exists>t. decode_tuple_at E limits bs b1 (depth + 1) = Some (t, length bs, b'))
             | HomogeneousList \<Rightarrow> 6 \<le> length bs
                 \<and> le_value (slice 2 6 bs) \<le> maximum_item_count limits
                 \<and> (\<exists>element. from_canonical_code (u16_from_le_bytes (slice 0 2 bs)) = Some element
                     \<and> validate_list_payload E limits element (le_value (slice 2 6 bs))
                         (drop 6 bs) b1 depth = Some b')
             | _ \<Rightarrow> b' = b1))"
  by (subst validate_item_bytes.simps, cases kind)
    (auto simp: Option.bind_eq_Some_conv Let_def expected_item_length_def
      split: if_splits prod.splits)

lemma validate_list_payload_Some_iff:
  "validate_list_payload E limits kind n bs budget depth = Some b' \<longleftrightarrow>
     (if kind = Hash512 then n * 64 < usize_bound \<and> length bs = n * 64 \<and> b' = budget
      else kind = NestedTuple
        \<and> validate_tuples E limits n bs 0 budget (depth + 1) = Some (length bs, b'))"
  by (subst validate_list_payload.simps)
    (auto simp: Option.bind_eq_Some_conv split: if_splits prod.splits)

lemma validate_tuples_Suc_Some_iff:
  "validate_tuples E limits (Suc n) bs off budget depth = Some (off', b') \<longleftrightarrow>
     (\<exists>t c b1. decode_tuple_at E limits (drop off bs) budget depth = Some (t, c, b1)
        \<and> off + c < usize_bound
        \<and> validate_tuples E limits n bs (off + c) b1 depth = Some (off', b'))"
  by (subst validate_tuples.simps)
    (auto simp: Option.bind_eq_Some_conv split: if_splits prod.splits)

section \<open>Acceptance is monotone in the limits and the budget\<close>

definition budget_plus :: "canonical_decode_budget \<Rightarrow> nat \<Rightarrow> nat \<Rightarrow> canonical_decode_budget" where
  "budget_plus b w a =
     \<lparr> remaining_work_byte_length = remaining_work_byte_length b + w,
       remaining_allocation_byte_length = remaining_allocation_byte_length b + a \<rparr>"

definition limits_le :: "canonical_decode_limits \<Rightarrow> canonical_decode_limits \<Rightarrow> bool" where
  "limits_le l m \<longleftrightarrow>
     maximum_tuple_byte_length l \<le> maximum_tuple_byte_length m
     \<and> maximum_item_count l \<le> maximum_item_count m
     \<and> maximum_item_byte_length l \<le> maximum_item_byte_length m
     \<and> maximum_nesting_depth l \<le> maximum_nesting_depth m"

lemma charge_work_plus:
  "charge_work n b = Some b' \<Longrightarrow> charge_work n (budget_plus b w a) = Some (budget_plus b' w a)"
  by (auto simp: charge_work_def budget_plus_def split: if_splits)

lemma charge_allocation_plus:
  "charge_allocation n b = Some b' \<Longrightarrow>
   charge_allocation n (budget_plus b w a) = Some (budget_plus b' w a)"
  by (auto simp: charge_allocation_def budget_plus_def split: if_splits)

lemma decode_frame:
  "limits_le limits m \<Longrightarrow> decode_tuple_at E limits bs budget depth = Some (t, c, b') \<Longrightarrow>
     decode_tuple_at E m bs (budget_plus budget w a) depth = Some (t, c, budget_plus b' w a)"
  "limits_le limits m \<Longrightarrow> decode_items E limits bs budget depth n off = Some (its, off', b') \<Longrightarrow>
     decode_items E m bs (budget_plus budget w a) depth n off
       = Some (its, off', budget_plus b' w a)"
  "limits_le limits m \<Longrightarrow> validate_item_bytes E limits kind bs budget depth = Some b' \<Longrightarrow>
     validate_item_bytes E m kind bs (budget_plus budget w a) depth = Some (budget_plus b' w a)"
  "limits_le limits m \<Longrightarrow> validate_list_payload E limits kind n bs budget depth = Some b' \<Longrightarrow>
     validate_list_payload E m kind n bs (budget_plus budget w a) depth
       = Some (budget_plus b' w a)"
  "limits_le limits m \<Longrightarrow> validate_tuples E limits n bs off budget depth = Some (off', b') \<Longrightarrow>
     validate_tuples E m n bs off (budget_plus budget w a) depth
       = Some (off', budget_plus b' w a)"
proof (induction E limits bs budget depth and E limits bs budget depth n off
      and E limits kind bs budget depth and E limits kind n bs budget depth
      and E limits n bs off budget depth
      arbitrary: t c b' and its off' b' and b' and b' and off' b'
      rule: decode_tuple_at_decode_items_validate_item_bytes_validate_list_payload_validate_tuples.induct)
  case (1 E limits bs budget depth)
  let ?n = "le_value (slice 2 6 bs)"
  from "1.prems"(2) obtain b1 b2 its where
    ok: "depth \<le> maximum_nesting_depth limits" "depth \<le> ABSOLUTE_MAXIMUM_NESTING_DEPTH"
      "length bs \<le> maximum_tuple_byte_length limits" "6 \<le> length bs"
      "?n \<le> maximum_item_count limits" "?n * 6 + 6 \<le> length bs" "?n * 6 + 6 < usize_bound"
      "?n * 32 < usize_bound"
    and b1: "charge_work (?n * 6 + 6) budget = Some b1"
    and b2: "charge_allocation (?n * 32) b1 = Some b2"
    and its: "decode_items E limits bs b2 depth ?n 6 = Some (its, c, b')"
    and t: "t = \<lparr>schema_identifier = u16_from_le_bytes (slice 0 2 bs), items = its\<rparr>"
    unfolding decode_tuple_at_Some_iff by blast
  have "decode_items E m bs (budget_plus b2 w a) depth ?n 6 = Some (its, c, budget_plus b' w a)"
    using ok "1.prems"(1)
    by (intro "1.IH" [OF _ refl refl _ _ _ _ b1 _ b2 _ its])
      (simp_all add: CANONICAL_ITEM_LOGICAL_ALLOCATION_BYTE_LENGTH_def)
  with ok "1.prems"(1) show ?case
    unfolding decode_tuple_at_Some_iff
    by (auto simp: limits_le_def t intro!: exI conjI charge_work_plus [OF b1] charge_allocation_plus [OF b2])
next
  case (2 E limits bs budget depth off)
  then show ?case by (simp add: decode_items.simps)
next
  case (3 E limits bs budget depth n off)
  let ?len = "le_value (slice (off + 2) (off + 6) bs)"
  let ?v = "slice (off + 6) (off + 6 + ?len) bs"
  from "3.prems"(2) obtain kind b1 b2 rest where
    ok: "off + 6 < usize_bound" "off + 6 \<le> length bs" "?len \<le> maximum_item_byte_length limits"
      "off + 6 + ?len < usize_bound" "off + 6 + ?len \<le> length bs"
      "from_canonical_code (u16_from_le_bytes (slice off (off + 2) bs)) = Some kind"
    and b1: "validate_item_bytes E limits kind ?v budget depth = Some b1"
    and b2: "charge_allocation (length ?v) b1 = Some b2"
    and rest: "decode_items E limits bs b2 depth n (off + 6 + ?len) = Some (rest, off', b')"
    and its: "its = \<lparr>item_type = kind, canonical_bytes = ?v\<rparr> # rest"
    unfolding decode_items_Suc_Some_iff by blast
  have v: "validate_item_bytes E m kind ?v (budget_plus budget w a) depth = Some (budget_plus b1 w a)"
    using ok b1 by (intro "3.IH"(1) [where a = "off + 6" and ab = "off + 6 + ?len"]) (simp_all add: "3.prems"(1))
  have r: "decode_items E m bs (budget_plus b2 w a) depth n (off + 6 + ?len)
      = Some (rest, off', budget_plus b' w a)"
    using ok "3.prems"(1)
    by (intro "3.IH"(2) [OF _ _ ok(6) refl _ _ _ refl b1 b2 _ rest])
      simp_all
  from ok v r b2 "3.prems"(1) show ?case
    unfolding decode_items_Suc_Some_iff limits_le_def its
    by (auto intro!: exI conjI charge_allocation_plus)
next
  case (4 E limits kind bs budget depth)
  from "4.prems"(2) obtain b1 where b1: "charge_work (length bs) budget = Some b1"
    unfolding validate_item_bytes_Some_iff by blast
  from "4.prems" "4.IH" [OF _ b1]  show ?case
    unfolding validate_item_bytes_Some_iff [of E m] validate_item_bytes_Some_iff [of E limits]
    using charge_work_plus [OF b1, of w a]
    by (cases kind) (auto simp: b1 limits_le_def expected_item_length_def intro: charge_allocation_plus)
next
  case (5 E limits kind n bs budget depth)
  then show ?case
    by (auto simp: validate_list_payload_Some_iff split: if_splits)
next
  case (6 E limits bs off budget depth)
  then show ?case by (simp add: validate_tuples.simps)
next
  case (7 E limits n bs off budget depth)
  then show ?case
    by (auto simp: validate_tuples_Suc_Some_iff)
qed

section \<open>The cost of what is accepted\<close>

text \<open>
  What is accepted has a cost in work and in allocation that does not depend on the budget: it is
  what acceptance takes from the budget, and every budget that holds it suffices.
\<close>

lemma charge_work_iff: "charge_work n b = Some b' \<longleftrightarrow> b = budget_plus b' n 0"
  by (cases b; cases b') (auto simp: charge_work_def budget_plus_def)

lemma charge_allocation_iff: "charge_allocation n b = Some b' \<longleftrightarrow> b = budget_plus b' 0 n"
  by (cases b; cases b') (auto simp: charge_allocation_def budget_plus_def)

lemma budget_plus_plus [simp]:
  "budget_plus (budget_plus b w a) w' a' = budget_plus b (w + w') (a + a')"
  by (simp add: budget_plus_def)

lemma budget_plus_zero [simp]: "budget_plus b 0 0 = b"
  by (simp add: budget_plus_def)

lemma budget_plus_cancel:
  "budget_plus d (w + n) a = budget_plus b n 0 \<longleftrightarrow> b = budget_plus d w a"
  "budget_plus d w (a + n) = budget_plus b 0 n \<longleftrightarrow> b = budget_plus d w a"
  by (cases b; cases d; auto simp: budget_plus_def)+

lemma decode_cost:
  "decode_tuple_at E limits bs budget depth = Some (t, c, b') \<Longrightarrow>
     \<exists>w a. budget = budget_plus b' w a
       \<and> (\<forall>d. decode_tuple_at E limits bs (budget_plus d w a) depth = Some (t, c, d))"
  "decode_items E limits bs budget depth n off = Some (its, off', b') \<Longrightarrow>
     \<exists>w a. budget = budget_plus b' w a
       \<and> (\<forall>d. decode_items E limits bs (budget_plus d w a) depth n off = Some (its, off', d))"
  "validate_item_bytes E limits kind bs budget depth = Some b' \<Longrightarrow>
     \<exists>w a. budget = budget_plus b' w a
       \<and> (\<forall>d. validate_item_bytes E limits kind bs (budget_plus d w a) depth = Some d)"
  "validate_list_payload E limits kind n bs budget depth = Some b' \<Longrightarrow>
     \<exists>w a. budget = budget_plus b' w a
       \<and> (\<forall>d. validate_list_payload E limits kind n bs (budget_plus d w a) depth = Some d)"
  "validate_tuples E limits n bs off budget depth = Some (off', b') \<Longrightarrow>
     \<exists>w a. budget = budget_plus b' w a
       \<and> (\<forall>d. validate_tuples E limits n bs off (budget_plus d w a) depth = Some (off', d))"
proof (induction E limits bs budget depth and E limits bs budget depth n off
      and E limits kind bs budget depth and E limits kind n bs budget depth
      and E limits n bs off budget depth
      arbitrary: t c b' and its off' b' and b' and b' and off' b'
      rule: decode_tuple_at_decode_items_validate_item_bytes_validate_list_payload_validate_tuples.induct)
  case (1 E limits bs budget depth)
  let ?n = "le_value (slice 2 6 bs)"
  from "1.prems" obtain b1 b2 its where
    ok: "depth \<le> maximum_nesting_depth limits" "depth \<le> ABSOLUTE_MAXIMUM_NESTING_DEPTH"
      "length bs \<le> maximum_tuple_byte_length limits" "6 \<le> length bs"
      "?n \<le> maximum_item_count limits" "?n * 6 + 6 \<le> length bs" "?n * 6 + 6 < usize_bound"
      "?n * 32 < usize_bound"
    and b1: "charge_work (?n * 6 + 6) budget = Some b1"
    and b2: "charge_allocation (?n * 32) b1 = Some b2"
    and its: "decode_items E limits bs b2 depth ?n 6 = Some (its, c, b')"
    and t: "t = \<lparr>schema_identifier = u16_from_le_bytes (slice 0 2 bs), items = its\<rparr>"
    unfolding decode_tuple_at_Some_iff by blast
  have "\<exists>w a. b2 = budget_plus b' w a
      \<and> (\<forall>d. decode_items E limits bs (budget_plus d w a) depth ?n 6 = Some (its, c, d))"
    using ok
    by (intro "1.IH" [OF _ refl refl _ _ _ _ b1 _ b2 its])
      (simp_all add: CANONICAL_ITEM_LOGICAL_ALLOCATION_BYTE_LENGTH_def)
  then obtain w a where cost: "b2 = budget_plus b' w a"
    "\<And>d. decode_items E limits bs (budget_plus d w a) depth ?n 6 = Some (its, c, d)" by blast
  have "decode_tuple_at E limits bs (budget_plus d (w + (?n * 6 + 6)) (a + ?n * 32)) depth = Some (t, c, d)" for d
    unfolding decode_tuple_at_Some_iff charge_work_iff charge_allocation_iff
    using ok t cost(2) [of d]
    by (intro conjI exI [of _ "budget_plus d w (a + ?n * 32)"] exI [of _ "budget_plus d w a"] exI [of _ its]) simp_all
  moreover have "budget = budget_plus b' (w + (?n * 6 + 6)) (a + ?n * 32)"
    using b1 b2 unfolding charge_work_iff charge_allocation_iff cost(1) by simp
  ultimately show ?case by blast
next
  case (2 E limits bs budget depth off)
  then show ?case by (intro exI [of _ 0]) (simp add: decode_items.simps)
next
  case (3 E limits bs budget depth n off)
  let ?len = "le_value (slice (off + 2) (off + 6) bs)"
  let ?v = "slice (off + 6) (off + 6 + ?len) bs"
  from "3.prems" obtain kind b1 b2 rest where
    ok: "off + 6 < usize_bound" "off + 6 \<le> length bs" "?len \<le> maximum_item_byte_length limits"
      "off + 6 + ?len < usize_bound" "off + 6 + ?len \<le> length bs"
      "from_canonical_code (u16_from_le_bytes (slice off (off + 2) bs)) = Some kind"
    and b1: "validate_item_bytes E limits kind ?v budget depth = Some b1"
    and b2: "charge_allocation (length ?v) b1 = Some b2"
    and rest: "decode_items E limits bs b2 depth n (off + 6 + ?len) = Some (rest, off', b')"
    and its: "its = \<lparr>item_type = kind, canonical_bytes = ?v\<rparr> # rest"
    unfolding decode_items_Suc_Some_iff by blast
  have "\<exists>w a. budget = budget_plus b1 w a
      \<and> (\<forall>d. validate_item_bytes E limits kind ?v (budget_plus d w a) depth = Some d)"
    using ok b1 by (intro "3.IH"(1) [where a = "off + 6" and ab = "off + 6 + ?len"]) simp_all
  then obtain w1 a1 where v: "budget = budget_plus b1 w1 a1"
    "\<And>d. validate_item_bytes E limits kind ?v (budget_plus d w1 a1) depth = Some d" by blast
  have "\<exists>w a. b2 = budget_plus b' w a
      \<and> (\<forall>d. decode_items E limits bs (budget_plus d w a) depth n (off + 6 + ?len) = Some (rest, off', d))"
    using ok by (intro "3.IH"(2) [OF _ _ ok(6) refl _ _ _ refl b1 b2 rest]) simp_all
  then obtain w2 a2 where r: "b2 = budget_plus b' w2 a2"
    "\<And>d. decode_items E limits bs (budget_plus d w2 a2) depth n (off + 6 + ?len) = Some (rest, off', d)" by blast
  have "decode_items E limits bs (budget_plus d (w2 + w1) (a2 + length ?v + a1)) depth (Suc n) off = Some (its, off', d)" for d
    unfolding decode_items_Suc_Some_iff charge_allocation_iff
    using ok its r(2) [of d] v(2) [of "budget_plus d w2 (a2 + length ?v)"]
    by (intro conjI exI [of _ kind] exI [of _ ?v] exI [of _ "budget_plus d w2 (a2 + length ?v)"]
        exI [of _ "budget_plus d w2 a2"] exI [of _ rest]) simp_all
  moreover have "budget = budget_plus b' (w2 + w1) (a2 + length ?v + a1)"
    using b2 unfolding charge_allocation_iff v(1) r(1) by simp
  ultimately show ?case by blast
next
  case (4 E limits kind bs budget depth)
  from "4.prems" obtain b1 where b1: "charge_work (length bs) budget = Some b1"
    unfolding validate_item_bytes_Some_iff by blast
  have after: "validate_item_bytes E limits kind bs (budget_plus d (w + length bs) a) depth = Some d"
    if "case kind of
             Ascii \<Rightarrow> w = 0 \<and> a = 0
           | DisplayText \<Rightarrow> w = 0 \<and> (\<exists>v. decode_variable_value bs = Some v \<and> a = length v)
           | NestedTuple \<Rightarrow> \<exists>t. decode_tuple_at E limits bs (budget_plus d w a) (depth + 1) = Some (t, length bs, d)
           | HomogeneousList \<Rightarrow> (\<exists>element. from_canonical_code (u16_from_le_bytes (slice 0 2 bs)) = Some element
               \<and> validate_list_payload E limits element (le_value (slice 2 6 bs)) (drop 6 bs) (budget_plus d w a) depth = Some d)
           | _ \<Rightarrow> w = 0 \<and> a = 0" for d w a
    using "4.prems" that unfolding validate_item_bytes_Some_iff charge_work_iff charge_allocation_iff
    by (cases kind) (auto simp: budget_plus_cancel)
  have costed: ?case if "b1 = budget_plus b' w a" and "\<And>d. case kind of
             Ascii \<Rightarrow> w = 0 \<and> a = 0
           | DisplayText \<Rightarrow> w = 0 \<and> (\<exists>v. decode_variable_value bs = Some v \<and> a = length v)
           | NestedTuple \<Rightarrow> \<exists>t. decode_tuple_at E limits bs (budget_plus d w a) (depth + 1) = Some (t, length bs, d)
           | HomogeneousList \<Rightarrow> (\<exists>element. from_canonical_code (u16_from_le_bytes (slice 0 2 bs)) = Some element
               \<and> validate_list_payload E limits element (le_value (slice 2 6 bs)) (drop 6 bs) (budget_plus d w a) depth = Some d)
           | _ \<Rightarrow> w = 0 \<and> a = 0" for w a
    using after [OF that(2)] b1 that(1) unfolding charge_work_iff by (intro exI [of _ "w + length bs"] exI [of _ a]) simp
  show ?case
  proof (cases kind)
    case NestedTuple
    then obtain t where t: "decode_tuple_at E limits bs b1 (depth + 1) = Some (t, length bs, b')"
      using "4.prems" b1 unfolding validate_item_bytes_Some_iff by (auto simp: charge_work_iff)
    have "\<exists>w a. b1 = budget_plus b' w a
        \<and> (\<forall>d. decode_tuple_at E limits bs (budget_plus d w a) (depth + 1) = Some (t, length bs, d))"
      using "4.prems" NestedTuple unfolding validate_item_bytes_Some_iff
      by (intro "4.IH"(1) [OF _ b1 _ _ t]) (auto simp: expected_item_length_def)
    then obtain w a where "b1 = budget_plus b' w a"
      "\<And>d. decode_tuple_at E limits bs (budget_plus d w a) (depth + 1) = Some (t, length bs, d)" by blast
    then show ?thesis by (intro costed [of w a]) (simp_all add: NestedTuple)
  next
    case HomogeneousList
    then obtain element where element: "from_canonical_code (u16_from_le_bytes (slice 0 2 bs)) = Some element"
      "validate_list_payload E limits element (le_value (slice 2 6 bs)) (drop 6 bs) b1 depth = Some b'"
      using "4.prems" b1 unfolding validate_item_bytes_Some_iff by (auto simp: charge_work_iff)
    have "\<exists>w a. b1 = budget_plus b' w a
        \<and> (\<forall>d. validate_list_payload E limits element (le_value (slice 2 6 bs)) (drop 6 bs) (budget_plus d w a) depth = Some d)"
      using "4.prems" HomogeneousList unfolding validate_item_bytes_Some_iff
      by (intro "4.IH"(2) [OF _ b1 _ _ _ element(1) refl _ element(2)]) (auto simp: expected_item_length_def)
    then obtain w a where "b1 = budget_plus b' w a"
      "\<And>d. validate_list_payload E limits element (le_value (slice 2 6 bs)) (drop 6 bs) (budget_plus d w a) depth = Some d"
      by blast
    then show ?thesis by (intro costed [of w a]) (simp_all add: HomogeneousList element(1))
  next
    case DisplayText
    then obtain v where "decode_variable_value bs = Some v" "charge_allocation (length v) b1 = Some b'"
      using "4.prems" b1 unfolding validate_item_bytes_Some_iff by (auto simp: charge_work_iff)
    then show ?thesis using DisplayText by (intro costed [of 0 "length v"]) (simp_all add: charge_allocation_iff)
  qed (use "4.prems" b1 in \<open>auto simp: validate_item_bytes_Some_iff charge_work_iff intro!: costed [of 0 0]\<close>)
next
  case (5 E limits kind n bs budget depth)
  then show ?case
    by (cases "kind = Hash512") (fastforce simp: validate_list_payload_Some_iff intro: exI [of _ 0])+
next
  case (6 E limits bs off budget depth)
  then show ?case by (intro exI [of _ 0]) (simp add: validate_tuples.simps)
next
  case (7 E limits n bs off budget depth)
  from "7.prems" obtain t c b1 where
    t: "decode_tuple_at E limits (drop off bs) budget depth = Some (t, c, b1)" "off + c < usize_bound"
    and rest: "validate_tuples E limits n bs (off + c) b1 depth = Some (off', b')"
    unfolding validate_tuples_Suc_Some_iff by blast
  obtain w1 a1 where v: "budget = budget_plus b1 w1 a1"
    "\<And>d. decode_tuple_at E limits (drop off bs) (budget_plus d w1 a1) depth = Some (t, c, d)"
    using "7.IH"(1) [OF t(1)] by blast
  have "\<exists>w a. b1 = budget_plus b' w a
      \<and> (\<forall>d. validate_tuples E limits n bs (off + c) (budget_plus d w a) depth = Some (off', d))"
    using t by (intro "7.IH"(2) [OF t(1) refl refl _ rest]) simp
  then obtain w2 a2 where r: "b1 = budget_plus b' w2 a2"
    "\<And>d. validate_tuples E limits n bs (off + c) (budget_plus d w2 a2) depth = Some (off', d)" by blast
  have "validate_tuples E limits (Suc n) bs off (budget_plus d (w2 + w1) (a2 + a1)) depth = Some (off', d)" for d
    unfolding validate_tuples_Suc_Some_iff using t(2) r(2) [of d] v(2) [of "budget_plus d w2 a2"] by auto
  moreover have "budget = budget_plus b' (w2 + w1) (a2 + a1)" unfolding v(1) r(1) by simp
  ultimately show ?case by blast
qed

section \<open>Round trip\<close>

definition items_length :: "canonical_item list \<Rightarrow> nat" where
  "items_length its = sum_list (map (\<lambda>item. length (canonical_bytes item)) its)"

lemma items_length_simps [simp]:
  "items_length [] = 0"
  "items_length (item # its) = length (canonical_bytes item) + items_length its"
  by (simp_all add: items_length_def)

lemma length_encoded_items [simp]:
  "length (concat (map encode_item its)) = 6 * length its + items_length its"
  by (induction its) auto

lemma length_tuple_bytes:
  "length (tuple_bytes t) = 6 + 6 * length (items t) + items_length (items t)"
  by (simp add: tuple_bytes_def)

lemma charge_allocation_surplus:
  "charge_allocation n (budget_plus b w (n + a)) = Some (budget_plus b w a)"
  by (simp add: charge_allocation_def budget_plus_def)

lemma charge_work_surplus:
  "charge_work n (budget_plus b (n + w) a) = Some (budget_plus b w a)"
  by (simp add: charge_work_def budget_plus_def)

lemma item_header_slices:
  assumes "length (canonical_bytes item) < u32_bound"
    and "bs = pre @ encode_item item @ post"
  shows "slice (length pre) (length pre + 2) bs = u16_to_le_bytes (canonical_code (item_type item))"
    and "le_value (slice (length pre + 2) (length pre + 6) bs) = length (canonical_bytes item)"
    and "slice (length pre + 6) (length pre + 6 + length (canonical_bytes item)) bs
           = canonical_bytes item"
  using assms by (simp_all add: slice_def encode_item_def u32_bound_def)

lemma limits_le_refl [simp]: "limits_le l l"
  by (simp add: limits_le_def)

text \<open>
  Whatever the encoder's validation loop accepts, the decoder reads back, with the copied
  bytes as the only extra allocation.
\<close>

lemma decode_items_validated:
  assumes "validate_items E limits its b = Some b'"
    and "limits_le limits m" and "maximum_item_byte_length limits < u32_bound"
    and "length bs < usize_bound"
    and "bs = pre @ concat (map encode_item its) @ post"
  shows "decode_items E m bs (budget_plus b w (items_length its + a)) 0 (length its) (length pre)
    = Some (its, length pre + length (concat (map encode_item its)), budget_plus b' w a)"
  using assms
proof (induction its arbitrary: b pre)
  case Nil
  then show ?case by (simp add: decode_items.simps)
next
  case (Cons item its)
  let ?len = "length (canonical_bytes item)"
  let ?a = "items_length its + a"
  from Cons.prems(1) obtain b1 where len: "?len \<le> maximum_item_byte_length limits"
    and b1: "validate_item_bytes E limits (item_type item) (canonical_bytes item) b 0 = Some b1"
    and rest: "validate_items E limits its b1 = Some b'"
    by (auto simp: Option.bind_eq_Some_conv split: if_splits)
  have bs: "bs = pre @ encode_item item @ concat (map encode_item its) @ post"
    using Cons.prems(5) by simp
  have "?len < u32_bound" using len Cons.prems(3) by simp
  note slices = item_header_slices [OF this bs]
  have len_bs: "length pre + 6 + ?len \<le> length bs" using bs by simp
  have small: "?len \<le> maximum_item_byte_length m"
    using len Cons.prems(2) by (simp add: limits_le_def)
  have v: "validate_item_bytes E m (item_type item) (canonical_bytes item)
      (budget_plus b w (?len + ?a)) 0 = Some (budget_plus b1 w (?len + ?a))"
    by (rule decode_frame(3) [OF Cons.prems(2) b1])
  have c: "charge_allocation ?len (budget_plus b1 w (?len + ?a)) = Some (budget_plus b1 w ?a)"
    by (rule charge_allocation_surplus)
  have r: "decode_items E m bs (budget_plus b1 w ?a) 0 (length its) (length pre + 6 + ?len)
      = Some (its, length pre + 6 + ?len + length (concat (map encode_item its)),
          budget_plus b' w a)"
    using Cons.IH [OF rest Cons.prems(2-4), of "pre @ encode_item item"] bs
    by (simp add: add.assoc)
  have "decode_items E m bs (budget_plus b w (?len + ?a)) 0 (Suc (length its)) (length pre)
      = Some (item # its, length pre + 6 + ?len + length (concat (map encode_item its)),
          budget_plus b' w a)"
    unfolding decode_items_Suc_Some_iff slices u16_le_roundtrip from_canonical_code_code
    using len_bs small Cons.prems(4) v c r by (auto intro!: exI)
  then show ?case by (simp add: add.assoc)
qed

lemma decode_tuple_at_validated:
  assumes "validate_items E limits (items t) b = Some b'"
    and "limits_le limits m" and "maximum_item_byte_length limits < u32_bound"
    and "length (items t) \<le> maximum_item_count m" "length (items t) * 32 < usize_bound"
    and "length (tuple_bytes t) \<le> maximum_tuple_byte_length m" "length (tuple_bytes t) < usize_bound"
  shows "decode_tuple_at E m (tuple_bytes t)
      (budget_plus b (length (items t) * 6 + 6 + w)
         (length (items t) * 32 + (items_length (items t) + a))) 0
    = Some (t, length (tuple_bytes t), budget_plus b' w a)"
proof -
  let ?bs = "tuple_bytes t" and ?n = "length (items t)"
  let ?pre = "u16_to_le_bytes (schema_identifier t) @ le_bytes 4 ?n"
  have bs: "?bs = ?pre @ concat (map encode_item (items t)) @ []"
    by (simp add: tuple_bytes_def)
  have len: "length ?bs = 6 + 6 * ?n + items_length (items t)" by (rule length_tuple_bytes)
  have n: "le_value (slice 2 6 ?bs) = ?n" "slice 0 2 ?bs = u16_to_le_bytes (schema_identifier t)"
    using assms(5) by (simp_all add: slice_def tuple_bytes_def usize_bound_def)
  from decode_items_validated [OF assms(1-3,7) bs, of w a]
  have its: "decode_items E m ?bs (budget_plus b w (items_length (items t) + a)) 0 ?n 6
      = Some (items t, length ?bs, budget_plus b' w a)"
    by (simp add: len)
  show ?thesis
    unfolding decode_tuple_at_Some_iff n
    using assms(4-7) its len
    by (auto simp: ABSOLUTE_MAXIMUM_NESTING_DEPTH_def charge_work_surplus
        intro!: exI conjI charge_work_surplus charge_allocation_surplus)
qed

lemma total_length_value:
  "total_length len its = Some n \<Longrightarrow> n = len + length (concat (map encode_item its))"
  by (induction its arbitrary: len) (fastforce simp: Option.bind_eq_Some_conv)+

lemma total_length_fits:
  assumes "\<forall>item \<in> set its. length (canonical_bytes item) < u32_bound"
    and "len + length (concat (map encode_item its)) < usize_bound"
  shows "total_length len its = Some (len + length (concat (map encode_item its)))"
  using assms
proof (induction its arbitrary: len)
  case Nil
  then show ?case by simp
next
  case (Cons item its)
  let ?len = "length (canonical_bytes item)"
  have "len + 6 + ?len + length (concat (map encode_item its))
      = len + length (concat (map encode_item (item # its)))" by simp
  moreover from this Cons.prems(2) have
    "len + 6 + ?len + length (concat (map encode_item its)) < usize_bound" by metis
  moreover from this have "len + 6 + ?len < usize_bound" "len + 6 < usize_bound" by linarith+
  ultimately show ?case using Cons.prems(1) Cons.IH [of "len + 6 + ?len"]
    by (simp add: u32_try_from_def checked_add_def)
qed

lemma validate_items_lengths:
  "validate_items E limits its b = Some b' \<Longrightarrow>
     \<forall>item \<in> set its. length (canonical_bytes item) \<le> maximum_item_byte_length limits"
  by (induction its arbitrary: b) (auto simp: Option.bind_eq_Some_conv split: if_splits)

lemma tuple_encode_Some_iff:
  "tuple_encode E t = Some bs \<longleftrightarrow>
     length (items t) \<le> maximum_item_count default_limits
     \<and> (\<exists>b. validate_items E default_limits (items t) (new_budget default_limits) = Some b)
     \<and> length (tuple_bytes t) \<le> maximum_tuple_byte_length default_limits
     \<and> bs = tuple_bytes t" (is "?L \<longleftrightarrow> ?R")
proof
  assume ?L
  then show ?R
    by (auto simp: tuple_encode_def tuple_bytes_def Option.bind_eq_Some_conv
        dest: total_length_value split: if_splits)
next
  assume r: ?R
  then obtain b where
    b: "validate_items E default_limits (items t) (new_budget default_limits) = Some b" by blast
  have n: "length (items t) < u32_bound"
    using r by (simp add: default_limits_def u32_bound_def)
  have sum: "6 + length (concat (map encode_item (items t))) = length (tuple_bytes t)"
    by (simp add: length_tuple_bytes)
  have "\<forall>item \<in> set (items t). length (canonical_bytes item) < u32_bound"
    using validate_items_lengths [OF b] limits_below_bounds(1) by fastforce
  moreover have "length (tuple_bytes t) < usize_bound"
    using r limits_below_bounds(3) by linarith
  ultimately have "total_length 6 (items t) = Some (length (tuple_bytes t))"
    using total_length_fits [of "items t" 6] unfolding sum by blast
  with r b n show ?L by (simp add: tuple_encode_def tuple_bytes_def u32_try_from_def)
qed

text \<open>What the decoder does on the encoder's bytes, for every limits.\<close>

lemma validate_items_cost:
  "validate_items E limits its b = Some b' \<Longrightarrow>
     \<exists>w a. b = budget_plus b' w a \<and> (\<forall>d. validate_items E limits its (budget_plus d w a) = Some d)"
proof (induction its arbitrary: b)
  case Nil
  then show ?case by (intro exI [of _ 0]) simp
next
  case (Cons item its)
  then obtain b1 where len: "length (canonical_bytes item) \<le> maximum_item_byte_length limits"
    and item: "validate_item_bytes E limits (item_type item) (canonical_bytes item) b 0 = Some b1"
    and rest: "validate_items E limits its b1 = Some b'"
    by (auto simp: Option.bind_eq_Some_conv split: if_splits)
  obtain w a where v: "b = budget_plus b1 w a"
    "\<And>d. validate_item_bytes E limits (item_type item) (canonical_bytes item) (budget_plus d w a) 0 = Some d"
    using decode_cost(3) [OF item] by blast
  obtain w' a' where r: "b1 = budget_plus b' w' a'" "\<And>d. validate_items E limits its (budget_plus d w' a') = Some d"
    using Cons.IH [OF rest] by blast
  have "validate_items E limits (item # its) (budget_plus d (w' + w) (a' + a)) = Some d" for d
    using len v(2) [of "budget_plus d w' a'"] r(2) by simp
  then show ?case using v(1) r(1) by (intro exI [of _ "w' + w"] exI [of _ "a' + a"]) simp
qed

lemma validate_items_frame:
  assumes "validate_items E limits its b = Some b'"
  shows "validate_items E limits its (budget_plus b w a) = Some (budget_plus b' w a)"
proof -
  obtain w' a' where "b = budget_plus b' w' a'" "\<And>d. validate_items E limits its (budget_plus d w' a') = Some d"
    using validate_items_cost [OF assms] by blast
  then show ?thesis using add.commute [of w' w] add.commute [of a' a] budget_plus_plus by metis
qed

lemma validate_items_unframe:
  assumes "validate_items E limits its (budget_plus b w a) = Some (budget_plus b' w a)"
  shows "validate_items E limits its b = Some b'"
proof -
  obtain w' a' where cost: "budget_plus b w a = budget_plus (budget_plus b' w a) w' a'"
    "\<And>d. validate_items E limits its (budget_plus d w' a') = Some d"
    using validate_items_cost [OF assms] by blast
  then have "b = budget_plus b' w' a'" by (cases b; cases b') (auto simp: budget_plus_def)
  then show ?thesis using cost(2) by simp
qed

lemma decode_items_encoded:
  assumes "\<forall>item \<in> set its. length (canonical_bytes item) < u32_bound" "length bs < usize_bound"
    and "bs = pre @ concat (map encode_item its) @ post"
  shows "decode_items E m bs c 0 (length its) (length pre) = Some (x, off, c')
    \<longleftrightarrow> x = its \<and> off = length pre + length (concat (map encode_item its))
      \<and> validate_items E m its c = Some (budget_plus c' 0 (items_length its))"
  using assms
proof (induction its arbitrary: c pre x)
  case Nil
  then show ?case by (auto simp: decode_items.simps)
next
  case (Cons item its)
  let ?len = "length (canonical_bytes item)"
  have bs: "bs = pre @ encode_item item @ concat (map encode_item its) @ post" using Cons.prems(3) by simp
  have "?len < u32_bound" using Cons.prems(1) by simp
  note slices = item_header_slices [OF this bs]
  have len_bs: "length pre + 6 + ?len \<le> length bs" using bs by simp
  note IH = Cons.IH [of "pre @ encode_item item"]
  have rest: "decode_items E m bs b2 0 (length its) (length pre + 6 + ?len) = Some (r, off, c')
      \<longleftrightarrow> r = its \<and> off = length pre + length (concat (map encode_item (item # its)))
        \<and> validate_items E m its b2 = Some (budget_plus c' 0 (items_length its))" for b2 r
    using IH [of b2 r] Cons.prems(1,2) bs by (simp add: add.assoc)
  have "decode_items E m bs c 0 (length (item # its)) (length pre) = Some (x, off, c')
    \<longleftrightarrow> ?len \<le> maximum_item_byte_length m \<and> x = item # its
      \<and> off = length pre + length (concat (map encode_item (item # its)))
      \<and> (\<exists>b1 b2. validate_item_bytes E m (item_type item) (canonical_bytes item) c 0 = Some b1 \<and> b1 = budget_plus b2 0 ?len
          \<and> validate_items E m its b2 = Some (budget_plus c' 0 (items_length its)))"
    unfolding list.size add_Suc_right add_0_right decode_items_Suc_Some_iff slices u16_le_roundtrip from_canonical_code_code
      charge_allocation_iff rest
    using len_bs Cons.prems(2) by auto
  also have "\<dots> \<longleftrightarrow> ?len \<le> maximum_item_byte_length m \<and> x = item # its
      \<and> off = length pre + length (concat (map encode_item (item # its)))
      \<and> (\<exists>b1. validate_item_bytes E m (item_type item) (canonical_bytes item) c 0 = Some b1
          \<and> validate_items E m its b1 = Some (budget_plus c' 0 (?len + items_length its)))"
  proof -
    have "(\<exists>b2. b1 = budget_plus b2 0 ?len \<and> validate_items E m its b2 = Some (budget_plus c' 0 (items_length its)))
        \<longleftrightarrow> validate_items E m its b1 = Some (budget_plus c' 0 (?len + items_length its))" for b1
    proof
      assume "\<exists>b2. b1 = budget_plus b2 0 ?len \<and> validate_items E m its b2 = Some (budget_plus c' 0 (items_length its))"
      then show "validate_items E m its b1 = Some (budget_plus c' 0 (?len + items_length its))"
        using validate_items_frame [of E m its _ "budget_plus c' 0 (items_length its)" 0 ?len] by (auto simp: add.commute)
    next
      assume all: "validate_items E m its b1 = Some (budget_plus c' 0 (?len + items_length its))"
      then obtain w a where b1: "b1 = budget_plus (budget_plus c' 0 (?len + items_length its)) w a"
        using validate_items_cost by blast
      let ?b2 = "budget_plus c' w (items_length its + a)"
      have b2: "b1 = budget_plus ?b2 0 ?len" using b1 by (simp add: ac_simps)
      have "validate_items E m its (budget_plus ?b2 0 ?len) = Some (budget_plus (budget_plus c' 0 (items_length its)) 0 ?len)"
        using all unfolding b2 [symmetric] by (simp add: add.commute)
      then show "\<exists>b2. b1 = budget_plus b2 0 ?len \<and> validate_items E m its b2 = Some (budget_plus c' 0 (items_length its))"
        using b2 validate_items_unframe by blast
    qed
    then show ?thesis by blast
  qed
  also have "\<dots> \<longleftrightarrow> x = item # its \<and> off = length pre + length (concat (map encode_item (item # its)))
      \<and> validate_items E m (item # its) c = Some (budget_plus c' 0 (items_length (item # its)))"
    by (auto simp: Option.bind_eq_Some_conv not_le)
  finally show ?case .
qed

lemma two_charges:
  "(\<exists>b1. c = budget_plus b1 w 0 \<and> (\<exists>b2. b1 = budget_plus b2 0 a \<and> P b2)) \<longleftrightarrow> (\<exists>b2. c = budget_plus b2 w a \<and> P b2)"
proof -
  have "budget_plus b2 w a = budget_plus (budget_plus b2 0 a) w 0" for b2 by simp
  then show ?thesis by metis
qed

lemma tuple_decode_encoded:
  assumes enc: "tuple_encode E t = Some bs"
  shows "tuple_decode E bs m = Some s \<longleftrightarrow> s = t
    \<and> length (items t) \<le> maximum_item_count m \<and> length bs \<le> maximum_tuple_byte_length m
    \<and> (\<exists>b. validate_items E m (items t) (new_budget m) = Some b
        \<and> 6 * length (items t) + 6 \<le> remaining_work_byte_length b
        \<and> 32 * length (items t) + items_length (items t) \<le> remaining_allocation_byte_length b)"
proof -
  let ?n = "length (items t)" and ?pre = "u16_to_le_bytes (schema_identifier t) @ le_bytes 4 (length (items t))"
  from enc obtain b where n: "?n \<le> maximum_item_count default_limits"
    and b: "validate_items E default_limits (items t) (new_budget default_limits) = Some b"
    and len: "length bs \<le> maximum_tuple_byte_length default_limits"
    and bs: "bs = tuple_bytes t" by (auto simp: tuple_encode_Some_iff)
  have small: "\<forall>item \<in> set (items t). length (canonical_bytes item) < u32_bound"
    using validate_items_lengths [OF b] limits_below_bounds(1) by fastforce
  have sizes: "?n * 32 < usize_bound" "?n * 6 + 6 < usize_bound" "length bs < usize_bound"
    using n len by (simp_all add: default_limits_def usize_bound_def)
  have count: "le_value (slice 2 6 bs) = ?n" "slice 0 2 bs = u16_to_le_bytes (schema_identifier t)"
    using n by (simp_all add: bs slice_def tuple_bytes_def default_limits_def)
  have length_bs: "length bs = 6 + 6 * ?n + items_length (items t)" unfolding bs by (rule length_tuple_bytes)
  have "bs = ?pre @ concat (map encode_item (items t)) @ []" by (simp add: bs tuple_bytes_def)
  from decode_items_encoded [OF small sizes(3) this]
  have its: "decode_items E m bs c 0 ?n 6 = Some (x, off, c')
      \<longleftrightarrow> x = items t \<and> off = length bs \<and> validate_items E m (items t) c = Some (budget_plus c' 0 (items_length (items t)))" for c x off c'
    by (simp add: length_bs add.assoc)
  have "tuple_decode E bs m = Some s \<longleftrightarrow> (\<exists>c'. decode_tuple_at E m bs (new_budget m) 0 = Some (s, length bs, c'))"
    by (auto simp: tuple_decode_def decode_with_budget_def Option.bind_eq_Some_conv split: if_splits)
  also have "\<dots> \<longleftrightarrow> s = t \<and> ?n \<le> maximum_item_count m \<and> length bs \<le> maximum_tuple_byte_length m
      \<and> (\<exists>c' b2. new_budget m = budget_plus b2 (?n * 6 + 6) (?n * 32)
          \<and> validate_items E m (items t) b2 = Some (budget_plus c' 0 (items_length (items t))))"
  proof -
    have "decode_tuple_at E m bs c 0 = Some (s, length bs, c')
      \<longleftrightarrow> s = t \<and> ?n \<le> maximum_item_count m \<and> length bs \<le> maximum_tuple_byte_length m
        \<and> (\<exists>b1. c = budget_plus b1 (?n * 6 + 6) 0 \<and> (\<exists>b2. b1 = budget_plus b2 0 (?n * 32)
            \<and> validate_items E m (items t) b2 = Some (budget_plus c' 0 (items_length (items t)))))" for c c'
      unfolding decode_tuple_at_Some_iff count its charge_work_iff charge_allocation_iff
      using sizes length_bs by (simp add: ABSOLUTE_MAXIMUM_NESTING_DEPTH_def) (cases t, auto)
    then show ?thesis unfolding two_charges by blast
  qed
  also have "(\<exists>c' b2. new_budget m = budget_plus b2 (?n * 6 + 6) (?n * 32)
          \<and> validate_items E m (items t) b2 = Some (budget_plus c' 0 (items_length (items t))))
      \<longleftrightarrow> (\<exists>c'. validate_items E m (items t) (new_budget m)
            = Some (budget_plus c' (6 * ?n + 6) (32 * ?n + items_length (items t))))" (is "?L \<longleftrightarrow> ?R")
  proof
    assume ?L
    then show ?R using validate_items_frame [where E = E and limits = m and its = "items t" and w = "?n * 6 + 6" and a = "?n * 32"]
      by (fastforce simp: ac_simps)
  next
    assume ?R
    then obtain c' where all: "validate_items E m (items t) (new_budget m)
        = Some (budget_plus c' (6 * ?n + 6) (32 * ?n + items_length (items t)))" by blast
    then obtain w a where "new_budget m = budget_plus (budget_plus c' (6 * ?n + 6) (32 * ?n + items_length (items t))) w a"
      using validate_items_cost by blast
    then have b2: "new_budget m = budget_plus (budget_plus c' w (items_length (items t) + a)) (?n * 6 + 6) (?n * 32)"
      by (simp add: ac_simps)
    moreover have "validate_items E m (items t) (budget_plus c' w (items_length (items t) + a))
        = Some (budget_plus c' 0 (items_length (items t)))"
      by (rule validate_items_unframe [where w = "?n * 6 + 6" and a = "?n * 32"])
        (unfold b2 [symmetric] all, simp add: ac_simps)
    ultimately show ?L by blast
  qed
  also have "\<dots> \<longleftrightarrow> (\<exists>b. validate_items E m (items t) (new_budget m) = Some b
      \<and> 6 * ?n + 6 \<le> remaining_work_byte_length b \<and> 32 * ?n + items_length (items t) \<le> remaining_allocation_byte_length b)"
  proof -
    have "(\<exists>c'. b = budget_plus c' w a) \<longleftrightarrow> w \<le> remaining_work_byte_length b \<and> a \<le> remaining_allocation_byte_length b" for b w a
    proof
      assume "w \<le> remaining_work_byte_length b \<and> a \<le> remaining_allocation_byte_length b"
      then have "b = budget_plus \<lparr>remaining_work_byte_length = remaining_work_byte_length b - w,
          remaining_allocation_byte_length = remaining_allocation_byte_length b - a\<rparr> w a"
        by (cases b) (simp add: budget_plus_def)
      then show "\<exists>c'. b = budget_plus c' w a" by (rule exI)
    qed (auto simp: budget_plus_def)
    then show ?thesis by metis
  qed
  finally show ?thesis .
qed

section \<open>Flat tuples\<close>

text \<open>
  The tuples of the protocol's own messages and hash preimages hold no nested tuple and no
  display text.  Validating a flat item costs its length in work and no allocation, so the
  exact limits under which such a tuple is read back can be stated.
\<close>

definition flat_item :: "canonical_decode_limits \<Rightarrow> canonical_item \<Rightarrow> bool" where
  "flat_item limits item \<longleftrightarrow>
     (let bs = canonical_bytes item in
       (case item_type item of
          RawBytes \<Rightarrow> True
        | Ascii \<Rightarrow> (case decode_variable_value bs of None \<Rightarrow> False | Some v \<Rightarrow> printable_ascii v)
        | Unsigned16 \<Rightarrow> length bs = 2
        | Unsigned64 \<Rightarrow> length bs = 8
        | Hash512 \<Rightarrow> length bs = 64
        | HomogeneousList \<Rightarrow> 6 \<le> length bs \<and> u16_from_le_bytes (slice 0 2 bs) = canonical_code Hash512
            \<and> le_value (slice 2 6 bs) \<le> maximum_item_count limits
            \<and> le_value (slice 2 6 bs) * 64 < usize_bound
            \<and> length bs = 6 + le_value (slice 2 6 bs) * 64
        | _ \<Rightarrow> False))"

definition flat_tuple :: "canonical_decode_limits \<Rightarrow> canonical_tuple \<Rightarrow> bool" where
  "flat_tuple limits t \<longleftrightarrow>
     (\<forall>item \<in> set (items t). flat_item limits item
        \<and> length (canonical_bytes item) \<le> maximum_item_byte_length limits)"

lemma validate_flat_item:
  "flat_item limits item \<Longrightarrow>
   validate_item_bytes E limits (item_type item) (canonical_bytes item)
     (budget_plus b (length (canonical_bytes item) + w) a) 0 = Some (budget_plus b w a)"
  unfolding validate_item_bytes_Some_iff
  using charge_work_surplus [of "length (canonical_bytes item)" b w a]
  by (cases "item_type item")
    (auto simp: flat_item_def Let_def expected_item_length_def
      from_canonical_code_Some_iff validate_list_payload_Some_iff split: option.splits)

lemma validate_flat_items:
  "\<forall>item \<in> set its. flat_item limits item
      \<and> length (canonical_bytes item) \<le> maximum_item_byte_length limits \<Longrightarrow>
   validate_items E limits its (budget_plus b (items_length its + w) a) = Some (budget_plus b w a)"
proof (induction its)
  case Nil
  then show ?case by simp
next
  case (Cons item its)
  then show ?case
    using validate_flat_item [of limits item E b "items_length its + w" a]
    by (simp add: add.assoc)
qed

lemma new_budget_split:
  "w \<le> maximum_cumulative_work_byte_length m \<Longrightarrow>
   a \<le> maximum_cumulative_allocation_byte_length m \<Longrightarrow>
   \<exists>b. new_budget m = budget_plus b w a"
  by (rule exI [of _ "\<lparr>remaining_work_byte_length = maximum_cumulative_work_byte_length m - w,
        remaining_allocation_byte_length = maximum_cumulative_allocation_byte_length m - a\<rparr>"])
    (simp add: new_budget_def budget_plus_def)

lemma tuple_encode_flat:
  assumes "flat_tuple default_limits t"
    and "length (items t) \<le> maximum_item_count default_limits"
    and "length (tuple_bytes t) \<le> maximum_tuple_byte_length default_limits"
  shows "tuple_encode E t = Some (tuple_bytes t)"
proof -
  have "items_length (items t) \<le> maximum_cumulative_work_byte_length default_limits"
    using assms(3) by (simp add: length_tuple_bytes default_limits_def)
  then obtain b where "new_budget default_limits = budget_plus b (items_length (items t)) 0"
    using new_budget_split [of "items_length (items t)" default_limits 0] by auto
  with validate_flat_items [of "items t" default_limits E b 0 0] assms show ?thesis
    by (auto simp: tuple_encode_Some_iff flat_tuple_def)
qed

lemma tuple_decode_flat:
  assumes flat: "flat_tuple m t" and n: "length (items t) \<le> maximum_item_count m"
    and bound: "maximum_item_byte_length m < u32_bound" "length (items t) * 32 < usize_bound"
      "length (tuple_bytes t) < usize_bound"
    and len: "length (tuple_bytes t) \<le> maximum_tuple_byte_length m"
    and work: "length (tuple_bytes t) \<le> maximum_cumulative_work_byte_length m"
    and allocation: "32 * length (items t) + items_length (items t)
                       \<le> maximum_cumulative_allocation_byte_length m"
  shows "tuple_decode E (tuple_bytes t) m = Some t"
proof -
  let ?n = "length (items t)" and ?l = "items_length (items t)"
  obtain b where b: "new_budget m = budget_plus b (?l + (?n * 6 + 6)) (?n * 32 + ?l)"
    using new_budget_split [of "?l + (?n * 6 + 6)" m "?n * 32 + ?l"] work allocation
    by (auto simp: length_tuple_bytes ac_simps)
  have v: "validate_items E m (items t) (budget_plus b (?l + 0) 0) = Some (budget_plus b 0 0)"
    using flat by (intro validate_flat_items) (simp add: flat_tuple_def)
  have "decode_tuple_at E m (tuple_bytes t) (new_budget m) 0
      = Some (t, length (tuple_bytes t), budget_plus (budget_plus b 0 0) 0 0)"
    using decode_tuple_at_validated [OF v limits_le_refl bound(1) n bound(2) len bound(3), of 0 0]
    by (simp add: b)
  then show ?thesis by (simp add: tuple_decode_def decode_with_budget_def)
qed

text \<open>A decoded value is the only one its bytes encode.\<close>

lemma tuple_bytes_inj:
  assumes "tuple_bytes s = tuple_bytes t"
    and "tuple_decode E (tuple_bytes s) l = Some s" "tuple_decode E (tuple_bytes t) l = Some t"
  shows "s = t"
  using assms by (metis option.inject)

section \<open>The items of the constructors\<close>

lemma item_selectors [simp]:
  "canonical_bytes (unsigned16 w) = u16_to_le_bytes w" "item_type (unsigned16 w) = Unsigned16"
  "canonical_bytes (unsigned64 v) = u64_to_le_bytes v" "item_type (unsigned64 v) = Unsigned64"
  "canonical_bytes (hash512 h) = h" "item_type (hash512 h) = Hash512"
  by (simp_all add: unsigned16_def unsigned64_def hash512_def)

lemma fixed_bytes_Some_iff:
  "fixed_bytes bs = Some item \<longleftrightarrow>
     length bs \<le> maximum_item_byte_length default_limits
     \<and> item = \<lparr>item_type = RawBytes, canonical_bytes = bs\<rparr>"
  by (auto simp: fixed_bytes_def ensure_default_item_limit_def Option.bind_eq_Some_conv
      split: if_splits)

lemma variable_bytes_Some_iff:
  "variable_bytes bs = Some item \<longleftrightarrow>
     length bs + 4 \<le> maximum_item_byte_length default_limits
     \<and> item = \<lparr>item_type = RawBytes, canonical_bytes = le_bytes 4 (length bs) @ bs\<rparr>"
  by (auto simp: variable_bytes_def encode_variable_value_Some_iff Option.bind_eq_Some_conv
      split: if_splits)

lemma ascii_Some_iff:
  "ascii bs = Some item \<longleftrightarrow>
     length bs + 4 \<le> maximum_item_byte_length default_limits \<and> printable_ascii bs
     \<and> item = \<lparr>item_type = Ascii, canonical_bytes = le_bytes 4 (length bs) @ bs\<rparr>"
  using limits_below_bounds
  by (auto simp: ascii_def checked_variable_value_layout_def Option.bind_eq_Some_conv
      split: if_splits)

lemma variable_value_bytes_Some_iff:
  "variable_value_bytes item = Some v \<longleftrightarrow>
     item_type item \<in> {RawBytes, Ascii, DisplayText}
     \<and> decode_variable_value (canonical_bytes item) = Some v"
  by (simp add: variable_value_bytes_def)

lemma flat_items [simp]:
  "flat_item l \<lparr>item_type = RawBytes, canonical_bytes = bs\<rparr>"
  "flat_item l (unsigned16 w)" "flat_item l (unsigned64 v)"
  "flat_item l (hash512 h) \<longleftrightarrow> length h = 64"
  "length bs + 4 < usize_bound \<Longrightarrow>
     flat_item l \<lparr>item_type = Ascii, canonical_bytes = le_bytes 4 (length bs) @ bs\<rparr>
       \<longleftrightarrow> printable_ascii bs"
  by (simp_all add: flat_item_def Let_def decode_variable_value_encoded)

lemma hash512_list_Some_iff:
  assumes "\<forall>h \<in> set hs. length h = 64"
  shows "hash512_list hs = Some item \<longleftrightarrow>
     length hs \<le> maximum_item_count default_limits
     \<and> item = \<lparr>item_type = HomogeneousList, canonical_bytes =
          u16_to_le_bytes 6 @ le_bytes 4 (length hs) @ concat hs\<rparr>"
  using length_concat_const [OF assms]
  by (auto simp: hash512_list_def Let_def ensure_default_item_limit_def Option.bind_eq_Some_conv
      default_limits_def u32_bound_def split: if_splits)

lemma flat_hash512_list:
  assumes "\<forall>h \<in> set hs. length h = 64" "length hs \<le> maximum_item_count l"
    "length hs < 4096 * 4096"
  shows "flat_item l \<lparr>item_type = HomogeneousList, canonical_bytes =
          u16_to_le_bytes 6 @ le_bytes 4 (length hs) @ concat hs\<rparr>"
  using assms length_concat_const [OF assms(1)]
  by (simp add: flat_item_def Let_def slice_def usize_bound_def)

text \<open>A printable label and a raw value with their length prefix.\<close>

definition label_item :: "bytes \<Rightarrow> canonical_item" where
  "label_item domain =
     \<lparr>item_type = Ascii, canonical_bytes = le_bytes 4 (length domain) @ domain\<rparr>"

definition raw_variable :: "bytes \<Rightarrow> canonical_item" where
  "raw_variable bs = \<lparr>item_type = RawBytes, canonical_bytes = le_bytes 4 (length bs) @ bs\<rparr>"

lemma nonempty_ascii_Some_iff:
  "nonempty_ascii d = Some item \<longleftrightarrow>
     d \<noteq> [] \<and> length d + 4 \<le> maximum_item_byte_length default_limits \<and> printable_ascii d
     \<and> item = label_item d"
  by (auto simp: nonempty_ascii_def ascii_Some_iff label_item_def)

section \<open>Properties\<close>

text \<open>
  C34.  What the bounded decoder accepts is the canonical encoding of the tuple it returns:
  re-encoding the decoded items reproduces the input byte for byte, so two different inputs
  never decode to the same tuple.
\<close>

theorem decoded_bytes_are_canonical:
  assumes "tuple_decode E bs limits = Some t"
  shows "bs = tuple_bytes t \<and> length (items t) \<le> maximum_item_count limits
    \<and> (tuple_decode E' bs' limits' = Some t \<longrightarrow> bs' = bs)"
  using assms tuple_decode_sound by metis

theorem decoded_bytes_are_canonical_witness:
  "tuple_decode sample_externals [1, 0, 1, 0, 0, 0, 3, 0, 2, 0, 0, 0, 7, 0] default_limits
     = Some \<lparr>schema_identifier = 1, items = [unsigned16 7]\<rparr>
   \<and> [1, 0, 1, 0, 0, 0, 3, 0, 2, 0, 0, 0, 7, 0]
     = tuple_bytes \<lparr>schema_identifier = 1, items = [unsigned16 7]\<rparr>"
proof -
  have "tuple_decode sample_externals [1, 0, 1, 0, 0, 0, 3, 0, 2, 0, 0, 0, 7, 0] default_limits
     = Some \<lparr>schema_identifier = 1, items = [unsigned16 7]\<rparr>"
    (is "tuple_decode _ ?bs _ = Some ?t")
  proof -
    have "?bs = tuple_bytes ?t"
      by code_simp
    moreover have "tuple_decode sample_externals (tuple_bytes ?t) default_limits = Some ?t"
      by (rule tuple_decode_flat)
        (simp_all add: flat_tuple_def default_limits_def length_tuple_bytes u32_bound_def
          usize_bound_def)
    ultimately show ?thesis by simp
  qed
  from decoded_bytes_are_canonical [OF this] this show ?thesis by simp
qed

text \<open>
  C35.  What the encoder emits is read back exactly when the decoder's budgets hold it.  The encoder
  spends on a tuple what validation of its items costs; the decoder spends besides six bytes of
  work for every header, and thirty-two bytes and a copy of allocation for every item.  A decoder
  with the default limits reads the tuple back exactly when the default budgets less the encoder's
  own spending hold that surplus; a decoder with other limits, exactly when its own limits admit
  the shape and its own budgets the total; every other outcome is a refusal, never another tuple.
  A tuple without nested tuples and display text, as are the protocol's messages, is always read
  back by the default decoder.
\<close>

theorem encoded_tuples_decode:
  assumes "tuple_encode E t = Some bs"
  shows "(\<exists>b. validate_items E default_limits (items t) (new_budget default_limits) = Some b
      \<and> tuple_decode E bs default_limits
        = (if 6 * length (items t) + 6 \<le> remaining_work_byte_length b
             \<and> 32 * length (items t) + items_length (items t) \<le> remaining_allocation_byte_length b
           then Some t else None))
    \<and> (\<forall>m s. tuple_decode E bs m = Some s \<longleftrightarrow> s = t
      \<and> length (items t) \<le> maximum_item_count m \<and> length bs \<le> maximum_tuple_byte_length m
      \<and> (\<exists>b. validate_items E m (items t) (new_budget m) = Some b
          \<and> 6 * length (items t) + 6 \<le> remaining_work_byte_length b
          \<and> 32 * length (items t) + items_length (items t) \<le> remaining_allocation_byte_length b))
    \<and> (flat_tuple default_limits t \<longrightarrow> tuple_decode E bs default_limits = Some t)"
proof (intro conjI allI impI)
  have shape: "length (items t) \<le> maximum_item_count default_limits" "length bs \<le> maximum_tuple_byte_length default_limits"
    "\<exists>b. validate_items E default_limits (items t) (new_budget default_limits) = Some b"
    using assms by (auto simp: tuple_encode_Some_iff)
  show "tuple_decode E bs m = Some s \<longleftrightarrow> s = t
      \<and> length (items t) \<le> maximum_item_count m \<and> length bs \<le> maximum_tuple_byte_length m
      \<and> (\<exists>b. validate_items E m (items t) (new_budget m) = Some b
          \<and> 6 * length (items t) + 6 \<le> remaining_work_byte_length b
          \<and> 32 * length (items t) + items_length (items t) \<le> remaining_allocation_byte_length b)" for m s
    by (rule tuple_decode_encoded [OF assms])
  show "\<exists>b. validate_items E default_limits (items t) (new_budget default_limits) = Some b
      \<and> tuple_decode E bs default_limits
        = (if 6 * length (items t) + 6 \<le> remaining_work_byte_length b
             \<and> 32 * length (items t) + items_length (items t) \<le> remaining_allocation_byte_length b
           then Some t else None)"
    using shape tuple_decode_encoded [OF assms, of default_limits] by (cases "tuple_decode E bs default_limits") auto
  assume flat: "flat_tuple default_limits t"
  have "bs = tuple_bytes t" using assms by (simp add: tuple_encode_Some_iff)
  then show "tuple_decode E bs default_limits = Some t"
    using shape(1,2) flat limits_below_bounds(1)
    by (auto intro!: tuple_decode_flat simp: default_limits_def usize_bound_def length_tuple_bytes)
qed

theorem encoded_tuples_decode_witness:
  "tuple_decode sample_externals
     (tuple_bytes \<lparr>schema_identifier = 1, items = [unsigned16 7, hash512 (replicate 64 9)]\<rparr>) default_limits
   = Some \<lparr>schema_identifier = 1, items = [unsigned16 7, hash512 (replicate 64 9)]\<rparr>
   \<and> tuple_decode sample_externals
     (tuple_bytes \<lparr>schema_identifier = 1, items = [unsigned16 7, hash512 (replicate 64 9)]\<rparr>)
     (default_limits\<lparr>maximum_item_count := 1\<rparr>) = None"
proof -
  let ?t = "\<lparr>schema_identifier = 1, items = [unsigned16 7, hash512 (replicate 64 9)]\<rparr>"
  have flat: "flat_tuple default_limits ?t" by (simp add: flat_tuple_def default_limits_def)
  have enc: "tuple_encode sample_externals ?t = Some (tuple_bytes ?t)"
    by (rule tuple_encode_flat [OF flat]) (simp_all add: default_limits_def length_tuple_bytes)
  note all = encoded_tuples_decode [OF enc]
  have "tuple_decode sample_externals (tuple_bytes ?t) (default_limits\<lparr>maximum_item_count := 1\<rparr>) \<noteq> Some s" for s
    using all [THEN conjunct2, THEN conjunct1, THEN spec, THEN spec, of "default_limits\<lparr>maximum_item_count := 1\<rparr>" s] by simp
  then have "tuple_decode sample_externals (tuple_bytes ?t) (default_limits\<lparr>maximum_item_count := 1\<rparr>) = None"
    by (cases "tuple_decode sample_externals (tuple_bytes ?t) (default_limits\<lparr>maximum_item_count := 1\<rparr>)") simp_all
  then show ?thesis using all [THEN conjunct2, THEN conjunct2, THEN mp, OF flat] by simp
qed

end
