(* ===== verification/Schemas.thy ===== *)
theory Schemas
  imports Canonical_Tuple
begin

text \<open>
  The schema readers (\<open>protocol-foundations/src/foundation/schemas.rs\<close>) and what the
  bounded decoder costs on the tuples the schemas build: tuples of plain items, also nested
  in a list.  A schema refusal has one value, so a schema result is an option.
\<close>

section \<open>Readers\<close>

definition require_header :: "canonical_tuple \<Rightarrow> u16 \<Rightarrow> nat \<Rightarrow> unit option" where
  "require_header tuple schema item_count =
     (if schema_identifier tuple \<noteq> schema then None
      else if length (items tuple) \<noteq> item_count then None
      else Some ())"

definition read_item :: "canonical_item \<Rightarrow> canonical_item_type \<Rightarrow> bytes option" where
  "read_item item expected_type =
     (if item_type item \<noteq> expected_type then None else Some (canonical_bytes item))"

definition read_variable_item :: "canonical_item \<Rightarrow> canonical_item_type \<Rightarrow> bytes option" where
  "read_variable_item item expected_type =
     (if item_type item \<noteq> expected_type then None else variable_value_bytes item)"

definition read_u16 :: "canonical_item \<Rightarrow> u16 option" where
  "read_u16 item = do {
     bs \<leftarrow> read_item item Unsigned16;
     (if length bs \<noteq> 2 then None else Some (u16_from_le_bytes bs)) }"

text \<open>The identifier is kept as its UTF-8 bytes.\<close>

definition read_ascii :: "canonical_item \<Rightarrow> bytes option" where
  "read_ascii item = do {
     bs \<leftarrow> read_variable_item item Ascii;
     (if utf8_decode bs = None then None else Some bs) }"

definition read_nested_tuple_list_header :: "canonical_item \<Rightarrow> (nat \<times> bytes) option" where
  "read_nested_tuple_list_header item = do {
     bs \<leftarrow> read_item item HomogeneousList;
     (if length bs < 6 \<or> u16_from_le_bytes (slice 0 2 bs) \<noteq> canonical_code NestedTuple
      then None
      else Some (le_value (slice 2 6 bs), drop 6 bs)) }"

fun read_tuples ::
  "externals \<Rightarrow> canonical_decode_limits \<Rightarrow> nat \<Rightarrow> bytes \<Rightarrow> nat \<Rightarrow> canonical_decode_budget
    \<Rightarrow> (canonical_tuple list \<times> nat \<times> canonical_decode_budget) option" where
  "read_tuples E limits 0 bs offset budget = Some ([], offset, budget)"
| "read_tuples E limits (Suc remaining) bs offset budget = do {
     (tuple, consumed, budget1) \<leftarrow> decode_tuple_at E limits (drop offset bs) budget 1;
     next_offset \<leftarrow> checked_add offset consumed;
     (rest, final_offset, budget2) \<leftarrow> read_tuples E limits remaining bs next_offset budget1;
     Some (tuple # rest, final_offset, budget2) }"

definition read_nested_tuple_list_with_budget ::
  "externals \<Rightarrow> canonical_item \<Rightarrow> canonical_decode_limits \<Rightarrow> canonical_decode_budget
    \<Rightarrow> (canonical_tuple list \<times> canonical_decode_budget) option" where
  "read_nested_tuple_list_with_budget E item limits budget = do {
     (count, bs) \<leftarrow> read_nested_tuple_list_header item;
     (if count > maximum_item_count limits then None
      else do {
        (tuples, offset, budget1) \<leftarrow> read_tuples E limits count bs 0 budget;
        (if offset \<noteq> length bs then None else Some (tuples, budget1)) }) }"

section \<open>Plain items\<close>

text \<open>
  A plain item is a flat item or a display text.  Its validation costs its length in work
  and, for a text, the text's bytes in allocation, at every admitted nesting depth.
\<close>

definition plain_item :: "externals \<Rightarrow> canonical_decode_limits \<Rightarrow> canonical_item \<Rightarrow> bool" where
  "plain_item E limits item \<longleftrightarrow>
     (if item_type item = DisplayText
      then (case decode_variable_value (canonical_bytes item) of
              None \<Rightarrow> False | Some v \<Rightarrow> from_canonical_utf8 E v \<noteq> None)
      else flat_item limits item)"

definition plain_items ::
  "externals \<Rightarrow> canonical_decode_limits \<Rightarrow> canonical_item list \<Rightarrow> bool" where
  "plain_items E limits its \<longleftrightarrow>
     (\<forall>item \<in> set its. plain_item E limits item
        \<and> length (canonical_bytes item) \<le> maximum_item_byte_length limits)"

definition text_cost :: "canonical_item \<Rightarrow> nat" where
  "text_cost item =
     (if item_type item = DisplayText then length (canonical_bytes item) - 4 else 0)"

definition texts_cost :: "canonical_item list \<Rightarrow> nat" where
  "texts_cost its = sum_list (map text_cost its)"

definition admitted_depth :: "canonical_decode_limits \<Rightarrow> nat \<Rightarrow> bool" where
  "admitted_depth limits depth \<longleftrightarrow>
     depth \<le> maximum_nesting_depth limits \<and> depth \<le> ABSOLUTE_MAXIMUM_NESTING_DEPTH"

lemma texts_cost_simps [simp]:
  "texts_cost [] = 0" "texts_cost (item # its) = text_cost item + texts_cost its"
  by (simp_all add: texts_cost_def)

lemma texts_cost_le: "texts_cost its \<le> items_length its"
  by (induction its) (auto simp: text_cost_def)

lemma plain_items_simps [simp]:
  "plain_items E limits []"
  "plain_items E limits (item # its) \<longleftrightarrow> plain_item E limits item
     \<and> length (canonical_bytes item) \<le> maximum_item_byte_length limits \<and> plain_items E limits its"
  by (auto simp: plain_items_def)

lemma decode_variable_value_length:
  "decode_variable_value bs = Some v \<Longrightarrow> length v = length bs - 4"
  by (auto dest!: decode_variable_value_sound)

lemma validate_flat_item_at:
  assumes "flat_item limits item" "admitted_depth limits depth"
  shows "validate_item_bytes E limits (item_type item) (canonical_bytes item)
     (budget_plus b (length (canonical_bytes item) + w) a) depth = Some (budget_plus b w a)"
  unfolding validate_item_bytes_Some_iff
  using assms charge_work_surplus [of "length (canonical_bytes item)" b w a]
  by (cases "item_type item")
    (auto simp: flat_item_def Let_def expected_item_length_def admitted_depth_def
      from_canonical_code_Some_iff validate_list_payload_Some_iff split: option.splits)

lemma validate_plain_item:
  assumes "plain_item E limits item" "admitted_depth limits depth"
  shows "validate_item_bytes E limits (item_type item) (canonical_bytes item)
     (budget_plus b (length (canonical_bytes item) + w) (text_cost item + a)) depth
       = Some (budget_plus b w a)"
proof (cases "item_type item = DisplayText")
  case True
  with assms(1) obtain v where v: "decode_variable_value (canonical_bytes item) = Some v"
    and "from_canonical_utf8 E v \<noteq> None"
    by (auto simp: plain_item_def split: option.splits)
  moreover have "charge_allocation (length v) (budget_plus b w (text_cost item + a))
      = Some (budget_plus b w a)"
    using True decode_variable_value_length [OF v]
    by (simp add: text_cost_def charge_allocation_surplus)
  ultimately show ?thesis
    using True assms(2)
    unfolding validate_item_bytes_Some_iff
    by (auto simp: expected_item_length_def admitted_depth_def intro!: exI charge_work_surplus)
next
  case False
  with assms show ?thesis
    using validate_flat_item_at [of limits item depth E b w a]
    by (simp add: plain_item_def text_cost_def)
qed

lemma validate_plain_items:
  assumes "plain_items E limits its"
  shows "validate_items E limits its
     (budget_plus b (items_length its + w) (texts_cost its + a)) = Some (budget_plus b w a)"
  using assms
proof (induction its)
  case Nil
  then show ?case by simp
next
  case (Cons item its)
  then show ?case
    using validate_plain_item [of E limits item 0 b "items_length its + w" "texts_cost its + a"]
    by (simp add: add.assoc admitted_depth_def)
qed

section \<open>Plain tuples are read back at their cost\<close>

lemma decode_plain_items:
  assumes "plain_items E m its" "admitted_depth m depth"
    and "maximum_item_byte_length m < u32_bound" "length bs < usize_bound"
    and "bs = pre @ concat (map encode_item its) @ post"
  shows "decode_items E m bs
      (budget_plus b (items_length its + w) (items_length its + texts_cost its + a))
      depth (length its) (length pre)
    = Some (its, length pre + length (concat (map encode_item its)), budget_plus b w a)"
  using assms
proof (induction its arbitrary: pre)
  case Nil
  then show ?case by (simp add: decode_items.simps)
next
  case (Cons item its)
  let ?len = "length (canonical_bytes item)"
  let ?w = "items_length its + w" and ?a = "items_length its + texts_cost its + a"
  have bs: "bs = pre @ encode_item item @ concat (map encode_item its) @ post"
    using Cons.prems(5) by simp
  have small: "?len \<le> maximum_item_byte_length m" using Cons.prems(1) by simp
  then have "?len < u32_bound" using Cons.prems(3) by simp
  note slices = item_header_slices [OF this bs]
  have len_bs: "length pre + 6 + ?len \<le> length bs" using bs by simp
  have v: "validate_item_bytes E m (item_type item) (canonical_bytes item)
      (budget_plus b (?len + ?w) (text_cost item + (?len + ?a))) depth
        = Some (budget_plus b ?w (?len + ?a))"
    using Cons.prems(1,2) by (intro validate_plain_item) simp_all
  have c: "charge_allocation ?len (budget_plus b ?w (?len + ?a)) = Some (budget_plus b ?w ?a)"
    by (rule charge_allocation_surplus)
  have r: "decode_items E m bs (budget_plus b ?w ?a) depth (length its) (length pre + 6 + ?len)
      = Some (its, length pre + 6 + ?len + length (concat (map encode_item its)),
          budget_plus b w a)"
    using Cons.IH [of "pre @ encode_item item"] Cons.prems(1-4) bs by (simp add: add.assoc)
  have "decode_items E m bs (budget_plus b (?len + ?w) (text_cost item + (?len + ?a)))
      depth (Suc (length its)) (length pre)
      = Some (item # its, length pre + 6 + ?len + length (concat (map encode_item its)),
          budget_plus b w a)"
    unfolding decode_items_Suc_Some_iff slices u16_le_roundtrip from_canonical_code_code
    using len_bs small Cons.prems(4) v c r by (auto intro!: exI)
  then show ?case by (simp add: ac_simps)
qed

definition tuple_work :: "canonical_tuple \<Rightarrow> nat" where
  "tuple_work t = length (tuple_bytes t)"

definition tuple_allocation :: "canonical_tuple \<Rightarrow> nat" where
  "tuple_allocation t =
     length (items t) * 32 + (items_length (items t) + texts_cost (items t))"

definition readable :: "externals \<Rightarrow> canonical_decode_limits \<Rightarrow> canonical_tuple \<Rightarrow> bool" where
  "readable E m t \<longleftrightarrow> plain_items E m (items t) \<and> length (items t) \<le> maximum_item_count m"

definition word_limits :: "canonical_decode_limits \<Rightarrow> bool" where
  "word_limits m \<longleftrightarrow> maximum_item_byte_length m < u32_bound
     \<and> maximum_tuple_byte_length m < usize_bound \<and> maximum_item_count m * 32 < usize_bound"

lemma decode_plain_tuple:
  assumes t: "readable E m t" and depth: "admitted_depth m depth" and m: "word_limits m"
    and len: "length (tuple_bytes t @ post) \<le> maximum_tuple_byte_length m"
  shows "decode_tuple_at E m (tuple_bytes t @ post)
      (budget_plus b (tuple_work t + w) (tuple_allocation t + a)) depth
    = Some (t, length (tuple_bytes t), budget_plus b w a)"
proof -
  let ?bs = "tuple_bytes t @ post" and ?n = "length (items t)"
  let ?pre = "u16_to_le_bytes (schema_identifier t) @ le_bytes 4 ?n"
  have n: "?n \<le> maximum_item_count m" and plain: "plain_items E m (items t)"
    using t by (simp_all add: readable_def)
  have small: "?n * 32 < usize_bound" "length ?bs < usize_bound"
    "maximum_item_byte_length m < u32_bound"
    using n m len by (auto simp: word_limits_def)
  have bs: "?bs = ?pre @ concat (map encode_item (items t)) @ post"
    by (simp add: tuple_bytes_def)
  have len_t: "length (tuple_bytes t) = 6 + 6 * ?n + items_length (items t)"
    by (rule length_tuple_bytes)
  have slices: "le_value (slice 2 6 ?bs) = ?n"
    "slice 0 2 ?bs = u16_to_le_bytes (schema_identifier t)"
    using small(1) by (simp_all add: slice_def tuple_bytes_def usize_bound_def)
  have its: "decode_items E m ?bs (budget_plus b (items_length (items t) + w)
        (items_length (items t) + texts_cost (items t) + a)) depth ?n 6
      = Some (items t, length (tuple_bytes t), budget_plus b w a)"
    using decode_plain_items [OF plain depth small(3,2) bs, of b w a] by (simp add: len_t)
  have work: "tuple_work t + w = ?n * 6 + 6 + (items_length (items t) + w)"
    and alloc: "tuple_allocation t + a
      = ?n * 32 + (items_length (items t) + texts_cost (items t) + a)"
    by (simp_all add: tuple_work_def tuple_allocation_def len_t)
  have "6 \<le> length ?bs" "?n * 6 + 6 \<le> length ?bs" "?n * 6 + 6 < usize_bound"
    using len_t small(2) by auto
  then show ?thesis
    unfolding decode_tuple_at_Some_iff slices work alloc
    using n its depth len small(1)
    by (auto simp: admitted_depth_def intro!: exI conjI charge_work_surplus charge_allocation_surplus)
qed

lemma tuple_encode_plain:
  assumes "readable E default_limits t"
    and "length (tuple_bytes t) \<le> maximum_tuple_byte_length default_limits"
  shows "tuple_encode E t = Some (tuple_bytes t)"
proof -
  have le: "items_length (items t) \<le> 64 * 1024 * 1024" "texts_cost (items t) \<le> 64 * 1024 * 1024"
    using assms(2) texts_cost_le [of "items t"]
    unfolding length_tuple_bytes by (auto simp: default_limits_def)
  then obtain b where "new_budget default_limits
      = budget_plus b (items_length (items t)) (texts_cost (items t))"
    using new_budget_split [of "items_length (items t)" default_limits "texts_cost (items t)"]
    by (auto simp: default_limits_def)
  with assms show ?thesis
    using validate_plain_items [of E default_limits "items t" b 0 0]
    by (auto simp: tuple_encode_Some_iff readable_def)
qed

lemma tuple_decode_plain:
  assumes "readable E m t" "word_limits m" "length (tuple_bytes t) \<le> maximum_tuple_byte_length m"
    and "tuple_work t \<le> maximum_cumulative_work_byte_length m"
    and "tuple_allocation t \<le> maximum_cumulative_allocation_byte_length m"
  shows "tuple_decode E (tuple_bytes t) m = Some t"
proof -
  obtain b where "new_budget m = budget_plus b (tuple_work t + 0) (tuple_allocation t + 0)"
    using new_budget_split [OF assms(4,5)] by auto
  with decode_plain_tuple [OF assms(1) _ assms(2), of 0 "[]" b 0 0] assms(3)
  show ?thesis by (simp add: tuple_decode_def decode_with_budget_def admitted_depth_def)
qed

section \<open>Lists of plain tuples\<close>

definition tuples_work :: "canonical_tuple list \<Rightarrow> nat" where
  "tuples_work ts = sum_list (map tuple_work ts)"

definition tuples_allocation :: "canonical_tuple list \<Rightarrow> nat" where
  "tuples_allocation ts = sum_list (map tuple_allocation ts)"

lemma tuples_cost_simps [simp]:
  "tuples_work [] = 0" "tuples_work (t # ts) = tuple_work t + tuples_work ts"
  "tuples_allocation [] = 0"
  "tuples_allocation (t # ts) = tuple_allocation t + tuples_allocation ts"
  by (simp_all add: tuples_work_def tuples_allocation_def)

lemma length_concat_tuple_bytes: "length (concat (map tuple_bytes ts)) = tuples_work ts"
  by (induction ts) (auto simp: tuple_work_def)

lemma read_plain_tuples:
  assumes "\<forall>t \<in> set ts. readable E m t" and "admitted_depth m 1" "word_limits m"
    and "bs = pre @ concat (map tuple_bytes ts)" "length bs \<le> maximum_tuple_byte_length m"
  shows "read_tuples E m (length ts) bs (length pre)
      (budget_plus b (tuples_work ts + w) (tuples_allocation ts + a))
    = Some (ts, length bs, budget_plus b w a)"
  using assms
proof (induction ts arbitrary: pre)
  case Nil
  then show ?case by simp
next
  case (Cons t ts)
  let ?w = "tuples_work ts + w" and ?a = "tuples_allocation ts + a"
  have bs: "bs = (pre @ tuple_bytes t) @ concat (map tuple_bytes ts)" using Cons.prems(4) by simp
  have d: "decode_tuple_at E m (tuple_bytes t @ concat (map tuple_bytes ts))
      (budget_plus b (tuple_work t + ?w) (tuple_allocation t + ?a)) 1
        = Some (t, length (tuple_bytes t), budget_plus b ?w ?a)"
    using Cons.prems by (intro decode_plain_tuple) auto
  have fits: "length pre + length (tuple_bytes t) < usize_bound"
    using Cons.prems(3,4,5) by (auto simp: word_limits_def)
  have "read_tuples E m (length ts) bs (length pre + length (tuple_bytes t))
      (budget_plus b ?w ?a) = Some (ts, length bs, budget_plus b w a)"
    using Cons.IH [OF _ Cons.prems(2,3) bs Cons.prems(5)] Cons.prems(1) by simp
  with d fits Cons.prems(4) show ?case by (simp add: checked_add_def add.assoc)
qed

lemma read_tuples_validate:
  "read_tuples E m n bs off b = Some (ts, off', b') \<Longrightarrow>
   validate_tuples E m n bs off b 1 = Some (off', b')"
proof (induction n arbitrary: off b ts)
  case 0
  then show ?case by (simp add: validate_tuples.simps)
next
  case (Suc n)
  then show ?case
    by (fastforce simp: validate_tuples.simps Option.bind_eq_Some_conv split: prod.splits)
qed

lemma read_tuples_sound:
  "read_tuples E m n bs off b = Some (ts, off', b') \<Longrightarrow> off \<le> length bs \<Longrightarrow>
   off \<le> off' \<and> off' \<le> length bs \<and> length ts = n \<and> concat (map tuple_bytes ts) = slice off off' bs"
proof (induction n arbitrary: off b ts)
  case 0
  then show ?case by (simp add: slice_def)
next
  case (Suc n)
  then obtain t c b1 ts' where d: "decode_tuple_at E m (drop off bs) b 1 = Some (t, c, b1)"
    and r: "read_tuples E m n bs (off + c) b1 = Some (ts', off', b')" and ts: "ts = t # ts'"
    by (auto simp: Option.bind_eq_Some_conv split: prod.splits)
  from decode_tuple_at_sound [OF d] Suc.prems(2)
  have c: "off + c \<le> length bs" "tuple_bytes t = slice off (off + c) bs"
    by (auto simp: slice_def)
  from Suc.IH [OF r c(1)] c(2) ts show ?case by (auto simp: slice_split)
qed

lemma nested_tuple_list_plain:
  assumes "\<forall>t \<in> set ts. readable E default_limits t"
    and "length ts \<le> maximum_item_count default_limits"
    and "6 + tuples_work ts \<le> maximum_item_byte_length default_limits"
  shows "nested_tuple_list E ts = Some \<lparr>item_type = HomogeneousList, canonical_bytes =
     u16_to_le_bytes (canonical_code NestedTuple) @ le_bytes 4 (length ts)
       @ concat (map tuple_bytes ts)\<rparr>"
proof -
  have "encode_all E ts = Some (map tuple_bytes ts)"
    if "\<forall>t \<in> set ts. readable E default_limits t" "tuples_work ts \<le> 16 * 1024 * 1024" for ts
    using that
  proof (induction ts)
    case (Cons t ts)
    then show ?case
      using tuple_encode_plain [of E t] by (simp add: tuple_work_def default_limits_def)
  qed simp
  moreover have "tuples_work ts \<le> 16 * 1024 * 1024" using assms(3) by (simp add: default_limits_def)
  ultimately have enc: "encode_all E ts = Some (map tuple_bytes ts)" using assms(1) by blast
  have "payload_length len (map tuple_bytes ts) = Some (len + tuples_work ts)"
    if "len + tuples_work ts < usize_bound" for len
    using that
  proof (induction ts arbitrary: len)
    case (Cons t ts)
    then show ?case by (simp add: tuple_work_def checked_add_def add.assoc)
  qed simp
  from this [of 0] have pay: "payload_length 0 (map tuple_bytes ts) = Some (tuples_work ts)"
    using assms(3) by (simp add: default_limits_def usize_bound_def)
  have "length ts < u32_bound" using assms(2) by (simp add: default_limits_def u32_bound_def)
  with enc pay assms(2,3) show ?thesis
    by (simp add: nested_tuple_list_def u32_try_from_def checked_add_def default_limits_def
        usize_bound_def u32_bound_def)
qed

end
