(* ===== verification/Supported_Profile.thy ===== *)
theory Supported_Profile
  imports Prelude
begin

text \<open>
  The supported poll profiles (\<open>supported-profile/src/lib.rs\<close>): the thresholds of the
  protocol, the decoded profile table, the Proth moduli, and the closed-form layout of the
  setup statement and the setup relation's witness.  The bytes of \<open>profiles.bin\<close> are the
  argument \<open>TABLE\<close>; where the source panics on a malformed table the model returns
  \<open>None\<close>.
\<close>

section \<open>Integer helpers of the standard library\<close>

definition div_ceil :: "nat \<Rightarrow> nat \<Rightarrow> nat" where
  "div_ceil a b = (if a mod b = 0 then a div b else a div b + 1)"

fun bit_length :: "nat \<Rightarrow> nat" where
  "bit_length n = (if n = 0 then 0 else Suc (bit_length (n div 2)))"

declare bit_length.simps [simp del]

definition next_power_of_two :: "nat \<Rightarrow> nat" where
  "next_power_of_two n = 2 ^ bit_length (n - 1)"

text \<open>\<open>start..=end\<close> as its bounds.\<close>

record range_inclusive =
  range_start :: nat
  range_end :: nat

definition range_contains :: "range_inclusive \<Rightarrow> nat \<Rightarrow> bool" where
  "range_contains r n \<longleftrightarrow> range_start r \<le> n \<and> n \<le> range_end r"

definition range_count :: "range_inclusive \<Rightarrow> nat" where
  "range_count r = range_end r + 1 - range_start r"

definition range_list :: "range_inclusive \<Rightarrow> nat list" where
  "range_list r = [range_start r ..< range_end r + 1]"

section \<open>Constants\<close>

definition RECORD_BYTES :: nat where "RECORD_BYTES = 30"
definition STATEMENT_MAGIC :: bytes where "STATEMENT_MAGIC = [83, 67, 79, 50]"
definition DEGREE :: nat where "DEGREE = 65536"
definition AUXILIARY_DEGREE :: nat where "AUXILIARY_DEGREE = 4096"
definition FHE_LIMB_BITS :: nat where "FHE_LIMB_BITS = 96"
definition GADGET_BASE_BITS :: nat where "GADGET_BASE_BITS = 88"
definition MINIMUM_SCORE :: nat where "MINIMUM_SCORE = 1"
definition MAXIMUM_SCORE :: nat where "MAXIMUM_SCORE = 10"
definition PLAINTEXT_MODULUS :: nat where "PLAINTEXT_MODULUS = 12289"
definition GADGET_POLYNOMIALS :: nat where "GADGET_POLYNOMIALS = 7"
definition GADGET_KEY_COMPONENTS :: "nat list" where "GADGET_KEY_COMPONENTS = [1, 2, 4, 6]"
definition FHE_SECRET_SUPPORT :: nat where "FHE_SECRET_SUPPORT = 1024"
definition SHARE_EPHEMERAL_SUPPORT :: nat where "SHARE_EPHEMERAL_SUPPORT = 256"
definition AUXILIARY_SECRET_SUPPORT :: nat where "AUXILIARY_SECRET_SUPPORT = 256"
definition RECIPIENT_SECRET_SUPPORT :: nat where "RECIPIENT_SECRET_SUPPORT = 256"
definition SHARE_SCALE :: nat where "SHARE_SCALE = 998244353"
definition SETUP_QUOTIENT_BITS :: nat where "SETUP_QUOTIENT_BITS = 16"
definition SETUP_FHE_CARRY_BITS :: nat where "SETUP_FHE_CARRY_BITS = 16"
definition SETUP_ERROR_BITS :: nat where "SETUP_ERROR_BITS = 7"
definition WORD_BITS :: nat where "WORD_BITS = 16"
definition RELEASE_LIMB_BITS :: nat where "RELEASE_LIMB_BITS = 48"
definition RELEASE_CARRY_BITS :: nat where "RELEASE_CARRY_BITS = 72"
definition RELEASE_DECODING_LIMB_BITS :: nat where "RELEASE_DECODING_LIMB_BITS = 96"
definition RELEASE_DECODING_ERROR_BITS :: nat where "RELEASE_DECODING_ERROR_BITS = 24"
definition RELEASE_DECODING_CARRY_BITS :: nat where "RELEASE_DECODING_CARRY_BITS = 30"

section \<open>The table\<close>

record profile_table =
  table_share :: bytes
  table_auxiliary :: bytes
  table_fixed_sample_bits :: nat
  table_participants :: range_inclusive
  table_options :: range_inclusive
  table_records :: bytes

definition table :: "bytes \<Rightarrow> profile_table option" where
  "table TABLE =
     (if length TABLE < 1 then None
      else let share_end = 1 + unat (TABLE ! 0) in
        if length TABLE \<le> share_end then None
        else let auxiliary_end = share_end + 1 + unat (TABLE ! share_end) in
          if length TABLE < auxiliary_end + 6 then None
          else
            let fixed_sample_bits = le_value (slice auxiliary_end (auxiliary_end + 2) TABLE);
                bounds = slice (auxiliary_end + 2) (auxiliary_end + 6) TABLE;
                participants = \<lparr>range_start = unat (bounds ! 0), range_end = unat (bounds ! 1)\<rparr>;
                options = \<lparr>range_start = unat (bounds ! 2), range_end = unat (bounds ! 3)\<rparr>;
                records = drop (auxiliary_end + 6) TABLE
            in if length records \<noteq> range_count participants * range_count options * RECORD_BYTES
               then None
               else Some \<lparr> table_share = slice 1 share_end TABLE,
                           table_auxiliary = slice (share_end + 1) auxiliary_end TABLE,
                           table_fixed_sample_bits = fixed_sample_bits,
                           table_participants = participants,
                           table_options = options,
                           table_records = records \<rparr>)"

definition share_modulus :: "bytes \<Rightarrow> bytes option" where
  "share_modulus TABLE = map_option table_share (table TABLE)"

definition auxiliary_modulus :: "bytes \<Rightarrow> bytes option" where
  "auxiliary_modulus TABLE = map_option table_auxiliary (table TABLE)"

definition fixed_common_sample_bits :: "bytes \<Rightarrow> nat option" where
  "fixed_common_sample_bits TABLE = map_option table_fixed_sample_bits (table TABLE)"

section \<open>Proth moduli\<close>

record proth_modulus =
  proth_exponent :: nat
  proth_odd_factor :: u32
  proth_witness :: u16

definition proth_decode :: "bytes \<Rightarrow> proth_modulus" where
  "proth_decode bs =
     \<lparr> proth_exponent = le_value (slice 0 2 bs),
       proth_odd_factor = word_of_nat (le_value (slice 2 6 bs)),
       proth_witness = u16_from_le_bytes (slice 6 8 bs) \<rparr>"

text \<open>\<open>u32::BITS - leading_zeros\<close> is the bit length of the odd factor.\<close>

definition bits :: "proth_modulus \<Rightarrow> nat" where
  "bits m = proth_exponent m + bit_length (unat (proth_odd_factor m))"

definition byte_length :: "proth_modulus \<Rightarrow> nat" where
  "byte_length m = div_ceil (bits m) 8"

text \<open>The loop over the shifted factor's bytes: past the end, a byte has to be zero.\<close>

fun or_bytes :: "bytes \<Rightarrow> nat \<Rightarrow> bytes \<Rightarrow> bytes option" where
  "or_bytes bs index [] = Some bs"
| "or_bytes bs index (byte # rest) =
     (if index < length bs then or_bytes (bs[index := bs ! index OR byte]) (index + 1) rest
      else if byte = 0 then or_bytes bs (index + 1) rest
      else None)"

definition to_bytes :: "proth_modulus \<Rightarrow> bytes option" where
  "to_bytes m =
     (if proth_exponent m = 0 \<or> byte_length m = 0 then None
      else
        let bs = (replicate (byte_length m) 0)[0 := 1];
            shifted = push_bit (proth_exponent m mod 8) (ucast (proth_odd_factor m) :: u64)
        in or_bytes bs (proth_exponent m div 8) (u64_to_le_bytes shifted))"

section \<open>Thresholds\<close>

definition maximum_corrupt_participants :: "nat \<Rightarrow> nat" where
  "maximum_corrupt_participants participants = (participants - 1) div 3"

definition inventory_threshold :: "nat \<Rightarrow> nat" where
  "inventory_threshold participants = participants - maximum_corrupt_participants participants"

definition minimum_turnout :: "nat \<Rightarrow> nat" where
  "minimum_turnout participants = maximum_corrupt_participants participants + 2"

section \<open>Profiles\<close>

record profile =
  participants :: nat
  options :: nat
  ciphertext :: proth_modulus
  release :: proth_modulus
  release_noise_bits :: nat
  release_share_bits :: nat
  release_quotient_bits :: nat
  common_sample_bits :: nat
  sharing_coefficient_bits :: nat
  share_limb_bits :: nat
  share_carry_bits :: nat

definition profile_new :: "bytes \<Rightarrow> nat \<Rightarrow> nat \<Rightarrow> profile option" where
  "profile_new TABLE n m =
     (case table TABLE of None \<Rightarrow> None
      | Some t \<Rightarrow>
        if \<not> range_contains (table_participants t) n \<or> \<not> range_contains (table_options t) m
        then None
        else
          let index = (n - range_start (table_participants t)) * range_count (table_options t)
                        + (m - range_start (table_options t));
              record = slice (index * RECORD_BYTES) ((index + 1) * RECORD_BYTES) (table_records t);
              word = (\<lambda>offset. le_value (slice offset (offset + 2) record))
          in Some \<lparr> participants = n, options = m,
                    ciphertext = proth_decode (slice 0 8 record),
                    release = proth_decode (slice 8 16 record),
                    release_noise_bits = word 16,
                    release_share_bits = word 18,
                    release_quotient_bits = word 20,
                    common_sample_bits = word 22,
                    sharing_coefficient_bits = word 24,
                    share_limb_bits = word 26,
                    share_carry_bits = word 28 \<rparr>)"

text \<open>\<open>Profile::all\<close>, with the \<open>None\<close> the source would unwrap.\<close>

definition all_profiles :: "bytes \<Rightarrow> profile option list" where
  "all_profiles TABLE =
     (case table TABLE of None \<Rightarrow> []
      | Some t \<Rightarrow> concat (map (\<lambda>n. map (profile_new TABLE n) (range_list (table_options t)))
                          (range_list (table_participants t))))"

definition release_threshold :: "profile \<Rightarrow> nat" where
  "release_threshold p = max (maximum_corrupt_participants (participants p) + 1) 2"

definition setup_contributors :: "profile \<Rightarrow> nat" where
  "setup_contributors p = release_threshold p"

definition setup_eligible_contributors :: "profile \<Rightarrow> nat" where
  "setup_eligible_contributors p =
     setup_contributors p + maximum_corrupt_participants (participants p)"

definition sharing_degree :: "profile \<Rightarrow> nat" where
  "sharing_degree p = release_threshold p - 1"

definition interpolation_degree :: "profile \<Rightarrow> nat" where
  "interpolation_degree p = next_power_of_two (div_ceil (participants p) 2)"

definition point_stride :: "profile \<Rightarrow> nat" where
  "point_stride p = DEGREE div interpolation_degree p"

definition clearing_factor :: "profile \<Rightarrow> nat" where
  "clearing_factor p = next_power_of_two (release_threshold p)"

definition gadget_length :: "profile \<Rightarrow> nat" where
  "gadget_length p = div_ceil (bits (ciphertext p)) GADGET_BASE_BITS"

definition fhe_limbs :: "profile \<Rightarrow> nat" where
  "fhe_limbs p = div_ceil (bits (ciphertext p)) FHE_LIMB_BITS"

definition same_fhe_key_family :: "profile \<Rightarrow> profile \<Rightarrow> bool" where
  "same_fhe_key_family p q \<longleftrightarrow>
     to_bytes (ciphertext p) = to_bytes (ciphertext q)
     \<and> common_sample_bits p = common_sample_bits q"

definition release_public_limbs :: "profile \<Rightarrow> nat" where
  "release_public_limbs p = div_ceil (bits (release p)) RELEASE_LIMB_BITS"

definition release_share_limbs :: "profile \<Rightarrow> nat" where
  "release_share_limbs p = div_ceil (release_share_bits p) RELEASE_LIMB_BITS"

definition release_quotient_limbs :: "profile \<Rightarrow> nat" where
  "release_quotient_limbs p = div_ceil (release_quotient_bits p) RELEASE_LIMB_BITS"

definition release_output_limbs :: "profile \<Rightarrow> nat" where
  "release_output_limbs p =
     release_public_limbs p + max (release_share_limbs p) (release_quotient_limbs p) - 1"

definition release_variable_bits :: "profile \<Rightarrow> nat list" where
  "release_variable_bits p =
     [SETUP_QUOTIENT_BITS, SETUP_FHE_CARRY_BITS, SETUP_ERROR_BITS, release_share_bits p,
      RELEASE_DECODING_ERROR_BITS, SETUP_QUOTIENT_BITS, RELEASE_DECODING_CARRY_BITS,
      release_noise_bits p, release_quotient_bits p]
     @ replicate (release_output_limbs p - 1) RELEASE_CARRY_BITS"

definition comparison_degree :: "profile \<Rightarrow> nat" where
  "comparison_degree p = 2 * (MAXIMUM_SCORE - 1) * participants p + 1"

definition rank_window :: "profile \<Rightarrow> nat" where
  "rank_window p = next_power_of_two (options p)"

section \<open>The setup statement\<close>

datatype family = Fhe | Sharing | Auxiliary

definition family_modulus :: "bytes \<Rightarrow> profile \<Rightarrow> family \<Rightarrow> bytes option" where
  "family_modulus TABLE p f =
     (case f of Fhe \<Rightarrow> to_bytes (ciphertext p)
      | Sharing \<Rightarrow> share_modulus TABLE
      | Auxiliary \<Rightarrow> auxiliary_modulus TABLE)"

definition family_magnitude_bytes :: "bytes \<Rightarrow> profile \<Rightarrow> family \<Rightarrow> nat option" where
  "family_magnitude_bytes TABLE p f =
     (case f of Fhe \<Rightarrow> Some (byte_length (ciphertext p))
      | Sharing \<Rightarrow> map_option length (share_modulus TABLE)
      | Auxiliary \<Rightarrow> map_option length (auxiliary_modulus TABLE))"

definition family_degree :: "family \<Rightarrow> nat" where
  "family_degree f = (case f of Auxiliary \<Rightarrow> AUXILIARY_DEGREE | _ \<Rightarrow> DEGREE)"

definition share_common_polynomial :: "profile \<Rightarrow> nat" where
  "share_common_polynomial p = GADGET_POLYNOMIALS * gadget_length p"

definition setup_polynomials :: "profile \<Rightarrow> nat" where
  "setup_polynomials p = GADGET_POLYNOMIALS * gadget_length p + 3 * participants p + 1"

definition fhe_polynomial :: "profile \<Rightarrow> nat \<Rightarrow> nat \<Rightarrow> nat option" where
  "fhe_polynomial p gadget component =
     (if gadget < gadget_length p \<and> component < GADGET_POLYNOMIALS
      then Some (GADGET_POLYNOMIALS * gadget + component) else None)"

definition fhe_polynomial_position :: "profile \<Rightarrow> nat \<Rightarrow> (nat \<times> nat) option" where
  "fhe_polynomial_position p index =
     (if index < share_common_polynomial p
      then Some (index div GADGET_POLYNOMIALS, index mod GADGET_POLYNOMIALS) else None)"

definition recipient_key_polynomial :: "profile \<Rightarrow> nat \<Rightarrow> nat option" where
  "recipient_key_polynomial p recipient =
     (if recipient < participants p
      then Some (share_common_polynomial p + 1 + 3 * recipient) else None)"

definition share_constant_polynomial :: "profile \<Rightarrow> nat \<Rightarrow> nat option" where
  "share_constant_polynomial p recipient =
     map_option (\<lambda>k. k + 1) (recipient_key_polynomial p recipient)"

definition share_linear_polynomial :: "profile \<Rightarrow> nat \<Rightarrow> nat option" where
  "share_linear_polynomial p recipient =
     map_option (\<lambda>k. k + 2) (recipient_key_polynomial p recipient)"

definition setup_variable_bits :: "profile \<Rightarrow> nat list" where
  "setup_variable_bits p =
     concat (replicate (sharing_degree p)
       [share_limb_bits p, sharing_coefficient_bits p - share_limb_bits p])
     @ concat (replicate (4 * gadget_length p)
         (SETUP_QUOTIENT_BITS # replicate (fhe_limbs p - 1) SETUP_FHE_CARRY_BITS
           @ [SETUP_ERROR_BITS]))
     @ concat (replicate (participants p)
         [SETUP_QUOTIENT_BITS, share_carry_bits p, SETUP_ERROR_BITS,
          SETUP_QUOTIENT_BITS, SETUP_FHE_CARRY_BITS, SETUP_ERROR_BITS])"

record setup_shape =
  word_columns :: nat
  boolean_columns :: nat
  narrow_words :: "(nat \<times> nat) list"
  sparse_supports :: "(nat \<times> nat) list"

text \<open>The loop of \<open>Profile::setup_shape\<close> over the signed variables' widths.\<close>

fun allocate_columns :: "nat list \<Rightarrow> setup_shape \<Rightarrow> setup_shape" where
  "allocate_columns [] s = s"
| "allocate_columns (width # rest) s =
     allocate_columns rest
       (if width < WORD_BITS
        then s\<lparr>narrow_words := narrow_words s @ [(word_columns s, width)],
               word_columns := word_columns s + 1\<rparr>
        else s\<lparr>word_columns := word_columns s + width div WORD_BITS,
               boolean_columns := boolean_columns s + width mod WORD_BITS\<rparr>)"

definition setup_shape_of :: "profile \<Rightarrow> setup_shape" where
  "setup_shape_of p =
     (let supports = replicate 2 (1, FHE_SECRET_SUPPORT div 2)
                       @ replicate (participants p) (1, SHARE_EPHEMERAL_SUPPORT div 2)
      in allocate_columns (setup_variable_bits p)
           \<lparr> word_columns = 0, boolean_columns = 2 * length supports,
             narrow_words = [], sparse_supports = supports \<rparr>)"

definition setup_statement_header :: "profile \<Rightarrow> bytes option" where
  "setup_statement_header p =
     map_option (\<lambda>modulus. STATEMENT_MAGIC @ modulus) (to_bytes (ciphertext p))"

definition setup_family :: "profile \<Rightarrow> nat \<Rightarrow> family option" where
  "setup_family p index =
     (if index < share_common_polynomial p then Some Fhe
      else if index < setup_polynomials p then Some Sharing
      else None)"

definition setup_polynomial_bytes :: "bytes \<Rightarrow> profile \<Rightarrow> nat \<Rightarrow> nat option" where
  "setup_polynomial_bytes TABLE p index = do {
     f \<leftarrow> setup_family p index;
     magnitude \<leftarrow> family_magnitude_bytes TABLE p f;
     Some (family_degree f * (1 + magnitude)) }"

text \<open>The sum over every setup polynomial, in order.\<close>

fun sum_options :: "nat option list \<Rightarrow> nat option" where
  "sum_options [] = Some 0"
| "sum_options (x # xs) = do { a \<leftarrow> x; b \<leftarrow> sum_options xs; Some (a + b) }"

definition setup_statement_length :: "bytes \<Rightarrow> profile \<Rightarrow> nat option" where
  "setup_statement_length TABLE p = do {
     header \<leftarrow> setup_statement_header p;
     body \<leftarrow> sum_options (map (setup_polynomial_bytes TABLE p) [0 ..< setup_polynomials p]);
     Some (length header + body) }"

text \<open>
  Every index below is in range, so the assertions of the index functions hold; the model
  keeps the polynomials as the list of their (defined) indices.
\<close>

definition contribution_body_polynomials :: "profile \<Rightarrow> nat list" where
  "contribution_body_polynomials p =
     concat (map (\<lambda>gadget. List.map_filter (fhe_polynomial p gadget) GADGET_KEY_COMPONENTS)
                 [0 ..< gadget_length p])
     @ concat (map (\<lambda>recipient. List.map_filter id
                     [share_constant_polynomial p recipient, share_linear_polynomial p recipient])
                   [0 ..< participants p])"

definition committed_polynomials :: "profile \<Rightarrow> nat list" where
  "committed_polynomials p =
     filter (\<lambda>index. index < share_common_polynomial p \<and> fhe_polynomial p 0 1 \<noteq> Some index)
       (contribution_body_polynomials p)"

definition committed_columns :: "profile \<Rightarrow> nat" where
  "committed_columns p = length (committed_polynomials p) * fhe_limbs p"

definition streamed_contribution_polynomials :: "profile \<Rightarrow> nat list" where
  "streamed_contribution_polynomials p =
     (let committed = committed_polynomials p
      in filter (\<lambda>index. index \<notin> set committed) (contribution_body_polynomials p))"

section \<open>Powers of two\<close>

lemma bit_length_0 [simp]: "bit_length 0 = 0"
  by (simp add: bit_length.simps)

lemma bit_length_upper: "n < 2 ^ bit_length n"
proof (induction n rule: bit_length.induct)
  case (1 n)
  show ?case
  proof (cases "n = 0")
    case False
    with 1 have "n div 2 < 2 ^ bit_length (n div 2)" by simp
    then have "n < 2 * 2 ^ bit_length (n div 2)" by linarith
    with False show ?thesis by (subst bit_length.simps) simp
  qed simp
qed

lemma bit_length_lower: "0 < n \<Longrightarrow> 2 ^ bit_length n \<le> 2 * n"
proof (induction n rule: bit_length.induct)
  case (1 n)
  show ?case
  proof (cases "n = 1")
    case True
    then show ?thesis by (simp add: bit_length.simps)
  next
    case False
    with 1 have "2 ^ bit_length (n div 2) \<le> 2 * (n div 2)" by simp
    with "1.prems" show ?thesis by (subst bit_length.simps) simp
  qed
qed

lemma next_power_of_two_ge: "n \<le> next_power_of_two n"
  using bit_length_upper [of "n - 1"] by (simp add: next_power_of_two_def)

lemma next_power_of_two_pos [simp]: "0 < next_power_of_two n"
  by (simp add: next_power_of_two_def)

lemma next_power_of_two_less: "1 < n \<Longrightarrow> next_power_of_two n \<le> 2 * (n - 1)"
  using bit_length_lower [of "n - 1"] by (simp add: next_power_of_two_def)

lemma next_power_of_two_least:
  assumes "n \<le> 2 ^ k"
  shows "next_power_of_two n \<le> 2 ^ k"
proof (cases "n \<le> 1")
  case True
  then show ?thesis by (simp add: next_power_of_two_def)
next
  case False
  then have "(2::nat) ^ bit_length (n - 1) < 2 * 2 ^ k"
    using bit_length_lower [of "n - 1"] assms by linarith
  then have "(2::nat) ^ bit_length (n - 1) < 2 ^ Suc k" by simp
  then have "bit_length (n - 1) < Suc k" by (rule power_less_imp_less_exp [rotated]) simp
  then show ?thesis by (simp add: next_power_of_two_def power_increasing)
qed

lemma div_ceil_bounds:
  "0 < b \<Longrightarrow> a \<le> b * div_ceil a b" "0 < b \<Longrightarrow> 0 < a \<Longrightarrow> b * (div_ceil a b - 1) < a"
proof -
  assume b: "0 < b"
  have e: "a = b * (a div b) + a mod b" by simp
  have m: "a mod b < b" using b by simp
  have "a \<le> b + b * (a div b)" using e m by linarith
  then show "a \<le> b * div_ceil a b"
    using e by (auto simp: div_ceil_def distrib_left)
  assume "0 < a"
  then show "b * (div_ceil a b - 1) < a"
  proof (cases "a mod b = 0")
    case False
    then have "b * (a div b) < a" using e by linarith
    with False show ?thesis by (simp add: div_ceil_def)
  qed (use e b in \<open>auto simp: div_ceil_def diff_mult_distrib2\<close>)
qed

section \<open>The bytes of a Proth modulus\<close>

lemma unat_or_disjoint:
  fixes x y :: byte
  assumes "x AND y = 0"
  shows "unat (x OR y) = unat x + unat y"
proof -
  have "unat x AND unat y = 0"
    using assms by (metis unsigned_and_eq unsigned_0)
  then have "unat x + unat y = unat x OR unat y"
    by (intro disjunctive_add_eq_or)
  then show ?thesis by (simp add: unsigned_or_eq)
qed

lemma le_value_update:
  "i < length bs \<Longrightarrow>
   le_value (bs[i := b]) + 256 ^ i * unat (bs ! i) = le_value bs + 256 ^ i * unat b"
proof (induction bs arbitrary: i)
  case Nil
  then show ?case by simp
next
  case (Cons c bs)
  show ?case
  proof (cases i)
    case (Suc k)
    with Cons have "256 * (le_value (bs[k := b]) + 256 ^ k * unat (bs ! k))
        = 256 * (le_value bs + 256 ^ k * unat b)" by simp
    with Suc show ?thesis by (simp add: distrib_left)
  qed simp
qed

lemma or_bytes_value:
  assumes "\<forall>j > i. j < length bs \<longrightarrow> bs ! j = 0"
    and "xs \<noteq> [] \<longrightarrow> i < length bs \<longrightarrow> bs ! i AND hd xs = 0"
    and "256 ^ i * le_value xs < 256 ^ length bs"
  shows "\<exists>out. or_bytes bs i xs = Some out \<and> length out = length bs
    \<and> le_value out = le_value bs + 256 ^ i * le_value xs"
  using assms
proof (induction xs arbitrary: bs i)
  case Nil
  then show ?case by simp
next
  case (Cons x xs)
  show ?case
  proof (cases "i < length bs")
    case True
    let ?bs = "bs[i := bs ! i OR x]"
    have "\<forall>j > i + 1. j < length ?bs \<longrightarrow> ?bs ! j = 0" using Cons.prems(1) by simp
    moreover have "xs \<noteq> [] \<longrightarrow> i + 1 < length ?bs \<longrightarrow> ?bs ! (i + 1) AND hd xs = 0"
      using Cons.prems(1) by simp
    moreover have "256 ^ (i + 1) * le_value xs < 256 ^ length ?bs"
      using Cons.prems(3) by (simp add: algebra_simps)
    ultimately obtain out where out: "or_bytes ?bs (i + 1) xs = Some out"
      "length out = length ?bs" "le_value out = le_value ?bs + 256 ^ (i + 1) * le_value xs"
      using Cons.IH by metis
    have "unat (bs ! i OR x) = unat (bs ! i) + unat x"
      using Cons.prems(2) True by (simp add: unat_or_disjoint)
    then have "le_value ?bs = le_value bs + 256 ^ i * unat x"
      using le_value_update [OF True, of "bs ! i OR x"] by (simp add: algebra_simps)
    with out True show ?thesis by (simp add: algebra_simps)
  next
    case False
    then have ge: "(256::nat) ^ length bs \<le> 256 ^ i" by (simp add: power_increasing)
    have "le_value (x # xs) = 0"
    proof (rule ccontr)
      assume "le_value (x # xs) \<noteq> 0"
      then have "(256::nat) ^ i * 1 \<le> 256 ^ i * le_value (x # xs)"
        by (intro mult_le_mono2) linarith
      with ge Cons.prems(3) show False by linarith
    qed
    then have zero: "x = 0" "le_value xs = 0" by (simp_all add: unat_eq_0)
    then obtain out where "or_bytes bs (i + 1) xs = Some out" "length out = length bs"
      "le_value out = le_value bs"
      using Cons.IH [where bs = bs and i = "i + 1"] Cons.prems(1) False by auto
    with zero False show ?thesis by simp
  qed
qed

lemma le_value_replicate_0 [simp]: "le_value (replicate n 0) = 0"
  by (induction n) auto

lemma hd_u64_to_le_bytes: "unat (hd (u64_to_le_bytes w)) = unat w mod 256"
proof -
  have "le_bytes 8 v = byte_of (v mod 256) # le_bytes 7 (v div 256)" for v
    using le_bytes.simps(2) [of 7 v] by simp
  then show ?thesis by (simp add: u64_to_le_bytes_def)
qed

lemma to_bytes_value:
  assumes "0 < proth_exponent m"
  shows "\<exists>bs. to_bytes m = Some bs \<and> length bs = byte_length m
    \<and> le_value bs = unat (proth_odd_factor m) * 2 ^ proth_exponent m + 1"
proof -
  let ?e = "proth_exponent m" and ?k = "unat (proth_odd_factor m)"
  let ?L = "byte_length m"
  let ?shifted = "push_bit (?e mod 8) (ucast (proth_odd_factor m) :: u64)"
  let ?xs = "u64_to_le_bytes ?shifted"
  have L: "?e + bit_length ?k \<le> 8 * ?L"
    using div_ceil_bounds(1) [of 8 "bits m"] by (simp add: byte_length_def bits_def)
  have pos: "0 < ?L" using L assms by (cases ?L) auto
  have k32: "?k < 2 ^ 32" using unsigned_less [of "proth_odd_factor m"] by simp
  have "?k * 2 ^ (?e mod 8) < 2 ^ 32 * 2 ^ 8"
    by (rule mult_strict_mono [OF k32 power_strict_increasing]) simp_all
  then have sh: "unat ?shifted = ?k * 2 ^ (?e mod 8)"
    using k32
    by (simp only: unsigned_push_bit_eq unsigned_ucast_eq) (simp add: push_bit_eq_mult take_bit_eq_mod)
  have "unat ?shifted < 256 ^ 8" using unsigned_less [of ?shifted] by simp
  with sh have xs: "le_value ?xs = ?k * 2 ^ (?e mod 8)"
    by (simp add: u64_to_le_bytes_def)
  have "(256::nat) ^ (?e div 8) * 2 ^ (?e mod 8) = 2 ^ (8 * (?e div 8) + ?e mod 8)"
    by (simp only: power_add power_mult) simp
  then have "(256::nat) ^ (?e div 8) * 2 ^ (?e mod 8) = 2 ^ ?e" by simp
  then have total: "256 ^ (?e div 8) * le_value ?xs = ?k * 2 ^ ?e"
    by (simp add: xs)
  have "?k * 2 ^ ?e < 2 ^ bit_length ?k * 2 ^ ?e"
    using bit_length_upper [of ?k] by simp
  also have "\<dots> = 2 ^ (?e + bit_length ?k)" by (simp add: power_add)
  also have "\<dots> \<le> 2 ^ (8 * ?L)" using L by (intro power_increasing) auto
  also have "\<dots> = 256 ^ ?L" by (simp add: power_mult)
  finally have fits: "256 ^ (?e div 8) * le_value ?xs < 256 ^ ?L" by (simp add: total)
  let ?bs = "(replicate ?L (0::byte))[0 := 1]"
  have "?bs ! (?e div 8) AND hd ?xs = 0" if "?e div 8 < ?L"
  proof (cases "?e div 8 = 0")
    case False
    then show ?thesis using that by simp
  next
    case True
    then have "even (unat ?shifted)"
      using assms sh by (simp add: even_mult_iff div_eq_0_iff)
    then have "even (unat (hd ?xs))"
      by (simp add: hd_u64_to_le_bytes dvd_mod)
    then have "unat (1 AND hd ?xs) = 0" by (simp only: unsigned_and_eq unsigned_1) (simp add: one_and_eq)
    then have "1 AND hd ?xs = 0" by (simp add: unat_eq_0)
    then show ?thesis using True pos by simp
  qed
  then obtain out where "or_bytes ?bs (?e div 8) ?xs = Some out" "length out = ?L"
    "le_value out = le_value ?bs + ?k * 2 ^ ?e"
    using or_bytes_value [of "?e div 8" ?bs ?xs] fits total by (auto simp: nth_list_update)
  moreover have "le_value ?bs = 1" using pos by (cases ?L) auto
  ultimately show ?thesis using assms pos by (simp add: to_bytes_def Let_def)
qed
section \<open>Thresholds and quorums\<close>

text \<open>
  What every certified step relies on: a count of faults and a quorum size such that the
  non-faulty alone form a quorum and any two quorums share more than the faulty.
\<close>

locale quorum_system =
  fixes faults quorum :: "nat \<Rightarrow> nat"
  assumes live: "0 < n \<Longrightarrow> faults n + quorum n \<le> n"
    and overlap: "0 < n \<Longrightarrow> n + faults n < 2 * quorum n"
begin

lemma faults_twice_below_quorum: "0 < n \<Longrightarrow> 2 * faults n < quorum n"
  using live [of n] overlap [of n] by linarith

lemma quorums_overlap:
  assumes "finite U" "U \<noteq> {}" "A \<subseteq> U" "B \<subseteq> U"
    and "quorum (card U) \<le> card A" "quorum (card U) \<le> card B"
  shows "faults (card U) < card (A \<inter> B)"
proof -
  have fin: "finite A" "finite B" using assms finite_subset by auto
  have "card A + card B = card (A \<union> B) + card (A \<inter> B)" by (rule card_Un_Int [OF fin])
  moreover have "card (A \<union> B) \<le> card U" using assms by (intro card_mono) auto
  moreover have "card U + faults (card U) < 2 * quorum (card U)"
    using assms by (intro overlap) (simp add: card_gt_0_iff)
  ultimately show ?thesis using assms(5,6) by linarith
qed

lemma quorums_share_honest:
  assumes "finite U" "U \<noteq> {}" "A \<subseteq> U" "B \<subseteq> U"
    and "quorum (card U) \<le> card A" "quorum (card U) \<le> card B"
    and "finite C" "card C \<le> faults (card U)"
  shows "\<exists>x \<in> A \<inter> B. x \<notin> C"
proof (rule ccontr)
  assume "\<not> ?thesis"
  then have "A \<inter> B \<subseteq> C" by blast
  then have "card (A \<inter> B) \<le> card C" using assms(7) by (rule card_mono [rotated])
  with quorums_overlap [OF assms(1-6)] assms(8) show False by simp
qed

lemma quorum_has_honest_majority:
  assumes "finite U" "U \<noteq> {}" "A \<subseteq> U" "quorum (card U) \<le> card A"
    and "finite C" "card C \<le> faults (card U)"
  shows "faults (card U) < card (A - C)"
proof -
  have "0 < card U" using assms by (simp add: card_gt_0_iff)
  from faults_twice_below_quorum [OF this] show ?thesis
    using diff_card_le_card_Diff [OF assms(5), of A] assms(4,6) by linarith
qed

lemma honest_form_quorum:
  assumes "finite U" "U \<noteq> {}" "C \<subseteq> U" "card C \<le> faults (card U)"
  shows "quorum (card U) \<le> card (U - C)"
proof -
  have "0 < card U" using assms by (simp add: card_gt_0_iff)
  from live [OF this] show ?thesis
    using assms(4) card_Diff_subset [OF finite_subset [OF assms(3,1)] assms(3)] by linarith
qed

end

interpretation inventory: quorum_system maximum_corrupt_participants inventory_threshold
  by unfold_locales (auto simp: maximum_corrupt_participants_def inventory_threshold_def)

lemma maximum_corrupt_bound: "0 < n \<Longrightarrow> 3 * maximum_corrupt_participants n < n"
  by (simp add: maximum_corrupt_participants_def)

text \<open>The other thresholds, for at least three participants.\<close>

lemma threshold_bounds:
  assumes "3 \<le> participants p"
  shows "maximum_corrupt_participants (participants p) < release_threshold p"
    "release_threshold p \<le> inventory_threshold (participants p)"
    "setup_eligible_contributors p \<le> participants p"
    "minimum_turnout (participants p) \<le> inventory_threshold (participants p)"
  using assms
  by (auto simp: maximum_corrupt_participants_def release_threshold_def inventory_threshold_def
      setup_eligible_contributors_def setup_contributors_def minimum_turnout_def)

lemma clearing_factor_bounds:
  "release_threshold p \<le> clearing_factor p" "clearing_factor p \<le> 2 * sharing_degree p"
  using next_power_of_two_ge [of "release_threshold p"]
    next_power_of_two_less [of "release_threshold p"]
  by (auto simp: clearing_factor_def sharing_degree_def release_threshold_def)

lemma interpolation_points_separate:
  assumes "2 \<le> participants p"
  shows "participants p \<le> 2 * interpolation_degree p" "interpolation_degree p < participants p"
proof -
  let ?h = "div_ceil (participants p) 2"
  show "participants p \<le> 2 * interpolation_degree p"
    using div_ceil_bounds(1) [of 2 "participants p"] next_power_of_two_ge [of ?h]
    by (simp add: interpolation_degree_def)
  have h: "2 * (?h - 1) < participants p"
    using div_ceil_bounds(2) [of 2 "participants p"] assms by simp
  show "interpolation_degree p < participants p"
  proof (cases "1 < ?h")
    case True
    with h next_power_of_two_less [of ?h] show ?thesis by (simp add: interpolation_degree_def)
  next
    case False
    then have "interpolation_degree p = 1"
      by (simp add: interpolation_degree_def next_power_of_two_def)
    with assms show ?thesis by simp
  qed
qed

text \<open>Up to the ring degree's own bound, the points are whole strides of the ring.\<close>

lemma point_stride_exact:
  assumes "participants p \<le> 2 * DEGREE"
  shows "point_stride p * interpolation_degree p = DEGREE"
proof -
  have "div_ceil (participants p) 2 \<le> 2 ^ 16"
    using assms by (auto simp: div_ceil_def DEGREE_def) presburger+
  then have "interpolation_degree p \<le> 2 ^ 16"
    unfolding interpolation_degree_def by (rule next_power_of_two_least)
  then have "bit_length (div_ceil (participants p) 2 - 1) \<le> 16"
    unfolding interpolation_degree_def next_power_of_two_def
    by (rule power_le_imp_le_exp [rotated]) simp
  then have "interpolation_degree p dvd 2 ^ 16"
    unfolding interpolation_degree_def next_power_of_two_def by (rule le_imp_power_dvd)
  then show ?thesis by (simp add: point_stride_def DEGREE_def)
qed
section \<open>The setup statement's polynomials\<close>

lemma fhe_polynomial_position_iff:
  "fhe_polynomial p g c = Some i \<longleftrightarrow> fhe_polynomial_position p i = Some (g, c)"
proof -
  have "g < gadget_length p \<and> c < 7 \<and> i = 7 * g + c
      \<longleftrightarrow> i < 7 * gadget_length p \<and> g = i div 7 \<and> c = i mod 7" by auto
  then show ?thesis
    by (auto simp: fhe_polynomial_def fhe_polynomial_position_def share_common_polynomial_def
        GADGET_POLYNOMIALS_def)
qed

lemma contribution_body_polynomials_eq:
  "contribution_body_polynomials p =
     concat (map (\<lambda>g. [7 * g + 1, 7 * g + 2, 7 * g + 4, 7 * g + 6]) [0 ..< gadget_length p])
     @ concat (map (\<lambda>r. [7 * gadget_length p + 3 * r + 2, 7 * gadget_length p + 3 * r + 3])
                [0 ..< participants p])"
proof -
  have "map (\<lambda>g. List.map_filter (fhe_polynomial p g) GADGET_KEY_COMPONENTS) [0 ..< gadget_length p]
      = map (\<lambda>g. [7 * g + 1, 7 * g + 2, 7 * g + 4, 7 * g + 6]) [0 ..< gadget_length p]"
    by (auto simp: fhe_polynomial_def GADGET_POLYNOMIALS_def GADGET_KEY_COMPONENTS_def map_filter_simps)
  moreover have "map (\<lambda>r. List.map_filter id
        [share_constant_polynomial p r, share_linear_polynomial p r]) [0 ..< participants p]
      = map (\<lambda>r. [7 * gadget_length p + 3 * r + 2, 7 * gadget_length p + 3 * r + 3])
          [0 ..< participants p]"
    by (auto simp: share_constant_polynomial_def share_linear_polynomial_def
        recipient_key_polynomial_def share_common_polynomial_def GADGET_POLYNOMIALS_def map_filter_simps)
  ultimately show ?thesis by (simp only: contribution_body_polynomials_def)
qed

lemma sorted_concat_blocks:
  assumes "\<And>i. i < n \<Longrightarrow> sorted_wrt (<) (f i)"
    and "\<And>i x. i < n \<Longrightarrow> x \<in> set (f i) \<Longrightarrow> c + b * i \<le> x \<and> x < c + b * Suc i"
  shows "sorted_wrt (<) (concat (map f [0 ..< n]))"
  using assms
proof (induction n)
  case 0
  then show ?case by simp
next
  case (Suc n)
  have "x < y" if x: "x \<in> set (concat (map f [0 ..< n]))" and y: "y \<in> set (f n)" for x y
  proof -
    from x obtain i where i: "i < n" "x \<in> set (f i)" by auto
    then have "x < c + b * Suc i" using Suc.prems(2) [of i x] by simp
    also have "\<dots> \<le> c + b * n" using i(1) by (intro add_left_mono mult_le_mono2) simp
    also have "\<dots> \<le> y" using Suc.prems(2) [of n y] y by simp
    finally show ?thesis .
  qed
  moreover have "sorted_wrt (<) (concat (map f [0 ..< n]))"
    by (rule Suc.IH) (use Suc.prems in \<open>simp_all add: less_Suc_eq\<close>)
  moreover have "sorted_wrt (<) (f n)" by (rule Suc.prems(1)) simp
  ultimately show ?case by (simp add: sorted_wrt_append)
qed

lemma contribution_body_sorted: "sorted_wrt (<) (contribution_body_polynomials p)"
proof -
  let ?G = "gadget_length p"
  have g: "sorted_wrt (<) (concat (map (\<lambda>g. [7 * g + 1, 7 * g + 2, 7 * g + 4, 7 * g + 6]) [0 ..< ?G]))"
    by (rule sorted_concat_blocks [where b = 7 and c = 0]) auto
  have r: "sorted_wrt (<) (concat (map (\<lambda>r. [7 * ?G + 3 * r + 2, 7 * ?G + 3 * r + 3])
      [0 ..< participants p]))"
    by (rule sorted_concat_blocks [where b = 3 and c = "7 * ?G + 1"]) auto
  have "x < 7 * ?G" if "x \<in> set (concat (map (\<lambda>g. [7 * g + 1, 7 * g + 2, 7 * g + 4, 7 * g + 6])
      [0 ..< ?G]))" for x
    using that by auto
  moreover have "7 * ?G < y" if "y \<in> set (concat (map (\<lambda>r. [7 * ?G + 3 * r + 2,
      7 * ?G + 3 * r + 3]) [0 ..< participants p]))" for y
    using that by auto
  ultimately show ?thesis
    unfolding contribution_body_polynomials_eq sorted_wrt_append
    by (intro conjI g r ballI) (rule less_trans)
qed

lemma contribution_body_bounds:
  "length (contribution_body_polynomials p) = 4 * gadget_length p + 2 * participants p"
  "i \<in> set (contribution_body_polynomials p) \<Longrightarrow> i < setup_polynomials p"
proof -
  have const: "sum_list (map (\<lambda>x. c) [0 ..< n]) = c * n" for c n :: nat
    by (simp add: sum_list_triv)
  show "length (contribution_body_polynomials p) = 4 * gadget_length p + 2 * participants p"
    by (simp add: contribution_body_polynomials_eq length_concat comp_def const)
  assume "i \<in> set (contribution_body_polynomials p)"
  then show "i < setup_polynomials p"
    by (auto simp: contribution_body_polynomials_eq setup_polynomials_def GADGET_POLYNOMIALS_def)
qed

lemma body_partition:
  "set (committed_polynomials p) \<union> set (streamed_contribution_polynomials p)
     = set (contribution_body_polynomials p)"
  "set (committed_polynomials p) \<inter> set (streamed_contribution_polynomials p) = {}"
  by (auto simp: committed_polynomials_def streamed_contribution_polynomials_def Let_def)

lemma streamed_contribution_polynomials_eq:
  assumes "0 < gadget_length p"
  shows "streamed_contribution_polynomials p =
    1 # concat (map (\<lambda>r. [7 * gadget_length p + 3 * r + 2, 7 * gadget_length p + 3 * r + 3])
                [0 ..< participants p])"
proof -
  let ?G = "gadget_length p"
  let ?keys = "\<lambda>g. [7 * g + 1, 7 * g + 2, 7 * g + 4, 7 * g + 6]"
  have fp: "fhe_polynomial p 0 1 = Some 1"
    using assms by (simp add: fhe_polynomial_def GADGET_POLYNOMIALS_def)
  have st: "streamed_contribution_polynomials p =
      filter (\<lambda>i. 7 * ?G \<le> i \<or> i = 1) (contribution_body_polynomials p)"
    unfolding streamed_contribution_polynomials_def committed_polynomials_def Let_def fp
    by (rule filter_cong)
      (auto simp: share_common_polynomial_def GADGET_POLYNOMIALS_def)
  have split: "[0 ..< ?G] = 0 # [1 ..< ?G]" using assms by (simp add: upt_conv_Cons)
  have "filter (\<lambda>i. 7 * ?G \<le> i \<or> i = 1) (concat (map ?keys [0 ..< ?G])) = [1]"
    unfolding split using assms
    by (auto simp: filter_concat filter_empty_conv concat_eq_Nil_conv)
  moreover have "filter (\<lambda>i. 7 * ?G \<le> i \<or> i = 1)
      (concat (map (\<lambda>r. [7 * ?G + 3 * r + 2, 7 * ?G + 3 * r + 3]) [0 ..< participants p]))
    = concat (map (\<lambda>r. [7 * ?G + 3 * r + 2, 7 * ?G + 3 * r + 3]) [0 ..< participants p])"
    by (auto simp: filter_id_conv)
  ultimately show ?thesis
    unfolding st contribution_body_polynomials_eq filter_append by simp
qed

section \<open>The setup relation's columns\<close>

text \<open>
  Every bit of every signed variable has a column: narrow words hold their whole width,
  the other word columns sixteen bits, and the Boolean columns past the sparse supports
  one bit each.
\<close>

definition column_bits :: "setup_shape \<Rightarrow> nat" where
  "column_bits s = WORD_BITS * (word_columns s - length (narrow_words s))
     + sum_list (map snd (narrow_words s))
     + (boolean_columns s - 2 * length (sparse_supports s))"

definition shape_ok :: "setup_shape \<Rightarrow> bool" where
  "shape_ok s \<longleftrightarrow>
     (\<forall>(column, width) \<in> set (narrow_words s). column < word_columns s \<and> width < WORD_BITS)
     \<and> sorted_wrt (<) (map fst (narrow_words s))
     \<and> length (narrow_words s) \<le> word_columns s
     \<and> 2 * length (sparse_supports s) \<le> boolean_columns s"

lemma allocate_columns_step:
  assumes "shape_ok s"
  shows "shape_ok (allocate_columns widths s)
    \<and> column_bits (allocate_columns widths s) = column_bits s + sum_list widths
    \<and> sparse_supports (allocate_columns widths s) = sparse_supports s"
  using assms
proof (induction widths arbitrary: s)
  case Nil
  then show ?case by simp
next
  case (Cons w ws)
  show ?case
  proof (cases "w < WORD_BITS")
    case True
    let ?s = "s\<lparr>narrow_words := narrow_words s @ [(word_columns s, w)],
                word_columns := word_columns s + 1\<rparr>"
    have "shape_ok ?s" using Cons.prems True
      by (auto simp: shape_ok_def sorted_wrt_append)
    moreover have "column_bits ?s = column_bits s + w"
      using Cons.prems by (simp add: column_bits_def shape_ok_def)
    ultimately show ?thesis using Cons.IH [of ?s] True by simp
  next
    case False
    let ?s = "s\<lparr>word_columns := word_columns s + w div WORD_BITS,
                boolean_columns := boolean_columns s + w mod WORD_BITS\<rparr>"
    have "shape_ok ?s" using Cons.prems by (fastforce simp: shape_ok_def)
    moreover have "column_bits ?s = column_bits s + w"
    proof -
      have "WORD_BITS * (word_columns s + w div WORD_BITS - length (narrow_words s))
          = WORD_BITS * (word_columns s - length (narrow_words s)) + WORD_BITS * (w div WORD_BITS)"
        using Cons.prems by (simp add: shape_ok_def flip: distrib_left)
      moreover have "WORD_BITS * (w div WORD_BITS) + w mod WORD_BITS = w" by simp
      ultimately show ?thesis using Cons.prems by (simp add: column_bits_def shape_ok_def)
    qed
    ultimately show ?thesis using Cons.IH [of ?s] False by simp
  qed
qed

lemma setup_shape_accounts_for_every_bit:
  "shape_ok (setup_shape_of p)
   \<and> column_bits (setup_shape_of p) = sum_list (setup_variable_bits p)
   \<and> length (sparse_supports (setup_shape_of p)) = participants p + 2"
proof -
  let ?s = "\<lparr> word_columns = 0, boolean_columns = 2 * (participants p + 2), narrow_words = [],
      sparse_supports = replicate 2 (1, FHE_SECRET_SUPPORT div 2)
        @ replicate (participants p) (1, SHARE_EPHEMERAL_SUPPORT div 2) \<rparr>"
  have "shape_ok ?s" "column_bits ?s = 0" by (simp_all add: shape_ok_def column_bits_def)
  moreover have "setup_shape_of p = allocate_columns (setup_variable_bits p) ?s"
    by (simp add: setup_shape_of_def Let_def)
  ultimately show ?thesis
    using allocate_columns_step [of ?s "setup_variable_bits p"] by simp
qed

section \<open>Reading the table\<close>

lemma table_records_length:
  "table TABLE = Some t \<Longrightarrow>
   length (table_records t)
     = range_count (table_participants t) * range_count (table_options t) * RECORD_BYTES"
  by (auto simp: table_def Let_def split: if_splits)

text \<open>The record a supported profile reads is whole and is its own.\<close>

lemma profile_index_bound:
  assumes "range_contains r n" "range_contains q m"
  shows "(n - range_start r) * range_count q + (m - range_start q) < range_count r * range_count q"
proof -
  have n: "n - range_start r < range_count r" and m: "m - range_start q < range_count q"
    using assms by (auto simp: range_contains_def range_count_def)
  have "(n - range_start r) * range_count q + (m - range_start q)
      < (n - range_start r + 1) * range_count q" using m by simp
  also have "\<dots> \<le> range_count r * range_count q" using n by (intro mult_le_mono1) simp
  finally show ?thesis .
qed

lemma profile_new_Some_iff:
  "(\<exists>p. profile_new TABLE n m = Some p) \<longleftrightarrow>
     (\<exists>t. table TABLE = Some t \<and> range_contains (table_participants t) n
        \<and> range_contains (table_options t) m)"
  by (auto simp: profile_new_def Let_def split: option.splits)

lemma profile_new_dimensions:
  "profile_new TABLE n m = Some p \<Longrightarrow> participants p = n \<and> options p = m"
  by (auto simp: profile_new_def Let_def split: option.splits if_splits)

lemma all_profiles_supported:
  "None \<notin> set (all_profiles TABLE)"
  "Some p \<in> set (all_profiles TABLE) \<longleftrightarrow> (\<exists>n m. profile_new TABLE n m = Some p)"
proof -
  show "None \<notin> set (all_profiles TABLE)"
    by (auto simp: all_profiles_def range_list_def profile_new_def range_contains_def Let_def
        split: option.splits if_splits)
  show "Some p \<in> set (all_profiles TABLE) \<longleftrightarrow> (\<exists>n m. profile_new TABLE n m = Some p)"
    by (fastforce simp: all_profiles_def range_list_def profile_new_def range_contains_def Let_def
        split: option.splits if_splits)
qed

section \<open>Properties\<close>

text \<open>
  Quorums of the inventory: with at most the tolerated number of corrupt participants,
  any two sets of the inventory threshold share a participant who is not corrupt, and the
  participants who are not corrupt reach the threshold on their own.
\<close>

theorem inventory_quorums_share_an_honest_participant:
  assumes "0 < n" "A \<subseteq> {..<n}" "B \<subseteq> {..<n}" "C \<subseteq> {..<n}"
    and "inventory_threshold n \<le> card A" "inventory_threshold n \<le> card B"
    and "card C \<le> maximum_corrupt_participants n"
  shows "(\<exists>x \<in> A \<inter> B. x \<notin> C) \<and> inventory_threshold n \<le> card ({..<n} - C)"
proof -
  have ne: "{..<n} \<noteq> {}" "finite {..<n}" "finite C"
    using assms(1,4) finite_subset by auto
  show ?thesis
    using inventory.quorums_share_honest [OF ne(2,1) assms(2,3) _ _ ne(3)]
      inventory.honest_form_quorum [OF ne(2,1) assms(4)] assms(5-7) by simp
qed

theorem inventory_quorums_share_an_honest_participant_witness:
  "(\<exists>x \<in> {0, 1, 2} \<inter> {1, 2, 3 :: nat}. x \<notin> {1}) \<and> inventory_threshold 4 \<le> card ({..<4} - {1 :: nat})"
  by (rule inventory_quorums_share_an_honest_participant)
    (auto simp: inventory_threshold_def maximum_corrupt_participants_def)

text \<open>
  The bytes of a Proth modulus: the loop that places the shifted odd factor never drops a
  bit, and the little-endian value of its result is the odd factor times the power of two,
  plus one.
\<close>

theorem proth_bytes_hold_the_modulus:
  assumes "0 < proth_exponent m"
  shows "\<exists>bs. to_bytes m = Some bs \<and> length bs = byte_length m
    \<and> le_value bs = unat (proth_odd_factor m) * 2 ^ proth_exponent m + 1"
  using assms by (rule to_bytes_value)

theorem proth_bytes_hold_the_modulus_witness:
  "to_bytes \<lparr>proth_exponent = 12, proth_odd_factor = 3, proth_witness = 11\<rparr> = Some [1, 48]
   \<and> le_value [1, 48 :: byte] = 3 * 2 ^ 12 + 1"
proof -
  let ?m = "\<lparr>proth_exponent = 12, proth_odd_factor = 3, proth_witness = 11\<rparr>"
  have "to_bytes ?m = Some [1, 48]" by code_simp
  with proth_bytes_hold_the_modulus [of ?m] show ?thesis by simp
qed

text \<open>
  The setup relation's witness layout: the word and narrow columns hold exactly the bits of
  the signed variables, no bit is lost or counted twice, every narrow column lies among the
  words, and there is one sparse support per secret and recipient.
\<close>

theorem setup_columns_account_for_every_bit:
  "shape_ok (setup_shape_of p)
   \<and> column_bits (setup_shape_of p) = sum_list (setup_variable_bits p)
   \<and> length (sparse_supports (setup_shape_of p)) = participants p + 2"
  by (rule setup_shape_accounts_for_every_bit)

text \<open>
  Participant points: the ring splits into exactly as many strides as interpolation points,
  both signs of the points give every participant a point of its own, and half as many would
  not do.
\<close>

theorem every_participant_has_a_point:
  assumes "2 \<le> participants p" "participants p \<le> 2 * DEGREE"
  shows "participants p \<le> 2 * interpolation_degree p \<and> interpolation_degree p < participants p
    \<and> point_stride p * interpolation_degree p = DEGREE"
  using interpolation_points_separate [OF assms(1)] point_stride_exact [OF assms(2)] by simp

definition sample_profile :: profile where
  "sample_profile =
     \<lparr> participants = 5, options = 3,
       ciphertext = \<lparr>proth_exponent = 20, proth_odd_factor = 7, proth_witness = 3\<rparr>,
       release = \<lparr>proth_exponent = 24, proth_odd_factor = 5, proth_witness = 3\<rparr>,
       release_noise_bits = 40, release_share_bits = 50, release_quotient_bits = 30,
       common_sample_bits = 60, sharing_coefficient_bits = 40, share_limb_bits = 20,
       share_carry_bits = 18 \<rparr>"

theorem every_participant_has_a_point_witness:
  "participants sample_profile \<le> 2 * interpolation_degree sample_profile
   \<and> interpolation_degree sample_profile < participants sample_profile
   \<and> point_stride sample_profile * interpolation_degree sample_profile = DEGREE"
  by (rule every_participant_has_a_point) (simp_all add: sample_profile_def DEGREE_def)

text \<open>
  The contribution body: its polynomials come in strictly increasing order, and the
  committed and the streamed ones divide them without overlap, so that every polynomial of a
  contribution is delivered once.
\<close>

theorem contribution_body_delivers_each_polynomial_once:
  "sorted_wrt (<) (contribution_body_polynomials p)
   \<and> set (committed_polynomials p) \<union> set (streamed_contribution_polynomials p)
       = set (contribution_body_polynomials p)
   \<and> set (committed_polynomials p) \<inter> set (streamed_contribution_polynomials p) = {}"
  using contribution_body_sorted body_partition by blast

text \<open>A table with one roster size and one option count.\<close>

definition sample_TABLE :: bytes where
  "sample_TABLE = [2, 1, 16, 2, 1, 48, 60, 0, 5, 5, 3, 3] @ replicate 30 0"

end
