(* ===== verification/Manifest.thy ===== *)
theory Manifest
  imports Schemas Supported_Profile
begin

text \<open>
  The poll manifest (\<open>protocol-foundations/src/foundation/manifest.rs\<close>): option
  definitions, the manifest's validation, its canonical encoding and its bounded decoder.
  A Rust string identifier is kept as its UTF-8 bytes.  The option range comes from the
  profile table, the argument \<open>TABLE\<close>.
\<close>

section \<open>Option definitions\<close>

definition MANIFEST_SCHEMA_IDENTIFIER :: u16 where "MANIFEST_SCHEMA_IDENTIFIER = 272"
definition OPTION_DEFINITION_SCHEMA_IDENTIFIER :: u16 where
  "OPTION_DEFINITION_SCHEMA_IDENTIFIER = 273"

record option_definition =
  option_index :: u16
  option_identifier :: bytes
  display_label :: stabilized_display_text

definition option_range :: "bytes \<Rightarrow> range_inclusive option" where
  "option_range TABLE = map_option table_options (table TABLE)"

definition participant_range :: "bytes \<Rightarrow> range_inclusive option" where
  "participant_range TABLE = map_option table_participants (table TABLE)"

definition option_validate :: "bytes \<Rightarrow> option_definition \<Rightarrow> unit option" where
  "option_validate TABLE d = do {
     range \<leftarrow> option_range TABLE;
     (if unat (option_index d) \<ge> range_end range then None
      else do {
        _ \<leftarrow> nonempty_ascii (option_identifier d);
        (if text_bytes (display_label d) = [] then None
         else do { _ \<leftarrow> display_text_item (display_label d); Some () }) }) }"

definition option_new ::
  "bytes \<Rightarrow> u16 \<Rightarrow> bytes \<Rightarrow> stabilized_display_text \<Rightarrow> option_definition option" where
  "option_new TABLE index identifier label = do {
     let definition =
       \<lparr>option_index = index, option_identifier = identifier, display_label = label\<rparr>;
     _ \<leftarrow> option_validate TABLE definition;
     Some definition }"

definition option_canonical_tuple :: "option_definition \<Rightarrow> canonical_tuple option" where
  "option_canonical_tuple d = do {
     identifier \<leftarrow> nonempty_ascii (option_identifier d);
     label \<leftarrow> display_text_item (display_label d);
     Some \<lparr>schema_identifier = OPTION_DEFINITION_SCHEMA_IDENTIFIER,
           items = [unsigned16 (option_index d), identifier, label]\<rparr> }"

definition read_display_text ::
  "externals \<Rightarrow> canonical_item \<Rightarrow> stabilized_display_text option" where
  "read_display_text E item = do {
     bs \<leftarrow> read_variable_item item DisplayText;
     from_canonical_utf8 E bs }"

definition option_from_tuple ::
  "externals \<Rightarrow> bytes \<Rightarrow> canonical_tuple \<Rightarrow> option_definition option" where
  "option_from_tuple E TABLE tuple = do {
     _ \<leftarrow> require_header tuple OPTION_DEFINITION_SCHEMA_IDENTIFIER 3;
     index \<leftarrow> read_u16 (items tuple ! 0);
     identifier \<leftarrow> read_ascii (items tuple ! 1);
     label \<leftarrow> read_display_text E (items tuple ! 2);
     option_new TABLE index identifier label }"

section \<open>The manifest\<close>

record manifest =
  display_title :: stabilized_display_text
  manifest_options :: "option_definition list"

definition option_count :: "manifest \<Rightarrow> nat" where
  "option_count m = length (manifest_options m)"

text \<open>The loop over the options with the two sets of values seen so far.\<close>

fun validate_options ::
  "nat \<Rightarrow> bytes list \<Rightarrow> stabilized_display_text list \<Rightarrow> option_definition list \<Rightarrow> bool" where
  "validate_options position identifiers labels [] = True"
| "validate_options position identifiers labels (d # rest) =
     (if unat (option_index d) \<noteq> position then False
      else if option_identifier d \<in> set identifiers then False
      else if display_label d \<in> set labels then False
      else validate_options (position + 1) (option_identifier d # identifiers)
             (display_label d # labels) rest)"

definition validate_components :: "bytes \<Rightarrow> manifest \<Rightarrow> unit option" where
  "validate_components TABLE m = do {
     range \<leftarrow> option_range TABLE;
     (if \<not> range_contains range (option_count m) then None
      else if text_bytes (display_title m) = [] then None
      else do {
        _ \<leftarrow> display_text_item (display_title m);
        (if validate_options 0 [] [] (manifest_options m) then Some () else None) }) }"

text \<open>\<open>collect\<close> into a \<open>Result\<close>: the first refusal refuses the whole.\<close>

fun collect :: "'a option list \<Rightarrow> 'a list option" where
  "collect [] = Some []"
| "collect (x # xs) = do { v \<leftarrow> x; vs \<leftarrow> collect xs; Some (v # vs) }"

definition manifest_canonical_tuple :: "externals \<Rightarrow> manifest \<Rightarrow> canonical_tuple option" where
  "manifest_canonical_tuple E m = do {
     option_tuples \<leftarrow> collect (map option_canonical_tuple (manifest_options m));
     title \<leftarrow> display_text_item (display_title m);
     listed \<leftarrow> nested_tuple_list E option_tuples;
     Some \<lparr>schema_identifier = MANIFEST_SCHEMA_IDENTIFIER, items = [title, listed]\<rparr> }"

definition manifest_new ::
  "externals \<Rightarrow> bytes \<Rightarrow> stabilized_display_text \<Rightarrow> option_definition list \<Rightarrow> manifest option" where
  "manifest_new E TABLE title opts = do {
     let m = \<lparr>display_title = title, manifest_options = opts\<rparr>;
     _ \<leftarrow> validate_components TABLE m;
     _ \<leftarrow> manifest_canonical_tuple E m;
     Some m }"

definition manifest_encode :: "externals \<Rightarrow> manifest \<Rightarrow> bytes option" where
  "manifest_encode E m = do {
     tuple \<leftarrow> manifest_canonical_tuple E m;
     tuple_encode E tuple }"

definition manifest_decode ::
  "externals \<Rightarrow> bytes \<Rightarrow> bytes \<Rightarrow> canonical_decode_limits \<Rightarrow> manifest option" where
  "manifest_decode E TABLE bs limits = do {
     (tuple, budget) \<leftarrow> decode_with_budget E bs limits (new_budget limits);
     _ \<leftarrow> require_header tuple MANIFEST_SCHEMA_IDENTIFIER 2;
     title \<leftarrow> read_display_text E (items tuple ! 0);
     (tuples, _) \<leftarrow> read_nested_tuple_list_with_budget E (items tuple ! 1) limits budget;
     opts \<leftarrow> collect (map (option_from_tuple E TABLE) tuples);
     manifest_new E TABLE title opts }"

section \<open>What a valid manifest is\<close>

definition text_item :: "stabilized_display_text \<Rightarrow> canonical_item" where
  "text_item t = \<lparr>item_type = DisplayText,
     canonical_bytes = le_bytes 4 (length (text_bytes t)) @ text_bytes t\<rparr>"

definition option_tuple :: "option_definition \<Rightarrow> canonical_tuple" where
  "option_tuple d = \<lparr>schema_identifier = OPTION_DEFINITION_SCHEMA_IDENTIFIER,
     items = [unsigned16 (option_index d), label_item (option_identifier d),
              text_item (display_label d)]\<rparr>"

definition options_item :: "option_definition list \<Rightarrow> canonical_item" where
  "options_item opts = \<lparr>item_type = HomogeneousList, canonical_bytes =
     u16_to_le_bytes (canonical_code NestedTuple) @ le_bytes 4 (length opts)
       @ concat (map (tuple_bytes \<circ> option_tuple) opts)\<rparr>"

definition manifest_tuple :: "manifest \<Rightarrow> canonical_tuple" where
  "manifest_tuple m = \<lparr>schema_identifier = MANIFEST_SCHEMA_IDENTIFIER,
     items = [text_item (display_title m), options_item (manifest_options m)]\<rparr>"

definition valid_text :: "externals \<Rightarrow> stabilized_display_text \<Rightarrow> bool" where
  "valid_text E t \<longleftrightarrow> stabilized E t \<and> t \<noteq> []
     \<and> length (text_bytes t) + 4 \<le> maximum_item_byte_length default_limits"

definition valid_option :: "externals \<Rightarrow> bytes \<Rightarrow> option_definition \<Rightarrow> bool" where
  "valid_option E TABLE d \<longleftrightarrow>
     (\<exists>range. option_range TABLE = Some range \<and> unat (option_index d) < range_end range)
     \<and> option_identifier d \<noteq> [] \<and> printable_ascii (option_identifier d)
     \<and> length (option_identifier d) + 4 \<le> maximum_item_byte_length default_limits
     \<and> valid_text E (display_label d)"

definition valid_manifest :: "externals \<Rightarrow> bytes \<Rightarrow> manifest \<Rightarrow> bool" where
  "valid_manifest E TABLE m \<longleftrightarrow>
     (\<exists>range. option_range TABLE = Some range \<and> range_contains range (option_count m))
     \<and> valid_text E (display_title m)
     \<and> (\<forall>d \<in> set (manifest_options m). valid_option E TABLE d)
     \<and> map (unat \<circ> option_index) (manifest_options m) = [0 ..< option_count m]
     \<and> distinct (map option_identifier (manifest_options m))
     \<and> distinct (map display_label (manifest_options m))
     \<and> length (canonical_bytes (options_item (manifest_options m)))
         \<le> maximum_item_byte_length default_limits"

lemma text_bytes_Nil_iff [simp]: "text_bytes t = [] \<longleftrightarrow> t = []"
  by (cases t) (simp_all add: text_bytes_def utf8_encode_def)

lemma display_text_item_Some_iff:
  "display_text_item t = Some item \<longleftrightarrow>
     length (text_bytes t) + 4 \<le> maximum_item_byte_length default_limits \<and> item = text_item t"
  by (auto simp: display_text_item_def text_item_def Option.bind_eq_Some_conv
      encode_variable_value_Some_iff ensure_default_item_limit_def split: if_splits)

lemma option_validate_iff:
  assumes "stabilized E (display_label d)"
  shows "option_validate TABLE d = Some () \<longleftrightarrow> valid_option E TABLE d"
  using assms
  by (auto simp: option_validate_def valid_option_def valid_text_def Option.bind_eq_Some_conv
      nonempty_ascii_Some_iff display_text_item_Some_iff not_le)

lemma option_new_Some_iff:
  assumes "stabilized E label"
  shows "option_new TABLE index identifier label = Some d \<longleftrightarrow>
    d = \<lparr>option_index = index, option_identifier = identifier, display_label = label\<rparr>
    \<and> valid_option E TABLE d"
  using option_validate_iff [of E
      "\<lparr>option_index = index, option_identifier = identifier, display_label = label\<rparr>"] assms
  by (auto simp: option_new_def Let_def Option.bind_eq_Some_conv)

lemma option_canonical_tuple_valid:
  "valid_option E TABLE d \<Longrightarrow> option_canonical_tuple d = Some (option_tuple d)"
  by (simp add: option_canonical_tuple_def option_tuple_def valid_option_def valid_text_def
      nonempty_ascii_Some_iff display_text_item_Some_iff Option.bind_eq_Some_conv)

lemma validate_options_iff:
  "validate_options k ids labels opts \<longleftrightarrow>
     map (unat \<circ> option_index) opts = [k ..< k + length opts]
     \<and> distinct (map option_identifier opts) \<and> set (map option_identifier opts) \<inter> set ids = {}
     \<and> distinct (map display_label opts) \<and> set (map display_label opts) \<inter> set labels = {}"
proof (induction opts arbitrary: k ids labels)
  case Nil
  then show ?case by simp
next
  case (Cons d opts)
  have "[k ..< k + length (d # opts)] = k # [k + 1 ..< k + 1 + length opts]"
    by (subst upt_conv_Cons) auto
  with Cons show ?case by (auto simp: validate_options.simps(2))
qed

lemma collect_map_Some:
  "(\<And>x. x \<in> set xs \<Longrightarrow> f x = Some (g x)) \<Longrightarrow> collect (map f xs) = Some (map g xs)"
  by (induction xs) auto

lemma collect_Some_iff: "collect xs = Some vs \<longleftrightarrow> xs = map Some vs"
  by (induction xs arbitrary: vs) (auto simp: Option.bind_eq_Some_conv)

lemma length_options_item:
  "length (canonical_bytes (options_item opts)) = 6 + tuples_work (map option_tuple opts)"
  by (simp add: options_item_def length_concat_tuple_bytes flip: map_map)

lemma readable_option_tuple:
  "valid_option E TABLE d \<Longrightarrow> readable E default_limits (option_tuple d)"
  using limits_below_bounds(2)
  by (auto simp: readable_def option_tuple_def valid_option_def valid_text_def text_item_def
      label_item_def plain_item_def flat_item_def Let_def default_limits_def
      decode_variable_value_encoded display_text.decode_encode)

text \<open>The count of options is at most 255: the bounds of the table are bytes.\<close>

lemma option_range_bound: "option_range TABLE = Some r \<Longrightarrow> range_end r < 256"
  by (auto simp: option_range_def table_def Let_def unat_byte_bound split: if_splits)

lemma nested_tuple_list_sound:
  assumes "nested_tuple_list E ts = Some item"
  shows "6 + tuples_work ts \<le> maximum_item_byte_length default_limits
    \<and> length ts \<le> maximum_item_count default_limits
    \<and> item = \<lparr>item_type = HomogeneousList, canonical_bytes =
         u16_to_le_bytes (canonical_code NestedTuple) @ le_bytes 4 (length ts)
           @ concat (map tuple_bytes ts)\<rparr>"
proof -
  have enc: "encode_all E ts = Some bss \<Longrightarrow> bss = map tuple_bytes ts" for ts bss
    by (induction ts arbitrary: bss)
      (auto simp: Option.bind_eq_Some_conv dest: tuple_encode_bytes)
  have pay: "payload_length len (map tuple_bytes ts) = Some n \<Longrightarrow> n = len + tuples_work ts" for len ts n
    by (induction ts arbitrary: len) (fastforce simp: Option.bind_eq_Some_conv tuple_work_def)+
  show ?thesis
    using assms
    by (auto simp: nested_tuple_list_def Option.bind_eq_Some_conv dest!: enc pay
        split: if_splits)
qed

lemma manifest_canonical_tuple_valid:
  assumes "valid_manifest E TABLE m"
  shows "manifest_canonical_tuple E m = Some (manifest_tuple m)"
proof -
  let ?ts = "map option_tuple (manifest_options m)"
  have collected: "collect (map option_canonical_tuple (manifest_options m)) = Some ?ts"
    using assms by (intro collect_map_Some option_canonical_tuple_valid) (auto simp: valid_manifest_def)
  have "length ?ts \<le> maximum_item_count default_limits"
    using assms option_range_bound
    by (fastforce simp: valid_manifest_def range_contains_def option_count_def default_limits_def)
  moreover have "\<forall>t \<in> set ?ts. readable E default_limits t"
    using assms by (auto simp: valid_manifest_def readable_option_tuple)
  moreover have "6 + tuples_work ?ts \<le> maximum_item_byte_length default_limits"
    using assms by (simp add: valid_manifest_def length_options_item)
  ultimately have "nested_tuple_list E ?ts = Some (options_item (manifest_options m))"
    using nested_tuple_list_plain [of ?ts E] by (simp add: options_item_def)
  with collected show ?thesis
    using assms
    by (simp add: manifest_canonical_tuple_def manifest_tuple_def valid_manifest_def valid_text_def
        display_text_item_Some_iff Option.bind_eq_Some_conv)
qed

lemma manifest_new_Some_iff:
  assumes "stabilized E title" "\<forall>d \<in> set opts. valid_option E TABLE d"
  shows "manifest_new E TABLE title opts = Some m \<longleftrightarrow>
     m = \<lparr>display_title = title, manifest_options = opts\<rparr> \<and> valid_manifest E TABLE m"
    (is "?L \<longleftrightarrow> ?R")
proof
  assume ?L
  then have m: "m = \<lparr>display_title = title, manifest_options = opts\<rparr>"
    and comp: "validate_components TABLE m = Some ()"
    and tup: "manifest_canonical_tuple E m \<noteq> None"
    by (auto simp: manifest_new_def Let_def Option.bind_eq_Some_conv)
  have "collect (map option_canonical_tuple opts) = Some (map option_tuple opts)"
    using assms(2) by (intro collect_map_Some option_canonical_tuple_valid) auto
  with tup have "nested_tuple_list E (map option_tuple opts) \<noteq> None"
    by (auto simp: manifest_canonical_tuple_def m split: bind_splits)
  then have "length (canonical_bytes (options_item opts)) \<le> maximum_item_byte_length default_limits"
    by (auto simp: length_options_item dest: nested_tuple_list_sound)
  with comp m assms show ?R
    by (auto simp: validate_components_def valid_manifest_def valid_text_def option_count_def
        Option.bind_eq_Some_conv display_text_item_Some_iff validate_options_iff split: if_splits)
next
  assume r: ?R
  then have "validate_components TABLE m = Some ()"
    by (auto simp: validate_components_def valid_manifest_def valid_text_def option_count_def
        Option.bind_eq_Some_conv display_text_item_Some_iff validate_options_iff)
  with r show ?L
    using manifest_canonical_tuple_valid [of E TABLE m] by (auto simp: manifest_new_def Let_def)
qed

section \<open>The manifest codec is exact\<close>

lemma list_item_slices:
  assumes "n < u32_bound"
  shows "slice 0 2 (u16_to_le_bytes c @ le_bytes 4 n @ bs) = u16_to_le_bytes c"
    "le_value (slice 2 6 (u16_to_le_bytes c @ le_bytes 4 n @ bs)) = n"
    "drop 6 (u16_to_le_bytes c @ le_bytes 4 n @ bs) = bs"
  using assms by (simp_all add: slice_def u32_bound_def)

lemma validate_options_item:
  assumes "read_tuples E m (length opts) (concat (map tuple_bytes (map option_tuple opts))) 0 b
      = Some (ts, tuples_work (map option_tuple opts), b')"
    and "length opts \<le> maximum_item_count m" "length opts < u32_bound" "admitted_depth m 0"
  shows "validate_item_bytes E m HomogeneousList (canonical_bytes (options_item opts))
      (budget_plus b (length (canonical_bytes (options_item opts))) 0) 0 = Some b'"
proof -
  have w: "charge_work n (budget_plus b n 0) = Some b" for n
    using charge_work_surplus [of n b 0 0] by (simp add: budget_plus_def)
  have "validate_tuples E m (length opts) (concat (map tuple_bytes (map option_tuple opts))) 0 b 1
      = Some (length (concat (map tuple_bytes (map option_tuple opts))), b')"
    using read_tuples_validate [OF assms(1)] unfolding length_concat_tuple_bytes .
  then have "validate_list_payload E m NestedTuple (length opts)
      (concat (map tuple_bytes (map option_tuple opts))) b 0 = Some b'"
    by (simp add: validate_list_payload_Some_iff)
  then show ?thesis
    unfolding validate_item_bytes_Some_iff
    using assms(2-4) w
    by (auto simp: options_item_def list_item_slices expected_item_length_def admitted_depth_def
        from_canonical_code_Some_iff intro: exI [of _ NestedTuple])
qed

lemma nth_expansion: "length xs = n \<Longrightarrow> xs = map ((!) xs) [0 ..< n]"
  using map_nth [of xs] by simp

lemma plain_text_item:
  "valid_text E t \<Longrightarrow> plain_item E l (text_item t)"
  using limits_below_bounds(2)
  by (auto simp: valid_text_def text_item_def plain_item_def decode_variable_value_encoded
      display_text.decode_encode)

lemma tuples_allocation_le: 
  "tuples_allocation (map option_tuple opts) \<le> 96 * length opts + 2 * tuples_work (map option_tuple opts)"
proof (induction opts)
  case Nil
  then show ?case by simp
next
  case (Cons d opts)
  have "tuple_allocation (option_tuple d) \<le> 96 + 2 * tuple_work (option_tuple d)"
    using texts_cost_le [of "items (option_tuple d)"]
    by (simp add: tuple_allocation_def tuple_work_def length_tuple_bytes) (simp add: option_tuple_def)
  with Cons show ?case by simp
qed

lemma word_limits_default [simp]: "word_limits default_limits"
  by (simp add: word_limits_def default_limits_def usize_bound_def u32_bound_def)

lemma admitted_default [simp]: "admitted_depth default_limits 0" "admitted_depth default_limits (Suc 0)"
  by (simp_all add: admitted_depth_def default_limits_def ABSOLUTE_MAXIMUM_NESTING_DEPTH_def)

text \<open>What a valid manifest's options cost to validate once and to read once.\<close>

lemma manifest_options_bounds:
  assumes "valid_manifest E TABLE m"
  shows "length (manifest_options m) < 256"
    "tuples_work (map option_tuple (manifest_options m)) + 6 \<le> 8 * 1024 * 1024"
    "tuples_allocation (map option_tuple (manifest_options m)) \<le> 17 * 1024 * 1024"
    "length (text_bytes (display_title m)) + 4 \<le> 8 * 1024 * 1024"
proof -
  show n: "length (manifest_options m) < 256"
    using assms option_range_bound
    by (fastforce simp: valid_manifest_def range_contains_def option_count_def)
  show w: "tuples_work (map option_tuple (manifest_options m)) + 6 \<le> 8 * 1024 * 1024"
    using assms by (simp add: valid_manifest_def length_options_item default_limits_def)
  show "tuples_allocation (map option_tuple (manifest_options m)) \<le> 17 * 1024 * 1024"
    using tuples_allocation_le [of "manifest_options m"] n w by linarith
  show "length (text_bytes (display_title m)) + 4 \<le> 8 * 1024 * 1024"
    using assms by (simp add: valid_manifest_def valid_text_def default_limits_def)
qed

lemma read_option_tuples:
  assumes "valid_manifest E TABLE m"
  shows "read_tuples E default_limits (length (manifest_options m))
      (concat (map tuple_bytes (map option_tuple (manifest_options m)))) 0
      (budget_plus b (tuples_work (map option_tuple (manifest_options m)) + w)
         (tuples_allocation (map option_tuple (manifest_options m)) + a))
    = Some (map option_tuple (manifest_options m),
        tuples_work (map option_tuple (manifest_options m)), budget_plus b w a)"
proof -
  let ?ts = "map option_tuple (manifest_options m)"
  have "\<forall>t \<in> set ?ts. readable E default_limits t"
    using assms by (auto simp: valid_manifest_def readable_option_tuple)
  moreover have "length (concat (map tuple_bytes ?ts)) \<le> maximum_tuple_byte_length default_limits"
    unfolding length_concat_tuple_bytes
    using manifest_options_bounds(2) [OF assms] by (simp add: default_limits_def)
  ultimately show ?thesis
    using read_plain_tuples [of ?ts E default_limits "concat (map tuple_bytes ?ts)" "[]" b w a]
    unfolding length_concat_tuple_bytes by simp
qed

lemma validate_manifest_items:
  assumes "valid_manifest E TABLE m"
  shows "validate_items E default_limits (items (manifest_tuple m))
      (budget_plus b (items_length (items (manifest_tuple m))
           + tuples_work (map option_tuple (manifest_options m)) + w)
         (length (text_bytes (display_title m))
           + tuples_allocation (map option_tuple (manifest_options m)) + a))
    = Some (budget_plus b w a)"
proof -
  let ?opts = "manifest_options m" and ?title = "text_item (display_title m)"
  let ?ts = "map option_tuple ?opts" and ?list = "options_item (manifest_options m)"
  let ?W = "tuples_work ?ts + w" and ?A = "tuples_allocation ?ts + a"
  note bounds = manifest_options_bounds [OF assms]
  have title: "validate_item_bytes E default_limits (item_type ?title) (canonical_bytes ?title)
      (budget_plus b (length (canonical_bytes ?title) + (length (canonical_bytes ?list) + ?W))
        (text_cost ?title + ?A)) 0
      = Some (budget_plus b (length (canonical_bytes ?list) + ?W) ?A)"
    using assms by (intro validate_plain_item plain_text_item) (simp_all add: valid_manifest_def)
  have "budget_plus b (length (canonical_bytes ?list) + ?W) ?A
      = budget_plus (budget_plus b ?W ?A) (length (canonical_bytes ?list)) 0"
    by (simp add: ac_simps)
  moreover have "validate_item_bytes E default_limits HomogeneousList (canonical_bytes ?list)
      (budget_plus (budget_plus b ?W ?A) (length (canonical_bytes ?list)) 0) 0
        = Some (budget_plus b w a)"
    using bounds(1)
    by (intro validate_options_item [OF read_option_tuples [OF assms]])
      (simp_all add: default_limits_def u32_bound_def admitted_depth_def)
  ultimately have list: "validate_item_bytes E default_limits HomogeneousList (canonical_bytes ?list)
      (budget_plus b (length (canonical_bytes ?list) + ?W) ?A) 0 = Some (budget_plus b w a)"
    by simp
  have small: "length (canonical_bytes ?title) \<le> maximum_item_byte_length default_limits"
    "length (canonical_bytes ?list) \<le> maximum_item_byte_length default_limits"
    using assms by (auto simp: valid_manifest_def valid_text_def text_item_def)
  have kinds: "item_type ?title = DisplayText" "item_type ?list = HomogeneousList"
    "text_cost ?title = length (text_bytes (display_title m))"
    by (simp_all add: text_item_def options_item_def text_cost_def)
  from title list small show ?thesis
    unfolding kinds
    by (simp add: manifest_tuple_def kinds add.assoc)
qed

definition manifest_bytes :: "manifest \<Rightarrow> bytes" where
  "manifest_bytes m = tuple_bytes (manifest_tuple m)"

lemma manifest_encode_valid:
  assumes "valid_manifest E TABLE m"
  shows "manifest_encode E m = Some bs \<longleftrightarrow>
    bs = manifest_bytes m \<and> length bs \<le> maximum_tuple_byte_length default_limits"
proof -
  let ?w = "items_length (items (manifest_tuple m)) + tuples_work (map option_tuple (manifest_options m))"
  let ?a = "length (text_bytes (display_title m))
           + tuples_allocation (map option_tuple (manifest_options m))"
  note bounds = manifest_options_bounds [OF assms]
  have il: "items_length (items (manifest_tuple m)) = length (text_bytes (display_title m)) + 4
      + (6 + tuples_work (map option_tuple (manifest_options m)))"
    by (simp add: manifest_tuple_def text_item_def length_options_item)
  have "?w \<le> maximum_cumulative_work_byte_length default_limits"
    "?a \<le> maximum_cumulative_allocation_byte_length default_limits"
    using bounds unfolding il by (simp_all add: default_limits_def)
  then obtain b where b: "new_budget default_limits = budget_plus b ?w ?a"
    using new_budget_split by blast
  have "\<exists>b'. validate_items E default_limits (items (manifest_tuple m))
      (new_budget default_limits) = Some b'"
    using validate_manifest_items [OF assms, of b 0 0] unfolding b by simp
  moreover have "length (items (manifest_tuple m)) \<le> maximum_item_count default_limits"
    by (simp add: manifest_tuple_def default_limits_def)
  ultimately show ?thesis
    by (auto simp: manifest_encode_def manifest_canonical_tuple_valid [OF assms]
        tuple_encode_Some_iff manifest_bytes_def)
qed

lemma read_text_item: "valid_text E t \<Longrightarrow> read_display_text E (text_item t) = Some t"
  using limits_below_bounds(2)
  by (auto simp: read_display_text_def read_variable_item_def variable_value_bytes_def text_item_def
      valid_text_def decode_variable_value_encoded display_text.decode_encode)

lemma utf8_decode_ascii: "printable_ascii bs \<Longrightarrow> utf8_decode bs = Some (map unat bs)"
proof (induction bs)
  case Nil
  then show ?case by (simp add: utf8_decode.simps)
next
  case (Cons b bs)
  then have "unat b \<le> 126" by (simp add: printable_ascii_def)
  then have "unat b < 128" by linarith
  then have "utf8_take (b # bs) = Some (unat b, bs)" by (simp add: utf8_take.simps)
  moreover have "utf8_decode bs = Some (map unat bs)"
    using Cons by (simp add: printable_ascii_def)
  ultimately show ?case by (subst utf8_decode.simps) simp
qed

lemma option_from_tuple_valid:
  assumes "valid_option E TABLE d"
  shows "option_from_tuple E TABLE (option_tuple d) = Some d"
proof -
  have id: "read_ascii (label_item (option_identifier d)) = Some (option_identifier d)"
    using assms limits_below_bounds(2)
    by (auto simp: read_ascii_def read_variable_item_def variable_value_bytes_def label_item_def
        valid_option_def decode_variable_value_encoded utf8_decode_ascii)
  have label: "read_display_text E (text_item (display_label d)) = Some (display_label d)"
    using assms by (simp add: valid_option_def read_text_item)
  have "option_new TABLE (option_index d) (option_identifier d) (display_label d) = Some d"
    using assms option_new_Some_iff [of E "display_label d"]
    by (simp add: valid_option_def valid_text_def)
  with id label show ?thesis
    by (simp add: option_from_tuple_def option_tuple_def require_header_def read_u16_def read_item_def)
qed


theorem manifest_roundtrip:
  assumes "valid_manifest E TABLE m"
    and "length (manifest_bytes m) \<le> maximum_tuple_byte_length default_limits"
  shows "manifest_decode E TABLE (manifest_bytes m) default_limits = Some m"
proof -
  let ?opts = "manifest_options m" and ?its = "items (manifest_tuple m)"
  let ?ts = "map option_tuple ?opts"
  let ?w = "tuples_work ?ts" and ?a = "tuples_allocation ?ts"
  let ?W = "items_length ?its + ?w + 0" and ?A = "length (text_bytes (display_title m)) + ?a + 0"
  note bounds = manifest_options_bounds [OF assms(1)]
  have n: "length ?its = 2" by (simp add: manifest_tuple_def)
  have il: "items_length ?its = length (text_bytes (display_title m)) + 4 + (6 + ?w)"
    by (simp add: manifest_tuple_def text_item_def length_options_item)
  have "?W + (length ?its * 6 + 6 + (?w + 0)) \<le> maximum_cumulative_work_byte_length default_limits"
    "?A + (length ?its * 32 + (items_length ?its + (?a + 0)))
       \<le> maximum_cumulative_allocation_byte_length default_limits"
    using bounds unfolding il n by (simp_all add: default_limits_def)
  then obtain b where "new_budget default_limits = budget_plus b
      (?W + (length ?its * 6 + 6 + (?w + 0))) (?A + (length ?its * 32 + (items_length ?its + (?a + 0))))"
    using new_budget_split by blast
  then have b: "new_budget default_limits = budget_plus (budget_plus b ?W ?A)
      (length ?its * 6 + 6 + (?w + 0)) (length ?its * 32 + (items_length ?its + (?a + 0)))"
    by (simp only: budget_plus_plus)
  have "decode_tuple_at E default_limits (manifest_bytes m) (new_budget default_limits) 0
      = Some (manifest_tuple m, length (manifest_bytes m),
          budget_plus (budget_plus b 0 0) (?w + 0) (?a + 0))"
    unfolding b manifest_bytes_def
    using assms(2) n limits_below_bounds
    by (intro decode_tuple_at_validated [OF validate_manifest_items [OF assms(1)]])
      (simp_all add: manifest_bytes_def default_limits_def usize_bound_def)
  then have d: "decode_with_budget E (manifest_bytes m) default_limits (new_budget default_limits)
      = Some (manifest_tuple m, budget_plus b (?w + 0) (?a + 0))"
    by (simp add: decode_with_budget_def)
  have hdr: "read_nested_tuple_list_header (options_item ?opts)
      = Some (length ?opts, concat (map tuple_bytes ?ts))"
    using bounds(1)
    by (simp add: read_nested_tuple_list_header_def read_item_def options_item_def
        list_item_slices u32_bound_def)
  have "read_nested_tuple_list_with_budget E (options_item ?opts) default_limits
      (budget_plus b (?w + 0) (?a + 0)) = Some (?ts, budget_plus b 0 0)"
    unfolding read_nested_tuple_list_with_budget_def hdr
    using read_option_tuples [OF assms(1), of b 0 0] bounds(1) length_concat_tuple_bytes [of ?ts]
    by (simp add: default_limits_def)
  moreover have "collect (map (option_from_tuple E TABLE) ?ts) = Some ?opts"
    using collect_map_Some [of ?opts "option_from_tuple E TABLE \<circ> option_tuple" id]
      option_from_tuple_valid assms(1) by (simp add: valid_manifest_def)
  moreover have "manifest_new E TABLE (display_title m) ?opts = Some m"
    using assms(1) manifest_new_Some_iff [of E "display_title m" ?opts TABLE]
    by (simp add: valid_manifest_def valid_text_def)
  moreover have "read_display_text E (text_item (display_title m)) = Some (display_title m)"
    using assms(1) by (simp add: valid_manifest_def read_text_item)
  ultimately show ?thesis
    unfolding manifest_decode_def d by (simp add: require_header_def manifest_tuple_def)
qed

lemma read_display_text_sound:
  assumes "read_display_text E item = Some t"
  shows "stabilized E t \<and> item = text_item t"
  using assms
  by (cases item) (auto simp: read_display_text_def read_variable_item_def variable_value_bytes_def
      text_item_def Option.bind_eq_Some_conv dest!: decode_variable_value_sound
        display_text.decode_sound split: if_splits)

lemma option_from_tuple_sound:
  assumes "option_from_tuple E TABLE t = Some d"
  shows "valid_option E TABLE d \<and> t = option_tuple d"
proof -
  from assms obtain index ident label where
    hdr: "schema_identifier t = OPTION_DEFINITION_SCHEMA_IDENTIFIER" "length (items t) = 3"
    and index: "read_u16 (items t ! 0) = Some index"
    and ident: "read_ascii (items t ! 1) = Some ident"
    and label: "read_display_text E (items t ! 2) = Some label"
    and new: "option_new TABLE index ident label = Some d"
    by (auto simp: option_from_tuple_def require_header_def Option.bind_eq_Some_conv split: if_splits)
  have 0: "items t ! 0 = unsigned16 index"
    using index by (cases "items t ! 0")
      (auto simp: read_u16_def read_item_def unsigned16_def Option.bind_eq_Some_conv
        u16_to_from_le_bytes split: if_splits)
  have 1: "items t ! 1 = label_item ident"
    using ident by (cases "items t ! 1")
      (auto simp: read_ascii_def read_variable_item_def variable_value_bytes_def label_item_def
        Option.bind_eq_Some_conv dest!: decode_variable_value_sound split: if_splits)
  note 2 = read_display_text_sound [OF label]
  have "items t = [items t ! 0, items t ! 1, items t ! 2]"
    using nth_expansion [OF hdr(2)] by (simp add: upt_rec eval_nat_numeral)
  with 0 1 2 hdr have "t = option_tuple \<lparr>option_index = index, option_identifier = ident,
      display_label = label\<rparr>"
    by (cases t) (simp add: option_tuple_def)
  with new option_new_Some_iff [of E label TABLE index ident d] 2 show ?thesis by auto
qed


lemma read_nested_tuple_list_sound:
  assumes "read_nested_tuple_list_with_budget E item limits b = Some (ts, b')"
  shows "item = \<lparr>item_type = HomogeneousList, canonical_bytes =
     u16_to_le_bytes (canonical_code NestedTuple) @ le_bytes 4 (length ts)
       @ concat (map tuple_bytes ts)\<rparr>"
proof -
  define bs where "bs = canonical_bytes item"
  from assms have kind: "item_type item = HomogeneousList" "6 \<le> length bs"
    and code: "u16_from_le_bytes (slice 0 2 bs) = canonical_code NestedTuple"
    and r: "read_tuples E limits (le_value (slice 2 6 bs)) (drop 6 bs) 0 b
        = Some (ts, length (drop 6 bs), b')"
    by (auto simp: read_nested_tuple_list_with_budget_def read_nested_tuple_list_header_def
        read_item_def bs_def Option.bind_eq_Some_conv split: if_splits)
  from read_tuples_sound [OF r] have n: "length ts = le_value (slice 2 6 bs)"
    and rest: "concat (map tuple_bytes ts) = drop 6 bs" by (auto simp: slice_def)
  have "u16_to_le_bytes (canonical_code NestedTuple) = slice 0 2 bs"
    using kind(2) u16_to_from_le_bytes [of "slice 0 2 bs"] unfolding code by simp
  moreover have "le_bytes 4 (length ts) = slice 2 6 bs"
    using kind(2) le_bytes_le_value [of "slice 2 6 bs"] unfolding n by simp
  moreover have "bs = slice 0 2 bs @ slice 2 6 bs @ drop 6 bs"
    using slice_split [of 0 2 6 bs] by (simp flip: append_assoc take_slice)
  ultimately have "bs = u16_to_le_bytes (canonical_code NestedTuple) @ le_bytes 4 (length ts)
      @ concat (map tuple_bytes ts)" using rest by simp
  with kind(1) show ?thesis by (cases item) (simp add: bs_def)
qed


theorem manifest_decode_sound:
  assumes "manifest_decode E TABLE bs limits = Some m"
  shows "valid_manifest E TABLE m \<and> bs = manifest_bytes m"
proof -
  from assms obtain tuple b title ts b' opts where
    d: "decode_with_budget E bs limits (new_budget limits) = Some (tuple, b)"
    and hdr: "schema_identifier tuple = MANIFEST_SCHEMA_IDENTIFIER" "length (items tuple) = 2"
    and title: "read_display_text E (items tuple ! 0) = Some title"
    and listed: "read_nested_tuple_list_with_budget E (items tuple ! 1) limits b = Some (ts, b')"
    and opts: "collect (map (option_from_tuple E TABLE) ts) = Some opts"
    and new: "manifest_new E TABLE title opts = Some m"
    by (auto simp: manifest_decode_def require_header_def Option.bind_eq_Some_conv
        split: if_splits prod.splits)
  from opts have each: "map (option_from_tuple E TABLE) ts = map Some opts"
    by (simp add: collect_Some_iff)
  then have len: "length ts = length opts" by (metis length_map)
  have nth: "valid_option E TABLE (opts ! i) \<and> ts ! i = option_tuple (opts ! i)"
    if "i < length ts" for i
    using arg_cong [OF each, of "\<lambda>xs. xs ! i"] that len option_from_tuple_sound by simp
  have ts: "ts = map option_tuple opts" using nth len by (simp add: list_eq_iff_nth_eq)
  have valid: "\<forall>d \<in> set opts. valid_option E TABLE d"
    using nth len by (metis in_set_conv_nth)
  note t = read_display_text_sound [OF title]
  from new have m: "m = \<lparr>display_title = title, manifest_options = opts\<rparr>"
    "valid_manifest E TABLE m"
    using manifest_new_Some_iff [OF _ valid] t by auto
  have "items tuple = [items tuple ! 0, items tuple ! 1]"
    using nth_expansion [OF hdr(2)] by (simp add: upt_rec eval_nat_numeral)
  with t read_nested_tuple_list_sound [OF listed] hdr(1)
  have "tuple = manifest_tuple m"
    by (cases tuple) (simp add: manifest_tuple_def m(1) ts options_item_def)
  moreover have "bs = tuple_bytes tuple"
    using d decode_tuple_at_sound
    by (fastforce simp: decode_with_budget_def Option.bind_eq_Some_conv split: if_splits prod.splits)
  ultimately show ?thesis using m(2) by (simp add: manifest_bytes_def)
qed

lemma manifest_decode_length:
  assumes "manifest_decode E TABLE bs limits = Some m"
  shows "length bs \<le> maximum_tuple_byte_length limits"
  using assms
  by (auto simp: manifest_decode_def decode_with_budget_def decode_tuple_at_Some_iff
      Option.bind_eq_Some_conv split: if_splits prod.splits)

text \<open>
  Over the default limits the manifest's decoder accepts exactly the encodings of valid
  manifests, each of them once.
\<close>

interpretation manifest_codec: exact_codec manifest_bytes
  "\<lambda>bs. manifest_decode E TABLE bs default_limits"
  "\<lambda>m. valid_manifest E TABLE m
     \<and> length (manifest_bytes m) \<le> maximum_tuple_byte_length default_limits" for E TABLE
  by unfold_locales (auto simp: manifest_roundtrip dest: manifest_decode_sound manifest_decode_length)

section \<open>Properties\<close>

text \<open>
  Manifests have one encoding: over the default limits the decoder accepts exactly the
  canonical bytes of valid manifests, with options in order, distinct identifiers and labels, and
  it returns the manifest that was encoded.
\<close>

theorem manifest_encoding_is_exact:
  "manifest_decode E TABLE bs default_limits = Some m \<longleftrightarrow>
     (valid_manifest E TABLE m
       \<and> length (manifest_bytes m) \<le> maximum_tuple_byte_length default_limits)
     \<and> manifest_bytes m = bs"
  by (rule manifest_codec.decode_iff)

end
