(* ===== verification/Protocol_Hash.thy ===== *)
theory Protocol_Hash
  imports Prelude
begin

text \<open>
  The fixed-length protocol digest (\<open>parallel-work/src/protocol-hash.rs\<close>): the sponge
  state, the lane-wise absorption the code runs, finalisation and the checkpoint format.
  The \<open>keccak\<close> crate's permutation is the field \<open>keccak_f1600\<close> of the externals.
\<close>

section \<open>The state and its operations\<close>

definition RATE :: nat where "RATE = 136"
definition PREFIX_BYTES :: nat where "PREFIX_BYTES = 64"
definition STATE_BYTES :: nat where "STATE_BYTES = 201"

text \<open>The bytes of \<open>sealed-lattice/fixed-hash\<close>.\<close>

definition ascii_bytes :: "string \<Rightarrow> bytes" where
  "ascii_bytes s = map (\<lambda>c. byte_of (of_char c)) s"

definition DOMAIN :: bytes where "DOMAIN = ascii_bytes ''sealed-lattice/fixed-hash''"

record protocol_hash =
  lanes :: "u64 list"
  cursor :: nat

text \<open>The permutation after a full rate.\<close>

definition permute_full :: "externals \<Rightarrow> protocol_hash \<Rightarrow> protocol_hash" where
  "permute_full E h =
     (if cursor h = RATE then \<lparr>lanes = keccak_f1600 E (lanes h), cursor = 0\<rparr> else h)"

text \<open>One lane after another takes the exclusive or of one word.\<close>

definition xor_lanes :: "nat \<Rightarrow> u64 list \<Rightarrow> u64 list \<Rightarrow> u64 list" where
  "xor_lanes start ws ls =
     take start ls @ map (\<lambda>(lane, word). lane XOR word) (zip (drop start ls) ws)
     @ drop (start + length ws) ls"

text \<open>
  The cursor is below the rate whenever \<open>absorb\<close> is entered, so its bound in the guard of
  the lane-wise branch is always true; it makes the loop total on every state.
\<close>

function absorb :: "externals \<Rightarrow> bytes \<Rightarrow> protocol_hash \<Rightarrow> protocol_hash" where
  "absorb E bs h =
     (if bs = [] then h
      else if cursor h mod 8 = 0 \<and> 8 \<le> length bs \<and> cursor h < RATE then
        let count = min ((RATE - cursor h) div 8) (length bs div 8);
            whole = take (8 * count) bs;
            rest = drop (8 * count) bs
        in absorb E rest (permute_full E
             \<lparr>lanes = xor_lanes (cursor h div 8) (map u64_from_le_bytes (chunks_exact 8 whole))
                        (lanes h),
              cursor = cursor h + length whole\<rparr>)
      else
        absorb E (tl bs) (permute_full E
          \<lparr>lanes = (lanes h)[cursor h div 8 :=
              lanes h ! (cursor h div 8) XOR push_bit (8 * (cursor h mod 8)) (ucast (hd bs))],
           cursor = cursor h + 1\<rparr>))"
  by pat_completeness auto
termination
  by (relation "measure (\<lambda>(E, bs, h). length bs)")
    (auto simp: RATE_def min_def)

declare absorb.simps [simp del]

definition hash_new :: "externals \<Rightarrow> protocol_hash" where
  "hash_new E =
     absorb E (DOMAIN @ replicate (PREFIX_BYTES - length DOMAIN) 0)
       \<lparr>lanes = replicate 25 0, cursor = 0\<rparr>"

definition absorption_cursor_after :: "nat \<Rightarrow> nat" where
  "absorption_cursor_after message_bytes = (PREFIX_BYTES + message_bytes mod RATE) mod RATE"

definition finalize :: "externals \<Rightarrow> protocol_hash \<Rightarrow> bytes" where
  "finalize E h =
     (let l1 = (lanes h)[cursor h div 8 :=
            lanes h ! (cursor h div 8) XOR push_bit (8 * (cursor h mod 8)) 0x1f];
          l2 = l1[RATE div 8 - 1 := l1 ! (RATE div 8 - 1) XOR push_bit 63 1];
          l3 = keccak_f1600 E l2
      in concat (map u64_to_le_bytes (take 8 l3)))"

definition digest :: "externals \<Rightarrow> bytes \<Rightarrow> bytes" where
  "digest E bs = finalize E (absorb E bs (hash_new E))"

definition serialize :: "protocol_hash \<Rightarrow> bytes" where
  "serialize h = concat (map u64_to_le_bytes (take 25 (lanes h))) @ [byte_of (cursor h)]"

definition deserialize :: "bytes \<Rightarrow> protocol_hash option" where
  "deserialize bs =
     (if length bs \<noteq> STATE_BYTES then None
      else let position = unat (bs ! 200) in
        if position < RATE
        then Some \<lparr>lanes = map (\<lambda>index. u64_from_le_bytes (slice (8 * index) (8 * index + 8) bs))
                             [0 ..< 25],
                   cursor = position\<rparr>
        else None)"

text \<open>The states the code can hold, and the permutation's shape.\<close>

definition hash_ok :: "protocol_hash \<Rightarrow> bool" where
  "hash_ok h \<longleftrightarrow> length (lanes h) = 25 \<and> cursor h < RATE"

definition permutation_ok :: "externals \<Rightarrow> bool" where
  "permutation_ok E \<longleftrightarrow> (\<forall>ls. length ls = 25 \<longrightarrow> length (keccak_f1600 E ls) = 25)"

section \<open>A byte at a time\<close>

text \<open>The reference absorption of FIPS 202: every byte into its place, one by one.\<close>

definition absorb_byte :: "externals \<Rightarrow> byte \<Rightarrow> protocol_hash \<Rightarrow> protocol_hash" where
  "absorb_byte E b h = permute_full E
     \<lparr>lanes = (lanes h)[cursor h div 8 :=
         lanes h ! (cursor h div 8) XOR push_bit (8 * (cursor h mod 8)) (ucast b)],
      cursor = cursor h + 1\<rparr>"

definition absorb_bytes :: "externals \<Rightarrow> bytes \<Rightarrow> protocol_hash \<Rightarrow> protocol_hash" where
  "absorb_bytes E bs h = fold (absorb_byte E) bs h"

lemma permute_full_ok:
  "permutation_ok E \<Longrightarrow> length (lanes h) = 25 \<Longrightarrow> cursor h \<le> RATE \<Longrightarrow> hash_ok (permute_full E h)"
  by (auto simp: permute_full_def hash_ok_def permutation_ok_def RATE_def)

lemma absorb_byte_ok: "permutation_ok E \<Longrightarrow> hash_ok h \<Longrightarrow> hash_ok (absorb_byte E b h)"
  unfolding absorb_byte_def by (rule permute_full_ok) (auto simp: hash_ok_def)

lemma absorb_bytes_ok: "permutation_ok E \<Longrightarrow> hash_ok h \<Longrightarrow> hash_ok (absorb_bytes E bs h)"
  unfolding absorb_bytes_def by (induction bs arbitrary: h) (auto simp: absorb_byte_ok)

text \<open>A lane is the exclusive or of its bytes in their places.\<close>

lemma u64_from_le_bytes_Cons:
  "u64_from_le_bytes (b # bs) = ucast b XOR push_bit 8 (u64_from_le_bytes bs)"
proof -
  let ?v = "u64_from_le_bytes bs"
  have "u64_from_le_bytes (b # bs) = ucast b + push_bit 8 ?v"
    by (simp add: u64_from_le_bytes_def push_bit_eq_mult of_nat_unat mult.commute)
  also have "\<dots> = ucast b XOR push_bit 8 ?v"
    by (rule disjunctive_add_eq_xor, rule bit_word_eqI) (auto simp: bit_simps dest: bit_imp_le_length)
  finally show ?thesis .
qed

primrec xor_bytes :: "nat \<Rightarrow> bytes \<Rightarrow> u64 list \<Rightarrow> u64 list" where
  "xor_bytes c [] ls = ls"
| "xor_bytes c (b # bs) ls = xor_bytes (c + 1) bs
     (ls[c div 8 := ls ! (c div 8) XOR push_bit (8 * (c mod 8)) (ucast b)])"

lemma xor_bytes_append:
  "xor_bytes c (xs @ ys) ls = xor_bytes (c + length xs) ys (xor_bytes c xs ls)"
  by (induction xs arbitrary: c ls) auto

lemma length_xor_bytes [simp]: "length (xor_bytes c bs ls) = length ls"
  by (induction bs arbitrary: c ls) auto

lemma absorb_bytes_within_rate:
  assumes "c + length bs \<le> RATE" "c < RATE"
  shows "absorb_bytes E bs \<lparr>lanes = ls, cursor = c\<rparr>
    = permute_full E \<lparr>lanes = xor_bytes c bs ls, cursor = c + length bs\<rparr>"
  using assms
proof (induction bs arbitrary: c ls)
  case Nil
  then show ?case by (simp add: absorb_bytes_def permute_full_def)
next
  case (Cons b bs)
  let ?ls = "ls[c div 8 := ls ! (c div 8) XOR push_bit (8 * (c mod 8)) (ucast b)]"
  have step: "absorb_bytes E (b # bs) \<lparr>lanes = ls, cursor = c\<rparr>
      = absorb_bytes E bs (permute_full E \<lparr>lanes = ?ls, cursor = c + 1\<rparr>)"
    by (simp add: absorb_bytes_def absorb_byte_def)
  show ?case
  proof (cases "c + 1 = RATE")
    case True
    with Cons.prems(1) have "length bs = 0" unfolding list.size by linarith
    with step show ?thesis by (simp add: absorb_bytes_def)
  next
    case False
    with Cons.prems have "permute_full E \<lparr>lanes = ?ls, cursor = c + 1\<rparr>
        = \<lparr>lanes = ?ls, cursor = c + 1\<rparr>" by (simp add: permute_full_def)
    with step False Cons.prems Cons.IH [of "c + 1" ?ls] show ?thesis by simp
  qed
qed

lemma xor_bytes_lane:
  assumes "c mod 8 + length bs \<le> 8" "c div 8 < length ls"
  shows "xor_bytes c bs ls =
    ls[c div 8 := ls ! (c div 8) XOR push_bit (8 * (c mod 8)) (u64_from_le_bytes bs)]"
  using assms
proof (induction bs arbitrary: c ls)
  case Nil
  then show ?case by (simp add: u64_from_le_bytes_def)
next
  case (Cons b bs)
  let ?l = "ls ! (c div 8) XOR push_bit (8 * (c mod 8)) (ucast b)"
  show ?case
  proof (cases "bs = []")
    case True
    then show ?thesis by (simp add: u64_from_le_bytes_Cons) (simp add: u64_from_le_bytes_def)
  next
    case False
    then have "c mod 8 < 7" using Cons.prems(1) by (cases bs) auto
    then have next_byte: "(c + 1) div 8 = c div 8" "(c + 1) mod 8 = c mod 8 + 1"
      by (simp_all add: div_Suc mod_Suc)
    have "push_bit (8 * (c mod 8 + 1)) v = push_bit (8 * (c mod 8)) (push_bit 8 v)" for v :: u64
      by (simp add: add.commute)
    with next_byte Cons.prems Cons.IH [of "c + 1" "ls[c div 8 := ?l]"] show ?thesis
      by (simp add: u64_from_le_bytes_Cons push_bit_xor xor.assoc)
  qed
qed

lemma xor_lanes_Nil [simp]: "xor_lanes start [] ls = ls"
  by (simp add: xor_lanes_def)

lemma xor_lanes_Cons:
  assumes "start < length ls"
  shows "xor_lanes start (w # ws) ls = xor_lanes (start + 1) ws (ls[start := ls ! start XOR w])"
proof -
  have "drop start ls = ls ! start # drop (start + 1) ls"
    using assms by (simp add: Cons_nth_drop_Suc)
  moreover have "take (start + 1) (ls[start := ls ! start XOR w])
      = take start ls @ [ls ! start XOR w]"
    using assms by (simp add: take_Suc_conv_app_nth)
  ultimately show ?thesis by (simp add: xor_lanes_def)
qed

lemma xor_bytes_lanes:
  assumes "c mod 8 = 0" "\<forall>x \<in> set xss. length x = 8" "c div 8 + length xss \<le> length ls"
  shows "xor_bytes c (concat xss) ls = xor_lanes (c div 8) (map u64_from_le_bytes xss) ls"
  using assms
proof (induction xss arbitrary: c ls)
  case Nil
  then show ?case by simp
next
  case (Cons x xss)
  let ?ls = "ls[c div 8 := ls ! (c div 8) XOR u64_from_le_bytes x]"
  have "xor_bytes c x ls = ?ls" using Cons.prems xor_bytes_lane [of c x ls] by simp
  moreover have "(c + 8) div 8 = c div 8 + 1" "(c + 8) mod 8 = 0" using Cons.prems(1) by auto
  ultimately show ?case
    using Cons.prems Cons.IH [of "c + 8" ?ls]
    by (simp add: xor_bytes_append xor_lanes_Cons)
qed

text \<open>The lane-wise loop of the code absorbs exactly what the reference absorbs.\<close>

lemma absorb_lanes_step:
  assumes ok: "hash_ok h" and aligned: "cursor h mod 8 = 0" and long: "8 \<le> length bs"
    and whole: "whole = take (8 * min ((RATE - cursor h) div 8) (length bs div 8)) bs"
  shows "absorb_bytes E whole h = permute_full E
    \<lparr>lanes = xor_lanes (cursor h div 8) (map u64_from_le_bytes (chunks_exact 8 whole)) (lanes h),
     cursor = cursor h + length whole\<rparr>"
proof -
  let ?n = "min ((RATE - cursor h) div 8) (length bs div 8)"
  have len: "length whole = 8 * ?n" by (simp add: whole)
  have fit: "cursor h + length whole \<le> RATE"
    using ok by (simp add: len hash_ok_def min_def; linarith)
  have dvd: "8 dvd length whole" by (simp add: len)
  have chunks: "concat (chunks_exact 8 whole) = whole"
    "\<forall>x \<in> set (chunks_exact 8 whole). length x = 8" "length (chunks_exact 8 whole) = ?n"
    using dvd by (simp_all add: concat_chunks_exact chunks_exact_lengths length_chunks_exact len)
  have "cursor h div 8 + ?n \<le> length (lanes h)"
    using ok fit by (simp add: len hash_ok_def RATE_def; linarith)
  then have "xor_bytes (cursor h) whole (lanes h)
      = xor_lanes (cursor h div 8) (map u64_from_le_bytes (chunks_exact 8 whole)) (lanes h)"
    using xor_bytes_lanes [OF aligned chunks(2), of "lanes h"] chunks by simp
  moreover have "absorb_bytes E whole \<lparr>lanes = lanes h, cursor = cursor h\<rparr>
      = permute_full E \<lparr>lanes = xor_bytes (cursor h) whole (lanes h),
          cursor = cursor h + length whole\<rparr>"
    using fit ok by (intro absorb_bytes_within_rate) (simp_all add: hash_ok_def)
  moreover have "h = \<lparr>lanes = lanes h, cursor = cursor h\<rparr>" by simp
  ultimately show ?thesis by metis
qed

lemma absorb_bytes_append: "absorb_bytes E (xs @ ys) h = absorb_bytes E ys (absorb_bytes E xs h)"
  by (simp add: absorb_bytes_def)

lemma absorb_Nil [simp]: "absorb E [] h = h"
  by (subst absorb.simps) simp

lemma absorb_reference:
  assumes "permutation_ok E" "hash_ok h"
  shows "absorb E bs h = absorb_bytes E bs h"
  using assms(2,1)
proof (induction E bs h rule: absorb.induct)
  case (1 E bs h)
  have c: "cursor h < RATE" using "1.prems" by (simp add: hash_ok_def)
  consider "bs = []" | "bs \<noteq> []" "cursor h mod 8 = 0 \<and> 8 \<le> length bs"
    | b bs' where "bs = b # bs'" "\<not> (cursor h mod 8 = 0 \<and> 8 \<le> length bs)"
    using list.exhaust [of bs] by metis
  then show ?case
  proof cases
    case 1
    then show ?thesis by (simp add: absorb.simps absorb_bytes_def)
  next
    case 2
    define n where "n = min ((RATE - cursor h) div 8) (length bs div 8)"
    let ?whole = "take (8 * n) bs"
    let ?h = "permute_full E \<lparr>lanes = xor_lanes (cursor h div 8)
        (map u64_from_le_bytes (chunks_exact 8 ?whole)) (lanes h),
        cursor = cursor h + length ?whole\<rparr>"
    have step: "absorb_bytes E ?whole h = ?h"
      by (rule absorb_lanes_step [of _ bs]) (use "1.prems" 2 in \<open>simp_all add: n_def\<close>)
    have "hash_ok ?h" unfolding step [symmetric] by (rule absorb_bytes_ok [OF "1.prems"(2,1)])
    then have "absorb E (drop (8 * n) bs) ?h = absorb_bytes E (drop (8 * n) bs) ?h"
      using "1.IH"(1) [OF 2(1) _ n_def refl refl] 2 c "1.prems"(2) by simp
    moreover have "absorb E bs h = absorb E (drop (8 * n) bs) ?h"
      using 2 c by (subst absorb.simps) (simp add: n_def Let_def)
    ultimately have "absorb E bs h = absorb_bytes E (?whole @ drop (8 * n) bs) h"
      by (simp only: absorb_bytes_append step)
    then show ?thesis by simp
  next
    case 3
    have "absorb E bs h = absorb E bs' (absorb_byte E b h)"
      using 3 by (subst absorb.simps) (auto simp: absorb_byte_def)
    moreover have "absorb E bs' (absorb_byte E b h) = absorb_bytes E bs' (absorb_byte E b h)"
      using "1.IH"(2) [unfolded 3(1) list.sel absorb_byte_def [symmetric]] 3
        absorb_byte_ok [OF "1.prems"(2,1), of b] "1.prems"(2) by auto
    ultimately show ?thesis by (simp add: 3(1) absorb_bytes_def)
  qed
qed

lemma initial_ok: "hash_ok \<lparr>lanes = replicate 25 0, cursor = 0\<rparr>"
  by (simp add: hash_ok_def RATE_def)

lemma hash_new_ok: "permutation_ok E \<Longrightarrow> hash_ok (hash_new E)"
  unfolding hash_new_def
  by (simp add: absorb_reference absorb_bytes_ok initial_ok)

lemma absorb_ok: "permutation_ok E \<Longrightarrow> hash_ok h \<Longrightarrow> hash_ok (absorb E bs h)"
  by (simp add: absorb_reference absorb_bytes_ok)

lemma absorb_append:
  "permutation_ok E \<Longrightarrow> hash_ok h \<Longrightarrow> absorb E (xs @ ys) h = absorb E ys (absorb E xs h)"
  by (simp add: absorb_reference absorb_bytes_ok absorb_bytes_append)

section \<open>Cursors and checkpoints\<close>

lemma cursor_absorb_bytes:
  assumes "hash_ok h"
  shows "cursor (absorb_bytes E bs h) = (cursor h + length bs) mod RATE"
proof -
  have "cursor (absorb_bytes E bs h) = (cursor h + length bs) mod RATE"
    if "cursor h < RATE" for h
    using that
  proof (induction bs arbitrary: h)
    case Nil
    then show ?case by (simp add: absorb_bytes_def)
  next
    case (Cons b bs)
    have c: "cursor (absorb_byte E b h) = (cursor h + 1) mod RATE"
      using Cons.prems by (auto simp: absorb_byte_def permute_full_def mod_Suc)
    moreover have "0 < RATE" by (simp add: RATE_def)
    ultimately have "cursor (absorb_byte E b h) < RATE" by simp
    from Cons.IH [OF this] c show ?case
      by (simp add: absorb_bytes_def mod_add_left_eq)
  qed
  with assms show ?thesis by (simp add: hash_ok_def)
qed

lemma length_DOMAIN: "length DOMAIN = 25"
  by (simp add: DOMAIN_def ascii_bytes_def)

lemma absorption_cursor_after_exact:
  assumes "permutation_ok E"
  shows "cursor (absorb E msg (hash_new E)) = absorption_cursor_after (length msg)"
proof -
  let ?h = "\<lparr>lanes = replicate 25 0, cursor = 0\<rparr>"
  have "cursor (hash_new E) = 64"
    using assms
    by (simp add: hash_new_def absorb_reference initial_ok cursor_absorb_bytes length_DOMAIN PREFIX_BYTES_def
        RATE_def)
  moreover have "cursor (absorb E msg (hash_new E)) = (cursor (hash_new E) + length msg) mod RATE"
    using assms by (simp add: absorb_reference hash_new_ok cursor_absorb_bytes)
  ultimately show ?thesis
    by (simp add: absorption_cursor_after_def PREFIX_BYTES_def RATE_def mod_simps)
qed

interpretation checkpoint: exact_codec serialize deserialize hash_ok
proof
  fix h
  assume ok: "hash_ok h"
  let ?xss = "map u64_to_le_bytes (lanes h)"
  have lens: "\<forall>x \<in> set ?xss. length x = 8" by simp
  have len: "length (concat ?xss) = 200"
    using length_concat_const [OF lens] ok by (simp add: hash_ok_def)
  have s: "serialize h = concat ?xss @ [byte_of (cursor h)]"
    using ok by (simp add: serialize_def hash_ok_def)
  have "map (\<lambda>i. u64_from_le_bytes (slice (8 * i) (8 * i + 8) (serialize h))) [0 ..< 25] = lanes h"
    using chunk_slice [OF lens] ok unfolding s
    by (intro nth_equalityI) (auto simp: hash_ok_def)
  moreover have "unat (serialize h ! 200) = cursor h"
    using ok len by (simp add: s nth_append hash_ok_def RATE_def)
  ultimately show "deserialize (serialize h) = Some h"
    using ok len by (simp add: deserialize_def Let_def hash_ok_def STATE_BYTES_def) (simp add: s)
next
  fix bs h
  assume "deserialize bs = Some h"
  then have len: "length bs = 201" and c: "cursor h = unat (bs ! 200)" "cursor h < RATE"
    and l: "lanes h = map (\<lambda>i. u64_from_le_bytes (slice (8 * i) (8 * i + 8) bs)) [0 ..< 25]"
    by (auto simp: deserialize_def Let_def STATE_BYTES_def split: if_splits)
  have "map u64_to_le_bytes (lanes h) = map (\<lambda>i. slice (8 * i) (8 * i + 8) bs) [0 ..< 25]"
    unfolding l using len by (simp add: u64_to_from_le_bytes)
  then have "map u64_to_le_bytes (take 25 (lanes h)) = map (\<lambda>i. slice (8 * i) (8 * i + 8) bs) [0 ..< 25]"
    by (simp add: l)
  then have "serialize h = take 200 bs @ [bs ! 200]"
    using slices_concat [of 8 25 bs] len c(1) unfolding serialize_def by simp
  also have "\<dots> = bs" using len take_Suc_conv_app_nth [of 200 bs] by simp
  finally show "hash_ok h \<and> serialize h = bs" using c l by (simp add: hash_ok_def)
qed

section \<open>Properties\<close>

lemma sample_permutation [simp]: "permutation_ok sample_externals"
  by (simp add: permutation_ok_def sample_externals_def)

text \<open>
  C39.  The sponge that takes whole lanes where it can absorbs the same as one that takes a byte
  at a time, from every state and for every message, and the predicted cursor is the real one.
\<close>

theorem lanewise_absorption_is_bytewise:
  assumes "permutation_ok E" "hash_ok h"
  shows "absorb E bs h = absorb_bytes E bs h
    \<and> cursor (absorb E msg (hash_new E)) = absorption_cursor_after (length msg)"
  using absorb_reference absorption_cursor_after_exact assms by blast

theorem lanewise_absorption_is_bytewise_witness:
  "absorb sample_externals [1, 2, 3] \<lparr>lanes = replicate 25 0, cursor = 7\<rparr>
     = absorb_bytes sample_externals [1, 2, 3] \<lparr>lanes = replicate 25 0, cursor = 7\<rparr>
   \<and> cursor (absorb sample_externals [5] (hash_new sample_externals))
     = absorption_cursor_after (length [5 :: byte])"
  by (rule lanewise_absorption_is_bytewise)
    (simp_all add: permutation_ok_def sample_externals_def hash_ok_def RATE_def)

text \<open>
  Hash checkpoints: a stored state is accepted exactly when it is the encoding of a valid
  state, so a resumed hash continues from the state that was saved.
\<close>

theorem hash_checkpoints_are_exact:
  "deserialize bs = Some h \<longleftrightarrow> hash_ok h \<and> serialize h = bs"
  by (rule checkpoint.decode_iff)

end
