(* ===== verification/Hash_Stream.thy ===== *)
theory Hash_Stream
  imports Protocol_Hash
begin

text \<open>
  Hashes of long byte streams (\<open>parallel-work/src/stream.rs\<close>): a stream is held here or by
  a helper, which keeps its sponge in a map of sessions and takes its operations as encoded
  jobs.  An operation of the stream returns the jobs it submits, in order; a ticket is the
  job it waits for, so the window of running jobs is kept as the code keeps it.  The
  \<open>sha3\<close> crate's state is the bytes it has absorbed.
\<close>

section \<open>Incremental updates\<close>

text \<open>What a caller may assume of a sponge: only the concatenation of its parts matters.\<close>

locale incremental =
  fixes feed :: "bytes \<Rightarrow> 's \<Rightarrow> 's" and ok :: "'s \<Rightarrow> bool"
  assumes feed_ok: "ok s \<Longrightarrow> ok (feed bs s)"
    and feed_Nil: "ok s \<Longrightarrow> feed [] s = s"
    and feed_append: "ok s \<Longrightarrow> feed (xs @ ys) s = feed ys (feed xs s)"
begin

lemma feed_parts: "ok s \<Longrightarrow> fold feed parts s = feed (concat parts) s"
  by (induction parts arbitrary: s) (auto simp: feed_Nil feed_append feed_ok)

lemma division_irrelevant:
  "ok s \<Longrightarrow> concat parts = concat parts' \<Longrightarrow> fold feed parts s = fold feed parts' s"
  by (simp add: feed_parts)

end

interpretation protocol_sponge:
  incremental "absorb E" "\<lambda>h. permutation_ok E \<and> hash_ok h" for E
  by unfold_locales (simp_all add: absorb_ok absorb_append)

section \<open>Sponges\<close>

datatype sponge = ProtocolHash | Shake256

datatype local_sponge = LocalProtocolHash protocol_hash | LocalShake256 bytes

definition local_new :: "externals \<Rightarrow> sponge \<Rightarrow> local_sponge" where
  "local_new E sp =
     (case sp of ProtocolHash \<Rightarrow> LocalProtocolHash (hash_new E) | Shake256 \<Rightarrow> LocalShake256 [])"

definition local_update :: "externals \<Rightarrow> bytes \<Rightarrow> local_sponge \<Rightarrow> local_sponge" where
  "local_update E bs l =
     (case l of LocalProtocolHash h \<Rightarrow> LocalProtocolHash (absorb E bs h)
      | LocalShake256 absorbed \<Rightarrow> LocalShake256 (absorbed @ bs))"

definition local_finish :: "externals \<Rightarrow> local_sponge \<Rightarrow> bytes" where
  "local_finish E l =
     (case l of LocalProtocolHash h \<Rightarrow> finalize E h
      | LocalShake256 absorbed \<Rightarrow> shake256 E absorbed)"

definition local_ok :: "local_sponge \<Rightarrow> bool" where
  "local_ok l = (case l of LocalProtocolHash h \<Rightarrow> hash_ok h | LocalShake256 _ \<Rightarrow> True)"

text \<open>The digest of one complete input.\<close>

definition sponge_digest :: "externals \<Rightarrow> sponge \<Rightarrow> bytes \<Rightarrow> bytes" where
  "sponge_digest E sp bs =
     (case sp of ProtocolHash \<Rightarrow> digest E bs | Shake256 \<Rightarrow> shake256 E bs)"

section \<open>The helper\<close>

definition ABSORB :: byte where "ABSORB = 0"
definition FINISH :: byte where "FINISH = 1"
definition DISCARD :: byte where "DISCARD = 2"
definition HEADER_BYTES :: nat where "HEADER_BYTES = 10"

type_synonym helper_streams = "u64 \<Rightarrow> local_sponge option"

text \<open>The job function; \<open>None\<close> is its panic on an unknown sponge or operation.\<close>

definition stream ::
  "externals \<Rightarrow> bytes \<Rightarrow> helper_streams \<Rightarrow> (helper_streams \<times> bytes) option" where
  "stream E input streams =
     (if length input < HEADER_BYTES then None
      else do {
        sp \<leftarrow> (if input ! 1 = 0 then Some ProtocolHash
               else if input ! 1 = 1 then Some Shake256 else None);
        let session = u64_from_le_bytes (slice 2 HEADER_BYTES input);
        let bs = drop HEADER_BYTES input;
        (if input ! 0 = ABSORB then
           let held = (case streams session of None \<Rightarrow> local_new E sp | Some l \<Rightarrow> l)
           in Some (streams(session \<mapsto> local_update E bs held), [])
         else if input ! 0 = FINISH then
           let held = (case streams session of None \<Rightarrow> local_new E sp | Some l \<Rightarrow> l)
           in Some (streams(session := None), local_finish E (local_update E bs held))
         else if input ! 0 = DISCARD then Some (streams(session := None), [])
         else None) })"

text \<open>A helper runs its jobs in order and keeps each job's session and output.\<close>

fun helper_run ::
  "externals \<Rightarrow> bytes list \<Rightarrow> helper_streams \<Rightarrow> (helper_streams \<times> (u64 \<times> bytes) list) option"
where
  "helper_run E [] streams = Some (streams, [])"
| "helper_run E (job # jobs) streams = do {
     (streams1, out) \<leftarrow> stream E job streams;
     (streams2, outs) \<leftarrow> helper_run E jobs streams1;
     Some (streams2, (u64_from_le_bytes (slice 2 HEADER_BYTES job), out) # outs) }"

section \<open>The stream's holder\<close>

definition BATCH_BYTES :: nat where "BATCH_BYTES = 2 ^ 16"
definition SEND_BYTES :: nat where "SEND_BYTES = 2 ^ 20"
definition WINDOW :: nat where "WINDOW = 4"

record remote =
  remote_session :: u64
  pending :: bytes
  running :: "bytes list"

record hash_stream =
  stream_sponge :: sponge
  stream_local :: "local_sponge option"
  stream_remote :: "remote option"

definition held :: "externals \<Rightarrow> sponge \<Rightarrow> bool \<Rightarrow> u64 \<Rightarrow> hash_stream" where
  "held E sp is_remote session =
     \<lparr> stream_sponge = sp,
       stream_local = (if is_remote then None else Some (local_new E sp)),
       stream_remote = (if is_remote
         then Some \<lparr>remote_session = session, pending = [], running = []\<rparr> else None) \<rparr>"

definition stream_new :: "externals \<Rightarrow> nat \<Rightarrow> sponge \<Rightarrow> u64 \<Rightarrow> hash_stream" where
  "stream_new E helpers sp session = held E sp (helpers > 0) session"

definition stream_held_here :: "externals \<Rightarrow> sponge \<Rightarrow> hash_stream" where
  "stream_held_here E sp = held E sp False 0"

definition sponge_code :: "sponge \<Rightarrow> byte" where
  "sponge_code sp = (case sp of ProtocolHash \<Rightarrow> 0 | Shake256 \<Rightarrow> 1)"

definition send :: "sponge \<Rightarrow> u64 \<Rightarrow> byte \<Rightarrow> bytes \<Rightarrow> bytes" where
  "send sp session operation bs =
     operation # sponge_code sp # u64_to_le_bytes session @ bs"

definition keep :: "bytes \<Rightarrow> remote \<Rightarrow> remote" where
  "keep ticket r =
     (let queue = running r @ [ticket]
      in r\<lparr>running := (if length queue > WINDOW then tl queue else queue)\<rparr>)"

text \<open>\<open>chunks\<close>: the last chunk may be shorter.\<close>

function chunks :: "nat \<Rightarrow> 'a list \<Rightarrow> 'a list list" where
  "chunks n xs = (if xs = [] \<or> n = 0 then [] else take n xs # chunks n (drop n xs))"
  by pat_completeness auto
termination
  by (relation "measure (\<lambda>(n, xs). length xs)") auto

declare chunks.simps [simp del]

fun send_parts :: "sponge \<Rightarrow> bytes list \<Rightarrow> remote \<Rightarrow> remote \<times> bytes list" where
  "send_parts sp [] r = (r, [])"
| "send_parts sp (part # parts) r =
     (let ticket = send sp (remote_session r) ABSORB part;
          (r1, jobs) = send_parts sp parts (keep ticket r)
      in (r1, ticket # jobs))"

text \<open>The remote half of \<open>update\<close>: what stays pending, and the submitted jobs.\<close>

definition remote_update :: "sponge \<Rightarrow> bytes \<Rightarrow> remote \<Rightarrow> remote \<times> bytes list" where
  "remote_update sp bs r =
     (let count = (if pending r = [] then 0 else min (length bs) (BATCH_BYTES - length (pending r)));
          gathered = pending r @ take count bs;
          rest = drop count bs
      in if pending r \<noteq> [] \<and> length gathered < BATCH_BYTES then (r\<lparr>pending := gathered\<rparr>, [])
         else
           let (r1, sent) =
                 (if pending r = [] then (r, [])
                  else let ticket = send sp (remote_session r) ABSORB gathered
                       in (keep ticket (r\<lparr>pending := []\<rparr>), [ticket]))
           in if length rest < BATCH_BYTES then (r1\<lparr>pending := pending r1 @ rest\<rparr>, sent)
              else let (r2, jobs) = send_parts sp (chunks SEND_BYTES rest) r1
                   in (r2, sent @ jobs))"

text \<open>\<open>None\<close> is the panic of a stream held nowhere.\<close>

definition stream_update ::
  "externals \<Rightarrow> bytes \<Rightarrow> hash_stream \<Rightarrow> (hash_stream \<times> bytes list) option" where
  "stream_update E bs hs =
     (case stream_local hs of
        Some l \<Rightarrow> Some (hs\<lparr>stream_local := Some (local_update E bs l)\<rparr>, [])
      | None \<Rightarrow> (case stream_remote hs of
            None \<Rightarrow> None
          | Some r \<Rightarrow> let (r1, jobs) = remote_update (stream_sponge hs) bs r
                       in Some (hs\<lparr>stream_remote := Some r1\<rparr>, jobs)))"

datatype digesting = Ready bytes | Remote "bytes list" bytes

definition finish_later ::
  "externals \<Rightarrow> hash_stream \<Rightarrow> (digesting \<times> bytes list) option" where
  "finish_later E hs =
     (case stream_local hs of
        Some l \<Rightarrow> Some (Ready (local_finish E l), [])
      | None \<Rightarrow> (case stream_remote hs of
            None \<Rightarrow> None
          | Some r \<Rightarrow>
              let finish = send (stream_sponge hs) (remote_session r) FINISH (pending r)
              in Some (Remote (running r) finish, [finish])))"

definition drop_stream :: "hash_stream \<Rightarrow> bytes list" where
  "drop_stream hs =
     (case stream_remote hs of None \<Rightarrow> []
      | Some r \<Rightarrow> [send (stream_sponge hs) (remote_session r) DISCARD []])"

text \<open>A caller's whole use of a stream: its parts, in order, then the digest.\<close>

fun stream_parts ::
  "externals \<Rightarrow> bytes list \<Rightarrow> hash_stream \<Rightarrow> (hash_stream \<times> bytes list) option" where
  "stream_parts E [] hs = Some (hs, [])"
| "stream_parts E (part # parts) hs = do {
     (hs1, jobs) \<leftarrow> stream_update E part hs;
     (hs2, jobs') \<leftarrow> stream_parts E parts hs1;
     Some (hs2, jobs @ jobs') }"

section \<open>What a job does\<close>

definition job_session :: "bytes \<Rightarrow> u64" where
  "job_session job = u64_from_le_bytes (slice 2 HEADER_BYTES job)"

lemma local_finish_new:
  "local_finish E (local_update E bs (local_new E sp)) = sponge_digest E sp bs"
  by (cases sp) (simp_all add: local_new_def local_update_def local_finish_def sponge_digest_def
      digest_def)

interpretation local_sponge: incremental "local_update E" "\<lambda>l. permutation_ok E \<and> local_ok l" for E
  by unfold_locales
    (auto simp: local_ok_def local_update_def absorb_ok absorb_append split: local_sponge.splits)

lemma local_new_ok: "permutation_ok E \<Longrightarrow> local_ok (local_new E sp)"
  by (cases sp) (simp_all add: local_new_def local_ok_def hash_new_ok)

lemma send_fields:
  "length (send sp s op bs) = 10 + length bs" "send sp s op bs ! 0 = op"
  "send sp s op bs ! 1 = sponge_code sp" "job_session (send sp s op bs) = s"
  "drop HEADER_BYTES (send sp s op bs) = bs"
  by (simp_all add: send_def job_session_def slice_def HEADER_BYTES_def)

abbreviation held_or_new :: "externals \<Rightarrow> sponge \<Rightarrow> local_sponge option \<Rightarrow> local_sponge" where
  "held_or_new E sp l \<equiv> (case l of None \<Rightarrow> local_new E sp | Some kept \<Rightarrow> kept)"

lemma sponge_of_code:
  "(if sponge_code sp = 0 then Some ProtocolHash
    else if sponge_code sp = 1 then Some Shake256 else None) = Some sp"
  by (cases sp) (simp_all add: sponge_code_def)

lemma stream_send_any:
  "stream E (send sp s op bs) st =
     (if op = ABSORB
      then Some (st(s \<mapsto> local_update E bs (held_or_new E sp (st s))), [])
      else if op = FINISH
      then Some (st(s := None), local_finish E (local_update E bs (held_or_new E sp (st s))))
      else if op = DISCARD then Some (st(s := None), []) else None)"
proof -
  have "\<not> length (send sp s op bs) < HEADER_BYTES" by (simp add: send_fields HEADER_BYTES_def)
  then show ?thesis
    unfolding stream_def send_fields(2,3,5) sponge_of_code job_session_def [symmetric]
      send_fields(4) Let_def by (simp only: if_False Option.bind.bind_lunit)
qed

lemma stream_send:
  "stream E (send sp s ABSORB bs) st
     = Some (st(s \<mapsto> local_update E bs (held_or_new E sp (st s))), [])"
  "stream E (send sp s FINISH bs) st
     = Some (st(s := None), local_finish E (local_update E bs (held_or_new E sp (st s))))"
  "stream E (send sp s DISCARD bs) st = Some (st(s := None), [])"
  by (simp_all add: stream_send_any ABSORB_def FINISH_def DISCARD_def)

text \<open>A job touches its own session only, and depends on nothing else of the map.\<close>

lemma stream_session:
  assumes "stream E job st = Some (st', out)"
  shows "\<forall>s. s \<noteq> job_session job \<longrightarrow> st' s = st s"
    and "st2 (job_session job) = st (job_session job) \<Longrightarrow>
      \<exists>st2'. stream E job st2 = Some (st2', out) \<and> st2' (job_session job) = st' (job_session job)"
  using assms
  by (auto simp: stream_def Let_def job_session_def Option.bind_eq_Some_conv split: if_splits)

lemma helper_run_session:
  assumes "helper_run E jobs st = Some (st', outs)" "st2 s = st s"
  shows "\<exists>st2'. helper_run E (filter (\<lambda>job. job_session job = s) jobs) st2
           = Some (st2', filter (\<lambda>(t, out). t = s) outs) \<and> st2' s = st' s"
  using assms
proof (induction jobs arbitrary: st st2 outs)
  case Nil
  then show ?case by simp
next
  case (Cons job jobs)
  from Cons.prems(1) obtain st1 out outs1 where job: "stream E job st = Some (st1, out)"
    and rest: "helper_run E jobs st1 = Some (st', outs1)"
    and outs: "outs = (job_session job, out) # outs1"
    by (auto simp: Option.bind_eq_Some_conv job_session_def)
  show ?case
  proof (cases "job_session job = s")
    case True
    with stream_session(2) [OF job, of st2] Cons.prems(2) obtain st3 where
      "stream E job st2 = Some (st3, out)" "st3 s = st1 s" by auto
    with Cons.IH [OF rest, of st3] True outs show ?thesis by (auto simp: job_session_def)
  next
    case False
    with stream_session(1) [OF job] Cons.prems(2) have "st2 s = st1 s" by auto
    with Cons.IH [OF rest, of st2] False outs show ?thesis by auto
  qed
qed

section \<open>What a stream sends\<close>

definition absorb_jobs :: "sponge \<Rightarrow> u64 \<Rightarrow> bytes list \<Rightarrow> bytes list" where
  "absorb_jobs sp s parts = map (send sp s ABSORB) parts"

lemma concat_chunks: "0 < n \<Longrightarrow> concat (chunks n xs) = xs"
proof (induction n xs rule: chunks.induct)
  case (1 n xs)
  then show ?case by (subst chunks.simps) simp
qed

lemma keep_fields [simp]:
  "remote_session (keep t r) = remote_session r" "pending (keep t r) = pending r"
  by (simp_all add: keep_def Let_def)

lemma keep_window: "length (running r) \<le> WINDOW \<Longrightarrow> length (running (keep t r)) \<le> WINDOW"
  by (simp add: keep_def Let_def)

lemma send_parts_jobs:
  assumes "send_parts sp parts r = (r', jobs)"
  shows "jobs = absorb_jobs sp (remote_session r) parts \<and> remote_session r' = remote_session r
    \<and> pending r' = pending r
    \<and> (length (running r) \<le> WINDOW \<longrightarrow> length (running r') \<le> WINDOW)"
  using assms
proof (induction parts arbitrary: r jobs)
  case Nil
  then show ?case by (simp add: absorb_jobs_def)
next
  case (Cons part parts)
  let ?t = "send sp (remote_session r) ABSORB part"
  from Cons.prems obtain jobs1 where "send_parts sp parts (keep ?t r) = (r', jobs1)"
    "jobs = ?t # jobs1" by (auto simp: Let_def split: prod.splits)
  with Cons.IH [of "keep ?t r" jobs1] show ?case by (simp add: absorb_jobs_def keep_window)
qed

definition remote_ok :: "remote \<Rightarrow> bool" where
  "remote_ok r \<longleftrightarrow> length (pending r) < BATCH_BYTES \<and> length (running r) \<le> WINDOW"

lemma remote_update_jobs:
  assumes "remote_update sp bs r = (r', jobs)" "remote_ok r"
  shows "\<exists>parts. jobs = absorb_jobs sp (remote_session r) parts
      \<and> concat parts @ pending r' = pending r @ bs
      \<and> remote_session r' = remote_session r \<and> remote_ok r'"
proof -
  have chunked: "concat (chunks SEND_BYTES xs) = xs" for xs :: bytes
    by (rule concat_chunks) (simp add: SEND_BYTES_def)
  let ?s = "remote_session r"
  define count where "count =
    (if pending r = [] then 0 else min (length bs) (BATCH_BYTES - length (pending r)))"
  define gathered rest where "gathered = pending r @ take count bs" and "rest = drop count bs"
  have upd: "remote_update sp bs r =
     (if pending r \<noteq> [] \<and> length gathered < BATCH_BYTES then (r\<lparr>pending := gathered\<rparr>, [])
      else
        let (r1, sent) =
              (if pending r = [] then (r, [])
               else (keep (send sp ?s ABSORB gathered) (r\<lparr>pending := []\<rparr>),
                     [send sp ?s ABSORB gathered]))
        in if length rest < BATCH_BYTES then (r1\<lparr>pending := pending r1 @ rest\<rparr>, sent)
           else let (r2, jobs) = send_parts sp (chunks SEND_BYTES rest) r1 in (r2, sent @ jobs))"
    unfolding remote_update_def Let_def count_def [symmetric] gathered_def [symmetric]
      rest_def [symmetric] ..
  have whole: "gathered @ rest = pending r @ bs" by (simp add: gathered_def rest_def)
  consider (wait) "pending r \<noteq> []" "length gathered < BATCH_BYTES"
    | (go) "pending r = [] \<or> BATCH_BYTES \<le> length gathered" by linarith
  then show ?thesis
  proof cases
    case wait
    then have "rest = []" by (auto simp: gathered_def rest_def count_def min_def split: if_splits)
    moreover from wait upd assms(1) have "r' = r\<lparr>pending := gathered\<rparr>" "jobs = []" by simp_all
    ultimately show ?thesis using wait whole assms(2)
      by (intro exI [of _ "[]"]) (simp add: absorb_jobs_def remote_ok_def)
  next
    case go
    define r1 where "r1 = (if pending r = [] then r
      else keep (send sp ?s ABSORB gathered) (r\<lparr>pending := []\<rparr>))"
    define first where "first = (if pending r = [] then [] else [gathered])"
    have r1: "pending r1 = []" "remote_session r1 = ?s" "length (running r1) \<le> WINDOW"
      using assms(2) by (auto simp: r1_def remote_ok_def intro: keep_window)
    have all: "concat first @ rest = pending r @ bs"
      using whole by (auto simp: first_def gathered_def count_def)
    have upd2: "remote_update sp bs r =
        (if length rest < BATCH_BYTES then (r1\<lparr>pending := rest\<rparr>, absorb_jobs sp ?s first)
         else let (r2, jobs) = send_parts sp (chunks SEND_BYTES rest) r1
              in (r2, absorb_jobs sp ?s first @ jobs))"
      using go r1(1)
      by (cases "pending r = []") (auto simp: upd r1_def first_def absorb_jobs_def)
    show ?thesis
    proof (cases "length rest < BATCH_BYTES")
      case True
      with upd2 assms(1) have "r' = r1\<lparr>pending := rest\<rparr>" "jobs = absorb_jobs sp ?s first"
        by simp_all
      with True r1 all show ?thesis by (intro exI [of _ first]) (simp add: remote_ok_def)
    next
      case False
      obtain jobs2 where s: "send_parts sp (chunks SEND_BYTES rest) r1 = (r', jobs2)"
        "jobs = absorb_jobs sp ?s first @ jobs2"
        using upd2 False assms(1) by (auto simp: Let_def split: prod.splits)
      have "remote_ok r'"
        using send_parts_jobs [OF s(1)] r1 by (simp add: remote_ok_def BATCH_BYTES_def)
      with send_parts_jobs [OF s(1)] s(2) r1 all chunked [of rest] show ?thesis
        by (intro exI [of _ "first @ chunks SEND_BYTES rest"]) (simp add: absorb_jobs_def)
    qed
  qed
qed

lemma stream_parts_jobs:
  assumes "stream_parts E parts hs = Some (hs', jobs)" "stream_local hs = None"
    "stream_remote hs = Some r" "remote_ok r"
  shows "\<exists>sent r'. jobs = absorb_jobs (stream_sponge hs) (remote_session r) sent
      \<and> concat sent @ pending r' = pending r @ concat parts
      \<and> hs' = hs\<lparr>stream_remote := Some r'\<rparr>
      \<and> remote_session r' = remote_session r \<and> remote_ok r'"
  using assms
proof (induction parts arbitrary: hs r jobs)
  case Nil
  then show ?case by (auto simp: absorb_jobs_def)
next
  case (Cons part parts)
  obtain r1 jobs1 where up: "remote_update (stream_sponge hs) part r = (r1, jobs1)" by fastforce
  let ?hs = "hs\<lparr>stream_remote := Some r1\<rparr>"
  from Cons.prems up obtain jobs2 where rest: "stream_parts E parts ?hs = Some (hs', jobs2)"
    and jobs: "jobs = jobs1 @ jobs2"
    by (auto simp: stream_update_def Let_def Option.bind_eq_Some_conv)
  from remote_update_jobs [OF up Cons.prems(4)] obtain sent1 where
    one: "jobs1 = absorb_jobs (stream_sponge hs) (remote_session r) sent1"
      "concat sent1 @ pending r1 = pending r @ part"
      "remote_session r1 = remote_session r" "remote_ok r1" by blast
  from Cons.IH [OF rest _ _ one(4)] Cons.prems(2) obtain sent2 r' where
    two: "jobs2 = absorb_jobs (stream_sponge hs) (remote_session r) sent2"
      "concat sent2 @ pending r' = pending r1 @ concat parts"
      "hs' = hs\<lparr>stream_remote := Some r'\<rparr>" "remote_session r' = remote_session r" "remote_ok r'"
    by (auto simp: one(3))
  have "concat (sent1 @ sent2) @ pending r' = pending r @ concat (part # parts)"
    using one(2) two(2) by (metis append.assoc concat.simps(2) concat_append)
  with one two jobs show ?case
    by (intro exI [of _ "sent1 @ sent2"] exI [of _ r']) (simp add: absorb_jobs_def)
qed

lemma helper_run_append:
  "helper_run E (xs @ ys) st = do {
     (st1, outs1) \<leftarrow> helper_run E xs st;
     (st2, outs2) \<leftarrow> helper_run E ys st1;
     Some (st2, outs1 @ outs2) }"
proof (induction xs arbitrary: st)
  case Nil
  then show ?case by (cases "helper_run E ys st") auto
next
  case (Cons x xs)
  then show ?case
    by (cases "stream E x st")
      (auto simp: Option.bind_assoc case_prod_unfold intro!: Option.bind_cong)
qed

lemma helper_run_absorb_jobs:
  assumes "permutation_ok E" "local_ok (held_or_new E sp (st s))"
  shows "\<exists>st' outs. helper_run E (absorb_jobs sp s parts) st = Some (st', outs)
    \<and> held_or_new E sp (st' s) = local_update E (concat parts) (held_or_new E sp (st s))"
  using assms(2)
proof (induction parts arbitrary: st)
  case Nil
  then show ?case using assms(1) by (simp add: absorb_jobs_def local_sponge.feed_Nil)
next
  case (Cons part parts)
  let ?l = "held_or_new E sp (st s)"
  let ?st = "st(s \<mapsto> local_update E part ?l)"
  have ok: "local_ok (held_or_new E sp (?st s))"
    using local_sponge.feed_ok [of E ?l part] Cons.prems assms(1) by simp
  from Cons.IH [where st = ?st, OF ok] obtain st' outs where
    "helper_run E (absorb_jobs sp s parts) ?st = Some (st', outs)"
    "held_or_new E sp (st' s) = local_update E (concat parts) (local_update E part ?l)"
    unfolding fun_upd_same option.case by blast
  then show ?case
    using local_sponge.feed_append [of E ?l part "concat parts"] Cons.prems assms(1)
    by (simp add: absorb_jobs_def stream_send)
qed

section \<open>The digest of a stream\<close>

text \<open>
  However the bytes are divided, a stream held here and a stream held by a helper give the
  same digest, whatever other sessions the helper serves in between.
\<close>

lemma local_stream_digest:
  assumes "permutation_ok E"
  shows "\<exists>hs. stream_parts E parts (stream_held_here E sp) = Some (hs, [])
    \<and> finish_later E hs = Some (Ready (sponge_digest E sp (concat parts)), [])"
proof -
  have run: "\<exists>hs'. stream_parts E parts hs = Some (hs', [])
      \<and> stream_local hs' = Some (local_update E (concat parts) l)"
    if "stream_local hs = Some l" "local_ok l" for hs l
    using that
  proof (induction parts arbitrary: hs l)
    case Nil
    then show ?case using assms by (simp add: local_sponge.feed_Nil)
  next
    case (Cons part parts)
    let ?hs = "hs\<lparr>stream_local := Some (local_update E part l)\<rparr>"
    from Cons.IH [of ?hs "local_update E part l"] local_sponge.feed_ok [of E l part]
      local_sponge.feed_append [of E l part "concat parts"] Cons.prems assms
    show ?case by (auto simp: stream_update_def)
  qed
  from run [of "stream_held_here E sp" "local_new E sp"] local_new_ok [OF assms, of sp]
  show ?thesis
    by (auto simp: stream_held_here_def held_def finish_later_def local_finish_new)
qed

lemma remote_stream_digest:
  assumes "permutation_ok E"
    and parts: "stream_parts E parts (held E sp True s) = Some (hs, jobs)"
    and finish: "finish_later E hs = Some (pending_digest, [last_job])"
    and run: "helper_run E all_jobs st = Some (st', outs)"
    and own: "filter (\<lambda>job. job_session job = s) all_jobs = jobs @ [last_job]"
    and fresh: "st s = None"
  shows "\<exists>others. filter (\<lambda>(t, out). t = s) outs
      = others @ [(s, sponge_digest E sp (concat parts))] \<and> st' s = None"
proof -
  let ?r = "\<lparr>remote_session = s, pending = [], running = []\<rparr>"
  have r: "remote_ok ?r" by (simp add: remote_ok_def BATCH_BYTES_def)
  from stream_parts_jobs [OF parts _ _ r] obtain sent r' where
    jobs: "jobs = absorb_jobs sp s sent" "concat sent @ pending r' = concat parts"
      "stream_remote hs = Some r'" "remote_session r' = s" "stream_local hs = None"
      "stream_sponge hs = sp"
    by (auto simp: held_def)
  with finish have last: "last_job = send sp s FINISH (pending r')"
    by (simp add: finish_later_def Let_def)
  from helper_run_session [OF run, of st s] own obtain st2 where
    own_run: "helper_run E (jobs @ [last_job]) st = Some (st2, filter (\<lambda>(t, out). t = s) outs)"
      "st2 s = st' s" by auto
  have new_ok: "local_ok (held_or_new E sp (st s))"
    using fresh local_new_ok [OF assms(1)] by simp
  from helper_run_absorb_jobs [where parts = sent and st = st and s = s, OF assms(1) new_ok]
  obtain st1 outs1 where
    one: "helper_run E jobs st = Some (st1, outs1)"
      "held_or_new E sp (st1 s) = local_update E (concat sent) (local_new E sp)"
    using jobs(1) fresh by auto
  have "local_update E (pending r') (local_update E (concat sent) (local_new E sp))
      = local_update E (concat parts) (local_new E sp)"
    using local_sponge.feed_append [of E "local_new E sp" "concat sent" "pending r'"] assms(1)
      local_new_ok [OF assms(1), of sp] jobs(2) by simp
  then have "helper_run E [last_job] st1
      = Some (st1(s := None), [(s, sponge_digest E sp (concat parts))])"
    using one(2) send_fields(4) [of sp s FINISH "pending r'"]
    by (simp add: last stream_send local_finish_new job_session_def)
  with one(1) have "helper_run E (jobs @ [last_job]) st
      = Some (st1(s := None), outs1 @ [(s, sponge_digest E sp (concat parts))])"
    unfolding helper_run_append by (simp only: Option.bind.bind_lunit prod.case)
  then show ?thesis using own_run by auto
qed

lemma dropped_stream_forgotten:
  assumes "stream_remote hs = Some r"
  shows "\<exists>st' outs. helper_run E (drop_stream hs) st = Some (st', outs) \<and> st' (remote_session r) = None"
  using assms by (simp add: drop_stream_def stream_send)

section \<open>Properties\<close>

text \<open>
  C38.  A digest that a helper computes is the digest of the session's own bytes: however the
  jobs of other sessions interleave, the helper's answer to the session is the sponge's digest
  of all parts in order, and the helper forgets the session.
\<close>

theorem helper_digest_is_the_local_digest:
  assumes "permutation_ok E"
    and "stream_parts E parts (held E sp True s) = Some (hs, jobs)"
    and "finish_later E hs = Some (pending_digest, [last_job])"
    and "helper_run E all_jobs st = Some (st', outs)"
    and "filter (\<lambda>job. job_session job = s) all_jobs = jobs @ [last_job]"
    and "st s = None"
  shows "\<exists>others. filter (\<lambda>(t, out). t = s) outs
      = others @ [(s, sponge_digest E sp (concat parts))] \<and> st' s = None"
  using assms by (rule remote_stream_digest)

text \<open>
  A stream absorbed on the calling thread never submits a job, and its digest is the
  sponge's digest of the concatenated parts.
\<close>

theorem local_digest_is_the_sponge_digest:
  assumes "permutation_ok E"
  shows "\<exists>hs. stream_parts E parts (stream_held_here E sp) = Some (hs, [])
    \<and> finish_later E hs = Some (Ready (sponge_digest E sp (concat parts)), [])"
  using assms by (rule local_stream_digest)

theorem local_digest_is_the_sponge_digest_witness:
  "\<exists>hs. stream_parts sample_externals [[1], [2, 3]] (stream_held_here sample_externals Shake256)
      = Some (hs, [])
    \<and> finish_later sample_externals hs
      = Some (Ready (sponge_digest sample_externals Shake256 (concat [[1], [2, 3]])), [])"
  by (rule local_digest_is_the_sponge_digest) simp

theorem helper_digest_is_the_local_digest_witness:
  "\<exists>others. filter (\<lambda>(t, out). t = 4) [(9, []), (4 :: u64, [1, 2] @ replicate 62 0)]
      = others @ [(4, sponge_digest sample_externals Shake256 (concat [[1], [2]]))]
    \<and> [9 \<mapsto> LocalShake256 [5]] (4 :: u64) = None"
proof (rule helper_digest_is_the_local_digest
    [where st = "\<lambda>_. None" and st' = "[9 \<mapsto> LocalShake256 [5]]"])
  let ?h = "held sample_externals Shake256 True 4"
  let ?r = "\<lparr>remote_session = 4, pending = [1, 2], running = []\<rparr>"
  let ?last = "send Shake256 4 FINISH [1, 2]"
  show "stream_parts sample_externals [[1], [2]] ?h = Some (?h\<lparr>stream_remote := Some ?r\<rparr>, [])"
    by (simp add: stream_update_def held_def remote_update_def BATCH_BYTES_def Let_def)
  show "finish_later sample_externals (?h\<lparr>stream_remote := Some ?r\<rparr>)
      = Some (Remote [] ?last, [?last])"
    by (simp add: finish_later_def held_def Let_def)
  show "helper_run sample_externals [send Shake256 9 ABSORB [5], ?last] (\<lambda>_. None)
      = Some ([9 \<mapsto> LocalShake256 [5]], [(9, []), (4, [1, 2] @ replicate 62 0)])"
    by (simp add: stream_send send_fields local_new_def local_update_def local_finish_def
        sample_externals_def fun_upd_idem flip: job_session_def)
  show "filter (\<lambda>job. job_session job = 4) [send Shake256 9 ABSORB [5], ?last] = [] @ [?last]"
    by (simp add: job_session_def send_def HEADER_BYTES_def slice_def)
qed simp_all

end
