(* ===== verification/Identity.thy ===== *)
theory Identity
  imports Canonical_Tuple Hash_Stream
begin

text \<open>
  Purpose-labelled identities (\<open>protocol-foundations/src/identity.rs\<close> and
  \<open>foundation/hash.rs\<close>): the hash of a canonical tuple, the framing that precedes a
  streamed payload, the identity hasher over it and the body hasher that refuses empty and
  oversized parts.
\<close>

section \<open>Framed tuples are uniquely readable\<close>

definition sized_tuple :: "canonical_tuple \<Rightarrow> bool" where
  "sized_tuple t \<longleftrightarrow> length (items t) < u32_bound
     \<and> (\<forall>item \<in> set (items t). length (canonical_bytes item) < u32_bound)"

lemma canonical_code_inject: "canonical_code a = canonical_code b \<longleftrightarrow> a = b"
  by (metis from_canonical_code_code option.inject)

lemma u16_to_le_bytes_inject [simp]: "u16_to_le_bytes v = u16_to_le_bytes w \<longleftrightarrow> v = w"
  by (metis u16_le_roundtrip)

lemma encode_item_prefix:
  assumes "encode_item x @ xs = encode_item y @ ys"
    and "length (canonical_bytes x) < u32_bound" "length (canonical_bytes y) < u32_bound"
  shows "x = y \<and> xs = ys"
proof -
  from assms(1) have "u16_to_le_bytes (canonical_code (item_type x))
      = u16_to_le_bytes (canonical_code (item_type y))"
    and "le_bytes 4 (length (canonical_bytes x)) = le_bytes 4 (length (canonical_bytes y))"
    and rest: "canonical_bytes x @ xs = canonical_bytes y @ ys"
    by (simp_all add: encode_item_def)
  then have "item_type x = item_type y" "length (canonical_bytes x) = length (canonical_bytes y)"
    using assms(2,3) by (simp_all add: canonical_code_inject le_bytes_inject u32_bound_def)
  with rest show ?thesis by (cases x; cases y) simp
qed

lemma encoded_items_inject:
  assumes "concat (map encode_item xs) = concat (map encode_item ys)"
    and "\<forall>x \<in> set xs \<union> set ys. length (canonical_bytes x) < u32_bound"
  shows "xs = ys"
  using assms
proof (induction xs arbitrary: ys)
  case Nil
  then have "length (concat (map encode_item ys)) = 0" by (metis concat.simps(1) list.map(1) list.size(3))
  then show ?case by simp
next
  case (Cons x xs)
  then have "0 < length (concat (map encode_item ys))" by (simp flip: Cons.prems(1))
  then obtain y ys' where ys: "ys = y # ys'" by (cases ys) auto
  with Cons.prems have "x = y \<and> concat (map encode_item xs) = concat (map encode_item ys')"
    by (intro encode_item_prefix) auto
  with Cons ys show ?case by auto
qed

lemma tuple_bytes_inject:
  assumes "tuple_bytes s = tuple_bytes t" "sized_tuple s" "sized_tuple t"
  shows "s = t"
proof -
  from assms(1) have "schema_identifier s = schema_identifier t"
    and "concat (map encode_item (items s)) = concat (map encode_item (items t))"
    by (simp_all add: tuple_bytes_def)
  moreover from this have "items s = items t"
    using assms(2,3) by (intro encoded_items_inject) (auto simp: sized_tuple_def)
  ultimately show ?thesis by (cases s; cases t) simp
qed

section \<open>Hashes of tuples\<close>

definition canonical_foundation_tuple_hash_preimage ::
  "externals \<Rightarrow> bytes \<Rightarrow> canonical_item list \<Rightarrow> bytes option" where
  "canonical_foundation_tuple_hash_preimage E domain its = do {
     label \<leftarrow> nonempty_ascii domain;
     tuple_encode E \<lparr>schema_identifier = CANONICAL_TUPLE_SCHEMA_IDENTIFIER,
                     items = label # its\<rparr> }"

definition hash_foundation_tuple_512 ::
  "externals \<Rightarrow> bytes \<Rightarrow> canonical_item list \<Rightarrow> bytes option" where
  "hash_foundation_tuple_512 E domain its =
     map_option (shake256 E) (canonical_foundation_tuple_hash_preimage E domain its)"

section \<open>Framing\<close>

datatype trailing = Fixed nat | Variable nat

definition framing ::
  "externals \<Rightarrow> bytes \<Rightarrow> canonical_item list \<Rightarrow> trailing \<Rightarrow> bytes result" where
  "framing E domain prefix tr = ok_or Shape (do {
     label \<leftarrow> nonempty_ascii domain;
     let its = label # prefix;
     count \<leftarrow> u32_try_from (length its + 1);
     encoded \<leftarrow> tuple_encode E \<lparr>schema_identifier = CANONICAL_TUPLE_SCHEMA_IDENTIFIER,
                                 items = its\<rparr>;
     let framed = take 2 encoded @ le_bytes 4 count @ drop 6 encoded
                    @ u16_to_le_bytes (canonical_code RawBytes);
     (case tr of
        Fixed len \<Rightarrow> do { w \<leftarrow> u32_try_from len; Some (framed @ le_bytes 4 w) }
      | Variable len \<Rightarrow> do {
          item_length \<leftarrow> checked_add len 4;
          a \<leftarrow> u32_try_from item_length;
          b \<leftarrow> u32_try_from len;
          Some (framed @ le_bytes 4 a @ le_bytes 4 b) }) })"

section \<open>The identity hasher\<close>

record identity_hasher =
  identity_stream :: hash_stream
  remaining :: nat

text \<open>
  Every operation also returns the jobs its stream submits; a local stream submits none.
  A stream that is held nowhere would panic; no stream of the constructors is, and the model
  answers it with \<open>Crypto\<close>, which no reachable state returns.
\<close>

definition with_stream ::
  "externals \<Rightarrow> hash_stream \<Rightarrow> bytes \<Rightarrow> canonical_item list \<Rightarrow> nat
    \<Rightarrow> (identity_hasher \<times> bytes list) result" where
  "with_stream E hash domain prefix len =
     (case framing E domain prefix (Variable len) of
        Inl e \<Rightarrow> Inl e
      | Inr framed \<Rightarrow> (case stream_update E framed hash of
            None \<Rightarrow> Inl Crypto
          | Some (hash1, jobs) \<Rightarrow>
              Inr (\<lparr>identity_stream = hash1, remaining = len\<rparr>, jobs)))"

definition identity_local ::
  "externals \<Rightarrow> bytes \<Rightarrow> canonical_item list \<Rightarrow> nat \<Rightarrow> (identity_hasher \<times> bytes list) result" where
  "identity_local E domain prefix len =
     with_stream E (stream_held_here E Shake256) domain prefix len"

definition identity_new ::
  "externals \<Rightarrow> nat \<Rightarrow> u64 \<Rightarrow> bytes \<Rightarrow> canonical_item list \<Rightarrow> nat
    \<Rightarrow> (identity_hasher \<times> bytes list) result" where
  "identity_new E helpers session domain prefix len =
     with_stream E (stream_new E helpers Shake256 session) domain prefix len"

definition identity_absorb ::
  "externals \<Rightarrow> bytes \<Rightarrow> identity_hasher \<Rightarrow> (identity_hasher \<times> bytes list) result" where
  "identity_absorb E bs h =
     (if length bs > remaining h then Inl Shape
      else (case stream_update E bs (identity_stream h) of
          None \<Rightarrow> Inl Crypto
        | Some (hash1, jobs) \<Rightarrow>
            Inr (\<lparr>identity_stream = hash1, remaining = remaining h - length bs\<rparr>, jobs)))"

definition identity_finish_later ::
  "externals \<Rightarrow> identity_hasher \<Rightarrow> (digesting \<times> bytes list) result" where
  "identity_finish_later E h =
     (if remaining h \<noteq> 0 then Inl Shape
      else ok_or Crypto (finish_later E (identity_stream h)))"

text \<open>\<open>finish\<close> of a hasher whose sponge runs here: the wait returns at once.\<close>

definition identity_finish :: "externals \<Rightarrow> identity_hasher \<Rightarrow> bytes result" where
  "identity_finish E h =
     (case identity_finish_later E h of
        Inl e \<Rightarrow> Inl e
      | Inr (Ready out, _) \<Rightarrow> Inr out
      | Inr (Remote _ _, _) \<Rightarrow> Inl Crypto)"

definition identity :: "externals \<Rightarrow> bytes \<Rightarrow> bytes \<Rightarrow> bytes result" where
  "identity E domain bs =
     (case identity_local E domain [] (length bs) of
        Inl e \<Rightarrow> Inl e
      | Inr (h, _) \<Rightarrow> (case identity_absorb E bs h of
            Inl e \<Rightarrow> Inl e
          | Inr (h1, _) \<Rightarrow> identity_finish E h1))"

section \<open>The body hasher\<close>

definition CHUNK_LIMIT :: nat where "CHUNK_LIMIT = 2 ^ 20"

type_synonym body_hasher = "identity_hasher option"

definition body_hasher_new :: "externals \<Rightarrow> bytes \<Rightarrow> nat \<Rightarrow> body_hasher result" where
  "body_hasher_new E domain len =
     (case identity_local E domain [] len of Inl e \<Rightarrow> Inl e | Inr (h, _) \<Rightarrow> Inr (Some h))"

definition body_push :: "externals \<Rightarrow> bytes \<Rightarrow> body_hasher \<Rightarrow> body_hasher \<times> unit result" where
  "body_push E bs bh =
     (case bh of
        None \<Rightarrow> (None, Inl Consumed)
      | Some h \<Rightarrow>
          if bs = [] \<or> length bs > CHUNK_LIMIT then (None, Inl Shape)
          else (case identity_absorb E bs h of
              Inl _ \<Rightarrow> (None, Inl Shape)
            | Inr (h1, _) \<Rightarrow> (Some h1, Inr ())))"

definition body_finish :: "externals \<Rightarrow> body_hasher \<Rightarrow> bytes result" where
  "body_finish E bh = (case bh of None \<Rightarrow> Inl Consumed | Some h \<Rightarrow> identity_finish E h)"

fun body_pushes :: "externals \<Rightarrow> bytes list \<Rightarrow> body_hasher \<Rightarrow> body_hasher" where
  "body_pushes E [] bh = bh"
| "body_pushes E (part # parts) bh = body_pushes E parts (fst (body_push E part bh))"

section \<open>What an identity is\<close>

definition framed_tuple :: "bytes \<Rightarrow> canonical_item list \<Rightarrow> canonical_item \<Rightarrow> canonical_tuple" where
  "framed_tuple domain prefix final =
     \<lparr>schema_identifier = CANONICAL_TUPLE_SCHEMA_IDENTIFIER,
      items = label_item domain # prefix @ [final]\<rparr>"

text \<open>The framing and the payload are the bytes of the whole framed tuple.\<close>

lemma framing_bytes:
  assumes "framing E domain prefix tr = Inr framed"
  shows "tr = Variable (length payload) \<Longrightarrow>
      framed @ payload = tuple_bytes (framed_tuple domain prefix (raw_variable payload))"
    and "tr = Fixed (length payload) \<Longrightarrow>
      framed @ payload = tuple_bytes (framed_tuple domain prefix
        \<lparr>item_type = RawBytes, canonical_bytes = payload\<rparr>)"
proof -
  let ?its = "label_item domain # prefix"
  let ?t = "\<lparr>schema_identifier = CANONICAL_TUPLE_SCHEMA_IDENTIFIER, items = ?its\<rparr>"
  from assms obtain encoded where enc: "tuple_encode E ?t = Some encoded"
    and tail: "framed = take 2 encoded @ le_bytes 4 (length ?its + 1) @ drop 6 encoded
        @ u16_to_le_bytes (canonical_code RawBytes)
        @ (case tr of Fixed n \<Rightarrow> le_bytes 4 n | Variable n \<Rightarrow> le_bytes 4 (n + 4) @ le_bytes 4 n)"
    by (cases tr)
      (auto simp: framing_def Let_def Option.bind_eq_Some_conv nonempty_ascii_Some_iff)
  from tuple_encode_bytes [OF enc] have e: "take 2 encoded = u16_to_le_bytes 1"
    "drop 6 encoded = concat (map encode_item ?its)"
    by (simp_all add: tuple_bytes_def CANONICAL_TUPLE_SCHEMA_IDENTIFIER_def)
  show "framed @ payload = tuple_bytes (framed_tuple domain prefix (raw_variable payload))"
    if "tr = Variable (length payload)"
    using that unfolding tail e
    by (simp add: tuple_bytes_def framed_tuple_def encode_item_def raw_variable_def
        CANONICAL_TUPLE_SCHEMA_IDENTIFIER_def add.commute)
  show "framed @ payload = tuple_bytes (framed_tuple domain prefix
      \<lparr>item_type = RawBytes, canonical_bytes = payload\<rparr>)"
    if "tr = Fixed (length payload)"
    using that unfolding tail e
    by (simp add: tuple_bytes_def framed_tuple_def encode_item_def
        CANONICAL_TUPLE_SCHEMA_IDENTIFIER_def)
qed

definition labelled :: "bytes \<Rightarrow> bool" where
  "labelled domain \<longleftrightarrow> domain \<noteq> [] \<and> length domain \<le> 1024 \<and> printable_ascii domain"

lemma framing_defined:
  assumes "labelled domain" "length payload + 4 < u32_bound"
  shows "\<exists>framed. framing E domain [] (Variable (length payload)) = Inr framed"
proof -
  let ?t = "\<lparr>schema_identifier = CANONICAL_TUPLE_SCHEMA_IDENTIFIER, items = [label_item domain]\<rparr>"
  have len: "length domain + 4 \<le> maximum_item_byte_length default_limits"
    using assms(1) by (simp add: labelled_def default_limits_def)
  have flat: "flat_tuple default_limits ?t"
    using assms(1) len limits_below_bounds(2)
    by (simp add: flat_tuple_def label_item_def labelled_def)
  have "tuple_encode E ?t = Some (tuple_bytes ?t)"
    using assms(1) by (intro tuple_encode_flat [OF flat])
      (simp_all add: length_tuple_bytes label_item_def labelled_def default_limits_def)
  moreover have "nonempty_ascii domain = Some (label_item domain)"
    using assms(1) len by (simp add: nonempty_ascii_Some_iff labelled_def)
  ultimately show ?thesis
    using assms(2)
    by (simp add: framing_def Let_def u32_try_from_def checked_add_def u32_bound_def usize_bound_def)
qed

text \<open>The stream an identity hasher holds here, as the bytes it has absorbed.\<close>

definition absorbed_here :: "hash_stream \<Rightarrow> bytes \<Rightarrow> bool" where
  "absorbed_here hs bs \<longleftrightarrow> stream_local hs = Some (LocalShake256 bs)"

lemma held_here_empty: "absorbed_here (stream_held_here E Shake256) []"
  by (simp add: absorbed_here_def stream_held_here_def held_def local_new_def)

lemma stream_update_here:
  "absorbed_here hs bs \<Longrightarrow>
   \<exists>hs'. stream_update E new hs = Some (hs', []) \<and> absorbed_here hs' (bs @ new)"
  by (simp add: absorbed_here_def stream_update_def local_update_def)

lemma identity_local_started:
  assumes "framing E domain prefix (Variable len) = Inr framed"
  shows "\<exists>h. identity_local E domain prefix len = Inr (h, []) \<and> remaining h = len
    \<and> absorbed_here (identity_stream h) framed"
  using stream_update_here [OF held_here_empty, of E framed E] assms
  by (auto simp: identity_local_def with_stream_def)

lemma identity_absorb_here:
  assumes "absorbed_here (identity_stream h) bs"
  shows "length new > remaining h \<Longrightarrow> identity_absorb E new h = Inl Shape"
    and "length new \<le> remaining h \<Longrightarrow>
      \<exists>h'. identity_absorb E new h = Inr (h', []) \<and> remaining h' = remaining h - length new
        \<and> absorbed_here (identity_stream h') (bs @ new)"
  using stream_update_here [OF assms, of E new] by (auto simp: identity_absorb_def)

lemma identity_finish_here:
  assumes "absorbed_here (identity_stream h) bs"
  shows "identity_finish E h = (if remaining h = 0 then Inr (shake256 E bs) else Inl Shape)"
  using assms
  by (simp add: identity_finish_def identity_finish_later_def finish_later_def absorbed_here_def
      local_finish_def)

definition identity_preimage :: "bytes \<Rightarrow> bytes \<Rightarrow> bytes" where
  "identity_preimage domain bs = tuple_bytes (framed_tuple domain [] (raw_variable bs))"

lemma identity_value:
  assumes "labelled domain" "length bs + 4 < u32_bound"
  shows "identity E domain bs = Inr (shake256 E (identity_preimage domain bs))"
proof -
  obtain framed where f: "framing E domain [] (Variable (length bs)) = Inr framed"
    using framing_defined [OF assms] by blast
  obtain h where h: "identity_local E domain [] (length bs) = Inr (h, [])"
    "remaining h = length bs" "absorbed_here (identity_stream h) framed"
    using identity_local_started [OF f] by blast
  obtain h1 where "identity_absorb E bs h = Inr (h1, [])" "remaining h1 = 0"
    "absorbed_here (identity_stream h1) (framed @ bs)"
    using identity_absorb_here(2) [OF h(3), of bs] h(2) by auto
  with h identity_finish_here [of h1] framing_bytes(1) [OF f refl] show ?thesis
    by (simp add: identity_def identity_preimage_def)
qed

text \<open>A payload within one item is hashed as the canonical tuple of its two items.\<close>

lemma identity_is_tuple_hash:
  assumes "labelled domain" "variable_bytes bs = Some item"
  shows "identity E domain bs = ok_or Shape (hash_foundation_tuple_512 E domain [item])"
proof -
  have item: "item = raw_variable bs" "length bs + 4 \<le> maximum_item_byte_length default_limits"
    using assms(2) by (auto simp: variable_bytes_Some_iff raw_variable_def)
  have len: "length domain + 4 \<le> maximum_item_byte_length default_limits"
    using assms(1) by (simp add: labelled_def default_limits_def)
  let ?t = "\<lparr>schema_identifier = CANONICAL_TUPLE_SCHEMA_IDENTIFIER,
      items = [label_item domain, item]\<rparr>"
  have flat: "flat_tuple default_limits ?t"
    using assms(1) len item(2) limits_below_bounds(2)
    by (simp add: flat_tuple_def label_item_def labelled_def item(1) raw_variable_def)
  have "tuple_encode E ?t = Some (tuple_bytes ?t)"
    using assms(1) item(2) by (intro tuple_encode_flat [OF flat])
      (simp_all add: length_tuple_bytes label_item_def labelled_def default_limits_def item(1)
        raw_variable_def)
  moreover have "nonempty_ascii domain = Some (label_item domain)"
    using assms(1) len by (simp add: nonempty_ascii_Some_iff labelled_def)
  moreover have "length bs + 4 < u32_bound" using item(2) limits_below_bounds(1) by linarith
  ultimately show ?thesis
    using identity_value [OF assms(1), of bs E]
    by (simp add: hash_foundation_tuple_512_def canonical_foundation_tuple_hash_preimage_def
        identity_preimage_def framed_tuple_def item(1))
qed

lemma sized_framed_tuple:
  assumes "labelled domain" "length bs + 4 < u32_bound"
  shows "sized_tuple (framed_tuple domain [] (raw_variable bs))"
  using assms
  by (simp add: sized_tuple_def framed_tuple_def label_item_def raw_variable_def labelled_def
      u32_bound_def)

lemma identity_preimage_inject:
  assumes "identity_preimage d x = identity_preimage d' y"
    and "labelled d" "labelled d'" "length x + 4 < u32_bound" "length y + 4 < u32_bound"
  shows "d = d' \<and> x = y"
proof -
  have "framed_tuple d [] (raw_variable x) = framed_tuple d' [] (raw_variable y)"
    using assms(1) unfolding identity_preimage_def
    by (rule tuple_bytes_inject) (use assms sized_framed_tuple in auto)
  then show ?thesis by (simp add: framed_tuple_def label_item_def raw_variable_def)
qed

section \<open>The body hasher computes the identity\<close>

lemma body_push_here:
  assumes "absorbed_here (identity_stream h) bs" "part \<noteq> []" "length part \<le> CHUNK_LIMIT"
    "length part \<le> remaining h"
  shows "\<exists>h'. body_push E part (Some h) = (Some h', Inr ())
    \<and> remaining h' = remaining h - length part \<and> absorbed_here (identity_stream h') (bs @ part)"
  using identity_absorb_here(2) [OF assms(1), of part E] assms(2-4)
  by (auto simp: body_push_def)

lemma body_pushes_here:
  assumes "absorbed_here (identity_stream h) bs" "\<forall>part \<in> set parts. part \<noteq> [] \<and> length part \<le> CHUNK_LIMIT"
    "length (concat parts) \<le> remaining h"
  shows "\<exists>h'. body_pushes E parts (Some h) = Some h'
    \<and> remaining h' = remaining h - length (concat parts)
    \<and> absorbed_here (identity_stream h') (bs @ concat parts)"
  using assms
proof (induction parts arbitrary: h bs)
  case Nil
  then show ?case by simp
next
  case (Cons part parts)
  from body_push_here [OF Cons.prems(1), of part E] Cons.prems obtain h1 where
    h1: "body_push E part (Some h) = (Some h1, Inr ())" "remaining h1 = remaining h - length part"
    "absorbed_here (identity_stream h1) (bs @ part)" by auto
  from Cons.IH [OF h1(3)] Cons.prems(2,3) h1(1,2) show ?case by auto
qed

lemma body_pushes_consumed: "body_pushes E parts None = None"
  by (induction parts) (simp_all add: body_push_def)

lemma body_pushes_refuse:
  assumes "absorbed_here (identity_stream h) bs"
    and "\<not> (\<forall>part \<in> set parts. part \<noteq> [] \<and> length part \<le> CHUNK_LIMIT)
           \<or> length (concat parts) > remaining h"
  shows "body_pushes E parts (Some h) = None"
  using assms
proof (induction parts arbitrary: h bs)
  case Nil
  then show ?case by simp
next
  case (Cons part parts)
  show ?case
  proof (cases "part \<noteq> [] \<and> length part \<le> CHUNK_LIMIT \<and> length part \<le> remaining h")
    case True
    then obtain h1 where h1: "body_push E part (Some h) = (Some h1, Inr ())"
      "remaining h1 = remaining h - length part" "absorbed_here (identity_stream h1) (bs @ part)"
      using body_push_here [OF Cons.prems(1)] by blast
    moreover have "\<not> (\<forall>part \<in> set parts. part \<noteq> [] \<and> length part \<le> CHUNK_LIMIT)
        \<or> length (concat parts) > remaining h1"
      using Cons.prems(2) True h1(2) by auto
    ultimately show ?thesis using Cons.IH [OF h1(3)] by simp
  next
    case False
    then have "body_push E part (Some h) = (None, Inl Shape)"
      using identity_absorb_here(1) [OF Cons.prems(1), of part E]
      by (auto simp: body_push_def not_le)
    then show ?thesis by (simp add: body_pushes_consumed)
  qed
qed

section \<open>Properties\<close>

text \<open>
  C36.  An identity binds its purpose and its body: if two identities agree, then either both the
  purposes and the bodies agree, or the two hash inputs are a collision of SHAKE256.
\<close>

theorem identities_bind_purpose_and_body:
  assumes "labelled d" "labelled d'" "length x + 4 < u32_bound" "length y + 4 < u32_bound"
    and "identity E d x = identity E d' y"
  shows "(d = d' \<and> x = y)
    \<or> (identity_preimage d x \<noteq> identity_preimage d' y
        \<and> shake256 E (identity_preimage d x) = shake256 E (identity_preimage d' y))"
  using identity_value [OF assms(1,3), of E] identity_value [OF assms(2,4), of E] assms(5)
    identity_preimage_inject [OF _ assms(1-4)] by auto

theorem identities_bind_purpose_and_body_witness:
  "identity (sample_externals\<lparr>shake256 := \<lambda>_. replicate 64 0\<rparr>) (ascii_bytes ''a'') [1] = identity (sample_externals\<lparr>shake256 := \<lambda>_. replicate 64 0\<rparr>) (ascii_bytes ''b'') [2]
    \<and> identity_preimage (ascii_bytes ''a'') [1] \<noteq> identity_preimage (ascii_bytes ''b'') [2]
    \<and> shake256 (sample_externals\<lparr>shake256 := \<lambda>_. replicate 64 0\<rparr>) (identity_preimage (ascii_bytes ''a'') [1])
        = shake256 (sample_externals\<lparr>shake256 := \<lambda>_. replicate 64 0\<rparr>) (identity_preimage (ascii_bytes ''b'') [2])"
proof -
  have labels: "labelled (ascii_bytes ''a'')" "labelled (ascii_bytes ''b'')"
    "length [1 :: byte] + 4 < u32_bound" "length [2 :: byte] + 4 < u32_bound"
    by (simp_all add: labelled_def ascii_bytes_def printable_ascii_def u32_bound_def)
  have same: "identity (sample_externals\<lparr>shake256 := \<lambda>_. replicate 64 0\<rparr>) (ascii_bytes ''a'') [1] = identity (sample_externals\<lparr>shake256 := \<lambda>_. replicate 64 0\<rparr>) (ascii_bytes ''b'') [2]"
    using identity_value [OF labels(1,3)] identity_value [OF labels(2,4)] by simp
  show ?thesis using identities_bind_purpose_and_body [OF labels same] same by simp
qed

lemma body_stream:
  assumes "labelled domain" "len + 4 < u32_bound"
  shows "\<exists>bh. body_hasher_new E domain len = Inr bh
    \<and> body_finish E (body_pushes E parts bh) =
        (if (\<exists>part \<in> set parts. part = [] \<or> length part > CHUNK_LIMIT)
            \<or> length (concat parts) > len then Inl Consumed
         else if length (concat parts) < len then Inl Shape
         else identity E domain (concat parts))"
proof -
  obtain framed where f: "framing E domain [] (Variable len) = Inr framed"
    using framing_defined [OF assms(1), of "replicate len 0"] assms(2) by auto
  obtain h where h: "identity_local E domain [] len = Inr (h, [])" "remaining h = len"
    "absorbed_here (identity_stream h) framed"
    using identity_local_started [OF f] by blast
  then have new: "body_hasher_new E domain len = Inr (Some h)" by (simp add: body_hasher_new_def)
  show ?thesis
  proof (cases "(\<exists>part \<in> set parts. part = [] \<or> length part > CHUNK_LIMIT)
      \<or> length (concat parts) > len")
    case True
    then have "body_pushes E parts (Some h) = None"
      using h by (intro body_pushes_refuse [OF h(3)]) (auto simp: not_le)
    with new True show ?thesis by (auto simp: body_finish_def)
  next
    case False
    then have ok: "\<forall>part \<in> set parts. part \<noteq> [] \<and> length part \<le> CHUNK_LIMIT"
      "length (concat parts) \<le> remaining h"
      using h(2) by (auto simp: not_less)
    obtain h' where h': "body_pushes E parts (Some h) = Some h'"
      "remaining h' = remaining h - length (concat parts)"
      "absorbed_here (identity_stream h') (framed @ concat parts)"
      using body_pushes_here [OF h(3) ok] by blast
    then have fin: "body_finish E (body_pushes E parts (Some h))
        = (if length (concat parts) < len then Inl Shape else Inr (shake256 E (framed @ concat parts)))"
      using ok(2) h(2) by (simp add: body_finish_def identity_finish_here [OF h'(3)])
    have "identity E domain (concat parts) = Inr (shake256 E (framed @ concat parts))"
      if "len = length (concat parts)"
      using identity_value [OF assms(1), of "concat parts" E] assms(2) framing_bytes(1) [OF f, of "concat parts"]
      by (simp add: that identity_preimage_def)
    with new fin False ok(2) h(2) show ?thesis by auto
  qed
qed

text \<open>
  C37.  The streamed identity of a body is the identity of its parts put together: pushing
  nonempty parts within the chunk limit that fill the declared length gives the same identity as
  hashing the whole body, and an empty or oversized part, or one byte too many, leaves a hasher
  that refuses everything after it.
\<close>

theorem streamed_body_identity:
  assumes "labelled domain" "len + 4 < u32_bound"
  shows "\<exists>bh. body_hasher_new E domain len = Inr bh
    \<and> body_finish E (body_pushes E parts bh) =
        (if (\<exists>part \<in> set parts. part = [] \<or> length part > CHUNK_LIMIT)
            \<or> length (concat parts) > len then Inl Consumed
         else if length (concat parts) < len then Inl Shape
         else identity E domain (concat parts))"
  by (rule body_stream [OF assms])

theorem streamed_body_identity_witness:
  "\<exists>bh. body_hasher_new sample_externals (ascii_bytes ''a'') 2 = Inr bh
    \<and> body_finish sample_externals (body_pushes sample_externals [[1], [2]] bh) =
        (if (\<exists>part \<in> set [[1], [2 :: byte]]. part = [] \<or> length part > CHUNK_LIMIT)
            \<or> length (concat [[1], [2 :: byte]]) > 2 then Inl Consumed
         else if length (concat [[1], [2 :: byte]]) < 2 then Inl Shape
         else identity sample_externals (ascii_bytes ''a'') (concat [[1], [2]]))"
  by (rule streamed_body_identity)
    (simp_all add: labelled_def ascii_bytes_def printable_ascii_def u32_bound_def)

end
