(* ===== verification/Purpose_Signature.thy ===== *)
theory Purpose_Signature
  imports Protocol_Hash
begin

text \<open>
  The one-time purpose signatures (\<open>purpose-signature/src/lib.rs\<close>) and the key wrapper
  over them (\<open>protocol-foundations/src/authentication.rs\<close>): hash chains with a checksum, a
  Merkle tree over sixteen purposes, and a signer that keeps the first frame of each purpose.
  Digests are byte lists of length 64.
\<close>

section \<open>Hashes\<close>

definition PURPOSES :: nat where "PURPOSES = 16"

definition SIGNING_CONTEXTS :: "bytes list" where
  "SIGNING_CONTEXTS = map ascii_bytes
     [''sealed-lattice/poll-definition'', ''sealed-lattice/registration'',
      ''sealed-lattice/roster-proposal'', ''sealed-lattice/contribution-offer'',
      ''sealed-lattice/setup-selection-proposal'', ''sealed-lattice/setup-selection-endorsement'',
      ''sealed-lattice/ballot-envelope'', ''sealed-lattice/close-intent'',
      ''sealed-lattice/close-response'', ''sealed-lattice/close-proposal'',
      ''sealed-lattice/target-certification'', ''sealed-lattice/release-envelope'']"

definition CHAINS :: nat where "CHAINS = 131"

definition SIGNATURE_BYTES :: nat where "SIGNATURE_BYTES = 2 + (CHAINS + 4) * 64"

definition wots_hash :: "externals \<Rightarrow> string \<Rightarrow> bytes list \<Rightarrow> bytes" where
  "wots_hash E domain parts =
     finalize E (fold (absorb E) parts (absorb E (ascii_bytes domain) (hash_new E)))"

definition step :: "externals \<Rightarrow> bytes \<Rightarrow> bytes" where
  "step E v = wots_hash E ''purpose-wots/chain/v1'' [v]"

definition start :: "externals \<Rightarrow> bytes \<Rightarrow> byte \<Rightarrow> nat \<Rightarrow> bytes" where
  "start E seed purpose chain =
     wots_hash E ''purpose-wots/secret/v1'' [seed, [purpose], u16_to_le_bytes (word_of_nat chain)]"

text \<open>
  The loop over the message: the nibbles of each byte, and the checksum of what they leave
  of fifteen.
\<close>

fun digits_loop :: "bytes \<Rightarrow> u16 \<Rightarrow> bytes \<times> u16" where
  "digits_loop [] checksum = ([], checksum)"
| "digits_loop (b # bs) checksum =
     (let high = drop_bit 4 b; low = b AND 15;
          (rest, final) = digits_loop bs (checksum + (30 - ucast high - ucast low))
      in (high # low # rest, final))"

definition digits :: "bytes \<Rightarrow> bytes" where
  "digits message =
     (let (output, checksum) = digits_loop message 0
      in output @ [ucast (drop_bit 8 checksum AND 15), ucast (drop_bit 4 checksum AND 15),
                   ucast (checksum AND 15)])"

definition message_digest :: "externals \<Rightarrow> bytes \<Rightarrow> byte \<Rightarrow> bytes \<Rightarrow> bytes" where
  "message_digest E root purpose message =
     wots_hash E ''purpose-wots/message/v1''
       [root, [purpose], u64_to_le_bytes (word_of_nat (length message)), message]"

definition leaf :: "externals \<Rightarrow> byte \<Rightarrow> bytes \<Rightarrow> bytes" where
  "leaf E purpose public_key = wots_hash E ''purpose-wots/leaf/v1'' [[purpose], public_key]"

definition parent :: "externals \<Rightarrow> byte \<Rightarrow> bytes \<Rightarrow> bytes \<Rightarrow> bytes" where
  "parent E level left right = wots_hash E ''purpose-wots/node/v1'' [[level], left, right]"

section \<open>The signer\<close>

record used_purpose =
  representative :: bytes
  used_signature :: bytes

record signer =
  signer_seed :: bytes
  tree :: "bytes list"
  used :: "used_purpose option list"

definition purpose_public_key :: "externals \<Rightarrow> bytes \<Rightarrow> byte \<Rightarrow> bytes" where
  "purpose_public_key E seed purpose =
     concat (map (\<lambda>chain. (step E ^^ 15) (start E seed purpose chain)) [0 ..< CHAINS])"

definition tree_leaf :: "externals \<Rightarrow> bytes \<Rightarrow> nat \<Rightarrow> bytes" where
  "tree_leaf E seed purpose =
     (if purpose \<ge> length SIGNING_CONTEXTS
      then wots_hash E ''purpose-wots/unused/v1'' [[word_of_nat purpose]]
      else leaf E (word_of_nat purpose) (purpose_public_key E seed (word_of_nat purpose)))"

definition fill_level :: "externals \<Rightarrow> byte \<Rightarrow> nat \<Rightarrow> bytes list \<Rightarrow> bytes list" where
  "fill_level E level width t =
     fold (\<lambda>index u. u[index := parent E level (u ! (2 * index)) (u ! (2 * index + 1))])
       [width div 2 ..< width] t"

fun fill_tree :: "externals \<Rightarrow> byte \<Rightarrow> nat \<Rightarrow> bytes list \<Rightarrow> bytes list" where
  "fill_tree E level width t =
     (if width \<le> 1 then t
      else fill_tree E (level + 1) (width div 2) (fill_level E level width t))"

declare fill_tree.simps [simp del]

definition signer_new :: "externals \<Rightarrow> bytes \<Rightarrow> signer" where
  "signer_new E seed =
     \<lparr> signer_seed = seed,
       tree = fill_tree E 0 PURPOSES
         (replicate PURPOSES (replicate 64 0) @ map (tree_leaf E seed) [0 ..< PURPOSES]),
       used = replicate PURPOSES None \<rparr>"

definition public_key :: "signer \<Rightarrow> bytes" where
  "public_key c = tree c ! 1"

datatype sign_error = UnknownContext | InvalidPurpose | FrameConflict

text \<open>The chain values a representative releases, and the authentication path.\<close>

definition released :: "externals \<Rightarrow> bytes \<Rightarrow> byte \<Rightarrow> bytes \<Rightarrow> bytes list" where
  "released E seed purpose rep =
     map (\<lambda>(chain, count). (step E ^^ unat count) (start E seed purpose chain))
       (enumerate 0 (digits rep))"

fun path :: "bytes list \<Rightarrow> nat \<Rightarrow> bytes list" where
  "path t position =
     (if position > 1 then t ! (position XOR 1) # path t (position div 2) else [])"

declare path.simps [simp del]

definition sign :: "externals \<Rightarrow> byte \<Rightarrow> bytes \<Rightarrow> signer \<Rightarrow> signer \<times> (sign_error + bytes)" where
  "sign E purpose message c =
     (let index = unat purpose in
      if index \<ge> length SIGNING_CONTEXTS then (c, Inl InvalidPurpose)
      else
        let rep = message_digest E (public_key c) purpose message in
        case used c ! index of
          Some previous \<Rightarrow>
            (c, if representative previous = rep then Inr (used_signature previous)
                else Inl FrameConflict)
        | None \<Rightarrow>
            let signature = [1, purpose] @ concat (released E (signer_seed c) purpose rep)
                              @ concat (path (tree c) (PURPOSES + index))
            in (c\<lparr>used := (used c)[index :=
                   Some \<lparr>representative = rep, used_signature = signature\<rparr>]\<rparr>,
                Inr signature))"

fun position_of :: "bytes \<Rightarrow> bytes list \<Rightarrow> nat option" where
  "position_of context [] = None"
| "position_of context (value # rest) =
     (if value = context then Some 0 else map_option Suc (position_of context rest))"

definition sign_context ::
  "externals \<Rightarrow> bytes \<Rightarrow> bytes \<Rightarrow> signer \<Rightarrow> signer \<times> (sign_error + bytes)" where
  "sign_context E context message c =
     (case position_of context SIGNING_CONTEXTS of
        None \<Rightarrow> (c, Inl UnknownContext)
      | Some purpose \<Rightarrow> sign E (word_of_nat purpose) message c)"

section \<open>Verification\<close>

definition chain_ends :: "externals \<Rightarrow> bytes \<Rightarrow> bytes \<Rightarrow> bytes" where
  "chain_ends E encoded signature =
     concat (map (\<lambda>(chain, count). (step E ^^ (15 - unat count))
                    (slice (2 + chain * 64) (2 + (chain + 1) * 64) signature))
               (enumerate 0 encoded))"

fun climb :: "externals \<Rightarrow> bytes \<Rightarrow> nat list \<Rightarrow> nat \<Rightarrow> bytes \<Rightarrow> bytes" where
  "climb E signature [] position node = node"
| "climb E signature (level # levels) position node =
     (let offset = 2 + (CHAINS + level) * 64;
          sibling = slice offset (offset + 64) signature
      in climb E signature levels (position div 2)
           (if position mod 2 = 0 then parent E (word_of_nat level) node sibling
            else parent E (word_of_nat level) sibling node))"

declare climb.simps [simp del]

definition verify :: "externals \<Rightarrow> bytes \<Rightarrow> byte \<Rightarrow> bytes \<Rightarrow> bytes \<Rightarrow> bool" where
  "verify E root purpose message signature \<longleftrightarrow>
     unat purpose < length SIGNING_CONTEXTS \<and> length signature = SIGNATURE_BYTES
     \<and> signature ! 0 = 1 \<and> signature ! 1 = purpose
     \<and> (let encoded = digits (message_digest E root purpose message);
            ends = chain_ends E encoded signature
        in climb E signature [0, 1, 2, 3] (unat purpose) (leaf E purpose ends) = root)"

definition verify_context :: "externals \<Rightarrow> bytes \<Rightarrow> bytes \<Rightarrow> bytes \<Rightarrow> bytes \<Rightarrow> bool" where
  "verify_context E root context message signature \<longleftrightarrow>
     (case position_of context SIGNING_CONTEXTS of
        None \<Rightarrow> False
      | Some purpose \<Rightarrow> verify E root (word_of_nat purpose) message signature)"

section \<open>Signing keys of the protocol\<close>

definition SEED_BYTES :: nat where "SEED_BYTES = 64"
definition PUBLIC_KEY_BYTES :: nat where "PUBLIC_KEY_BYTES = 64"

definition keypair_from_seed :: "externals \<Rightarrow> bytes \<Rightarrow> bytes \<times> signer" where
  "keypair_from_seed E seed = (let key = signer_new E seed in (public_key key, key))"

text \<open>\<open>SigningKey::sign\<close>: \<open>None\<close> stands for its error text.\<close>

definition signing_key_sign :: "externals \<Rightarrow> bytes \<Rightarrow> bytes \<Rightarrow> signer \<Rightarrow> signer \<times> bytes option" where
  "signing_key_sign E message context key =
     (case sign_context E context message key of
        (key1, Inl _) \<Rightarrow> (key1, None)
      | (key1, Inr signature) \<Rightarrow>
          (key1, if length signature = SIGNATURE_BYTES then Some signature else None))"

section \<open>Digests\<close>

lemma fold_absorb:
  "permutation_ok E \<Longrightarrow> hash_ok h \<Longrightarrow> fold (absorb E) parts h = absorb E (concat parts) h"
  by (induction parts arbitrary: h) (simp_all add: absorb_ok absorb_append)

lemma wots_hash_digest:
  assumes "permutation_ok E"
  shows "wots_hash E domain parts = digest E (ascii_bytes domain @ concat parts)"
  using assms by (simp add: wots_hash_def digest_def fold_absorb absorb_ok hash_new_ok absorb_append)

lemma length_finalize:
  assumes "permutation_ok E" "hash_ok h"
  shows "length (finalize E h) = 64"
proof -
  have "length (concat (map u64_to_le_bytes (take 8 (keccak_f1600 E ls)))) = 64"
    if "length ls = 25" for ls
  proof -
    have "length (keccak_f1600 E ls) = 25" using assms(1) that by (simp add: permutation_ok_def)
    then show ?thesis by (subst length_concat_const [where n = 8]) auto
  qed
  with assms(2) show ?thesis by (simp add: finalize_def Let_def hash_ok_def)
qed

lemma length_wots_hash [simp]: "permutation_ok E \<Longrightarrow> length (wots_hash E d parts) = 64"
  by (simp add: wots_hash_def length_finalize fold_absorb absorb_ok hash_new_ok)

lemma length_step_funpow: "permutation_ok E \<Longrightarrow> length v = 64 \<Longrightarrow> length ((step E ^^ n) v) = 64"
  by (induction n) (simp_all add: step_def)

lemma length_start [simp]: "permutation_ok E \<Longrightarrow> length (start E seed p c) = 64"
  by (simp add: start_def)

section \<open>Digits and their checksum\<close>

definition digit_values :: "bytes \<Rightarrow> nat list" where
  "digit_values message = concat (map (\<lambda>b. [unat b div 16, unat b mod 16]) message)"

definition checksum_value :: "bytes \<Rightarrow> nat" where
  "checksum_value message = sum_list (map (\<lambda>d. 15 - d) (digit_values message))"

lemma unat_nibbles:
  "unat (drop_bit 4 b) = unat b div 16" "unat (b AND 15) = unat b mod 16" for b :: byte
proof -
  show "unat (drop_bit 4 b) = unat b div 16"
    by (simp add: drop_bit_eq_div unat_div_distrib)
  have "b AND 15 = b mod 16"
    using take_bit_eq_mask [of 4 b] by (simp add: mask_eq_exp_minus_1 take_bit_eq_mod)
  then show "unat (b AND 15) = unat b mod 16" by (simp add: unat_mod_distrib)
qed

lemma digit_values_simps [simp]:
  "digit_values [] = []"
  "digit_values (b # bs) = unat b div 16 # unat b mod 16 # digit_values bs"
  by (simp_all add: digit_values_def)

lemma checksum_value_simps [simp]:
  "checksum_value [] = 0"
  "checksum_value (b # bs) = (15 - unat b div 16) + (15 - unat b mod 16) + checksum_value bs"
  by (simp_all add: checksum_value_def)

lemma length_digit_values [simp]: "length (digit_values bs) = 2 * length bs"
  by (induction bs) auto

lemma digit_values_bound: "d \<in> set (digit_values bs) \<Longrightarrow> d < 16"
proof (induction bs)
  case (Cons b bs)
  have "unat b < 256" by (rule unat_byte_bound)
  with Cons show ?case by auto
qed simp

lemma checksum_value_bound: "checksum_value bs \<le> 30 * length bs"
  by (induction bs) auto

lemma nibble_complement:
  "n < 256 \<Longrightarrow> 30 - n div 16 - n mod 16 = (15 - n div 16) + (15 - n mod 16)" for n :: nat
proof -
  assume "n < 256"
  then have "n div 16 \<le> 15" "n mod 16 \<le> 15" by auto
  then show ?thesis by linarith
qed

lemma digits_loop_values:
  assumes "unat c + checksum_value bs < 65536"
  shows "map unat (fst (digits_loop bs c)) = digit_values bs
    \<and> unat (snd (digits_loop bs c)) = unat c + checksum_value bs"
  using assms
proof (induction bs arbitrary: c)
  case Nil
  then show ?case by simp
next
  case (Cons b bs)
  have b: "unat b < 256" by (rule unat_byte_bound)
  let ?add = "30 - ucast (drop_bit 4 b) - ucast (b AND 15) :: u16"
  have "(30::u16) - ucast (drop_bit 4 b) - ucast (b AND 15)
      = word_of_nat (30 - unat b div 16 - unat b mod 16)"
  proof -
    have "ucast (drop_bit 4 b) = (word_of_nat (unat b div 16) :: u16)"
      "ucast (b AND 15) = (word_of_nat (unat b mod 16) :: u16)"
      by (metis of_nat_unat unat_nibbles)+
    moreover have "unat b div 16 + unat b mod 16 \<le> 30" using b by linarith
    ultimately show ?thesis by (simp add: of_nat_diff)
  qed
  then have add: "?add = word_of_nat ((15 - unat b div 16) + (15 - unat b mod 16))"
    using b by (metis (no_types, lifting) nibble_complement)
  have small: "(15 - unat b div 16) + (15 - unat b mod 16) < 65536" by linarith
  obtain k where k: "k = (15 - unat b div 16) + (15 - unat b mod 16)" by simp
  have sum: "checksum_value (b # bs) = k + checksum_value bs"
    unfolding k by (rule checksum_value_simps(2))
  have "unat (c + ?add) = unat c + k"
    using Cons.prems sum unfolding add unat_word_ariths(1) unat_word_of_nat_u16 [OF small]
      k [symmetric] by simp
  with Cons.IH [of "c + ?add"] Cons.prems sum show ?case
    by (simp add: Let_def unat_nibbles case_prod_unfold del: checksum_value_simps(2))
qed

definition checksum_digits :: "nat \<Rightarrow> nat list" where
  "checksum_digits c = [c div 256 mod 16, c div 16 mod 16, c mod 16]"

lemma digits_values:
  assumes "length message = 64"
  shows "map unat (digits message)
    = digit_values message @ checksum_digits (checksum_value message)"
proof -
  have small: "checksum_value message \<le> 1920" using checksum_value_bound [of message] assms by simp
  obtain out c where oc: "digits_loop message 0 = (out, c)" by fastforce
  have v: "map unat out = digit_values message" "unat c = checksum_value message"
    using digits_loop_values [of 0 message] small oc by simp_all
  have nib: "unat (ucast (w AND 15) :: byte) = unat w mod 16" for w :: u16
  proof -
    have "w AND 15 = w mod 16"
      using take_bit_eq_mask [of 4 w] by (simp add: mask_eq_exp_minus_1 take_bit_eq_mod)
    then have "unat (w AND 15) = unat w mod 16" by (simp add: unat_mod_distrib)
    then show ?thesis by (simp only: unsigned_ucast_eq) (simp add: take_bit_eq_mod)
  qed
  have "unat (drop_bit 8 c) = unat c div 256" "unat (drop_bit 4 c) = unat c div 16"
    by (simp_all add: drop_bit_eq_div unat_div_distrib)
  with v show ?thesis by (simp add: digits_def oc nib checksum_digits_def)
qed

lemma length_digits: "length message = 64 \<Longrightarrow> length (digits message) = CHAINS"
  using arg_cong [OF digits_values, of message length] by (simp add: CHAINS_def checksum_digits_def)

lemma digits_bound: "length message = 64 \<Longrightarrow> d \<in> set (digits message) \<Longrightarrow> unat d < 16"
proof -
  assume "length message = 64" "d \<in> set (digits message)"
  then have "unat d \<in> set (digit_values message @ checksum_digits (checksum_value message))"
    using digits_values by (metis image_eqI set_map)
  then show "unat d < 16" by (auto simp: checksum_digits_def dest: digit_values_bound)
qed

lemma digit_values_inject:
  "length x = length y \<Longrightarrow> digit_values x = digit_values y \<Longrightarrow> x = y"
proof (induction x arbitrary: y)
  case (Cons b x)
  then obtain c y' where y: "y = c # y'" by (cases y) auto
  with Cons.prems have "unat b div 16 = unat c div 16" "unat b mod 16 = unat c mod 16" by simp_all
  then have "unat b = unat c" by (metis div_mult_mod_eq)
  with Cons y show ?case by (simp add: unsigned_word_eqI)
qed simp

lemma checksum_digits_value:
  "c < 4096 \<Longrightarrow> c = 256 * (c div 256 mod 16) + 16 * (c div 16 mod 16) + c mod 16" for c :: nat
proof -
  assume "c < 4096"
  then have "c div 256 mod 16 = c div 256" by simp
  moreover have "c div 16 = 16 * (c div 256) + c div 16 mod 16"
    using div_mult_mod_eq [of "c div 16" 16] by (simp add: div_mult2_eq [of c 16 16, simplified])
  moreover have "c = 16 * (c div 16) + c mod 16" by simp
  ultimately show ?thesis by linarith
qed

lemma sum_list_le_strict:
  fixes xs ys :: "nat list"
  assumes "length xs = length ys" "\<forall>i < length xs. xs ! i \<le> ys ! i" "xs \<noteq> ys"
  shows "sum_list xs < sum_list ys"
  using assms
proof (induction xs ys rule: list_induct2)
  case (Cons x xs y ys)
  have le: "x \<le> y" "\<forall>i < length xs. xs ! i \<le> ys ! i" using Cons.prems(1) by force+
  have "sum_list xs \<le> sum_list ys"
    using Cons.IH le(2) by (cases "xs = ys") auto
  with Cons le show ?case by (cases "xs = ys") auto
qed simp

lemma checksum_strict:
  assumes "length x = length y" "\<forall>i < 2 * length x. digit_values x ! i \<le> digit_values y ! i"
    "digit_values x \<noteq> digit_values y"
  shows "checksum_value y < checksum_value x"
proof -
  let ?c = "\<lambda>m. map (\<lambda>d. 15 - d) (digit_values m)"
  have "?c y ! i \<le> ?c x ! i" if "i < length (?c y)" for i
    using that assms(1,2) by (simp add: diff_le_mono2)
  moreover have "?c y \<noteq> ?c x"
  proof
    assume eq: "?c y = ?c x"
    have "inj_on (\<lambda>d. 15 - d) (set (digit_values y) \<union> set (digit_values x))"
      by (auto simp: inj_on_def dest!: digit_values_bound)
    with eq have "digit_values y = digit_values x" by (rule map_inj_on)
    with assms(3) show False by simp
  qed
  moreover have "length (?c y) = length (?c x)" using assms(1) by simp
  ultimately show ?thesis
    unfolding checksum_value_def by (intro sum_list_le_strict) auto
qed

text \<open>
  No other message has digits that are all at least those of a signed one: the checksum
  falls whenever a digit rises.
\<close>

lemma digits_incomparable:
  assumes "length x = 64" "length y = 64" "x \<noteq> y"
  shows "\<exists>i < CHAINS. unat (digits y ! i) < unat (digits x ! i)"
proof (rule ccontr)
  assume "\<not> ?thesis"
  then have le: "unat (digits x ! i) \<le> unat (digits y ! i)" if "i < CHAINS" for i
    using that by (meson not_less)
  let ?X = "map unat (digits x)" and ?Y = "map unat (digits y)"
  have len: "length (digits x) = 131" "length (digits y) = 131"
    using assms by (simp_all add: length_digits CHAINS_def)
  have XY: "?X ! i \<le> ?Y ! i" if "i < 131" for i using le that len by (simp add: CHAINS_def)
  have X: "?X = digit_values x @ checksum_digits (checksum_value x)"
    and Y: "?Y = digit_values y @ checksum_digits (checksum_value y)"
    using assms by (simp_all add: digits_values)
  have dl: "length (digit_values x) = 128" "length (digit_values y) = 128" using assms by simp_all
  have "\<forall>i < 128. digit_values x ! i \<le> digit_values y ! i"
  proof (intro allI impI)
    fix i :: nat
    assume "i < 128"
    with XY [of i] dl show "digit_values x ! i \<le> digit_values y ! i"
      unfolding X Y by (simp add: nth_append)
  qed
  moreover have "digit_values x \<noteq> digit_values y" using assms digit_values_inject by metis
  ultimately have neq: "checksum_value y < checksum_value x"
    using checksum_strict [of x y] assms by simp
  have "checksum_digits (checksum_value x) ! i \<le> checksum_digits (checksum_value y) ! i" if "i < 3" for i
    using XY [of "128 + i"] that dl unfolding X Y by (simp add: nth_append)
  from this [of 0] this [of 1] this [of 2] have
    "checksum_value x div 256 mod 16 \<le> checksum_value y div 256 mod 16"
    "checksum_value x div 16 mod 16 \<le> checksum_value y div 16 mod 16"
    "checksum_value x mod 16 \<le> checksum_value y mod 16"
    by (simp_all add: checksum_digits_def)
  moreover have "checksum_value x < 4096" "checksum_value y < 4096"
    using checksum_value_bound [of x] checksum_value_bound [of y] assms by simp_all
  ultimately have "checksum_value x \<le> checksum_value y"
    using checksum_digits_value [of "checksum_value x"] checksum_digits_value [of "checksum_value y"]
    by linarith
  with neq show False by simp
qed

section \<open>The purpose tree\<close>

lemma fill_range:
  fixes E level
  assumes "length t = n" "2 * hi \<le> n" "hi \<le> 2 * lo"
  defines "put \<equiv> \<lambda>index u. u[index := parent E level (u ! (2 * index)) (u ! (2 * index + 1))]"
  shows "length (fold put [lo ..< hi] t) = n
    \<and> (\<forall>j < n. fold put [lo ..< hi] t ! j =
         (if lo \<le> j \<and> j < hi then parent E level (t ! (2 * j)) (t ! (2 * j + 1)) else t ! j))"
  using assms(1-3)
proof (induction hi)
  case 0
  then show ?case by simp
next
  case (Suc hi)
  show ?case
  proof (cases "lo \<le> hi")
    case False
    with Suc.prems show ?thesis by auto
  next
    case True
    let ?u = "fold put [lo ..< hi] t"
    have IH: "length ?u = n" "\<And>j. j < n \<Longrightarrow> ?u ! j =
        (if lo \<le> j \<and> j < hi then parent E level (t ! (2 * j)) (t ! (2 * j + 1)) else t ! j)"
      using Suc.IH Suc.prems by auto
    have children: "?u ! (2 * hi) = t ! (2 * hi)" "?u ! (2 * hi + 1) = t ! (2 * hi + 1)"
      using Suc.prems True IH(2) [of "2 * hi"] IH(2) [of "2 * hi + 1"] by auto
    have "fold put [lo ..< Suc hi] t = ?u[hi := parent E level (t ! (2 * hi)) (t ! (2 * hi + 1))]"
      using True children by (simp add: put_def)
    then show ?thesis
      using IH True by (auto simp: nth_list_update less_Suc_eq)
  qed
qed

lemma fill_level_nth:
  assumes "length t = 32" "width \<le> 16" "even width"
  shows "length (fill_level E level width t) = 32"
    and "j < 32 \<Longrightarrow> fill_level E level width t ! j =
      (if width div 2 \<le> j \<and> j < width then parent E level (t ! (2 * j)) (t ! (2 * j + 1)) else t ! j)"
  using fill_range [of t 32 width "width div 2" E level] assms
  by (auto simp: fill_level_def)

lemma fill_tree_16:
  "fill_tree E 0 16 t =
     fill_level E 3 2 (fill_level E 2 4 (fill_level E 1 8 (fill_level E 0 16 t)))"
  by (simp add: fill_tree.simps)

definition node_level :: "nat \<Rightarrow> byte" where
  "node_level j = (if 8 \<le> j then 0 else if 4 \<le> j then 1 else if 2 \<le> j then 2 else 3)"

lemma fill_tree_nodes:
  assumes "length t = 32"
  shows "length (fill_tree E 0 16 t) = 32"
    and "16 \<le> j \<Longrightarrow> j < 32 \<Longrightarrow> fill_tree E 0 16 t ! j = t ! j"
    and "1 \<le> j \<Longrightarrow> j < 16 \<Longrightarrow> fill_tree E 0 16 t ! j
      = parent E (node_level j) (fill_tree E 0 16 t ! (2 * j)) (fill_tree E 0 16 t ! (2 * j + 1))"
proof -
  define t1 where "t1 = fill_level E 0 16 t"
  define t2 where "t2 = fill_level E 1 8 t1"
  define t3 where "t3 = fill_level E 2 4 t2"
  define t4 where "t4 = fill_level E 3 2 t3"
  have eq: "fill_tree E 0 16 t = t4" by (simp add: fill_tree_16 t1_def t2_def t3_def t4_def)
  have l1: "length t1 = 32" unfolding t1_def by (rule fill_level_nth(1)) (simp_all add: assms)
  have l2: "length t2 = 32" unfolding t2_def by (rule fill_level_nth(1)) (simp_all add: l1)
  have l3: "length t3 = 32" unfolding t3_def by (rule fill_level_nth(1)) (simp_all add: l2)
  show len: "length (fill_tree E 0 16 t) = 32"
    unfolding eq t4_def by (rule fill_level_nth(1)) (simp_all add: l3)
  have n1: "t1 ! j = (if 8 \<le> j \<and> j < 16 then parent E 0 (t ! (2 * j)) (t ! (2 * j + 1)) else t ! j)"
    if "j < 32" for j using fill_level_nth(2) [OF assms _ _ that, of 16 E 0] by (simp add: t1_def)
  have n2: "t2 ! j = (if 4 \<le> j \<and> j < 8 then parent E 1 (t1 ! (2 * j)) (t1 ! (2 * j + 1)) else t1 ! j)"
    if "j < 32" for j using fill_level_nth(2) [OF l1 _ _ that, of 8 E 1] by (simp add: t2_def)
  have n3: "t3 ! j = (if 2 \<le> j \<and> j < 4 then parent E 2 (t2 ! (2 * j)) (t2 ! (2 * j + 1)) else t2 ! j)"
    if "j < 32" for j using fill_level_nth(2) [OF l2 _ _ that, of 4 E 2] by (simp add: t3_def)
  have n4: "t4 ! j = (if 1 \<le> j \<and> j < 2 then parent E 3 (t3 ! (2 * j)) (t3 ! (2 * j + 1)) else t3 ! j)"
    if "j < 32" for j using fill_level_nth(2) [OF l3 _ _ that, of 2 E 3] by (simp add: t4_def)
  have k2: "t4 ! j = t3 ! j" if "2 \<le> j" "j < 32" for j using n4 that by simp
  have k4: "t4 ! j = t2 ! j" if "4 \<le> j" "j < 32" for j using k2 n3 that by simp
  have k8: "t4 ! j = t1 ! j" if "8 \<le> j" "j < 32" for j using k4 n2 that by simp
  have k16: "t4 ! j = t ! j" if "16 \<le> j" "j < 32" for j using k8 n1 that by simp
  show "16 \<le> j \<Longrightarrow> j < 32 \<Longrightarrow> fill_tree E 0 16 t ! j = t ! j" using k16 by (simp add: eq)
  assume j: "1 \<le> j" "j < 16"
  then consider "j = 1" | "2 \<le> j" "j < 4" | "4 \<le> j" "j < 8" | "8 \<le> j" by linarith
  then show "fill_tree E 0 16 t ! j
      = parent E (node_level j) (fill_tree E 0 16 t ! (2 * j)) (fill_tree E 0 16 t ! (2 * j + 1))"
    unfolding eq
  proof cases
    case 1
    then show "t4 ! j = parent E (node_level j) (t4 ! (2 * j)) (t4 ! (2 * j + 1))"
      using n4 [of 1] k2 [of 2] k2 [of 3] by (simp add: node_level_def)
  next
    case 2
    then show "t4 ! j = parent E (node_level j) (t4 ! (2 * j)) (t4 ! (2 * j + 1))"
      using k2 [of j] n3 [of j] k4 [of "2 * j"] k4 [of "2 * j + 1"] by (simp add: node_level_def)
  next
    case 3
    then show "t4 ! j = parent E (node_level j) (t4 ! (2 * j)) (t4 ! (2 * j + 1))"
      using k4 [of j] n2 [of j] k8 [of "2 * j"] k8 [of "2 * j + 1"] by (simp add: node_level_def)
  next
    case 4
    then show "t4 ! j = parent E (node_level j) (t4 ! (2 * j)) (t4 ! (2 * j + 1))"
      using j k8 [of j] n1 [of j] k16 [of "2 * j"] k16 [of "2 * j + 1"]
      by (simp add: node_level_def)
  qed
qed

text \<open>A signer made from a seed: only its purpose slots change.\<close>

definition signer_of :: "externals \<Rightarrow> bytes \<Rightarrow> signer \<Rightarrow> bool" where
  "signer_of E seed c \<longleftrightarrow>
     signer_seed c = seed \<and> tree c = tree (signer_new E seed) \<and> length (used c) = PURPOSES"

lemma signer_tree:
  assumes "signer_of E seed c"
  shows "length (tree c) = 32"
    and "p < 16 \<Longrightarrow> tree c ! (16 + p) = tree_leaf E seed p"
    and "1 \<le> j \<Longrightarrow> j < 16 \<Longrightarrow>
      tree c ! j = parent E (node_level j) (tree c ! (2 * j)) (tree c ! (2 * j + 1))"
proof -
  let ?t = "replicate 16 (replicate 64 0) @ map (tree_leaf E seed) [0 ..< 16]"
  have l: "length ?t = 32" by simp
  have t: "tree c = fill_tree E 0 16 ?t"
    using assms by (simp add: signer_of_def signer_new_def PURPOSES_def)
  show "length (tree c) = 32" unfolding t by (rule fill_tree_nodes(1) [OF l])
  show "tree c ! (16 + p) = tree_leaf E seed p" if "p < 16"
    using fill_tree_nodes(2) [OF l, of "16 + p" E] that unfolding t by (simp add: nth_append)
  show "tree c ! j = parent E (node_level j) (tree c ! (2 * j)) (tree c ! (2 * j + 1))"
    if "1 \<le> j" "j < 16"
    unfolding t by (rule fill_tree_nodes(3) [OF l that])
qed

lemma length_parent [simp]: "permutation_ok E \<Longrightarrow> length (parent E l a b) = 64"
  by (simp add: parent_def)

lemma length_tree_node:
  assumes "permutation_ok E" "signer_of E seed c" "1 \<le> j" "j < 32"
  shows "length (tree c ! j) = 64"
proof (cases "j < 16")
  case True
  then show ?thesis using signer_tree(3) [OF assms(2,3)] assms(1) by (metis length_parent)
next
  case False
  then have "tree c ! j = tree_leaf E seed (j - 16)"
    using signer_tree(2) [OF assms(2), of "j - 16"] assms(4) by simp
  then show ?thesis using assms(1) by (simp add: tree_leaf_def leaf_def)
qed
section \<open>A signature verifies\<close>

definition frame_signature :: "externals \<Rightarrow> signer \<Rightarrow> byte \<Rightarrow> bytes \<Rightarrow> bytes" where
  "frame_signature E c purpose rep =
     [1, purpose] @ concat (released E (signer_seed c) purpose rep)
       @ concat (path (tree c) (PURPOSES + unat purpose))"

lemma xor_one_nat:
  "even n \<Longrightarrow> n XOR Suc 0 = Suc n" "odd n \<Longrightarrow> n XOR Suc 0 = n - 1" for n :: nat
  by (simp_all add: xor_Suc_0_eq)

lemma path_one: "path t (Suc 0) = []"
  by (simp add: path.simps)

lemma path_eq:
  assumes "p < 16"
  shows "path t (16 + p) =
    map (\<lambda>k. t ! ((2 ^ (4 - k) + p div 2 ^ k) XOR 1)) [0, 1, 2, 3]"
proof -
  have d: "(16 + p) div 2 = 8 + p div 2" "(8 + p div 2) div 2 = 4 + p div 4"
    "(4 + p div 4) div 2 = 2 + p div 8" "(2 + p div 8) div 2 = 1 + p div 16" "p div 16 = 0"
    using assms by (simp_all add: div_mult2_eq [of p 2 2, simplified] div_mult2_eq [of p 4 2, simplified]
      div_mult2_eq [of p 8 2, simplified])
  have p: "path t (16 + p) = t ! ((16 + p) XOR 1) # path t (8 + p div 2)"
    "path t (8 + p div 2) = t ! ((8 + p div 2) XOR 1) # path t (4 + p div 4)"
    "path t (4 + p div 4) = t ! ((4 + p div 4) XOR 1) # path t (2 + p div 8)"
    by (subst path.simps, simp only: d, simp)+
  have last: "path t (2 + p div 8) = [t ! ((2 + p div 8) XOR 1)]"
    using d(4,5) path.simps [of t "2 + p div 8"] by (simp only: d) (simp add: path_one)
  show ?thesis by (simp only: p last) simp
qed

lemma signature_slice:
  assumes "\<forall>x \<in> set xss. length x = 64" "i < length xss"
  shows "slice (2 + i * 64) (2 + (i + 1) * 64) ([a, b] @ concat xss) = xss ! i"
  using chunk_slice [OF assms, of "[]"] by (simp add: slice_def ac_simps)

lemma released_lengths:
  assumes "permutation_ok E" "length rep = 64"
  shows "length (released E seed p rep) = 131" "\<forall>x \<in> set (released E seed p rep). length x = 64"
  using assms length_digits [OF assms(2)]
  by (auto simp: released_def CHAINS_def length_step_funpow)

lemma released_nth:
  assumes "length rep = 64" "i < 131"
  shows "released E seed p rep ! i = (step E ^^ unat (digits rep ! i)) (start E seed p i)"
  using assms length_digits [OF assms(1)] by (simp add: released_def nth_enumerate_eq CHAINS_def)

lemma path_lengths:
  assumes "permutation_ok E" "signer_of E seed c" "p < 16"
  shows "length (path (tree c) (16 + p)) = 4" "\<forall>x \<in> set (path (tree c) (16 + p)). length x = 64"
proof -
  show "length (path (tree c) (16 + p)) = 4" by (simp add: path_eq [OF assms(3)])
  have "1 \<le> n XOR 1 \<and> n XOR 1 < 32" if "2 \<le> n" "n < 32" for n :: nat
  proof (cases "even n")
    case True
    then have "n \<noteq> 31" by auto
    with True that show ?thesis by (simp add: xor_one_nat)
  next
    case False
    with that show ?thesis by (simp add: xor_one_nat) linarith
  qed
  then show "\<forall>x \<in> set (path (tree c) (16 + p)). length x = 64"
    using assms(3) length_tree_node [OF assms(1,2)]
    by (auto simp: path_eq [OF assms(3)])
qed

lemma frame_signature_parts:
  assumes "permutation_ok E" "signer_of E seed c" "unat p < 16" "length rep = 64"
  shows "length (frame_signature E c p rep) = SIGNATURE_BYTES"
    "frame_signature E c p rep ! 0 = 1" "frame_signature E c p rep ! 1 = p"
    "i < 131 \<Longrightarrow> slice (2 + i * 64) (2 + (i + 1) * 64) (frame_signature E c p rep)
        = (step E ^^ unat (digits rep ! i)) (start E seed p i)"
    "k < 4 \<Longrightarrow> slice (2 + (CHAINS + k) * 64) (2 + (CHAINS + k) * 64 + 64) (frame_signature E c p rep)
        = tree c ! ((2 ^ (4 - k) + unat p div 2 ^ k) XOR 1)"
proof -
  let ?r = "released E seed p rep" and ?p = "path (tree c) (16 + unat p)"
  have sd: "signer_seed c = seed" using assms(2) by (simp add: signer_of_def)
  have sig: "frame_signature E c p rep = [1, p] @ concat (?r @ ?p)"
    by (simp add: frame_signature_def PURPOSES_def sd)
  note rl = released_lengths [OF assms(1,4), of seed p] and pl = path_lengths [OF assms(1-3)]
  have lens: "\<forall>x \<in> set (?r @ ?p). length x = 64" "length (?r @ ?p) = 135" using rl pl by auto
  have "length (concat (?r @ ?p)) = 135 * 64" using length_concat_const [OF lens(1)] lens(2) by simp
  then show "length (frame_signature E c p rep) = SIGNATURE_BYTES"
    unfolding sig by (simp add: SIGNATURE_BYTES_def CHAINS_def)
  show "frame_signature E c p rep ! 0 = 1" "frame_signature E c p rep ! 1 = p"
    by (simp_all add: sig)
  show "slice (2 + i * 64) (2 + (i + 1) * 64) (frame_signature E c p rep)
      = (step E ^^ unat (digits rep ! i)) (start E seed p i)" if "i < 131"
    using signature_slice [OF lens(1), of i 1 p] that rl(1) lens(2) released_nth [OF assms(4) that]
    unfolding sig by (simp add: nth_append)
  show "slice (2 + (CHAINS + k) * 64) (2 + (CHAINS + k) * 64 + 64) (frame_signature E c p rep)
      = tree c ! ((2 ^ (4 - k) + unat p div 2 ^ k) XOR 1)" if "k < 4"
  proof -
    have "slice (2 + (CHAINS + k) * 64) (2 + (CHAINS + k + 1) * 64) (frame_signature E c p rep)
        = ?p ! k"
      using signature_slice [OF lens(1), of "131 + k" 1 p] that rl(1) lens(2)
      unfolding sig by (simp add: nth_append CHAINS_def)
    moreover from that consider "k = 0" | "k = 1" | "k = 2" | "k = 3" by linarith
    then have "?p ! k = tree c ! ((2 ^ (4 - k) + unat p div 2 ^ k) XOR 1)"
      unfolding path_eq [OF assms(3)] by cases simp_all
    ultimately show ?thesis by (simp add: algebra_simps)
  qed
qed

lemma climb_index:
  assumes "n < 4" "pos < 2 ^ Suc n"
  defines "a \<equiv> 2 ^ Suc n + pos" and "j \<equiv> 2 ^ n + pos div 2"
  shows "1 \<le> j" "j < 16" "node_level j = word_of_nat (3 - n)"
    "2 * j = (if pos mod 2 = 0 then a else a XOR 1)"
    "2 * j + 1 = (if pos mod 2 = 0 then a XOR 1 else a)"
proof -
  have half: "pos div 2 < 2 ^ n" using assms(2) by (simp add: less_mult_imp_div_less mult.commute)
  have "(2::nat) ^ Suc n \<le> 2 ^ 4" using assms(1) by (intro power_increasing) auto
  then have "2 * (2::nat) ^ n \<le> 16" by simp
  moreover have "(1::nat) \<le> 2 ^ n" by simp
  ultimately show "1 \<le> j" "j < 16" using half unfolding j_def by linarith+
  from assms(1) consider "n = 0" | "n = 1" | "n = 2" | "n = 3" by linarith
  then show "node_level j = word_of_nat (3 - n)"
    using half by cases (simp_all add: node_level_def j_def)
  have e: "even a \<longleftrightarrow> pos mod 2 = 0" by (simp add: a_def even_iff_mod_2_eq_zero)
  have "pos - pos mod 2 = 2 * (pos div 2)" by (rule minus_mod_eq_mult_div)
  moreover have "pos mod 2 \<le> pos" by (rule mod_less_eq_dividend)
  ultimately have "2 * j = a - pos mod 2" by (simp add: a_def j_def)
  then show "2 * j = (if pos mod 2 = 0 then a else a XOR 1)"
    "2 * j + 1 = (if pos mod 2 = 0 then a XOR 1 else a)"
    using e by (auto simp: xor_one_nat a_def)
qed

lemma climb_children:
  fixes t :: "bytes list"
  assumes "n < 4" "pos < 2 ^ Suc n"
  defines "a \<equiv> 2 ^ Suc n + pos" and "j \<equiv> 2 ^ n + pos div 2"
  shows "t ! (2 * j) = (if pos mod 2 = 0 then t ! a else t ! (a XOR 1))"
    "t ! (2 * j + 1) = (if pos mod 2 = 0 then t ! (a XOR 1) else t ! a)"
  unfolding a_def j_def
  by (subst climb_index(4) [OF assms(1,2)], simp) (subst climb_index(5) [OF assms(1,2)], simp)

lemma tree_climb_node:
  assumes "signer_of E seed c" "n < 4" "pos < 2 ^ Suc n"
  defines "a \<equiv> 2 ^ Suc n + pos"
  shows "tree c ! (2 ^ n + pos div 2) = parent E (word_of_nat (3 - n))
    (if pos mod 2 = 0 then tree c ! a else tree c ! (a XOR 1))
    (if pos mod 2 = 0 then tree c ! (a XOR 1) else tree c ! a)"
  using signer_tree(3) [OF assms(1) climb_index(1,2) [OF assms(2,3)]]
  unfolding climb_children [OF assms(2,3)] climb_index(3) [OF assms(2,3)] a_def .

lemma upt_levels:
  assumes "n < 4"
  shows "[4 - Suc n ..< 4] = (3 - n) # [4 - n ..< 4]"
proof -
  have "4 - Suc n = 3 - n" "Suc (3 - n) = 4 - n" using assms by simp_all
  then show ?thesis using upt_conv_Cons [of "3 - n" 4] by simp
qed

definition sibling_at :: "bytes \<Rightarrow> nat \<Rightarrow> bytes" where
  "sibling_at signature level =
     slice (2 + (CHAINS + level) * 64) (2 + (CHAINS + level) * 64 + 64) signature"

lemma climb_Cons:
  "climb E signature (level # levels) pos node =
     climb E signature levels (pos div 2)
       (if pos mod 2 = 0 then parent E (word_of_nat level) node (sibling_at signature level)
        else parent E (word_of_nat level) (sibling_at signature level) node)"
  by (simp add: climb.simps sibling_at_def Let_def)

text \<open>Climbing from a leaf with the tree's own siblings ends at the root.\<close>

lemma climb_own_path:
  assumes c: "signer_of E seed c" and "n \<le> 4" "pos < 2 ^ n"
    and "\<And>k. 4 - n \<le> k \<Longrightarrow> k < 4 \<Longrightarrow> sibling_at signature k
        = tree c ! ((2 ^ (4 - k) + pos div 2 ^ (k - (4 - n))) XOR 1)"
  shows "climb E signature [4 - n ..< 4] pos (tree c ! (2 ^ n + pos)) = tree c ! 1"
  using assms(2-4)
proof (induction n arbitrary: pos)
  case 0
  then show ?case by (simp add: climb.simps)
next
  case (Suc n)
  have n: "n < 4" using Suc.prems(1) by simp
  note upt = upt_levels [OF n]
  have sib: "sibling_at signature (3 - n) = tree c ! ((2 ^ Suc n + pos) XOR 1)"
    using Suc.prems(3) [of "3 - n"] n by (simp add: Suc_diff_le)
  have rest: "sibling_at signature k
      = tree c ! ((2 ^ (4 - k) + pos div 2 div 2 ^ (k - (4 - n))) XOR 1)"
    if k: "4 - n \<le> k" "k < 4" for k
  proof -
    have "pos div 2 div 2 ^ (k - (4 - n)) = pos div 2 ^ (k - (4 - Suc n))"
    proof -
      have "k - (4 - Suc n) = Suc (k - (4 - n))" using k n by linarith
      then show ?thesis by (simp add: div_mult2_eq)
    qed
    with Suc.prems(3) [of k] k show ?thesis by simp
  qed
  have node: "tree c ! (2 ^ n + pos div 2) =
      (if pos mod 2 = 0
       then parent E (word_of_nat (3 - n)) (tree c ! (2 ^ Suc n + pos)) (sibling_at signature (3 - n))
       else parent E (word_of_nat (3 - n)) (sibling_at signature (3 - n)) (tree c ! (2 ^ Suc n + pos)))"
    using tree_climb_node [OF c n Suc.prems(2)] by (simp add: sib)
  have "climb E signature [4 - n ..< 4] (pos div 2) (tree c ! (2 ^ n + pos div 2)) = tree c ! 1"
    using Suc.IH [of "pos div 2"] rest Suc.prems(2) n by (simp add: less_mult_imp_div_less mult.commute)
  then show ?case unfolding upt climb_Cons node [symmetric] .
qed

lemma chain_ends_eq:
  "length encoded = 131 \<Longrightarrow>
   chain_ends E encoded signature = concat (map (\<lambda>i. (step E ^^ (15 - unat (encoded ! i)))
     (slice (2 + i * 64) (2 + (i + 1) * 64) signature)) [0 ..< 131])"
  unfolding chain_ends_def
  by (rule arg_cong [of _ _ concat], rule nth_equalityI) (simp_all add: nth_enumerate_eq)

lemma length_SIGNING_CONTEXTS: "length SIGNING_CONTEXTS = 12"
  by (simp add: SIGNING_CONTEXTS_def)

lemma length_message_digest [simp]: "permutation_ok E \<Longrightarrow> length (message_digest E r p m) = 64"
  by (simp add: message_digest_def)

lemma frame_signature_verifies:
  assumes "permutation_ok E" "signer_of E seed c" "unat p < 12"
  shows "verify E (public_key c) p m
    (frame_signature E c p (message_digest E (public_key c) p m))"
proof -
  let ?rep = "message_digest E (public_key c) p m"
  let ?sig = "frame_signature E c p ?rep"
  have p16: "unat p < 16" using assms(3) by simp
  have rep: "length ?rep = 64" using assms(1) by simp
  note parts = frame_signature_parts [OF assms(1,2) p16 rep]
  have ld: "length (digits ?rep) = 131" using length_digits [OF rep] by (simp add: CHAINS_def)
  have "(step E ^^ (15 - unat (digits ?rep ! i))) ((step E ^^ unat (digits ?rep ! i)) v)
      = (step E ^^ 15) v" if "i < 131" for i v
  proof -
    have "unat (digits ?rep ! i) < 16" using digits_bound [OF rep] ld that by simp
    then show ?thesis by (simp flip: funpow_add [THEN fun_cong, unfolded comp_def])
  qed
  then have "chain_ends E (digits ?rep) ?sig = purpose_public_key E seed p"
    unfolding chain_ends_eq [OF ld] purpose_public_key_def CHAINS_def
    by (intro arg_cong [of _ _ concat] map_cong) (simp_all only: parts(4) set_upt atLeastLessThan_iff)
  then have "leaf E p (chain_ends E (digits ?rep) ?sig) = tree c ! (2 ^ 4 + unat p)"
    using signer_tree(2) [OF assms(2) p16] assms(3)
    by (simp add: tree_leaf_def length_SIGNING_CONTEXTS)
  moreover have "climb E ?sig [4 - 4 ..< 4] (unat p) (tree c ! (2 ^ 4 + unat p)) = tree c ! 1"
    using p16 parts(5) by (intro climb_own_path [OF assms(2)]) (simp_all add: sibling_at_def)
  moreover have "[4 - 4 ..< 4] = [0, 1, 2, 3 :: nat]" by (simp add: upt_rec)
  ultimately show ?thesis
    using assms(3) parts(1-3)
    by (simp add: verify_def length_SIGNING_CONTEXTS Let_def public_key_def)
qed

section \<open>An accepted signature is the signer's own\<close>

text \<open>
  The inputs that key generation hashes and the inputs that verification hashes.  A
  signature that verification accepts is, byte for byte, the one the signer makes for that
  frame, unless an input of one kind and a different input of the other have one digest.
\<close>

definition chain_input :: "bytes \<Rightarrow> bytes" where
  "chain_input v = ascii_bytes ''purpose-wots/chain/v1'' @ v"

definition leaf_input :: "byte \<Rightarrow> bytes \<Rightarrow> bytes" where
  "leaf_input p ends = ascii_bytes ''purpose-wots/leaf/v1'' @ [p] @ ends"

definition node_input :: "byte \<Rightarrow> bytes \<Rightarrow> bytes \<Rightarrow> bytes" where
  "node_input level left right = ascii_bytes ''purpose-wots/node/v1'' @ [level] @ left @ right"

definition key_inputs :: "externals \<Rightarrow> bytes \<Rightarrow> signer \<Rightarrow> bytes set" where
  "key_inputs E seed c =
     {chain_input ((step E ^^ k) (start E seed p i)) | k p i. k < 15 \<and> unat p < 12 \<and> i < 131}
     \<union> {leaf_input p (purpose_public_key E seed p) | p. unat p < 12}
     \<union> {node_input (node_level j) (tree c ! (2 * j)) (tree c ! (2 * j + 1)) | j. 1 \<le> j \<and> j < 16}"

fun climb_inputs :: "externals \<Rightarrow> bytes \<Rightarrow> nat list \<Rightarrow> nat \<Rightarrow> bytes \<Rightarrow> bytes set" where
  "climb_inputs E signature [] pos node = {}"
| "climb_inputs E signature (level # levels) pos node =
     (let sibling = sibling_at signature level;
          left = (if pos mod 2 = 0 then node else sibling);
          right = (if pos mod 2 = 0 then sibling else node)
      in insert (node_input (word_of_nat level) left right)
           (climb_inputs E signature levels (pos div 2) (parent E (word_of_nat level) left right)))"

definition verification_inputs :: "externals \<Rightarrow> byte \<Rightarrow> bytes \<Rightarrow> bytes \<Rightarrow> bytes set" where
  "verification_inputs E p encoded signature =
     {chain_input ((step E ^^ k) (slice (2 + i * 64) (2 + (i + 1) * 64) signature))
       | k i. k < 15 - unat (encoded ! i) \<and> i < 131}
     \<union> {leaf_input p (chain_ends E encoded signature)}
     \<union> climb_inputs E signature [0, 1, 2, 3] (unat p) (leaf E p (chain_ends E encoded signature))"

definition collide :: "externals \<Rightarrow> bytes set \<Rightarrow> bytes set \<Rightarrow> bool" where
  "collide E X Y \<longleftrightarrow> (\<exists>x \<in> X. \<exists>y \<in> Y. x \<noteq> y \<and> digest E x = digest E y)"

lemma collide_mono: "collide E X Y \<Longrightarrow> X \<subseteq> X' \<Longrightarrow> Y \<subseteq> Y' \<Longrightarrow> collide E X' Y'"
  by (auto simp: collide_def)

lemma hashes_as_digests:
  assumes "permutation_ok E"
  shows "step E v = digest E (chain_input v)" "leaf E p ends = digest E (leaf_input p ends)"
    "parent E level left right = digest E (node_input level left right)"
  using assms
  by (simp_all add: step_def leaf_def parent_def wots_hash_digest chain_input_def leaf_input_def
      node_input_def)

lemma chain_binding:
  assumes ok: "permutation_ok E" and eq: "(step E ^^ n) v = (step E ^^ n) w"
  shows "v = w \<or> collide E {chain_input ((step E ^^ k) v) | k. k < n}
                     {chain_input ((step E ^^ k) w) | k. k < n}"
  using eq
proof (induction n)
  case 0
  then show ?case by simp
next
  case (Suc n)
  show ?case
  proof (cases "(step E ^^ n) v = (step E ^^ n) w")
    case True
    from Suc.IH [OF True] show ?thesis
    proof
      assume "collide E {chain_input ((step E ^^ k) v) | k. k < n}
          {chain_input ((step E ^^ k) w) | k. k < n}"
      then show ?thesis by (intro disjI2) (erule collide_mono; auto)
    qed simp
  next
    case False
    have "digest E (chain_input ((step E ^^ n) v)) = digest E (chain_input ((step E ^^ n) w))"
      using Suc.prems ok by (simp flip: hashes_as_digests)
    moreover have "chain_input ((step E ^^ n) v) \<noteq> chain_input ((step E ^^ n) w)"
      using False by (simp add: chain_input_def)
    ultimately show ?thesis unfolding collide_def by blast
  qed
qed

lemma climb_binding:
  assumes ok: "permutation_ok E" and c: "signer_of E seed c"
    and len: "length signature = SIGNATURE_BYTES"
    and "n \<le> 4" "pos < 2 ^ n" "length node = 64"
    and "climb E signature [4 - n ..< 4] pos node = tree c ! 1"
  shows "(node = tree c ! (2 ^ n + pos)
      \<and> (\<forall>k. 4 - n \<le> k \<and> k < 4 \<longrightarrow> sibling_at signature k
            = tree c ! ((2 ^ (4 - k) + pos div 2 ^ (k - (4 - n))) XOR 1)))
    \<or> collide E (climb_inputs E signature [4 - n ..< 4] pos node) (key_inputs E seed c)"
  using assms(4-7)
proof (induction n arbitrary: pos node)
  case 0
  then show ?case by (auto simp: climb.simps)
next
  case (Suc n)
  let ?j = "2 ^ n + pos div 2" and ?a = "2 ^ Suc n + pos" and ?s = "sibling_at signature (3 - n)"
  let ?left = "if pos mod 2 = 0 then node else ?s" and ?right = "if pos mod 2 = 0 then ?s else node"
  let ?up = "parent E (word_of_nat (3 - n)) ?left ?right"
  let ?in = "node_input (word_of_nat (3 - n)) ?left ?right"
  have n: "n < 4" using Suc.prems(1) by simp
  note ix = climb_index [OF n Suc.prems(2)]
  note upt = upt_levels [OF n]
  have up: "climb E signature [4 - n ..< 4] (pos div 2) ?up = tree c ! 1"
    using Suc.prems(4) unfolding upt climb_Cons by (simp split: if_splits)
  have sl: "length ?s = 64"
    using len n by (simp add: sibling_at_def SIGNATURE_BYTES_def CHAINS_def)
  have inputs: "climb_inputs E signature [4 - Suc n ..< 4] pos node
      = insert ?in (climb_inputs E signature [4 - n ..< 4] (pos div 2) ?up)"
    unfolding upt by (simp add: Let_def)
  have half: "pos div 2 < 2 ^ n" using Suc.prems(2) by (simp add: less_mult_imp_div_less mult.commute)
  have "length ?up = 64" using ok by simp
  from Suc.IH [OF _ half this up] n consider
    (own) "?up = tree c ! ?j" "\<forall>k. 4 - n \<le> k \<and> k < 4 \<longrightarrow> sibling_at signature k
            = tree c ! ((2 ^ (4 - k) + pos div 2 div 2 ^ (k - (4 - n))) XOR 1)"
    | (clash) "collide E (climb_inputs E signature [4 - n ..< 4] (pos div 2) ?up) (key_inputs E seed c)"
    by auto
  then show ?case
  proof cases
    case clash
    then show ?thesis unfolding inputs by (intro disjI2) (erule collide_mono; auto)
  next
    case own
    let ?key = "node_input (node_level ?j) (tree c ! (2 * ?j)) (tree c ! (2 * ?j + 1))"
    have key: "?key \<in> key_inputs E seed c" using ix(1,2) unfolding key_inputs_def by blast
    have same: "digest E ?in = digest E ?key"
      using own(1) signer_tree(3) [OF c ix(1,2)] ok by (simp only: hashes_as_digests)
    show ?thesis
    proof (cases "?in = ?key")
      case False
      with same key show ?thesis unfolding inputs collide_def by blast
    next
      case True
      have tl1: "length (tree c ! (2 * ?j)) = 64"
        by (rule length_tree_node [OF ok c]) (use ix(1,2) in auto)
      have tl2: "length (tree c ! (2 * ?j + 1)) = 64"
        by (rule length_tree_node [OF ok c]) (use ix(1,2) in auto)
      have "length ?left = 64" using sl Suc.prems(3) by simp
      with True tl1 tl2 have "?left = tree c ! (2 * ?j)" "?right = tree c ! (2 * ?j + 1)"
        by (simp_all add: node_input_def)
      then have here: "node = tree c ! ?a" "?s = tree c ! (?a XOR 1)"
        unfolding climb_children [OF n Suc.prems(2)] by (simp_all split: if_splits)
      have "sibling_at signature k
          = tree c ! ((2 ^ (4 - k) + pos div 2 ^ (k - (4 - Suc n))) XOR 1)"
        if k: "4 - Suc n \<le> k" "k < 4" for k
      proof (cases "k = 3 - n")
        case True
        with here(2) n show ?thesis by (simp add: Suc_diff_le)
      next
        case False
        with k n have k4: "4 - n \<le> k" "k - (4 - Suc n) = Suc (k - (4 - n))" by linarith+
        with own(2) k(2) show ?thesis by (simp add: div_mult2_eq)
      qed
      with here(1) show ?thesis by blast
    qed
  qed
qed

lemma list_of_slices:
  assumes "length xs = k * n"
  shows "xs = concat (map (\<lambda>i. slice (i * n) ((i + 1) * n) xs) [0 ..< k])"
  using slices_concat [of n k xs] assms by (simp add: ac_simps)

lemma signature_from_slices:
  fixes x y :: bytes
  assumes "length x = SIGNATURE_BYTES" "length y = SIGNATURE_BYTES" "take 2 x = take 2 y"
    and "\<And>i. i < 135 \<Longrightarrow>
      slice (2 + i * 64) (2 + (i + 1) * 64) x = slice (2 + i * 64) (2 + (i + 1) * 64) y"
  shows "x = y"
proof -
  have l: "length (drop 2 x) = 135 * 64" "length (drop 2 y) = 135 * 64"
    using assms(1,2) by (simp_all add: SIGNATURE_BYTES_def CHAINS_def)
  have sl: "slice (i * 64) ((i + 1) * 64) (drop 2 z) = slice (2 + i * 64) (2 + (i + 1) * 64) z"
    for i and z :: bytes by (simp add: slice_def)
  have "map (\<lambda>i. slice (i * 64) ((i + 1) * 64) (drop 2 x)) [0 ..< 135]
      = map (\<lambda>i. slice (i * 64) ((i + 1) * 64) (drop 2 y)) [0 ..< 135]"
    by (rule map_cong [OF refl]) (simp only: sl assms(4) set_upt atLeastLessThan_iff)
  then have "drop 2 x = drop 2 y"
    using list_of_slices [OF l(1)] list_of_slices [OF l(2)] by metis
  with assms(3) show ?thesis by (metis append_take_drop_id)
qed

lemma concat_blocks_inject:
  assumes "concat (map f [0 ..< k]) = concat (map g [0 ..< k])"
    "\<And>i. i < k \<Longrightarrow> length (f i) = n" "\<And>i. i < k \<Longrightarrow> length (g i) = n" "i < k"
  shows "f i = g i"
proof -
  have "\<forall>x \<in> set (map f [0 ..< k]). length x = n" "\<forall>x \<in> set (map g [0 ..< k]). length x = n"
    using assms(2,3) by auto
  from chunk_slice [OF this(1), of i "[]"] chunk_slice [OF this(2), of i "[]"] assms(1,4)
  show ?thesis by simp
qed

lemma take_2_nth: "2 \<le> length xs \<Longrightarrow> take 2 xs = [xs ! 0, xs ! 1]"
  by (cases xs; cases "tl xs") auto

text \<open>The verifier's chain ends are the signer's only if every chain value is.\<close>

lemma chain_ends_binding:
  assumes ok: "permutation_ok E" and p: "unat p < 12" and len: "length signature = SIGNATURE_BYTES"
    and rep: "length rep = 64"
    and ends: "chain_ends E (digits rep) signature = purpose_public_key E seed p"
    and c: "signer_of E seed c"
  shows "(\<forall>i < 131. slice (2 + i * 64) (2 + (i + 1) * 64) signature
        = (step E ^^ unat (digits rep ! i)) (start E seed p i))
    \<or> collide E (verification_inputs E p (digits rep) signature) (key_inputs E seed c)"
proof -
  let ?v = "\<lambda>i. slice (2 + i * 64) (2 + (i + 1) * 64) signature"
  let ?d = "\<lambda>i. unat (digits rep ! i)"
  have ld: "length (digits rep) = 131" using length_digits [OF rep] by (simp add: CHAINS_def)
  have d: "?d i \<le> 15" if "i < 131" for i
    using digits_bound [OF rep, of "digits rep ! i"] that ld by force
  have one: "?v i = (step E ^^ ?d i) (start E seed p i)
      \<or> collide E (verification_inputs E p (digits rep) signature) (key_inputs E seed c)"
    if i: "i < 131" for i
  proof -
    let ?n = "15 - ?d i" and ?w = "(step E ^^ ?d i) (start E seed p i)"
    have lv: "length (?v j) = 64" if "j < 131" for j
      using len that by (simp add: SIGNATURE_BYTES_def CHAINS_def)
    have "(step E ^^ ?n) (?v i) = (step E ^^ 15) (start E seed p i)"
    proof (rule concat_blocks_inject [where k = 131 and n = 64])
      show "concat (map (\<lambda>i. (step E ^^ (15 - ?d i)) (?v i)) [0 ..< 131])
          = concat (map (\<lambda>i. (step E ^^ 15) (start E seed p i)) [0 ..< 131])"
        using ends unfolding chain_ends_eq [OF ld] purpose_public_key_def CHAINS_def .
    qed (use lv ok i in \<open>simp_all add: length_step_funpow\<close>)
    also have "\<dots> = (step E ^^ ?n) ?w"
    proof -
      have "15 = ?n + ?d i" using d [OF i] by simp
      then show ?thesis by (metis comp_apply funpow_add)
    qed
    finally have "(step E ^^ ?n) (?v i) = (step E ^^ ?n) ?w" .
    from chain_binding [OF ok this] show ?thesis
    proof
      assume "collide E {chain_input ((step E ^^ k) (?v i)) | k. k < ?n}
          {chain_input ((step E ^^ k) ?w) | k. k < ?n}"
      then have "collide E (verification_inputs E p (digits rep) signature) (key_inputs E seed c)"
      proof (rule collide_mono)
        show "{chain_input ((step E ^^ k) (?v i)) | k. k < ?n}
            \<subseteq> verification_inputs E p (digits rep) signature"
          using i unfolding verification_inputs_def by blast
        have "chain_input ((step E ^^ k) ?w) \<in> key_inputs E seed c" if "k < ?n" for k
        proof -
          have "(step E ^^ k) ?w = (step E ^^ (k + ?d i)) (start E seed p i)"
            by (simp add: funpow_add)
          moreover have "k + ?d i < 15" using that by linarith
          ultimately have "chain_input ((step E ^^ k) ?w) \<in>
              {chain_input ((step E ^^ k) (start E seed p i)) | k p i.
                 k < 15 \<and> unat p < 12 \<and> i < 131}"
            using p i by (intro CollectI exI [of _ "k + ?d i"] exI [of _ p] exI [of _ i]) simp
          then show ?thesis unfolding key_inputs_def by blast
        qed
        then show "{chain_input ((step E ^^ k) ?w) | k. k < ?n} \<subseteq> key_inputs E seed c" by blast
      qed
      then show ?thesis by blast
    qed blast
  qed
  then show ?thesis by blast
qed

lemma length_purpose_public_key:
  "permutation_ok E \<Longrightarrow> length (purpose_public_key E seed p) = 131 * 64"
  unfolding purpose_public_key_def
  by (subst length_concat_const [where n = 64]) (auto simp: length_step_funpow CHAINS_def)

lemma accepted_is_own:
  assumes ok: "permutation_ok E" and c: "signer_of E seed c"
    and v: "verify E (public_key c) p m signature"
  defines "rep \<equiv> message_digest E (public_key c) p m"
  shows "signature = frame_signature E c p rep
    \<or> collide E (verification_inputs E p (digits rep) signature) (key_inputs E seed c)"
proof -
  let ?ends = "chain_ends E (digits rep) signature"
  let ?clash = "collide E (verification_inputs E p (digits rep) signature) (key_inputs E seed c)"
  have rep: "length rep = 64" using ok by (simp add: rep_def)
  have upt: "[4 - 4 ..< 4] = [0, 1, 2, 3 :: nat]" by (simp add: upt_rec)
  have "unat p < 12 \<and> length signature = SIGNATURE_BYTES \<and> signature ! 0 = 1 \<and> signature ! 1 = p
      \<and> climb E signature [4 - 4 ..< 4] (unat p) (leaf E p ?ends) = tree c ! 1"
    using v unfolding upt verify_def length_SIGNING_CONTEXTS Let_def rep_def public_key_def .
  then have p: "unat p < 12" and len: "length signature = SIGNATURE_BYTES"
    and first: "signature ! 0 = 1" "signature ! 1 = p"
    and root: "climb E signature [4 - 4 ..< 4] (unat p) (leaf E p ?ends) = tree c ! 1"
    by blast+
  have p16: "unat p < 16" using p by simp
  have ll: "length (leaf E p ?ends) = 64" using ok by (simp add: leaf_def)
  have four: "4 \<le> (4::nat)" "unat p < 2 ^ 4" using p16 by simp_all
  have bound: "(leaf E p ?ends = tree c ! (2 ^ 4 + unat p)
      \<and> (\<forall>k. 4 - 4 \<le> k \<and> k < 4 \<longrightarrow> sibling_at signature k
            = tree c ! ((2 ^ (4 - k) + unat p div 2 ^ (k - (4 - 4))) XOR 1)))
    \<or> collide E (climb_inputs E signature [4 - 4 ..< 4] (unat p) (leaf E p ?ends))
        (key_inputs E seed c)"
    by (rule climb_binding [OF ok c len four ll root])
  have norm: "(2::nat) ^ 4 = 16" "4 - 4 = (0::nat)" by simp_all
  from bound consider
    (own) "leaf E p ?ends = tree c ! (16 + unat p)" "\<forall>k < 4. sibling_at signature k
            = tree c ! ((2 ^ (4 - k) + unat p div 2 ^ k) XOR 1)"
    | (clash) "collide E (climb_inputs E signature [0, 1, 2, 3] (unat p) (leaf E p ?ends))
        (key_inputs E seed c)"
    unfolding upt unfolding norm by (auto simp del: climb_inputs.simps)
  then show ?thesis
  proof cases
    case clash
    then have ?clash by (rule collide_mono) (auto simp: verification_inputs_def)
    then show ?thesis ..
  next
    case own
    let ?key = "leaf_input p (purpose_public_key E seed p)"
    have "leaf E p ?ends = leaf E p (purpose_public_key E seed p)"
      using own(1) signer_tree(2) [OF c p16] p by (simp add: tree_leaf_def length_SIGNING_CONTEXTS)
    then have same: "digest E (leaf_input p ?ends) = digest E ?key"
      using ok by (simp add: hashes_as_digests)
    show ?thesis
    proof (cases "leaf_input p ?ends = ?key")
      case False
      have "leaf_input p ?ends \<in> verification_inputs E p (digits rep) signature"
        by (simp add: verification_inputs_def)
      moreover have "?key \<in> key_inputs E seed c" using p unfolding key_inputs_def by blast
      ultimately have ?clash using False same unfolding collide_def by blast
      then show ?thesis ..
    next
      case True
      then have "?ends = purpose_public_key E seed p" by (simp add: leaf_input_def)
      from chain_ends_binding [OF ok p len rep this c] show ?thesis
      proof
        assume chains: "\<forall>i < 131. slice (2 + i * 64) (2 + (i + 1) * 64) signature
            = (step E ^^ unat (digits rep ! i)) (start E seed p i)"
        note parts = frame_signature_parts [OF ok c p16 rep]
        have "signature = frame_signature E c p rep"
        proof (rule signature_from_slices [OF len parts(1)])
          show "take 2 signature = take 2 (frame_signature E c p rep)"
            using first parts(1-3) len by (simp add: take_2_nth SIGNATURE_BYTES_def CHAINS_def)
          fix i :: nat
          assume i: "i < 135"
          show "slice (2 + i * 64) (2 + (i + 1) * 64) signature
              = slice (2 + i * 64) (2 + (i + 1) * 64) (frame_signature E c p rep)"
          proof (cases "i < 131")
            case True
            with chains parts(4) show ?thesis by metis
          next
            case False
            define k where "k = i - 131"
            have k: "k < 4" "i = CHAINS + k" using False i by (simp_all add: k_def CHAINS_def)
            have e: "2 + (CHAINS + k + 1) * 64 = 2 + (CHAINS + k) * 64 + 64" by simp
            show ?thesis
              using own(2) parts(5) [OF k(1)] k(1) unfolding k(2) e sibling_at_def by metis
          qed
        qed
        then show ?thesis ..
      qed blast
    qed
  qed
qed

section \<open>One frame per purpose\<close>

text \<open>
  A signer keeps the first representative of a purpose: the same frame gets the same bytes
  back, another frame is refused, and nothing else of the signer changes.
\<close>

definition slot_ok :: "externals \<Rightarrow> signer \<Rightarrow> bool" where
  "slot_ok E c \<longleftrightarrow>
     (\<forall>p u. unat p < length SIGNING_CONTEXTS \<longrightarrow> used c ! unat p = Some u \<longrightarrow>
        length (representative u) = 64
        \<and> used_signature u = frame_signature E c p (representative u))"

lemma frame_signature_used [simp]:
  "frame_signature E (c\<lparr>used := u\<rparr>) p rep = frame_signature E c p rep"
  by (simp add: frame_signature_def)

lemma signer_new_ok: "signer_of E seed (signer_new E seed)" "slot_ok E (signer_new E seed)"
  by (simp_all add: signer_of_def slot_ok_def signer_new_def PURPOSES_def length_SIGNING_CONTEXTS)

lemma sign_keeps:
  assumes "permutation_ok E" "signer_of E seed c" "slot_ok E c"
  shows "signer_of E seed (fst (sign E p m c))" "slot_ok E (fst (sign E p m c))"
    "public_key (fst (sign E p m c)) = public_key c"
proof -
  have upd: "slot_ok E (c\<lparr>used := (used c)[unat p :=
      Some \<lparr>representative = rep, used_signature = frame_signature E c p rep\<rparr>]\<rparr>)"
    if rep: "length rep = 64" for rep
    unfolding slot_ok_def
  proof (intro allI impI)
    let ?w = "\<lparr>representative = rep, used_signature = frame_signature E c p rep\<rparr>"
    let ?c = "c\<lparr>used := (used c)[unat p := Some ?w]\<rparr>"
    fix q :: byte and u
    assume q: "unat q < length SIGNING_CONTEXTS" "used ?c ! unat q = Some u"
    have "unat q < length (used c)"
      using q(1) assms(2) by (simp add: length_SIGNING_CONTEXTS signer_of_def PURPOSES_def)
    with q(2) have "(p = q \<and> u = ?w) \<or> used c ! unat q = Some u"
      by (cases "unat p = unat q") (auto dest: unsigned_word_eqI)
    then show "length (representative u) = 64
        \<and> used_signature u = frame_signature E ?c q (representative u)"
      using rep assms(3) q(1) by (auto simp: slot_ok_def)
  qed
  show "signer_of E seed (fst (sign E p m c))" "public_key (fst (sign E p m c)) = public_key c"
    using assms(2)
    by (auto simp: sign_def Let_def signer_of_def public_key_def split: option.splits)
  show "slot_ok E (fst (sign E p m c))"
    using upd [OF length_message_digest [OF assms(1)]] assms(3)
    by (auto simp: sign_def Let_def frame_signature_def split: option.splits)
qed

lemma sign_result:
  assumes "permutation_ok E" "signer_of E seed c" "slot_ok E c"
  shows "snd (sign E p m c) =
    (if unat p \<ge> 12 then Inl InvalidPurpose
     else case used c ! unat p of
         None \<Rightarrow> Inr (frame_signature E c p (message_digest E (public_key c) p m))
       | Some u \<Rightarrow> if representative u = message_digest E (public_key c) p m
                   then Inr (frame_signature E c p (representative u)) else Inl FrameConflict)"
proof (cases "unat p \<ge> 12")
  case False
  then have "used_signature u = frame_signature E c p (representative u)"
    if "used c ! unat p = Some u" for u
    using assms(3) that by (simp add: slot_ok_def length_SIGNING_CONTEXTS)
  with False show ?thesis
    by (auto simp: sign_def Let_def length_SIGNING_CONTEXTS frame_signature_def
        split: option.splits)
qed (simp add: sign_def length_SIGNING_CONTEXTS)

lemma sign_marks:
  assumes "signer_of E seed c" "unat p < 12" "used c ! unat p = None"
  shows "map_option representative (used (fst (sign E p m c)) ! unat p)
    = Some (message_digest E (public_key c) p m)"
  using assms
  by (simp add: sign_def Let_def length_SIGNING_CONTEXTS signer_of_def PURPOSES_def)

text \<open>The states a signer reaches from its seed.\<close>

inductive signer_reachable :: "externals \<Rightarrow> bytes \<Rightarrow> signer \<Rightarrow> bool" for E seed where
  fresh: "signer_reachable E seed (signer_new E seed)"
| signed: "signer_reachable E seed c \<Longrightarrow> signer_reachable E seed (fst (sign E p m c))"

lemma signer_reachable_ok:
  assumes "permutation_ok E" "signer_reachable E seed c"
  shows "signer_of E seed c \<and> slot_ok E c"
  using assms(2) by induction (auto simp: signer_new_ok intro: sign_keeps [OF assms(1)])

lemma slot_kept:
  "signer_of E seed c \<Longrightarrow> used c ! unat p = Some u \<Longrightarrow> used (fst (sign E q m c)) ! unat p = Some u"
  by (cases "unat p = unat q") (auto simp: sign_def Let_def split: option.splits)

lemma position_of_less: "position_of ctx xs = Some i \<Longrightarrow> i < length xs \<and> xs ! i = ctx"
  by (induction xs arbitrary: i) (auto split: if_splits)

lemma context_position_bound:
  "position_of ctx SIGNING_CONTEXTS = Some i \<Longrightarrow> unat (word_of_nat i :: byte) < 12"
  using position_of_less [of ctx SIGNING_CONTEXTS i]
  by (simp add: length_SIGNING_CONTEXTS unat_of_nat)

text \<open>A key made from its seed signs every known context, and the signature verifies.\<close>

lemma fresh_key_signs:
  assumes "permutation_ok E" "position_of ctx SIGNING_CONTEXTS = Some i"
    "keypair_from_seed E seed = (root, key)"
  shows "\<exists>signature. snd (signing_key_sign E m ctx key) = Some signature
    \<and> signature = frame_signature E key (word_of_nat i) (message_digest E root (word_of_nat i) m)
    \<and> length signature = SIGNATURE_BYTES \<and> verify_context E root ctx m signature"
proof -
  let ?p = "word_of_nat i :: byte"
  have key: "key = signer_new E seed" "root = public_key key"
    using assms(3) by (auto simp: keypair_from_seed_def Let_def)
  have p: "unat ?p < 12" by (rule context_position_bound [OF assms(2)])
  note ok = signer_new_ok [of E seed, folded key(1)]
  let ?sig = "frame_signature E key ?p (message_digest E root ?p m)"
  have none: "used key ! unat ?p = None" using p by (simp add: key(1) signer_new_def PURPOSES_def)
  have sig: "snd (sign E ?p m key) = Inr ?sig"
    using sign_result [OF assms(1) ok, of ?p m] p none key(2) by simp
  have len: "length ?sig = SIGNATURE_BYTES"
    using p by (intro frame_signature_parts(1) [OF assms(1) ok(1)])
      (simp_all add: length_message_digest [OF assms(1)])
  have "snd (signing_key_sign E m ctx key) = Some ?sig"
    using sig len assms(2)
    by (cases "sign E ?p m key") (simp add: signing_key_sign_def sign_context_def)
  moreover have "verify_context E root ctx m ?sig"
    using frame_signature_verifies [OF assms(1) ok(1) p, of m] assms(2) key(2)
    by (simp add: verify_context_def)
  ultimately show ?thesis using len by blast
qed

lemma unknown_context_refused:
  assumes "position_of ctx SIGNING_CONTEXTS = None"
  shows "snd (signing_key_sign E m ctx key) = None" "\<not> verify_context E root ctx m signature"
  using assms by (simp_all add: signing_key_sign_def sign_context_def verify_context_def)

section \<open>Properties\<close>

lemma length_public_key:
  assumes "permutation_ok E" "signer_of E seed c"
  shows "length (public_key c) = 64"
proof -
  have "tree c ! 1 = parent E (node_level 1) (tree c ! 2) (tree c ! 3)"
    using signer_tree(3) [OF assms(2), of 1] by (simp add: numeral_3_eq_3)
  with assms(1) show ?thesis by (simp add: public_key_def parent_def)
qed

text \<open>
  C22.  Unforgeability up to collisions: a signature that verifies under a signer's root is the
  signature the signer itself makes for that frame, or the bytes hashed while verifying contain a
  value that collides with a different value hashed while making the key.
\<close>

theorem accepted_signature_is_the_signers:
  assumes "permutation_ok E" "signer_reachable E seed c"
    and "verify E (public_key c) p m signature"
  shows "signature = frame_signature E c p (message_digest E (public_key c) p m)
    \<or> collide E (verification_inputs E p (digits (message_digest E (public_key c) p m)) signature)
        (key_inputs E seed c)"
  using accepted_is_own [OF assms(1) _ assms(3)] signer_reachable_ok [OF assms(1,2)] by blast

theorem accepted_signature_is_the_signers_witness:
  "\<exists>signature. verify sample_externals (public_key (signer_new sample_externals [])) 0 [7] signature
    \<and> (signature = frame_signature sample_externals (signer_new sample_externals []) 0
          (message_digest sample_externals (public_key (signer_new sample_externals [])) 0 [7])
      \<or> collide sample_externals (verification_inputs sample_externals 0
          (digits (message_digest sample_externals (public_key (signer_new sample_externals [])) 0 [7])) signature)
          (key_inputs sample_externals [] (signer_new sample_externals [])))"
proof -
  have r: "signer_reachable sample_externals [] (signer_new sample_externals [])"
    by (rule signer_reachable.fresh)
  have v: "verify sample_externals (public_key (signer_new sample_externals [])) 0 [7]
      (frame_signature sample_externals (signer_new sample_externals []) 0
        (message_digest sample_externals (public_key (signer_new sample_externals [])) 0 [7]))"
    using signer_reachable_ok [OF sample_permutation r]
    by (intro frame_signature_verifies) auto
  show ?thesis using v accepted_signature_is_the_signers [OF sample_permutation r v] by blast
qed

text \<open>
  C23.  One frame per purpose: once a signer has signed a message for a purpose, in every later
  state it answers a message of that purpose with the first signature if the message digests
  agree and with a frame conflict otherwise, and never releases chain values of a second frame.
\<close>

theorem a_purpose_signs_one_frame:
  assumes "permutation_ok E" "signer_reachable E seed c" "unat p < 12"
    and "used c ! unat p = None"
    and "c' = fold (\<lambda>(q, k) d. fst (sign E q k d)) calls (fst (sign E p m c))"
  shows "snd (sign E p m' c') =
    (if message_digest E (public_key c) p m' = message_digest E (public_key c) p m
     then snd (sign E p m c) else Inl FrameConflict)"
proof -
  note ok = signer_reachable_ok [OF assms(1,2)]
  let ?c1 = "fst (sign E p m c)"
  have c1: "signer_of E seed ?c1" "slot_ok E ?c1" "public_key ?c1 = public_key c"
    using sign_keeps [OF assms(1)] ok by auto
  obtain u where u: "used ?c1 ! unat p = Some u"
    "representative u = message_digest E (public_key c) p m"
    using sign_marks [of E seed c p m] ok assms(3,4) by auto
  have "signer_of E seed c' \<and> slot_ok E c' \<and> public_key c' = public_key c
      \<and> used c' ! unat p = Some u"
    unfolding assms(5)
  proof (induction calls rule: rev_induct)
    case Nil
    then show ?case using c1 u by simp
  next
    case (snoc call calls)
    then show ?case
      by (cases call) (auto simp: sign_keeps [OF assms(1)] intro: slot_kept)
  qed
  moreover from this have "frame_signature E c' p rep = frame_signature E c p rep" for rep
    using ok by (simp add: frame_signature_def signer_of_def)
  ultimately show ?thesis
    using sign_result [of E seed c' p m'] sign_result [of E seed c p m] ok assms(1,3,4) u(2) by auto
qed

theorem a_purpose_signs_one_frame_witness:
  "snd (sign sample_externals 0 [2] (fst (sign sample_externals 1 [3]
      (fst (sign sample_externals 0 [1] (signer_new sample_externals []))))))
   = (if message_digest sample_externals (public_key (signer_new sample_externals [])) 0 [2]
         = message_digest sample_externals (public_key (signer_new sample_externals [])) 0 [1]
      then snd (sign sample_externals 0 [1] (signer_new sample_externals []))
      else Inl FrameConflict)"
  by (rule a_purpose_signs_one_frame [where calls = "[(1, [3])]" and seed = "[]"])
    (simp_all add: signer_reachable.fresh, simp add: signer_new_def PURPOSES_def)

lemma position_of_None_iff: "position_of ctx xs = None \<longleftrightarrow> ctx \<notin> set xs"
  by (induction xs) auto

text \<open>
  C24.  Every key made from a seed signs every known context with a signature of the fixed length
  that its public key verifies, and refuses unknown contexts.
\<close>

theorem fresh_key_signature_verifies:
  assumes "permutation_ok E" "keypair_from_seed E seed = (root, key)"
  shows "if ctx \<in> set SIGNING_CONTEXTS
    then \<exists>signature. snd (signing_key_sign E m ctx key) = Some signature
      \<and> length signature = SIGNATURE_BYTES \<and> verify_context E root ctx m signature
    else snd (signing_key_sign E m ctx key) = None"
proof (cases "position_of ctx SIGNING_CONTEXTS")
  case None
  then have "ctx \<notin> set SIGNING_CONTEXTS" by (simp add: position_of_None_iff)
  with None show ?thesis by (simp add: unknown_context_refused)
next
  case (Some i)
  then have "ctx \<in> set SIGNING_CONTEXTS" using position_of_less nth_mem by metis
  with fresh_key_signs [OF assms(1) Some assms(2)] show ?thesis by auto
qed

theorem fresh_key_signature_verifies_witness:
  "if ascii_bytes ''sealed-lattice/close-intent'' \<in> set SIGNING_CONTEXTS
   then \<exists>signature. snd (signing_key_sign sample_externals [7]
          (ascii_bytes ''sealed-lattice/close-intent'') (snd (keypair_from_seed sample_externals [])))
        = Some signature
      \<and> length signature = SIGNATURE_BYTES
      \<and> verify_context sample_externals (fst (keypair_from_seed sample_externals []))
          (ascii_bytes ''sealed-lattice/close-intent'') [7] signature
   else snd (signing_key_sign sample_externals [7]
          (ascii_bytes ''sealed-lattice/close-intent'') (snd (keypair_from_seed sample_externals [])))
        = None"
  by (rule fresh_key_signature_verifies) simp_all

text \<open>
  Digits of two different digests never dominate: some chain of one is released strictly
  further than the other's, so that a signature of one frame never contains another's.
\<close>

theorem digits_never_dominate:
  assumes "length x = 64" "length y = 64" "x \<noteq> y"
  shows "\<exists>i < CHAINS. unat (digits y ! i) < unat (digits x ! i)"
  using assms by (rule digits_incomparable)

theorem digits_never_dominate_witness:
  "\<exists>i < CHAINS. unat (digits (replicate 64 255) ! i) < unat (digits (replicate 64 0) ! i)"
  by (rule digits_never_dominate) simp_all

end
