(* ===== verification/Poll.thy ===== *)
theory Poll
  imports Manifest Identity Purpose_Signature
begin

text \<open>
  Poll definitions (\<open>protocol-foundations/src/poll.rs\<close>) and the encrypted-source families a
  poll admits (\<open>source-binding.rs\<close>): the draft, its canonical body, the identity of a body,
  and the verification of a signed poll.  Array types of the source are byte lists; a length
  that the type fixes is a hypothesis where a proof needs it, and a \<open>try_into\<close> is a length
  check.
\<close>

section \<open>Drafts and bodies\<close>

definition POLL_PURPOSE :: bytes where
  "POLL_PURPOSE = ascii_bytes ''sealed-lattice/poll-definition''"

definition POLL_SIGNATURE_CONTEXT :: bytes where
  "POLL_SIGNATURE_CONTEXT = POLL_PURPOSE"

definition MAXIMUM_POLL_BYTES :: nat where "MAXIMUM_POLL_BYTES = 1048576"

definition POLL_BODY_OVERHEAD :: nat where
  "POLL_BODY_OVERHEAD =
     6 + 7 * 6 + 4 + length POLL_PURPOSE + 64 + 32 + PUBLIC_KEY_BYTES + 4 + 2 + 2"

record poll_draft =
  draft_manifest :: manifest
  draft_top_count :: u16
  draft_maximum_participants :: u16

definition validate_fields :: "bytes \<Rightarrow> manifest \<Rightarrow> u16 \<Rightarrow> u16 \<Rightarrow> unit result" where
  "validate_fields TABLE m top_count maximum_participants =
     (case (option_range TABLE, participant_range TABLE) of
        (Some option_bounds, Some participant_bounds) \<Rightarrow>
          if \<not> range_contains option_bounds (option_count m)
             \<or> top_count = 0
             \<or> unat top_count > option_count m
             \<or> \<not> range_contains participant_bounds (unat maximum_participants)
          then Inl Shape else Inr ()
      | _ \<Rightarrow> Inl Shape)"

definition draft_body ::
  "externals \<Rightarrow> poll_draft \<Rightarrow> bytes \<Rightarrow> bytes \<Rightarrow> bytes \<Rightarrow> bytes result" where
  "draft_body E draft runtime nonce organizer =
     and_then (ok_or Shape (manifest_encode E (draft_manifest draft))) (\<lambda>encoded.
       if length encoded > MAXIMUM_POLL_BYTES - POLL_BODY_OVERHEAD then Inl Shape
       else and_then (ok_or Shape (do {
              purpose \<leftarrow> nonempty_ascii POLL_PURPOSE;
              nonce_item \<leftarrow> fixed_bytes nonce;
              organizer_item \<leftarrow> fixed_bytes organizer;
              manifest_item \<leftarrow> variable_bytes encoded;
              tuple_encode E \<lparr>schema_identifier = 1,
                items = [purpose, hash512 runtime, nonce_item, organizer_item, manifest_item,
                         unsigned16 (draft_top_count draft),
                         unsigned16 (draft_maximum_participants draft)]\<rparr> }))
            (\<lambda>body. if length body > MAXIMUM_POLL_BYTES then Inl Shape else Inr body))"

definition draft_new ::
  "externals \<Rightarrow> bytes \<Rightarrow> manifest \<Rightarrow> u16 \<Rightarrow> u16 \<Rightarrow> poll_draft result" where
  "draft_new E TABLE m top_count maximum_participants =
     and_then (validate_fields TABLE m top_count maximum_participants) (\<lambda>_.
       let value = \<lparr>draft_manifest = m, draft_top_count = top_count,
                    draft_maximum_participants = maximum_participants\<rparr>
       in and_then (draft_body E value (replicate 64 0) (replicate 32 0)
                      (replicate PUBLIC_KEY_BYTES 0)) (\<lambda>body.
            if length body > MAXIMUM_POLL_BYTES then Inl Shape else Inr value))"

definition poll_identity_of :: "externals \<Rightarrow> bytes \<Rightarrow> bytes result" where
  "poll_identity_of E body = ok_or Shape (do {
     item \<leftarrow> variable_bytes body;
     hash_foundation_tuple_512 E (ascii_bytes ''sealed-lattice/poll-identity'') [item] })"

section \<open>Verification\<close>

record verified_poll =
  poll_identity :: bytes
  poll_runtime :: bytes
  poll_organizer :: bytes
  poll_manifest :: manifest
  poll_top_count :: u16
  poll_maximum_participants :: u16

definition poll_limits :: canonical_decode_limits where
  "poll_limits =
     \<lparr> maximum_tuple_byte_length = MAXIMUM_POLL_BYTES,
       maximum_item_count = 7,
       maximum_item_byte_length = MAXIMUM_POLL_BYTES,
       maximum_nesting_depth = 32,
       maximum_cumulative_work_byte_length = 4 * MAXIMUM_POLL_BYTES,
       maximum_cumulative_allocation_byte_length = 4 * MAXIMUM_POLL_BYTES \<rparr>"

text \<open>\<open>try_into\<close> on a slice: the array of that length, or \<open>Shape\<close>.\<close>

definition try_array :: "nat \<Rightarrow> bytes \<Rightarrow> bytes result" where
  "try_array n bs = (if length bs = n then Inr bs else Inl Shape)"

definition verify_poll ::
  "externals \<Rightarrow> bytes \<Rightarrow> bytes \<Rightarrow> bytes \<Rightarrow> bytes \<Rightarrow> bytes \<Rightarrow> verified_poll result" where
  "verify_poll E TABLE expected_identity expected_runtime body signature =
     (if length body > MAXIMUM_POLL_BYTES \<or> length signature \<noteq> SIGNATURE_BYTES then Inl Shape
      else and_then (poll_identity_of E body) (\<lambda>found.
        if found \<noteq> expected_identity then Inl Shape
        else and_then (ok_or Shape (tuple_decode E body poll_limits)) (\<lambda>tuple.
          if \<not> has_header tuple 7 then Inl Shape
          else let its = items tuple in
          and_then (if item_type (its ! 0) \<noteq> Ascii then Inl Context
                    else ok_or Shape (variable_value_bytes (its ! 0))) (\<lambda>purpose.
          if purpose \<noteq> POLL_PURPOSE
             \<or> item_type (its ! 1) \<noteq> Hash512
             \<or> canonical_bytes (its ! 1) \<noteq> expected_runtime
             \<or> item_type (its ! 2) \<noteq> RawBytes
             \<or> length (canonical_bytes (its ! 2)) \<noteq> 32
             \<or> item_type (its ! 3) \<noteq> RawBytes
             \<or> item_type (its ! 4) \<noteq> RawBytes
             \<or> item_type (its ! 5) \<noteq> Unsigned16
             \<or> item_type (its ! 6) \<noteq> Unsigned16
          then Inl Context
          else
          and_then (try_array PUBLIC_KEY_BYTES (canonical_bytes (its ! 3))) (\<lambda>organizer.
          and_then (try_array SIGNATURE_BYTES signature) (\<lambda>signature_array.
          if \<not> verify_context E organizer POLL_SIGNATURE_CONTEXT expected_identity
                 signature_array
          then Inl Crypto
          else
          and_then (ok_or Shape (variable_value_bytes (its ! 4))) (\<lambda>manifest_bytes.
          and_then (ok_or Shape (manifest_decode E TABLE manifest_bytes default_limits)) (\<lambda>m.
          and_then (try_array 2 (canonical_bytes (its ! 5))) (\<lambda>top.
          and_then (try_array 2 (canonical_bytes (its ! 6))) (\<lambda>maximum.
          let top_count = u16_from_le_bytes top;
              maximum_participants = u16_from_le_bytes maximum
          in and_then (validate_fields TABLE m top_count maximum_participants) (\<lambda>_.
          Inr \<lparr> poll_identity = expected_identity, poll_runtime = expected_runtime,
                poll_organizer = organizer, poll_manifest = m, poll_top_count = top_count,
                poll_maximum_participants = maximum_participants \<rparr>)))))))))))"

section \<open>Source families\<close>

text \<open>The loop over the roster sizes; \<open>None\<close> where the source expects a supported profile.\<close>

fun families_loop :: "bytes \<Rightarrow> nat \<Rightarrow> nat list \<Rightarrow> profile list \<Rightarrow> profile list option" where
  "families_loop TABLE opts [] families = Some families"
| "families_loop TABLE opts (n # rest) families =
     (case profile_new TABLE n opts of
        None \<Rightarrow> None
      | Some p \<Rightarrow> families_loop TABLE opts rest
          (if \<exists>previous \<in> set families. same_fhe_key_family previous p
           then families else families @ [p]))"

definition families :: "bytes \<Rightarrow> nat \<Rightarrow> nat \<Rightarrow> profile list option" where
  "families TABLE maximum opts =
     (case participant_range TABLE of
        None \<Rightarrow> None
      | Some bounds \<Rightarrow> families_loop TABLE opts [range_start bounds ..< maximum + 1] [])"

definition families_from_dimensions :: "bytes \<Rightarrow> nat \<Rightarrow> nat \<Rightarrow> profile list result" where
  "families_from_dimensions TABLE maximum opts =
     and_then (ok_or Shape (profile_new TABLE maximum opts)) (\<lambda>_.
       ok_or Shape (families TABLE maximum opts))"

definition fhe_key_families :: "bytes \<Rightarrow> verified_poll \<Rightarrow> profile list option" where
  "fhe_key_families TABLE poll =
     families TABLE (unat (poll_maximum_participants poll)) (option_count (poll_manifest poll))"

fun position_where :: "('a \<Rightarrow> bool) \<Rightarrow> 'a list \<Rightarrow> nat option" where
  "position_where P [] = None"
| "position_where P (x # xs) = (if P x then Some 0 else map_option Suc (position_where P xs))"

definition fhe_key_family_index :: "bytes \<Rightarrow> verified_poll \<Rightarrow> profile \<Rightarrow> nat result" where
  "fhe_key_family_index TABLE poll p =
     (if options p \<noteq> option_count (poll_manifest poll)
         \<or> participants p > unat (poll_maximum_participants poll)
      then Inl Context
      else case fhe_key_families TABLE poll of
             None \<Rightarrow> Inl Context
           | Some fs \<Rightarrow> ok_or Context (position_where (\<lambda>family. same_fhe_key_family family p) fs))"

definition maximum_fhe_key_family_count :: "bytes \<Rightarrow> nat option" where
  "maximum_fhe_key_family_count TABLE = do {
     option_bounds \<leftarrow> option_range TABLE;
     participant_bounds \<leftarrow> participant_range TABLE;
     counts \<leftarrow> collect (map (\<lambda>opts. map_option length
                 (families TABLE (range_end participant_bounds) opts)) (range_list option_bounds));
     (if counts = [] then None else Some (Max (set counts))) }"

section \<open>The families of a poll\<close>

lemma same_fhe_key_family_equivp: "equivp same_fhe_key_family"
  by (auto intro!: equivpI simp: same_fhe_key_family_def reflp_def symp_def transp_def)

lemma families_loop_covers:
  assumes "families_loop TABLE opts ns fs = Some gs"
  shows "set fs \<subseteq> set gs
    \<and> (\<forall>n \<in> set ns. \<forall>p. profile_new TABLE n opts = Some p \<longrightarrow>
          (\<exists>f \<in> set gs. same_fhe_key_family f p))
    \<and> (\<forall>g \<in> set gs. g \<in> set fs \<or> (\<exists>n \<in> set ns. profile_new TABLE n opts = Some g))"
  using assms
proof (induction ns arbitrary: fs)
  case Nil
  then show ?case by simp
next
  case (Cons n ns)
  from Cons.prems obtain p where p: "profile_new TABLE n opts = Some p"
    by (auto split: option.splits)
  let ?fs = "if \<exists>previous \<in> set fs. same_fhe_key_family previous p then fs else fs @ [p]"
  have "families_loop TABLE opts ns ?fs = Some gs" using Cons.prems p by simp
  note ih = Cons.IH [OF this]
  have "\<exists>f \<in> set ?fs. same_fhe_key_family f p"
    by (auto simp: same_fhe_key_family_def)
  then have "\<exists>f \<in> set gs. same_fhe_key_family f p" using ih by blast
  moreover have "set fs \<subseteq> set ?fs" "set ?fs \<subseteq> set fs \<union> {p}" by auto
  ultimately show ?case using ih p by (auto split: if_splits)
qed

lemma families_loop_distinct:
  assumes "families_loop TABLE opts ns fs = Some gs"
    and "\<forall>i < length fs. \<forall>j < i. \<not> same_fhe_key_family (fs ! j) (fs ! i)"
  shows "\<forall>i < length gs. \<forall>j < i. \<not> same_fhe_key_family (gs ! j) (gs ! i)"
  using assms
proof (induction ns arbitrary: fs)
  case Nil
  then show ?case by simp
next
  case (Cons n ns)
  from Cons.prems(1) obtain p where p: "profile_new TABLE n opts = Some p"
    by (auto split: option.splits)
  let ?fs = "if \<exists>previous \<in> set fs. same_fhe_key_family previous p then fs else fs @ [p]"
  have "\<forall>i < length ?fs. \<forall>j < i. \<not> same_fhe_key_family (?fs ! j) (?fs ! i)"
    using Cons.prems(2) by (auto simp: nth_append less_Suc_eq)
  moreover have "families_loop TABLE opts ns ?fs = Some gs" using Cons.prems(1) p by simp
  ultimately show ?case using Cons.IH by blast
qed

lemma position_where_Some_iff:
  "position_where P xs = Some i \<longleftrightarrow> i < length xs \<and> P (xs ! i) \<and> (\<forall>j < i. \<not> P (xs ! j))"
proof (induction xs arbitrary: i)
  case Nil
  then show ?case by simp
next
  case (Cons x xs)
  then show ?case by (cases i) (auto simp: All_less_Suc2 split: if_splits)
qed

lemma position_where_None_iff: "position_where P xs = None \<longleftrightarrow> (\<forall>x \<in> set xs. \<not> P x)"
  by (induction xs) auto

text \<open>
  A profile of the poll has exactly one family of the poll: an index is found for every
  supported roster size up to the maximum, and no other listed family is the profile's.
\<close>

lemma fhe_key_family_index_unique:
  assumes poll: "fhe_key_families TABLE poll = Some fs"
    and p: "profile_new TABLE n (option_count (poll_manifest poll)) = Some p"
    and n: "n \<le> unat (poll_maximum_participants poll)"
  shows "\<exists>!i. i < length fs \<and> same_fhe_key_family (fs ! i) p"
    and "\<exists>i. fhe_key_family_index TABLE poll p = Inr i \<and> i < length fs
      \<and> same_fhe_key_family (fs ! i) p"
proof -
  let ?opts = "option_count (poll_manifest poll)"
  from poll obtain bounds where bounds: "participant_range TABLE = Some bounds"
    and loop: "families_loop TABLE ?opts
      [range_start bounds ..< unat (poll_maximum_participants poll) + 1] [] = Some fs"
    by (auto simp: fhe_key_families_def families_def split: option.splits)
  from p bounds have "range_start bounds \<le> n"
    by (auto simp: profile_new_def participant_range_def range_contains_def
        split: option.splits if_splits)
  with n families_loop_covers [OF loop] p have some: "\<exists>f \<in> set fs. same_fhe_key_family f p" by auto
  have unique: "i = j" if "i < length fs" "j < length fs" "same_fhe_key_family (fs ! i) p"
    "same_fhe_key_family (fs ! j) p" for i j
  proof -
    have "same_fhe_key_family (fs ! i) (fs ! j)" "same_fhe_key_family (fs ! j) (fs ! i)"
      using that(3,4) by (auto simp: same_fhe_key_family_def)
    with families_loop_distinct [OF loop] that(1,2) show ?thesis
      by (metis linorder_neqE_nat list.size(3) not_less_zero)
  qed
  from some unique show "\<exists>!i. i < length fs \<and> same_fhe_key_family (fs ! i) p"
    by (metis in_set_conv_nth)
  obtain i where "position_where (\<lambda>family. same_fhe_key_family family p) fs = Some i"
    using some position_where_None_iff [of "\<lambda>family. same_fhe_key_family family p" fs] by fastforce
  moreover from this have "i < length fs" "same_fhe_key_family (fs ! i) p"
    by (auto simp: position_where_Some_iff)
  ultimately show "\<exists>i. fhe_key_family_index TABLE poll p = Inr i \<and> i < length fs
      \<and> same_fhe_key_family (fs ! i) p"
    using profile_new_dimensions [OF p] n poll by (simp add: fhe_key_family_index_def)
qed

section \<open>Bodies and their identity\<close>

text \<open>The tuple of a poll body, and the fields a valid body carries.\<close>

definition poll_tuple ::
  "bytes \<Rightarrow> bytes \<Rightarrow> bytes \<Rightarrow> manifest \<Rightarrow> u16 \<Rightarrow> u16 \<Rightarrow> canonical_tuple" where
  "poll_tuple runtime nonce organizer m top_count maximum_participants =
     \<lparr>schema_identifier = 1,
      items = [label_item POLL_PURPOSE, hash512 runtime,
               \<lparr>item_type = RawBytes, canonical_bytes = nonce\<rparr>,
               \<lparr>item_type = RawBytes, canonical_bytes = organizer\<rparr>,
               raw_variable (manifest_bytes m), unsigned16 top_count,
               unsigned16 maximum_participants]\<rparr>"

definition valid_fields :: "bytes \<Rightarrow> manifest \<Rightarrow> u16 \<Rightarrow> u16 \<Rightarrow> bool" where
  "valid_fields TABLE m top_count maximum_participants \<longleftrightarrow>
     validate_fields TABLE m top_count maximum_participants = Inr ()"

lemma poll_purpose: "length POLL_PURPOSE = 30" "printable_ascii POLL_PURPOSE" "POLL_PURPOSE \<noteq> []"
  by (simp_all add: POLL_PURPOSE_def ascii_bytes_def printable_ascii_def)

lemma poll_context: "position_of POLL_SIGNATURE_CONTEXT SIGNING_CONTEXTS = Some 0"
  by (simp add: POLL_SIGNATURE_CONTEXT_def POLL_PURPOSE_def SIGNING_CONTEXTS_def)

lemma length_poll_tuple:
  assumes "length runtime = 64" "length nonce = 32" "length organizer = 64"
  shows "length (tuple_bytes (poll_tuple runtime nonce organizer m tc maximum))
    = POLL_BODY_OVERHEAD + length (manifest_bytes m)"
  using assms
  by (simp add: length_tuple_bytes poll_tuple_def POLL_BODY_OVERHEAD_def PUBLIC_KEY_BYTES_def
      label_item_def raw_variable_def)

lemma flat_label_item:
  assumes "printable_ascii bs" "length bs + 4 < usize_bound"
  shows "flat_item l (label_item bs)"
  using assms by (simp add: label_item_def)

lemma flat_poll_tuple:
  assumes "length runtime = 64" "length nonce = 32" "length organizer = 64"
    and "length (manifest_bytes m) + 4 \<le> maximum_item_byte_length l" "64 \<le> maximum_item_byte_length l"
  shows "flat_tuple l (poll_tuple runtime nonce organizer m tc maximum)"
proof -
  have "flat_item l (label_item POLL_PURPOSE)"
    using poll_purpose by (intro flat_label_item) (simp_all add: usize_bound_def)
  with assms poll_purpose(1) show ?thesis
    by (simp add: flat_tuple_def poll_tuple_def raw_variable_def) (simp add: label_item_def)
qed

lemma draft_body_valid:
  assumes m: "valid_manifest E TABLE (draft_manifest draft)"
    and len: "length runtime = 64" "length nonce = 32" "length organizer = 64"
  shows "draft_body E draft runtime nonce organizer =
    (if POLL_BODY_OVERHEAD + length (manifest_bytes (draft_manifest draft)) \<le> MAXIMUM_POLL_BYTES
     then Inr (tuple_bytes (poll_tuple runtime nonce organizer (draft_manifest draft)
                 (draft_top_count draft) (draft_maximum_participants draft)))
     else Inl Shape)"
proof -
  let ?bs = "manifest_bytes (draft_manifest draft)"
  let ?t = "poll_tuple runtime nonce organizer (draft_manifest draft)
                 (draft_top_count draft) (draft_maximum_participants draft)"
  have o: "POLL_BODY_OVERHEAD = 250"
    by (simp add: POLL_BODY_OVERHEAD_def poll_purpose(1) PUBLIC_KEY_BYTES_def)
  have enc: "manifest_encode E (draft_manifest draft)
      = (if length ?bs \<le> maximum_tuple_byte_length default_limits then Some ?bs else None)"
    using manifest_encode_valid [OF m] by (cases "manifest_encode E (draft_manifest draft)") auto
  show ?thesis
  proof (cases "POLL_BODY_OVERHEAD + length ?bs \<le> MAXIMUM_POLL_BYTES")
    case False
    with enc o show ?thesis
      by (auto simp: draft_body_def MAXIMUM_POLL_BYTES_def)
  next
    case True
    then have small: "length ?bs + 4 \<le> maximum_item_byte_length default_limits"
      using o by (simp add: MAXIMUM_POLL_BYTES_def default_limits_def)
    have "flat_tuple default_limits ?t"
      using len small by (intro flat_poll_tuple) (simp_all add: default_limits_def)
    then have "tuple_encode E ?t = Some (tuple_bytes ?t)"
      using True o length_poll_tuple [OF len]
      by (intro tuple_encode_flat) (simp_all add: poll_tuple_def default_limits_def MAXIMUM_POLL_BYTES_def)
    then have "tuple_encode E \<lparr>schema_identifier = 1,
        items = [label_item POLL_PURPOSE, hash512 runtime,
               \<lparr>item_type = RawBytes, canonical_bytes = nonce\<rparr>,
               \<lparr>item_type = RawBytes, canonical_bytes = organizer\<rparr>,
               raw_variable ?bs, unsigned16 (draft_top_count draft),
               unsigned16 (draft_maximum_participants draft)]\<rparr> = Some (tuple_bytes ?t)"
      by (simp add: poll_tuple_def)
    moreover have "nonempty_ascii POLL_PURPOSE = Some (label_item POLL_PURPOSE)"
      using poll_purpose by (simp add: nonempty_ascii_Some_iff default_limits_def)
    moreover have "fixed_bytes nonce = Some \<lparr>item_type = RawBytes, canonical_bytes = nonce\<rparr>"
      "fixed_bytes organizer = Some \<lparr>item_type = RawBytes, canonical_bytes = organizer\<rparr>"
      using len by (simp_all add: fixed_bytes_Some_iff default_limits_def)
    moreover have "variable_bytes ?bs = Some (raw_variable ?bs)"
      using small by (simp add: variable_bytes_Some_iff raw_variable_def)
    ultimately show ?thesis
      using True o length_poll_tuple [OF len] enc
      by (simp add: draft_body_def MAXIMUM_POLL_BYTES_def default_limits_def)
  qed
qed

lemma poll_identity_of_value:
  assumes "length body + 4 \<le> maximum_item_byte_length default_limits"
  shows "poll_identity_of E body
    = Inr (shake256 E (identity_preimage (ascii_bytes ''sealed-lattice/poll-identity'') body))"
proof -
  let ?d = "ascii_bytes ''sealed-lattice/poll-identity''"
  have label: "labelled ?d" by (simp add: labelled_def ascii_bytes_def printable_ascii_def)
  have item: "variable_bytes body = Some (raw_variable body)"
    using assms by (simp add: variable_bytes_Some_iff raw_variable_def)
  then have "poll_identity_of E body = identity E ?d body"
    using identity_is_tuple_hash [OF label item, of E] by (simp add: poll_identity_of_def)
  moreover have "length body + 4 < u32_bound"
    using assms limits_below_bounds(1) by linarith
  ultimately show ?thesis using identity_value [OF label] by simp
qed

section \<open>What verification accepts\<close>

definition poll_of_body :: "bytes \<Rightarrow> verified_poll \<Rightarrow> bytes \<Rightarrow> bool" where
  "poll_of_body TABLE poll body \<longleftrightarrow>
     (\<exists>nonce. length nonce = 32
        \<and> body = tuple_bytes (poll_tuple (poll_runtime poll) nonce (poll_organizer poll)
            (poll_manifest poll) (poll_top_count poll) (poll_maximum_participants poll)))"

definition valid_poll :: "externals \<Rightarrow> bytes \<Rightarrow> verified_poll \<Rightarrow> bool" where
  "valid_poll E TABLE poll \<longleftrightarrow>
     length (poll_organizer poll) = 64
     \<and> valid_manifest E TABLE (poll_manifest poll)
     \<and> valid_fields TABLE (poll_manifest poll) (poll_top_count poll)
         (poll_maximum_participants poll)"

lemma label_item_read:
  "item_type item = Ascii \<Longrightarrow> variable_value_bytes item = Some v \<Longrightarrow> item = label_item v"
  by (cases item) (auto simp: variable_value_bytes_Some_iff label_item_def
      dest: decode_variable_value_sound)

lemma raw_item_read:
  "item_type item = RawBytes \<Longrightarrow> variable_value_bytes item = Some v \<Longrightarrow> item = raw_variable v"
  by (cases item) (auto simp: variable_value_bytes_Some_iff raw_variable_def
      dest: decode_variable_value_sound)

lemma unsigned16_read:
  "item_type item = Unsigned16 \<Longrightarrow> length (canonical_bytes item) = 2 \<Longrightarrow>
   item = unsigned16 (u16_from_le_bytes (canonical_bytes item))"
  by (cases item) (auto simp: unsigned16_def u16_to_from_le_bytes)

theorem verify_poll_sound:
  assumes "verify_poll E TABLE ident runtime body signature = Inr poll"
  shows "poll_identity poll = ident \<and> poll_runtime poll = runtime
    \<and> valid_poll E TABLE poll \<and> poll_of_body TABLE poll body
    \<and> length body \<le> MAXIMUM_POLL_BYTES
    \<and> poll_identity_of E body = Inr ident
    \<and> verify_context E (poll_organizer poll) POLL_SIGNATURE_CONTEXT ident signature"
proof -
  from assms obtain t v where len: "length body \<le> MAXIMUM_POLL_BYTES"
    and ident: "poll_identity_of E body = Inr ident"
    and dec: "tuple_decode E body poll_limits = Some t" and hdr: "has_header t 7"
    and t0: "item_type (items t ! 0) = Ascii" "variable_value_bytes (items t ! 0) = Some POLL_PURPOSE"
    and t1: "item_type (items t ! 1) = Hash512" "canonical_bytes (items t ! 1) = runtime"
    and t2: "item_type (items t ! 2) = RawBytes" "length (canonical_bytes (items t ! 2)) = 32"
    and t3: "item_type (items t ! 3) = RawBytes" "length (canonical_bytes (items t ! 3)) = 64"
      "poll_organizer poll = canonical_bytes (items t ! 3)"
    and t4: "item_type (items t ! 4) = RawBytes" "variable_value_bytes (items t ! 4) = Some v"
    and m: "manifest_decode E TABLE v default_limits = Some (poll_manifest poll)"
    and t5: "item_type (items t ! 5) = Unsigned16" "length (canonical_bytes (items t ! 5)) = 2"
      "poll_top_count poll = u16_from_le_bytes (canonical_bytes (items t ! 5))"
    and t6: "item_type (items t ! 6) = Unsigned16" "length (canonical_bytes (items t ! 6)) = 2"
      "poll_maximum_participants poll = u16_from_le_bytes (canonical_bytes (items t ! 6))"
    and fields: "validate_fields TABLE (poll_manifest poll) (poll_top_count poll)
        (poll_maximum_participants poll) = Inr ()"
    and sig: "verify_context E (poll_organizer poll) POLL_SIGNATURE_CONTEXT ident signature"
    and fixed: "poll_identity poll = ident" "poll_runtime poll = runtime"
    by (auto simp: verify_poll_def and_then_Inr_iff try_array_def Let_def PUBLIC_KEY_BYTES_def
        split: if_splits)
  note mf = manifest_decode_sound [OF m]
  have "items t = [items t ! 0, items t ! 1, items t ! 2, items t ! 3, items t ! 4,
      items t ! 5, items t ! 6]"
    using nth_expansion [of "items t" 7] hdr
    by (simp add: has_header_def upt_rec eval_nat_numeral)
  also have "\<dots> = [label_item POLL_PURPOSE, hash512 runtime, items t ! 2, items t ! 3,
      raw_variable (manifest_bytes (poll_manifest poll)),
      unsigned16 (poll_top_count poll), unsigned16 (poll_maximum_participants poll)]"
    using label_item_read [OF t0] raw_item_read [OF t4] unsigned16_read [OF t5(1,2)]
      unsigned16_read [OF t6(1,2)] t1 mf t5(3) t6(3)
    by (cases "items t ! 1") (simp add: hash512_def)
  finally have "t = poll_tuple runtime (canonical_bytes (items t ! 2)) (poll_organizer poll)
      (poll_manifest poll) (poll_top_count poll) (poll_maximum_participants poll)"
    using hdr t2(1) t3(1,3)
    by (cases t, cases "items t ! 2", cases "items t ! 3")
      (simp add: poll_tuple_def has_header_def CANONICAL_TUPLE_SCHEMA_IDENTIFIER_def)
  then have "poll_of_body TABLE poll body"
    using tuple_decode_sound [OF dec] t2(2) fixed(2) unfolding poll_of_body_def by metis
  with len ident sig fixed mf fields t3 show ?thesis
    by (simp add: valid_poll_def valid_fields_def)
qed

text \<open>
  Every body that the draft of a valid poll produces, signed by its organizer's key, is
  accepted with the fields of the draft.
\<close>

theorem verify_poll_complete:
  assumes m: "valid_manifest E TABLE m" and fields: "valid_fields TABLE m tc maximum"
    and lens: "length runtime = 64" "length nonce = 32" "length organizer = 64"
    and body: "draft_body E \<lparr>draft_manifest = m, draft_top_count = tc,
        draft_maximum_participants = maximum\<rparr> runtime nonce organizer = Inr body"
    and ident: "poll_identity_of E body = Inr ident"
    and sig: "verify_context E organizer POLL_SIGNATURE_CONTEXT ident signature"
      "length signature = SIGNATURE_BYTES"
  shows "verify_poll E TABLE ident runtime body signature
    = Inr \<lparr>poll_identity = ident, poll_runtime = runtime, poll_organizer = organizer,
        poll_manifest = m, poll_top_count = tc, poll_maximum_participants = maximum\<rparr>"
proof -
  let ?t = "poll_tuple runtime nonce organizer m tc maximum"
  from body draft_body_valid [of E TABLE "\<lparr>draft_manifest = m, draft_top_count = tc,
        draft_maximum_participants = maximum\<rparr>"] m lens
  have fits: "POLL_BODY_OVERHEAD + length (manifest_bytes m) \<le> MAXIMUM_POLL_BYTES"
    and bs: "body = tuple_bytes ?t" by (auto split: if_splits)
  have o: "POLL_BODY_OVERHEAD = 250"
    by (simp add: POLL_BODY_OVERHEAD_def poll_purpose(1) PUBLIC_KEY_BYTES_def)
  have len: "length (tuple_bytes ?t) = POLL_BODY_OVERHEAD + length (manifest_bytes m)"
    by (rule length_poll_tuple [OF lens])
  have small: "length (manifest_bytes m) + 250 \<le> 1048576"
    using fits o by (simp add: MAXIMUM_POLL_BYTES_def)
  have il: "items_length (items ?t) \<le> length (tuple_bytes ?t)" by (simp add: length_tuple_bytes)
  have n: "length (items ?t) = 7" by (simp add: poll_tuple_def)
  have flat: "flat_tuple poll_limits ?t"
    using lens small by (intro flat_poll_tuple) (simp_all add: poll_limits_def MAXIMUM_POLL_BYTES_def)
  have dec: "tuple_decode E (tuple_bytes ?t) poll_limits = Some ?t"
  proof (rule tuple_decode_flat [OF flat])
    show "32 * length (items ?t) + items_length (items ?t)
        \<le> maximum_cumulative_allocation_byte_length poll_limits"
      using il n len o small by (simp add: poll_limits_def MAXIMUM_POLL_BYTES_def)
  qed (use n len o small in
      \<open>simp_all add: poll_limits_def MAXIMUM_POLL_BYTES_def u32_bound_def usize_bound_def\<close>)
  have man: "manifest_decode E TABLE (manifest_bytes m) default_limits = Some m"
    using small by (intro manifest_roundtrip [OF m]) (simp add: default_limits_def)
  have "variable_value_bytes (label_item POLL_PURPOSE) = Some POLL_PURPOSE"
    unfolding label_item_def variable_value_bytes_Some_iff
    using decode_variable_value_encoded [of POLL_PURPOSE] poll_purpose(1)
    by (simp add: usize_bound_def)
  moreover have "variable_value_bytes (raw_variable (manifest_bytes m)) = Some (manifest_bytes m)"
    unfolding raw_variable_def variable_value_bytes_Some_iff
    using decode_variable_value_encoded [of "manifest_bytes m"] small by (simp add: usize_bound_def)
  moreover have "item_type (label_item POLL_PURPOSE) = Ascii"
    "item_type (raw_variable (manifest_bytes m)) = RawBytes"
    by (simp_all add: label_item_def raw_variable_def)
  ultimately show ?thesis
    using ident sig lens dec man fields fits len
    unfolding bs verify_poll_def
    by (simp add: Let_def has_header_def poll_tuple_def CANONICAL_TUPLE_SCHEMA_IDENTIFIER_def
        try_array_def PUBLIC_KEY_BYTES_def valid_fields_def)
qed

section \<open>Properties\<close>

text \<open>
  An accepted poll is what its organizer defined: the body is the canonical tuple of exactly
  the returned fields, its identity is the expected one, the fields are supported, and the
  organizer's key verifies the signature over the identity.
\<close>

theorem accepted_poll_is_its_body:
  assumes "verify_poll E TABLE ident runtime body signature = Inr poll"
  shows "poll_identity poll = ident \<and> poll_runtime poll = runtime
    \<and> valid_poll E TABLE poll \<and> poll_of_body TABLE poll body
    \<and> poll_identity_of E body = Inr ident
    \<and> verify_context E (poll_organizer poll) POLL_SIGNATURE_CONTEXT ident signature"
  using verify_poll_sound [OF assms] by blast

text \<open>
  Source families: every supported roster size up to the poll's maximum has exactly one
  family among those of the poll, and the lookup finds its position.
\<close>

theorem every_roster_has_one_source_family:
  assumes "fhe_key_families TABLE poll = Some fs"
    and "profile_new TABLE n (option_count (poll_manifest poll)) = Some p"
    and "n \<le> unat (poll_maximum_participants poll)"
  shows "(\<exists>!i. i < length fs \<and> same_fhe_key_family (fs ! i) p)
    \<and> (\<exists>i. fhe_key_family_index TABLE poll p = Inr i \<and> i < length fs
         \<and> same_fhe_key_family (fs ! i) p)"
  using fhe_key_family_index_unique [OF assms] by blast

text \<open>A concrete poll: three options, five participants, signed by the key of the empty seed.\<close>

definition sample_manifest :: manifest where
  "sample_manifest =
     \<lparr> display_title = [112],
       manifest_options = map (\<lambda>i. \<lparr>option_index = word_of_nat i, option_identifier = [97 + word_of_nat i],
                                   display_label = [65 + i]\<rparr>) [0 ..< 3] \<rparr>"

definition sample_organizer :: bytes where
  "sample_organizer = fst (keypair_from_seed sample_externals [])"

definition sample_body :: bytes where
  "sample_body = tuple_bytes (poll_tuple (replicate 64 1) (replicate 32 2) sample_organizer
     sample_manifest 2 5)"

definition sample_poll :: verified_poll where
  "sample_poll =
     \<lparr> poll_identity = shake256 sample_externals
         (identity_preimage (ascii_bytes ''sealed-lattice/poll-identity'') sample_body),
       poll_runtime = replicate 64 1, poll_organizer = sample_organizer,
       poll_manifest = sample_manifest, poll_top_count = 2, poll_maximum_participants = 5 \<rparr>"

definition sample_signature :: bytes where
  "sample_signature = the (snd (signing_key_sign sample_externals (poll_identity sample_poll)
     POLL_SIGNATURE_CONTEXT (snd (keypair_from_seed sample_externals []))))"

lemma sample_table:
  "table sample_TABLE = Some \<lparr>table_share = [1, 16], table_auxiliary = [1, 48],
     table_fixed_sample_bits = 60, table_participants = \<lparr>range_start = 5, range_end = 5\<rparr>,
     table_options = \<lparr>range_start = 3, range_end = 3\<rparr>, table_records = replicate 30 0\<rparr>"
  by code_simp

lemma sample_manifest_valid:
  "valid_manifest sample_externals sample_TABLE sample_manifest"
  "valid_fields sample_TABLE sample_manifest 2 5"
  "length (manifest_bytes sample_manifest) \<le> 300"
proof -
  have opts: "manifest_options sample_manifest =
      [\<lparr>option_index = 0, option_identifier = [97], display_label = [65]\<rparr>,
       \<lparr>option_index = 1, option_identifier = [98], display_label = [66]\<rparr>,
       \<lparr>option_index = 2, option_identifier = [99], display_label = [67]\<rparr>]"
    by (simp add: sample_manifest_def upt_rec)
  have range: "option_range sample_TABLE = Some \<lparr>range_start = 3, range_end = 3\<rparr>"
    "participant_range sample_TABLE = Some \<lparr>range_start = 5, range_end = 5\<rparr>"
    by (simp_all add: option_range_def participant_range_def sample_table)
  have one: "text_bytes [c] = [byte_of c]" if "c < 128" for c
    using that by (simp add: text_bytes_def utf8_encode_def utf8_char_def)
  have valid: "valid_text sample_externals [c]" if "64 < c" "c < 128" for c
    using that one [OF that(2)]
    by (simp add: valid_text_def stabilized_def sample_externals_def is_scalar_def
        validate_assigned_scalar_values_def is_noncharacter_def is_private_use_def default_limits_def)
  have work: "tuples_work (map option_tuple (manifest_options sample_manifest)) = 108"
    using one [of 65] one [of 66] one [of 67]
    by (simp add: opts tuple_work_def length_tuple_bytes option_tuple_def label_item_def text_item_def)
  show "valid_manifest sample_externals sample_TABLE sample_manifest"
    unfolding valid_manifest_def length_options_item work
    using valid [of 112] valid [of 65] valid [of 66] valid [of 67]
    by (simp add: opts range range_contains_def option_count_def valid_option_def printable_ascii_def
        default_limits_def upt_rec) (simp add: sample_manifest_def)
  show "valid_fields sample_TABLE sample_manifest 2 5"
    by (simp add: valid_fields_def validate_fields_def range range_contains_def option_count_def opts)
  have "display_title sample_manifest = [112]" by (simp add: sample_manifest_def)
  then show "length (manifest_bytes sample_manifest) \<le> 300"
    using one [of 112]
    by (simp add: manifest_bytes_def length_tuple_bytes manifest_tuple_def length_options_item work
        text_item_def)
qed

lemma sample_organizer_length: "length sample_organizer = 64"
  using length_public_key [OF sample_permutation, of "[]"] signer_new_ok [of sample_externals "[]"]
  by (simp add: sample_organizer_def keypair_from_seed_def Let_def)

lemma sample_poll_accepted:
  "verify_poll sample_externals sample_TABLE (poll_identity sample_poll) (replicate 64 1)
     sample_body sample_signature = Inr sample_poll"
proof -
  let ?d = "\<lparr>draft_manifest = sample_manifest, draft_top_count = 2, draft_maximum_participants = 5\<rparr>"
  obtain signature where sig: "sample_signature = signature" "length signature = SIGNATURE_BYTES"
    "verify_context sample_externals sample_organizer POLL_SIGNATURE_CONTEXT
      (poll_identity sample_poll) signature"
    using fresh_key_signs [OF sample_permutation poll_context, of "[]" sample_organizer
        "snd (keypair_from_seed sample_externals [])" "poll_identity sample_poll"]
    by (auto simp: sample_signature_def sample_organizer_def)
  note org = sample_organizer_length
  have o: "POLL_BODY_OVERHEAD = 250"
    by (simp add: POLL_BODY_OVERHEAD_def poll_purpose(1) PUBLIC_KEY_BYTES_def)
  have body: "draft_body sample_externals ?d (replicate 64 1) (replicate 32 2) sample_organizer
      = Inr sample_body"
    using draft_body_valid [of sample_externals sample_TABLE ?d] sample_manifest_valid org o
    by (simp add: sample_body_def MAXIMUM_POLL_BYTES_def)
  have len: "length sample_body \<le> 550"
    using length_poll_tuple [OF _ _ org] sample_manifest_valid(3) o by (simp add: sample_body_def)
  have ident: "poll_identity_of sample_externals sample_body = Inr (poll_identity sample_poll)"
    using len by (subst poll_identity_of_value) (simp_all add: default_limits_def sample_poll_def)
  show ?thesis
    using verify_poll_complete [OF sample_manifest_valid(1,2) _ _ org body ident] sig
    by (simp add: sample_poll_def)
qed

theorem accepted_poll_is_its_body_witness:
  "valid_poll sample_externals sample_TABLE sample_poll
   \<and> poll_of_body sample_TABLE sample_poll sample_body
   \<and> verify_context sample_externals (poll_organizer sample_poll) POLL_SIGNATURE_CONTEXT
       (poll_identity sample_poll) sample_signature"
  using accepted_poll_is_its_body [OF sample_poll_accepted] by blast

lemma sample_families:
  "\<exists>p. profile_new sample_TABLE 5 3 = Some p \<and> fhe_key_families sample_TABLE sample_poll = Some [p]
    \<and> maximum_fhe_key_family_count sample_TABLE = Some 1"
  by (simp add: profile_new_def sample_table range_contains_def Let_def fhe_key_families_def
      families_def participant_range_def option_range_def sample_poll_def sample_manifest_def
      option_count_def maximum_fhe_key_family_count_def range_list_def upt_rec)

theorem every_roster_has_one_source_family_witness:
  "\<exists>p. \<exists>!i. i < length [p] \<and> same_fhe_key_family ([p] ! i) p"
proof -
  obtain p where p: "profile_new sample_TABLE 5 3 = Some p"
    "fhe_key_families sample_TABLE sample_poll = Some [p]"
    using sample_families by blast
  have "option_count (poll_manifest sample_poll) = 3"
    "5 \<le> unat (poll_maximum_participants sample_poll)"
    by (simp_all add: sample_poll_def sample_manifest_def option_count_def)
  with every_roster_has_one_source_family [OF p(2), of 5 p] p(1) show ?thesis by auto
qed

end
