(* ===== verification/Registration_Header.thy ===== *)
theory Registration_Header
  imports Poll
begin

text \<open>
  Usernames and registration headers (\<open>protocol-foundations/src/foundation.rs\<close>), the
  identity of a participant (\<open>foundation/participant-identity.rs\<close>), and the digest that a
  registration signs (\<open>BodyDigest\<close>, \<open>checked_header\<close> and
  \<open>verify_registration_signature\<close> of \<open>lib.rs\<close>).
\<close>

section \<open>Usernames and participant identities\<close>

definition MAXIMUM_USERNAME_BYTES :: nat where "MAXIMUM_USERNAME_BYTES = 128"
definition MAXIMUM_USERNAME_INGRESS_BYTES :: nat where "MAXIMUM_USERNAME_INGRESS_BYTES = 512"

definition REGISTRATION_HEADER_PURPOSE :: bytes where
  "REGISTRATION_HEADER_PURPOSE = ascii_bytes ''sealed-lattice/registration-header/v7''"

definition normalize_username :: "externals \<Rightarrow> bytes \<Rightarrow> stabilized_display_text result" where
  "normalize_username E bs =
     (if bs = [] \<or> length bs > MAXIMUM_USERNAME_INGRESS_BYTES then Inl Shape
      else and_then (ok_or Shape (from_ingress_utf8 E bs)) (\<lambda>value.
        if text_bytes value = [] \<or> length (text_bytes value) > MAXIMUM_USERNAME_BYTES
        then Inl Shape else Inr value))"

definition derive_participant_identity :: "externals \<Rightarrow> bytes \<Rightarrow> bytes option" where
  "derive_participant_identity E signing_verification_key = do {
     item \<leftarrow> fixed_bytes signing_verification_key;
     hash_foundation_tuple_512 E
       (ascii_bytes ''sealed-lattice/foundation/participant-identity'') [item] }"

definition lowercase_hexadecimal_digits :: string where
  "lowercase_hexadecimal_digits = ''0123456789abcdef''"

definition to_lowercase_hex :: "bytes \<Rightarrow> string" where
  "to_lowercase_hex bs =
     concat (map (\<lambda>byte. [lowercase_hexadecimal_digits ! unat (drop_bit 4 byte),
                          lowercase_hexadecimal_digits ! unat (byte AND 15)]) bs)"

section \<open>Headers\<close>

record registration_header =
  header_username :: stabilized_display_text
  header_poll :: bytes
  header_signing_public :: bytes
  header_recipient_key_hash :: bytes
  header_source_bindings :: "bytes list"

text \<open>
  \<open>unwrap\<close> of the purpose and of the key item cannot fail; the model answers \<open>Shape\<close> there.
\<close>

definition header_encode :: "externals \<Rightarrow> bytes \<Rightarrow> registration_header \<Rightarrow> bytes result" where
  "header_encode E TABLE h =
     (case maximum_fhe_key_family_count TABLE of
        None \<Rightarrow> Inl Shape
      | Some maximum \<Rightarrow>
        if text_bytes (header_username h) = []
           \<or> length (text_bytes (header_username h)) > MAXIMUM_USERNAME_BYTES
           \<or> header_source_bindings h = []
           \<or> length (header_source_bindings h) > maximum
        then Inl Shape
        else ok_or Shape (do {
          purpose \<leftarrow> nonempty_ascii REGISTRATION_HEADER_PURPOSE;
          key \<leftarrow> fixed_bytes (header_signing_public h);
          username \<leftarrow> display_text_item (header_username h);
          bindings \<leftarrow> hash512_list (header_source_bindings h);
          tuple_encode E \<lparr>schema_identifier = 1,
            items = [purpose, hash512 (header_poll h), key,
                     hash512 (header_recipient_key_hash h), username, bindings]\<rparr> }))"

definition header_maximum_bytes :: "externals \<Rightarrow> bytes \<Rightarrow> nat option" where
  "header_maximum_bytes E TABLE = do {
     maximum \<leftarrow> maximum_fhe_key_family_count TABLE;
     username \<leftarrow> from_ingress_utf8 E (replicate MAXIMUM_USERNAME_BYTES 97);
     (case header_encode E TABLE
        \<lparr>header_username = username, header_poll = replicate 64 0,
         header_signing_public = replicate PUBLIC_KEY_BYTES 0,
         header_recipient_key_hash = replicate 64 0,
         header_source_bindings = replicate maximum (replicate 64 0)\<rparr> of
        Inl _ \<Rightarrow> None
      | Inr encoded \<Rightarrow> Some (length encoded)) }"

definition header_limits :: "nat \<Rightarrow> canonical_decode_limits" where
  "header_limits maximum =
     \<lparr> maximum_tuple_byte_length = 4096,
       maximum_item_count = max 6 maximum,
       maximum_item_byte_length =
         max (max PUBLIC_KEY_BYTES (4 + MAXIMUM_USERNAME_BYTES)) (6 + 64 * maximum),
       maximum_nesting_depth = 0,
       maximum_cumulative_work_byte_length = 16384,
       maximum_cumulative_allocation_byte_length = 8192 \<rparr>"

definition field :: "canonical_item list \<Rightarrow> nat \<Rightarrow> canonical_item_type \<Rightarrow> bytes result" where
  "field its index kind =
     (if item_type (its ! index) \<noteq> kind then Inl Shape
      else Inr (canonical_bytes (its ! index)))"

definition header_decode_prefix ::
  "externals \<Rightarrow> bytes \<Rightarrow> bytes \<Rightarrow> (registration_header \<times> nat) result" where
  "header_decode_prefix E TABLE bs =
     (case maximum_fhe_key_family_count TABLE of
        None \<Rightarrow> Inl Shape
      | Some maximum \<Rightarrow>
        and_then (ok_or Shape (decode_tuple_at E (header_limits maximum) bs
                    (new_budget (header_limits maximum)) 0)) (\<lambda>(tuple, consumed, _).
        if \<not> has_header tuple 6 then Inl Shape
        else let its = items tuple in
        and_then (if item_type (its ! 0) \<noteq> Ascii then Inl Context
                  else ok_or Shape (variable_value_bytes (its ! 0))) (\<lambda>purpose.
        if purpose \<noteq> REGISTRATION_HEADER_PURPOSE then Inl Context
        else
        and_then (and_then (field its 1 Hash512) (try_array 64)) (\<lambda>poll.
        and_then (and_then (field its 2 RawBytes) (try_array PUBLIC_KEY_BYTES)) (\<lambda>signing_public.
        and_then (and_then (field its 3 Hash512) (try_array 64)) (\<lambda>recipient_key_hash.
        if item_type (its ! 4) \<noteq> DisplayText then Inl Shape
        else and_then (ok_or Shape (variable_value_bytes (its ! 4))) (\<lambda>username_bytes.
        if username_bytes = [] \<or> length username_bytes > MAXIMUM_USERNAME_BYTES then Inl Shape
        else and_then (ok_or Shape (from_canonical_utf8 E username_bytes)) (\<lambda>username.
        and_then (field its 5 HomogeneousList) (\<lambda>commitments.
        if length commitments < 6
           \<or> slice 0 2 commitments \<noteq> u16_to_le_bytes (canonical_code Hash512)
        then Inl Shape
        else let count = le_value (slice 2 6 commitments) in
        if count = 0 \<or> count > maximum \<or> length commitments \<noteq> 6 + count * 64 then Inl Shape
        else Inr (\<lparr> header_username = username, header_poll = poll,
                    header_signing_public = signing_public,
                    header_recipient_key_hash = recipient_key_hash,
                    header_source_bindings = chunks_exact 64 (drop 6 commitments) \<rparr>,
                  consumed))))))))))"

section \<open>Body digests\<close>

record body_digest =
  digest_bytes :: bytes
  digest_signing_public :: bytes

definition REGISTRATION_SIGNATURE_CONTEXT :: bytes where
  "REGISTRATION_SIGNATURE_CONTEXT = ascii_bytes ''sealed-lattice/registration''"

definition body_digest_new ::
  "externals \<Rightarrow> bytes \<Rightarrow> registration_header \<Rightarrow> body_digest result" where
  "body_digest_new E TABLE h =
     and_then (header_encode E TABLE h) (\<lambda>encoded.
     and_then (ok_or Shape (do {
       item \<leftarrow> variable_bytes encoded;
       hash_foundation_tuple_512 E (ascii_bytes ''sealed-lattice/registration-body'') [item] }))
     (\<lambda>d. Inr \<lparr>digest_bytes = d, digest_signing_public = header_signing_public h\<rparr>))"

definition body_digest_from_header ::
  "externals \<Rightarrow> bytes \<Rightarrow> bytes \<Rightarrow> bytes \<Rightarrow> body_digest result" where
  "body_digest_from_header E TABLE bs expected_poll =
     and_then (header_decode_prefix E TABLE bs) (\<lambda>(h, consumed).
       if consumed \<noteq> length bs then Inl Shape
       else if header_poll h \<noteq> expected_poll then Inl Context
       else body_digest_new E TABLE h)"

definition checked_header ::
  "externals \<Rightarrow> bytes \<Rightarrow> bytes \<Rightarrow> verified_poll \<Rightarrow> registration_header result" where
  "checked_header E TABLE bs poll =
     and_then (header_decode_prefix E TABLE bs) (\<lambda>(h, consumed).
       if consumed \<noteq> length bs then Inl Shape
       else case fhe_key_families TABLE poll of
              None \<Rightarrow> Inl Context
            | Some fs \<Rightarrow>
                if header_poll h \<noteq> poll_identity poll
                   \<or> length (header_source_bindings h) \<noteq> length fs
                then Inl Context else Inr h)"

definition verify_registration_signature ::
  "externals \<Rightarrow> body_digest \<Rightarrow> bytes \<Rightarrow> bool" where
  "verify_registration_signature E body signature \<longleftrightarrow>
     length signature = SIGNATURE_BYTES
     \<and> verify_context E (digest_signing_public body) REGISTRATION_SIGNATURE_CONTEXT
         (digest_bytes body) signature"

section \<open>Headers are an exact prefix code\<close>

definition header_tuple :: "registration_header \<Rightarrow> canonical_tuple" where
  "header_tuple h = \<lparr>schema_identifier = 1,
     items = [label_item REGISTRATION_HEADER_PURPOSE, hash512 (header_poll h),
              \<lparr>item_type = RawBytes, canonical_bytes = header_signing_public h\<rparr>,
              hash512 (header_recipient_key_hash h), text_item (header_username h),
              \<lparr>item_type = HomogeneousList, canonical_bytes =
                 u16_to_le_bytes 6 @ le_bytes 4 (length (header_source_bindings h))
                   @ concat (header_source_bindings h)\<rparr>]\<rparr>"

definition valid_header :: "externals \<Rightarrow> bytes \<Rightarrow> registration_header \<Rightarrow> bool" where
  "valid_header E TABLE h \<longleftrightarrow>
     stabilized E (header_username h) \<and> header_username h \<noteq> []
     \<and> length (text_bytes (header_username h)) \<le> MAXIMUM_USERNAME_BYTES
     \<and> length (header_poll h) = 64 \<and> length (header_signing_public h) = 64
     \<and> length (header_recipient_key_hash h) = 64
     \<and> header_source_bindings h \<noteq> []
     \<and> (\<forall>b \<in> set (header_source_bindings h). length b = 64)
     \<and> (\<exists>maximum. maximum_fhe_key_family_count TABLE = Some maximum
          \<and> length (header_source_bindings h) \<le> maximum)"

lemma header_purpose:
  "length REGISTRATION_HEADER_PURPOSE = 37" "printable_ascii REGISTRATION_HEADER_PURPOSE"
  "REGISTRATION_HEADER_PURPOSE \<noteq> []"
  by (simp_all add: REGISTRATION_HEADER_PURPOSE_def ascii_bytes_def printable_ascii_def)

lemma length_header_tuple:
  assumes "valid_header E TABLE h"
  shows "length (tuple_bytes (header_tuple h))
    = 285 + length (text_bytes (header_username h)) + 64 * length (header_source_bindings h)"
  using assms
  by (simp add: length_tuple_bytes header_tuple_def valid_header_def label_item_def text_item_def
      header_purpose(1) length_concat_const [where n = 64])

text \<open>
  The family count is a count of roster sizes that bytes bound, so a header's binding list is
  within every limit of the codec.
\<close>

lemma families_loop_length:
  "families_loop TABLE opts ns fs = Some gs \<Longrightarrow> length gs \<le> length fs + length ns"
proof (induction ns arbitrary: fs)
  case Nil
  then show ?case by simp
next
  case (Cons n ns)
  from Cons.prems obtain p where
    "families_loop TABLE opts ns (if \<exists>previous \<in> set fs. same_fhe_key_family previous p
      then fs else fs @ [p]) = Some gs"
    by (auto split: option.splits)
  from Cons.IH [OF this] show ?case by (auto split: if_splits)
qed

lemma maximum_fhe_key_family_count_bound:
  assumes "maximum_fhe_key_family_count TABLE = Some k"
  shows "k \<le> 256"
proof -
  from assms obtain obs pbs counts where p: "participant_range TABLE = Some pbs"
    and c: "collect (map (\<lambda>opts. map_option length (families TABLE (range_end pbs) opts))
      (range_list obs)) = Some counts"
    and k: "counts \<noteq> []" "k = Max (set counts)"
    by (auto simp: maximum_fhe_key_family_count_def Option.bind_eq_Some_conv split: if_splits)
  have "range_end pbs < 256"
    using p by (auto simp: participant_range_def table_def Let_def unat_byte_bound split: if_splits)
  have "x \<le> 256" if "x \<in> set counts" for x
  proof -
    have "Some x \<in> set (map (\<lambda>opts. map_option length (families TABLE (range_end pbs) opts))
        (range_list obs))"
      using that c unfolding collect_Some_iff by simp
    then obtain opts where "map_option length (families TABLE (range_end pbs) opts) = Some x"
      by (metis (no_types, lifting) ex_map_conv)
    then obtain fs where "families TABLE (range_end pbs) opts = Some fs" "x = length fs" by auto
    then have "x \<le> length [range_start pbs ..< range_end pbs + 1]"
      using families_loop_length p by (fastforce simp: families_def)
    with \<open>range_end pbs < 256\<close> show ?thesis by (simp only: length_upt)
  qed
  with k show ?thesis by simp
qed

lemma plain_header_items:
  assumes h: "valid_header E TABLE h"
    and "length (header_source_bindings h) \<le> maximum_item_count l"
    and "132 \<le> maximum_item_byte_length l"
    and "6 + 64 * length (header_source_bindings h) \<le> maximum_item_byte_length l"
  shows "plain_items E l (items (header_tuple h))"
proof -
  have "flat_item l (label_item REGISTRATION_HEADER_PURPOSE)"
    using header_purpose by (intro flat_label_item) (simp_all add: usize_bound_def)
  moreover have "valid_text E (header_username h)"
    using h by (simp add: valid_header_def valid_text_def MAXIMUM_USERNAME_BYTES_def default_limits_def)
  then have "plain_item E l (text_item (header_username h))" by (rule plain_text_item)
  moreover have "length (header_source_bindings h) < 4096 * 4096"
    using h maximum_fhe_key_family_count_bound [of TABLE] by (auto simp: valid_header_def)
  then have "flat_item l \<lparr>item_type = HomogeneousList, canonical_bytes =
          u16_to_le_bytes 6 @ le_bytes 4 (length (header_source_bindings h))
            @ concat (header_source_bindings h)\<rparr>"
    using h assms(2) by (intro flat_hash512_list) (simp_all add: valid_header_def)
  ultimately show ?thesis
    using h assms(3,4) header_purpose(1)
    by (simp add: header_tuple_def plain_item_def valid_header_def MAXIMUM_USERNAME_BYTES_def
        length_concat_const [where n = 64])
      (simp add: label_item_def text_item_def)
qed

lemma header_encode_valid:
  assumes "valid_header E TABLE h"
  shows "header_encode E TABLE h = Inr (tuple_bytes (header_tuple h))"
proof -
  let ?n = "length (header_source_bindings h)"
  obtain k where k: "maximum_fhe_key_family_count TABLE = Some k" "?n \<le> k"
    using assms by (auto simp: valid_header_def)
  have n: "?n \<le> 256" using k maximum_fhe_key_family_count_bound [of TABLE k] by linarith
  have u: "length (text_bytes (header_username h)) \<le> 128"
    using assms by (simp add: valid_header_def MAXIMUM_USERNAME_BYTES_def)
  have "readable E default_limits (header_tuple h)"
    unfolding readable_def
    using plain_header_items [OF assms, of default_limits] n
    by (simp add: default_limits_def) (simp add: header_tuple_def)
  moreover have "length (tuple_bytes (header_tuple h)) \<le> maximum_tuple_byte_length default_limits"
    unfolding length_header_tuple [OF assms] using n u by (simp add: default_limits_def)
  ultimately have enc: "tuple_encode E (header_tuple h) = Some (tuple_bytes (header_tuple h))"
    by (rule tuple_encode_plain)
  have "nonempty_ascii REGISTRATION_HEADER_PURPOSE = Some (label_item REGISTRATION_HEADER_PURPOSE)"
    using header_purpose by (simp add: nonempty_ascii_Some_iff default_limits_def)
  moreover have "fixed_bytes (header_signing_public h)
      = Some \<lparr>item_type = RawBytes, canonical_bytes = header_signing_public h\<rparr>"
    using assms by (simp add: fixed_bytes_Some_iff valid_header_def default_limits_def)
  moreover have "display_text_item (header_username h) = Some (text_item (header_username h))"
    using u by (simp add: display_text_item_Some_iff default_limits_def)
  moreover have "hash512_list (header_source_bindings h) = Some \<lparr>item_type = HomogeneousList,
      canonical_bytes = u16_to_le_bytes 6 @ le_bytes 4 ?n @ concat (header_source_bindings h)\<rparr>"
    using n assms hash512_list_Some_iff [of "header_source_bindings h"]
    by (simp add: valid_header_def default_limits_def)
  ultimately show ?thesis
    using enc k(1) k(2) assms u
    by (simp add: header_encode_def valid_header_def header_tuple_def MAXIMUM_USERNAME_BYTES_def)
qed

theorem header_roundtrip:
  assumes h: "valid_header E TABLE h"
    and len: "length (tuple_bytes (header_tuple h) @ rest) \<le> 4096"
  shows "header_decode_prefix E TABLE (tuple_bytes (header_tuple h) @ rest)
    = Inr (h, length (tuple_bytes (header_tuple h)))"
proof -
  let ?t = "header_tuple h" and ?n = "length (header_source_bindings h)"
  obtain k where k: "maximum_fhe_key_family_count TABLE = Some k" "?n \<le> k"
    using h by (auto simp: valid_header_def)
  have k256: "k \<le> 256" using k(1) by (rule maximum_fhe_key_family_count_bound)
  have n6: "length (items ?t) = 6" by (simp add: header_tuple_def)
  have readable: "readable E (header_limits k) ?t"
    unfolding readable_def
    using plain_header_items [OF h, of "header_limits k"] k(2) n6
    by (simp add: header_limits_def MAXIMUM_USERNAME_BYTES_def PUBLIC_KEY_BYTES_def)
  have limits: "word_limits (header_limits k)" "admitted_depth (header_limits k) 0"
    using k256 by (simp_all add: word_limits_def admitted_depth_def header_limits_def
        MAXIMUM_USERNAME_BYTES_def PUBLIC_KEY_BYTES_def u32_bound_def usize_bound_def)
  have il: "items_length (items ?t) \<le> 4054" "texts_cost (items ?t) \<le> 128"
  proof -
    show "items_length (items ?t) \<le> 4054"
      using len n6 by (simp add: length_tuple_bytes)
    show "texts_cost (items ?t) \<le> 128"
      using h by (simp add: header_tuple_def text_cost_def text_item_def label_item_def hash512_def
          valid_header_def MAXIMUM_USERNAME_BYTES_def)
  qed
  have "tuple_work ?t \<le> maximum_cumulative_work_byte_length (header_limits k)"
    "tuple_allocation ?t \<le> maximum_cumulative_allocation_byte_length (header_limits k)"
    using len il n6 by (simp_all add: tuple_work_def tuple_allocation_def header_limits_def)
  then obtain b where b: "new_budget (header_limits k)
      = budget_plus b (tuple_work ?t + 0) (tuple_allocation ?t + 0)"
    using new_budget_split by fastforce
  have dec: "decode_tuple_at E (header_limits k) (tuple_bytes ?t @ rest)
      (new_budget (header_limits k)) 0
      = Some (?t, length (tuple_bytes ?t), budget_plus b 0 0)"
    unfolding b using len by (intro decode_plain_tuple [OF readable limits(2,1)]) (simp add: header_limits_def)
  have "variable_value_bytes (label_item REGISTRATION_HEADER_PURPOSE)
      = Some REGISTRATION_HEADER_PURPOSE"
    unfolding label_item_def variable_value_bytes_Some_iff
    using decode_variable_value_encoded [of REGISTRATION_HEADER_PURPOSE] header_purpose(1)
    by (simp add: usize_bound_def)
  moreover have "variable_value_bytes (text_item (header_username h))
      = Some (text_bytes (header_username h))"
    unfolding text_item_def variable_value_bytes_Some_iff
    using decode_variable_value_encoded [of "text_bytes (header_username h)"] h
    by (simp add: usize_bound_def valid_header_def MAXIMUM_USERNAME_BYTES_def)
  moreover have "item_type (label_item REGISTRATION_HEADER_PURPOSE) = Ascii"
    "item_type (text_item (header_username h)) = DisplayText"
    by (simp_all add: label_item_def text_item_def)
  moreover have "chunks_exact 64 (concat (header_source_bindings h)) = header_source_bindings h"
    using h by (intro chunks_exact_concat) (simp_all add: valid_header_def)
  moreover have "?n < u32_bound" using k(2) k256 by (simp add: u32_bound_def)
  note slices = list_item_slices [OF this]
  ultimately show ?thesis
    using h k dec display_text.decode_encode [of E "header_username h"]
    unfolding header_decode_prefix_def
    by (simp add: Let_def has_header_def header_tuple_def CANONICAL_TUPLE_SCHEMA_IDENTIFIER_def
        field_def try_array_def valid_header_def PUBLIC_KEY_BYTES_def slices
        length_concat_const [where n = 64])
qed


lemma hash_list_item_read:
  assumes "item_type item = HomogeneousList"
    and "slice 0 2 (canonical_bytes item) = u16_to_le_bytes (canonical_code Hash512)"
    and "length (canonical_bytes item) = 6 + n * 64" "le_value (slice 2 6 (canonical_bytes item)) = n"
  shows "item = \<lparr>item_type = HomogeneousList, canonical_bytes =
     u16_to_le_bytes 6 @ le_bytes 4 (length (chunks_exact 64 (drop 6 (canonical_bytes item))))
       @ concat (chunks_exact 64 (drop 6 (canonical_bytes item)))\<rparr>"
    and "length (chunks_exact 64 (drop 6 (canonical_bytes item))) = n"
proof -
  define bs where "bs = canonical_bytes item"
  have len: "length bs = 6 + n * 64" using assms(3) by (simp add: bs_def)
  show count: "length (chunks_exact 64 (drop 6 (canonical_bytes item))) = n"
    using assms(3) by (simp add: length_chunks_exact)
  have "concat (chunks_exact 64 (drop 6 bs)) = drop 6 bs"
    using len by (intro concat_chunks_exact) simp_all
  moreover have "le_bytes 4 n = slice 2 6 bs"
    using le_bytes_le_value [of "slice 2 6 bs"] assms(4) len by (simp add: bs_def)
  moreover have "bs = slice 0 2 bs @ slice 2 6 bs @ drop 6 bs"
    using slice_split [of 0 2 6 bs] by (simp flip: append_assoc take_slice)
  ultimately have "bs = u16_to_le_bytes 6 @ le_bytes 4 n @ concat (chunks_exact 64 (drop 6 bs))"
    using assms(2) by (simp add: bs_def)
  with assms(1) count show "item = \<lparr>item_type = HomogeneousList, canonical_bytes =
     u16_to_le_bytes 6 @ le_bytes 4 (length (chunks_exact 64 (drop 6 (canonical_bytes item))))
       @ concat (chunks_exact 64 (drop 6 (canonical_bytes item)))\<rparr>"
    by (cases item) (simp add: bs_def)
qed

theorem header_decode_sound:
  assumes "header_decode_prefix E TABLE bs = Inr (h, consumed)"
  shows "valid_header E TABLE h \<and> consumed \<le> length bs \<and> length bs \<le> 4096
    \<and> take consumed bs = tuple_bytes (header_tuple h)"
proof -
  from assms obtain k where k: "maximum_fhe_key_family_count TABLE = Some k"
    by (auto simp: header_decode_prefix_def split: option.splits)
  with assms obtain t b' v u where
    dec: "decode_tuple_at E (header_limits k) bs (new_budget (header_limits k)) 0
      = Some (t, consumed, b')"
    and hdr: "has_header t 6"
    and t0: "item_type (items t ! 0) = Ascii"
      "variable_value_bytes (items t ! 0) = Some REGISTRATION_HEADER_PURPOSE"
    and t1: "item_type (items t ! 1) = Hash512" "length (canonical_bytes (items t ! 1)) = 64"
      "header_poll h = canonical_bytes (items t ! 1)"
    and t2: "item_type (items t ! 2) = RawBytes" "length (canonical_bytes (items t ! 2)) = 64"
      "header_signing_public h = canonical_bytes (items t ! 2)"
    and t3: "item_type (items t ! 3) = Hash512" "length (canonical_bytes (items t ! 3)) = 64"
      "header_recipient_key_hash h = canonical_bytes (items t ! 3)"
    and t4: "item_type (items t ! 4) = DisplayText" "variable_value_bytes (items t ! 4) = Some u"
      "u \<noteq> []" "length u \<le> MAXIMUM_USERNAME_BYTES"
      "from_canonical_utf8 E u = Some (header_username h)"
    and t5: "item_type (items t ! 5) = HomogeneousList"
      "slice 0 2 (canonical_bytes (items t ! 5)) = u16_to_le_bytes (canonical_code Hash512)"
      "length (canonical_bytes (items t ! 5)) = 6 + le_value (slice 2 6 (canonical_bytes (items t ! 5))) * 64"
      "0 < le_value (slice 2 6 (canonical_bytes (items t ! 5)))"
      "le_value (slice 2 6 (canonical_bytes (items t ! 5))) \<le> k"
      "header_source_bindings h = chunks_exact 64 (drop 6 (canonical_bytes (items t ! 5)))"
    by (auto simp: header_decode_prefix_def and_then_Inr_iff try_array_def field_def Let_def
        PUBLIC_KEY_BYTES_def not_less split: if_splits)
  note list = hash_list_item_read [OF t5(1,2,3) refl]
  note user = display_text.decode_sound [OF t4(5)]
  have "items t ! 4 = text_item (header_username h)"
    using t4(1,2) user
    by (cases "items t ! 4") (auto simp: variable_value_bytes_Some_iff text_item_def
        dest!: decode_variable_value_sound)
  moreover have "items t ! 5 = \<lparr>item_type = HomogeneousList, canonical_bytes =
      u16_to_le_bytes 6 @ le_bytes 4 (length (header_source_bindings h))
        @ concat (header_source_bindings h)\<rparr>"
    using list(1) t5(6) by simp
  moreover have "items t ! 0 = label_item REGISTRATION_HEADER_PURPOSE"
    by (rule label_item_read [OF t0])
  moreover have "items t ! 1 = hash512 (header_poll h)"
    "items t ! 2 = \<lparr>item_type = RawBytes, canonical_bytes = header_signing_public h\<rparr>"
    "items t ! 3 = hash512 (header_recipient_key_hash h)"
    using t1 t2 t3 by (simp_all add: hash512_def)
  moreover have "items t = [items t ! 0, items t ! 1, items t ! 2, items t ! 3, items t ! 4,
      items t ! 5]"
    using nth_expansion [of "items t" 6] hdr
    by (simp add: has_header_def upt_rec eval_nat_numeral)
  ultimately have "items t = items (header_tuple h)" by (simp add: header_tuple_def)
  then have t: "t = header_tuple h"
    using hdr by (cases t) (simp add: header_tuple_def has_header_def
        CANONICAL_TUPLE_SCHEMA_IDENTIFIER_def)
  have lens: "\<forall>b \<in> set (header_source_bindings h). length b = 64"
    unfolding t5(6) by (intro ballI chunks_exact_lengths) simp_all
  have "valid_header E TABLE h"
  proof -
    have u: "text_bytes (header_username h) = u" "stabilized E (header_username h)"
      using user by auto
    have n: "length (header_source_bindings h)
        = le_value (slice 2 6 (canonical_bytes (items t ! 5)))"
      unfolding t5(6) by (rule list(2))
    then have "header_source_bindings h \<noteq> []" using t5(4) by (metis list.size(3) less_irrefl)
    moreover have "header_username h \<noteq> []" using u(1) t4(3) by auto
    ultimately show ?thesis
      unfolding valid_header_def using u t4(4) t1 t2 t3 lens k t5(5) n by metis
  qed
  moreover have "length bs \<le> 4096"
    using dec by (simp add: decode_tuple_at_Some_iff header_limits_def)
  ultimately show ?thesis using decode_tuple_at_sound [OF dec] t by simp
qed

text \<open>
  A checked header is the whole input, of the poll, with one binding per family of the poll,
  and its digest signs exactly these bytes.
\<close>

theorem checked_header_digest:
  assumes "checked_header E TABLE bs poll = Inr h"
  shows "valid_header E TABLE h \<and> bs = tuple_bytes (header_tuple h)
    \<and> header_poll h = poll_identity poll
    \<and> map_option length (fhe_key_families TABLE poll) = Some (length (header_source_bindings h))
    \<and> body_digest_from_header E TABLE bs (poll_identity poll) = Inr
        \<lparr>digest_bytes = shake256 E (identity_preimage
            (ascii_bytes ''sealed-lattice/registration-body'') bs),
         digest_signing_public = header_signing_public h\<rparr>"
proof -
  from assms have dec: "header_decode_prefix E TABLE bs = Inr (h, length bs)"
    and poll: "header_poll h = poll_identity poll"
    and count: "map_option length (fhe_key_families TABLE poll)
      = Some (length (header_source_bindings h))"
    by (auto simp: checked_header_def and_then_Inr_iff split: if_splits option.splits)
  note h = header_decode_sound [OF dec]
  then have bs: "bs = tuple_bytes (header_tuple h)" by simp
  have enc: "header_encode E TABLE h = Inr bs" using h header_encode_valid bs by simp
  let ?d = "ascii_bytes ''sealed-lattice/registration-body''"
  have label: "labelled ?d" by (simp add: labelled_def ascii_bytes_def printable_ascii_def)
  have "length bs \<le> 4096" using h by blast
  then have len: "length bs + 4 \<le> maximum_item_byte_length default_limits"
    by (simp add: default_limits_def)
  then have item: "variable_bytes bs = Some (raw_variable bs)"
    by (simp add: variable_bytes_Some_iff raw_variable_def)
  have "ok_or Shape (hash_foundation_tuple_512 E ?d [raw_variable bs])
      = Inr (shake256 E (identity_preimage ?d bs))"
    using identity_is_tuple_hash [OF label item, of E] identity_value [OF label, of bs E] len
      limits_below_bounds(1) by simp
  then have "hash_foundation_tuple_512 E ?d [raw_variable bs]
      = Some (shake256 E (identity_preimage ?d bs))" by simp
  with dec enc item poll count h bs show ?thesis
    by (simp add: body_digest_from_header_def body_digest_new_def)
qed

section \<open>Properties\<close>

text \<open>
  Registration headers are an exact prefix code: the encoder's bytes of a valid header, with
  any suffix that stays within the decoder's window, decode to that header and its length, and
  nothing else decodes to it.
\<close>

theorem registration_header_is_a_prefix_code:
  assumes "valid_header E TABLE h" "length (tuple_bytes (header_tuple h) @ rest) \<le> 4096"
  shows "header_encode E TABLE h = Inr (tuple_bytes (header_tuple h))
    \<and> header_decode_prefix E TABLE (tuple_bytes (header_tuple h) @ rest)
        = Inr (h, length (tuple_bytes (header_tuple h)))
    \<and> (\<forall>bs n. header_decode_prefix E TABLE bs = Inr (h, n) \<longrightarrow>
          take n bs = tuple_bytes (header_tuple h))"
  using header_encode_valid header_roundtrip header_decode_sound assms by blast

text \<open>
  A checked registration header is the whole input, it is of the poll, it carries one source
  binding per family of the poll, and the digest its owner signs is the labelled hash of exactly
  these bytes under the header's own key.
\<close>

theorem checked_header_is_what_is_signed:
  assumes "checked_header E TABLE bs poll = Inr h"
  shows "valid_header E TABLE h \<and> bs = tuple_bytes (header_tuple h)
    \<and> header_poll h = poll_identity poll
    \<and> map_option length (fhe_key_families TABLE poll) = Some (length (header_source_bindings h))
    \<and> body_digest_from_header E TABLE bs (poll_identity poll) = Inr
        \<lparr>digest_bytes = shake256 E (identity_preimage
            (ascii_bytes ''sealed-lattice/registration-body'') bs),
         digest_signing_public = header_signing_public h\<rparr>"
  using assms by (rule checked_header_digest)

definition sample_header :: registration_header where
  "sample_header =
     \<lparr> header_username = [97], header_poll = poll_identity sample_poll,
       header_signing_public = sample_organizer, header_recipient_key_hash = replicate 64 3,
       header_source_bindings = [replicate 64 4] \<rparr>"


lemma sample_header_valid:
  "valid_header sample_externals sample_TABLE sample_header"
  "length (tuple_bytes (header_tuple sample_header)) = 350"
proof -
  have name: "text_bytes [97] = [97]"
    by (simp add: text_bytes_def utf8_encode_def utf8_char_def byte_of_def)
  have lens: "length sample_organizer = 64" "length (poll_identity sample_poll) = 64"
    using sample_organizer_length by (simp_all add: sample_poll_def sample_externals_def)
  have "stabilized sample_externals [97]"
    by (simp add: stabilized_def sample_externals_def is_scalar_def
        validate_assigned_scalar_values_def is_noncharacter_def is_private_use_def)
  with name lens show v: "valid_header sample_externals sample_TABLE sample_header"
    using sample_families
    by (auto simp: valid_header_def sample_header_def MAXIMUM_USERNAME_BYTES_def)
  show "length (tuple_bytes (header_tuple sample_header)) = 350"
    unfolding length_header_tuple [OF v] by (simp add: sample_header_def name)
qed

theorem registration_header_is_a_prefix_code_witness:
  "header_decode_prefix sample_externals sample_TABLE
     (tuple_bytes (header_tuple sample_header) @ [1, 2, 3]) = Inr (sample_header, 350)"
  using registration_header_is_a_prefix_code [OF sample_header_valid(1), of "[1, 2, 3]"]
    sample_header_valid(2) by simp

theorem checked_header_is_what_is_signed_witness:
  "checked_header sample_externals sample_TABLE (tuple_bytes (header_tuple sample_header)) sample_poll
     = Inr sample_header
   \<and> digest_signing_public (projr (body_digest_from_header sample_externals sample_TABLE
        (tuple_bytes (header_tuple sample_header)) (poll_identity sample_poll))) = sample_organizer"
proof -
  let ?bs = "tuple_bytes (header_tuple sample_header)"
  have "header_decode_prefix sample_externals sample_TABLE ?bs = Inr (sample_header, length ?bs)"
    using header_roundtrip [OF sample_header_valid(1), of "[]"] sample_header_valid(2) by simp
  then have c: "checked_header sample_externals sample_TABLE ?bs sample_poll = Inr sample_header"
    using sample_families by (auto simp: checked_header_def) (simp_all add: sample_header_def)
  from checked_header_is_what_is_signed [OF c] c show ?thesis
    by (simp add: sample_header_def)
qed

end
