(* ===== verification/Signed_Packet.thy ===== *)
theory Signed_Packet
  imports Purpose_Signature
begin

text \<open>
  Signed packets (\<open>protocol-foundations/src/signed-packet.rs\<close>): a body after its four-byte
  little-endian length, then the signature of the body.  The framing is an exact code, and a
  reader that takes the leading packet gives back the bytes behind it untouched.
\<close>

definition packet_encode :: "bytes \<Rightarrow> bytes \<Rightarrow> bytes" where
  "packet_encode body signature = le_bytes 4 (length body) @ body @ signature"

definition packet_leading :: "bytes \<Rightarrow> nat \<Rightarrow> (bytes \<times> bytes \<times> bytes) option" where
  "packet_leading bs maximum =
     (if length bs < 4 then None
      else let len = le_value (take 4 bs); rest = drop 4 bs in
        if len > maximum then None
        else if length rest < len then None
        else let body = take len rest; rest = drop len rest in
          if length rest < SIGNATURE_BYTES then None
          else Some (body, take SIGNATURE_BYTES rest, drop SIGNATURE_BYTES rest))"

definition packet_split :: "bytes \<Rightarrow> nat \<Rightarrow> (bytes \<times> bytes) option" where
  "packet_split bs maximum =
     (case packet_leading bs maximum of
        Some (body, signature, []) \<Rightarrow> Some (body, signature)
      | _ \<Rightarrow> None)"

definition valid_packet :: "nat \<Rightarrow> bytes \<times> bytes \<Rightarrow> bool" where
  "valid_packet maximum = (\<lambda>(body, signature).
     length body \<le> maximum \<and> length body < u32_bound \<and> length signature = SIGNATURE_BYTES)"

lemma packet_leading_encode:
  assumes "valid_packet maximum (body, signature)"
  shows "packet_leading (packet_encode body signature @ rest) maximum = Some (body, signature, rest)"
  using assms by (simp add: packet_leading_def packet_encode_def valid_packet_def u32_bound_def Let_def)

lemma packet_leading_sound:
  assumes "packet_leading bs maximum = Some (body, signature, rest)"
  shows "valid_packet maximum (body, signature) \<and> bs = packet_encode body signature @ rest"
proof -
  let ?n = "le_value (take 4 bs)"
  from assms have len: "4 \<le> length bs" "?n \<le> maximum" "?n + SIGNATURE_BYTES \<le> length bs - 4"
    and parts: "body = take ?n (drop 4 bs)"
      "signature = take SIGNATURE_BYTES (drop ?n (drop 4 bs))"
      "rest = drop SIGNATURE_BYTES (drop ?n (drop 4 bs))"
    by (auto simp: packet_leading_def Let_def split: if_splits)
  have body: "length body = ?n" using len by (simp add: parts(1))
  have "le_bytes 4 ?n = take 4 bs" using le_bytes_le_value [of "take 4 bs"] len(1) by simp
  then have "take 4 bs @ drop 4 bs = packet_encode body signature @ rest"
    unfolding packet_encode_def body parts(2,3) append_assoc append_take_drop_id
    by (simp add: parts(1) del: drop_drop)
  moreover have "?n < u32_bound" using le_value_bound [of "take 4 bs"] len(1)
    by (simp add: u32_bound_def)
  ultimately show ?thesis using len body by (simp add: valid_packet_def parts(2))
qed

lemma packet_split_Some_iff:
  "packet_split bs maximum = Some (body, signature)
     \<longleftrightarrow> packet_leading bs maximum = Some (body, signature, [])"
  by (auto simp: packet_split_def split: option.splits list.splits)

interpretation packet_codec: exact_codec "\<lambda>(body, signature). packet_encode body signature"
  "\<lambda>bs. packet_split bs maximum" "valid_packet maximum" for maximum
proof
  fix x :: "bytes \<times> bytes"
  assume "valid_packet maximum x"
  then show "packet_split (case x of (body, signature) \<Rightarrow> packet_encode body signature) maximum = Some x"
    using packet_leading_encode [where rest = "[]"] by (cases x) (simp add: packet_split_Some_iff)
next
  fix bs :: bytes and x
  assume "packet_split bs maximum = Some x"
  then show "valid_packet maximum x \<and> (case x of (body, signature) \<Rightarrow> packet_encode body signature) = bs"
    by (cases x) (auto simp: packet_split_Some_iff dest: packet_leading_sound)
qed

section \<open>Properties\<close>

text \<open>
  Signed packets frame a stream: the bytes of packets written one after another are read
  back packet by packet, with the bytes behind each packet untouched, and a reader takes a leading
  packet from bytes only when they begin with the encoding of that packet within its bound.
\<close>

theorem leading_packet_is_exact:
  "packet_leading bs maximum = Some (body, signature, rest)
     \<longleftrightarrow> valid_packet maximum (body, signature) \<and> bs = packet_encode body signature @ rest"
  using packet_leading_encode packet_leading_sound by blast

end
