(* ===== verification/Credential.thy ===== *)
theory Credential
  imports Registration_Header Signed_Packet
begin

text \<open>
  A participant's credential (\<open>Credential\<close> of \<open>protocol-foundations/src/lib.rs\<close>): its signing
  seed, the one-shot flags and locks of every signing purpose, the signature of the registration
  and of a created poll (\<open>poll.rs\<close>), the tags that key retained bytes to the seed, and the
  custody of the sealed seed (\<open>custody.rs\<close>, \<open>parallel-work/src/sealing.rs\<close>).

  An operation takes the credential and returns it with a result.  A refusal returns the
  credential as the source leaves it: a flag that is set before signing stays set when the
  signature fails.
\<close>

section \<open>State\<close>

record confirmed_roster =
  held_proposal :: bytes
  held_position :: nat

record credential =
  signing_seed :: bytes
  signing_public :: bytes
  registration_signed :: bool
  completed_body :: "bytes option"
  source_creation_consumed :: bool
  seed_sealed :: bool
  poll_creation_consumed :: bool
  proposal_signed :: bool
  signed_ballot :: "(bytes \<times> u64) option"
  ballot_attempted :: bool
  close_intent_signed :: bool
  close_lock :: "(bytes \<times> u64) option"
  close_response :: "bytes option"
  close_proposal_signed :: bool
  target_signed :: bool
  target_lock :: "bytes option"
  release_started :: bool
  release_signed :: bool
  confirmed :: "confirmed_roster option"
  offer_signed :: "bytes option"
  selection_proposal_signed :: "bytes option"
  selection_endorsed :: "bytes option"
  preparation_retired :: bool
  locked_purposes :: u16

type_synonym 'a operation = "credential \<Rightarrow> credential \<times> 'a result"

text \<open>The question mark in a method that holds the credential: a refusal leaves it as it is.\<close>

definition guarded :: "'a result \<Rightarrow> 's \<Rightarrow> ('a \<Rightarrow> 's \<times> 'b result) \<Rightarrow> 's \<times> 'b result" where
  "guarded r c k = (case r of Inl e \<Rightarrow> (c, Inl e) | Inr v \<Rightarrow> k v)"

lemma guarded_simps [simp]:
  "guarded (Inl e) c k = (c, Inl e)" "guarded (Inr v) c k = k v"
  by (simp_all add: guarded_def)

lemma guarded_Inr_iff: "guarded r c k = (d, Inr w) \<longleftrightarrow> (\<exists>v. r = Inr v \<and> k v = (d, Inr w))"
  by (cases r) simp_all

definition from_seed :: "externals \<Rightarrow> bytes \<Rightarrow> credential" where
  "from_seed E signing =
     \<lparr> signing_seed = signing, signing_public = fst (keypair_from_seed E signing),
       registration_signed = False, completed_body = None, source_creation_consumed = False,
       seed_sealed = False, poll_creation_consumed = False, proposal_signed = False,
       signed_ballot = None, ballot_attempted = False, close_intent_signed = False,
       close_lock = None, close_response = None, close_proposal_signed = False,
       target_signed = False, target_lock = None, release_started = False,
       release_signed = False, confirmed = None, offer_signed = None,
       selection_proposal_signed = None, selection_endorsed = None,
       preparation_retired = False, locked_purposes = 0 \<rparr>"

section \<open>Signing\<close>

definition sign_deterministically :: "externals \<Rightarrow> credential \<Rightarrow> bytes \<Rightarrow> bytes \<Rightarrow> bytes result" where
  "sign_deterministically E c message context =
     ok_or Crypto (snd (signing_key_sign E message context
       (snd (keypair_from_seed E (signing_seed c)))))"

definition sign_registration :: "externals \<Rightarrow> body_digest \<Rightarrow> bytes operation" where
  "sign_registration E body c =
     (if registration_signed c then (c, Inl Consumed)
      else if digest_signing_public body \<noteq> signing_public c then (c, Inl Context)
      else let c1 = c\<lparr>registration_signed := True, poll_creation_consumed := True\<rparr> in
        guarded (sign_deterministically E c1 (digest_bytes body) REGISTRATION_SIGNATURE_CONTEXT) c1
          (\<lambda>signature. (c1\<lparr>completed_body := Some (digest_bytes body)\<rparr>, Inr signature)))"

record signed_poll =
  signed_poll_body :: bytes
  signed_poll_signature :: bytes
  signed_poll_identity :: bytes

definition create_poll ::
  "externals \<Rightarrow> poll_draft \<Rightarrow> bytes \<Rightarrow> bytes \<Rightarrow> signed_poll operation" where
  "create_poll E draft runtime nonce c =
     (if poll_creation_consumed c \<or> registration_signed c then (c, Inl Consumed)
      else
        guarded (draft_body E draft runtime nonce (signing_public c)) c (\<lambda>body.
        guarded (poll_identity_of E body) c (\<lambda>identity.
        let c1 = c\<lparr>poll_creation_consumed := True\<rparr> in
        guarded (sign_deterministically E c1 identity POLL_SIGNATURE_CONTEXT) c1 (\<lambda>signature.
          (c1, Inr \<lparr>signed_poll_body = body, signed_poll_signature = signature,
                    signed_poll_identity = identity\<rparr>)))))"

definition check_retained :: "externals \<Rightarrow> credential \<Rightarrow> bool" where
  "check_retained E c \<longleftrightarrow> fst (keypair_from_seed E (signing_seed c)) = signing_public c"

section \<open>Retained tags\<close>

definition RETAINED_TAG_BYTES :: nat where "RETAINED_TAG_BYTES = 64"

definition retained_tag :: "externals \<Rightarrow> credential \<Rightarrow> bytes \<Rightarrow> verified_poll \<Rightarrow> bytes \<Rightarrow> bytes" where
  "retained_tag E c label poll bs =
     finalize E (absorb E bs (absorb E (le_bytes 8 (length bs)) (absorb E (poll_identity poll)
       (absorb E (signing_seed c) (absorb E label (absorb E (le_bytes 8 (length label))
         (hash_new E)))))))"

text \<open>The comparison visits every byte: the differences are joined, not tested one by one.\<close>

definition check_retained_tag ::
  "externals \<Rightarrow> credential \<Rightarrow> bytes \<Rightarrow> verified_poll \<Rightarrow> bytes \<Rightarrow> bytes \<Rightarrow> unit result" where
  "check_retained_tag E c label poll bs tag =
     (let expected = retained_tag E c label poll bs in
      if length tag \<noteq> length expected
         \<or> fold (\<lambda>(left, right) difference. difference OR (left XOR right)) (zip tag expected) 0 \<noteq> 0
      then Inl Crypto else Inr ())"

section \<open>Custody\<close>

datatype signing_purpose =
  RosterProposalPurpose | OfferPurpose | SelectionProposalPurpose | SelectionEndorsementPurpose
| BallotPurpose | CloseIntentPurpose | CloseResponsePurpose | CloseProposalPurpose
| TargetPurpose | ReleasePurpose

fun purpose_bit :: "signing_purpose \<Rightarrow> nat" where
  "purpose_bit RosterProposalPurpose = 0"
| "purpose_bit OfferPurpose = 1"
| "purpose_bit SelectionProposalPurpose = 2"
| "purpose_bit SelectionEndorsementPurpose = 3"
| "purpose_bit BallotPurpose = 4"
| "purpose_bit CloseIntentPurpose = 5"
| "purpose_bit CloseResponsePurpose = 6"
| "purpose_bit CloseProposalPurpose = 7"
| "purpose_bit TargetPurpose = 8"
| "purpose_bit ReleasePurpose = 9"

definition purpose_mask :: "signing_purpose \<Rightarrow> u16" where
  "purpose_mask purpose = push_bit (purpose_bit purpose) 1"

definition ALL_SIGNING_PURPOSES :: u16 where
  "ALL_SIGNING_PURPOSES = push_bit 1 (purpose_mask ReleasePurpose) - 1"

text \<open>
  The authenticated encryption of the \<open>aes-gcm\<close> crate is a parameter: the key, the nonce, the
  associated data and the text.  What the custody relies on is that a sealed record opens again
  and is longer by the tag.
\<close>

record aead =
  aead_encrypt :: "bytes \<Rightarrow> bytes \<Rightarrow> bytes \<Rightarrow> bytes \<Rightarrow> bytes"
  aead_decrypt :: "bytes \<Rightarrow> bytes \<Rightarrow> bytes \<Rightarrow> bytes \<Rightarrow> bytes option"

definition TAG_BYTES :: nat where "TAG_BYTES = 16"

definition aead_ok :: "aead \<Rightarrow> bool" where
  "aead_ok A \<longleftrightarrow>
     (\<forall>key nonce associated plain.
        length (aead_encrypt A key nonce associated plain) = length plain + TAG_BYTES
        \<and> aead_decrypt A key nonce associated (aead_encrypt A key nonce associated plain)
            = Some plain)"

record sealed_record =
  sealed_key :: bytes
  sealed_bytes :: bytes

text \<open>\<open>seal\<close> under the key that \<open>random::fresh\<close> drew, which the model takes as an argument.\<close>

definition seal :: "aead \<Rightarrow> bytes \<Rightarrow> bytes \<Rightarrow> bytes \<Rightarrow> sealed_record" where
  "seal A key plaintext associated =
     \<lparr> sealed_key = key,
       sealed_bytes = aead_encrypt A key (replicate 12 0) associated plaintext \<rparr>"

definition open_sealed :: "aead \<Rightarrow> bytes \<Rightarrow> bytes \<Rightarrow> bytes \<Rightarrow> bytes option" where
  "open_sealed A key associated record_bytes =
     aead_decrypt A key (replicate 12 0) associated record_bytes"

definition SEALED_SIGNING_SEED_BYTES :: nat where
  "SEALED_SIGNING_SEED_BYTES = 4 + SEED_BYTES + TAG_BYTES"

definition seed_associated :: "bytes \<Rightarrow> bytes" where
  "seed_associated body = ascii_bytes ''registration-signing-seed/2'' @ body"

definition SEED_MAGIC :: bytes where "SEED_MAGIC = ascii_bytes ''RCS2''"

definition seal_complete :: "externals \<Rightarrow> aead \<Rightarrow> bytes \<Rightarrow> sealed_record operation" where
  "seal_complete E A key c =
     (if seed_sealed c then (c, Inl Consumed)
      else guarded (ok_or Consumed (completed_body c)) c (\<lambda>body.
        let c1 = c\<lparr>seed_sealed := True\<rparr> in
        if \<not> check_retained E c1 then (c1, Inl Crypto)
        else (c1, Inr (seal A key (SEED_MAGIC @ signing_seed c1) (seed_associated body)))))"

definition open_complete ::
  "externals \<Rightarrow> aead \<Rightarrow> bytes \<Rightarrow> bytes \<Rightarrow> bytes \<Rightarrow> bytes \<Rightarrow> credential result" where
  "open_complete E A public body key record_bytes =
     (if length record_bytes \<noteq> SEALED_SIGNING_SEED_BYTES then Inl Shape
      else and_then (ok_or Crypto (open_sealed A key (seed_associated body) record_bytes)) (\<lambda>bs.
        if length bs \<noteq> 4 + SEED_BYTES \<or> take 4 bs \<noteq> SEED_MAGIC then Inl Shape
        else and_then (try_array SEED_BYTES (drop 4 bs)) (\<lambda>seed.
          let value =
            \<lparr> signing_seed = seed, signing_public = public,
              registration_signed = True, completed_body = Some body,
              source_creation_consumed = True, seed_sealed = True,
              poll_creation_consumed = True, proposal_signed = False,
              signed_ballot = None, ballot_attempted = False, close_intent_signed = False,
              close_lock = None, close_response = None, close_proposal_signed = False,
              target_signed = False, target_lock = None, release_started = False,
              release_signed = False, confirmed = None, offer_signed = None,
              selection_proposal_signed = None, selection_endorsed = None,
              preparation_retired = False, locked_purposes = ALL_SIGNING_PURPOSES \<rparr>
          in if \<not> check_retained E value then Inl Crypto else Inr value)))"

definition unlock_unused_purposes :: "u16 \<Rightarrow> unit operation" where
  "unlock_unused_purposes unused c =
     (if unused AND NOT ALL_SIGNING_PURPOSES \<noteq> 0 then (c, Inl Shape)
      else (c\<lparr>locked_purposes := locked_purposes c AND NOT unused\<rparr>, Inr ()))"

definition check_unlocked :: "signing_purpose \<Rightarrow> credential \<Rightarrow> unit result" where
  "check_unlocked purpose c =
     (if locked_purposes c AND purpose_mask purpose \<noteq> 0 then Inl Consumed else Inr ())"

section \<open>Signatures of a credential\<close>

lemma sign_deterministically_cong:
  "signing_seed c = signing_seed d \<Longrightarrow> sign_deterministically E c = sign_deterministically E d"
  by (simp add: sign_deterministically_def fun_eq_iff)

text \<open>A signing context always signs, with a signature that verifies under the credential's key.\<close>

lemma sign_deterministically_verifies:
  assumes "permutation_ok E" "ctx \<in> set SIGNING_CONTEXTS" "check_retained E c"
  shows "\<exists>signature. sign_deterministically E c message ctx = Inr signature
    \<and> length signature = SIGNATURE_BYTES
    \<and> verify_context E (signing_public c) ctx message signature"
proof -
  obtain i where i: "position_of ctx SIGNING_CONTEXTS = Some i"
    using assms(2) position_of_None_iff [of ctx SIGNING_CONTEXTS] by auto
  obtain root key where k: "keypair_from_seed E (signing_seed c) = (root, key)" by fastforce
  with assms(3) have "root = signing_public c" by (simp add: check_retained_def)
  with fresh_key_signs [OF assms(1) i k, of message] k show ?thesis
    by (auto simp: sign_deterministically_def)
qed

lemma from_seed_retained [simp]: "check_retained E (from_seed E seed)"
  by (simp add: check_retained_def from_seed_def)

section \<open>Tags key bytes to a credential\<close>

lemma fold_or_differences:
  "fold (\<lambda>(left, right) difference. difference OR (left XOR right)) ps d = (0 :: byte)
     \<longleftrightarrow> d = 0 \<and> (\<forall>(left, right) \<in> set ps. left = right)"
proof (induction ps arbitrary: d)
  case Nil
  then show ?case by simp
next
  case (Cons p ps)
  obtain l r where p: "p = (l, r)" by fastforce
  have "d OR (l XOR r) = 0 \<longleftrightarrow> d = 0 \<and> l = r"
    by (auto simp: or_eq_0_iff bit_eq_iff bit_simps)
  with Cons.IH show ?case by (auto simp: p)
qed

lemma check_retained_tag_iff:
  "check_retained_tag E c label poll bs tag = Inr () \<longleftrightarrow> tag = retained_tag E c label poll bs"
  by (auto simp: check_retained_tag_def Let_def fold_or_differences list_eq_iff_zip_eq)

definition tag_preimage :: "bytes \<Rightarrow> bytes \<Rightarrow> bytes \<Rightarrow> bytes \<Rightarrow> bytes" where
  "tag_preimage seed label poll_id bs =
     le_bytes 8 (length label) @ label @ seed @ poll_id @ le_bytes 8 (length bs) @ bs"

lemma retained_tag_digest:
  assumes "permutation_ok E"
  shows "retained_tag E c label poll bs
    = digest E (tag_preimage (signing_seed c) label (poll_identity poll) bs)"
  using assms
  by (simp add: retained_tag_def digest_def tag_preimage_def absorb_append absorb_ok hash_new_ok)

lemma tag_preimage_inject:
  assumes "tag_preimage seed label poll_id bs = tag_preimage seed' label' poll_id' bs'"
    "length label < 2 ^ 64" "length label' < 2 ^ 64" "length seed = length seed'"
    "length poll_id = length poll_id'"
  shows "seed = seed' \<and> label = label' \<and> poll_id = poll_id' \<and> bs = bs'"
proof -
  have "length label = length label'"
    using assms(1-3) le_bytes_inject [of "length label" 8 "length label'"]
    by (simp add: tag_preimage_def append_eq_append_conv)
  then show ?thesis using assms(1,4,5) by (simp add: tag_preimage_def)
qed

section \<open>Locked purposes\<close>

lemma locked_bit:
  "locked_purposes c AND purpose_mask purpose \<noteq> 0 \<longleftrightarrow> bit (locked_purposes c) (purpose_bit purpose)"
  by (simp add: purpose_mask_def bit_iff_and_push_bit_not_eq_0)

lemma check_unlocked_iff [simp]:
  "check_unlocked purpose c = Inr () \<longleftrightarrow> \<not> bit (locked_purposes c) (purpose_bit purpose)"
  by (simp add: check_unlocked_def locked_bit)

lemma check_unlocked_locked:
  "check_unlocked purpose c = Inl Consumed \<longleftrightarrow> bit (locked_purposes c) (purpose_bit purpose)"
  by (simp add: check_unlocked_def locked_bit)

lemma purpose_bit_inject [simp]: "purpose_bit p = purpose_bit q \<longleftrightarrow> p = q"
  by (cases p; cases q) simp_all

lemma purpose_bit_bound: "purpose_bit p < 10"
  by (cases p) simp_all

lemma all_signing_purposes: "ALL_SIGNING_PURPOSES = 1023"
  by (simp add: ALL_SIGNING_PURPOSES_def purpose_mask_def push_bit_eq_mult)

lemma all_purposes_locked: "bit ALL_SIGNING_PURPOSES n \<longleftrightarrow> n < 10"
proof -
  have m: "(1023 :: u16) = mask 10" by (simp add: mask_eq_exp_minus_1)
  show ?thesis unfolding all_signing_purposes m bit_mask_iff by auto
qed

lemma bit_purpose_mask: "bit (purpose_mask p) n \<longleftrightarrow> n = purpose_bit p"
  using purpose_bit_bound [of p]
  by (auto simp: purpose_mask_def push_bit_eq_mult bit_exp_iff)

text \<open>The custody format: the sealed record of a complete credential opens to its seed.\<close>

lemma seed_magic: "length SEED_MAGIC = 4"
  by (simp add: SEED_MAGIC_def ascii_bytes_def)

lemma open_complete_sealed:
  assumes "aead_ok A" "length seed = SEED_BYTES" "fst (keypair_from_seed E seed) = public"
  shows "\<exists>d. open_complete E A public body key
      (sealed_bytes (seal A key (SEED_MAGIC @ seed) (seed_associated body))) = Inr d
    \<and> signing_seed d = seed \<and> signing_public d = public \<and> completed_body d = Some body
    \<and> check_retained E d \<and> registration_signed d \<and> poll_creation_consumed d
    \<and> locked_purposes d = ALL_SIGNING_PURPOSES"
  using assms seed_magic
  by (simp add: open_complete_def seal_def open_sealed_def aead_ok_def SEALED_SIGNING_SEED_BYTES_def
      try_array_def check_retained_def Let_def)

section \<open>Properties\<close>

text \<open>
  C25.  Custody: a completed credential seals its seed once, under the key drawn for it; the sealed
  record opens under that key and the completed body to a credential with the same seed, key and
  body, which can neither register nor create a poll and has every signing purpose locked.
\<close>

theorem sealed_seed_reopens_locked:
  assumes "aead_ok A" "length (signing_seed c) = SEED_BYTES" "check_retained E c"
    and "completed_body c = Some body" "\<not> seed_sealed c"
  shows "\<exists>r c1 d. seal_complete E A key c = (c1, Inr r)
    \<and> seal_complete E A key' c1 = (c1, Inl Consumed)
    \<and> open_complete E A (signing_public c) body key (sealed_bytes r) = Inr d
    \<and> signing_seed d = signing_seed c \<and> signing_public d = signing_public c
    \<and> completed_body d = Some body
    \<and> (\<forall>digest. snd (sign_registration E digest d) = Inl Consumed)
    \<and> (\<forall>draft runtime nonce. snd (create_poll E draft runtime nonce d) = Inl Consumed)
    \<and> (\<forall>purpose. check_unlocked purpose d = Inl Consumed)"
proof -
  let ?r = "seal A key (SEED_MAGIC @ signing_seed c) (seed_associated body)"
  let ?c1 = "c\<lparr>seed_sealed := True\<rparr>"
  have "check_retained E ?c1" using assms(3) by (simp add: check_retained_def)
  then have s: "seal_complete E A key c = (?c1, Inr ?r)" "seal_complete E A key' ?c1 = (?c1, Inl Consumed)"
    using assms(4,5) by (simp_all add: seal_complete_def Let_def)
  have "fst (keypair_from_seed E (signing_seed c)) = signing_public c"
    using assms(3) by (simp add: check_retained_def)
  from open_complete_sealed [OF assms(1,2) this, of body key] obtain d where
    d: "open_complete E A (signing_public c) body key (sealed_bytes ?r) = Inr d"
      "signing_seed d = signing_seed c" "signing_public d = signing_public c"
      "completed_body d = Some body" "registration_signed d" "poll_creation_consumed d"
      "locked_purposes d = ALL_SIGNING_PURPOSES" by blast
  have "check_unlocked purpose d = Inl Consumed" for purpose
    unfolding check_unlocked_locked d(7) all_purposes_locked by (rule purpose_bit_bound)
  moreover have "\<forall>digest. snd (sign_registration E digest d) = Inl Consumed"
    "\<forall>draft runtime nonce. snd (create_poll E draft runtime nonce d) = Inl Consumed"
    using d(5,6) by (simp_all add: sign_registration_def create_poll_def)
  ultimately show ?thesis using s d(1-4) by blast
qed

definition sample_aead :: aead where
  "sample_aead =
     \<lparr> aead_encrypt = (\<lambda>key nonce associated plain. plain @ replicate 16 0),
       aead_decrypt = (\<lambda>key nonce associated sealed. Some (take (length sealed - 16) sealed)) \<rparr>"

definition sample_seed :: bytes where "sample_seed = replicate 64 7"

theorem sealed_seed_reopens_locked_witness:
  "\<exists>r d. snd (seal_complete sample_externals sample_aead (replicate 32 1)
        ((from_seed sample_externals sample_seed)\<lparr>completed_body := Some (replicate 64 9)\<rparr>)) = Inr r
    \<and> open_complete sample_externals sample_aead
        (signing_public (from_seed sample_externals sample_seed)) (replicate 64 9)
        (replicate 32 1) (sealed_bytes r) = Inr d
    \<and> signing_seed d = sample_seed \<and> check_unlocked BallotPurpose d = Inl Consumed"
proof -
  let ?c = "(from_seed sample_externals sample_seed)\<lparr>completed_body := Some (replicate 64 9)\<rparr>"
  have "aead_ok sample_aead" by (simp add: aead_ok_def sample_aead_def TAG_BYTES_def)
  moreover have "check_retained sample_externals ?c"
    using from_seed_retained [of sample_externals sample_seed] by (simp add: check_retained_def)
  ultimately have "\<exists>r c1 d. seal_complete sample_externals sample_aead (replicate 32 1) ?c = (c1, Inr r)
    \<and> open_complete sample_externals sample_aead (signing_public ?c) (replicate 64 9)
        (replicate 32 1) (sealed_bytes r) = Inr d
    \<and> signing_seed d = signing_seed ?c \<and> check_unlocked BallotPurpose d = Inl Consumed"
    using sealed_seed_reopens_locked [of sample_aead ?c sample_externals "replicate 64 9"
        "replicate 32 1" "replicate 32 1"]
    by (fastforce simp: from_seed_def sample_seed_def SEED_BYTES_def)
  then show ?thesis by (fastforce simp: from_seed_def)
qed

text \<open>
  Retained tags: the comparison over joined differences accepts exactly the tag of the
  credential, and a tag that is accepted for two retained records is for the same label, poll
  and bytes unless two different inputs of the hash collide.
\<close>

theorem retained_tag_binds_its_record:
  assumes "permutation_ok E" "length label < 2 ^ 64" "length label' < 2 ^ 64"
    and "length (poll_identity poll) = length (poll_identity poll')"
  shows "(check_retained_tag E c label poll bs tag = Inr () \<longleftrightarrow> tag = retained_tag E c label poll bs)
    \<and> (check_retained_tag E c label poll bs tag = Inr ()
       \<and> check_retained_tag E c label' poll' bs' tag = Inr () \<longrightarrow>
         label = label' \<and> poll_identity poll = poll_identity poll' \<and> bs = bs'
         \<or> (\<exists>x y. x \<noteq> y \<and> digest E x = digest E y))"
proof -
  have "label = label' \<and> poll_identity poll = poll_identity poll' \<and> bs = bs'
      \<or> (\<exists>x y. x \<noteq> y \<and> digest E x = digest E y)"
    if "retained_tag E c label poll bs = retained_tag E c label' poll' bs'"
    using that tag_preimage_inject [of "signing_seed c" label "poll_identity poll" bs
        "signing_seed c" label' "poll_identity poll'" bs'] assms(2-4)
    unfolding retained_tag_digest [OF assms(1)] by blast
  then show ?thesis unfolding check_retained_tag_iff by metis
qed

theorem retained_tag_binds_its_record_witness:
  "check_retained_tag sample_externals (from_seed sample_externals sample_seed) [1] sample_poll [2, 3]
     (retained_tag sample_externals (from_seed sample_externals sample_seed) [1] sample_poll [2, 3])
   = Inr ()"
  using retained_tag_binds_its_record [OF sample_permutation, of "[1]" "[1]" sample_poll sample_poll]
  by fastforce

text \<open>
  C26.  A draft that the constructor admits becomes a poll: a credential that has neither created a
  poll nor registered creates it, every verifier that expects its identity and runtime accepts it
  with the credential's key as the organizer and the fields of the draft, and the credential
  refuses to create another.
\<close>

theorem created_poll_is_accepted:
  assumes "permutation_ok E" "check_retained E c" "length (signing_public c) = 64"
    and "\<not> poll_creation_consumed c" "\<not> registration_signed c"
    and "valid_manifest E TABLE m" "draft_new E TABLE m tc maximum = Inr draft"
    and "length runtime = 64" "length nonce = 32"
  shows "\<exists>c1 p. create_poll E draft runtime nonce c = (c1, Inr p)
    \<and> verify_poll E TABLE (signed_poll_identity p) runtime (signed_poll_body p)
        (signed_poll_signature p)
      = Inr \<lparr>poll_identity = signed_poll_identity p, poll_runtime = runtime,
          poll_organizer = signing_public c, poll_manifest = m, poll_top_count = tc,
          poll_maximum_participants = maximum\<rparr>
    \<and> create_poll E draft' runtime' nonce' c1 = (c1, Inl Consumed)"
proof -
  let ?d = "\<lparr>draft_manifest = m, draft_top_count = tc, draft_maximum_participants = maximum\<rparr>"
  let ?c1 = "c\<lparr>poll_creation_consumed := True\<rparr>"
  let ?body = "tuple_bytes (poll_tuple runtime nonce (signing_public c) m tc maximum)"
  from assms(7) obtain body0 where fields: "valid_fields TABLE m tc maximum" and d: "draft = ?d"
    and body0: "draft_body E ?d (replicate 64 0) (replicate 32 0) (replicate PUBLIC_KEY_BYTES 0)
      = Inr body0"
    by (auto simp: draft_new_def and_then_Inr_iff Let_def valid_fields_def split: if_splits)
  have fits: "POLL_BODY_OVERHEAD + length (manifest_bytes m) \<le> MAXIMUM_POLL_BYTES"
    using body0 draft_body_valid [of E TABLE ?d "replicate 64 0" "replicate 32 0"
        "replicate PUBLIC_KEY_BYTES 0"] assms(6)
    by (simp add: PUBLIC_KEY_BYTES_def split: if_splits)
  then have body: "draft_body E ?d runtime nonce (signing_public c) = Inr ?body"
    using draft_body_valid [of E TABLE ?d runtime nonce "signing_public c"] assms(3,6,8,9) by simp
  have "length ?body \<le> MAXIMUM_POLL_BYTES"
    using length_poll_tuple [OF assms(8,9,3)] fits by simp
  then obtain ident where ident: "poll_identity_of E ?body = Inr ident"
    using poll_identity_of_value [of ?body E] by (simp add: default_limits_def MAXIMUM_POLL_BYTES_def)
  have "POLL_SIGNATURE_CONTEXT \<in> set SIGNING_CONTEXTS"
    using poll_context position_of_None_iff [of POLL_SIGNATURE_CONTEXT SIGNING_CONTEXTS] by force
  moreover have "check_retained E ?c1" using assms(2) by (simp add: check_retained_def)
  ultimately obtain signature where
    sig: "sign_deterministically E ?c1 ident POLL_SIGNATURE_CONTEXT = Inr signature"
    "length signature = SIGNATURE_BYTES"
    "verify_context E (signing_public c) POLL_SIGNATURE_CONTEXT ident signature"
    using sign_deterministically_verifies [OF assms(1), of POLL_SIGNATURE_CONTEXT ?c1 ident] by auto
  have "create_poll E draft runtime nonce c = (?c1, Inr \<lparr>signed_poll_body = ?body,
      signed_poll_signature = signature, signed_poll_identity = ident\<rparr>)"
    using assms(4,5) body ident sig(1) by (simp add: create_poll_def d Let_def)
  with verify_poll_complete [OF assms(6) fields assms(8,9,3) body ident sig(3,2)]
  show ?thesis by (simp add: create_poll_def)
qed

theorem created_poll_is_accepted_witness:
  "\<exists>c1 p poll. create_poll sample_externals
      \<lparr>draft_manifest = sample_manifest, draft_top_count = 2, draft_maximum_participants = 5\<rparr>
      (replicate 64 1) (replicate 32 2) (from_seed sample_externals []) = (c1, Inr p)
    \<and> verify_poll sample_externals sample_TABLE (signed_poll_identity p) (replicate 64 1)
        (signed_poll_body p) (signed_poll_signature p) = Inr poll
    \<and> poll_organizer poll = sample_organizer"
proof -
  let ?d = "\<lparr>draft_manifest = sample_manifest, draft_top_count = 2, draft_maximum_participants = 5\<rparr>"
  let ?c = "from_seed sample_externals []"
  have pub: "signing_public ?c = sample_organizer" by (simp add: from_seed_def sample_organizer_def)
  have "POLL_BODY_OVERHEAD = 250"
    by (simp add: POLL_BODY_OVERHEAD_def poll_purpose(1) PUBLIC_KEY_BYTES_def)
  then have "draft_new sample_externals sample_TABLE sample_manifest 2 5 = Inr ?d"
    using sample_manifest_valid draft_body_valid [of sample_externals sample_TABLE ?d]
      length_poll_tuple [of "replicate 64 0" "replicate 32 0" "replicate 64 0" sample_manifest 2 5]
    by (simp add: draft_new_def valid_fields_def Let_def MAXIMUM_POLL_BYTES_def PUBLIC_KEY_BYTES_def)
  then show ?thesis
    using created_poll_is_accepted [OF sample_permutation from_seed_retained [of _ "[]"], of _
        sample_manifest 2 5 ?d "replicate 64 1" "replicate 32 2"]
      sample_manifest_valid(1) sample_organizer_length pub
    by (fastforce simp: from_seed_def)
qed

end
