(* ===== verification/Message.thy ===== *)
theory Message
  imports Poll
begin

text \<open>
  What the signed messages of the protocol share: a canonical tuple that opens with the label of
  its purpose, limits that admit exactly such tuples, and the labelled hash of the complete
  message as its identity.  The component theories instantiate these lemmas for the roster
  proposal, the contribution offer, the setup selection, the close messages and the target.
\<close>

definition message_limits :: "nat \<Rightarrow> nat \<Rightarrow> canonical_decode_limits" where
  "message_limits maximum count =
     default_limits\<lparr> maximum_tuple_byte_length := maximum, maximum_item_count := count,
       maximum_item_byte_length := maximum, maximum_nesting_depth := 0 \<rparr>"

text \<open>The hash of one variable-byte item under a domain.\<close>

definition message_hash :: "externals \<Rightarrow> bytes \<Rightarrow> bytes \<Rightarrow> bytes result" where
  "message_hash E domain body =
     and_then (ok_or Shape (variable_bytes body)) (\<lambda>item.
       ok_or Shape (hash_foundation_tuple_512 E domain [item]))"

definition message_tuple :: "canonical_item list \<Rightarrow> canonical_tuple" where
  "message_tuple its = \<lparr>schema_identifier = 1, items = its\<rparr>"

lemma items_message_tuple [simp]: "items (message_tuple its) = its"
  by (simp add: message_tuple_def)

lemma has_header_message [simp]: "has_header (message_tuple its) n \<longleftrightarrow> length its = n"
  by (auto simp: has_header_def message_tuple_def CANONICAL_TUPLE_SCHEMA_IDENTIFIER_def)

lemma has_header_read: "has_header t n \<Longrightarrow> t = message_tuple (items t) \<and> length (items t) = n"
  by (cases t) (simp add: has_header_def message_tuple_def CANONICAL_TUPLE_SCHEMA_IDENTIFIER_def)

lemma lists_of_length:
  "length xs = 3 \<Longrightarrow> \<exists>a b c. xs = [a, b, c]"
  "length xs = 4 \<Longrightarrow> \<exists>a b c d. xs = [a, b, c, d]"
  "length xs = 5 \<Longrightarrow> \<exists>a b c d e. xs = [a, b, c, d, e]"
  "length xs = 6 \<Longrightarrow> \<exists>a b c d e f. xs = [a, b, c, d, e, f]"
  by (auto simp: length_Suc_conv eval_nat_numeral)

lemma message_hash_value:
  assumes "labelled domain" "length body + 4 \<le> maximum_item_byte_length default_limits"
  shows "message_hash E domain body = Inr (shake256 E (identity_preimage domain body))"
proof -
  have item: "variable_bytes body = Some (raw_variable body)"
    using assms(2) by (simp add: variable_bytes_Some_iff raw_variable_def)
  moreover have "length body + 4 < u32_bound" using assms(2) limits_below_bounds(1) by linarith
  ultimately show ?thesis
    using identity_is_tuple_hash [OF assms(1) item, of E] identity_value [OF assms(1)]
    by (simp add: message_hash_def)
qed

section \<open>Items of a message\<close>

lemma item_types [simp]:
  "item_type (label_item d) = Ascii" "item_type (raw_variable v) = RawBytes"
  by (simp_all add: label_item_def raw_variable_def)

lemma item_lengths [simp]:
  "length (canonical_bytes (label_item d)) = length d + 4"
  "length (canonical_bytes (raw_variable v)) = length v + 4"
  by (simp_all add: label_item_def raw_variable_def)

lemma variable_value_label [simp]:
  "length d + 4 < usize_bound \<Longrightarrow> variable_value_bytes (label_item d) = Some d"
  by (simp add: label_item_def variable_value_bytes_Some_iff decode_variable_value_encoded)

lemma variable_value_raw [simp]:
  "length d + 4 < usize_bound \<Longrightarrow> variable_value_bytes (raw_variable d) = Some d"
  by (simp add: raw_variable_def variable_value_bytes_Some_iff decode_variable_value_encoded)

lemma flat_raw_variable [simp]: "flat_item l (raw_variable v)"
  by (simp add: raw_variable_def)

lemma flat_label [simp]:
  "length d + 4 < usize_bound \<Longrightarrow> flat_item l (label_item d) \<longleftrightarrow> printable_ascii d"
  by (simp add: label_item_def)

lemma hash512_read:
  "item_type item = Hash512 \<Longrightarrow> item = hash512 (canonical_bytes item)"
  by (cases item) (simp add: hash512_def)

lemma unsigned64_read:
  "item_type item = Unsigned64 \<Longrightarrow> length (canonical_bytes item) = 8 \<Longrightarrow>
   item = unsigned64 (u64_from_le_bytes (canonical_bytes item))"
  by (cases item) (auto simp: unsigned64_def u64_to_from_le_bytes)

lemma nonempty_label:
  assumes "labelled d"
  shows "nonempty_ascii d = Some (label_item d)"
  using assms by (simp add: nonempty_ascii_Some_iff labelled_def default_limits_def)

lemma variable_bytes_small:
  "length v + 4 \<le> maximum_item_byte_length default_limits \<Longrightarrow> variable_bytes v = Some (raw_variable v)"
  by (simp add: variable_bytes_Some_iff raw_variable_def)

section \<open>Exact encoding and decoding of small messages\<close>

lemma item_length_bound: "item \<in> set its \<Longrightarrow> length (canonical_bytes item) \<le> items_length its"
  by (induction its) auto

lemma message_encode:
  assumes "\<forall>item \<in> set its. flat_item default_limits item" "length its \<le> 4096"
    "length (tuple_bytes (message_tuple its)) \<le> 2 ^ 20"
  shows "tuple_encode E (message_tuple its) = Some (tuple_bytes (message_tuple its))"
proof (rule tuple_encode_flat)
  have "items_length its \<le> 2 ^ 20" using assms(3) by (simp add: length_tuple_bytes)
  then have "length (canonical_bytes item) \<le> maximum_item_byte_length default_limits"
    if "item \<in> set its" for item
    using item_length_bound [OF that] by (simp add: default_limits_def)
  then show "flat_tuple default_limits (message_tuple its)"
    using assms(1) by (simp add: flat_tuple_def)
qed (use assms in \<open>simp_all add: default_limits_def\<close>)

lemma message_decode:
  assumes "\<forall>item \<in> set its. flat_item (message_limits maximum count) item" "length its \<le> count"
    "length (tuple_bytes (message_tuple its)) \<le> maximum" "maximum \<le> 2 ^ 20" "count \<le> 4096"
  shows "tuple_decode E (tuple_bytes (message_tuple its)) (message_limits maximum count)
    = Some (message_tuple its)"
proof (rule tuple_decode_flat)
  have il: "items_length its \<le> maximum" using assms(3) by (simp add: length_tuple_bytes)
  then have "length (canonical_bytes item) \<le> maximum" if "item \<in> set its" for item
    using item_length_bound [OF that] by simp
  then show "flat_tuple (message_limits maximum count) (message_tuple its)"
    using assms(1) by (simp add: flat_tuple_def message_limits_def)
  show "32 * length (items (message_tuple its)) + items_length (items (message_tuple its))
      \<le> maximum_cumulative_allocation_byte_length (message_limits maximum count)"
    using il assms(2,4,5) by (simp add: message_limits_def default_limits_def)
qed (use assms in \<open>simp_all add: message_limits_def default_limits_def u32_bound_def usize_bound_def\<close>)

lemma message_decode_sound:
  assumes "tuple_decode E bs (message_limits maximum count) = Some t" "has_header t n"
  shows "bs = tuple_bytes (message_tuple (items t)) \<and> length (items t) = n
    \<and> length bs \<le> maximum"
proof -
  note s = tuple_decode_sound [OF assms(1)]
  have "length bs \<le> maximum_tuple_byte_length (message_limits maximum count)"
    using assms(1) by (auto simp: tuple_decode_def decode_with_budget_def decode_tuple_at_Some_iff
        Option.bind_eq_Some_conv split: if_splits)
  with s has_header_read [OF assms(2)] show ?thesis by (simp add: message_limits_def)
qed

end
