(* ===== verification/Roster.thy ===== *)
theory Roster
  imports Credential Message
begin

text \<open>
  Rosters (\<open>protocol-foundations/src/roster.rs\<close>, \<open>roster-authentication.rs\<close>): the proposal that
  lists the verified registrations of a poll, its authentication by the organizer, the context a
  participant retains for its own position, and the preparation of a credential for one confirmed
  roster (\<open>preparation.rs\<close>).  \<open>VerifiedRegistration\<close> is the record of \<open>registration.rs\<close>.
\<close>

section \<open>Proposals\<close>

record verified_registration =
  reg_header :: registration_header
  reg_body_digest :: bytes
  reg_public_key :: bytes

definition MAXIMUM_PROPOSAL_BYTES :: nat where "MAXIMUM_PROPOSAL_BYTES = 2048"

definition PROPOSAL_PURPOSE :: bytes where
  "PROPOSAL_PURPOSE = ascii_bytes ''sealed-lattice/roster-proposal''"

definition PROPOSAL_IDENTITY_DOMAIN :: bytes where
  "PROPOSAL_IDENTITY_DOMAIN = ascii_bytes ''sealed-lattice/roster-proposal-identity''"

definition encode_proposal :: "externals \<Rightarrow> bytes \<Rightarrow> bytes \<Rightarrow> bytes result" where
  "encode_proposal E poll bodies = ok_or Shape (do {
     purpose \<leftarrow> nonempty_ascii PROPOSAL_PURPOSE;
     list \<leftarrow> variable_bytes bodies;
     tuple_encode E (message_tuple [purpose, hash512 poll, list]) })"

definition proposal_bytes :: "externals \<Rightarrow> nat \<Rightarrow> nat option" where
  "proposal_bytes E n =
     (case encode_proposal E (replicate 64 0) (le_bytes 4 n @ replicate (64 * n) 0) of
        Inl _ \<Rightarrow> None
      | Inr encoded \<Rightarrow> Some (length encoded))"

record roster_proposal =
  roster_identity :: bytes
  roster_body :: bytes
  roster_records :: "verified_registration list"
  roster_organizer_position :: nat
  roster_profile :: profile
  roster_family_index :: nat

text \<open>The loop that collects the body digests and the organizer's position.\<close>

fun collect_bodies ::
  "verified_poll \<Rightarrow> nat \<Rightarrow> verified_registration list \<Rightarrow> nat \<Rightarrow> nat option \<Rightarrow> bytes
     \<Rightarrow> (bytes \<times> nat option) result" where
  "collect_bodies poll family_count [] position organizer bodies = Inr (bodies, organizer)"
| "collect_bodies poll family_count (r # rs) position organizer bodies =
     (let header = reg_header r in
      if header_poll header \<noteq> poll_identity poll
         \<or> length (header_source_bindings header) \<noteq> family_count
      then Inl Context
      else let bodies1 = bodies @ reg_body_digest r in
        if header_signing_public header = poll_organizer poll
        then (case organizer of
                Some _ \<Rightarrow> Inl Shape
              | None \<Rightarrow> collect_bodies poll family_count rs (Suc position) (Some position) bodies1)
        else collect_bodies poll family_count rs (Suc position) organizer bodies1)"

text \<open>The loop that refuses a repeated signing key or participant identity.\<close>

fun check_members ::
  "externals \<Rightarrow> verified_registration list \<Rightarrow> bytes set \<Rightarrow> bytes set \<Rightarrow> unit result" where
  "check_members E [] keys identities = Inr ()"
| "check_members E (r # rs) keys identities =
     (let key = header_signing_public (reg_header r) in
      and_then (ok_or Shape (derive_participant_identity E key)) (\<lambda>member.
        if key \<in> keys \<or> member \<in> identities then Inl Shape
        else check_members E rs (insert key keys) (insert member identities)))"

definition roster_new ::
  "externals \<Rightarrow> bytes \<Rightarrow> verified_poll \<Rightarrow> verified_registration list \<Rightarrow> roster_proposal result" where
  "roster_new E TABLE poll records =
     and_then (ok_or Shape (profile_new TABLE (length records) (option_count (poll_manifest poll))))
     (\<lambda>p.
       if length records > unat (poll_maximum_participants poll) then Inl Context
       else and_then (fhe_key_family_index TABLE poll p) (\<lambda>index.
       case fhe_key_families TABLE poll of
         None \<Rightarrow> Inl Context
       | Some fs \<Rightarrow>
         and_then (collect_bodies poll (length fs) records 0 None (le_bytes 4 (length records)))
         (\<lambda>(bodies, organizer).
         and_then (ok_or Context organizer) (\<lambda>organizer_position.
         and_then (check_members E records {} {}) (\<lambda>_.
         and_then (encode_proposal E (poll_identity poll) bodies) (\<lambda>body.
         and_then (message_hash E PROPOSAL_IDENTITY_DOMAIN body) (\<lambda>ident.
         Inr \<lparr> roster_identity = ident, roster_body = body, roster_records = records,
               roster_organizer_position = organizer_position, roster_profile = p,
               roster_family_index = index \<rparr>)))))))"

text \<open>\<open>slice::get\<close>.\<close>

definition get :: "'a list \<Rightarrow> nat \<Rightarrow> 'a option" where
  "get xs i = (if i < length xs then Some (xs ! i) else None)"

lemma get_Some_iff [simp]: "get xs i = Some x \<longleftrightarrow> i < length xs \<and> x = xs ! i"
  by (auto simp: get_def)

lemma get_in_range: "i < length xs \<Longrightarrow> get xs i = Some (xs ! i)"
  by simp

definition roster_source_binding :: "roster_proposal \<Rightarrow> nat \<Rightarrow> bytes result" where
  "roster_source_binding R position = ok_or Context (do {
     r \<leftarrow> get (roster_records R) position;
     get (header_source_bindings (reg_header r)) (roster_family_index R) })"

definition encode_contribution_role ::
  "externals \<Rightarrow> bytes \<Rightarrow> bytes \<Rightarrow> bytes \<Rightarrow> nat \<Rightarrow> bytes \<Rightarrow> bytes result" where
  "encode_contribution_role E TABLE poll proposal position member =
     (case participant_range TABLE of
        None \<Rightarrow> Inl Shape
      | Some bounds \<Rightarrow>
        if position \<ge> range_end bounds then Inl Shape
        else and_then (ok_or Shape (do {
            purpose \<leftarrow> nonempty_ascii (ascii_bytes ''sealed-lattice/setup-contribution'');
            name \<leftarrow> nonempty_ascii (ascii_bytes (to_lowercase_hex member));
            tuple_encode E (message_tuple [purpose, name, hash512 poll, hash512 proposal,
              unsigned16 (word_of_nat position)]) })) (\<lambda>role.
          if length role > 1024 then Inl Shape else Inr role))"

definition contribution_role ::
  "externals \<Rightarrow> bytes \<Rightarrow> verified_registration \<Rightarrow> bytes \<Rightarrow> nat \<Rightarrow> bytes result" where
  "contribution_role E TABLE original proposal position =
     and_then (ok_or Shape (derive_participant_identity E
       (header_signing_public (reg_header original)))) (\<lambda>member.
       encode_contribution_role E TABLE (header_poll (reg_header original)) proposal position member)"

definition roster_contribution_role ::
  "externals \<Rightarrow> bytes \<Rightarrow> roster_proposal \<Rightarrow> nat \<Rightarrow> bytes result" where
  "roster_contribution_role E TABLE R position =
     (if position \<ge> length (roster_records R) then Inl Shape
      else if position \<ge> setup_eligible_contributors (roster_profile R) then Inl Context
      else contribution_role E TABLE (roster_records R ! position) (roster_identity R) position)"

section \<open>Authentication by the organizer\<close>

definition ROSTER_SIGNATURE_CONTEXT :: bytes where
  "ROSTER_SIGNATURE_CONTEXT = PROPOSAL_PURPOSE"

record authenticated_roster =
  auth_proposal :: roster_proposal
  auth_signature :: bytes

text \<open>
  The organizer's record: \<open>roster_new\<close> returns a position within the records, so the index of the
  source is in range.
\<close>

definition organizer_record :: "roster_proposal \<Rightarrow> verified_registration" where
  "organizer_record R = roster_records R ! roster_organizer_position R"

definition validate_roster_proposal_target :: "roster_proposal \<Rightarrow> credential \<Rightarrow> unit result" where
  "validate_roster_proposal_target R c =
     and_then (check_unlocked RosterProposalPurpose c) (\<lambda>_.
       if proposal_signed c then Inl Consumed
       else if signing_public c \<noteq> header_signing_public (reg_header (organizer_record R))
               \<or> completed_body c \<noteq> Some (reg_body_digest (organizer_record R))
       then Inl Context else Inr ())"

definition sign_roster_proposal :: "externals \<Rightarrow> roster_proposal \<Rightarrow> bytes operation" where
  "sign_roster_proposal E R c =
     guarded (validate_roster_proposal_target R c) c (\<lambda>_.
       let c1 = c\<lparr>proposal_signed := True\<rparr> in
       (c1, sign_deterministically E c1 (roster_identity R) ROSTER_SIGNATURE_CONTEXT))"

definition authenticate_roster_proposal ::
  "externals \<Rightarrow> roster_proposal \<Rightarrow> bytes \<Rightarrow> authenticated_roster result" where
  "authenticate_roster_proposal E R signature =
     and_then (try_array SIGNATURE_BYTES signature) (\<lambda>sig.
       if \<not> verify_context E (header_signing_public (reg_header (organizer_record R)))
              ROSTER_SIGNATURE_CONTEXT (roster_identity R) sig
       then Inl Crypto
       else Inr \<lparr>auth_proposal = R, auth_signature = sig\<rparr>)"

section \<open>Retained contexts\<close>

record retained_context =
  ctx_poll :: bytes
  ctx_proposal :: bytes
  ctx_position :: nat
  ctx_owner_body :: bytes
  ctx_profile :: profile
  ctx_role :: bytes
  ctx_source_binding :: bytes

definition proposal_limits :: canonical_decode_limits where
  "proposal_limits =
     \<lparr> maximum_tuple_byte_length = MAXIMUM_PROPOSAL_BYTES, maximum_item_count = 3,
       maximum_item_byte_length = MAXIMUM_PROPOSAL_BYTES, maximum_nesting_depth = 1,
       maximum_cumulative_work_byte_length = 8192,
       maximum_cumulative_allocation_byte_length = 8192 \<rparr>"

definition context_parse ::
  "externals \<Rightarrow> bytes \<Rightarrow> credential \<Rightarrow> verified_registration \<Rightarrow> verified_poll \<Rightarrow> nat \<Rightarrow> bytes
     \<Rightarrow> retained_context result" where
  "context_parse E TABLE c original poll position bs =
     (let header = reg_header original in
      case fhe_key_families TABLE poll of
        None \<Rightarrow> Inl Context
      | Some fs \<Rightarrow>
      if signing_public c \<noteq> header_signing_public header
         \<or> completed_body c \<noteq> Some (reg_body_digest original)
         \<or> header_poll header \<noteq> poll_identity poll
         \<or> length (header_source_bindings header) \<noteq> length fs
      then Inl Context
      else
      and_then (ok_or Shape (tuple_decode E bs proposal_limits)) (\<lambda>tuple.
      if \<not> has_header tuple 3 then Inl Shape
      else let its = items tuple in
      and_then (if item_type (its ! 0) \<noteq> Ascii then Inl Context
                else ok_or Shape (variable_value_bytes (its ! 0))) (\<lambda>purpose.
      if purpose \<noteq> PROPOSAL_PURPOSE
         \<or> item_type (its ! 1) \<noteq> Hash512
         \<or> canonical_bytes (its ! 1) \<noteq> header_poll header
         \<or> item_type (its ! 2) \<noteq> RawBytes
      then Inl Context
      else
      and_then (ok_or Shape (variable_value_bytes (its ! 2))) (\<lambda>bodies.
      if length bodies < 4 then Inl Shape
      else let count = le_value (take 4 bodies) in
      and_then (ok_or Shape (profile_new TABLE count (option_count (poll_manifest poll)))) (\<lambda>p.
      and_then (fhe_key_family_index TABLE poll p) (\<lambda>family.
      and_then (ok_or Context (get (header_source_bindings header) family)) (\<lambda>binding.
      if length bodies \<noteq> 4 + count * 64 \<or> position \<ge> count then Inl Shape
      else if slice (4 + 64 * position) (4 + 64 * (position + 1)) bodies \<noteq> reg_body_digest original
      then Inl Context
      else
      and_then (message_hash E PROPOSAL_IDENTITY_DOMAIN bs) (\<lambda>proposal.
      and_then (contribution_role E TABLE original proposal position) (\<lambda>role.
      Inr \<lparr> ctx_poll = header_poll header, ctx_proposal = proposal, ctx_position = position,
            ctx_owner_body = reg_body_digest original, ctx_profile = p, ctx_role = role,
            ctx_source_binding = binding \<rparr>)))))))))"

definition checkpoint_role ::
  "retained_context \<Rightarrow> bytes \<Rightarrow> nat \<Rightarrow> profile \<Rightarrow> bytes result" where
  "checkpoint_role ctx prefix position p =
     (if length prefix \<noteq> 128
         \<or> slice 0 64 prefix \<noteq> ctx_poll ctx
         \<or> drop 64 prefix \<noteq> ctx_proposal ctx
         \<or> position \<noteq> ctx_position ctx
         \<or> position \<ge> setup_eligible_contributors (ctx_profile ctx)
         \<or> p \<noteq> ctx_profile ctx
      then Inl Context else Inr (ctx_role ctx))"

section \<open>Preparation for one confirmed roster\<close>

definition confirm_roster :: "retained_context \<Rightarrow> unit operation" where
  "confirm_roster ctx c =
     (if completed_body c \<noteq> Some (ctx_owner_body ctx) then (c, Inl Context)
      else case confirmed c of
             Some lock \<Rightarrow>
               if held_proposal lock \<noteq> ctx_proposal ctx \<or> held_position lock \<noteq> ctx_position ctx
               then (c, Inl Context) else (c, Inr ())
           | None \<Rightarrow>
               (c\<lparr>confirmed := Some \<lparr>held_proposal = ctx_proposal ctx,
                                   held_position = ctx_position ctx\<rparr>\<rparr>, Inr ()))"

definition holds_roster :: "credential \<Rightarrow> bytes \<Rightarrow> nat \<Rightarrow> bool" where
  "holds_roster c proposal position \<longleftrightarrow>
     (case confirmed c of
        None \<Rightarrow> False
      | Some lock \<Rightarrow> held_proposal lock = proposal \<and> held_position lock = position)"

definition check_confirmed_context :: "retained_context \<Rightarrow> credential \<Rightarrow> unit result" where
  "check_confirmed_context ctx c =
     (if completed_body c \<noteq> Some (ctx_owner_body ctx)
         \<or> \<not> holds_roster c (ctx_proposal ctx) (ctx_position ctx)
      then Inl Context else Inr ())"

definition check_confirmed_position :: "roster_proposal \<Rightarrow> nat \<Rightarrow> credential \<Rightarrow> unit result" where
  "check_confirmed_position R position c =
     and_then (ok_or Context (get (roster_records R) position)) (\<lambda>original.
       if signing_public c \<noteq> header_signing_public (reg_header original)
          \<or> completed_body c \<noteq> Some (reg_body_digest original)
          \<or> \<not> holds_roster c (roster_identity R) position
       then Inl Context else Inr ())"

definition validate_offer_owner :: "retained_context \<Rightarrow> credential \<Rightarrow> unit result" where
  "validate_offer_owner ctx c =
     and_then (check_confirmed_context ctx c) (\<lambda>_.
       if preparation_retired c
          \<or> ctx_position ctx \<ge> setup_eligible_contributors (ctx_profile ctx)
       then Inl Context else Inr ())"

definition validate_offer_context :: "retained_context \<Rightarrow> credential \<Rightarrow> unit result" where
  "validate_offer_context ctx c =
     and_then (validate_offer_owner ctx c) (\<lambda>_.
     and_then (check_unlocked OfferPurpose c) (\<lambda>_.
       if preparation_retired c \<or> offer_signed c \<noteq> None then Inl Consumed else Inr ()))"

definition retire_preparation :: "credential \<Rightarrow> credential" where
  "retire_preparation c =
     c\<lparr>preparation_retired := True,
       locked_purposes := locked_purposes c OR (purpose_mask OfferPurpose
         OR purpose_mask SelectionProposalPurpose OR purpose_mask SelectionEndorsementPurpose)\<rparr>"

section \<open>What a proposal holds\<close>

abbreviation member_key :: "verified_registration \<Rightarrow> bytes" where
  "member_key r \<equiv> header_signing_public (reg_header r)"

lemma collect_bodies_Inr:
  assumes "collect_bodies poll k rs position organizer bodies = Inr (bodies', organizer')"
  shows "(\<forall>r \<in> set rs. header_poll (reg_header r) = poll_identity poll
            \<and> length (header_source_bindings (reg_header r)) = k)
    \<and> bodies' = bodies @ concat (map reg_body_digest rs)
    \<and> (case organizer of
         Some q \<Rightarrow> organizer' = Some q \<and> (\<forall>r \<in> set rs. member_key r \<noteq> poll_organizer poll)
       | None \<Rightarrow> (case organizer' of
            None \<Rightarrow> (\<forall>r \<in> set rs. member_key r \<noteq> poll_organizer poll)
          | Some q \<Rightarrow> position \<le> q \<and> q - position < length rs
              \<and> (\<forall>i < length rs. member_key (rs ! i) = poll_organizer poll \<longleftrightarrow> i = q - position)))"
  using assms
proof (induction rs arbitrary: position organizer bodies)
  case Nil
  then show ?case by (auto split: option.splits)
next
  case (Cons r rs)
  have head: "header_poll (reg_header r) = poll_identity poll"
    "length (header_source_bindings (reg_header r)) = k"
    using Cons.prems by (auto simp: Let_def split: if_splits)
  show ?case
  proof (cases "member_key r = poll_organizer poll")
    case True
    with Cons.prems head have none: "organizer = None"
      and rest: "collect_bodies poll k rs (Suc position) (Some position) (bodies @ reg_body_digest r)
        = Inr (bodies', organizer')" by (auto simp: Let_def split: option.splits)
    have "member_key ((r # rs) ! i) = poll_organizer poll \<longleftrightarrow> i = 0" if "i < length (r # rs)" for i
      using Cons.IH [OF rest] True that by (cases i) auto
    with Cons.IH [OF rest] head none show ?thesis by simp
  next
    case False
    with Cons.prems head have rest: "collect_bodies poll k rs (Suc position) organizer
        (bodies @ reg_body_digest r) = Inr (bodies', organizer')" by (simp add: Let_def)
    have "member_key ((r # rs) ! i) = poll_organizer poll \<longleftrightarrow> i = q - position"
      if "organizer = None" "organizer' = Some q" "i < length (r # rs)" for i q
      using Cons.IH [OF rest] False that by (cases i) auto
    with Cons.IH [OF rest] head False show ?thesis by (auto split: option.splits)
  qed
qed

lemma check_members_Inr:
  assumes "check_members E rs keys identities = Inr ()"
  shows "distinct (map member_key rs) \<and> set (map member_key rs) \<inter> keys = {}
    \<and> (\<exists>ms. map (derive_participant_identity E \<circ> member_key) rs = map Some ms
        \<and> distinct ms \<and> set ms \<inter> identities = {})"
  using assms
proof (induction rs arbitrary: keys identities)
  case Nil
  then show ?case by simp
next
  case (Cons r rs)
  then obtain m where m: "derive_participant_identity E (member_key r) = Some m"
    "member_key r \<notin> keys" "m \<notin> identities"
    "check_members E rs (insert (member_key r) keys) (insert m identities) = Inr ()"
    by (auto simp: Let_def and_then_Inr_iff split: if_splits)
  from Cons.IH [OF m(4)] obtain ms where
    "map (derive_participant_identity E \<circ> member_key) rs = map Some ms"
    "distinct ms" "set ms \<inter> insert m identities = {}" by blast
  then have "map (derive_participant_identity E \<circ> member_key) (r # rs) = map Some (m # ms)
      \<and> distinct (m # ms) \<and> set (m # ms) \<inter> identities = {}"
    using m(1,3) by auto
  moreover have "distinct (map member_key (r # rs)) \<and> set (map member_key (r # rs)) \<inter> keys = {}"
    using Cons.IH [OF m(4)] m(2) by auto
  ultimately show ?case by blast
qed

definition proposal_items :: "bytes \<Rightarrow> bytes list \<Rightarrow> canonical_item list" where
  "proposal_items poll digests =
     [label_item PROPOSAL_PURPOSE, hash512 poll,
      raw_variable (le_bytes 4 (length digests) @ concat digests)]"

lemma proposal_labels:
  "labelled PROPOSAL_PURPOSE" "length PROPOSAL_PURPOSE = 30" "labelled PROPOSAL_IDENTITY_DOMAIN"
  by (simp_all add: PROPOSAL_PURPOSE_def PROPOSAL_IDENTITY_DOMAIN_def labelled_def ascii_bytes_def
      printable_ascii_def)

lemma length_proposal:
  assumes "length poll = 64" "\<forall>d \<in> set digests. length d = 64"
  shows "length (tuple_bytes (message_tuple (proposal_items poll digests))) = 130 + 64 * length digests"
  using assms by (simp add: length_tuple_bytes proposal_items_def proposal_labels(2)
      length_concat_const [where n = 64])

lemma flat_proposal_items:
  "length poll = 64 \<Longrightarrow> \<forall>item \<in> set (proposal_items poll digests). flat_item l item"
  using proposal_labels
  by (simp add: proposal_items_def flat_label usize_bound_def labelled_def)

lemma encode_proposal_value:
  assumes "length poll = 64" "\<forall>d \<in> set digests. length d = 64" "length digests \<le> 256"
  shows "encode_proposal E poll (le_bytes 4 (length digests) @ concat digests)
    = Inr (tuple_bytes (message_tuple (proposal_items poll digests)))"
proof -
  have "variable_bytes (le_bytes 4 (length digests) @ concat digests)
      = Some (raw_variable (le_bytes 4 (length digests) @ concat digests))"
    using assms(2,3) by (intro variable_bytes_small)
      (simp add: default_limits_def length_concat_const [where n = 64])
  moreover have "tuple_encode E (message_tuple (proposal_items poll digests))
      = Some (tuple_bytes (message_tuple (proposal_items poll digests)))"
    using flat_proposal_items [OF assms(1)] length_proposal [OF assms(1,2)] assms(3)
    by (intro message_encode) (simp_all add: proposal_items_def)
  ultimately show ?thesis
    using nonempty_label [OF proposal_labels(1)] by (simp add: encode_proposal_def proposal_items_def)
qed

definition valid_roster :: "externals \<Rightarrow> bytes \<Rightarrow> verified_poll \<Rightarrow> roster_proposal \<Rightarrow> bool" where
  "valid_roster E TABLE poll R \<longleftrightarrow>
     profile_new TABLE (length (roster_records R)) (option_count (poll_manifest poll))
       = Some (roster_profile R)
     \<and> length (roster_records R) \<le> unat (poll_maximum_participants poll)
     \<and> fhe_key_family_index TABLE poll (roster_profile R) = Inr (roster_family_index R)
     \<and> (\<forall>r \<in> set (roster_records R). header_poll (reg_header r) = poll_identity poll
          \<and> map_option length (fhe_key_families TABLE poll)
              = Some (length (header_source_bindings (reg_header r))))
     \<and> roster_organizer_position R < length (roster_records R)
     \<and> (\<forall>i < length (roster_records R).
          member_key (roster_records R ! i) = poll_organizer poll
            \<longleftrightarrow> i = roster_organizer_position R)
     \<and> distinct (map member_key (roster_records R))
     \<and> (\<exists>ms. map (derive_participant_identity E \<circ> member_key) (roster_records R) = map Some ms
          \<and> distinct ms)
     \<and> roster_body R = tuple_bytes (message_tuple (proposal_items (poll_identity poll)
          (map reg_body_digest (roster_records R))))
     \<and> roster_identity R
          = shake256 E (identity_preimage PROPOSAL_IDENTITY_DOMAIN (roster_body R))"

lemma profile_count_bound:
  assumes "profile_new TABLE n m = Some p"
  shows "n \<le> 255"
proof -
  from assms obtain t where t: "table TABLE = Some t" "range_contains (table_participants t) n"
    by (auto simp: profile_new_def split: option.splits if_splits)
  then obtain b :: byte where "range_end (table_participants t) = unat b"
    by (auto simp: table_def Let_def split: if_splits)
  with t(2) unat_byte_bound [of b] show ?thesis by (simp add: range_contains_def)
qed

lemma roster_new_sound:
  assumes new: "roster_new E TABLE poll records = Inr R"
    and len: "length (poll_identity poll) = 64" "\<forall>r \<in> set records. length (reg_body_digest r) = 64"
  shows "valid_roster E TABLE poll R \<and> roster_records R = records"
proof -
  let ?ds = "map reg_body_digest records"
  from new obtain fs bodies where
    p: "profile_new TABLE (length records) (option_count (poll_manifest poll))
      = Some (roster_profile R)"
    and maximum: "length records \<le> unat (poll_maximum_participants poll)"
    and index: "fhe_key_family_index TABLE poll (roster_profile R) = Inr (roster_family_index R)"
    and fs: "fhe_key_families TABLE poll = Some fs"
    and collect: "collect_bodies poll (length fs) records 0 None (le_bytes 4 (length records))
      = Inr (bodies, Some (roster_organizer_position R))"
    and members: "check_members E records {} {} = Inr ()"
    and body: "encode_proposal E (poll_identity poll) bodies = Inr (roster_body R)"
    and hash: "message_hash E PROPOSAL_IDENTITY_DOMAIN (roster_body R) = Inr (roster_identity R)"
    and records: "roster_records R = records"
    by (auto simp: roster_new_def and_then_Inr_iff split: if_splits option.splits)
  note c = collect_bodies_Inr [OF collect, simplified]
  have n: "length ?ds \<le> 256" using profile_count_bound [OF p] by simp
  have ds: "\<forall>d \<in> set ?ds. length d = 64" using len(2) by simp
  have bs: "roster_body R = tuple_bytes (message_tuple (proposal_items (poll_identity poll) ?ds))"
    using body c encode_proposal_value [OF len(1) ds n, of E] by simp
  have "roster_identity R = shake256 E (identity_preimage PROPOSAL_IDENTITY_DOMAIN (roster_body R))"
    using hash message_hash_value [OF proposal_labels(3), of "roster_body R" E] n
      length_proposal [OF len(1) ds] by (simp add: bs default_limits_def)
  with p maximum index fs c check_members_Inr [OF members] bs records show ?thesis
    unfolding valid_roster_def by auto
qed

section \<open>Roles and retained contexts agree with the roster\<close>

text \<open>The digest length of SHAKE256 as the code requests it.\<close>

definition shake_ok :: "externals \<Rightarrow> bool" where
  "shake_ok E \<longleftrightarrow> (\<forall>bs. length (shake256 E bs) = 64)"

lemma derive_member:
  assumes "length key = 64"
  shows "derive_participant_identity E key = Some (shake256 E (tuple_bytes (message_tuple
     [label_item (ascii_bytes ''sealed-lattice/foundation/participant-identity''),
      \<lparr>item_type = RawBytes, canonical_bytes = key\<rparr>])))"
proof -
  let ?d = "ascii_bytes ''sealed-lattice/foundation/participant-identity''"
  let ?key = "\<lparr>item_type = RawBytes, canonical_bytes = key\<rparr>"
  have label: "labelled ?d" "length ?d = 46"
    by (simp_all add: labelled_def ascii_bytes_def printable_ascii_def)
  have "fixed_bytes key = Some ?key"
    using assms by (simp add: fixed_bytes_Some_iff default_limits_def)
  moreover have "tuple_encode E (message_tuple [label_item ?d, ?key])
      = Some (tuple_bytes (message_tuple [label_item ?d, ?key]))"
    using label assms by (intro message_encode)
      (simp_all add: flat_label usize_bound_def labelled_def length_tuple_bytes)
  ultimately show ?thesis
    using nonempty_label [OF label(1)]
    by (simp add: derive_participant_identity_def hash_foundation_tuple_512_def
        canonical_foundation_tuple_hash_preimage_def message_tuple_def
        CANONICAL_TUPLE_SCHEMA_IDENTIFIER_def)
qed

lemma hex_label:
  assumes "length m = 64"
  shows "labelled (ascii_bytes (to_lowercase_hex m))" "length (ascii_bytes (to_lowercase_hex m)) = 128"
proof -
  have len: "length (to_lowercase_hex bs) = 2 * length bs" for bs
    by (induction bs) (simp_all add: to_lowercase_hex_def)
  have digit: "32 \<le> unat (byte_of (of_char (lowercase_hexadecimal_digits ! i)))
      \<and> unat (byte_of (of_char (lowercase_hexadecimal_digits ! i))) \<le> 126" if "i < 16" for i
  proof -
    have "\<forall>ch \<in> set lowercase_hexadecimal_digits.
        32 \<le> unat (byte_of (of_char ch)) \<and> unat (byte_of (of_char ch)) \<le> 126"
      by (simp add: lowercase_hexadecimal_digits_def)
    moreover have "lowercase_hexadecimal_digits ! i \<in> set lowercase_hexadecimal_digits"
      using that by (intro nth_mem) (simp add: lowercase_hexadecimal_digits_def)
    ultimately show ?thesis by blast
  qed
  have "unat (b :: byte) div 16 < 16" "unat b mod 16 < 16" for b
    using unat_byte_bound [of b] by simp_all
  then have "printable_ascii (ascii_bytes (to_lowercase_hex m))"
    using digit by (auto simp: printable_ascii_def ascii_bytes_def to_lowercase_hex_def unat_nibbles)
  then show "labelled (ascii_bytes (to_lowercase_hex m))"
    "length (ascii_bytes (to_lowercase_hex m)) = 128"
    using len [of m] assms by (auto simp: labelled_def ascii_bytes_def)
qed

text \<open>The bytes of the role of a member at a position, under a poll and a proposal.\<close>

definition role_bytes :: "bytes \<Rightarrow> bytes \<Rightarrow> bytes \<Rightarrow> nat \<Rightarrow> bytes" where
  "role_bytes member poll proposal position =
     tuple_bytes (message_tuple [label_item (ascii_bytes ''sealed-lattice/setup-contribution''),
       label_item (ascii_bytes (to_lowercase_hex member)), hash512 poll, hash512 proposal,
       unsigned16 (word_of_nat position)])"

lemma role_exists:
  assumes "shake_ok E" "length (member_key r) = 64" "length (header_poll (reg_header r)) = 64"
    "length proposal = 64"
    and "participant_range TABLE = Some bounds" "position < range_end bounds"
  shows "\<exists>m. derive_participant_identity E (member_key r) = Some m
    \<and> contribution_role E TABLE r proposal position = Inr (role_bytes m (header_poll (reg_header r)) proposal position)"
proof -
  let ?p = "ascii_bytes ''sealed-lattice/setup-contribution''"
  obtain m where m: "derive_participant_identity E (member_key r) = Some m" "length m = 64"
    using derive_member [OF assms(2)] assms(1) by (simp add: shake_ok_def)
  let ?name = "ascii_bytes (to_lowercase_hex m)"
  let ?its = "[label_item ?p, label_item ?name, hash512 (header_poll (reg_header r)),
    hash512 proposal, unsigned16 (word_of_nat position)]"
  note name = hex_label [OF m(2)]
  have label: "labelled ?p" "length ?p = 33"
    by (simp_all add: labelled_def ascii_bytes_def printable_ascii_def)
  have len: "length (tuple_bytes (message_tuple ?its)) = 335"
    using assms(3,4) label(2) name(2) by (simp add: length_tuple_bytes)
  have "tuple_encode E (message_tuple ?its) = Some (tuple_bytes (message_tuple ?its))"
    using assms(3,4) label name len by (intro message_encode)
      (simp_all add: flat_label usize_bound_def labelled_def)
  with nonempty_label [OF label(1)] nonempty_label [OF name(1)] m(1) assms(5,6) len show ?thesis
    by (simp add: contribution_role_def encode_contribution_role_def role_bytes_def)
qed

lemma context_of_roster:
  assumes R: "valid_roster E TABLE poll R" and len: "length (poll_identity poll) = 64"
      "\<forall>r \<in> set (roster_records R). length (reg_body_digest r) = 64"
    and small: "length (roster_body R) \<le> MAXIMUM_PROPOSAL_BYTES"
    and pos: "position < length (roster_records R)"
    and own: "signing_public c = member_key (roster_records R ! position)"
      "completed_body c = Some (reg_body_digest (roster_records R ! position))"
    and role: "contribution_role E TABLE (roster_records R ! position) (roster_identity R) position
      = Inr role"
  shows "\<exists>binding. roster_source_binding R position = Inr binding
    \<and> context_parse E TABLE c (roster_records R ! position) poll position (roster_body R)
      = Inr \<lparr>ctx_poll = poll_identity poll, ctx_proposal = roster_identity R,
          ctx_position = position,
          ctx_owner_body = reg_body_digest (roster_records R ! position),
          ctx_profile = roster_profile R, ctx_role = role, ctx_source_binding = binding\<rparr>"
proof -
  let ?r = "roster_records R ! position"
  let ?ds = "map reg_body_digest (roster_records R)"
  let ?its = "proposal_items (poll_identity poll) ?ds"
  let ?bodies = "le_bytes 4 (length ?ds) @ concat ?ds"
  have p: "profile_new TABLE (length (roster_records R)) (option_count (poll_manifest poll))
      = Some (roster_profile R)"
    and index: "fhe_key_family_index TABLE poll (roster_profile R) = Inr (roster_family_index R)"
    and body: "roster_body R = tuple_bytes (message_tuple ?its)"
    and ident: "roster_identity R
      = shake256 E (identity_preimage PROPOSAL_IDENTITY_DOMAIN (roster_body R))"
    using R by (simp_all add: valid_roster_def)
  have ds: "\<forall>d \<in> set ?ds. length d = 64" using len(2) by simp
  have n: "length ?ds \<le> 255" using profile_count_bound [OF p] by simp
  have rec: "?r \<in> set (roster_records R)" using pos by simp
  with R obtain fs where fs: "fhe_key_families TABLE poll = Some fs"
    "header_poll (reg_header ?r) = poll_identity poll"
    "length (header_source_bindings (reg_header ?r)) = length fs"
    by (auto simp: valid_roster_def)
  have "roster_family_index R < length fs"
    using fhe_key_family_index_unique(2) [OF fs(1) p] R index by (auto simp: valid_roster_def)
  then have binding: "get (header_source_bindings (reg_header ?r)) (roster_family_index R)
      = Some (header_source_bindings (reg_header ?r) ! roster_family_index R)"
    using fs(3) by simp
  have total: "length (tuple_bytes (message_tuple ?its)) = 130 + 64 * length ?ds"
    by (rule length_proposal [OF len(1) ds])
  have dec: "tuple_decode E (roster_body R) proposal_limits = Some (message_tuple ?its)"
    unfolding body
  proof (rule tuple_decode_flat)
    have il: "items_length ?its \<le> MAXIMUM_PROPOSAL_BYTES"
      using small unfolding body by (simp add: length_tuple_bytes)
    then have "length (canonical_bytes item) \<le> MAXIMUM_PROPOSAL_BYTES" if "item \<in> set ?its" for item
      using item_length_bound [OF that] by simp
    then show "flat_tuple proposal_limits (message_tuple ?its)"
      using flat_proposal_items [OF len(1)] by (simp add: flat_tuple_def proposal_limits_def)
    show "32 * length (items (message_tuple ?its)) + items_length (items (message_tuple ?its))
        \<le> maximum_cumulative_allocation_byte_length proposal_limits"
      using il by (simp add: proposal_limits_def MAXIMUM_PROPOSAL_BYTES_def) (simp add: proposal_items_def)
  qed (use small in \<open>simp_all add: body proposal_limits_def MAXIMUM_PROPOSAL_BYTES_def u32_bound_def
      usize_bound_def proposal_items_def\<close>)
  have slice: "slice (4 + 64 * position) (4 + 64 * (position + 1)) ?bodies = reg_body_digest ?r"
    using chunk_slice [OF ds, of position "[]"] pos by (simp add: slice_append_right add.commute)
  have hash: "message_hash E PROPOSAL_IDENTITY_DOMAIN (roster_body R) = Inr (roster_identity R)"
    using message_hash_value [OF proposal_labels(3), of "roster_body R" E] small ident
    by (simp add: default_limits_def MAXIMUM_PROPOSAL_BYTES_def)
  have vals: "variable_value_bytes (label_item PROPOSAL_PURPOSE) = Some PROPOSAL_PURPOSE"
    "variable_value_bytes (raw_variable ?bodies) = Some ?bodies"
    "length ?bodies = 4 + length (roster_records R) * 64"
    "le_value (take 4 ?bodies) = length (roster_records R)"
    using n ds proposal_labels(2)
    by (simp_all add: usize_bound_def length_concat_const [where n = 64])
  show ?thesis
    using fs own p index binding slice hash role pos vals dec
    unfolding context_parse_def roster_source_binding_def
    by (simp add: Let_def proposal_items_def get_in_range)
qed

section \<open>Properties\<close>

text \<open>
  C27.  A roster proposal names a set of members: when the constructor accepts, the roster size has a
  profile and is within the poll's bound, every record is a registration of the poll with one
  binding per family, exactly one record is the organizer's, no signing key and no participant
  identity repeats, and the body and the identity are those of the canonical proposal of the body
  digests in order.
\<close>

theorem roster_proposal_names_distinct_members:
  assumes "roster_new E TABLE poll records = Inr R" "length (poll_identity poll) = 64"
    and "\<forall>r \<in> set records. length (reg_body_digest r) = 64"
  shows "profile_new TABLE (length records) (option_count (poll_manifest poll))
       = Some (roster_profile R)
    \<and> length records \<le> unat (poll_maximum_participants poll)
    \<and> roster_records R = records
    \<and> (\<forall>r \<in> set records. header_poll (reg_header r) = poll_identity poll)
    \<and> (\<forall>i < length records. member_key (records ! i) = poll_organizer poll
         \<longleftrightarrow> i = roster_organizer_position R)
    \<and> roster_organizer_position R < length records
    \<and> distinct (map member_key records)
    \<and> distinct (map (derive_participant_identity E \<circ> member_key) records)
    \<and> roster_body R = tuple_bytes (message_tuple (proposal_items (poll_identity poll)
         (map reg_body_digest records)))
    \<and> roster_identity R = shake256 E (identity_preimage PROPOSAL_IDENTITY_DOMAIN (roster_body R))"
proof -
  note v = roster_new_sound [OF assms]
  then have R: "roster_records R = records" by blast
  from v obtain ms where "map (derive_participant_identity E \<circ> member_key) records = map Some ms"
    "distinct ms" by (auto simp: valid_roster_def)
  then have "distinct (map (derive_participant_identity E \<circ> member_key) records)"
    by (simp add: distinct_map)
  with v show ?thesis by (simp add: valid_roster_def R)
qed

text \<open>A hash that keeps the last 64 bytes, under which different keys have different identities.\<close>

definition tail_externals :: externals where
  "tail_externals = sample_externals\<lparr>shake256 := \<lambda>bs. drop (length bs) (replicate 64 0 @ bs)\<rparr>"

lemma tail_shake: "length key = 64 \<Longrightarrow> shake256 tail_externals (bs @ key) = key"
  by (simp add: tail_externals_def)

lemma tail_shake_ok: "shake_ok tail_externals"
proof -
  have "length (drop (length bs) (replicate 64 0 @ bs)) = 64" for bs :: bytes
    unfolding length_drop length_append length_replicate by linarith
  then show ?thesis by (simp add: shake_ok_def tail_externals_def del: length_drop)
qed

definition sample_roster_poll :: verified_poll where
  "sample_roster_poll = sample_poll\<lparr>poll_organizer := replicate 64 2\<rparr>"

definition sample_registration :: "nat \<Rightarrow> verified_registration" where
  "sample_registration i =
     \<lparr> reg_header = sample_header\<lparr>header_signing_public := replicate 64 (word_of_nat i)\<rparr>,
       reg_body_digest = replicate 64 (word_of_nat (100 + i)), reg_public_key = [] \<rparr>"

lemma sample_roster_poll_facts:
  "length (poll_identity sample_roster_poll) = 64"
  "\<exists>p. profile_new sample_TABLE 5 (option_count (poll_manifest sample_roster_poll)) = Some p
    \<and> fhe_key_families sample_TABLE sample_roster_poll = Some [p]"
proof -
  show "length (poll_identity sample_roster_poll) = 64"
    by (simp add: sample_roster_poll_def sample_poll_def sample_externals_def)
  show "\<exists>p. profile_new sample_TABLE 5 (option_count (poll_manifest sample_roster_poll)) = Some p
    \<and> fhe_key_families sample_TABLE sample_roster_poll = Some [p]"
    using sample_families
    by (auto simp: sample_roster_poll_def fhe_key_families_def sample_poll_def option_count_def
        sample_manifest_def)
qed

lemma sample_roster_accepted:
  "\<exists>R. roster_new tail_externals sample_TABLE sample_roster_poll (map sample_registration [0 ..< 5])
     = Inr R \<and> roster_records R = map sample_registration [0 ..< 5] \<and> roster_organizer_position R = 2"
proof -
  let ?rs = "map sample_registration [0 ..< 5]"
  obtain p where p: "profile_new sample_TABLE 5 (option_count (poll_manifest sample_roster_poll)) = Some p"
    "fhe_key_families sample_TABLE sample_roster_poll = Some [p]"
    using sample_roster_poll_facts(2) by blast
  have maximum: "unat (poll_maximum_participants sample_roster_poll) = 5"
    by (simp add: sample_roster_poll_def sample_poll_def)
  obtain i where i: "fhe_key_family_index sample_TABLE sample_roster_poll p = Inr i"
    using fhe_key_family_index_unique(2) [OF p(2,1)] maximum by auto
  have expand: "?rs = [sample_registration 0, sample_registration 1, sample_registration 2,
      sample_registration 3, sample_registration 4]" by (simp add: upt_rec eval_nat_numeral)
  have collect: "collect_bodies sample_roster_poll 1 ?rs 0 None (le_bytes 4 5)
      = Inr (le_bytes 4 5 @ concat (map reg_body_digest ?rs), Some 2)"
    unfolding expand
    by (simp add: Let_def sample_registration_def sample_header_def sample_roster_poll_def
        sample_poll_def replicate_eq_replicate word_of_nat_eq_iff)
  have "derive_participant_identity tail_externals (replicate 64 b) = Some (replicate 64 b)" for b
    using derive_member [of "replicate 64 b" tail_externals] tail_shake [of "replicate 64 b"]
    by (simp add: tuple_bytes_def message_tuple_def encode_item_def flip: append_assoc)
  then have members: "check_members tail_externals ?rs {} {} = Inr ()"
    unfolding expand
    by (simp add: Let_def sample_registration_def sample_header_def replicate_eq_replicate)
  have "encode_proposal tail_externals (poll_identity sample_roster_poll)
      (le_bytes 4 (length (map reg_body_digest ?rs)) @ concat (map reg_body_digest ?rs))
    = Inr (tuple_bytes (message_tuple (proposal_items (poll_identity sample_roster_poll)
        (map reg_body_digest ?rs))))" (is "_ = Inr ?body")
    using sample_roster_poll_facts(1)
    by (intro encode_proposal_value) (simp_all add: sample_registration_def)
  moreover have "message_hash tail_externals PROPOSAL_IDENTITY_DOMAIN ?body
      = Inr (shake256 tail_externals (identity_preimage PROPOSAL_IDENTITY_DOMAIN ?body))"
    using length_proposal [OF sample_roster_poll_facts(1), of "map reg_body_digest ?rs"]
    by (intro message_hash_value [OF proposal_labels(3)])
      (simp add: sample_registration_def default_limits_def)
  ultimately show ?thesis
    using p i collect members maximum by (simp add: roster_new_def del: upt_Suc)
qed


theorem roster_proposal_names_distinct_members_witness:
  "\<exists>R. roster_new tail_externals sample_TABLE sample_roster_poll (map sample_registration [0 ..< 5])
       = Inr R
     \<and> member_key (roster_records R ! roster_organizer_position R) = poll_organizer sample_roster_poll
     \<and> distinct (map member_key (roster_records R))"
proof -
  obtain R where R: "roster_new tail_externals sample_TABLE sample_roster_poll
      (map sample_registration [0 ..< 5]) = Inr R"
    using sample_roster_accepted by blast
  have "\<forall>r \<in> set (map sample_registration [0 ..< 5]). length (reg_body_digest r) = 64"
    by (simp add: sample_registration_def)
  from roster_proposal_names_distinct_members [OF R sample_roster_poll_facts(1) this] R
  show ?thesis by metis
qed

text \<open>
  C28.  The context a member retains is the roster's.  Parsing the body of an accepted proposal, with
  the credential and the registration of a position, yields the roster's own identity and profile
  and the source binding the roster gives that position.  The role in the context names the
  position's member, the poll, the roster and the position; it is the proof role the roster gives
  every eligible contributor, and the retained context hands a role out exactly where the roster
  does: at every other position both refuse.
\<close>

theorem retained_context_is_the_rosters:
  assumes "shake_ok E" "roster_new E TABLE poll records = Inr R"
    and "length (poll_identity poll) = 64"
    and "\<forall>r \<in> set records. length (reg_body_digest r) = 64 \<and> length (member_key r) = 64"
    and "length (roster_body R) \<le> MAXIMUM_PROPOSAL_BYTES" "position < length records"
    and "signing_public c = member_key (records ! position)"
      "completed_body c = Some (reg_body_digest (records ! position))"
  shows "\<exists>binding member role ctx. roster_source_binding R position = Inr binding
    \<and> derive_participant_identity E (member_key (records ! position)) = Some member
    \<and> role = role_bytes member (poll_identity poll) (roster_identity R) position
    \<and> context_parse E TABLE c (records ! position) poll position (roster_body R) = Inr ctx
    \<and> ctx = \<lparr>ctx_poll = poll_identity poll, ctx_proposal = roster_identity R,
          ctx_position = position, ctx_owner_body = reg_body_digest (records ! position),
          ctx_profile = roster_profile R, ctx_role = role, ctx_source_binding = binding\<rparr>
    \<and> roster_contribution_role E TABLE R position
      = (if position < setup_eligible_contributors (roster_profile R) then Inr role else Inl Context)
    \<and> checkpoint_role ctx (poll_identity poll @ roster_identity R) position (roster_profile R)
      = roster_contribution_role E TABLE R position"
proof -
  have R: "valid_roster E TABLE poll R" "roster_records R = records"
    using roster_new_sound [OF assms(2,3)] assms(4) by blast+
  then have p: "profile_new TABLE (length records) (option_count (poll_manifest poll))
      = Some (roster_profile R)" by (simp add: valid_roster_def)
  then obtain bounds where bounds: "participant_range TABLE = Some bounds" "length records \<le> range_end bounds"
    by (auto simp: profile_new_def participant_range_def range_contains_def split: option.splits if_splits)
  have rec: "header_poll (reg_header (records ! position)) = poll_identity poll"
    "length (roster_identity R) = 64" "records ! position \<in> set records"
    using R assms(1,6) by (simp_all add: valid_roster_def shake_ok_def)
  have "length (member_key (records ! position)) = 64" "length (header_poll (reg_header (records ! position))) = 64"
    "position < range_end bounds"
    using rec assms(3,4,6) bounds(2) by auto
  from role_exists [OF assms(1) this(1,2) rec(2) bounds(1) this(3)] obtain member where
    member: "derive_participant_identity E (member_key (records ! position)) = Some member"
    and role: "contribution_role E TABLE (records ! position) (roster_identity R) position
      = Inr (role_bytes member (poll_identity poll) (roster_identity R) position)"
    unfolding rec(1) by blast
  have rosters: "roster_contribution_role E TABLE R position
      = (if position < setup_eligible_contributors (roster_profile R)
         then Inr (role_bytes member (poll_identity poll) (roster_identity R) position) else Inl Context)"
    using role assms(6) R(2) by (simp add: roster_contribution_role_def)
  have "slice 0 64 (poll_identity poll @ roster_identity R) = poll_identity poll"
    "drop 64 (poll_identity poll @ roster_identity R) = roster_identity R"
    "length (poll_identity poll @ roster_identity R) = 128"
    using assms(3) rec(2) by (simp_all add: slice_def)
  then show ?thesis
    using context_of_roster [OF R(1) assms(3) _ assms(5), of position c] R(2) assms(4,6-8) role member rosters
    by (auto simp: checkpoint_role_def)
qed

theorem retained_context_is_the_rosters_witness:
  "\<exists>R ctx role. roster_new tail_externals sample_TABLE sample_roster_poll
        (map sample_registration [0 ..< 5]) = Inr R
    \<and> context_parse tail_externals sample_TABLE
        ((from_seed tail_externals [])\<lparr>signing_public := replicate 64 1,
           completed_body := Some (replicate 64 101)\<rparr>)
        (sample_registration 1) sample_roster_poll 1 (roster_body R) = Inr ctx
    \<and> ctx_proposal ctx = roster_identity R
    \<and> roster_contribution_role tail_externals sample_TABLE R 1 = Inr role \<and> ctx_role ctx = role"
proof -
  let ?rs = "map sample_registration [0 ..< 5]"
  let ?c = "(from_seed tail_externals [])\<lparr>signing_public := replicate 64 1,
           completed_body := Some (replicate 64 101)\<rparr>"
  obtain R where R: "roster_new tail_externals sample_TABLE sample_roster_poll ?rs = Inr R"
    using sample_roster_accepted by blast
  have lens: "\<forall>r \<in> set ?rs. length (reg_body_digest r) = 64 \<and> length (member_key r) = 64"
    "\<forall>d \<in> set (map reg_body_digest ?rs). length d = 64"
    by (simp_all add: sample_registration_def)
  have first: "?rs ! 1 = sample_registration 1" by simp
  have sound: "valid_roster tail_externals sample_TABLE sample_roster_poll R" "roster_records R = ?rs"
    using roster_new_sound [OF R sample_roster_poll_facts(1)] lens(1) by blast+
  have "length (roster_body R) \<le> MAXIMUM_PROPOSAL_BYTES"
    using sound length_proposal [OF sample_roster_poll_facts(1) lens(2)]
    by (simp add: valid_roster_def MAXIMUM_PROPOSAL_BYTES_def)
  note parsed = retained_context_is_the_rosters [OF tail_shake_ok R sample_roster_poll_facts(1) lens(1) this,
      of 1 ?c, unfolded first]
  have "profile_new sample_TABLE 5 (option_count (poll_manifest sample_roster_poll)) = Some (roster_profile R)"
    using sound by (simp add: valid_roster_def)
  then have "participants (roster_profile R) = 5" using profile_new_dimensions by blast
  then have "1 < setup_eligible_contributors (roster_profile R)"
    by (simp add: setup_eligible_contributors_def setup_contributors_def release_threshold_def maximum_corrupt_participants_def)
  then show ?thesis using parsed R by (fastforce simp: sample_registration_def)
qed

end
