(* ===== verification/Word_Relation.thy ===== *)
theory Word_Relation
  imports Supported_Profile
begin

text \<open>
  The word relations of the proofs (\<open>supported-profile/src/relation.rs\<close> and
  \<open>source-linked.rs\<close>): the column layout, lookups, disjoint pairs and size bounds that
  every prover and verifier takes from one place.
\<close>

section \<open>Shared sizes\<close>

definition SYSTEMATIC :: nat where "SYSTEMATIC = DEGREE"
definition EVALUATION_DOMAIN_SIZE :: nat where "EVALUATION_DOMAIN_SIZE = 4 * SYSTEMATIC"
definition QUERY_COUNT :: nat where "QUERY_COUNT = 704"
definition EVALUATION_QUERY_COUNT :: nat where "EVALUATION_QUERY_COUNT = 429"
definition ilog2 :: "nat \<Rightarrow> nat" where "ilog2 n = bit_length n - 1"
definition EVALUATION_FOLDS :: nat where "EVALUATION_FOLDS = ilog2 SYSTEMATIC"
definition EVALUATION_HEADER_BYTES :: nat where
  "EVALUATION_HEADER_BYTES = 96 + (EVALUATION_FOLDS - 1) * 64"
definition MASKS :: nat where "MASKS = 2 * QUERY_COUNT + 1"
definition MAXIMUM_DEGREE :: nat where "MAXIMUM_DEGREE = 2 * SYSTEMATIC - 1"
definition WITNESS_DEGREE :: nat where "WITNESS_DEGREE = SYSTEMATIC + MASKS - 1"
definition SUM_DEGREE :: nat where "SUM_DEGREE = 2 * SYSTEMATIC + MASKS - 2"
definition FOLDS :: nat where "FOLDS = ilog2 (EVALUATION_DOMAIN_SIZE div 2)"
definition DIGEST_BYTES :: nat where "DIGEST_BYTES = 64"
definition SALT_BYTES :: nat where "SALT_BYTES = 128"
definition EXTENSION_BYTES :: nat where "EXTENSION_BYTES = 48"
definition PROOF_HEADER_BYTES :: nat where
  "PROOF_HEADER_BYTES = 4 * DIGEST_BYTES + EXTENSION_BYTES + (FOLDS + 3) * SALT_BYTES
     + (FOLDS - 1) * DIGEST_BYTES + EXTENSION_BYTES"
definition MESSAGE_BYTES :: nat where "MESSAGE_BYTES = 262144"
definition RELEASE_HEADER_BYTES :: nat where "RELEASE_HEADER_BYTES = 4 + 3 * DIGEST_BYTES + 2"
definition RELEASE_HEADER_MAGIC :: bytes where "RELEASE_HEADER_MAGIC = [76, 82, 83, 49]"

definition evaluation_message_bytes :: "profile \<Rightarrow> nat" where
  "evaluation_message_bytes p =
     next_power_of_two (max (96 * (committed_columns p + 1)) (4 * EVALUATION_QUERY_COUNT))"

text \<open>The sibling count \<open>(1..=ilog2 length).map(|level| openings.min(length >> level)).sum()\<close>.\<close>

definition sibling_bound :: "nat \<Rightarrow> nat \<Rightarrow> nat" where
  "sibling_bound openings len =
     sum_list (map (\<lambda>level. min openings (len div 2 ^ level)) [1 ..< ilog2 len + 1])"

definition evaluation_group :: "nat \<Rightarrow> nat \<Rightarrow> nat" where
  "evaluation_group len width =
     (let openings = min (2 * EVALUATION_QUERY_COUNT) len
      in 4 + openings * (4 + width) + 64 * sibling_bound openings len)"

fun halving_sum :: "(nat \<Rightarrow> nat) \<Rightarrow> nat \<Rightarrow> nat \<Rightarrow> nat" where
  "halving_sum f stop len =
     (if len \<le> stop \<or> len = 0 then 0 else f len + halving_sum f stop (len div 2))"

declare halving_sum.simps [simp del]

definition maximum_evaluation_proof_bytes :: "profile \<Rightarrow> nat" where
  "maximum_evaluation_proof_bytes p =
     EVALUATION_HEADER_BYTES + evaluation_group EVALUATION_DOMAIN_SIZE (16 * committed_columns p)
     + halving_sum (\<lambda>len. evaluation_group len 48) 4 (EVALUATION_DOMAIN_SIZE div 2)"

definition release_coefficient_bytes :: "profile \<Rightarrow> nat" where
  "release_coefficient_bytes p = 1 + byte_length (release p)"

definition release_header_position :: "profile \<Rightarrow> bytes \<Rightarrow> nat option" where
  "release_header_position p header =
     (if length header \<noteq> RELEASE_HEADER_BYTES \<or> take 4 header \<noteq> RELEASE_HEADER_MAGIC then None
      else let position = le_value (drop (RELEASE_HEADER_BYTES - 2) header)
           in if position < participants p then Some position else None)"

section \<open>Relations\<close>

record relation =
  tag :: string
  words :: nat
  booleans :: nat
  public_columns :: nat
  narrow :: "(nat \<times> nat) list"
  zero_product_pairs :: "(nat \<times> nat) list"
  supports :: "(nat \<times> nat) list"
  message_bytes :: nat
  parameters :: "nat list"

definition columns :: "relation \<Rightarrow> nat" where
  "columns r = words r + booleans r"

definition lookups :: "relation \<Rightarrow> nat" where
  "lookups r = words r + length (narrow r)"

definition lookup :: "relation \<Rightarrow> nat \<Rightarrow> nat \<times> nat" where
  "lookup r index = (if index < words r then (index, 1) else narrow r ! (index - words r))"

definition zero_products :: "relation \<Rightarrow> nat" where
  "zero_products r = length (zero_product_pairs r)"

definition original_oracles :: "relation \<Rightarrow> nat" where
  "original_oracles r = columns r + lookups r + 4"

definition word_oracles :: "relation \<Rightarrow> nat" where
  "word_oracles r = original_oracles r + booleans r + zero_products r + lookups r + 2"

definition oracles :: "relation \<Rightarrow> nat" where
  "oracles r = word_oracles r + 2 * public_columns r"

definition proof_header_bytes :: "relation \<Rightarrow> nat" where
  "proof_header_bytes r =
     PROOF_HEADER_BYTES + (if public_columns r = 0 then 0 else 64 + 48 * public_columns r)"

definition first_width :: "relation \<Rightarrow> nat" where
  "first_width r = (columns r + 1) * 16 + EXTENSION_BYTES"

definition second_width :: "relation \<Rightarrow> nat" where
  "second_width r = (lookups r + 2) * EXTENSION_BYTES"

definition minimum_message_bytes :: "relation \<Rightarrow> nat" where
  "minimum_message_bytes r =
     next_power_of_two (max (max (96 * (2 * oracles r + 1)) (4 * QUERY_COUNT)) (second_width r))"

definition relation_parameters :: "relation \<Rightarrow> nat list" where
  "relation_parameters r =
     [SYSTEMATIC, QUERY_COUNT, MASKS, EVALUATION_DOMAIN_SIZE, MAXIMUM_DEGREE, 2, message_bytes r]
     @ parameters r"

text \<open>\<open>None\<close> is the failed length assertion.\<close>

definition degrees :: "relation \<Rightarrow> nat list option" where
  "degrees r =
     (let ds = replicate (columns r + lookups r + 3) WITNESS_DEGREE
               @ [SUM_DEGREE - SYSTEMATIC]
               @ replicate (booleans r + zero_products r + lookups r)
                   (2 * WITNESS_DEGREE - SYSTEMATIC)
               @ [WITNESS_DEGREE - 1, SYSTEMATIC - 2]
               @ concat (replicate (public_columns r) [SYSTEMATIC - 1, SYSTEMATIC - 2])
      in if length ds = oracles r then Some ds else None)"

definition multiproof :: "nat \<Rightarrow> nat \<Rightarrow> nat" where
  "multiproof len width =
     (let openings = min (2 * QUERY_COUNT) len
      in 4 + openings * (4 + width + SALT_BYTES) + sibling_bound openings len * DIGEST_BYTES)"

definition maximum_proof_bytes :: "relation \<Rightarrow> nat" where
  "maximum_proof_bytes r =
     proof_header_bytes r
     + sum_list (map (multiproof EVALUATION_DOMAIN_SIZE)
                   [first_width r, second_width r, EXTENSION_BYTES])
     + (if public_columns r > 0
        then multiproof EVALUATION_DOMAIN_SIZE (16 * public_columns r)
               - min (2 * QUERY_COUNT) EVALUATION_DOMAIN_SIZE * SALT_BYTES
        else 0)
     + halving_sum (\<lambda>len. multiproof len EXTENSION_BYTES) 2 (EVALUATION_DOMAIN_SIZE div 2)"

definition narrow_factor :: "nat \<Rightarrow> nat" where
  "narrow_factor width = 2 ^ (WORD_BITS - width)"

definition half_support :: "nat \<Rightarrow> nat \<Rightarrow> nat \<times> nat" where
  "half_support stride support = (stride, support div 2)"

section \<open>The setup relation\<close>

definition setup_relation :: "profile \<Rightarrow> relation" where
  "setup_relation p =
     (let shape = setup_shape_of p;
          relation0 =
            \<lparr> tag = ''complete-setup-words'',
              words = word_columns shape,
              booleans = boolean_columns shape,
              public_columns = committed_columns p,
              narrow = map (\<lambda>(column, width). (column, narrow_factor width)) (narrow_words shape),
              zero_product_pairs =
                map (\<lambda>pair. (word_columns shape + 2 * pair, word_columns shape + 2 * pair + 1))
                  [0 ..< length (sparse_supports shape)],
              supports = sparse_supports shape,
              message_bytes = 0,
              parameters = [] \<rparr>;
          relation1 = relation0\<lparr>message_bytes := minimum_message_bytes relation0\<rparr>
      in relation1\<lparr>parameters :=
           [DEGREE, words relation1, booleans relation1, lookups relation1, FHE_SECRET_SUPPORT,
            SHARE_EPHEMERAL_SUPPORT, sharing_coefficient_bits p, share_limb_bits p,
            SETUP_QUOTIENT_BITS, SETUP_ERROR_BITS, share_carry_bits p]\<rparr>)"

section \<open>The ballot relation\<close>

text \<open>\<open>BallotColumns\<close> has one field, the limb count; \<open>None\<close> is a failed index assertion.\<close>

definition fhe_quotient :: "nat \<Rightarrow> nat \<Rightarrow> nat option" where
  "fhe_quotient limbs component =
     (if component < 2 then Some (component * (limbs + 1)) else None)"

definition fhe_carry :: "nat \<Rightarrow> nat \<Rightarrow> nat \<Rightarrow> nat option" where
  "fhe_carry limbs component carry =
     (if carry + 1 < limbs then map_option (\<lambda>q. q + 1 + carry) (fhe_quotient limbs component)
      else None)"

definition fhe_error :: "nat \<Rightarrow> nat \<Rightarrow> nat option" where
  "fhe_error limbs component = map_option (\<lambda>q. q + limbs) (fhe_quotient limbs component)"

definition ballot_plaintext :: "nat \<Rightarrow> nat" where
  "ballot_plaintext limbs = 2 * (limbs + 1)"

definition plaintext_complement :: "nat \<Rightarrow> nat" where
  "plaintext_complement limbs = ballot_plaintext limbs + 1"

definition packing_quotient :: "nat \<Rightarrow> nat" where
  "packing_quotient limbs = ballot_plaintext limbs + 2"

definition ballot_scores :: "nat \<Rightarrow> nat" where
  "ballot_scores limbs = ballot_plaintext limbs + 3"

definition auxiliary_quotient :: "nat \<Rightarrow> nat \<Rightarrow> nat option" where
  "auxiliary_quotient limbs component =
     (if component < 2 then Some (ballot_scores limbs + 1 + 2 * component) else None)"

definition auxiliary_error :: "nat \<Rightarrow> nat \<Rightarrow> nat option" where
  "auxiliary_error limbs component = map_option (\<lambda>q. q + 1) (auxiliary_quotient limbs component)"

definition ballot_words :: "nat \<Rightarrow> nat" where
  "ballot_words limbs = ballot_scores limbs + 5"

definition fhe_positive :: "nat \<Rightarrow> nat" where
  "fhe_positive limbs = ballot_words limbs"

definition auxiliary_positive :: "nat \<Rightarrow> nat" where
  "auxiliary_positive limbs = ballot_words limbs + 2"

definition ballot_relation :: "profile \<Rightarrow> relation option" where
  "ballot_relation p = do {
     let limbs = fhe_limbs p;
     let error = narrow_factor SETUP_ERROR_BITS;
     fhe_error0 \<leftarrow> fhe_error limbs 0;
     fhe_error1 \<leftarrow> fhe_error limbs 1;
     auxiliary_error0 \<leftarrow> auxiliary_error limbs 0;
     auxiliary_error1 \<leftarrow> auxiliary_error limbs 1;
     let relation0 =
       \<lparr> tag = ''linked-scored-ballot'',
         words = ballot_words limbs,
         booleans = 4,
         public_columns = 0,
         narrow = [(fhe_error0, error), (fhe_error1, error), (auxiliary_error0, error),
                   (auxiliary_error1, error),
                   (ballot_scores limbs, (2 ^ WORD_BITS - 1) div (MAXIMUM_SCORE - 1))],
         zero_product_pairs =
           [(fhe_positive limbs, fhe_positive limbs + 1),
            (auxiliary_positive limbs, auxiliary_positive limbs + 1)],
         supports = [half_support 1 FHE_SECRET_SUPPORT,
                     half_support (DEGREE div AUXILIARY_DEGREE) AUXILIARY_SECRET_SUPPORT],
         message_bytes = MESSAGE_BYTES,
         parameters = [] \<rparr>;
     Some (relation0\<lparr>parameters :=
       [words relation0, booleans relation0, lookups relation0, FHE_SECRET_SUPPORT,
        AUXILIARY_SECRET_SUPPORT, PLAINTEXT_MODULUS div 2, PLAINTEXT_MODULUS - 1]
       @ concat (map (\<lambda>(left, right). [left, right]) (zero_product_pairs relation0))\<rparr>) }"

section \<open>The release relation\<close>

fun variable_starts :: "nat \<Rightarrow> nat list \<Rightarrow> nat list \<times> nat" where
  "variable_starts used [] = ([], used)"
| "variable_starts used (width # rest) =
     (let (starts, total) = variable_starts (used + div_ceil width WORD_BITS) rest
      in (used # starts, total))"

definition release_variable_starts :: "profile \<Rightarrow> nat list \<times> nat" where
  "release_variable_starts p = variable_starts 0 (release_variable_bits p)"

definition next_multiple_of_4 :: "nat \<Rightarrow> nat" where
  "next_multiple_of_4 n = 4 * div_ceil n 4"

definition modulus_words :: "bytes \<Rightarrow> nat list" where
  "modulus_words modulus =
     (let width = next_multiple_of_4 (length modulus)
      in width # map le_value (chunks_exact 4 (modulus @ replicate (width - length modulus) 0)))"

definition release_modulus_parameters :: "bytes \<Rightarrow> profile \<Rightarrow> nat list option" where
  "release_modulus_parameters TABLE p = do {
     share \<leftarrow> share_modulus TABLE;
     modulus \<leftarrow> to_bytes (release p);
     Some (SHARE_SCALE # modulus_words share @ modulus_words modulus) }"

definition release_relation :: "bytes \<Rightarrow> profile \<Rightarrow> relation option" where
  "release_relation TABLE p = do {
     let widths = release_variable_bits p;
     let (starts, total) = release_variable_starts p;
     let relation0 =
       \<lparr> tag = ''linked-threshold-release'',
         words = total,
         booleans = 2,
         public_columns = 0,
         narrow = map (\<lambda>(width, start). (start + div_ceil width WORD_BITS - 1,
                                          narrow_factor (width mod WORD_BITS)))
                    (filter (\<lambda>(width, start). width mod WORD_BITS \<noteq> 0) (zip widths starts)),
         zero_product_pairs = [(total, total + 1)],
         supports = [half_support 1 RECIPIENT_SECRET_SUPPORT],
         message_bytes = MESSAGE_BYTES,
         parameters = [] \<rparr>;
     moduli \<leftarrow> release_modulus_parameters TABLE p;
     Some (relation0\<lparr>parameters :=
       [words relation0, booleans relation0, lookups relation0, RECIPIENT_SECRET_SUPPORT,
        RELEASE_DECODING_LIMB_BITS, RELEASE_LIMB_BITS, clearing_factor p, release_public_limbs p]
       @ widths @ moduli\<rparr>) }"

section \<open>The source-linked setup relation\<close>

definition SOURCE_POLYNOMIALS :: nat where "SOURCE_POLYNOMIALS = 8"
definition ADDED_WORDS :: nat where "ADDED_WORDS = 8"
definition ADDED_BOOLEANS :: nat where "ADDED_BOOLEANS = 2"

definition remap :: "nat \<Rightarrow> nat \<Rightarrow> nat" where
  "remap column old_words = (if column < old_words then column else column + ADDED_WORDS)"

definition signed_words :: "nat \<Rightarrow> nat" where
  "signed_words width = (if width < 16 then 1 else width div 16)"

definition original_error_column :: "profile \<Rightarrow> nat" where
  "original_error_column p =
     sharing_degree p * (signed_words (share_limb_bits p)
        + signed_words (sharing_coefficient_bits p - share_limb_bits p)) + fhe_limbs p"

definition source_linked_relation :: "bytes \<Rightarrow> profile \<Rightarrow> relation option" where
  "source_linked_relation TABLE p = do {
     let result = setup_relation p;
     let old_words = words result;
     let old_booleans = booleans result;
     let result = result\<lparr>tag := ''encrypted-source-linked-setup'',
                         words := words result + ADDED_WORDS,
                         booleans := booleans result + ADDED_BOOLEANS,
                         zero_product_pairs :=
                           map (\<lambda>(positive, negative).
                                  (remap positive old_words, remap negative old_words))
                             (zero_product_pairs result)\<rparr>;
     let ephemeral = words result + old_booleans;
     let result = result\<lparr>zero_product_pairs :=
                           zero_product_pairs result @ [(ephemeral, ephemeral + 1)],
                         supports := supports result @ [(1, AUXILIARY_SECRET_SUPPORT div 2)],
                         narrow := narrow result
                           @ map (\<lambda>component. (old_words + 2 * component + 1, 512)) [0 ..< 4]\<rparr>;
     auxiliary \<leftarrow> auxiliary_modulus TABLE;
     let result = result\<lparr>parameters :=
         (parameters result)[1 := words result, 2 := booleans result, 3 := lookups result]
         @ [AUXILIARY_DEGREE, AUXILIARY_SECRET_SUPPORT, 257, 72] @ map unat auxiliary\<rparr>;
     Some (result\<lparr>message_bytes := minimum_message_bytes result\<rparr>) }"

definition source_statement_length :: "bytes \<Rightarrow> profile \<Rightarrow> nat option" where
  "source_statement_length TABLE p = do {
     setup \<leftarrow> setup_statement_length TABLE p;
     auxiliary \<leftarrow> auxiliary_modulus TABLE;
     Some (setup + SOURCE_POLYNOMIALS * DEGREE * (1 + length auxiliary)) }"

section \<open>Well-formed relations\<close>

text \<open>
  Narrow lookups name word columns, the disjoint pairs are adjacent Boolean columns that no
  two pairs share, and the sparse supports are the first of those pairs.
\<close>

definition relation_ok :: "relation \<Rightarrow> bool" where
  "relation_ok r \<longleftrightarrow>
     (\<forall>(column, factor) \<in> set (narrow r). column < words r \<and> 1 < factor \<and> factor < 2 ^ WORD_BITS)
     \<and> distinct (map fst (narrow r))
     \<and> (\<forall>(left, right) \<in> set (zero_product_pairs r).
          words r \<le> left \<and> right = left + 1 \<and> right < columns r)
     \<and> sorted_wrt (\<lambda>x y. snd x < fst y) (zero_product_pairs r)
     \<and> length (supports r) \<le> zero_products r"

lemma degrees_defined:
  "\<exists>ds. degrees r = Some ds \<and> length ds = oracles r \<and> (\<forall>d \<in> set ds. d \<le> MAXIMUM_DEGREE)"
proof -
  have "length (concat (replicate n [a, b])) = 2 * n" for n and a b :: nat
    by (induction n) auto
  then show ?thesis
    by (auto simp: degrees_def Let_def oracles_def word_oracles_def original_oracles_def
        WITNESS_DEGREE_def SUM_DEGREE_def MAXIMUM_DEGREE_def MASKS_def QUERY_COUNT_def
        SYSTEMATIC_def DEGREE_def)
qed

lemma minimum_message_bytes_update [simp]:
  "minimum_message_bytes (r\<lparr>message_bytes := m\<rparr>) = minimum_message_bytes r"
  by (simp add: minimum_message_bytes_def oracles_def word_oracles_def original_oracles_def
      columns_def lookups_def zero_products_def second_width_def)

lemma minimum_message_bytes_holds:
  "96 * (2 * oracles r + 1) \<le> minimum_message_bytes r"
  "4 * QUERY_COUNT \<le> minimum_message_bytes r" "second_width r \<le> minimum_message_bytes r"
  using next_power_of_two_ge
    [of "max (max (96 * (2 * oracles r + 1)) (4 * QUERY_COUNT)) (second_width r)"]
  by (simp_all add: minimum_message_bytes_def)

text \<open>
  A value and its scaled copy are both words exactly when the value has the narrow width.
\<close>

lemma narrow_factor_range:
  assumes "width \<le> WORD_BITS"
  shows "v < 2 ^ width \<longleftrightarrow> v * narrow_factor width < 2 ^ WORD_BITS"
proof -
  have "(2::nat) ^ WORD_BITS = 2 ^ width * narrow_factor width"
    using assms by (simp add: narrow_factor_def flip: power_add)
  then show ?thesis by (simp add: narrow_factor_def)
qed

lemma score_factor_range:
  "v \<le> MAXIMUM_SCORE - 1 \<longleftrightarrow> v * ((2 ^ WORD_BITS - 1) div (MAXIMUM_SCORE - 1)) < 2 ^ WORD_BITS"
proof -
  have "v \<le> 9 \<longleftrightarrow> v * 7281 < 65536" by linarith
  then show ?thesis by (simp add: MAXIMUM_SCORE_def WORD_BITS_def)
qed

lemma narrow_factor_bounds:
  assumes "0 < width" "width < WORD_BITS"
  shows "1 < narrow_factor width" "narrow_factor width < 2 ^ WORD_BITS"
proof -
  have "1 < (2::nat) ^ (WORD_BITS - width)" using assms by (intro one_less_power) auto
  then show "1 < narrow_factor width" by (simp add: narrow_factor_def)
  show "narrow_factor width < 2 ^ WORD_BITS"
    using assms unfolding narrow_factor_def by (intro power_strict_increasing) auto
qed

section \<open>The layouts are well formed\<close>

lemma setup_variable_bits_positive:
  assumes "0 < share_limb_bits p" "share_limb_bits p < sharing_coefficient_bits p"
    "0 < share_carry_bits p" "w \<in> set (setup_variable_bits p)"
  shows "0 < w"
proof -
  have "set (concat (replicate n xs)) \<subseteq> set xs" for n and xs :: "nat list"
    by (induction n) auto
  then have "w \<in> {share_limb_bits p, sharing_coefficient_bits p - share_limb_bits p,
      share_carry_bits p, 16, 7}"
    using assms(4)
    unfolding setup_variable_bits_def SETUP_QUOTIENT_BITS_def SETUP_FHE_CARRY_BITS_def
      SETUP_ERROR_BITS_def set_append
    by (elim UnE) (fastforce split: if_splits)+
  with assms show ?thesis by auto
qed

lemma allocate_columns_narrow_widths:
  "snd ` set (narrow_words (allocate_columns widths s))
     \<subseteq> snd ` set (narrow_words s) \<union> set widths"
proof (induction widths s rule: allocate_columns.induct)
  case (2 width rest s)
  then show ?case by (cases "width < WORD_BITS") auto
qed simp

lemma setup_relation_ok:
  assumes "0 < share_limb_bits p" "share_limb_bits p < sharing_coefficient_bits p"
    "0 < share_carry_bits p"
  shows "relation_ok (setup_relation p)"
proof -
  let ?s = "setup_shape_of p"
  have ok: "shape_ok ?s" using setup_shape_accounts_for_every_bit by blast
  have "0 < width" if "(column, width) \<in> set (narrow_words ?s)" for column width
  proof (rule setup_variable_bits_positive [OF assms])
    have "width \<in> snd ` set (narrow_words ?s)" using that by force
    then show "width \<in> set (setup_variable_bits p)"
      using allocate_columns_narrow_widths unfolding setup_shape_of_def Let_def by fastforce
  qed
  then have "\<forall>(column, factor) \<in> set (narrow (setup_relation p)).
      column < words (setup_relation p) \<and> 1 < factor \<and> factor < 2 ^ WORD_BITS"
    using ok narrow_factor_bounds
    by (fastforce simp: setup_relation_def Let_def shape_ok_def)
  moreover have "distinct (map fst (narrow (setup_relation p)))"
    using ok strict_sorted_iff [of "map fst (narrow_words ?s)"]
    by (simp add: setup_relation_def Let_def shape_ok_def comp_def case_prod_beta)
  moreover have "sorted_wrt (\<lambda>x y. snd x < fst y) (zero_product_pairs (setup_relation p))"
    by (simp add: setup_relation_def Let_def sorted_wrt_map)
      (rule sorted_wrt_mono_rel [OF _ sorted_wrt_upt], simp)
  ultimately show ?thesis
    using ok
    by (auto simp: relation_ok_def setup_relation_def Let_def shape_ok_def columns_def
        zero_products_def)
qed

text \<open>
  The word the source-linked relation shares with the setup relation is the narrow error
  word of the first gadget coordinate's encryption key.
\<close>

lemma allocate_columns_append:
  "allocate_columns (xs @ ys) s = allocate_columns ys (allocate_columns xs s)"
  by (induction xs arbitrary: s) auto

lemma allocate_columns_keeps_narrow:
  "set (narrow_words s) \<subseteq> set (narrow_words (allocate_columns widths s))"
  by (induction widths s rule: allocate_columns.induct) fastforce+

lemma allocate_columns_words:
  "word_columns (allocate_columns widths s)
     = word_columns s + sum_list (map signed_words widths)"
  by (induction widths s rule: allocate_columns.induct)
    (simp_all add: signed_words_def WORD_BITS_def)

lemma original_error_column_is_narrow:
  assumes "0 < gadget_length p" "0 < fhe_limbs p"
  shows "(original_error_column p, SETUP_ERROR_BITS) \<in> set (narrow_words (setup_shape_of p))"
proof -
  let ?pre = "concat (replicate (sharing_degree p)
      [share_limb_bits p, sharing_coefficient_bits p - share_limb_bits p])
    @ SETUP_QUOTIENT_BITS # replicate (fhe_limbs p - 1) SETUP_FHE_CARRY_BITS"
  obtain post where split: "setup_variable_bits p = ?pre @ SETUP_ERROR_BITS # post"
    using assms(1) by (cases "4 * gadget_length p") (auto simp: setup_variable_bits_def)
  have rep: "sum_list (map f (concat (replicate n xs))) = n * sum_list (map f xs)"
    for f :: "nat \<Rightarrow> nat" and n xs by (induction n) auto
  have words: "sum_list (map signed_words ?pre) = original_error_column p"
    using assms(2)
    by (simp add: rep original_error_column_def sum_list_replicate signed_words_def
        SETUP_QUOTIENT_BITS_def SETUP_FHE_CARRY_BITS_def)
  have in_next: "(word_columns s, SETUP_ERROR_BITS)
      \<in> set (narrow_words (allocate_columns (SETUP_ERROR_BITS # post) s))" for s
    using allocate_columns_keeps_narrow
    by (fastforce simp: SETUP_ERROR_BITS_def WORD_BITS_def)
  let ?s = "\<lparr> word_columns = 0, boolean_columns = 2 * (participants p + 2), narrow_words = [],
      sparse_supports = replicate 2 (1, FHE_SECRET_SUPPORT div 2)
        @ replicate (participants p) (1, SHARE_EPHEMERAL_SUPPORT div 2) \<rparr>"
  have "setup_shape_of p
      = allocate_columns (SETUP_ERROR_BITS # post) (allocate_columns ?pre ?s)"
    unfolding allocate_columns_append [symmetric] split [symmetric]
    by (simp add: setup_shape_of_def Let_def)
  moreover have "word_columns (allocate_columns ?pre ?s) = original_error_column p"
    unfolding allocate_columns_words words by simp
  ultimately show ?thesis using in_next [of "allocate_columns ?pre ?s"] by (simp del: allocate_columns.simps)
qed

lemma ballot_relation_ok: "\<exists>r. ballot_relation p = Some r \<and> relation_ok r"
proof -
  have f: "1 < narrow_factor SETUP_ERROR_BITS" "narrow_factor SETUP_ERROR_BITS < 2 ^ WORD_BITS"
    by (simp_all add: narrow_factor_def SETUP_ERROR_BITS_def WORD_BITS_def)
  have g: "1 < ((2::nat) ^ WORD_BITS - 1) div (MAXIMUM_SCORE - 1)"
    "((2::nat) ^ WORD_BITS - 1) div (MAXIMUM_SCORE - 1) < 2 ^ WORD_BITS"
    by (simp_all add: WORD_BITS_def MAXIMUM_SCORE_def)
  show ?thesis
    using f g
    by (simp add: ballot_relation_def Let_def fhe_error_def fhe_quotient_def auxiliary_error_def
        auxiliary_quotient_def relation_ok_def ballot_words_def ballot_scores_def
        ballot_plaintext_def fhe_positive_def auxiliary_positive_def columns_def zero_products_def)
qed

text \<open>Every word column of the ballot relation has exactly one role.\<close>

definition component_roles :: "nat \<Rightarrow> nat \<Rightarrow> nat option list" where
  "component_roles limbs component =
     fhe_quotient limbs component
       # map (fhe_carry limbs component) [0 ..< limbs - 1] @ [fhe_error limbs component]"

definition ballot_roles :: "nat \<Rightarrow> nat option list" where
  "ballot_roles limbs =
     component_roles limbs 0 @ component_roles limbs 1
     @ [Some (ballot_plaintext limbs), Some (plaintext_complement limbs),
        Some (packing_quotient limbs), Some (ballot_scores limbs),
        auxiliary_quotient limbs 0, auxiliary_error limbs 0,
        auxiliary_quotient limbs 1, auxiliary_error limbs 1]"

lemma ballot_roles_exact:
  assumes "0 < limbs"
  shows "ballot_roles limbs = map Some [0 ..< ballot_words limbs]"
proof -
  have carries: "map (fhe_carry limbs c) [0 ..< limbs - 1]
      = map Some [c * (limbs + 1) + 1 ..< c * (limbs + 1) + limbs]" if "c < 2" for c
    by (rule nth_equalityI)
      (use that in \<open>auto simp: fhe_carry_def fhe_quotient_def\<close>)
  have block: "component_roles limbs c = map Some [c * (limbs + 1) ..< (c + 1) * (limbs + 1)]" if "c < 2" for c
  proof -
    let ?q = "c * (limbs + 1)"
    have "[?q ..< ?q + Suc limbs] = ?q # [Suc ?q ..< ?q + limbs] @ [?q + limbs]"
      using assms upt_conv_Cons [of ?q "?q + limbs"] by (simp add: upt_Suc)
    moreover have "(c + 1) * (limbs + 1) = ?q + Suc limbs" by simp
    ultimately have e: "[?q ..< (c + 1) * (limbs + 1)]
        = ?q # [Suc ?q ..< ?q + limbs] @ [?q + limbs]" by (simp only:)
    show ?thesis
      unfolding component_roles_def carries [OF that] e using that by (simp add: fhe_quotient_def fhe_error_def)
  qed
  have split: "[i ..< j] @ [j ..< k] = [i ..< k]" if "i \<le> j" "j \<le> k" for i j k :: nat
    using that upt_add_eq_append [of i j "k - j"] by simp
  have tail: "[k ..< k + 8] = [k, k + 1, k + 2, k + 3, k + 4, k + 5, k + 6, k + 7]" for k :: nat
    by (simp add: upt_rec)
  let ?m = "limbs + 1"
  have blocks: "component_roles limbs 0 = map Some [0 ..< ?m]"
    "component_roles limbs 1 = map Some [?m ..< 2 * ?m]"
    using block [of 0] block [of 1] by (simp_all only: one_add_one mult_1_left mult_0 add_0)
  have "ballot_roles limbs = map Some ([0 ..< ?m] @ [?m ..< 2 * ?m] @ [2 * ?m ..< 2 * ?m + 8])"
    unfolding tail ballot_roles_def map_append blocks
    by (simp add: ballot_plaintext_def plaintext_complement_def
        packing_quotient_def ballot_scores_def auxiliary_quotient_def auxiliary_error_def)
  also have "[0 ..< ?m] @ [?m ..< 2 * ?m] @ [2 * ?m ..< 2 * ?m + 8] = [0 ..< 2 * ?m + 8]"
    by (simp only: split le_add1 mult_2 zero_le le_add2 add.assoc)
  also have "2 * ?m + 8 = ballot_words limbs"
    by (simp add: ballot_words_def ballot_scores_def ballot_plaintext_def)
  finally show ?thesis .
qed

text \<open>Release variables occupy consecutive whole words.\<close>

lemma variable_starts_layout:
  assumes "variable_starts used widths = (starts, tw)"
  shows "length starts = length widths" "tw = used + sum_list (map (\<lambda>w. div_ceil w WORD_BITS) widths)"
    "sorted_wrt (\<lambda>(w, s) (w', s'). s + div_ceil w WORD_BITS \<le> s') (zip widths starts)"
    "\<forall>(w, s) \<in> set (zip widths starts). used \<le> s \<and> s + div_ceil w WORD_BITS \<le> tw"
proof -
  have "length starts = length widths
      \<and> tw = used + sum_list (map (\<lambda>w. div_ceil w WORD_BITS) widths)
      \<and> sorted_wrt (\<lambda>(w, s) (w', s'). s + div_ceil w WORD_BITS \<le> s') (zip widths starts)
      \<and> (\<forall>(w, s) \<in> set (zip widths starts). used \<le> s \<and> s + div_ceil w WORD_BITS \<le> tw)"
    using assms
  proof (induction widths arbitrary: used starts)
    case Nil
    then show ?case by simp
  next
    case (Cons w ws)
    let ?used = "used + div_ceil w WORD_BITS"
    obtain rest where rest: "variable_starts ?used ws = (rest, tw)" "starts = used # rest"
      using Cons.prems by (auto split: prod.splits)
    note IH = Cons.IH [OF rest(1)]
    have "?used \<le> tw" using IH by simp
    with IH rest(2) show ?case by (auto; fastforce)
  qed
  then show "length starts = length widths"
    "tw = used + sum_list (map (\<lambda>w. div_ceil w WORD_BITS) widths)"
    "sorted_wrt (\<lambda>(w, s) (w', s'). s + div_ceil w WORD_BITS \<le> s') (zip widths starts)"
    "\<forall>(w, s) \<in> set (zip widths starts). used \<le> s \<and> s + div_ceil w WORD_BITS \<le> tw"
    by blast+
qed

lemma div_ceil_pos: "a mod b \<noteq> 0 \<Longrightarrow> 0 < div_ceil a b"
  by (simp add: div_ceil_def)

lemma release_relation_ok:
  assumes "release_relation TABLE p = Some r"
  shows "relation_ok r"
proof -
  let ?ws = "release_variable_bits p"
  obtain starts tw where st: "release_variable_starts p = (starts, tw)" by fastforce
  note lay = variable_starts_layout [OF st [unfolded release_variable_starts_def]]
  let ?kept = "filter (\<lambda>(w, s). w mod WORD_BITS \<noteq> 0) (zip ?ws starts)"
  from assms st have r: "words r = tw" "booleans r = 2"
    "zero_product_pairs r = [(tw, tw + 1)]" "length (supports r) = 1"
    "narrow r = map (\<lambda>(w, s). (s + div_ceil w WORD_BITS - 1, narrow_factor (w mod WORD_BITS))) ?kept"
    by (auto simp: release_relation_def Let_def Option.bind_eq_Some_conv)
  have "sorted_wrt (\<lambda>(w, s) (w', s'). s + div_ceil w WORD_BITS \<le> s') ?kept"
    by (rule sorted_wrt_filter [OF lay(3)])
  then have "sorted_wrt (\<lambda>(w, s) (w', s'). s + div_ceil w WORD_BITS - 1 < s' + div_ceil w' WORD_BITS - 1) ?kept"
  proof (rule sorted_wrt_mono_rel [rotated])
    fix x y
    assume "x \<in> set ?kept" "y \<in> set ?kept"
      and le: "(case x of (w, s) \<Rightarrow> \<lambda>(w', s'). s + div_ceil w WORD_BITS \<le> s') y"
    then have "0 < div_ceil (fst x) WORD_BITS" "0 < div_ceil (fst y) WORD_BITS"
      by (auto intro: div_ceil_pos)
    with le show "(case x of (w, s) \<Rightarrow> \<lambda>(w', s').
        s + div_ceil w WORD_BITS - 1 < s' + div_ceil w' WORD_BITS - 1) y"
      by (simp add: case_prod_unfold)
  qed
  then have "sorted_wrt (<) (map fst (narrow r))"
    by (simp add: r sorted_wrt_map case_prod_unfold)
  then have "distinct (map fst (narrow r))" by (simp add: strict_sorted_iff)
  moreover have "column < words r \<and> 1 < factor \<and> factor < 2 ^ WORD_BITS"
    if narrow_in: "(column, factor) \<in> set (narrow r)" for column factor
  proof -
    from narrow_in obtain w s where ws: "(w, s) \<in> set (zip ?ws starts)" "w mod WORD_BITS \<noteq> 0"
      "column = s + div_ceil w WORD_BITS - 1" "factor = narrow_factor (w mod WORD_BITS)"
      by (auto simp: r)
    moreover have "w mod WORD_BITS < WORD_BITS" by (simp add: WORD_BITS_def)
    moreover have "s + div_ceil w WORD_BITS \<le> tw" using lay(4) ws(1) by auto
    ultimately show ?thesis
      using narrow_factor_bounds [of "w mod WORD_BITS"] div_ceil_pos [of w WORD_BITS]
      by (simp add: r(1))
  qed
  ultimately show ?thesis
    by (auto simp: relation_ok_def r(1-4) columns_def zero_products_def)
qed

text \<open>Linking the source keeps the setup columns apart and adds one pair.\<close>

lemma source_linked_relation_ok:
  assumes "relation_ok (setup_relation p)" "source_linked_relation TABLE p = Some r"
  shows "relation_ok r \<and> message_bytes r = minimum_message_bytes r"
proof -
  let ?s = "setup_relation p"
  let ?old = "words ?s"
  from assms(2) have r: "words r = ?old + 8" "booleans r = booleans ?s + 2"
    "zero_product_pairs r = map (\<lambda>(a, b). (remap a ?old, remap b ?old)) (zero_product_pairs ?s)
       @ [(?old + 8 + booleans ?s, ?old + 8 + booleans ?s + 1)]"
    "supports r = supports ?s @ [(1, AUXILIARY_SECRET_SUPPORT div 2)]"
    "narrow r = narrow ?s @ map (\<lambda>c. (?old + 2 * c + 1, 512)) [0 ..< 4]"
    by (auto simp: source_linked_relation_def Let_def Option.bind_eq_Some_conv ADDED_WORDS_def
        ADDED_BOOLEANS_def)
  have msg: "message_bytes r = minimum_message_bytes r"
    using assms(2)
    by (auto simp: source_linked_relation_def Let_def Option.bind_eq_Some_conv)
  have pairs: "?old \<le> a \<and> b = a + 1 \<and> b < ?old + booleans ?s"
    if "(a, b) \<in> set (zero_product_pairs ?s)" for a b
    using assms(1) that by (auto simp: relation_ok_def columns_def)
  have shifted: "map (\<lambda>(a, b). (remap a ?old, remap b ?old)) (zero_product_pairs ?s)
      = map (\<lambda>(a, b). (a + 8, b + 8)) (zero_product_pairs ?s)"
    using pairs by (force simp: remap_def ADDED_WORDS_def)
  have "sorted_wrt (\<lambda>x y. snd x < fst y) (zero_product_pairs ?s)"
    using assms(1) by (simp add: relation_ok_def)
  then have sorted: "sorted_wrt (\<lambda>x y. snd x < fst y) (zero_product_pairs r)"
    using pairs unfolding r(3) shifted
    by (force simp: sorted_wrt_append sorted_wrt_map case_prod_unfold)
  have zp: "\<forall>(a, b) \<in> set (zero_product_pairs r). words r \<le> a \<and> b = a + 1 \<and> b < columns r"
    using pairs unfolding r(3) shifted by (force simp: r(1,2) columns_def)
  have upt4: "[0 ..< 4] = [0, 1, 2, 3 :: nat]" by (simp add: upt_rec)
  have nar: "\<forall>(c, f) \<in> set (narrow r). c < words r \<and> 1 < f \<and> f < 2 ^ WORD_BITS"
    using assms(1) unfolding r(5) upt4 by (auto simp: relation_ok_def r(1) WORD_BITS_def; fastforce)
  have "fst ` set (narrow ?s) \<subseteq> {..< ?old}"
    using assms(1) by (auto simp: relation_ok_def)
  then have dis: "distinct (map fst (narrow r))"
    using assms(1) unfolding r(5) upt4 by (auto simp: relation_ok_def)
  have "length (supports r) \<le> zero_products r"
    using assms(1) by (simp add: relation_ok_def zero_products_def r)
  with msg sorted zp nar dis show ?thesis by (simp add: relation_ok_def)
qed

section \<open>Properties\<close>

text \<open>
  C40.  The setup relation, the source-linked relation built on it and the release relation are well formed: narrow
  columns are words with a factor that fits, zero products are adjacent Boolean columns after
  the words, no column is used twice, and the linked relation's messages have the minimum size.
\<close>

theorem setup_relations_are_well_formed:
  assumes "0 < share_limb_bits p" "share_limb_bits p < sharing_coefficient_bits p"
    and "0 < share_carry_bits p" "source_linked_relation TABLE p = Some r"
    and "release_relation TABLE p = Some q"
  shows "relation_ok (setup_relation p) \<and> relation_ok r \<and> message_bytes r = minimum_message_bytes r
    \<and> relation_ok q"
  using setup_relation_ok [OF assms(1-3)] source_linked_relation_ok assms(4)
    release_relation_ok [OF assms(5)] by blast

text \<open>
  The ballot relation exists for every profile and is well formed, and its word columns
  have exactly one role each: listed in order, the roles are the columns from zero up.
\<close>

theorem ballot_columns_have_one_role:
  assumes "0 < limbs"
  shows "ballot_roles limbs = map Some [0 ..< ballot_words limbs]
    \<and> (\<exists>r. ballot_relation p = Some r \<and> relation_ok r)"
  using ballot_roles_exact [OF assms] ballot_relation_ok by blast

theorem ballot_columns_have_one_role_witness:
  "ballot_roles 2 = map Some [0 ..< ballot_words 2]
   \<and> (\<exists>r. ballot_relation sample_profile = Some r \<and> relation_ok r)"
  by (rule ballot_columns_have_one_role) simp

lemma sample_relations_defined:
  "source_linked_relation sample_TABLE sample_profile
     = Some (the (source_linked_relation sample_TABLE sample_profile))"
  "release_relation sample_TABLE sample_profile
     = Some (the (release_relation sample_TABLE sample_profile))"
proof -
  have "auxiliary_modulus sample_TABLE = Some [1, 48]" by code_simp
  then have "source_linked_relation sample_TABLE sample_profile \<noteq> None"
    by (simp add: source_linked_relation_def Let_def)
  then show "source_linked_relation sample_TABLE sample_profile
     = Some (the (source_linked_relation sample_TABLE sample_profile))" by simp
  have "share_modulus sample_TABLE = Some [1, 16]" by code_simp
  moreover have "\<exists>bs. to_bytes (release sample_profile) = Some bs"
    using to_bytes_value [of "release sample_profile"] by (auto simp: sample_profile_def)
  ultimately have "release_modulus_parameters sample_TABLE sample_profile \<noteq> None"
    by (auto simp: release_modulus_parameters_def)
  then have "release_relation sample_TABLE sample_profile \<noteq> None"
    by (auto simp: release_relation_def Let_def split: prod.splits)
  then show "release_relation sample_TABLE sample_profile
     = Some (the (release_relation sample_TABLE sample_profile))" by simp
qed

theorem setup_relations_are_well_formed_witness:
  "relation_ok (setup_relation sample_profile)
   \<and> relation_ok (the (source_linked_relation sample_TABLE sample_profile))
   \<and> message_bytes (the (source_linked_relation sample_TABLE sample_profile))
       = minimum_message_bytes (the (source_linked_relation sample_TABLE sample_profile))
   \<and> relation_ok (the (release_relation sample_TABLE sample_profile))"
  by (rule setup_relations_are_well_formed [OF _ _ _ sample_relations_defined])
    (simp_all add: sample_profile_def)

end
