(* ===== verification/Contribution_Offer.thy ===== *)
theory Contribution_Offer
  imports Roster Word_Relation
begin

text \<open>
  Setup contributions (\<open>protocol-foundations/src/contribution-body.rs\<close>): the lengths of a body,
  its header and the hasher that streams the polynomials and the proof; and the offer that
  commits a contributor to one body (\<open>contribution-offer.rs\<close>).
\<close>

section \<open>Contribution bodies\<close>

text \<open>\<open>usize::try_from(u64::from_le_bytes(..))\<close> for the 32-bit \<open>usize\<close> of the module.\<close>

definition usize_from_le :: "bytes \<Rightarrow> nat result" where
  "usize_from_le bs = (if le_value bs < usize_bound then Inr (le_value bs) else Inl Shape)"

definition BODY_HEADER_BYTES :: nat where "BODY_HEADER_BYTES = 8"

definition CONTRIBUTION_BODY_DOMAIN :: bytes where
  "CONTRIBUTION_BODY_DOMAIN = ascii_bytes ''sealed-lattice/contribution-body''"

text \<open>The ranges are \<open>None\<close> for a profile that the table does not have.\<close>

definition contribution_proof_lengths :: "bytes \<Rightarrow> profile \<Rightarrow> range_inclusive option" where
  "contribution_proof_lengths TABLE p =
     map_option (\<lambda>r. \<lparr>range_start = proof_header_bytes r, range_end = maximum_proof_bytes r\<rparr>)
       (source_linked_relation TABLE p)"

definition contribution_fixed_bytes :: "bytes \<Rightarrow> profile \<Rightarrow> nat option" where
  "contribution_fixed_bytes TABLE p =
     map_option (\<lambda>total. BODY_HEADER_BYTES + total)
       (sum_options (map (setup_polynomial_bytes TABLE p) (streamed_contribution_polynomials p)))"

definition contribution_body_lengths :: "bytes \<Rightarrow> profile \<Rightarrow> range_inclusive option" where
  "contribution_body_lengths TABLE p = do {
     fixed \<leftarrow> contribution_fixed_bytes TABLE p;
     proof \<leftarrow> contribution_proof_lengths TABLE p;
     Some \<lparr>range_start = fixed + range_start proof, range_end = fixed + range_end proof\<rparr> }"

definition within :: "range_inclusive option \<Rightarrow> nat \<Rightarrow> bool" where
  "within r n \<longleftrightarrow> (case r of None \<Rightarrow> False | Some bounds \<Rightarrow> range_contains bounds n)"

definition contribution_header_decode :: "bytes \<Rightarrow> profile \<Rightarrow> bytes \<Rightarrow> nat result" where
  "contribution_header_decode TABLE p bs =
     (if length bs \<noteq> BODY_HEADER_BYTES then Inl Shape
      else and_then (usize_from_le (take 8 bs)) (\<lambda>proof_length.
        if \<not> within (contribution_proof_lengths TABLE p) proof_length then Inl Shape
        else Inr proof_length))"

definition contribution_body_length :: "bytes \<Rightarrow> profile \<Rightarrow> nat \<Rightarrow> nat result" where
  "contribution_body_length TABLE p proof_length =
     (if \<not> within (contribution_proof_lengths TABLE p) proof_length then Inl Shape
      else ok_or Shape (map_option (\<lambda>fixed. fixed + proof_length)
        (contribution_fixed_bytes TABLE p)))"

definition contribution_body_header :: "bytes \<Rightarrow> profile \<Rightarrow> nat \<Rightarrow> bytes result" where
  "contribution_body_header TABLE p proof_length =
     (if \<not> within (contribution_proof_lengths TABLE p) proof_length then Inl Shape
      else Inr (le_bytes 8 proof_length))"

record contribution_hasher =
  cb_hash :: "identity_hasher option"
  cb_polynomials :: "(nat \<times> nat) list"
  cb_ordinal :: nat
  cb_polynomial_offset :: nat
  cb_proof_offset :: nat
  cb_proof_length :: nat
  cb_length :: nat

text \<open>
  The hasher of \<open>IdentityHasher::new\<close> may stream to a helper, so an operation also returns the
  jobs it submits.
\<close>

definition contribution_hasher_new ::
  "externals \<Rightarrow> bytes \<Rightarrow> nat \<Rightarrow> u64 \<Rightarrow> profile \<Rightarrow> bytes \<Rightarrow> (contribution_hasher \<times> bytes list) result" where
  "contribution_hasher_new E TABLE helpers session p header =
     and_then (contribution_header_decode TABLE p header) (\<lambda>proof_length.
     and_then (ok_or Shape (collect (map (\<lambda>index. map_option (\<lambda>n. (index, n))
         (setup_polynomial_bytes TABLE p index)) (streamed_contribution_polynomials p)))) (\<lambda>polynomials.
     let len = length header + sum_list (map snd polynomials) + proof_length in
     and_then (identity_new E helpers session CONTRIBUTION_BODY_DOMAIN [] len) (\<lambda>(hash, jobs).
     and_then (identity_absorb E header hash) (\<lambda>(hash1, jobs1).
     Inr (\<lparr> cb_hash = Some hash1, cb_polynomials = polynomials, cb_ordinal = 0,
            cb_polynomial_offset = 0, cb_proof_offset = 0, cb_proof_length = proof_length,
            cb_length = len \<rparr>, jobs @ jobs1)))))"

definition next_polynomial :: "contribution_hasher \<Rightarrow> (nat \<times> nat) option" where
  "next_polynomial h = get (cb_polynomials h) (cb_ordinal h)"

definition push_polynomial ::
  "externals \<Rightarrow> nat \<Rightarrow> nat \<Rightarrow> bytes \<Rightarrow> contribution_hasher \<Rightarrow> contribution_hasher \<times> bytes list result" where
  "push_polynomial E index offset bs h =
     guarded (ok_or Shape (next_polynomial h)) h (\<lambda>(expected, len).
       if index \<noteq> expected \<or> offset \<noteq> cb_polynomial_offset h \<or> bs = [] \<or> length bs > 2 ^ 20
          \<or> length bs > len - offset
       then (h, Inl Shape)
       else guarded (ok_or Consumed (cb_hash h)) h (\<lambda>hash.
         guarded (identity_absorb E bs hash) h (\<lambda>(hash1, jobs).
           let h1 = h\<lparr>cb_hash := Some hash1,
                      cb_polynomial_offset := cb_polynomial_offset h + length bs\<rparr>
           in (if cb_polynomial_offset h1 = len
               then h1\<lparr>cb_ordinal := cb_ordinal h1 + 1, cb_polynomial_offset := 0\<rparr> else h1,
               Inr jobs))))"

definition push_proof ::
  "externals \<Rightarrow> nat \<Rightarrow> bytes \<Rightarrow> contribution_hasher \<Rightarrow> contribution_hasher \<times> bytes list result" where
  "push_proof E offset bs h =
     (if next_polynomial h \<noteq> None \<or> offset \<noteq> cb_proof_offset h \<or> bs = [] \<or> length bs > 2 ^ 20
         \<or> length bs > cb_proof_length h - offset
      then (h, Inl Shape)
      else guarded (ok_or Consumed (cb_hash h)) h (\<lambda>hash.
        guarded (identity_absorb E bs hash) h (\<lambda>(hash1, jobs).
          (h\<lparr>cb_hash := Some hash1, cb_proof_offset := cb_proof_offset h + length bs\<rparr>, Inr jobs))))"

record computed_contribution_body =
  computed_identity :: bytes
  computed_length :: nat

definition contribution_hasher_finish ::
  "externals \<Rightarrow> contribution_hasher \<Rightarrow> computed_contribution_body result" where
  "contribution_hasher_finish E h =
     (if next_polynomial h \<noteq> None \<or> cb_proof_offset h \<noteq> cb_proof_length h then Inl Shape
      else and_then (ok_or Consumed (cb_hash h)) (\<lambda>hash.
        and_then (identity_finish E hash) (\<lambda>ident.
          Inr \<lparr>computed_identity = ident, computed_length = cb_length h\<rparr>)))"

section \<open>Offer envelopes\<close>

definition OFFER_PURPOSE :: bytes where
  "OFFER_PURPOSE = ascii_bytes ''sealed-lattice/contribution-offer''"

definition OFFER_IDENTITY_DOMAIN :: bytes where
  "OFFER_IDENTITY_DOMAIN = ascii_bytes ''sealed-lattice/contribution-offer-identity''"

definition MAXIMUM_OFFER_BYTES :: nat where "MAXIMUM_OFFER_BYTES = 1024"

record offer_envelope =
  offer_bytes :: bytes
  offer_roster :: bytes
  offer_position :: nat
  offer_body_length :: nat
  offer_body_identity :: bytes

definition offer_from_parts ::
  "externals \<Rightarrow> bytes \<Rightarrow> profile \<Rightarrow> bytes \<Rightarrow> nat \<Rightarrow> nat \<Rightarrow> bytes \<Rightarrow> offer_envelope result" where
  "offer_from_parts E TABLE p roster position body_length body_identity =
     (if position \<ge> setup_eligible_contributors p
         \<or> \<not> within (contribution_body_lengths TABLE p) body_length
      then Inl Shape
      else and_then (ok_or Shape (do {
          purpose \<leftarrow> nonempty_ascii OFFER_PURPOSE;
          tuple_encode E (message_tuple [purpose, hash512 roster, unsigned16 (word_of_nat position),
            unsigned64 (word_of_nat body_length), hash512 body_identity]) })) (\<lambda>bs.
        Inr \<lparr> offer_bytes = bs, offer_roster = roster, offer_position = position,
              offer_body_length = body_length, offer_body_identity = body_identity \<rparr>))"

definition offer_new ::
  "externals \<Rightarrow> bytes \<Rightarrow> roster_proposal \<Rightarrow> nat \<Rightarrow> nat \<Rightarrow> bytes \<Rightarrow> offer_envelope result" where
  "offer_new E TABLE R position body_length body_identity =
     offer_from_parts E TABLE (roster_profile R) (roster_identity R) position body_length body_identity"

definition offer_for_retained ::
  "externals \<Rightarrow> bytes \<Rightarrow> retained_context \<Rightarrow> nat \<Rightarrow> bytes \<Rightarrow> offer_envelope result" where
  "offer_for_retained E TABLE ctx body_length body_identity =
     offer_from_parts E TABLE (ctx_profile ctx) (ctx_proposal ctx) (ctx_position ctx)
       body_length body_identity"

definition offer_decode ::
  "externals \<Rightarrow> bytes \<Rightarrow> roster_proposal \<Rightarrow> bytes \<Rightarrow> offer_envelope result" where
  "offer_decode E TABLE R bs =
     and_then (ok_or Shape (tuple_decode E bs (message_limits MAXIMUM_OFFER_BYTES 5))) (\<lambda>tuple.
     if \<not> has_header tuple 5 then Inl Shape
     else let its = items tuple in
     and_then (if map item_type its \<noteq> [Ascii, Hash512, Unsigned16, Unsigned64, Hash512]
               then Inl Context else ok_or Shape (variable_value_bytes (its ! 0))) (\<lambda>purpose.
     if purpose \<noteq> OFFER_PURPOSE \<or> canonical_bytes (its ! 1) \<noteq> roster_identity R then Inl Context
     else
     and_then (try_array 2 (canonical_bytes (its ! 2))) (\<lambda>position.
     and_then (try_array 8 (canonical_bytes (its ! 3))) (\<lambda>len.
     and_then (usize_from_le len) (\<lambda>body_length.
     and_then (try_array 64 (canonical_bytes (its ! 4))) (\<lambda>body_identity.
     offer_new E TABLE R (unat (u16_from_le_bytes position)) body_length body_identity))))))"

text \<open>\<open>expect\<close> on the hash of bytes that one item holds, which always exists.\<close>

definition offer_identity :: "externals \<Rightarrow> offer_envelope \<Rightarrow> bytes" where
  "offer_identity E envelope =
     (case identity E OFFER_IDENTITY_DOMAIN (offer_bytes envelope) of Inl _ \<Rightarrow> [] | Inr h \<Rightarrow> h)"

record authenticated_offer =
  auth_offer_roster :: authenticated_roster
  auth_offer_envelope :: offer_envelope
  auth_offer_signature :: bytes

definition authenticate_offer ::
  "externals \<Rightarrow> bytes \<Rightarrow> authenticated_roster \<Rightarrow> bytes \<Rightarrow> bytes \<Rightarrow> authenticated_offer result" where
  "authenticate_offer E TABLE A bs signature =
     and_then (offer_decode E TABLE (auth_proposal A) bs) (\<lambda>envelope.
     and_then (try_array SIGNATURE_BYTES signature) (\<lambda>sig.
     let key = member_key (roster_records (auth_proposal A) ! offer_position envelope) in
     if \<not> verify_context E key OFFER_PURPOSE (offer_identity E envelope) sig then Inl Crypto
     else Inr \<lparr> auth_offer_roster = A, auth_offer_envelope = envelope,
                auth_offer_signature = sig \<rparr>))"

definition sign_offer ::
  "externals \<Rightarrow> retained_context \<Rightarrow> offer_envelope \<Rightarrow> bytes operation" where
  "sign_offer E ctx envelope c =
     guarded (validate_offer_context ctx c) c (\<lambda>_.
       if offer_roster envelope \<noteq> ctx_proposal ctx \<or> offer_position envelope \<noteq> ctx_position ctx
       then (c, Inl Context)
       else let c1 = c\<lparr>offer_signed := Some (offer_identity E envelope)\<rparr> in
         (c1, sign_deterministically E c1 (offer_identity E envelope) OFFER_PURPOSE))"

section \<open>Offers are an exact code\<close>

definition offer_items :: "bytes \<Rightarrow> nat \<Rightarrow> nat \<Rightarrow> bytes \<Rightarrow> canonical_item list" where
  "offer_items roster position body_length body_identity =
     [label_item OFFER_PURPOSE, hash512 roster, unsigned16 (word_of_nat position),
      unsigned64 (word_of_nat body_length), hash512 body_identity]"

lemma offer_labels:
  "labelled OFFER_PURPOSE" "length OFFER_PURPOSE = 33" "labelled OFFER_IDENTITY_DOMAIN"
  "OFFER_PURPOSE \<in> set SIGNING_CONTEXTS"
  by (simp_all add: OFFER_PURPOSE_def OFFER_IDENTITY_DOMAIN_def labelled_def ascii_bytes_def
      printable_ascii_def SIGNING_CONTEXTS_def)

lemma length_offer:
  assumes "length roster = 64" "length body_identity = 64"
  shows "length (tuple_bytes (message_tuple (offer_items roster position body_length body_identity))) = 211"
  using assms by (simp add: length_tuple_bytes offer_items_def offer_labels(2))

lemma flat_offer_items:
  assumes "length roster = 64" "length body_identity = 64"
  shows "\<forall>item \<in> set (offer_items roster position body_length body_identity). flat_item l item"
  using assms offer_labels(1,2)
  by (simp add: offer_items_def flat_label usize_bound_def labelled_def)

definition offer_of :: "bytes \<Rightarrow> nat \<Rightarrow> nat \<Rightarrow> bytes \<Rightarrow> offer_envelope" where
  "offer_of roster position body_length body_identity =
     \<lparr> offer_bytes = tuple_bytes (message_tuple (offer_items roster position body_length body_identity)),
       offer_roster = roster, offer_position = position, offer_body_length = body_length,
       offer_body_identity = body_identity \<rparr>"

lemma offer_from_parts_value:
  assumes "length roster = 64" "length body_identity = 64"
  shows "offer_from_parts E TABLE p roster position body_length body_identity =
    (if position < setup_eligible_contributors p
        \<and> within (contribution_body_lengths TABLE p) body_length
     then Inr (offer_of roster position body_length body_identity) else Inl Shape)"
proof -
  let ?its = "offer_items roster position body_length body_identity"
  have "tuple_encode E (message_tuple ?its) = Some (tuple_bytes (message_tuple ?its))"
    using flat_offer_items [OF assms] length_offer [OF assms, of position body_length]
    by (intro message_encode) (simp_all add: offer_items_def)
  then show ?thesis
    using nonempty_label [OF offer_labels(1)]
    by (simp add: offer_from_parts_def offer_items_def offer_of_def)
qed

lemma offer_decode_iff:
  assumes R: "length (roster_identity R) = 64"
    and bounds: "setup_eligible_contributors (roster_profile R) \<le> 65536"
  shows "offer_decode E TABLE R bs = Inr envelope \<longleftrightarrow>
    (\<exists>position body_length body_identity. length body_identity = 64
       \<and> body_length < usize_bound
       \<and> offer_new E TABLE R position body_length body_identity = Inr envelope
       \<and> offer_bytes envelope = bs)"
proof
  assume "offer_decode E TABLE R bs = Inr envelope"
  then obtain t where
    dec: "tuple_decode E bs (message_limits MAXIMUM_OFFER_BYTES 5) = Some t" and hdr: "has_header t 5"
    and types: "map item_type (items t) = [Ascii, Hash512, Unsigned16, Unsigned64, Hash512]"
    and t0: "variable_value_bytes (items t ! 0) = Some OFFER_PURPOSE"
    and t1: "canonical_bytes (items t ! 1) = roster_identity R"
    and t2: "length (canonical_bytes (items t ! 2)) = 2"
    and t3: "length (canonical_bytes (items t ! 3)) = 8"
      "le_value (canonical_bytes (items t ! 3)) < usize_bound"
    and t4: "length (canonical_bytes (items t ! 4)) = 64"
    and new: "offer_new E TABLE R (unat (u16_from_le_bytes (canonical_bytes (items t ! 2))))
      (le_value (canonical_bytes (items t ! 3))) (canonical_bytes (items t ! 4)) = Inr envelope"
    by (auto simp: offer_decode_def and_then_Inr_iff try_array_def usize_from_le_def Let_def
        split: if_splits)
  from lists_of_length(3) [of "items t"] hdr obtain i0 i1 i2 i3 i4 where
    its: "items t = [i0, i1, i2, i3, i4]" by (auto simp: has_header_def)
  have "i0 = label_item OFFER_PURPOSE" "i1 = hash512 (roster_identity R)"
    "i2 = unsigned16 (u16_from_le_bytes (canonical_bytes i2))"
    "i3 = unsigned64 (u64_from_le_bytes (canonical_bytes i3))"
    "i4 = hash512 (canonical_bytes i4)"
    using label_item_read [of i0] hash512_read [of i1] unsigned16_read [of i2]
      unsigned64_read [of i3] hash512_read [of i4] types t0 t1 t2 t3 by (simp_all add: its)
  then have "items t = offer_items (roster_identity R)
      (unat (u16_from_le_bytes (canonical_bytes (items t ! 2))))
      (le_value (canonical_bytes (items t ! 3))) (canonical_bytes (items t ! 4))"
    by (simp add: its offer_items_def u64_from_le_bytes_def)
  then have "bs = offer_bytes envelope"
    using message_decode_sound [OF dec hdr] new R t4
    by (auto simp: offer_new_def offer_from_parts_value offer_of_def split: if_splits)
  with new t3(2) t4 show "\<exists>position body_length body_identity. length body_identity = 64
       \<and> body_length < usize_bound
       \<and> offer_new E TABLE R position body_length body_identity = Inr envelope
       \<and> offer_bytes envelope = bs" by blast
next
  assume "\<exists>position body_length body_identity. length body_identity = 64
       \<and> body_length < usize_bound
       \<and> offer_new E TABLE R position body_length body_identity = Inr envelope
       \<and> offer_bytes envelope = bs"
  then obtain position body_length body_identity where b: "length body_identity = 64"
    "body_length < usize_bound"
    and new: "offer_new E TABLE R position body_length body_identity = Inr envelope"
    and bs: "bs = offer_bytes envelope" by blast
  let ?its = "offer_items (roster_identity R) position body_length body_identity"
  have e: "position < setup_eligible_contributors (roster_profile R)"
    "envelope = offer_of (roster_identity R) position body_length body_identity"
    using new R b(1) by (auto simp: offer_new_def offer_from_parts_value split: if_splits)
  have dec: "tuple_decode E bs (message_limits MAXIMUM_OFFER_BYTES 5) = Some (message_tuple ?its)"
    unfolding bs e(2)
    using flat_offer_items [OF R b(1)] length_offer [OF R b(1), of position body_length]
    by (simp add: offer_of_def) (intro message_decode, simp_all add: offer_items_def MAXIMUM_OFFER_BYTES_def)
  have "unat (word_of_nat position :: u16) = position" using e(1) bounds by simp
  moreover have "body_length < 2 ^ 64" using b(2) by (simp add: usize_bound_def)
  then have "le_value (u64_to_le_bytes (word_of_nat body_length)) = body_length"
    by (simp add: u64_to_le_bytes_def unat_of_nat)
  ultimately show "offer_decode E TABLE R bs = Inr envelope"
    using dec new b offer_labels(2)
    by (simp add: offer_decode_def Let_def offer_items_def try_array_def usize_from_le_def usize_bound_def)
qed

section \<open>The streamed body has the identity of its bytes\<close>

datatype contribution_part = PolynomialPart nat nat bytes | ProofPart nat bytes

fun part_bytes :: "contribution_part \<Rightarrow> bytes" where
  "part_bytes (PolynomialPart index offset bs) = bs"
| "part_bytes (ProofPart offset bs) = bs"

fun push_part ::
  "externals \<Rightarrow> contribution_part \<Rightarrow> contribution_hasher \<Rightarrow> contribution_hasher \<times> bytes list result" where
  "push_part E (PolynomialPart index offset bs) h = push_polynomial E index offset bs h"
| "push_part E (ProofPart offset bs) h = push_proof E offset bs h"

text \<open>The parts pushed one after another, until one is refused.\<close>

fun push_parts :: "externals \<Rightarrow> contribution_part list \<Rightarrow> contribution_hasher \<Rightarrow> contribution_hasher result" where
  "push_parts E [] h = Inr h"
| "push_parts E (part # parts) h =
     (case push_part E part h of (h1, Inl e) \<Rightarrow> Inl e | (h1, Inr _) \<Rightarrow> push_parts E parts h1)"

definition hasher_holds :: "nat \<Rightarrow> contribution_hasher \<Rightarrow> bytes \<Rightarrow> bytes \<Rightarrow> bool" where
  "hasher_holds len h framed bs \<longleftrightarrow> cb_length h = len
     \<and> (\<exists>hash. cb_hash h = Some hash \<and> absorbed_here (identity_stream hash) (framed @ bs)
          \<and> length bs + remaining hash = len)"

lemma push_part_holds:
  assumes "push_part E part h = (h1, Inr jobs)" "hasher_holds len h framed bs"
  shows "hasher_holds len h1 framed (bs @ part_bytes part)"
proof -
  from assms(2) obtain hash where hash: "cb_hash h = Some hash"
    "absorbed_here (identity_stream hash) (framed @ bs)" "length bs + remaining hash = len" "cb_length h = len"
    by (auto simp: hasher_holds_def)
  have "\<exists>hash1. identity_absorb E (part_bytes part) hash = Inr (hash1, jobs)
      \<and> cb_hash h1 = Some hash1 \<and> cb_length h1 = cb_length h"
    using assms(1) hash(1)
    by (cases part) (auto simp: push_polynomial_def push_proof_def guarded_Inr_iff Let_def
        split: if_splits)
  then obtain hash1 where h1: "identity_absorb E (part_bytes part) hash = Inr (hash1, jobs)"
    "cb_hash h1 = Some hash1" "cb_length h1 = cb_length h" by blast
  have fits: "length (part_bytes part) \<le> remaining hash"
    using h1(1) by (auto simp: identity_absorb_def split: if_splits)
  with identity_absorb_here(2) [OF hash(2) fits, of E] h1 hash(3,4) show ?thesis
    by (auto simp: hasher_holds_def)
qed

lemma push_parts_holds:
  "push_parts E parts h = Inr h1 \<Longrightarrow> hasher_holds len h framed bs
    \<Longrightarrow> hasher_holds len h1 framed (bs @ concat (map part_bytes parts))"
proof (induction parts arbitrary: h bs)
  case Nil
  then show ?case by simp
next
  case (Cons part parts)
  then obtain h2 jobs where "push_part E part h = (h2, Inr jobs)" "push_parts E parts h2 = Inr h1"
    by (auto split: prod.splits sum.splits)
  with Cons.IH push_part_holds Cons.prems(2) show ?case by fastforce
qed

lemma contribution_hasher_started:
  assumes "contribution_hasher_new E TABLE 0 session p header = Inr (h, jobs)"
    and "framing E CONTRIBUTION_BODY_DOMAIN [] (Variable (cb_length h)) = Inr framed"
  shows "hasher_holds (cb_length h) h framed header"
proof -
  from assms(1) obtain hash jobs0 hash1 jobs1 where
    new: "identity_new E 0 session CONTRIBUTION_BODY_DOMAIN [] (cb_length h) = Inr (hash, jobs0)"
    and absorb: "identity_absorb E header hash = Inr (hash1, jobs1)" "cb_hash h = Some hash1"
    by (auto simp: contribution_hasher_new_def and_then_Inr_iff Let_def)
  have "identity_new E 0 session CONTRIBUTION_BODY_DOMAIN [] (cb_length h)
      = identity_local E CONTRIBUTION_BODY_DOMAIN [] (cb_length h)"
    by (simp add: identity_new_def identity_local_def stream_new_def stream_held_here_def held_def)
  with new identity_local_started [OF assms(2)] have hash: "remaining hash = cb_length h"
    "absorbed_here (identity_stream hash) framed" by auto
  have fits: "length header \<le> remaining hash"
    using absorb(1) by (auto simp: identity_absorb_def split: if_splits)
  with identity_absorb_here(2) [OF hash(2) fits, of E] absorb hash(1) show ?thesis
    by (auto simp: hasher_holds_def)
qed

lemma contribution_identity:
  assumes new: "contribution_hasher_new E TABLE 0 session p header = Inr (h, jobs)"
    and parts: "push_parts E parts h = Inr h1"
    and fin: "contribution_hasher_finish E h1 = Inr body"
  shows "identity E CONTRIBUTION_BODY_DOMAIN (header @ concat (map part_bytes parts))
      = Inr (computed_identity body)
    \<and> computed_length body = length (header @ concat (map part_bytes parts))"
proof -
  let ?bs = "header @ concat (map part_bytes parts)"
  from new obtain hash0 jobs0 where
    "identity_new E 0 session CONTRIBUTION_BODY_DOMAIN [] (cb_length h) = Inr (hash0, jobs0)"
    by (auto simp: contribution_hasher_new_def and_then_Inr_iff Let_def)
  then obtain framed where
    framed: "framing E CONTRIBUTION_BODY_DOMAIN [] (Variable (cb_length h)) = Inr framed"
    by (auto simp: identity_new_def with_stream_def split: sum.splits)
  have "hasher_holds (cb_length h) h1 framed ?bs"
    using push_parts_holds [OF parts contribution_hasher_started [OF new framed]] by simp
  then obtain hash where hash: "cb_hash h1 = Some hash"
    "absorbed_here (identity_stream hash) (framed @ ?bs)" "length ?bs + remaining hash = cb_length h"
    "cb_length h1 = cb_length h"
    by (auto simp: hasher_holds_def)
  have fin_parts: "remaining hash = 0" "computed_identity body = shake256 E (framed @ ?bs)"
    "computed_length body = cb_length h1"
    using fin hash(1) identity_finish_here [OF hash(2), of E]
    by (auto simp: contribution_hasher_finish_def and_then_Inr_iff split: if_splits)
  have len: "length ?bs = cb_length h" using hash(3) fin_parts(1) by simp
  obtain g where g: "identity_local E CONTRIBUTION_BODY_DOMAIN [] (cb_length h) = Inr (g, [])"
    "remaining g = cb_length h" "absorbed_here (identity_stream g) framed"
    using identity_local_started [OF framed] by blast
  obtain g1 where "identity_absorb E ?bs g = Inr (g1, [])" "remaining g1 = 0"
    "absorbed_here (identity_stream g1) (framed @ ?bs)"
    using identity_absorb_here(2) [OF g(3), of ?bs E] g(2) len by auto
  with g len fin_parts hash(4) identity_finish_here [of g1 "framed @ ?bs" E] show ?thesis
    by (simp add: identity_def)
qed

end
