(* ===== verification/Setup_Selection.thy ===== *)
theory Setup_Selection
  imports Contribution_Offer
begin

text \<open>
  Setup selection (\<open>protocol-foundations/src/setup-selection.rs\<close>): the organizer's proposal of the
  selected contributions, the members' endorsements of it, the certificate that carries a quorum
  of endorsements, and the credential's operations that sign and restore them.
\<close>

section \<open>Proposals\<close>

definition SELECTION_PURPOSE :: bytes where
  "SELECTION_PURPOSE = ascii_bytes ''sealed-lattice/setup-selection''"

definition SELECTION_IDENTITY_DOMAIN :: bytes where
  "SELECTION_IDENTITY_DOMAIN = ascii_bytes ''sealed-lattice/setup-selection-identity''"

definition PROPOSAL_CONTEXT :: bytes where
  "PROPOSAL_CONTEXT = ascii_bytes ''sealed-lattice/setup-selection-proposal''"

definition ENDORSEMENT_PURPOSE :: bytes where
  "ENDORSEMENT_PURPOSE = ascii_bytes ''sealed-lattice/setup-selection-endorsement''"

definition ENDORSEMENT_IDENTITY_DOMAIN :: bytes where
  "ENDORSEMENT_IDENTITY_DOMAIN = ascii_bytes ''sealed-lattice/setup-selection-endorsement-identity''"

definition ENDORSEMENT_BYTES :: nat where "ENDORSEMENT_BYTES = 2 + 64 + SIGNATURE_BYTES"

definition MAXIMUM_SELECTION_BYTES :: nat where "MAXIMUM_SELECTION_BYTES = 2048"

definition RETAINED_INPUTS_LABEL :: bytes where
  "RETAINED_INPUTS_LABEL = ascii_bytes ''sealed-lattice/retained-selection-inputs''"

definition selection_body_bytes :: "externals \<Rightarrow> profile \<Rightarrow> nat option" where
  "selection_body_bytes E p = do {
     purpose \<leftarrow> nonempty_ascii SELECTION_PURPOSE;
     list \<leftarrow> variable_bytes (replicate (4 + 66 * setup_contributors p) 0);
     encoded \<leftarrow> tuple_encode E (message_tuple [purpose, hash512 (replicate 64 0), list]);
     Some (length encoded) }"

record selection_proposal =
  selection_body :: bytes
  selection_identity :: bytes
  selection_roster :: bytes
  selected :: "(nat \<times> bytes) list"

text \<open>\<open>windows(2)\<close>: the pairs of neighbours.\<close>

definition windows2 :: "'a list \<Rightarrow> ('a \<times> 'a) list" where
  "windows2 xs = zip xs (tl xs)"

definition selection_entries :: "(nat \<times> bytes) list \<Rightarrow> bytes" where
  "selection_entries chosen =
     le_bytes 4 (length chosen)
       @ concat (map (\<lambda>(position, body). u16_to_le_bytes (word_of_nat position) @ body) chosen)"

definition selection_new ::
  "externals \<Rightarrow> roster_proposal \<Rightarrow> (nat \<times> bytes) list \<Rightarrow> selection_proposal result" where
  "selection_new E R chosen =
     (let p = roster_profile R in
      if length chosen \<noteq> setup_contributors p
         \<or> (\<exists>(position, _) \<in> set chosen. position \<ge> setup_eligible_contributors p)
         \<or> (\<exists>(before, after) \<in> set (windows2 chosen). fst before \<ge> fst after)
      then Inl Shape
      else
        and_then (ok_or Shape (do {
          purpose \<leftarrow> nonempty_ascii SELECTION_PURPOSE;
          list \<leftarrow> variable_bytes (selection_entries chosen);
          tuple_encode E (message_tuple [purpose, hash512 (roster_identity R), list]) })) (\<lambda>body.
        and_then (identity E SELECTION_IDENTITY_DOMAIN body) (\<lambda>ident.
        Inr \<lparr> selection_body = body, selection_identity = ident,
              selection_roster = roster_identity R, selected = chosen \<rparr>)))"

definition selection_entry :: "bytes \<Rightarrow> nat \<times> bytes" where
  "selection_entry entry = (unat (u16_from_le_bytes (take 2 entry)), drop 2 entry)"

definition selection_decode ::
  "externals \<Rightarrow> roster_proposal \<Rightarrow> bytes \<Rightarrow> selection_proposal result" where
  "selection_decode E R bs =
     and_then (ok_or Shape (tuple_decode E bs (message_limits MAXIMUM_SELECTION_BYTES 3))) (\<lambda>tuple.
     if \<not> has_header tuple 3 then Inl Shape
     else let its = items tuple in
     and_then (if item_type (its ! 0) \<noteq> Ascii \<or> item_type (its ! 1) \<noteq> Hash512
                  \<or> item_type (its ! 2) \<noteq> RawBytes
               then Inl Context else ok_or Shape (variable_value_bytes (its ! 0))) (\<lambda>purpose.
     if purpose \<noteq> SELECTION_PURPOSE \<or> canonical_bytes (its ! 1) \<noteq> roster_identity R
     then Inl Context
     else
     and_then (ok_or Shape (variable_value_bytes (its ! 2))) (\<lambda>entries.
     if length entries \<noteq> 4 + setup_contributors (roster_profile R) * 66
        \<or> le_value (take 4 entries) \<noteq> setup_contributors (roster_profile R)
     then Inl Shape
     else selection_new E R (map selection_entry (chunks_exact 66 (drop 4 entries))))))"

section \<open>Authentication\<close>

record authenticated_selection =
  as_roster :: authenticated_roster
  as_selection :: selection_proposal
  as_signature :: bytes

definition verify_member ::
  "externals \<Rightarrow> roster_proposal \<Rightarrow> nat \<Rightarrow> bytes \<Rightarrow> bytes \<Rightarrow> bytes \<Rightarrow> unit result" where
  "verify_member E R position message signature purpose =
     and_then (ok_or Context (get (roster_records R) position)) (\<lambda>r.
       if \<not> verify_context E (member_key r) purpose message signature then Inl Crypto else Inr ())"

definition authenticate_selection ::
  "externals \<Rightarrow> authenticated_roster \<Rightarrow> bytes \<Rightarrow> bytes \<Rightarrow> authenticated_selection result" where
  "authenticate_selection E A body signature =
     and_then (selection_decode E (auth_proposal A) body) (\<lambda>s.
     and_then (try_array SIGNATURE_BYTES signature) (\<lambda>sig.
     and_then (verify_member E (auth_proposal A) (roster_organizer_position (auth_proposal A))
                 (selection_identity s) sig PROPOSAL_CONTEXT) (\<lambda>_.
     Inr \<lparr>as_roster = A, as_selection = s, as_signature = sig\<rparr>)))"

definition endorsement_body :: "externals \<Rightarrow> bytes \<Rightarrow> nat \<Rightarrow> bytes result" where
  "endorsement_body E selection position = ok_or Shape (do {
     purpose \<leftarrow> nonempty_ascii ENDORSEMENT_PURPOSE;
     index \<leftarrow> u16_try_from position;
     tuple_encode E (message_tuple [purpose, hash512 selection, unsigned16 index]) })"

definition endorsement_identity :: "externals \<Rightarrow> bytes \<Rightarrow> nat \<Rightarrow> bytes result" where
  "endorsement_identity E selection position =
     and_then (endorsement_body E selection position) (identity E ENDORSEMENT_IDENTITY_DOMAIN)"

record authenticated_endorsement =
  ae_roster :: bytes
  ae_position :: nat
  ae_selection :: bytes
  ae_signature :: bytes

definition endorsement_packet :: "nat \<Rightarrow> bytes \<Rightarrow> bytes \<Rightarrow> bytes" where
  "endorsement_packet position selection signature =
     u16_to_le_bytes (word_of_nat position) @ selection @ signature"

definition endorsement ::
  "externals \<Rightarrow> authenticated_roster \<Rightarrow> selection_proposal \<Rightarrow> nat \<Rightarrow> bytes
     \<Rightarrow> authenticated_endorsement result" where
  "endorsement E A s position signature =
     and_then (endorsement_identity E (selection_identity s) position) (\<lambda>message.
     and_then (verify_member E (auth_proposal A) position message signature ENDORSEMENT_PURPOSE) (\<lambda>_.
     Inr \<lparr>ae_roster = roster_identity (auth_proposal A), ae_position = position,
          ae_selection = selection_identity s, ae_signature = signature\<rparr>))"

definition authenticate_endorsement ::
  "externals \<Rightarrow> authenticated_roster \<Rightarrow> selection_proposal \<Rightarrow> bytes
     \<Rightarrow> authenticated_endorsement result" where
  "authenticate_endorsement E A s packet =
     (if length packet \<noteq> ENDORSEMENT_BYTES then Inl Shape
      else if selection_roster s \<noteq> roster_identity (auth_proposal A)
              \<or> slice 2 66 packet \<noteq> selection_identity s
      then Inl Context
      else endorsement E A s (unat (u16_from_le_bytes (take 2 packet))) (drop 66 packet))"

section \<open>Certificates\<close>

record authenticated_certificate =
  ac_proposal :: authenticated_selection
  ac_endorsements :: "authenticated_endorsement list"
  ac_bytes :: bytes

definition certificate_bytes :: "profile \<Rightarrow> nat \<Rightarrow> nat result" where
  "certificate_bytes p proposal_length =
     (if proposal_length > MAXIMUM_SELECTION_BYTES then Inl Shape
      else Inr (4 + proposal_length + SIGNATURE_BYTES
                  + inventory_threshold (participants p) * (2 + SIGNATURE_BYTES)))"

definition endorsement_entry :: "authenticated_endorsement \<Rightarrow> bytes" where
  "endorsement_entry e = u16_to_le_bytes (word_of_nat (ae_position e)) @ ae_signature e"

definition encode_certificate ::
  "authenticated_selection \<Rightarrow> authenticated_endorsement list \<Rightarrow> bytes result" where
  "encode_certificate P es =
     (let R = auth_proposal (as_roster P); p = roster_profile R in
      if length es \<noteq> inventory_threshold (participants p)
         \<or> (\<exists>e \<in> set es. ae_position e \<ge> participants p
              \<or> ae_selection e \<noteq> selection_identity (as_selection P)
              \<or> ae_roster e \<noteq> roster_identity R)
         \<or> (\<exists>(before, after) \<in> set (windows2 es). ae_position before \<ge> ae_position after)
      then Inl Context
      else Inr (le_bytes 4 (length (selection_body (as_selection P)))
        @ selection_body (as_selection P) @ as_signature P @ concat (map endorsement_entry es)))"

text \<open>\<open>collect\<close> on results: the first refusal is the result.\<close>

fun collect_results :: "('e + 'a) list \<Rightarrow> 'e + 'a list" where
  "collect_results [] = Inr []"
| "collect_results (r # rs) = and_then r (\<lambda>v. and_then (collect_results rs) (\<lambda>vs. Inr (v # vs)))"

definition authenticate_certificate ::
  "externals \<Rightarrow> authenticated_roster \<Rightarrow> bytes \<Rightarrow> authenticated_certificate result" where
  "authenticate_certificate E A bs =
     (if length bs < 4 then Inl Shape
      else let len = le_value (take 4 bs) in
      and_then (certificate_bytes (roster_profile (auth_proposal A)) len) (\<lambda>expected.
      if length bs \<noteq> expected then Inl Shape
      else
      and_then (authenticate_selection E A (slice 4 (4 + len) bs)
                  (slice (4 + len) (4 + len + SIGNATURE_BYTES) bs)) (\<lambda>P.
      and_then (collect_results (map (\<lambda>entry. endorsement E A (as_selection P)
                  (unat (u16_from_le_bytes (take 2 entry))) (drop 2 entry))
                  (chunks_exact (2 + SIGNATURE_BYTES) (drop (4 + len + SIGNATURE_BYTES) bs)))) (\<lambda>es.
      and_then (encode_certificate P es) (\<lambda>encoded.
      if encoded \<noteq> bs then Inl Shape
      else Inr \<lparr>ac_proposal = P, ac_endorsements = es, ac_bytes = bs\<rparr>)))))"

section \<open>Signing and restoring\<close>

definition sign_selection_proposal ::
  "externals \<Rightarrow> authenticated_roster \<Rightarrow> selection_proposal \<Rightarrow> bytes operation" where
  "sign_selection_proposal E A s c =
     guarded (check_unlocked SelectionProposalPurpose c) c (\<lambda>_.
     guarded (check_confirmed_position (auth_proposal A)
                (roster_organizer_position (auth_proposal A)) c) c (\<lambda>_.
     if preparation_retired c \<or> selection_proposal_signed c \<noteq> None then (c, Inl Consumed)
     else if selection_roster s \<noteq> roster_identity (auth_proposal A) then (c, Inl Context)
     else let c1 = c\<lparr>selection_proposal_signed := Some (selection_identity s)\<rparr> in
       (c1, sign_deterministically E c1 (selection_identity s) PROPOSAL_CONTEXT)))"

definition endorse_selection ::
  "externals \<Rightarrow> authenticated_roster \<Rightarrow> selection_proposal \<Rightarrow> nat \<Rightarrow> bytes operation" where
  "endorse_selection E A s position c =
     guarded (check_unlocked SelectionEndorsementPurpose c) c (\<lambda>_.
     guarded (check_confirmed_position (auth_proposal A) position c) c (\<lambda>_.
     if preparation_retired c \<or> selection_endorsed c \<noteq> None then (c, Inl Consumed)
     else if selection_roster s \<noteq> roster_identity (auth_proposal A) then (c, Inl Context)
     else guarded (endorsement_identity E (selection_identity s) position) c (\<lambda>message.
       let c1 = c\<lparr>selection_endorsed := Some (selection_identity s)\<rparr> in
       guarded (sign_deterministically E c1 message ENDORSEMENT_PURPOSE) c1 (\<lambda>signature.
         (c1, Inr (endorsement_packet position (selection_identity s) signature))))))"

definition restore_selection_proposal :: "authenticated_selection \<Rightarrow> unit operation" where
  "restore_selection_proposal P c =
     (let R = auth_proposal (as_roster P); target = selection_identity (as_selection P) in
      guarded (check_confirmed_position R (roster_organizer_position R) c) c (\<lambda>_.
      if (case selection_proposal_signed c of None \<Rightarrow> False | Some old \<Rightarrow> old \<noteq> target)
      then (c, Inl Consumed)
      else (c\<lparr>selection_proposal_signed := Some target,
              locked_purposes := locked_purposes c OR purpose_mask SelectionProposalPurpose\<rparr>,
            Inr ())))"

definition restore_selection_endorsement ::
  "authenticated_roster \<Rightarrow> authenticated_endorsement \<Rightarrow> unit operation" where
  "restore_selection_endorsement A e c =
     guarded (check_confirmed_position (auth_proposal A) (ae_position e) c) c (\<lambda>_.
     if ae_roster e \<noteq> roster_identity (auth_proposal A) then (c, Inl Context)
     else if (case selection_endorsed c of None \<Rightarrow> False | Some old \<Rightarrow> old \<noteq> ae_selection e)
     then (c, Inl Consumed)
     else (c\<lparr>selection_endorsed := Some (ae_selection e),
             locked_purposes := locked_purposes c OR purpose_mask SelectionEndorsementPurpose\<rparr>,
           Inr ()))"

definition retained_selection_inputs_tag ::
  "externals \<Rightarrow> credential \<Rightarrow> verified_poll \<Rightarrow> bytes \<Rightarrow> bytes" where
  "retained_selection_inputs_tag E c poll reference = retained_tag E c RETAINED_INPUTS_LABEL poll reference"

definition check_retained_selection_inputs_tag ::
  "externals \<Rightarrow> credential \<Rightarrow> verified_poll \<Rightarrow> bytes \<Rightarrow> bytes \<Rightarrow> unit result" where
  "check_retained_selection_inputs_tag E c poll reference tag_bytes =
     check_retained_tag E c RETAINED_INPUTS_LABEL poll reference tag_bytes"

end
