(* ===== verification/Ballot_Signing.thy ===== *)
theory Ballot_Signing
  imports Setup_Selection
begin

text \<open>
  Ballots (\<open>protocol-foundations/src/ballot-body.rs\<close>, \<open>ballot-authentication.rs\<close>): the lengths and
  the header of a ballot body, the fixed-layout envelope that names it, the owner a credential
  retains for a setup, and the one ballot a credential signs or restores.
\<close>

section \<open>Ballot bodies\<close>

definition BALLOT_HEADER_BYTES :: nat where "BALLOT_HEADER_BYTES = 4 + 2 * DIGEST_BYTES + 2 + 1 + 1"

definition CONTEXT_BYTES :: nat where "CONTEXT_BYTES = BALLOT_HEADER_BYTES"

definition BALLOT_BODY_HEADER_BYTES :: nat where
  "BALLOT_BODY_HEADER_BYTES = 8 + CONTEXT_BYTES + PROOF_HEADER_BYTES"

definition BALLOT_BODY_DOMAIN :: bytes where
  "BALLOT_BODY_DOMAIN = ascii_bytes ''sealed-lattice/ballot-body''"

definition ballot_polynomials :: "bytes \<Rightarrow> profile \<Rightarrow> (nat \<times> nat) list option" where
  "ballot_polynomials TABLE p = do {
     modulus \<leftarrow> auxiliary_modulus TABLE;
     let fhe = DEGREE * (1 + byte_length (ciphertext p));
     let auxiliary = AUXILIARY_DEGREE * (1 + length modulus);
     Some [(2, fhe), (3, fhe), (6, auxiliary), (7, auxiliary)] }"

definition ballot_polynomial :: "bytes \<Rightarrow> profile \<Rightarrow> nat \<Rightarrow> (nat \<times> nat) option" where
  "ballot_polynomial TABLE p ordinal = do {
     polynomials \<leftarrow> ballot_polynomials TABLE p;
     get polynomials ordinal }"

definition ballot_ciphertext_bytes :: "bytes \<Rightarrow> profile \<Rightarrow> nat option" where
  "ballot_ciphertext_bytes TABLE p =
     map_option (\<lambda>polynomials. sum_list (map snd polynomials)) (ballot_polynomials TABLE p)"

definition ballot_proof_lengths :: "profile \<Rightarrow> range_inclusive option" where
  "ballot_proof_lengths p =
     map_option (\<lambda>r. \<lparr>range_start = PROOF_HEADER_BYTES, range_end = maximum_proof_bytes r\<rparr>)
       (ballot_relation p)"

definition ballot_body_length :: "bytes \<Rightarrow> profile \<Rightarrow> nat \<Rightarrow> nat option" where
  "ballot_body_length TABLE p proof_length =
     map_option (\<lambda>ciphertexts. BALLOT_BODY_HEADER_BYTES + ciphertexts + proof_length
                                 - PROOF_HEADER_BYTES)
       (ballot_ciphertext_bytes TABLE p)"

definition ballot_body_lengths :: "bytes \<Rightarrow> profile \<Rightarrow> range_inclusive option" where
  "ballot_body_lengths TABLE p = do {
     proofs \<leftarrow> ballot_proof_lengths p;
     least \<leftarrow> ballot_body_length TABLE p (range_start proofs);
     greatest \<leftarrow> ballot_body_length TABLE p (range_end proofs);
     Some \<lparr>range_start = least, range_end = greatest\<rparr> }"

definition check_context :: "profile \<Rightarrow> bytes \<Rightarrow> unit result" where
  "check_context p statement =
     (if length statement \<noteq> CONTEXT_BYTES
         \<or> take 4 statement \<noteq> ascii_bytes ''LBS1''
         \<or> unat (statement ! 134) \<noteq> options p
         \<or> statement ! 135 = 0
         \<or> statement ! 135 > statement ! 134
         \<or> unat (u16_from_le_bytes (slice 132 134 statement)) \<ge> participants p
      then Inl Shape else Inr ())"

definition ballot_header :: "profile \<Rightarrow> bytes \<Rightarrow> bytes \<Rightarrow> bytes result" where
  "ballot_header p statement proof =
     and_then (check_context p statement) (\<lambda>_.
       if \<not> within (ballot_proof_lengths p) (length proof) then Inl Shape
       else Inr (le_bytes 8 (length proof) @ statement @ take PROOF_HEADER_BYTES proof))"

record ballot_body_header =
  bh_proof_length :: nat
  bh_context :: bytes
  bh_proof_header :: bytes

definition ballot_parse_header :: "profile \<Rightarrow> bytes \<Rightarrow> ballot_body_header result" where
  "ballot_parse_header p bs =
     (if length bs \<noteq> BALLOT_BODY_HEADER_BYTES then Inl Shape
      else and_then (usize_from_le (take 8 bs)) (\<lambda>proof_length.
        let statement = take CONTEXT_BYTES (drop 8 bs); proof_header = drop CONTEXT_BYTES (drop 8 bs) in
        and_then (check_context p statement) (\<lambda>_.
          if \<not> within (ballot_proof_lengths p) proof_length then Inl Shape
          else Inr \<lparr> bh_proof_length = proof_length, bh_context = statement,
                     bh_proof_header = proof_header \<rparr>)))"

definition ballot_body_hasher :: "externals \<Rightarrow> bytes \<Rightarrow> profile \<Rightarrow> nat \<Rightarrow> body_hasher result" where
  "ballot_body_hasher E TABLE p len =
     (if \<not> within (ballot_body_lengths TABLE p) len then Inl Shape
      else body_hasher_new E BALLOT_BODY_DOMAIN len)"

definition header_body_hasher :: "externals \<Rightarrow> bytes \<Rightarrow> profile \<Rightarrow> bytes \<Rightarrow> body_hasher result" where
  "header_body_hasher E TABLE p header =
     and_then (ballot_parse_header p header) (\<lambda>h.
     and_then (ok_or Shape (ballot_body_length TABLE p (bh_proof_length h))) (\<lambda>len.
     and_then (ballot_body_hasher E TABLE p len) (\<lambda>hash.
       case body_push E header hash of (hash1, Inl e) \<Rightarrow> Inl e | (hash1, Inr _) \<Rightarrow> Inr hash1)))"

section \<open>Envelopes\<close>

definition BALLOT_SIGNATURE_CONTEXT :: bytes where
  "BALLOT_SIGNATURE_CONTEXT = ascii_bytes ''sealed-lattice/ballot-envelope''"

definition ENVELOPE_POLL_OFFSET :: nat where "ENVELOPE_POLL_OFFSET = 0"
definition ENVELOPE_SETUP_IDENTITY_OFFSET :: nat where "ENVELOPE_SETUP_IDENTITY_OFFSET = 64"
definition ENVELOPE_POSITION_OFFSET :: nat where "ENVELOPE_POSITION_OFFSET = 128"
definition ENVELOPE_BALLOT_TIME_OFFSET :: nat where "ENVELOPE_BALLOT_TIME_OFFSET = 130"
definition ENVELOPE_BODY_LENGTH_OFFSET :: nat where "ENVELOPE_BODY_LENGTH_OFFSET = 138"
definition ENVELOPE_BODY_IDENTITY_OFFSET :: nat where "ENVELOPE_BODY_IDENTITY_OFFSET = 146"
definition ENVELOPE_BYTES :: nat where "ENVELOPE_BYTES = ENVELOPE_BODY_IDENTITY_OFFSET + 64"

definition ENVELOPE_IDENTITY_DOMAIN :: bytes where
  "ENVELOPE_IDENTITY_DOMAIN = ascii_bytes ''sealed-lattice/ballot-envelope-identity''"

definition RETAINED_SETUP_TAG_LABEL :: bytes where
  "RETAINED_SETUP_TAG_LABEL = ascii_bytes ''sealed-lattice/retained-setup-reference''"

text \<open>The envelope is its bytes, of the fixed length.\<close>

type_synonym ballot_envelope = bytes

text \<open>\<open>copy_from_slice\<close> into the field that starts at an offset.\<close>

definition copy_field :: "nat \<Rightarrow> bytes \<Rightarrow> bytes \<Rightarrow> bytes" where
  "copy_field offset value bs = take offset bs @ value @ drop (offset + length value) bs"

definition ballot_envelope_new ::
  "bytes \<Rightarrow> profile \<Rightarrow> bytes \<Rightarrow> bytes \<Rightarrow> nat \<Rightarrow> u64 \<Rightarrow> nat \<Rightarrow> bytes \<Rightarrow> ballot_envelope result" where
  "ballot_envelope_new TABLE p poll setup_identity position ballot_time body_length body_identity =
     (if position \<ge> participants p \<or> \<not> within (ballot_body_lengths TABLE p) body_length
      then Inl Shape
      else Inr (copy_field ENVELOPE_BODY_IDENTITY_OFFSET body_identity
        (copy_field ENVELOPE_BODY_LENGTH_OFFSET (u64_to_le_bytes (word_of_nat body_length))
        (copy_field ENVELOPE_BALLOT_TIME_OFFSET (u64_to_le_bytes ballot_time)
        (copy_field ENVELOPE_POSITION_OFFSET (u16_to_le_bytes (word_of_nat position))
        (copy_field ENVELOPE_SETUP_IDENTITY_OFFSET setup_identity
        (copy_field ENVELOPE_POLL_OFFSET poll (replicate ENVELOPE_BYTES 0))))))))"

definition envelope_poll :: "ballot_envelope \<Rightarrow> bytes" where
  "envelope_poll bs = slice ENVELOPE_POLL_OFFSET ENVELOPE_SETUP_IDENTITY_OFFSET bs"

definition envelope_setup_identity :: "ballot_envelope \<Rightarrow> bytes" where
  "envelope_setup_identity bs = slice ENVELOPE_SETUP_IDENTITY_OFFSET ENVELOPE_POSITION_OFFSET bs"

definition envelope_position :: "ballot_envelope \<Rightarrow> nat" where
  "envelope_position bs =
     unat (u16_from_le_bytes (slice ENVELOPE_POSITION_OFFSET ENVELOPE_BALLOT_TIME_OFFSET bs))"

definition envelope_ballot_time :: "ballot_envelope \<Rightarrow> u64" where
  "envelope_ballot_time bs =
     u64_from_le_bytes (slice ENVELOPE_BALLOT_TIME_OFFSET ENVELOPE_BODY_LENGTH_OFFSET bs)"

text \<open>\<open>as usize\<close> keeps the low bits of the 32-bit module.\<close>

definition envelope_body_length :: "ballot_envelope \<Rightarrow> nat" where
  "envelope_body_length bs =
     le_value (slice ENVELOPE_BODY_LENGTH_OFFSET ENVELOPE_BODY_IDENTITY_OFFSET bs) mod usize_bound"

definition envelope_body_identity :: "ballot_envelope \<Rightarrow> bytes" where
  "envelope_body_identity bs = drop ENVELOPE_BODY_IDENTITY_OFFSET bs"

definition ballot_envelope_decode :: "bytes \<Rightarrow> profile \<Rightarrow> bytes \<Rightarrow> ballot_envelope result" where
  "ballot_envelope_decode TABLE p bs =
     (if length bs \<noteq> ENVELOPE_BYTES then Inl Shape
      else and_then (usize_from_le (slice ENVELOPE_BODY_LENGTH_OFFSET ENVELOPE_BODY_IDENTITY_OFFSET bs))
        (\<lambda>body_length.
          ballot_envelope_new TABLE p (envelope_poll bs) (envelope_setup_identity bs)
            (envelope_position bs) (envelope_ballot_time bs) body_length
            (envelope_body_identity bs)))"

definition envelope_identity :: "externals \<Rightarrow> ballot_envelope \<Rightarrow> bytes" where
  "envelope_identity E bs =
     (case message_hash E ENVELOPE_IDENTITY_DOMAIN bs of Inl _ \<Rightarrow> [] | Inr h \<Rightarrow> h)"

section \<open>Retained owners\<close>

record retained_setup_owner =
  owner_poll :: bytes
  owner_setup_identity :: bytes
  owner_position :: nat
  owner_body :: bytes
  owner_signing_public :: bytes

definition retained_setup_tag :: "externals \<Rightarrow> credential \<Rightarrow> verified_poll \<Rightarrow> bytes \<Rightarrow> bytes" where
  "retained_setup_tag E c poll reference = retained_tag E c RETAINED_SETUP_TAG_LABEL poll reference"

definition check_retained_setup_tag ::
  "externals \<Rightarrow> credential \<Rightarrow> verified_poll \<Rightarrow> bytes \<Rightarrow> bytes \<Rightarrow> unit result" where
  "check_retained_setup_tag E c poll reference tag_bytes =
     check_retained_tag E c RETAINED_SETUP_TAG_LABEL poll reference tag_bytes"

definition check_setup_owner :: "retained_setup_owner \<Rightarrow> credential \<Rightarrow> unit result" where
  "check_setup_owner owner c =
     (if completed_body c \<noteq> Some (owner_body owner) \<or> signing_public c \<noteq> owner_signing_public owner
      then Inl Context else Inr ())"

definition check_owner_context ::
  "verified_poll \<Rightarrow> retained_context \<Rightarrow> credential \<Rightarrow> unit result" where
  "check_owner_context poll ctx c =
     and_then (check_confirmed_context ctx c) (\<lambda>_.
       if ctx_poll ctx \<noteq> poll_identity poll
          \<or> options (ctx_profile ctx) \<noteq> option_count (poll_manifest poll)
          \<or> completed_body c \<noteq> Some (ctx_owner_body ctx)
       then Inl Context else Inr ())"

definition retain_setup_owner ::
  "externals \<Rightarrow> verified_poll \<Rightarrow> retained_context \<Rightarrow> bytes \<Rightarrow> bytes \<Rightarrow> bytes \<Rightarrow> credential
     \<Rightarrow> retained_setup_owner result" where
  "retain_setup_owner E poll ctx setup_identity reference tag_bytes c =
     and_then (check_owner_context poll ctx c) (\<lambda>_.
     and_then (check_retained_setup_tag E c poll reference tag_bytes) (\<lambda>_.
       if length reference < 64 \<or> take 64 reference \<noteq> setup_identity then Inl Context
       else Inr \<lparr> owner_poll = poll_identity poll, owner_setup_identity = setup_identity,
                  owner_position = ctx_position ctx, owner_body = ctx_owner_body ctx,
                  owner_signing_public = signing_public c \<rparr>))"

section \<open>The one ballot of a credential\<close>

definition reserve_ballot_attempt :: "retained_setup_owner \<Rightarrow> unit operation" where
  "reserve_ballot_attempt owner c =
     guarded (check_setup_owner owner c) c (\<lambda>_.
     guarded (check_unlocked BallotPurpose c) c (\<lambda>_.
       if signed_ballot c \<noteq> None \<or> close_lock c \<noteq> None then (c, Inl Consumed)
       else (c\<lparr>ballot_attempted := True\<rparr>, Inr ())))"

definition sign_ballot_bytes :: "externals \<Rightarrow> ballot_envelope \<Rightarrow> bytes operation" where
  "sign_ballot_bytes E envelope c =
     guarded (check_unlocked BallotPurpose c) c (\<lambda>_.
       if signed_ballot c \<noteq> None \<or> (close_lock c \<noteq> None \<and> \<not> ballot_attempted c)
       then (c, Inl Consumed)
       else let c1 = c\<lparr>signed_ballot :=
                         Some (envelope_identity E envelope, envelope_ballot_time envelope)\<rparr> in
         (c1, sign_deterministically E c1 envelope BALLOT_SIGNATURE_CONTEXT))"

definition ballot_owner_refused :: "retained_setup_owner \<Rightarrow> ballot_envelope \<Rightarrow> credential \<Rightarrow> bool" where
  "ballot_owner_refused owner envelope c \<longleftrightarrow>
     completed_body c \<noteq> Some (owner_body owner)
     \<or> signing_public c \<noteq> owner_signing_public owner
     \<or> envelope_poll envelope \<noteq> owner_poll owner
     \<or> envelope_setup_identity envelope \<noteq> owner_setup_identity owner
     \<or> envelope_position envelope \<noteq> owner_position owner"

definition sign_retained_ballot_envelope ::
  "externals \<Rightarrow> retained_setup_owner \<Rightarrow> ballot_envelope \<Rightarrow> bytes operation" where
  "sign_retained_ballot_envelope E owner envelope c =
     (if ballot_owner_refused owner envelope c then (c, Inl Context)
      else sign_ballot_bytes E envelope c)"

definition restore_retained_ballot_signing ::
  "externals \<Rightarrow> retained_setup_owner \<Rightarrow> ballot_envelope \<Rightarrow> bytes \<Rightarrow> unit operation" where
  "restore_retained_ballot_signing E owner envelope signature c =
     (if signed_ballot c \<noteq> None then (c, Inl Consumed)
      else if ballot_owner_refused owner envelope c then (c, Inl Context)
      else guarded (try_array SIGNATURE_BYTES signature) c (\<lambda>sig.
        if \<not> verify_context E (signing_public c) BALLOT_SIGNATURE_CONTEXT envelope sig
        then (c, Inl Crypto)
        else (c\<lparr>signed_ballot :=
                  Some (envelope_identity E envelope, envelope_ballot_time envelope)\<rparr>, Inr ())))"

definition verify_ballot_signature ::
  "externals \<Rightarrow> authenticated_roster \<Rightarrow> bytes \<Rightarrow> ballot_envelope \<Rightarrow> bytes \<Rightarrow> bool" where
  "verify_ballot_signature E A expected_setup_identity envelope signature \<longleftrightarrow>
     (case get (roster_records (auth_proposal A)) (envelope_position envelope) of
        None \<Rightarrow> False
      | Some r \<Rightarrow>
          envelope_poll envelope = header_poll (reg_header r)
          \<and> envelope_setup_identity envelope = expected_setup_identity
          \<and> length signature = SIGNATURE_BYTES
          \<and> verify_context E (member_key r) BALLOT_SIGNATURE_CONTEXT envelope signature)"

end
