(* ===== verification/Close_Signing.thy ===== *)
theory Close_Signing
  imports Ballot_Signing "HOL-Library.List_Lexorder" "HOL-Library.Product_Lexorder"
begin

text \<open>
  Closing a poll (\<open>protocol-foundations/src/close-signing.rs\<close>): the organizer's close intent, the
  responses that list the envelopes a participant has, the organizer's proposal of a quorum of
  responses, and the credential's operations that sign, lock and restore them.  Listed entries
  are ordered as Rust orders a pair of a position and a byte array: lexicographically.
\<close>

section \<open>Purposes and lengths\<close>

definition MAXIMUM_LISTED_ENVELOPES_PER_SLOT :: nat where "MAXIMUM_LISTED_ENVELOPES_PER_SLOT = 2"

definition LISTED_ENTRY_BYTES :: nat where "LISTED_ENTRY_BYTES = 2 + 64"

datatype close_purpose = CloseIntent | CloseResponse | CloseProposal

fun close_context :: "close_purpose \<Rightarrow> bytes" where
  "close_context CloseIntent = ascii_bytes ''sealed-lattice/close-intent''"
| "close_context CloseResponse = ascii_bytes ''sealed-lattice/close-response''"
| "close_context CloseProposal = ascii_bytes ''sealed-lattice/close-proposal''"

fun close_item_count :: "close_purpose \<Rightarrow> nat" where
  "close_item_count CloseIntent = 4"
| "close_item_count CloseResponse = 6"
| "close_item_count CloseProposal = 5"

definition close_prefix_bytes :: "close_purpose \<Rightarrow> nat" where
  "close_prefix_bytes purpose = 6 + (6 + 4 + length (close_context purpose)) + 2 * (6 + 64)"

definition close_response_bytes :: "nat \<Rightarrow> nat" where
  "close_response_bytes entries =
     close_prefix_bytes CloseResponse + (6 + 64) + (6 + 2) + (6 + 4 + entries * LISTED_ENTRY_BYTES)"

fun maximum_close_message_bytes :: "close_purpose \<Rightarrow> nat \<Rightarrow> nat" where
  "maximum_close_message_bytes CloseIntent n = close_prefix_bytes CloseIntent + 6 + 8"
| "maximum_close_message_bytes CloseResponse n =
     close_response_bytes (MAXIMUM_LISTED_ENVELOPES_PER_SLOT * n)"
| "maximum_close_message_bytes CloseProposal n =
     close_prefix_bytes CloseProposal + (6 + 64)
       + (6 + 4 + inventory_threshold n * LISTED_ENTRY_BYTES)"

definition close_message_identity :: "externals \<Rightarrow> close_purpose \<Rightarrow> bytes \<Rightarrow> bytes result" where
  "close_message_identity E purpose body = message_hash E (close_context purpose) body"

definition verify_close_signature ::
  "externals \<Rightarrow> bytes \<Rightarrow> close_purpose \<Rightarrow> bytes \<Rightarrow> bytes \<Rightarrow> bool" where
  "verify_close_signature E public purpose ident signature \<longleftrightarrow>
     length signature = SIGNATURE_BYTES
     \<and> verify_context E public (close_context purpose) ident signature"

section \<open>Codecs\<close>

definition participants_supported :: "bytes \<Rightarrow> nat \<Rightarrow> bool" where
  "participants_supported TABLE n \<longleftrightarrow> within (participant_range TABLE) n"

definition check_participants :: "bytes \<Rightarrow> nat \<Rightarrow> unit result" where
  "check_participants TABLE n = (if \<not> participants_supported TABLE n then Inl Context else Inr ())"

definition close_encode ::
  "externals \<Rightarrow> close_purpose \<Rightarrow> bytes \<Rightarrow> bytes \<Rightarrow> canonical_item list \<Rightarrow> bytes result" where
  "close_encode E purpose poll setup_identity rest = ok_or Shape (do {
     label \<leftarrow> nonempty_ascii (close_context purpose);
     tuple_encode E (message_tuple ([label, hash512 poll, hash512 setup_identity] @ rest)) })"

definition close_decode ::
  "externals \<Rightarrow> bytes \<Rightarrow> close_purpose \<Rightarrow> nat \<Rightarrow> canonical_item list result" where
  "close_decode E body purpose n =
     (let maximum = maximum_close_message_bytes purpose n in
      and_then (ok_or Shape (tuple_decode E body (message_limits maximum (close_item_count purpose))))
      (\<lambda>tuple.
        if \<not> has_header tuple (close_item_count purpose) then Inl Shape
        else let its = items tuple in
        and_then (if item_type (its ! 0) \<noteq> Ascii then Inl Context
                  else ok_or Shape (variable_value_bytes (its ! 0))) (\<lambda>label.
        if label \<noteq> close_context purpose then Inl Context else Inr its)))"

definition close_hash :: "canonical_item \<Rightarrow> bytes result" where
  "close_hash item =
     (if item_type item \<noteq> Hash512 then Inl Shape else try_array 64 (canonical_bytes item))"

definition close_position :: "canonical_item \<Rightarrow> nat \<Rightarrow> nat result" where
  "close_position item n =
     (if item_type item \<noteq> Unsigned16 then Inl Shape
      else and_then (try_array 2 (canonical_bytes item)) (\<lambda>bs.
        let value = unat (u16_from_le_bytes bs) in
        if value \<ge> n then Inl Context else Inr value))"

text \<open>The loop over the entries: the previous entry and the length of the author's run.\<close>

fun check_entries ::
  "nat \<Rightarrow> nat \<Rightarrow> (nat \<times> bytes) option \<Rightarrow> nat \<Rightarrow> (nat \<times> bytes) list \<Rightarrow> unit result" where
  "check_entries n per_author previous run [] = Inr ()"
| "check_entries n per_author previous run ((author, ident) # rest) =
     (if author \<ge> n then Inl Context
      else if (case previous of None \<Rightarrow> False | Some v \<Rightarrow> v \<ge> (author, ident)) then Inl Shape
      else let run1 = (case previous of None \<Rightarrow> 1
                       | Some v \<Rightarrow> if fst v = author then run + 1 else 1)
        in if run1 > per_author then Inl Shape
           else check_entries n per_author (Some (author, ident)) run1 rest)"

definition close_entries :: "canonical_item \<Rightarrow> nat \<Rightarrow> nat \<Rightarrow> (nat \<times> bytes) list result" where
  "close_entries item n per_author =
     (if item_type item \<noteq> RawBytes then Inl Shape
      else and_then (ok_or Shape (variable_value_bytes item)) (\<lambda>bs.
        if length bs mod LISTED_ENTRY_BYTES \<noteq> 0 then Inl Shape
        else let values = map selection_entry (chunks_exact LISTED_ENTRY_BYTES bs) in
          and_then (check_entries n per_author None 0 values) (\<lambda>_. Inr values)))"

fun encode_entry_bytes :: "(nat \<times> bytes) list \<Rightarrow> bytes result" where
  "encode_entry_bytes [] = Inr []"
| "encode_entry_bytes ((author, ident) # rest) =
     and_then (ok_or Shape (u16_try_from author)) (\<lambda>index.
     and_then (encode_entry_bytes rest) (\<lambda>bs. Inr (u16_to_le_bytes index @ ident @ bs)))"

definition encode_entries :: "(nat \<times> bytes) list \<Rightarrow> canonical_item result" where
  "encode_entries values =
     and_then (encode_entry_bytes values) (\<lambda>bs. ok_or Shape (variable_bytes bs))"

section \<open>Messages\<close>

record close_intent_message =
  intent_body :: bytes
  intent_identity :: bytes
  intent_poll :: bytes
  intent_setup_identity :: bytes
  intent_close_time :: u64

definition intent_parse :: "externals \<Rightarrow> bytes \<Rightarrow> close_intent_message result" where
  "intent_parse E body =
     and_then (close_decode E body CloseIntent 3) (\<lambda>its.
     if item_type (its ! 3) \<noteq> Unsigned64 then Inl Shape
     else
     and_then (close_message_identity E CloseIntent body) (\<lambda>ident.
     and_then (close_hash (its ! 1)) (\<lambda>poll.
     and_then (close_hash (its ! 2)) (\<lambda>setup.
     and_then (try_array 8 (canonical_bytes (its ! 3))) (\<lambda>time.
     Inr \<lparr> intent_body = body, intent_identity = ident, intent_poll = poll,
           intent_setup_identity = setup, intent_close_time = u64_from_le_bytes time \<rparr>)))))"

definition intent_new ::
  "externals \<Rightarrow> bytes \<Rightarrow> bytes \<Rightarrow> u64 \<Rightarrow> close_intent_message result" where
  "intent_new E poll setup_identity close_time =
     and_then (close_encode E CloseIntent poll setup_identity [unsigned64 close_time]) (intent_parse E)"

record close_response_message =
  response_body :: bytes
  response_identity :: bytes
  response_poll :: bytes
  response_setup_identity :: bytes
  response_intent :: bytes
  response_responder :: nat
  response_listed :: "(nat \<times> bytes) list"

definition response_parse ::
  "externals \<Rightarrow> bytes \<Rightarrow> bytes \<Rightarrow> nat \<Rightarrow> close_response_message result" where
  "response_parse E TABLE body n =
     and_then (check_participants TABLE n) (\<lambda>_.
     and_then (close_decode E body CloseResponse n) (\<lambda>its.
     and_then (close_message_identity E CloseResponse body) (\<lambda>ident.
     and_then (close_hash (its ! 1)) (\<lambda>poll.
     and_then (close_hash (its ! 2)) (\<lambda>setup.
     and_then (close_hash (its ! 3)) (\<lambda>intent.
     and_then (close_position (its ! 4) n) (\<lambda>responder.
     and_then (close_entries (its ! 5) n MAXIMUM_LISTED_ENVELOPES_PER_SLOT) (\<lambda>listed.
     Inr \<lparr> response_body = body, response_identity = ident, response_poll = poll,
           response_setup_identity = setup, response_intent = intent,
           response_responder = responder, response_listed = listed \<rparr>))))))))"

definition response_new ::
  "externals \<Rightarrow> bytes \<Rightarrow> bytes \<Rightarrow> bytes \<Rightarrow> bytes \<Rightarrow> nat \<Rightarrow> nat \<Rightarrow> (nat \<times> bytes) list
     \<Rightarrow> close_response_message result" where
  "response_new E TABLE poll setup_identity intent responder n listed =
     and_then (check_participants TABLE n) (\<lambda>_.
     and_then (ok_or Shape (u16_try_from responder)) (\<lambda>index.
     and_then (encode_entries listed) (\<lambda>entries.
     and_then (close_encode E CloseResponse poll setup_identity
                 [hash512 intent, unsigned16 index, entries]) (\<lambda>body.
     response_parse E TABLE body n))))"

record close_proposal_message =
  close_proposal_body :: bytes
  close_proposal_identity :: bytes
  close_proposal_poll :: bytes
  close_proposal_setup_identity :: bytes
  close_proposal_intent :: bytes
  close_proposal_responses :: "(nat \<times> bytes) list"

definition close_proposal_parse ::
  "externals \<Rightarrow> bytes \<Rightarrow> bytes \<Rightarrow> nat \<Rightarrow> nat \<Rightarrow> close_proposal_message result" where
  "close_proposal_parse E TABLE body n organizer =
     and_then (check_participants TABLE n) (\<lambda>_.
     and_then (close_decode E body CloseProposal n) (\<lambda>its.
     and_then (close_entries (its ! 4) n 1) (\<lambda>responses.
     if length responses \<noteq> inventory_threshold n then Inl Shape
     else if \<not> (\<exists>(responder, _) \<in> set responses. responder = organizer) then Inl Context
     else
     and_then (close_message_identity E CloseProposal body) (\<lambda>ident.
     and_then (close_hash (its ! 1)) (\<lambda>poll.
     and_then (close_hash (its ! 2)) (\<lambda>setup.
     and_then (close_hash (its ! 3)) (\<lambda>intent.
     Inr \<lparr> close_proposal_body = body, close_proposal_identity = ident,
           close_proposal_poll = poll, close_proposal_setup_identity = setup,
           close_proposal_intent = intent, close_proposal_responses = responses \<rparr>)))))))"

definition close_proposal_new ::
  "externals \<Rightarrow> bytes \<Rightarrow> bytes \<Rightarrow> bytes \<Rightarrow> bytes \<Rightarrow> nat \<Rightarrow> nat \<Rightarrow> (nat \<times> bytes) list
     \<Rightarrow> close_proposal_message result" where
  "close_proposal_new E TABLE poll setup_identity intent n organizer responses =
     and_then (check_participants TABLE n) (\<lambda>_.
     and_then (encode_entries responses) (\<lambda>entries.
     and_then (close_encode E CloseProposal poll setup_identity [hash512 intent, entries]) (\<lambda>body.
     close_proposal_parse E TABLE body n organizer)))"

section \<open>Signing\<close>

definition check_close_owner ::
  "bytes \<Rightarrow> retained_setup_owner \<Rightarrow> authenticated_roster \<Rightarrow> bytes \<Rightarrow> bytes \<Rightarrow> credential \<Rightarrow> unit result" where
  "check_close_owner TABLE owner A poll setup_identity c =
     and_then (check_setup_owner owner c) (\<lambda>_.
     let records = roster_records (auth_proposal A) in
     and_then (ok_or Context (get records (owner_position owner))) (\<lambda>r.
       if \<not> participants_supported TABLE (length records)
          \<or> header_poll (reg_header r) \<noteq> owner_poll owner
          \<or> member_key r \<noteq> signing_public c
          \<or> completed_body c \<noteq> Some (reg_body_digest r)
          \<or> poll \<noteq> owner_poll owner
          \<or> setup_identity \<noteq> owner_setup_identity owner
       then Inl Context else Inr ()))"

definition check_organizer :: "retained_setup_owner \<Rightarrow> authenticated_roster \<Rightarrow> unit result" where
  "check_organizer owner A =
     (if owner_position owner \<noteq> roster_organizer_position (auth_proposal A)
      then Inl Context else Inr ())"

definition sign_close :: "externals \<Rightarrow> credential \<Rightarrow> close_purpose \<Rightarrow> bytes \<Rightarrow> bytes result" where
  "sign_close E c purpose ident = sign_deterministically E c ident (close_context purpose)"

definition check_own_signature ::
  "externals \<Rightarrow> credential \<Rightarrow> close_purpose \<Rightarrow> bytes \<Rightarrow> bytes \<Rightarrow> unit result" where
  "check_own_signature E c purpose ident signature =
     (if \<not> verify_close_signature E (signing_public c) purpose ident signature then Inl Crypto
      else Inr ())"

definition lock_intent :: "close_intent_message \<Rightarrow> unit operation" where
  "lock_intent m c =
     (if (case close_lock c of None \<Rightarrow> False | Some (ident, _) \<Rightarrow> ident \<noteq> intent_identity m)
      then (c, Inl Consumed)
      else (c\<lparr>close_lock := Some (intent_identity m, intent_close_time m)\<rparr>, Inr ()))"

text \<open>The continuation after a call that may change the credential.\<close>

definition then_op :: "'s \<times> 'a result \<Rightarrow> ('s \<Rightarrow> 'a \<Rightarrow> 's \<times> 'b result) \<Rightarrow> 's \<times> 'b result" where
  "then_op r k = (case r of (c, Inl e) \<Rightarrow> (c, Inl e) | (c, Inr v) \<Rightarrow> k c v)"

definition sign_close_intent ::
  "externals \<Rightarrow> bytes \<Rightarrow> retained_setup_owner \<Rightarrow> authenticated_roster \<Rightarrow> close_intent_message
     \<Rightarrow> bytes operation" where
  "sign_close_intent E TABLE owner A m c =
     guarded (check_close_owner TABLE owner A (intent_poll m) (intent_setup_identity m) c) c (\<lambda>_.
     guarded (check_organizer owner A) c (\<lambda>_.
     guarded (check_unlocked CloseIntentPurpose c) c (\<lambda>_.
     if close_intent_signed c
        \<or> (case close_lock c of None \<Rightarrow> False | Some (ident, _) \<Rightarrow> ident \<noteq> intent_identity m)
     then (c, Inl Consumed)
     else then_op (lock_intent m (c\<lparr>close_intent_signed := True\<rparr>)) (\<lambda>c1 _.
       (c1, sign_close E c1 CloseIntent (intent_identity m))))))"

definition lock_close_intent ::
  "externals \<Rightarrow> bytes \<Rightarrow> retained_setup_owner \<Rightarrow> authenticated_roster \<Rightarrow> close_intent_message
     \<Rightarrow> bytes \<Rightarrow> unit operation" where
  "lock_close_intent E TABLE owner A m signature c =
     guarded (check_close_owner TABLE owner A (intent_poll m) (intent_setup_identity m) c) c (\<lambda>_.
     if \<not> verify_close_signature E (member_key (organizer_record (auth_proposal A))) CloseIntent
           (intent_identity m) signature
     then (c, Inl Crypto)
     else lock_intent m c)"

definition sign_close_response ::
  "externals \<Rightarrow> bytes \<Rightarrow> retained_setup_owner \<Rightarrow> authenticated_roster \<Rightarrow> close_response_message
     \<Rightarrow> bytes operation" where
  "sign_close_response E TABLE owner A m c =
     guarded (check_close_owner TABLE owner A (response_poll m) (response_setup_identity m) c) c (\<lambda>_.
     guarded (check_unlocked CloseResponsePurpose c) c (\<lambda>_.
     if close_response c \<noteq> None then (c, Inl Consumed)
     else guarded (ok_or Context (close_lock c)) c (\<lambda>(intent, close_time).
       if response_responder m \<noteq> owner_position owner
          \<or> response_intent m \<noteq> intent
          \<or> (ballot_attempted c \<and> signed_ballot c = None)
          \<or> (case signed_ballot c of
               None \<Rightarrow> False
             | Some (ident, time) \<Rightarrow>
                 time \<le> close_time \<and> (owner_position owner, ident) \<notin> set (response_listed m))
       then (c, Inl Context)
       else let c1 = c\<lparr>close_response := Some (response_identity m)\<rparr> in
         (c1, sign_close E c1 CloseResponse (response_identity m)))))"

definition locked_identity :: "credential \<Rightarrow> bytes option" where
  "locked_identity c = map_option fst (close_lock c)"

definition sign_close_proposal ::
  "externals \<Rightarrow> bytes \<Rightarrow> retained_setup_owner \<Rightarrow> authenticated_roster \<Rightarrow> close_proposal_message
     \<Rightarrow> bytes operation" where
  "sign_close_proposal E TABLE owner A m c =
     guarded (check_close_owner TABLE owner A (close_proposal_poll m)
                (close_proposal_setup_identity m) c) c (\<lambda>_.
     guarded (check_organizer owner A) c (\<lambda>_.
     guarded (check_unlocked CloseProposalPurpose c) c (\<lambda>_.
     if close_proposal_signed c then (c, Inl Consumed)
     else guarded (ok_or Context (close_response c)) c (\<lambda>own.
       if \<not> close_intent_signed c
          \<or> locked_identity c \<noteq> Some (close_proposal_intent m)
          \<or> (owner_position owner, own) \<notin> set (close_proposal_responses m)
       then (c, Inl Context)
       else let c1 = c\<lparr>close_proposal_signed := True\<rparr> in
         (c1, sign_close E c1 CloseProposal (close_proposal_identity m))))))"

datatype close_message =
  IntentMessage close_intent_message
| ResponseMessage close_response_message
| ProposalMessage close_proposal_message

fun restore_close_message ::
  "externals \<Rightarrow> bytes \<Rightarrow> retained_setup_owner \<Rightarrow> authenticated_roster \<Rightarrow> close_message \<Rightarrow> bytes
     \<Rightarrow> unit operation" where
  "restore_close_message E TABLE owner A (IntentMessage m) signature c =
     guarded (check_close_owner TABLE owner A (intent_poll m) (intent_setup_identity m) c) c (\<lambda>_.
     guarded (check_organizer owner A) c (\<lambda>_.
     if close_intent_signed c then (c, Inl Consumed)
     else guarded (check_own_signature E c CloseIntent (intent_identity m) signature) c (\<lambda>_.
       then_op (lock_intent m c) (\<lambda>c1 _. (c1\<lparr>close_intent_signed := True\<rparr>, Inr ())))))"
| "restore_close_message E TABLE owner A (ResponseMessage m) signature c =
     guarded (check_close_owner TABLE owner A (response_poll m) (response_setup_identity m) c) c (\<lambda>_.
     if close_response c \<noteq> None then (c, Inl Consumed)
     else if response_responder m \<noteq> owner_position owner
             \<or> locked_identity c \<noteq> Some (response_intent m)
     then (c, Inl Context)
     else guarded (check_own_signature E c CloseResponse (response_identity m) signature) c (\<lambda>_.
       (c\<lparr>close_response := Some (response_identity m)\<rparr>, Inr ())))"
| "restore_close_message E TABLE owner A (ProposalMessage m) signature c =
     guarded (check_close_owner TABLE owner A (close_proposal_poll m)
                (close_proposal_setup_identity m) c) c (\<lambda>_.
     guarded (check_organizer owner A) c (\<lambda>_.
     if close_proposal_signed c then (c, Inl Consumed)
     else if locked_identity c \<noteq> Some (close_proposal_intent m) then (c, Inl Context)
     else guarded (check_own_signature E c CloseProposal (close_proposal_identity m) signature) c (\<lambda>_.
       (c\<lparr>close_proposal_signed := True\<rparr>, Inr ()))))"

end
