(* ===== verification/Target_Signing.thy ===== *)
theory Target_Signing
  imports Close_Signing
begin

text \<open>
  Evaluation targets and releases (\<open>protocol-foundations/src/target-signing.rs\<close>,
  \<open>release-signing.rs\<close>): the canonical target body, the vote a participant casts for one target,
  the envelope of a release, and the credential's operations that certify and release.
\<close>

section \<open>Target messages\<close>

definition TARGET_PURPOSE :: bytes where
  "TARGET_PURPOSE = ascii_bytes ''sealed-lattice/evaluation-target''"

definition TARGET_IDENTITY_DOMAIN :: bytes where
  "TARGET_IDENTITY_DOMAIN = ascii_bytes ''sealed-lattice/evaluation-target-identity''"

definition CERTIFICATION_CONTEXT :: bytes where
  "CERTIFICATION_CONTEXT = ascii_bytes ''sealed-lattice/target-certification''"

definition TARGET_VOTE_BYTES :: nat where "TARGET_VOTE_BYTES = 2 + 64 + SIGNATURE_BYTES"

definition MAXIMUM_TARGET_BODY_BYTES :: nat where "MAXIMUM_TARGET_BODY_BYTES = 2048"

record target_message =
  target_body :: bytes
  target_poll :: bytes
  target_setup_identity :: bytes
  target_proposal :: bytes
  target_identity :: bytes
  target_participants :: nat
  target_ciphertext :: "bytes option"
  target_classifications :: bytes

text \<open>\<open>try_into\<close> on the bytes of an item.\<close>

definition item_hash :: "canonical_item \<Rightarrow> bytes result" where
  "item_hash item = try_array 64 (canonical_bytes item)"

definition target_parse :: "externals \<Rightarrow> bytes \<Rightarrow> bytes \<Rightarrow> nat \<Rightarrow> target_message result" where
  "target_parse E TABLE body n =
     (if \<not> participants_supported TABLE n then Inl Context
      else
      and_then (ok_or Shape (tuple_decode E body (message_limits MAXIMUM_TARGET_BODY_BYTES 6))) (\<lambda>tuple.
      if \<not> (has_header tuple 5 \<or> has_header tuple 6) then Inl Shape
      else let its = items tuple in
      and_then (if item_type (its ! 0) \<noteq> Ascii then Inl Context
                else ok_or Shape (variable_value_bytes (its ! 0))) (\<lambda>purpose.
      if purpose \<noteq> TARGET_PURPOSE then Inl Context
      else if (\<exists>item \<in> set (slice 1 4 its). item_type item \<noteq> Hash512)
              \<or> item_type (its ! 4) \<noteq> RawBytes
      then Inl Shape
      else
      and_then (ok_or Shape (variable_value_bytes (its ! 4))) (\<lambda>classifications.
      if length classifications \<noteq> n \<or> (\<exists>value \<in> set classifications. value > 3) then Inl Shape
      else let accepted = length (filter (\<lambda>value. value = 2) classifications);
               evaluated = (accepted \<ge> minimum_turnout n) in
      and_then (case (get its 5, evaluated) of
                  (None, False) \<Rightarrow> Inr None
                | (Some item, True) \<Rightarrow>
                    if item_type item = Hash512 then and_then (item_hash item) (\<lambda>h. Inr (Some h))
                    else Inl Shape
                | _ \<Rightarrow> Inl Shape) (\<lambda>ciphertext.
      and_then (message_hash E TARGET_IDENTITY_DOMAIN body) (\<lambda>ident.
      and_then (item_hash (its ! 1)) (\<lambda>poll.
      and_then (item_hash (its ! 2)) (\<lambda>setup.
      and_then (item_hash (its ! 3)) (\<lambda>proposal.
      Inr \<lparr> target_body = body, target_poll = poll, target_setup_identity = setup,
            target_proposal = proposal, target_identity = ident, target_participants = n,
            target_ciphertext = ciphertext, target_classifications = classifications \<rparr>)))))))))"

definition has_result :: "target_message \<Rightarrow> bool" where
  "has_result m \<longleftrightarrow> target_ciphertext m \<noteq> None"

definition classification :: "target_message \<Rightarrow> nat \<Rightarrow> byte option" where
  "classification m position = get (target_classifications m) position"

section \<open>Votes\<close>

record target_vote =
  vote_position :: nat
  vote_target :: bytes
  vote_signature :: bytes

definition vote_parse :: "bytes \<Rightarrow> bytes \<Rightarrow> target_vote result" where
  "vote_parse TABLE bs =
     (if length bs \<noteq> TARGET_VOTE_BYTES then Inl Shape
      else let position = unat (u16_from_le_bytes (take 2 bs)) in
        case participant_range TABLE of
          None \<Rightarrow> Inl Shape
        | Some bounds \<Rightarrow>
            if position \<ge> range_end bounds then Inl Shape
            else Inr \<lparr> vote_position = position, vote_target = slice 2 66 bs,
                       vote_signature = drop 66 bs \<rparr>)"

definition vote_encode :: "target_vote \<Rightarrow> bytes" where
  "vote_encode v = u16_to_le_bytes (word_of_nat (vote_position v)) @ vote_target v @ vote_signature v"

section \<open>Certifying\<close>

definition check_target_owner ::
  "retained_setup_owner \<Rightarrow> authenticated_roster \<Rightarrow> target_message \<Rightarrow> credential \<Rightarrow> unit result" where
  "check_target_owner owner A m c =
     and_then (check_setup_owner owner c) (\<lambda>_.
     let records = roster_records (auth_proposal A) in
     and_then (ok_or Context (get records (owner_position owner))) (\<lambda>r.
       if length records \<noteq> target_participants m
          \<or> target_poll m \<noteq> owner_poll owner
          \<or> target_setup_identity m \<noteq> owner_setup_identity owner
          \<or> member_key r \<noteq> signing_public c
          \<or> completed_body c \<noteq> Some (reg_body_digest r)
          \<or> (case target_lock c of None \<Rightarrow> False | Some target \<Rightarrow> target \<noteq> target_identity m)
       then Inl Context else Inr ()))"

definition check_target_predecessors ::
  "retained_setup_owner \<Rightarrow> authenticated_roster \<Rightarrow> credential \<Rightarrow> unit result" where
  "check_target_predecessors owner A c =
     (if close_response c = None
         \<or> (owner_position owner = roster_organizer_position (auth_proposal A)
              \<and> \<not> close_proposal_signed c)
      then Inl Consumed else Inr ())"

definition sign_target ::
  "externals \<Rightarrow> retained_setup_owner \<Rightarrow> authenticated_roster \<Rightarrow> target_message
     \<Rightarrow> target_vote operation" where
  "sign_target E owner A m c =
     guarded (check_target_owner owner A m c) c (\<lambda>_.
     guarded (check_target_predecessors owner A c) c (\<lambda>_.
     guarded (check_unlocked TargetPurpose c) c (\<lambda>_.
     if target_signed c then (c, Inl Consumed)
     else let c1 = c\<lparr>target_signed := True, target_lock := Some (target_identity m)\<rparr> in
       guarded (sign_deterministically E c1 (target_identity m) CERTIFICATION_CONTEXT) c1 (\<lambda>signature.
         (c1, Inr \<lparr> vote_position = owner_position owner, vote_target = target_identity m,
                    vote_signature = signature \<rparr>)))))"

definition restore_target ::
  "externals \<Rightarrow> bytes \<Rightarrow> retained_setup_owner \<Rightarrow> authenticated_roster \<Rightarrow> target_message \<Rightarrow> bytes
     \<Rightarrow> unit operation" where
  "restore_target E TABLE owner A m packet c =
     guarded (check_target_owner owner A m c) c (\<lambda>_.
     guarded (check_target_predecessors owner A c) c (\<lambda>_.
     if target_signed c then (c, Inl Consumed)
     else guarded (vote_parse TABLE packet) c (\<lambda>vote.
       if vote_position vote \<noteq> owner_position owner
          \<or> vote_target vote \<noteq> target_identity m
          \<or> \<not> verify_context E (signing_public c) CERTIFICATION_CONTEXT (target_identity m)
                (vote_signature vote)
       then (c, Inl Crypto)
       else (c\<lparr>target_signed := True, target_lock := Some (target_identity m)\<rparr>, Inr ()))))"

section \<open>Releases\<close>

definition RELEASE_SIGNATURE_CONTEXT :: bytes where
  "RELEASE_SIGNATURE_CONTEXT = ascii_bytes ''sealed-lattice/release-envelope''"

definition RELEASE_ENVELOPE_BYTES :: nat where "RELEASE_ENVELOPE_BYTES = 3 * 64 + 2 + 8 + 64"

definition RELEASE_BODY_HEADER_BYTES :: nat where
  "RELEASE_BODY_HEADER_BYTES = 8 + RELEASE_HEADER_BYTES"

definition partial_bytes :: "profile \<Rightarrow> nat" where
  "partial_bytes p = SYSTEMATIC * release_coefficient_bytes p"

definition release_proof_lengths :: "bytes \<Rightarrow> profile \<Rightarrow> range_inclusive option" where
  "release_proof_lengths TABLE p =
     map_option (\<lambda>r. \<lparr>range_start = PROOF_HEADER_BYTES, range_end = maximum_proof_bytes r\<rparr>)
       (release_relation TABLE p)"

definition release_body_lengths :: "bytes \<Rightarrow> profile \<Rightarrow> range_inclusive option" where
  "release_body_lengths TABLE p =
     map_option (\<lambda>proofs.
         let fixed = RELEASE_BODY_HEADER_BYTES + partial_bytes p in
         \<lparr>range_start = fixed + range_start proofs, range_end = fixed + range_end proofs\<rparr>)
       (release_proof_lengths TABLE p)"

record release_envelope =
  release_bytes :: bytes
  release_poll :: bytes
  release_setup_identity :: bytes
  release_target :: bytes
  release_position :: nat
  release_length :: nat
  release_identity :: bytes

definition release_envelope_new ::
  "bytes \<Rightarrow> profile \<Rightarrow> bytes \<Rightarrow> bytes \<Rightarrow> bytes \<Rightarrow> nat \<Rightarrow> nat \<Rightarrow> bytes \<Rightarrow> release_envelope result" where
  "release_envelope_new TABLE p poll setup_identity target position len ident =
     (if position \<ge> participants p \<or> \<not> within (release_body_lengths TABLE p) len then Inl Shape
      else Inr \<lparr> release_bytes = poll @ setup_identity @ target
                   @ u16_to_le_bytes (word_of_nat position) @ u64_to_le_bytes (word_of_nat len) @ ident,
                 release_poll = poll, release_setup_identity = setup_identity,
                 release_target = target, release_position = position, release_length = len,
                 release_identity = ident \<rparr>)"

definition release_envelope_decode :: "bytes \<Rightarrow> profile \<Rightarrow> bytes \<Rightarrow> release_envelope result" where
  "release_envelope_decode TABLE p bs =
     (if length bs \<noteq> RELEASE_ENVELOPE_BYTES then Inl Shape
      else and_then (usize_from_le (slice 194 202 bs)) (\<lambda>len.
        release_envelope_new TABLE p (slice 0 64 bs) (slice 64 128 bs) (slice 128 192 bs)
          (unat (u16_from_le_bytes (slice 192 194 bs))) len (drop 202 bs)))"

definition release_body_header :: "bytes \<Rightarrow> profile \<Rightarrow> bytes \<Rightarrow> nat \<Rightarrow> bytes result" where
  "release_body_header TABLE p statement proof_length =
     (if release_header_position p statement = None
         \<or> \<not> within (release_proof_lengths TABLE p) proof_length
      then Inl Shape else Inr (le_bytes 8 proof_length @ statement))"

definition release_proof_length :: "bytes \<Rightarrow> profile \<Rightarrow> bytes \<Rightarrow> nat result" where
  "release_proof_length TABLE p header =
     (if length header \<noteq> RELEASE_BODY_HEADER_BYTES then Inl Shape
      else and_then (usize_from_le (take 8 header)) (\<lambda>proof_length.
        and_then (release_body_header TABLE p (drop 8 header) proof_length) (\<lambda>expected.
          if expected \<noteq> header then Inl Shape else Inr proof_length)))"

definition release_body_hasher :: "externals \<Rightarrow> bytes \<Rightarrow> profile \<Rightarrow> nat \<Rightarrow> body_hasher result" where
  "release_body_hasher E TABLE p len =
     (if \<not> within (release_body_lengths TABLE p) len then Inl Shape
      else body_hasher_new E (ascii_bytes ''sealed-lattice/release-body'') len)"

definition begin_release ::
  "retained_setup_owner \<Rightarrow> authenticated_roster \<Rightarrow> target_message \<Rightarrow> unit operation" where
  "begin_release owner A m c =
     guarded (check_target_owner owner A m c) c (\<lambda>_.
     guarded (check_target_predecessors owner A c) c (\<lambda>_.
     guarded (check_unlocked ReleasePurpose c) c (\<lambda>_.
     if \<not> has_result m \<or> release_started c
        \<or> (case target_lock c of None \<Rightarrow> False | Some target \<Rightarrow> target \<noteq> target_identity m)
     then (c, Inl Consumed)
     else (c\<lparr>target_lock := Some (target_identity m), release_started := True\<rparr>, Inr ()))))"

definition sign_release ::
  "externals \<Rightarrow> retained_setup_owner \<Rightarrow> authenticated_roster \<Rightarrow> release_envelope
     \<Rightarrow> bytes operation" where
  "sign_release E owner A envelope c =
     guarded (check_setup_owner owner c) c (\<lambda>_.
     guarded (check_target_predecessors owner A c) c (\<lambda>_.
     guarded (ok_or Context (get (roster_records (auth_proposal A)) (owner_position owner))) c (\<lambda>r.
     if \<not> release_started c \<or> release_signed c then (c, Inl Consumed)
     else if target_lock c \<noteq> Some (release_target envelope)
             \<or> release_poll envelope \<noteq> owner_poll owner
             \<or> release_setup_identity envelope \<noteq> owner_setup_identity owner
             \<or> release_position envelope \<noteq> owner_position owner
             \<or> member_key r \<noteq> signing_public c
             \<or> completed_body c \<noteq> Some (reg_body_digest r)
     then (c, Inl Context)
     else let c1 = c\<lparr>release_signed := True\<rparr> in
       (c1, sign_deterministically E c1 (release_bytes envelope) RELEASE_SIGNATURE_CONTEXT))))"

end
