(* ===== verification/Participant.thy ===== *)
theory Participant
  imports Target_Signing
begin

text \<open>
  A participant over its whole life: every operation of a credential as one step of a machine, the
  signatures the steps emit, and what holds of every sequence of steps.  The operations are those
  of the component theories; a refused operation is a step too, with the state the source leaves.

  The one-time leaf of a purpose is only secure while it signs a single message, so the central
  property is that no sequence of calls makes a credential sign two messages under one context.
\<close>

section \<open>Operations as steps\<close>

datatype participant_operation =
  SignRegistration body_digest
| CreatePoll poll_draft bytes bytes
| SealComplete bytes
| UnlockUnusedPurposes u16
| ConfirmRoster retained_context
| RetirePreparation
| SignRosterProposal roster_proposal
| SignOffer retained_context offer_envelope
| SignSelectionProposal authenticated_roster selection_proposal
| EndorseSelection authenticated_roster selection_proposal nat
| RestoreSelectionProposal authenticated_selection
| RestoreSelectionEndorsement authenticated_roster authenticated_endorsement
| ReserveBallotAttempt retained_setup_owner
| SignRetainedBallotEnvelope retained_setup_owner ballot_envelope
| RestoreRetainedBallotSigning retained_setup_owner ballot_envelope bytes
| SignCloseIntent retained_setup_owner authenticated_roster close_intent_message
| LockCloseIntent retained_setup_owner authenticated_roster close_intent_message bytes
| SignCloseResponse retained_setup_owner authenticated_roster close_response_message
| SignCloseProposal retained_setup_owner authenticated_roster close_proposal_message
| RestoreCloseMessage retained_setup_owner authenticated_roster close_message bytes
| SignTarget retained_setup_owner authenticated_roster target_message
| RestoreTarget retained_setup_owner authenticated_roster target_message bytes
| BeginRelease retained_setup_owner authenticated_roster target_message
| SignRelease retained_setup_owner authenticated_roster release_envelope

text \<open>The twelve one-time leaves in use, in the order of \<open>SIGNING_CONTEXTS\<close>.\<close>

datatype signing_leaf =
  PollLeaf | RegistrationLeaf | RosterLeaf | OfferLeaf | SelectionLeaf | EndorsementLeaf
| BallotLeaf | IntentLeaf | ResponseLeaf | ProposalLeaf | TargetLeaf | ReleaseLeaf

fun leaf_context :: "signing_leaf \<Rightarrow> bytes" where
  "leaf_context PollLeaf = POLL_SIGNATURE_CONTEXT"
| "leaf_context RegistrationLeaf = REGISTRATION_SIGNATURE_CONTEXT"
| "leaf_context RosterLeaf = ROSTER_SIGNATURE_CONTEXT"
| "leaf_context OfferLeaf = OFFER_PURPOSE"
| "leaf_context SelectionLeaf = PROPOSAL_CONTEXT"
| "leaf_context EndorsementLeaf = ENDORSEMENT_PURPOSE"
| "leaf_context BallotLeaf = BALLOT_SIGNATURE_CONTEXT"
| "leaf_context IntentLeaf = close_context CloseIntent"
| "leaf_context ResponseLeaf = close_context CloseResponse"
| "leaf_context ProposalLeaf = close_context CloseProposal"
| "leaf_context TargetLeaf = CERTIFICATION_CONTEXT"
| "leaf_context ReleaseLeaf = RELEASE_SIGNATURE_CONTEXT"

text \<open>A signature that left the credential: its leaf, the message and the signature.\<close>

type_synonym emission = "signing_leaf \<times> bytes \<times> bytes"

definition silent :: "credential \<times> 'a result \<Rightarrow> credential \<times> emission option result" where
  "silent s = (fst s, map_sum id (\<lambda>_. None) (snd s))"

definition emitting ::
  "signing_leaf \<Rightarrow> ('a \<Rightarrow> bytes) \<Rightarrow> ('a \<Rightarrow> bytes) \<Rightarrow> credential \<times> 'a result
     \<Rightarrow> credential \<times> emission option result" where
  "emitting lf message signature s =
     (fst s, map_sum id (\<lambda>v. Some (lf, message v, signature v)) (snd s))"

fun perform ::
  "externals \<Rightarrow> bytes \<Rightarrow> aead \<Rightarrow> participant_operation \<Rightarrow> credential \<Rightarrow> credential \<times> emission option result" where
  "perform E TABLE A (SignRegistration body) c =
     emitting RegistrationLeaf (\<lambda>_. digest_bytes body) id (sign_registration E body c)"
| "perform E TABLE A (CreatePoll draft runtime nonce) c =
     emitting PollLeaf signed_poll_identity signed_poll_signature (create_poll E draft runtime nonce c)"
| "perform E TABLE A (SealComplete key) c = silent (seal_complete E A key c)"
| "perform E TABLE A (UnlockUnusedPurposes unused) c = silent (unlock_unused_purposes unused c)"
| "perform E TABLE A (ConfirmRoster ctx) c = silent (confirm_roster ctx c)"
| "perform E TABLE A RetirePreparation c = (retire_preparation c, Inr None)"
| "perform E TABLE A (SignRosterProposal R) c =
     emitting RosterLeaf (\<lambda>_. roster_identity R) id (sign_roster_proposal E R c)"
| "perform E TABLE A (SignOffer ctx envelope) c =
     emitting OfferLeaf (\<lambda>_. offer_identity E envelope) id (sign_offer E ctx envelope c)"
| "perform E TABLE A (SignSelectionProposal roster s) c =
     emitting SelectionLeaf (\<lambda>_. selection_identity s) id (sign_selection_proposal E roster s c)"
| "perform E TABLE A (EndorseSelection roster s position) c =
     emitting EndorsementLeaf
       (\<lambda>_. case endorsement_identity E (selection_identity s) position of Inl _ \<Rightarrow> [] | Inr m \<Rightarrow> m)
       (drop (2 + length (selection_identity s))) (endorse_selection E roster s position c)"
| "perform E TABLE A (RestoreSelectionProposal P) c = silent (restore_selection_proposal P c)"
| "perform E TABLE A (RestoreSelectionEndorsement roster e) c =
     silent (restore_selection_endorsement roster e c)"
| "perform E TABLE A (ReserveBallotAttempt owner) c = silent (reserve_ballot_attempt owner c)"
| "perform E TABLE A (SignRetainedBallotEnvelope owner envelope) c =
     emitting BallotLeaf (\<lambda>_. envelope) id (sign_retained_ballot_envelope E owner envelope c)"
| "perform E TABLE A (RestoreRetainedBallotSigning owner envelope signature) c =
     silent (restore_retained_ballot_signing E owner envelope signature c)"
| "perform E TABLE A (SignCloseIntent owner roster m) c =
     emitting IntentLeaf (\<lambda>_. intent_identity m) id (sign_close_intent E TABLE owner roster m c)"
| "perform E TABLE A (LockCloseIntent owner roster m signature) c =
     silent (lock_close_intent E TABLE owner roster m signature c)"
| "perform E TABLE A (SignCloseResponse owner roster m) c =
     emitting ResponseLeaf (\<lambda>_. response_identity m) id (sign_close_response E TABLE owner roster m c)"
| "perform E TABLE A (SignCloseProposal owner roster m) c =
     emitting ProposalLeaf (\<lambda>_. close_proposal_identity m) id
       (sign_close_proposal E TABLE owner roster m c)"
| "perform E TABLE A (RestoreCloseMessage owner roster m signature) c =
     silent (restore_close_message E TABLE owner roster m signature c)"
| "perform E TABLE A (SignTarget owner roster m) c =
     emitting TargetLeaf (\<lambda>_. target_identity m) vote_signature (sign_target E owner roster m c)"
| "perform E TABLE A (RestoreTarget owner roster m packet) c =
     silent (restore_target E TABLE owner roster m packet c)"
| "perform E TABLE A (BeginRelease owner roster m) c = silent (begin_release owner roster m c)"
| "perform E TABLE A (SignRelease owner roster envelope) c =
     emitting ReleaseLeaf (\<lambda>_. release_bytes envelope) id (sign_release E owner roster envelope c)"

text \<open>The state after a step, and what the step emits.\<close>

definition after :: "externals \<Rightarrow> bytes \<Rightarrow> aead \<Rightarrow> credential \<Rightarrow> participant_operation \<Rightarrow> credential" where
  "after E TABLE A c op = fst (perform E TABLE A op c)"

definition emits :: "externals \<Rightarrow> bytes \<Rightarrow> aead \<Rightarrow> credential \<Rightarrow> participant_operation \<Rightarrow> emission option" where
  "emits E TABLE A c op = (case snd (perform E TABLE A op c) of Inl _ \<Rightarrow> None | Inr e \<Rightarrow> e)"

lemma after_silent [simp]: "fst (silent s) = fst s"
  by (simp add: silent_def)

lemma after_emitting [simp]: "fst (emitting lf message signature s) = fst s"
  by (simp add: emitting_def)

lemma silent_emits [simp]: "silent s \<noteq> (d, Inr (Some e))"
  by (cases "snd s") (simp_all add: silent_def)

lemma emitting_emits [simp]:
  "emitting lf message signature s = (d, Inr (Some e))
     \<longleftrightarrow> (\<exists>v. s = (d, Inr v) \<and> e = (lf, message v, signature v))"
  by (cases s; cases "snd s") (auto simp: emitting_def)

lemma emits_iff:
  "emits E TABLE A c op = Some e \<longleftrightarrow> perform E TABLE A op c = (after E TABLE A c op, Inr (Some e))"
  by (cases "perform E TABLE A op c") (auto simp: emits_def after_def split: sum.splits)

section \<open>What no step takes back\<close>

definition keeps :: "(credential \<Rightarrow> 'a option) \<Rightarrow> credential \<Rightarrow> credential \<Rightarrow> bool" where
  "keeps f c d \<longleftrightarrow> (\<forall>x. f c = Some x \<longrightarrow> f d = Some x)"

definition stays :: "(credential \<Rightarrow> bool) \<Rightarrow> credential \<Rightarrow> credential \<Rightarrow> bool" where
  "stays f c d \<longleftrightarrow> (f c \<longrightarrow> f d)"

text \<open>
  The order of a credential's history: the key is fixed, a consumed purpose stays consumed with
  the message it was consumed for, the roster, the close intent and the target a credential has
  locked are never replaced, and no ballot attempt starts after a close intent is locked.
\<close>

definition extends :: "credential \<Rightarrow> credential \<Rightarrow> bool" where
  "extends c d \<longleftrightarrow>
     signing_seed d = signing_seed c \<and> signing_public d = signing_public c
     \<and> stays registration_signed c d \<and> stays poll_creation_consumed c d \<and> stays seed_sealed c d
     \<and> stays proposal_signed c d \<and> keeps offer_signed c d \<and> keeps selection_proposal_signed c d
     \<and> keeps selection_endorsed c d \<and> stays preparation_retired c d
     \<and> keeps signed_ballot c d \<and> stays ballot_attempted c d \<and> stays close_intent_signed c d
     \<and> keeps locked_identity c d \<and> keeps close_response c d \<and> stays close_proposal_signed c d
     \<and> stays target_signed c d \<and> keeps target_lock c d \<and> stays release_started c d
     \<and> stays release_signed c d \<and> keeps confirmed c d
     \<and> (registration_signed c \<longrightarrow> completed_body d = completed_body c)
     \<and> (locked_identity c \<noteq> None \<longrightarrow> ballot_attempted d \<longrightarrow> ballot_attempted c)"

lemma extends_refl [simp]: "extends c c"
  by (simp add: extends_def keeps_def stays_def)

lemma keeps_some: "keeps f c d \<Longrightarrow> f c \<noteq> None \<Longrightarrow> f d \<noteq> None"
  by (auto simp: keeps_def)

lemma extends_trans: "extends a b \<Longrightarrow> extends b c \<Longrightarrow> extends a c"
  using keeps_some [of locked_identity a b] by (simp add: extends_def) (simp add: keeps_def stays_def)

lemma guarded_extends:
  "(\<And>v. r = Inr v \<Longrightarrow> extends c (fst (k v))) \<Longrightarrow> extends c (fst (guarded r c k))"
  by (cases r) simp_all

lemma guarded_from:
  "extends c c1 \<Longrightarrow> (\<And>v. r = Inr v \<Longrightarrow> extends c (fst (k v))) \<Longrightarrow> extends c (fst (guarded r c1 k))"
  by (cases r) simp_all

lemmas extends_simps = extends_def keeps_def stays_def locked_identity_def

lemma then_op_extends:
  "extends c (fst s) \<Longrightarrow> (\<And>d v. s = (d, Inr v) \<Longrightarrow> extends c (fst (k d v)))
    \<Longrightarrow> extends c (fst (then_op s k))"
  by (cases s; cases "snd s") (auto simp: then_op_def)

lemma lock_intent_extends: "extends c (fst (lock_intent m c))"
  by (auto simp: lock_intent_def extends_simps split: option.splits)

lemma preparation_extends:
  "extends c (fst (sign_registration E body c))"
  "extends c (fst (create_poll E draft runtime nonce c))"
  "extends c (fst (seal_complete E A key c))"
  "extends c (fst (unlock_unused_purposes unused c))"
  "extends c (fst (confirm_roster ctx c))"
  "extends c (retire_preparation c)"
  by (auto simp: sign_registration_def create_poll_def seal_complete_def unlock_unused_purposes_def
      confirm_roster_def retire_preparation_def Let_def intro!: guarded_extends guarded_from
      split: option.splits; auto simp: extends_simps)+

lemma setup_extends:
  "extends c (fst (sign_roster_proposal E R c))"
  "extends c (fst (sign_offer E ctx envelope c))"
  "extends c (fst (sign_selection_proposal E roster s c))"
  "extends c (fst (endorse_selection E roster s position c))"
  "extends c (fst (restore_selection_proposal P c))"
  "extends c (fst (restore_selection_endorsement roster e c))"
  by (auto simp: sign_roster_proposal_def sign_offer_def validate_offer_context_def
      sign_selection_proposal_def endorse_selection_def restore_selection_proposal_def
      restore_selection_endorsement_def and_then_Inr_iff Let_def
      intro!: guarded_extends guarded_from split: option.splits if_splits; auto simp: extends_simps)+

lemma ballot_extends:
  "extends c (fst (reserve_ballot_attempt owner c))"
  "extends c (fst (sign_retained_ballot_envelope E owner envelope c))"
  "extends c (fst (restore_retained_ballot_signing E owner envelope signature c))"
  by (auto simp: reserve_ballot_attempt_def sign_retained_ballot_envelope_def sign_ballot_bytes_def
      restore_retained_ballot_signing_def Let_def intro!: guarded_extends; auto simp: extends_simps)+

lemma close_extends:
  "extends c (fst (lock_close_intent E TABLE owner roster intent signature c))"
  "extends c (fst (sign_close_response E TABLE owner roster response c))"
  "extends c (fst (sign_close_proposal E TABLE owner roster proposal c))"
  by (auto simp: lock_close_intent_def sign_close_response_def sign_close_proposal_def Let_def
      intro!: guarded_extends lock_intent_extends; auto simp: extends_simps)+

lemma intent_extends: "extends c (fst (sign_close_intent E TABLE owner roster m c))"
proof -
  let ?c = "c\<lparr>close_intent_signed := True\<rparr>"
  have "extends c ?c" by (simp add: extends_simps)
  then have "extends c (fst (lock_intent m ?c))" using lock_intent_extends extends_trans by blast
  then have "extends c (fst (then_op (lock_intent m ?c) (\<lambda>c1 _.
      (c1, sign_close E c1 CloseIntent (intent_identity m)))))"
    by (auto intro: then_op_extends)
  then show ?thesis by (auto simp: sign_close_intent_def intro!: guarded_extends)
qed

lemma restore_close_extends:
  "extends c (fst (restore_close_message E TABLE owner roster m signature c))"
proof (cases m)
  case (IntentMessage intent)
  have "extends c (fst (then_op (lock_intent intent c)
      (\<lambda>c1 _. (c1\<lparr>close_intent_signed := True\<rparr>, Inr ()))))"
  proof (rule then_op_extends [OF lock_intent_extends])
    fix d v
    assume "lock_intent intent c = (d, Inr v)"
    then have "extends c d" using lock_intent_extends [of c intent] by simp
    moreover have "extends d (d\<lparr>close_intent_signed := True\<rparr>)" by (simp add: extends_simps)
    ultimately show "extends c (fst (d\<lparr>close_intent_signed := True\<rparr>, Inr ()))"
      using extends_trans by simp
  qed
  then show ?thesis by (auto simp: IntentMessage intro!: guarded_extends)
qed (auto intro!: guarded_extends; auto simp: extends_simps)+

lemma target_extends:
  "extends c (fst (sign_target E owner roster m c))"
  "extends c (fst (restore_target E TABLE owner roster m packet c))"
  "extends c (fst (begin_release owner roster m c))"
  "extends c (fst (sign_release E owner roster envelope c))"
  by (auto simp: sign_target_def restore_target_def begin_release_def sign_release_def
      check_target_owner_def and_then_Inr_iff Let_def intro!: guarded_extends guarded_from
      split: if_splits option.splits; auto simp: extends_simps)+

text \<open>No step takes anything back.\<close>

lemma after_extends: "extends c (after E TABLE A c op)"
  by (cases op) (simp_all add: after_def preparation_extends setup_extends ballot_extends
      close_extends intent_extends restore_close_extends target_extends)

section \<open>One message per leaf\<close>

text \<open>
  The contract of a machine that spends each of its keys once: a step emits only under a key that
  is unspent, and the key is spent from then on.
\<close>

fun emissions :: "('s \<Rightarrow> 'o \<Rightarrow> 's) \<Rightarrow> ('s \<Rightarrow> 'o \<Rightarrow> 'e option) \<Rightarrow> 's \<Rightarrow> 'o list \<Rightarrow> 'e list" where
  "emissions advance out s [] = []"
| "emissions advance out s (op # ops) =
     (case out s op of None \<Rightarrow> [] | Some e \<Rightarrow> [e]) @ emissions advance out (advance s op) ops"

locale one_shot =
  fixes advance :: "'s \<Rightarrow> 'o \<Rightarrow> 's"
    and out :: "'s \<Rightarrow> 'o \<Rightarrow> 'e option"
    and spent :: "'k \<Rightarrow> 's \<Rightarrow> bool"
    and key :: "'e \<Rightarrow> 'k"
  assumes unspent: "out s op = Some e \<Longrightarrow> \<not> spent (key e) s"
    and spends: "out s op = Some e \<Longrightarrow> spent (key e) (advance s op)"
    and kept: "spent k s \<Longrightarrow> spent k (advance s op)"
begin

lemma spent_never_emits: "spent k s \<Longrightarrow> e \<in> set (emissions advance out s ops) \<Longrightarrow> key e \<noteq> k"
proof (induction ops arbitrary: s)
  case Nil
  then show ?case by simp
next
  case (Cons op ops)
  show ?case
  proof (cases "out s op = Some e")
    case True
    with unspent Cons.prems(1) show ?thesis by blast
  next
    case False
    with Cons.prems(2) have "e \<in> set (emissions advance out (advance s op) ops)"
      by (auto split: option.splits)
    with Cons.IH kept Cons.prems(1) show ?thesis by blast
  qed
qed

lemma keys_distinct: "distinct (map key (emissions advance out s ops))"
proof (induction ops arbitrary: s)
  case Nil
  then show ?case by simp
next
  case (Cons op ops)
  show ?case
  proof (cases "out s op")
    case None
    with Cons.IH show ?thesis by simp
  next
    case (Some e)
    have "key e \<notin> key ` set (emissions advance out (advance s op) ops)"
      using spent_never_emits [OF spends [OF Some]] by fastforce
    with Some Cons.IH show ?thesis by simp
  qed
qed

lemma one_message_per_key:
  assumes "e \<in> set (emissions advance out s ops)" "f \<in> set (emissions advance out s ops)" "key e = key f"
  shows "e = f"
  using assms keys_distinct [of s ops] by (auto simp: distinct_map inj_on_def)

end

fun consumed :: "signing_leaf \<Rightarrow> credential \<Rightarrow> bool" where
  "consumed PollLeaf c = poll_creation_consumed c"
| "consumed RegistrationLeaf c = registration_signed c"
| "consumed RosterLeaf c = proposal_signed c"
| "consumed OfferLeaf c = (offer_signed c \<noteq> None)"
| "consumed SelectionLeaf c = (selection_proposal_signed c \<noteq> None)"
| "consumed EndorsementLeaf c = (selection_endorsed c \<noteq> None)"
| "consumed BallotLeaf c = (signed_ballot c \<noteq> None)"
| "consumed IntentLeaf c = close_intent_signed c"
| "consumed ResponseLeaf c = (close_response c \<noteq> None)"
| "consumed ProposalLeaf c = close_proposal_signed c"
| "consumed TargetLeaf c = target_signed c"
| "consumed ReleaseLeaf c = release_signed c"

lemma consumed_extends: "extends c d \<Longrightarrow> consumed l c \<Longrightarrow> consumed l d"
  unfolding extends_def keeps_def stays_def
  by (cases l) (simp_all only: consumed.simps, (elim conjE, metis option.exhaust)+)

text \<open>What a successful signing operation has checked, changed and signed.\<close>

lemmas op_simps = guarded_Inr_iff and_then_Inr_iff Let_def sign_deterministically_def

lemma registration_ok:
  "sign_registration E body c = (d, Inr sig) \<Longrightarrow>
     \<not> registration_signed c \<and> registration_signed d
     \<and> sign_deterministically E c (digest_bytes body) REGISTRATION_SIGNATURE_CONTEXT = Inr sig"
  by (auto simp: sign_registration_def op_simps split: if_splits)

lemma poll_ok:
  "create_poll E draft runtime nonce c = (d, Inr p) \<Longrightarrow>
     \<not> poll_creation_consumed c \<and> poll_creation_consumed d
     \<and> sign_deterministically E c (signed_poll_identity p) POLL_SIGNATURE_CONTEXT
         = Inr (signed_poll_signature p)"
  by (auto simp: create_poll_def op_simps split: if_splits)

lemma roster_ok:
  "sign_roster_proposal E R c = (d, Inr sig) \<Longrightarrow>
     \<not> proposal_signed c \<and> proposal_signed d
     \<and> sign_deterministically E c (roster_identity R) ROSTER_SIGNATURE_CONTEXT = Inr sig"
  by (auto simp: sign_roster_proposal_def validate_roster_proposal_target_def op_simps split: if_splits)

lemma offer_ok:
  "sign_offer E ctx envelope c = (d, Inr sig) \<Longrightarrow>
     offer_signed c = None \<and> offer_signed d = Some (offer_identity E envelope)
     \<and> sign_deterministically E c (offer_identity E envelope) OFFER_PURPOSE = Inr sig"
  by (auto simp: sign_offer_def validate_offer_context_def op_simps split: if_splits)

lemma selection_ok:
  "sign_selection_proposal E roster s c = (d, Inr sig) \<Longrightarrow>
     selection_proposal_signed c = None \<and> selection_proposal_signed d = Some (selection_identity s)
     \<and> sign_deterministically E c (selection_identity s) PROPOSAL_CONTEXT = Inr sig"
  by (auto simp: sign_selection_proposal_def op_simps split: if_splits)

lemma endorsement_ok:
  "endorse_selection E roster s position c = (d, Inr packet) \<Longrightarrow>
     selection_endorsed c = None \<and> selection_endorsed d = Some (selection_identity s)
     \<and> (\<exists>m sig. endorsement_identity E (selection_identity s) position = Inr m
          \<and> packet = endorsement_packet position (selection_identity s) sig
          \<and> sign_deterministically E c m ENDORSEMENT_PURPOSE = Inr sig)"
  by (auto simp: endorse_selection_def op_simps split: if_splits)

lemma ballot_ok:
  "sign_retained_ballot_envelope E owner envelope c = (d, Inr sig) \<Longrightarrow>
     signed_ballot c = None
     \<and> signed_ballot d = Some (envelope_identity E envelope, envelope_ballot_time envelope)
     \<and> (close_lock c = None \<or> ballot_attempted c)
     \<and> sign_deterministically E c envelope BALLOT_SIGNATURE_CONTEXT = Inr sig"
  by (auto simp: sign_retained_ballot_envelope_def sign_ballot_bytes_def op_simps simp del: not_None_eq
      split: if_splits)

lemma intent_ok:
  "sign_close_intent E TABLE owner roster m c = (d, Inr sig) \<Longrightarrow>
     \<not> close_intent_signed c \<and> close_intent_signed d \<and> locked_identity d = Some (intent_identity m)
     \<and> sign_deterministically E c (intent_identity m) (close_context CloseIntent) = Inr sig"
  by (auto simp: sign_close_intent_def then_op_def lock_intent_def sign_close_def locked_identity_def
      op_simps split: if_splits prod.splits option.splits)

lemma response_ok:
  "sign_close_response E TABLE owner roster m c = (d, Inr sig) \<Longrightarrow>
     close_response c = None \<and> d = c\<lparr>close_response := Some (response_identity m)\<rparr>
     \<and> (\<exists>time. close_lock c = Some (response_intent m, time)
          \<and> (ballot_attempted c \<longrightarrow> signed_ballot c \<noteq> None)
          \<and> (\<forall>ident t. signed_ballot c = Some (ident, t) \<longrightarrow> t \<le> time \<longrightarrow>
               (owner_position owner, ident) \<in> set (response_listed m)))
     \<and> sign_deterministically E c (response_identity m) (close_context CloseResponse) = Inr sig"
  by (auto simp: sign_close_response_def sign_close_def op_simps split: if_splits option.splits)

lemma proposal_ok:
  "sign_close_proposal E TABLE owner roster m c = (d, Inr sig) \<Longrightarrow>
     \<not> close_proposal_signed c \<and> close_proposal_signed d
     \<and> locked_identity c = Some (close_proposal_intent m)
     \<and> (\<exists>own. close_response c = Some own
          \<and> (owner_position owner, own) \<in> set (close_proposal_responses m))
     \<and> sign_deterministically E c (close_proposal_identity m) (close_context CloseProposal) = Inr sig"
  by (auto simp: sign_close_proposal_def sign_close_def op_simps split: if_splits)

lemma target_ok:
  "sign_target E owner roster m c = (d, Inr vote) \<Longrightarrow>
     \<not> target_signed c \<and> target_signed d \<and> target_lock d = Some (target_identity m)
     \<and> close_response c \<noteq> None \<and> vote_target vote = target_identity m
     \<and> sign_deterministically E c (target_identity m) CERTIFICATION_CONTEXT
         = Inr (vote_signature vote)"
  by (auto simp: sign_target_def check_target_predecessors_def op_simps split: if_splits)

lemma release_ok:
  "sign_release E owner roster envelope c = (d, Inr sig) \<Longrightarrow>
     \<not> release_signed c \<and> release_signed d \<and> release_started c
     \<and> target_lock c = Some (release_target envelope) \<and> target_lock d = target_lock c
     \<and> sign_deterministically E c (release_bytes envelope) RELEASE_SIGNATURE_CONTEXT = Inr sig"
  by (auto simp: sign_release_def op_simps split: if_splits)

lemmas ok_lemmas = registration_ok poll_ok roster_ok offer_ok selection_ok endorsement_ok ballot_ok
  intent_ok response_ok proposal_ok target_ok release_ok

lemma perform_ok:
  "perform E TABLE A op c = (d, Inr (Some (l, m, sig))) \<Longrightarrow>
     \<not> consumed l c \<and> consumed l d \<and> sign_deterministically E c m (leaf_context l) = Inr sig"
  by (cases op) (auto simp: endorsement_packet_def dest!: ok_lemmas)

lemma emits_ok:
  assumes "emits E TABLE A c op = Some (l, m, sig)"
  shows "\<not> consumed l c \<and> consumed l (after E TABLE A c op)
    \<and> sign_deterministically E c m (leaf_context l) = Inr sig"
  using assms perform_ok unfolding emits_iff by blast

interpretation participant: one_shot "after E TABLE A" "emits E TABLE A" consumed fst for E TABLE A
proof
  fix c op and e :: emission
  assume "emits E TABLE A c op = Some e"
  then show "\<not> consumed (fst e) c" "consumed (fst e) (after E TABLE A c op)"
    using emits_ok [of E TABLE A c op "fst e" "fst (snd e)" "snd (snd e)"] by simp_all
next
  fix k c op
  assume "consumed k c"
  then show "consumed k (after E TABLE A c op)" by (rule consumed_extends [OF after_extends])
qed

section \<open>Runs\<close>

abbreviation history :: "externals \<Rightarrow> bytes \<Rightarrow> aead \<Rightarrow> credential \<Rightarrow> participant_operation list \<Rightarrow> emission list" where
  "history E TABLE A \<equiv> emissions (after E TABLE A) (emits E TABLE A)"

abbreviation run :: "externals \<Rightarrow> bytes \<Rightarrow> aead \<Rightarrow> credential \<Rightarrow> participant_operation list \<Rightarrow> credential" where
  "run E TABLE A \<equiv> foldl (after E TABLE A)"

lemma emissions_append:
  "emissions advance out s (xs @ ys)
     = emissions advance out s xs @ emissions advance out (foldl advance s xs) ys"
  by (induction xs arbitrary: s) simp_all

lemma run_extends: "extends c (run E TABLE A c ops)"
proof (induction ops arbitrary: c)
  case Nil
  then show ?case by simp
next
  case (Cons op ops)
  then show ?case using after_extends extends_trans by (metis foldl_Cons)
qed

lemma retained_extends: "extends c d \<Longrightarrow> check_retained E c \<Longrightarrow> check_retained E d"
  by (simp add: extends_def check_retained_def)

lemma leaf_contexts: "map leaf_context [PollLeaf, RegistrationLeaf, RosterLeaf, OfferLeaf,
    SelectionLeaf, EndorsementLeaf, BallotLeaf, IntentLeaf, ResponseLeaf, ProposalLeaf, TargetLeaf,
    ReleaseLeaf] = SIGNING_CONTEXTS"
  by (simp add: SIGNING_CONTEXTS_def POLL_SIGNATURE_CONTEXT_def POLL_PURPOSE_def
      REGISTRATION_SIGNATURE_CONTEXT_def ROSTER_SIGNATURE_CONTEXT_def PROPOSAL_PURPOSE_def
      OFFER_PURPOSE_def PROPOSAL_CONTEXT_def ENDORSEMENT_PURPOSE_def BALLOT_SIGNATURE_CONTEXT_def
      CERTIFICATION_CONTEXT_def RELEASE_SIGNATURE_CONTEXT_def)

lemma signing_contexts_distinct: "distinct SIGNING_CONTEXTS"
  by (simp add: SIGNING_CONTEXTS_def ascii_bytes_def byte_of_def)

lemma leaf_context_inject: "leaf_context l = leaf_context k \<longleftrightarrow> l = k"
proof -
  let ?ls = "[PollLeaf, RegistrationLeaf, RosterLeaf, OfferLeaf, SelectionLeaf, EndorsementLeaf,
    BallotLeaf, IntentLeaf, ResponseLeaf, ProposalLeaf, TargetLeaf, ReleaseLeaf]"
  have "inj_on leaf_context (set ?ls)"
    using signing_contexts_distinct leaf_contexts by (metis distinct_map)
  moreover have "l \<in> set ?ls" "k \<in> set ?ls" by (cases l; simp) (cases k; simp)
  ultimately show ?thesis by (rule inj_on_eq_iff)
qed

lemma leaf_context_known: "leaf_context l \<in> set SIGNING_CONTEXTS"
  unfolding leaf_contexts [symmetric] by (cases l) simp_all

lemma history_step:
  assumes "e \<in> set (history E TABLE A c ops)"
  shows "\<exists>before op later. ops = before @ op # later \<and> emits E TABLE A (run E TABLE A c before) op = Some e"
  using assms
proof (induction ops arbitrary: c)
  case Nil
  then show ?case by simp
next
  case (Cons op ops)
  show ?case
  proof (cases "emits E TABLE A c op = Some e")
    case True
    then show ?thesis by (intro exI [of _ "[]"] exI [of _ op] exI [of _ ops]) simp
  next
    case False
    with Cons.prems have "e \<in> set (history E TABLE A (after E TABLE A c op) ops)"
      by (auto split: option.splits)
    from Cons.IH [OF this] obtain before op' later where
      "ops = before @ op' # later" "emits E TABLE A (run E TABLE A (after E TABLE A c op) before) op' = Some e"
      by blast
    then show ?thesis by (intro exI [of _ "op # before"] exI [of _ op'] exI [of _ later]) simp
  qed
qed

lemma history_signature:
  assumes "permutation_ok E" "check_retained E c" "(l, m, sig) \<in> set (history E TABLE A c ops)"
  shows "length sig = SIGNATURE_BYTES \<and> verify_context E (signing_public c) (leaf_context l) m sig"
proof -
  obtain before op later where
    "emits E TABLE A (run E TABLE A c before) op = Some (l, m, sig)"
    using history_step [OF assms(3)] by blast
  then have "sign_deterministically E (run E TABLE A c before) m (leaf_context l) = Inr sig"
    using emits_ok by blast
  moreover have "check_retained E (run E TABLE A c before)"
    using retained_extends [OF run_extends] assms(2) by blast
  moreover have "signing_public (run E TABLE A c before) = signing_public c"
    using run_extends [of c E TABLE A before] by (simp add: extends_def)
  ultimately show ?thesis
    using sign_deterministically_verifies [OF assms(1) leaf_context_known [of l], of
        "run E TABLE A c before" m] by simp
qed

section \<open>Ballots and the close\<close>

lemma ballot_emission:
  "perform E TABLE A op c = (d, Inr (Some (BallotLeaf, envelope, sig))) \<Longrightarrow>
     signed_ballot c = None
     \<and> signed_ballot d = Some (envelope_identity E envelope, envelope_ballot_time envelope)
     \<and> (close_lock c = None \<or> ballot_attempted c)"
  by (cases op) (auto dest!: ballot_ok)

lemma ballot_recorded:
  assumes "(BallotLeaf, envelope, sig) \<in> set (history E TABLE A c ops)"
  shows "signed_ballot (run E TABLE A c ops)
    = Some (envelope_identity E envelope, envelope_ballot_time envelope)"
proof -
  obtain before op later where ops: "ops = before @ op # later"
    and e: "emits E TABLE A (run E TABLE A c before) op = Some (BallotLeaf, envelope, sig)"
    using history_step [OF assms] by blast
  let ?d = "after E TABLE A (run E TABLE A c before) op"
  have "signed_ballot ?d = Some (envelope_identity E envelope, envelope_ballot_time envelope)"
    using e ballot_emission unfolding emits_iff by blast
  moreover have "extends ?d (run E TABLE A c ops)" using run_extends by (simp add: ops)
  ultimately show ?thesis by (simp add: extends_def keeps_def)
qed

text \<open>A close intent is locked and every attempt that was started is complete.\<close>

definition frozen :: "credential \<Rightarrow> bool" where
  "frozen c \<longleftrightarrow> close_lock c \<noteq> None \<and> (ballot_attempted c \<longrightarrow> signed_ballot c \<noteq> None)"

lemma frozen_extends:
  assumes "frozen c" "extends c d"
  shows "frozen d"
proof -
  have "locked_identity c \<noteq> None" using assms(1) by (simp add: frozen_def locked_identity_def)
  moreover have "keeps locked_identity c d" "keeps signed_ballot c d"
    "locked_identity c \<noteq> None \<longrightarrow> ballot_attempted d \<longrightarrow> ballot_attempted c"
    using assms(2) by (simp_all add: extends_def)
  ultimately show ?thesis
    using assms(1) keeps_some [of locked_identity c d] keeps_some [of signed_ballot c d]
    by (auto simp: frozen_def locked_identity_def)
qed

lemma frozen_no_ballot:
  assumes "frozen c"
  shows "(BallotLeaf, envelope, sig) \<notin> set (history E TABLE A c ops)"
proof
  assume "(BallotLeaf, envelope, sig) \<in> set (history E TABLE A c ops)"
  from history_step [OF this] obtain before op where
    "emits E TABLE A (run E TABLE A c before) op = Some (BallotLeaf, envelope, sig)" by blast
  moreover have "frozen (run E TABLE A c before)" using frozen_extends [OF assms run_extends] .
  ultimately show False
    using ballot_emission unfolding emits_iff frozen_def by metis
qed

section \<open>Locked purposes\<close>

lemma fst_guarded: "fst (guarded r c k) = (case r of Inl _ \<Rightarrow> c | Inr v \<Rightarrow> fst (k v))"
  by (cases r) simp_all

lemma fst_then_op:
  "fst (then_op s k) = (case s of (c, Inl _) \<Rightarrow> c | (c, Inr v) \<Rightarrow> fst (k c v))"
  by (cases s; cases "snd s") (auto simp: then_op_def)

text \<open>What decides whether a locked purpose can sign: the locks, and a release that has begun.\<close>

definition gate :: "credential \<Rightarrow> u16 \<times> bool" where
  "gate c = (locked_purposes c, release_started c)"

lemmas state_simps = fst_guarded fst_then_op Let_def gate_def

lemma gate_setup:
  "gate (fst (sign_registration E body c)) = gate c"
  "gate (fst (create_poll E draft runtime nonce c)) = gate c"
  "gate (fst (seal_complete E A key c)) = gate c"
  "gate (fst (confirm_roster ctx c)) = gate c"
  "gate (fst (sign_roster_proposal E R c)) = gate c"
  "gate (fst (sign_offer E ctx envelope c)) = gate c"
  "gate (fst (sign_selection_proposal E roster s c)) = gate c"
  "gate (fst (endorse_selection E roster s position c)) = gate c"
  by (auto simp: sign_registration_def create_poll_def seal_complete_def confirm_roster_def
      sign_roster_proposal_def sign_offer_def sign_selection_proposal_def endorse_selection_def
      state_simps split: sum.splits option.splits)+

lemma gate_lock_intent [simp]: "gate (fst (lock_intent m c)) = gate c"
  by (simp add: lock_intent_def gate_def)

lemma lock_intent_fields [simp]:
  "locked_purposes (fst (lock_intent m c)) = locked_purposes c"
  "release_started (fst (lock_intent m c)) = release_started c"
  by (simp_all add: lock_intent_def)

lemma lock_intent_gate:
  "lock_intent m c = (d, r) \<Longrightarrow> gate d = gate c"
  using gate_lock_intent [of m c] by simp

lemma gate_close:
  "gate (fst (reserve_ballot_attempt owner c)) = gate c"
  "gate (fst (sign_retained_ballot_envelope E owner envelope c)) = gate c"
  "gate (fst (restore_retained_ballot_signing E owner envelope signature c)) = gate c"
  "gate (fst (sign_close_intent E TABLE owner roster intent c)) = gate c"
  "gate (fst (lock_close_intent E TABLE owner roster intent signature c)) = gate c"
  "gate (fst (sign_close_response E TABLE owner roster response c)) = gate c"
  "gate (fst (sign_close_proposal E TABLE owner roster proposal c)) = gate c"
  by (auto simp: reserve_ballot_attempt_def sign_retained_ballot_envelope_def sign_ballot_bytes_def
      restore_retained_ballot_signing_def sign_close_intent_def lock_close_intent_def
      sign_close_response_def sign_close_proposal_def state_simps
      dest: lock_intent_gate [unfolded gate_def] split: sum.splits prod.splits)+

lemma gate_restore:
  "gate (fst (restore_close_message E TABLE owner roster m signature c)) = gate c"
  by (cases m) (auto simp: state_simps dest: lock_intent_gate [unfolded gate_def] split: sum.splits prod.splits)

lemma gate_target:
  "gate (fst (sign_target E owner roster m c)) = gate c"
  "gate (fst (restore_target E TABLE owner roster m packet c)) = gate c"
  "gate (fst (sign_release E owner roster envelope c)) = gate c"
  by (auto simp: sign_target_def restore_target_def sign_release_def
      state_simps split: sum.splits)+

text \<open>Only an unlock that names the purpose opens it.\<close>

fun unlocks :: "signing_purpose \<Rightarrow> participant_operation \<Rightarrow> bool" where
  "unlocks purpose (UnlockUnusedPurposes unused) = bit unused (purpose_bit purpose)"
| "unlocks purpose _ = False"

lemma gate_begin_release:
  "locked_purposes (fst (begin_release owner roster m c)) = locked_purposes c"
  "bit (locked_purposes c) 9 \<Longrightarrow> gate (fst (begin_release owner roster m c)) = gate c"
  by (auto simp: begin_release_def check_unlocked_def purpose_mask_def bit_iff_and_push_bit_not_eq_0
      state_simps split: sum.splits)

lemma gate_selection:
  "bit (locked_purposes c) n \<Longrightarrow> bit (locked_purposes (retire_preparation c)) n
     \<and> release_started (retire_preparation c) = release_started c"
  "bit (locked_purposes c) n \<Longrightarrow> bit (locked_purposes (fst (restore_selection_proposal P c))) n
     \<and> release_started (fst (restore_selection_proposal P c)) = release_started c"
  "bit (locked_purposes c) n \<Longrightarrow> bit (locked_purposes (fst (restore_selection_endorsement roster e c))) n
     \<and> release_started (fst (restore_selection_endorsement roster e c)) = release_started c"
  by (auto simp: retire_preparation_def restore_selection_proposal_def
      restore_selection_endorsement_def fst_guarded Let_def bit_or_iff split: sum.splits)

definition shut :: "signing_purpose \<Rightarrow> credential \<Rightarrow> bool" where
  "shut purpose c \<longleftrightarrow> bit (locked_purposes c) (purpose_bit purpose)
     \<and> (purpose = ReleasePurpose \<longrightarrow> \<not> release_started c)"

lemma shut_gate: "gate d = gate c \<Longrightarrow> shut purpose c \<Longrightarrow> shut purpose d"
  by (simp add: gate_def shut_def)

lemma shut_begin_release: "shut purpose c \<Longrightarrow> shut purpose (fst (begin_release owner roster m c))"
  using gate_begin_release(1) [of owner roster m c] gate_begin_release(2) [of c owner roster m]
  by (cases "purpose = ReleasePurpose") (auto simp: shut_def gate_def)

lemma shut_selection:
  "shut purpose c \<Longrightarrow> shut purpose (retire_preparation c)"
  "shut purpose c \<Longrightarrow> shut purpose (fst (restore_selection_proposal P c))"
  "shut purpose c \<Longrightarrow> shut purpose (fst (restore_selection_endorsement roster e c))"
  unfolding shut_def by (metis gate_selection)+

lemma shut_unlock:
  assumes "shut purpose c" "\<not> bit unused (purpose_bit purpose)"
  shows "shut purpose (fst (unlock_unused_purposes unused c))"
  using assms purpose_bit_bound [of purpose]
  by (auto simp: unlock_unused_purposes_def shut_def bit_simps)

lemmas shut_operations = gate_setup [THEN shut_gate] gate_close [THEN shut_gate]
  gate_restore [THEN shut_gate] gate_target [THEN shut_gate] shut_begin_release shut_selection
  shut_unlock

lemma shut_after:
  assumes "shut purpose c" "\<not> unlocks purpose op"
  shows "shut purpose (after E TABLE A c op)"
  using assms by (cases op) (simp_all add: after_def shut_operations)

fun leaf_purpose :: "signing_leaf \<Rightarrow> signing_purpose option" where
  "leaf_purpose PollLeaf = None"
| "leaf_purpose RegistrationLeaf = None"
| "leaf_purpose RosterLeaf = Some RosterProposalPurpose"
| "leaf_purpose OfferLeaf = Some OfferPurpose"
| "leaf_purpose SelectionLeaf = Some SelectionProposalPurpose"
| "leaf_purpose EndorsementLeaf = Some SelectionEndorsementPurpose"
| "leaf_purpose BallotLeaf = Some BallotPurpose"
| "leaf_purpose IntentLeaf = Some CloseIntentPurpose"
| "leaf_purpose ResponseLeaf = Some CloseResponsePurpose"
| "leaf_purpose ProposalLeaf = Some CloseProposalPurpose"
| "leaf_purpose TargetLeaf = Some TargetPurpose"
| "leaf_purpose ReleaseLeaf = Some ReleasePurpose"

lemma locked_emits_nothing:
  assumes "perform E TABLE A op c = (d, Inr (Some (l, m, sig)))" "leaf_purpose l = Some purpose"
  shows "\<not> shut purpose c"
  using assms
  by (cases op) (auto simp: sign_roster_proposal_def validate_roster_proposal_target_def sign_offer_def
      validate_offer_context_def sign_selection_proposal_def endorse_selection_def
      sign_retained_ballot_envelope_def sign_ballot_bytes_def sign_close_intent_def
      sign_close_response_def sign_close_proposal_def sign_target_def shut_def op_simps
      dest: release_ok split: if_splits)

end
