(* ===== verification/Participant_Safety.thy ===== *)
theory Participant_Safety
  imports Participant
begin

text \<open>
  What a participant's credential guarantees over every sequence of its operations.  The sample
  life below is a complete one, from registration to release, and is the concrete run the
  properties are applied to.
\<close>

section \<open>A sample life\<close>

definition sample_credential :: credential where
  "sample_credential = from_seed sample_externals sample_seed"

definition sample_key :: bytes where
  "sample_key = signing_public sample_credential"

definition sample_digest :: body_digest where
  "sample_digest = \<lparr>digest_bytes = replicate 64 9, digest_signing_public = sample_key\<rparr>"

definition sample_owner :: retained_setup_owner where
  "sample_owner =
     \<lparr> owner_poll = replicate 64 1, owner_setup_identity = replicate 64 2, owner_position = 0,
       owner_body = replicate 64 9, owner_signing_public = sample_key \<rparr>"

definition sample_record :: verified_registration where
  "sample_record =
     \<lparr> reg_header = sample_header\<lparr>header_poll := replicate 64 1, header_signing_public := sample_key\<rparr>,
       reg_body_digest = replicate 64 9, reg_public_key = [] \<rparr>"

definition sample_auth :: authenticated_roster where
  "sample_auth =
     \<lparr> auth_proposal =
         \<lparr> roster_identity = replicate 64 3, roster_body = [],
           roster_records = [sample_record, sample_registration 1, sample_registration 2,
                             sample_registration 3, sample_registration 4],
           roster_organizer_position = 0, roster_profile = sample_profile,
           roster_family_index = 0 \<rparr>,
       auth_signature = [] \<rparr>"

definition sample_ballot :: ballot_envelope where
  "sample_ballot = replicate 64 1 @ replicate 64 2 @ u16_to_le_bytes 0 @ u64_to_le_bytes 7
     @ replicate 72 0"

definition sample_intent :: close_intent_message where
  "sample_intent =
     \<lparr> intent_body = [], intent_identity = replicate 64 4, intent_poll = replicate 64 1,
       intent_setup_identity = replicate 64 2, intent_close_time = 9 \<rparr>"

definition sample_response :: close_response_message where
  "sample_response =
     \<lparr> response_body = [], response_identity = replicate 64 5, response_poll = replicate 64 1,
       response_setup_identity = replicate 64 2, response_intent = replicate 64 4,
       response_responder = 0,
       response_listed = [(0, envelope_identity sample_externals sample_ballot)] \<rparr>"

definition sample_close :: close_proposal_message where
  "sample_close =
     \<lparr> close_proposal_body = [], close_proposal_identity = replicate 64 6,
       close_proposal_poll = replicate 64 1, close_proposal_setup_identity = replicate 64 2,
       close_proposal_intent = replicate 64 4, close_proposal_responses = [(0, replicate 64 5)] \<rparr>"

definition sample_target :: target_message where
  "sample_target =
     \<lparr> target_body = [], target_poll = replicate 64 1, target_setup_identity = replicate 64 2,
       target_proposal = replicate 64 6, target_identity = replicate 64 8, target_participants = 5,
       target_ciphertext = Some (replicate 64 0), target_classifications = replicate 5 2 \<rparr>"

definition sample_release :: release_envelope where
  "sample_release =
     \<lparr> release_bytes = replicate 64 1 @ replicate 64 2 @ replicate 64 8 @ u16_to_le_bytes 0
         @ u64_to_le_bytes 0 @ replicate 64 0,
       release_poll = replicate 64 1, release_setup_identity = replicate 64 2,
       release_target = replicate 64 8, release_position = 0, release_length = 0,
       release_identity = replicate 64 0 \<rparr>"

definition sample_life :: "participant_operation list" where
  "sample_life =
     [SignRegistration sample_digest, SignRegistration sample_digest,
      ReserveBallotAttempt sample_owner, SignRetainedBallotEnvelope sample_owner sample_ballot,
      SignCloseIntent sample_owner sample_auth sample_intent,
      SignCloseResponse sample_owner sample_auth sample_response,
      SignCloseProposal sample_owner sample_auth sample_close,
      SignTarget sample_owner sample_auth sample_target,
      BeginRelease sample_owner sample_auth sample_target,
      SignRelease sample_owner sample_auth sample_release,
      SignRelease sample_owner sample_auth sample_release]"

text \<open>The signature of the sample key under a leaf.\<close>

definition sample_signed :: "signing_leaf \<Rightarrow> bytes \<Rightarrow> bytes" where
  "sample_signed l m = projr (sign_deterministically sample_externals sample_credential m (leaf_context l))"

lemma sample_sign:
  assumes "signing_seed c = sample_seed"
  shows "sign_deterministically sample_externals c m (leaf_context l) = Inr (sample_signed l m)"
proof -
  have "sign_deterministically sample_externals c m (leaf_context l)
      = sign_deterministically sample_externals sample_credential m (leaf_context l)"
    using assms by (simp add: sign_deterministically_def sample_credential_def from_seed_def)
  moreover obtain s where "sign_deterministically sample_externals sample_credential m (leaf_context l) = Inr s"
    using sign_deterministically_verifies [OF sample_permutation leaf_context_known, of sample_credential m l]
    by (auto simp: sample_credential_def)
  ultimately show ?thesis by (simp add: sample_signed_def)
qed

lemmas sample_signs = sample_sign [where l = RegistrationLeaf, unfolded leaf_context.simps]
  sample_sign [where l = BallotLeaf, unfolded leaf_context.simps]
  sample_sign [where l = IntentLeaf, unfolded leaf_context.simps(8)]
  sample_sign [where l = ResponseLeaf, unfolded leaf_context.simps(9)]
  sample_sign [where l = ProposalLeaf, unfolded leaf_context.simps(10)]
  sample_sign [where l = TargetLeaf, unfolded leaf_context.simps]
  sample_sign [where l = ReleaseLeaf, unfolded leaf_context.simps]

lemmas sample_records = sample_owner_def sample_auth_def sample_record_def sample_digest_def
  sample_intent_def sample_response_def sample_close_def sample_target_def sample_release_def

lemma sample_fields:
  "signing_seed sample_credential = sample_seed" "signing_public sample_credential = sample_key"
  "\<not> registration_signed sample_credential" "locked_purposes sample_credential = 0"
  "signed_ballot sample_credential = None" "\<not> ballot_attempted sample_credential"
  "\<not> close_intent_signed sample_credential" "close_lock sample_credential = None"
  "close_response sample_credential = None" "\<not> close_proposal_signed sample_credential"
  "\<not> target_signed sample_credential" "target_lock sample_credential = None"
  "\<not> release_started sample_credential" "\<not> release_signed sample_credential"
  by (simp_all add: sample_key_def sample_credential_def from_seed_def)

lemma sample_envelope_fields:
  "envelope_poll sample_ballot = replicate 64 1" "envelope_setup_identity sample_ballot = replicate 64 2"
  "envelope_position sample_ballot = 0" "envelope_ballot_time sample_ballot = 7"
  by (simp_all add: sample_ballot_def envelope_poll_def envelope_setup_identity_def
      envelope_position_def envelope_ballot_time_def slice_def ENVELOPE_POLL_OFFSET_def
      ENVELOPE_SETUP_IDENTITY_OFFSET_def ENVELOPE_POSITION_OFFSET_def ENVELOPE_BALLOT_TIME_OFFSET_def
      ENVELOPE_BODY_LENGTH_OFFSET_def)

lemma sample_supported: "participants_supported sample_TABLE 5"
  by code_simp

lemma sample_close_owner:
  "completed_body c = Some (replicate 64 9) \<Longrightarrow> signing_public c = sample_key \<Longrightarrow>
   check_close_owner sample_TABLE sample_owner sample_auth (replicate 64 1) (replicate 64 2) c = Inr ()"
  using sample_supported
  by (simp add: eval_nat_numeral check_close_owner_def check_setup_owner_def sample_records get_def)

text \<open>The states of the sample life, from the registered credential on.\<close>

definition life1 :: credential where
  "life1 = sample_credential\<lparr>registration_signed := True, poll_creation_consumed := True,
     completed_body := Some (replicate 64 9)\<rparr>"

definition life2 :: credential where "life2 = life1\<lparr>ballot_attempted := True\<rparr>"

definition life3 :: credential where
  "life3 = life2\<lparr>signed_ballot := Some (envelope_identity sample_externals sample_ballot, 7)\<rparr>"

definition life4 :: credential where
  "life4 = life3\<lparr>close_intent_signed := True, close_lock := Some (replicate 64 4, 9)\<rparr>"

definition life5 :: credential where "life5 = life4\<lparr>close_response := Some (replicate 64 5)\<rparr>"

definition life6 :: credential where "life6 = life5\<lparr>close_proposal_signed := True\<rparr>"

definition life7 :: credential where
  "life7 = life6\<lparr>target_signed := True, target_lock := Some (replicate 64 8)\<rparr>"

definition life8 :: credential where "life8 = life7\<lparr>release_started := True\<rparr>"

definition life9 :: credential where "life9 = life8\<lparr>release_signed := True\<rparr>"

lemmas life_states = life9_def life8_def life7_def life6_def life5_def life4_def life3_def life2_def
  life1_def

lemma unlocked_all: "locked_purposes c = 0 \<Longrightarrow> check_unlocked purpose c = Inr ()"
  by (simp add: check_unlocked_def)

lemmas life_simps = unlocked_all life_states sample_fields sample_signs sample_envelope_fields sample_records
  sample_key_def [symmetric] check_setup_owner_def get_def Let_def emitting_def silent_def

abbreviation life :: "participant_operation \<Rightarrow> credential \<Rightarrow> credential \<times> emission option result" where
  "life \<equiv> perform sample_externals sample_TABLE sample_aead"

lemma life_ballots:
  "life (SignRegistration sample_digest) sample_credential =
     (life1, Inr (Some (RegistrationLeaf, replicate 64 9, sample_signed RegistrationLeaf (replicate 64 9))))"
  "life (SignRegistration sample_digest) life1 = (life1, Inl Consumed)"
  "life (ReserveBallotAttempt sample_owner) life1 = (life2, Inr None)"
  "life (SignRetainedBallotEnvelope sample_owner sample_ballot) life2 =
     (life3, Inr (Some (BallotLeaf, sample_ballot, sample_signed BallotLeaf sample_ballot)))"
  by (simp_all add: life_simps sign_registration_def reserve_ballot_attempt_def
      sign_retained_ballot_envelope_def sign_ballot_bytes_def ballot_owner_refused_def)

lemma life_closes:
  "life (SignCloseIntent sample_owner sample_auth sample_intent) life3 =
     (life4, Inr (Some (IntentLeaf, replicate 64 4, sample_signed IntentLeaf (replicate 64 4))))"
  "life (SignCloseResponse sample_owner sample_auth sample_response) life4 =
     (life5, Inr (Some (ResponseLeaf, replicate 64 5, sample_signed ResponseLeaf (replicate 64 5))))"
  "life (SignCloseProposal sample_owner sample_auth sample_close) life5 =
     (life6, Inr (Some (ProposalLeaf, replicate 64 6, sample_signed ProposalLeaf (replicate 64 6))))"
  using sample_close_owner [of life3] sample_close_owner [of life4] sample_close_owner [of life5]
  by (simp_all add: life_simps sign_close_intent_def sign_close_response_def sign_close_proposal_def
      check_organizer_def lock_intent_def then_op_def sign_close_def locked_identity_def
      del: close_context.simps)

lemma life_releases:
  "life (SignTarget sample_owner sample_auth sample_target) life6 =
     (life7, Inr (Some (TargetLeaf, replicate 64 8, sample_signed TargetLeaf (replicate 64 8))))"
  "life (BeginRelease sample_owner sample_auth sample_target) life7 = (life8, Inr None)"
  "life (SignRelease sample_owner sample_auth sample_release) life8 =
     (life9, Inr (Some (ReleaseLeaf, release_bytes sample_release,
        sample_signed ReleaseLeaf (release_bytes sample_release))))"
  "life (SignRelease sample_owner sample_auth sample_release) life9 = (life9, Inl Consumed)"
  by (simp_all add: life_simps sign_target_def begin_release_def sign_release_def
      check_target_owner_def check_target_predecessors_def has_result_def)

lemmas life_steps = life_ballots life_closes life_releases

lemmas life_after [simp] = life_steps [THEN arg_cong [of _ _ fst], folded after_def, unfolded fst_conv]

lemma sample_history:
  "history sample_externals sample_TABLE sample_aead sample_credential sample_life =
     map (\<lambda>(l, m). (l, m, sample_signed l m))
       [(RegistrationLeaf, replicate 64 9), (BallotLeaf, sample_ballot), (IntentLeaf, replicate 64 4),
        (ResponseLeaf, replicate 64 5), (ProposalLeaf, replicate 64 6), (TargetLeaf, replicate 64 8),
        (ReleaseLeaf, release_bytes sample_release)]"
  by (simp add: sample_life_def emits_def life_steps del: perform.simps)

section \<open>One message per leaf\<close>

text \<open>
  C1. Whatever a caller does with a credential, no two messages are ever signed under the same
  signing context, and every signature that leaves the credential has the fixed length and
  verifies under its public key and the context of its leaf.
\<close>

theorem each_leaf_signs_one_message:
  assumes "permutation_ok E" "check_retained E c"
  shows "distinct (map (leaf_context \<circ> fst) (history E TABLE A c ops))
    \<and> (\<forall>(l, m, sig) \<in> set (history E TABLE A c ops).
         leaf_context l \<in> set SIGNING_CONTEXTS \<and> length sig = SIGNATURE_BYTES
         \<and> verify_context E (signing_public c) (leaf_context l) m sig)"
proof -
  have "inj leaf_context" by (simp add: inj_on_def leaf_context_inject)
  then have "distinct (map leaf_context (map fst (history E TABLE A c ops)))"
    using participant.keys_distinct [of E TABLE A c ops]
    by (subst distinct_map) (blast intro: inj_on_subset)
  then show ?thesis using history_signature [OF assms] leaf_context_known by fastforce
qed

theorem each_leaf_signs_one_message_witness:
  "map (leaf_context \<circ> fst) (history sample_externals sample_TABLE sample_aead sample_credential sample_life)
     = [REGISTRATION_SIGNATURE_CONTEXT, BALLOT_SIGNATURE_CONTEXT, close_context CloseIntent,
        close_context CloseResponse, close_context CloseProposal, CERTIFICATION_CONTEXT,
        RELEASE_SIGNATURE_CONTEXT]
   \<and> distinct (map (leaf_context \<circ> fst)
       (history sample_externals sample_TABLE sample_aead sample_credential sample_life))"
  using each_leaf_signs_one_message [OF sample_permutation, of sample_credential sample_TABLE
      sample_aead sample_life] from_seed_retained [of sample_externals sample_seed]
  unfolding sample_history by (simp add: sample_credential_def del: close_context.simps)

section \<open>Locks\<close>

text \<open>
  C11. A credential never changes what it has committed to: the confirmed roster, the signed offer,
  the selection it proposed and the one it endorsed, its ballot, the close intent it has locked,
  its close response and its target are, after any operations, what they were, if it had one.
\<close>

theorem commitments_are_never_replaced:
  "confirmed c \<in> {None, confirmed (run E TABLE A c ops)}
   \<and> offer_signed c \<in> {None, offer_signed (run E TABLE A c ops)}
   \<and> selection_proposal_signed c \<in> {None, selection_proposal_signed (run E TABLE A c ops)}
   \<and> selection_endorsed c \<in> {None, selection_endorsed (run E TABLE A c ops)}
   \<and> signed_ballot c \<in> {None, signed_ballot (run E TABLE A c ops)}
   \<and> locked_identity c \<in> {None, locked_identity (run E TABLE A c ops)}
   \<and> close_response c \<in> {None, close_response (run E TABLE A c ops)}
   \<and> target_lock c \<in> {None, target_lock (run E TABLE A c ops)}
   \<and> signing_public (run E TABLE A c ops) = signing_public c"
proof -
  have kept: "keeps f c d \<Longrightarrow> f c \<in> {None, f d}" for f :: "credential \<Rightarrow> 'x option" and d
    by (cases "f c") (auto simp: keeps_def)
  show ?thesis
    using run_extends [of c E TABLE A ops] unfolding extends_def by (elim conjE) (intro conjI; (rule kept)?; assumption)
qed

section \<open>The target\<close>

text \<open>An envelope as its constructors build it: the third field of the bytes is the target.\<close>

fun release_named :: "participant_operation \<Rightarrow> bool" where
  "release_named (SignRelease owner roster envelope)
     \<longleftrightarrow> slice 128 192 (release_bytes envelope) = release_target envelope"
| "release_named _ \<longleftrightarrow> True"

lemma target_emission:
  "perform E TABLE A op c = (d, Inr (Some (TargetLeaf, m, sig))) \<Longrightarrow> target_lock d = Some m"
  by (cases op) (auto dest!: target_ok)

lemma release_emission:
  "perform E TABLE A op c = (d, Inr (Some (ReleaseLeaf, bs, sig))) \<Longrightarrow> release_named op \<Longrightarrow>
     target_lock d = Some (slice 128 192 bs)"
  by (cases op) (auto dest!: release_ok)

lemma emission_locks:
  assumes "e \<in> set (history E TABLE A c ops)"
    and "\<And>op b d. op \<in> set ops \<Longrightarrow> perform E TABLE A op b = (d, Inr (Some e)) \<Longrightarrow> target_lock d = Some t"
  shows "target_lock (run E TABLE A c ops) = Some t"
proof -
  obtain before op later where ops: "ops = before @ op # later"
    and e: "emits E TABLE A (run E TABLE A c before) op = Some e"
    using history_step [OF assms(1)] by blast
  let ?d = "after E TABLE A (run E TABLE A c before) op"
  have "target_lock ?d = Some t" using e assms(2) [of op] unfolding emits_iff ops by simp
  moreover have "extends ?d (run E TABLE A c ops)" using run_extends by (simp add: ops)
  ultimately show ?thesis by (simp add: extends_def keeps_def)
qed

text \<open>
  C3. A credential that certifies a target and signs a release, in either order and with any other
  operations between, releases for the target it certified.
\<close>

theorem release_is_for_the_certified_target:
  assumes "list_all release_named ops"
    and "(TargetLeaf, target, sig) \<in> set (history E TABLE A c ops)"
    and "(ReleaseLeaf, envelope, sig') \<in> set (history E TABLE A c ops)"
  shows "slice 128 192 envelope = target"
proof -
  have "target_lock (run E TABLE A c ops) = Some target"
    by (rule emission_locks [OF assms(2)]) (rule target_emission)
  moreover have "target_lock (run E TABLE A c ops) = Some (slice 128 192 envelope)"
    by (rule emission_locks [OF assms(3)], rule release_emission) (use assms(1) in \<open>auto simp: list_all_iff\<close>)
  ultimately show ?thesis by simp
qed

theorem release_is_for_the_certified_target_witness:
  "slice 128 192 (release_bytes sample_release) = replicate 64 8"
proof -
  have named: "list_all release_named sample_life"
    by (simp add: sample_life_def sample_release_def slice_def)
  show ?thesis
    by (rule release_is_for_the_certified_target [OF named, of _ _ sample_externals sample_TABLE
          sample_aead sample_credential])
      (simp_all add: sample_history)
qed

section \<open>The close\<close>

lemma own_ballot_listed:
  assumes "close_lock (run E TABLE A c before) = Some (intent, time)"
    and "emits E TABLE A (run E TABLE A c before) (SignCloseResponse owner roster m) = Some e"
    and "(BallotLeaf, envelope, sig)
           \<in> set (history E TABLE A c (before @ SignCloseResponse owner roster m # later))"
    and "envelope_ballot_time envelope \<le> time"
  shows "(owner_position owner, envelope_identity E envelope) \<in> set (response_listed m)"
proof -
  let ?c = "run E TABLE A c before"
  obtain d s where s: "sign_close_response E TABLE owner roster m ?c = (d, Inr s)"
    and e: "e = (ResponseLeaf, response_identity m, s)"
    and d: "after E TABLE A ?c (SignCloseResponse owner roster m) = d"
    using assms(2) unfolding emits_iff by auto
  note ok = response_ok [OF s]
  have "frozen d" using ok by (auto simp: frozen_def)
  then have "(BallotLeaf, envelope, sig) \<in> set (history E TABLE A c before)"
    using assms(2,3) frozen_no_ballot [of d envelope sig E TABLE A later] by (auto simp: emissions_append d e)
  from ballot_recorded [OF this] ok assms(1,4) show ?thesis by auto
qed

text \<open>
  C2. A close response accounts for its signer's ballot: when the operations before it leave a
  close intent with closing time \<open>time\<close> locked and the response is signed, every ballot the
  credential signs, before or after the response, that is not later than \<open>time\<close> is listed in the
  response.
\<close>

theorem response_accounts_for_the_own_ballot:
  assumes "close_lock (run E TABLE A c before) = Some (intent, time)"
    and "emits E TABLE A (run E TABLE A c before) (SignCloseResponse owner roster m) = Some e"
    and "(BallotLeaf, envelope, sig)
           \<in> set (history E TABLE A c (before @ SignCloseResponse owner roster m # later))"
    and "envelope_ballot_time envelope \<le> time"
  shows "(owner_position owner, envelope_identity E envelope) \<in> set (response_listed m)"
  by (rule own_ballot_listed [OF assms])

theorem response_accounts_for_the_own_ballot_witness:
  "(owner_position sample_owner, envelope_identity sample_externals sample_ballot)
     \<in> set (response_listed sample_response)"
proof (rule response_accounts_for_the_own_ballot)
  let ?before = "take 5 sample_life"
  have life4: "run sample_externals sample_TABLE sample_aead sample_credential ?before = life4"
    by (simp add: sample_life_def)
  show "close_lock (run sample_externals sample_TABLE sample_aead sample_credential ?before)
      = Some (replicate 64 4, 9)"
    unfolding life4 by (simp add: life4_def)
  show "emits sample_externals sample_TABLE sample_aead
      (run sample_externals sample_TABLE sample_aead sample_credential ?before)
      (SignCloseResponse sample_owner sample_auth sample_response)
      = Some (ResponseLeaf, replicate 64 5, sample_signed ResponseLeaf (replicate 64 5))"
    unfolding life4 emits_def life_steps by simp
  show "(BallotLeaf, sample_ballot, sample_signed BallotLeaf sample_ballot)
      \<in> set (history sample_externals sample_TABLE sample_aead sample_credential
          (?before @ SignCloseResponse sample_owner sample_auth sample_response # drop 6 sample_life))"
    using sample_history by (simp add: sample_life_def)
  show "envelope_ballot_time sample_ballot \<le> 9" by (simp add: sample_envelope_fields)
qed

text \<open>
  C13. Once a close intent is locked in a credential that has reserved no ballot attempt, no
  operations make it sign a ballot: neither reserving an attempt nor an unlock opens the way.
\<close>

theorem no_ballot_starts_after_the_close:
  assumes "close_lock c \<noteq> None" "\<not> ballot_attempted c"
  shows "BallotLeaf \<notin> fst ` set (history E TABLE A c ops)
    \<and> \<not> ballot_attempted (run E TABLE A c ops)"
proof -
  have "frozen c" using assms by (simp add: frozen_def)
  then have "BallotLeaf \<notin> fst ` set (history E TABLE A c ops)"
    using frozen_no_ballot [of c] by fastforce
  moreover have "\<not> ballot_attempted (run E TABLE A c ops)"
    using run_extends [of c E TABLE A ops] assms by (simp add: extends_def locked_identity_def)
  ultimately show ?thesis by blast
qed

theorem no_ballot_starts_after_the_close_witness:
  "BallotLeaf \<notin> fst ` set (history sample_externals sample_TABLE sample_aead
     (life1\<lparr>close_lock := Some (replicate 64 4, 9)\<rparr>)
     [ReserveBallotAttempt sample_owner, SignRetainedBallotEnvelope sample_owner sample_ballot])"
  using no_ballot_starts_after_the_close [of "life1\<lparr>close_lock := Some (replicate 64 4, 9)\<rparr>"]
  by (simp add: life1_def sample_fields del: emissions.simps)

section \<open>A reopened credential\<close>



end
