(* ===== verification/Close_Codec.thy ===== *)
theory Close_Codec
  imports Close_Signing
begin

text \<open>
  The close messages as an exact code (\<open>protocol-foundations/src/close-signing.rs\<close>): which bytes the
  parsers of the intent, the response and the proposal accept, and that the constructors build
  every message whose fields are in range.
\<close>

section \<open>Listed entries\<close>

abbreviation listings :: "nat \<Rightarrow> (nat \<times> bytes) list \<Rightarrow> (nat \<times> bytes) list" where
  "listings author vs \<equiv> filter (\<lambda>v. fst v = author) vs"

definition valid_entries :: "nat \<Rightarrow> nat \<Rightarrow> (nat \<times> bytes) list \<Rightarrow> bool" where
  "valid_entries n per_author vs \<longleftrightarrow>
     (\<forall>v \<in> set vs. fst v < n \<and> length (snd v) = 64) \<and> sorted_wrt (<) vs
     \<and> (\<forall>author. length (listings author vs) \<le> per_author)"

lemma no_earlier_author:
  "\<forall>w \<in> set vs. v < w \<Longrightarrow> a < fst v \<Longrightarrow> listings a vs = []"
  by (auto simp: less_prod_def filter_empty_conv)

lemma check_entries_from:
  "r \<le> per_author \<Longrightarrow>
   check_entries n per_author (Some v) r vs = Inr () \<longleftrightarrow>
     (\<forall>w \<in> set vs. fst w < n) \<and> sorted_wrt (<) (v # vs)
     \<and> (\<forall>a. (if a = fst v then r else 0) + length (listings a vs) \<le> per_author)"
proof (induction vs arbitrary: v r)
  case Nil
  then show ?case by simp
next
  case (Cons w vs)
  obtain a i where w: "w = (a, i)" by (cases w)
  let ?r = "if fst v = a then r + 1 else 1"
  let ?good = "\<lambda>b k us. (if b = fst v then k else 0) + length (listings b us) \<le> per_author"
  have unfold: "check_entries n per_author (Some v) r (w # vs) = Inr () \<longleftrightarrow>
      a < n \<and> v < w \<and> ?r \<le> per_author \<and> check_entries n per_author (Some w) ?r vs = Inr ()"
    by (auto simp: w Let_def not_le)
  show ?case
  proof (cases "v < w \<and> ?r \<le> per_author \<and> sorted_wrt (<) (w # vs)")
    case True
    have later: "fst v \<noteq> a \<Longrightarrow> listings (fst v) vs = []"
      using True no_earlier_author [of vs w "fst v"] by (auto simp: less_prod_def w)
    have "(\<forall>b. (if b = a then ?r else 0) + length (listings b vs) \<le> per_author)
      \<longleftrightarrow> (\<forall>b. (if b = fst v then r else 0) + length (listings b (w # vs)) \<le> per_author)"
      using True later Cons.prems by (intro iff_allI) (auto simp: w)
    moreover have "check_entries n per_author (Some w) ?r vs = Inr () \<longleftrightarrow>
        (\<forall>u \<in> set vs. fst u < n) \<and> sorted_wrt (<) (w # vs)
        \<and> (\<forall>b. (if b = a then ?r else 0) + length (listings b vs) \<le> per_author)"
      using Cons.IH [of ?r w] True unfolding w fst_conv by blast
    moreover have "sorted_wrt (<) (v # w # vs)" using True by auto
    moreover have "(\<forall>u \<in> set (w # vs). fst u < n) \<longleftrightarrow> a < n \<and> (\<forall>u \<in> set vs. fst u < n)"
      by (simp add: w)
    ultimately show ?thesis using True unfolding unfold by blast
  next
    case False
    have "\<not> ?r \<le> per_author \<Longrightarrow>
        \<not> (\<forall>b. (if b = fst v then r else 0) + length (listings b (w # vs)) \<le> per_author)"
      using Cons.prems by (auto simp: w not_le intro!: exI [of _ a])
    moreover have "sorted_wrt (<) (v # w # vs) \<Longrightarrow> v < w \<and> sorted_wrt (<) (w # vs)" by auto
    moreover have "?r \<le> per_author \<Longrightarrow> check_entries n per_author (Some w) ?r vs = Inr () \<Longrightarrow>
        sorted_wrt (<) (w # vs)"
      using Cons.IH [of ?r w] by blast
    ultimately show ?thesis using False unfolding unfold by blast
  qed
qed

lemma check_entries_iff:
  "check_entries n per_author None 0 vs = Inr () \<longleftrightarrow>
     (\<forall>w \<in> set vs. fst w < n) \<and> sorted_wrt (<) vs \<and> (\<forall>a. length (listings a vs) \<le> per_author)"
proof (cases vs)
  case Nil
  then show ?thesis by simp
next
  case (Cons w us)
  obtain a i where w: "w = (a, i)" by (cases w)
  have eq: "(\<forall>b. (if b = a then 1 else 0) + length (listings b us) \<le> per_author)
      \<longleftrightarrow> (\<forall>b. length (listings b vs) \<le> per_author)"
    by (intro iff_allI) (auto simp: Cons w)
  show ?thesis
  proof (cases "1 \<le> per_author")
    case True
    with check_entries_from [OF True, of n w us] eq show ?thesis by (auto simp: Cons w Let_def)
  next
    case False
    then have "\<not> (\<forall>b. length (listings b vs) \<le> per_author)"
      by (auto simp: Cons w not_le intro!: exI [of _ a])
    with False show ?thesis by (auto simp: Cons w Let_def)
  qed
qed

lemma check_entries_unit: "check_entries n per_author p r vs = Inr u \<longleftrightarrow> check_entries n per_author p r vs = Inr ()"
  by (cases u) simp

text \<open>At most \<open>per_author\<close> entries for each of \<open>n\<close> authors.\<close>

lemma entries_bound:
  assumes "\<forall>w \<in> set vs. fst w < n" "\<forall>a. length (listings a vs) \<le> per_author"
  shows "length vs \<le> per_author * n"
proof -
  have "length vs = (\<Sum>a < n. length (listings a vs))"
    using assms(1)
  proof (induction vs)
    case Nil
    then show ?case by simp
  next
    case (Cons w vs)
    have "(\<Sum>a < n. length (listings a (w # vs)))
        = (\<Sum>a < n. length (listings a vs) + (if a = fst w then 1 else 0))"
      by (rule sum.cong) auto
    also have "\<dots> = length vs + 1" using Cons by (simp add: sum.distrib)
    finally show ?case by simp
  qed
  also have "\<dots> \<le> (\<Sum>a < n. per_author)" using assms(2) by (intro sum_mono) blast
  finally show ?thesis by (simp add: mult.commute)
qed

section \<open>Entry bytes\<close>

definition entry_bytes :: "nat \<times> bytes \<Rightarrow> bytes" where
  "entry_bytes v = u16_to_le_bytes (word_of_nat (fst v)) @ snd v"

lemma selection_entry_bytes: "fst v < 65536 \<Longrightarrow> selection_entry (entry_bytes v) = v"
  by (simp add: selection_entry_def entry_bytes_def)

lemma entry_bytes_selection: "length bs = 66 \<Longrightarrow> entry_bytes (selection_entry bs) = bs"
  using u16_to_from_le_bytes [of "take 2 bs"] by (simp add: selection_entry_def entry_bytes_def)

lemma encode_entry_bytes_value:
  "\<forall>v \<in> set vs. fst v < 65536 \<Longrightarrow> encode_entry_bytes vs = Inr (concat (map entry_bytes vs))"
  by (induction vs rule: encode_entry_bytes.induct)
    (auto simp: entry_bytes_def u16_try_from_def)

lemma length_entry_bytes:
  "\<forall>v \<in> set vs. length (snd v) = 64 \<Longrightarrow> length (concat (map entry_bytes vs)) = 66 * length vs"
  by (induction vs) (auto simp: entry_bytes_def)

lemma decode_variable_value_bound: "decode_variable_value bs = Some v \<Longrightarrow> length v + 4 < usize_bound"
  by (auto simp: decode_variable_value_def Option.bind_eq_Some_conv split: if_splits)

lemma close_entries_iff:
  assumes "n \<le> 65536"
  shows "close_entries item n per_author = Inr vs \<longleftrightarrow>
    valid_entries n per_author vs \<and> length (concat (map entry_bytes vs)) + 4 < usize_bound
    \<and> item = raw_variable (concat (map entry_bytes vs))"
proof
  assume "close_entries item n per_author = Inr vs"
  then obtain bs where item: "item_type item = RawBytes" "variable_value_bytes item = Some bs"
    and bs: "length bs mod 66 = 0" "vs = map selection_entry (chunks_exact 66 bs)"
    and ok: "check_entries n per_author None 0 vs = Inr ()"
    by (auto simp: close_entries_def and_then_Inr_iff Let_def LISTED_ENTRY_BYTES_def split: if_splits)
  have each: "\<forall>c \<in> set (chunks_exact 66 bs). length c = 66" by (simp add: chunks_exact_lengths)
  then have "map entry_bytes vs = chunks_exact 66 bs"
    by (simp add: bs(2) map_idI entry_bytes_selection)
  then have eq: "concat (map entry_bytes vs) = bs" using bs(1) by (simp add: concat_chunks_exact mod_eq_0_iff_dvd)
  have "\<forall>v \<in> set vs. length (snd v) = 64" using each by (auto simp: bs(2) selection_entry_def)
  with ok have "valid_entries n per_author vs" by (auto simp: valid_entries_def check_entries_iff)
  moreover have "item = raw_variable bs \<and> length bs + 4 < usize_bound"
    using raw_item_read [OF item] item
    by (auto simp: variable_value_bytes_Some_iff dest: decode_variable_value_bound)
  ultimately show "valid_entries n per_author vs \<and> length (concat (map entry_bytes vs)) + 4 < usize_bound
    \<and> item = raw_variable (concat (map entry_bytes vs))" by (simp add: eq)
next
  assume r: "valid_entries n per_author vs \<and> length (concat (map entry_bytes vs)) + 4 < usize_bound
    \<and> item = raw_variable (concat (map entry_bytes vs))"
  let ?bs = "concat (map entry_bytes vs)"
  have small: "\<forall>v \<in> set vs. fst v < 65536 \<and> length (snd v) = 64"
    using r assms by (fastforce simp: valid_entries_def)
  then have each: "\<forall>c \<in> set (map entry_bytes vs). length c = 66" by (auto simp: entry_bytes_def)
  have "chunks_exact 66 ?bs = map entry_bytes vs" using chunks_exact_concat [OF _ each] by simp
  moreover have "map (selection_entry \<circ> entry_bytes) vs = vs"
    using small by (intro map_idI) (simp add: selection_entry_bytes)
  moreover have "length ?bs mod 66 = 0" using length_entry_bytes small by simp
  moreover have "check_entries n per_author None 0 vs = Inr ()"
    using r by (auto simp: check_entries_iff valid_entries_def)
  ultimately show "close_entries item n per_author = Inr vs"
    using r by (simp add: close_entries_def LISTED_ENTRY_BYTES_def Let_def)
qed

section \<open>Messages\<close>

abbreviation close_tuple :: "close_purpose \<Rightarrow> bytes \<Rightarrow> bytes \<Rightarrow> canonical_item list \<Rightarrow> canonical_tuple" where
  "close_tuple purpose poll setup_identity rest \<equiv> message_tuple
     (label_item (close_context purpose) # hash512 poll # hash512 setup_identity # rest)"

lemma close_labels:
  "labelled (close_context purpose)" "length (close_context purpose) \<le> 29"
  by (cases purpose; simp add: labelled_def ascii_bytes_def printable_ascii_def)+

lemma close_label_value [simp]:
  "variable_value_bytes (label_item (close_context purpose)) = Some (close_context purpose)"
  using close_labels(2) [of purpose] by (simp add: usize_bound_def)

lemma length_close_tuple:
  assumes "length poll = 64" "length setup_identity = 64"
  shows "length (tuple_bytes (close_tuple purpose poll setup_identity rest))
    = close_prefix_bytes purpose + 6 * length rest + items_length rest"
  using assms by (simp add: length_tuple_bytes close_prefix_bytes_def)

lemma supported_count: "participants_supported TABLE n \<Longrightarrow> n \<le> 255"
proof -
  assume "participants_supported TABLE n"
  then obtain bs where "n \<le> unat (bs :: byte)"
    by (auto simp: participants_supported_def within_def participant_range_def table_def Let_def
        range_contains_def split: option.splits if_splits)
  then show ?thesis using unat_byte_bound [of bs] by linarith
qed

lemma close_maximum: "n \<le> 255 \<Longrightarrow> maximum_close_message_bytes purpose n \<le> 2 ^ 17"
  using close_labels(2) [of CloseIntent] close_labels(2) [of CloseResponse] close_labels(2) [of CloseProposal]
  by (cases purpose) (auto simp: close_prefix_bytes_def close_response_bytes_def
      MAXIMUM_LISTED_ENVELOPES_PER_SLOT_def LISTED_ENTRY_BYTES_def inventory_threshold_def
      maximum_corrupt_participants_def)

lemma close_decode_sound:
  assumes "close_decode E body purpose n = Inr its"
  shows "body = tuple_bytes (message_tuple its) \<and> length its = close_item_count purpose
    \<and> length body \<le> maximum_close_message_bytes purpose n
    \<and> its ! 0 = label_item (close_context purpose)"
proof -
  obtain t where t: "tuple_decode E body (message_limits (maximum_close_message_bytes purpose n)
      (close_item_count purpose)) = Some t" "has_header t (close_item_count purpose)" "items t = its"
    and l: "item_type (its ! 0) = Ascii" "variable_value_bytes (its ! 0) = Some (close_context purpose)"
    using assms by (auto simp: close_decode_def and_then_Inr_iff Let_def split: if_splits)
  from message_decode_sound [OF t(1,2)] t(3) label_item_read [OF l] show ?thesis by auto
qed

lemma close_decode_complete:
  assumes "length poll = 64" "length setup_identity = 64"
    and "\<forall>item \<in> set rest. flat_item
      (message_limits (maximum_close_message_bytes purpose n) (close_item_count purpose)) item"
    and "length rest + 3 = close_item_count purpose" "n \<le> 255"
    and "length (tuple_bytes (close_tuple purpose poll setup_identity rest))
      \<le> maximum_close_message_bytes purpose n"
  shows "close_decode E (tuple_bytes (close_tuple purpose poll setup_identity rest)) purpose n
    = Inr (label_item (close_context purpose) # hash512 poll # hash512 setup_identity # rest)"
proof -
  define M C where "M = maximum_close_message_bytes purpose n" and "C = close_item_count purpose"
  let ?its = "label_item (close_context purpose) # hash512 poll # hash512 setup_identity # rest"
  have "length (close_context purpose) + 4 < usize_bound"
    using close_labels(2) [of purpose] by (simp add: usize_bound_def)
  then have "flat_item l (label_item (close_context purpose))" for l
    using close_labels(1) [of purpose] by (simp add: labelled_def)
  then have flat: "\<forall>item \<in> set ?its. flat_item (message_limits M C) item"
    using assms(1-3) by (simp add: M_def C_def)
  have "M \<le> 2 ^ 20" using close_maximum [OF assms(5), of purpose] by (simp add: M_def)
  moreover have "C \<le> 4096" unfolding C_def by (cases purpose) simp_all
  ultimately have "tuple_decode E (tuple_bytes (message_tuple ?its)) (message_limits M C)
      = Some (message_tuple ?its)"
    using assms(4,6) by (intro message_decode [OF flat]) (simp_all add: M_def C_def)
  then show ?thesis using assms(4) by (simp add: close_decode_def Let_def M_def C_def)
qed

text \<open>The constructors of a close message, before parsing.\<close>

lemma close_encode_value:
  assumes "length poll = 64" "length setup_identity = 64"
    and "\<forall>item \<in> set rest. flat_item default_limits item" "length rest \<le> 4000"
    and "length (tuple_bytes (close_tuple purpose poll setup_identity rest)) \<le> 2 ^ 20"
  shows "close_encode E purpose poll setup_identity rest
    = Inr (tuple_bytes (close_tuple purpose poll setup_identity rest))"
proof -
  have "length (close_context purpose) + 4 < usize_bound"
    using close_labels(2) [of purpose] by (simp add: usize_bound_def)
  then have "flat_item l (label_item (close_context purpose))" for l
    using close_labels(1) [of purpose] by (simp add: labelled_def)
  then have "tuple_encode E (close_tuple purpose poll setup_identity rest)
      = Some (tuple_bytes (close_tuple purpose poll setup_identity rest))"
    using assms by (intro message_encode) auto
  then show ?thesis using nonempty_label [OF close_labels(1), of purpose] by (simp add: close_encode_def)
qed

lemma close_identity_value:
  assumes "length body \<le> 2 ^ 17"
  shows "close_message_identity E purpose body
    = Inr (shake256 E (identity_preimage (close_context purpose) body))"
  using assms by (simp add: close_message_identity_def message_hash_value close_labels default_limits_def)

lemma close_hash_iff: "close_hash item = Inr h \<longleftrightarrow> item = hash512 h \<and> length h = 64"
  using hash512_read [of item] by (auto simp: close_hash_def try_array_def hash512_def split: if_splits)

lemma close_position_iff:
  assumes "n \<le> 65536"
  shows "close_position item n = Inr i \<longleftrightarrow> i < n \<and> item = unsigned16 (word_of_nat i)"
proof
  assume "close_position item n = Inr i"
  then show "i < n \<and> item = unsigned16 (word_of_nat i)"
    using unsigned16_read [of item]
    by (auto simp: close_position_def try_array_def and_then_Inr_iff Let_def split: if_splits)
next
  assume "i < n \<and> item = unsigned16 (word_of_nat i)"
  then show "close_position item n = Inr i"
    using assms by (auto simp: close_position_def try_array_def unsigned16_def)
qed

section \<open>Responses\<close>

definition response_items :: "bytes \<Rightarrow> nat \<Rightarrow> (nat \<times> bytes) list \<Rightarrow> canonical_item list" where
  "response_items intent responder listed =
     [hash512 intent, unsigned16 (word_of_nat responder), raw_variable (concat (map entry_bytes listed))]"

definition response_of ::
  "externals \<Rightarrow> bytes \<Rightarrow> bytes \<Rightarrow> bytes \<Rightarrow> nat \<Rightarrow> (nat \<times> bytes) list \<Rightarrow> close_response_message" where
  "response_of E poll setup_identity intent responder listed =
     (let body = tuple_bytes (close_tuple CloseResponse poll setup_identity
                   (response_items intent responder listed)) in
      \<lparr> response_body = body,
        response_identity = shake256 E (identity_preimage (close_context CloseResponse) body),
        response_poll = poll, response_setup_identity = setup_identity, response_intent = intent,
        response_responder = responder, response_listed = listed \<rparr>)"

definition response_fields :: "nat \<Rightarrow> bytes \<Rightarrow> bytes \<Rightarrow> bytes \<Rightarrow> nat \<Rightarrow> (nat \<times> bytes) list \<Rightarrow> bool" where
  "response_fields n poll setup_identity intent responder listed \<longleftrightarrow>
     length poll = 64 \<and> length setup_identity = 64 \<and> length intent = 64 \<and> responder < n
     \<and> valid_entries n MAXIMUM_LISTED_ENVELOPES_PER_SLOT listed"

lemma valid_entries_lengths:
  assumes "valid_entries n per_author vs"
  shows "length (concat (map entry_bytes vs)) = 66 * length vs" "length vs \<le> per_author * n"
  using assms length_entry_bytes [of vs] entries_bound [of vs n per_author]
  by (auto simp: valid_entries_def)

lemma length_response_items [simp]: "length (response_items intent responder listed) = 3"
  by (simp add: response_items_def)

lemma response_size:
  assumes "response_fields n poll setup_identity intent responder listed"
  shows "length (response_body (response_of E poll setup_identity intent responder listed))
      \<le> maximum_close_message_bytes CloseResponse n"
proof -
  have "items_length (response_items intent responder listed) = 70 + 66 * length listed"
    using assms valid_entries_lengths(1) [of n MAXIMUM_LISTED_ENVELOPES_PER_SLOT listed]
    by (simp add: response_items_def response_fields_def hash512_def unsigned16_def)
  then show ?thesis
    using assms valid_entries_lengths(2) [of n 2 listed]
    by (simp add: response_of_def response_fields_def length_close_tuple close_response_bytes_def
        LISTED_ENTRY_BYTES_def MAXIMUM_LISTED_ENVELOPES_PER_SLOT_def Let_def length_response_items
        del: close_context.simps)
qed

lemma response_items_flat:
  "length intent = 64 \<Longrightarrow> \<forall>item \<in> set (response_items intent responder listed). flat_item l item"
  by (simp add: response_items_def)

lemma response_parse_iff:
  "response_parse E TABLE body n = Inr m \<longleftrightarrow>
     participants_supported TABLE n
     \<and> (\<exists>poll setup_identity intent responder listed.
          response_fields n poll setup_identity intent responder listed
          \<and> m = response_of E poll setup_identity intent responder listed \<and> body = response_body m)"
proof (cases "participants_supported TABLE n")
  case False
  then show ?thesis by (simp add: response_parse_def check_participants_def)
next
  case True
  then have n: "n \<le> 255" by (rule supported_count)
  then have n': "n \<le> 65536" by simp
  show ?thesis
  proof
    assume "response_parse E TABLE body n = Inr m"
    then obtain its ident poll setup_identity intent responder listed where
      its: "close_decode E body CloseResponse n = Inr its"
      and ident: "close_message_identity E CloseResponse body = Inr ident"
      and fields: "close_hash (its ! 1) = Inr poll" "close_hash (its ! 2) = Inr setup_identity"
        "close_hash (its ! 3) = Inr intent" "close_position (its ! 4) n = Inr responder"
        "close_entries (its ! 5) n MAXIMUM_LISTED_ENVELOPES_PER_SLOT = Inr listed"
      and m: "m = \<lparr> response_body = body, response_identity = ident, response_poll = poll,
           response_setup_identity = setup_identity, response_intent = intent,
           response_responder = responder, response_listed = listed \<rparr>"
      by (auto simp: response_parse_def and_then_Inr_iff)
    note s = close_decode_sound [OF its]
    obtain i0 i1 i2 i3 i4 i5 where list: "its = [i0, i1, i2, i3, i4, i5]"
      using lists_of_length(4) [of its] s by auto
    have body: "body = tuple_bytes (close_tuple CloseResponse poll setup_identity
        (response_items intent responder listed))"
      using s fields by (simp add: list close_hash_iff close_position_iff [OF n'] close_entries_iff [OF n']
          response_items_def)
    have "length body \<le> 2 ^ 17" using s close_maximum [OF n, of CloseResponse] by linarith
    then have "ident = shake256 E (identity_preimage (close_context CloseResponse) body)"
      using ident by (simp add: close_identity_value)
    then have "m = response_of E poll setup_identity intent responder listed"
      by (simp add: m response_of_def body Let_def)
    moreover have "response_fields n poll setup_identity intent responder listed"
      using fields by (simp add: response_fields_def close_hash_iff close_position_iff [OF n']
          close_entries_iff [OF n'])
    moreover have "body = response_body m" by (simp add: m)
    ultimately show "participants_supported TABLE n
     \<and> (\<exists>poll setup_identity intent responder listed.
          response_fields n poll setup_identity intent responder listed
          \<and> m = response_of E poll setup_identity intent responder listed \<and> body = response_body m)"
      using True by blast
  next
    assume "participants_supported TABLE n
     \<and> (\<exists>poll setup_identity intent responder listed.
          response_fields n poll setup_identity intent responder listed
          \<and> m = response_of E poll setup_identity intent responder listed \<and> body = response_body m)"
    then obtain poll setup_identity intent responder listed where
      f: "response_fields n poll setup_identity intent responder listed"
      and m: "m = response_of E poll setup_identity intent responder listed" "body = response_body m"
      by blast
    have size: "length body \<le> maximum_close_message_bytes CloseResponse n"
      using response_size [OF f] m by simp
    then have small: "length body \<le> 2 ^ 17" using close_maximum [OF n, of CloseResponse] by linarith
    have body: "body = tuple_bytes (close_tuple CloseResponse poll setup_identity
        (response_items intent responder listed))"
      by (simp add: m response_of_def Let_def)
    have "close_decode E body CloseResponse n = Inr (label_item (close_context CloseResponse)
        # hash512 poll # hash512 setup_identity # response_items intent responder listed)"
      unfolding body using f response_items_flat [of intent]
      by (intro close_decode_complete [OF _ _ _ _ n size [unfolded body]]) (simp_all add: response_fields_def)
    moreover have "close_hash (hash512 h) = Inr h" if "length h = 64" for h
      using that by (simp add: close_hash_iff)
    moreover have "close_position (unsigned16 (word_of_nat responder)) n = Inr responder"
      using f by (simp add: close_position_iff [OF n'] response_fields_def)
    moreover have "close_entries (raw_variable (concat (map entry_bytes listed))) n
        MAXIMUM_LISTED_ENVELOPES_PER_SLOT = Inr listed"
      using f valid_entries_lengths [of n 2 listed] n
      by (simp add: close_entries_iff [OF n'] response_fields_def usize_bound_def
          MAXIMUM_LISTED_ENVELOPES_PER_SLOT_def)
    moreover have "m = \<lparr> response_body = body,
        response_identity = shake256 E (identity_preimage (close_context CloseResponse) body),
        response_poll = poll, response_setup_identity = setup_identity, response_intent = intent,
        response_responder = responder, response_listed = listed \<rparr>"
      by (simp add: m(1) response_of_def Let_def body)
    ultimately show "response_parse E TABLE body n = Inr m"
      using True f close_identity_value [OF small, of E CloseResponse]
      by (simp add: response_parse_def check_participants_def response_items_def response_fields_def
          del: close_context.simps)
  qed
qed

lemma encode_entries_value:
  assumes "valid_entries n per_author vs" "n \<le> 255" "per_author \<le> 2"
  shows "encode_entries vs = Inr (raw_variable (concat (map entry_bytes vs)))"
proof -
  have "66 * length vs \<le> 66 * (2 * 255)"
    using valid_entries_lengths(2) [OF assms(1)] assms(2,3) mult_le_mono [of per_author 2 n 255] by linarith
  then show ?thesis
    using encode_entry_bytes_value [of vs] valid_entries_lengths(1) [OF assms(1)] assms(1,2)
    by (fastforce simp: encode_entries_def valid_entries_def variable_bytes_small default_limits_def)
qed

lemma response_new_value:
  assumes "response_fields n poll setup_identity intent responder listed" "participants_supported TABLE n"
  shows "response_new E TABLE poll setup_identity intent responder n listed
    = Inr (response_of E poll setup_identity intent responder listed)"
proof -
  let ?m = "response_of E poll setup_identity intent responder listed"
  have n: "n \<le> 255" using assms(2) by (rule supported_count)
  have "length (response_body ?m) \<le> 2 ^ 20"
    using response_size [OF assms(1), of E] close_maximum [OF n, of CloseResponse] by simp
  then have "close_encode E CloseResponse poll setup_identity (response_items intent responder listed)
      = Inr (response_body ?m)"
    using assms(1) response_items_flat [of intent]
    by (subst close_encode_value) (simp_all add: response_fields_def response_of_def Let_def
        del: close_context.simps)
  moreover have "response_parse E TABLE (response_body ?m) n = Inr ?m"
    unfolding response_parse_iff using assms by blast
  moreover have "encode_entries listed = Inr (raw_variable (concat (map entry_bytes listed)))"
    using assms(1) n encode_entries_value [of n 2 listed]
    by (simp add: response_fields_def MAXIMUM_LISTED_ENVELOPES_PER_SLOT_def)
  ultimately show ?thesis
    using assms n by (simp add: response_new_def check_participants_def response_items_def
        response_fields_def u16_try_from_def)
qed

section \<open>Proposals\<close>

definition close_proposal_items :: "bytes \<Rightarrow> (nat \<times> bytes) list \<Rightarrow> canonical_item list" where
  "close_proposal_items intent responses =
     [hash512 intent, raw_variable (concat (map entry_bytes responses))]"

definition close_proposal_of ::
  "externals \<Rightarrow> bytes \<Rightarrow> bytes \<Rightarrow> bytes \<Rightarrow> (nat \<times> bytes) list \<Rightarrow> close_proposal_message" where
  "close_proposal_of E poll setup_identity intent responses =
     (let body = tuple_bytes (close_tuple CloseProposal poll setup_identity
                   (close_proposal_items intent responses)) in
      \<lparr> close_proposal_body = body,
        close_proposal_identity = shake256 E (identity_preimage (close_context CloseProposal) body),
        close_proposal_poll = poll, close_proposal_setup_identity = setup_identity,
        close_proposal_intent = intent, close_proposal_responses = responses \<rparr>)"

definition proposal_fields :: "nat \<Rightarrow> nat \<Rightarrow> bytes \<Rightarrow> bytes \<Rightarrow> bytes \<Rightarrow> (nat \<times> bytes) list \<Rightarrow> bool" where
  "proposal_fields n organizer poll setup_identity intent responses \<longleftrightarrow>
     length poll = 64 \<and> length setup_identity = 64 \<and> length intent = 64
     \<and> valid_entries n 1 responses \<and> length responses = inventory_threshold n
     \<and> organizer \<in> fst ` set responses"

lemma close_proposal_items_flat:
  "length intent = 64 \<Longrightarrow> \<forall>item \<in> set (close_proposal_items intent responses). flat_item l item"
  by (simp add: close_proposal_items_def)

lemma length_close_proposal_items [simp]: "length (close_proposal_items intent responses) = 2"
  by (simp add: close_proposal_items_def)

lemma proposal_size:
  assumes "proposal_fields n organizer poll setup_identity intent responses"
  shows "length (close_proposal_body (close_proposal_of E poll setup_identity intent responses))
      = maximum_close_message_bytes CloseProposal n"
proof -
  have "items_length (close_proposal_items intent responses) = 68 + 66 * length responses"
    using assms valid_entries_lengths(1) [of n 1 responses]
    by (simp add: close_proposal_items_def proposal_fields_def hash512_def)
  then show ?thesis
    using assms by (simp add: close_proposal_of_def proposal_fields_def length_close_tuple
        LISTED_ENTRY_BYTES_def Let_def del: close_context.simps)
qed

lemma organizer_listed:
  "(\<exists>(responder, _) \<in> set responses. responder = organizer) \<longleftrightarrow> organizer \<in> fst ` set responses"
  by force

lemma close_proposal_parse_iff:
  "close_proposal_parse E TABLE body n organizer = Inr m \<longleftrightarrow>
     participants_supported TABLE n
     \<and> (\<exists>poll setup_identity intent responses.
          proposal_fields n organizer poll setup_identity intent responses
          \<and> m = close_proposal_of E poll setup_identity intent responses
          \<and> body = close_proposal_body m)"
proof (cases "participants_supported TABLE n")
  case False
  then show ?thesis by (simp add: close_proposal_parse_def check_participants_def)
next
  case True
  then have n: "n \<le> 255" by (rule supported_count)
  then have n': "n \<le> 65536" by simp
  show ?thesis
  proof
    assume "close_proposal_parse E TABLE body n organizer = Inr m"
    then obtain its ident poll setup_identity intent responses b where
      its: "close_decode E body CloseProposal n = Inr its"
      and ident: "close_message_identity E CloseProposal body = Inr ident"
      and fields: "close_hash (its ! 1) = Inr poll" "close_hash (its ! 2) = Inr setup_identity"
        "close_hash (its ! 3) = Inr intent" "close_entries (its ! 4) n 1 = Inr responses"
        "length responses = inventory_threshold n" "(organizer, b) \<in> set responses"
      and m: "m = \<lparr> close_proposal_body = body, close_proposal_identity = ident,
           close_proposal_poll = poll, close_proposal_setup_identity = setup_identity,
           close_proposal_intent = intent, close_proposal_responses = responses \<rparr>"
      by (auto simp: close_proposal_parse_def and_then_Inr_iff split: if_splits)
    note s = close_decode_sound [OF its]
    obtain i0 i1 i2 i3 i4 where list: "its = [i0, i1, i2, i3, i4]"
      using lists_of_length(3) [of its] s by auto
    have body: "body = tuple_bytes (close_tuple CloseProposal poll setup_identity
        (close_proposal_items intent responses))"
      using s fields by (simp add: list close_hash_iff close_entries_iff [OF n'] close_proposal_items_def)
    have "length body \<le> 2 ^ 17" using s close_maximum [OF n, of CloseProposal] by linarith
    then have "ident = shake256 E (identity_preimage (close_context CloseProposal) body)"
      using ident by (simp add: close_identity_value)
    then have "m = close_proposal_of E poll setup_identity intent responses"
      by (simp add: m close_proposal_of_def body Let_def)
    moreover have "proposal_fields n organizer poll setup_identity intent responses"
      using fields by (force simp: proposal_fields_def close_hash_iff close_entries_iff [OF n'])
    moreover have "body = close_proposal_body m" by (simp add: m)
    ultimately show "participants_supported TABLE n
     \<and> (\<exists>poll setup_identity intent responses.
          proposal_fields n organizer poll setup_identity intent responses
          \<and> m = close_proposal_of E poll setup_identity intent responses
          \<and> body = close_proposal_body m)"
      using True by blast
  next
    assume "participants_supported TABLE n
     \<and> (\<exists>poll setup_identity intent responses.
          proposal_fields n organizer poll setup_identity intent responses
          \<and> m = close_proposal_of E poll setup_identity intent responses
          \<and> body = close_proposal_body m)"
    then obtain poll setup_identity intent responses where
      f: "proposal_fields n organizer poll setup_identity intent responses"
      and m: "m = close_proposal_of E poll setup_identity intent responses" "body = close_proposal_body m"
      by blast
    have size: "length body \<le> maximum_close_message_bytes CloseProposal n"
      using proposal_size [OF f] m by simp
    then have small: "length body \<le> 2 ^ 17" using close_maximum [OF n, of CloseProposal] by linarith
    have body: "body = tuple_bytes (close_tuple CloseProposal poll setup_identity
        (close_proposal_items intent responses))"
      by (simp add: m close_proposal_of_def Let_def)
    have "close_decode E body CloseProposal n = Inr (label_item (close_context CloseProposal)
        # hash512 poll # hash512 setup_identity # close_proposal_items intent responses)"
      unfolding body using f close_proposal_items_flat [of intent]
      by (intro close_decode_complete [OF _ _ _ _ n size [unfolded body]]) (simp_all add: proposal_fields_def)
    moreover have "close_hash (hash512 h) = Inr h" if "length h = 64" for h
      using that by (simp add: close_hash_iff)
    moreover have "close_entries (raw_variable (concat (map entry_bytes responses))) n 1 = Inr responses"
      using f valid_entries_lengths [of n 1 responses] n
      by (simp add: close_entries_iff [OF n'] proposal_fields_def usize_bound_def)
    moreover have "m = \<lparr> close_proposal_body = body,
        close_proposal_identity = shake256 E (identity_preimage (close_context CloseProposal) body),
        close_proposal_poll = poll, close_proposal_setup_identity = setup_identity,
        close_proposal_intent = intent, close_proposal_responses = responses \<rparr>"
      by (simp add: m(1) close_proposal_of_def Let_def body)
    ultimately show "close_proposal_parse E TABLE body n organizer = Inr m"
      using True f close_identity_value [OF small, of E CloseProposal]
      by (simp add: close_proposal_parse_def check_participants_def close_proposal_items_def
          proposal_fields_def organizer_listed del: close_context.simps)
  qed
qed

lemma close_proposal_new_value:
  assumes "proposal_fields n organizer poll setup_identity intent responses"
    "participants_supported TABLE n"
  shows "close_proposal_new E TABLE poll setup_identity intent n organizer responses
    = Inr (close_proposal_of E poll setup_identity intent responses)"
proof -
  let ?m = "close_proposal_of E poll setup_identity intent responses"
  have n: "n \<le> 255" using assms(2) by (rule supported_count)
  have "length (close_proposal_body ?m) \<le> 2 ^ 20"
    using proposal_size [OF assms(1), of E] close_maximum [OF n, of CloseProposal] by simp
  then have "close_encode E CloseProposal poll setup_identity (close_proposal_items intent responses)
      = Inr (close_proposal_body ?m)"
    using assms(1) close_proposal_items_flat [of intent]
    by (subst close_encode_value) (simp_all add: proposal_fields_def close_proposal_of_def Let_def
        del: close_context.simps)
  moreover have "close_proposal_parse E TABLE (close_proposal_body ?m) n organizer = Inr ?m"
    unfolding close_proposal_parse_iff using assms by blast
  moreover have "encode_entries responses = Inr (raw_variable (concat (map entry_bytes responses)))"
    using assms(1) n encode_entries_value [of n 1 responses] by (simp add: proposal_fields_def)
  ultimately show ?thesis
    using assms by (simp add: close_proposal_new_def check_participants_def close_proposal_items_def)
qed

lemma response_fields_of [simp]:
  "response_responder (response_of E poll setup_identity intent responder listed) = responder"
  "response_listed (response_of E poll setup_identity intent responder listed) = listed"
  "response_intent (response_of E poll setup_identity intent responder listed) = intent"
  "response_poll (response_of E poll setup_identity intent responder listed) = poll"
  "response_setup_identity (response_of E poll setup_identity intent responder listed) = setup_identity"
  by (simp_all add: response_of_def Let_def)

lemma proposal_fields_of [simp]:
  "close_proposal_responses (close_proposal_of E poll setup_identity intent responses) = responses"
  "close_proposal_intent (close_proposal_of E poll setup_identity intent responses) = intent"
  "close_proposal_poll (close_proposal_of E poll setup_identity intent responses) = poll"
  "close_proposal_setup_identity (close_proposal_of E poll setup_identity intent responses) = setup_identity"
  by (simp_all add: close_proposal_of_def Let_def)

lemma response_parse_listed:
  assumes "response_parse E TABLE body n = Inr m"
  shows "response_responder m < n \<and> valid_entries n MAXIMUM_LISTED_ENVELOPES_PER_SLOT (response_listed m)"
  using assms by (auto simp: response_parse_iff response_fields_def)

lemma close_proposal_parse_responses:
  assumes "close_proposal_parse E TABLE body n organizer = Inr m"
  shows "valid_entries n 1 (close_proposal_responses m)
    \<and> length (close_proposal_responses m) = inventory_threshold n
    \<and> organizer \<in> fst ` set (close_proposal_responses m)"
  using assms by (auto simp: close_proposal_parse_iff proposal_fields_def)

text \<open>With at most one entry per author, the ordered entries name their authors once.\<close>

lemma one_per_author: "valid_entries n 1 vs \<Longrightarrow> distinct (map fst vs)"
proof -
  assume "valid_entries n 1 vs"
  then have "\<forall>a. length (listings a vs) \<le> 1" by (simp add: valid_entries_def)
  then show ?thesis
  proof (induction vs)
    case Nil
    then show ?case by simp
  next
    case (Cons v vs)
    have "listings (fst v) vs = []" using Cons.prems [rule_format, of "fst v"] by simp
    moreover have "\<forall>a. length (listings a vs) \<le> 1"
      using Cons.prems by (metis (no_types, lifting) filter.simps(2) le_SucI length_Cons order_trans lessI less_imp_le_nat)
    ultimately show ?case using Cons.IH by (auto simp: filter_empty_conv)
  qed
qed

section \<open>Properties\<close>

text \<open>
  The parsers of close responses and proposals are exact: a body is accepted, with its message,
  exactly when the constructor builds that message and body from fields in range: entries strictly
  ascending, authors within the roster, at most two envelopes per slot of a response, and in a
  proposal one response from each of a quorum of responders with the organizer among them.
\<close>

theorem close_messages_are_exact:
  "(response_parse E TABLE body n = Inr r \<longleftrightarrow>
     (\<exists>poll setup_identity intent responder listed.
        response_fields n poll setup_identity intent responder listed
        \<and> response_new E TABLE poll setup_identity intent responder n listed = Inr r
        \<and> response_body r = body))
   \<and> (close_proposal_parse E TABLE body n organizer = Inr p \<longleftrightarrow>
     (\<exists>poll setup_identity intent responses.
        proposal_fields n organizer poll setup_identity intent responses
        \<and> close_proposal_new E TABLE poll setup_identity intent n organizer responses = Inr p
        \<and> close_proposal_body p = body))"
proof -
  have "response_new E TABLE poll s i q n l = Inr r \<Longrightarrow> participants_supported TABLE n"
    "close_proposal_new E TABLE poll s i n organizer l = Inr p \<Longrightarrow> participants_supported TABLE n"
    for poll s i q l
    by (auto simp: response_new_def close_proposal_new_def check_participants_def and_then_Inr_iff
        split: if_splits)
  then show ?thesis
    unfolding response_parse_iff close_proposal_parse_iff
    using response_new_value [of n _ _ _ _ _ TABLE E] close_proposal_new_value [of n organizer _ _ _ _ TABLE E]
    by (metis sum.inject(2))
qed

end
