(* ===== verification/Selection_Codec.thy ===== *)
theory Selection_Codec
  imports Close_Codec
begin

text \<open>
  The exact wire formats of a setup selection: the proposal's body, the endorsement's body and the
  certificate that carries a quorum of endorsements (\<open>protocol-foundations/src/setup-selection.rs\<close>),
  with what a certificate establishes.
\<close>

section \<open>Ascending positions\<close>

lemma windows2_ascending: "(\<forall>(x, y) \<in> set (windows2 xs). \<not> f x \<ge> f y) \<longleftrightarrow> sorted_wrt (<) (map f xs)"
  for f :: "'a \<Rightarrow> nat"
proof (induction xs)
  case Nil
  then show ?case by (simp add: windows2_def)
next
  case (Cons x xs)
  show ?case
  proof (cases xs)
    case Nil
    then show ?thesis by (simp add: windows2_def)
  next
    case (Cons y ys)
    have "windows2 (x # xs) = (x, y) # windows2 xs" by (simp add: Cons windows2_def)
    then show ?thesis using Cons.IH by (auto simp: Cons not_le intro: less_trans)
  qed
qed

lemma windows2_refused:
  "(\<exists>(x, y) \<in> set (windows2 xs). f x \<ge> f y) \<longleftrightarrow> \<not> sorted_wrt (<) (map f xs)" for f :: "'a \<Rightarrow> nat"
  unfolding windows2_ascending [symmetric] by auto

section \<open>Proposals\<close>

definition valid_choice :: "profile \<Rightarrow> (nat \<times> bytes) list \<Rightarrow> bool" where
  "valid_choice p chosen \<longleftrightarrow>
     length chosen = setup_contributors p
     \<and> (\<forall>v \<in> set chosen. fst v < setup_eligible_contributors p \<and> length (snd v) = 64)
     \<and> sorted_wrt (<) (map fst chosen)"

definition selection_items :: "bytes \<Rightarrow> (nat \<times> bytes) list \<Rightarrow> canonical_item list" where
  "selection_items roster chosen =
     [label_item SELECTION_PURPOSE, hash512 roster, raw_variable (selection_entries chosen)]"

definition selection_of :: "externals \<Rightarrow> bytes \<Rightarrow> (nat \<times> bytes) list \<Rightarrow> selection_proposal" where
  "selection_of E roster chosen =
     (let body = tuple_bytes (message_tuple (selection_items roster chosen)) in
      \<lparr> selection_body = body,
        selection_identity = shake256 E (identity_preimage SELECTION_IDENTITY_DOMAIN body),
        selection_roster = roster, selected = chosen \<rparr>)"

lemma selection_labels:
  "labelled SELECTION_PURPOSE" "length SELECTION_PURPOSE = 30" "labelled SELECTION_IDENTITY_DOMAIN"
  "labelled ENDORSEMENT_PURPOSE" "length ENDORSEMENT_PURPOSE = 42" "labelled ENDORSEMENT_IDENTITY_DOMAIN"
  by (simp_all add: SELECTION_PURPOSE_def SELECTION_IDENTITY_DOMAIN_def ENDORSEMENT_PURPOSE_def
      ENDORSEMENT_IDENTITY_DOMAIN_def labelled_def ascii_bytes_def printable_ascii_def)

lemma selection_entries_eq: "selection_entries chosen = le_bytes 4 (length chosen) @ concat (map entry_bytes chosen)"
  by (simp add: selection_entries_def entry_bytes_def case_prod_unfold cong: map_cong)

lemma length_selection_entries:
  "\<forall>v \<in> set chosen. length (snd v) = 64 \<Longrightarrow> length (selection_entries chosen) = 4 + 66 * length chosen"
  by (simp add: selection_entries_eq length_entry_bytes)

lemma selection_size:
  assumes "\<forall>v \<in> set chosen. length (snd v) = 64" "length roster = 64"
  shows "length (tuple_bytes (message_tuple (selection_items roster chosen))) = 130 + 66 * length chosen"
  using assms by (simp add: selection_items_def length_tuple_bytes selection_labels hash512_def
      length_selection_entries)

text \<open>Counts of a supported roster fit the fields of the wire format.\<close>

lemma choice_bounds:
  assumes "valid_choice p chosen" "participants p \<le> 255"
  shows "length chosen \<le> 255" "v \<in> set chosen \<Longrightarrow> fst v < 65536 \<and> length (snd v) = 64"
proof -
  have "setup_contributors p \<le> 255" "setup_eligible_contributors p < 65536"
    using assms(2) by (simp_all add: setup_contributors_def setup_eligible_contributors_def release_threshold_def
        maximum_corrupt_participants_def)
  then show "length chosen \<le> 255" "v \<in> set chosen \<Longrightarrow> fst v < 65536 \<and> length (snd v) = 64"
    using assms(1) by (auto simp: valid_choice_def)
qed

lemma selection_new_value:
  assumes "valid_choice (roster_profile R) chosen" "participants (roster_profile R) \<le> 255"
    and "length (roster_identity R) = 64"
  shows "selection_new E R chosen = Inr (selection_of E (roster_identity R) chosen)"
proof -
  note b = choice_bounds [OF assms(1,2)]
  let ?its = "selection_items (roster_identity R) chosen"
  have size: "length (tuple_bytes (message_tuple ?its)) \<le> 17000"
    using selection_size [of chosen "roster_identity R"] b assms(3) by simp
  have entries: "length (selection_entries chosen) = 4 + 66 * length chosen"
    using b(2) by (simp add: length_selection_entries)
  have "tuple_encode E (message_tuple ?its) = Some (tuple_bytes (message_tuple ?its))"
    using size selection_labels assms(3)
    by (intro message_encode) (auto simp: selection_items_def labelled_def usize_bound_def)
  moreover have "variable_bytes (selection_entries chosen) = Some (raw_variable (selection_entries chosen))"
    using entries b(1) by (intro variable_bytes_small) (simp add: default_limits_def)
  moreover have "identity E SELECTION_IDENTITY_DOMAIN (tuple_bytes (message_tuple ?its))
      = Inr (shake256 E (identity_preimage SELECTION_IDENTITY_DOMAIN (tuple_bytes (message_tuple ?its))))"
    using size by (intro identity_value) (simp_all add: selection_labels u32_bound_def)
  ultimately show ?thesis
    using assms(1) nonempty_label [OF selection_labels(1)] windows2_refused [of chosen fst]
    by (auto simp: selection_new_def valid_choice_def selection_items_def selection_of_def Let_def)
qed

lemma selection_new_choice:
  assumes "selection_new E R chosen = Inr s" "\<forall>v \<in> set chosen. length (snd v) = 64"
  shows "valid_choice (roster_profile R) chosen"
  using assms windows2_refused [of chosen fst]
  by (auto simp: selection_new_def valid_choice_def Let_def and_then_Inr_iff split: if_splits)

lemma selection_decode_iff:
  assumes "participants (roster_profile R) \<le> 255" "length (roster_identity R) = 64"
  shows "selection_decode E R bs = Inr s \<longleftrightarrow>
    (\<exists>chosen. valid_choice (roster_profile R) chosen \<and> s = selection_of E (roster_identity R) chosen
       \<and> bs = selection_body s \<and> length bs \<le> MAXIMUM_SELECTION_BYTES)" (is "?L \<longleftrightarrow> ?R")
proof
  assume ?L
  then obtain t entries where t: "tuple_decode E bs (message_limits MAXIMUM_SELECTION_BYTES 3) = Some t" "has_header t 3"
    and items: "item_type (items t ! 0) = Ascii" "item_type (items t ! 1) = Hash512" "item_type (items t ! 2) = RawBytes"
      "variable_value_bytes (items t ! 0) = Some SELECTION_PURPOSE" "canonical_bytes (items t ! 1) = roster_identity R"
      "variable_value_bytes (items t ! 2) = Some entries"
    and entries: "length entries = 4 + setup_contributors (roster_profile R) * 66"
      "le_value (take 4 entries) = setup_contributors (roster_profile R)"
    and new: "selection_new E R (map selection_entry (chunks_exact 66 (drop 4 entries))) = Inr s"
    by (auto simp: selection_decode_def and_then_Inr_iff Let_def split: if_splits)
  let ?chosen = "map selection_entry (chunks_exact 66 (drop 4 entries))"
  have each: "\<forall>c \<in> set (chunks_exact 66 (drop 4 entries)). length c = 66" by (simp add: chunks_exact_lengths)
  then have chosen: "\<forall>v \<in> set ?chosen. length (snd v) = 64" by (auto simp: selection_entry_def)
  then have valid: "valid_choice (roster_profile R) ?chosen" using selection_new_choice [OF new] by blast
  have "map entry_bytes ?chosen = chunks_exact 66 (drop 4 entries)"
    using each by (simp add: map_idI entry_bytes_selection)
  then have "concat (map entry_bytes ?chosen) = drop 4 entries"
    using entries(1) by (simp add: concat_chunks_exact)
  moreover have "le_bytes 4 (length ?chosen) = take 4 entries"
    using le_bytes_le_value [of "take 4 entries"] entries valid by (simp add: valid_choice_def)
  ultimately have raw: "selection_entries ?chosen = entries" by (simp add: selection_entries_eq)
  have its: "items t = selection_items (roster_identity R) ?chosen"
    using message_decode_sound [OF t] label_item_read [OF items(1,4)] hash512_read [OF items(2)]
      raw_item_read [OF items(3,6)] items(5)
    unfolding selection_items_def raw by (auto simp: numeral_eq_Suc length_Suc_conv)
  have s: "s = selection_of E (roster_identity R) ?chosen" using new selection_new_value [OF valid assms, of E] by simp
  have "bs = selection_body s" using message_decode_sound [OF t] its by (simp add: s selection_of_def Let_def)
  moreover have "length bs \<le> MAXIMUM_SELECTION_BYTES" using message_decode_sound [OF t] by blast
  ultimately show ?R using valid s by blast
next
  assume ?R
  then obtain chosen where valid: "valid_choice (roster_profile R) chosen"
    and s: "s = selection_of E (roster_identity R) chosen" and bs: "bs = selection_body s" "length bs \<le> MAXIMUM_SELECTION_BYTES"
    by blast
  note b = choice_bounds [OF valid assms(1)]
  let ?its = "selection_items (roster_identity R) chosen" and ?entries = "selection_entries chosen"
  have entries: "length ?entries = 4 + 66 * length chosen" using b(2) by (simp add: length_selection_entries)
  have body: "bs = tuple_bytes (message_tuple ?its)" using bs s by (simp add: selection_of_def Let_def)
  have "tuple_decode E bs (message_limits MAXIMUM_SELECTION_BYTES 3) = Some (message_tuple ?its)"
    using bs(2) selection_labels assms(2) unfolding body
    by (intro message_decode) (auto simp: selection_items_def labelled_def usize_bound_def MAXIMUM_SELECTION_BYTES_def)
  moreover have "map selection_entry (chunks_exact 66 (drop 4 ?entries)) = chosen"
  proof -
    have "chunks_exact 66 (concat (map entry_bytes chosen)) = map entry_bytes chosen"
      using b(2) by (intro chunks_exact_concat) (auto simp: entry_bytes_def)
    moreover have "map (selection_entry \<circ> entry_bytes) chosen = chosen"
      using b(2) by (intro map_idI) (simp add: selection_entry_bytes)
    ultimately show ?thesis by (simp add: selection_entries_eq)
  qed
  moreover have "le_value (take 4 ?entries) = length chosen" using b(1) by (simp add: selection_entries_eq)
  moreover have "length chosen = setup_contributors (roster_profile R)" using valid by (simp add: valid_choice_def)
  moreover have "variable_value_bytes (label_item SELECTION_PURPOSE) = Some SELECTION_PURPOSE"
    "variable_value_bytes (raw_variable ?entries) = Some ?entries"
    using entries b(1) by (simp_all add: selection_labels usize_bound_def)
  ultimately show ?L
    using entries selection_new_value [OF valid assms, of E] s
    by (simp add: selection_decode_def selection_items_def hash512_def)
qed

section \<open>Certificates\<close>

lemma collect_results_Inr:
  "collect_results rs = Inr vs \<longleftrightarrow> rs = map Inr vs"
  by (induction rs arbitrary: vs) (auto simp: and_then_Inr_iff Cons_eq_map_conv)

lemma collect_results_map [simp]: "collect_results (map Inr vs) = Inr vs"
  by (simp add: collect_results_Inr)

text \<open>The quorum of endorsements a certificate carries.\<close>

definition endorsed ::
  "externals \<Rightarrow> authenticated_roster \<Rightarrow> authenticated_selection \<Rightarrow> authenticated_endorsement list \<Rightarrow> bool" where
  "endorsed E A P es \<longleftrightarrow>
     length es = inventory_threshold (participants (roster_profile (auth_proposal A)))
     \<and> sorted_wrt (<) (map ae_position es)
     \<and> (\<forall>e \<in> set es. ae_position e < participants (roster_profile (auth_proposal A))
          \<and> length (ae_signature e) = SIGNATURE_BYTES
          \<and> endorsement E A (as_selection P) (ae_position e) (ae_signature e) = Inr e)"

definition certificate_body :: "authenticated_selection \<Rightarrow> authenticated_endorsement list \<Rightarrow> bytes" where
  "certificate_body P es =
     le_bytes 4 (length (selection_body (as_selection P))) @ selection_body (as_selection P)
       @ as_signature P @ concat (map endorsement_entry es)"

lemma endorsement_fields:
  assumes "endorsement E A s position signature = Inr e"
  shows "ae_roster e = roster_identity (auth_proposal A)" "ae_position e = position"
    "ae_selection e = selection_identity s" "ae_signature e = signature"
  using assms by (auto simp: endorsement_def and_then_Inr_iff)

lemma authenticate_selection_fields:
  assumes "authenticate_selection E A body signature = Inr P"
  shows "as_roster P = A" "as_signature P = signature" "length signature = SIGNATURE_BYTES"
    "selection_decode E (auth_proposal A) body = Inr (as_selection P)"
  using assms by (auto simp: authenticate_selection_def and_then_Inr_iff try_array_def split: if_splits)

lemma encode_certificate_iff:
  "encode_certificate P es = Inr bs \<longleftrightarrow>
     length es = inventory_threshold (participants (roster_profile (auth_proposal (as_roster P))))
     \<and> (\<forall>e \<in> set es. ae_position e < participants (roster_profile (auth_proposal (as_roster P)))
          \<and> ae_selection e = selection_identity (as_selection P)
          \<and> ae_roster e = roster_identity (auth_proposal (as_roster P)))
     \<and> sorted_wrt (<) (map ae_position es) \<and> bs = certificate_body P es"
  unfolding encode_certificate_def windows2_refused Let_def certificate_body_def by (auto; fastforce)

lemma endorsement_entry_read:
  assumes "length entry = 2 + SIGNATURE_BYTES" "endorsement E A s (unat (u16_from_le_bytes (take 2 entry))) (drop 2 entry) = Inr e"
  shows "endorsement_entry e = entry" "length (ae_signature e) = SIGNATURE_BYTES"
    "endorsement E A s (ae_position e) (ae_signature e) = Inr e"
  using assms endorsement_fields [OF assms(2)] u16_to_from_le_bytes [of "take 2 entry"]
  by (simp_all add: endorsement_entry_def)

lemma certificate_sound:
  assumes "authenticate_certificate E A bs = Inr C"
    and "participants (roster_profile (auth_proposal A)) \<le> 255" "length (roster_identity (auth_proposal A)) = 64"
  shows "\<exists>P es. C = \<lparr>ac_proposal = P, ac_endorsements = es, ac_bytes = bs\<rparr>
    \<and> authenticate_selection E A (selection_body (as_selection P)) (as_signature P) = Inr P
    \<and> endorsed E A P es \<and> bs = certificate_body P es"
proof -
  define len where "len = le_value (take 4 bs)"
  let ?entries = "chunks_exact (2 + SIGNATURE_BYTES) (drop (4 + len + SIGNATURE_BYTES) bs)"
  obtain P es where P: "authenticate_selection E A (slice 4 (4 + len) bs)
        (slice (4 + len) (4 + len + SIGNATURE_BYTES) bs) = Inr P"
    and es: "map (\<lambda>entry. endorsement E A (as_selection P) (unat (u16_from_le_bytes (take 2 entry))) (drop 2 entry)) ?entries
      = map Inr es"
    and encoded: "encode_certificate P es = Inr bs" and C: "C = \<lparr>ac_proposal = P, ac_endorsements = es, ac_bytes = bs\<rparr>"
    using assms(1) by (auto simp: authenticate_certificate_def and_then_Inr_iff Let_def collect_results_Inr len_def split: if_splits)
  note fields = authenticate_selection_fields [OF P]
  have each: "length (ae_signature e) = SIGNATURE_BYTES \<and> endorsement E A (as_selection P) (ae_position e) (ae_signature e) = Inr e"
    if "e \<in> set es" for e
  proof -
    have "Inr e \<in> set (map (\<lambda>entry. endorsement E A (as_selection P)
        (unat (u16_from_le_bytes (take 2 entry))) (drop 2 entry)) ?entries)"
      unfolding es using that by simp
    then obtain entry where "entry \<in> set ?entries"
      "Inr e = endorsement E A (as_selection P) (unat (u16_from_le_bytes (take 2 entry))) (drop 2 entry)"
      unfolding set_map image_iff by blast
    moreover from this(1) have "length entry = 2 + SIGNATURE_BYTES" by (rule chunks_exact_lengths [rotated]) simp
    ultimately show ?thesis using endorsement_entry_read [of entry E A "as_selection P" e] by simp
  qed
  have "slice 4 (4 + len) bs = selection_body (as_selection P)"
    using fields(4) unfolding selection_decode_iff [OF assms(2,3)] by blast
  then have "authenticate_selection E A (selection_body (as_selection P)) (as_signature P) = Inr P"
    using P fields(2) by simp
  moreover have "endorsed E A P es"
    using encoded each fields(1) by (simp add: endorsed_def encode_certificate_iff)
  moreover have "bs = certificate_body P es" using encoded by (simp add: encode_certificate_iff)
  ultimately show ?thesis using C by blast
qed

lemma certificate_complete:
  assumes P: "authenticate_selection E A (selection_body (as_selection P)) (as_signature P) = Inr P"
    and es: "endorsed E A P es"
    and "participants (roster_profile (auth_proposal A)) \<le> 255" "length (roster_identity (auth_proposal A)) = 64"
  shows "authenticate_certificate E A (certificate_body P es)
    = Inr \<lparr>ac_proposal = P, ac_endorsements = es, ac_bytes = certificate_body P es\<rparr>"
proof -
  note fields = authenticate_selection_fields [OF P]
  let ?body = "selection_body (as_selection P)" and ?bs = "certificate_body P es"
  let ?n = "inventory_threshold (participants (roster_profile (auth_proposal A)))"
  have body: "length ?body \<le> MAXIMUM_SELECTION_BYTES"
    using fields(4) unfolding selection_decode_iff [OF assms(3,4)] by blast
  have each: "\<forall>x \<in> set (map endorsement_entry es). length x = 2 + SIGNATURE_BYTES"
    using es by (auto simp: endorsed_def endorsement_entry_def)
  then have entries: "length (concat (map endorsement_entry es)) = ?n * (2 + SIGNATURE_BYTES)"
    using length_concat_const [OF each] es by (simp add: endorsed_def)
  have len: "le_value (take 4 ?bs) = length ?body" using body by (simp add: certificate_body_def MAXIMUM_SELECTION_BYTES_def)
  have slices: "slice 4 (4 + length ?body) ?bs = ?body"
    "slice (4 + length ?body) (4 + length ?body + SIGNATURE_BYTES) ?bs = as_signature P"
    "drop (4 + length ?body + SIGNATURE_BYTES) ?bs = concat (map endorsement_entry es)"
    using fields(2,3) by (simp_all add: certificate_body_def slice_def)
  have read: "endorsement E A (as_selection P) (unat (u16_from_le_bytes (take 2 (endorsement_entry e)))) (drop 2 (endorsement_entry e)) = Inr e"
    if "e \<in> set es" for e
    using es that assms(3) by (auto simp: endorsed_def endorsement_entry_def)
  have "map (\<lambda>entry. endorsement E A (as_selection P) (unat (u16_from_le_bytes (take 2 entry))) (drop 2 entry))
      (chunks_exact (2 + SIGNATURE_BYTES) (concat (map endorsement_entry es))) = map Inr es"
    using chunks_exact_concat [OF _ each] read by simp
  moreover have "ae_selection e = selection_identity (as_selection P) \<and> ae_roster e = roster_identity (auth_proposal A)"
    if "e \<in> set es" for e
    using es that endorsement_fields [of E A "as_selection P" "ae_position e" "ae_signature e" e] by (simp add: endorsed_def)
  then have "encode_certificate P es = Inr ?bs"
    using es fields(1) by (simp add: encode_certificate_iff endorsed_def)
  moreover have "length ?bs = 4 + length ?body + SIGNATURE_BYTES + ?n * (2 + SIGNATURE_BYTES)"
    using entries fields(2,3) by (simp add: certificate_body_def)
  ultimately show ?thesis
    using P body len slices
    by (simp add: authenticate_certificate_def certificate_bytes_def collect_results_Inr Let_def)
qed

section \<open>Endorsements\<close>

definition endorsement_bytes :: "bytes \<Rightarrow> nat \<Rightarrow> bytes" where
  "endorsement_bytes selection position =
     tuple_bytes (message_tuple [label_item ENDORSEMENT_PURPOSE, hash512 selection, unsigned16 (word_of_nat position)])"

lemma length_endorsement_bytes:
  "length selection = 64 \<Longrightarrow> length (endorsement_bytes selection position) = 136"
  by (simp add: endorsement_bytes_def length_tuple_bytes selection_labels hash512_def unsigned16_def)

lemma endorsement_identity_value:
  assumes "length selection = 64" "position < 65536"
  shows "endorsement_identity E selection position
    = Inr (shake256 E (identity_preimage ENDORSEMENT_IDENTITY_DOMAIN (endorsement_bytes selection position)))"
proof -
  let ?its = "[label_item ENDORSEMENT_PURPOSE, hash512 selection, unsigned16 (word_of_nat position)]"
  have "tuple_encode E (message_tuple ?its) = Some (tuple_bytes (message_tuple ?its))"
    using assms selection_labels length_endorsement_bytes [OF assms(1), of position]
    by (intro message_encode) (auto simp: labelled_def usize_bound_def endorsement_bytes_def)
  moreover have "identity E ENDORSEMENT_IDENTITY_DOMAIN (endorsement_bytes selection position)
      = Inr (shake256 E (identity_preimage ENDORSEMENT_IDENTITY_DOMAIN (endorsement_bytes selection position)))"
    using length_endorsement_bytes [OF assms(1)] by (intro identity_value) (simp_all add: selection_labels u32_bound_def)
  ultimately show ?thesis
    using assms(2) nonempty_label [OF selection_labels(4)]
    by (simp add: endorsement_identity_def endorsement_body_def u16_try_from_def endorsement_bytes_def)
qed

lemma endorsement_bytes_inject:
  assumes "endorsement_bytes s i = endorsement_bytes t i" "length s = 64" "length t = 64"
  shows "s = t"
proof -
  have "message_tuple [label_item ENDORSEMENT_PURPOSE, hash512 s, unsigned16 (word_of_nat i)]
      = message_tuple [label_item ENDORSEMENT_PURPOSE, hash512 t, unsigned16 (word_of_nat i)]"
    using assms unfolding endorsement_bytes_def
    by (intro tuple_bytes_inject)
      (simp_all add: sized_tuple_def u32_bound_def hash512_def unsigned16_def selection_labels)
  then have "hash512 s = hash512 t" by (simp add: message_tuple_def)
  then show ?thesis by (simp add: hash512_def)
qed

text \<open>What is hashed for a selection of a roster of \<open>n\<close> members.\<close>

definition selection_preimages :: "selection_proposal \<Rightarrow> nat \<Rightarrow> bytes set" where
  "selection_preimages s n =
     insert (identity_preimage SELECTION_IDENTITY_DOMAIN (selection_body s))
       ((\<lambda>i. identity_preimage ENDORSEMENT_IDENTITY_DOMAIN (endorsement_bytes (selection_identity s) i)) ` {..<n})"

text \<open>Two selections with the same endorsement at a position are one, unless they collide.\<close>

lemma same_endorsement:
  assumes "endorsement_identity E (selection_identity s) i = endorsement_identity E (selection_identity t) i"
    and "i < n" "n \<le> 65536" "length (selection_identity s) = 64" "length (selection_identity t) = 64"
    and "selection_identity s = shake256 E (identity_preimage SELECTION_IDENTITY_DOMAIN (selection_body s))"
      "selection_identity t = shake256 E (identity_preimage SELECTION_IDENTITY_DOMAIN (selection_body t))"
    and "length (selection_body s) \<le> MAXIMUM_SELECTION_BYTES" "length (selection_body t) \<le> MAXIMUM_SELECTION_BYTES"
  shows "selection_body s = selection_body t
    \<or> (\<exists>x \<in> selection_preimages s n. \<exists>y \<in> selection_preimages t n. x \<noteq> y \<and> shake256 E x = shake256 E y)"
proof -
  let ?d = "identity_preimage ENDORSEMENT_IDENTITY_DOMAIN" and ?S = "identity_preimage SELECTION_IDENTITY_DOMAIN"
  let ?x = "endorsement_bytes (selection_identity s) i" and ?y = "endorsement_bytes (selection_identity t) i"
  have members: "?d ?x \<in> selection_preimages s n" "?d ?y \<in> selection_preimages t n"
    "?S (selection_body s) \<in> selection_preimages s n" "?S (selection_body t) \<in> selection_preimages t n"
    using assms(2) by (auto simp: selection_preimages_def)
  have shake: "shake256 E (?d ?x) = shake256 E (?d ?y)"
    using assms(1-5) by (simp add: endorsement_identity_value)
  show ?thesis
  proof (cases "?d ?x = ?d ?y")
    case True
    then have "?x = ?y"
      using identity_preimage_inject [OF True selection_labels(6,6)] assms(4,5)
      by (simp add: length_endorsement_bytes u32_bound_def)
    then have ident: "selection_identity s = selection_identity t"
      using assms(4,5) by (rule endorsement_bytes_inject)
    have "selection_body s = selection_body t" if "?S (selection_body s) = ?S (selection_body t)"
      using identity_preimage_inject [OF that selection_labels(3,3)] assms(8,9)
      by (simp add: u32_bound_def MAXIMUM_SELECTION_BYTES_def)
    then show ?thesis using members(3,4) ident assms(6,7) by metis
  next
    case False
    then show ?thesis using members(1,2) shake by blast
  qed
qed

end
