(* ===== verification/Ballot_Submission.thy ===== *)
theory Ballot_Submission
  imports Ballot_Signing
begin

text \<open>
  The certified setup a ballot is cast under and the authentication of ballot envelopes and bodies
  (\<open>setup-aggregate/src/verified.rs\<close>, the capabilities, and \<open>ballot-proof/src/submission.rs\<close>).  The
  polynomials of the aggregate are kept as the digests the source keeps; that they are the sums of
  the selected contributions is the business of the verifier that creates them.
\<close>

section \<open>The verified setup\<close>

record aggregate_polynomial =
  polynomial_index :: nat
  polynomial_bytes :: nat
  polynomial_digest :: bytes

record verified_selection_inputs =
  inputs_selection :: authenticated_selection
  inputs_polynomials :: "aggregate_polynomial list"

type_synonym verified_setup_aggregate = verified_selection_inputs

definition inputs_identity :: "verified_selection_inputs \<Rightarrow> bytes" where
  "inputs_identity inputs = selection_identity (as_selection (inputs_selection inputs))"

definition inputs_roster :: "verified_selection_inputs \<Rightarrow> authenticated_roster" where
  "inputs_roster inputs = as_roster (inputs_selection inputs)"

definition inputs_profile :: "verified_selection_inputs \<Rightarrow> profile" where
  "inputs_profile inputs = roster_profile (auth_proposal (inputs_roster inputs))"

text \<open>Only a certificate for the same roster and the same selection makes a setup of the inputs.\<close>

definition certify :: "authenticated_certificate \<Rightarrow> verified_selection_inputs \<Rightarrow> verified_setup_aggregate result" where
  "certify certificate inputs =
     (if roster_identity (auth_proposal (as_roster (ac_proposal certificate)))
           \<noteq> roster_identity (auth_proposal (inputs_roster inputs))
         \<or> selection_body (as_selection (ac_proposal certificate))
           \<noteq> selection_body (as_selection (inputs_selection inputs))
      then Inl Context else Inr inputs)"

section \<open>Envelopes\<close>

datatype submission_refusal = SubmissionContext | SubmissionSignature

record authenticated_ballot_envelope =
  ab_profile :: profile
  ab_envelope :: ballot_envelope
  ab_signature :: bytes

definition authenticate_envelope ::
  "externals \<Rightarrow> bytes \<Rightarrow> verified_setup_aggregate \<Rightarrow> bytes \<Rightarrow> bytes
     \<Rightarrow> submission_refusal + authenticated_ballot_envelope" where
  "authenticate_envelope E TABLE setup bs signature =
     (case ballot_envelope_decode TABLE (inputs_profile setup) bs of
        Inl _ \<Rightarrow> Inl SubmissionContext
      | Inr envelope \<Rightarrow>
          if length signature \<noteq> SIGNATURE_BYTES then Inl SubmissionSignature
          else if \<not> verify_ballot_signature E (inputs_roster setup) (inputs_identity setup) envelope signature
          then Inl SubmissionSignature
          else Inr \<lparr> ab_profile = inputs_profile setup, ab_envelope = envelope, ab_signature = signature \<rparr>)"

section \<open>Bodies\<close>

text \<open>A body is its envelope once its bytes have been checked against it.\<close>

record authenticated_ballot_body =
  body_authentication :: authenticated_ballot_envelope

abbreviation body_envelope :: "authenticated_ballot_body \<Rightarrow> ballot_envelope" where
  "body_envelope b \<equiv> ab_envelope (body_authentication b)"

record ballot_body_authentication =
  bba_authentication :: authenticated_ballot_envelope
  bba_hash :: body_hasher

definition body_authentication_new ::
  "externals \<Rightarrow> bytes \<Rightarrow> authenticated_ballot_envelope \<Rightarrow> submission_refusal + ballot_body_authentication" where
  "body_authentication_new E TABLE authentication =
     (case ballot_body_hasher E TABLE (ab_profile authentication)
             (envelope_body_length (ab_envelope authentication)) of
        Inl _ \<Rightarrow> Inl SubmissionContext
      | Inr hash \<Rightarrow> Inr \<lparr>bba_authentication = authentication, bba_hash = hash\<rparr>)"

definition body_authentication_push ::
  "externals \<Rightarrow> bytes \<Rightarrow> ballot_body_authentication
     \<Rightarrow> ballot_body_authentication \<times> (submission_refusal + unit)" where
  "body_authentication_push E bs b =
     (case body_push E bs (bba_hash b) of
        (hash, Inl _) \<Rightarrow> (b\<lparr>bba_hash := hash\<rparr>, Inl SubmissionContext)
      | (hash, Inr _) \<Rightarrow> (b\<lparr>bba_hash := hash\<rparr>, Inr ()))"

definition body_authentication_finish ::
  "externals \<Rightarrow> ballot_body_authentication \<Rightarrow> submission_refusal + authenticated_ballot_body" where
  "body_authentication_finish E b =
     (case body_finish E (bba_hash b) of
        Inl _ \<Rightarrow> Inl SubmissionContext
      | Inr ident \<Rightarrow>
          if ident \<noteq> envelope_body_identity (ab_envelope (bba_authentication b))
          then Inl SubmissionContext
          else Inr \<lparr>body_authentication = bba_authentication b\<rparr>)"

section \<open>What authentication establishes\<close>

lemma authenticate_envelope_sound:
  assumes "authenticate_envelope E TABLE setup bs signature = Inr a"
  shows "ballot_envelope_decode TABLE (inputs_profile setup) bs = Inr (ab_envelope a)
    \<and> ab_profile a = inputs_profile setup
    \<and> (\<exists>r. get (roster_records (auth_proposal (inputs_roster setup))) (envelope_position (ab_envelope a)) = Some r
         \<and> envelope_poll (ab_envelope a) = header_poll (reg_header r)
         \<and> envelope_setup_identity (ab_envelope a) = inputs_identity setup
         \<and> verify_context E (member_key r) BALLOT_SIGNATURE_CONTEXT (ab_envelope a) (ab_signature a))"
  using assms
  by (auto simp: authenticate_envelope_def verify_ballot_signature_def
      split: sum.splits option.splits if_splits)

end
