(* ===== verification/Close_Barrier.thy ===== *)
theory Close_Barrier
  imports Selection_Codec Ballot_Submission
begin

text \<open>
  The close barrier (\<open>evaluation-target/src/close.rs\<close>): authentication of intents and responses, the
  honest listing of a responder, the organizer's choice of responses, and the verification of a
  proposal, which fixes for every slot of the roster whether it is absent, usable or conflicting.

  \<open>sort_unstable\<close> and \<open>dedup\<close> on a vector of byte arrays are \<open>sort\<close> and \<open>remdups_adj\<close>.  A listed
  author indexes the slots directly in the source; the parser of responses has bounded it by the
  number of participants, see \<open>authenticated_response_listed\<close>.
\<close>

section \<open>Refusals and capabilities\<close>

datatype close_refusal = CloseShape | CloseMismatch | CloseSignature | CloseIncomplete

text \<open>\<open>map_err\<close>: the kind of the refusal is replaced.\<close>

definition map_err :: "'f \<Rightarrow> 'e + 'a \<Rightarrow> 'f + 'a" where
  "map_err e r = (case r of Inl _ \<Rightarrow> Inl e | Inr v \<Rightarrow> Inr v)"

lemma map_err_simps [simp]: "map_err e (Inl f) = Inl e" "map_err e (Inr v) = Inr v"
  by (simp_all add: map_err_def)

lemma map_err_Inr_iff [simp]: "map_err e r = Inr v \<longleftrightarrow> r = Inr v"
  by (simp add: map_err_def split: sum.splits)

record close_verifier =
  cv_poll :: verified_poll
  cv_setup :: verified_setup_aggregate

type_synonym authenticated_close_intent = close_intent_message
type_synonym authenticated_close_response = close_response_message

datatype closed_slot =
  Absent
| Usable authenticated_ballot_body
| Conflicting "bytes list"

record verified_close_barrier =
  barrier_poll :: verified_poll
  barrier_setup :: verified_setup_aggregate
  barrier_intent :: authenticated_close_intent
  barrier_proposal :: close_proposal_message
  barrier_slots :: "closed_slot list"

abbreviation cv_roster :: "close_verifier \<Rightarrow> roster_proposal" where
  "cv_roster V \<equiv> auth_proposal (inputs_roster (cv_setup V))"

definition participant_count :: "close_verifier \<Rightarrow> nat" where
  "participant_count V = length (roster_records (cv_roster V))"

definition organizer :: "close_verifier \<Rightarrow> nat" where
  "organizer V = roster_organizer_position (cv_roster V)"

definition verifier_new ::
  "bytes \<Rightarrow> verified_poll \<Rightarrow> verified_setup_aggregate \<Rightarrow> close_refusal + close_verifier" where
  "verifier_new TABLE poll setup =
     (let R = auth_proposal (inputs_roster setup) in
      if \<not> within (participant_range TABLE) (length (roster_records R))
         \<or> (\<exists>r \<in> set (roster_records R). header_poll (reg_header r) \<noteq> poll_identity poll)
         \<or> member_key (organizer_record R) \<noteq> poll_organizer poll
      then Inl CloseMismatch else Inr \<lparr>cv_poll = poll, cv_setup = setup\<rparr>)"

definition verifier_key :: "close_verifier \<Rightarrow> nat \<Rightarrow> close_refusal + bytes" where
  "verifier_key V position =
     and_then (ok_or CloseMismatch (get (roster_records (cv_roster V)) position)) (\<lambda>r. Inr (member_key r))"

definition verifier_setup_identity :: "close_verifier \<Rightarrow> bytes" where
  "verifier_setup_identity V = inputs_identity (cv_setup V)"

section \<open>Listings\<close>

text \<open>The loop that pushes identities into the slots, and \<open>sort_unstable\<close> with \<open>dedup\<close>.\<close>

fun push_slots :: "(nat \<times> bytes) list \<Rightarrow> bytes list list \<Rightarrow> bytes list list" where
  "push_slots [] slots = slots"
| "push_slots ((author, ident) # rest) slots =
     push_slots rest (slots[author := slots ! author @ [ident]])"

definition settle :: "bytes list list \<Rightarrow> bytes list list" where
  "settle slots = map (\<lambda>idents. remdups_adj (sort idents)) slots"

definition union_slots :: "nat \<Rightarrow> (nat \<times> bytes) list list \<Rightarrow> bytes list list" where
  "union_slots count entries = settle (push_slots (concat entries) (replicate count []))"

definition singletons :: "bytes list list \<Rightarrow> (nat \<times> bytes) list" where
  "singletons slots =
     List.map_filter (\<lambda>(author, idents). case idents of [ident] \<Rightarrow> Some (author, ident) | _ \<Rightarrow> None)
       (enumerate 0 slots)"

definition usable_entries :: "nat \<Rightarrow> authenticated_close_response list \<Rightarrow> (nat \<times> bytes) list" where
  "usable_entries count responses = singletons (union_slots count (map response_listed responses))"

text \<open>Known envelopes are author, identity and time; those of no slot are passed over.\<close>

fun push_known :: "u64 \<Rightarrow> (nat \<times> bytes \<times> u64) list \<Rightarrow> bytes list list \<Rightarrow> bytes list list" where
  "push_known close_time [] slots = slots"
| "push_known close_time ((author, ident, time) # rest) slots =
     push_known close_time rest
       (if time \<le> close_time \<and> author < length slots
        then slots[author := slots ! author @ [ident]] else slots)"

definition known_on_time :: "nat \<Rightarrow> (nat \<times> bytes \<times> u64) list \<Rightarrow> u64 \<Rightarrow> bytes list list" where
  "known_on_time count known close_time = settle (push_known close_time known (replicate count []))"

definition honest_slot :: "bytes list \<Rightarrow> nat \<Rightarrow> bytes list \<Rightarrow> (nat \<times> bytes) list" where
  "honest_slot held_ids author idents =
     (case idents of
        [] \<Rightarrow> []
      | [ident] \<Rightarrow> if ident \<in> set held_ids then [(author, ident)] else []
      | _ \<Rightarrow> map (\<lambda>ident. (author, ident)) (take MAXIMUM_LISTED_ENVELOPES_PER_SLOT idents))"

definition honest_listing :: "bytes list list \<Rightarrow> bytes list \<Rightarrow> (nat \<times> bytes) list" where
  "honest_listing known held_ids =
     concat (map (\<lambda>(author, idents). honest_slot held_ids author idents) (enumerate 0 known))"

definition ready_listing :: "bytes list list \<Rightarrow> bytes list \<Rightarrow> (nat \<times> bytes) list \<Rightarrow> bool" where
  "ready_listing known held_ids listed =
     list_all (\<lambda>(author, ident).
       case get known author of
         None \<Rightarrow> False
       | Some idents \<Rightarrow> ident \<in> set idents \<and> (length idents > 1 \<or> ident \<in> set held_ids)) listed"

definition wanted_listing ::
  "bytes list list \<Rightarrow> bytes list \<Rightarrow> (nat \<times> bytes) list list \<Rightarrow> (nat \<times> bytes) list" where
  "wanted_listing known held_ids entries =
     remdups_adj (sort (filter (\<lambda>(author, ident).
       case get known author of
         None \<Rightarrow> False
       | Some idents \<Rightarrow> idents = [ident] \<and> ident \<notin> set held_ids) (concat entries)))"

definition held_identities :: "externals \<Rightarrow> authenticated_ballot_body list \<Rightarrow> bytes list" where
  "held_identities E bodies = map (\<lambda>b. envelope_identity E (body_envelope b)) bodies"

definition known_slots ::
  "externals \<Rightarrow> close_verifier \<Rightarrow> authenticated_close_intent \<Rightarrow> authenticated_ballot_envelope list
     \<Rightarrow> authenticated_ballot_body list \<Rightarrow> bytes list list" where
  "known_slots E V intent known bodies =
     known_on_time (participant_count V)
       (map (\<lambda>a. let envelope = ab_envelope a in
               (envelope_position envelope, envelope_identity E envelope, envelope_ballot_time envelope))
         (known @ map body_authentication bodies))
       (intent_close_time intent)"

section \<open>Messages\<close>

definition verifier_intent :: "externals \<Rightarrow> close_verifier \<Rightarrow> u64 \<Rightarrow> close_refusal + close_intent_message" where
  "verifier_intent E V close_time =
     map_err CloseShape (intent_new E (poll_identity (cv_poll V)) (verifier_setup_identity V) close_time)"

definition authenticate_intent ::
  "externals \<Rightarrow> close_verifier \<Rightarrow> bytes \<Rightarrow> bytes \<Rightarrow> close_refusal + authenticated_close_intent" where
  "authenticate_intent E V body signature =
     and_then (map_err CloseShape (intent_parse E body)) (\<lambda>m.
     if intent_poll m \<noteq> poll_identity (cv_poll V)
        \<or> intent_setup_identity m \<noteq> verifier_setup_identity V
     then Inl CloseMismatch
     else and_then (verifier_key V (organizer V)) (\<lambda>key.
       if \<not> verify_close_signature E key CloseIntent (intent_identity m) signature
       then Inl CloseSignature else Inr m))"

definition honest_response ::
  "externals \<Rightarrow> bytes \<Rightarrow> close_verifier \<Rightarrow> authenticated_close_intent \<Rightarrow> nat
     \<Rightarrow> authenticated_ballot_envelope list \<Rightarrow> authenticated_ballot_body list
     \<Rightarrow> close_refusal + close_response_message" where
  "honest_response E TABLE V intent responder known bodies =
     (let listed = honest_listing (known_slots E V intent known bodies) (held_identities E bodies) in
      map_err CloseMismatch
        (response_new E TABLE (poll_identity (cv_poll V)) (verifier_setup_identity V)
           (intent_identity intent) responder (participant_count V) listed))"

text \<open>The loop over the listed entries of a response.\<close>

fun check_listed ::
  "externals \<Rightarrow> u64 \<Rightarrow> authenticated_ballot_envelope list \<Rightarrow> (nat \<times> bytes) list \<Rightarrow> close_refusal + unit" where
  "check_listed E close_time available [] = Inr ()"
| "check_listed E close_time available ((author, ident) # rest) =
     and_then (ok_or CloseIncomplete
         (List.find (\<lambda>a. envelope_identity E (ab_envelope a) = ident) available)) (\<lambda>a.
     if envelope_position (ab_envelope a) \<noteq> author
        \<or> envelope_ballot_time (ab_envelope a) > close_time
     then Inl CloseMismatch
     else check_listed E close_time available rest)"

definition authenticate_response ::
  "externals \<Rightarrow> bytes \<Rightarrow> close_verifier \<Rightarrow> authenticated_close_intent \<Rightarrow> bytes \<Rightarrow> bytes
     \<Rightarrow> authenticated_ballot_envelope list \<Rightarrow> close_refusal + authenticated_close_response" where
  "authenticate_response E TABLE V intent body signature available =
     and_then (map_err CloseShape (response_parse E TABLE body (participant_count V))) (\<lambda>m.
     if response_poll m \<noteq> poll_identity (cv_poll V)
        \<or> response_setup_identity m \<noteq> verifier_setup_identity V
        \<or> response_intent m \<noteq> intent_identity intent
     then Inl CloseMismatch
     else and_then (verifier_key V (response_responder m)) (\<lambda>key.
       if \<not> verify_close_signature E key CloseResponse (response_identity m) signature
       then Inl CloseSignature
       else and_then (check_listed E (intent_close_time intent) available (response_listed m)) (\<lambda>_.
         Inr m)))"

definition organizer_ready ::
  "externals \<Rightarrow> close_verifier \<Rightarrow> authenticated_close_intent \<Rightarrow> authenticated_ballot_envelope list
     \<Rightarrow> authenticated_ballot_body list \<Rightarrow> authenticated_close_response \<Rightarrow> bool" where
  "organizer_ready E V intent known bodies response =
     ready_listing (known_slots E V intent known bodies) (held_identities E bodies) (response_listed response)"

definition organizer_wanted ::
  "externals \<Rightarrow> close_verifier \<Rightarrow> authenticated_close_intent \<Rightarrow> authenticated_ballot_envelope list
     \<Rightarrow> authenticated_ballot_body list \<Rightarrow> authenticated_close_response list \<Rightarrow> (nat \<times> bytes) list" where
  "organizer_wanted E V intent known bodies responses =
     wanted_listing (known_slots E V intent known bodies) (held_identities E bodies)
       (map response_listed responses)"

definition verifier_proposal ::
  "externals \<Rightarrow> bytes \<Rightarrow> close_verifier \<Rightarrow> authenticated_close_intent \<Rightarrow> authenticated_close_response list
     \<Rightarrow> close_refusal + close_proposal_message" where
  "verifier_proposal E TABLE V intent responses =
     (if \<exists>m \<in> set responses. response_intent m \<noteq> intent_identity intent then Inl CloseMismatch
      else map_err CloseMismatch
        (close_proposal_new E TABLE (poll_identity (cv_poll V)) (verifier_setup_identity V)
           (intent_identity intent) (participant_count V) (organizer V)
           (sort (map (\<lambda>m. (response_responder m, response_identity m)) responses))))"

section \<open>The barrier\<close>

text \<open>The responses a proposal names, each from its responder and for the intent.\<close>

fun named_responses ::
  "authenticated_close_intent \<Rightarrow> authenticated_close_response list \<Rightarrow> (nat \<times> bytes) list
     \<Rightarrow> close_refusal + authenticated_close_response list" where
  "named_responses intent responses [] = Inr []"
| "named_responses intent responses ((responder, ident) # rest) =
     and_then (ok_or CloseIncomplete (List.find (\<lambda>m. response_identity m = ident) responses)) (\<lambda>m.
     if response_responder m \<noteq> responder \<or> response_intent m \<noteq> intent_identity intent
     then Inl CloseMismatch
     else and_then (named_responses intent responses rest) (\<lambda>chosen. Inr (m # chosen)))"

definition select_slots ::
  "close_verifier \<Rightarrow> authenticated_close_intent \<Rightarrow> close_proposal_message
     \<Rightarrow> authenticated_close_response list \<Rightarrow> close_refusal + bytes list list" where
  "select_slots V intent proposal responses =
     (if close_proposal_poll proposal \<noteq> poll_identity (cv_poll V)
         \<or> close_proposal_setup_identity proposal \<noteq> verifier_setup_identity V
         \<or> close_proposal_intent proposal \<noteq> intent_identity intent
      then Inl CloseMismatch
      else and_then (named_responses intent responses (close_proposal_responses proposal)) (\<lambda>chosen.
        Inr (union_slots (participant_count V) (map response_listed chosen))))"

definition required_bodies ::
  "close_verifier \<Rightarrow> authenticated_close_intent \<Rightarrow> close_proposal_message
     \<Rightarrow> authenticated_close_response list \<Rightarrow> close_refusal + (nat \<times> bytes) list" where
  "required_bodies V intent proposal responses =
     and_then (select_slots V intent proposal responses) (\<lambda>slots. Inr (singletons slots))"

definition close_slot ::
  "externals \<Rightarrow> authenticated_ballot_body list \<Rightarrow> bytes list \<Rightarrow> close_refusal + closed_slot" where
  "close_slot E bodies idents =
     (case idents of
        [] \<Rightarrow> Inr Absent
      | [ident] \<Rightarrow>
          and_then (ok_or CloseIncomplete
            (List.find (\<lambda>b. envelope_identity E (body_envelope b) = ident) bodies)) (\<lambda>b. Inr (Usable b))
      | _ \<Rightarrow> Inr (Conflicting idents))"

definition verify_proposal ::
  "externals \<Rightarrow> bytes \<Rightarrow> close_verifier \<Rightarrow> authenticated_close_intent \<Rightarrow> bytes \<Rightarrow> bytes
     \<Rightarrow> authenticated_close_response list \<Rightarrow> authenticated_ballot_body list
     \<Rightarrow> close_refusal + verified_close_barrier" where
  "verify_proposal E TABLE V intent body signature responses bodies =
     and_then (map_err CloseShape
         (close_proposal_parse E TABLE body (participant_count V) (organizer V))) (\<lambda>proposal.
     and_then (select_slots V intent proposal responses) (\<lambda>slots.
     and_then (verifier_key V (organizer V)) (\<lambda>key.
     if \<not> verify_close_signature E key CloseProposal (close_proposal_identity proposal) signature
     then Inl CloseSignature
     else and_then (collect_results (map (close_slot E bodies) slots)) (\<lambda>closed.
       Inr \<lparr> barrier_poll = cv_poll V, barrier_setup = cv_setup V, barrier_intent = intent,
             barrier_proposal = proposal, barrier_slots = closed \<rparr>))))"

section \<open>Slots as sets\<close>

lemma distinct_remdups_adj_sorted: "sorted xs \<Longrightarrow> distinct (remdups_adj xs)"
proof (induction xs rule: remdups_adj.induct)
  case (3 x y xs)
  then show ?case by (cases "x = y") (auto simp: dest: order_antisym)
qed simp_all

lemma sort_dedup: "remdups_adj (sort xs) = sorted_list_of_set (set xs)"
proof (rule sorted_distinct_set_unique)
  show "sorted (remdups_adj (sort xs))" "distinct (remdups_adj (sort xs))"
    by (simp_all add: sorted_remdups_adj distinct_remdups_adj_sorted)
qed simp_all

lemma length_push_slots [simp]: "length (push_slots vs slots) = length slots"
  by (induction vs slots rule: push_slots.induct) simp_all

lemma push_slots_nth:
  "i < length slots \<Longrightarrow> push_slots vs slots ! i = slots ! i @ map snd (listings i vs)"
  by (induction vs slots rule: push_slots.induct) (auto simp: nth_list_update)

lemma length_push_known [simp]: "length (push_known close_time ks slots) = length slots"
  by (induction close_time ks slots rule: push_known.induct) simp_all

lemma push_known_nth:
  "i < length slots \<Longrightarrow> push_known close_time ks slots ! i
     = slots ! i @ map (fst \<circ> snd) (filter (\<lambda>k. fst k = i \<and> snd (snd k) \<le> close_time) ks)"
  by (induction close_time ks slots rule: push_known.induct) (auto simp: nth_list_update)

text \<open>The identities listed for a slot, and those known on time.\<close>

definition listed_for :: "(nat \<times> bytes) list list \<Rightarrow> nat \<Rightarrow> bytes set" where
  "listed_for entries i = {ident. (i, ident) \<in> set (concat entries)}"

definition known_for :: "(nat \<times> bytes \<times> u64) list \<Rightarrow> u64 \<Rightarrow> nat \<Rightarrow> bytes set" where
  "known_for known close_time i = {ident. \<exists>time \<le> close_time. (i, ident, time) \<in> set known}"

lemma finite_listed [simp]: "finite (listed_for entries i)"
proof -
  have "listed_for entries i \<subseteq> snd ` set (concat entries)" by (force simp: listed_for_def)
  then show ?thesis by (rule finite_subset) simp
qed

lemma finite_known [simp]: "finite (known_for known close_time i)"
proof -
  have "known_for known close_time i \<subseteq> (fst \<circ> snd) ` set known" by (force simp: known_for_def)
  then show ?thesis by (rule finite_subset) simp
qed

lemma length_union_slots [simp]: "length (union_slots count entries) = count"
  by (simp add: union_slots_def settle_def)

lemma length_known_on_time [simp]: "length (known_on_time count known close_time) = count"
  by (simp add: known_on_time_def settle_def)

lemma union_slots_nth:
  "i < count \<Longrightarrow> union_slots count entries ! i = sorted_list_of_set (listed_for entries i)"
proof -
  assume "i < count"
  then have "union_slots count entries ! i
      = sorted_list_of_set (set (map snd (listings i (concat entries))))"
    by (simp add: union_slots_def settle_def push_slots_nth sort_dedup del: set_concat)
  moreover have "set (map snd (listings i (concat entries))) = listed_for entries i"
    by (force simp: listed_for_def)
  ultimately show ?thesis by simp
qed

lemma known_on_time_nth:
  "i < count \<Longrightarrow> known_on_time count known close_time ! i
     = sorted_list_of_set (known_for known close_time i)"
proof -
  assume "i < count"
  moreover have "set (map (fst \<circ> snd) (filter (\<lambda>k. fst k = i \<and> snd (snd k) \<le> close_time) known))
      = known_for known close_time i"
    by (force simp: known_for_def)
  ultimately show ?thesis
    by (simp add: known_on_time_def settle_def push_known_nth sort_dedup)
qed

lemma map_filter_member: "y \<in> set (List.map_filter f xs) \<longleftrightarrow> (\<exists>x \<in> set xs. f x = Some y)"
  by (force simp: List.map_filter_def image_iff)

lemma singletons_iff:
  "(i, ident) \<in> set (singletons slots) \<longleftrightarrow> i < length slots \<and> slots ! i = [ident]"
proof -
  have "(case idents of [] \<Rightarrow> None | [ident] \<Rightarrow> Some (author, ident) | _ \<Rightarrow> None) = Some (i, ident)
      \<longleftrightarrow> author = i \<and> idents = [ident]" for author and idents :: "bytes list"
    by (cases idents; cases "tl idents") auto
  then show ?thesis
    by (auto simp: singletons_def map_filter_member in_set_enumerate_eq
        intro!: bexI [of _ "(i, [ident])"])
qed

lemma singleton_list: "finite A \<Longrightarrow> sorted_list_of_set A = [x] \<longleftrightarrow> A = {x}"
proof
  assume "finite A" "sorted_list_of_set A = [x]"
  then have "A = set [x]" by (metis set_sorted_list_of_set)
  then show "A = {x}" by simp
qed simp

section \<open>The verified barrier\<close>

text \<open>What a closed slot says of the identities listed for it.\<close>

fun slot_of :: "externals \<Rightarrow> authenticated_ballot_body list \<Rightarrow> bytes set \<Rightarrow> closed_slot \<Rightarrow> bool" where
  "slot_of E bodies S Absent \<longleftrightarrow> S = {}"
| "slot_of E bodies S (Usable b) \<longleftrightarrow> b \<in> set bodies \<and> S = {envelope_identity E (body_envelope b)}"
| "slot_of E bodies S (Conflicting idents) \<longleftrightarrow> idents = sorted_list_of_set S \<and> 2 \<le> card S"

lemma find_Some: "List.find P xs = Some x \<Longrightarrow> x \<in> set xs \<and> P x"
  by (induction xs) (auto split: if_splits)

lemma close_slot_of:
  assumes "finite S" "close_slot E bodies (sorted_list_of_set S) = Inr slot"
  shows "slot_of E bodies S slot"
proof -
  consider "sorted_list_of_set S = []" | x where "sorted_list_of_set S = [x]"
    | x y xs where "sorted_list_of_set S = x # y # xs"
    by (metis list.exhaust)
  then show ?thesis
  proof cases
    case 1
    then show ?thesis using assms by (simp add: close_slot_def)
  next
    case (2 x)
    then show ?thesis
      using assms by (auto simp: close_slot_def and_then_Inr_iff singleton_list dest!: find_Some)
  next
    case (3 x y xs)
    have "card S = length (sorted_list_of_set S)" by simp
    then have "2 \<le> card S" by (simp add: 3 del: length_sorted_list_of_set)
    then show ?thesis using assms by (auto simp: close_slot_def 3)
  qed
qed

lemma named_responses_sound:
  assumes "named_responses intent responses entries = Inr chosen"
  shows "map (\<lambda>m. (response_responder m, response_identity m)) chosen = entries
    \<and> set chosen \<subseteq> set responses \<and> (\<forall>m \<in> set chosen. response_intent m = intent_identity intent)"
  using assms
proof (induction entries arbitrary: chosen)
  case Nil
  then show ?case by simp
next
  case (Cons entry entries)
  obtain responder ident where e: "entry = (responder, ident)" by (cases entry)
  from Cons.prems obtain m rest where m: "List.find (\<lambda>m. response_identity m = ident) responses = Some m"
    "response_responder m = responder" "response_intent m = intent_identity intent"
    "named_responses intent responses entries = Inr rest" "chosen = m # rest"
    by (auto simp: e and_then_Inr_iff split: if_splits)
  from Cons.IH [OF m(4)] find_Some [OF m(1)] m show ?case by (auto simp: e)
qed

lemma verify_proposal_sound:
  assumes "verify_proposal E TABLE V intent body signature responses bodies = Inr B"
  shows "\<exists>chosen. close_proposal_parse E TABLE body (participant_count V) (organizer V)
        = Inr (barrier_proposal B)
    \<and> named_responses intent responses (close_proposal_responses (barrier_proposal B)) = Inr chosen
    \<and> map (close_slot E bodies) (union_slots (participant_count V) (map response_listed chosen))
        = map Inr (barrier_slots B)
    \<and> barrier_intent B = intent"
  using assms
  by (auto simp: verify_proposal_def and_then_Inr_iff select_slots_def collect_results_Inr split: if_splits)

section \<open>Listings of the honest organizer\<close>

lemma honest_listing_iff:
  "(i, x) \<in> set (honest_listing known held_ids) \<longleftrightarrow> i < length known
     \<and> (known ! i = [x] \<and> x \<in> set held_ids \<or> 2 \<le> length (known ! i) \<and> x \<in> set (take 2 (known ! i)))"
proof -
  have pick: "(i, x) \<in> set (honest_slot held_ids author idents)
    \<longleftrightarrow> author = i \<and> (idents = [x] \<and> x \<in> set held_ids \<or> 2 \<le> length idents \<and> x \<in> set (take 2 idents))"
    for author and idents :: "bytes list"
    by (cases idents; cases "tl idents")
      (auto simp: honest_slot_def MAXIMUM_LISTED_ENVELOPES_PER_SLOT_def)
  show ?thesis
    by (auto simp: honest_listing_def pick in_set_enumerate_eq intro!: bexI [of _ "(i, known ! i)"])
qed

lemma get_case: "(case get xs i of None \<Rightarrow> False | Some x \<Rightarrow> P x) \<longleftrightarrow> i < length xs \<and> P (xs ! i)"
  by (simp add: get_def)

lemma ready_listing_iff:
  "ready_listing known held_ids listed \<longleftrightarrow> (\<forall>(i, x) \<in> set listed. i < length known
     \<and> x \<in> set (known ! i) \<and> (1 < length (known ! i) \<or> x \<in> set held_ids))"
  by (simp add: ready_listing_def list_all_iff get_case)

text \<open>Where two envelopes are known the organizer's own listing makes the slot conflicting.\<close>

lemma ready_singleton_held:
  assumes "\<forall>l \<in> set entries. ready_listing known held_ids l" "honest_listing known held_ids \<in> set entries"
    and "\<forall>idents \<in> set known. distinct idents" and "listed_for entries i = {x}"
  shows "x \<in> set held_ids"
proof (rule ccontr)
  assume no: "x \<notin> set held_ids"
  have "x \<in> listed_for entries i" using assms(4) by simp
  then obtain l where "l \<in> set entries" "(i, x) \<in> set l" by (auto simp: listed_for_def)
  then have i: "i < length known" "1 < length (known ! i)"
    using assms(1) no by (fastforce simp: ready_listing_iff)+
  then obtain a b rest where two: "known ! i = a # b # rest"
    by (cases "known ! i"; cases "tl (known ! i)") auto
  have "(i, a) \<in> set (honest_listing known held_ids)" "(i, b) \<in> set (honest_listing known held_ids)"
    using i(1) by (simp_all add: honest_listing_iff two)
  then have "a \<in> listed_for entries i" "b \<in> listed_for entries i"
    using assms(2) by (auto simp: listed_for_def)
  moreover have "a \<noteq> b" using assms(3) nth_mem [OF i(1)] two by auto
  ultimately show False using assms(4) by simp
qed

lemma known_slots_distinct: "\<forall>idents \<in> set (known_slots E V intent known bodies). distinct idents"
  by (auto simp: known_slots_def in_set_conv_nth known_on_time_nth)

lemma find_exists: "x \<in> set xs \<Longrightarrow> P x \<Longrightarrow> \<exists>y. List.find P xs = Some y"
  by (induction xs) auto

lemma find_by_key: "distinct (map f xs) \<Longrightarrow> x \<in> set xs \<Longrightarrow> List.find (\<lambda>y. f y = f x) xs = Some x"
  by (induction xs) (auto simp: image_iff)

lemma named_responses_complete:
  assumes "distinct (map response_identity responses)" "set ms \<subseteq> set responses"
    "\<forall>m \<in> set ms. response_intent m = intent_identity intent"
  shows "named_responses intent responses (map (\<lambda>m. (response_responder m, response_identity m)) ms) = Inr ms"
  using assms(2,3)
proof (induction ms)
  case Nil
  then show ?case by simp
next
  case (Cons m ms)
  then have "List.find (\<lambda>y. response_identity y = response_identity m) responses = Some m"
    using find_by_key [OF assms(1)] by simp
  with Cons show ?case by simp
qed

lemma map_insort_key: "map f (insort_key f x xs) = insort (f x) (map f xs)"
  by (induction xs) simp_all

lemma map_sort_key: "map f (sort_key f xs) = sort (map f xs)"
  by (induction xs) (simp_all add: map_insort_key)

lemma one_listing: "distinct (map fst vs) \<Longrightarrow> length (listings a vs) \<le> 1"
proof (induction vs)
  case Nil
  then show ?case by simp
next
  case (Cons v vs)
  then have "fst v = a \<Longrightarrow> listings a vs = []"
    by (auto simp: filter_empty_conv dest: rev_image_eqI [of _ _ a fst])
  with Cons show ?case by auto
qed

lemma sorted_responses_valid:
  assumes "distinct (map fst vs)" "\<forall>v \<in> set vs. fst v < n \<and> length (snd v) = 64"
  shows "valid_entries n 1 (sort vs)"
proof -
  have d: "distinct (map fst (sort vs))" using assms(1) by (simp add: distinct_map)
  then have "sorted_wrt (<) (sort vs)" by (simp add: strict_sorted_iff distinct_map)
  with assms(2) one_listing [OF d] show ?thesis by (simp add: valid_entries_def)
qed

lemma honest_slot_author: "v \<in> set (honest_slot held_ids author idents) \<Longrightarrow> fst v = author"
  by (cases idents; cases "tl idents") (auto simp: honest_slot_def split: if_splits)

lemma honest_slot_sorted:
  "sorted_wrt (<) idents \<Longrightarrow> sorted_wrt (<) (honest_slot held_ids author idents)
     \<and> length (honest_slot held_ids author idents) \<le> 2"
  by (cases idents; cases "tl idents")
    (auto simp: honest_slot_def MAXIMUM_LISTED_ENVELOPES_PER_SLOT_def take_Suc eval_nat_numeral
      less_prod_def split: list.splits)

lemma honest_from:
  assumes "\<forall>idents \<in> set known. sorted_wrt (<) idents"
  shows "sorted_wrt (<) (concat (map (\<lambda>(author, idents). honest_slot held_ids author idents) (enumerate k known)))
    \<and> (\<forall>v \<in> set (concat (map (\<lambda>(author, idents). honest_slot held_ids author idents) (enumerate k known))). k \<le> fst v)
    \<and> (\<forall>a. length (listings a (concat (map (\<lambda>(author, idents). honest_slot held_ids author idents)
          (enumerate k known)))) \<le> 2)"
  using assms
proof (induction known arbitrary: k)
  case Nil
  then show ?case by simp
next
  case (Cons idents known)
  let ?rest = "concat (map (\<lambda>(author, idents). honest_slot held_ids author idents) (enumerate (Suc k) known))"
  have IH: "sorted_wrt (<) ?rest" "\<forall>v \<in> set ?rest. Suc k \<le> fst v" "\<forall>a. length (listings a ?rest) \<le> 2"
    using Cons by auto
  have own: "sorted_wrt (<) (honest_slot held_ids k idents)" "length (honest_slot held_ids k idents) \<le> 2"
    using honest_slot_sorted Cons.prems by simp_all
  have below: "\<forall>v \<in> set (honest_slot held_ids k idents). \<forall>w \<in> set ?rest. v < w"
  proof (intro ballI)
    fix v w
    assume "v \<in> set (honest_slot held_ids k idents)" "w \<in> set ?rest"
    then have "fst v < fst w" using honest_slot_author IH(2) by (metis Suc_le_lessD)
    then show "v < w" by (simp add: less_prod_def)
  qed
  have count: "length (listings a (honest_slot held_ids k idents @ ?rest)) \<le> 2" for a
  proof (cases "a = k")
    case True
    then have "listings a ?rest = []" using IH(2) by (fastforce simp: filter_empty_conv)
    moreover have "length (listings a (honest_slot held_ids k idents)) \<le> 2"
      using own(2) by (rule order_trans [OF length_filter_le])
    ultimately show ?thesis by simp
  next
    case False
    then have "listings a (honest_slot held_ids k idents) = []"
      using honest_slot_author by (fastforce simp: filter_empty_conv)
    then show ?thesis using IH(3) by simp
  qed
  have ge: "\<forall>v \<in> set (honest_slot held_ids k idents @ ?rest). k \<le> fst v"
    using IH(2) honest_slot_author by fastforce
  show ?case
    using IH(1) own(1) below count ge by (simp add: sorted_wrt_append)
qed

text \<open>The honest listing satisfies the rules of a response.\<close>

lemma honest_listing_valid:
  assumes "\<forall>idents \<in> set known. sorted_wrt (<) idents \<and> (\<forall>x \<in> set idents. length x = 64)"
  shows "valid_entries (length known) 2 (honest_listing known held_ids)"
proof -
  have "fst v < length known \<and> length (snd v) = 64" if "v \<in> set (honest_listing known held_ids)" for v
  proof -
    obtain i x where v: "v = (i, x)" by (cases v)
    then have "i < length known" "x \<in> set (known ! i)"
      using that by (auto simp: honest_listing_iff dest: in_set_takeD)
    then show ?thesis using assms nth_mem v by fastforce
  qed
  then show ?thesis
    using honest_from [of known held_ids 0] assms by (auto simp: valid_entries_def honest_listing_def)
qed

lemma length_known_slots [simp]: "length (known_slots E V intent known bodies) = participant_count V"
  by (simp add: known_slots_def)

lemma known_slots_member:
  assumes "i < participant_count V"
  shows "x \<in> set (known_slots E V intent known bodies ! i) \<longleftrightarrow>
    (\<exists>a \<in> set (known @ map body_authentication bodies). envelope_position (ab_envelope a) = i
       \<and> envelope_identity E (ab_envelope a) = x
       \<and> envelope_ballot_time (ab_envelope a) \<le> intent_close_time intent)"
proof -
  let ?f = "\<lambda>a. let envelope = ab_envelope a in
      (envelope_position envelope, envelope_identity E envelope, envelope_ballot_time envelope)"
  have "x \<in> known_for (map ?f as) time i \<longleftrightarrow> (\<exists>a \<in> set as. envelope_position (ab_envelope a) = i
       \<and> envelope_identity E (ab_envelope a) = x \<and> envelope_ballot_time (ab_envelope a) \<le> time)" for as time
    by (auto simp: known_for_def Let_def image_iff)
  then show ?thesis using assms by (simp only: known_slots_def known_on_time_nth set_sorted_list_of_set finite_known)
qed

lemma envelope_identity_value:
  "length envelope = ENVELOPE_BYTES \<Longrightarrow>
   envelope_identity E envelope = shake256 E (identity_preimage ENVELOPE_IDENTITY_DOMAIN envelope)"
  by (simp add: envelope_identity_def message_hash_value ENVELOPE_IDENTITY_DOMAIN_def labelled_def
      ascii_bytes_def printable_ascii_def ENVELOPE_BYTES_def ENVELOPE_BODY_IDENTITY_OFFSET_def
      default_limits_def)

lemma check_listed_complete:
  assumes "inj_on (envelope_identity E) (ab_envelope ` set available)"
    and "\<forall>(i, x) \<in> set listed. \<exists>a \<in> set available. envelope_position (ab_envelope a) = i
       \<and> envelope_identity E (ab_envelope a) = x \<and> envelope_ballot_time (ab_envelope a) \<le> close_time"
  shows "check_listed E close_time available listed = Inr ()"
  using assms(2)
proof (induction listed)
  case Nil
  then show ?case by simp
next
  case (Cons v listed)
  obtain i x where v: "v = (i, x)" by (cases v)
  from Cons.prems obtain a where a: "a \<in> set available" "envelope_position (ab_envelope a) = i"
    "envelope_identity E (ab_envelope a) = x" "envelope_ballot_time (ab_envelope a) \<le> close_time"
    by (auto simp: v)
  obtain b where b: "List.find (\<lambda>a. envelope_identity E (ab_envelope a) = x) available = Some b"
    using find_exists [OF a(1), of "\<lambda>a. envelope_identity E (ab_envelope a) = x"] a(3) by blast
  then have "ab_envelope b = ab_envelope a"
    using find_Some [OF b] a(1,3) inj_onD [OF assms(1), of "ab_envelope b" "ab_envelope a"] by simp
  with Cons a b show ?case by (simp add: v not_less)
qed

lemma verify_proposal_complete:
  assumes "close_proposal_parse E TABLE body (participant_count V) (organizer V) = Inr p"
    and "select_slots V intent p responses = Inr slots" "verifier_key V (organizer V) = Inr key"
    and "verify_close_signature E key CloseProposal (close_proposal_identity p) signature"
    and single: "\<And>x. [x] \<in> set slots \<Longrightarrow> x \<in> set (held_identities E bodies)"
  shows "\<exists>B. verify_proposal E TABLE V intent body signature responses bodies = Inr B"
proof -
  have "\<exists>v. close_slot E bodies idents = Inr v" if "idents \<in> set slots" for idents
  proof -
    have "\<exists>b. List.find (\<lambda>b. envelope_identity E (body_envelope b) = x) bodies = Some b"
      if "idents = [x]" for x
      using single [of x] that \<open>idents \<in> set slots\<close>
      by (auto simp: held_identities_def intro: find_exists)
    then show ?thesis by (cases idents; cases "tl idents") (auto simp: close_slot_def)
  qed
  then have "\<forall>r \<in> set (map (close_slot E bodies) slots). \<exists>v. r = Inr v" by auto
  then have "\<exists>closed. collect_results (map (close_slot E bodies) slots) = Inr closed"
    unfolding collect_results_Inr ex_map_conv .
  then show ?thesis using assms(1-4) by (auto simp: verify_proposal_def)
qed

section \<open>A sample close\<close>

definition bar_key :: bytes where "bar_key = signing_public (from_seed sample_externals sample_seed)"

definition bar_record :: "nat \<Rightarrow> verified_registration" where
  "bar_record i =
     \<lparr> reg_header = sample_header\<lparr>header_poll := replicate 64 1,
         header_signing_public := if i = 0 then bar_key else replicate 64 (word_of_nat i)\<rparr>,
       reg_body_digest = replicate 64 (word_of_nat i), reg_public_key = [] \<rparr>"

definition bar_poll :: verified_poll where
  "bar_poll = sample_poll\<lparr>poll_identity := replicate 64 1, poll_organizer := bar_key\<rparr>"

definition bar_setup :: verified_setup_aggregate where
  "bar_setup =
     \<lparr> inputs_selection =
         \<lparr> as_roster =
             \<lparr> auth_proposal =
                 \<lparr> roster_identity = replicate 64 3, roster_body = [],
                   roster_records = [bar_record 0, bar_record 1, bar_record 2, bar_record 3, bar_record 4],
                   roster_organizer_position = 0, roster_profile = sample_profile,
                   roster_family_index = 0 \<rparr>,
               auth_signature = [] \<rparr>,
           as_selection = \<lparr> selection_body = [], selection_identity = replicate 64 2,
                            selection_roster = replicate 64 3, selected = [] \<rparr>,
           as_signature = [] \<rparr>,
       inputs_polynomials = [] \<rparr>"

definition bar_verifier :: close_verifier where
  "bar_verifier = \<lparr>cv_poll = bar_poll, cv_setup = bar_setup\<rparr>"

definition bar_intent :: close_intent_message where
  "bar_intent =
     \<lparr> intent_body = [], intent_identity = replicate 64 4, intent_poll = replicate 64 1,
       intent_setup_identity = replicate 64 2, intent_close_time = 9 \<rparr>"

definition bar_envelope :: ballot_envelope where
  "bar_envelope = replicate 64 1 @ replicate 64 2 @ u16_to_le_bytes 0 @ u64_to_le_bytes 7 @ replicate 72 0"

definition bar_body :: authenticated_ballot_body where
  "bar_body = \<lparr>body_authentication =
     \<lparr>ab_profile = sample_profile, ab_envelope = bar_envelope, ab_signature = []\<rparr>\<rparr>"

definition bar_response :: "nat \<Rightarrow> close_response_message" where
  "bar_response i =
     \<lparr> response_body = [], response_identity = replicate 64 (word_of_nat (10 + i)),
       response_poll = replicate 64 1, response_setup_identity = replicate 64 2,
       response_intent = replicate 64 4, response_responder = i,
       response_listed = (if i = 0 then [(0, envelope_identity sample_externals bar_envelope)] else []) \<rparr>"

definition bar_responses :: "close_response_message list" where
  "bar_responses = [bar_response 0, bar_response 1, bar_response 2, bar_response 3]"

lemma bar_envelope_fields:
  "length bar_envelope = ENVELOPE_BYTES" "envelope_position bar_envelope = 0"
  "envelope_ballot_time bar_envelope = 7"
  by (simp_all add: bar_envelope_def envelope_position_def envelope_ballot_time_def slice_def
      ENVELOPE_POSITION_OFFSET_def ENVELOPE_BALLOT_TIME_OFFSET_def ENVELOPE_BODY_LENGTH_OFFSET_def
      ENVELOPE_BYTES_def ENVELOPE_BODY_IDENTITY_OFFSET_def)

lemma bar_verifier_new:
  "verifier_new sample_TABLE bar_poll bar_setup = Inr bar_verifier"
  "participant_count bar_verifier = 5" "organizer bar_verifier = 0"
  "length (poll_identity bar_poll) = 64" "length (inputs_identity bar_setup) = 64"
  "length (intent_identity bar_intent) = 64"
  "member_key (organizer_record (cv_roster bar_verifier)) = bar_key"
proof -
  have "within (participant_range sample_TABLE) 5" by code_simp
  then show "verifier_new sample_TABLE bar_poll bar_setup = Inr bar_verifier"
    by (simp add: eval_nat_numeral verifier_new_def bar_setup_def bar_poll_def bar_verifier_def inputs_roster_def
        organizer_record_def bar_record_def)
qed (simp_all add: bar_verifier_def participant_count_def organizer_def bar_setup_def bar_poll_def
      bar_intent_def inputs_roster_def inputs_identity_def organizer_record_def bar_record_def)

lemma bar_slots:
  "known_slots sample_externals bar_verifier bar_intent [] [bar_body]
     = [[envelope_identity sample_externals bar_envelope], [], [], [], []]"
proof -
  have five: "replicate 5 [] = [[], [], [], [], []]" by (simp add: eval_nat_numeral)
  show ?thesis
    by (simp add: known_slots_def known_on_time_def bar_verifier_new(2) bar_body_def bar_envelope_fields
        bar_intent_def settle_def five)
qed

lemma bar_held:
  "held_identities sample_externals [bar_body] = [envelope_identity sample_externals bar_envelope]"
  by (simp add: held_identities_def bar_body_def)

lemma bar_listing:
  "honest_listing (known_slots sample_externals bar_verifier bar_intent [] [bar_body])
     (held_identities sample_externals [bar_body]) = [(0, envelope_identity sample_externals bar_envelope)]"
  unfolding bar_slots bar_held by (simp add: honest_listing_def honest_slot_def)

lemma bar_ready: "organizer_ready sample_externals bar_verifier bar_intent [] [bar_body] (bar_response i)"
  unfolding organizer_ready_def bar_slots bar_held by (simp add: ready_listing_iff bar_response_def)

lemma sample_shake_ok: "shake_ok sample_externals"
  by (auto simp: shake_ok_def sample_externals_def)

lemma bar_fields:
  "set bar_responses = bar_response ` {0, 1, 2, 3}" "length bar_responses = inventory_threshold 5"
  "map response_responder bar_responses = [0, 1, 2, 3]" "distinct (map response_identity bar_responses)"
  "response_intent (bar_response i) = intent_identity bar_intent" "response_responder (bar_response i) = i"
  "length (response_identity (bar_response i)) = 64"
  "response_listed (bar_response 0) = [(0, envelope_identity sample_externals bar_envelope)]"
  by (simp_all add: bar_responses_def bar_response_def bar_intent_def inventory_threshold_def
      maximum_corrupt_participants_def replicate_eq_replicate)

lemma bar_sign:
  "\<exists>signature. verify_close_signature sample_externals bar_key purpose ident signature"
proof -
  have "close_context purpose \<in> set SIGNING_CONTEXTS"
    by (cases purpose) (simp_all add: SIGNING_CONTEXTS_def)
  from sign_deterministically_verifies [OF sample_permutation this, of "from_seed sample_externals sample_seed" ident]
  show ?thesis by (auto simp: verify_close_signature_def bar_key_def)
qed

section \<open>Properties\<close>

lemma barrier_union:
  assumes "verify_proposal E TABLE V intent body signature responses bodies = Inr B"
  shows "\<exists>chosen. set chosen \<subseteq> set responses
    \<and> map (\<lambda>m. (response_responder m, response_identity m)) chosen
        = close_proposal_responses (barrier_proposal B)
    \<and> distinct (map response_responder chosen)
    \<and> length chosen = inventory_threshold (participant_count V)
    \<and> organizer V \<in> response_responder ` set chosen
    \<and> (\<forall>m \<in> set chosen. response_intent m = intent_identity intent)
    \<and> length (barrier_slots B) = participant_count V
    \<and> (\<forall>i < participant_count V.
         slot_of E bodies (listed_for (map response_listed chosen) i) (barrier_slots B ! i))"
proof -
  obtain chosen where parse: "close_proposal_parse E TABLE body (participant_count V) (organizer V)
        = Inr (barrier_proposal B)"
    and named: "named_responses intent responses (close_proposal_responses (barrier_proposal B)) = Inr chosen"
    and slots: "map (close_slot E bodies) (union_slots (participant_count V) (map response_listed chosen))
        = map Inr (barrier_slots B)"
    using verify_proposal_sound [OF assms] by (elim exE conjE) (rule that)
  note n = named_responses_sound [OF named]
  note p = close_proposal_parse_responses [OF parse]
  have fsts: "map response_responder chosen = map fst (close_proposal_responses (barrier_proposal B))"
    using arg_cong [OF conjunct1 [OF n], of "map fst"] by (simp add: comp_def)
  have len: "length (barrier_slots B) = participant_count V"
    using arg_cong [OF slots, of length] by simp
  have "slot_of E bodies (listed_for (map response_listed chosen) i) (barrier_slots B ! i)"
    if "i < participant_count V" for i
  proof -
    have "close_slot E bodies (union_slots (participant_count V) (map response_listed chosen) ! i)
        = Inr (barrier_slots B ! i)"
      using arg_cong [OF slots, of "\<lambda>xs. xs ! i"] that len by (simp only: nth_map length_union_slots)
    then show ?thesis using that by (intro close_slot_of) (simp_all only: union_slots_nth finite_listed)
  qed
  moreover have "distinct (map response_responder chosen)" 
    using one_per_author [OF conjunct1 [OF p]] fsts by (simp only:)
  moreover have "length chosen = inventory_threshold (participant_count V)"
    using conjunct1 [OF conjunct2 [OF p]] arg_cong [OF fsts, of length] by simp
  moreover have "organizer V \<in> response_responder ` set chosen"
    using conjunct2 [OF conjunct2 [OF p]] arg_cong [OF fsts, of set] by simp
  ultimately show ?thesis using n len by blast
qed

lemma bar_barrier:
  "\<exists>body signature B. verify_proposal sample_externals sample_TABLE bar_verifier bar_intent body signature
      bar_responses [bar_body] = Inr B
    \<and> close_proposal_responses (barrier_proposal B) = map (\<lambda>m. (response_responder m, response_identity m)) bar_responses"
proof -
  let ?entries = "map (\<lambda>m. (response_responder m, response_identity m)) bar_responses"
  define p where "p = close_proposal_of sample_externals (replicate 64 1) (replicate 64 2) (replicate 64 4) ?entries"
  have "sorted_wrt (<) ?entries \<and> distinct (map fst ?entries)"
    by (simp add: bar_responses_def bar_fields less_prod_def)
  then have "valid_entries 5 1 ?entries"
    using one_listing [of ?entries] by (auto simp: valid_entries_def bar_fields)
  then have "proposal_fields 5 0 (replicate 64 1) (replicate 64 2) (replicate 64 4) ?entries"
    by (auto simp: proposal_fields_def bar_fields image_iff)
  moreover have "participants_supported sample_TABLE 5" by code_simp
  ultimately have parse: "close_proposal_parse sample_externals sample_TABLE (close_proposal_body p)
      (participant_count bar_verifier) (organizer bar_verifier) = Inr p"
    unfolding close_proposal_parse_iff p_def bar_verifier_new(2,3) by blast
  have named: "named_responses bar_intent bar_responses ?entries = Inr bar_responses"
    by (rule named_responses_complete) (auto simp: bar_fields)
  have select: "select_slots bar_verifier bar_intent p bar_responses
      = Inr (union_slots 5 (map response_listed bar_responses))"
    using named by (simp add: select_slots_def p_def bar_verifier_new(2)) (simp add: bar_verifier_def bar_poll_def
        bar_setup_def verifier_setup_identity_def inputs_identity_def bar_intent_def)
  have listed: "listed_for (map response_listed bar_responses) i
      = (if i = 0 then {envelope_identity sample_externals bar_envelope} else {})" for i
    by (auto simp: listed_for_def bar_responses_def bar_response_def)
  have single: "x \<in> set (held_identities sample_externals [bar_body])"
    if "[x] \<in> set (union_slots 5 (map response_listed bar_responses))" for x
    using that unfolding in_set_conv_nth bar_held
    by (auto simp: union_slots_nth listed split: if_splits)
  have key: "verifier_key bar_verifier (organizer bar_verifier) = Inr bar_key"
    by (simp add: verifier_key_def get_def bar_verifier_def bar_setup_def organizer_def inputs_roster_def bar_record_def)
  obtain signature where "verify_close_signature sample_externals bar_key CloseProposal
      (close_proposal_identity p) signature"
    using bar_sign by blast
  from verify_proposal_complete [OF parse select key this single] obtain B where
    B: "verify_proposal sample_externals sample_TABLE bar_verifier bar_intent (close_proposal_body p) signature
      bar_responses [bar_body] = Inr B" by blast
  have resp: "close_proposal_responses (barrier_proposal B) = ?entries"
    using B parse by (auto simp: verify_proposal_def and_then_Inr_iff p_def split: if_splits)
  show ?thesis using B resp by blast
qed

text \<open>
  A verified barrier fixes the union of exactly the responses its proposal names: these are
  authenticated responses to the intent, from a quorum of distinct responders with the organizer
  among them, and every slot of the roster is absent when none of them lists an envelope for it,
  usable with the complete body when they list exactly one, and conflicting with all listed
  identities in ascending order when they list more.
\<close>

theorem barrier_fixes_the_union:
  assumes "verify_proposal E TABLE V intent body signature responses bodies = Inr B"
  shows "\<exists>chosen. set chosen \<subseteq> set responses
    \<and> map (\<lambda>m. (response_responder m, response_identity m)) chosen
        = close_proposal_responses (barrier_proposal B)
    \<and> distinct (map response_responder chosen)
    \<and> length chosen = inventory_threshold (participant_count V)
    \<and> organizer V \<in> response_responder ` set chosen
    \<and> (\<forall>m \<in> set chosen. response_intent m = intent_identity intent)
    \<and> length (barrier_slots B) = participant_count V
    \<and> (\<forall>i < participant_count V.
         slot_of E bodies (listed_for (map response_listed chosen) i) (barrier_slots B ! i))"
  by (rule barrier_union [OF assms])

theorem barrier_fixes_the_union_witness:
  "\<exists>body signature B. verify_proposal sample_externals sample_TABLE bar_verifier bar_intent body signature
      bar_responses [bar_body] = Inr B
    \<and> length (barrier_slots B) = 5"
proof -
  obtain body signature B where B: "verify_proposal sample_externals sample_TABLE bar_verifier bar_intent body signature
      bar_responses [bar_body] = Inr B" using bar_barrier by blast
  from barrier_fixes_the_union [OF B] have "length (barrier_slots B) = 5"
    by (elim exE conjE) (simp add: bar_verifier_new(2))
  with B show ?thesis by blast
qed

text \<open>
  C17. The organizer can always finish: from a quorum of responses to the intent, each of which it
  found ready, with its own honest listing among them, the proposal it builds is well formed, and
  with a valid organizer signature its verification against the held bodies yields a barrier; no
  body is missing, because every slot that the union leaves with a single envelope is held.
\<close>

theorem ready_responses_make_a_barrier:
  assumes "verifier_new TABLE poll setup = Inr V" "organizer V < participant_count V"
    and lens: "length (poll_identity poll) = 64" "length (inputs_identity setup) = 64"
      "length (intent_identity intent) = 64"
    and resp: "\<forall>m \<in> set responses. response_intent m = intent_identity intent
        \<and> response_responder m < participant_count V \<and> length (response_identity m) = 64
        \<and> organizer_ready E V intent known bodies m"
    and dist: "distinct (map response_responder responses)" "distinct (map response_identity responses)"
    and own: "own \<in> set responses" "response_responder own = organizer V"
      "response_listed own = honest_listing (known_slots E V intent known bodies) (held_identities E bodies)"
    and quorum: "length responses = inventory_threshold (participant_count V)"
  shows "\<exists>p. verifier_proposal E TABLE V intent responses = Inr p
    \<and> (\<forall>signature. verify_close_signature E (member_key (organizer_record (cv_roster V))) CloseProposal
            (close_proposal_identity p) signature \<longrightarrow>
         (\<exists>B. verify_proposal E TABLE V intent (close_proposal_body p) signature responses bodies = Inr B))"
proof -
  let ?key = "\<lambda>m. (response_responder m, response_identity m)"
  let ?entries = "sort (map ?key responses)" and ?n = "participant_count V"
  define p where "p = close_proposal_of E (poll_identity poll) (inputs_identity setup) (intent_identity intent) ?entries"
  have V: "V = \<lparr>cv_poll = poll, cv_setup = setup\<rparr>" and supported: "participants_supported TABLE ?n"
    using assms(1) by (auto simp: verifier_new_def Let_def participants_supported_def participant_count_def
        split: if_splits)
  have "valid_entries ?n 1 ?entries"
    using resp dist(1) by (intro sorted_responses_valid) (auto simp: comp_def)
  moreover have "organizer V \<in> fst ` set ?entries" using own(1,2) by force
  ultimately have fields: "proposal_fields ?n (organizer V) (poll_identity poll) (inputs_identity setup)
      (intent_identity intent) ?entries"
    using lens quorum by (simp add: proposal_fields_def)
  have proposal: "verifier_proposal E TABLE V intent responses = Inr p"
    using resp close_proposal_new_value [OF fields supported, of E]
    by (auto simp: verifier_proposal_def V verifier_setup_identity_def p_def)
  have parse: "close_proposal_parse E TABLE (close_proposal_body p) ?n (organizer V) = Inr p"
    unfolding close_proposal_parse_iff p_def using fields supported by blast
  have "named_responses intent responses (map ?key (sort_key ?key responses)) = Inr (sort_key ?key responses)"
    using resp dist(2) by (intro named_responses_complete) auto
  then have named: "named_responses intent responses (close_proposal_responses p) = Inr (sort_key ?key responses)"
    by (simp add: p_def map_sort_key)
  define slots where "slots = union_slots ?n (map response_listed (sort_key ?key responses))"
  have select: "select_slots V intent p responses = Inr slots"
    using named by (simp add: select_slots_def slots_def V verifier_setup_identity_def p_def)
  have single: "x \<in> set (held_identities E bodies)" if mem: "[x] \<in> set slots" for x
  proof -
    have "length slots = ?n" by (simp add: slots_def)
    moreover obtain i where "i < length slots" "slots ! i = [x]"
      using mem by (auto simp: in_set_conv_nth)
    ultimately have "i < ?n" "slots ! i = [x]" by simp_all
    then have only: "listed_for (map response_listed (sort_key ?key responses)) i = {x}"
      by (simp add: slots_def union_slots_nth singleton_list)
    show ?thesis
      by (rule ready_singleton_held [OF _ _ known_slots_distinct only])
        (use resp own(1) in \<open>auto simp: organizer_ready_def image_iff simp flip: own(3)\<close>)
  qed
  have "verifier_key V (organizer V) = Inr (member_key (organizer_record (cv_roster V)))"
    using assms(2) by (simp add: verifier_key_def get_def participant_count_def organizer_def organizer_record_def)
  then show ?thesis
    using proposal verify_proposal_complete [OF parse select _ _ single] by blast
qed

theorem ready_responses_make_a_barrier_witness:
  "\<exists>p signature B. verifier_proposal sample_externals sample_TABLE bar_verifier bar_intent bar_responses = Inr p
    \<and> verify_proposal sample_externals sample_TABLE bar_verifier bar_intent (close_proposal_body p) signature
        bar_responses [bar_body] = Inr B"
proof -
  have "\<exists>p. verifier_proposal sample_externals sample_TABLE bar_verifier bar_intent bar_responses = Inr p
    \<and> (\<forall>signature. verify_close_signature sample_externals (member_key (organizer_record (cv_roster bar_verifier)))
            CloseProposal (close_proposal_identity p) signature \<longrightarrow>
         (\<exists>B. verify_proposal sample_externals sample_TABLE bar_verifier bar_intent (close_proposal_body p)
            signature bar_responses [bar_body] = Inr B))"
  proof (rule ready_responses_make_a_barrier [OF bar_verifier_new(1) _ bar_verifier_new(4-6)])
    show "response_listed (bar_response 0) = honest_listing
        (known_slots sample_externals bar_verifier bar_intent [] [bar_body])
        (held_identities sample_externals [bar_body])"
      by (simp only: bar_listing bar_fields)
  qed (auto simp: bar_ready bar_verifier_new(2,3) bar_fields)
  then obtain p where p: "verifier_proposal sample_externals sample_TABLE bar_verifier bar_intent bar_responses = Inr p"
    and B: "\<And>signature. verify_close_signature sample_externals bar_key CloseProposal
        (close_proposal_identity p) signature \<Longrightarrow>
      \<exists>B. verify_proposal sample_externals sample_TABLE bar_verifier bar_intent (close_proposal_body p)
            signature bar_responses [bar_body] = Inr B"
    unfolding bar_verifier_new(7) by blast
  obtain signature where "verify_close_signature sample_externals bar_key CloseProposal
      (close_proposal_identity p) signature"
    using bar_sign by blast
  from B [OF this] p show ?thesis by blast
qed

text \<open>
  C18. The honest listing of a responder is a response: for envelopes of the fixed length whose
  identities do not collide, building it from the known envelopes and the held bodies succeeds, the
  organizer's readiness check accepts it for the same knowledge, and every verifier that has these
  envelopes authenticates its body with a valid signature of the responder.
\<close>

theorem honest_response_is_accepted:
  assumes "verifier_new TABLE poll setup = Inr V" "responder < participant_count V" "shake_ok E"
    and lens: "length (poll_identity poll) = 64" "length (inputs_identity setup) = 64"
      "length (intent_identity intent) = 64"
    and envs: "\<forall>a \<in> set (known @ map body_authentication bodies). length (ab_envelope a) = ENVELOPE_BYTES"
      "inj_on (envelope_identity E) (ab_envelope ` set (known @ map body_authentication bodies))"
  shows "\<exists>m. honest_response E TABLE V intent responder known bodies = Inr m
    \<and> response_responder m = responder \<and> organizer_ready E V intent known bodies m
    \<and> (\<forall>signature. verify_close_signature E (member_key (roster_records (cv_roster V) ! responder))
            CloseResponse (response_identity m) signature \<longrightarrow>
         authenticate_response E TABLE V intent (response_body m) signature
           (known @ map body_authentication bodies) = Inr m)"
proof -
  let ?slots = "known_slots E V intent known bodies" and ?n = "participant_count V"
  let ?listed = "honest_listing ?slots (held_identities E bodies)"
  define m where "m = response_of E (poll_identity poll) (inputs_identity setup) (intent_identity intent) responder ?listed"
  have V: "V = \<lparr>cv_poll = poll, cv_setup = setup\<rparr>" and supported: "participants_supported TABLE ?n"
    using assms(1) by (auto simp: verifier_new_def Let_def participants_supported_def participant_count_def
        split: if_splits)
  have each: "sorted_wrt (<) idents \<and> (\<forall>x \<in> set idents. length x = 64)" if "idents \<in> set ?slots" for idents
  proof -
    obtain i where i: "i < ?n" "idents = ?slots ! i" using \<open>idents \<in> set ?slots\<close> by (auto simp: in_set_conv_nth)
    then have "sorted_wrt (<) idents" by (simp add: known_slots_def known_on_time_nth strict_sorted_iff)
    moreover have "\<forall>x \<in> set idents. length x = 64"
      using envs(1) assms(3) i known_slots_member [OF i(1)]
      by (metis envelope_identity_value shake_ok_def)
    ultimately show ?thesis by blast
  qed
  then have "valid_entries ?n 2 ?listed" using honest_listing_valid [of ?slots] by simp
  then have fields: "response_fields ?n (poll_identity poll) (inputs_identity setup)
      (intent_identity intent) responder ?listed"
    using lens assms(2) by (simp add: response_fields_def MAXIMUM_LISTED_ENVELOPES_PER_SLOT_def)
  have new: "honest_response E TABLE V intent responder known bodies = Inr m"
    using response_new_value [OF fields supported, of E]
    by (simp add: honest_response_def V verifier_setup_identity_def m_def Let_def)
  have parse: "response_parse E TABLE (response_body m) ?n = Inr m"
    unfolding response_parse_iff m_def using fields supported by blast
  have member: "i < ?n \<and> x \<in> set (?slots ! i) \<and> (1 < length (?slots ! i) \<or> x \<in> set (held_identities E bodies))"
    if "(i, x) \<in> set ?listed" for i x
    using that by (auto simp: honest_listing_iff dest: in_set_takeD)
  then have ready: "organizer_ready E V intent known bodies m"
    by (auto simp: organizer_ready_def ready_listing_iff m_def)
  have "check_listed E (intent_close_time intent) (known @ map body_authentication bodies) ?listed = Inr ()"
    using member known_slots_member by (intro check_listed_complete [OF envs(2)]) blast
  moreover have "verifier_key V responder = Inr (member_key (roster_records (cv_roster V) ! responder))"
    using assms(2) by (simp add: verifier_key_def get_def participant_count_def)
  ultimately show ?thesis
    using new ready parse by (auto simp: authenticate_response_def V verifier_setup_identity_def m_def)
qed

theorem honest_response_is_accepted_witness:
  "\<exists>m. honest_response sample_externals sample_TABLE bar_verifier bar_intent 0 [] [bar_body] = Inr m
    \<and> organizer_ready sample_externals bar_verifier bar_intent [] [bar_body] m"
  using honest_response_is_accepted [OF bar_verifier_new(1) _ sample_shake_ok bar_verifier_new(4-6),
      of 0 "[]" "[bar_body]"]
  by (auto simp: bar_verifier_new bar_body_def bar_envelope_fields)

end
