(* ===== verification/Evaluation_Target.thy ===== *)
theory Evaluation_Target
  imports Target_Signing Close_Barrier
begin

text \<open>
  The evaluation target (\<open>evaluation-target/src/target.rs\<close>): the classification of a closed
  inventory, the canonical target body it determines, and the copy a participant retains.  The
  homomorphic evaluation is the engine of another crate; its final ciphertext is an argument of
  \<open>running_finish\<close>, present exactly when the engine was started.
\<close>

section \<open>Classified inventories\<close>

datatype target_refusal =
  TargetContext | TargetIncomplete | UnsupportedProfile | PublicInput | Arithmetic | Storage | Encoding

text \<open>A classification carries the envelope it was made for.\<close>

datatype ballot_body_classification = Valid ballot_envelope | Invalid ballot_envelope

record classified_closed_inventory =
  classified_barrier :: verified_close_barrier
  classifications :: bytes

fun classify :: "(closed_slot \<times> ballot_body_classification option) list \<Rightarrow> target_refusal + bytes" where
  "classify [] = Inr []"
| "classify ((slot, verdict) # rest) =
     and_then (case (slot, verdict) of
         (Absent, None) \<Rightarrow> Inr 0
       | (Conflicting _, None) \<Rightarrow> Inr 3
       | (Usable source, Some (Invalid envelope)) \<Rightarrow>
           if body_envelope source \<noteq> envelope then Inl TargetContext else Inr 1
       | (Usable source, Some (Valid envelope)) \<Rightarrow>
           if envelope \<noteq> body_envelope source then Inl TargetContext else Inr 2
       | _ \<Rightarrow> Inl TargetIncomplete) (\<lambda>code.
     and_then (classify rest) (\<lambda>codes. Inr (code # codes)))"

definition inventory_new ::
  "verified_close_barrier \<Rightarrow> ballot_body_classification option list
     \<Rightarrow> target_refusal + classified_closed_inventory" where
  "inventory_new B cs =
     (if length cs \<noteq> length (barrier_slots B) then Inl TargetIncomplete
      else and_then (classify (zip (barrier_slots B) cs)) (\<lambda>encoded.
        Inr \<lparr>classified_barrier = B, classifications = encoded\<rparr>))"

definition accepted_authors :: "classified_closed_inventory \<Rightarrow> nat list" where
  "accepted_authors inventory =
     filter (\<lambda>author. classifications inventory ! author = 2) [0 ..< length (classifications inventory)]"

definition accepted :: "classified_closed_inventory \<Rightarrow> nat \<Rightarrow> target_refusal + ballot_envelope option" where
  "accepted inventory author =
     and_then (ok_or TargetContext (get (classifications inventory) author)) (\<lambda>code.
       Inr (case (code = 2, barrier_slots (classified_barrier inventory) ! author) of
              (True, Usable source) \<Rightarrow> Some (body_envelope source)
            | _ \<Rightarrow> None))"

definition inventory_poll :: "classified_closed_inventory \<Rightarrow> verified_poll" where
  "inventory_poll inventory = barrier_poll (classified_barrier inventory)"

definition inventory_setup :: "classified_closed_inventory \<Rightarrow> verified_setup_aggregate" where
  "inventory_setup inventory = barrier_setup (classified_barrier inventory)"

definition target_fields :: "classified_closed_inventory \<Rightarrow> target_refusal + canonical_item list" where
  "target_fields inventory = ok_or Encoding (do {
     label \<leftarrow> nonempty_ascii TARGET_PURPOSE;
     codes \<leftarrow> variable_bytes (classifications inventory);
     Some [label, hash512 (poll_identity (inventory_poll inventory)),
           hash512 (inputs_identity (inventory_setup inventory)),
           hash512 (close_proposal_identity (barrier_proposal (classified_barrier inventory))),
           codes] })"

text \<open>Whether \<open>start\<close> makes an engine: the accepted authors reach the minimum turnout.\<close>

definition evaluates :: "classified_closed_inventory \<Rightarrow> bool" where
  "evaluates inventory \<longleftrightarrow>
     \<not> length (accepted_authors inventory) < minimum_turnout (length (classifications inventory))"

section \<open>Targets\<close>

definition CIPHERTEXT_IDENTITY_DOMAIN :: bytes where
  "CIPHERTEXT_IDENTITY_DOMAIN = ascii_bytes ''sealed-lattice/evaluation-ciphertext''"

definition ciphertext_identity :: "externals \<Rightarrow> bytes \<Rightarrow> target_refusal + bytes" where
  "ciphertext_identity E cipher = map_err Encoding (message_hash E CIPHERTEXT_IDENTITY_DOMAIN cipher)"

definition RETAINED_TARGET_LABEL :: bytes where
  "RETAINED_TARGET_LABEL = ascii_bytes ''sealed-lattice/retained-evaluation-target''"

record verified_evaluation_target =
  vt_poll :: verified_poll
  vt_setup :: verified_setup_aggregate
  vt_classified :: "classified_closed_inventory option"
  vt_body :: bytes
  vt_identity :: bytes
  vt_ciphertext :: "bytes option"

definition body_target_identity :: "externals \<Rightarrow> bytes \<Rightarrow> bytes \<Rightarrow> nat \<Rightarrow> target_refusal + bytes" where
  "body_target_identity E TABLE body n =
     (if length body > MAXIMUM_TARGET_BODY_BYTES then Inl Encoding
      else and_then (map_err Encoding (target_parse E TABLE body n)) (\<lambda>m. Inr (target_identity m)))"

definition target_finish ::
  "externals \<Rightarrow> bytes \<Rightarrow> classified_closed_inventory \<Rightarrow> canonical_item list \<Rightarrow> bytes option
     \<Rightarrow> target_refusal + verified_evaluation_target" where
  "target_finish E TABLE inventory parts final =
     and_then (ok_or Encoding (tuple_encode E (message_tuple parts))) (\<lambda>body.
     and_then (body_target_identity E TABLE body (participants (inputs_profile (inventory_setup inventory)))) (\<lambda>ident.
     Inr \<lparr> vt_poll = inventory_poll inventory, vt_setup = inventory_setup inventory,
           vt_classified = Some inventory, vt_body = body, vt_identity = ident,
           vt_ciphertext = final \<rparr>))"

definition running_finish ::
  "externals \<Rightarrow> bytes \<Rightarrow> classified_closed_inventory \<Rightarrow> bytes option
     \<Rightarrow> target_refusal + verified_evaluation_target" where
  "running_finish E TABLE inventory final =
     and_then (target_fields inventory) (\<lambda>parts.
     and_then (case final of
         None \<Rightarrow> Inr parts
       | Some cipher \<Rightarrow>
           and_then (ciphertext_identity E cipher) (\<lambda>h. Inr (parts @ [hash512 h]))) (\<lambda>parts.
     target_finish E TABLE inventory parts final))"

definition retain_target ::
  "externals \<Rightarrow> credential \<Rightarrow> verified_evaluation_target \<Rightarrow> target_refusal + bytes" where
  "retain_target E c T =
     (if vt_classified T = None then Inl TargetContext
      else let bs = le_bytes 4 (length (vt_body T)) @ vt_body T
                      @ (case vt_ciphertext T of None \<Rightarrow> [] | Some cipher \<Rightarrow> cipher)
        in Inr (bs @ retained_tag E c RETAINED_TARGET_LABEL (vt_poll T) bs))"

definition restore_evaluation_target ::
  "externals \<Rightarrow> bytes \<Rightarrow> credential \<Rightarrow> verified_poll \<Rightarrow> verified_setup_aggregate \<Rightarrow> bytes
     \<Rightarrow> target_refusal + verified_evaluation_target" where
  "restore_evaluation_target E TABLE c poll setup retained =
     (if length retained < RETAINED_TAG_BYTES then Inl Encoding
      else let split = length retained - RETAINED_TAG_BYTES; bs = take split retained;
               tag_bytes = drop split retained in
      and_then (map_err TargetContext (check_retained_tag E c RETAINED_TARGET_LABEL poll bs tag_bytes)) (\<lambda>_.
      if length bs < 4 then Inl Encoding
      else let len = le_value (take 4 bs) in
      if len > MAXIMUM_TARGET_BODY_BYTES \<or> length bs < 4 + len then Inl Encoding
      else let body = take len (drop 4 bs); cipher = drop len (drop 4 bs) in
      and_then (map_err Encoding (target_parse E TABLE body (participants (inputs_profile setup)))) (\<lambda>m.
      if target_poll m \<noteq> poll_identity poll \<or> target_setup_identity m \<noteq> inputs_identity setup
      then Inl TargetContext
      else
      and_then (case target_ciphertext m of
          Some ident \<Rightarrow>
            and_then (ciphertext_identity E cipher) (\<lambda>h.
              if ident \<noteq> h then Inl TargetContext else Inr (Some cipher))
        | None \<Rightarrow> if cipher = [] then Inr None else Inl Encoding) (\<lambda>final.
      Inr \<lparr> vt_poll = poll, vt_setup = setup, vt_classified = None, vt_body = body,
            vt_identity = target_identity m, vt_ciphertext = final \<rparr>))))"

section \<open>Target messages\<close>

definition target_items :: "bytes \<Rightarrow> bytes \<Rightarrow> bytes \<Rightarrow> bytes \<Rightarrow> bytes option \<Rightarrow> canonical_item list" where
  "target_items poll setup_identity proposal codes final =
     [label_item TARGET_PURPOSE, hash512 poll, hash512 setup_identity, hash512 proposal, raw_variable codes]
       @ (case final of None \<Rightarrow> [] | Some h \<Rightarrow> [hash512 h])"

definition accepted_codes :: "bytes \<Rightarrow> nat" where
  "accepted_codes codes = length (filter (\<lambda>value. value = 2) codes)"

definition target_ok_fields :: "nat \<Rightarrow> bytes \<Rightarrow> bytes \<Rightarrow> bytes \<Rightarrow> bytes \<Rightarrow> bytes option \<Rightarrow> bool" where
  "target_ok_fields n poll setup_identity proposal codes final \<longleftrightarrow>
     length poll = 64 \<and> length setup_identity = 64 \<and> length proposal = 64 \<and> length codes = n
     \<and> (\<forall>value \<in> set codes. value \<le> 3) \<and> (\<forall>h. final = Some h \<longrightarrow> length h = 64)
     \<and> (final \<noteq> None \<longleftrightarrow> accepted_codes codes \<ge> minimum_turnout n)"

definition target_of ::
  "externals \<Rightarrow> nat \<Rightarrow> bytes \<Rightarrow> bytes \<Rightarrow> bytes \<Rightarrow> bytes \<Rightarrow> bytes option \<Rightarrow> target_message" where
  "target_of E n poll setup_identity proposal codes final =
     (let body = tuple_bytes (message_tuple (target_items poll setup_identity proposal codes final)) in
      \<lparr> target_body = body, target_poll = poll, target_setup_identity = setup_identity,
        target_proposal = proposal,
        target_identity = shake256 E (identity_preimage TARGET_IDENTITY_DOMAIN body),
        target_participants = n, target_ciphertext = final, target_classifications = codes \<rparr>)"

lemma target_labels:
  "labelled TARGET_PURPOSE" "length TARGET_PURPOSE = 32" "labelled TARGET_IDENTITY_DOMAIN"
  by (simp_all add: TARGET_PURPOSE_def TARGET_IDENTITY_DOMAIN_def labelled_def ascii_bytes_def
      printable_ascii_def)

lemma target_size:
  assumes "target_ok_fields n poll setup_identity proposal codes final"
  shows "length (tuple_bytes (message_tuple (target_items poll setup_identity proposal codes final)))
    \<le> 344 + n"
  using assms by (simp add: target_ok_fields_def target_items_def length_tuple_bytes target_labels
      hash512_def split: option.splits)

lemma target_flat:
  assumes "target_ok_fields n poll setup_identity proposal codes final"
  shows "\<forall>item \<in> set (target_items poll setup_identity proposal codes final). flat_item l item"
  using assms target_labels
  by (auto simp: target_ok_fields_def target_items_def labelled_def usize_bound_def split: option.splits)

lemma target_encode:
  assumes "target_ok_fields n poll setup_identity proposal codes final" "n \<le> 255"
  shows "tuple_encode E (message_tuple (target_items poll setup_identity proposal codes final))
    = Some (tuple_bytes (message_tuple (target_items poll setup_identity proposal codes final)))"
  using target_flat [OF assms(1)] target_size [OF assms(1)] assms(2)
  by (intro message_encode) (auto simp: target_items_def split: option.splits)

lemma target_parse_complete:
  assumes "target_ok_fields n poll setup_identity proposal codes final" "participants_supported TABLE n"
  shows "target_parse E TABLE (tuple_bytes (message_tuple (target_items poll setup_identity proposal codes final))) n
    = Inr (target_of E n poll setup_identity proposal codes final)"
proof -
  let ?its = "target_items poll setup_identity proposal codes final"
  let ?body = "tuple_bytes (message_tuple ?its)"
  have n: "n \<le> 255" using assms(2) by (rule supported_count)
  have small: "length ?body \<le> 599" using target_size [OF assms(1)] n by linarith
  have dec: "tuple_decode E ?body (message_limits MAXIMUM_TARGET_BODY_BYTES 6) = Some (message_tuple ?its)"
    using small target_flat [OF assms(1)]
    by (intro message_decode) (auto simp: MAXIMUM_TARGET_BODY_BYTES_def target_items_def split: option.splits)
  have hash: "message_hash E TARGET_IDENTITY_DOMAIN ?body
      = Inr (shake256 E (identity_preimage TARGET_IDENTITY_DOMAIN ?body))"
    using small by (simp add: message_hash_value target_labels default_limits_def)
  have vals: "variable_value_bytes (label_item TARGET_PURPOSE) = Some TARGET_PURPOSE"
    "variable_value_bytes (raw_variable codes) = Some codes"
    using assms(1) n target_labels(2) by (simp_all add: target_ok_fields_def usize_bound_def)
  have codes: "length codes = n \<and> \<not> (\<exists>value \<in> set codes. value > 3)"
    using assms(1) by (auto simp: target_ok_fields_def not_less)
  show ?thesis
  proof (cases final)
    case None
    then have "\<not> accepted_codes codes \<ge> minimum_turnout n" using assms(1) by (simp add: target_ok_fields_def)
    with None show ?thesis
      using assms dec hash vals codes
      by (simp add: target_parse_def target_items_def target_of_def Let_def accepted_codes_def
          target_ok_fields_def get_def item_hash_def try_array_def hash512_def slice_def)
  next
    case (Some h)
    then have "accepted_codes codes \<ge> minimum_turnout n" "length h = 64"
      using assms(1) by (simp_all add: target_ok_fields_def)
    with Some show ?thesis
      using assms dec hash vals codes
      by (simp add: target_parse_def target_items_def target_of_def Let_def accepted_codes_def
          target_ok_fields_def get_def item_hash_def try_array_def hash512_def slice_def)
  qed
qed

section \<open>What a classification records\<close>

fun slot_code :: "closed_slot \<Rightarrow> ballot_body_classification option \<Rightarrow> byte \<Rightarrow> bool" where
  "slot_code Absent verdict code \<longleftrightarrow> verdict = None \<and> code = 0"
| "slot_code (Conflicting idents) verdict code \<longleftrightarrow> verdict = None \<and> code = 3"
| "slot_code (Usable b) verdict code \<longleftrightarrow>
     verdict = Some (Invalid (body_envelope b)) \<and> code = 1
     \<or> verdict = Some (Valid (body_envelope b)) \<and> code = 2"

lemma classify_codes:
  assumes "classify xs = Inr codes"
  shows "list_all2 (\<lambda>(slot, verdict) code. slot_code slot verdict code) xs codes"
  using assms
proof (induction xs arbitrary: codes)
  case Nil
  then show ?case by simp
next
  case (Cons x xs)
  obtain slot verdict where x: "x = (slot, verdict)" by (cases x)
  from Cons.prems obtain code rest where "classify xs = Inr rest" "codes = code # rest" "slot_code slot verdict code"
    by (auto simp: x and_then_Inr_iff split: closed_slot.splits option.splits
        ballot_body_classification.splits if_splits)
  with Cons.IH show ?case by (simp add: x)
qed

lemma slot_code_range: "slot_code slot verdict code \<Longrightarrow> code \<le> 3"
  by (cases slot) auto

lemma inventory_codes:
  assumes "inventory_new B cs = Inr inventory"
  shows "classified_barrier inventory = B" "length (classifications inventory) = length (barrier_slots B)"
    "length cs = length (barrier_slots B)"
    "\<And>i. i < length (barrier_slots B) \<Longrightarrow> slot_code (barrier_slots B ! i) (cs ! i) (classifications inventory ! i)"
proof -
  show b: "classified_barrier inventory = B" and len: "length cs = length (barrier_slots B)"
    using assms by (auto simp: inventory_new_def and_then_Inr_iff split: if_splits)
  have "classify (zip (barrier_slots B) cs) = Inr (classifications inventory)"
    using assms by (auto simp: inventory_new_def and_then_Inr_iff split: if_splits)
  note codes = classify_codes [OF this]
  show n: "length (classifications inventory) = length (barrier_slots B)"
    using list_all2_lengthD [OF codes] len by simp
  show "slot_code (barrier_slots B ! i) (cs ! i) (classifications inventory ! i)" if "i < length (barrier_slots B)" for i
    using list_all2_nthD [OF codes, of i] that len by simp
qed

lemma accepted_authors_count: "length (accepted_authors inventory) = accepted_codes (classifications inventory)"
proof -
  have "filter (\<lambda>value. value = 2) (map ((!) (classifications inventory)) [0 ..< length (classifications inventory)])
      = map ((!) (classifications inventory)) (accepted_authors inventory)"
    by (simp add: filter_map accepted_authors_def comp_def)
  then show ?thesis by (simp add: accepted_codes_def map_nth)
qed

lemma retained_tag_length:
  assumes "permutation_ok E"
  shows "length (retained_tag E c label poll bs) = 64"
  using assms by (simp add: retained_tag_digest digest_def length_finalize absorb_ok hash_new_ok)

section \<open>A concrete closed inventory\<close>

text \<open>Three usable ballots, one absent participant and one with two ballots on time.\<close>

definition inventory_body :: "nat \<Rightarrow> authenticated_ballot_body" where
  "inventory_body i = \<lparr>body_authentication =
     \<lparr>ab_profile = sample_profile,
      ab_envelope = replicate 64 1 @ replicate 64 2 @ u16_to_le_bytes (word_of_nat i) @ u64_to_le_bytes 7 @ replicate 72 0,
      ab_signature = []\<rparr>\<rparr>"

definition inventory_barrier :: verified_close_barrier where
  "inventory_barrier =
     \<lparr> barrier_poll = bar_poll, barrier_setup = bar_setup,
       barrier_intent = bar_intent,
       barrier_proposal =
         \<lparr> close_proposal_body = [], close_proposal_identity = replicate 64 5,
           close_proposal_poll = replicate 64 1, close_proposal_setup_identity = replicate 64 2,
           close_proposal_intent = replicate 64 4, close_proposal_responses = [] \<rparr>,
       barrier_slots = [Usable (inventory_body 0), Absent, Usable (inventory_body 2),
         Conflicting [replicate 64 7, replicate 64 8], Usable (inventory_body 4)] \<rparr>"

definition inventory_verdicts :: "ballot_body_classification option list" where
  "inventory_verdicts =
     [Some (Valid (body_envelope (inventory_body 0))), None, Some (Valid (body_envelope (inventory_body 2))),
      None, Some (Valid (body_envelope (inventory_body 4)))]"

definition sample_inventory :: classified_closed_inventory where
  "sample_inventory = \<lparr>classified_barrier = inventory_barrier, classifications = [2, 0, 2, 3, 2]\<rparr>"

lemma supported_five: "participants_supported sample_TABLE 5"
  by code_simp

lemma sample_inventory_new: "inventory_new inventory_barrier inventory_verdicts = Inr sample_inventory"
  by (simp add: inventory_new_def inventory_barrier_def inventory_verdicts_def sample_inventory_def)

lemma sample_inventory_evaluates: "evaluates sample_inventory"
proof -
  have "[0 ..< 5] = [0, 1, 2, 3, 4 :: nat]" by code_simp
  then show ?thesis
    by (simp add: evaluates_def accepted_authors_def sample_inventory_def minimum_turnout_def
        maximum_corrupt_participants_def)
qed

section \<open>Properties\<close>

text \<open>
  C20. A classified inventory takes exactly one verdict for each usable slot of the barrier and none
  for the others; the code of a slot says what the barrier and the verdict say, and the ballot that
  is accepted for an author is the envelope of the author's usable slot with a valid verdict for
  exactly that envelope, and nothing else.
\<close>

theorem accepted_ballot_is_the_closed_one:
  assumes "inventory_new B cs = Inr inventory" "i < length (barrier_slots B)"
  shows "slot_code (barrier_slots B ! i) (cs ! i) (classifications inventory ! i)
    \<and> (accepted inventory i = Inr (Some envelope) \<longleftrightarrow>
         (\<exists>b. barrier_slots B ! i = Usable b \<and> cs ! i = Some (Valid envelope) \<and> envelope = body_envelope b))
    \<and> (i \<in> set (accepted_authors inventory) \<longleftrightarrow> (\<exists>envelope. accepted inventory i = Inr (Some envelope)))"
proof -
  note c = inventory_codes [OF assms(1)]
  have code: "slot_code (barrier_slots B ! i) (cs ! i) (classifications inventory ! i)" using c(4) assms(2) .
  then show ?thesis
    using c assms(2) by (cases "barrier_slots B ! i")
      (auto simp: accepted_def get_def and_then_Inr_iff accepted_authors_def)
qed

theorem accepted_ballot_is_the_closed_one_witness:
  "accepted sample_inventory 2 = Inr (Some (body_envelope (inventory_body 2)))
    \<and> 2 \<in> set (accepted_authors sample_inventory)"
  using accepted_ballot_is_the_closed_one [OF sample_inventory_new, of 2 "body_envelope (inventory_body 2)"]
  by (auto simp: inventory_barrier_def inventory_verdicts_def)

text \<open>
  C21. A finished evaluation is its target message: when the engine ran exactly if the accepted
  ballots reach the minimum turnout, finishing yields a target whose body the finality parser
  accepts, naming the poll and the setup, the close proposal and the classifications, with a
  result exactly if the engine ran; and the copy the participant retains under its credential
  restores the same target.
\<close>

theorem evaluated_target_parses_and_restores:
  assumes "inventory_new B cs = Inr inventory" "permutation_ok E" "shake_ok E"
    and n: "participants (inputs_profile (barrier_setup B)) = length (barrier_slots B)"
      "participants_supported TABLE (length (barrier_slots B))"
    and lens: "length (poll_identity (barrier_poll B)) = 64" "length (inputs_identity (barrier_setup B)) = 64"
      "length (close_proposal_identity (barrier_proposal B)) = 64"
    and engine: "final \<noteq> None \<longleftrightarrow> evaluates inventory"
      "\<forall>cipher. final = Some cipher \<longrightarrow> length cipher + 4 \<le> maximum_item_byte_length default_limits"
  shows "\<exists>T m retained. running_finish E TABLE inventory final = Inr T
    \<and> target_parse E TABLE (vt_body T) (length (barrier_slots B)) = Inr m
    \<and> vt_identity T = target_identity m \<and> target_poll m = poll_identity (barrier_poll B)
    \<and> target_setup_identity m = inputs_identity (barrier_setup B)
    \<and> target_proposal m = close_proposal_identity (barrier_proposal B)
    \<and> target_classifications m = classifications inventory \<and> (has_result m \<longleftrightarrow> final \<noteq> None)
    \<and> retain_target E c T = Inr retained
    \<and> restore_evaluation_target E TABLE c (barrier_poll B) (barrier_setup B) retained
        = Inr (T\<lparr>vt_classified := None\<rparr>)"
proof -
  note c = inventory_codes [OF assms(1)]
  let ?n = "length (barrier_slots B)" and ?codes = "classifications inventory"
  let ?poll = "poll_identity (barrier_poll B)" and ?aggregate = "inputs_identity (barrier_setup B)"
  let ?proposal = "close_proposal_identity (barrier_proposal B)"
  define h where "h = map_option (\<lambda>cipher. shake256 E (identity_preimage CIPHERTEXT_IDENTITY_DOMAIN cipher)) final"
  have domain: "labelled CIPHERTEXT_IDENTITY_DOMAIN"
    by (simp add: CIPHERTEXT_IDENTITY_DOMAIN_def labelled_def ascii_bytes_def printable_ascii_def)
  have ident: "ciphertext_identity E cipher = Inr (shake256 E (identity_preimage CIPHERTEXT_IDENTITY_DOMAIN cipher))"
    if "final = Some cipher" for cipher
    using that engine(2) by (simp add: ciphertext_identity_def message_hash_value [OF domain])
  have "code \<le> 3" if "code \<in> set ?codes" for code
    using that c slot_code_range by (metis in_set_conv_nth)
  then have ok: "target_ok_fields ?n ?poll ?aggregate ?proposal ?codes h"
    using lens c(2) assms(3) engine(1)
    by (auto simp: target_ok_fields_def h_def shake_ok_def evaluates_def accepted_authors_count)
  have small: "?n \<le> 255" using n(2) by (rule supported_count)
  let ?body = "tuple_bytes (message_tuple (target_items ?poll ?aggregate ?proposal ?codes h))"
  let ?m = "target_of E ?n ?poll ?aggregate ?proposal ?codes h"
  have parse: "target_parse E TABLE ?body ?n = Inr ?m" by (rule target_parse_complete [OF ok n(2)])
  have size: "length ?body \<le> 599" using target_size [OF ok] small by linarith
  have items: "target_fields inventory = Inr (target_items ?poll ?aggregate ?proposal ?codes None)"
    using c(1,2) small nonempty_label [OF target_labels(1)] variable_bytes_small [of ?codes]
    by (simp add: target_fields_def inventory_poll_def inventory_setup_def target_items_def default_limits_def)
  define T where "T = \<lparr> vt_poll = barrier_poll B, vt_setup = barrier_setup B, vt_classified = Some inventory,
      vt_body = ?body, vt_identity = target_identity ?m, vt_ciphertext = final \<rparr>"
  have "target_finish E TABLE inventory (target_items ?poll ?aggregate ?proposal ?codes h) final = Inr T"
    using target_encode [OF ok small, of E] parse size c(1) n(1)
    by (simp add: target_finish_def body_target_identity_def inventory_poll_def inventory_setup_def
        MAXIMUM_TARGET_BODY_BYTES_def T_def)
  then have finish: "running_finish E TABLE inventory final = Inr T"
    using items ident by (cases final) (simp_all add: running_finish_def h_def target_items_def)
  have m: "target_identity ?m = shake256 E (identity_preimage TARGET_IDENTITY_DOMAIN ?body)"
    "target_poll ?m = ?poll" "target_setup_identity ?m = ?aggregate" "target_proposal ?m = ?proposal"
    "target_classifications ?m = ?codes" "target_ciphertext ?m = h"
    by (simp_all add: target_of_def Let_def)
  let ?tail = "case final of None \<Rightarrow> [] | Some cipher \<Rightarrow> cipher"
  let ?bs = "le_bytes 4 (length ?body) @ ?body @ ?tail"
  let ?tag = "retained_tag E c RETAINED_TARGET_LABEL (barrier_poll B) ?bs"
  have retain: "retain_target E c T = Inr (?bs @ ?tag)" by (simp add: retain_target_def T_def Let_def)
  have tag64: "length ?tag = 64" using retained_tag_length [OF assms(2)] .
  have "le_value (take 4 ?bs) = length ?body" using size by simp
  then have "restore_evaluation_target E TABLE c (barrier_poll B) (barrier_setup B) (?bs @ ?tag)
      = Inr (T\<lparr>vt_classified := None\<rparr>)"
    using parse m tag64 ident size n(1) check_retained_tag_iff [of E c RETAINED_TARGET_LABEL "barrier_poll B" ?bs ?tag]
    by (cases final) (simp_all add: restore_evaluation_target_def RETAINED_TAG_BYTES_def Let_def
        MAXIMUM_TARGET_BODY_BYTES_def T_def h_def)
  moreover have "has_result ?m \<longleftrightarrow> final \<noteq> None" unfolding has_result_def m(6) by (simp add: h_def)
  ultimately show ?thesis
    using finish parse retain m by (intro exI [of _ T] exI [of _ ?m] exI [of _ "?bs @ ?tag"]) (simp add: T_def)
qed

theorem evaluated_target_parses_and_restores_witness:
  "\<exists>T retained. running_finish sample_externals sample_TABLE sample_inventory (Some [1, 2, 3]) = Inr T
    \<and> retain_target sample_externals (from_seed sample_externals sample_seed) T = Inr retained
    \<and> restore_evaluation_target sample_externals sample_TABLE (from_seed sample_externals sample_seed)
        (barrier_poll inventory_barrier) (barrier_setup inventory_barrier) retained = Inr (T\<lparr>vt_classified := None\<rparr>)"
proof -
  have "length (barrier_slots inventory_barrier) = 5" by (simp add: inventory_barrier_def)
  then have "participants_supported sample_TABLE (length (barrier_slots inventory_barrier))"
    using supported_five by simp
  moreover have "participants (inputs_profile (barrier_setup inventory_barrier)) = length (barrier_slots inventory_barrier)"
    by (simp add: inventory_barrier_def bar_setup_def inputs_profile_def inputs_roster_def sample_profile_def)
  ultimately show ?thesis
    using evaluated_target_parses_and_restores [OF sample_inventory_new sample_permutation sample_shake_ok _ _ _ _ _,
        of sample_TABLE "Some [1, 2, 3]" "from_seed sample_externals sample_seed"]
      sample_inventory_evaluates bar_verifier_new(4,5)
    by (simp add: inventory_barrier_def default_limits_def) blast
qed

end
