(* ===== verification/Certification.thy ===== *)
theory Certification
  imports Evaluation_Target
begin

text \<open>
  Certification of a target (\<open>evaluation-target/src/certification.rs\<close>): the collector that takes the
  participants' votes for one evaluated target and the certificate that carries a quorum of them.
  A collector holds at most one vote for each roster position, and the reference it is compared
  with is the list of the votes that authenticate, in the order of arrival.
\<close>

section \<open>Votes\<close>

datatype vote_refusal = VoteShape | VoteContext | VoteSignature | VoteIncomplete

definition authenticate_vote ::
  "externals \<Rightarrow> bytes \<Rightarrow> bytes \<Rightarrow> bytes list \<Rightarrow> bytes \<Rightarrow> vote_refusal + target_vote" where
  "authenticate_vote E TABLE ident keys packet =
     and_then (map_err VoteShape (vote_parse TABLE packet)) (\<lambda>vote.
     if vote_target vote \<noteq> ident then Inl VoteContext
     else
     and_then (ok_or VoteContext (get keys (vote_position vote))) (\<lambda>public.
     if \<not> verify_context E public CERTIFICATION_CONTEXT ident (vote_signature vote)
     then Inl VoteSignature else Inr vote))"

section \<open>The collector\<close>

record certificate_collector =
  collector_target :: verified_evaluation_target
  collector_keys :: "bytes list"
  collector_votes :: "target_vote option list"

definition roster_keys :: "verified_setup_aggregate \<Rightarrow> bytes list" where
  "roster_keys setup = map member_key (roster_records (auth_proposal (inputs_roster setup)))"

definition collector_new :: "verified_evaluation_target \<Rightarrow> certificate_collector" where
  "collector_new T =
     (let keys = roster_keys (vt_setup T) in
      \<lparr>collector_target = T, collector_keys = keys, collector_votes = replicate (length keys) None\<rparr>)"

definition collector_threshold :: "certificate_collector \<Rightarrow> nat" where
  "collector_threshold K = inventory_threshold (length (collector_keys K))"

definition collector_accepted :: "certificate_collector \<Rightarrow> nat" where
  "collector_accepted K = length (filter (\<lambda>v. v \<noteq> None) (collector_votes K))"

definition collector_insert ::
  "externals \<Rightarrow> bytes \<Rightarrow> bytes \<Rightarrow> certificate_collector \<Rightarrow> certificate_collector \<times> (vote_refusal + bool)" where
  "collector_insert E TABLE packet K =
     (case authenticate_vote E TABLE (vt_identity (collector_target K)) (collector_keys K) packet of
        Inl r \<Rightarrow> (K, Inl r)
      | Inr vote \<Rightarrow>
          if collector_votes K ! vote_position vote \<noteq> None then (K, Inr False)
          else (K\<lparr>collector_votes := (collector_votes K)[vote_position vote := Some vote]\<rparr>, Inr True))"

record inventory_certificate =
  certificate_target :: verified_evaluation_target
  certificate_votes :: "target_vote list"

definition collector_certificate :: "certificate_collector \<Rightarrow> vote_refusal + inventory_certificate" where
  "collector_certificate K =
     (if collector_accepted K < collector_threshold K then Inl VoteIncomplete
      else Inr \<lparr> certificate_target = collector_target K,
                 certificate_votes = List.map_filter id (collector_votes K) \<rparr>)"

section \<open>Collecting packets\<close>

text \<open>The collector after packets in their order of arrival.\<close>

definition collect ::
  "externals \<Rightarrow> bytes \<Rightarrow> verified_evaluation_target \<Rightarrow> bytes list \<Rightarrow> certificate_collector" where
  "collect E TABLE T packets =
     fold (\<lambda>packet K. fst (collector_insert E TABLE packet K)) packets (collector_new T)"

text \<open>The votes of the packets that authenticate.\<close>

definition valid_votes ::
  "externals \<Rightarrow> bytes \<Rightarrow> verified_evaluation_target \<Rightarrow> bytes list \<Rightarrow> target_vote list" where
  "valid_votes E TABLE T packets =
     List.map_filter (\<lambda>packet. case authenticate_vote E TABLE (vt_identity T) (roster_keys (vt_setup T)) packet of
         Inl _ \<Rightarrow> None | Inr vote \<Rightarrow> Some vote) packets"

abbreviation cast_by :: "nat \<Rightarrow> target_vote \<Rightarrow> bool" where
  "cast_by i v \<equiv> vote_position v = i"

definition first_votes :: "nat \<Rightarrow> target_vote list \<Rightarrow> target_vote option list" where
  "first_votes n vs = map (\<lambda>i. find (cast_by i) vs) [0 ..< n]"

lemma authenticate_vote_Inr:
  assumes "authenticate_vote E TABLE ident keys packet = Inr v"
  shows "vote_position v < length keys" "vote_target v = ident"
    "verify_context E (keys ! vote_position v) CERTIFICATION_CONTEXT ident (vote_signature v)"
  using assms by (auto simp: authenticate_vote_def and_then_Inr_iff get_def split: if_splits)

lemma valid_votes_iff:
  "v \<in> set (valid_votes E TABLE T packets) \<longleftrightarrow>
     (\<exists>packet \<in> set packets. authenticate_vote E TABLE (vt_identity T) (roster_keys (vt_setup T)) packet = Inr v)"
  by (force simp: valid_votes_def map_filter_def split: sum.splits)

lemma valid_votes_append:
  "valid_votes E TABLE T (ps @ [p]) = valid_votes E TABLE T ps
     @ (case authenticate_vote E TABLE (vt_identity T) (roster_keys (vt_setup T)) p of
          Inl _ \<Rightarrow> [] | Inr v \<Rightarrow> [v])"
  by (simp add: valid_votes_def map_filter_def split: sum.split)

lemma find_append: "find P (xs @ ys) = (case find P xs of None \<Rightarrow> find P ys | Some x \<Rightarrow> Some x)"
  by (induction xs) auto

lemma first_votes_add:
  assumes "vote_position v < n"
  shows "first_votes n (vs @ [v]) =
    (if find (cast_by (vote_position v)) vs \<noteq> None then first_votes n vs
     else (first_votes n vs)[vote_position v := Some v])"
  using assms
  by (auto simp: first_votes_def find_append list_eq_iff_nth_eq nth_list_update split: option.splits)

lemma collect_votes:
  "collector_target (collect E TABLE T packets) = T
    \<and> collector_keys (collect E TABLE T packets) = roster_keys (vt_setup T)
    \<and> collector_votes (collect E TABLE T packets)
        = first_votes (length (roster_keys (vt_setup T))) (valid_votes E TABLE T packets)"
proof (induction packets rule: rev_induct)
  case Nil
  show ?case by (simp add: collect_def collector_new_def Let_def first_votes_def valid_votes_def map_filter_def map_replicate_const)
next
  case (snoc p ps)
  let ?K = "collect E TABLE T ps" and ?n = "length (roster_keys (vt_setup T))"
  have step: "collect E TABLE T (ps @ [p]) = fst (collector_insert E TABLE p ?K)" by (simp add: collect_def)
  show ?case
  proof (cases "authenticate_vote E TABLE (vt_identity T) (roster_keys (vt_setup T)) p")
    case (Inl r)
    then show ?thesis using snoc unfolding step valid_votes_append by (simp add: collector_insert_def)
  next
    case (Inr v)
    note v = authenticate_vote_Inr [OF Inr]
    have "collector_votes ?K ! vote_position v = find (cast_by (vote_position v)) (valid_votes E TABLE T ps)"
      using snoc v(1) by (simp add: first_votes_def)
    then show ?thesis
      using snoc Inr first_votes_add [OF v(1)] unfolding step valid_votes_append
      by (simp add: collector_insert_def)
  qed
qed

section \<open>Counting votes\<close>

lemma find_cast_by: "find (cast_by i) vs \<noteq> None \<longleftrightarrow> i \<in> vote_position ` set vs"
  by (auto simp: find_None_iff image_iff)

lemma find_cast_member: "find (cast_by i) vs = Some v \<Longrightarrow> v \<in> set vs \<and> vote_position v = i"
  by (auto simp: find_Some_iff)

lemma first_votes_count:
  assumes "\<forall>v \<in> set vs. vote_position v < n"
  shows "length (filter (\<lambda>v. v \<noteq> None) (first_votes n vs)) = card (vote_position ` set vs)"
proof -
  have "length (filter (\<lambda>v. v \<noteq> None) (first_votes n vs))
      = length (filter (\<lambda>i. i \<in> vote_position ` set vs) [0 ..< n])"
    by (simp add: first_votes_def filter_map comp_def find_cast_by del: not_None_eq)
  also have "\<dots> = card (set (filter (\<lambda>i. i \<in> vote_position ` set vs) [0 ..< n]))"
    by (rule distinct_card [symmetric]) simp
  also have "set (filter (\<lambda>i. i \<in> vote_position ` set vs) [0 ..< n]) = vote_position ` set vs"
    using assms by auto
  finally show ?thesis .
qed

lemma first_votes_positions:
  "map vote_position (List.map_filter id (first_votes n vs)) = filter (\<lambda>i. i \<in> vote_position ` set vs) [0 ..< n]"
proof -
  have "vote_position (the (find (cast_by i) vs)) = i" if "find (cast_by i) vs \<noteq> None" for i
    using that by (auto dest: find_cast_member)
  then have "map (\<lambda>i. vote_position (the (find (cast_by i) vs))) (filter (\<lambda>i. find (cast_by i) vs \<noteq> None) [0 ..< n])
      = filter (\<lambda>i. find (cast_by i) vs \<noteq> None) [0 ..< n]"
    by (intro map_idI) auto
  then show ?thesis
    by (simp add: first_votes_def map_filter_def filter_map comp_def find_cast_by del: not_None_eq)
qed

lemma first_votes_members: "v \<in> set (List.map_filter id (first_votes n vs)) \<Longrightarrow> v \<in> set vs"
  by (auto simp: first_votes_def map_filter_def dest: find_cast_member)

lemma first_votes_covers:
  assumes "v \<in> set vs" "vote_position v < n"
  shows "\<exists>w \<in> set (List.map_filter id (first_votes n vs)). vote_position w = vote_position v"
proof -
  have "vote_position v \<in> set (map vote_position (List.map_filter id (first_votes n vs)))"
    unfolding first_votes_positions using assms by auto
  then show ?thesis by auto
qed

text \<open>What a certificate is: a quorum of positions, each with a vote that verifies.\<close>

lemma certificate_quorum:
  assumes "collector_certificate (collect E TABLE T packets) = Inr C"
  defines "keys \<equiv> roster_keys (vt_setup T)"
  shows "certificate_target C = T" "sorted_wrt (<) (map vote_position (certificate_votes C))"
    "inventory_threshold (length keys) \<le> card (vote_position ` set (certificate_votes C))"
    "\<And>v. v \<in> set (certificate_votes C) \<Longrightarrow> vote_position v < length keys \<and> vote_target v = vt_identity T
      \<and> verify_context E (keys ! vote_position v) CERTIFICATION_CONTEXT (vt_identity T) (vote_signature v)"
proof -
  let ?vs = "valid_votes E TABLE T packets" and ?n = "length keys"
  note K = collect_votes [of E TABLE T packets, folded keys_def]
  have C: "C = \<lparr>certificate_target = T, certificate_votes = List.map_filter id (first_votes ?n ?vs)\<rparr>"
    and enough: "inventory_threshold ?n \<le> collector_accepted (collect E TABLE T packets)"
    using assms(1) K by (auto simp: collector_certificate_def collector_threshold_def split: if_splits)
  have valid: "vote_position v < ?n \<and> vote_target v = vt_identity T
      \<and> verify_context E (keys ! vote_position v) CERTIFICATION_CONTEXT (vt_identity T) (vote_signature v)"
    if "v \<in> set ?vs" for v
    using that authenticate_vote_Inr unfolding valid_votes_iff keys_def by blast
  show "certificate_target C = T" by (simp add: C)
  show sorted: "sorted_wrt (<) (map vote_position (certificate_votes C))"
    by (simp add: C first_votes_positions sorted_wrt_filter)
  have "set (map vote_position (certificate_votes C)) = vote_position ` set ?vs"
    unfolding C inventory_certificate.simps first_votes_positions using valid by auto
  then show "inventory_threshold ?n \<le> card (vote_position ` set (certificate_votes C))"
    using enough first_votes_count [of ?vs ?n] valid K by (simp add: collector_accepted_def)
  show "vote_position v < ?n \<and> vote_target v = vt_identity T
      \<and> verify_context E (keys ! vote_position v) CERTIFICATION_CONTEXT (vt_identity T) (vote_signature v)"
    if "v \<in> set (certificate_votes C)" for v
    using that valid first_votes_members by (auto simp: C)
qed

lemma certificate_iff:
  "(\<exists>C. collector_certificate (collect E TABLE T packets) = Inr C) \<longleftrightarrow>
     inventory_threshold (length (roster_keys (vt_setup T)))
       \<le> card (vote_position ` set (valid_votes E TABLE T packets))"
proof -
  have "\<forall>v \<in> set (valid_votes E TABLE T packets). vote_position v < length (roster_keys (vt_setup T))"
    by (auto simp: valid_votes_iff dest: authenticate_vote_Inr(1))
  then show ?thesis
    using collect_votes [of E TABLE T packets] first_votes_count
    by (simp add: collector_certificate_def collector_threshold_def collector_accepted_def not_less)
qed

section \<open>Properties\<close>

text \<open>
  C19. Whatever packets arrive, in whatever order and however often, the collector holds for each
  roster position the first vote of that position that authenticates; it yields a certificate
  exactly if the positions that voted reach the inventory threshold, and the certificate carries
  one vote of each of them, in ascending order, for this target and under the member's own key.
\<close>

theorem certificate_is_a_quorum_of_first_votes:
  "let K = collect E TABLE T packets; keys = roster_keys (vt_setup T); vs = valid_votes E TABLE T packets;
       positions = vote_position ` set vs in
   collector_votes K = first_votes (length keys) vs
   \<and> (case collector_certificate K of
        Inl r \<Rightarrow> r = VoteIncomplete \<and> card positions < inventory_threshold (length keys)
      | Inr C \<Rightarrow> inventory_threshold (length keys) \<le> card positions \<and> certificate_target C = T
          \<and> certificate_votes C = List.map_filter id (first_votes (length keys) vs)
          \<and> map vote_position (certificate_votes C) = sorted_list_of_set positions
          \<and> list_all (\<lambda>v. vote_target v = vt_identity T
               \<and> verify_context E (keys ! vote_position v) CERTIFICATION_CONTEXT (vt_identity T) (vote_signature v))
               (certificate_votes C))"
proof -
  let ?K = "collect E TABLE T packets" and ?n = "length (roster_keys (vt_setup T))"
  let ?vs = "valid_votes E TABLE T packets"
  note K = collect_votes [of E TABLE T packets]
  have less: "\<forall>v \<in> set ?vs. vote_position v < ?n" by (auto simp: valid_votes_iff dest: authenticate_vote_Inr(1))
  have count: "collector_accepted ?K = card (vote_position ` set ?vs)"
    using K first_votes_count [OF less] by (simp add: collector_accepted_def)
  have positions: "filter (\<lambda>i. i \<in> vote_position ` set ?vs) [0 ..< ?n] = sorted_list_of_set (vote_position ` set ?vs)"
    using less by (intro sorted_distinct_set_unique) (auto simp: sorted_wrt_filter)
  show ?thesis
  proof (cases "collector_certificate ?K")
    case (Inl r)
    then show ?thesis
      using K count by (auto simp: Let_def collector_certificate_def collector_threshold_def split: if_splits)
  next
    case (Inr C)
    note q = certificate_quorum [OF Inr]
    have C: "certificate_votes C = List.map_filter id (first_votes ?n ?vs)"
      using Inr K by (auto simp: collector_certificate_def split: if_splits)
    moreover have "inventory_threshold ?n \<le> card (vote_position ` set ?vs)" using Inr certificate_iff by blast
    moreover have "map vote_position (certificate_votes C) = sorted_list_of_set (vote_position ` set ?vs)"
      unfolding C first_votes_positions by (rule positions)
    ultimately show ?thesis using Inr K q by (simp add: Let_def list_all_iff)
  qed
qed

end
