(* ===== verification/Close_Session.thy ===== *)
theory Close_Session
  imports Close_Barrier
begin

text \<open>
  The close session (\<open>evaluation-target/src/close-session.rs\<close>): the commands by which a host drives
  the public verification of a close, one after another over an input buffer it fills, until a
  proposal yields the barrier.  A refused command is a step too; the state it leaves is the state
  the source leaves.
\<close>

section \<open>The session\<close>

definition CLOSE_INPUT_BYTES :: nat where "CLOSE_INPUT_BYTES = 2 ^ 20"

datatype barrier_operation =
  BeginClose | IntentMessage | EnvelopeMessage | BeginBody | PushBody | FinishBody
| ResponseMessage | RequiredBodies | ProposalMessage | DiscardBody

definition from_code :: "nat \<Rightarrow> barrier_operation option" where
  "from_code code =
     (if code = 0 then None
      else get [BeginClose, IntentMessage, EnvelopeMessage, BeginBody, PushBody, FinishBody,
                ResponseMessage, RequiredBodies, ProposalMessage, DiscardBody] (code - 1))"

datatype session_refusal = SessionRefusal

record close_session =
  session_input :: bytes
  session_verifier :: "close_verifier option"
  session_intent :: "authenticated_close_intent option"
  session_envelopes :: "authenticated_ballot_envelope list"
  session_pending :: "ballot_body_authentication option"
  session_bodies :: "authenticated_ballot_body list"
  session_responses :: "authenticated_close_response list"
  session_missing :: bytes
  session_barrier :: "verified_close_barrier option"

definition with_input :: "bytes \<Rightarrow> close_session" where
  "with_input buffer =
     \<lparr> session_input = buffer, session_verifier = None, session_intent = None,
       session_envelopes = [], session_pending = None, session_bodies = [],
       session_responses = [], session_missing = [], session_barrier = None \<rparr>"

definition session_new :: close_session where
  "session_new = with_input (replicate CLOSE_INPUT_BYTES 0)"

type_synonym session_step = "close_session \<times> (session_refusal + unit)"

text \<open>\<open>?\<close> on a refusable step: the refusal returns with the state as it is.\<close>

definition require :: "close_session \<Rightarrow> 'e + 'a \<Rightarrow> ('a \<Rightarrow> session_step) \<Rightarrow> session_step" where
  "require S r f = (case r of Inl _ \<Rightarrow> (S, Inl SessionRefusal) | Inr v \<Rightarrow> f v)"

definition refuse :: "close_session \<Rightarrow> session_step" where
  "refuse S = (S, Inl SessionRefusal)"

definition accept :: "close_session \<Rightarrow> session_step" where
  "accept S = (S, Inr ())"

definition packet :: "bytes \<Rightarrow> nat \<Rightarrow> session_refusal + bytes \<times> bytes" where
  "packet bs maximum = ok_or SessionRefusal (packet_split bs maximum)"

section \<open>Commands\<close>

definition session_begin ::
  "bytes \<Rightarrow> (verified_poll \<times> verified_setup_aggregate) option \<Rightarrow> nat \<Rightarrow> close_session \<Rightarrow> session_step" where
  "session_begin TABLE setup len S =
     (if len \<noteq> 0 then refuse S
      else require S (ok_or SessionRefusal setup) (\<lambda>(poll, setup).
        require S (verifier_new TABLE poll setup) (\<lambda>V.
        accept ((with_input (session_input S))\<lparr>session_verifier := Some V\<rparr>))))"

definition session_intent_message ::
  "externals \<Rightarrow> close_verifier \<Rightarrow> bytes \<Rightarrow> close_session \<Rightarrow> session_step" where
  "session_intent_message E V bs S =
     (if session_intent S \<noteq> None then refuse S
      else require S (packet bs (maximum_close_message_bytes CloseIntent (participant_count V)))
        (\<lambda>(body, signature).
        require S (authenticate_intent E V body signature) (\<lambda>m.
        accept (S\<lparr>session_intent := Some m\<rparr>))))"

definition holds_envelope :: "externals \<Rightarrow> close_session \<Rightarrow> bytes \<Rightarrow> bool" where
  "holds_envelope E S ident \<longleftrightarrow> (\<exists>a \<in> set (session_envelopes S). envelope_identity E (ab_envelope a) = ident)"

definition holds_body :: "externals \<Rightarrow> close_session \<Rightarrow> bytes \<Rightarrow> bool" where
  "holds_body E S ident \<longleftrightarrow> (\<exists>b \<in> set (session_bodies S). envelope_identity E (body_envelope b) = ident)"

definition session_envelope ::
  "externals \<Rightarrow> bytes \<Rightarrow> close_verifier \<Rightarrow> bytes \<Rightarrow> close_session \<Rightarrow> session_step" where
  "session_envelope E TABLE V bs S =
     (let count = participant_count V in
      if length (session_envelopes S) \<ge> MAXIMUM_LISTED_ENVELOPES_PER_SLOT * count * count
         \<or> length bs \<noteq> ENVELOPE_BYTES + SIGNATURE_BYTES
      then refuse S
      else require S (authenticate_envelope E TABLE (cv_setup V) (take ENVELOPE_BYTES bs) (drop ENVELOPE_BYTES bs))
        (\<lambda>a. if holds_envelope E S (envelope_identity E (ab_envelope a)) then accept S
             else accept (S\<lparr>session_envelopes := session_envelopes S @ [a]\<rparr>)))"

definition session_begin_body ::
  "externals \<Rightarrow> bytes \<Rightarrow> close_verifier \<Rightarrow> bytes \<Rightarrow> close_session \<Rightarrow> session_step" where
  "session_begin_body E TABLE V bs S =
     (if session_pending S \<noteq> None \<or> length (session_bodies S) \<ge> participant_count V then refuse S
      else require S (ok_or SessionRefusal
          (List.find (\<lambda>a. envelope_identity E (ab_envelope a) = bs) (session_envelopes S))) (\<lambda>a.
        require S (body_authentication_new E TABLE a) (\<lambda>open_body.
        accept (S\<lparr>session_pending := Some open_body\<rparr>))))"

definition session_push_body :: "externals \<Rightarrow> bytes \<Rightarrow> close_session \<Rightarrow> session_step" where
  "session_push_body E bs S =
     (case session_pending S of
        None \<Rightarrow> refuse S
      | Some open_body \<Rightarrow>
          case body_authentication_push E bs open_body of
            (open_body', Inl _) \<Rightarrow> refuse (S\<lparr>session_pending := None\<rparr>)
          | (open_body', Inr _) \<Rightarrow> accept (S\<lparr>session_pending := Some open_body'\<rparr>))"

definition session_finish_body :: "externals \<Rightarrow> bytes \<Rightarrow> close_session \<Rightarrow> session_step" where
  "session_finish_body E bs S =
     (if bs \<noteq> [] then refuse S
      else case session_pending S of
        None \<Rightarrow> refuse S
      | Some open_body \<Rightarrow>
          let S1 = S\<lparr>session_pending := None\<rparr> in
          require S1 (body_authentication_finish E open_body) (\<lambda>b.
            if holds_body E S1 (envelope_identity E (body_envelope b)) then accept S1
            else accept (S1\<lparr>session_bodies := session_bodies S1 @ [b]\<rparr>)))"

definition session_response ::
  "externals \<Rightarrow> bytes \<Rightarrow> close_verifier \<Rightarrow> bytes \<Rightarrow> close_session \<Rightarrow> session_step" where
  "session_response E TABLE V bs S =
     (if length (session_responses S) \<ge> participant_count V then refuse S
      else require S (packet bs (maximum_close_message_bytes CloseResponse (participant_count V)))
        (\<lambda>(body, signature).
        require S (ok_or SessionRefusal (session_intent S)) (\<lambda>intent.
        require S (authenticate_response E TABLE V intent body signature (session_envelopes S)) (\<lambda>m.
        if response_responder m \<in> response_responder ` set (session_responses S) then refuse S
        else accept (S\<lparr>session_responses := session_responses S @ [m]\<rparr>)))))"

definition session_required_bodies ::
  "externals \<Rightarrow> bytes \<Rightarrow> close_verifier \<Rightarrow> bytes \<Rightarrow> close_session \<Rightarrow> session_step" where
  "session_required_bodies E TABLE V bs S =
     require S (packet bs (maximum_close_message_bytes CloseProposal (participant_count V)))
       (\<lambda>(body, signature).
       require S (close_proposal_parse E TABLE body (participant_count V) (organizer V)) (\<lambda>proposal.
       require S (ok_or SessionRefusal (session_intent S)) (\<lambda>intent.
       require S (required_bodies V intent proposal (session_responses S)) (\<lambda>required.
       accept (S\<lparr>session_missing :=
         concat (map snd (filter (\<lambda>(author, ident). \<not> holds_body E S ident) required))\<rparr>)))))"

definition session_proposal ::
  "externals \<Rightarrow> bytes \<Rightarrow> close_verifier \<Rightarrow> bytes \<Rightarrow> close_session \<Rightarrow> session_step" where
  "session_proposal E TABLE V bs S =
     require S (packet bs (maximum_close_message_bytes CloseProposal (participant_count V)))
       (\<lambda>(body, signature).
       require S (ok_or SessionRefusal (session_intent S)) (\<lambda>intent.
       require S (verify_proposal E TABLE V intent body signature (session_responses S) (session_bodies S))
         (\<lambda>B. accept (S\<lparr>session_barrier := Some B\<rparr>))))"

definition session_discard_body :: "bytes \<Rightarrow> close_session \<Rightarrow> session_step" where
  "session_discard_body bs S =
     (if bs \<noteq> [] then refuse S else accept (S\<lparr>session_pending := None\<rparr>))"

fun session_dispatch ::
  "externals \<Rightarrow> bytes \<Rightarrow> close_verifier \<Rightarrow> barrier_operation \<Rightarrow> bytes \<Rightarrow> close_session \<Rightarrow> session_step" where
  "session_dispatch E TABLE V BeginClose bs S = refuse S"
| "session_dispatch E TABLE V IntentMessage bs S = session_intent_message E V bs S"
| "session_dispatch E TABLE V EnvelopeMessage bs S = session_envelope E TABLE V bs S"
| "session_dispatch E TABLE V BeginBody bs S = session_begin_body E TABLE V bs S"
| "session_dispatch E TABLE V PushBody bs S = session_push_body E bs S"
| "session_dispatch E TABLE V FinishBody bs S = session_finish_body E bs S"
| "session_dispatch E TABLE V ResponseMessage bs S = session_response E TABLE V bs S"
| "session_dispatch E TABLE V RequiredBodies bs S = session_required_bodies E TABLE V bs S"
| "session_dispatch E TABLE V ProposalMessage bs S = session_proposal E TABLE V bs S"
| "session_dispatch E TABLE V DiscardBody bs S = session_discard_body bs S"

definition session_command ::
  "externals \<Rightarrow> bytes \<Rightarrow> (verified_poll \<times> verified_setup_aggregate) option \<Rightarrow> nat \<Rightarrow> nat
     \<Rightarrow> close_session \<Rightarrow> session_step" where
  "session_command E TABLE setup operation len S =
     require S (ok_or SessionRefusal (from_code operation)) (\<lambda>op.
     if op = BeginClose then session_begin TABLE setup len S
     else if session_barrier S \<noteq> None then refuse S
     else require S (ok_or SessionRefusal (session_verifier S)) (\<lambda>V.
       if len > length (session_input S) then refuse S
       else session_dispatch E TABLE V op (take len (session_input S)) S))"

definition take_barrier :: "close_session \<Rightarrow> close_session \<times> verified_close_barrier option" where
  "take_barrier S = (S\<lparr>session_barrier := None\<rparr>, session_barrier S)"

section \<open>What a host can reach\<close>

text \<open>The host writes its buffer, which keeps its length, gives commands and takes the barrier.\<close>

inductive session_reachable :: "externals \<Rightarrow> bytes \<Rightarrow> close_session \<Rightarrow> bool" for E TABLE where
  reach_new: "session_reachable E TABLE session_new"
| reach_write: "session_reachable E TABLE S \<Longrightarrow> length buffer = length (session_input S)
    \<Longrightarrow> session_reachable E TABLE (S\<lparr>session_input := buffer\<rparr>)"
| reach_command: "session_reachable E TABLE S
    \<Longrightarrow> session_reachable E TABLE (fst (session_command E TABLE setup operation len S))"
| reach_take: "session_reachable E TABLE S \<Longrightarrow> session_reachable E TABLE (fst (take_barrier S))"

section \<open>The invariant\<close>

definition authentic_envelope ::
  "externals \<Rightarrow> bytes \<Rightarrow> close_verifier \<Rightarrow> authenticated_ballot_envelope \<Rightarrow> bool" where
  "authentic_envelope E TABLE V a \<longleftrightarrow>
     (\<exists>bs signature. authenticate_envelope E TABLE (cv_setup V) bs signature = Inr a)"

text \<open>A hasher that has taken the given parts of the body of an envelope.\<close>

definition streamed ::
  "externals \<Rightarrow> bytes \<Rightarrow> authenticated_ballot_envelope \<Rightarrow> bytes list \<Rightarrow> body_hasher \<Rightarrow> bool" where
  "streamed E TABLE a parts h \<longleftrightarrow>
     (\<exists>h0. ballot_body_hasher E TABLE (ab_profile a) (envelope_body_length (ab_envelope a)) = Inr h0
        \<and> h = body_pushes E parts h0)"

definition streamed_body :: "externals \<Rightarrow> bytes \<Rightarrow> authenticated_ballot_body \<Rightarrow> bool" where
  "streamed_body E TABLE b \<longleftrightarrow>
     (\<exists>parts h. streamed E TABLE (body_authentication b) parts h
        \<and> body_finish E h = Inr (envelope_body_identity (body_envelope b)))"

definition supported_entry ::
  "externals \<Rightarrow> u64 \<Rightarrow> authenticated_ballot_envelope list \<Rightarrow> nat \<times> bytes \<Rightarrow> bool" where
  "supported_entry E close_time available entry \<longleftrightarrow>
     (\<exists>a \<in> set available. envelope_identity E (ab_envelope a) = snd entry
        \<and> envelope_position (ab_envelope a) = fst entry \<and> envelope_ballot_time (ab_envelope a) \<le> close_time)"

definition supported_response ::
  "externals \<Rightarrow> bytes \<Rightarrow> close_verifier \<Rightarrow> authenticated_close_intent \<Rightarrow> authenticated_ballot_envelope list
     \<Rightarrow> authenticated_close_response \<Rightarrow> bool" where
  "supported_response E TABLE V intent available m \<longleftrightarrow>
     (\<exists>body. response_parse E TABLE body (participant_count V) = Inr m)
     \<and> response_intent m = intent_identity intent
     \<and> (\<exists>key signature. verifier_key V (response_responder m) = Inr key
          \<and> verify_close_signature E key CloseResponse (response_identity m) signature)
     \<and> (\<forall>entry \<in> set (response_listed m). supported_entry E (intent_close_time intent) available entry)"

definition ballots_ok :: "externals \<Rightarrow> bytes \<Rightarrow> close_verifier \<Rightarrow> close_session \<Rightarrow> bool" where
  "ballots_ok E TABLE V S \<longleftrightarrow>
     (\<forall>a \<in> set (session_envelopes S). authentic_envelope E TABLE V a)
     \<and> distinct (map (\<lambda>a. envelope_identity E (ab_envelope a)) (session_envelopes S))
     \<and> length (session_envelopes S) \<le> MAXIMUM_LISTED_ENVELOPES_PER_SLOT * participant_count V * participant_count V
     \<and> (\<forall>p. session_pending S = Some p \<longrightarrow>
          bba_authentication p \<in> set (session_envelopes S) \<and> length (session_bodies S) < participant_count V
          \<and> (\<exists>parts. streamed E TABLE (bba_authentication p) parts (bba_hash p)))
     \<and> (\<forall>b \<in> set (session_bodies S).
          body_authentication b \<in> set (session_envelopes S) \<and> streamed_body E TABLE b)
     \<and> distinct (map (\<lambda>b. envelope_identity E (body_envelope b)) (session_bodies S))
     \<and> length (session_bodies S) \<le> participant_count V"

definition messages_ok :: "externals \<Rightarrow> bytes \<Rightarrow> close_verifier \<Rightarrow> close_session \<Rightarrow> bool" where
  "messages_ok E TABLE V S \<longleftrightarrow>
     (\<forall>m. session_intent S = Some m \<longrightarrow> (\<exists>body signature. authenticate_intent E V body signature = Inr m))
     \<and> (\<forall>m \<in> set (session_responses S). \<exists>intent. session_intent S = Some intent
          \<and> supported_response E TABLE V intent (session_envelopes S) m)
     \<and> distinct (map response_responder (session_responses S))
     \<and> length (session_responses S) \<le> participant_count V"

definition barrier_ok :: "externals \<Rightarrow> bytes \<Rightarrow> close_verifier \<Rightarrow> close_session \<Rightarrow> bool" where
  "barrier_ok E TABLE V S \<longleftrightarrow>
     (\<forall>B. session_barrier S = Some B \<longrightarrow> (\<exists>intent body signature. session_intent S = Some intent
        \<and> verify_proposal E TABLE V intent body signature (session_responses S) (session_bodies S) = Inr B))"

definition session_ok :: "externals \<Rightarrow> bytes \<Rightarrow> close_session \<Rightarrow> bool" where
  "session_ok E TABLE S \<longleftrightarrow>
     (case session_verifier S of
        None \<Rightarrow> S = with_input (session_input S)
      | Some V \<Rightarrow> (\<exists>poll setup. verifier_new TABLE poll setup = Inr V)
          \<and> ballots_ok E TABLE V S \<and> messages_ok E TABLE V S \<and> barrier_ok E TABLE V S)"

lemma fst_require: "fst (require S r f) = (case r of Inl _ \<Rightarrow> S | Inr v \<Rightarrow> fst (f v))"
  by (simp add: require_def split: sum.split)

lemma fst_refuse [simp]: "fst (refuse S) = S"
  by (simp add: refuse_def)

lemma fst_accept [simp]: "fst (accept S) = S"
  by (simp add: accept_def)

lemma body_pushes_append: "body_pushes E (parts @ [part]) h = fst (body_push E part (body_pushes E parts h))"
  by (induction parts arbitrary: h) simp_all

lemma check_listed_sound:
  assumes "check_listed E close_time available entries = Inr u" "entry \<in> set entries"
  shows "supported_entry E close_time available entry"
  using assms
proof (induction entries)
  case (Cons e entries)
  obtain author ident where e: "e = (author, ident)" by (cases e)
  from Cons.prems(1) obtain a where a: "List.find (\<lambda>a. envelope_identity E (ab_envelope a) = ident) available = Some a"
    "envelope_position (ab_envelope a) = author" "envelope_ballot_time (ab_envelope a) \<le> close_time"
    "check_listed E close_time available entries = Inr u"
    by (auto simp: e and_then_Inr_iff not_less split: if_splits)
  show ?case
  proof (cases "entry = e")
    case True
    then show ?thesis using find_Some [OF a(1)] a(2,3) by (auto simp: supported_entry_def e)
  next
    case False
    then show ?thesis using Cons.IH [OF a(4)] Cons.prems(2) by simp
  qed
qed simp

lemma authenticate_response_supported:
  assumes "authenticate_response E TABLE V intent body signature available = Inr m"
  shows "supported_response E TABLE V intent available m"
  using assms check_listed_sound
  by (auto simp: authenticate_response_def supported_response_def and_then_Inr_iff split: if_splits)

lemma supported_response_grows:
  "supported_response E TABLE V intent available m \<Longrightarrow> supported_response E TABLE V intent (available @ extra) m"
  by (fastforce simp: supported_response_def supported_entry_def)

section \<open>Every command keeps the invariant\<close>

lemma ballots_kept:
  assumes "ballots_ok E TABLE V S"
  shows "ballots_ok E TABLE V (fst (session_envelope E TABLE V bs S))"
    "ballots_ok E TABLE V (fst (session_begin_body E TABLE V bs S))"
    "ballots_ok E TABLE V (fst (session_push_body E bs S))"
    "ballots_ok E TABLE V (fst (session_discard_body bs S))"
proof -
  show "ballots_ok E TABLE V (fst (session_envelope E TABLE V bs S))"
    using assms unfolding session_envelope_def Let_def
    by (auto simp: fst_require ballots_ok_def holds_envelope_def authentic_envelope_def split: sum.split)
  show "ballots_ok E TABLE V (fst (session_begin_body E TABLE V bs S))"
  proof -
    have "ballots_ok E TABLE V (S\<lparr>session_pending := Some h\<rparr>)"
      if a: "List.find (\<lambda>a. envelope_identity E (ab_envelope a) = bs) (session_envelopes S) = Some a"
        and h: "body_authentication_new E TABLE a = Inr h" and room: "length (session_bodies S) < participant_count V"
      for a h
    proof -
      have "streamed E TABLE a [] (bba_hash h)" "bba_authentication h = a"
        using h by (auto simp: body_authentication_new_def streamed_def split: sum.splits)
      then show ?thesis using assms room find_Some [OF a] by (auto simp: ballots_ok_def)
    qed
    then show ?thesis
      using assms by (auto simp: session_begin_body_def fst_require not_le split: sum.split)
  qed
  show "ballots_ok E TABLE V (fst (session_discard_body bs S))"
    using assms by (simp add: session_discard_body_def ballots_ok_def)
  show "ballots_ok E TABLE V (fst (session_push_body E bs S))"
  proof (cases "session_pending S")
    case None
    then show ?thesis using assms by (simp add: session_push_body_def)
  next
    case (Some p)
    obtain q r where q: "body_authentication_push E bs p = (q, r)" by (cases "body_authentication_push E bs p")
    have "\<exists>parts. streamed E TABLE (bba_authentication q) parts (bba_hash q)" "bba_authentication q = bba_authentication p"
    proof -
      show "bba_authentication q = bba_authentication p"
        using q by (auto simp: body_authentication_push_def split: prod.splits sum.splits)
      moreover have "bba_hash q = fst (body_push E bs (bba_hash p))"
        using q by (auto simp: body_authentication_push_def split: prod.splits sum.splits)
      moreover obtain parts where "streamed E TABLE (bba_authentication p) parts (bba_hash p)"
        using assms Some by (auto simp: ballots_ok_def)
      ultimately show "\<exists>parts. streamed E TABLE (bba_authentication q) parts (bba_hash q)"
        by (auto simp: streamed_def body_pushes_append intro!: exI [of _ "parts @ [bs]"])
    qed
    then show ?thesis
      using assms Some q by (cases r) (auto simp: session_push_body_def ballots_ok_def)
  qed
qed

lemma finish_body_kept:
  assumes "ballots_ok E TABLE V S"
  shows "ballots_ok E TABLE V (fst (session_finish_body E bs S))"
proof (cases "session_pending S")
  case None
  then show ?thesis using assms by (simp add: session_finish_body_def)
next
  case (Some p)
  let ?S = "S\<lparr>session_pending := None\<rparr>"
  have S: "ballots_ok E TABLE V ?S" using assms by (simp add: ballots_ok_def)
  have "ballots_ok E TABLE V (?S\<lparr>session_bodies := session_bodies S @ [b]\<rparr>)"
    if b: "body_authentication_finish E p = Inr b" and new: "\<not> holds_body E S (envelope_identity E (body_envelope b))" for b
  proof -
    have "body_authentication b = bba_authentication p"
      "body_finish E (bba_hash p) = Inr (envelope_body_identity (body_envelope b))"
      using b by (auto simp: body_authentication_finish_def split: sum.splits if_splits)
    then show ?thesis using assms Some new by (fastforce simp: ballots_ok_def streamed_body_def holds_body_def)
  qed
  moreover have "holds_body E ?S ident = holds_body E S ident" for ident by (simp add: holds_body_def)
  ultimately show ?thesis using assms S Some by (simp add: session_finish_body_def fst_require Let_def split: sum.split)
qed

lemma untouched:
  "ballots_ok E TABLE V (S\<lparr>session_intent := m\<rparr>) = ballots_ok E TABLE V S"
  "ballots_ok E TABLE V (S\<lparr>session_responses := ms\<rparr>) = ballots_ok E TABLE V S"
  "ballots_ok E TABLE V (S\<lparr>session_missing := bs\<rparr>) = ballots_ok E TABLE V S"
  "ballots_ok E TABLE V (S\<lparr>session_barrier := B\<rparr>) = ballots_ok E TABLE V S"
  "ballots_ok E TABLE V (S\<lparr>session_input := bs\<rparr>) = ballots_ok E TABLE V S"
  "messages_ok E TABLE V (S\<lparr>session_pending := p\<rparr>) = messages_ok E TABLE V S"
  "messages_ok E TABLE V (S\<lparr>session_bodies := bodies\<rparr>) = messages_ok E TABLE V S"
  "messages_ok E TABLE V (S\<lparr>session_missing := bs\<rparr>) = messages_ok E TABLE V S"
  "messages_ok E TABLE V (S\<lparr>session_barrier := B\<rparr>) = messages_ok E TABLE V S"
  "messages_ok E TABLE V (S\<lparr>session_input := bs\<rparr>) = messages_ok E TABLE V S"
  "barrier_ok E TABLE V (S\<lparr>session_input := bs\<rparr>) = barrier_ok E TABLE V S"
  by (simp_all add: ballots_ok_def messages_ok_def barrier_ok_def)

lemma dispatch_ballots:
  assumes "ballots_ok E TABLE V S"
  shows "ballots_ok E TABLE V (fst (session_dispatch E TABLE V op bs S))"
  using ballots_kept [OF assms] finish_body_kept [OF assms] assms
  by (cases op) (simp_all add: session_intent_message_def session_response_def session_required_bodies_def
      session_proposal_def fst_require untouched split: sum.split prod.split)

lemma dispatch_messages:
  assumes "messages_ok E TABLE V S"
  shows "messages_ok E TABLE V (fst (session_dispatch E TABLE V op bs S))"
proof (cases op)
  case IntentMessage
  have "messages_ok E TABLE V (S\<lparr>session_intent := Some m\<rparr>)"
    if "session_intent S = None" "authenticate_intent E V body signature = Inr m" for m body signature
    using assms that by (auto simp: messages_ok_def)
  then show ?thesis
    using assms IntentMessage by (auto simp: session_intent_message_def fst_require split: sum.split prod.split)
next
  case EnvelopeMessage
  have "messages_ok E TABLE V (S\<lparr>session_envelopes := session_envelopes S @ [a]\<rparr>)" for a
    using assms supported_response_grows by (fastforce simp: messages_ok_def)
  then show ?thesis
    using assms EnvelopeMessage by (simp add: session_envelope_def fst_require Let_def split: sum.split)
next
  case ResponseMessage
  have "messages_ok E TABLE V (S\<lparr>session_responses := session_responses S @ [m]\<rparr>)"
    if "session_intent S = Some intent" "length (session_responses S) < participant_count V"
      "authenticate_response E TABLE V intent body signature (session_envelopes S) = Inr m"
      "response_responder m \<notin> response_responder ` set (session_responses S)" for m intent body signature
    using assms that authenticate_response_supported [OF that(3)] by (auto simp: messages_ok_def)
  then show ?thesis
    using assms ResponseMessage
    by (auto simp: session_response_def fst_require not_le split: sum.split prod.split)
qed (use assms in \<open>simp_all add: session_begin_body_def session_push_body_def session_finish_body_def
  session_required_bodies_def session_proposal_def session_discard_body_def fst_require untouched Let_def
  split: sum.split prod.split option.split\<close>)

text \<open>Only a proposal makes a barrier, and no other command runs while there is one.\<close>

lemma dispatch_barrier:
  assumes "session_barrier S = None"
  shows "barrier_ok E TABLE V (fst (session_dispatch E TABLE V op bs S))"
proof (cases op)
  case ProposalMessage
  then show ?thesis
    using assms by (auto simp: session_proposal_def fst_require barrier_ok_def split: sum.split prod.split)
qed (use assms in \<open>simp_all add: session_intent_message_def session_envelope_def session_response_def session_begin_body_def
  session_push_body_def session_finish_body_def session_required_bodies_def session_discard_body_def
  fst_require barrier_ok_def Let_def split: sum.split prod.split option.split\<close>)

lemma dispatch_verifier: "session_verifier (fst (session_dispatch E TABLE V op bs S)) = session_verifier S"
  by (cases op) (simp_all add: session_intent_message_def session_envelope_def session_response_def session_begin_body_def
      session_push_body_def session_finish_body_def session_required_bodies_def session_discard_body_def
      session_proposal_def fst_require Let_def split: sum.split prod.split option.split)

lemma begin_ok:
  assumes "session_ok E TABLE S"
  shows "session_ok E TABLE (fst (session_begin TABLE setup len S))"
proof -
  have "session_ok E TABLE ((with_input bs)\<lparr>session_verifier := Some V\<rparr>)"
    if "verifier_new TABLE poll aggregate = Inr V" for bs V poll aggregate
    using that by (auto simp: session_ok_def with_input_def ballots_ok_def messages_ok_def barrier_ok_def)
  then show ?thesis
    using assms by (auto simp: session_begin_def fst_require split: sum.split prod.split)
qed

lemma command_ok:
  assumes "session_ok E TABLE S"
  shows "session_ok E TABLE (fst (session_command E TABLE setup operation len S))"
proof -
  have "session_ok E TABLE (fst (session_dispatch E TABLE V op bs S))"
    if "session_verifier S = Some V" "session_barrier S = None" for V op bs
    using assms that dispatch_ballots dispatch_messages dispatch_barrier [OF that(2)]
    by (simp add: session_ok_def dispatch_verifier)
  then show ?thesis
    using assms begin_ok [OF assms]
    by (auto simp: session_command_def fst_require split: sum.split)
qed

lemma with_input_updates:
  "(with_input bs)\<lparr>session_input := buffer\<rparr> = with_input buffer"
  "(with_input bs)\<lparr>session_barrier := None\<rparr> = with_input bs"
  by (simp_all add: with_input_def)

lemma write_ok: "session_ok E TABLE S \<Longrightarrow> session_ok E TABLE (S\<lparr>session_input := buffer\<rparr>)"
proof (cases "session_verifier S")
  case None
  moreover assume "session_ok E TABLE S"
  ultimately have "S = with_input (session_input S)" by (simp add: session_ok_def)
  then have "S\<lparr>session_input := buffer\<rparr> = with_input buffer" by (metis with_input_updates(1))
  then show ?thesis by (simp add: session_ok_def with_input_def)
qed (simp add: session_ok_def untouched)

lemma take_ok: "session_ok E TABLE S \<Longrightarrow> session_ok E TABLE (fst (take_barrier S))"
proof (cases "session_verifier S")
  case None
  moreover assume ok: "session_ok E TABLE S"
  ultimately have "S = with_input (session_input S)" by (simp add: session_ok_def)
  then have "S\<lparr>session_barrier := None\<rparr> = S" by (metis with_input_updates(2))
  then show ?thesis using ok by (simp add: take_barrier_def)
qed (simp add: session_ok_def untouched take_barrier_def barrier_ok_def)

lemma reachable_ok: "session_reachable E TABLE S \<Longrightarrow> session_ok E TABLE S"
proof (induction rule: session_reachable.induct)
  case reach_new
  show ?case by (simp add: session_ok_def session_new_def with_input_def)
qed (rule write_ok command_ok take_ok, assumption)+

section \<open>What a barrier of a session rests on\<close>

text \<open>An envelope the session authenticated, for an author and on time.\<close>

definition timely ::
  "externals \<Rightarrow> bytes \<Rightarrow> close_verifier \<Rightarrow> u64 \<Rightarrow> nat \<Rightarrow> authenticated_ballot_envelope \<Rightarrow> bool" where
  "timely E TABLE V close_time author a \<longleftrightarrow>
     authentic_envelope E TABLE V a \<and> envelope_position (ab_envelope a) = author
     \<and> envelope_ballot_time (ab_envelope a) \<le> close_time"

fun slot_evidence ::
  "externals \<Rightarrow> bytes \<Rightarrow> close_verifier \<Rightarrow> u64 \<Rightarrow> bytes set \<Rightarrow> nat \<Rightarrow> closed_slot \<Rightarrow> bool" where
  "slot_evidence E TABLE V close_time listed author Absent \<longleftrightarrow> listed = {}"
| "slot_evidence E TABLE V close_time listed author (Usable b) \<longleftrightarrow>
     listed = {envelope_identity E (body_envelope b)} \<and> streamed_body E TABLE b
     \<and> timely E TABLE V close_time author (body_authentication b)"
| "slot_evidence E TABLE V close_time listed author (Conflicting idents) \<longleftrightarrow>
     set idents = listed
     \<and> (\<exists>a1 a2. timely E TABLE V close_time author a1 \<and> timely E TABLE V close_time author a2
          \<and> envelope_identity E (ab_envelope a1) \<in> listed \<and> envelope_identity E (ab_envelope a2) \<in> listed
          \<and> envelope_identity E (ab_envelope a1) \<noteq> envelope_identity E (ab_envelope a2))"

lemma listed_timely:
  assumes "ballots_ok E TABLE V S" "supported_response E TABLE V intent (session_envelopes S) m"
    and "(author, ident) \<in> set (response_listed m)"
  shows "\<exists>a \<in> set (session_envelopes S). timely E TABLE V (intent_close_time intent) author a
    \<and> envelope_identity E (ab_envelope a) = ident"
  using assms by (fastforce simp: ballots_ok_def supported_response_def supported_entry_def timely_def)

lemma slot_evidence_of:
  assumes ok: "ballots_ok E TABLE V S"
    and chosen: "\<forall>m \<in> set chosen. supported_response E TABLE V intent (session_envelopes S) m"
    and slot: "slot_of E (session_bodies S) (listed_for (map response_listed chosen) i) slot"
  shows "slot_evidence E TABLE V (intent_close_time intent) (listed_for (map response_listed chosen) i) i slot"
proof -
  let ?listed = "listed_for (map response_listed chosen) i" and ?time = "intent_close_time intent"
  have held_by: "\<exists>a \<in> set (session_envelopes S). timely E TABLE V ?time i a \<and> envelope_identity E (ab_envelope a) = ident"
    if "ident \<in> ?listed" for ident
    using that chosen listed_timely [OF ok] by (auto simp: listed_for_def)
  show ?thesis
  proof (cases slot)
    case Absent
    then show ?thesis using slot by simp
  next
    case (Usable b)
    then have b: "b \<in> set (session_bodies S)" and listed: "?listed = {envelope_identity E (body_envelope b)}"
      using slot by simp_all
    obtain a where a: "a \<in> set (session_envelopes S)" "timely E TABLE V ?time i a"
      "envelope_identity E (ab_envelope a) = envelope_identity E (body_envelope b)"
      using held_by listed by blast
    have "body_authentication b \<in> set (session_envelopes S)" "streamed_body E TABLE b"
      "inj_on (\<lambda>a. envelope_identity E (ab_envelope a)) (set (session_envelopes S))"
      using ok b by (auto simp: ballots_ok_def distinct_map)
    with a Usable listed show ?thesis by (auto dest: inj_onD)
  next
    case (Conflicting idents)
    then have idents: "set idents = ?listed" and two: "2 \<le> card ?listed" using slot by simp_all
    obtain x where x: "x \<in> ?listed" using two by fastforce
    moreover have "\<not> ?listed \<subseteq> {x}" using card_mono [of "{x}" ?listed] two by auto
    ultimately obtain y where "y \<in> ?listed" "y \<noteq> x" by blast
    with x held_by idents Conflicting show ?thesis by simp metis
  qed
qed

lemma session_barrier_evidence:
  assumes "session_reachable E TABLE S" "session_barrier S = Some B"
  shows "\<exists>V chosen. session_verifier S = Some V \<and> barrier_setup B = cv_setup V \<and> session_intent S = Some (barrier_intent B)
    \<and> map (\<lambda>m. (response_responder m, response_identity m)) chosen = close_proposal_responses (barrier_proposal B)
    \<and> distinct (map response_responder chosen) \<and> length chosen = inventory_threshold (participant_count V)
    \<and> organizer V \<in> response_responder ` set chosen
    \<and> (\<forall>m \<in> set chosen. supported_response E TABLE V (barrier_intent B) (session_envelopes S) m)
    \<and> length (barrier_slots B) = participant_count V
    \<and> (\<forall>i < participant_count V. slot_evidence E TABLE V (intent_close_time (barrier_intent B))
         (listed_for (map response_listed chosen) i) i (barrier_slots B ! i))"
proof -
  have "session_barrier (with_input bs) = None" for bs by (simp add: with_input_def)
  then have "S \<noteq> with_input (session_input S)" using assms(2) by (metis option.simps(3))
  then have "session_verifier S \<noteq> None"
    using reachable_ok [OF assms(1)] by (intro notI) (simp add: session_ok_def)
  then obtain V where V: "session_verifier S = Some V" by blast
  then have ok: "ballots_ok E TABLE V S" "messages_ok E TABLE V S" "barrier_ok E TABLE V S"
    using reachable_ok [OF assms(1)] by (simp_all add: session_ok_def)
  then obtain intent body signature where intent: "session_intent S = Some intent"
    and verified: "verify_proposal E TABLE V intent body signature (session_responses S) (session_bodies S) = Inr B"
    using assms(2) by (auto simp: barrier_ok_def)
  have B: "barrier_intent B = intent" "barrier_setup B = cv_setup V"
    using verified by (auto simp: verify_proposal_def and_then_Inr_iff split: if_splits)
  obtain chosen where chosen: "set chosen \<subseteq> set (session_responses S)"
    "map (\<lambda>m. (response_responder m, response_identity m)) chosen = close_proposal_responses (barrier_proposal B)"
    "distinct (map response_responder chosen)" "length chosen = inventory_threshold (participant_count V)"
    "organizer V \<in> response_responder ` set chosen" "length (barrier_slots B) = participant_count V"
    and slots: "\<forall>i < participant_count V.
      slot_of E (session_bodies S) (listed_for (map response_listed chosen) i) (barrier_slots B ! i)"
    using barrier_union [OF verified] by (elim exE conjE) (rule that)
  have supported: "\<forall>m \<in> set chosen. supported_response E TABLE V intent (session_envelopes S) m"
    using chosen(1) ok(2) intent by (fastforce simp: messages_ok_def)
  show ?thesis
    unfolding B(1)
    using V intent B(2) chosen(2-) supported slot_evidence_of [OF ok(1) supported] slots
    by (intro exI [of _ V] exI [of _ chosen]) simp
qed

section \<open>A concrete session\<close>

text \<open>The host puts a packet at the front of its buffer and gives the command for it.\<close>

lemma session_feed:
  assumes "session_reachable E TABLE S" "session_verifier S = Some V" "session_barrier S = None"
    and "from_code code = Some op" "op \<noteq> BeginClose" "length bs \<le> length (session_input S)"
  shows "session_reachable E TABLE (fst (session_dispatch E TABLE V op bs
    (S\<lparr>session_input := bs @ drop (length bs) (session_input S)\<rparr>)))"
proof -
  let ?S = "S\<lparr>session_input := bs @ drop (length bs) (session_input S)\<rparr>"
  have "session_reachable E TABLE ?S" using assms(1,6) by (intro reach_write) simp_all
  from reach_command [OF this, of None code "length bs"] show ?thesis
    using assms by (simp add: session_command_def require_def)
qed

lemma packet_read:
  "valid_packet maximum (body, signature) \<Longrightarrow> packet (packet_encode body signature) maximum = Inr (body, signature)"
  using packet_leading_encode [where rest = "[]"] by (simp add: packet_def packet_split_Some_iff)

text \<open>A roster of one member, who is the organizer, and no ballots.\<close>

definition solo_TABLE :: bytes where
  "solo_TABLE = [2, 1, 16, 2, 1, 48, 60, 0, 1, 1, 3, 3] @ replicate 30 0"

definition solo_setup :: verified_setup_aggregate where
  "solo_setup =
     \<lparr> inputs_selection =
         \<lparr> as_roster =
             \<lparr> auth_proposal =
                 \<lparr> roster_identity = replicate 64 3, roster_body = [], roster_records = [bar_record 0],
                   roster_organizer_position = 0, roster_profile = sample_profile, roster_family_index = 0 \<rparr>,
               auth_signature = [] \<rparr>,
           as_selection = \<lparr> selection_body = [], selection_identity = replicate 64 2,
                            selection_roster = replicate 64 3, selected = [] \<rparr>,
           as_signature = [] \<rparr>,
       inputs_polynomials = [] \<rparr>"

definition solo :: close_verifier where
  "solo = \<lparr>cv_poll = bar_poll, cv_setup = solo_setup\<rparr>"

definition solo_intent :: close_intent_message where
  "solo_intent =
     (let body = tuple_bytes (close_tuple CloseIntent (replicate 64 1) (replicate 64 2) [unsigned64 9]) in
      \<lparr> intent_body = body, intent_identity = shake256 sample_externals (identity_preimage (close_context CloseIntent) body),
        intent_poll = replicate 64 1, intent_setup_identity = replicate 64 2, intent_close_time = 9 \<rparr>)"

definition solo_response :: close_response_message where
  "solo_response = response_of sample_externals (replicate 64 1) (replicate 64 2) (intent_identity solo_intent) 0 []"

definition solo_proposal :: close_proposal_message where
  "solo_proposal = close_proposal_of sample_externals (replicate 64 1) (replicate 64 2) (intent_identity solo_intent)
     [(0, response_identity solo_response)]"

definition solo_signature :: "close_purpose \<Rightarrow> bytes \<Rightarrow> bytes" where
  "solo_signature purpose ident =
     projr (sign_deterministically sample_externals (from_seed sample_externals sample_seed) ident (close_context purpose))"

lemma solo_signs: "verify_close_signature sample_externals bar_key purpose ident (solo_signature purpose ident)"
proof -
  have "close_context purpose \<in> set SIGNING_CONTEXTS"
    by (cases purpose) (simp_all add: SIGNING_CONTEXTS_def)
  from sign_deterministically_verifies [OF sample_permutation this, of "from_seed sample_externals sample_seed" ident]
  show ?thesis by (auto simp: verify_close_signature_def bar_key_def solo_signature_def)
qed

lemma solo_supported: "participants_supported solo_TABLE 1"
  by code_simp

lemma solo_verifier:
  "verifier_new solo_TABLE bar_poll solo_setup = Inr solo" "participant_count solo = 1" "organizer solo = 0"
  "verifier_key solo 0 = Inr bar_key" "verifier_setup_identity solo = replicate 64 2"
  "poll_identity (cv_poll solo) = replicate 64 1"
proof -
  have "within (participant_range solo_TABLE) 1" using solo_supported by (simp add: participants_supported_def)
  then show "verifier_new solo_TABLE bar_poll solo_setup = Inr solo"
    by (simp add: verifier_new_def solo_setup_def bar_poll_def solo_def inputs_roster_def organizer_record_def bar_record_def)
qed (simp_all add: solo_def participant_count_def organizer_def solo_setup_def bar_poll_def verifier_key_def get_def
      inputs_roster_def inputs_identity_def bar_record_def verifier_setup_identity_def)

lemma solo_intent_identity: "length (intent_identity solo_intent) = 64"
  using sample_shake_ok by (simp add: solo_intent_def Let_def shake_ok_def)

lemma solo_intent_accepted:
  "authenticate_intent sample_externals solo (intent_body solo_intent) (solo_signature CloseIntent (intent_identity solo_intent))
     = Inr solo_intent"
  "length (intent_body solo_intent) \<le> maximum_close_message_bytes CloseIntent n"
proof -
  let ?body = "tuple_bytes (close_tuple CloseIntent (replicate 64 1) (replicate 64 2) [unsigned64 9])"
  have size: "length ?body \<le> maximum_close_message_bytes CloseIntent n" for n
    by (simp add: length_close_tuple unsigned64_def del: close_context.simps)
  then show "length (intent_body solo_intent) \<le> maximum_close_message_bytes CloseIntent n" by (simp add: solo_intent_def Let_def)
  have "close_decode sample_externals ?body CloseIntent 3
      = Inr [label_item (close_context CloseIntent), hash512 (replicate 64 1), hash512 (replicate 64 2), unsigned64 9]"
    using size by (intro close_decode_complete) (simp_all del: close_context.simps)
  moreover have "length ?body \<le> 2 ^ 17" using size [of 1] close_maximum [of 1 CloseIntent] by linarith
  ultimately have "intent_parse sample_externals (intent_body solo_intent) = Inr solo_intent"
    by (simp add: intent_parse_def solo_intent_def Let_def close_identity_value close_hash_def try_array_def hash512_def
        unsigned64_def del: close_context.simps)
  then show "authenticate_intent sample_externals solo (intent_body solo_intent)
      (solo_signature CloseIntent (intent_identity solo_intent)) = Inr solo_intent"
    using solo_signs by (simp add: authenticate_intent_def solo_verifier) (simp add: solo_intent_def Let_def)
qed

lemma solo_response_accepted:
  "authenticate_response sample_externals solo_TABLE solo solo_intent (response_body solo_response)
     (solo_signature CloseResponse (response_identity solo_response)) available = Inr solo_response"
  "length (response_body solo_response) \<le> maximum_close_message_bytes CloseResponse 1"
  "length (response_identity solo_response) = 64"
proof -
  have fields: "response_fields 1 (replicate 64 1) (replicate 64 2) (intent_identity solo_intent) 0 []"
    using solo_intent_identity by (simp add: response_fields_def valid_entries_def)
  then show "length (response_body solo_response) \<le> maximum_close_message_bytes CloseResponse 1"
    unfolding solo_response_def by (rule response_size)
  show "length (response_identity solo_response) = 64"
    using sample_shake_ok by (simp add: solo_response_def response_of_def Let_def shake_ok_def)
  have "response_parse sample_externals solo_TABLE (response_body solo_response) 1 = Inr solo_response"
    unfolding response_parse_iff using fields solo_supported solo_response_def by blast
  then show "authenticate_response sample_externals solo_TABLE solo solo_intent (response_body solo_response)
     (solo_signature CloseResponse (response_identity solo_response)) available = Inr solo_response"
    using solo_signs by (simp add: authenticate_response_def solo_verifier)
      (simp add: solo_response_def solo_verifier response_of_def Let_def)
qed

lemma solo_proposal_accepted:
  "\<exists>B. verify_proposal sample_externals solo_TABLE solo solo_intent (close_proposal_body solo_proposal)
     (solo_signature CloseProposal (close_proposal_identity solo_proposal)) [solo_response] [] = Inr B"
  "length (close_proposal_body solo_proposal) \<le> maximum_close_message_bytes CloseProposal 1"
proof -
  have "proposal_fields 1 0 (replicate 64 1) (replicate 64 2) (intent_identity solo_intent) [(0, response_identity solo_response)]"
    using solo_intent_identity solo_response_accepted(3)
    by (simp add: proposal_fields_def valid_entries_def inventory_threshold_def maximum_corrupt_participants_def)
  note fields = this
  then show "length (close_proposal_body solo_proposal) \<le> maximum_close_message_bytes CloseProposal 1"
    unfolding solo_proposal_def by (simp only: proposal_size)
  have parse: "close_proposal_parse sample_externals solo_TABLE (close_proposal_body solo_proposal) 1 0 = Inr solo_proposal"
    unfolding close_proposal_parse_iff using fields solo_supported solo_proposal_def by blast
  have "select_slots solo solo_intent solo_proposal [solo_response] = Inr (union_slots 1 [[]])"
    by (simp add: select_slots_def solo_verifier solo_proposal_def) (simp add: solo_response_def)
  moreover have "[x] \<notin> set (union_slots 1 [[]])" for x by (simp add: union_slots_def settle_def)
  ultimately show "\<exists>B. verify_proposal sample_externals solo_TABLE solo solo_intent (close_proposal_body solo_proposal)
     (solo_signature CloseProposal (close_proposal_identity solo_proposal)) [solo_response] [] = Inr B"
    using parse solo_signs solo_verifier
    by (intro verify_proposal_complete [where p = solo_proposal and key = bar_key]) auto
qed

lemma solo_packet:
  assumes "length body \<le> maximum_close_message_bytes purpose 1"
  shows "packet (packet_encode body (solo_signature purpose ident)) (maximum_close_message_bytes purpose 1)
      = Inr (body, solo_signature purpose ident)"
    "length (packet_encode body (solo_signature purpose ident)) \<le> CLOSE_INPUT_BYTES"
proof -
  have small: "length body \<le> 2 ^ 17" using assms close_maximum [of 1 purpose] by linarith
  have sig: "length (solo_signature purpose ident) = SIGNATURE_BYTES"
    using solo_signs by (simp add: verify_close_signature_def)
  then show "packet (packet_encode body (solo_signature purpose ident)) (maximum_close_message_bytes purpose 1)
      = Inr (body, solo_signature purpose ident)"
    using assms small by (intro packet_read) (simp add: valid_packet_def u32_bound_def)
  show "length (packet_encode body (solo_signature purpose ident)) \<le> CLOSE_INPUT_BYTES"
    using small sig by (simp add: packet_encode_def CLOSE_INPUT_BYTES_def SIGNATURE_BYTES_def CHAINS_def)
qed

text \<open>The session begins, takes the intent and the response, and the proposal makes its barrier.\<close>

lemma solo_begun:
  "\<exists>S. session_reachable sample_externals solo_TABLE S \<and> length (session_input S) = CLOSE_INPUT_BYTES
    \<and> session_verifier S = Some solo \<and> session_intent S = None \<and> session_responses S = []
    \<and> session_bodies S = [] \<and> session_barrier S = None"
proof -
  let ?S = "fst (session_command sample_externals solo_TABLE (Some (bar_poll, solo_setup)) 1 0 session_new)"
  have "from_code 1 = Some BeginClose" by (simp add: from_code_def get_def)
  then have "?S = (with_input (replicate CLOSE_INPUT_BYTES 0))\<lparr>session_verifier := Some solo\<rparr>"
    by (simp add: session_command_def session_begin_def require_def solo_verifier session_new_def with_input_def)
  moreover have "session_reachable sample_externals solo_TABLE ?S" by (intro reach_command reach_new)
  ultimately show ?thesis by (intro exI [of _ ?S]) (simp add: with_input_def)
qed

lemma solo_closes:
  "\<exists>S B. session_reachable sample_externals solo_TABLE S \<and> session_verifier S = Some solo \<and> session_barrier S = Some B"
proof -
  let ?E = sample_externals and ?T = solo_TABLE
  obtain S where S: "session_reachable ?E ?T S" "length (session_input S) = CLOSE_INPUT_BYTES"
    "session_verifier S = Some solo" "session_intent S = None" "session_responses S = []" "session_bodies S = []"
    "session_barrier S = None"
    using solo_begun by blast
  let ?p = "packet_encode (intent_body solo_intent) (solo_signature CloseIntent (intent_identity solo_intent))"
  let ?S = "S\<lparr>session_input := ?p @ drop (length ?p) (session_input S), session_intent := Some solo_intent\<rparr>"
  note p = solo_packet [OF solo_intent_accepted(2)]
  have S1: "session_reachable ?E ?T ?S"
    using session_feed [OF S(1,3,7), of 2 IntentMessage ?p] S p solo_intent_accepted(1)
    by (simp add: from_code_def get_def session_intent_message_def require_def solo_verifier(2))
  let ?q = "packet_encode (response_body solo_response) (solo_signature CloseResponse (response_identity solo_response))"
  define S1 where "S1 = ?S"
  have S1: "session_reachable ?E ?T S1" "length (session_input S1) = CLOSE_INPUT_BYTES"
    "session_verifier S1 = Some solo" "session_intent S1 = Some solo_intent" "session_responses S1 = []"
    "session_bodies S1 = []" "session_barrier S1 = None"
    using S S1 p(2) by (simp_all add: S1_def)
  let ?S' = "S1\<lparr>session_input := ?q @ drop (length ?q) (session_input S1), session_responses := [solo_response]\<rparr>"
  note q = solo_packet [OF solo_response_accepted(2)]
  define S2 where "S2 = ?S'"
  have "session_reachable ?E ?T S2"
    using session_feed [OF S1(1,3,7), of 7 ResponseMessage ?q] S1 q solo_response_accepted(1)
    by (simp add: from_code_def get_def session_response_def require_def solo_verifier(2) S2_def)
  then have S2: "session_reachable ?E ?T S2" "length (session_input S2) = CLOSE_INPUT_BYTES"
    "session_verifier S2 = Some solo" "session_intent S2 = Some solo_intent" "session_responses S2 = [solo_response]"
    "session_bodies S2 = []" "session_barrier S2 = None"
    using S1 q(2) by (simp_all add: S2_def)
  let ?r = "packet_encode (close_proposal_body solo_proposal) (solo_signature CloseProposal (close_proposal_identity solo_proposal))"
  note r = solo_packet [OF solo_proposal_accepted(2)]
  obtain B where B: "verify_proposal ?E ?T solo solo_intent (close_proposal_body solo_proposal)
     (solo_signature CloseProposal (close_proposal_identity solo_proposal)) [solo_response] [] = Inr B"
    using solo_proposal_accepted(1) by blast
  have "session_reachable ?E ?T (S2\<lparr>session_input := ?r @ drop (length ?r) (session_input S2), session_barrier := Some B\<rparr>)"
    using session_feed [OF S2(1,3,7), of 9 ProposalMessage ?r] S2 r B
    by (simp add: from_code_def get_def session_proposal_def require_def solo_verifier(2))
  then show ?thesis using S2(3) by fastforce
qed

section \<open>Properties\<close>

text \<open>
  C15. Whatever the host writes and commands, a session holds only envelopes that authenticated
  under its setup, bodies whose streamed bytes hash to the identity their envelope names, one
  response per signer, each authentic and listing only envelopes the session holds, and it stays
  within its bounds; before it has begun it holds nothing.
\<close>

theorem close_session_holds_only_authentic_input:
  assumes "session_reachable E TABLE S"
  shows "(session_verifier S = None \<longrightarrow> S = with_input (session_input S))
    \<and> (\<forall>V. session_verifier S = Some V \<longrightarrow>
         ballots_ok E TABLE V S \<and> messages_ok E TABLE V S \<and> barrier_ok E TABLE V S)"
  using reachable_ok [OF assms] by (cases "session_verifier S") (simp_all add: session_ok_def)

theorem close_session_holds_only_authentic_input_witness:
  "\<exists>S. session_verifier S = Some solo \<and> session_barrier S \<noteq> None \<and> ballots_ok sample_externals solo_TABLE solo S
    \<and> messages_ok sample_externals solo_TABLE solo S \<and> barrier_ok sample_externals solo_TABLE solo S"
proof -
  obtain S B where "session_reachable sample_externals solo_TABLE S" "session_verifier S = Some solo"
    "session_barrier S = Some B" using solo_closes by blast
  with close_session_holds_only_authentic_input [OF this(1)] show ?thesis by (intro exI [of _ S]) simp
qed

text \<open>
  C14. A barrier that a session yields rests on a quorum of authentic responses of distinct members,
  the organizer's among them.  A slot is absent only if none of them lists a ballot of the member;
  a usable slot holds the one listed ballot, on time, signed by that member, with its whole body;
  and a conflicting slot comes with two different ballots on time that the member signed.
\<close>

theorem closed_slots_rest_on_authentic_ballots:
  assumes "session_reachable E TABLE S" "session_barrier S = Some B"
  shows "\<exists>V chosen. session_verifier S = Some V \<and> barrier_setup B = cv_setup V \<and> session_intent S = Some (barrier_intent B)
    \<and> map (\<lambda>m. (response_responder m, response_identity m)) chosen = close_proposal_responses (barrier_proposal B)
    \<and> distinct (map response_responder chosen) \<and> length chosen = inventory_threshold (participant_count V)
    \<and> organizer V \<in> response_responder ` set chosen
    \<and> (\<forall>m \<in> set chosen. supported_response E TABLE V (barrier_intent B) (session_envelopes S) m)
    \<and> length (barrier_slots B) = participant_count V
    \<and> (\<forall>i < participant_count V. slot_evidence E TABLE V (intent_close_time (barrier_intent B))
         (listed_for (map response_listed chosen) i) i (barrier_slots B ! i))"
  by (rule session_barrier_evidence [OF assms])

theorem closed_slots_rest_on_authentic_ballots_witness:
  "\<exists>S B. session_reachable sample_externals solo_TABLE S \<and> session_barrier S = Some B \<and> length (barrier_slots B) = 1"
proof -
  obtain S B where S: "session_reachable sample_externals solo_TABLE S" "session_verifier S = Some solo"
    "session_barrier S = Some B" using solo_closes by blast
  with closed_slots_rest_on_authentic_ballots [OF S(1,3)] have "length (barrier_slots B) = 1"
    using solo_verifier(2) by (elim exE conjE) simp
  with S show ?thesis by blast
qed

end
