(* ===== verification/Ceremony.thy ===== *)
theory Ceremony
  imports Participant_Safety Certification Close_Session
begin

text \<open>
  The ceremony over a whole roster: what the safety of single credentials gives when members hold
  one each and verifiers collect what they sign.  At most the tolerated number of positions is
  corrupt; of the other positions it is assumed that the signatures a verifier has accepted under
  their keys were made by their credentials.  That is the unforgeability of purpose signatures,
  stated for the signatures at hand.
\<close>

section \<open>Members\<close>

record member =
  member_credential :: credential
  member_life :: "participant_operation list"

text \<open>What a member has signed on a leaf over its life.\<close>

definition has_signed ::
  "externals \<Rightarrow> bytes \<Rightarrow> aead \<Rightarrow> member \<Rightarrow> signing_leaf \<Rightarrow> bytes \<Rightarrow> bool" where
  "has_signed E TABLE A p l m \<longleftrightarrow>
     (\<exists>sig. (l, m, sig) \<in> set (history E TABLE A (member_credential p) (member_life p)))"

lemma signs_one_message: "has_signed E TABLE A p l m \<Longrightarrow> has_signed E TABLE A p l m' \<Longrightarrow> m = m'"
  unfolding has_signed_def using participant.one_message_per_key by fastforce

text \<open>The corrupt positions are within what the roster tolerates.\<close>

definition tolerated :: "nat \<Rightarrow> nat set \<Rightarrow> bool" where
  "tolerated n corrupt \<longleftrightarrow> corrupt \<subseteq> {..<n} \<and> card corrupt \<le> maximum_corrupt_participants n"

lemma quorums_of_members_agree:
  assumes "0 < n" "tolerated n corrupt" "X \<subseteq> {..<n}" "Y \<subseteq> {..<n}"
    and "inventory_threshold n \<le> card X" "inventory_threshold n \<le> card Y"
    and "\<And>i. i \<in> X \<Longrightarrow> i \<notin> corrupt \<Longrightarrow> has_signed E TABLE A (members i) l (f i)"
    and "\<And>i. i \<in> Y \<Longrightarrow> i \<notin> corrupt \<Longrightarrow> has_signed E TABLE A (members i) l (g i)"
  shows "\<exists>i \<in> X \<inter> Y. f i = g i"
proof -
  have "finite corrupt" "{..<n} \<noteq> {}"
    using assms(1,2) finite_subset [of corrupt "{..<n}"] by (auto simp: tolerated_def)
  then obtain i where "i \<in> X \<inter> Y" "i \<notin> corrupt"
    using inventory.quorums_share_honest [of "{..<n}" X Y corrupt] assms(2-6) by (auto simp: tolerated_def)
  with assms(7,8) signs_one_message show ?thesis by blast
qed

section \<open>Targets\<close>

text \<open>The votes of a certificate that stand at positions outside the corrupt were cast by their members.\<close>

definition votes_cast ::
  "externals \<Rightarrow> bytes \<Rightarrow> aead \<Rightarrow> (nat \<Rightarrow> member) \<Rightarrow> nat set \<Rightarrow> inventory_certificate \<Rightarrow> bool" where
  "votes_cast E TABLE A members corrupt C \<longleftrightarrow>
     (\<forall>v \<in> set (certificate_votes C). vote_position v \<notin> corrupt \<longrightarrow>
        has_signed E TABLE A (members (vote_position v)) TargetLeaf (vote_target v))"

lemma certified_targets_one:
  assumes "collector_certificate (collect E TABLE T1 packets1) = Inr C1"
    and "collector_certificate (collect E TABLE T2 packets2) = Inr C2"
    and roster: "roster_keys (vt_setup T2) = roster_keys (vt_setup T1)" "roster_keys (vt_setup T1) \<noteq> []"
    and "tolerated (length (roster_keys (vt_setup T1))) corrupt"
    and "votes_cast E TABLE A members corrupt C1" "votes_cast E TABLE A members corrupt C2"
  shows "vt_identity T1 = vt_identity T2"
proof -
  let ?n = "length (roster_keys (vt_setup T1))"
  note q1 = certificate_quorum [OF assms(1)] and q2 = certificate_quorum [OF assms(2), unfolded roster(1)]
  have cast: "has_signed E TABLE A (members i) TargetLeaf (vt_identity T)"
    if "collector_certificate (collect E TABLE T packets) = Inr C" "votes_cast E TABLE A members corrupt C"
      "i \<in> vote_position ` set (certificate_votes C)" "i \<notin> corrupt" for i T C packets
    using that certificate_quorum(4) [OF that(1)] by (auto simp: votes_cast_def)
  have "\<exists>i \<in> vote_position ` set (certificate_votes C1) \<inter> vote_position ` set (certificate_votes C2).
      vt_identity T1 = vt_identity T2"
    by (rule quorums_of_members_agree [where n = ?n and corrupt = corrupt and l = TargetLeaf and members = members
          and E = E and TABLE = TABLE and A = A])
      (use assms(3-) q1 q2 cast [OF assms(1,6)] cast [OF assms(2,7)] in auto)
  then show ?thesis by blast
qed

section \<open>Selections\<close>

text \<open>The endorsements of a certificate that stand at positions outside the corrupt were made by their members.\<close>

definition endorsements_made ::
  "externals \<Rightarrow> bytes \<Rightarrow> aead \<Rightarrow> (nat \<Rightarrow> member) \<Rightarrow> nat set \<Rightarrow> authenticated_certificate \<Rightarrow> bool" where
  "endorsements_made E TABLE A members corrupt C \<longleftrightarrow>
     (\<forall>e \<in> set (ac_endorsements C). ae_position e \<notin> corrupt \<longrightarrow>
        (\<exists>m. endorsement_identity E (ae_selection e) (ae_position e) = Inr m
           \<and> has_signed E TABLE A (members (ae_position e)) EndorsementLeaf m))"

abbreviation roster_size :: "authenticated_roster \<Rightarrow> nat" where
  "roster_size A \<equiv> participants (roster_profile (auth_proposal A))"

abbreviation certified :: "authenticated_certificate \<Rightarrow> selection_proposal" where
  "certified C \<equiv> as_selection (ac_proposal C)"

lemma certificate_facts:
  assumes "authenticate_certificate E A bs = Inr C" "roster_size A \<le> 255" "length (roster_identity (auth_proposal A)) = 64"
    and "shake_ok E"
  shows "length (selection_identity (certified C)) = 64"
    "selection_identity (certified C) = shake256 E (identity_preimage SELECTION_IDENTITY_DOMAIN (selection_body (certified C)))"
    "length (selection_body (certified C)) \<le> MAXIMUM_SELECTION_BYTES"
    "inventory_threshold (roster_size A) \<le> card (ae_position ` set (ac_endorsements C))"
    "\<And>e. e \<in> set (ac_endorsements C) \<Longrightarrow> ae_position e < roster_size A \<and> ae_selection e = selection_identity (certified C)"
proof -
  obtain P es where C: "C = \<lparr>ac_proposal = P, ac_endorsements = es, ac_bytes = bs\<rparr>"
    and P: "authenticate_selection E A (selection_body (as_selection P)) (as_signature P) = Inr P"
    and es: "endorsed E A P es"
    using certificate_sound [OF assms(1-3)] by blast
  obtain chosen where s: "as_selection P = selection_of E (roster_identity (auth_proposal A)) chosen"
    "length (selection_body (as_selection P)) \<le> MAXIMUM_SELECTION_BYTES"
    using authenticate_selection_fields(4) [OF P] unfolding selection_decode_iff [OF assms(2,3)] by blast
  then show "length (selection_identity (certified C)) = 64"
    "selection_identity (certified C) = shake256 E (identity_preimage SELECTION_IDENTITY_DOMAIN (selection_body (certified C)))"
    "length (selection_body (certified C)) \<le> MAXIMUM_SELECTION_BYTES"
    using assms(4) by (simp_all add: C selection_of_def Let_def shake_ok_def)
  show "ae_position e < roster_size A \<and> ae_selection e = selection_identity (certified C)"
    if "e \<in> set (ac_endorsements C)" for e
    using es that endorsement_fields(3) [of E A "as_selection P" "ae_position e" "ae_signature e" e]
    by (simp add: C endorsed_def)
  have "distinct (map ae_position es)" using es by (simp add: endorsed_def strict_sorted_iff)
  then have "card (ae_position ` set es) = length es" using distinct_card [of "map ae_position es"] by simp
  then show "inventory_threshold (roster_size A) \<le> card (ae_position ` set (ac_endorsements C))"
    using es by (simp add: C endorsed_def)
qed

lemma certified_selections_one:
  assumes certs: "authenticate_certificate E R bs1 = Inr C1" "authenticate_certificate E R bs2 = Inr C2"
    and R: "0 < roster_size R" "roster_size R \<le> 255" "length (roster_identity (auth_proposal R)) = 64" and E: "shake_ok E"
    and "tolerated (roster_size R) corrupt"
    and made: "endorsements_made E TABLE A members corrupt C1" "endorsements_made E TABLE A members corrupt C2"
  shows "selection_body (certified C1) = selection_body (certified C2)
    \<or> (\<exists>x \<in> selection_preimages (certified C1) (roster_size R). \<exists>y \<in> selection_preimages (certified C2) (roster_size R).
         x \<noteq> y \<and> shake256 E x = shake256 E y)"
proof -
  note f1 = certificate_facts [OF certs(1) R(2,3) E] and f2 = certificate_facts [OF certs(2) R(2,3) E]
  let ?n = "roster_size R"
  define message where "message C i = projr (endorsement_identity E (selection_identity (certified C)) i)" for C i
  have identities: "endorsement_identity E (selection_identity (certified C)) i = Inr (message C i)"
    if "C \<in> {C1, C2}" "i < ?n" for C i
    using that f1(1) f2(1) R(2) by (auto simp: message_def endorsement_identity_value)
  have cast: "has_signed E TABLE A (members i) EndorsementLeaf (message C i)"
    if "C \<in> {C1, C2}" "i \<in> ae_position ` set (ac_endorsements C)" "i \<notin> corrupt" for C i
    using that made f1(5) f2(5) identities by (fastforce simp: endorsements_made_def)
  have "\<exists>i \<in> ae_position ` set (ac_endorsements C1) \<inter> ae_position ` set (ac_endorsements C2). message C1 i = message C2 i"
    by (rule quorums_of_members_agree [where n = ?n and corrupt = corrupt and l = EndorsementLeaf and members = members
          and E = E and TABLE = TABLE and A = A])
      (use assms(7) R(1) f1 f2 cast in auto)
  then obtain i where i: "i \<in> ae_position ` set (ac_endorsements C1)" "message C1 i = message C2 i" by blast
  then have "i < ?n" using f1(5) by auto
  then have "endorsement_identity E (selection_identity (certified C1)) i
      = endorsement_identity E (selection_identity (certified C2)) i"
    using i(2) identities by simp
  then show ?thesis
    using \<open>i < ?n\<close> R(2) f1(1-3) f2(1-3) by (intro same_endorsement [of E _ i]) (assumption | simp only: | linarith)+
qed

section \<open>Ballots\<close>

text \<open>
  The envelopes and responses of a member that verifiers have come to hold were signed by its
  credential.
\<close>

definition ballots_signed ::
  "externals \<Rightarrow> bytes \<Rightarrow> aead \<Rightarrow> member \<Rightarrow> nat \<Rightarrow> authenticated_ballot_envelope list \<Rightarrow> bool" where
  "ballots_signed E TABLE A p i available \<longleftrightarrow>
     (\<forall>a \<in> set available. envelope_position (ab_envelope a) = i \<longrightarrow>
        has_signed E TABLE A p BallotLeaf (ab_envelope a))"

definition responses_signed ::
  "externals \<Rightarrow> bytes \<Rightarrow> aead \<Rightarrow> member \<Rightarrow> nat \<Rightarrow> close_response_message list \<Rightarrow> bool" where
  "responses_signed E TABLE A p i responses \<longleftrightarrow>
     (\<forall>r \<in> set responses. response_responder r = i \<longrightarrow> has_signed E TABLE A p ResponseLeaf (response_identity r))"

lemma signed_response:
  assumes "emits E TABLE A (run E TABLE A c before) (SignCloseResponse owner roster m) = Some e"
  shows "\<exists>sig. (ResponseLeaf, response_identity m, sig)
    \<in> set (history E TABLE A c (before @ SignCloseResponse owner roster m # later))"
proof -
  obtain s where "e = (ResponseLeaf, response_identity m, s)" using assms unfolding emits_iff by auto
  then show ?thesis using assms by (auto simp: emissions_append)
qed

lemma only_own_ballot_listed:
  assumes "(h, ident) \<in> set (response_listed r)" "\<forall>entry \<in> set (response_listed r). supported_entry E time available entry"
    and "ballots_signed E TABLE A p h available" "has_signed E TABLE A p BallotLeaf envelope"
  shows "ident = envelope_identity E envelope"
proof -
  obtain a where a: "a \<in> set available" "envelope_identity E (ab_envelope a) = ident" "envelope_position (ab_envelope a) = h"
    using assms(1,2) by (fastforce simp: supported_entry_def)
  then have "has_signed E TABLE A p BallotLeaf (ab_envelope a)" using assms(3) by (simp add: ballots_signed_def)
  from signs_one_message [OF this assms(4)] a(2) show ?thesis by simp
qed

lemma own_ballot_usable:
  assumes B: "verify_proposal E TABLE V intent body signature responses bodies = Inr B"
    and h: "owner_position owner < participant_count V"
      "owner_position owner \<in> fst ` set (close_proposal_responses (barrier_proposal B))"
    and life: "member_life p = before @ SignCloseResponse owner roster m # later"
      "close_lock (run E TABLE A (member_credential p) before) = Some (intent_identity intent, intent_close_time intent)"
      "emits E TABLE A (run E TABLE A (member_credential p) before) (SignCloseResponse owner roster m) = Some e"
    and ballot: "has_signed E TABLE A p BallotLeaf envelope" "envelope_ballot_time envelope \<le> intent_close_time intent"
    and supported: "\<forall>r \<in> set responses. \<forall>entry \<in> set (response_listed r).
      supported_entry E (intent_close_time intent) available entry"
    and authors: "ballots_signed E TABLE A p (owner_position owner) available"
      "responses_signed E TABLE A p (owner_position owner) responses"
    and free: "inj_on response_identity (insert m (set responses))"
      "inj_on (envelope_identity E) (insert envelope (body_envelope ` set bodies))"
  shows "\<exists>b \<in> set bodies. barrier_slots B ! owner_position owner = Usable b \<and> body_envelope b = envelope"
proof -
  let ?h = "owner_position owner" and ?own = "envelope_identity E envelope"
  obtain chosen where chosen: "set chosen \<subseteq> set responses"
      "map (\<lambda>r. (response_responder r, response_identity r)) chosen = close_proposal_responses (barrier_proposal B)"
    and slots: "\<forall>i < participant_count V. slot_of E bodies (listed_for (map response_listed chosen) i) (barrier_slots B ! i)"
    using barrier_union [OF B] by (elim exE conjE) (rule that)
  have "?h \<in> response_responder ` set chosen" using h(2) unfolding chosen(2) [symmetric] by (auto simp: image_iff)
  then obtain r where r: "r \<in> set chosen" "response_responder r = ?h" by (elim imageE) (rule that, simp_all)
  then have "has_signed E TABLE A p ResponseLeaf (response_identity r)"
    using authors(2) chosen(1) by (auto simp: responses_signed_def)
  moreover have "has_signed E TABLE A p ResponseLeaf (response_identity m)"
    unfolding has_signed_def life(1) by (rule signed_response [OF life(3)])
  ultimately have "response_identity r = response_identity m" by (rule signs_one_message)
  then have "r = m" using free(1) r(1) chosen(1) by (auto simp: inj_on_def)
  moreover have "(?h, ?own) \<in> set (response_listed m)"
    using ballot unfolding has_signed_def life(1) by (blast intro: own_ballot_listed [OF life(2,3)])
  ultimately have "?own \<in> listed_for (map response_listed chosen) ?h" using r(1) by (auto simp: listed_for_def)
  moreover have "ident = ?own" if "ident \<in> listed_for (map response_listed chosen) ?h" for ident
  proof -
    obtain q where "q \<in> set chosen" "(?h, ident) \<in> set (response_listed q)"
      using \<open>ident \<in> listed_for (map response_listed chosen) ?h\<close> by (auto simp: listed_for_def)
    then show ?thesis
      using supported chosen(1) by (intro only_own_ballot_listed [OF _ _ authors(1) ballot(1)]) blast+
  qed
  ultimately have listed: "listed_for (map response_listed chosen) ?h = {?own}" by blast
  have "slot_of E bodies {?own} (barrier_slots B ! ?h)" using slots h(1) unfolding listed [symmetric] by blast
  then obtain b where "b \<in> set bodies" "barrier_slots B ! ?h = Usable b" "envelope_identity E (body_envelope b) = ?own"
    by (cases "barrier_slots B ! ?h") auto
  then show ?thesis using free(2) by (auto simp: inj_on_def)
qed

section \<open>Votes of the honest suffice\<close>

lemma vote_parse_encode:
  assumes "participant_range TABLE = Some bounds" "vote_position v < range_end bounds"
    and "length (vote_target v) = 64" "length (vote_signature v) = SIGNATURE_BYTES" "vote_position v < 65536"
  shows "vote_parse TABLE (vote_encode v) = Inr v"
  using assms by (simp add: vote_parse_def vote_encode_def TARGET_VOTE_BYTES_def slice_def Let_def)

text \<open>The packet of a member's vote, as its credential emits it.\<close>

definition vote_packet :: "nat \<Rightarrow> bytes \<Rightarrow> bytes \<Rightarrow> bytes" where
  "vote_packet i target signature =
     vote_encode \<lparr>vote_position = i, vote_target = target, vote_signature = signature\<rparr>"

lemma signed_vote_authenticates:
  assumes "permutation_ok E" "check_retained E (member_credential p)"
    and "(TargetLeaf, target, sig) \<in> set (history E TABLE A (member_credential p) (member_life p))"
    and "keys ! i = signing_public (member_credential p)" "i < length keys"
    and "participant_range TABLE = Some bounds" "length keys \<le> range_end bounds" "length keys \<le> 65536"
    and "length target = 64"
  shows "authenticate_vote E TABLE target keys (vote_packet i target sig)
    = Inr \<lparr>vote_position = i, vote_target = target, vote_signature = sig\<rparr>"
proof -
  have "length sig = SIGNATURE_BYTES" "verify_context E (keys ! i) CERTIFICATION_CONTEXT target sig"
    using history_signature [OF assms(1-3)] assms(4) by simp_all
  then show ?thesis
    using assms(5-) vote_parse_encode [of TABLE bounds "\<lparr>vote_position = i, vote_target = target, vote_signature = sig\<rparr>"]
    by (simp add: authenticate_vote_def vote_packet_def get_def)
qed

lemma honest_votes_suffice:
  assumes "permutation_ok E" "participants_supported TABLE (length (roster_keys (vt_setup T)))"
    and "roster_keys (vt_setup T) \<noteq> []" "tolerated (length (roster_keys (vt_setup T))) corrupt"
    and "length (vt_identity T) = 64"
    and honest: "\<And>i. i < length (roster_keys (vt_setup T)) \<Longrightarrow> i \<notin> corrupt \<Longrightarrow>
      check_retained E (member_credential (members i))
      \<and> roster_keys (vt_setup T) ! i = signing_public (member_credential (members i))
      \<and> (\<exists>sig. (TargetLeaf, vt_identity T, sig)
              \<in> set (history E TABLE A (member_credential (members i)) (member_life (members i)))
            \<and> vote_packet i (vt_identity T) sig \<in> set packets)"
  shows "\<exists>C. collector_certificate (collect E TABLE T packets) = Inr C"
proof -
  let ?keys = "roster_keys (vt_setup T)"
  let ?n = "length ?keys"
  obtain bounds where bounds: "participant_range TABLE = Some bounds" "?n \<le> range_end bounds"
    using assms(2) by (auto simp: participants_supported_def within_def range_contains_def split: option.splits)
  have small: "?n \<le> 65536" using supported_count [OF assms(2)] by linarith
  have "i \<in> vote_position ` set (valid_votes E TABLE T packets)" if i: "i < ?n" "i \<notin> corrupt" for i
  proof -
    obtain sig where sig: "(TargetLeaf, vt_identity T, sig)
        \<in> set (history E TABLE A (member_credential (members i)) (member_life (members i)))"
      "vote_packet i (vt_identity T) sig \<in> set packets"
      using honest [OF i] by blast
    have "authenticate_vote E TABLE (vt_identity T) ?keys (vote_packet i (vt_identity T) sig)
        = Inr \<lparr>vote_position = i, vote_target = vt_identity T, vote_signature = sig\<rparr>"
      using honest [OF i] i small bounds assms(5)
      by (intro signed_vote_authenticates [OF assms(1) _ sig(1)]) simp_all
    with sig(2) have "\<lparr>vote_position = i, vote_target = vt_identity T, vote_signature = sig\<rparr>
        \<in> set (valid_votes E TABLE T packets)"
      unfolding valid_votes_iff by blast
    then show ?thesis by force
  qed
  then have "{..<?n} - corrupt \<subseteq> vote_position ` set (valid_votes E TABLE T packets)" by auto
  then have "card ({..<?n} - corrupt) \<le> card (vote_position ` set (valid_votes E TABLE T packets))"
    by (intro card_mono) simp_all
  moreover have "inventory_threshold ?n \<le> card ({..<?n} - corrupt)"
    using inventory.honest_form_quorum [of "{..<?n}" corrupt] assms(3,4) by (auto simp: tolerated_def)
  ultimately show ?thesis unfolding certificate_iff by linarith
qed

section \<open>A concrete ceremony\<close>

text \<open>
  Five members, the last of them corrupt.  One sample credential stands for all of them; its life is
  that of \<open>Participant_Safety\<close>.
\<close>

definition sample_member :: member where
  "sample_member = \<lparr>member_credential = sample_credential, member_life = sample_life\<rparr>"

definition voted_target :: verified_evaluation_target where
  "voted_target =
     \<lparr> vt_poll = bar_poll,
       vt_setup = bar_setup\<lparr>inputs_selection := (inputs_selection bar_setup)\<lparr>as_roster :=
         (as_roster (inputs_selection bar_setup))\<lparr>auth_proposal :=
           (auth_proposal (as_roster (inputs_selection bar_setup)))\<lparr>roster_records := replicate 5 (bar_record 0)\<rparr>\<rparr>\<rparr>\<rparr>,
       vt_classified = None, vt_body = [], vt_identity = replicate 64 8, vt_ciphertext = None \<rparr>"

definition cast_packets :: "bytes list" where
  "cast_packets = map (\<lambda>i. vote_packet i (replicate 64 8) (sample_signed TargetLeaf (replicate 64 8))) [0, 1, 2, 3]"

lemma voted_keys: "roster_keys (vt_setup voted_target) = replicate 5 sample_key"
  by (simp add: roster_keys_def voted_target_def inputs_roster_def bar_record_def bar_key_def
      sample_key_def sample_credential_def)

lemma sample_vote:
  "(TargetLeaf, replicate 64 8, sample_signed TargetLeaf (replicate 64 8))
     \<in> set (history sample_externals sample_TABLE sample_aead (member_credential sample_member) (member_life sample_member))"
  by (simp add: sample_member_def sample_history)

lemma one_corrupt: "tolerated 5 {4}"
  by (simp add: tolerated_def maximum_corrupt_participants_def)

lemma sample_member_credential:
  "check_retained sample_externals (member_credential sample_member)"
  "signing_public (member_credential sample_member) = sample_key"
  by (simp_all add: sample_member_def sample_credential_def sample_key_def)

lemma voted_supported: "participants_supported sample_TABLE (length (roster_keys (vt_setup voted_target)))"
  using sample_supported by (simp only: voted_keys length_replicate)

lemma sample_voter:
  assumes "i < length (roster_keys (vt_setup voted_target))" "i \<notin> {4 :: nat}"
  shows "check_retained sample_externals (member_credential sample_member)
    \<and> roster_keys (vt_setup voted_target) ! i = signing_public (member_credential sample_member)
    \<and> (\<exists>sig. (TargetLeaf, vt_identity voted_target, sig) \<in> set (history sample_externals sample_TABLE sample_aead
          (member_credential sample_member) (member_life sample_member))
        \<and> vote_packet i (vt_identity voted_target) sig \<in> set cast_packets)"
proof -
  have "i \<in> {0, 1, 2, 3}" "i < 5" using assms by (auto simp: voted_keys)
  then show ?thesis
    using sample_vote sample_member_credential unfolding voted_keys
    by (auto simp: voted_target_def cast_packets_def intro!: exI [of _ "sample_signed TargetLeaf (replicate 64 8)"])
qed

lemma voted_certificate:
  assumes "set cast_packets \<subseteq> set packets"
  shows "\<exists>C. collector_certificate (collect sample_externals sample_TABLE voted_target packets) = Inr C
     \<and> votes_cast sample_externals sample_TABLE sample_aead (\<lambda>_. sample_member) {4} C"
proof -
  have "\<exists>C. collector_certificate (collect sample_externals sample_TABLE voted_target packets) = Inr C"
  proof (rule honest_votes_suffice [OF sample_permutation voted_supported, where corrupt = "{4}"
        and members = "\<lambda>_. sample_member" and A = sample_aead])
    fix i
    assume "i < length (roster_keys (vt_setup voted_target))" "i \<notin> {4 :: nat}"
    from sample_voter [OF this] assms show "check_retained sample_externals (member_credential sample_member)
      \<and> roster_keys (vt_setup voted_target) ! i = signing_public (member_credential sample_member)
      \<and> (\<exists>sig. (TargetLeaf, vt_identity voted_target, sig) \<in> set (history sample_externals sample_TABLE sample_aead
            (member_credential sample_member) (member_life sample_member))
          \<and> vote_packet i (vt_identity voted_target) sig \<in> set packets)"
      by blast
  qed (simp_all add: one_corrupt voted_keys, simp add: voted_target_def)
  then obtain C where C: "collector_certificate (collect sample_externals sample_TABLE voted_target packets) = Inr C"
    by blast
  have "vote_target v = replicate 64 8" if "v \<in> set (certificate_votes C)" for v
    using certificate_quorum(4) [OF C that] by (simp add: voted_target_def)
  with C show ?thesis using sample_vote by (auto simp: votes_cast_def has_signed_def)
qed

text \<open>A selection of the five, endorsed by four of them.\<close>

definition quorum_roster :: authenticated_roster where
  "quorum_roster = sample_auth\<lparr>auth_proposal := (auth_proposal sample_auth)\<lparr>roster_records := replicate 5 sample_record\<rparr>\<rparr>"

definition quorum_selection :: selection_proposal where
  "quorum_selection = selection_of sample_externals (replicate 64 3) [(0, replicate 64 1), (1, replicate 64 2)]"

definition quorum_proposal :: authenticated_selection where
  "quorum_proposal =
     \<lparr> as_roster = quorum_roster, as_selection = quorum_selection,
       as_signature = sample_signed SelectionLeaf (selection_identity quorum_selection) \<rparr>"

definition quorum_message :: "nat \<Rightarrow> bytes" where
  "quorum_message i = projr (endorsement_identity sample_externals (selection_identity quorum_selection) i)"

definition quorum_endorsement :: "nat \<Rightarrow> authenticated_endorsement" where
  "quorum_endorsement i =
     \<lparr> ae_roster = replicate 64 3, ae_position = i, ae_selection = selection_identity quorum_selection,
       ae_signature = sample_signed EndorsementLeaf (quorum_message i) \<rparr>"

definition quorum_endorsements :: "authenticated_endorsement list" where
  "quorum_endorsements = map quorum_endorsement [0, 1, 2, 3]"

definition quorum_context :: "nat \<Rightarrow> retained_context" where
  "quorum_context i =
     \<lparr> ctx_poll = replicate 64 1, ctx_proposal = replicate 64 3, ctx_position = i, ctx_owner_body = replicate 64 9,
       ctx_profile = sample_profile, ctx_role = [], ctx_source_binding = [] \<rparr>"

definition endorser :: "nat \<Rightarrow> member" where
  "endorser i =
     \<lparr> member_credential = sample_credential,
       member_life = [SignRegistration sample_digest, ConfirmRoster (quorum_context i),
                      EndorseSelection quorum_roster quorum_selection i] \<rparr>"

lemma sample_signed_verifies:
  "length (sample_signed l m) = SIGNATURE_BYTES"
  "verify_context sample_externals sample_key (leaf_context l) m (sample_signed l m)"
proof -
  obtain s where "sign_deterministically sample_externals sample_credential m (leaf_context l) = Inr s"
    "length s = SIGNATURE_BYTES" "verify_context sample_externals sample_key (leaf_context l) m s"
    using sign_deterministically_verifies [OF sample_permutation leaf_context_known, of sample_credential m l]
    by (auto simp: sample_credential_def sample_key_def)
  then show "length (sample_signed l m) = SIGNATURE_BYTES"
    "verify_context sample_externals sample_key (leaf_context l) m (sample_signed l m)"
    by (simp_all add: sample_signed_def)
qed

lemma quorum_fields:
  "roster_size quorum_roster = 5" "roster_identity (auth_proposal quorum_roster) = replicate 64 3"
  "roster_records (auth_proposal quorum_roster) = replicate 5 sample_record"
  "roster_profile (auth_proposal quorum_roster) = sample_profile"
  "roster_organizer_position (auth_proposal quorum_roster) = 0" "member_key sample_record = sample_key"
  "participants sample_profile = 5"
  by (simp_all add: quorum_roster_def sample_auth_def sample_profile_def sample_record_def)

lemma quorum_choice: "valid_choice sample_profile [(0, replicate 64 1), (1, replicate 64 2)]"
  by (simp add: valid_choice_def sample_profile_def setup_contributors_def setup_eligible_contributors_def
      release_threshold_def maximum_corrupt_participants_def)

lemma quorum_selection_fields:
  "selection_roster quorum_selection = replicate 64 3" "length (selection_identity quorum_selection) = 64"
  "selection_decode sample_externals (auth_proposal quorum_roster) (selection_body quorum_selection) = Inr quorum_selection"
proof -
  show "selection_roster quorum_selection = replicate 64 3" "length (selection_identity quorum_selection) = 64"
    using sample_shake_ok by (simp_all add: quorum_selection_def selection_of_def Let_def shake_ok_def)
  have "length (selection_body quorum_selection) \<le> MAXIMUM_SELECTION_BYTES"
    by (simp add: quorum_selection_def selection_of_def Let_def selection_size MAXIMUM_SELECTION_BYTES_def)
  moreover have "participants sample_profile \<le> 255" by (simp add: sample_profile_def)
  ultimately show "selection_decode sample_externals (auth_proposal quorum_roster) (selection_body quorum_selection)
      = Inr quorum_selection"
    using quorum_choice by (subst selection_decode_iff) (auto simp: quorum_fields quorum_selection_def)
qed

lemma quorum_identity:
  "i < 5 \<Longrightarrow> endorsement_identity sample_externals (selection_identity quorum_selection) i = Inr (quorum_message i)"
  by (simp add: quorum_message_def endorsement_identity_value quorum_selection_fields)

lemma quorum_authentic:
  "authenticate_selection sample_externals quorum_roster (selection_body (as_selection quorum_proposal))
     (as_signature quorum_proposal) = Inr quorum_proposal"
  using sample_signed_verifies [of SelectionLeaf "selection_identity quorum_selection"]
  by (simp add: authenticate_selection_def quorum_proposal_def quorum_selection_fields quorum_fields try_array_def
      verify_member_def get_def)

lemma quorum_endorsed: "endorsed sample_externals quorum_roster quorum_proposal quorum_endorsements"
proof -
  have each: "endorsement sample_externals quorum_roster quorum_selection i (ae_signature (quorum_endorsement i))
      = Inr (quorum_endorsement i)" if "i < 5" for i
    using sample_signed_verifies [of EndorsementLeaf "quorum_message i"] that
    by (simp add: endorsement_def quorum_identity verify_member_def quorum_fields get_def quorum_endorsement_def)
  have fields: "ae_position (quorum_endorsement i) = i" "length (ae_signature (quorum_endorsement i)) = SIGNATURE_BYTES" for i
    using sample_signed_verifies(1) [of EndorsementLeaf "quorum_message i"] by (simp_all add: quorum_endorsement_def)
  have "length quorum_endorsements = inventory_threshold 5"
    by (simp add: quorum_endorsements_def inventory_threshold_def maximum_corrupt_participants_def)
  moreover have "set quorum_endorsements = quorum_endorsement ` {0, 1, 2, 3}"
    "map ae_position quorum_endorsements = [0, 1, 2, 3]"
    by (simp_all add: quorum_endorsements_def fields)
  ultimately show ?thesis
    using each by (auto simp: endorsed_def quorum_fields quorum_proposal_def fields sample_profile_def)
qed

lemma endorser_signs:
  assumes "i < 5"
  shows "has_signed sample_externals sample_TABLE sample_aead (endorser i) EndorsementLeaf (quorum_message i)"
proof -
  let ?c = "life1\<lparr>confirmed := Some \<lparr>held_proposal = replicate 64 3, held_position = i\<rparr>\<rparr>"
  let ?d = "?c\<lparr>selection_endorsed := Some (selection_identity quorum_selection)\<rparr>"
  have fresh: "confirmed life1 = None" "completed_body life1 = Some (replicate 64 9)" "locked_purposes life1 = 0"
    "preparation_retired life1 = False" "selection_endorsed life1 = None" "signing_public life1 = sample_key"
    "signing_seed life1 = sample_seed"
    by (simp_all add: life1_def sample_fields) (simp_all add: sample_credential_def from_seed_def)
  have confirm: "perform sample_externals sample_TABLE sample_aead (ConfirmRoster (quorum_context i)) life1 = (?c, Inr None)"
    by (simp add: confirm_roster_def fresh quorum_context_def silent_def)
  have endorse: "perform sample_externals sample_TABLE sample_aead (EndorseSelection quorum_roster quorum_selection i) ?c
      = (?d, Inr (Some (EndorsementLeaf, quorum_message i, sample_signed EndorsementLeaf (quorum_message i))))"
    using assms sample_sign [of ?d "quorum_message i" EndorsementLeaf]
    by (simp add: endorse_selection_def check_confirmed_position_def quorum_fields get_def fresh holds_roster_def
        quorum_selection_fields quorum_identity unlocked_all emitting_def endorsement_packet_def Let_def)
      (simp add: sample_record_def)
  show ?thesis
    using confirm endorse
    by (auto simp: has_signed_def endorser_def emits_def life_steps after_def simp del: perform.simps)
qed

text \<open>A member that casts the ballot of the sample close and responds to its intent.\<close>

definition ballot_member :: member where
  "ballot_member =
     \<lparr> member_credential = sample_credential,
       member_life = take 5 sample_life @ [SignCloseResponse sample_owner sample_auth (bar_response 0)] \<rparr>"

lemma ballot_member_life:
  "run sample_externals sample_TABLE sample_aead (member_credential ballot_member) (take 5 sample_life) = life4"
  "emits sample_externals sample_TABLE sample_aead life4 (SignCloseResponse sample_owner sample_auth (bar_response 0))
     = Some (ResponseLeaf, response_identity (bar_response 0), sample_signed ResponseLeaf (response_identity (bar_response 0)))"
  "has_signed sample_externals sample_TABLE sample_aead ballot_member BallotLeaf bar_envelope"
proof -
  show "run sample_externals sample_TABLE sample_aead (member_credential ballot_member) (take 5 sample_life) = life4"
    by (simp add: ballot_member_def sample_life_def)
  show "emits sample_externals sample_TABLE sample_aead life4 (SignCloseResponse sample_owner sample_auth (bar_response 0))
     = Some (ResponseLeaf, response_identity (bar_response 0), sample_signed ResponseLeaf (response_identity (bar_response 0)))"
    using sample_close_owner [of life4]
    by (simp add: emits_def life_simps sign_close_response_def then_op_def sign_close_def locked_identity_def
        bar_response_def bar_envelope_def sample_ballot_def del: close_context.simps)
  show "has_signed sample_externals sample_TABLE sample_aead ballot_member BallotLeaf bar_envelope"
    by (auto simp: has_signed_def ballot_member_def sample_life_def emits_def life_steps bar_envelope_def
        sample_ballot_def [symmetric] simp del: perform.simps)
qed

abbreviation quorum_certificate :: authenticated_certificate where
  "quorum_certificate \<equiv>
     \<lparr> ac_proposal = quorum_proposal, ac_endorsements = quorum_endorsements,
       ac_bytes = certificate_body quorum_proposal quorum_endorsements \<rparr>"

lemma quorum_made:
  "endorsements_made sample_externals sample_TABLE sample_aead endorser {4} quorum_certificate"
  using endorser_signs quorum_identity
  by (auto simp: endorsements_made_def quorum_endorsements_def quorum_endorsement_def)

section \<open>Properties\<close>

text \<open>
  C8. At most one target of a roster is certified: two certificates that collectors of the same
  roster give out, from whatever packets, are for targets of one identity, when no more positions
  are corrupt than the roster tolerates and the votes of the others were cast by their
  credentials.
\<close>

theorem certified_targets_agree:
  assumes "collector_certificate (collect E TABLE T1 packets1) = Inr C1"
    and "collector_certificate (collect E TABLE T2 packets2) = Inr C2"
    and "roster_keys (vt_setup T2) = roster_keys (vt_setup T1)" "roster_keys (vt_setup T1) \<noteq> []"
    and "tolerated (length (roster_keys (vt_setup T1))) corrupt"
    and "votes_cast E TABLE A members corrupt C1" "votes_cast E TABLE A members corrupt C2"
  shows "vt_identity T1 = vt_identity T2"
  by (rule certified_targets_one [OF assms])

theorem certified_targets_agree_witness:
  "\<exists>C1 C2. collector_certificate (collect sample_externals sample_TABLE voted_target cast_packets) = Inr C1
    \<and> collector_certificate (collect sample_externals sample_TABLE voted_target (rev cast_packets)) = Inr C2
    \<and> vt_identity (certificate_target C1) = vt_identity (certificate_target C2)"
proof -
  obtain C1 C2 where C1: "collector_certificate (collect sample_externals sample_TABLE voted_target cast_packets) = Inr C1"
      "votes_cast sample_externals sample_TABLE sample_aead (\<lambda>_. sample_member) {4} C1"
    and C2: "collector_certificate (collect sample_externals sample_TABLE voted_target (rev cast_packets)) = Inr C2"
      "votes_cast sample_externals sample_TABLE sample_aead (\<lambda>_. sample_member) {4} C2"
    using voted_certificate [of cast_packets] voted_certificate [of "rev cast_packets"] by auto
  have "tolerated (length (roster_keys (vt_setup voted_target))) {4}" "roster_keys (vt_setup voted_target) \<noteq> []"
    using one_corrupt by (simp_all add: voted_keys)
  from certified_targets_agree [OF C1(1) C2(1) refl this(2,1) C1(2) C2(2)]
  have "vt_identity (certificate_target C1) = vt_identity (certificate_target C2)"
    by (simp only: certificate_quorum(1) [OF C1(1)] certificate_quorum(1) [OF C2(1)])
  with C1(1) C2(1) show ?thesis by blast
qed

text \<open>
  C9. Honest votes suffice: when every position that is not corrupt holds a credential of the
  roster's key that has signed the target's identity, and the collector receives these votes among
  whatever other packets, in whatever order, it certifies the target.
\<close>

theorem honest_votes_certify:
  assumes "permutation_ok E" "participants_supported TABLE (length (roster_keys (vt_setup T)))"
    and "roster_keys (vt_setup T) \<noteq> []" "tolerated (length (roster_keys (vt_setup T))) corrupt"
    and "length (vt_identity T) = 64"
    and "\<And>i. i < length (roster_keys (vt_setup T)) \<Longrightarrow> i \<notin> corrupt \<Longrightarrow>
      check_retained E (member_credential (members i))
      \<and> roster_keys (vt_setup T) ! i = signing_public (member_credential (members i))
      \<and> (\<exists>sig. (TargetLeaf, vt_identity T, sig)
              \<in> set (history E TABLE A (member_credential (members i)) (member_life (members i)))
            \<and> vote_packet i (vt_identity T) sig \<in> set packets)"
  shows "\<exists>C. collector_certificate (collect E TABLE T packets) = Inr C"
  by (rule honest_votes_suffice [OF assms])

theorem honest_votes_certify_witness:
  "\<exists>C. collector_certificate (collect sample_externals sample_TABLE voted_target cast_packets) = Inr C"
  by (rule honest_votes_certify [OF sample_permutation voted_supported _ _ _ sample_voter, where corrupt = "{4}"])
    (simp_all add: one_corrupt voted_keys, simp_all add: voted_target_def)

text \<open>
  C10. The bytes of a selection certificate determine it: they authenticate exactly if they are the
  length-prefixed body of an authentic proposal, the organizer's signature, and the entries of a
  quorum of endorsements in ascending order of position, each verifying under its member's key.
\<close>

theorem selection_certificates_are_exact:
  assumes "participants (roster_profile (auth_proposal A)) \<le> 255" "length (roster_identity (auth_proposal A)) = 64"
  shows "authenticate_certificate E A bs = Inr C \<longleftrightarrow>
    (\<exists>P es. C = \<lparr>ac_proposal = P, ac_endorsements = es, ac_bytes = bs\<rparr>
       \<and> authenticate_selection E A (selection_body (as_selection P)) (as_signature P) = Inr P
       \<and> endorsed E A P es \<and> bs = certificate_body P es)"
  using certificate_sound [OF _ assms] certificate_complete [OF _ _ assms] by blast

theorem selection_certificates_are_exact_witness:
  "authenticate_certificate sample_externals quorum_roster (certificate_body quorum_proposal quorum_endorsements)
     = Inr quorum_certificate"
  using quorum_authentic quorum_endorsed
  by (subst selection_certificates_are_exact) (simp_all add: quorum_fields)

text \<open>
  C7. At most one selection of a roster is certified: two certificates that authenticate for the
  same roster carry the same proposal body, or a collision among what is hashed for the two, when
  no more positions are corrupt than the roster tolerates and the endorsements of the others were
  made by their credentials.
\<close>

theorem certified_selections_agree:
  assumes "authenticate_certificate E R bs1 = Inr C1" "authenticate_certificate E R bs2 = Inr C2"
    and "0 < roster_size R" "roster_size R \<le> 255" "length (roster_identity (auth_proposal R)) = 64" "shake_ok E"
    and "tolerated (roster_size R) corrupt"
    and "endorsements_made E TABLE A members corrupt C1" "endorsements_made E TABLE A members corrupt C2"
  shows "selection_body (certified C1) = selection_body (certified C2)
    \<or> (\<exists>x \<in> selection_preimages (certified C1) (roster_size R). \<exists>y \<in> selection_preimages (certified C2) (roster_size R).
         x \<noteq> y \<and> shake256 E x = shake256 E y)"
  by (rule certified_selections_one [OF assms])

theorem certified_selections_agree_witness:
  "\<exists>C. authenticate_certificate sample_externals quorum_roster (certificate_body quorum_proposal quorum_endorsements) = Inr C
     \<and> (selection_body (certified C) = selection_body quorum_selection
        \<or> (\<exists>x \<in> selection_preimages (certified C) 5. \<exists>y \<in> selection_preimages quorum_selection 5.
             x \<noteq> y \<and> shake256 sample_externals x = shake256 sample_externals y))"
proof -
  have "authenticate_certificate sample_externals quorum_roster (certificate_body quorum_proposal quorum_endorsements)
      = Inr quorum_certificate"
    using quorum_authentic quorum_endorsed
    by (intro certificate_complete) (simp_all add: quorum_fields)
  from certified_selections_agree [OF this this _ _ _ sample_shake_ok _ quorum_made quorum_made] this
  show ?thesis using one_corrupt by (simp add: quorum_fields quorum_proposal_def)
qed

text \<open>
  C6. An honest ballot counts: when a member whose credential locked the intent has its response
  named by the proposal of a verified barrier, its own slot of the barrier is usable and holds the
  very envelope it signed in time.  It is assumed that what the verifiers hold under the member's
  key was signed by its credential, that every listed identity is supported by an envelope, and
  that the hashes of the envelopes and responses at hand do not collide.
\<close>

theorem honest_ballot_is_usable:
  assumes "verify_proposal E TABLE V intent body signature responses bodies = Inr B"
    and "owner_position owner < participant_count V"
      "owner_position owner \<in> fst ` set (close_proposal_responses (barrier_proposal B))"
    and "member_life p = before @ SignCloseResponse owner roster m # later"
      "close_lock (run E TABLE A (member_credential p) before) = Some (intent_identity intent, intent_close_time intent)"
      "emits E TABLE A (run E TABLE A (member_credential p) before) (SignCloseResponse owner roster m) = Some e"
    and "has_signed E TABLE A p BallotLeaf envelope" "envelope_ballot_time envelope \<le> intent_close_time intent"
    and "\<forall>r \<in> set responses. \<forall>entry \<in> set (response_listed r).
      supported_entry E (intent_close_time intent) available entry"
    and "ballots_signed E TABLE A p (owner_position owner) available"
      "responses_signed E TABLE A p (owner_position owner) responses"
    and "inj_on response_identity (insert m (set responses))"
      "inj_on (envelope_identity E) (insert envelope (body_envelope ` set bodies))"
  shows "\<exists>b \<in> set bodies. barrier_slots B ! owner_position owner = Usable b \<and> body_envelope b = envelope"
  by (rule own_ballot_usable [OF assms])

theorem honest_ballot_is_usable_witness:
  "\<exists>body signature B. verify_proposal sample_externals sample_TABLE bar_verifier bar_intent body signature
      bar_responses [bar_body] = Inr B
    \<and> barrier_slots B ! 0 = Usable bar_body \<and> body_envelope bar_body = bar_envelope"
proof -
  obtain body signature B where B: "verify_proposal sample_externals sample_TABLE bar_verifier bar_intent body signature
      bar_responses [bar_body] = Inr B"
    and named: "close_proposal_responses (barrier_proposal B)
      = map (\<lambda>m. (response_responder m, response_identity m)) bar_responses"
    using bar_barrier by blast
  note life = ballot_member_life
  have own: "owner_position sample_owner = 0" by (simp add: sample_owner_def)
  have shape: "member_life ballot_member = take 5 sample_life @ SignCloseResponse sample_owner sample_auth (bar_response 0) # []"
    by (simp add: ballot_member_def)
  have lock: "close_lock life4 = Some (intent_identity bar_intent, intent_close_time bar_intent)"
    by (simp add: life4_def bar_intent_def)
  have authors: "ballots_signed sample_externals sample_TABLE sample_aead ballot_member 0 [body_authentication bar_body]"
    "responses_signed sample_externals sample_TABLE sample_aead ballot_member 0 bar_responses"
    using life(3) signed_response [of sample_externals sample_TABLE sample_aead sample_credential "take 5 sample_life"] life(1,2)
    by (auto simp: ballots_signed_def responses_signed_def bar_body_def bar_fields has_signed_def ballot_member_def
        simp del: perform.simps)
  have supported: "\<forall>r \<in> set bar_responses. \<forall>entry \<in> set (response_listed r). supported_entry sample_externals
      (intent_close_time bar_intent) [body_authentication bar_body] entry"
    by (auto simp: bar_fields bar_response_def supported_entry_def bar_body_def bar_envelope_fields bar_intent_def)
  have free: "inj_on response_identity (insert (bar_response 0) (set bar_responses))"
    "inj_on (envelope_identity sample_externals) (insert bar_envelope (body_envelope ` set [bar_body]))"
    by (auto simp: inj_on_def bar_fields bar_response_def bar_body_def replicate_eq_replicate)
  have "\<exists>b \<in> set [bar_body]. barrier_slots B ! owner_position sample_owner = Usable b \<and> body_envelope b = bar_envelope"
  proof (rule honest_ballot_is_usable [OF B _ _ shape _ _ life(3) _ supported _ _ free])
    show "owner_position sample_owner \<in> fst ` set (close_proposal_responses (barrier_proposal B))"
      by (simp add: own named bar_fields)
    show "ballots_signed sample_externals sample_TABLE sample_aead ballot_member (owner_position sample_owner)
        [body_authentication bar_body]"
      "responses_signed sample_externals sample_TABLE sample_aead ballot_member (owner_position sample_owner) bar_responses"
      using authors by (simp_all only: own)
  qed (simp_all only: life(1,2) lock, simp_all add: own bar_verifier_new(2) bar_envelope_fields bar_intent_def)
  with B own show ?thesis by (intro exI [of _ body] exI [of _ signature] exI [of _ B]) (simp add: own)
qed

end
