(* ===== verification/Residues.thy ===== *)
theory Residues
  imports Supported_Profile "HOL-Library.Numeral_Type"
begin

text \<open>
  Arithmetic modulo the plaintext modulus (\<open>supported-profile/src/plaintext.rs\<close>, \<open>multiply\<close>,
  \<open>power\<close>, \<open>centered\<close>, \<open>primitive_root\<close>).  The residues of the source are 32-bit words below the
  modulus and its products are taken in 64 bits, so nothing wraps and they are naturals here.  The
  numeral type \<open>12289\<close> is the ring they stand for.
\<close>

section \<open>The operations\<close>

definition multiply :: "nat \<Rightarrow> nat \<Rightarrow> nat" where
  "multiply left right = left * right mod PLAINTEXT_MODULUS"

fun power_loop :: "nat \<Rightarrow> nat \<Rightarrow> nat \<Rightarrow> nat" where
  "power_loop result value_now exponent =
     (if exponent = 0 then result
      else power_loop (if odd exponent then multiply result value_now else result)
             (multiply value_now value_now) (exponent div 2))"

declare power_loop.simps [simp del]

definition power_mod :: "nat \<Rightarrow> nat \<Rightarrow> nat" where
  "power_mod value_now exponent = power_loop 1 value_now exponent"

definition centered :: "nat \<Rightarrow> int" where
  "centered v = (if v > PLAINTEXT_MODULUS div 2 then int v - int PLAINTEXT_MODULUS else int v)"

definition is_power_of_two :: "nat \<Rightarrow> bool" where
  "is_power_of_two n \<longleftrightarrow> n = 2 ^ (bit_length n - 1)"

text \<open>An assertion that fails is \<open>None\<close>.\<close>

definition primitive_root :: "nat \<Rightarrow> nat option" where
  "primitive_root order =
     (if is_power_of_two order \<and> (PLAINTEXT_MODULUS - 1) mod order = 0
      then Some (power_mod 11 ((PLAINTEXT_MODULUS - 1) div order)) else None)"

section \<open>The ring of residues\<close>

type_synonym residue = "12289"

abbreviation res :: "nat \<Rightarrow> residue" where "res \<equiv> of_nat"

lemma CARD_residue: "CARD(residue) = PLAINTEXT_MODULUS"
  by (simp add: PLAINTEXT_MODULUS_def)

lemma modulus_positive [simp]: "0 < PLAINTEXT_MODULUS"
  by (simp add: PLAINTEXT_MODULUS_def)

lemma res_0_iff: "res n = 0 \<longleftrightarrow> PLAINTEXT_MODULUS dvd n"
  unfolding of_nat_eq_0_iff_char_dvd by (simp add: CARD_residue del: card_bit1)

lemma res_modulus [simp]: "res PLAINTEXT_MODULUS = 0"
  by (simp add: res_0_iff)

lemma res_mod [simp]: "res (n mod PLAINTEXT_MODULUS) = res n"
proof -
  have "res n = res (n div PLAINTEXT_MODULUS * PLAINTEXT_MODULUS + n mod PLAINTEXT_MODULUS)" by simp
  then show ?thesis by (simp only: of_nat_add of_nat_mult res_modulus) simp
qed

lemma res_eq_iff: "res a = res b \<longleftrightarrow> a mod PLAINTEXT_MODULUS = b mod PLAINTEXT_MODULUS"
proof -
  have "a mod PLAINTEXT_MODULUS = b mod PLAINTEXT_MODULUS" if "b \<le> a" "res a = res b" for a b
  proof -
    have "res (a - b) = 0" using that by (simp add: of_nat_diff)
    then show ?thesis using that(1) unfolding res_0_iff by (simp add: mod_eq_dvd_iff_nat)
  qed
  from this [of b a] this [of a b] show ?thesis
    by (metis linear res_mod)
qed

lemma res_inject: "a < PLAINTEXT_MODULUS \<Longrightarrow> b < PLAINTEXT_MODULUS \<Longrightarrow> res a = res b \<longleftrightarrow> a = b"
  by (simp add: res_eq_iff)

lemma res_int: "of_int z = res (nat (z mod int PLAINTEXT_MODULUS))"
proof -
  have "z = int PLAINTEXT_MODULUS * (z div int PLAINTEXT_MODULUS) + z mod int PLAINTEXT_MODULUS" by simp
  then have "(of_int z :: residue) = of_int (int PLAINTEXT_MODULUS) * of_int (z div int PLAINTEXT_MODULUS)
      + of_int (z mod int PLAINTEXT_MODULUS)"
    by (metis of_int_add of_int_mult)
  also have "(of_int (int PLAINTEXT_MODULUS) :: residue) = 0" by (simp only: of_int_of_nat_eq res_modulus)
  finally show ?thesis by (simp add: of_nat_nat)
qed

lemma res_multiply [simp]: "res (multiply a b) = res a * res b"
  by (simp add: multiply_def)

lemma multiply_bounded [simp]: "multiply a b < PLAINTEXT_MODULUS"
  by (simp add: multiply_def)

lemma res_difference [simp]:
  "b \<le> PLAINTEXT_MODULUS \<Longrightarrow> res ((a + PLAINTEXT_MODULUS - b) mod PLAINTEXT_MODULUS) = res a - res b"
  by (simp add: of_nat_diff)

lemma power_halve: "x ^ e = (x * x) ^ (e div 2) * (if odd e then x else 1)" for x :: "'a :: comm_monoid_mult"
proof (cases "even e")
  case True
  then obtain k where "e = 2 * k" by blast
  then show ?thesis by (simp add: power_mult power2_eq_square)
next
  case False
  then obtain k where "e = 2 * k + 1" by (rule oddE)
  then show ?thesis by (simp add: power_mult power2_eq_square power_mult_distrib power_add mult_2 mult_ac)
qed

lemma res_power_loop: "res (power_loop r v e) = res r * res v ^ e"
proof (induction r v e rule: power_loop.induct)
  case (1 r v e)
  show ?case
    using 1 power_halve [of "res v" e]
    by (cases "e = 0") (simp_all add: power_loop.simps [of r v e] power_loop.simps [of r v 0] ac_simps)
qed

lemma res_power [simp]: "res (power_mod v e) = res v ^ e"
  by (simp add: power_mod_def res_power_loop)

lemma power_loop_bounded: "r < PLAINTEXT_MODULUS \<Longrightarrow> power_loop r v e < PLAINTEXT_MODULUS"
proof (induction r v e rule: power_loop.induct)
  case (1 r v e)
  then show ?case by (cases "e = 0") (simp_all add: power_loop.simps [of r v e] power_loop.simps [of r v 0])
qed

lemma power_bounded [simp]: "power_mod v e < PLAINTEXT_MODULUS"
  unfolding power_mod_def by (rule power_loop_bounded) (simp add: PLAINTEXT_MODULUS_def)

lemma res_centered: "of_int (centered v) = res v"
  by (simp add: centered_def)

section \<open>Inverses\<close>

lemma modulus_prime:
  assumes "d dvd PLAINTEXT_MODULUS"
  shows "d = 1 \<or> d = PLAINTEXT_MODULUS"
proof -
  obtain e where e: "PLAINTEXT_MODULUS = d * e" using assms by blast
  have small: "\<forall>k \<in> set [2..<111]. PLAINTEXT_MODULUS mod k \<noteq> 0"
    by (simp add: PLAINTEXT_MODULUS_def upt_rec_numeral)
  have none: "k = 1" if "k dvd PLAINTEXT_MODULUS" "k < 111" for k
  proof -
    have "k \<noteq> 0" using that(1) by (intro notI) (simp add: PLAINTEXT_MODULUS_def)
    show ?thesis
    proof (rule ccontr)
      assume "k \<noteq> 1"
      then have "k \<in> set [2..<111]" using \<open>k \<noteq> 0\<close> that(2) by (simp only: set_upt) simp
      from bspec [OF small this] show False using that(1) by (simp only: dvd_eq_mod_eq_0)
    qed
  qed
  have "d < 111 \<or> e < 111"
  proof (rule ccontr)
    assume "\<not> ?thesis"
    then have "111 * 111 \<le> d * e" by (intro mult_le_mono) simp_all
    then show False using e by (simp add: PLAINTEXT_MODULUS_def)
  qed
  then have "d = 1 \<or> e = 1" using none [of d] none [of e] e by (metis dvd_triv_left dvd_triv_right)
  then show ?thesis using e by auto
qed

lemma coprime_modulus: "\<not> PLAINTEXT_MODULUS dvd n \<Longrightarrow> coprime n PLAINTEXT_MODULUS"
  using modulus_prime by (metis not_coprimeE dvd_1_left is_unit_gcd_iff is_unit_right_imp_coprime)

lemma choose_modulus:
  assumes "0 < k" "k < PLAINTEXT_MODULUS"
  shows "res (PLAINTEXT_MODULUS choose k) = 0"
proof -
  obtain j where j: "k = Suc j" using assms(1) by (cases k) simp_all
  obtain m where m: "PLAINTEXT_MODULUS = Suc m" using modulus_positive by (cases PLAINTEXT_MODULUS) simp_all
  have "k * (PLAINTEXT_MODULUS choose k) = PLAINTEXT_MODULUS * (m choose j)"
    unfolding j m by (rule Suc_times_binomial)
  then have "PLAINTEXT_MODULUS dvd k * (PLAINTEXT_MODULUS choose k)" by simp
  moreover have "coprime k PLAINTEXT_MODULUS" using assms by (intro coprime_modulus) (auto dest: dvd_imp_le)
  ultimately have "PLAINTEXT_MODULUS dvd (PLAINTEXT_MODULUS choose k)"
    by (simp add: coprime_dvd_mult_right_iff coprime_commute)
  then show ?thesis by (simp only: res_0_iff)
qed

lemma power_modulus_Suc: "(x + 1) ^ PLAINTEXT_MODULUS = x ^ PLAINTEXT_MODULUS + 1" for x :: residue
proof -
  let ?p = PLAINTEXT_MODULUS
  have "(x + 1) ^ ?p = (\<Sum>k\<le>?p. res (?p choose k) * x ^ k)"
    by (simp add: binomial_ring)
  also have "\<dots> = (\<Sum>k\<in>{0, ?p}. res (?p choose k) * x ^ k)"
    using choose_modulus by (intro sum.mono_neutral_right) (auto simp: order_le_less)
  also have "\<dots> = x ^ ?p + 1" by (simp add: PLAINTEXT_MODULUS_def)
  finally show ?thesis .
qed

lemma res_fermat: "res n ^ PLAINTEXT_MODULUS = res n"
proof (induction n)
  case 0
  then show ?case by (simp add: PLAINTEXT_MODULUS_def)
next
  case (Suc n)
  then show ?case using power_modulus_Suc [of "res n"] by (simp add: add.commute)
qed

text \<open>The power the source takes for an inverse is one.\<close>

lemma res_inverse:
  assumes "res n \<noteq> 0"
  shows "res n * res n ^ (PLAINTEXT_MODULUS - 2) = 1"
proof -
  let ?p = PLAINTEXT_MODULUS
  have n: "\<not> ?p dvd n" using assms by (simp add: res_0_iff)
  then have "0 < n" by (cases n) simp_all
  have p: "?p = Suc (Suc (?p - 2))" by (simp add: PLAINTEXT_MODULUS_def)
  have "res (n * (n ^ Suc (?p - 2) - 1)) = res n ^ Suc (Suc (?p - 2)) - res n"
    using \<open>0 < n\<close> by (simp add: of_nat_diff right_diff_distrib Suc_leI)
  also have "\<dots> = 0" using res_fermat [of n] by (subst (asm) p) simp
  finally have "?p dvd n * (n ^ Suc (?p - 2) - 1)" by (simp only: res_0_iff)
  then have "?p dvd n ^ Suc (?p - 2) - 1"
    using coprime_modulus [OF n] by (simp add: coprime_dvd_mult_right_iff coprime_commute)
  then have "res (n ^ Suc (?p - 2) - 1) = 0" by (simp only: res_0_iff)
  then show ?thesis using \<open>0 < n\<close> by (simp add: of_nat_diff Suc_leI)
qed

lemma residue_cases: "\<exists>n. x = res n \<and> n < PLAINTEXT_MODULUS"
proof -
  obtain z where "x = of_int z" by (cases x rule: bit1_cases) blast
  then have "x = res (nat (z mod int PLAINTEXT_MODULUS))" by (simp only: res_int)
  moreover have "nat (z mod int PLAINTEXT_MODULUS) < PLAINTEXT_MODULUS"
    by (simp add: nat_less_iff)
  ultimately show ?thesis by blast
qed

lemma residue_mult_eq_0: "x * y = 0 \<longleftrightarrow> x = 0 \<or> y = 0" for x y :: residue
proof -
  obtain n where n: "x = res n" using residue_cases by blast
  have "y = 0" if "x * y = 0" "x \<noteq> 0"
  proof -
    have "y = res n ^ (PLAINTEXT_MODULUS - 2) * (x * y)"
      using arg_cong [OF res_inverse [of n], of "\<lambda>z. z * y"] that(2) n by (simp add: ac_simps)
    then show ?thesis using that(1) by simp
  qed
  then show ?thesis by auto
qed

section \<open>Roots of unity\<close>

lemma is_power_of_two_power [simp]: "is_power_of_two (2 ^ k)"
proof -
  have "bit_length (2 ^ k) = Suc k" by (induction k) (simp_all add: bit_length.simps)
  then show ?thesis by (simp add: is_power_of_two_def)
qed

lemma root_minus_one:
  assumes "k \<le> 11"
  shows "\<exists>w. primitive_root (2 ^ Suc k) = Some w \<and> w < PLAINTEXT_MODULUS \<and> res w ^ (2 ^ k) = - 1"
proof -
  have dvd: "(PLAINTEXT_MODULUS - 1) mod 2 ^ Suc k = 0"
  proof -
    have "(2 :: nat) ^ Suc k dvd 2 ^ 12" using assms by (intro le_imp_power_dvd) simp
    also have "(2 :: nat) ^ 12 dvd PLAINTEXT_MODULUS - 1" by (simp add: PLAINTEXT_MODULUS_def)
    finally show ?thesis by simp
  qed
  let ?e = "(PLAINTEXT_MODULUS - 1) div 2 ^ Suc k"
  have "?e * 2 ^ Suc k = PLAINTEXT_MODULUS - 1"
    using dvd by (intro dvd_div_mult_self) (simp only: dvd_eq_mod_eq_0)
  then have e: "?e * 2 ^ k = 6144" by (simp add: PLAINTEXT_MODULUS_def mult.commute)
  have "power_mod 11 6144 = PLAINTEXT_MODULUS - 1"
    by (simp add: power_mod_def power_loop.simps multiply_def PLAINTEXT_MODULUS_def)
  moreover have "res (PLAINTEXT_MODULUS - 1) = - 1" by (simp add: of_nat_diff Suc_leI)
  ultimately have "res 11 ^ 6144 = - 1" by (simp only: res_power [symmetric])
  then have "res (power_mod 11 ?e) ^ 2 ^ k = - 1"
    by (simp only: res_power power_mult [symmetric] e)
  moreover have "primitive_root (2 ^ Suc k) = Some (power_mod 11 ?e)"
    using dvd is_power_of_two_power [of "Suc k"] by (simp add: primitive_root_def del: power_Suc)
  ultimately show ?thesis using power_bounded by blast
qed

end
