(* ===== verification/Reconstruction.thy ===== *)
theory Reconstruction
  imports Residues Complex_Main
begin

text \<open>
  The weights that reconstruct a shared secret from the shares of a release threshold
  (\<open>evaluation-target/src/interpolation.rs\<close>).  They are polynomials with integer coefficients
  modulo \<open>X ^ R + 1\<close>; roster position \<open>a\<close> stands for the point \<open>X ^ a\<close>.  The theory
  proves that the weights of every admissible set of positions exist (no arithmetic overflow, and
  the clearing factor divides out every denominator) and reconstruct.
\<close>

section \<open>The operations\<close>

text \<open>A signed word whose value does not fit ends the source in a panic.\<close>

definition i64 :: "int \<Rightarrow> int option" where
  "i64 v = (if - (2 ^ 63) \<le> v \<and> v < 2 ^ 63 then Some v else None)"

definition monomial :: "nat \<Rightarrow> nat \<Rightarrow> int list" where
  "monomial exponent degree =
     (replicate degree 0)[exponent mod degree := if even (exponent div degree) then 1 else - 1]"

fun product_row :: "nat \<Rightarrow> nat \<Rightarrow> int \<Rightarrow> int list \<Rightarrow> nat \<Rightarrow> int list \<Rightarrow> int list option" where
  "product_row degree first left [] second result = Some result"
| "product_row degree first left (right # rest) second result = do {
     summand \<leftarrow> i64 (left * right);
     result \<leftarrow>
       (if first + second < degree
        then map_option (\<lambda>v. result[first + second := v]) (i64 (result ! (first + second) + summand))
        else map_option (\<lambda>v. result[first + second - degree := v])
               (i64 (result ! (first + second - degree) - summand)));
     product_row degree first left rest (Suc second) result }"

fun product_rows :: "nat \<Rightarrow> nat \<Rightarrow> int list \<Rightarrow> int list \<Rightarrow> int list \<Rightarrow> int list option" where
  "product_rows degree first [] right result = Some result"
| "product_rows degree first (left # rest) right result = do {
     result \<leftarrow> product_row degree first left right 0 result;
     product_rows degree (Suc first) rest right result }"

definition product :: "int list \<Rightarrow> int list \<Rightarrow> int list option" where
  "product left right = product_rows (length left) 0 left right (replicate (length left) 0)"

fun trailing_zeros :: "nat \<Rightarrow> nat" where
  "trailing_zeros n = (if n = 0 \<or> odd n then 0 else Suc (trailing_zeros (n div 2)))"

declare trailing_zeros.simps [simp del]

text \<open>The sum of at most \<open>degree\<close> signed monomials, each zero, one or minus one.\<close>

definition doubled_inverse :: "nat \<Rightarrow> nat \<Rightarrow> int list option" where
  "doubled_inverse exponent degree =
     (let exponent = exponent mod (2 * degree) in
      if exponent = 0 then None
      else Some (fold (\<lambda>index result. map2 (+) result (monomial (exponent * index) degree))
             [0..<degree div 2 ^ trailing_zeros exponent] (replicate degree 0)))"

fun numerator_of :: "nat \<Rightarrow> nat \<Rightarrow> nat list \<Rightarrow> int list \<Rightarrow> int list option" where
  "numerator_of degree member [] numerator = Some numerator"
| "numerator_of degree member (other # rest) numerator = do {
     factor \<leftarrow> doubled_inverse ((member + 2 * degree - other) mod (2 * degree)) degree;
     numerator \<leftarrow> product numerator factor;
     numerator_of degree member rest numerator }"

definition cleared :: "int \<Rightarrow> int \<Rightarrow> int \<Rightarrow> int option" where
  "cleared clearing divisor v = do {
     scaled \<leftarrow> i64 (v * clearing);
     if scaled mod divisor = 0 then Some (scaled div divisor) else None }"

definition cleared_weight :: "profile \<Rightarrow> nat list \<Rightarrow> nat \<Rightarrow> int list option" where
  "cleared_weight p positions member = do {
     numerator \<leftarrow> numerator_of (interpolation_degree p) member (filter (\<lambda>other. other \<noteq> member) positions)
       (monomial 0 (interpolation_degree p));
     those (map (cleared (int (clearing_factor p)) (2 ^ (length positions - 1))) numerator) }"

text \<open>The outer \<open>None\<close> is a panic: an overflow, or an assertion that fails.\<close>

definition cleared_weights :: "profile \<Rightarrow> nat list \<Rightarrow> (unit + int list list) option" where
  "cleared_weights p positions =
     (if length positions \<noteq> release_threshold p \<or> (\<exists>position \<in> set positions. position \<ge> participants p)
         \<or> \<not> sorted_wrt (<) positions
      then Some (Inl ())
      else if length positions - 1 \<ge> 63 then None
      else map_option Inr (those (map (cleared_weight p positions) positions)))"

section \<open>Evaluation at the roots\<close>

text \<open>The points are the complex numbers whose power \<open>R\<close> is minus one.\<close>

definition peval :: "int list \<Rightarrow> complex \<Rightarrow> complex" where
  "peval cs z = (\<Sum>j<length cs. of_int (cs ! j) * z ^ j)"

lemma peval_update:
  assumes "i < length cs"
  shows "peval (cs[i := c]) z = peval cs z + of_int (c - cs ! i) * z ^ i"
proof -
  have "peval (cs[i := c]) z = (\<Sum>j\<in>{..<length cs} - {i}. of_int (cs ! j) * z ^ j) + of_int c * z ^ i"
    unfolding peval_def using assms by (subst sum.remove [of _ i]) (auto simp: add.commute)
  moreover have "peval cs z = (\<Sum>j\<in>{..<length cs} - {i}. of_int (cs ! j) * z ^ j) + of_int (cs ! i) * z ^ i"
    unfolding peval_def using assms by (subst sum.remove [of _ i]) (auto simp: add.commute)
  ultimately show ?thesis by (simp add: algebra_simps)
qed

lemma peval_zero [simp]: "peval (replicate n 0) z = 0"
  by (simp add: peval_def)

lemma length_monomial [simp]: "length (monomial e r) = r"
  by (simp add: monomial_def)

lemma power_at_root:
  fixes z :: complex
  assumes "z ^ r = - 1"
  shows "z ^ e = (if even (e div r) then 1 else - 1) * z ^ (e mod r)"
proof -
  have "z ^ e = z ^ (r * (e div r) + e mod r)" by simp
  also have "\<dots> = (z ^ r) ^ (e div r) * z ^ (e mod r)" by (simp only: power_add power_mult)
  finally show ?thesis by (simp add: assms)
qed

lemma peval_monomial:
  assumes "0 < r" "z ^ r = - 1"
  shows "peval (monomial e r) z = z ^ e"
  unfolding monomial_def using assms(1)
  by (subst peval_update) (simp_all add: power_at_root [OF assms(2), of e])

lemma peval_map2:
  assumes "length a = length b"
  shows "peval (map2 (+) a b) z = peval a z + peval b z"
  using assms by (simp add: peval_def sum.distrib algebra_simps)

text \<open>Coefficients are determined by the values at the roots.\<close>

lemma peval_inject:
  assumes r: "0 < r" "length a = r" "length b = r"
    and eq: "\<And>z. z ^ r = - 1 \<Longrightarrow> peval a z = peval b z"
  shows "a = b"
proof (rule nth_equalityI)
  show "length a = length b" using r by simp
  fix i assume i: "i < length a"
  let ?c = "\<lambda>j. of_int (a ! j - b ! j) :: complex"
  show "a ! i = b ! i"
  proof (rule ccontr)
    assume "a ! i \<noteq> b ! i"
    then have "?c i \<noteq> 0" using of_int_eq_0_iff [where 'a = complex, of "a ! i - b ! i"] by simp
    then have roots: "finite {z. (\<Sum>j\<le>r - 1. ?c j * z ^ j) = 0}" "card {z. (\<Sum>j\<le>r - 1. ?c j * z ^ j) = 0} \<le> r - 1"
      using polyfun_rootbound [of ?c i "r - 1"] i r(2) by simp_all
    have "{..r - 1} = {..<r}" using r(1) by auto
    then have "{z. z ^ r = - 1} \<subseteq> {z. (\<Sum>j\<le>r - 1. ?c j * z ^ j) = 0}"
      using eq r(2,3) by (auto simp: peval_def algebra_simps sum_subtractf)
    then have "card {z :: complex. z ^ r = - 1} \<le> r - 1"
      using card_mono [OF roots(1)] roots(2) by (meson le_trans)
    then show False using card_nth_roots [of "- 1" r] r(1) by simp
  qed
qed

section \<open>Products\<close>

definition weight_norm :: "int list \<Rightarrow> int" where
  "weight_norm cs = (\<Sum>j<length cs. \<bar>cs ! j\<bar>)"

lemma norm_nonneg [simp]: "0 \<le> weight_norm cs"
  by (simp add: weight_norm_def sum_nonneg)

lemma norm_Cons [simp]: "weight_norm (c # cs) = \<bar>c\<bar> + weight_norm cs"
  by (simp add: weight_norm_def lessThan_Suc_eq_insert_0 sum.reindex zero_notin_Suc_image)

lemma norm_Nil [simp]: "weight_norm [] = 0"
  by (simp add: weight_norm_def)

lemma norm_replicate [simp]: "weight_norm (replicate n 0) = 0"
  by (simp add: weight_norm_def)

lemma norm_nth:
  assumes "i < length cs"
  shows "\<bar>cs ! i\<bar> \<le> weight_norm cs"
  unfolding weight_norm_def using assms
  by (intro member_le_sum [where f = "\<lambda>j. \<bar>cs ! j\<bar>"]) auto

lemma norm_update:
  assumes "i < length cs"
  shows "weight_norm (cs[i := c]) \<le> weight_norm cs + \<bar>c - cs ! i\<bar>"
proof -
  have "weight_norm (cs[i := c]) = (\<Sum>j\<in>{..<length cs} - {i}. \<bar>cs ! j\<bar>) + \<bar>c\<bar>"
    unfolding weight_norm_def using assms by (subst sum.remove [of _ i]) (auto simp: add.commute)
  moreover have "weight_norm cs = (\<Sum>j\<in>{..<length cs} - {i}. \<bar>cs ! j\<bar>) + \<bar>cs ! i\<bar>"
    unfolding weight_norm_def using assms by (subst sum.remove [of _ i]) (auto simp: add.commute)
  ultimately show ?thesis by linarith
qed

lemma norm_map2:
  assumes "length a = length b"
  shows "weight_norm (map2 (+) a b) \<le> weight_norm a + weight_norm b"
proof -
  have "weight_norm (map2 (+) a b) = (\<Sum>j<length b. \<bar>a ! j + b ! j\<bar>)"
    using assms by (simp add: weight_norm_def)
  also have "\<dots> \<le> (\<Sum>j<length b. \<bar>a ! j\<bar> + \<bar>b ! j\<bar>)" by (intro sum_mono) linarith
  finally show ?thesis using assms by (simp add: weight_norm_def sum.distrib)
qed

lemma norm_monomial:
  assumes "0 < r"
  shows "weight_norm (monomial e r) \<le> 1"
  unfolding monomial_def using norm_update [of "e mod r" "replicate r 0" "if even (e div r) then 1 else - 1"] assms
  by (simp split: if_splits)

lemma i64_small: "\<bar>v\<bar> < 2 ^ 63 \<Longrightarrow> i64 v = Some v"
  by (simp add: i64_def abs_less_iff)

lemma peval_Cons: "peval (c # cs) z = of_int c + z * peval cs z"
  by (simp add: peval_def lessThan_Suc_eq_insert_0 sum.reindex zero_notin_Suc_image sum_distrib_left algebra_simps)

lemma peval_Nil [simp]: "peval [] z = 0"
  by (simp add: peval_def)

text \<open>One entry of the product: its place, folded back with a change of sign.\<close>

lemma add_entry:
  assumes "first < r" "second < r" "length result = r" "weight_norm result + \<bar>summand\<bar> < 2 ^ 63"
  obtains result' where
    "(if first + second < r
      then map_option (\<lambda>v. result[first + second := v]) (i64 (result ! (first + second) + summand))
      else map_option (\<lambda>v. result[first + second - r := v])
             (i64 (result ! (first + second - r) - summand))) = Some result'"
    "length result' = r" "weight_norm result' \<le> weight_norm result + \<bar>summand\<bar>"
    "\<And>z. z ^ r = - 1 \<Longrightarrow> peval result' z = peval result z + of_int summand * z ^ (first + second)"
proof (cases "first + second < r")
  case True
  have "\<bar>result ! (first + second) + summand\<bar> < 2 ^ 63"
    using norm_nth [of "first + second" result] True assms(3,4) by linarith
  then show thesis
    using that [of "result[first + second := result ! (first + second) + summand]"] True assms(3)
      norm_update [of "first + second" result "result ! (first + second) + summand"]
    by (simp add: i64_small peval_update)
next
  case False
  let ?i = "first + second - r"
  have i: "?i < r" using assms(1,2) by linarith
  have "\<bar>result ! ?i - summand\<bar> < 2 ^ 63" using norm_nth [of ?i result] i assms(3,4) by linarith
  moreover have "z ^ (first + second) = - (z ^ ?i)" if "z ^ r = - 1" for z :: complex
  proof -
    have "z ^ (first + second) = z ^ (r + ?i)" using False by simp
    then show ?thesis using that by (simp add: power_add)
  qed
  ultimately show thesis
    using that [of "result[?i := result ! ?i - summand]"] False i assms(3)
      norm_update [of ?i result "result ! ?i - summand"]
    by (simp add: i64_small peval_update)
qed

lemma product_row_exact:
  assumes "first < r" "second + length right \<le> r" "length result = r"
    and "weight_norm result + \<bar>left\<bar> * weight_norm right < 2 ^ 63"
  obtains result' where "product_row r first left right second result = Some result'"
    "length result' = r" "weight_norm result' \<le> weight_norm result + \<bar>left\<bar> * weight_norm right"
    "\<And>z. z ^ r = - 1 \<Longrightarrow> peval result' z = peval result z + of_int left * z ^ (first + second) * peval right z"
  using assms
proof (induction right arbitrary: second result thesis)
  case (Cons c right)
  have split: "\<bar>left\<bar> * weight_norm (c # right) = \<bar>left * c\<bar> + \<bar>left\<bar> * weight_norm right"
    by (simp add: abs_mult algebra_simps)
  have nonneg: "0 \<le> \<bar>left\<bar> * weight_norm right" by simp
  have small: "weight_norm result + \<bar>left * c\<bar> < 2 ^ 63" "\<bar>left * c\<bar> < 2 ^ 63"
    using Cons.prems(5) split nonneg norm_nonneg [of result] by linarith+
  obtain middle where middle:
    "(if first + second < r
      then map_option (\<lambda>v. result[first + second := v]) (i64 (result ! (first + second) + left * c))
      else map_option (\<lambda>v. result[first + second - r := v])
             (i64 (result ! (first + second - r) - left * c))) = Some middle"
    "length middle = r" "weight_norm middle \<le> weight_norm result + \<bar>left * c\<bar>"
    "\<And>z. z ^ r = - 1 \<Longrightarrow> peval middle z = peval result z + of_int (left * c) * z ^ (first + second)"
    by (rule add_entry [OF Cons.prems(2) _ Cons.prems(4) small(1), of second]) (use Cons.prems(3) in auto)
  have "weight_norm middle + \<bar>left\<bar> * weight_norm right < 2 ^ 63"
    using middle(3) Cons.prems(5) split by linarith
  moreover have "Suc second + length right \<le> r" using Cons.prems(3) by simp
  ultimately obtain result' where result': "product_row r first left right (Suc second) middle = Some result'"
    "length result' = r" "weight_norm result' \<le> weight_norm middle + \<bar>left\<bar> * weight_norm right"
    "\<And>z. z ^ r = - 1 \<Longrightarrow> peval result' z = peval middle z + of_int left * z ^ (first + Suc second) * peval right z"
    using Cons.IH [OF _ Cons.prems(2) _ middle(2)] by blast
  show ?case
  proof (rule Cons.prems(1))
    show "product_row r first left (c # right) second result = Some result'"
      unfolding product_row.simps i64_small [OF small(2)] using middle(1) result'(1) by simp
    show "length result' = r" by (rule result'(2))
    show "weight_norm result' \<le> weight_norm result + \<bar>left\<bar> * weight_norm (c # right)"
      using result'(3) middle(3) split by linarith
    show "peval result' z = peval result z + of_int left * z ^ (first + second) * peval (c # right) z" if "z ^ r = - 1" for z
      using result'(4) [OF that] middle(4) [OF that] by (simp add: peval_Cons algebra_simps)
  qed
qed simp

lemma product_rows_exact:
  assumes "first + length left \<le> r" "length right = r" "length result = r"
    and "weight_norm result + weight_norm left * weight_norm right < 2 ^ 63"
  obtains result' where "product_rows r first left right result = Some result'"
    "length result' = r" "weight_norm result' \<le> weight_norm result + weight_norm left * weight_norm right"
    "\<And>z. z ^ r = - 1 \<Longrightarrow> peval result' z = peval result z + z ^ first * peval left z * peval right z"
  using assms
proof (induction left arbitrary: first result thesis)
  case (Cons c left)
  have split: "weight_norm (c # left) * weight_norm right = \<bar>c\<bar> * weight_norm right + weight_norm left * weight_norm right"
    by (simp add: algebra_simps)
  have nonneg: "0 \<le> weight_norm left * weight_norm right" by simp
  have "weight_norm result + \<bar>c\<bar> * weight_norm right < 2 ^ 63" using Cons.prems(5) split nonneg by linarith
  then obtain middle where middle: "product_row r first c right 0 result = Some middle"
    "length middle = r" "weight_norm middle \<le> weight_norm result + \<bar>c\<bar> * weight_norm right"
    "\<And>z. z ^ r = - 1 \<Longrightarrow> peval middle z = peval result z + of_int c * z ^ (first + 0) * peval right z"
    using product_row_exact [of first r 0 right result c] Cons.prems(2-4) by auto
  have "weight_norm middle + weight_norm left * weight_norm right < 2 ^ 63"
    using middle(3) Cons.prems(5) split by linarith
  moreover have "Suc first + length left \<le> r" using Cons.prems(2) by simp
  ultimately obtain result' where result': "product_rows r (Suc first) left right middle = Some result'"
    "length result' = r" "weight_norm result' \<le> weight_norm middle + weight_norm left * weight_norm right"
    "\<And>z. z ^ r = - 1 \<Longrightarrow> peval result' z = peval middle z + z ^ Suc first * peval left z * peval right z"
    using Cons.IH [OF _ _ Cons.prems(3) middle(2)] by blast
  show ?case
  proof (rule Cons.prems(1))
    show "product_rows r first (c # left) right result = Some result'" using middle(1) result'(1) by simp
    show "length result' = r" by (rule result'(2))
    show "weight_norm result' \<le> weight_norm result + weight_norm (c # left) * weight_norm right"
      using result'(3) middle(3) split by linarith
    show "peval result' z = peval result z + z ^ first * peval (c # left) z * peval right z" if "z ^ r = - 1" for z
      using result'(4) [OF that] middle(4) [OF that] by (simp add: peval_Cons algebra_simps)
  qed
qed simp

lemma product_exact:
  assumes "length left = r" "length right = r" "weight_norm left * weight_norm right < 2 ^ 63"
  obtains result where "product left right = Some result" "length result = r"
    "weight_norm result \<le> weight_norm left * weight_norm right"
    "\<And>z. z ^ r = - 1 \<Longrightarrow> peval result z = peval left z * peval right z"
proof -
  obtain result' where "product_rows r 0 left right (replicate r 0) = Some result'"
    "length result' = r" "weight_norm result' \<le> weight_norm (replicate r 0) + weight_norm left * weight_norm right"
    "\<And>z. z ^ r = - 1 \<Longrightarrow> peval result' z = peval (replicate r 0) z + z ^ 0 * peval left z * peval right z"
    using product_rows_exact [of 0 left r right "replicate r 0"] assms by auto
  then show thesis using that [of result'] assms(1) by (simp add: product_def)
qed

section \<open>Inverses\<close>

lemma trailing_zeros_odd:
  assumes "0 < n"
  obtains m where "odd m" "n = 2 ^ trailing_zeros n * m"
  using assms
proof (induction n arbitrary: thesis rule: trailing_zeros.induct)
  case (1 n)
  show thesis
  proof (cases "odd n")
    case True
    then show thesis using "1.prems" by (simp add: trailing_zeros.simps)
  next
    case False
    then have "0 < n div 2" using "1.prems"(2) by auto
    with False "1.prems"(2) obtain m where m: "odd m" "n div 2 = 2 ^ trailing_zeros (n div 2) * m"
      using "1.IH" by blast
    have "n = 2 * (n div 2)" using False by simp
    also have "\<dots> = 2 ^ trailing_zeros n * m"
      by (subst (1) m(2)) (use False "1.prems"(2) in \<open>simp add: trailing_zeros.simps [of n]\<close>)
    finally show thesis using "1.prems"(1) m(1) by blast
  qed
qed

lemma trailing_zeros_bound:
  assumes "0 < k" "k < 2 * 2 ^ t"
  shows "trailing_zeros k \<le> t"
proof -
  obtain m where "odd m" "k = 2 ^ trailing_zeros k * m" by (rule trailing_zeros_odd [OF assms(1)])
  then have "2 ^ trailing_zeros k \<le> k" by (metis dvd_imp_le dvd_triv_left assms(1))
  then have "(2 :: nat) ^ trailing_zeros k < 2 ^ Suc t" using assms(2) by simp
  then show ?thesis by (metis less_Suc_eq_le one_less_numeral_iff power_less_imp_less_exp semiring_norm(76))
qed

lemma root_power_trailing:
  fixes z :: complex
  assumes "0 < k" "k < 2 * 2 ^ t" "z ^ 2 ^ t = - 1"
  shows "z ^ (k * 2 ^ (t - trailing_zeros k)) = - 1"
proof -
  obtain m where m: "odd m" "k = 2 ^ trailing_zeros k * m" by (rule trailing_zeros_odd [OF assms(1)])
  have "k * 2 ^ (t - trailing_zeros k) = 2 ^ (trailing_zeros k + (t - trailing_zeros k)) * m"
    by (subst m(2)) (simp add: power_add)
  also have "\<dots> = 2 ^ t * m" using trailing_zeros_bound [OF assms(1,2)] by simp
  finally show ?thesis using m(1) assms(3) by (simp add: power_mult)
qed

lemma sum_of_monomials:
  assumes "0 < r"
  shows "length (fold (\<lambda>i result. map2 (+) result (monomial (k * i) r)) [0..<n] (replicate r 0)) = r"
    "weight_norm (fold (\<lambda>i result. map2 (+) result (monomial (k * i) r)) [0..<n] (replicate r 0)) \<le> int n"
    "z ^ r = - 1 \<Longrightarrow> peval (fold (\<lambda>i result. map2 (+) result (monomial (k * i) r)) [0..<n] (replicate r 0)) z
       = (\<Sum>i<n. (z ^ k) ^ i)"
proof (induction n)
  case (Suc n)
  let ?f = "fold (\<lambda>i result. map2 (+) result (monomial (k * i) r)) [0..<n] (replicate r 0)"
  { case 1 show ?case using Suc(1) by simp }
  { case 2
    have "weight_norm (map2 (+) ?f (monomial (k * n) r)) \<le> weight_norm ?f + 1"
      using norm_map2 [of ?f "monomial (k * n) r"] norm_monomial [OF assms, of "k * n"] Suc(1) by simp
    then show ?case using Suc(2) by simp }
  { case 3
    then show ?case using Suc(1,3) by (simp add: peval_map2 peval_monomial assms power_mult) }
qed simp_all

lemma doubled_inverse_exact:
  assumes "0 < k" "k < 2 * 2 ^ t"
  obtains inverse where "doubled_inverse k (2 ^ t) = Some inverse" "length inverse = 2 ^ t"
    "weight_norm inverse \<le> 2 ^ t"
    "\<And>z. z ^ 2 ^ t = - 1 \<Longrightarrow> (1 - z ^ k) * peval inverse z = 2"
proof -
  let ?n = "2 ^ (t - trailing_zeros k) :: nat"
  define d where "d = fold (\<lambda>i result. map2 (+) result (monomial (k * i) (2 ^ t))) [0..<?n] (replicate (2 ^ t) 0)"
  have n: "2 ^ t div 2 ^ trailing_zeros k = ?n"
    using trailing_zeros_bound [OF assms] by (simp add: power_diff)
  have "doubled_inverse k (2 ^ t) = Some d"
    using assms n by (simp add: doubled_inverse_def d_def)
  moreover have "length d = 2 ^ t" "weight_norm d \<le> int ?n"
    unfolding d_def using sum_of_monomials(1,2) [where r = "2 ^ t" and k = k and n = ?n] by simp_all
  moreover have "int ?n \<le> 2 ^ t" by simp
  moreover have "(1 - z ^ k) * peval d z = 2" if z: "z ^ 2 ^ t = - 1" for z
  proof -
    have "peval d z = (\<Sum>i<?n. (z ^ k) ^ i)" unfolding d_def using sum_of_monomials(3) [OF _ z] by simp
    then have "(1 - z ^ k) * peval d z = 1 - (z ^ k) ^ ?n" by (simp only: one_diff_power_eq)
    then show ?thesis using root_power_trailing [OF assms z] by (simp add: power_mult)
  qed
  ultimately show thesis using that by (meson order_trans)
qed

text \<open>The points of different positions differ at every root.\<close>

lemma points_differ:
  fixes z :: complex
  assumes "z ^ 2 ^ t = - 1" "0 < k" "k < 2 * 2 ^ t"
  shows "z ^ k \<noteq> 1"
proof
  assume "z ^ k = 1"
  obtain inverse where "(1 - z ^ k) * peval inverse z = 2" using doubled_inverse_exact [OF assms(2,3)] assms(1) by metis
  then show False using \<open>z ^ k = 1\<close> by simp
qed

lemma numerator_exact:
  assumes "\<forall>other \<in> set others. other < 2 * 2 ^ t \<and> other \<noteq> member" "member < 2 * 2 ^ t"
    and "length numerator = 2 ^ t" "weight_norm numerator * (2 ^ t) ^ length others < 2 ^ 63"
  obtains result where "numerator_of (2 ^ t) member others numerator = Some result" "length result = 2 ^ t"
    "weight_norm result \<le> weight_norm numerator * (2 ^ t) ^ length others"
    "\<And>z. z ^ 2 ^ t = - 1 \<Longrightarrow> peval result z * (\<Prod>other\<leftarrow>others. 1 - z ^ ((member + 2 * 2 ^ t - other) mod (2 * 2 ^ t)))
         = 2 ^ length others * peval numerator z"
  using assms
proof (induction others arbitrary: numerator thesis)
  case (Cons other others)
  let ?k = "(member + 2 * 2 ^ t - other) mod (2 * 2 ^ t)"
  have k: "0 < ?k" "?k < 2 * 2 ^ t"
  proof -
    show "?k < 2 * 2 ^ t" by simp
    have o: "other < 2 * 2 ^ t" "other \<noteq> member" using Cons.prems(2) by auto
    show "0 < ?k"
    proof (cases "other < member")
      case True
      then have "member + 2 * 2 ^ t - other = (member - other) + 2 * 2 ^ t" using o(1) by simp
      then have "?k = member - other" using Cons.prems(3) by (simp only: mod_add_self2) simp
      then show ?thesis using True by simp
    next
      case False
      then have "member + 2 * 2 ^ t - other < 2 * 2 ^ t" using o by arith
      then show ?thesis using o(1) by simp
    qed
  qed
  obtain d where d: "doubled_inverse ?k (2 ^ t) = Some d" "length d = 2 ^ t" "weight_norm d \<le> 2 ^ t"
    "\<And>z. z ^ 2 ^ t = - 1 \<Longrightarrow> (1 - z ^ ?k) * peval d z = 2"
    by (rule doubled_inverse_exact [OF k]) blast
  have bound: "weight_norm numerator * weight_norm d \<le> weight_norm numerator * 2 ^ t"
    using d(3) by (intro mult_left_mono) simp_all
  have one: "(1 :: int) \<le> (2 ^ t) ^ length others" by simp
  have shape: "weight_norm numerator * (2 ^ t) ^ length (other # others)
      = (weight_norm numerator * 2 ^ t) * (2 ^ t) ^ length others" by simp
  have "weight_norm numerator * 2 ^ t * 1 \<le> (weight_norm numerator * 2 ^ t) * (2 ^ t) ^ length others"
    by (intro mult_left_mono one) simp
  then have "weight_norm numerator * weight_norm d < 2 ^ 63" using bound Cons.prems(5) unfolding shape by linarith
  then obtain step where step: "product numerator d = Some step" "length step = 2 ^ t"
    "weight_norm step \<le> weight_norm numerator * weight_norm d"
    "\<And>z. z ^ 2 ^ t = - 1 \<Longrightarrow> peval step z = peval numerator z * peval d z"
    using product_exact [OF Cons.prems(4) d(2)] by blast
  have smaller: "weight_norm step * (2 ^ t) ^ length others \<le> weight_norm numerator * 2 ^ t * (2 ^ t) ^ length others"
    using step(3) bound by (intro mult_right_mono) simp_all
  then have "weight_norm step * (2 ^ t) ^ length others < 2 ^ 63"
    using Cons.prems(5) unfolding shape by linarith
  moreover have "\<forall>other \<in> set others. other < 2 * 2 ^ t \<and> other \<noteq> member" using Cons.prems(2) by simp
  ultimately obtain result where result: "numerator_of (2 ^ t) member others step = Some result" "length result = 2 ^ t"
    "weight_norm result \<le> weight_norm step * (2 ^ t) ^ length others"
    "\<And>z. z ^ 2 ^ t = - 1 \<Longrightarrow> peval result z * (\<Prod>other\<leftarrow>others. 1 - z ^ ((member + 2 * 2 ^ t - other) mod (2 * 2 ^ t)))
         = 2 ^ length others * peval step z"
    using Cons.IH [OF _ _ Cons.prems(3) step(2)] by blast
  show ?case
  proof (rule Cons.prems(1))
    show "numerator_of (2 ^ t) member (other # others) numerator = Some result"
      using d(1) step(1) result(1) by simp
    show "length result = 2 ^ t" by (rule result(2))
    show "weight_norm result \<le> weight_norm numerator * (2 ^ t) ^ length (other # others)"
      using result(3) smaller unfolding shape by linarith
    fix z :: complex assume z: "z ^ 2 ^ t = - 1"
    have "peval result z * (\<Prod>other\<leftarrow>other # others. 1 - z ^ ((member + 2 * 2 ^ t - other) mod (2 * 2 ^ t)))
        = (1 - z ^ ?k) * (2 ^ length others * peval step z)"
      unfolding result(4) [OF z, symmetric] by simp
    also have "\<dots> = 2 ^ length others * peval numerator z * ((1 - z ^ ?k) * peval d z)"
      unfolding step(4) [OF z] by simp
    also have "\<dots> = 2 ^ length (other # others) * peval numerator z" unfolding d(4) [OF z] by simp
    finally show "peval result z * (\<Prod>other\<leftarrow>other # others. 1 - z ^ ((member + 2 * 2 ^ t - other) mod (2 * 2 ^ t)))
        = 2 ^ length (other # others) * peval numerator z" .
  qed
qed simp

section \<open>Reconstruction\<close>

text \<open>The Lagrange coefficient at zero of a point among distinct points.\<close>

definition lagrange :: "complex set \<Rightarrow> complex \<Rightarrow> complex" where
  "lagrange S x = (\<Prod>y\<in>S - {x}. inverse (1 - x / y))"

lemma lagrange_remove:
  assumes "finite S" "y \<in> S" "x \<in> S" "x \<noteq> y" "0 \<notin> S"
  shows "lagrange S x * (1 - x / y) = lagrange (S - {y}) x"
proof -
  have "lagrange S x = inverse (1 - x / y) * (\<Prod>w\<in>S - {x} - {y}. inverse (1 - x / w))"
    unfolding lagrange_def using assms by (subst prod.remove [of _ y]) auto
  moreover have "S - {x} - {y} = S - {y} - {x}" by blast
  moreover have "1 - x / y \<noteq> 0" using assms(2,4,5) by (metis divide_eq_1_iff eq_iff_diff_eq_0)
  ultimately show ?thesis by (simp add: lagrange_def)
qed

lemma lagrange_reconstructs:
  assumes "finite S" "S \<noteq> {}" "0 \<notin> S" "e < card S"
  shows "(\<Sum>x\<in>S. lagrange S x * x ^ e) = (if e = 0 then 1 else 0)"
  using assms
proof (induction "card S" arbitrary: S e)
  case (Suc n)
  have remove: "(\<Sum>x\<in>S. lagrange S x * (1 - x / y) * x ^ d) = (\<Sum>x\<in>S - {y}. lagrange (S - {y}) x * x ^ d)"
    if y: "y \<in> S" for y d
  proof -
    have "(\<Sum>x\<in>S. lagrange S x * (1 - x / y) * x ^ d) = (\<Sum>x\<in>S - {y}. lagrange S x * (1 - x / y) * x ^ d)"
      using y Suc.prems(1,3) by (subst sum.remove [of _ y]) auto
    also have "\<dots> = (\<Sum>x\<in>S - {y}. lagrange (S - {y}) x * x ^ d)"
    proof (rule sum.cong [OF refl])
      fix x assume "x \<in> S - {y}"
      then show "lagrange S x * (1 - x / y) * x ^ d = lagrange (S - {y}) x * x ^ d"
        using lagrange_remove [OF Suc.prems(1) y, of x] Suc.prems(3) by simp
    qed
    finally show ?thesis .
  qed
  show ?case
  proof (cases "n = 0")
    case True
    then obtain x where "S = {x}" using Suc.hyps(2) by (metis One_nat_def card_1_singletonE)
    then show ?thesis using Suc.prems(4) by (simp add: lagrange_def)
  next
    case False
    have smaller: "(\<Sum>x\<in>S - {y}. lagrange (S - {y}) x * x ^ d) = (if d = 0 then 1 else 0)" if "y \<in> S" "d < n" for y d
    proof -
      have "n = card (S - {y})" using Suc.hyps(2) Suc.prems(1) that(1) by simp
      moreover from this have "S - {y} \<noteq> {}" using False by (metis card.empty)
      ultimately show ?thesis using Suc.hyps(1) [of "S - {y}" d] Suc.prems(1,3) that(2) by simp
    qed
    have positive: "(\<Sum>x\<in>S. lagrange S x * x ^ Suc d) = 0" if d: "d < n" for d
    proof -
      obtain p q where pq: "p \<in> S" "q \<in> S" "p \<noteq> q"
        by (metis False Suc.hyps(2) card_1_singletonE card_le_Suc0_iff_eq Suc.prems(1) One_nat_def Suc_le_mono le_zero_eq)
      then have nonzero: "p \<noteq> 0" "q \<noteq> 0" using Suc.prems(3) by auto
      have "(\<Sum>x\<in>S. lagrange S x * (1 - x / q) * x ^ d) - (\<Sum>x\<in>S. lagrange S x * (1 - x / p) * x ^ d) = 0"
        unfolding remove [OF pq(1)] remove [OF pq(2)] smaller [OF pq(1) d] smaller [OF pq(2) d] by simp
      moreover have "(\<Sum>x\<in>S. lagrange S x * (1 - x / q) * x ^ d) - (\<Sum>x\<in>S. lagrange S x * (1 - x / p) * x ^ d)
          = (1 / p - 1 / q) * (\<Sum>x\<in>S. lagrange S x * x ^ Suc d)"
        unfolding sum_subtractf [symmetric] sum_distrib_left by (intro sum.cong) (simp_all add: algebra_simps)
      moreover have "1 / p - 1 / q \<noteq> 0" using pq(3) nonzero by (simp add: field_simps)
      ultimately show ?thesis by simp
    qed
    show ?thesis
    proof (cases e)
      case 0
      obtain q where q: "q \<in> S" using Suc.prems(2) by blast
      then have "q \<noteq> 0" using Suc.prems(3) by auto
      have "(\<Sum>x\<in>S. lagrange S x * (1 - x / q) * x ^ 0) = 1"
        unfolding remove [OF q] using smaller [OF q, of 0] False by simp
      moreover have "(\<Sum>x\<in>S. lagrange S x * (1 - x / q) * x ^ 0)
          = (\<Sum>x\<in>S. lagrange S x * x ^ 0) - (\<Sum>x\<in>S. lagrange S x * x ^ Suc 0) / q"
        unfolding sum_divide_distrib sum_subtractf [symmetric] by (intro sum.cong) (simp_all add: algebra_simps)
      ultimately show ?thesis using positive [of 0] False 0 by simp
    next
      case (Suc d)
      then show ?thesis using positive [of d] Suc.prems(4) Suc.hyps(2) by simp
    qed
  qed
qed simp

section \<open>Integral functions of a root\<close>

definition integral_at :: "nat \<Rightarrow> (complex \<Rightarrow> complex) \<Rightarrow> bool" where
  "integral_at r g \<longleftrightarrow> (\<exists>cs. length cs = r \<and> (\<forall>z. z ^ r = - 1 \<longrightarrow> peval cs z = g z))"

lemma integral_atI: "length cs = r \<Longrightarrow> (\<And>z. z ^ r = - 1 \<Longrightarrow> peval cs z = g z) \<Longrightarrow> integral_at r g"
  unfolding integral_at_def by blast

lemma integral_cong:
  assumes "integral_at r g" "\<And>z. z ^ r = - 1 \<Longrightarrow> g z = h z"
  shows "integral_at r h"
  using assms unfolding integral_at_def by metis

lemma integral_add:
  assumes "integral_at r g" "integral_at r h"
  shows "integral_at r (\<lambda>z. g z + h z)"
proof -
  obtain a b where a: "length a = r" "\<And>z. z ^ r = - 1 \<Longrightarrow> peval a z = g z"
    and b: "length b = r" "\<And>z. z ^ r = - 1 \<Longrightarrow> peval b z = h z"
    using assms unfolding integral_at_def by metis
  then show ?thesis by (intro integral_atI [of "map2 (+) a b"]) (simp_all add: peval_map2)
qed

lemma integral_scale:
  assumes "integral_at r g"
  shows "integral_at r (\<lambda>z. of_int c * g z)"
proof -
  obtain a where a: "length a = r" "\<And>z. z ^ r = - 1 \<Longrightarrow> peval a z = g z"
    using assms unfolding integral_at_def by metis
  have "peval (map ((*) c) a) z = of_int c * peval a z" for z
    by (simp add: peval_def sum_distrib_left mult.assoc)
  then show ?thesis using a by (intro integral_atI [of "map ((*) c) a"]) simp_all
qed

definition turned :: "int list \<Rightarrow> int list" where
  "turned cs = - last cs # butlast cs"

lemma peval_turned:
  assumes "cs \<noteq> []" "z ^ length cs = - 1"
  shows "peval (turned cs) z = z * peval cs z"
proof -
  have l: "length cs = Suc (length (butlast cs))" using assms(1) by simp
  have "peval cs z = peval (butlast cs) z + of_int (last cs) * z ^ length (butlast cs)"
    unfolding peval_def l sum.lessThan_Suc
    by (intro arg_cong2 [where f = "(+)"] sum.cong) (simp_all add: nth_butlast last_conv_nth assms(1))
  then have "z * peval cs z = z * peval (butlast cs) z + of_int (last cs) * (z * z ^ length (butlast cs))"
    by (simp add: algebra_simps)
  moreover have "z * z ^ length (butlast cs) = - 1" using assms(2) unfolding l by simp
  ultimately show ?thesis by (simp add: turned_def peval_Cons)
qed

lemma integral_times_root:
  assumes "0 < r" "integral_at r g"
  shows "integral_at r (\<lambda>z. z ^ e * g z)"
proof (induction e)
  case (Suc e)
  then obtain a where a: "length a = r" "\<And>z. z ^ r = - 1 \<Longrightarrow> peval a z = z ^ e * g z"
    unfolding integral_at_def by metis
  have "a \<noteq> []" using a(1) assms(1) by auto
  then show ?case
    using peval_turned [of a] a assms(1) by (intro integral_atI [of "turned a"]) (simp_all add: turned_def)
qed (use assms in simp)

lemma integral_sum:
  assumes "finite I" "\<And>i. i \<in> I \<Longrightarrow> integral_at r (g i)"
  shows "integral_at r (\<lambda>z. \<Sum>i\<in>I. g i z)"
  using assms
proof (induction rule: finite_induct)
  case empty
  show ?case by (rule integral_atI [of "replicate r 0"]) simp_all
next
  case (insert i I)
  then show ?case using integral_add [of r "g i" "\<lambda>z. \<Sum>i\<in>I. g i z"] by simp
qed

lemma integral_mult:
  assumes "0 < r" "integral_at r g" "integral_at r h"
  shows "integral_at r (\<lambda>z. g z * h z)"
proof -
  obtain a where a: "length a = r" "\<And>z. z ^ r = - 1 \<Longrightarrow> peval a z = g z"
    using assms(2) unfolding integral_at_def by metis
  have "integral_at r (\<lambda>z. \<Sum>j<length a. of_int (a ! j) * (z ^ j * h z))"
    by (intro integral_sum integral_scale integral_times_root assms) simp
  then show ?thesis
    by (rule integral_cong) (simp add: a(2) [symmetric] peval_def sum_distrib_right mult.assoc)
qed

lemma integral_const: "0 < r \<Longrightarrow> integral_at r (\<lambda>z. of_int c)"
  by (rule integral_atI [of "(replicate r 0)[0 := c]"]) (simp_all add: peval_update)

lemma integral_one: "0 < r \<Longrightarrow> integral_at r (\<lambda>z. 1)"
  using integral_const [of r 1] by simp

lemma integral_power: "0 < r \<Longrightarrow> integral_at r g \<Longrightarrow> integral_at r (\<lambda>z. g z ^ n)"
  by (induction n) (simp_all add: integral_one integral_mult)

lemma integral_root: "0 < r \<Longrightarrow> integral_at r (\<lambda>z. z ^ e)"
  using integral_times_root [OF _ integral_one, of r e] by simp

lemma integral_difference:
  assumes "0 < r"
  shows "integral_at r (\<lambda>z. 1 - z)"
  using integral_add [OF integral_one integral_scale [OF integral_root [of r 1], of "- 1"]] assms by simp

section \<open>Units and the prime above two\<close>

text \<open>Where two exponents have the same trailing zeros, the differences divide each other.\<close>

lemma integral_ratio:
  assumes a: "0 < a" "a < 2 * 2 ^ t" and b: "0 < b" "b < 2 * 2 ^ t" and "trailing_zeros a = trailing_zeros b"
  shows "integral_at (2 ^ t) (\<lambda>z. (1 - z ^ a) / (1 - z ^ b))"
proof -
  define v where "v = trailing_zeros b"
  obtain m where m: "odd m" "b = 2 ^ v * m" using trailing_zeros_odd [OF b(1)] unfolding v_def by metis
  obtain m' where m': "a = 2 ^ v * m'" using trailing_zeros_odd [OF a(1)] assms(5) unfolding v_def by metis
  have v: "v \<le> t" unfolding v_def by (rule trailing_zeros_bound [OF b])
  define s where "s = Suc t - v"
  have "coprime m (2 ^ s)" using m(1) by simp
  moreover have "m \<noteq> 0" using m(1) by (intro notI) simp
  ultimately obtain x y where xy: "m * x = 2 ^ s * y + 1" using bezout_nat [of m "2 ^ s"] by auto
  have exponent: "b * (x * m') = a + 2 * 2 ^ t * (y * m')"
  proof -
    have "b * (x * m') = 2 ^ v * (m * x) * m'" by (simp add: m(2))
    also have "\<dots> = a + 2 ^ (v + s) * (y * m')" unfolding xy by (simp add: m' power_add algebra_simps)
    finally show ?thesis using v by (simp add: s_def)
  qed
  have "integral_at (2 ^ t) (\<lambda>z. \<Sum>i<x * m'. z ^ (b * i))"
    by (intro integral_sum integral_root) simp_all
  then show ?thesis
  proof (rule integral_cong)
    fix z :: complex assume z: "z ^ 2 ^ t = - 1"
    have "z ^ (b * (x * m')) = z ^ a"
      unfolding exponent power_add using z by (simp add: power_mult mult.commute [of 2 "2 ^ t"])
    then have "(1 - z ^ b) * (\<Sum>i<x * m'. (z ^ b) ^ i) = 1 - z ^ a"
      by (simp only: one_diff_power_eq [symmetric]) (simp add: power_mult)
    moreover have "(\<Sum>i<x * m'. z ^ (b * i)) = (\<Sum>i<x * m'. (z ^ b) ^ i)" by (simp add: power_mult)
    ultimately show "(\<Sum>i<x * m'. z ^ (b * i)) = (1 - z ^ a) / (1 - z ^ b)"
      using points_differ [OF z b] by (metis eq_iff_diff_eq_0 nonzero_mult_div_cancel_left)
  qed
qed

lemma trailing_zeros_power: "trailing_zeros (2 ^ v) = v"
  by (induction v) (simp_all add: trailing_zeros.simps)

lemma trailing_zeros_sum:
  assumes "v < t"
  shows "trailing_zeros (2 ^ v + 2 ^ t) = v"
  using assms
proof (induction v arbitrary: t)
  case 0
  then show ?case by (simp add: trailing_zeros.simps)
next
  case (Suc v)
  then obtain u where u: "t = Suc u" "v < u" by (cases t) auto
  have "(2 ^ Suc v + 2 ^ Suc u) div 2 = (2 ^ v + 2 ^ u :: nat)" by simp
  then show ?case using Suc.IH [OF u(2)] u(1) by (subst trailing_zeros.simps) simp
qed

text \<open>Doubling the exponent squares the difference, up to a unit.\<close>

lemma double_difference:
  fixes z :: complex
  assumes "z ^ 2 ^ t = - 1"
  shows "1 - z ^ 2 ^ Suc v = (1 - z ^ 2 ^ v) * (1 - z ^ (2 ^ v + 2 ^ t))"
  using assms by (simp add: power_add power_mult power2_eq_square algebra_simps mult_2)

lemma unit_exponents:
  assumes "v < t"
  shows "(0 :: nat) < 2 ^ v" "(2 :: nat) ^ v < 2 * 2 ^ t" "(0 :: nat) < 2 ^ v + 2 ^ t" "(2 :: nat) ^ v + 2 ^ t < 2 * 2 ^ t"
    "trailing_zeros (2 ^ v) = trailing_zeros (2 ^ v + 2 ^ t)"
proof -
  have "(2 :: nat) ^ v < 2 ^ t" using assms by simp
  then show "(2 :: nat) ^ v < 2 * 2 ^ t" "(2 :: nat) ^ v + 2 ^ t < 2 * 2 ^ t" by linarith+
  show "trailing_zeros (2 ^ v) = trailing_zeros (2 ^ v + 2 ^ t)"
    using assms by (simp add: trailing_zeros_power trailing_zeros_sum)
qed simp_all

lemma powers_of_difference:
  assumes "v \<le> t"
  shows "integral_at (2 ^ t) (\<lambda>z. (1 - z) ^ 2 ^ v / (1 - z ^ 2 ^ v))
    \<and> integral_at (2 ^ t) (\<lambda>z. (1 - z ^ 2 ^ v) / (1 - z) ^ 2 ^ v)"
  using assms
proof (induction v)
  case 0
  have "(1 :: nat) < 2 * 2 ^ t" by (simp add: less_le_trans [of _ "2 * 1"])
  then have "integral_at (2 ^ t) (\<lambda>z. (1 - z) / (1 - z))"
    using points_differ [of _ t 1] by (intro integral_cong [OF integral_one]) auto
  then show ?case by simp
next
  case (Suc v)
  then have v: "v < t" "v \<le> t" by simp_all
  note e = unit_exponents [OF v(1)]
  note IH = Suc.IH [OF v(2), THEN conjunct1] Suc.IH [OF v(2), THEN conjunct2]
  have nonzero: "1 - z ^ 2 ^ v \<noteq> 0" "1 - z ^ (2 ^ v + 2 ^ t) \<noteq> 0" if "z ^ 2 ^ t = - 1" for z :: complex
    using points_differ [OF that e(1,2)] points_differ [OF that e(3,4)] by simp_all
  have double: "(1 - z) ^ 2 ^ Suc v = ((1 - z) ^ 2 ^ v)\<^sup>2" for z :: complex
    by (simp add: power_mult [symmetric] mult.commute)
  show ?case
  proof
    have "integral_at (2 ^ t) (\<lambda>z. ((1 - z) ^ 2 ^ v / (1 - z ^ 2 ^ v))\<^sup>2 * ((1 - z ^ 2 ^ v) / (1 - z ^ (2 ^ v + 2 ^ t))))"
      by (intro integral_mult integral_power IH integral_ratio e) simp_all
    then show "integral_at (2 ^ t) (\<lambda>z. (1 - z) ^ 2 ^ Suc v / (1 - z ^ 2 ^ Suc v))"
    proof (rule integral_cong)
      fix z :: complex assume z: "z ^ 2 ^ t = - 1"
      show "((1 - z) ^ 2 ^ v / (1 - z ^ 2 ^ v))\<^sup>2 * ((1 - z ^ 2 ^ v) / (1 - z ^ (2 ^ v + 2 ^ t)))
          = (1 - z) ^ 2 ^ Suc v / (1 - z ^ 2 ^ Suc v)"
        unfolding double double_difference [OF z, of v] using nonzero [OF z] by (simp add: power2_eq_square)
    qed
  next
    have "integral_at (2 ^ t) (\<lambda>z. ((1 - z ^ 2 ^ v) / (1 - z) ^ 2 ^ v)\<^sup>2 * ((1 - z ^ (2 ^ v + 2 ^ t)) / (1 - z ^ 2 ^ v)))"
      by (intro integral_mult integral_power IH integral_ratio e e(5) [symmetric]) simp_all
    then show "integral_at (2 ^ t) (\<lambda>z. (1 - z ^ 2 ^ Suc v) / (1 - z) ^ 2 ^ Suc v)"
    proof (rule integral_cong)
      fix z :: complex assume z: "z ^ 2 ^ t = - 1"
      show "((1 - z ^ 2 ^ v) / (1 - z) ^ 2 ^ v)\<^sup>2 * ((1 - z ^ (2 ^ v + 2 ^ t)) / (1 - z ^ 2 ^ v))
          = (1 - z ^ 2 ^ Suc v) / (1 - z) ^ 2 ^ Suc v"
        unfolding double double_difference [OF z, of v] using nonzero [OF z] by (simp add: power2_eq_square)
    qed
  qed
qed

lemmas power_of_difference = powers_of_difference [THEN conjunct1] powers_of_difference [THEN conjunct2]

lemma integral_over_difference:
  assumes "0 < k" "k < 2 * 2 ^ t"
  shows "integral_at (2 ^ t) (\<lambda>z. (1 - z) ^ 2 ^ trailing_zeros k / (1 - z ^ k))"
proof -
  let ?v = "trailing_zeros k"
  have v: "?v \<le> t" by (rule trailing_zeros_bound [OF assms])
  then have e: "(0 :: nat) < 2 ^ ?v" "(2 :: nat) ^ ?v < 2 * 2 ^ t"
    by (simp_all add: less_le_trans [of _ "2 * 2 ^ ?v"])
  have "integral_at (2 ^ t) (\<lambda>z. ((1 - z) ^ 2 ^ ?v / (1 - z ^ 2 ^ ?v)) * ((1 - z ^ 2 ^ ?v) / (1 - z ^ k)))"
    by (intro integral_mult power_of_difference v integral_ratio e assms) (simp_all add: trailing_zeros_power)
  then show ?thesis
    by (rule integral_cong) (use points_differ [OF _ e] in simp)
qed

text \<open>Two is a power of the difference, up to a unit.\<close>

lemma two_over_difference: "integral_at (2 ^ t) (\<lambda>z. 2 / (1 - z) ^ 2 ^ t)"
  by (rule integral_cong [OF power_of_difference(2) [of t t]]) simp_all

lemma integral_over_differences:
  assumes "\<forall>k \<in> set ks. 0 < k \<and> k < 2 * 2 ^ t"
  shows "integral_at (2 ^ t) (\<lambda>z. (1 - z) ^ sum_list (map (\<lambda>k. 2 ^ trailing_zeros k) ks) / (\<Prod>k\<leftarrow>ks. 1 - z ^ k))"
  using assms
proof (induction ks)
  case Nil
  show ?case by (rule integral_cong [OF integral_one]) simp_all
next
  case (Cons k ks)
  then have "integral_at (2 ^ t) (\<lambda>z. (1 - z) ^ 2 ^ trailing_zeros k / (1 - z ^ k)
      * ((1 - z) ^ sum_list (map (\<lambda>k. 2 ^ trailing_zeros k) ks) / (\<Prod>k\<leftarrow>ks. 1 - z ^ k)))"
    by (intro integral_mult integral_over_difference) simp_all
  then show ?case by (rule integral_cong) (simp add: power_add)
qed

lemma power_of_two_clears:
  assumes "\<forall>k \<in> set ks. 0 < k \<and> k < 2 * 2 ^ t" "sum_list (map (\<lambda>k. 2 ^ trailing_zeros k) ks) \<le> m * 2 ^ t"
  shows "integral_at (2 ^ t) (\<lambda>z. 2 ^ m / (\<Prod>k\<leftarrow>ks. 1 - z ^ k))"
proof -
  let ?s = "sum_list (map (\<lambda>k. 2 ^ trailing_zeros k) ks)"
  have "integral_at (2 ^ t) (\<lambda>z. (2 / (1 - z) ^ 2 ^ t) ^ m * ((1 - z) ^ (m * 2 ^ t - ?s)
      * ((1 - z) ^ ?s / (\<Prod>k\<leftarrow>ks. 1 - z ^ k))))"
    by (intro integral_mult integral_power two_over_difference integral_difference integral_over_differences assms) simp_all
  then show ?thesis
  proof (rule integral_cong)
    fix z :: complex assume z: "z ^ 2 ^ t = - 1"
    have "(1 :: nat) < 2 * 2 ^ t" by (simp add: less_le_trans [of _ "2 * 1"])
    then have nonzero: "1 - z \<noteq> 0" using points_differ [OF z, of 1] by auto
    have "(1 - z) ^ (m * 2 ^ t - ?s) * (1 - z) ^ ?s = ((1 - z) ^ 2 ^ t) ^ m"
      using assms(2) by (simp add: power_add [symmetric] power_mult [symmetric] mult.commute)
    then have "(2 / (1 - z) ^ 2 ^ t) ^ m * ((1 - z) ^ (m * 2 ^ t - ?s) * (1 - z) ^ ?s) = 2 ^ m"
      using nonzero by (simp add: power_divide)
    then show "(2 / (1 - z) ^ 2 ^ t) ^ m * ((1 - z) ^ (m * 2 ^ t - ?s) * ((1 - z) ^ ?s / (\<Prod>k\<leftarrow>ks. 1 - z ^ k)))
        = 2 ^ m / (\<Prod>k\<leftarrow>ks. 1 - z ^ k)"
      by (simp only: times_divide_eq_right)
  qed
qed

section \<open>Trailing zeros of distinct differences\<close>

lemma sum_by_parity:
  fixes f :: "nat \<Rightarrow> nat"
  shows "(\<Sum>k\<in>{1..<2 * n}. f k) = (\<Sum>k\<in>{1..<n}. f (2 * k)) + (\<Sum>k<n. f (2 * k + 1))"
proof (induction n)
  case (Suc n)
  show ?case
  proof (cases "n = 0")
    case False
    have "{1..<2 * Suc n} = insert (2 * n) (insert (2 * n + 1) {1..<2 * n})" using False by auto
    then have "(\<Sum>k\<in>{1..<2 * Suc n}. f k) = f (2 * n) + (f (2 * n + 1) + (\<Sum>k\<in>{1..<2 * n}. f k))" by simp
    moreover have "{1..<Suc n} = insert n {1..<n}" using False by auto
    ultimately show ?thesis using Suc.IH by simp
  next
    case True
    have "{1..<2 * Suc n} = {1}" "{1..<Suc n} = {}" "{..<Suc n} = {0}" using True by auto
    then show ?thesis unfolding True by (simp only: sum.empty sum.insert finite.emptyI empty_iff) simp
  qed
qed simp

lemma trailing_zeros_double: "0 < k \<Longrightarrow> trailing_zeros (2 * k) = Suc (trailing_zeros k)"
  by (subst trailing_zeros.simps) simp

lemma trailing_zeros_of_odd: "trailing_zeros (2 * k + 1) = 0" "trailing_zeros (Suc (2 * k)) = 0"
  by (subst trailing_zeros.simps, simp)+

lemma sum_plus_one: "(\<Sum>k\<in>{1..<n}. f k + 1 :: nat) = (\<Sum>k\<in>{1..<n}. f k) + (n - 1)"
  unfolding sum.distrib by simp

lemma excess_step:
  "(\<Sum>k\<in>{1..<2 * n}. 2 ^ trailing_zeros k - 2 ^ s :: nat)
    = (\<Sum>k\<in>{1..<n}. 2 * 2 ^ trailing_zeros k - 2 ^ s) + n * (1 - 2 ^ s)"
  unfolding sum_by_parity
  by (intro arg_cong2 [where f = "(+)"]) (simp_all add: trailing_zeros_double trailing_zeros_of_odd)

lemma excess_sum:
  assumes "s \<le> Suc t"
  shows "(\<Sum>k\<in>{1..<2 * 2 ^ t}. 2 ^ trailing_zeros k - 2 ^ s :: nat) + 2 * 2 ^ t = (Suc t - s) * 2 ^ t + 2 ^ s"
  using assms
proof (induction t arbitrary: s)
  case 0
  then have "s = 0 \<or> s = 1" by auto
  moreover have one: "{1..<2 * 2 ^ 0} = {1 :: nat}" by auto
  moreover have zeros: "trailing_zeros 1 = 0" by (subst trailing_zeros.simps) simp
  ultimately show ?case by (elim disjE) (simp_all only: one sum.insert finite.emptyI empty_iff sum.empty zeros, simp_all add: zeros [simplified])
next
  case (Suc t)
  show ?case
  proof (cases s)
    case 0
    let ?e = "\<Sum>k\<in>{1..<2 * 2 ^ t}. 2 ^ trailing_zeros k - 1 :: nat"
    have "2 * 2 ^ trailing_zeros k - 1 = 2 * (2 ^ trailing_zeros k - 1) + (1 :: nat)" for k
      using one_le_power [of "2 :: nat" "trailing_zeros k"] by arith
    then have "(\<Sum>k\<in>{1..<2 * 2 ^ t}. 2 * 2 ^ trailing_zeros k - 1 :: nat) = 2 * ?e + (2 * 2 ^ t - 1)"
      unfolding sum_plus_one [of "\<lambda>k. 2 * (2 ^ trailing_zeros k - 1)", symmetric, unfolded sum_distrib_left [symmetric]] by (intro sum.cong) simp_all
    moreover have "?e + 2 * 2 ^ t = Suc t * 2 ^ t + 1" using Suc.IH [of 0] by simp
    moreover have "(1 :: nat) \<le> 2 ^ t" by simp
    ultimately show ?thesis unfolding power_Suc excess_step using 0 by simp
  next
    case (Suc u)
    let ?e = "\<Sum>k\<in>{1..<2 * 2 ^ t}. 2 ^ trailing_zeros k - 2 ^ u :: nat"
    have "(\<Sum>k\<in>{1..<2 * 2 ^ t}. 2 * 2 ^ trailing_zeros k - 2 ^ s :: nat) = 2 * ?e"
      unfolding Suc by (simp add: sum_distrib_left diff_mult_distrib2)
    moreover have "(1 :: nat) - 2 ^ s = 0" unfolding Suc by simp
    moreover have "?e + 2 * 2 ^ t = (Suc t - u) * 2 ^ t + 2 ^ u" using Suc.IH [of u] Suc.prems Suc by simp
    ultimately show ?thesis unfolding power_Suc excess_step using Suc Suc.prems by (simp add: algebra_simps)
  qed
qed

lemma trailing_sum_bound:
  assumes "K \<subseteq> {1..<2 * 2 ^ t}" "card K < 2 ^ m"
  shows "(\<Sum>k\<in>K. 2 ^ trailing_zeros k :: nat) \<le> m * 2 ^ t"
proof (cases "m \<le> Suc t")
  case True
  define s where "s = Suc t - m"
  have finite: "finite K" using assms(1) by (rule finite_subset) simp
  have power: "2 ^ s * 2 ^ m = (2 * 2 ^ t :: nat)" using True by (simp add: s_def power_add [symmetric] flip: power_Suc)
  have "(\<Sum>k\<in>K. 2 ^ trailing_zeros k :: nat) \<le> (\<Sum>k\<in>K. 2 ^ s + (2 ^ trailing_zeros k - 2 ^ s :: nat))"
    by (intro sum_mono) simp
  also have "\<dots> = card K * 2 ^ s + (\<Sum>k\<in>K. 2 ^ trailing_zeros k - 2 ^ s)" by (simp add: sum.distrib)
  also have "\<dots> \<le> (2 ^ m - 1) * 2 ^ s + (\<Sum>k\<in>{1..<2 * 2 ^ t}. 2 ^ trailing_zeros k - 2 ^ s)"
    using assms by (intro add_mono mult_right_mono sum_mono2) auto
  finally have "(\<Sum>k\<in>K. 2 ^ trailing_zeros k :: nat) \<le> (2 ^ m - 1) * 2 ^ s + (\<Sum>k\<in>{1..<2 * 2 ^ t}. 2 ^ trailing_zeros k - 2 ^ s)" .
  moreover have "(2 ^ m - 1) * 2 ^ s + 2 ^ s = (2 ^ s * 2 ^ m :: nat)" 
  proof -
    have "(2 ^ m - 1) + 1 = (2 ^ m :: nat)" by simp
    then show ?thesis by (metis add_mult_distrib mult.commute mult_1)
  qed
  ultimately have "(\<Sum>k\<in>K. 2 ^ trailing_zeros k :: nat) + 2 ^ s
      \<le> 2 ^ s * 2 ^ m + (\<Sum>k\<in>{1..<2 * 2 ^ t}. 2 ^ trailing_zeros k - 2 ^ s)"
    by linarith
  also have "\<dots> = m * 2 ^ t + 2 ^ s" unfolding power using excess_sum [of s t] True by (simp add: s_def)
  finally show ?thesis by simp
next
  case False
  have "(\<Sum>k\<in>K. 2 ^ trailing_zeros k :: nat) \<le> (\<Sum>k\<in>{1..<2 * 2 ^ t}. 2 ^ trailing_zeros k :: nat)"
    using assms(1) by (intro sum_mono2) auto
  also have "\<dots> \<le> (\<Sum>k\<in>{1..<2 * 2 ^ t}. (2 ^ trailing_zeros k - 2 ^ 0) + 1 :: nat)" by (intro sum_mono) simp
  also have "\<dots> = (\<Sum>k\<in>{1..<2 * 2 ^ t}. 2 ^ trailing_zeros k - 2 ^ 0) + (2 * 2 ^ t - 1)" by (rule sum_plus_one)
  also have "\<dots> \<le> Suc t * 2 ^ t" using excess_sum [of 0 t] by simp
  also have "\<dots> \<le> m * 2 ^ t" using False by (intro mult_right_mono) auto
  finally show ?thesis .
qed

section \<open>Weights\<close>

text \<open>Coefficient \<open>k\<close> of a polynomial modulo \<open>X ^ R + 1\<close>, for every integer \<open>k\<close>.\<close>

definition coefficient_at :: "int list \<Rightarrow> int \<Rightarrow> int" where
  "coefficient_at cs k = (let v = cs ! nat (k mod int (length cs)) in if even (k div int (length cs)) then v else - v)"

lemma coefficient_at_nth: "i < length cs \<Longrightarrow> coefficient_at cs (int i) = cs ! i"
  by (simp add: coefficient_at_def)

lemma coefficient_at_period:
  assumes "cs \<noteq> []"
  shows "coefficient_at cs (k - int (length cs)) = - coefficient_at cs k"
proof -
  have "(k - int (length cs)) div int (length cs) = k div int (length cs) - 1"
    using div_mult_self1 [of "int (length cs)" k "- 1"] assms by simp
  moreover have "(k - int (length cs)) mod int (length cs) = k mod int (length cs)" by simp
  ultimately show ?thesis by (simp add: coefficient_at_def Let_def)
qed

definition rotated :: "nat \<Rightarrow> int list \<Rightarrow> int list" where
  "rotated e cs = map (\<lambda>n. coefficient_at cs (int n - int e)) [0..<length cs]"

lemma rotated_Suc:
  assumes "cs \<noteq> []"
  shows "rotated (Suc e) cs = turned (rotated e cs)"
proof (rule nth_equalityI)
  have nonempty: "rotated e cs \<noteq> []" using assms by (simp add: rotated_def)
  have l: "length (rotated e cs) = length cs" by (simp add: rotated_def)
  then show "length (rotated (Suc e) cs) = length (turned (rotated e cs))"
    using assms by (simp add: rotated_def turned_def)
  fix i assume i: "i < length (rotated (Suc e) cs)"
  then have il: "i < length cs" by (simp add: rotated_def)
  show "rotated (Suc e) cs ! i = turned (rotated e cs) ! i"
  proof (cases i)
    case 0
    have "int (length cs - 1) - int e - int (length cs) = - 1 - int e"
      using assms by (simp add: of_nat_diff Suc_le_eq)
    then have "coefficient_at cs (- 1 - int e) = - coefficient_at cs (int (length cs - 1) - int e)"
      using coefficient_at_period [OF assms, of "int (length cs - 1) - int e"] by metis
    then show ?thesis
      using 0 assms nonempty l il by (simp add: rotated_def turned_def last_conv_nth del: of_nat_diff)
  next
    case (Suc j)
    then have "turned (rotated e cs) ! i = rotated e cs ! j"
      using il l by (simp add: turned_def nth_butlast)
    then show ?thesis using Suc il by (simp add: rotated_def algebra_simps)
  qed
qed

lemma peval_rotated:
  assumes "cs \<noteq> []" "z ^ length cs = - 1"
  shows "peval (rotated e cs) z = z ^ e * peval cs z"
proof (induction e)
  case 0
  have "rotated 0 cs = cs" by (rule nth_equalityI) (simp_all add: rotated_def coefficient_at_nth)
  then show ?case by simp
next
  case (Suc e)
  have "length (rotated e cs) = length cs" "rotated e cs \<noteq> []" using assms(1) by (simp_all add: rotated_def)
  then show ?case
    using peval_turned [of "rotated e cs" z] Suc assms by (simp add: rotated_Suc mult.assoc)
qed

text \<open>The differences of one position to the others.\<close>

lemma member_difference:
  fixes z :: complex
  assumes "other < 2 * 2 ^ t" "member < 2 * 2 ^ t" "z ^ 2 ^ t = - 1"
  shows "z ^ ((member + 2 * 2 ^ t - other) mod (2 * 2 ^ t)) = z ^ member / z ^ other"
proof -
  have z: "z \<noteq> 0" using assms(3) by (auto simp: zero_power)
  have period: "z ^ (2 * 2 ^ t * n) = 1" for n
    using assms(3) by (simp add: power_mult mult.commute [of 2 "2 ^ t"])
  let ?d = "member + 2 * 2 ^ t - other"
  have "z ^ other * z ^ ?d = z ^ member * z ^ (2 * 2 ^ t * 1)"
    using assms(1) by (simp add: power_add [symmetric])
  moreover have "z ^ ?d = z ^ (2 * 2 ^ t * (?d div (2 * 2 ^ t)) + ?d mod (2 * 2 ^ t))" by simp
  then have "z ^ ?d = z ^ (?d mod (2 * 2 ^ t))" by (simp only: power_add period mult_1)
  ultimately show ?thesis using z period [of 1] by (simp add: field_simps)
qed

lemma difference_injective:
  assumes "other < 2 * 2 ^ t" "other' < 2 * 2 ^ t" "member < 2 * 2 ^ t"
    and "(member + 2 * 2 ^ t - other) mod (2 * 2 ^ t) = (member + 2 * 2 ^ t - other') mod (2 * 2 ^ t)"
  shows "other = (other' :: nat)"
proof -
  have "((member + 2 * 2 ^ t - other) mod (2 * 2 ^ t) + other) mod (2 * 2 ^ t)
      = ((member + 2 * 2 ^ t - other') mod (2 * 2 ^ t) + other) mod (2 * 2 ^ t)" using assms(4) by simp
  then have "member mod (2 * 2 ^ t) = (member + 2 * 2 ^ t - other' + other) mod (2 * 2 ^ t)"
    using assms(1) by (simp add: mod_add_left_eq)
  then have "(member + other') mod (2 * 2 ^ t) = (member + 2 * 2 ^ t - other' + other + other') mod (2 * 2 ^ t)"
    by (metis mod_add_left_eq)
  also have "member + 2 * 2 ^ t - other' + other + other' = member + other + 2 * 2 ^ t" using assms(2) by simp
  also have "(member + other + 2 * 2 ^ t) mod (2 * 2 ^ t) = (member + other) mod (2 * 2 ^ t)" by (rule mod_add_self2)
  finally have "(member + other') mod (2 * 2 ^ t) = (member + other) mod (2 * 2 ^ t)" .
  then have "int ((member + other') mod (2 * 2 ^ t)) = int ((member + other) mod (2 * 2 ^ t))" by (rule arg_cong)
  then have "(int member + int other') mod (2 * 2 ^ t) = (int member + int other) mod (2 * 2 ^ t)" by (simp add: zmod_int)
  then have "(int member + int other' - int member) mod (2 * 2 ^ t) = (int member + int other - int member) mod (2 * 2 ^ t)"
    by (rule mod_diff_cong [OF _ refl])
  then have "int other' mod (2 * 2 ^ t) = int other mod (2 * 2 ^ t)" by simp
  moreover have "int other < 2 * 2 ^ t" "int other' < 2 * 2 ^ t"
    using assms(1,2) by (metis of_nat_less_iff of_nat_mult of_nat_numeral of_nat_power)+
  ultimately show ?thesis by simp
qed

text \<open>The positions a set of weights is for.\<close>

definition admissible :: "profile \<Rightarrow> nat list \<Rightarrow> bool" where
  "admissible p positions \<longleftrightarrow> length positions = release_threshold p
     \<and> (\<forall>position \<in> set positions. position < participants p) \<and> sorted_wrt (<) positions"

lemma degree_bounds:
  assumes "2 \<le> participants p" "participants p \<le> 32"
  obtains t where "interpolation_degree p = 2 ^ t" "t \<le> 4" "participants p \<le> 2 * 2 ^ t"
proof -
  have "2 * (div_ceil (participants p) 2 - 1) < 32"
    using div_ceil_bounds(2) [of 2 "participants p"] assms by simp
  then have h: "div_ceil (participants p) 2 \<le> 2 ^ 4" "participants p \<le> 2 * div_ceil (participants p) 2"
    using div_ceil_bounds(1) [of 2 "participants p"] by auto
  have "interpolation_degree p \<le> 2 ^ 4" unfolding interpolation_degree_def by (rule next_power_of_two_least [OF h(1)])
  moreover have "interpolation_degree p = 2 ^ bit_length (div_ceil (participants p) 2 - 1)"
    by (simp add: interpolation_degree_def next_power_of_two_def)
  moreover have "participants p \<le> 2 * interpolation_degree p"
    using h(2) next_power_of_two_ge [of "div_ceil (participants p) 2"] by (simp add: interpolation_degree_def)
  ultimately show thesis using that by (metis one_less_numeral_iff power_le_imp_le_exp semiring_norm(76))
qed

lemma release_threshold_bounds:
  assumes "participants p \<le> 32"
  shows "release_threshold p \<le> 11" "release_threshold p \<le> clearing_factor p" "clearing_factor p \<le> 16"
    "clearing_factor p = 2 ^ bit_length (release_threshold p - 1)"
proof -
  show d: "release_threshold p \<le> 11"
    using assms by (simp add: release_threshold_def maximum_corrupt_participants_def)
  show "release_threshold p \<le> clearing_factor p" unfolding clearing_factor_def by (rule next_power_of_two_ge)
  show "clearing_factor p \<le> 16" unfolding clearing_factor_def using next_power_of_two_least [of _ 4] d by simp
  show "clearing_factor p = 2 ^ bit_length (release_threshold p - 1)"
    by (simp add: clearing_factor_def next_power_of_two_def)
qed

lemma those_map_nth:
  assumes "length ys = length xs" "\<And>i. i < length xs \<Longrightarrow> f (xs ! i) = Some (ys ! i)"
  shows "those (map f xs) = Some ys"
  using assms
proof (induction xs arbitrary: ys)
  case (Cons x xs)
  then obtain y ys' where ys: "ys = y # ys'" by (cases ys) auto
  have "f x = Some y" using Cons.prems(2) [of 0] ys by simp
  moreover have "those (map f xs) = Some ys'"
  proof (rule Cons.IH)
    show "length ys' = length xs" using Cons.prems(1) ys by simp
    show "f (xs ! i) = Some (ys' ! i)" if "i < length xs" for i using Cons.prems(2) [of "Suc i"] that ys by simp
  qed
  ultimately show ?case using ys by simp
qed simp

lemma cleared_all:
  assumes "length cs = length numerator" "\<And>j. j < length numerator \<Longrightarrow> \<bar>numerator ! j * clearing\<bar> < 2 ^ 63"
    and "\<And>j. j < length numerator \<Longrightarrow> numerator ! j * clearing = divisor * cs ! j" "divisor \<noteq> 0"
  shows "those (map (cleared clearing divisor) numerator) = Some cs"
proof (rule those_map_nth [OF assms(1)])
  fix j assume j: "j < length numerator"
  show "cleared clearing divisor (numerator ! j) = Some (cs ! j)"
    unfolding cleared_def i64_small [OF assms(2) [OF j]] using assms(3) [OF j] assms(4) by simp
qed

lemma lagrange_at_positions:
  fixes z :: complex
  assumes "\<forall>a \<in> set positions. a < 2 * 2 ^ t" "distinct positions" "member \<in> set positions" "z ^ 2 ^ t = - 1"
  shows "inj_on (\<lambda>a. z ^ a) (set positions)"
    "(\<Prod>other\<leftarrow>filter (\<lambda>other. other \<noteq> member) positions. 1 - z ^ ((member + 2 * 2 ^ t - other) mod (2 * 2 ^ t)))
       = inverse (lagrange ((\<lambda>a. z ^ a) ` set positions) (z ^ member))"
proof -
  have less: "z ^ a \<noteq> z ^ b" if "a < b" "b < 2 * 2 ^ t" for a b
  proof
    assume "z ^ a = z ^ b"
    moreover have "z ^ b = z ^ a * z ^ (b - a)" using that by (simp add: power_add [symmetric])
    moreover have "z \<noteq> 0" using assms(4) by (auto simp: zero_power)
    ultimately have "z ^ (b - a) = 1" by simp
    then show False using points_differ [OF assms(4), of "b - a"] that by simp
  qed
  show inj: "inj_on (\<lambda>a. z ^ a) (set positions)"
    using less assms(1) by (intro inj_onI) (metis linorder_neqE_nat)
  have "(\<lambda>a. z ^ a) ` set positions - {z ^ member} = (\<lambda>a. z ^ a) ` (set positions - {member})"
    using inj assms(3) by (simp add: inj_on_image_set_diff [OF inj])
  then have "lagrange ((\<lambda>a. z ^ a) ` set positions) (z ^ member)
      = (\<Prod>other\<in>set positions - {member}. inverse (1 - z ^ member / z ^ other))"
    unfolding lagrange_def by (simp add: prod.reindex inj_on_diff inj)
  also have "\<dots> = (\<Prod>other\<in>set positions - {member}. inverse (1 - z ^ ((member + 2 * 2 ^ t - other) mod (2 * 2 ^ t))))"
    using assms(1,3) by (intro prod.cong) (simp_all add: member_difference [OF _ _ assms(4)])
  also have "\<dots> = inverse (\<Prod>other\<in>set positions - {member}. 1 - z ^ ((member + 2 * 2 ^ t - other) mod (2 * 2 ^ t)))"
    by (rule prod_inversef [unfolded comp_def])
  also have "set positions - {member} = set (filter (\<lambda>other. other \<noteq> member) positions)" by auto
  finally show "(\<Prod>other\<leftarrow>filter (\<lambda>other. other \<noteq> member) positions. 1 - z ^ ((member + 2 * 2 ^ t - other) mod (2 * 2 ^ t)))
       = inverse (lagrange ((\<lambda>a. z ^ a) ` set positions) (z ^ member))"
    unfolding prod.distinct_set_conv_list [OF distinct_filter [OF assms(2)]] by simp
qed

lemma cleared_weight_exact:
  assumes p: "2 \<le> participants p" "participants p \<le> 32" and positions: "admissible p positions" "member \<in> set positions"
  obtains w where "cleared_weight p positions member = Some w" "length w = interpolation_degree p"
    "\<And>z. z ^ interpolation_degree p = - 1 \<Longrightarrow>
       peval w z = of_nat (clearing_factor p) * lagrange ((\<lambda>a. z ^ a) ` set positions) (z ^ member)"
proof -
  obtain t where t: "interpolation_degree p = 2 ^ t" "t \<le> 4" "participants p \<le> 2 * 2 ^ t"
    by (rule degree_bounds [OF p])
  define d where "d = release_threshold p"
  define m where "m = bit_length (d - 1)"
  have two: "2 \<le> release_threshold p" by (simp add: release_threshold_def)
  note bounds = release_threshold_bounds [OF p(2), folded d_def]
  have c: "clearing_factor p = 2 ^ m" using bounds(4) by (simp add: m_def)
  have inside: "\<forall>a \<in> set positions. a < 2 * 2 ^ t" using positions(1) t(3) by (auto simp: admissible_def)
  have distinct: "distinct positions" using positions(1) by (simp add: admissible_def strict_sorted_iff)
  let ?others = "filter (\<lambda>other. other \<noteq> member) positions"
  let ?ks = "map (\<lambda>other. (member + 2 * 2 ^ t - other) mod (2 * 2 ^ t)) ?others"
  have "set ?others = set positions - {member}" by auto
  then have length_others: "length ?others = d - 1"
    using distinct positions distinct_card [of ?others] distinct_card [of positions]
    by (simp add: admissible_def d_def)
  have member: "member < 2 * 2 ^ t" using inside positions(2) by blast
  have distinct_ks: "distinct ?ks"
  proof (subst distinct_map, intro conjI inj_onI)
    show "distinct ?others" by (rule distinct_filter [OF distinct])
    fix a b assume "a \<in> set ?others" "b \<in> set ?others"
      and eq: "(member + 2 * 2 ^ t - a) mod (2 * 2 ^ t) = (member + 2 * 2 ^ t - b) mod (2 * 2 ^ t)"
    then have "a < 2 * 2 ^ t" "b < 2 * 2 ^ t" using inside by simp_all
    then show "a = b" by (rule difference_injective [OF _ _ member eq])
  qed
  have others: "\<forall>other \<in> set ?others. other < 2 * 2 ^ t \<and> other \<noteq> member" using inside by auto
  have "(2 :: int) ^ t \<le> 2 ^ 4" using t(2) by (intro power_increasing) simp_all
  then have "((2 :: int) ^ t) ^ (d - 1) \<le> (2 ^ 4) ^ (d - 1)" by (intro power_mono) simp_all
  also have "\<dots> \<le> (2 ^ 4) ^ 10" using bounds(1) by (intro power_increasing) simp_all
  finally have power: "((2 :: int) ^ t) ^ (d - 1) \<le> 2 ^ 40" by simp
  have "weight_norm (monomial 0 (2 ^ t)) * (2 ^ t) ^ (d - 1) \<le> 1 * (2 ^ t) ^ (d - 1)"
    by (intro mult_right_mono norm_monomial) simp_all
  then have norm: "weight_norm (monomial 0 (2 ^ t)) * (2 ^ t) ^ (d - 1) \<le> 2 ^ 40" using power by linarith
  then obtain N where N: "numerator_of (2 ^ t) member ?others (monomial 0 (2 ^ t)) = Some N" "length N = 2 ^ t"
    "weight_norm N \<le> weight_norm (monomial 0 (2 ^ t)) * (2 ^ t) ^ length ?others"
    "\<And>z. z ^ 2 ^ t = - 1 \<Longrightarrow> peval N z * (\<Prod>other\<leftarrow>?others. 1 - z ^ ((member + 2 * 2 ^ t - other) mod (2 * 2 ^ t)))
         = 2 ^ length ?others * peval (monomial 0 (2 ^ t)) z"
    using numerator_exact [OF others member, of "monomial 0 (2 ^ t)"] length_others by auto
  have nonzero_ks: "\<forall>k \<in> set ?ks. 0 < k \<and> k < 2 * 2 ^ t"
  proof
    fix k assume "k \<in> set ?ks"
    then obtain other where other: "other \<in> set ?others" "k = (member + 2 * 2 ^ t - other) mod (2 * 2 ^ t)" by auto
    from bspec [OF others this(1)] have bound: "other < 2 * 2 ^ t" "other \<noteq> member" by blast+
    have "k \<noteq> (member + 2 * 2 ^ t - member) mod (2 * 2 ^ t)"
      using difference_injective [OF bound(1) member member] bound(2) unfolding other(2) by (intro notI) simp
    then show "0 < k \<and> k < 2 * 2 ^ t" using other(2) by simp
  qed
  have "(\<Sum>k\<leftarrow>?ks. 2 ^ trailing_zeros k) = (\<Sum>k\<in>set ?ks. 2 ^ trailing_zeros k :: nat)"
    using distinct_ks by (rule sum_list_distinct_conv_sum_set)
  also have "\<dots> \<le> m * 2 ^ t"
  proof (rule trailing_sum_bound)
    show "set ?ks \<subseteq> {1..<2 * 2 ^ t}" using nonzero_ks by fastforce
    have "card (set ?ks) = d - 1" using distinct_card [OF distinct_ks] length_others by simp
    then show "card (set ?ks) < 2 ^ m"
      using bounds(2) c two by (simp add: d_def)
  qed
  finally obtain Q where Q: "length Q = 2 ^ t" "\<And>z. z ^ 2 ^ t = - 1 \<Longrightarrow> peval Q z = 2 ^ m / (\<Prod>k\<leftarrow>?ks. 1 - z ^ k)"
    using power_of_two_clears [OF nonzero_ks] unfolding integral_at_def by blast
  have scaled: "map ((*) (2 ^ m)) N = map ((*) (2 ^ (d - 1))) Q"
  proof (rule peval_inject [of "2 ^ t"])
    fix z :: complex assume z: "z ^ 2 ^ t = - 1"
    have nonzero: "(\<Prod>k\<leftarrow>?ks. 1 - z ^ k) \<noteq> 0"
      using nonzero_ks points_differ [OF z] by (auto simp: prod_list_zero_iff)
    have scale: "peval (map ((*) a) cs) z = of_int a * peval cs z" for a cs
      by (simp add: peval_def sum_distrib_left mult.assoc)
    have "peval N z * (\<Prod>k\<leftarrow>?ks. 1 - z ^ k) = 2 ^ (d - 1)"
      using N(4) [OF z] length_others z by (simp add: peval_monomial comp_def)
    then show "peval (map ((*) (2 ^ m)) N) z = peval (map ((*) (2 ^ (d - 1))) Q) z"
      unfolding scale Q(2) [OF z] using nonzero by (simp add: eq_divide_eq mult.commute mult.left_commute)
  qed (use N(2) Q(1) in simp_all)
  have small: "\<bar>N ! j * 2 ^ m\<bar> < 2 ^ 63" if "j < length N" for j
  proof -
    have "\<bar>N ! j\<bar> \<le> 2 ^ 40" using norm_nth [OF that] N(3) norm length_others by simp
    moreover have "(2 :: int) ^ m \<le> 16" using bounds(3) unfolding c by (metis of_nat_le_iff of_nat_numeral of_nat_power)
    ultimately have "\<bar>N ! j\<bar> * 2 ^ m \<le> 2 ^ 40 * 16" by (intro mult_mono) simp_all
    then show ?thesis by (simp add: abs_mult)
  qed
  have "those (map (cleared (2 ^ m) (2 ^ (d - 1))) N) = Some Q"
  proof (rule cleared_all)
    fix j assume j: "j < length N"
    have "map ((*) (2 ^ m)) N ! j = map ((*) (2 ^ (d - 1))) Q ! j" by (simp only: scaled)
    then show "N ! j * 2 ^ m = 2 ^ (d - 1) * Q ! j" using j N(2) Q(1) by (simp add: mult.commute)
  qed (use N(2) Q(1) small in simp_all)
  then have "cleared_weight p positions member = Some Q"
    using N(1) positions(1) unfolding cleared_weight_def t(1) c by (simp add: admissible_def d_def)
  moreover have "peval Q z = of_nat (clearing_factor p) * lagrange ((\<lambda>a. z ^ a) ` set positions) (z ^ member)"
    if "z ^ interpolation_degree p = - 1" for z
  proof -
    have z: "z ^ 2 ^ t = - 1" using that t(1) by simp
    show ?thesis
      using Q(2) [OF z] lagrange_at_positions(2) [OF inside distinct positions(2) z]
      by (simp add: c comp_def divide_inverse)
  qed
  ultimately show thesis using that Q(1) t(1) by simp
qed

text \<open>The weights, with what they sum to at every e of the points.\<close>

lemma weights_exist:
  assumes p: "2 \<le> participants p" "participants p \<le> 32" and positions: "admissible p positions"
  obtains weights where "cleared_weights p positions = Some (Inr weights)" "length weights = length positions"
    "\<And>i. i < length positions \<Longrightarrow> length (weights ! i) = interpolation_degree p"
    "\<And>i z. i < length positions \<Longrightarrow> z ^ interpolation_degree p = - 1 \<Longrightarrow> peval (weights ! i) z
       = of_nat (clearing_factor p) * lagrange ((\<lambda>a. z ^ a) ` set positions) (z ^ (positions ! i))"
proof -
  define weight where "weight member = the (cleared_weight p positions member)" for member
  have weight: "cleared_weight p positions member = Some (weight member)" "length (weight member) = interpolation_degree p"
    "\<And>z. z ^ interpolation_degree p = - 1 \<Longrightarrow>
       peval (weight member) z = of_nat (clearing_factor p) * lagrange ((\<lambda>a. z ^ a) ` set positions) (z ^ member)"
    if "member \<in> set positions" for member
    using cleared_weight_exact [OF p positions that] unfolding weight_def by (metis option.sel)+
  have "those (map (cleared_weight p positions) positions) = Some (map weight positions)"
    by (rule those_map_nth) (simp_all add: weight)
  moreover have "length positions - 1 < 63"
    using positions release_threshold_bounds(1) [OF p(2)] by (simp add: admissible_def)
  ultimately have "cleared_weights p positions = Some (Inr (map weight positions))"
    using positions by (auto simp: cleared_weights_def admissible_def not_le)
  then show thesis by (rule that) (simp_all add: weight)
qed

lemma peval_combined:
  assumes "\<forall>i < n. length (ws i) = r" "r \<noteq> 0" "z ^ r = - 1"
  shows "peval (map (\<lambda>index. \<Sum>i<n. coefficient_at (ws i) (int index - int (e i))) [0..<r]) z
    = (\<Sum>i<n. z ^ e i * peval (ws i) z)"
proof -
  have "peval (map (\<lambda>index. \<Sum>i<n. coefficient_at (ws i) (int index - int (e i))) [0..<r]) z
      = (\<Sum>i<n. \<Sum>index<r. of_int (coefficient_at (ws i) (int index - int (e i))) * z ^ index)"
    unfolding peval_def by (subst sum.swap) (simp add: sum_distrib_right)
  also have "\<dots> = (\<Sum>i<n. peval (rotated (e i) (ws i)) z)"
    using assms(1) by (intro sum.cong) (simp_all add: peval_def rotated_def)
  also have "\<dots> = (\<Sum>i<n. z ^ e i * peval (ws i) z)"
    using assms by (intro sum.cong) (simp_all add: peval_rotated length_0_conv [symmetric] del: length_0_conv)
  finally show ?thesis .
qed

lemma weights_reconstruct:
  assumes p: "2 \<le> participants p" "participants p \<le> 32" and positions: "admissible p positions"
    and weights: "length weights = length positions"
      "\<And>i. i < length positions \<Longrightarrow> length (weights ! i) = interpolation_degree p"
      "\<And>i z. i < length positions \<Longrightarrow> z ^ interpolation_degree p = - 1 \<Longrightarrow> peval (weights ! i) z
         = of_nat (clearing_factor p) * lagrange ((\<lambda>a. z ^ a) ` set positions) (z ^ (positions ! i))"
    and e: "e < release_threshold p" and index: "index < interpolation_degree p"
  shows "(\<Sum>i<length positions. coefficient_at (weights ! i) (int index - int (positions ! i * e)))
    = (if e = 0 \<and> index = 0 then int (clearing_factor p) else 0)"
proof -
  obtain t where t: "interpolation_degree p = 2 ^ t" "t \<le> 4" "participants p \<le> 2 * 2 ^ t"
    by (rule degree_bounds [OF p])
  have inside: "\<forall>a \<in> set positions. a < 2 * 2 ^ t" using positions t(3) by (auto simp: admissible_def)
  have distinct: "distinct positions" using positions by (simp add: admissible_def strict_sorted_iff)
  have nonempty: "positions \<noteq> []" using positions by (auto simp: admissible_def release_threshold_def)
  let ?r = "interpolation_degree p"
  let ?sum = "map (\<lambda>index. \<Sum>i<length positions. coefficient_at (weights ! i) (int index - int (positions ! i * e))) [0..<?r]"
  let ?expected = "(replicate ?r 0)[0 := if e = 0 then int (clearing_factor p) else 0]"
  have "?sum = ?expected"
  proof (rule peval_inject [of ?r])
    show "0 < ?r" by (simp add: t(1))
    fix z :: complex assume z: "z ^ ?r = - 1"
    have zt: "z ^ 2 ^ t = - 1" using z t(1) by simp
    have zero: "z \<noteq> 0" using zt by (auto simp: zero_power)
    let ?S = "(\<lambda>a. z ^ a) ` set positions"
    have inj: "inj_on (\<lambda>a. z ^ a) (set positions)"
      using lagrange_at_positions(1) [OF inside distinct _ zt] nonempty by (metis hd_in_set)
    have "peval ?sum z = (\<Sum>i<length positions. z ^ (positions ! i * e) * peval (weights ! i) z)"
      using weights(2) z t(1) by (intro peval_combined) simp_all
    also have "\<dots> = (\<Sum>i<length positions. of_nat (clearing_factor p)
        * (lagrange ?S (z ^ (positions ! i)) * (z ^ (positions ! i)) ^ e))"
      using weights(3) z by (intro sum.cong) (simp_all add: power_mult)
    also have "\<dots> = of_nat (clearing_factor p) * (\<Sum>i<length positions. lagrange ?S (z ^ (positions ! i)) * (z ^ (positions ! i)) ^ e)"
      by (simp add: sum_distrib_left)
    also have "(\<Sum>i<length positions. lagrange ?S (z ^ (positions ! i)) * (z ^ (positions ! i)) ^ e)
        = (\<Sum>a\<leftarrow>positions. lagrange ?S (z ^ a) * (z ^ a) ^ e)"
      by (simp add: sum_list_sum_nth atLeast0LessThan)
    also have "\<dots> = (\<Sum>a\<in>set positions. lagrange ?S (z ^ a) * (z ^ a) ^ e)"
      using distinct by (rule sum_list_distinct_conv_sum_set)
    also have "\<dots> = (\<Sum>x\<in>?S. lagrange ?S x * x ^ e)" by (simp add: sum.reindex [OF inj])
    also have "\<dots> = (if e = 0 then 1 else 0)"
    proof (rule lagrange_reconstructs)
      show "e < card ?S"
        using e positions distinct_card [OF distinct] by (simp add: card_image [OF inj] admissible_def)
    qed (use nonempty zero in auto)
    finally show "peval ?sum z = peval ?expected z" by (simp add: peval_update t(1))
  qed simp_all
  then have "?sum ! index = ?expected ! index" by simp
  then show ?thesis using index by (simp add: nth_list_update split: if_splits)
qed

text \<open>
  C31. The reconstruction weights are exact: in every roster of at most thirty-two participants, a set
  of as many distinct positions as the release threshold gets one weight per position without an
  overflow or a failed assertion, so the clearing factor clears every denominator; summed over
  the positions, the weights times the points to a power give the clearing factor for the constant
  power and vanish for every other power below the threshold.  Every other set of positions is
  refused.
\<close>

theorem reconstruction_weights_are_exact:
  assumes "2 \<le> participants p" "participants p \<le> 32"
  shows "if length positions = release_threshold p \<and> (\<forall>position \<in> set positions. position < participants p)
      \<and> sorted_wrt (<) positions
    then \<exists>weights. cleared_weights p positions = Some (Inr weights) \<and> length weights = length positions
      \<and> (\<forall>e < release_threshold p. \<forall>index < interpolation_degree p.
          (\<Sum>i<length positions. coefficient_at (weights ! i) (int index - int (positions ! i * e)))
            = (if e = 0 \<and> index = 0 then int (clearing_factor p) else 0))
    else cleared_weights p positions = Some (Inl ())"
proof (cases "admissible p positions")
  case True
  obtain weights where weights: "cleared_weights p positions = Some (Inr weights)" "length weights = length positions"
    "\<And>i. i < length positions \<Longrightarrow> length (weights ! i) = interpolation_degree p"
    "\<And>i z. i < length positions \<Longrightarrow> z ^ interpolation_degree p = - 1 \<Longrightarrow> peval (weights ! i) z
       = of_nat (clearing_factor p) * lagrange ((\<lambda>a. z ^ a) ` set positions) (z ^ (positions ! i))"
    by (rule weights_exist [OF assms True]) blast
  have "\<forall>e < release_threshold p. \<forall>index < interpolation_degree p.
      (\<Sum>i<length positions. coefficient_at (weights ! i) (int index - int (positions ! i * e)))
        = (if e = 0 \<and> index = 0 then int (clearing_factor p) else 0)"
  proof (intro allI impI)
    fix e index assume inside: "e < release_threshold p" "index < interpolation_degree p"
    show "(\<Sum>i<length positions. coefficient_at (weights ! i) (int index - int (positions ! i * e)))
        = (if e = 0 \<and> index = 0 then int (clearing_factor p) else 0)"
      by (rule weights_reconstruct [OF assms True weights(2)]) (assumption | rule weights(3,4) inside)+
  qed
  then have "\<exists>weights. cleared_weights p positions = Some (Inr weights) \<and> length weights = length positions
      \<and> (\<forall>e < release_threshold p. \<forall>index < interpolation_degree p.
          (\<Sum>i<length positions. coefficient_at (weights ! i) (int index - int (positions ! i * e)))
            = (if e = 0 \<and> index = 0 then int (clearing_factor p) else 0))"
    using weights(1,2) by (intro exI [of _ weights]) (intro conjI)
  then show ?thesis unfolding if_P [OF True [unfolded admissible_def]] .
next
  case False
  then show ?thesis by (auto simp: admissible_def cleared_weights_def not_le)
qed

theorem reconstruction_weights_are_exact_witness:
  "(\<exists>weights. cleared_weights sample_profile [1, 4] = Some (Inr weights) \<and> length weights = 2
      \<and> (\<forall>index < 4. coefficient_at (weights ! 0) (int index - 1) + coefficient_at (weights ! 1) (int index - 4) = 0))
    \<and> cleared_weights sample_profile [1, 5] = Some (Inl ())"
proof -
  have p: "2 \<le> participants sample_profile" "participants sample_profile \<le> 32" by (simp_all add: sample_profile_def)
  have threshold: "release_threshold sample_profile = 2" "participants sample_profile = 5"
    "interpolation_degree sample_profile = 4"
    by (simp_all add: release_threshold_def maximum_corrupt_participants_def sample_profile_def interpolation_degree_def
        div_ceil_def next_power_of_two_def bit_length.simps)
  have admitted: "(length [1, 4 :: nat] = 2 \<and> (\<forall>position \<in> set [1, 4 :: nat]. position < 5) \<and> sorted_wrt (<) [1, 4 :: nat]) = True"
    by simp
  have two: "{..<length [1, 4 :: nat]} = {0, 1}" by auto
  obtain weights where "cleared_weights sample_profile [1, 4] = Some (Inr weights)" "length weights = length [1, 4 :: nat]"
    and "\<forall>e < 2. \<forall>index < 4. (\<Sum>i<length [1, 4 :: nat]. coefficient_at (weights ! i) (int index - int ([1, 4] ! i * e)))
       = (if e = 0 \<and> index = 0 then int (clearing_factor sample_profile) else 0)"
    using reconstruction_weights_are_exact [OF p, of "[1, 4]", unfolded threshold, unfolded admitted if_True] by blast
  then have "\<forall>index < 4. coefficient_at (weights ! 0) (int index - 1) + coefficient_at (weights ! 1) (int index - 4) = 0"
    unfolding two by (auto dest: spec [of _ 1])
  moreover have "cleared_weights sample_profile [1, 5] = Some (Inl ())"
    using reconstruction_weights_are_exact [OF p, of "[1, 5]"] threshold by simp
  ultimately show ?thesis using \<open>cleared_weights sample_profile [1, 4] = Some (Inr weights)\<close> \<open>length weights = length [1, 4]\<close> by auto
qed

end
