(* ===== verification/Centered_Codec.thy ===== *)
theory Centered_Codec
  imports Prelude
begin

text \<open>
  The records of centered coefficients of an odd modulus: the decoder of
  \<open>statement-stream/src/coefficient.rs\<close> and its encoder.  A record is a sign byte
  before the magnitude's bytes; big integers of the source are integers here.
\<close>

section \<open>The codec\<close>

definition centered_half :: "bytes \<Rightarrow> bytes" where
  "centered_half modulus =
     map (\<lambda>index. drop_bit 1 (modulus ! index)
            OR push_bit 7 ((if index + 1 < length modulus then modulus ! (index + 1) else 0) AND 1))
       [0..<length modulus]"

definition record_bytes :: "bytes \<Rightarrow> nat" where
  "record_bytes half = 1 + length half"

text \<open>The comparison of iterators: the first difference decides, then the length.\<close>

fun not_after :: "byte list \<Rightarrow> byte list \<Rightarrow> bool" where
  "not_after [] ys \<longleftrightarrow> True"
| "not_after (x # xs) [] \<longleftrightarrow> False"
| "not_after (x # xs) (y # ys) \<longleftrightarrow> x < y \<or> x = y \<and> not_after xs ys"

fun canonical_record :: "bytes \<Rightarrow> bytes \<Rightarrow> bool" where
  "canonical_record half [] \<longleftrightarrow> False"
| "canonical_record half (sign # magnitude) \<longleftrightarrow> length magnitude = length half \<and> sign \<le> 1
     \<and> not_after (rev magnitude) (rev half) \<and> \<not> (sign = 1 \<and> (\<forall>b \<in> set magnitude. b = 0))"

definition decode_record :: "bytes \<Rightarrow> bytes \<Rightarrow> int option" where
  "decode_record half record =
     (if canonical_record half record
      then let magnitude = int (le_value (drop 1 record)) in
        Some (if record ! 0 = 1 then - magnitude else magnitude)
      else None)"

definition decode_records :: "bytes \<Rightarrow> bytes \<Rightarrow> int list option" where
  "decode_records half bs =
     (if length bs mod record_bytes half \<noteq> 0 then None
      else those (map (decode_record half) (chunks_exact (record_bytes half) bs)))"

text \<open>The record has a given length; an assertion that fails is \<open>None\<close>.\<close>

definition encode_record :: "nat \<Rightarrow> int \<Rightarrow> bytes option" where
  "encode_record len v =
     (if len \<le> 1 \<or> nat \<bar>v\<bar> \<ge> 256 ^ (len - 1) then None
      else Some ((if v < 0 then 1 else 0) # le_bytes (len - 1) (nat \<bar>v\<bar>)))"

section \<open>Exactness\<close>

lemma half_byte:
  "unat (drop_bit 1 b OR push_bit 7 (c AND 1) :: byte) = unat b div 2 + 128 * (unat c mod 2)"
proof -
  have "drop_bit 1 b OR push_bit 7 (c AND 1) = drop_bit 1 b + push_bit 7 (c AND 1)"
    by (rule disjunctive_add [symmetric]) (auto simp: bit_simps dest: bit_imp_le_length)
  moreover have small: "unat b < 256" using unsigned_less [of b] by simp
  moreover have "unat (drop_bit 1 b) = unat b div 2" by (simp add: drop_bit_eq_div unat_div_distrib)
  moreover have "unat (push_bit 7 (c AND 1)) = 128 * (unat c mod 2)"
  proof -
    have "c AND 1 = of_bool (odd c)" by (simp add: and_one_eq mod2_eq_if)
    moreover have "odd c \<longleftrightarrow> odd (unat c)" using bit_unsigned_iff [of c 0, where 'a = nat] by (simp add: bit_0)
    ultimately show ?thesis by (simp add: mod2_eq_if push_bit_eq_mult)
  qed
  ultimately show ?thesis by (simp add: unat_plus_if')
qed

lemma le_value_append: "le_value (xs @ ys) = le_value xs + 256 ^ length xs * le_value ys"
  by (induction xs) (simp_all add: algebra_simps)

lemma centered_half_Cons:
  "centered_half (b # bs) = (drop_bit 1 b OR push_bit 7 ((if bs = [] then 0 else hd bs) AND 1)) # centered_half bs"
proof -
  have upt: "[0..<length (b # bs)] = 0 # map Suc [0..<length bs]" by (simp add: map_Suc_upt upt_conv_Cons del: upt_Suc)
  show ?thesis unfolding centered_half_def upt by (simp add: hd_conv_nth)
qed

lemma le_value_half: "le_value (centered_half modulus) = le_value modulus div 2"
proof (induction modulus)
  case (Cons b bs)
  have even: "(a + 256 * v) mod 2 = a mod 2" "(a + 256 * v) div 2 = a div 2 + 128 * v" for a v :: nat
    using mod_mult_self2 [of a 2 "128 * v"] div_mult_self2 [of 2 a "128 * v"] by simp_all
  have low: "unat (if bs = [] then 0 else hd bs) mod 2 = le_value bs mod 2" by (cases bs) (simp_all add: even)
  have "le_value (centered_half (b # bs)) = unat b div 2 + 128 * (le_value bs mod 2) + 256 * (le_value bs div 2)"
    unfolding centered_half_Cons le_value.simps half_byte low Cons.IH by (rule refl)
  also have "\<dots> = unat b div 2 + 128 * (2 * (le_value bs div 2) + le_value bs mod 2)"
    by (simp only: distrib_left mult.assoc [symmetric])
  also have "\<dots> = le_value (b # bs) div 2" by (simp add: even)
  finally show ?case .
qed (simp add: centered_half_def)

lemma length_centered_half [simp]: "length (centered_half modulus) = length modulus"
  by (simp add: centered_half_def)

lemma not_after_value:
  assumes "length xs = length ys"
  shows "not_after (rev xs) (rev ys) \<longleftrightarrow> le_value xs \<le> le_value ys"
  using assms
proof (induction xs arbitrary: ys rule: rev_induct)
  case (snoc x xs)
  then obtain y ys' where ys: "ys = ys' @ [y]" "length xs = length ys'" by (cases ys rule: rev_cases) auto
  have low: "le_value xs < 256 ^ length ys'" "le_value ys' < 256 ^ length ys'"
    using le_value_bound [of xs] le_value_bound [of ys'] ys(2) by simp_all
  let ?p = "256 ^ length ys' :: nat"
  have "le_value xs + ?p * unat x \<le> le_value ys' + ?p * unat y \<longleftrightarrow> x < y \<or> x = y \<and> le_value xs \<le> le_value ys'"
  proof (cases "unat x" "unat y" rule: linorder_cases)
    case less
    then have "?p * Suc (unat x) \<le> ?p * unat y" by (intro mult_left_mono) simp_all
    then have "le_value xs + ?p * unat x \<le> le_value ys' + ?p * unat y" using low by simp
    then show ?thesis using less by (simp add: word_less_nat_alt)
  next
    case greater
    then have "?p * Suc (unat y) \<le> ?p * unat x" by (intro mult_left_mono) simp_all
    then have "\<not> le_value xs + ?p * unat x \<le> le_value ys' + ?p * unat y" using low by simp
    then show ?thesis using greater by (auto simp: word_less_nat_alt)
  next
    case equal
    then have "x = y" by (simp add: unsigned_word_eqI)
    then show ?thesis by simp
  qed
  then show ?case using snoc.IH [OF ys(2)] ys by (simp add: le_value_append)
qed simp

lemma le_value_zero: "le_value bs = 0 \<longleftrightarrow> (\<forall>b \<in> set bs. b = 0)"
  by (induction bs) (auto simp: unat_eq_0)

lemma byte_at_most_one: "b \<le> 1 \<Longrightarrow> b = 0 \<or> b = (1 :: byte)"
proof -
  assume "b \<le> 1"
  then have "unat b = unat (0 :: byte) \<or> unat b = unat (1 :: byte)" by (simp add: word_le_nat_alt le_Suc_eq)
  then show ?thesis by (metis unsigned_word_eqI)
qed

lemma decode_record_exact:
  assumes "modulus \<noteq> []"
  shows "decode_record (centered_half modulus) bs = Some v
    \<longleftrightarrow> \<bar>v\<bar> \<le> int (le_value modulus div 2) \<and> encode_record (1 + length modulus) v = Some bs"
proof (cases bs)
  case Nil
  then show ?thesis by (simp add: decode_record_def encode_record_def split: if_splits)
next
  case (Cons sign magnitude)
  have half: "le_value modulus div 2 < 256 ^ length modulus"
    using le_value_bound [of modulus] by simp
  have decoded: "decode_record (centered_half modulus) bs = Some v \<longleftrightarrow>
      length magnitude = length modulus \<and> sign \<le> 1 \<and> le_value magnitude \<le> le_value modulus div 2
      \<and> \<not> (sign = 1 \<and> le_value magnitude = 0) \<and> v = (if sign = 1 then - int (le_value magnitude) else int (le_value magnitude))"
    unfolding decode_record_def Cons
    using not_after_value [of magnitude "centered_half modulus"]
    by (auto simp: le_value_half le_value_zero Let_def)
  show ?thesis
  proof
    assume "decode_record (centered_half modulus) bs = Some v"
    then have d: "length magnitude = length modulus" "sign \<le> 1" "le_value magnitude \<le> le_value modulus div 2"
      "\<not> (sign = 1 \<and> le_value magnitude = 0)" "v = (if sign = 1 then - int (le_value magnitude) else int (le_value magnitude))"
      using decoded by blast+
    have sign: "sign = (if v < 0 then 1 else 0)" proof -
      have "sign = 0 \<or> sign = 1" using d(2) by (metis byte_at_most_one)
      then show ?thesis using d(4,5) by auto
    qed
    have "nat \<bar>v\<bar> = le_value magnitude" using d(5) by simp
    then show "\<bar>v\<bar> \<le> int (le_value modulus div 2) \<and> encode_record (1 + length modulus) v = Some bs"
      using d(3) half sign assms le_bytes_le_value [of magnitude] unfolding Cons by (auto simp: encode_record_def d(1))
  next
    assume "\<bar>v\<bar> \<le> int (le_value modulus div 2) \<and> encode_record (1 + length modulus) v = Some bs"
    then have v: "\<bar>v\<bar> \<le> int (le_value modulus div 2)" "sign = (if v < 0 then 1 else 0)"
      "magnitude = le_bytes (length modulus) (nat \<bar>v\<bar>)" "nat \<bar>v\<bar> < 256 ^ length modulus"
      unfolding Cons by (auto simp: encode_record_def split: if_splits)
    then have "le_value magnitude = nat \<bar>v\<bar>" by simp
    then show "decode_record (centered_half modulus) bs = Some v" unfolding decoded using v by auto
  qed
qed

lemma encode_record_small:
  assumes "modulus \<noteq> []" "\<bar>v\<bar> \<le> int (le_value modulus div 2)"
  obtains bs where "encode_record (1 + length modulus) v = Some bs" "length bs = 1 + length modulus"
proof -
  have "nat \<bar>v\<bar> < 256 ^ length modulus" using assms(2) le_value_bound [of modulus] by linarith
  then show thesis using that assms(1) by (simp add: encode_record_def)
qed

lemma encoded_length: "encode_record (1 + n) v = Some bs \<Longrightarrow> length bs = 1 + n"
  by (auto simp: encode_record_def split: if_splits)

text \<open>The codec of one record, as an exact codec for every modulus of at least one byte.\<close>

interpretation centered_record:
  exact_codec "\<lambda>v. the (encode_record (1 + length (b # m)) v)" "decode_record (centered_half (b # m))"
    "\<lambda>v. \<bar>v\<bar> \<le> int (le_value (b # m) div 2)" for b m
proof
  fix v assume v: "\<bar>v\<bar> \<le> int (le_value (b # m) div 2)"
  obtain bs where "encode_record (1 + length (b # m)) v = Some bs" by (rule encode_record_small [OF _ v]) simp_all
  then show "decode_record (centered_half (b # m)) (the (encode_record (1 + length (b # m)) v)) = Some v"
    using decode_record_exact [of "b # m"] v by simp
next
  fix bs v assume "decode_record (centered_half (b # m)) bs = Some v"
  then show "\<bar>v\<bar> \<le> int (le_value (b # m) div 2) \<and> the (encode_record (1 + length (b # m)) v) = bs"
    using decode_record_exact [of "b # m"] by simp
qed

lemma those_map_iff:
  "those (map f xs) = Some ys \<longleftrightarrow> list_all2 (\<lambda>x y. f x = Some y) xs ys"
proof (induction xs arbitrary: ys)
  case (Cons x xs)
  show ?case by (cases ys) (auto simp: Cons.IH split: option.splits)
qed auto

lemma decode_records_exact:
  assumes "modulus \<noteq> []"
  shows "decode_records (centered_half modulus) bs = Some vs
    \<longleftrightarrow> (\<forall>v \<in> set vs. \<bar>v\<bar> \<le> int (le_value modulus div 2))
      \<and> (\<exists>rs. those (map (encode_record (1 + length modulus)) vs) = Some rs \<and> bs = concat rs)"
proof
  let ?n = "record_bytes (centered_half modulus)"
  have n: "?n = 1 + length modulus" by (simp add: record_bytes_def)
  assume decoded: "decode_records (centered_half modulus) bs = Some vs"
  then have whole: "?n dvd length bs" and each: "list_all2 (\<lambda>r v. decode_record (centered_half modulus) r = Some v) (chunks_exact ?n bs) vs"
    by (auto simp: decode_records_def those_map_iff split: if_splits)
  from each have "list_all2 (\<lambda>v r. encode_record (1 + length modulus) v = Some r) vs (chunks_exact ?n bs)"
    "\<forall>v \<in> set vs. \<bar>v\<bar> \<le> int (le_value modulus div 2)"
    unfolding decode_record_exact [OF assms] by (auto simp: list_all2_conv_all_nth in_set_conv_nth)
  moreover have "bs = concat (chunks_exact ?n bs)" using concat_chunks_exact [OF _ whole] n by simp
  ultimately show "(\<forall>v \<in> set vs. \<bar>v\<bar> \<le> int (le_value modulus div 2))
      \<and> (\<exists>rs. those (map (encode_record (1 + length modulus)) vs) = Some rs \<and> bs = concat rs)"
    unfolding those_map_iff by blast
next
  let ?n = "record_bytes (centered_half modulus)"
  have n: "?n = 1 + length modulus" by (simp add: record_bytes_def)
  assume "(\<forall>v \<in> set vs. \<bar>v\<bar> \<le> int (le_value modulus div 2))
      \<and> (\<exists>rs. those (map (encode_record (1 + length modulus)) vs) = Some rs \<and> bs = concat rs)"
  then obtain rs where small: "\<forall>v \<in> set vs. \<bar>v\<bar> \<le> int (le_value modulus div 2)"
    and rs: "list_all2 (\<lambda>v r. encode_record (1 + length modulus) v = Some r) vs rs" "bs = concat rs"
    unfolding those_map_iff by blast
  have lengths: "\<forall>r \<in> set rs. length r = ?n"
  proof
    fix r assume "r \<in> set rs"
    then obtain i where "i < length rs" "r = rs ! i" by (auto simp: in_set_conv_nth)
    then show "length r = ?n" unfolding n
      using rs(1) by (intro encoded_length [of _ "vs ! i"]) (simp add: list_all2_conv_all_nth)
  qed
  then have chunks: "chunks_exact ?n bs = rs" unfolding rs(2) by (intro chunks_exact_concat) (simp_all add: n)
  have "length bs = ?n * length rs" unfolding rs(2) using lengths by (induction rs) simp_all
  moreover have "list_all2 (\<lambda>r v. decode_record (centered_half modulus) r = Some v) rs vs"
    using rs(1) small unfolding decode_record_exact [OF assms] by (auto simp: list_all2_conv_all_nth)
  ultimately show "decode_records (centered_half modulus) bs = Some vs"
    by (simp add: decode_records_def chunks those_map_iff)
qed

text \<open>
  C32. The records of centered coefficients are exact: bytes decode to coefficients exactly when every
  coefficient is at most half the modulus and the bytes are the encoder's records of the
  coefficients; so a sign byte above one, a negative zero, a magnitude above half the modulus and
  a partial record are refused, and no list of coefficients has two encodings.
\<close>

theorem centered_records_are_exact:
  assumes "modulus \<noteq> []"
  shows "(decode_records (centered_half modulus) bs = Some vs
      \<longleftrightarrow> (\<forall>v \<in> set vs. \<bar>v\<bar> \<le> int (le_value modulus div 2))
        \<and> (\<exists>rs. those (map (encode_record (1 + length modulus)) vs) = Some rs \<and> bs = concat rs))
    \<and> (\<forall>v. \<bar>v\<bar> \<le> int (le_value modulus div 2) \<longrightarrow> encode_record (1 + length modulus) v \<noteq> None)"
  using decode_records_exact [OF assms] encode_record_small [OF assms] by (metis option.distinct(1))

theorem centered_records_are_exact_witness:
  "decode_records (centered_half [1, 1]) [1, 128, 0, 0, 3, 0] = Some [- 128, 3]
   \<and> decode_records (centered_half [1, 1]) [1, 0, 0] \<noteq> Some [0]"
proof -
  have some: "encode_record 3 (- 128) = Some [1, 128, 0]" "encode_record 3 3 = Some [0, 3, 0]" "encode_record 3 0 = Some [0, 0, 0]"
    by (simp_all add: encode_record_def byte_of_def numeral_2_eq_2)
  have l: "1 + length [1, 1 :: byte] = 3" by simp
  show ?thesis
    using centered_records_are_exact [of "[1, 1]" "[1, 128, 0, 0, 3, 0]" "[- 128, 3]", unfolded l]
      centered_records_are_exact [of "[1, 1]" "[1, 0, 0]" "[0]", unfolded l] some by simp
qed

end
