(* ===== verification/Plaintext_Slots.thy ===== *)
theory Plaintext_Slots
  imports Residues
begin

text \<open>
  The two rotation orbits of the plaintext ring (\<open>supported-profile/src/plaintext.rs\<close>): the
  transform, the slots, the encoding of two orbits and the reading of the values at the odd powers
  of the root, with the proof that the second undoes the first.
\<close>

section \<open>Definitions\<close>

definition ENCODING_DEGREE :: nat where "ENCODING_DEGREE = 4096"

definition ACTIVE_SLOTS :: nat where "ACTIVE_SLOTS = ENCODING_DEGREE div 4"

definition encoding_degree :: "nat \<Rightarrow> nat option" where
  "encoding_degree ambient_degree =
     (if ambient_degree \<ge> 16 \<and> is_power_of_two ambient_degree
      then Some (min ambient_degree ENCODING_DEGREE) else None)"

text \<open>\<open>index.reverse_bits() >> (usize::BITS - logarithm)\<close>: the low bits of the index, reversed.\<close>

fun reversed :: "nat \<Rightarrow> nat \<Rightarrow> nat" where
  "reversed 0 index = 0"
| "reversed (Suc b) index = index mod 2 * 2 ^ b + reversed b (index div 2)"

definition swap :: "'a list \<Rightarrow> nat \<Rightarrow> nat \<Rightarrow> 'a list" where
  "swap xs i j = xs[i := xs ! j, j := xs ! i]"

definition bit_reverse :: "nat \<Rightarrow> 'a list \<Rightarrow> 'a list" where
  "bit_reverse logarithm vs =
     fold (\<lambda>index vs. if index < reversed logarithm index then swap vs index (reversed logarithm index) else vs)
       [0..<length vs] vs"

text \<open>The loop over a block: each pair of its halves, with the running power of the step.\<close>

fun butterflies :: "nat \<Rightarrow> nat \<Rightarrow> nat list \<Rightarrow> nat list \<Rightarrow> nat list \<times> nat list" where
  "butterflies step_root twiddle (first # left) (r # right) =
     (let second = multiply r twiddle;
          (ls, rs) = butterflies step_root (multiply twiddle step_root) left right in
      ((first + second) mod PLAINTEXT_MODULUS # ls,
       (first + PLAINTEXT_MODULUS - second) mod PLAINTEXT_MODULUS # rs))"
| "butterflies step_root twiddle left right = (left, right)"

definition transform_block :: "nat \<Rightarrow> nat \<Rightarrow> nat list \<Rightarrow> nat list" where
  "transform_block step_root width block =
     (let (ls, rs) = butterflies step_root 1 (take (width div 2) block) (drop (width div 2) block) in ls @ rs)"

definition transform_stage :: "nat \<Rightarrow> nat \<Rightarrow> nat \<Rightarrow> nat list \<Rightarrow> nat list" where
  "transform_stage root len width vs =
     concat (map (transform_block (power_mod root (len div width)) width) (chunks_exact width vs))
       @ drop (len div width * width) vs"

function transform_stages :: "nat \<Rightarrow> nat \<Rightarrow> nat \<Rightarrow> nat list \<Rightarrow> nat list" where
  "transform_stages root len width vs =
     (if 0 < width \<and> width \<le> len
      then transform_stages root len (width * 2) (transform_stage root len width vs) else vs)"
  by pat_completeness auto
termination
  by (relation "measure (\<lambda>(root, len, width, vs). len + 1 - width)") auto

declare transform_stages.simps [simp del]

definition transform :: "nat list \<Rightarrow> nat \<Rightarrow> nat list" where
  "transform vs root =
     transform_stages root (length vs) 2 (bit_reverse (bit_length (length vs) - 1) vs)"

fun slot_positions_from :: "nat \<Rightarrow> nat \<Rightarrow> nat \<Rightarrow> nat list" where
  "slot_positions_from degree 0 exponent = []"
| "slot_positions_from degree (Suc n) exponent =
     (exponent - 1) div 2 # slot_positions_from degree n (5 * exponent mod degree)"

definition slot_positions :: "nat \<Rightarrow> nat list" where
  "slot_positions degree = slot_positions_from degree (degree div 4) 1"

definition place_orbits :: "nat \<Rightarrow> nat list \<Rightarrow> nat list \<Rightarrow> nat list" where
  "place_orbits encoding primary complementary =
     fold (\<lambda>(position, first, second) vs. vs[position := first, encoding div 2 - 1 - position := second])
       (zip (slot_positions encoding) (zip primary complementary)) (replicate (encoding div 2) 0)"

fun twist_into :: "nat \<Rightarrow> nat \<Rightarrow> nat \<Rightarrow> nat \<Rightarrow> nat list \<Rightarrow> int list \<Rightarrow> int list" where
  "twist_into inverse_root stride position twist [] coefficients = coefficients"
| "twist_into inverse_root stride position twist (v # vs) coefficients =
     twist_into inverse_root stride (Suc position) (multiply twist inverse_root) vs
       (coefficients[2 * stride * position := centered (multiply v twist)])"

definition encode_orbits :: "nat list \<Rightarrow> nat list \<Rightarrow> nat \<Rightarrow> int list option" where
  "encode_orbits primary complementary degree = do {
     encoding \<leftarrow> encoding_degree degree;
     if length primary \<noteq> encoding div 4 \<or> length complementary \<noteq> length primary then None else do {
       root \<leftarrow> primitive_root encoding;
       let inverse_root = power_mod root (PLAINTEXT_MODULUS - 2);
       let vs = transform (place_orbits encoding primary complementary) (multiply inverse_root inverse_root);
       let twist = power_mod (encoding div 2) (PLAINTEXT_MODULUS - 2);
       Some (twist_into inverse_root (degree div encoding) 0 twist vs (replicate degree 0)) } }"

definition encode_slots :: "nat list \<Rightarrow> nat \<Rightarrow> int list option" where
  "encode_slots slots degree = encode_orbits slots (replicate (length slots) 0) degree"

text \<open>\<open>step_by\<close>: every so-manieth element from the first.\<close>

function step_by :: "nat \<Rightarrow> 'a list \<Rightarrow> 'a list" where
  "step_by n xs = (case xs of [] \<Rightarrow> [] | x # _ \<Rightarrow> if n = 0 then [] else x # step_by n (drop n xs))"
  by pat_completeness auto
termination
  by (relation "measure (\<lambda>(n, xs). length xs)") auto

declare step_by.simps [simp del]

fun twisted :: "nat \<Rightarrow> nat \<Rightarrow> nat list \<Rightarrow> nat list" where
  "twisted root twist [] = []"
| "twisted root twist (v # vs) = multiply v twist # twisted root (multiply twist root) vs"

definition odd_power_values :: "nat list \<Rightarrow> nat list option" where
  "odd_power_values coefficients = do {
     encoding \<leftarrow> encoding_degree (length coefficients);
     root \<leftarrow> primitive_root encoding;
     Some (transform (twisted root 1 (step_by (2 * length coefficients div encoding) coefficients))
             (multiply root root)) }"

section \<open>Bit reversal\<close>

declare reversed.simps(2) [simp del]

lemmas reversed_Suc = reversed.simps(2)

lemma reversed_less: "reversed b i < 2 ^ b"
proof (induction b arbitrary: i)
  case (Suc b)
  show ?case using Suc [of "i div 2"] by (cases "even i") (simp_all add: reversed_Suc mod_2_eq_odd)
qed simp

lemma reversed_low: "i < 2 ^ b \<Longrightarrow> reversed (Suc b) i = 2 * reversed b i"
proof (induction b arbitrary: i)
  case (Suc b)
  then have "i div 2 < 2 ^ b" by simp
  with Suc.IH show ?case by (simp add: reversed_Suc [of "Suc b"] reversed_Suc [of b i])
qed (simp add: reversed_Suc)

lemma reversed_high: "i < 2 ^ b \<Longrightarrow> reversed (Suc b) (2 ^ b + i) = Suc (2 * reversed b i)"
proof (induction b arbitrary: i)
  case (Suc b)
  have "(2 ^ Suc b + i) mod 2 = i mod 2" "(2 ^ Suc b + i) div 2 = 2 ^ b + i div 2" by simp_all
  moreover have "i div 2 < 2 ^ b" using Suc.prems by simp
  ultimately show ?case using Suc.IH by (simp only: reversed_Suc [of "Suc b"]) (simp add: reversed_Suc [of b i])
qed (simp add: reversed_Suc)

lemma reversed_reversed: "i < 2 ^ b \<Longrightarrow> reversed b (reversed b i) = i"
proof (induction b arbitrary: i)
  case (Suc b)
  let ?r = "reversed b (i div 2)"
  have half: "i div 2 < 2 ^ b" using Suc.prems by simp
  show ?case
  proof (cases "even i")
    case True
    then have "reversed (Suc b) i = ?r" by (simp add: reversed_Suc)
    then show ?thesis using reversed_low [OF reversed_less, of b "i div 2"] Suc.IH [OF half] True by simp
  next
    case False
    then have "reversed (Suc b) i = 2 ^ b + ?r" by (simp add: reversed_Suc mod_2_eq_odd)
    then show ?thesis using reversed_high [OF reversed_less, of b "i div 2"] Suc.IH [OF half] False by simp
  qed
qed simp

lemma length_swap [simp]: "length (swap xs i j) = length xs"
  by (simp add: swap_def)

lemma swap_nth:
  "i < length xs \<Longrightarrow> j < length xs \<Longrightarrow> k < length xs
    \<Longrightarrow> swap xs i j ! k = (if k = j then xs ! i else if k = i then xs ! j else xs ! k)"
  by (simp add: swap_def nth_list_update)

text \<open>After the indices below \<open>n\<close>, the pairs with a member below \<open>n\<close> are exchanged.\<close>

lemma bit_reverse_upto:
  assumes len: "length xs = 2 ^ b" and n: "n \<le> 2 ^ b"
  defines "swapped \<equiv> fold (\<lambda>i vs. if i < reversed b i then swap vs i (reversed b i) else vs) [0..<n] xs"
  shows "length swapped = 2 ^ b
    \<and> (\<forall>k < 2 ^ b. swapped ! k = (if k < n \<or> reversed b k < n then xs ! reversed b k else xs ! k))"
  using n unfolding swapped_def
proof (induction n)
  case (Suc n)
  let ?ys = "fold (\<lambda>i vs. if i < reversed b i then swap vs i (reversed b i) else vs) [0..<n] xs"
  have ys: "length ?ys = 2 ^ b"
    "\<And>k. k < 2 ^ b \<Longrightarrow> ?ys ! k = (if k < n \<or> reversed b k < n then xs ! reversed b k else xs ! k)"
    using Suc by simp_all
  have n: "n < 2 ^ b" "reversed b n < 2 ^ b" "reversed b (reversed b n) = n"
    using Suc.prems reversed_less reversed_reversed by simp_all
  have other: "k = reversed b n" if "reversed b k = n" "k < 2 ^ b" for k
    using reversed_reversed [OF that(2)] that(1) by simp
  have "length (if n < reversed b n then swap ?ys n (reversed b n) else ?ys) = 2 ^ b" using ys(1) by simp
  moreover have "(if n < reversed b n then swap ?ys n (reversed b n) else ?ys) ! k
      = (if k < Suc n \<or> reversed b k < Suc n then xs ! reversed b k else xs ! k)" if k: "k < 2 ^ b" for k
  proof -
    consider "k = n" | "k = reversed b n" "k \<noteq> n" | "k \<noteq> n" "reversed b k \<noteq> n" using other [OF _ k] by blast
    then show ?thesis
    proof cases
      case 1
      then show ?thesis using ys n by (auto simp: swap_nth less_Suc_eq)
    next
      case 2
      then show ?thesis using ys n by (auto simp: swap_nth less_Suc_eq)
    next
      case 3
      then have "k \<noteq> reversed b n" using n(3) by auto
      then have "(if n < reversed b n then swap ?ys n (reversed b n) else ?ys) ! k = ?ys ! k"
        using 3(1) k n(1,2) ys(1) by (simp add: swap_nth)
      then show ?thesis using ys(2) [OF k] 3 by (simp add: less_Suc_eq)
    qed
  qed
  ultimately show ?case by simp
qed (simp add: len)

lemma bit_reverse_eq:
  assumes "length xs = 2 ^ b"
  shows "bit_reverse b xs = map (\<lambda>k. xs ! reversed b k) [0..<2 ^ b]"
  using bit_reverse_upto [OF assms order_refl] assms
  by (intro nth_equalityI) (simp_all add: bit_reverse_def)

section \<open>The transform is the discrete Fourier transform\<close>

definition dft :: "'a :: comm_ring_1 \<Rightarrow> 'a list \<Rightarrow> 'a list" where
  "dft w xs = map (\<lambda>k. \<Sum>j<length xs. xs ! j * w ^ (j * k)) [0..<length xs]"

definition evens :: "'a list \<Rightarrow> 'a list" where
  "evens xs = map (\<lambda>j. xs ! (2 * j)) [0..<length xs div 2]"

definition odds :: "'a list \<Rightarrow> 'a list" where
  "odds xs = map (\<lambda>j. xs ! Suc (2 * j)) [0..<length xs div 2]"

definition merged :: "'a :: comm_ring_1 \<Rightarrow> 'a list \<Rightarrow> 'a list \<Rightarrow> 'a list" where
  "merged w xs ys =
     map (\<lambda>k. xs ! k + w ^ k * ys ! k) [0..<length xs] @ map (\<lambda>k. xs ! k - w ^ k * ys ! k) [0..<length xs]"

lemma sum_even_odd: "(\<Sum>j<2 * n. f j) = (\<Sum>j<n. f (2 * j)) + (\<Sum>j<n. f (Suc (2 * j)))"
  for f :: "nat \<Rightarrow> 'a :: comm_monoid_add"
  by (induction n) (simp_all add: ac_simps)

lemma dft_merged:
  assumes len: "length xs = 2 * n" and w: "w ^ n = - 1"
  shows "dft w xs = merged w (dft (w * w) (evens xs)) (dft (w * w) (odds xs))"
proof -
  let ?even = "\<lambda>k. \<Sum>j<n. xs ! (2 * j) * (w * w) ^ (j * k)"
  let ?odd = "\<lambda>k. \<Sum>j<n. xs ! Suc (2 * j) * (w * w) ^ (j * k)"
  have square: "w ^ (2 * j * k) = (w * w) ^ (j * k)" for j k
    by (simp add: power2_eq_square [symmetric] power_mult [symmetric] mult.assoc)
  have odd_square: "w ^ (Suc (2 * j) * k) = w ^ k * (w * w) ^ (j * k)" for j k
    by (simp only: mult_Suc power_add square)
  have low: "(\<Sum>j<2 * n. xs ! j * w ^ (j * k)) = ?even k + w ^ k * ?odd k" for k
    by (simp only: sum_even_odd square odd_square sum_distrib_left) (simp add: mult.left_commute)
  have turn: "(w * w) ^ (j * (n + k)) = (w * w) ^ (j * k)" for j k
  proof -
    have "(w * w) ^ (j * (n + k)) = (w * w) ^ (n * j) * (w * w) ^ (j * k)"
      by (simp add: power_add [symmetric] algebra_simps)
    also have "(w * w) ^ (n * j) = (w ^ n * w ^ n) ^ j" by (simp add: power_mult power_mult_distrib)
    finally show ?thesis using w by simp
  qed
  have high: "(\<Sum>j<2 * n. xs ! j * w ^ (j * (n + k))) = ?even k - w ^ k * ?odd k" for k
    unfolding low turn by (simp add: power_add w)
  show ?thesis
  proof (rule nth_equalityI)
    show "length (dft w xs) = length (merged w (dft (w * w) (evens xs)) (dft (w * w) (odds xs)))"
      by (simp add: dft_def merged_def evens_def len)
    fix i
    assume "i < length (dft w xs)"
    then have i: "i < 2 * n" by (simp add: dft_def len)
    show "dft w xs ! i = merged w (dft (w * w) (evens xs)) (dft (w * w) (odds xs)) ! i"
    proof (cases "i < n")
      case True
      then show ?thesis using low [of i] i by (simp add: dft_def merged_def evens_def odds_def len nth_append)
    next
      case False
      then obtain k where k: "i = n + k" "k < n" using i by (metis le_Suc_ex linorder_not_le mult_2 nat_add_left_cancel_less)
      then show ?thesis using high [of k] i by (simp add: dft_def merged_def evens_def odds_def len nth_append)
    qed
  qed
qed

lemma butterflies_res:
  assumes "length left = length right"
  shows "map res (fst (butterflies s t left right))
      = map (\<lambda>k. res (left ! k) + res t * res s ^ k * res (right ! k)) [0..<length left]
    \<and> map res (snd (butterflies s t left right))
      = map (\<lambda>k. res (left ! k) - res t * res s ^ k * res (right ! k)) [0..<length left]"
  using assms
proof (induction left right arbitrary: t rule: list_induct2)
  case (Cons x xs y ys)
  have bound: "multiply y t \<le> PLAINTEXT_MODULUS" by (rule less_imp_le) simp
  have upt: "[0..<length (x # xs)] = 0 # map Suc [0..<length xs]" by (simp add: upt_conv_Cons map_Suc_upt del: upt_Suc)
  show ?case
    unfolding upt using Cons.IH [of "multiply t s"] bound
    by (simp add: Let_def case_prod_unfold comp_def ac_simps)
qed simp

lemma butterflies_lengths:
  "length (fst (butterflies s t left right)) = length left \<and> length (snd (butterflies s t left right)) = length right"
  by (induction s t left right rule: butterflies.induct) (simp_all add: Let_def case_prod_unfold)

lemma length_transform_block [simp]: "length (transform_block s width block) = length block"
  by (simp add: transform_block_def case_prod_unfold Let_def butterflies_lengths)

lemma transform_block_res:
  assumes "length left = length right"
  shows "map res (transform_block s (2 * length left) (left @ right)) = merged (res s) (map res left) (map res right)"
  using butterflies_res [OF assms, of s 1] assms by (simp add: transform_block_def case_prod_unfold Let_def merged_def)

lemma butterflies_bounded:
  "length left = length right \<Longrightarrow>
    (\<forall>v \<in> set (fst (butterflies s t left right)) \<union> set (snd (butterflies s t left right)). v < PLAINTEXT_MODULUS)"
  by (induction left right arbitrary: t rule: list_induct2) (auto simp: Let_def case_prod_unfold)

lemma transform_block_bounded:
  "length block = 2 * n \<Longrightarrow> \<forall>v \<in> set (transform_block s (2 * n) block). v < PLAINTEXT_MODULUS"
  using butterflies_bounded [of "take n block" "drop n block" s 1]
  by (auto simp: transform_block_def case_prod_unfold Let_def)

lemma chunks_exact_append:
  assumes "0 < n" "n dvd length xs"
  shows "chunks_exact n (xs @ ys) = chunks_exact n xs @ chunks_exact n ys"
  using assms
proof (induction n xs rule: chunks_exact.induct)
  case (1 n xs)
  show ?case
  proof (cases "xs = []")
    case True
    then show ?thesis using 1 by (simp add: chunks_exact.simps [of n "[]"])
  next
    case False
    then have "n \<le> length xs" "\<not> (n = 0 \<or> length xs < n)" using 1 by (auto dest: dvd_imp_le)
    moreover have "n dvd length (drop n xs)" using 1 by (simp add: dvd_diff_nat)
    ultimately show ?thesis
      using 1 by (simp add: chunks_exact.simps [of n "xs @ ys"] chunks_exact.simps [of n xs])
  qed
qed

lemma chunks_exact_self: "xs \<noteq> [] \<Longrightarrow> chunks_exact (length xs) xs = [xs]"
  by (subst chunks_exact.simps) (simp add: chunks_exact.simps [of _ "[]"])

lemma transform_stage_eq:
  assumes "len = length vs" "width dvd len"
  shows "transform_stage root len width vs
    = concat (map (transform_block (power_mod root (len div width)) width) (chunks_exact width vs))"
  using assms by (simp add: transform_stage_def)

lemma length_transform_stage:
  assumes "len = length vs" "width dvd len" "0 < width"
  shows "length (transform_stage root len width vs) = len"
proof -
  have "length (concat (map (transform_block s width) xss)) = length (concat xss)" for s xss
    by (induction xss) simp_all
  moreover have "concat (chunks_exact width vs) = vs" using assms by (simp add: concat_chunks_exact)
  ultimately show ?thesis using assms by (simp add: transform_stage_eq)
qed

text \<open>A stage that is not the last works on the two halves alike.\<close>

lemma transform_stage_halves:
  assumes "length xs = n" "length ys = n" "width dvd n" "0 < width"
  shows "transform_stage root (2 * n) width (xs @ ys)
    = transform_stage (multiply root root) n width xs @ transform_stage (multiply root root) n width ys"
proof -
  have "2 * n div width = 2 * (n div width)" using assms(3) by (simp add: div_mult_swap)
  then have "res (power_mod root (2 * n div width)) = res (power_mod (multiply root root) (n div width))"
    by (simp add: power_mult power2_eq_square)
  then have "power_mod root (2 * n div width) = power_mod (multiply root root) (n div width)"
    by (simp only: res_inject power_bounded)
  then show ?thesis using assms by (simp add: transform_stage_eq chunks_exact_append)
qed

lemma last_stage:
  assumes "length vs = 2 ^ m"
  shows "transform_stage root (2 ^ m) (2 ^ m) vs = transform_block (power_mod root 1) (2 ^ m) vs"
proof -
  have "vs \<noteq> []" using assms by auto
  then show ?thesis using chunks_exact_self [of vs] assms by (simp add: transform_stage_eq)
qed

definition stages :: "nat \<Rightarrow> nat \<Rightarrow> nat list \<Rightarrow> nat \<Rightarrow> nat list" where
  "stages root n vs m = fold (\<lambda>s. transform_stage root n (2 ^ s)) [1..<Suc m] vs"

lemma stages_Suc: "stages root n vs (Suc m) = transform_stage root n (2 ^ Suc m) (stages root n vs m)"
  by (simp add: stages_def)

lemma length_stages: "length vs = 2 ^ k \<Longrightarrow> m \<le> k \<Longrightarrow> length (stages root (2 ^ k) vs m) = 2 ^ k"
proof (induction m)
  case (Suc m)
  then have "(2 :: nat) ^ Suc m dvd 2 ^ k" by (intro le_imp_power_dvd)
  then show ?case using Suc by (simp add: stages_Suc length_transform_stage del: power_Suc)
qed (simp add: stages_def)

lemma stages_halves:
  assumes "length xs = 2 ^ k" "length ys = 2 ^ k" "m \<le> k"
  shows "stages root (2 ^ Suc k) (xs @ ys) m
    = stages (multiply root root) (2 ^ k) xs m @ stages (multiply root root) (2 ^ k) ys m"
  using assms(3)
proof (induction m)
  case (Suc m)
  let ?xs = "stages (multiply root root) (2 ^ k) xs m" and ?ys = "stages (multiply root root) (2 ^ k) ys m"
  have "(2 :: nat) ^ Suc m dvd 2 ^ k" using Suc.prems by (intro le_imp_power_dvd)
  moreover have "length ?xs = 2 ^ k" "length ?ys = 2 ^ k" using assms(1,2) Suc.prems by (simp_all add: length_stages)
  ultimately have "transform_stage root (2 * 2 ^ k) (2 ^ Suc m) (?xs @ ?ys)
      = transform_stage (multiply root root) (2 ^ k) (2 ^ Suc m) ?xs @ transform_stage (multiply root root) (2 ^ k) (2 ^ Suc m) ?ys"
    by (intro transform_stage_halves) simp_all
  then show ?case using Suc by (simp only: stages_Suc) simp
qed (simp add: stages_def)

lemma bit_reverse_halves:
  assumes "length xs = 2 ^ Suc k"
  shows "bit_reverse (Suc k) xs = bit_reverse k (evens xs) @ bit_reverse k (odds xs)"
proof -
  have lens: "length (evens xs) = 2 ^ k" "length (odds xs) = 2 ^ k" using assms by (simp_all add: evens_def odds_def)
  have "[0..<2 ^ Suc k] = [0..<2 ^ k] @ map (\<lambda>i. 2 ^ k + i) [0..<2 ^ k :: nat]"
    using upt_add_eq_append [of 0 "2 ^ k" "2 ^ k"] map_add_upt [of "2 ^ k" "2 ^ k"] by (simp add: add.commute mult_2)
  then show ?thesis
    using assms lens reversed_less [of k]
    by (simp add: bit_reverse_eq reversed_low reversed_high evens_def odds_def comp_def del: upt_Suc cong: map_cong)
qed

lemma stages_dft:
  assumes "length xs = 2 ^ m" "0 < m \<Longrightarrow> res root ^ 2 ^ (m - 1) = - 1"
  shows "map res (stages root (2 ^ m) (bit_reverse m xs) m) = dft (res root) (map res xs)"
  using assms
proof (induction m arbitrary: root xs)
  case 0
  then obtain x where "xs = [x]" by (auto simp: length_Suc_conv)
  then show ?case by (simp add: stages_def bit_reverse_eq dft_def)
next
  case (Suc m)
  let ?r = "multiply root root"
  let ?E = "stages ?r (2 ^ m) (bit_reverse m (evens xs)) m" and ?O = "stages ?r (2 ^ m) (bit_reverse m (odds xs)) m"
  have w: "res root ^ 2 ^ m = - 1" using Suc.prems by simp
  have lens: "length (evens xs) = 2 ^ m" "length (odds xs) = 2 ^ m" using Suc.prems by (simp_all add: evens_def odds_def)
  have root: "res ?r ^ 2 ^ (m - 1) = - 1" if "0 < m"
  proof -
    have "res ?r ^ 2 ^ (m - 1) = res root ^ (2 * 2 ^ (m - 1))" by (simp add: power_mult power2_eq_square)
    also have "(2 :: nat) * 2 ^ (m - 1) = 2 ^ m" using that by (cases m) simp_all
    finally show ?thesis using w by simp
  qed
  have E: "map res ?E = dft (res ?r) (map res (evens xs))" and O: "map res ?O = dft (res ?r) (map res (odds xs))"
    using Suc.IH [OF lens(1) root] Suc.IH [OF lens(2) root] by simp_all
  have lengths: "length ?E = 2 ^ m" "length ?O = 2 ^ m"
    using lens by (simp_all add: length_stages bit_reverse_eq)
  have "stages root (2 ^ Suc m) (bit_reverse (Suc m) xs) m = ?E @ ?O"
    unfolding bit_reverse_halves [OF Suc.prems(1)] by (rule stages_halves) (simp_all add: bit_reverse_eq lens)
  then have "stages root (2 ^ Suc m) (bit_reverse (Suc m) xs) (Suc m)
      = transform_block (power_mod root 1) (2 * length ?E) (?E @ ?O)"
    using lengths last_stage [of "?E @ ?O" "Suc m" root] by (simp add: stages_Suc)
  moreover have "evens (map res xs) = map res (evens xs)" "odds (map res xs) = map res (odds xs)"
    using Suc.prems(1) by (auto simp: evens_def odds_def)
  ultimately show ?case
    using transform_block_res [of ?E ?O "power_mod root 1"] lengths E O
      dft_merged [of "map res xs" "2 ^ m" "res root"] Suc.prems(1) w
    by simp
qed

lemma transform_stages_eq:
  assumes "s \<le> Suc m"
  shows "transform_stages root (2 ^ m) (2 ^ s) vs = fold (\<lambda>s. transform_stage root (2 ^ m) (2 ^ s)) [s..<Suc m] vs"
  using assms
proof (induction "Suc m - s" arbitrary: s vs)
  case 0
  then have s: "s = Suc m" by simp
  then show ?case by (simp add: transform_stages.simps)
next
  case (Suc d)
  then have "s \<le> m" by simp
  moreover from this have "(2 :: nat) ^ s \<le> 2 ^ m" by simp
  ultimately show ?case
    using Suc.hyps(1) [of "Suc s"] Suc.hyps(2)
    by (simp add: transform_stages.simps [of _ _ "2 ^ s"] upt_conv_Cons mult.commute del: upt_Suc)
qed

lemma bit_length_power [simp]: "bit_length (2 ^ k) = Suc k"
  by (induction k) (simp_all add: bit_length.simps)

lemma transform_stages:
  assumes "length vs = 2 ^ m"
  shows "transform vs root = stages root (2 ^ m) (bit_reverse m vs) m"
  using transform_stages_eq [of 1 m root] assms by (simp add: transform_def stages_def)

lemma transform_dft:
  assumes "length vs = 2 ^ Suc m" "res root ^ 2 ^ m = - 1"
  shows "map res (transform vs root) = dft (res root) (map res vs)"
    "\<forall>v \<in> set (transform vs root). v < PLAINTEXT_MODULUS" "length (transform vs root) = 2 ^ Suc m"
proof -
  show "map res (transform vs root) = dft (res root) (map res vs)"
    using assms by (simp only: transform_stages) (simp add: stages_dft del: power_Suc)
  let ?vs = "stages root (2 ^ Suc m) (bit_reverse (Suc m) vs) m"
  have len: "length ?vs = 2 ^ Suc m" using assms by (simp add: length_stages bit_reverse_eq del: power_Suc)
  then have eq: "transform vs root = transform_block (power_mod root 1) (2 * 2 ^ m) ?vs"
    using assms last_stage [OF len, of root] by (simp add: transform_stages [of _ "Suc m"] stages_Suc)
  show "\<forall>v \<in> set (transform vs root). v < PLAINTEXT_MODULUS"
    unfolding eq using len by (intro transform_block_bounded) simp
  show "length (transform vs root) = 2 ^ Suc m" using len by (simp add: eq)
qed

section \<open>The slots\<close>

lemma slot_positions_from_nth:
  "e < degree \<Longrightarrow> s < n \<Longrightarrow> slot_positions_from degree n e ! s = (5 ^ s * e mod degree - 1) div 2"
proof (induction n arbitrary: e s)
  case (Suc n)
  show ?case
  proof (cases s)
    case (Suc t)
    have "slot_positions_from degree n (5 * e mod degree) ! t = (5 ^ t * (5 * e mod degree) mod degree - 1) div 2"
      using Suc.prems Suc by (intro Suc.IH) simp_all
    also have "5 ^ t * (5 * e mod degree) mod degree = 5 ^ s * e mod degree"
      by (simp add: Suc mod_mult_right_eq mult.left_commute mult.assoc)
    finally show ?thesis by (simp add: Suc)
  qed (use Suc.prems in simp)
qed simp

lemma length_slot_positions_from [simp]: "length (slot_positions_from degree n e) = n"
  by (induction n arbitrary: e) simp_all

lemma length_slot_positions [simp]: "length (slot_positions degree) = degree div 4"
  by (simp add: slot_positions_def)

lemma five_power_odd_part: "\<exists>t. odd t \<and> 5 ^ 2 ^ v = (1 :: nat) + 2 ^ (v + 2) * t"
proof (induction v)
  case 0
  show ?case by (intro exI [of _ 1]) simp
next
  case (Suc v)
  then obtain t :: nat where t: "odd t" "5 ^ 2 ^ v = 1 + 2 ^ (v + 2) * t" by blast
  have "(5 :: nat) ^ 2 ^ Suc v = (5 ^ 2 ^ v) ^ 2" by (simp only: power_Suc mult.commute [of 2] power_mult)
  also have "\<dots> = 1 + 2 ^ (Suc v + 2) * (t + 2 ^ Suc v * t ^ 2)"
    unfolding t(2) by (simp add: power2_eq_square algebra_simps power_add)
  finally show ?case using t(1) by (intro exI [of _ "t + 2 ^ Suc v * t ^ 2"]) simp
qed

text \<open>The powers of five below a quarter of the degree are distinct modulo the degree.\<close>

lemma five_power_period:
  assumes "5 ^ (a + d) mod 2 ^ (k + 2) = 5 ^ a mod (2 ^ (k + 2) :: nat)"
  shows "2 ^ k dvd d"
  using assms
proof (induction k)
  case (Suc k)
  let ?M = "2 ^ (k + 2) :: nat"
  have M: "2 ^ (Suc k + 2) = 2 * ?M" by simp
  have "5 ^ (a + d) mod (2 * ?M) mod ?M = 5 ^ a mod (2 * ?M) mod (?M :: nat)" using Suc.prems unfolding M by (rule arg_cong)
  then have "5 ^ (a + d) mod ?M = 5 ^ a mod (?M :: nat)" by (simp only: mod_mod_cancel dvd_triv_right)
  then obtain c where c: "d = 2 ^ k * c" using Suc.IH by blast
  obtain t :: nat where t: "odd t" "5 ^ 2 ^ k = 1 + ?M * t" using five_power_odd_part [of k] by blast
  then obtain h where h: "t = 2 * h + 1" using oddE by blast
  have step: "5 ^ 2 ^ k mod (2 * ?M) = (1 + ?M) mod (2 * ?M)"
  proof -
    have "5 ^ 2 ^ k = (1 + ?M) + 2 * ?M * h" using t(2) h by (simp add: algebra_simps)
    then show ?thesis by simp
  qed
  have square: "(1 + ?M) * (1 + ?M) mod (2 * ?M) = 1"
  proof -
    have "(1 + ?M) * (1 + ?M) = 1 + 2 * ?M * (1 + 2 ^ (k + 1))" by (simp add: algebra_simps power_add)
    also have "\<dots> mod (2 * ?M) = 1 mod (2 * ?M)" by (rule mod_mult_self2)
    finally show ?thesis by simp
  qed
  have "even c"
  proof (rule ccontr)
    assume "odd c"
    then obtain e where e: "c = 2 * e + 1" using oddE by blast
    have "5 ^ d mod (2 * ?M) = (5 ^ 2 ^ k) ^ c mod (2 * ?M)" by (simp add: c power_mult)
    also have "\<dots> = (1 + ?M) ^ c mod (2 * ?M)" by (metis power_mod step)
    also have "\<dots> = ((1 + ?M) * (1 + ?M)) ^ e * (1 + ?M) mod (2 * ?M)"
      by (simp only: e power_add power_mult power2_eq_square power_one_right)
    also have "\<dots> = ((1 + ?M) * (1 + ?M) mod (2 * ?M)) ^ e * (1 + ?M) mod (2 * ?M)"
      by (simp only: mod_mult_left_eq [of "((1 + ?M) * (1 + ?M)) ^ e", symmetric] power_mod [of "(1 + ?M) * (1 + ?M)", symmetric] mod_mod_trivial) (simp only: mod_mult_left_eq)
    also have "\<dots> = (1 + ?M) mod (2 * ?M)" unfolding square by simp
    finally have eq: "5 ^ d mod (2 * ?M) = (1 + ?M) mod (2 * ?M)" .
    then have "5 ^ a * (1 + ?M) mod (2 * ?M) = 5 ^ a mod (2 * ?M)"
      using mod_mult_cong [OF refl eq, of "5 ^ a"] Suc.prems unfolding M power_add [of 5 a d] by (simp only:)
    then have "2 * ?M dvd 5 ^ a * (1 + ?M) - 5 ^ a" by (simp add: mod_eq_dvd_iff_nat)
    then have "2 * ?M dvd 5 ^ a * ?M" by (simp add: algebra_simps)
    then have "2 dvd (5 :: nat) ^ a" by simp
    then show False by simp
  qed
  then show ?case by (auto simp: c)
qed simp

lemma slot_positions_facts:
  fixes k :: nat
  defines "ps \<equiv> slot_positions (2 ^ (k + 2))"
  shows "length ps = 2 ^ k" "distinct ps" "\<forall>p \<in> set ps. even p \<and> p < 2 ^ (k + 1)"
    "s < 2 ^ k \<Longrightarrow> 2 * ps ! s + 1 = 5 ^ s mod 2 ^ (k + 2)"
proof -
  let ?D = "2 ^ (k + 2) :: nat"
  show len: "length ps = 2 ^ k" by (simp add: ps_def)
  have one: "(1 :: nat) < ?D" by (rule one_less_power) simp_all
  have nth: "ps ! s = (5 ^ s mod ?D - 1) div 2" if "s < 2 ^ k" for s
    using slot_positions_from_nth [OF one, of s "2 ^ k"] that by (simp add: ps_def slot_positions_def)
  have four: "5 ^ s mod ?D mod 4 = 1" for s
  proof -
    have "5 ^ s mod ?D mod 4 = 5 ^ s mod (4 :: nat)" by (simp add: mod_mod_cancel)
    also have "\<dots> = (5 mod 4) ^ s mod 4" by (rule power_mod [symmetric])
    finally show ?thesis by simp
  qed
  have quarter: "\<exists>q. 5 ^ s mod ?D = 4 * q + 1 \<and> 4 * q + 1 < ?D" for s
  proof (intro exI conjI)
    show eq: "5 ^ s mod ?D = 4 * (5 ^ s mod ?D div 4) + 1" using four [of s] by (metis mult_div_mod_eq)
    have "5 ^ s mod ?D < ?D" by (rule mod_less_divisor) simp
    then show "4 * (5 ^ s mod ?D div 4) + 1 < ?D" using eq by simp
  qed
  show twice: "2 * ps ! s + 1 = 5 ^ s mod 2 ^ (k + 2)" if "s < 2 ^ k" for s
    using nth [OF that] quarter [of s] by auto
  show "\<forall>p \<in> set ps. even p \<and> p < 2 ^ (k + 1)"
  proof
    fix p assume "p \<in> set ps"
    then obtain s where s: "s < 2 ^ k" "p = ps ! s" using len by (auto simp: in_set_conv_nth)
    obtain q where "5 ^ s mod ?D = 4 * q + 1" "4 * q + 1 < ?D" using quarter by blast
    with nth [OF s(1)] s(2) show "even p \<and> p < 2 ^ (k + 1)" by simp
  qed
  have ordered: "s = t" if "s \<le> t" "t < 2 ^ k" "ps ! s = ps ! t" for s t
  proof -
    have "5 ^ (s + (t - s)) mod ?D = 5 ^ s mod ?D"
      using twice [of s] twice [of t] that by simp
    then have "2 ^ k dvd t - s" by (rule five_power_period)
    then show ?thesis using that by (auto dest: dvd_imp_le)
  qed
  have "s = t" if "s < 2 ^ k" "t < 2 ^ k" "ps ! s = ps ! t" for s t
    using that ordered [of s t] ordered [of t s] by (cases "s \<le> t") simp_all
  then show "distinct ps" by (auto simp: distinct_conv_nth len)
qed

section \<open>Placing the orbits\<close>

definition put :: "nat \<Rightarrow> nat \<times> nat \<times> nat \<Rightarrow> nat list \<Rightarrow> nat list" where
  "put n t vs = vs[fst t := fst (snd t), n - 1 - fst t := snd (snd t)]"

lemma place_orbits_put:
  "place_orbits encoding primary complementary
    = fold (put (encoding div 2)) (zip (slot_positions encoding) (zip primary complementary)) (replicate (encoding div 2) 0)"
proof -
  have "(\<lambda>(position, first, second) vs. vs[position := first, n - 1 - position := second]) = put n" for n
    by (simp add: put_def fun_eq_iff case_prod_unfold)
  then show ?thesis by (simp only: place_orbits_def)
qed

lemma length_puts [simp]: "length (fold (put n) ts vs) = length vs"
  by (induction ts arbitrary: vs) (simp_all add: put_def)

lemma puts_other:
  "\<forall>t \<in> set ts. i \<noteq> fst t \<and> i \<noteq> n - 1 - fst t \<Longrightarrow> fold (put n) ts vs ! i = vs ! i"
  by (induction ts arbitrary: vs) (simp_all add: put_def)

lemma put_at:
  "fst u < n \<Longrightarrow> length vs = n \<Longrightarrow> n - 1 - fst u \<noteq> fst u \<Longrightarrow>
     put n u vs ! fst u = fst (snd u) \<and> put n u vs ! (n - 1 - fst u) = snd (snd u)"
  by (simp add: put_def)

lemma set_put: "set (put n t vs) \<subseteq> insert (fst (snd t)) (insert (snd (snd t)) (set vs))"
  using set_update_subset_insert [of "vs[fst t := fst (snd t)]" "n - 1 - fst t" "snd (snd t)"]
    set_update_subset_insert [of vs "fst t" "fst (snd t)"] unfolding put_def by blast

lemma puts_at:
  assumes "distinct (map fst ts)" "\<forall>t \<in> set ts. even (fst t) \<and> fst t < n" "even n" "length vs = n" "t \<in> set ts"
  shows "fold (put n) ts vs ! fst t = fst (snd t) \<and> fold (put n) ts vs ! (n - 1 - fst t) = snd (snd t)"
  using assms
proof (induction ts arbitrary: vs)
  case (Cons u ts)
  have mirror: "n - 1 - fst a \<noteq> fst b" if "a \<in> set (u # ts)" "b \<in> set (u # ts)" for a b
  proof
    assume "n - 1 - fst a = fst b"
    moreover have "even (fst a)" "even (fst b)" "fst a < n" using Cons.prems(2) that by blast+
    ultimately have "n = Suc (fst a + fst b)" by simp
    with \<open>even (fst a)\<close> \<open>even (fst b)\<close> Cons.prems(3) show False by simp
  qed
  have len: "length (put n u vs) = n" using Cons.prems(4) by (simp add: put_def)
  show ?case
  proof (cases "t = u")
    case True
    have u: "fst u < n" "fst u \<notin> fst ` set ts" using Cons.prems(1,2) by auto
    have "fst u \<noteq> fst w \<and> fst u \<noteq> n - 1 - fst w" if "w \<in> set ts" for w
      using u(2) mirror [of w u] that by force
    then have "fold (put n) ts (put n u vs) ! fst u = put n u vs ! fst u" by (intro puts_other) blast
    moreover have "n - 1 - fst u \<noteq> fst w \<and> n - 1 - fst u \<noteq> n - 1 - fst w" if "w \<in> set ts" for w
    proof -
      have "fst w < n" "fst w \<noteq> fst u" using Cons.prems(2) u(2) that by force+
      then show ?thesis using mirror [of u w] u(1) that by simp
    qed
    then have "fold (put n) ts (put n u vs) ! (n - 1 - fst u) = put n u vs ! (n - 1 - fst u)"
      by (intro puts_other) blast
    ultimately show ?thesis
      using True put_at [OF u(1) Cons.prems(4) mirror [of u u]] by (simp only: fold.simps comp_apply list.set_intros simp_thms)
  next
    case False
    then show ?thesis using Cons.IH [OF _ _ Cons.prems(3) len] Cons.prems(1,2,5) by simp
  qed
qed simp

lemma puts_bounded:
  "\<forall>v \<in> set vs. v < b \<Longrightarrow> \<forall>t \<in> set ts. fst (snd t) < b \<and> snd (snd t) < b \<Longrightarrow> \<forall>v \<in> set (fold (put n) ts vs). v < b"
proof (induction ts arbitrary: vs)
  case (Cons t ts)
  have "\<forall>v \<in> set (put n t vs). v < b" using Cons.prems set_put [of n t vs] by auto
  moreover have "\<forall>t \<in> set ts. fst (snd t) < b \<and> snd (snd t) < b" using Cons.prems(2) by simp
  ultimately show ?case unfolding fold_simps by (rule Cons.IH)
qed simp

text \<open>What an encoding of two orbits holds at the odd powers of the root.\<close>

lemma place_orbits:
  fixes k :: nat
  defines "D \<equiv> 2 ^ (k + 2)"
  assumes "length primary = 2 ^ k" "length complementary = 2 ^ k"
    and "\<forall>v \<in> set primary \<union> set complementary. v < PLAINTEXT_MODULUS"
  defines "vs \<equiv> place_orbits D primary complementary"
  shows "length vs = 2 ^ Suc k" "\<forall>v \<in> set vs. v < PLAINTEXT_MODULUS"
    "s < 2 ^ k \<Longrightarrow> vs ! (slot_positions D ! s) = primary ! s"
    "s < 2 ^ k \<Longrightarrow> vs ! (2 ^ Suc k - 1 - slot_positions D ! s) = complementary ! s"
proof -
  let ?ts = "zip (slot_positions D) (zip primary complementary)"
  note facts = slot_positions_facts [of k, folded D_def]
  have half: "D div 2 = 2 ^ Suc k" by (simp add: D_def)
  show "length vs = 2 ^ Suc k" by (simp add: vs_def place_orbits_put half)
  show "\<forall>v \<in> set vs. v < PLAINTEXT_MODULUS"
    unfolding vs_def place_orbits_put
  proof (rule puts_bounded; intro ballI)
    fix t
    assume "t \<in> set ?ts"
    then have "snd t \<in> set (zip primary complementary)" using set_zip_rightD [of "fst t" "snd t"] by simp
    then have "fst (snd t) \<in> set primary" "snd (snd t) \<in> set complementary"
      using set_zip_leftD [of "fst (snd t)" "snd (snd t)"] set_zip_rightD [of "fst (snd t)" "snd (snd t)"] by simp_all
    then show "fst (snd t) < PLAINTEXT_MODULUS \<and> snd (snd t) < PLAINTEXT_MODULUS" using assms(4) by blast
  qed simp
  have at: "(slot_positions D ! s, primary ! s, complementary ! s) \<in> set ?ts" if "s < 2 ^ k"
    using that assms(2,3) facts(1) by (auto simp: in_set_zip intro!: exI [of _ s])
  have "map fst ?ts = slot_positions D" using assms(2,3) facts(1) by simp
  moreover from this have "\<forall>t \<in> set ?ts. even (fst t) \<and> fst t < 2 ^ Suc k" using facts(3) by (metis Suc_eq_plus1 imageI list.set_map)
  ultimately show "s < 2 ^ k \<Longrightarrow> vs ! (slot_positions D ! s) = primary ! s"
    "s < 2 ^ k \<Longrightarrow> vs ! (2 ^ Suc k - 1 - slot_positions D ! s) = complementary ! s"
    using puts_at [of ?ts "2 ^ Suc k" "replicate (2 ^ Suc k) 0" "(slot_positions D ! s, primary ! s, complementary ! s)"]
      at facts(2) unfolding vs_def place_orbits_put half by simp_all
qed

section \<open>Encoding and reading back\<close>

lemma twisted_nth: "j < length vs \<Longrightarrow> res (twisted root t vs ! j) = res (vs ! j) * res t * res root ^ j"
proof (induction vs arbitrary: j t)
  case (Cons v vs)
  then show ?case by (cases j) (simp_all add: ac_simps)
qed simp

lemma length_twisted [simp]: "length (twisted root t vs) = length vs"
  by (induction vs arbitrary: t) simp_all

lemma length_twist_into [simp]: "length (twist_into u stride i t vs cs) = length cs"
  by (induction vs arbitrary: i t cs) simp_all

lemma twist_into_before:
  "m < 2 * stride * i \<Longrightarrow> 0 < stride \<Longrightarrow> twist_into u stride i t vs cs ! m = cs ! m"
proof (induction vs arbitrary: i t cs)
  case (Cons v vs)
  then have "m < 2 * stride * Suc i" by simp
  with Cons show ?case by simp
qed simp

lemma twist_into_nth:
  assumes "0 < stride" "2 * stride * (i + length vs) \<le> length cs" "j < length vs"
  shows "(of_int (twist_into u stride i t vs cs ! (2 * stride * (i + j))) :: residue)
    = res (vs ! j) * res t * res u ^ j"
  using assms
proof (induction vs arbitrary: i t cs j)
  case (Cons v vs)
  show ?case
  proof (cases j)
    case 0
    have "twist_into u stride (Suc i) (multiply t u) vs (cs[2 * stride * i := centered (multiply v t)]) ! (2 * stride * i)
        = cs[2 * stride * i := centered (multiply v t)] ! (2 * stride * i)"
      using Cons.prems(1) by (intro twist_into_before) simp_all
    moreover have "2 * stride * i < 2 * stride * (i + length (v # vs))"
      using Cons.prems(1) by (intro mult_strict_left_mono) simp_all
    then have "2 * stride * i < length cs" using Cons.prems(2) by (rule less_le_trans)
    ultimately show ?thesis by (simp add: 0 res_centered)
  next
    case (Suc k)
    have "(of_int (twist_into u stride (Suc i) (multiply t u) vs (cs[2 * stride * i := centered (multiply v t)])
        ! (2 * stride * (Suc i + k))) :: residue) = res (vs ! k) * res (multiply t u) * res u ^ k"
      using Cons.prems Suc by (intro Cons.IH) simp_all
    then show ?thesis by (simp add: Suc ac_simps)
  qed
qed simp

lemma step_by_Nil [simp]: "step_by n [] = []"
  by (simp add: step_by.simps)

lemma step_by_Cons: "step_by n (x # xs) = (if n = 0 then [] else x # step_by n (drop n (x # xs)))"
  by (subst step_by.simps) simp

lemma step_by_map: "step_by n (map f xs) = map f (step_by n xs)"
proof (induction n xs rule: step_by.induct)
  case (1 n xs)
  show ?case
  proof (cases xs)
    case (Cons y ys)
    then show ?thesis
      using 1 [OF Cons] by (cases "n = 0") (simp_all add: step_by_Cons [of _ y] step_by_Cons [of _ "f y"] drop_map [symmetric] del: drop_Cons')
  qed simp
qed

lemma step_by_nth:
  assumes "0 < n" "length xs = n * m"
  shows "length (step_by n xs) = m \<and> (\<forall>j < m. step_by n xs ! j = xs ! (n * j))"
  using assms(2)
proof (induction m arbitrary: xs)
  case (Suc m)
  then have "xs \<noteq> []" using assms(1) by auto
  then have eq: "step_by n xs = hd xs # step_by n (drop n xs)"
    using assms(1) step_by_Cons [of n "hd xs" "tl xs"] by simp
  have len: "length (drop n xs) = n * m" "n \<le> length xs" using Suc.prems by simp_all
  have "step_by n xs ! j = xs ! (n * j)" if "j < Suc m" for j
    using Suc.IH [OF len(1)] that len(2) \<open>xs \<noteq> []\<close> by (cases j) (simp_all add: eq hd_conv_nth)
  then show ?case using Suc.IH [OF len(1)] by (simp add: eq)
qed simp

lemma sum_halves: "(\<Sum>j<n + m. f j) = (\<Sum>j<n. f j) + (\<Sum>j<m. f (n + j))" for f :: "nat \<Rightarrow> 'a :: comm_monoid_add"
  by (induction m) (simp_all add: ac_simps)

text \<open>The powers of a root of unity other than the first sum to zero.\<close>

lemma root_powers_sum:
  assumes "y ^ 2 ^ m = - 1" "0 < d" "d < 2 ^ Suc m"
  shows "(\<Sum>j<2 ^ Suc m. (y ^ d) ^ j) = (0 :: 'a :: comm_ring_1)"
  using assms
proof (induction m arbitrary: y d)
  case 0
  then have "d = 1" "y = - 1" by simp_all
  then show ?case by (simp add: numeral_2_eq_2)
next
  case (Suc m)
  let ?x = "y ^ d" and ?n = "2 ^ Suc m :: nat"
  have split: "(\<Sum>j<2 * ?n. ?x ^ j) = (\<Sum>j<?n. ?x ^ j) + (\<Sum>j<?n. ?x ^ (?n + j))"
    by (simp only: mult_2 sum_halves)
  have high: "?x ^ (?n + j) = (- 1) ^ d * ?x ^ j" for j
    using Suc.prems(1) by (simp only: power_add power_mult [symmetric] mult.commute [of d]) (simp only: power_mult)
  show ?case
  proof (cases "odd d")
    case True
    then show ?thesis unfolding power_Suc [of 2 "Suc m"] split high by (simp add: sum_negf)
  next
    case False
    then obtain e where e: "d = 2 * e" by blast
    have "(y * y) ^ 2 ^ m = - 1" using Suc.prems(1) by (simp add: power_mult power2_eq_square)
    then have "(\<Sum>j<?n. ((y * y) ^ e) ^ j) = 0" using Suc.prems e by (intro Suc.IH) simp_all
    moreover have "(y * y) ^ e = ?x" by (simp add: e power_mult power2_eq_square)
    ultimately have "(\<Sum>j<?n. ?x ^ j) = 0" by simp
    then show ?thesis unfolding power_Suc [of 2 "Suc m"] split high using False by (simp del: power_Suc)
  qed
qed

lemma root_powers_orthogonal:
  fixes w u :: "'a :: comm_ring_1"
  assumes unit: "u * w = 1" and root: "w ^ 2 ^ Suc m = - 1" and i: "i < 2 ^ Suc m" "k < 2 ^ Suc m"
  shows "(\<Sum>j<2 ^ Suc m. (u ^ (2 * i + 1) * w ^ (2 * k + 1)) ^ j) = (if i = k then 2 ^ Suc m else 0)"
proof -
  have cancel: "u ^ n * w ^ n = 1" for n using unit by (metis power_mult_distrib power_one)
  have "u ^ 2 ^ Suc m = - 1" using cancel [of "2 ^ Suc m"] unfolding root by (metis minus_minus mult_minus1_right)
  then have roots: "(w * w) ^ 2 ^ m = - 1" "(u * u) ^ 2 ^ m = - 1"
    using root by (simp_all add: power_mult power2_eq_square)
  consider "i = k" | d where "k = i + d" "0 < d" "d < 2 ^ Suc m" | d where "i = k + d" "0 < d" "d < 2 ^ Suc m"
    using i by (metis add_diff_inverse_nat less_imp_diff_less linorder_neqE_nat not_less_iff_gr_or_eq zero_less_diff)
  then show ?thesis
  proof cases
    case 1
    then show ?thesis by (simp add: cancel del: power_Suc)
  next
    case 2
    have "u ^ (2 * i + 1) * w ^ (2 * k + 1) = u ^ (2 * i + 1) * w ^ (2 * i + 1) * w ^ (2 * d)"
      by (simp add: 2 power_add algebra_simps)
    also have "\<dots> = (w * w) ^ d" unfolding cancel by (simp add: power_mult power2_eq_square)
    finally show ?thesis using root_powers_sum [OF roots(1) 2(2,3)] 2 by (simp del: power_Suc)
  next
    case 3
    have "u ^ (2 * i + 1) * w ^ (2 * k + 1) = u ^ (2 * k + 1) * w ^ (2 * k + 1) * u ^ (2 * d)"
      by (simp add: 3 power_add algebra_simps)
    also have "\<dots> = (u * u) ^ d" unfolding cancel by (simp add: power_mult power2_eq_square)
    finally show ?thesis using root_powers_sum [OF roots(2) 3(2,3)] 3 by (simp del: power_Suc)
  qed
qed

text \<open>An encoding, read back: from the values at the odd powers to the coefficients and back.\<close>

definition canonical :: "int \<Rightarrow> nat" where
  "canonical c = nat (c mod int PLAINTEXT_MODULUS)"

lemma res_canonical [simp]: "res (canonical c) = of_int c"
  unfolding canonical_def by (rule res_int [symmetric])

lemma encode_value:
  assumes "degree = stride * 2 ^ (m + 2)" "0 < stride" "length primary = 2 ^ m" "length complementary = 2 ^ m"
    and "encoding_degree degree = Some (2 ^ (m + 2))" "primitive_root (2 ^ (m + 2)) = Some root"
  defines "u \<equiv> power_mod root (PLAINTEXT_MODULUS - 2)"
  shows "encode_orbits primary complementary degree =
    Some (twist_into u stride 0 (power_mod (2 ^ Suc m) (PLAINTEXT_MODULUS - 2))
      (transform (place_orbits (2 ^ (m + 2)) primary complementary) (multiply u u)) (replicate degree 0))"
proof -
  have "(2 :: nat) ^ (m + 2) div 4 = 2 ^ m" "(2 :: nat) ^ (m + 2) div 2 = 2 ^ Suc m" by simp_all
  then show ?thesis using assms by (simp add: encode_orbits_def Let_def del: power_Suc power_add)
qed

text \<open>The coefficients of an encoding, at the multiples of twice the stride.\<close>

lemma encoded_coefficients:
  assumes "stride * 2 ^ (m + 2) = degree" "0 < stride" "length vs = 2 ^ Suc m" "res (multiply u u) ^ 2 ^ m = - 1"
    and "j < 2 ^ Suc m"
  shows "(of_int (twist_into u stride 0 t (transform vs (multiply u u)) (replicate degree 0) ! (2 * stride * j)) :: residue)
    = res t * (\<Sum>i<2 ^ Suc m. res (vs ! i) * res u ^ ((2 * i + 1) * j))"
proof -
  note T = transform_dft [OF assms(3,4)]
  have "res (transform vs (multiply u u) ! j) = dft (res (multiply u u)) (map res vs) ! j"
    using T(3) assms(5) unfolding T(1) [symmetric] by (simp del: power_Suc)
  also have "\<dots> = (\<Sum>i<2 ^ Suc m. res (vs ! i) * res (multiply u u) ^ (i * j))"
    using assms(3,5) by (simp add: dft_def del: power_Suc res_multiply)
  finally have j: "res (transform vs (multiply u u) ! j) = (\<Sum>i<2 ^ Suc m. res (vs ! i) * res (multiply u u) ^ (i * j))" .
  have odd: "res (multiply u u) ^ (i * j) * res u ^ j = res u ^ ((2 * i + 1) * j)" for i
  proof -
    have "(2 * i + 1) * j = 2 * (i * j) + j" by simp
    then show ?thesis by (simp add: power_add power_mult power2_eq_square)
  qed
  have "(of_int (twist_into u stride 0 t (transform vs (multiply u u)) (replicate degree 0) ! (2 * stride * (0 + j))) :: residue)
      = res (transform vs (multiply u u) ! j) * res t * res u ^ j"
    using T(3) assms(1,2,5) by (intro twist_into_nth) (simp_all add: mult.commute)
  also have "\<dots> = res t * (\<Sum>i<2 ^ Suc m. res (vs ! i) * (res (multiply u u) ^ (i * j) * res u ^ j))"
    unfolding j by (simp add: sum_distrib_left sum_distrib_right ac_simps del: power_Suc res_multiply)
  finally show ?thesis unfolding odd by simp
qed

text \<open>The values an accepted list of coefficients has: the polynomial at the odd powers of the root.\<close>

lemma odd_power_values_value:
  assumes "stride * 2 ^ (m + 2) = length cs" "0 < stride" "m \<le> 10"
    and "encoding_degree (length cs) = Some (2 ^ (m + 2))"
  obtains root ys where "primitive_root (2 ^ (m + 2)) = Some root" "res root ^ 2 ^ Suc m = - 1"
    "odd_power_values cs = Some ys" "length ys = 2 ^ Suc m" "\<forall>v \<in> set ys. v < PLAINTEXT_MODULUS"
    "\<And>k. k < 2 ^ Suc m \<Longrightarrow>
      res (ys ! k) = (\<Sum>j<2 ^ Suc m. res (cs ! (2 * stride * j)) * res root ^ (j * (2 * k + 1)))"
proof -
  have D: "2 ^ Suc (Suc m) = (2 ^ (m + 2) :: nat)" by simp
  obtain root where root: "primitive_root (2 ^ (m + 2)) = Some root" "res root ^ 2 ^ Suc m = - 1"
    using root_minus_one [of "Suc m"] assms(3) unfolding D by auto
  have "2 * length cs = 2 * stride * 2 ^ (m + 2)" using assms(1) by simp
  then have step: "2 * length cs div 2 ^ (m + 2) = 2 * stride" by (metis nonzero_mult_div_cancel_right power_not_zero zero_neq_numeral)
  let ?xs = "step_by (2 * stride) cs"
  have "length cs = 2 * stride * 2 ^ Suc m" using assms(1) by simp
  then have xs: "length ?xs = 2 ^ Suc m" "\<forall>j < 2 ^ Suc m. ?xs ! j = cs ! (2 * stride * j)"
    using step_by_nth [of "2 * stride" cs "2 ^ Suc m"] assms(2) by simp_all
  let ?ts = "twisted root 1 ?xs"
  let ?ys = "transform ?ts (multiply root root)"
  have values_eq: "odd_power_values cs = Some ?ys"
    using assms(4) root(1) step by (simp add: odd_power_values_def)
  have w: "res (multiply root root) ^ 2 ^ m = - 1" using root(2) by (simp add: power_mult power2_eq_square)
  have ts: "length ?ts = 2 ^ Suc m" using xs(1) by simp
  note T = transform_dft [OF ts w]
  have each: "res (?ys ! k) = (\<Sum>j<2 ^ Suc m. res (cs ! (2 * stride * j)) * res root ^ (j * (2 * k + 1)))"
    if k: "k < 2 ^ Suc m" for k
  proof -
    have "res (?ys ! k) = dft (res (multiply root root)) (map res ?ts) ! k"
      using T(3) k unfolding T(1) [symmetric] by (simp del: power_Suc)
    also have "\<dots> = (\<Sum>j<2 ^ Suc m. res (?ts ! j) * res (multiply root root) ^ (j * k))"
      using ts k by (simp add: dft_def del: power_Suc res_multiply)
    also have "\<dots> = (\<Sum>j<2 ^ Suc m. res (cs ! (2 * stride * j)) * res root ^ (j * (2 * k + 1)))"
    proof (rule sum.cong [OF refl])
      fix j :: nat
      assume "j \<in> {..<2 ^ Suc m}"
      then have "res (?ts ! j) = res (cs ! (2 * stride * j)) * res root ^ j"
        using twisted_nth [of j ?xs root 1] xs by simp
      moreover have "res root ^ j * res (multiply root root) ^ (j * k) = res root ^ (j * (2 * k + 1))"
      proof -
        have "j * (2 * k + 1) = j + (j * k + j * k)" by simp
        then show ?thesis by (simp only: res_multiply power_mult_distrib power_add)
      qed
      ultimately show "res (?ts ! j) * res (multiply root root) ^ (j * k)
          = res (cs ! (2 * stride * j)) * res root ^ (j * (2 * k + 1))"
        by (simp only: mult.assoc)
    qed
    finally show ?thesis .
  qed
  show ?thesis by (rule that [OF root values_eq T(3,2) each])
qed

lemma orbits_read_back:
  assumes "stride * 2 ^ (m + 2) = degree" "0 < stride" "m \<le> 10" "encoding_degree degree = Some (2 ^ (m + 2))"
    and "length primary = 2 ^ m" "length complementary = 2 ^ m"
    and "\<forall>v \<in> set primary \<union> set complementary. v < PLAINTEXT_MODULUS"
  shows "\<exists>cs. encode_orbits primary complementary degree = Some cs \<and> length cs = degree
    \<and> odd_power_values (map canonical cs) = Some (place_orbits (2 ^ (m + 2)) primary complementary)"
proof -
  let ?n = "2 ^ Suc m :: nat"
  define vs where "vs = place_orbits (2 ^ (m + 2)) primary complementary"
  note V = place_orbits [OF assms(5-7), folded vs_def]
  have D: "2 ^ Suc (Suc m) = (2 ^ (m + 2) :: nat)" by simp
  obtain root where root: "primitive_root (2 ^ (m + 2)) = Some root" "res root ^ ?n = - 1"
    using root_minus_one [of "Suc m"] assms(3) unfolding D by auto
  define u where "u = power_mod root (PLAINTEXT_MODULUS - 2)"
  define t where "t = power_mod ?n (PLAINTEXT_MODULUS - 2)"
  have "res root \<noteq> 0" using root(2) by (auto simp: power_0_left)
  then have unit: "res u * res root = 1" using res_inverse [of root] by (simp add: u_def mult.commute)
  have small: "?n < PLAINTEXT_MODULUS"
  proof -
    have "?n \<le> 2 ^ 11" using assms(3) by (intro power_increasing) simp_all
    then show ?thesis by (simp add: PLAINTEXT_MODULUS_def)
  qed
  then have "res ?n \<noteq> 0" using res_inject [of ?n 0] by simp
  then have scale: "res t * res ?n = 1" using res_inverse [of ?n] by (simp add: t_def mult.commute)
  have "res u ^ ?n * - 1 = 1" unfolding root(2) [symmetric] by (simp only: power_mult_distrib [symmetric] unit power_one)
  then have "res u ^ ?n = - 1" by (metis minus_minus mult_minus1_right)
  then have uu: "res (multiply u u) ^ 2 ^ m = - 1" by (simp add: power_mult power2_eq_square)
  let ?cs = "twist_into u stride 0 t (transform vs (multiply u u)) (replicate degree 0)"
  have encoded: "encode_orbits primary complementary degree = Some ?cs"
    using encode_value [OF assms(1) [symmetric] assms(2,5,6,4) root(1)] by (simp only: u_def t_def vs_def)
  have len: "length (map canonical ?cs) = degree" by simp
  obtain root' ys where read: "primitive_root (2 ^ (m + 2)) = Some root'" "res root' ^ ?n = - 1" "odd_power_values (map canonical ?cs) = Some ys"
      "length ys = ?n" "\<forall>v \<in> set ys. v < PLAINTEXT_MODULUS"
    and ys: "\<And>k. k < ?n \<Longrightarrow> res (ys ! k)
      = (\<Sum>j<?n. res (map canonical ?cs ! (2 * stride * j)) * res root' ^ (j * (2 * k + 1)))"
    by (rule odd_power_values_value [of stride m "map canonical ?cs", unfolded len, OF assms(1-4)]) (rule that)
  have "ys = vs"
  proof (rule nth_equalityI)
    show "length ys = length vs" using read(4) V(1) by simp
    fix k
    assume "k < length ys"
    then have k: "k < ?n" using read(4) by simp
    have each: "res (map canonical ?cs ! (2 * stride * j)) * res root' ^ (j * (2 * k + 1))
        = res t * (\<Sum>i<?n. res (vs ! i) * (res u ^ (2 * i + 1) * res root ^ (2 * k + 1)) ^ j)" if j: "j < ?n" for j
    proof -
      have "2 * stride * j < 2 * stride * ?n" using j assms(2) by simp
      also have "\<dots> = degree" using assms(1) by simp
      finally have "res (map canonical ?cs ! (2 * stride * j)) = of_int (?cs ! (2 * stride * j))" by simp
      also have "\<dots> = res t * (\<Sum>i<?n. res (vs ! i) * res u ^ ((2 * i + 1) * j))"
        by (rule encoded_coefficients [OF assms(1,2) V(1) uu j])
      finally show ?thesis
        using read(1) root(1)
        by (simp add: sum_distrib_right mult.assoc power_mult_distrib power_mult [symmetric] mult.commute [of j] del: power_Suc)
    qed
    have "res (ys ! k) = (\<Sum>j<?n. res t * (\<Sum>i<?n. res (vs ! i) * (res u ^ (2 * i + 1) * res root ^ (2 * k + 1)) ^ j))"
      unfolding ys [OF k] by (rule sum.cong) (simp_all only: each lessThan_iff)
    also have "\<dots> = res t * (\<Sum>i<?n. res (vs ! i) * (\<Sum>j<?n. (res u ^ (2 * i + 1) * res root ^ (2 * k + 1)) ^ j))"
      unfolding sum_distrib_left by (subst sum.swap) (rule refl)
    also have "\<dots> = res t * (\<Sum>i<?n. res (vs ! i) * (if i = k then 2 ^ Suc m else 0))"
      using root_powers_orthogonal [OF unit root(2) _ k] by (intro arg_cong [of _ _ "(*) (res t)"] sum.cong) simp_all
    also have "(\<Sum>i<?n. res (vs ! i) * (if i = k then 2 ^ Suc m else 0)) = res (vs ! k) * res ?n"
      using k by (simp add: if_distrib [of "(*) _"] sum.delta del: power_Suc cong: if_cong)
    also have "res t * (res (vs ! k) * res ?n) = res t * res ?n * res (vs ! k)" by (simp only: ac_simps)
    also have "\<dots> = res (vs ! k)" unfolding scale by simp
    finally have "res (ys ! k) = res (vs ! k)" .
    moreover have "ys ! k < PLAINTEXT_MODULUS" "vs ! k < PLAINTEXT_MODULUS"
      using read(4,5) V(1,2) k by (metis nth_mem)+
    ultimately show "ys ! k = vs ! k" by (simp only: res_inject)
  qed
  with encoded read(3) show ?thesis by (simp add: vs_def)
qed

text \<open>The degrees an encoding accepts.\<close>

lemma encoding_degree_cases:
  assumes "encoding_degree degree = Some encoding"
  obtains m stride where "encoding = 2 ^ (m + 2)" "2 \<le> m" "m \<le> 10" "0 < stride" "stride * 2 ^ (m + 2) = degree"
proof -
  have degree: "16 \<le> degree" "is_power_of_two degree" "encoding = min degree ENCODING_DEGREE"
    using assms by (simp_all add: encoding_degree_def split: if_splits)
  then obtain q where q: "degree = 2 ^ q" unfolding is_power_of_two_def by blast
  have "(2 :: nat) ^ 4 \<le> 2 ^ q" using degree(1) q by simp
  then have "4 \<le> q" by (simp only: power_increasing_iff one_less_numeral_iff semiring_norm)
  show ?thesis
  proof (cases "q \<le> 12")
    case True
    then have "(2 :: nat) ^ q \<le> 2 ^ 12" by (intro power_increasing) simp_all
    moreover have "q - 2 + 2 = q" using \<open>4 \<le> q\<close> by simp
    ultimately have "encoding = 2 ^ ((q - 2) + 2)" "degree = 2 ^ ((q - 2) + 2)"
      using degree(3) q by (simp_all only: ENCODING_DEGREE_def) simp_all
    then show ?thesis using that [of "q - 2" 1] True \<open>4 \<le> q\<close> by simp
  next
    case False
    then have "(2 :: nat) ^ 12 \<le> 2 ^ q" by (intro power_increasing) simp_all
    then have "encoding = 2 ^ (10 + 2)" using degree(3) q by (simp add: ENCODING_DEGREE_def)
    moreover have "q - 12 + (10 + 2) = q" using False by simp
    then have "2 ^ (q - 12) * 2 ^ (10 + 2) = degree" unfolding q by (simp only: power_add [symmetric])
    ultimately show ?thesis using that [of 10 "2 ^ (q - 12)"] by simp
  qed
qed

section \<open>Properties\<close>

text \<open>
  C30. The in-place transform is the discrete Fourier transform: at a root of the order of their
  number, each position's new value is the sum of every value times the root raised to the product
  of both positions.
\<close>

theorem transform_is_the_fourier_transform:
  assumes "length vs = 2 ^ Suc m" "m \<le> 11" "primitive_root (2 ^ Suc m) = Some root"
  shows "transform vs root
    = map (\<lambda>k. (\<Sum>j<2 ^ Suc m. vs ! j * root ^ (j * k)) mod PLAINTEXT_MODULUS) [0..<2 ^ Suc m]"
proof -
  have "res root ^ 2 ^ m = - 1" using root_minus_one [OF assms(2)] assms(3) by auto
  note T = transform_dft [OF assms(1) this]
  have "transform vs root ! k = (\<Sum>j<2 ^ Suc m. vs ! j * root ^ (j * k)) mod PLAINTEXT_MODULUS"
    if k: "k < 2 ^ Suc m" for k
  proof -
    have "res (transform vs root ! k) = dft (res root) (map res vs) ! k"
      using T(3) k unfolding T(1) [symmetric] by (simp del: power_Suc)
    also have "\<dots> = res ((\<Sum>j<2 ^ Suc m. vs ! j * root ^ (j * k)) mod PLAINTEXT_MODULUS)"
      using k assms(1) by (simp add: dft_def of_nat_power del: power_Suc)
    finally show ?thesis using T(2,3) k nth_mem by (simp add: res_inject del: power_Suc of_nat_sum res_mod)
  qed
  then show ?thesis using T(3) by (intro nth_equalityI) (simp_all del: power_Suc)
qed

theorem transform_is_the_fourier_transform_witness:
  "\<exists>root. primitive_root 2 = Some root
     \<and> transform [3, 5] root = map (\<lambda>k. (\<Sum>j<2. [3, 5] ! j * root ^ (j * k)) mod PLAINTEXT_MODULUS) [0..<2]"
  using root_minus_one [of 0] transform_is_the_fourier_transform [of "[3, 5]" 0] by auto

text \<open>
  C29. Encodings read back: in every accepted degree, the values of an encoding of two orbits at the
  odd powers of the root are the two orbits, the first at the slot positions and the second
  mirrored, so the encoding loses nothing.
\<close>

theorem encoded_orbits_read_back:
  assumes "encoding_degree degree = Some encoding"
    and "length primary = encoding div 4" "length complementary = encoding div 4"
    and "\<forall>v \<in> set primary \<union> set complementary. v < PLAINTEXT_MODULUS"
  shows "\<exists>cs vs. encode_orbits primary complementary degree = Some cs \<and> length cs = degree
    \<and> odd_power_values (map canonical cs) = Some vs \<and> length vs = encoding div 2
    \<and> (\<forall>s < encoding div 4. vs ! (slot_positions encoding ! s) = primary ! s
         \<and> vs ! (encoding div 2 - 1 - slot_positions encoding ! s) = complementary ! s)"
proof -
  obtain m stride where m: "encoding = 2 ^ (m + 2)" "m \<le> 10" "0 < stride" "stride * 2 ^ (m + 2) = degree"
    using encoding_degree_cases [OF assms(1)] .
  have quarters: "encoding div 4 = 2 ^ m" "encoding div 2 = 2 ^ Suc m" by (simp_all add: m(1))
  then have lens: "length primary = 2 ^ m" "length complementary = 2 ^ m" using assms(2,3) by simp_all
  note P = place_orbits [OF lens(1,2) assms(4)]
  show ?thesis
    using orbits_read_back [OF m(4,3,2) assms(1) [unfolded m(1)] lens(1,2) assms(4)] P
    unfolding quarters unfolding m(1) by blast
qed

theorem encoded_orbits_read_back_witness:
  "\<exists>cs vs. encode_orbits [1, 2, 3, 4] [5, 6, 7, 8] 16 = Some cs
     \<and> odd_power_values (map canonical cs) = Some vs
     \<and> (\<forall>s < 4. vs ! (slot_positions 16 ! s) = [1, 2, 3, 4] ! s \<and> vs ! (7 - slot_positions 16 ! s) = [5, 6, 7, 8] ! s)"
proof -
  have "is_power_of_two 16" using is_power_of_two_power [of 4] by simp
  then have "encoding_degree 16 = Some 16" by (simp add: encoding_degree_def ENCODING_DEGREE_def)
  from encoded_orbits_read_back [OF this, of "[1, 2, 3, 4]" "[5, 6, 7, 8]"] show ?thesis
    by (auto simp: PLAINTEXT_MODULUS_def)
qed

end
