(* ===== verification/Interpolation.thy ===== *)
theory Interpolation
  imports Residues
begin

text \<open>
  The interpolation of \<open>encrypted-ranking/src/ranking-plaintext.rs\<close> (\<open>interpolate\<close>): divided
  differences in place, then the Newton form multiplied out, with the proof that the polynomial
  takes the given values at the given points and is the only one of its length that does.
\<close>

section \<open>Definitions\<close>

definition difference_step :: "nat list \<Rightarrow> nat \<Rightarrow> nat \<Rightarrow> nat list \<Rightarrow> nat list" where
  "difference_step points order index differences =
     (let numerator = (differences ! index + PLAINTEXT_MODULUS - differences ! (index - 1)) mod PLAINTEXT_MODULUS;
          denominator = (points ! index + PLAINTEXT_MODULUS - points ! (index - order)) mod PLAINTEXT_MODULUS in
      differences[index := multiply numerator (power_mod denominator (PLAINTEXT_MODULUS - 2))])"

definition difference_order :: "nat list \<Rightarrow> nat \<Rightarrow> nat list \<Rightarrow> nat list" where
  "difference_order points order = fold (difference_step points order) (rev [order..<length points])"

definition divided_differences :: "nat list \<Rightarrow> nat list \<Rightarrow> nat list" where
  "divided_differences points values = fold (difference_order points) [1..<length points] values"

text \<open>One pass of the second loop: the polynomial times the point's factor, plus the difference.\<close>

definition scatter :: "nat \<Rightarrow> nat \<times> nat \<Rightarrow> nat list \<Rightarrow> nat list" where
  "scatter point = (\<lambda>(degree, coefficient) next.
     let next = next[degree :=
           (next ! degree + PLAINTEXT_MODULUS - multiply coefficient point) mod PLAINTEXT_MODULUS] in
     next[degree + 1 := (next ! (degree + 1) + coefficient) mod PLAINTEXT_MODULUS])"

definition next_polynomial :: "nat \<Rightarrow> nat \<Rightarrow> nat list \<Rightarrow> nat list" where
  "next_polynomial point difference polynomial =
     (let next = fold (scatter point) (enumerate 0 polynomial) (replicate (length polynomial + 1) 0) in
      next[0 := (next ! 0 + difference) mod PLAINTEXT_MODULUS])"

text \<open>A missing point or value and a denominator of zero end the source in a panic.\<close>

definition interpolate :: "nat list \<Rightarrow> nat list \<Rightarrow> nat list option" where
  "interpolate points values =
     (if points = [] \<or> length values < length points
         \<or> (\<exists>order \<in> set [1..<length points]. \<exists>index \<in> set [order..<length points].
              (points ! index + PLAINTEXT_MODULUS - points ! (index - order)) mod PLAINTEXT_MODULUS = 0)
      then None
      else let differences = divided_differences points values in
        Some (fold (\<lambda>index. next_polynomial (points ! index) (differences ! index))
                (rev [0..<length points - 1]) [last differences]))"

section \<open>Evaluation\<close>

definition evaluate :: "nat list \<Rightarrow> residue \<Rightarrow> residue" where
  "evaluate cs x = (\<Sum>i<length cs. res (cs ! i) * x ^ i)"

lemma evaluate_update:
  assumes "i < length cs"
  shows "evaluate (cs[i := c]) x = evaluate cs x + (res c - res (cs ! i)) * x ^ i"
proof -
  have "evaluate (cs[i := c]) x = (\<Sum>j\<in>{..<length cs} - {i}. res (cs ! j) * x ^ j) + res c * x ^ i"
    unfolding evaluate_def using assms by (subst sum.remove [of _ i]) (auto simp: add.commute)
  moreover have "evaluate cs x = (\<Sum>j\<in>{..<length cs} - {i}. res (cs ! j) * x ^ j) + res (cs ! i) * x ^ i"
    unfolding evaluate_def using assms by (subst sum.remove [of _ i]) (auto simp: add.commute)
  ultimately show ?thesis by (simp add: algebra_simps)
qed

lemma evaluate_zeros [simp]: "evaluate (replicate n 0) x = 0"
  by (simp add: evaluate_def)

lemma evaluate_Nil [simp]: "evaluate [] x = 0"
  by (simp add: evaluate_def)

lemma evaluate_Cons [simp]: "evaluate (c # cs) x = res c + x * evaluate cs x"
  unfolding evaluate_def by (simp add: sum.lessThan_Suc_shift sum_distrib_left ac_simps del: sum.lessThan_Suc)

lemma multiply_le: "multiply a b \<le> PLAINTEXT_MODULUS"
  by (rule less_imp_le) simp

lemma scatter_step:
  assumes "d + length cs < length next"
  shows "length (fold (scatter point) (enumerate d cs) next) = length next
    \<and> evaluate (fold (scatter point) (enumerate d cs) next) x
      = evaluate next x + (x - res point) * x ^ d * evaluate cs x"
  using assms
proof (induction cs arbitrary: d "next")
  case (Cons c cs)
  define n1 where "n1 = next[d := (next ! d + PLAINTEXT_MODULUS - multiply c point) mod PLAINTEXT_MODULUS]"
  define n2 where "n2 = n1[d + 1 := (n1 ! (d + 1) + c) mod PLAINTEXT_MODULUS]"
  have d: "d < length next" "d + 1 < length n1" using Cons.prems by (simp_all add: n1_def)
  have "evaluate n2 x = evaluate n1 x + res c * x ^ (d + 1)"
    unfolding n2_def using evaluate_update [OF d(2)] by simp
  also have "evaluate n1 x = evaluate next x - res c * res point * x ^ d"
    unfolding n1_def evaluate_update [OF d(1)] res_difference [OF multiply_le] by (simp add: algebra_simps)
  finally have "evaluate n2 x = evaluate next x + (x - res point) * x ^ d * res c" by (simp add: algebra_simps)
  moreover have "length n2 = length next" by (simp add: n2_def n1_def)
  ultimately show ?case
    using Cons.IH [of "Suc d" n2] Cons.prems by (simp add: scatter_def Let_def n1_def n2_def algebra_simps)
qed simp

lemma next_polynomial:
  "length (next_polynomial point difference cs) = Suc (length cs)"
  "evaluate (next_polynomial point difference cs) x = (x - res point) * evaluate cs x + res difference"
proof -
  define n where "n = fold (scatter point) (enumerate 0 cs) (replicate (length cs + 1) 0)"
  have n: "length n = Suc (length cs)" "evaluate n x = (x - res point) * evaluate cs x"
    using scatter_step [of 0 cs "replicate (length cs + 1) 0" point x] by (simp_all add: n_def)
  have eq: "next_polynomial point difference cs = n[0 := (n ! 0 + difference) mod PLAINTEXT_MODULUS]"
    by (simp add: next_polynomial_def n_def Let_def)
  show "length (next_polynomial point difference cs) = Suc (length cs)" by (simp add: eq n)
  show "evaluate (next_polynomial point difference cs) x = (x - res point) * evaluate cs x + res difference"
    using n evaluate_update [of 0 n] by (simp add: eq)
qed

section \<open>Divided differences\<close>

fun dd :: "(nat \<Rightarrow> residue) \<Rightarrow> (nat \<Rightarrow> residue) \<Rightarrow> nat \<Rightarrow> nat \<Rightarrow> residue" where
  "dd x v 0 i = v i"
| "dd x v (Suc k) i = (dd x v k i - dd x v k (i - 1)) * (x i - x (i - Suc k)) ^ (PLAINTEXT_MODULUS - 2)"

lemma dd_difference:
  assumes "x i \<noteq> x (i - Suc k)"
  shows "dd x v (Suc k) i * (x i - x (i - Suc k)) = dd x v k i - dd x v k (i - 1)"
proof -
  obtain n where n: "x i - x (i - Suc k) = res n" using residue_cases by blast
  have "res n * res n ^ (PLAINTEXT_MODULUS - 2) = 1" using assms n by (intro res_inverse) auto
  then show ?thesis unfolding dd.simps n by (simp add: mult.assoc mult.commute [of "res n"])
qed

text \<open>The inner loop over the indices from the last down to \<open>low\<close>.\<close>

lemma length_difference_step [simp]: "length (difference_step points order index d) = length d"
  by (simp add: difference_step_def Let_def)

lemma difference_steps:
  assumes "length d = n" "low \<le> n" "0 < low" "length points \<le> n" "order \<le> low" "high \<le> n" "low \<le> high"
    and "\<forall>p \<in> set points. p < PLAINTEXT_MODULUS" "high \<le> length points" "\<forall>c \<in> set d. c < PLAINTEXT_MODULUS"
  defines "e \<equiv> fold (difference_step points order) (rev [low..<high]) d"
  shows "length e = n \<and> (\<forall>c \<in> set e. c < PLAINTEXT_MODULUS)
    \<and> (\<forall>i < n. res (e ! i) = (if low \<le> i \<and> i < high
         then (res (d ! i) - res (d ! (i - 1))) * (res (points ! i) - res (points ! (i - order))) ^ (PLAINTEXT_MODULUS - 2)
         else res (d ! i)))"
  using assms(2,3,5,7) unfolding e_def
proof (induction "high - low" arbitrary: low)
  case 0
  then show ?case using assms(1,10) by auto
next
  case (Suc m)
  let ?d = "fold (difference_step points order) (rev [Suc low..<high]) d"
  have "low < high" using Suc.hyps(2) by simp
  have IH: "length ?d = n" "\<forall>c \<in> set ?d. c < PLAINTEXT_MODULUS"
    "\<And>i. i < n \<Longrightarrow> res (?d ! i) = (if Suc low \<le> i \<and> i < high
         then (res (d ! i) - res (d ! (i - 1))) * (res (points ! i) - res (points ! (i - order))) ^ (PLAINTEXT_MODULUS - 2)
         else res (d ! i))"
    using Suc.hyps(1) [of "Suc low"] Suc.hyps(2) Suc.prems assms(6) \<open>low < high\<close> by simp_all
  have low: "low < n" "low - 1 < n" "low < length points" "low - order < length points"
    using \<open>low < high\<close> assms(6,9) by simp_all
  have bounds: "?d ! (low - 1) \<le> PLAINTEXT_MODULUS" "points ! (low - order) \<le> PLAINTEXT_MODULUS"
    using IH(1,2) assms(8) low nth_mem [of "low - 1" ?d] nth_mem [of "low - order" points] by (auto intro: less_imp_le)
  have "fold (difference_step points order) (rev [low..<high]) d = difference_step points order low ?d"
    using \<open>low < high\<close> by (simp add: upt_conv_Cons)
  moreover have "res (difference_step points order low ?d ! i) = (if low \<le> i \<and> i < high
         then (res (d ! i) - res (d ! (i - 1))) * (res (points ! i) - res (points ! (i - order))) ^ (PLAINTEXT_MODULUS - 2)
         else res (d ! i))" if "i < n" for i
  proof (cases "i = low")
    case True
    have "\<not> Suc low \<le> low - 1" by simp
    then have "res (?d ! (low - 1)) = res (d ! (low - 1))" "res (?d ! low) = res (d ! low)"
      using IH(3) [of "low - 1"] IH(3) [of low] low by (simp_all only: simp_thms if_False) simp
    then show ?thesis
      using True IH(1) low bounds \<open>low < high\<close>
      by (simp add: difference_step_def Let_def)
  next
    case False
    then show ?thesis using IH(3) [OF that] that by (auto simp: difference_step_def Let_def)
  qed
  moreover have "\<forall>c \<in> set (difference_step points order low ?d). c < PLAINTEXT_MODULUS"
    using IH(2) set_update_subset_insert by (fastforce simp: difference_step_def Let_def)
  ultimately show ?case using IH(1) by simp
qed

lemma difference_orders:
  assumes "length vs = n" "length points = n" "0 < k" "k \<le> n"
    and "\<forall>p \<in> set points. p < PLAINTEXT_MODULUS" "\<forall>v \<in> set vs. v < PLAINTEXT_MODULUS"
  defines "d \<equiv> fold (difference_order points) [1..<k] vs"
  shows "length d = n \<and> (\<forall>c \<in> set d. c < PLAINTEXT_MODULUS)
    \<and> (\<forall>i < n. res (d ! i) = dd (\<lambda>i. res (points ! i)) (\<lambda>i. res (vs ! i)) (min (k - 1) i) i)"
  using assms(3,4) unfolding d_def
proof (induction k)
  case (Suc k)
  show ?case
  proof (cases "k = 0")
    case True
    then show ?thesis using assms(1,6) by simp
  next
    case False
    let ?x = "\<lambda>i. res (points ! i)" and ?v = "\<lambda>i. res (vs ! i)"
    let ?d = "fold (difference_order points) [1..<k] vs"
    have IH: "length ?d = n" "\<forall>c \<in> set ?d. c < PLAINTEXT_MODULUS" "\<And>i. i < n \<Longrightarrow> res (?d ! i) = dd ?x ?v (min (k - 1) i) i"
      using Suc.IH Suc.prems False by simp_all
    have step: "fold (difference_order points) [1..<Suc k] vs = difference_order points k ?d"
      using False by simp
    note S = difference_steps [OF IH(1), of k points k n, folded difference_order_def, unfolded assms(2)]
    have s: "length (difference_order points k ?d) = n" "\<forall>c \<in> set (difference_order points k ?d). c < PLAINTEXT_MODULUS"
      "\<And>i. i < n \<Longrightarrow> res (difference_order points k ?d ! i) = (if k \<le> i \<and> i < n
         then (res (?d ! i) - res (?d ! (i - 1))) * (?x i - ?x (i - k)) ^ (PLAINTEXT_MODULUS - 2) else res (?d ! i))"
      using difference_steps [OF IH(1), of k points k n] Suc.prems False IH(2) assms(2,5)
      by (simp_all add: difference_order_def)
    have "res (difference_order points k ?d ! i) = dd ?x ?v (min (Suc k - 1) i) i" if "i < n" for i
    proof (cases "k \<le> i")
      case True
      obtain j where j: "k = Suc j" using False by (cases k) simp_all
      have "min (k - 1) i = j" "min (k - 1) (i - 1) = j" "min (Suc k - 1) i = Suc j" using True j by simp_all
      then show ?thesis using s(3) [OF that] IH(3) [OF that] IH(3) [of "i - 1"] that True j by simp
    next
      case low: False
      then have "min (k - 1) i = i" "min (Suc k - 1) i = i" by simp_all
      then show ?thesis using s(3) [OF that] IH(3) [OF that] low by simp
    qed
    then show ?thesis using s(1,2) unfolding step by blast
  qed
qed simp

section \<open>The Newton form\<close>

definition newton :: "(nat \<Rightarrow> residue) \<Rightarrow> (nat \<Rightarrow> residue) \<Rightarrow> nat \<Rightarrow> nat \<Rightarrow> residue \<Rightarrow> residue" where
  "newton x v k i z = (\<Sum>j\<le>k. dd x v j (i - k + j) * (\<Prod>l\<in>{i - k..<i - k + j}. z - x l))"

lemma newton_0 [simp]: "newton x v 0 i z = v i"
  by (simp add: newton_def)

lemma newton_forward:
  assumes "Suc k \<le> i"
  shows "newton x v (Suc k) i z = newton x v k (i - 1) z + dd x v (Suc k) i * (\<Prod>l\<in>{i - Suc k..<i}. z - x l)"
proof -
  have "i - Suc k = i - 1 - k" "i - Suc k + Suc k = i" using assms by simp_all
  then show ?thesis by (simp add: newton_def del: dd.simps)
qed

lemma newton_backward:
  assumes "Suc k \<le> i" and distinct: "\<And>a b. a < b \<Longrightarrow> b \<le> i \<Longrightarrow> x a \<noteq> x b"
  shows "newton x v (Suc k) i z = newton x v k i z + dd x v (Suc k) i * (\<Prod>l\<in>{i - k..<Suc i}. z - x l)"
  using assms
proof (induction k arbitrary: i)
  case 0
  have "dd x v (Suc 0) i * (x i - x (i - Suc 0)) = v i - v (i - 1)"
    using dd_difference [of x i 0 v] 0(2) [of "i - 1" i] 0(1) by auto
  then have vi: "v i = v (i - 1) + dd x v (Suc 0) i * (x i - x (i - Suc 0))" by (metis add.commute diff_add_cancel)
  moreover have "{i - Suc 0..<i} = {i - 1}" "{i - 0..<Suc i} = {i}" using 0(1) by auto
  moreover have "v i + dd x v (Suc 0) i * (z - x i) = v (i - 1) + dd x v (Suc 0) i * (z - x (i - Suc 0))"
    unfolding vi by (simp only: right_diff_distrib) (simp add: algebra_simps del: dd.simps)
  ultimately show ?case using newton_forward [OF 0(1), of x v z] by (simp del: dd.simps)
next
  case (Suc k)
  let ?W = "\<Prod>l\<in>{i - Suc k..<i}. z - x l"
  have split: "(\<Prod>l\<in>{i - Suc (Suc k)..<i}. z - x l) = (z - x (i - Suc (Suc k))) * ?W"
    using Suc.prems(1) by (subst prod.atLeast_Suc_lessThan) (simp_all add: Suc_diff_Suc)
  have "newton x v (Suc k) (i - 1) z = newton x v k (i - 1) z
      + dd x v (Suc k) (i - 1) * (\<Prod>l\<in>{i - 1 - k..<Suc (i - 1)}. z - x l)"
    using Suc.prems by (intro Suc.IH) simp_all
  moreover have "{i - 1 - k..<Suc (i - 1)} = {i - Suc k..<i}" using Suc.prems(1) by auto
  ultimately have rear: "newton x v (Suc k) (i - 1) z = newton x v k (i - 1) z + dd x v (Suc k) (i - 1) * ?W" by (simp only:)
  have front: "newton x v (Suc k) i z = newton x v k (i - 1) z + dd x v (Suc k) i * ?W"
    using Suc.prems(1) by (intro newton_forward) simp
  have high: "(\<Prod>l\<in>{i - Suc k..<Suc i}. z - x l) = ?W * (z - x i)" by (rule prod.atLeastLessThan_Suc) simp
  have "dd x v (Suc (Suc k)) i * (x i - x (i - Suc (Suc k))) = dd x v (Suc k) i - dd x v (Suc k) (i - 1)"
    using Suc.prems by (intro dd_difference) (metis diff_less less_le_trans order_refl zero_less_Suc)
  then have step: "dd x v (Suc k) i = dd x v (Suc k) (i - 1) + dd x v (Suc (Suc k)) i * (x i - x (i - Suc (Suc k)))"
    by (simp only: diff_add_cancel add.commute [of "dd x v (Suc k) (i - 1)"])
  have "newton x v (Suc (Suc k)) i z
      = newton x v k (i - 1) z + dd x v (Suc k) (i - 1) * ?W
        + dd x v (Suc (Suc k)) i * ((z - x (i - Suc (Suc k))) * ?W)"
    using newton_forward [of "Suc k" i x v z] Suc.prems(1) unfolding split rear by simp
  also have "\<dots> = newton x v k (i - 1) z + dd x v (Suc k) i * ?W + dd x v (Suc (Suc k)) i * (?W * (z - x i))"
    unfolding step by (simp add: algebra_simps del: dd.simps)
  finally show ?case unfolding front high by simp
qed

lemma newton_interpolates:
  assumes "k \<le> i" "i - k \<le> m" "m \<le> i" and distinct: "\<And>a b. a < b \<Longrightarrow> b \<le> i \<Longrightarrow> x a \<noteq> x b"
  shows "newton x v k i (x m) = v m"
  using assms
proof (induction k arbitrary: i)
  case (Suc k)
  show ?case
  proof (cases "m = i")
    case True
    have "(\<Prod>l\<in>{i - k..<Suc i}. x m - x l) = 0" using True Suc.prems(1) by (intro prod_zero) auto
    moreover have "newton x v k i (x m) = v m" using Suc.prems True by (intro Suc.IH) simp_all
    ultimately show ?thesis using newton_backward [OF Suc.prems(1,4), where v = v and z = "x m"] by simp
  next
    case False
    then have "m \<in> {i - Suc k..<i}" using Suc.prems by simp
    then have "(\<Prod>l\<in>{i - Suc k..<i}. x m - x l) = 0" by (intro prod_zero) auto
    moreover have "newton x v k (i - 1) (x m) = v m"
      using Suc.prems False by (intro Suc.IH) simp_all
    ultimately show ?thesis using newton_forward [OF Suc.prems(1), where x = x and v = v and z = "x m"] by simp
  qed
qed simp

section \<open>The polynomial takes the values\<close>

lemma scatter_bounded:
  "\<forall>c \<in> set next. c < PLAINTEXT_MODULUS \<Longrightarrow>
    \<forall>c \<in> set (fold (scatter point) (enumerate d cs) next). c < PLAINTEXT_MODULUS"
proof (induction cs arbitrary: d "next")
  case (Cons c cs)
  have update: "\<forall>c \<in> set (xs[i := b mod PLAINTEXT_MODULUS]). c < PLAINTEXT_MODULUS"
    if "\<forall>c \<in> set xs. c < PLAINTEXT_MODULUS" for xs i b
    using that set_update_subset_insert [of xs i "b mod PLAINTEXT_MODULUS"] by fastforce
  have "\<forall>c \<in> set (scatter point (d, c) next). c < PLAINTEXT_MODULUS"
    unfolding scatter_def Let_def prod.case by (intro update Cons.prems)
  then show ?case using Cons.IH by simp
qed simp

lemma next_polynomial_bounded: "\<forall>c \<in> set (next_polynomial point difference cs). c < PLAINTEXT_MODULUS"
proof -
  let ?n = "fold (scatter point) (enumerate 0 cs) (replicate (length cs + 1) 0)"
  have "\<forall>c \<in> set ?n. c < PLAINTEXT_MODULUS" by (rule scatter_bounded) simp
  then show ?thesis
    using set_update_subset_insert [of ?n 0 "(?n ! 0 + difference) mod PLAINTEXT_MODULUS"]
    unfolding next_polynomial_def Let_def by fastforce
qed

text \<open>The second loop, down to an index.\<close>

lemma newton_loop:
  assumes "length points = n" "length d = n" "i < n" "\<forall>c \<in> set d. c < PLAINTEXT_MODULUS"
  defines "poly \<equiv> fold (\<lambda>index. next_polynomial (points ! index) (d ! index)) (rev [i..<n - 1]) [last d]"
  shows "length poly = n - i \<and> (\<forall>c \<in> set poly. c < PLAINTEXT_MODULUS)
    \<and> (\<forall>z. evaluate poly z = (\<Sum>j<n - i. res (d ! (i + j)) * (\<Prod>l\<in>{i..<i + j}. z - res (points ! l))))"
  using assms(3) unfolding poly_def
proof (induction "n - 1 - i" arbitrary: i)
  case 0
  then have i: "i = n - 1" "n - i = 1" by simp_all
  moreover have "d \<noteq> []" using 0 assms(2) by auto
  ultimately show ?case using assms(2,4) by (simp add: last_conv_nth)
next
  case (Suc m)
  let ?next = "fold (\<lambda>index. next_polynomial (points ! index) (d ! index)) (rev [Suc i..<n - 1]) [last d]"
  let ?z = "\<lambda>z l. z - res (points ! l)"
  have i: "i < n - 1" "n - i = Suc (n - Suc i)" using Suc.hyps(2) by simp_all
  have IH: "length ?next = n - Suc i"
    "\<And>z. evaluate ?next z = (\<Sum>j<n - Suc i. res (d ! (Suc i + j)) * (\<Prod>l\<in>{Suc i..<Suc i + j}. ?z z l))"
    using Suc.hyps(1) [of "Suc i"] Suc.hyps(2) i by simp_all
  have step: "fold (\<lambda>index. next_polynomial (points ! index) (d ! index)) (rev [i..<n - 1]) [last d]
      = next_polynomial (points ! i) (d ! i) ?next"
    using i by (simp add: upt_conv_Cons)
  have "evaluate (next_polynomial (points ! i) (d ! i) ?next) z
      = (\<Sum>j<n - i. res (d ! (i + j)) * (\<Prod>l\<in>{i..<i + j}. ?z z l))" for z
  proof -
    have shift: "?z z i * (\<Prod>l\<in>{Suc i..<Suc i + j}. ?z z l) = (\<Prod>l\<in>{i..<i + Suc j}. ?z z l)" for j
      by (simp add: prod.atLeast_Suc_lessThan [of i])
    have "evaluate (next_polynomial (points ! i) (d ! i) ?next) z
        = (\<Sum>j<n - Suc i. res (d ! (Suc i + j)) * (?z z i * (\<Prod>l\<in>{Suc i..<Suc i + j}. ?z z l))) + res (d ! i)"
      unfolding next_polynomial IH(2) by (simp add: sum_distrib_left mult.left_commute)
    then show ?thesis unfolding i(2) sum.lessThan_Suc_shift shift by simp
  qed
  then show ?case
    using IH(1) next_polynomial_bounded i unfolding step by (simp add: next_polynomial(1))
qed

lemma interpolate_takes_values:
  assumes "length vs = length points" "points \<noteq> []" "distinct points"
    and "\<forall>p \<in> set points. p < PLAINTEXT_MODULUS" "\<forall>v \<in> set vs. v < PLAINTEXT_MODULUS"
  shows "\<exists>cs. interpolate points vs = Some cs \<and> length cs = length points \<and> (\<forall>c \<in> set cs. c < PLAINTEXT_MODULUS)
    \<and> (\<forall>m < length points. evaluate cs (res (points ! m)) = res (vs ! m))"
proof -
  let ?n = "length points" and ?x = "\<lambda>i. res (points ! i)" and ?v = "\<lambda>i. res (vs ! i)"
  let ?d = "divided_differences points vs"
  have n: "0 < ?n" using assms(2) by simp
  have x: "?x a \<noteq> ?x b" if "a < ?n" "b < ?n" "a \<noteq> b" for a b
    using that assms(3,4) by (simp add: res_inject nth_eq_iff_index_eq)
  have denominator: "(points ! index + PLAINTEXT_MODULUS - points ! (index - order)) mod PLAINTEXT_MODULUS \<noteq> 0"
    if "order \<in> set [1..<?n]" "index \<in> set [order..<?n]" for order index
  proof
    assume zero: "(points ! index + PLAINTEXT_MODULUS - points ! (index - order)) mod PLAINTEXT_MODULUS = 0"
    have "points ! (index - order) \<le> PLAINTEXT_MODULUS" using assms(4) that by (auto intro: less_imp_le)
    from res_difference [OF this, of "points ! index"] have "?x index = ?x (index - order)" unfolding zero by simp
    moreover have "index - order < ?n" "index \<noteq> index - order" "index < ?n" using that by auto
    ultimately show False using x [of index "index - order"] by simp
  qed
  have D: "length ?d = ?n" "\<forall>c \<in> set ?d. c < PLAINTEXT_MODULUS" "\<And>i. i < ?n \<Longrightarrow> res (?d ! i) = dd ?x ?v i i"
  proof -
    note o = difference_orders [of vs ?n points ?n, folded divided_differences_def]
    show "length ?d = ?n" "\<forall>c \<in> set ?d. c < PLAINTEXT_MODULUS" using o assms n by simp_all
    show "res (?d ! i) = dd ?x ?v i i" if "i < ?n" for i
    proof -
      have "min (?n - 1) i = i" using that by simp
      then show ?thesis using o assms n that by simp
    qed
  qed
  let ?cs = "fold (\<lambda>index. next_polynomial (points ! index) (?d ! index)) (rev [0..<?n - 1]) [last ?d]"
  note L = newton_loop [OF refl D(1) n D(2)]
  have "interpolate points vs = Some ?cs"
    using assms(1,2) denominator by (auto simp: interpolate_def Let_def)
  moreover have "evaluate ?cs (?x m) = ?v m" if m: "m < ?n" for m
  proof -
    have "evaluate ?cs (?x m) = (\<Sum>j<?n. res (?d ! j) * (\<Prod>l\<in>{0..<j}. ?x m - ?x l))" using L by simp
    also have "\<dots> = (\<Sum>j<?n. dd ?x ?v j j * (\<Prod>l\<in>{0..<j}. ?x m - ?x l))"
      by (rule sum.cong) (simp_all add: D(3))
    also have "\<dots> = newton ?x ?v (?n - 1) (?n - 1) (?x m)"
      using n by (simp add: newton_def lessThan_Suc_atMost [symmetric])
    also have "\<dots> = ?v m" using m x by (intro newton_interpolates) auto
    finally show ?thesis .
  qed
  ultimately show ?thesis using L by (intro exI [of _ ?cs]) simp
qed

section \<open>The polynomial is the only one\<close>

fun rpoly :: "residue list \<Rightarrow> residue \<Rightarrow> residue" where
  "rpoly [] z = 0"
| "rpoly (c # cs) z = c + z * rpoly cs z"

lemma evaluate_rpoly: "evaluate cs z = rpoly (map res cs) z"
  by (induction cs) simp_all

lemma rpoly_factor:
  "\<exists>qs. length qs = length cs - 1 \<and> (\<forall>z. rpoly cs z = (z - a) * rpoly qs z + rpoly cs a)
     \<and> (rpoly cs a = 0 \<longrightarrow> set qs \<subseteq> {0} \<longrightarrow> set cs \<subseteq> {0})"
proof (induction cs)
  case (Cons c cs)
  then obtain qs where qs: "length qs = length cs - 1" "\<And>z. rpoly cs z = (z - a) * rpoly qs z + rpoly cs a"
    "rpoly cs a = 0 \<Longrightarrow> set qs \<subseteq> {0} \<Longrightarrow> set cs \<subseteq> {0}" by blast
  show ?case
  proof (cases cs)
    case Nil
    then show ?thesis by (intro exI [of _ "[]"]) simp
  next
    case (Cons d ds)
    have "rpoly (c # cs) z = (z - a) * rpoly (rpoly cs a # qs) z + rpoly (c # cs) a" for z
      unfolding rpoly.simps qs(2) [of z] by (simp add: algebra_simps)
    moreover have "set (c # cs) \<subseteq> {0}" if "rpoly (c # cs) a = 0" "set (rpoly cs a # qs) \<subseteq> {0}"
      using qs(3) that by simp
    moreover have "length (rpoly cs a # qs) = length (c # cs) - 1" using qs(1) Cons by simp
    ultimately show ?thesis by blast
  qed
qed simp

lemma rpoly_zeros:
  assumes "length cs \<le> card X" "finite X" "\<forall>z \<in> X. rpoly cs z = 0"
  shows "set cs \<subseteq> {0}"
  using assms
proof (induction "length cs" arbitrary: cs X)
  case (Suc n)
  then obtain a where a: "a \<in> X" by (metis card.empty equals0I le_zero_eq nat.distinct(1))
  obtain qs where qs: "length qs = length cs - 1" "\<forall>z. rpoly cs z = (z - a) * rpoly qs z + rpoly cs a"
    "rpoly cs a = 0 \<longrightarrow> set qs \<subseteq> {0} \<longrightarrow> set cs \<subseteq> {0}"
    using rpoly_factor [of cs a] by (elim exE conjE) (rule that)
  have "rpoly cs a = 0" using Suc.prems(3) a by blast
  moreover have "rpoly qs z = 0" if "z \<in> X - {a}" for z
  proof -
    have "(z - a) * rpoly qs z = 0" using spec [OF qs(2), of z] Suc.prems(3) that \<open>rpoly cs a = 0\<close> by simp
    then show ?thesis using that by (simp add: residue_mult_eq_0)
  qed
  then have "set qs \<subseteq> {0}"
    using Suc.hyps qs(1) Suc.prems(1,2) a by (intro Suc.hyps(1) [of qs "X - {a}"]) simp_all
  ultimately show ?case using qs(3) by blast
qed simp

lemma evaluate_unique:
  assumes "length ds = length cs" "finite X" "length cs \<le> card X" "\<forall>z \<in> X. evaluate ds z = evaluate cs z"
  shows "map res ds = map res cs"
proof -
  have diff: "rpoly (map2 (-) as bs) z = rpoly as z - rpoly bs z" if "length as = length bs" for as bs z
    using that
  proof (induction as bs rule: list_induct2)
    case (Cons a as b bs)
    have "rpoly (map2 (-) (a # as) (b # bs)) z = a - b + z * (rpoly as z - rpoly bs z)" by (simp add: Cons.IH)
    then show ?case by (simp add: algebra_simps)
  qed simp
  let ?ds = "map2 (-) (map res ds) (map res cs)"
  have "\<forall>z \<in> X. rpoly ?ds z = 0" using assms(1,4) by (simp add: diff evaluate_rpoly)
  then have zero: "set ?ds \<subseteq> {0}" using assms by (intro rpoly_zeros [of _ X]) simp_all
  show ?thesis
  proof (rule nth_equalityI)
    fix i
    assume i: "i < length (map res ds)"
    then have "?ds ! i \<in> set ?ds" using assms(1) by (intro nth_mem) simp
    then show "map res ds ! i = map res cs ! i" using zero i assms(1) by auto
  qed (simp add: assms(1))
qed

section \<open>Properties\<close>

definition polynomial_at :: "nat list \<Rightarrow> nat \<Rightarrow> nat" where
  "polynomial_at cs x = (\<Sum>i<length cs. cs ! i * x ^ i) mod PLAINTEXT_MODULUS"

lemma res_polynomial_at: "res (polynomial_at cs x) = evaluate cs (res x)"
  by (simp add: polynomial_at_def evaluate_def)

text \<open>
  C33. Interpolation at distinct points never fails, and its polynomial is the only list of as many
  canonical coefficients as there are points that takes the given values at them.
\<close>

theorem interpolation_is_exact:
  assumes "length vs = length points" "points \<noteq> []" "distinct points"
    and "\<forall>p \<in> set points. p < PLAINTEXT_MODULUS" "\<forall>v \<in> set vs. v < PLAINTEXT_MODULUS"
  shows "\<exists>cs. interpolate points vs = Some cs
    \<and> (\<forall>ds. length ds = length points \<and> (\<forall>d \<in> set ds. d < PLAINTEXT_MODULUS)
          \<and> (\<forall>m < length points. polynomial_at ds (points ! m) = vs ! m) \<longleftrightarrow> ds = cs)"
proof -
  obtain cs where cs: "interpolate points vs = Some cs" "length cs = length points" "\<forall>c \<in> set cs. c < PLAINTEXT_MODULUS"
    "\<forall>m < length points. evaluate cs (res (points ! m)) = res (vs ! m)"
    using interpolate_takes_values [OF assms] by blast
  have at: "polynomial_at ds (points ! m) = vs ! m \<longleftrightarrow> evaluate ds (res (points ! m)) = res (vs ! m)"
    if "m < length points" for ds m
  proof -
    have "vs ! m < PLAINTEXT_MODULUS" "polynomial_at ds (points ! m) < PLAINTEXT_MODULUS"
      using assms(1,5) that by (simp_all add: polynomial_at_def)
    then show ?thesis using res_inject res_polynomial_at by metis
  qed
  have "ds = cs" if ds: "length ds = length points" "\<forall>d \<in> set ds. d < PLAINTEXT_MODULUS"
    "\<forall>m < length points. polynomial_at ds (points ! m) = vs ! m" for ds
  proof -
    have "inj_on res (set points)" using assms(4) by (auto simp: inj_on_def res_inject)
    then have "card (res ` set points) = length points" using assms(3) by (simp add: card_image distinct_card)
    moreover have "\<forall>z \<in> res ` set points. evaluate ds z = evaluate cs z"
      using ds(3) cs(4) at by (auto simp: in_set_conv_nth)
    ultimately have "map res ds = map res cs" using ds(1) cs(2) by (intro evaluate_unique [of _ _ "res ` set points"]) simp_all
    moreover have "inj_on res (set ds \<union> set cs)" using ds(2) cs(3) by (auto simp: inj_on_def res_inject)
    ultimately show ?thesis by (simp only: inj_on_map_eq_map)
  qed
  then show ?thesis using cs at by blast
qed

theorem interpolation_is_exact_witness:
  "\<exists>cs. interpolate [1, 2, 3] [5, 0, 7] = Some cs \<and> map (polynomial_at cs) [1, 2, 3] = [5, 0, 7]"
proof -
  have "\<exists>cs. interpolate [1, 2, 3] [5, 0, 7] = Some cs
    \<and> (\<forall>ds. length ds = length [1 :: nat, 2, 3] \<and> (\<forall>d \<in> set ds. d < PLAINTEXT_MODULUS)
          \<and> (\<forall>m < length [1 :: nat, 2, 3]. polynomial_at ds ([1, 2, 3] ! m) = [5, 0, 7] ! m) \<longleftrightarrow> ds = cs)"
    by (rule interpolation_is_exact) (simp_all add: PLAINTEXT_MODULUS_def)
  then obtain cs where cs: "interpolate [1, 2, 3] [5, 0, 7] = Some cs"
    "\<forall>m < length [1 :: nat, 2, 3]. polynomial_at cs ([1, 2, 3] ! m) = [5, 0, 7] ! m" by blast
  from cs(2) have "polynomial_at cs 1 = 5" "polynomial_at cs 2 = 0" "polynomial_at cs 3 = 7"
    by (auto dest: spec [of _ 0] spec [of _ 1] spec [of _ 2])
  with cs(1) show ?thesis by simp
qed

end
