(* ===== verification/Ranking_Plaintext.thy ===== *)
theory Ranking_Plaintext
  imports Plaintext_Slots Interpolation Manifest
begin

text \<open>
  The plaintexts of the encrypted ranking: the packing of a ballot's scores
  (\<open>ballot-encryption/src/packing.rs\<close>) and the parameters of the ranking program
  (\<open>encrypted-ranking/src/ranking-plaintext.rs\<close>), with the values their slots hold.
\<close>

section \<open>Packing a ballot\<close>

datatype packing_refusal = Options | Scores | Capacity

definition check_scores :: "bytes \<Rightarrow> nat list \<Rightarrow> (packing_refusal + unit) option" where
  "check_scores TABLE scores = do {
     range \<leftarrow> option_range TABLE;
     Some (if \<not> range_contains range (length scores) then Inl Options
           else if \<exists>score \<in> set scores. \<not> (MINIMUM_SCORE \<le> score \<and> score \<le> MAXIMUM_SCORE) then Inl Scores
           else Inr ()) }"

definition comparison_slots :: "nat list \<Rightarrow> nat \<Rightarrow> nat \<Rightarrow> nat list" where
  "comparison_slots scores window slots =
     fold (\<lambda>(option, opponent) vs.
         vs[option * window + opponent :=
              nat (2 * (int (scores ! opponent) - int (scores ! option)) mod int PLAINTEXT_MODULUS)])
       (concat (map (\<lambda>option. map (Pair option) [0..<length scores]) [0..<length scores])) (replicate slots 0)"

text \<open>The outer \<open>None\<close> is an assertion of the encoding that fails; it does not occur.\<close>

definition encode_with_degree :: "bytes \<Rightarrow> nat list \<Rightarrow> nat \<Rightarrow> (packing_refusal + int list) option" where
  "encode_with_degree TABLE scores degree = do {
     checked \<leftarrow> check_scores TABLE scores;
     case checked of Inl e \<Rightarrow> Some (Inl e) | Inr _ \<Rightarrow>
       if \<not> is_power_of_two degree \<or> \<not> (16 \<le> degree \<and> degree \<le> DEGREE) then Some (Inl Capacity) else do {
         encoding \<leftarrow> encoding_degree degree;
         let window = next_power_of_two (length scores);
         let active = length scores * window;
         if active > encoding div 4 then Some (Inl Capacity) else do {
           let slots = comparison_slots scores window (encoding div 4);
           let complementary = scores @ replicate (encoding div 4 - length scores) 0;
           coefficients \<leftarrow> encode_orbits slots complementary degree;
           Some (Inr coefficients) } } }"

definition packing_encode :: "bytes \<Rightarrow> nat list \<Rightarrow> (packing_refusal + int list) option" where
  "packing_encode TABLE scores = encode_with_degree TABLE scores DEGREE"

section \<open>The parameters of the program\<close>

definition plaintext_encode :: "nat list \<Rightarrow> int list option" where
  "plaintext_encode slots = encode_slots slots DEGREE"

definition comparison_points :: "profile \<Rightarrow> nat list" where
  "comparison_points p =
     map (\<lambda>index. nat ((2 * int index - int (comparison_degree p)) mod int PLAINTEXT_MODULUS)) [0..<Suc (comparison_degree p)]"

definition comparison_values :: "profile \<Rightarrow> nat list" where
  "comparison_values p = map (\<lambda>index. if 2 * index > comparison_degree p then 1 else 0) [0..<Suc (comparison_degree p)]"

definition rank_equality :: "profile \<Rightarrow> nat \<Rightarrow> nat list option" where
  "rank_equality p requested =
     interpolate [0..<options p] (map (\<lambda>rank. if rank = requested then 1 else 0) [0..<options p])"

definition slot_rank :: "profile \<Rightarrow> nat \<Rightarrow> nat" where
  "slot_rank p position = (rank_window p - position mod rank_window p) mod rank_window p"

definition ranking_slots :: "profile \<Rightarrow> nat list list \<Rightarrow> nat \<Rightarrow> nat \<Rightarrow> nat list" where
  "ranking_slots p equality top_count exponent =
     map (\<lambda>position. if slot_rank p position < top_count then equality ! slot_rank p position ! exponent else 0)
       [0..<ACTIVE_SLOTS]"

definition offset_slots :: "profile \<Rightarrow> nat list option" where
  "offset_slots p =
     (let later = concat (map (\<lambda>option. map (\<lambda>opponent. option * rank_window p + opponent) [0..<option]) [0..<options p]) in
      if \<exists>index \<in> set later. ACTIVE_SLOTS \<le> index then None
      else Some (fold (\<lambda>index vs. vs[index := 1]) later (replicate ACTIVE_SLOTS (PLAINTEXT_MODULUS - 1))))"

text \<open>Every assertion of the source is a \<open>None\<close>.\<close>

definition parameters :: "profile \<Rightarrow> nat \<Rightarrow> (int list \<times> int list list \<times> int list) option" where
  "parameters p top_count =
     (if \<not> (1 \<le> top_count \<and> top_count \<le> options p) then None else do {
        comparison \<leftarrow> interpolate (comparison_points p) (comparison_values p);
        if comparison ! 0 \<noteq> power_mod 2 (PLAINTEXT_MODULUS - 2)
           \<or> (\<exists>(index, v) \<in> set (enumerate 0 comparison). \<not> (index = 0 \<or> index mod 2 = 1 \<or> v = 0)) then None
        else do {
          equality \<leftarrow> those (map (rank_equality p) [0..<options p]);
          ranking \<leftarrow> those (map (\<lambda>exponent. plaintext_encode (ranking_slots p equality top_count exponent)) [0..<options p]);
          offset \<leftarrow> offset_slots p;
          offset \<leftarrow> plaintext_encode offset;
          Some (map centered comparison, ranking, offset) } })"

definition rank_mask :: "profile \<Rightarrow> int list option" where
  "rank_mask p =
     plaintext_encode (map (\<lambda>position. if position mod rank_window p = 0 then 1 else 0) [0..<ACTIVE_SLOTS])"

definition padding_correction :: "profile \<Rightarrow> int list option" where
  "padding_correction p =
     plaintext_encode (map (\<lambda>position.
         if position mod rank_window p = 0 \<and> position div rank_window p \<ge> options p then PLAINTEXT_MODULUS - 1 else 0)
       [0..<ACTIVE_SLOTS])"

section \<open>The slots of a plaintext\<close>

text \<open>The value in a slot of the first orbit, or of the mirrored one.\<close>

definition slot_value :: "int list \<Rightarrow> bool \<Rightarrow> nat \<Rightarrow> residue" where
  "slot_value cs mirrored s =
     (case odd_power_values (map canonical cs) of None \<Rightarrow> 0
      | Some vs \<Rightarrow> let position = slot_positions ENCODING_DEGREE ! s in
          res (vs ! (if mirrored then ENCODING_DEGREE div 2 - 1 - position else position)))"

lemma degree_encoding: "encoding_degree DEGREE = Some ENCODING_DEGREE"
  using is_power_of_two_power [of 16] by (simp add: encoding_degree_def DEGREE_def ENCODING_DEGREE_def)

lemma encoded_slots:
  assumes "length primary = ACTIVE_SLOTS" "length complementary = ACTIVE_SLOTS"
    and "\<forall>v \<in> set primary \<union> set complementary. v < PLAINTEXT_MODULUS"
  shows "\<exists>cs. encode_orbits primary complementary DEGREE = Some cs \<and> length cs = DEGREE
    \<and> (\<forall>s < ACTIVE_SLOTS. slot_value cs False s = res (primary ! s) \<and> slot_value cs True s = res (complementary ! s))"
proof -
  have m: "ENCODING_DEGREE = 2 ^ (10 + 2)" "ACTIVE_SLOTS = 2 ^ 10" "ENCODING_DEGREE div 2 = 2 ^ Suc 10"
    "16 * 2 ^ (10 + 2) = DEGREE" by (simp_all add: ENCODING_DEGREE_def ACTIVE_SLOTS_def DEGREE_def)
  have lens: "length primary = 2 ^ 10" "length complementary = 2 ^ 10" using assms(1,2) by (simp_all only: m)
  note P = place_orbits [OF lens assms(3)]
  obtain cs where cs: "encode_orbits primary complementary DEGREE = Some cs" "length cs = DEGREE"
    "odd_power_values (map canonical cs) = Some (place_orbits (2 ^ (10 + 2)) primary complementary)"
    using orbits_read_back [OF m(4) _ _ degree_encoding [unfolded m(1)] lens assms(3)] by (auto simp del: power_Suc)
  have "slot_value cs False s = res (primary ! s) \<and> slot_value cs True s = res (complementary ! s)" if "s < ACTIVE_SLOTS" for s
    using P(3,4) [of s] that unfolding slot_value_def cs(3) Let_def m by simp
  then show ?thesis using cs(1,2) by blast
qed

lemma plaintext_slots:
  assumes "length slots = ACTIVE_SLOTS" "\<forall>v \<in> set slots. v < PLAINTEXT_MODULUS"
  shows "\<exists>cs. plaintext_encode slots = Some cs
    \<and> (\<forall>s < ACTIVE_SLOTS. slot_value cs False s = res (slots ! s) \<and> slot_value cs True s = 0)"
proof -
  have "\<forall>v \<in> set slots \<union> set (replicate ACTIVE_SLOTS 0). v < PLAINTEXT_MODULUS"
    using assms(2) by (auto simp: PLAINTEXT_MODULUS_def)
  from encoded_slots [OF assms(1) _ this] show ?thesis
    using assms(1) by (auto simp: plaintext_encode_def encode_slots_def)
qed

text \<open>What the profile's counts are known to satisfy: the bounds of the supported table.\<close>

definition rankable :: "profile \<Rightarrow> bool" where
  "rankable p \<longleftrightarrow> 2 \<le> options p \<and> options p \<le> 20 \<and> 1 \<le> participants p \<and> participants p \<le> 20"

lemma window_bounds:
  assumes "rankable p"
  shows "options p \<le> rank_window p" "rank_window p dvd ACTIVE_SLOTS" "0 < rank_window p"
    "options p * rank_window p < ACTIVE_SLOTS" "rank_window p \<le> 32"
proof -
  have options: "0 < options p - 1" "options p - 1 \<le> 19" using assms unfolding rankable_def by linarith+
  have w: "bit_length (options p - 1) \<le> 5" "options p \<le> 2 ^ bit_length (options p - 1)"
  proof -
    have "(2 :: nat) ^ bit_length (options p - 1) < 2 ^ 6" using bit_length_lower [OF options(1)] options(2) by simp
    then have "bit_length (options p - 1) < 6" by (rule power_less_imp_less_exp [rotated]) simp
    then show "bit_length (options p - 1) \<le> 5" by simp
    show "options p \<le> 2 ^ bit_length (options p - 1)" using bit_length_upper [of "options p - 1"] by simp
  qed
  show "options p \<le> rank_window p" using w(2) by (simp add: rank_window_def next_power_of_two_def)
  show "0 < rank_window p" by (simp add: rank_window_def next_power_of_two_def)
  have "(2 :: nat) ^ bit_length (options p - 1) dvd 2 ^ 10" using w(1) by (intro le_imp_power_dvd) simp
  then show "rank_window p dvd ACTIVE_SLOTS"
    by (simp add: rank_window_def next_power_of_two_def ACTIVE_SLOTS_def ENCODING_DEGREE_def)
  have small: "rank_window p \<le> 2 ^ 5"
    using w(1) by (simp only: rank_window_def next_power_of_two_def) (intro power_increasing, simp_all)
  then show "rank_window p \<le> 32" by simp
  have "options p * rank_window p \<le> 20 * 2 ^ 5" using assms small by (intro mult_le_mono) (simp_all add: rankable_def)
  then show "options p * rank_window p < ACTIVE_SLOTS" by (simp add: ACTIVE_SLOTS_def ENCODING_DEGREE_def)
qed

section \<open>The comparison polynomial\<close>

text \<open>The odd points of the comparison, as integers.\<close>

definition odd_point :: "profile \<Rightarrow> nat \<Rightarrow> int" where
  "odd_point p index = 2 * int index - int (comparison_degree p)"

lemma comparison_bounds:
  assumes "rankable p"
  shows "odd (comparison_degree p)" "comparison_degree p \<le> 361" "18 * participants p + 1 = comparison_degree p"
  using assms by (simp_all add: comparison_degree_def MAXIMUM_SCORE_def rankable_def)

lemma res_of_int: "res (nat (z mod int PLAINTEXT_MODULUS)) = of_int z"
  by (rule res_int [symmetric])

lemma of_int_residue_inject:
  assumes "\<bar>a\<bar> \<le> 1000" "\<bar>b\<bar> \<le> 1000"
  shows "(of_int a :: residue) = of_int b \<longleftrightarrow> a = b"
proof
  assume "(of_int a :: residue) = of_int b"
  then have "nat (a mod int PLAINTEXT_MODULUS) = nat (b mod int PLAINTEXT_MODULUS)"
    unfolding res_of_int [symmetric] by (subst (asm) res_inject) (simp_all add: nat_less_iff)
  then have "a mod int PLAINTEXT_MODULUS = b mod int PLAINTEXT_MODULUS"
    by (metis eq_nat_nat_iff modulus_positive of_nat_0_less_iff pos_mod_sign)
  then have "int PLAINTEXT_MODULUS dvd a - b" by (simp add: mod_eq_dvd_iff)
  then have "a - b \<noteq> 0 \<Longrightarrow> \<bar>int PLAINTEXT_MODULUS\<bar> \<le> \<bar>a - b\<bar>" by (rule dvd_imp_le_int [rotated])
  then show "a = b" using assms unfolding PLAINTEXT_MODULUS_def by linarith
qed simp

lemma comparison_points_facts:
  assumes "rankable p"
  defines "n \<equiv> Suc (comparison_degree p)"
  shows "length (comparison_points p) = n" "length (comparison_values p) = n"
    "\<And>i. i < n \<Longrightarrow> res (comparison_points p ! i) = of_int (odd_point p i)"
    "\<And>i. i < n \<Longrightarrow> comparison_values p ! i = (if odd_point p i > 0 then 1 else 0)"
    "distinct (comparison_points p)" "\<forall>x \<in> set (comparison_points p). x < PLAINTEXT_MODULUS"
    "\<forall>v \<in> set (comparison_values p). v < PLAINTEXT_MODULUS"
proof -
  show "length (comparison_points p) = n" "length (comparison_values p) = n"
    by (simp_all add: comparison_points_def comparison_values_def n_def)
  show point: "res (comparison_points p ! i) = of_int (odd_point p i)" if "i < n" for i
    using that by (simp only: comparison_points_def n_def length_upt nth_map nth_upt)
      (simp add: odd_point_def res_of_int del: upt_Suc)
  show "comparison_values p ! i = (if odd_point p i > 0 then 1 else 0)" if "i < n" for i
    using that by (simp add: comparison_values_def odd_point_def n_def del: upt_Suc)
  show "\<forall>x \<in> set (comparison_points p). x < PLAINTEXT_MODULUS"
    by (simp add: comparison_points_def nat_less_iff del: upt_Suc)
  show "\<forall>v \<in> set (comparison_values p). v < PLAINTEXT_MODULUS"
    by (auto simp: comparison_values_def PLAINTEXT_MODULUS_def simp del: upt_Suc)
  have "i = j" if "i < n" "j < n" "comparison_points p ! i = comparison_points p ! j" for i j
  proof -
    have "(of_int (odd_point p i) :: residue) = of_int (odd_point p j)"
      using point [OF that(1)] point [OF that(2)] that(3) by simp
    then have "odd_point p i = odd_point p j"
      using comparison_bounds(2) [OF assms(1)] that(1,2)
      by (subst (asm) of_int_residue_inject) (simp_all add: odd_point_def n_def abs_le_iff)
    then show ?thesis by (simp add: odd_point_def)
  qed
  then show "distinct (comparison_points p)"
    unfolding distinct_conv_nth \<open>length (comparison_points p) = n\<close> by blast
qed

text \<open>Twice a residue vanishes only with it.\<close>

lemma double_zero: "x + x = 0 \<Longrightarrow> x = 0" for x :: residue
proof -
  assume "x + x = 0"
  then have "res 2 * x = 0" by (simp only: of_nat_numeral mult_2)
  moreover have "res 2 \<noteq> 0" unfolding res_0_iff by (simp add: PLAINTEXT_MODULUS_def)
  ultimately show "x = 0" by (simp only: residue_mult_eq_0) simp
qed

lemma rpoly_symmetric:
  "rpoly cs z + rpoly cs (- z) = rpoly (map (\<lambda>(i, c). if even i then c + c else 0) (enumerate 0 cs)) z"
proof -
  have "rpoly cs z + (- 1) ^ d * rpoly cs (- z)
      = rpoly (map (\<lambda>(i, c). if even i then c + c else 0) (enumerate d cs)) z" for d
  proof (induction cs arbitrary: d)
    case (Cons c cs)
    have "rpoly (c # cs) z + (- 1) ^ d * rpoly (c # cs) (- z)
        = (c + (- 1) ^ d * c) + z * (rpoly cs z + (- 1) ^ Suc d * rpoly cs (- z))"
      by (simp add: algebra_simps)
    then show ?case unfolding Cons by (cases "even d") simp_all
  qed simp
  from this [of 0] show ?thesis by simp
qed

lemma comparison_polynomial:
  assumes "rankable p"
  shows "\<exists>cs. interpolate (comparison_points p) (comparison_values p) = Some cs \<and> length cs = Suc (comparison_degree p)
    \<and> (\<forall>c \<in> set cs. c < PLAINTEXT_MODULUS) \<and> cs ! 0 = power_mod 2 (PLAINTEXT_MODULUS - 2)
    \<and> (\<forall>i < length cs. i \<noteq> 0 \<longrightarrow> even i \<longrightarrow> cs ! i = 0)
    \<and> (\<forall>i \<le> comparison_degree p. evaluate cs (of_int (odd_point p i)) = (if odd_point p i > 0 then 1 else 0))"
proof -
  let ?n = "comparison_degree p"
  note F = comparison_points_facts [OF assms] and b = comparison_bounds [OF assms]
  have "comparison_points p \<noteq> []" using F(1) by auto
  then obtain cs where cs: "interpolate (comparison_points p) (comparison_values p) = Some cs" "length cs = Suc ?n"
    "\<forall>c \<in> set cs. c < PLAINTEXT_MODULUS"
    "\<And>m. m < Suc ?n \<Longrightarrow> evaluate cs (res (comparison_points p ! m)) = res (comparison_values p ! m)"
    using interpolate_takes_values [OF _ _ F(5-7)] F(1,2) by auto
  have at: "evaluate cs (of_int (odd_point p i)) = (if odd_point p i > 0 then 1 else 0)" if "i \<le> ?n" for i
    using cs(4) [of i] F(3,4) [of i] that by (simp split: if_splits)
  define ds where "ds = map (\<lambda>(i, c). if even i then c + c else 0) (enumerate 0 (map res cs))"
  have lends: "length ds = Suc ?n" by (simp add: ds_def cs(2))
  let ?X = "(\<lambda>i. of_int (odd_point p i)) ` {..?n} :: residue set"
  have "inj_on (\<lambda>i. of_int (odd_point p i) :: residue) {..?n}"
  proof (rule inj_onI)
    fix i j
    assume "i \<in> {..?n}" "j \<in> {..?n}" "(of_int (odd_point p i) :: residue) = of_int (odd_point p j)"
    then have "odd_point p i = odd_point p j"
      using b(2) by (subst (asm) of_int_residue_inject) (simp_all add: odd_point_def abs_le_iff)
    then show "i = j" by (simp add: odd_point_def)
  qed
  then have card: "card ?X = Suc ?n" by (simp add: card_image)
  obtain e es where es: "ds = e # es" using lends by (cases ds) simp_all
  have zero: "rpoly ((e - 1) # es) z = 0" if mem: "z \<in> ?X" for z
  proof -
    from mem obtain i where "i \<in> {..?n}" and z: "z = of_int (odd_point p i)" by blast
    then have i: "i \<le> ?n" "z = of_int (odd_point p i)" by simp_all
    have mirror: "odd_point p (?n - i) = - odd_point p i" using i(1) by (simp add: odd_point_def of_nat_diff)
    then have "- z = of_int (odd_point p (?n - i))" using i(2) by simp
    moreover have "odd (odd_point p i)" using b(1) by (simp add: odd_point_def)
    then have "odd_point p i \<noteq> 0" by (intro notI) simp
    ultimately have "evaluate cs z + evaluate cs (- z) = 1"
      using at [OF i(1)] at [of "?n - i"] mirror i(2) by auto
    then have "rpoly ds z = 1" unfolding evaluate_rpoly rpoly_symmetric ds_def .
    then show ?thesis by (simp add: es algebra_simps)
  qed
  then have "set ((e - 1) # es) \<subseteq> {0}" using lends card by (intro rpoly_zeros [of _ ?X]) (simp_all add: es)
  then have e: "e = 1" "\<forall>x \<in> set es. x = 0" by auto
  have coefficient: "ds ! i = (if even i then res (cs ! i) + res (cs ! i) else 0)" if "i \<le> ?n" for i
    using that cs(2) by (simp add: ds_def nth_enumerate_eq)
  have "cs ! i = 0" if "i < length cs" "i \<noteq> 0" "even i" for i
  proof -
    have "ds ! i \<in> set es" using that lends cs(2) by (cases i) (simp_all add: es)
    then have "res (cs ! i) + res (cs ! i) = 0" using e(2) coefficient [of i] that cs(2) by simp
    then have "res (cs ! i) = res 0" by (simp add: double_zero)
    then show ?thesis using cs(3) that(1) by (subst (asm) res_inject) (simp_all add: PLAINTEXT_MODULUS_def)
  qed
  moreover have "cs ! 0 = power_mod 2 (PLAINTEXT_MODULUS - 2)"
  proof -
    have two: "res 2 \<noteq> 0" unfolding res_0_iff by (simp add: PLAINTEXT_MODULUS_def)
    have "res (cs ! 0) + res (cs ! 0) = 1" using coefficient [of 0] e(1) es by simp
    then have "res 2 * res (cs ! 0) = 1" by (simp only: of_nat_numeral mult_2)
    then have "res 2 * (res (cs ! 0) - res 2 ^ (PLAINTEXT_MODULUS - 2)) = 0"
      using res_inverse [OF two] by (simp only: right_diff_distrib diff_self)
    then have "res (cs ! 0) - res 2 ^ (PLAINTEXT_MODULUS - 2) = 0"
      unfolding residue_mult_eq_0 using two by blast
    then have "res (cs ! 0) = res (power_mod 2 (PLAINTEXT_MODULUS - 2))"
      by (simp only: right_minus_eq res_power)
    moreover have "cs ! 0 < PLAINTEXT_MODULUS" using cs(2,3) by (metis nth_mem zero_less_Suc)
    ultimately show ?thesis by (simp only: res_inject power_bounded)
  qed
  ultimately show ?thesis using cs(1-3) at by blast
qed

section \<open>The parameters exist\<close>

lemma rank_equality_value:
  assumes "rankable p" "requested < options p"
  shows "\<exists>cs. rank_equality p requested = Some cs \<and> length cs = options p \<and> (\<forall>c \<in> set cs. c < PLAINTEXT_MODULUS)
    \<and> (\<forall>rank < options p. evaluate cs (res rank) = (if rank = requested then 1 else 0))"
proof -
  have small: "options p < PLAINTEXT_MODULUS" using assms(1) unfolding rankable_def PLAINTEXT_MODULUS_def by linarith
  let ?points = "[0..<options p]" and ?vs = "map (\<lambda>rank. if rank = requested then 1 else 0) [0..<options p] :: nat list"
  have "\<exists>cs. interpolate ?points ?vs = Some cs \<and> length cs = length ?points \<and> (\<forall>c \<in> set cs. c < PLAINTEXT_MODULUS)
    \<and> (\<forall>m < length ?points. evaluate cs (res (?points ! m)) = res (?vs ! m))"
    using assms small by (intro interpolate_takes_values) (auto simp: PLAINTEXT_MODULUS_def)
  then show ?thesis unfolding rank_equality_def by auto
qed

lemma those_map: "(\<And>x. x \<in> set xs \<Longrightarrow> f x = Some (g x)) \<Longrightarrow> those (map f xs) = Some (map g xs)"
  by (induction xs) simp_all

lemma those_choice:
  assumes "\<And>x. x < n \<Longrightarrow> \<exists>y. f x = Some y \<and> P x y"
  shows "\<exists>ys. those (map f [0..<n]) = Some ys \<and> length ys = n \<and> (\<forall>x < n. P x (ys ! x))"
proof -
  obtain g where "\<And>x. x < n \<Longrightarrow> f x = Some (g x) \<and> P x (g x)" using assms by metis
  then show ?thesis using those_map [of "[0..<n]" f g] by (intro exI [of _ "map g [0..<n]"]) simp
qed

text \<open>The entries of the offset.\<close>

lemma fold_update:
  "(\<forall>i \<in> set is. i < length vs) \<Longrightarrow>
    length (fold (\<lambda>i vs. vs[i := c]) is vs) = length vs
    \<and> (\<forall>k < length vs. fold (\<lambda>i vs. vs[i := c]) is vs ! k = (if k \<in> set is then c else vs ! k))"
  by (induction "is" arbitrary: vs) (auto simp: nth_list_update)

definition earlier :: "profile \<Rightarrow> nat \<Rightarrow> bool" where
  "earlier p s \<longleftrightarrow> (\<exists>option < options p. \<exists>opponent < option. s = option * rank_window p + opponent)"

lemma offset_slots_value:
  assumes "rankable p"
  shows "\<exists>offset. offset_slots p = Some offset \<and> length offset = ACTIVE_SLOTS
    \<and> (\<forall>v \<in> set offset. v < PLAINTEXT_MODULUS)
    \<and> (\<forall>s < ACTIVE_SLOTS. offset ! s = (if earlier p s then 1 else PLAINTEXT_MODULUS - 1))"
proof -
  note w = window_bounds [OF assms]
  let ?later = "concat (map (\<lambda>option. map (\<lambda>opponent. option * rank_window p + opponent) [0..<option]) [0..<options p])"
  let ?vs = "replicate ACTIVE_SLOTS (PLAINTEXT_MODULUS - 1)"
  have later: "set ?later = {s. earlier p s}"
  proof (intro set_eqI iffI)
    fix s assume "s \<in> set ?later"
    then obtain option where "option < options p" "option * rank_window p \<le> s" "s < option + option * rank_window p" by auto
    then have "option < options p \<and> s - option * rank_window p < option \<and> s = option * rank_window p + (s - option * rank_window p)"
      by simp
    then show "s \<in> {s. earlier p s}" unfolding earlier_def by blast
  next
    fix s assume "s \<in> {s. earlier p s}"
    then obtain option opponent where "option < options p" "opponent < option" "s = option * rank_window p + opponent"
      unfolding earlier_def mem_Collect_eq by blast
    then show "s \<in> set ?later" by (auto intro!: bexI [of _ option])
  qed
  have inside: "s < ACTIVE_SLOTS" if e: "earlier p s" for s
  proof -
    obtain option opponent where s: "option < options p" "opponent < option" "s = option * rank_window p + opponent"
      using e unfolding earlier_def by blast
    then have "s < Suc option * rank_window p" using w(1) by simp
    also have "\<dots> \<le> options p * rank_window p" using s(1) by (intro mult_le_mono1) simp
    finally show ?thesis using w(4) by simp
  qed
  let ?offset = "fold (\<lambda>index vs. vs[index := 1]) ?later ?vs"
  have u: "length ?offset = ACTIVE_SLOTS"
    "\<And>s. s < ACTIVE_SLOTS \<Longrightarrow> ?offset ! s = (if earlier p s then 1 else PLAINTEXT_MODULUS - 1)"
    using fold_update [of ?later ?vs 1] inside unfolding later by simp_all
  have "offset_slots p = Some ?offset"
    unfolding offset_slots_def Let_def later using inside by (auto simp: not_le)
  moreover have "\<forall>v \<in> set ?offset. v < PLAINTEXT_MODULUS"
    using u by (auto simp: in_set_conv_nth PLAINTEXT_MODULUS_def)
  ultimately show ?thesis using u by blast
qed

text \<open>What the parameters of a profile hold, slot by slot.\<close>

definition good_parameters :: "profile \<Rightarrow> nat \<Rightarrow> int list \<Rightarrow> int list list \<Rightarrow> int list \<Rightarrow> bool" where
  "good_parameters p top_count comparison ranking offset \<longleftrightarrow>
     length comparison = Suc (comparison_degree p)
     \<and> (\<forall>i \<le> comparison_degree p. i \<noteq> 0 \<longrightarrow> even i \<longrightarrow> (of_int (comparison ! i) :: residue) = 0)
     \<and> (\<forall>i \<le> comparison_degree p. (\<Sum>j\<le>comparison_degree p. of_int (comparison ! j) * of_int (odd_point p i) ^ j)
          = (if odd_point p i > 0 then 1 else 0 :: residue))
     \<and> length ranking = options p
     \<and> (\<forall>s < ACTIVE_SLOTS. \<forall>rank < options p. (\<Sum>e<options p. slot_value (ranking ! e) False s * res rank ^ e)
          = (if slot_rank p s < top_count \<and> rank = slot_rank p s then 1 else 0))
     \<and> (\<forall>s < ACTIVE_SLOTS. \<forall>e < options p. slot_value (ranking ! e) True s = 0)
     \<and> (\<forall>s < ACTIVE_SLOTS. slot_value offset False s = (if earlier p s then 1 else - 1) \<and> slot_value offset True s = 0)"

lemma res_minus_one: "res (PLAINTEXT_MODULUS - 1) = - 1"
  by (simp add: of_nat_diff Suc_leI)

lemma parameters_good:
  assumes p: "rankable p" and top: "1 \<le> top_count" "top_count \<le> options p"
  shows "\<exists>comparison ranking offset. parameters p top_count = Some (comparison, ranking, offset)
    \<and> good_parameters p top_count comparison ranking offset"
proof -
  let ?n = "comparison_degree p"
  obtain cs where cs: "interpolate (comparison_points p) (comparison_values p) = Some cs" "length cs = Suc ?n"
    "\<forall>c \<in> set cs. c < PLAINTEXT_MODULUS" "cs ! 0 = power_mod 2 (PLAINTEXT_MODULUS - 2)"
    "\<forall>i < length cs. i \<noteq> 0 \<longrightarrow> even i \<longrightarrow> cs ! i = 0"
    "\<forall>i \<le> ?n. evaluate cs (of_int (odd_point p i)) = (if odd_point p i > 0 then 1 else 0)"
    using comparison_polynomial [OF p] by (elim exE conjE) (rule that)
  have "index = 0 \<or> index mod 2 = 1 \<or> v = 0" if "(index, v) \<in> set (enumerate 0 cs)" for index v
    using that cs(5) by (cases "even index") (auto simp: in_set_enumerate_eq mod_2_eq_odd)
  then have shape: "\<not> (\<exists>(index, v) \<in> set (enumerate 0 cs). \<not> (index = 0 \<or> index mod 2 = 1 \<or> v = 0))"
    by (auto simp only: split_paired_all prod.case)
  obtain equality where eq: "those (map (rank_equality p) [0..<options p]) = Some equality" "length equality = options p"
    "\<forall>r < options p. length (equality ! r) = options p \<and> (\<forall>c \<in> set (equality ! r). c < PLAINTEXT_MODULUS)
      \<and> (\<forall>rank < options p. evaluate (equality ! r) (res rank) = (if rank = r then 1 else 0))"
    using those_choice [of "options p" "rank_equality p", OF rank_equality_value [OF p], simplified] by (elim exE conjE) (rule that)
  let ?slots = "ranking_slots p equality top_count"
  have slot: "?slots e ! s = (if slot_rank p s < top_count then equality ! slot_rank p s ! e else 0)"
    if "s < ACTIVE_SLOTS" for s e
    using that by (simp add: ranking_slots_def)
  have bounded: "?slots e ! s < PLAINTEXT_MODULUS" if "e < options p" "s < ACTIVE_SLOTS" for e s
  proof (cases "slot_rank p s < top_count")
    case True
    then have "slot_rank p s < options p" using top(2) by simp
    then have "equality ! slot_rank p s ! e \<in> set (equality ! slot_rank p s)"
      "\<forall>c \<in> set (equality ! slot_rank p s). c < PLAINTEXT_MODULUS" using eq(3) that(1) by simp_all
    then show ?thesis using slot [OF that(2)] True by simp
  qed (simp add: slot [OF that(2)])
  have lens: "length (?slots e) = ACTIVE_SLOTS" for e by (simp add: ranking_slots_def)
  have "\<exists>y. plaintext_encode (?slots e) = Some y \<and> (\<forall>s < ACTIVE_SLOTS. slot_value y False s = res (?slots e ! s) \<and> slot_value y True s = 0)"
    if "e < options p" for e
    using bounded [OF that] lens [of e] by (intro plaintext_slots) (auto simp: in_set_conv_nth)
  then have "\<exists>ys. those (map (\<lambda>e. plaintext_encode (?slots e)) [0..<options p]) = Some ys \<and> length ys = options p
      \<and> (\<forall>e < options p. \<forall>s < ACTIVE_SLOTS. slot_value (ys ! e) False s = res (?slots e ! s) \<and> slot_value (ys ! e) True s = 0)"
    by (rule those_choice)
  then obtain ranking where ranking: "those (map (\<lambda>e. plaintext_encode (?slots e)) [0..<options p]) = Some ranking"
    "length ranking = options p"
    "\<forall>e < options p. \<forall>s < ACTIVE_SLOTS. slot_value (ranking ! e) False s = res (?slots e ! s) \<and> slot_value (ranking ! e) True s = 0"
    by (elim exE conjE) (rule that)
  obtain slots where slots: "offset_slots p = Some slots" "length slots = ACTIVE_SLOTS" "\<forall>v \<in> set slots. v < PLAINTEXT_MODULUS"
    "\<forall>s < ACTIVE_SLOTS. slots ! s = (if earlier p s then 1 else PLAINTEXT_MODULUS - 1)"
    using offset_slots_value [OF p] by (elim exE conjE) (rule that)
  obtain offset where offset: "plaintext_encode slots = Some offset"
    "\<forall>s < ACTIVE_SLOTS. slot_value offset False s = res (slots ! s) \<and> slot_value offset True s = 0"
    using plaintext_slots [OF slots(2,3)] by (elim exE conjE) (rule that)
  have "parameters p top_count = Some (map centered cs, ranking, offset)"
    unfolding parameters_def using top cs(1,4) shape eq(1) ranking(1) slots(1) offset(1) by (simp only: bind.bind_lunit) simp
  moreover have "good_parameters p top_count (map centered cs) ranking offset"
    unfolding good_parameters_def
  proof (intro conjI allI impI)
    show "length (map centered cs) = Suc ?n" using cs(2) by simp
    show "length ranking = options p" by (rule ranking(2))
    show "(of_int (map centered cs ! i) :: residue) = 0" if "i \<le> ?n" "i \<noteq> 0" "even i" for i
      using that cs(2,5) by (simp add: res_centered)
    show "(\<Sum>j\<le>?n. of_int (map centered cs ! j) * of_int (odd_point p i) ^ j) = (if odd_point p i > 0 then 1 else 0 :: residue)"
      if "i \<le> ?n" for i
    proof -
      have "(\<Sum>j\<le>?n. of_int (map centered cs ! j) * of_int (odd_point p i) ^ j) = evaluate cs (of_int (odd_point p i))"
        unfolding evaluate_def cs(2) lessThan_Suc_atMost using cs(2) by (intro sum.cong) (simp_all add: res_centered)
      then show ?thesis using cs(6) that by simp
    qed
    show "(\<Sum>e<options p. slot_value (ranking ! e) False s * res rank ^ e)
        = (if slot_rank p s < top_count \<and> rank = slot_rank p s then 1 else 0)" if s: "s < ACTIVE_SLOTS" and rank: "rank < options p" for s rank
    proof (cases "slot_rank p s < top_count")
      case True
      then have r: "slot_rank p s < options p" using top(2) by simp
      have "(\<Sum>e<options p. slot_value (ranking ! e) False s * res rank ^ e) = evaluate (equality ! slot_rank p s) (res rank)"
        unfolding evaluate_def using eq(3) r ranking(3) s slot [OF s] True by (intro sum.cong) simp_all
      then show ?thesis using eq(3) r rank True by simp
    next
      case False
      then show ?thesis using ranking(3) s slot [OF s] by (simp add: sum.neutral)
    qed
    show "slot_value (ranking ! e) True s = 0" if "s < ACTIVE_SLOTS" "e < options p" for s e using ranking(3) that by blast
    show "slot_value offset False s = (if earlier p s then 1 else - 1)" "slot_value offset True s = 0" if "s < ACTIVE_SLOTS" for s
      using offset(2) slots(4) that by (simp_all add: res_minus_one del: One_nat_def)
  qed
  ultimately show ?thesis by blast
qed

lemma rank_mask_value:
  "\<exists>cs. rank_mask p = Some cs
    \<and> (\<forall>s < ACTIVE_SLOTS. slot_value cs False s = (if s mod rank_window p = 0 then 1 else 0) \<and> slot_value cs True s = 0)"
proof -
  let ?slots = "map (\<lambda>position. if position mod rank_window p = 0 then 1 else 0) [0..<ACTIVE_SLOTS] :: nat list"
  have "\<forall>v \<in> set ?slots. v < PLAINTEXT_MODULUS" by (auto simp: PLAINTEXT_MODULUS_def)
  from plaintext_slots [OF _ this] show ?thesis by (auto simp: rank_mask_def)
qed

lemma padding_correction_value:
  "\<exists>cs. padding_correction p = Some cs
    \<and> (\<forall>s < ACTIVE_SLOTS. slot_value cs False s = (if s mod rank_window p = 0 \<and> s div rank_window p \<ge> options p then - 1 else 0)
         \<and> slot_value cs True s = 0)"
proof -
  let ?slots = "map (\<lambda>position. if position mod rank_window p = 0 \<and> position div rank_window p \<ge> options p
      then PLAINTEXT_MODULUS - 1 else 0) [0..<ACTIVE_SLOTS]"
  have "\<forall>v \<in> set ?slots. v < PLAINTEXT_MODULUS" by (auto simp: PLAINTEXT_MODULUS_def)
  from plaintext_slots [OF _ this] show ?thesis
    by (auto simp: padding_correction_def res_minus_one simp del: One_nat_def)
qed

end
