(* ===== verification/Ranking_Program.thy ===== *)
theory Ranking_Program
  imports Ranking_Plaintext
begin

text \<open>
  The ranking program (\<open>evaluation-target/src/program.rs\<close>): the builder, which appends
  instructions whose inputs are earlier instructions, and the program of a profile and
  a requested result length.  Every assertion of the source is a \<open>None\<close>.

  The lemmas follow the builder: an operation extends the program, keeps what its
  instructions compute, leaves no value unused but its result, and computes an
  arithmetic expression of its arguments.  The locale \<open>slotwise\<close> states what
  an interpretation of the instructions has to satisfy.
\<close>

section \<open>The builder\<close>

definition COMPARISON_BLOCK_WIDTH :: nat where "COMPARISON_BLOCK_WIDTH = 16"

record instruction =
  operation :: nat
  inputs :: "nat list"
  parameter :: nat

type_synonym builder = "instruction list"
type_synonym cache = "nat option list"

definition builder_append :: "builder \<Rightarrow> nat \<Rightarrow> nat list \<Rightarrow> nat \<Rightarrow> (nat \<times> builder) option" where
  "builder_append b code sources argument =
     (if \<forall>input \<in> set sources. input < length b
      then Some (length b, b @ [\<lparr>operation = code, inputs = sources, parameter = argument\<rparr>]) else None)"

fun sum_from :: "builder \<Rightarrow> nat \<Rightarrow> nat list \<Rightarrow> (nat \<times> builder) option" where
  "sum_from b left [] = Some (left, b)"
| "sum_from b left (right # rest) = do {
     (left, b) \<leftarrow> builder_append b 1 [left, right] 0;
     sum_from b left rest }"

definition builder_sum :: "builder \<Rightarrow> nat list \<Rightarrow> (nat \<times> builder) option" where
  "builder_sum b vs = (case vs of [] \<Rightarrow> None | v # rest \<Rightarrow> sum_from b v rest)"

lemma halves: "e div 2 + div_ceil e 2 = e" "1 < e \<Longrightarrow> div_ceil e 2 < e" "1 < e \<Longrightarrow> 0 < e div 2" "0 < e \<Longrightarrow> e div 2 < e"
  unfolding div_ceil_def by (simp_all split: if_splits) presburger+

text \<open>
  The exponent one without a cached value fails as its lower half does: zero is no exponent.
\<close>

function builder_power :: "builder \<Rightarrow> cache \<Rightarrow> nat \<Rightarrow> (nat \<times> builder \<times> cache) option" where
  "builder_power b cache exponent =
     (if \<not> (0 < exponent \<and> exponent < length cache) then None
      else case cache ! exponent of Some v \<Rightarrow> Some (v, b, cache)
      | None \<Rightarrow> if exponent = 1 then None else do {
          (left, b, cache) \<leftarrow> builder_power b cache (exponent div 2);
          (right, b, cache) \<leftarrow> builder_power b cache (div_ceil exponent 2);
          (v, b) \<leftarrow> builder_append b 2 [left, right] 0;
          Some (v, b, cache[exponent := Some v]) })"
  by pat_completeness auto
termination
  by (relation "measure (\<lambda>(b, cache, exponent). exponent)") (simp_all add: halves)

declare builder_power.simps [simp del]

text \<open>A length of zero, which halving a power of two never reaches, does not end in the source.\<close>

fun combine_blocks :: "builder \<Rightarrow> nat \<Rightarrow> nat \<Rightarrow> nat list \<Rightarrow> cache \<Rightarrow> (nat option \<times> builder \<times> cache) option" where
  "combine_blocks b offset len blocks powers =
     (if offset \<ge> length blocks then Some (None, b, powers)
      else if len = 1 then Some (Some (blocks ! offset), b, powers)
      else if len = 0 then None
      else do {
        (lower, b, powers) \<leftarrow> combine_blocks b offset (len div 2) blocks powers;
        lower \<leftarrow> lower;
        (upper, b, powers) \<leftarrow> combine_blocks b (offset + len div 2) (len div 2) blocks powers;
        case upper of None \<Rightarrow> Some (Some lower, b, powers)
        | Some upper \<Rightarrow> do {
            (power, b, powers) \<leftarrow> builder_power b powers (COMPARISON_BLOCK_WIDTH * len div 2);
            (weighted, b) \<leftarrow> builder_append b 2 [power, upper] 0;
            (combined, b) \<leftarrow> builder_append b 1 [lower, weighted] 0;
            Some (Some combined, b, powers) } })"

declare combine_blocks.simps [simp del]

fun weigh_terms :: "builder \<Rightarrow> cache \<Rightarrow> nat \<Rightarrow> nat list \<Rightarrow> (nat list \<times> builder \<times> cache) option" where
  "weigh_terms b powers block [] = Some ([], b, powers)"
| "weigh_terms b powers block (index # indices) = do {
     (power, b, powers) \<leftarrow> builder_power b powers (2 * index + 1);
     (v, b) \<leftarrow> builder_append b 3 [power] (COMPARISON_BLOCK_WIDTH * block + 2 * index + 1);
     (vs, b, powers) \<leftarrow> weigh_terms b powers block indices;
     Some (v # vs, b, powers) }"

fun comparison_blocks :: "builder \<Rightarrow> cache \<Rightarrow> nat \<Rightarrow> nat list \<Rightarrow> (nat list \<times> builder \<times> cache) option" where
  "comparison_blocks b powers degree [] = Some ([], b, powers)"
| "comparison_blocks b powers degree (block # rest) = do {
     let last = min (COMPARISON_BLOCK_WIDTH - 1) (degree - COMPARISON_BLOCK_WIDTH * block);
     (terms, b, powers) \<leftarrow> weigh_terms b powers block [0..<div_ceil last 2];
     (v, b) \<leftarrow> builder_sum b terms;
     (vs, b, powers) \<leftarrow> comparison_blocks b powers degree rest;
     Some (v # vs, b, powers) }"

text \<open>The cache whose entry one is given; an access beyond a shorter cache fails.\<close>

definition first_power :: "nat \<Rightarrow> nat \<Rightarrow> cache option" where
  "first_power len v = (if 1 < len then Some ((replicate len None)[1 := Some v]) else None)"

definition builder_comparison :: "builder \<Rightarrow> nat \<Rightarrow> nat \<Rightarrow> (nat \<times> builder) option" where
  "builder_comparison b input degree = do {
     powers \<leftarrow> first_power (degree + 1) input;
     (blocks, b, powers) \<leftarrow> comparison_blocks b powers degree [0..<div_ceil (degree + 1) COMPARISON_BLOCK_WIDTH];
     (combined, b, powers) \<leftarrow> combine_blocks b 0 (next_power_of_two (length blocks)) blocks powers;
     combined \<leftarrow> combined;
     Some (combined, b) }"

section \<open>The program of a profile\<close>

fun append_inputs :: "builder \<Rightarrow> nat list \<Rightarrow> (nat list \<times> builder) option" where
  "append_inputs b [] = Some ([], b)"
| "append_inputs b (position # rest) = do {
     (v, b) \<leftarrow> builder_append b 0 [] position;
     (vs, b) \<leftarrow> append_inputs b rest;
     Some (v # vs, b) }"

fun shift_sum :: "builder \<Rightarrow> nat \<Rightarrow> nat \<Rightarrow> nat \<Rightarrow> (nat \<times> builder) option" where
  "shift_sum b 0 shifted rank = Some (rank, b)"
| "shift_sum b (Suc n) shifted rank = do {
     (shifted, b) \<leftarrow> builder_append b 6 [shifted] 0;
     (rank, b) \<leftarrow> builder_append b 1 [rank, shifted] 0;
     shift_sum b n shifted rank }"

fun rank_terms :: "builder \<Rightarrow> cache \<Rightarrow> nat \<Rightarrow> nat list \<Rightarrow> (nat list \<times> builder \<times> cache) option" where
  "rank_terms b powers base [] = Some ([], b, powers)"
| "rank_terms b powers base (exponent # rest) = do {
     (power, b, powers) \<leftarrow> builder_power b powers exponent;
     (v, b) \<leftarrow> builder_append b 4 [power] (base + exponent);
     (vs, b, powers) \<leftarrow> rank_terms b powers base rest;
     Some (v # vs, b, powers) }"

text \<open>
  The instructions of the program and its result: everything \<open>for_profile\<close> builds
  before it encodes.
\<close>

definition ranking_instructions :: "profile \<Rightarrow> nat \<Rightarrow> (nat \<times> builder) option" where
  "ranking_instructions p top_count = do {
     (ballots, b) \<leftarrow> append_inputs [] [0..<participants p];
     (total, b) \<leftarrow> builder_sum b ballots;
     (input, b) \<leftarrow> builder_append b 5 [total] 0;
     (polynomial, b) \<leftarrow> builder_comparison b input (comparison_degree p);
     (comparison, b) \<leftarrow> builder_append b 5 [polynomial] 1;
     (rank, b) \<leftarrow> shift_sum b (rank_window p - 1) comparison comparison;
     (rank, b) \<leftarrow> builder_append b 4 [rank] 0;
     (rank, b) \<leftarrow> shift_sum b (top_count - 1) rank rank;
     powers \<leftarrow> first_power (options p) rank;
     let base = (if top_count = options p then 0 else options p * top_count);
     (terms, b, powers) \<leftarrow> rank_terms b powers base [1..<options p];
     (total, b) \<leftarrow> builder_sum b terms;
     (ranked, b) \<leftarrow> builder_append b 5 [total] (if top_count = options p then 2 else 2 + top_count);
     builder_append b 5 [ranked] (options p + 3) }"

section \<open>What instructions compute\<close>

text \<open>
  An interpretation gives the value of an instruction from its operation, its parameter
  and the values of its inputs.
\<close>

definition outputs :: "(nat \<Rightarrow> nat \<Rightarrow> 'v list \<Rightarrow> 'v) \<Rightarrow> instruction list \<Rightarrow> 'v list" where
  "outputs f is = fold (\<lambda>i vs. vs @ [f (operation i) (parameter i) (map ((!) vs) (inputs i))]) is []"

lemma outputs_Nil [simp]: "outputs f [] = []"
  by (simp add: outputs_def)

lemma outputs_snoc: "outputs f (is @ [i]) = outputs f is @ [f (operation i) (parameter i) (map ((!) (outputs f is)) (inputs i))]"
  by (simp add: outputs_def)

lemma length_outputs [simp]: "length (outputs f is) = length is"
  by (induction "is" rule: rev_induct) (simp_all add: outputs_snoc)

lemma outputs_prefix: "k < length is \<Longrightarrow> outputs f (is @ rest) ! k = outputs f is ! k"
proof (induction rest rule: rev_induct)
  case (snoc i rest)
  then show ?case unfolding append_assoc [symmetric] outputs_snoc by (simp add: nth_append)
qed simp

text \<open>Instructions are in order when their inputs are earlier ones.\<close>

definition ordered_inputs :: "instruction list \<Rightarrow> bool" where
  "ordered_inputs is \<longleftrightarrow> (\<forall>k < length is. \<forall>j \<in> set (inputs (is ! k)). j < k)"

lemma outputs_nth:
  assumes "ordered_inputs is" "k < length is"
  shows "outputs f is ! k = f (operation (is ! k)) (parameter (is ! k)) (map ((!) (outputs f is)) (inputs (is ! k)))"
proof -
  have split: "is = take k is @ [is ! k] @ drop (Suc k) is" using assms(2) by (simp add: id_take_nth_drop)
  have before: "outputs f is ! j = outputs f (take k is) ! j" if "j < k" for j
    using outputs_prefix [of j "take k is" f "[is ! k] @ drop (Suc k) is"] split that assms(2) by simp
  have "outputs f is ! k = outputs f (take k is @ [is ! k]) ! k"
    using outputs_prefix [of k "take k is @ [is ! k]" f "drop (Suc k) is"] split assms(2) by simp
  also have "\<dots> = f (operation (is ! k)) (parameter (is ! k)) (map ((!) (outputs f (take k is))) (inputs (is ! k)))"
    using assms(2) by (simp add: outputs_snoc nth_append)
  also have "map ((!) (outputs f (take k is))) (inputs (is ! k)) = map ((!) (outputs f is)) (inputs (is ! k))"
    using assms before by (auto simp: ordered_inputs_def)
  finally show ?thesis .
qed

text \<open>The values no instruction uses.\<close>

definition loose :: "instruction list \<Rightarrow> nat set" where
  "loose is = {k. k < length is \<and> (\<forall>i \<in> set is. k \<notin> set (inputs i))}"

section \<open>Extending a program\<close>

text \<open>
  From one program to a later one that begins with it: the new instructions satisfy \<open>P\<close>,
  inputs are earlier instructions, the values \<open>used\<close> are used and the only new unused ones are
  \<open>made\<close>.
\<close>

definition grows :: "(instruction \<Rightarrow> bool) \<Rightarrow> builder \<Rightarrow> nat set \<Rightarrow> nat set \<Rightarrow> builder \<Rightarrow> bool" where
  "grows P b used made b' \<longleftrightarrow>
     (\<exists>rest. b' = b @ rest \<and> (\<forall>i \<in> set rest. P i))
     \<and> (ordered_inputs b \<longrightarrow> ordered_inputs b') \<and> loose b' \<subseteq> made \<union> (loose b - used)"

lemma grows_length: "grows P b used made b' \<Longrightarrow> length b \<le> length b'"
  by (auto simp: grows_def)

lemma grows_outputs: "grows P b used made b' \<Longrightarrow> k < length b \<Longrightarrow> outputs f b' ! k = outputs f b ! k"
  by (auto simp: grows_def outputs_prefix)

lemma grows_trans:
  assumes "grows P b used made b'" "grows P b' used' made' b''"
  shows "grows P b (used \<union> used') (made' \<union> (made - used')) b''"
proof -
  obtain r1 r2 where "b' = b @ r1" "b'' = b' @ r2" "\<forall>i \<in> set r1. P i" "\<forall>i \<in> set r2. P i"
    using assms unfolding grows_def by blast
  then have "b'' = b @ (r1 @ r2) \<and> (\<forall>i \<in> set (r1 @ r2). P i)" by auto
  then have "\<exists>rest. b'' = b @ rest \<and> (\<forall>i \<in> set rest. P i)" by blast
  then show ?thesis using assms unfolding grows_def by blast
qed

lemma grows_weaken:
  assumes "grows P b used made b'" "used' \<subseteq> used \<union> made'" "made \<subseteq> made'"
  shows "grows P b used' made' b'"
  using assms unfolding grows_def by blast

lemma grows_refl [simp]: "used \<subseteq> made \<Longrightarrow> grows P b used made b"
  by (auto simp: grows_def)

lemma append_grows:
  assumes "\<forall>input \<in> set sources. input < length b" "P \<lparr>operation = code, inputs = sources, parameter = argument\<rparr>"
  shows "\<exists>b'. builder_append b code sources argument = Some (length b, b') \<and> length b' = Suc (length b)
    \<and> grows P b (set sources) {length b} b'
    \<and> outputs f b' ! length b = f code argument (map ((!) (outputs f b)) sources)"
proof -
  let ?i = "\<lparr>operation = code, inputs = sources, parameter = argument\<rparr>"
  have "ordered_inputs (b @ [?i])" if "ordered_inputs b"
    using that assms(1) by (auto simp: ordered_inputs_def nth_append less_Suc_eq)
  moreover have "loose (b @ [?i]) \<subseteq> {length b} \<union> (loose b - set sources)" by (auto simp: loose_def)
  ultimately have "grows P b (set sources) {length b} (b @ [?i])" using assms(2) by (simp add: grows_def)
  then show ?thesis using assms(1) by (simp add: builder_append_def outputs_snoc nth_append)
qed

text \<open>
  The instructions that a program of a profile and a requested length may have after its
  inputs.
\<close>

definition coefficient_family :: "profile \<Rightarrow> nat \<Rightarrow> nat" where
  "coefficient_family p top_count = (if top_count = options p then 0 else top_count)"

definition legal :: "profile \<Rightarrow> nat \<Rightarrow> instruction \<Rightarrow> bool" where
  "legal p top_count i \<longleftrightarrow>
     (operation i \<in> {1, 2} \<and> length (inputs i) = 2 \<and> parameter i = 0)
     \<or> (operation i = 3 \<and> length (inputs i) = 1 \<and> odd (parameter i) \<and> parameter i \<le> comparison_degree p)
     \<or> (operation i = 4 \<and> length (inputs i) = 1 \<and> (parameter i = 0
          \<or> (\<exists>e. 0 < e \<and> e < options p \<and> parameter i = options p * coefficient_family p top_count + e)))
     \<or> (operation i = 5 \<and> length (inputs i) = 1
          \<and> parameter i \<in> {0, 1, 2 + coefficient_family p top_count, options p + 3})
     \<or> (operation i = 6 \<and> length (inputs i) = 1 \<and> parameter i = 0)"

section \<open>The operations of the builder\<close>

type_synonym slots = "bool \<Rightarrow> nat \<Rightarrow> residue"

text \<open>A cache of powers: the entries filled so far are powers of the base.\<close>

definition cached :: "(nat \<Rightarrow> nat \<Rightarrow> slots list \<Rightarrow> slots) \<Rightarrow> builder \<Rightarrow> cache \<Rightarrow> nat \<Rightarrow> slots \<Rightarrow> bool" where
  "cached f b cache base x \<longleftrightarrow> 1 < length cache \<and> cache ! 1 = Some base
     \<and> (\<forall>e < length cache. \<forall>v. cache ! e = Some v \<longrightarrow> v < length b \<and> (\<forall>m s. (outputs f b ! v) m s = x m s ^ e))"

definition unfilled :: "cache \<Rightarrow> nat" where
  "unfilled cache = length (filter (\<lambda>c. c = None) cache)"

lemma unfilled_update:
  assumes "e < length cache" "cache ! e = None"
  shows "Suc (unfilled (cache[e := Some v])) = unfilled cache"
proof -
  have "unfilled cache = unfilled (take e cache @ cache ! e # drop (Suc e) cache)"
    using id_take_nth_drop [OF assms(1)] by simp
  also have "\<dots> = unfilled (take e cache) + Suc (unfilled (drop (Suc e) cache))"
    using assms(2) by (simp add: unfilled_def)
  finally have "unfilled cache = unfilled (take e cache) + Suc (unfilled (drop (Suc e) cache))" .
  moreover have "unfilled (cache[e := Some v]) = unfilled (take e cache) + unfilled (drop (Suc e) cache)"
    using assms(1) by (simp add: unfilled_def upd_conv_take_nth_drop)
  ultimately show ?thesis by simp
qed

lemma cached_start: "base < length b \<Longrightarrow> 1 < n \<Longrightarrow> cached f b ((replicate n None)[1 := Some base]) base (outputs f b ! base)"
  by (auto simp: cached_def nth_list_update)

lemma cached_grows: "cached f b cache base x \<Longrightarrow> grows P b used made b' \<Longrightarrow> cached f b' cache base x"
  unfolding cached_def using grows_length [of P b used made b'] grows_outputs [of P b used made b' _ f]
  by (metis order_less_le_trans)

lemma cached_fill:
  assumes "cached f b cache base x" "e < length cache" "e \<noteq> 1" "v < length b" "\<And>m s. (outputs f b ! v) m s = x m s ^ e"
  shows "cached f b (cache[e := Some v]) base x"
  using assms unfolding cached_def by (auto simp: nth_list_update)

locale slotwise =
  fixes f :: "nat \<Rightarrow> nat \<Rightarrow> slots list \<Rightarrow> slots"
    and scale :: "nat \<Rightarrow> residue"
    and weight :: "nat \<Rightarrow> slots"
    and shift :: "nat \<Rightarrow> slots"
  assumes add: "f 1 0 [a, b] m s = a m s + b m s"
    and multiplied: "f 2 0 [a, b] m s = a m s * b m s"
    and scaled: "f 3 j [a] m s = scale j * a m s"
    and weighed: "f 4 j [a] m s = weight j m s * a m s"
    and moved: "f 5 j [a] m s = a m s + shift j m s"
    and rotated: "f 6 0 [a] m s = a m (Suc s mod ACTIVE_SLOTS)"
begin

abbreviation out :: "builder \<Rightarrow> nat \<Rightarrow> slots" where
  "out b k \<equiv> outputs f b ! k"

lemma sum_from_grows:
  assumes "\<forall>v \<in> set vs. v < length b" "left < length b"
    and P: "\<And>x y. P \<lparr>operation = 1, inputs = [x, y], parameter = 0\<rparr>"
  shows "\<exists>r b'. sum_from b left vs = Some (r, b') \<and> r < length b' \<and> length b' = length b + length vs
    \<and> grows P b (insert left (set vs)) {r} b'
    \<and> (\<forall>m s. out b' r m s = out b left m s + (\<Sum>v\<leftarrow>vs. out b v m s))"
  using assms(1,2)
proof (induction vs arbitrary: b left)
  case (Cons v vs)
  obtain b1 where b1: "builder_append b 1 [left, v] 0 = Some (length b, b1)" "length b1 = Suc (length b)"
    "grows P b (set [left, v]) {length b} b1" "out b1 (length b) = f 1 0 (map ((!) (outputs f b)) [left, v])"
    using append_grows [of "[left, v]" b P 1 0 f] Cons.prems P by auto
  note keep = grows_outputs [OF b1(3), of _ f]
  obtain r b' where r: "sum_from b1 (length b) vs = Some (r, b')" "r < length b'" "length b' = length b1 + length vs"
    "grows P b1 (insert (length b) (set vs)) {r} b'"
    "\<forall>m s. out b' r m s = out b1 (length b) m s + (\<Sum>v\<leftarrow>vs. out b1 v m s)"
    using Cons.IH [of b1 "length b"] Cons.prems b1(2) by (auto simp: less_Suc_eq)
  have "grows P b (insert left (set (v # vs))) {r} b'"
    by (rule grows_weaken [OF grows_trans [OF b1(3) r(4)]]) auto
  moreover have "(\<Sum>v\<leftarrow>vs. out b1 v m s) = (\<Sum>v\<leftarrow>vs. out b v m s)" for m s
    using keep Cons.prems(1) by (intro arg_cong [of _ _ sum_list] map_cong) simp_all
  then have "\<forall>m s. out b' r m s = out b left m s + (\<Sum>v\<leftarrow>v # vs. out b v m s)"
    unfolding r(5) [rule_format] b1(4) by (simp add: add [simplified] add.assoc)
  ultimately show ?case using b1(1,2) r(1-3) by (simp del: One_nat_def)
qed simp

lemma builder_sum_grows:
  assumes "vs \<noteq> []" "\<forall>v \<in> set vs. v < length b" "\<And>x y. P \<lparr>operation = 1, inputs = [x, y], parameter = 0\<rparr>"
  shows "\<exists>r b'. builder_sum b vs = Some (r, b') \<and> r < length b' \<and> Suc (length b') = length b + length vs
    \<and> grows P b (set vs) {r} b' \<and> (\<forall>m s. out b' r m s = (\<Sum>v\<leftarrow>vs. out b v m s))"
  using assms(1,2) sum_from_grows [of "tl vs" b "hd vs" P, OF _ _ assms(3)] by (cases vs) (auto simp: builder_sum_def)

lemma power_grows:
  assumes "cached f b cache base x" "0 < e" "e < length cache"
    and P: "\<And>x y. P \<lparr>operation = 2, inputs = [x, y], parameter = 0\<rparr>"
  shows "\<exists>r b' cache'. builder_power b cache e = Some (r, b', cache') \<and> grows P b {} {r} b' \<and> r < length b'
    \<and> cached f b' cache' base x \<and> length cache' = length cache \<and> length b' + unfilled cache' = length b + unfilled cache
    \<and> (\<forall>k > e. k < length cache \<longrightarrow> cache' ! k = cache ! k) \<and> (\<forall>m s. out b' r m s = x m s ^ e)"
  using assms(1-3)
proof (induction e arbitrary: b cache rule: less_induct)
  case (less e)
  show ?case
  proof (cases "cache ! e")
    case (Some v)
    then have "builder_power b cache e = Some (v, b, cache)" using less.prems by (subst builder_power.simps) simp
    then show ?thesis using less.prems Some unfolding cached_def by auto
  next
    case None
    then have "e \<noteq> 1" using less.prems(1) unfolding cached_def by auto
    then have e: "e \<noteq> 1" "1 < e" using less.prems(2) by simp_all
    have half: "e div 2 < e" "0 < e div 2" "e div 2 < length cache" "div_ceil e 2 < e" "0 < div_ceil e 2"
      using halves [of e] e(2) less.prems(3) by simp_all
    obtain r1 b1 c1 where 1: "builder_power b cache (e div 2) = Some (r1, b1, c1)" "grows P b {} {r1} b1" "r1 < length b1"
      "cached f b1 c1 base x" "length c1 = length cache" "length b1 + unfilled c1 = length b + unfilled cache"
      "\<forall>k > e div 2. k < length cache \<longrightarrow> c1 ! k = cache ! k" "\<forall>m s. out b1 r1 m s = x m s ^ (e div 2)"
      using less.IH [OF half(1) less.prems(1) half(2,3)] by (elim exE conjE) (rule that)
    have half: "div_ceil e 2 < e" "0 < div_ceil e 2" "div_ceil e 2 < length c1"
      using half less.prems(3) 1(5) by simp_all
    obtain r2 b2 c2 where 2: "builder_power b1 c1 (div_ceil e 2) = Some (r2, b2, c2)" "grows P b1 {} {r2} b2" "r2 < length b2"
      "cached f b2 c2 base x" "length c2 = length c1" "length b2 + unfilled c2 = length b1 + unfilled c1"
      "\<forall>k > div_ceil e 2. k < length c1 \<longrightarrow> c2 ! k = c1 ! k" "\<forall>m s. out b2 r2 m s = x m s ^ div_ceil e 2"
      using less.IH [OF half(1) 1(4) half(2,3)] by (elim exE conjE) (rule that)
    have r1: "r1 < length b2" using 1(3) grows_length [OF 2(2)] by simp
    then obtain b3 where 3: "builder_append b2 2 [r1, r2] 0 = Some (length b2, b3)" "length b3 = Suc (length b2)"
      "grows P b2 (set [r1, r2]) {length b2} b3" "out b3 (length b2) = f 2 0 (map ((!) (outputs f b2)) [r1, r2])"
      using append_grows [of "[r1, r2]" b2 P 2 0 f] 2(3) P by auto
    have v: "out b3 (length b2) m s = x m s ^ e" for m s
      using 1(8) 2(8) grows_outputs [OF 2(2) 1(3), of f] halves(1) [of e] by (simp add: 3(4) multiplied flip: power_add)
    have keep: "c2 ! k = cache ! k" if "k \<ge> e" "k < length cache" for k
      using 1(7) 2(7) that halves(2,4) [of e] e(2) 1(5) by simp
    have "builder_power b cache e = Some (length b2, b3, c2[e := Some (length b2)])"
      using less.prems None e 1(1) 2(1) 3(1) by (subst builder_power.simps) simp
    moreover have "cached f b3 (c2[e := Some (length b2)]) base x"
      using cached_grows [OF 2(4) 3(3)] e(1) less.prems(3) 1(5) 2(5) 3(2) v by (intro cached_fill) simp_all
    moreover have "grows P b {} {length b2} b3"
      by (rule grows_weaken [OF grows_trans [OF grows_trans [OF 1(2) 2(2)] 3(3)]]) auto
    moreover have "length b3 + unfilled (c2[e := Some (length b2)]) = length b + unfilled cache"
      using 3(2) 2(5,6) 1(5,6) unfilled_update [of e c2 "length b2"] keep [of e] None less.prems(3) by simp
    ultimately show ?thesis using 1(5) 2(5) 3(2) v keep by auto
  qed
qed

lemma power_one: "cached f b cache base x \<Longrightarrow> builder_power b cache 1 = Some (base, b, cache)"
  unfolding cached_def by (subst builder_power.simps) simp

section \<open>The comparison polynomial\<close>

lemma weigh_terms_grows:
  assumes "cached f b powers base x" "\<forall>i \<in> set indices. 2 * i + 1 < length powers"
    and P: "\<And>x y. P \<lparr>operation = 2, inputs = [x, y], parameter = 0\<rparr>"
      "\<forall>i \<in> set indices. \<forall>x. P \<lparr>operation = 3, inputs = [x], parameter = COMPARISON_BLOCK_WIDTH * block + 2 * i + 1\<rparr>"
  shows "\<exists>vs b' powers'. weigh_terms b powers block indices = Some (vs, b', powers') \<and> length vs = length indices
    \<and> (\<forall>v \<in> set vs. v < length b') \<and> cached f b' powers' base x \<and> length powers' = length powers
    \<and> length b' + unfilled powers' = length b + unfilled powers + length indices
    \<and> grows P b (if 0 \<in> set indices then {base} else {}) (set vs) b'
    \<and> (\<forall>m s. (\<Sum>v\<leftarrow>vs. out b' v m s) = (\<Sum>i\<leftarrow>indices. scale (COMPARISON_BLOCK_WIDTH * block + 2 * i + 1) * x m s ^ (2 * i + 1)))"
  using assms(1,2) P(2)
proof (induction indices arbitrary: b powers)
  case (Cons i indices)
  have exponent: "0 < 2 * i + 1" "2 * i + 1 < length powers" using Cons.prems(2) by simp_all
  obtain r b1 c1 where 1: "builder_power b powers (2 * i + 1) = Some (r, b1, c1)" "grows P b {} {r} b1" "r < length b1"
    "cached f b1 c1 base x" "length c1 = length powers" "length b1 + unfilled c1 = length b + unfilled powers"
    "\<forall>m s. out b1 r m s = x m s ^ (2 * i + 1)"
    using power_grows [where P = P, OF Cons.prems(1) exponent P(1)] by (elim exE conjE) (rule that)
  have r: "r = base" if "i = 0" using 1(1) power_one [OF Cons.prems(1)] that by simp
  obtain b2 where 2: "builder_append b1 3 [r] (COMPARISON_BLOCK_WIDTH * block + 2 * i + 1) = Some (length b1, b2)"
    "length b2 = Suc (length b1)" "grows P b1 (set [r]) {length b1} b2"
    "out b2 (length b1) = f 3 (COMPARISON_BLOCK_WIDTH * block + 2 * i + 1) (map ((!) (outputs f b1)) [r])"
    using append_grows [of "[r]" b1 P 3 "COMPARISON_BLOCK_WIDTH * block + 2 * i + 1" f] 1(3) Cons.prems(3) by auto
  have c2: "cached f b2 c1 base x" using cached_grows [OF 1(4) 2(3)] .
  have len: "\<forall>i \<in> set indices. 2 * i + 1 < length c1" using Cons.prems(2) 1(5) by simp
  have P': "\<forall>i \<in> set indices. \<forall>x. P \<lparr>operation = 3, inputs = [x], parameter = COMPARISON_BLOCK_WIDTH * block + 2 * i + 1\<rparr>"
    using Cons.prems(3) by simp
  obtain vs b' powers' where 3: "weigh_terms b2 c1 block indices = Some (vs, b', powers')" "length vs = length indices"
    "\<forall>v \<in> set vs. v < length b'" "cached f b' powers' base x" "length powers' = length c1"
    "length b' + unfilled powers' = length b2 + unfilled c1 + length indices"
    "grows P b2 (if 0 \<in> set indices then {base} else {}) (set vs) b'"
    "\<forall>m s. (\<Sum>v\<leftarrow>vs. out b' v m s) = (\<Sum>i\<leftarrow>indices. scale (COMPARISON_BLOCK_WIDTH * block + 2 * i + 1) * x m s ^ (2 * i + 1))"
    using Cons.IH [OF c2 len P'] by (elim exE conjE) (rule that)
  have "grows P b (if 0 \<in> set (i # indices) then {base} else {}) (set (length b1 # vs)) b'"
    by (rule grows_weaken [OF grows_trans [OF grows_trans [OF 1(2) 2(3)] 3(7)]]) (use r in auto)
  moreover have "out b' (length b1) m s = scale (COMPARISON_BLOCK_WIDTH * block + 2 * i + 1) * x m s ^ (2 * i + 1)" for m s
    using grows_outputs [OF 3(7), of "length b1" f] 2(2) 1(7) by (simp add: 2(4) scaled)
  moreover have "length b1 < length b'" using grows_length [OF 3(7)] 2(2) by simp
  moreover have "weigh_terms b powers block (i # indices) = Some (length b1 # vs, b', powers')"
    using 1(1) 2(1) 3(1) by simp
  ultimately show ?case using 1(5,6) 2(2) 3(2-6,8) by auto
qed simp

text \<open>The number of odd powers in a block, and the value of the block.\<close>

definition block_terms :: "nat \<Rightarrow> nat \<Rightarrow> nat" where
  "block_terms degree block = div_ceil (min (COMPARISON_BLOCK_WIDTH - 1) (degree - COMPARISON_BLOCK_WIDTH * block)) 2"

definition block_value :: "nat \<Rightarrow> residue \<Rightarrow> nat \<Rightarrow> residue" where
  "block_value degree z block =
     (\<Sum>i\<leftarrow>[0..<block_terms degree block]. scale (COMPARISON_BLOCK_WIDTH * block + 2 * i + 1) * z ^ (2 * i + 1))"

lemma block_terms_bounds:
  assumes "COMPARISON_BLOCK_WIDTH * block < degree" "odd degree"
  shows "0 < block_terms degree block" "block_terms degree block \<le> 8"
    "i < block_terms degree block \<longleftrightarrow> i < 8 \<and> COMPARISON_BLOCK_WIDTH * block + 2 * i + 1 \<le> degree"
  using assms unfolding block_terms_def div_ceil_def COMPARISON_BLOCK_WIDTH_def
  by (auto split: if_splits simp: min_def) presburger+

lemma comparison_blocks_grows:
  assumes "cached f b powers base x" "\<forall>block \<in> set blocks. COMPARISON_BLOCK_WIDTH * block < degree"
    and degree: "odd degree" "length powers = degree + 1"
    and P: "\<And>x y. P \<lparr>operation = 1, inputs = [x, y], parameter = 0\<rparr>" "\<And>x y. P \<lparr>operation = 2, inputs = [x, y], parameter = 0\<rparr>"
      "\<forall>j x. odd j \<longrightarrow> j \<le> degree \<longrightarrow> P \<lparr>operation = 3, inputs = [x], parameter = j\<rparr>"
  shows "\<exists>vs b' powers'. comparison_blocks b powers degree blocks = Some (vs, b', powers') \<and> length vs = length blocks
    \<and> (\<forall>v \<in> set vs. v < length b') \<and> cached f b' powers' base x \<and> length powers' = length powers
    \<and> length b' + unfilled powers' \<le> length b + unfilled powers + 15 * length blocks
    \<and> grows P b (if blocks \<noteq> [] then {base} else {}) (set vs) b'
    \<and> (\<forall>k < length blocks. \<forall>m s. out b' (vs ! k) m s = block_value degree (x m s) (blocks ! k))"
  using assms(1,2,4)
proof (induction blocks arbitrary: b powers)
  case (Cons block blocks)
  have block: "COMPARISON_BLOCK_WIDTH * block < degree" using Cons.prems(2) by simp
  note terms = block_terms_bounds [OF block degree(1)]
  let ?n = "block_terms degree block"
  have indices: "\<forall>i \<in> set [0..<?n]. 2 * i + 1 < length powers" using terms(3) Cons.prems(3) by auto
  have legal: "\<forall>i \<in> set [0..<?n]. \<forall>x. P \<lparr>operation = 3, inputs = [x], parameter = COMPARISON_BLOCK_WIDTH * block + 2 * i + 1\<rparr>"
    using terms(3) P(3) by (auto simp: COMPARISON_BLOCK_WIDTH_def)
  obtain ts b1 c1 where 1: "weigh_terms b powers block [0..<?n] = Some (ts, b1, c1)" "length ts = length [0..<?n]"
    "\<forall>v \<in> set ts. v < length b1" "cached f b1 c1 base x" "length c1 = length powers"
    "length b1 + unfilled c1 = length b + unfilled powers + length [0..<?n]"
    "grows P b (if 0 \<in> set [0..<?n] then {base} else {}) (set ts) b1"
    "\<forall>m s. (\<Sum>v\<leftarrow>ts. out b1 v m s) = (\<Sum>i\<leftarrow>[0..<?n]. scale (COMPARISON_BLOCK_WIDTH * block + 2 * i + 1) * x m s ^ (2 * i + 1))"
    using weigh_terms_grows [where P = P, OF Cons.prems(1) indices P(2) legal] by (elim exE conjE) (rule that)
  have some: "ts \<noteq> []" using 1(2) terms(1) by auto
  obtain r b2 where 2: "builder_sum b1 ts = Some (r, b2)" "r < length b2" "Suc (length b2) = length b1 + length ts"
    "grows P b1 (set ts) {r} b2" "\<forall>m s. out b2 r m s = (\<Sum>v\<leftarrow>ts. out b1 v m s)"
    using builder_sum_grows [where P = P, OF some 1(3) P(1)] by (elim exE conjE) (rule that)
  have c2: "cached f b2 c1 base x" using cached_grows [OF 1(4) 2(4)] .
  have rest: "\<forall>block \<in> set blocks. COMPARISON_BLOCK_WIDTH * block < degree" "length c1 = degree + 1"
    using Cons.prems(2,3) 1(5) by simp_all
  obtain vs b' powers' where 3: "comparison_blocks b2 c1 degree blocks = Some (vs, b', powers')" "length vs = length blocks"
    "\<forall>v \<in> set vs. v < length b'" "cached f b' powers' base x" "length powers' = length c1"
    "length b' + unfilled powers' \<le> length b2 + unfilled c1 + 15 * length blocks"
    "grows P b2 (if blocks \<noteq> [] then {base} else {}) (set vs) b'"
    "\<forall>k < length blocks. \<forall>m s. out b' (vs ! k) m s = block_value degree (x m s) (blocks ! k)"
    using Cons.IH [OF c2 rest] by (elim exE conjE) (rule that)
  have "grows P b (if block # blocks \<noteq> [] then {base} else {}) (set (r # vs)) b'"
    by (rule grows_weaken [OF grows_trans [OF grows_trans [OF 1(7) 2(4)] 3(7)]]) (use terms(1) in auto)
  moreover have "out b' r m s = block_value degree (x m s) block" for m s
    using grows_outputs [OF 3(7) 2(2), of f] 2(5) 1(8) by (simp add: block_value_def)
  then have "\<forall>k < length (block # blocks). \<forall>m s. out b' ((r # vs) ! k) m s = block_value degree (x m s) ((block # blocks) ! k)"
    using 3(8) by (auto simp: less_Suc_eq_0_disj)
  moreover have "comparison_blocks b powers degree (block # blocks) = Some (r # vs, b', powers')"
    using 1(1) 2(1) 3(1) by (simp add: block_terms_def Let_def)
  moreover have "length b' + unfilled powers' \<le> length b + unfilled powers + 15 * length (block # blocks)"
    using 1(2,6) 2(3) 3(6) terms(1,2) by simp
  moreover have "r < length b'" using 2(2) grows_length [OF 3(7)] by simp
  ultimately show ?case using 1(5) 3(2-5) by (intro exI conjI) (auto simp del: comparison_blocks.simps)
qed simp

text \<open>The value of consecutive blocks.\<close>

definition blocks_value :: "(nat \<Rightarrow> residue) \<Rightarrow> nat \<Rightarrow> nat \<Rightarrow> nat \<Rightarrow> residue \<Rightarrow> residue" where
  "blocks_value y count offset len z = (\<Sum>i<len. if offset + i < count then y (offset + i) * z ^ (COMPARISON_BLOCK_WIDTH * i) else 0)"

lemma blocks_value_halves:
  "blocks_value y count offset (len + len) z
    = blocks_value y count offset len z + z ^ (COMPARISON_BLOCK_WIDTH * len) * blocks_value y count (offset + len) len z"
proof -
  have "(\<Sum>i<len. if offset + (len + i) < count then y (offset + (len + i)) * z ^ (COMPARISON_BLOCK_WIDTH * (len + i)) else 0)
      = z ^ (COMPARISON_BLOCK_WIDTH * len) * blocks_value y count (offset + len) len z"
    unfolding blocks_value_def sum_distrib_left by (intro sum.cong) (simp_all add: algebra_simps power_add)
  then show ?thesis unfolding blocks_value_def sum_halves by simp
qed

lemma blocks_value_none: "count \<le> offset \<Longrightarrow> blocks_value y count offset len z = 0"
  by (simp add: blocks_value_def)

lemma combine_blocks_grows:
  assumes "cached f b powers base x" "offset < length blocks" "\<forall>v \<in> set blocks. v < length b"
    and powers: "COMPARISON_BLOCK_WIDTH * (length blocks - 1) < length powers"
    and P: "\<And>x y. P \<lparr>operation = 1, inputs = [x, y], parameter = 0\<rparr>" "\<And>x y. P \<lparr>operation = 2, inputs = [x, y], parameter = 0\<rparr>"
  shows "\<exists>r b' powers'. combine_blocks b offset (2 ^ n) blocks powers = Some (Some r, b', powers') \<and> r < length b'
    \<and> cached f b' powers' base x \<and> length powers' = length powers
    \<and> length b' + unfilled powers' + 2 \<le> length b + unfilled powers + 2 * min (2 ^ n) (length blocks - offset)
    \<and> grows P b (set (take (2 ^ n) (drop offset blocks))) {r} b'
    \<and> (\<forall>m s. out b' r m s = blocks_value (\<lambda>i. out b (blocks ! i) m s) (length blocks) offset (2 ^ n) (x m s))"
  using assms(1-4)
proof (induction n arbitrary: b offset powers)
  case 0
  have "combine_blocks b offset 1 blocks powers = Some (Some (blocks ! offset), b, powers)"
    using 0 by (subst combine_blocks.simps) simp
  moreover have "take 1 (drop offset blocks) = [blocks ! offset]"
    using 0(2) by (simp add: Cons_nth_drop_Suc [symmetric])
  ultimately show ?case using 0 by (auto simp: blocks_value_def)
next
  case (Suc n)
  have len: "(2 :: nat) ^ Suc n div 2 = 2 ^ n" "(2 :: nat) ^ Suc n \<noteq> 0" "(2 :: nat) ^ Suc n \<noteq> 1" by simp_all
  note unfold = combine_blocks.simps [of b offset "2 ^ Suc n" blocks powers, unfolded len]
  let ?y = "\<lambda>m s i. out b (blocks ! i) m s"
  obtain r1 b1 c1 where 1: "combine_blocks b offset (2 ^ n) blocks powers = Some (Some r1, b1, c1)" "r1 < length b1"
    "cached f b1 c1 base x" "length c1 = length powers"
    "length b1 + unfilled c1 + 2 \<le> length b + unfilled powers + 2 * min (2 ^ n) (length blocks - offset)"
    "grows P b (set (take (2 ^ n) (drop offset blocks))) {r1} b1"
    "\<forall>m s. out b1 r1 m s = blocks_value (?y m s) (length blocks) offset (2 ^ n) (x m s)"
    using Suc.IH [OF Suc.prems] by (elim exE conjE) (rule that)
  have halves: "set (take (2 ^ Suc n) (drop offset blocks))
      = set (take (2 ^ n) (drop offset blocks)) \<union> set (take (2 ^ n) (drop (offset + 2 ^ n) blocks))"
    by (simp add: take_add mult_2 add.commute)
  show ?case
  proof (cases "offset + 2 ^ n < length blocks")
    case False
    then have "combine_blocks b1 (offset + 2 ^ n) (2 ^ n) blocks c1 = Some (None, b1, c1)"
      by (subst combine_blocks.simps) simp
    then have "combine_blocks b offset (2 ^ Suc n) blocks powers = Some (Some r1, b1, c1)"
      using 1(1) Suc.prems(2) by (subst unfold) simp
    moreover have "blocks_value y (length blocks) offset (2 ^ Suc n) z = blocks_value y (length blocks) offset (2 ^ n) z" for y z
      using blocks_value_halves [of y "length blocks" offset "2 ^ n" z] False by (simp add: mult_2 blocks_value_none)
    ultimately show ?thesis using 1 False unfolding halves by auto
  next
    case True
    have valid: "\<forall>v \<in> set blocks. v < length b1" using Suc.prems(3) grows_length [OF 1(6)] by auto
    obtain r2 b2 c2 where 2: "combine_blocks b1 (offset + 2 ^ n) (2 ^ n) blocks c1 = Some (Some r2, b2, c2)" "r2 < length b2"
      "cached f b2 c2 base x" "length c2 = length c1"
      "length b2 + unfilled c2 + 2 \<le> length b1 + unfilled c1 + 2 * min (2 ^ n) (length blocks - (offset + 2 ^ n))"
      "grows P b1 (set (take (2 ^ n) (drop (offset + 2 ^ n) blocks))) {r2} b2"
      "\<forall>m s. out b2 r2 m s = blocks_value (\<lambda>i. out b1 (blocks ! i) m s) (length blocks) (offset + 2 ^ n) (2 ^ n) (x m s)"
      using Suc.IH [OF 1(3) True valid Suc.prems(4) [folded 1(4)]] by (elim exE conjE) (rule that)
    have exponent: "0 < COMPARISON_BLOCK_WIDTH * 2 ^ n" "COMPARISON_BLOCK_WIDTH * 2 ^ n < length c2"
    proof -
      have "COMPARISON_BLOCK_WIDTH * 2 ^ n \<le> COMPARISON_BLOCK_WIDTH * (length blocks - 1)"
        using True by (intro mult_le_mono2) simp
      also have "\<dots> < length c2" using Suc.prems(4) 1(4) 2(4) by simp
      finally show "COMPARISON_BLOCK_WIDTH * 2 ^ n < length c2" .
    qed (simp add: COMPARISON_BLOCK_WIDTH_def)
    obtain q b3 c3 where 3: "builder_power b2 c2 (COMPARISON_BLOCK_WIDTH * 2 ^ n) = Some (q, b3, c3)" "grows P b2 {} {q} b3"
      "q < length b3" "cached f b3 c3 base x" "length c3 = length c2" "length b3 + unfilled c3 = length b2 + unfilled c2"
      "\<forall>m s. out b3 q m s = x m s ^ (COMPARISON_BLOCK_WIDTH * 2 ^ n)"
      using power_grows [where P = P, OF 2(3) exponent P(2)] by (elim exE conjE) (rule that)
    have r2: "r2 < length b3" using 2(2) grows_length [OF 3(2)] by simp
    then obtain b4 where 4: "builder_append b3 2 [q, r2] 0 = Some (length b3, b4)" "length b4 = Suc (length b3)"
      "grows P b3 (set [q, r2]) {length b3} b4" "out b4 (length b3) = f 2 0 (map ((!) (outputs f b3)) [q, r2])"
      using append_grows [of "[q, r2]" b3 P 2 0 f] 3(3) P(2) by auto
    have r1: "r1 < length b4" "r1 < length b3" "r1 < length b2"
      using 1(2) grows_length [OF 2(6)] grows_length [OF 3(2)] 4(2) by simp_all
    then obtain b5 where 5: "builder_append b4 1 [r1, length b3] 0 = Some (length b4, b5)" "length b5 = Suc (length b4)"
      "grows P b4 (set [r1, length b3]) {length b4} b5"
      "out b5 (length b4) = f 1 0 (map ((!) (outputs f b4)) [r1, length b3])"
      using append_grows [of "[r1, length b3]" b4 P 1 0 f] 4(2) P(1) by auto
    have "COMPARISON_BLOCK_WIDTH * 2 ^ Suc n div 2 = COMPARISON_BLOCK_WIDTH * 2 ^ n" by simp
    then have "combine_blocks b offset (2 ^ Suc n) blocks powers = Some (Some (length b4), b5, c3)"
      using 1(1) 2(1) 3(1) 4(1) 5(1) Suc.prems(2) by (subst unfold) simp
    moreover have "grows P b (set (take (2 ^ Suc n) (drop offset blocks))) {length b4} b5"
      by (rule grows_weaken [OF grows_trans [OF grows_trans [OF grows_trans [OF grows_trans [OF 1(6) 2(6)] 3(2)] 4(3)] 5(3)]])
        (unfold halves, auto)
    moreover have "out b5 (length b4) m s = blocks_value (?y m s) (length blocks) offset (2 ^ Suc n) (x m s)" for m s
    proof -
      have "blocks_value (\<lambda>i. out b1 (blocks ! i) m s) (length blocks) (offset + 2 ^ n) (2 ^ n) (x m s)
          = blocks_value (?y m s) (length blocks) (offset + 2 ^ n) (2 ^ n) (x m s)"
        unfolding blocks_value_def using Suc.prems(3) grows_outputs [OF 1(6), of _ f] by (intro sum.cong) simp_all
      then have "out b3 r2 m s = blocks_value (?y m s) (length blocks) (offset + 2 ^ n) (2 ^ n) (x m s)"
        using grows_outputs [OF 3(2) 2(2), of f] 2(7) by simp
      moreover have "out b4 r1 m s = blocks_value (?y m s) (length blocks) offset (2 ^ n) (x m s)"
        using grows_outputs [OF 4(3) r1(2), of f] grows_outputs [OF 3(2) r1(3), of f] grows_outputs [OF 2(6) 1(2), of f] 1(7) by simp
      ultimately show ?thesis
        using blocks_value_halves [of "?y m s" "length blocks" offset "2 ^ n" "x m s"] 3(7)
        by (simp add: 5(4) 4(4) add [simplified] multiplied mult_2)
    qed
    moreover have "length b5 + unfilled c3 + 2 \<le> length b + unfilled powers + 2 * min (2 ^ Suc n) (length blocks - offset)"
    proof -
      have "min ((2 :: nat) ^ n) (length blocks - offset) = 2 ^ n" using True by linarith
      moreover have "min ((2 :: nat) ^ Suc n) (length blocks - offset) = 2 ^ n + min (2 ^ n) (length blocks - (offset + 2 ^ n))"
        using True unfolding power_Suc by linarith
      ultimately show ?thesis using 1(5) 2(5) 3(6) 4(2) 5(2) by linarith
    qed
    ultimately show ?thesis
      using 3(4,5) 1(4) 2(4) cached_grows [OF cached_grows [OF 3(4) 4(3)] 5(3)] 5(2) by auto
  qed
qed

text \<open>The odd part of the comparison polynomial at a value.\<close>

definition compare_value :: "nat \<Rightarrow> residue \<Rightarrow> residue" where
  "compare_value degree z = (\<Sum>j\<le>degree. if odd j then scale j * z ^ j else 0)"

lemma block_value_sum:
  assumes "COMPARISON_BLOCK_WIDTH * block < degree" "odd degree"
  shows "block_value degree z block * z ^ (COMPARISON_BLOCK_WIDTH * block)
    = (\<Sum>j\<in>{block * COMPARISON_BLOCK_WIDTH..<block * COMPARISON_BLOCK_WIDTH + COMPARISON_BLOCK_WIDTH}.
        if odd j \<and> j \<le> degree then scale j * z ^ j else 0)"
proof -
  note terms = block_terms_bounds [OF assms]
  let ?g = "\<lambda>j. if odd j \<and> j \<le> degree then scale j * z ^ j else 0"
  let ?w = COMPARISON_BLOCK_WIDTH
  have w: "?w = 2 * 8" by (simp add: COMPARISON_BLOCK_WIDTH_def)
  have "(\<Sum>j\<in>{block * ?w..<block * ?w + ?w}. ?g j) = (\<Sum>j<?w. ?g (block * ?w + j))"
    by (rule sum.reindex_bij_witness [of _ "\<lambda>j. block * ?w + j" "\<lambda>j. j - block * ?w"]) auto
  also have "\<dots> = (\<Sum>i<8. ?g (block * ?w + 2 * i)) + (\<Sum>i<8. ?g (block * ?w + Suc (2 * i)))"
    unfolding w by (rule sum_even_odd)
  also have "(\<Sum>i<8. ?g (block * ?w + 2 * i)) = 0" by (intro sum.neutral) (simp add: w)
  also have "(\<Sum>i<8. ?g (block * ?w + Suc (2 * i)))
      = (\<Sum>i<8. if i < block_terms degree block then scale (?w * block + 2 * i + 1) * z ^ (2 * i + 1) * z ^ (?w * block) else 0)"
    using terms(3) by (intro sum.cong) (auto simp: w power_add ac_simps)
  also have "\<dots> = (\<Sum>i \<in> {..<8} \<inter> {i. i < block_terms degree block}. scale (?w * block + 2 * i + 1) * z ^ (2 * i + 1) * z ^ (?w * block))"
    by (subst sum.inter_restrict) simp_all
  also have "{..<8} \<inter> {i. i < block_terms degree block} = {..<block_terms degree block}" using terms(2) by auto
  finally show ?thesis
    by (simp add: block_value_def sum_distrib_right interv_sum_list_conv_sum_set_nat atLeast0LessThan)
qed

lemma blocks_cover:
  assumes "odd degree"
  defines "count \<equiv> div_ceil (degree + 1) COMPARISON_BLOCK_WIDTH"
  shows "COMPARISON_BLOCK_WIDTH * (count - 1) < degree + 1" "0 < count" "degree < count * COMPARISON_BLOCK_WIDTH"
    "block < count \<Longrightarrow> COMPARISON_BLOCK_WIDTH * block < degree"
proof -
  have w: "0 < COMPARISON_BLOCK_WIDTH" "even COMPARISON_BLOCK_WIDTH" by (simp_all add: COMPARISON_BLOCK_WIDTH_def)
  show below: "COMPARISON_BLOCK_WIDTH * (count - 1) < degree + 1"
    unfolding count_def by (rule div_ceil_bounds(2) [OF w(1)]) simp
  have "degree + 1 \<le> COMPARISON_BLOCK_WIDTH * count" unfolding count_def by (rule div_ceil_bounds(1) [OF w(1)])
  then show "0 < count" "degree < count * COMPARISON_BLOCK_WIDTH" by (cases count; simp add: mult.commute)+
  show "COMPARISON_BLOCK_WIDTH * block < degree" if "block < count"
  proof -
    have "COMPARISON_BLOCK_WIDTH * block \<le> COMPARISON_BLOCK_WIDTH * (count - 1)" using that by (intro mult_le_mono2) simp
    also have "\<dots> \<le> degree" using below by simp
    finally have "COMPARISON_BLOCK_WIDTH * block \<le> degree" .
    moreover have "COMPARISON_BLOCK_WIDTH * block \<noteq> degree" using assms(1) w(2) by (metis even_mult_iff)
    ultimately show ?thesis by simp
  qed
qed

lemma comparison_value:
  assumes "odd degree"
  defines "count \<equiv> div_ceil (degree + 1) COMPARISON_BLOCK_WIDTH"
  assumes "count \<le> len"
  shows "blocks_value (block_value degree z) count 0 len z = compare_value degree z"
proof -
  note cover = blocks_cover [OF assms(1), folded count_def]
  let ?g = "\<lambda>j. if odd j \<and> j \<le> degree then scale j * z ^ j else 0"
  have "blocks_value (block_value degree z) count 0 len z
      = (\<Sum>i \<in> {..<len} \<inter> {i. i < count}. block_value degree z i * z ^ (COMPARISON_BLOCK_WIDTH * i))"
    unfolding blocks_value_def by (subst sum.inter_restrict) (simp_all cong: if_cong)
  also have "{..<len} \<inter> {i. i < count} = {..<count}" using assms(3) by auto
  also have "(\<Sum>i<count. block_value degree z i * z ^ (COMPARISON_BLOCK_WIDTH * i))
      = (\<Sum>i<count. \<Sum>j\<in>{i * COMPARISON_BLOCK_WIDTH..<i * COMPARISON_BLOCK_WIDTH + COMPARISON_BLOCK_WIDTH}. ?g j)"
    using block_value_sum [OF cover(4) assms(1)] by (intro sum.cong) simp_all
  also have "\<dots> = (\<Sum>j<count * COMPARISON_BLOCK_WIDTH. ?g j)" by (rule sum.nat_group)
  also have "\<dots> = (\<Sum>j\<le>degree. ?g j)" using cover(3) by (intro sum.mono_neutral_right) auto
  also have "\<dots> = compare_value degree z" unfolding compare_value_def by (intro sum.cong) simp_all
  finally show ?thesis .
qed

lemma builder_comparison_grows:
  assumes input: "input < length b" and degree: "odd degree"
    and P: "\<And>x y. P \<lparr>operation = 1, inputs = [x, y], parameter = 0\<rparr>" "\<And>x y. P \<lparr>operation = 2, inputs = [x, y], parameter = 0\<rparr>"
      "\<forall>j x. odd j \<longrightarrow> j \<le> degree \<longrightarrow> P \<lparr>operation = 3, inputs = [x], parameter = j\<rparr>"
  shows "\<exists>r b'. builder_comparison b input degree = Some (r, b') \<and> r < length b' \<and> grows P b {input} {r} b'
    \<and> length b' \<le> length b + degree + 17 * div_ceil (degree + 1) COMPARISON_BLOCK_WIDTH
    \<and> (\<forall>m s. out b' r m s = compare_value degree (out b input m s))"
proof -
  let ?count = "div_ceil (degree + 1) COMPARISON_BLOCK_WIDTH"
  let ?powers = "(replicate (degree + 1) None)[1 := Some input]" and ?x = "out b input"
  note cover = blocks_cover [OF degree]
  have start: "cached f b ?powers input ?x" using degree by (intro cached_start [OF input]) (simp add: odd_pos)
  have "Suc (unfilled ?powers) = unfilled (replicate (degree + 1) None)"
    using degree by (intro unfilled_update) (simp_all add: odd_pos)
  then have unfilled: "unfilled ?powers = degree" by (simp add: unfilled_def)
  have blocks: "\<forall>block \<in> set [0..<?count]. COMPARISON_BLOCK_WIDTH * block < degree" using cover(4) by simp
  have length: "length ?powers = degree + 1" by simp
  obtain vs b1 c1 where 1: "comparison_blocks b ?powers degree [0..<?count] = Some (vs, b1, c1)" "length vs = length [0..<?count]"
    "\<forall>v \<in> set vs. v < length b1" "cached f b1 c1 input ?x" "length c1 = length ?powers"
    "length b1 + unfilled c1 \<le> length b + unfilled ?powers + 15 * length [0..<?count]"
    "grows P b (if [0..<?count] \<noteq> [] then {input} else {}) (set vs) b1"
    "\<forall>k < length [0..<?count]. \<forall>m s. out b1 (vs ! k) m s = block_value degree (?x m s) ([0..<?count] ! k)"
    using comparison_blocks_grows [where P = P, OF start blocks degree length P] by (elim exE conjE) (rule that)
  obtain n where n: "next_power_of_two (length vs) = 2 ^ n" by (auto simp: next_power_of_two_def)
  have count: "length vs = ?count" using 1(2) by simp
  have some: "0 < length vs" using cover(2) count by simp
  have powers: "COMPARISON_BLOCK_WIDTH * (length vs - 1) < length c1" using cover(1) count 1(5) by simp
  obtain r b2 c2 where 2: "combine_blocks b1 0 (2 ^ n) vs c1 = Some (Some r, b2, c2)" "r < length b2"
    "length b2 + unfilled c2 + 2 \<le> length b1 + unfilled c1 + 2 * min (2 ^ n) (length vs - 0)"
    "grows P b1 (set (take (2 ^ n) (drop 0 vs))) {r} b2"
    "\<forall>m s. out b2 r m s = blocks_value (\<lambda>i. out b1 (vs ! i) m s) (length vs) 0 (2 ^ n) (?x m s)"
    using combine_blocks_grows [where P = P and n = n, OF 1(4) some 1(3) powers P(1,2)] by (elim exE conjE) (rule that)
  have all: "length vs \<le> 2 ^ n" using next_power_of_two_ge [of "length vs"] n by simp
  have "blocks_value (\<lambda>i. out b1 (vs ! i) m s) (length vs) 0 (2 ^ n) (?x m s)
      = blocks_value (block_value degree (?x m s)) (length vs) 0 (2 ^ n) (?x m s)" for m s
    unfolding blocks_value_def using 1(2,8) by (intro sum.cong) simp_all
  then have "\<forall>m s. out b2 r m s = compare_value degree (?x m s)"
    using 2(5) comparison_value [OF degree all [unfolded count]] count by simp
  moreover have "grows P b {input} {r} b2"
    by (rule grows_weaken [OF grows_trans [OF 1(7) 2(4)]]) (use cover(2) all in auto)
  moreover have "length b2 \<le> length b + degree + 17 * ?count" using 2(3) 1(6) all count unfilled by simp
  moreover have "builder_comparison b input degree = Some (r, b2)"
    using 1(1) 2(1) n degree by (simp add: builder_comparison_def Let_def first_power_def odd_pos)
  ultimately show ?thesis using 2(2) by blast
qed

section \<open>The program\<close>

lemma shift_sum_grows:
  assumes "shifted < length b" "rank < length b"
    and P: "\<And>x y. P \<lparr>operation = 1, inputs = [x, y], parameter = 0\<rparr>" "\<And>x. P \<lparr>operation = 6, inputs = [x], parameter = 0\<rparr>"
  shows "\<exists>r b'. shift_sum b n shifted rank = Some (r, b') \<and> r < length b' \<and> length b' = length b + 2 * n
    \<and> grows P b {rank} {r} b'
    \<and> (\<forall>m s. out b' r m s = out b rank m s + (\<Sum>d<n. out b shifted m ((s + Suc d) mod ACTIVE_SLOTS)))"
  using assms(1,2)
proof (induction n arbitrary: b shifted rank)
  case 0
  then show ?case by auto
next
  case (Suc n)
  obtain b1 where 1: "builder_append b 6 [shifted] 0 = Some (length b, b1)" "length b1 = Suc (length b)"
    "grows P b (set [shifted]) {length b} b1" "out b1 (length b) = f 6 0 (map ((!) (outputs f b)) [shifted])"
    using append_grows [of "[shifted]" b P 6 0 f] Suc.prems P(2) by auto
  obtain b2 where 2: "builder_append b1 1 [rank, length b] 0 = Some (length b1, b2)" "length b2 = Suc (length b1)"
    "grows P b1 (set [rank, length b]) {length b1} b2" "out b2 (length b1) = f 1 0 (map ((!) (outputs f b1)) [rank, length b])"
    using append_grows [of "[rank, length b]" b1 P 1 0 f] Suc.prems 1(2) P(1) by auto
  have ready: "length b < length b2" "length b1 < length b2"
    using 1(2) 2(2) by simp_all
  obtain r b' where 3: "shift_sum b2 n (length b) (length b1) = Some (r, b')" "r < length b'" "length b' = length b2 + 2 * n"
    "grows P b2 {length b1} {r} b'"
    "\<forall>m s. out b' r m s = out b2 (length b1) m s + (\<Sum>d<n. out b2 (length b) m ((s + Suc d) mod ACTIVE_SLOTS))"
    using Suc.IH [OF ready] by (elim exE conjE) (rule that)
  have shifted: "out b1 (length b) m s = out b shifted m (Suc s mod ACTIVE_SLOTS)" for m s by (simp add: 1(4) rotated)
  have "out b2 (length b) m s = out b1 (length b) m s" for m s using grows_outputs [OF 2(3), of "length b" f] 1(2) by simp
  then have old: "out b2 (length b) m ((s + Suc d) mod ACTIVE_SLOTS) = out b shifted m ((s + Suc (Suc d)) mod ACTIVE_SLOTS)" for m s d
    by (simp add: shifted mod_Suc_eq)
  have "out b2 (length b1) m s = out b rank m s + out b shifted m ((s + Suc 0) mod ACTIVE_SLOTS)" for m s
    using grows_outputs [OF 1(3) Suc.prems(2), of f] by (simp add: 2(4) add [simplified] shifted)
  then have "\<forall>m s. out b' r m s = out b rank m s + (\<Sum>d<Suc n. out b shifted m ((s + Suc d) mod ACTIVE_SLOTS))"
    unfolding 3(5) [rule_format] old sum.lessThan_Suc_shift by (simp add: add.assoc)
  moreover have "grows P b {rank} {r} b'"
    by (rule grows_weaken [OF grows_trans [OF grows_trans [OF 1(3) 2(3)] 3(4)]]) auto
  moreover have "shift_sum b (Suc n) shifted rank = Some (r, b')" using 1(1) 2(1) 3(1) by simp
  ultimately show ?case using 1(2) 2(2) 3(2,3) by simp
qed

lemma rank_terms_grows:
  assumes "cached f b powers base x" "\<forall>e \<in> set exponents. 0 < e \<and> e < length powers"
    and P: "\<And>x y. P \<lparr>operation = 2, inputs = [x, y], parameter = 0\<rparr>"
      "\<forall>e \<in> set exponents. \<forall>x. P \<lparr>operation = 4, inputs = [x], parameter = family + e\<rparr>"
  shows "\<exists>vs b' powers'. rank_terms b powers family exponents = Some (vs, b', powers') \<and> length vs = length exponents
    \<and> (\<forall>v \<in> set vs. v < length b')
    \<and> length b' + unfilled powers' = length b + unfilled powers + length exponents
    \<and> grows P b (if 1 \<in> set exponents then {base} else {}) (set vs) b'
    \<and> (\<forall>m s. (\<Sum>v\<leftarrow>vs. out b' v m s) = (\<Sum>e\<leftarrow>exponents. weight (family + e) m s * x m s ^ e))"
  using assms(1,2) P(2)
proof (induction exponents arbitrary: b powers)
  case (Cons e exponents)
  have exponent: "0 < e" "e < length powers" using Cons.prems(2) by simp_all
  obtain r b1 c1 where 1: "builder_power b powers e = Some (r, b1, c1)" "grows P b {} {r} b1" "r < length b1"
    "cached f b1 c1 base x" "length c1 = length powers" "length b1 + unfilled c1 = length b + unfilled powers"
    "\<forall>m s. out b1 r m s = x m s ^ e"
    using power_grows [where P = P, OF Cons.prems(1) exponent P(1)] by (elim exE conjE) (rule that)
  have r: "r = base" if "e = 1" using 1(1) power_one [OF Cons.prems(1)] that by simp
  obtain b2 where 2: "builder_append b1 4 [r] (family + e) = Some (length b1, b2)"
    "length b2 = Suc (length b1)" "grows P b1 (set [r]) {length b1} b2"
    "out b2 (length b1) = f 4 (family + e) (map ((!) (outputs f b1)) [r])"
    using append_grows [of "[r]" b1 P 4 "family + e" f] 1(3) Cons.prems(3) by auto
  have c2: "cached f b2 c1 base x" using cached_grows [OF 1(4) 2(3)] .
  have len: "\<forall>e \<in> set exponents. 0 < e \<and> e < length c1" using Cons.prems(2) 1(5) by simp
  have P': "\<forall>e \<in> set exponents. \<forall>x. P \<lparr>operation = 4, inputs = [x], parameter = family + e\<rparr>"
    using Cons.prems(3) by simp
  obtain vs b' powers' where 3: "rank_terms b2 c1 family exponents = Some (vs, b', powers')" "length vs = length exponents"
    "\<forall>v \<in> set vs. v < length b'" "length b' + unfilled powers' = length b2 + unfilled c1 + length exponents"
    "grows P b2 (if 1 \<in> set exponents then {base} else {}) (set vs) b'"
    "\<forall>m s. (\<Sum>v\<leftarrow>vs. out b' v m s) = (\<Sum>e\<leftarrow>exponents. weight (family + e) m s * x m s ^ e)"
    using Cons.IH [OF c2 len P'] by (elim exE conjE) (rule that)
  have "grows P b (if 1 \<in> set (e # exponents) then {base} else {}) (set (length b1 # vs)) b'"
    by (rule grows_weaken [OF grows_trans [OF grows_trans [OF 1(2) 2(3)] 3(5)]]) (use r in auto)
  moreover have "out b' (length b1) m s = weight (family + e) m s * x m s ^ e" for m s
    using grows_outputs [OF 3(5), of "length b1" f] 2(2) 1(7) by (simp add: 2(4) weighed)
  moreover have "length b1 < length b'" using grows_length [OF 3(5)] 2(2) by simp
  moreover have "rank_terms b powers family (e # exponents) = Some (length b1 # vs, b', powers')"
    using 1(1) 2(1) 3(1) by simp
  ultimately show ?case using 1(6) 2(2) 3(2-4,6) by auto
qed simp

end

lemma append_inputs_eq:
  "append_inputs b positions = Some ([length b..<length b + length positions],
     b @ map (\<lambda>position. \<lparr>operation = 0, inputs = [], parameter = position\<rparr>) positions)"
proof (induction positions arbitrary: b)
  case (Cons position rest)
  then show ?case by (simp add: builder_append_def upt_conv_Cons del: upt_Suc)
qed simp

definition input_instructions :: "profile \<Rightarrow> instruction list" where
  "input_instructions p = map (\<lambda>position. \<lparr>operation = 0, inputs = [], parameter = position\<rparr>) [0..<participants p]"

context slotwise
begin

text \<open>The values of the program, stage by stage.\<close>

definition compared :: "profile \<Rightarrow> slots" where
  "compared p m s = compare_value (comparison_degree p) ((\<Sum>position<participants p. f 0 position [] m s) + shift 0 m s) + shift 1 m s"

definition masked_rank :: "profile \<Rightarrow> slots" where
  "masked_rank p m s = weight 0 m s * (\<Sum>d<rank_window p. compared p m ((s + d) mod ACTIVE_SLOTS))"

definition spread_rank :: "profile \<Rightarrow> nat \<Rightarrow> slots" where
  "spread_rank p top_count m s = (\<Sum>d<top_count. masked_rank p m ((s + d) mod ACTIVE_SLOTS))"

definition ranked_value :: "profile \<Rightarrow> nat \<Rightarrow> slots" where
  "ranked_value p top_count m s =
     (\<Sum>e\<leftarrow>[1..<options p]. weight (options p * coefficient_family p top_count + e) m s * spread_rank p top_count m s ^ e)
     + shift (2 + coefficient_family p top_count) m s + shift (options p + 3) m s"

lemma legal_programs:
  "legal p k \<lparr>operation = 1, inputs = [x, y], parameter = 0\<rparr>" "legal p k \<lparr>operation = 2, inputs = [x, y], parameter = 0\<rparr>"
  "legal p k \<lparr>operation = 6, inputs = [x], parameter = 0\<rparr>" "legal p k \<lparr>operation = 4, inputs = [x], parameter = 0\<rparr>"
  "\<forall>j x. odd j \<longrightarrow> j \<le> comparison_degree p \<longrightarrow> legal p k \<lparr>operation = 3, inputs = [x], parameter = j\<rparr>"
  "\<forall>e \<in> set [1..<options p]. \<forall>x. legal p k \<lparr>operation = 4, inputs = [x], parameter = options p * coefficient_family p k + e\<rparr>"
  "c \<in> {0, 1, 2 + coefficient_family p k, options p + 3} \<Longrightarrow> legal p k \<lparr>operation = 5, inputs = [x], parameter = c\<rparr>"
  by (auto simp: legal_def)

lemma first_shift:
  fixes y :: "nat \<Rightarrow> residue"
  assumes "s < ACTIVE_SLOTS" "0 < n"
  shows "y s + (\<Sum>d<n - 1. y ((s + Suc d) mod ACTIVE_SLOTS)) = (\<Sum>d<n. y ((s + d) mod ACTIVE_SLOTS))"
proof (cases n)
  case (Suc k)
  then show ?thesis unfolding Suc sum.lessThan_Suc_shift using assms(1) by simp
qed (use assms in simp)

lemma ranking_instructions_grows:
  assumes p: "rankable p" and k: "1 \<le> top_count" "top_count \<le> options p"
  shows "\<exists>r b rest. ranking_instructions p top_count = Some (r, b) \<and> r < length b
    \<and> b = input_instructions p @ rest \<and> (\<forall>i \<in> set rest. legal p top_count i) \<and> ordered_inputs b \<and> loose b \<subseteq> {r}
    \<and> length b \<le> 1024 \<and> (\<exists>i \<in> set b. operation i = 5 \<and> parameter i = 2 + coefficient_family p top_count)
    \<and> (\<forall>m. \<forall>s < ACTIVE_SLOTS. out b r m s = ranked_value p top_count m s)"
proof -
  let ?P = "legal p top_count" and ?family = "coefficient_family p top_count"
  note P = legal_programs [where p = p and k = top_count]
  note w = window_bounds [OF p]
  have counts: "1 \<le> participants p" "participants p \<le> 20" "2 \<le> options p" "options p \<le> 20" using p by (simp_all add: rankable_def)
  have degree: "odd (comparison_degree p)" "comparison_degree p \<le> 361" using comparison_bounds [OF p] by simp_all
  let ?b0 = "input_instructions p"
  have 0: "append_inputs [] [0..<participants p] = Some ([0..<participants p], ?b0)"
    by (simp add: append_inputs_eq input_instructions_def)
  have len0: "length ?b0 = participants p" by (simp add: input_instructions_def)
  have ordered0: "ordered_inputs ?b0" by (simp add: ordered_inputs_def input_instructions_def)
  have loose0: "loose ?b0 \<subseteq> set [0..<participants p]" by (auto simp: loose_def len0)
  have out0: "out ?b0 v m s = f 0 v [] m s" if "v < participants p" for v m s
    using outputs_nth [OF ordered0, of v f] that by (simp add: len0) (simp add: input_instructions_def)
  have some0: "[0..<participants p] \<noteq> []" and valid0: "\<forall>v \<in> set [0..<participants p]. v < length ?b0"
    using counts(1) len0 by simp_all
  obtain total b1 where 1: "builder_sum ?b0 [0..<participants p] = Some (total, b1)" "total < length b1"
    "Suc (length b1) = length ?b0 + length [0..<participants p]" "grows ?P ?b0 (set [0..<participants p]) {total} b1"
    "\<forall>m s. out b1 total m s = (\<Sum>v\<leftarrow>[0..<participants p]. out ?b0 v m s)"
    using builder_sum_grows [where P = ?P, OF some0 valid0 P(1)] by (elim exE conjE) (rule that)
  obtain b2 where 2: "builder_append b1 5 [total] 0 = Some (length b1, b2)" "length b2 = Suc (length b1)"
    "grows ?P b1 (set [total]) {length b1} b2" "out b2 (length b1) = f 5 0 (map ((!) (outputs f b1)) [total])"
    using append_grows [of "[total]" b1 ?P 5 0 f] 1(2) P(7) by auto
  have in2: "length b1 < length b2" using 2(2) by simp
  obtain polynomial b3 where 3: "builder_comparison b2 (length b1) (comparison_degree p) = Some (polynomial, b3)"
    "polynomial < length b3" "grows ?P b2 {length b1} {polynomial} b3"
    "length b3 \<le> length b2 + comparison_degree p + 17 * div_ceil (comparison_degree p + 1) COMPARISON_BLOCK_WIDTH"
    "\<forall>m s. out b3 polynomial m s = compare_value (comparison_degree p) (out b2 (length b1) m s)"
    using builder_comparison_grows [where P = ?P, OF in2 degree(1) P(1,2,5)] by (elim exE conjE) (rule that)
  obtain b4 where 4: "builder_append b3 5 [polynomial] 1 = Some (length b3, b4)" "length b4 = Suc (length b3)"
    "grows ?P b3 (set [polynomial]) {length b3} b4" "out b4 (length b3) = f 5 1 (map ((!) (outputs f b3)) [polynomial])"
    using append_grows [of "[polynomial]" b3 ?P 5 1 f] 3(2) P(7) by auto
  have compared: "out b4 (length b3) = compared p"
    using 3(5) 1(5) by (intro ext) (simp add: compared_def 4(4) 2(4) moved out0 interv_sum_list_conv_sum_set_nat atLeast0LessThan)
  have in4: "length b3 < length b4" using 4(2) by simp
  obtain rank b5 where 5: "shift_sum b4 (rank_window p - 1) (length b3) (length b3) = Some (rank, b5)" "rank < length b5"
    "length b5 = length b4 + 2 * (rank_window p - 1)" "grows ?P b4 {length b3} {rank} b5"
    "\<forall>m s. out b5 rank m s = out b4 (length b3) m s + (\<Sum>d<rank_window p - 1. out b4 (length b3) m ((s + Suc d) mod ACTIVE_SLOTS))"
    using shift_sum_grows [where P = ?P and n = "rank_window p - 1", OF in4 in4 P(1,3)] by (elim exE conjE) (rule that)
  obtain b6 where 6: "builder_append b5 4 [rank] 0 = Some (length b5, b6)" "length b6 = Suc (length b5)"
    "grows ?P b5 (set [rank]) {length b5} b6" "out b6 (length b5) = f 4 0 (map ((!) (outputs f b5)) [rank])"
    using append_grows [of "[rank]" b5 ?P 4 0 f] 5(2) P(4) by auto
  have masked: "out b6 (length b5) m s = masked_rank p m s" if "s < ACTIVE_SLOTS" for m s
    using first_shift [OF that w(3), of "compared p m"] by (simp add: 6(4) weighed 5(5) compared masked_rank_def)
  have in6: "length b5 < length b6" using 6(2) by simp
  obtain rank' b7 where 7: "shift_sum b6 (top_count - 1) (length b5) (length b5) = Some (rank', b7)" "rank' < length b7"
    "length b7 = length b6 + 2 * (top_count - 1)" "grows ?P b6 {length b5} {rank'} b7"
    "\<forall>m s. out b7 rank' m s = out b6 (length b5) m s + (\<Sum>d<top_count - 1. out b6 (length b5) m ((s + Suc d) mod ACTIVE_SLOTS))"
    using shift_sum_grows [where P = ?P and n = "top_count - 1", OF in6 in6 P(1,3)] by (elim exE conjE) (rule that)
  have spread: "out b7 rank' m s = spread_rank p top_count m s" if "s < ACTIVE_SLOTS" for m s
    using first_shift [OF that, of top_count "masked_rank p m"] k(1) that
    by (simp add: 7(5) masked spread_rank_def ACTIVE_SLOTS_def ENCODING_DEGREE_def)
  let ?powers = "(replicate (options p) None)[1 := Some rank']"
  have start: "cached f b7 ?powers rank' (out b7 rank')" using counts(3) by (intro cached_start [OF 7(2)]) simp
  have "Suc (unfilled ?powers) = unfilled (replicate (options p) None)"
    using counts(3) by (intro unfilled_update) simp_all
  then have unfilled: "Suc (unfilled ?powers) = options p" by (simp add: unfilled_def)
  have exponents: "\<forall>e \<in> set [1..<options p]. 0 < e \<and> e < length ?powers" by simp
  obtain ts b8 c8 where 8: "rank_terms b7 ?powers (options p * ?family) [1..<options p] = Some (ts, b8, c8)"
    "length ts = length [1..<options p]" "\<forall>v \<in> set ts. v < length b8"
    "length b8 + unfilled c8 = length b7 + unfilled ?powers + length [1..<options p]"
    "grows ?P b7 (if 1 \<in> set [1..<options p] then {rank'} else {}) (set ts) b8"
    "\<forall>m s. (\<Sum>v\<leftarrow>ts. out b8 v m s) = (\<Sum>e\<leftarrow>[1..<options p]. weight (options p * ?family + e) m s * out b7 rank' m s ^ e)"
    using rank_terms_grows [where P = ?P, OF start exponents P(2,6)] by (elim exE conjE) (rule that)
  have some8: "ts \<noteq> []" using 8(2) counts(3) by auto
  obtain total' b9 where 9: "builder_sum b8 ts = Some (total', b9)" "total' < length b9"
    "Suc (length b9) = length b8 + length ts" "grows ?P b8 (set ts) {total'} b9"
    "\<forall>m s. out b9 total' m s = (\<Sum>v\<leftarrow>ts. out b8 v m s)"
    using builder_sum_grows [where P = ?P, OF some8 8(3) P(1)] by (elim exE conjE) (rule that)
  obtain b10 where 10: "builder_append b9 5 [total'] (2 + ?family) = Some (length b9, b10)" "length b10 = Suc (length b9)"
    "grows ?P b9 (set [total']) {length b9} b10" "out b10 (length b9) = f 5 (2 + ?family) (map ((!) (outputs f b9)) [total'])"
    using append_grows [of "[total']" b9 ?P 5 "2 + ?family" f] 9(2) P(7) by auto
  obtain b11 where 11: "builder_append b10 5 [length b9] (options p + 3) = Some (length b10, b11)" "length b11 = Suc (length b10)"
    "grows ?P b10 (set [length b9]) {length b10} b11"
    "out b11 (length b10) = f 5 (options p + 3) (map ((!) (outputs f b10)) [length b9])"
    using append_grows [of "[length b9]" b10 ?P 5 "options p + 3" f] 10(2) P(7) by auto
  have family: "(if top_count = options p then 0 else options p * top_count) = options p * ?family"
    "(if top_count = options p then 2 else 2 + top_count) = 2 + ?family"
    by (simp_all add: coefficient_family_def)
  have first: "first_power (options p) rank' = Some ?powers" using counts(3) by (simp add: first_power_def)
  have "ranking_instructions p top_count = Some (length b10, b11)"
    unfolding ranking_instructions_def Let_def 0 family
    by (simp only: bind.bind_lunit prod.case first 1(1) 2(1) 3(1) 4(1) 5(1) 6(1) 7(1) 8(1) 9(1) 10(1) 11(1))
  moreover have grows: "grows ?P ?b0 (set [0..<participants p]) {length b10} b11"
    by (rule grows_weaken [OF grows_trans [OF grows_trans [OF grows_trans [OF grows_trans [OF grows_trans [OF grows_trans
      [OF grows_trans [OF grows_trans [OF grows_trans [OF grows_trans [OF 1(4) 2(3)] 3(3)] 4(3)] 5(4)] 6(3)] 7(4)] 8(5)] 9(4)] 10(3)] 11(3)]])
      (use counts(3) in auto)
  moreover have "length b11 \<le> 1024"
  proof -
    have "div_ceil (comparison_degree p + 1) COMPARISON_BLOCK_WIDTH \<le> 23"
      using degree(2) by (simp add: div_ceil_def COMPARISON_BLOCK_WIDTH_def; linarith?)
    then show ?thesis
      using 11(2) 10(2) 9(3) 8(2,4) 7(3) 6(2) 5(3) 4(2) 3(4) 2(2) 1(3) len0 counts degree(2) k w(5) unfilled by simp
  qed
  moreover have "\<exists>i \<in> set b11. operation i = 5 \<and> parameter i = 2 + ?family"
    using 10(1) 11(1) by (auto simp: builder_append_def split: if_splits)
  moreover have "out b11 (length b10) m s = ranked_value p top_count m s" if "s < ACTIVE_SLOTS" for m s
    using 9(5) 8(6) spread [OF that] by (simp add: 11(4) 10(4) moved ranked_value_def)
  moreover have "ordered_inputs b11" "loose b11 \<subseteq> {length b10}" "length b10 < length b11"
    using grows ordered0 loose0 11(2) unfolding grows_def by auto
  ultimately show ?thesis unfolding grows_def by blast
qed

end

section \<open>The meaning of the instructions\<close>

text \<open>The public constants of an evaluation (\<open>Engine\<close> in \<open>encrypted-ranking/src/ranking.rs\<close>).\<close>

record ranking_constants =
  comparison_coefficients :: "int list"
  ranking_coefficients :: "int list list"
  input_offset :: "int list"
  rank_mask_plaintext :: "int list"
  padding_plaintext :: "int list"

text \<open>
  What each instruction computes on the slots of the plaintexts that the ciphertexts
  encrypt (\<open>start\<close>): sums and products of ring elements are taken slot by slot, a
  constant polynomial has its coefficient in every slot, and the automorphism moves each
  orbit by one slot.
\<close>

definition slot_meaning :: "profile \<Rightarrow> ranking_constants \<Rightarrow> int list list \<Rightarrow> nat \<Rightarrow> nat \<Rightarrow> slots list \<Rightarrow> slots" where
  "slot_meaning p K ballots code argument vs m s =
     (if code = 0 then slot_value (ballots ! argument) m s
      else if code = 1 then (vs ! 0) m s + (vs ! 1) m s
      else if code = 2 then (vs ! 0) m s * (vs ! 1) m s
      else if code = 3 then of_int (comparison_coefficients K ! argument) * (vs ! 0) m s
      else if code = 4 then
        slot_value (if argument = 0 then rank_mask_plaintext K else ranking_coefficients K ! (argument mod options p)) m s
          * (vs ! 0) m s
      else if code = 5 then
        (vs ! 0) m s + (if argument = 0 then slot_value (input_offset K) m s
                        else if argument = 1 then of_int (comparison_coefficients K ! 0)
                        else if argument < options p + 2 then slot_value (ranking_coefficients K ! 0) m s
                        else slot_value (padding_plaintext K) m s)
      else (vs ! 0) m (Suc s mod ACTIVE_SLOTS))"

interpretation meaning: slotwise "slot_meaning p K ballots"
    "\<lambda>argument. of_int (comparison_coefficients K ! argument)"
    "\<lambda>argument. slot_value (if argument = 0 then rank_mask_plaintext K else ranking_coefficients K ! (argument mod options p))"
    "\<lambda>argument m s. if argument = 0 then slot_value (input_offset K) m s
       else if argument = 1 then of_int (comparison_coefficients K ! 0)
       else if argument < options p + 2 then slot_value (ranking_coefficients K ! 0) m s
       else slot_value (padding_plaintext K) m s"
  for p K ballots
  by unfold_locales (simp_all add: slot_meaning_def)

lemma ranking_instructions_meaning:
  assumes "rankable p" "1 \<le> top_count" "top_count \<le> options p"
  shows "\<exists>r b rest. ranking_instructions p top_count = Some (r, b) \<and> r < length b
    \<and> b = input_instructions p @ rest \<and> (\<forall>i \<in> set rest. legal p top_count i) \<and> ordered_inputs b \<and> loose b \<subseteq> {r}
    \<and> length b \<le> 1024 \<and> (\<exists>i \<in> set b. operation i = 5 \<and> parameter i = 2 + coefficient_family p top_count)
    \<and> (\<forall>m. \<forall>s < ACTIVE_SLOTS. (outputs (slot_meaning p K ballots) b ! r) m s = meaning.ranked_value p K ballots p top_count m s)"
  by (rule meaning.ranking_instructions_grows [OF assms])

end
