(* ===== verification/Ranking_Codec.thy ===== *)
theory Ranking_Codec
  imports Ranking_Program Identity "HOL-Library.Multiset"
begin

text \<open>
  The encoding of ranking programs (\<open>encode\<close> and \<open>for_profile\<close> of
  \<open>evaluation-target/src/program.rs\<close>) and their decoder
  (\<open>encrypted-ranking/src/ranking-program.rs\<close>).

  The encoder visits the program depth first from its result and renames the
  instructions to the order in which the visit leaves them.  The lemmas show that the
  visit reaches every instruction, that inputs still precede their uses, that the
  renamed program computes what the original does, and that the decoder accepts its
  bytes and returns it.
\<close>

section \<open>The encoder\<close>

text \<open>
  An index beyond the program is a failed access.  An instruction has only earlier
  inputs (\<open>append\<close> asserts it), so the failure at a later input does not occur.
\<close>

function visit :: "instruction list \<Rightarrow> nat \<Rightarrow> bool list \<times> nat list \<Rightarrow> (bool list \<times> nat list) option" where
  "visit is index st =
     (if index \<ge> length is \<or> (\<exists>input \<in> set (inputs (is ! index)). index \<le> input) then None
      else if fst st ! index then Some st
      else do {
        (seen, order) \<leftarrow> fold (\<lambda>input st. case st of None \<Rightarrow> None | Some st \<Rightarrow> visit is input st) (inputs (is ! index))
          (Some ((fst st)[index := True], snd st));
        Some (seen, order @ [index]) })"
  by pat_completeness auto
termination
  by (relation "measure (\<lambda>(is, index, st). index)") auto

declare visit.simps [simp del]

definition renaming :: "nat list \<Rightarrow> nat list" where
  "renaming order = fold (\<lambda>(index, original) renamed. renamed[original := index]) (enumerate 0 order) (replicate (length order) 0)"

definition instruction_bytes :: "instruction \<Rightarrow> bytes" where
  "instruction_bytes i =
     le_bytes 4 (operation i)
     @ concat (map (\<lambda>position. le_bytes 4 (if position < length (inputs i) then inputs i ! position else u32_bound - 1)) [0..<2])
     @ le_bytes 4 (parameter i)"

definition rename :: "nat list \<Rightarrow> instruction \<Rightarrow> instruction" where
  "rename renamed i = i\<lparr>inputs := map ((!) renamed) (inputs i)\<rparr>"

definition builder_encode :: "builder \<Rightarrow> nat \<Rightarrow> bytes option" where
  "builder_encode b result = do {
     (seen, order) \<leftarrow> visit b result (replicate (length b) False, []);
     if length order \<noteq> length b then None else do {
       let renamed = renaming order;
       Some (le_bytes 4 DEGREE @ le_bytes 4 (length order) @ le_bytes 4 (renamed ! result)
         @ concat (map (\<lambda>original. instruction_bytes (rename renamed (b ! original))) order)) } }"

text \<open>The outer \<open>None\<close> is an assertion that fails.\<close>

definition for_profile :: "profile \<Rightarrow> nat \<Rightarrow> bytes option option" where
  "for_profile p top_count =
     (if \<not> (1 \<le> top_count \<and> top_count \<le> options p) then Some None else do {
        (result, b) \<leftarrow> ranking_instructions p top_count;
        bs \<leftarrow> builder_encode b result;
        Some (Some bs) })"

section \<open>The decoder\<close>

datatype ranking_refusal = Program | Phase | Ranking_shape | Coefficient | Ranking_identity | Allocation

definition MAXIMUM_INSTRUCTIONS :: nat where "MAXIMUM_INSTRUCTIONS = 1024"

definition RANKING_PROGRAM_DOMAIN :: bytes where
  "RANKING_PROGRAM_DOMAIN = ascii_bytes ''sealed-lattice/ranking-program''"

definition program_identity :: "externals \<Rightarrow> bytes \<Rightarrow> ranking_refusal + bytes" where
  "program_identity E program = (case identity E RANKING_PROGRAM_DOMAIN program of Inl _ \<Rightarrow> Inl Program | Inr h \<Rightarrow> Inr h)"

record ranking_program =
  program_hash :: bytes
  instructions :: "instruction list"
  remaining_uses :: "nat list"
  program_top_count :: nat

record decoding =
  decoded :: "instruction list"
  input_positions :: "nat list"
  uses :: "nat list"
  declared :: "nat option"

definition arity :: "nat \<Rightarrow> nat option" where
  "arity code = (if code = 0 then Some 0 else if code \<in> {1, 2} then Some 2 else if code \<in> {3..6} then Some 1 else None)"

fun read_inputs :: "nat \<Rightarrow> nat \<Rightarrow> nat \<Rightarrow> nat list \<Rightarrow> nat list \<times> nat list \<Rightarrow> (nat list \<times> nat list) option" where
  "read_inputs amount index position [] st = Some st"
| "read_inputs amount index position (v # rest) st =
     (if position < amount then
        if v \<ge> index then None
        else read_inputs amount index (Suc position) rest (fst st @ [v], (snd st)[v := snd st ! v + 1])
      else if v \<noteq> u32_bound - 1 then None
      else read_inputs amount index (Suc position) rest st)"

definition valid_parameter :: "profile \<Rightarrow> nat list \<Rightarrow> nat \<Rightarrow> nat \<Rightarrow> bool" where
  "valid_parameter p positions code argument =
     (if code = 0 then argument < participants p \<and> argument \<notin> set positions
      else if code \<in> {1, 2, 6} then argument = 0
      else if code = 3 then 1 \<le> argument \<and> argument \<le> comparison_degree p \<and> argument mod 2 = 1
      else if code = 4 then argument = 0 \<or> (argument < options p * options p \<and> argument mod options p \<noteq> 0)
      else if code = 5 then argument < options p + 2 \<or> argument = options p + 3
      else False)"

definition declared_top_count :: "profile \<Rightarrow> nat \<Rightarrow> nat \<Rightarrow> nat option" where
  "declared_top_count p code argument =
     (if code = 4 \<and> argument \<noteq> 0 then Some (if argument div options p = 0 then options p else argument div options p)
      else if code = 5 \<and> argument \<ge> 2 \<and> argument < options p + 2 then Some (if argument = 2 then options p else argument - 2)
      else None)"

definition decode_instruction :: "profile \<Rightarrow> nat \<Rightarrow> bytes \<Rightarrow> decoding \<Rightarrow> decoding option" where
  "decode_instruction p index bs st = do {
     let code = le_value (take 4 bs);
     amount \<leftarrow> arity code;
     (sources, counts) \<leftarrow> read_inputs amount index 0 [le_value (slice 4 8 bs), le_value (slice 8 12 bs)] ([], uses st);
     let argument = le_value (drop 12 bs);
     if \<not> valid_parameter p (input_positions st) code argument then None else do {
       let positions = (if code = 0 then argument # input_positions st else input_positions st);
       let claim = declared_top_count p code argument;
       if claim \<noteq> None \<and> declared st \<noteq> None \<and> declared st \<noteq> claim then None
       else Some \<lparr>decoded = decoded st @ [\<lparr>operation = code, inputs = sources, parameter = argument\<rparr>],
         input_positions = positions, uses = counts, declared = (if claim \<noteq> None then claim else declared st)\<rparr> } }"

fun decode_instructions :: "profile \<Rightarrow> nat \<Rightarrow> bytes list \<Rightarrow> decoding \<Rightarrow> decoding option" where
  "decode_instructions p index [] st = Some st"
| "decode_instructions p index (bs # rest) st = do {
     st \<leftarrow> decode_instruction p index bs st;
     decode_instructions p (Suc index) rest st }"

definition decode_program :: "externals \<Rightarrow> profile \<Rightarrow> bytes \<Rightarrow> ranking_refusal + ranking_program" where
  "decode_program E p program =
     (if length program < 12 \<or> le_value (take 4 program) \<noteq> DEGREE then Inl Program
      else let amount = le_value (slice 4 8 program) in
        if \<not> (1 \<le> amount \<and> amount \<le> MAXIMUM_INSTRUCTIONS) \<or> length program \<noteq> 12 + 16 * amount
           \<or> le_value (slice 8 12 program) \<noteq> amount - 1 then Inl Program
        else and_then (program_identity E program) (\<lambda>hash.
          and_then (ok_or Program (decode_instructions p 0 (chunks_exact 16 (drop 12 program))
            \<lparr>decoded = [], input_positions = [], uses = replicate amount 0, declared = None\<rparr>)) (\<lambda>st.
          if length (input_positions st) \<noteq> participants p \<or> 0 \<in> set (take (amount - 1) (uses st)) then Inl Program
          else Inr \<lparr>program_hash = hash, instructions = decoded st, remaining_uses = (uses st)[amount - 1 := 1],
            program_top_count = (case declared st of None \<Rightarrow> options p | Some k \<Rightarrow> k)\<rparr>)))"

text \<open>
  The most values held at once; a use beyond a value's amount would underflow, a \<open>None\<close>.
\<close>

fun use_inputs :: "nat list \<Rightarrow> nat list \<times> nat \<Rightarrow> (nat list \<times> nat) option" where
  "use_inputs [] st = Some st"
| "use_inputs (input # rest) (counts, live) =
     (if input \<ge> length counts \<or> counts ! input = 0 then None
      else let counts = counts[input := counts ! input - 1] in
        if counts ! input = 0 then if live = 0 then None else use_inputs rest (counts, live - 1)
        else use_inputs rest (counts, live))"

fun peak_from :: "instruction list \<Rightarrow> nat list \<Rightarrow> nat \<Rightarrow> nat \<Rightarrow> nat option" where
  "peak_from [] counts live peak = Some peak"
| "peak_from (i # rest) counts live peak = do {
     (counts, after) \<leftarrow> use_inputs (inputs i) (counts, live + 1);
     peak_from rest counts after (max peak (live + 1)) }"

definition peak_values :: "instruction list \<Rightarrow> nat list \<Rightarrow> nat option" where
  "peak_values is counts = peak_from is counts 0 0"

section \<open>The visit\<close>

text \<open>An order in which the inputs of every instruction come before it.\<close>

definition inputs_first :: "instruction list \<Rightarrow> nat list \<Rightarrow> bool" where
  "inputs_first is order \<longleftrightarrow> (\<forall>k < length order. set (inputs (is ! (order ! k))) \<subseteq> set (take k order))"

lemma inputs_first_snoc:
  "inputs_first is order \<Longrightarrow> set (inputs (is ! index)) \<subseteq> set order \<Longrightarrow> inputs_first is (order @ [index])"
  by (auto simp: inputs_first_def nth_append less_Suc_eq)

text \<open>
  What a visit maintains: the order is a valid one of distinct instructions, all marked as
  seen, and no instruction below the bound is marked without being in the order.
\<close>

definition visiting :: "instruction list \<Rightarrow> nat \<Rightarrow> bool list \<times> nat list \<Rightarrow> bool" where
  "visiting is bound st \<longleftrightarrow> length (fst st) = length is \<and> distinct (snd st) \<and> inputs_first is (snd st)
     \<and> (\<forall>i \<in> set (snd st). i < length is \<and> fst st ! i) \<and> (\<forall>i < bound. i < length is \<longrightarrow> fst st ! i \<longrightarrow> i \<in> set (snd st))"

text \<open>How a visit below a bound changes the state: it adds instructions below the bound.\<close>

definition visited_more :: "nat \<Rightarrow> bool list \<times> nat list \<Rightarrow> bool list \<times> nat list \<Rightarrow> bool" where
  "visited_more bound st st' \<longleftrightarrow> (\<exists>more. snd st' = snd st @ more \<and> set more \<subseteq> {..<bound})
     \<and> (\<forall>i \<ge> bound. i < length (fst st) \<longrightarrow> fst st' ! i = fst st ! i)"

lemma visited_more_trans:
  assumes "visited_more bound st st'" "visited_more bound st' st''" "length (fst st') = length (fst st)"
  shows "visited_more bound st st''"
proof -
  obtain m1 m2 where "snd st' = snd st @ m1" "set m1 \<subseteq> {..<bound}" "snd st'' = snd st' @ m2" "set m2 \<subseteq> {..<bound}"
    using assms(1,2) unfolding visited_more_def by blast
  then have "snd st'' = snd st @ (m1 @ m2) \<and> set (m1 @ m2) \<subseteq> {..<bound}" by simp
  then have "\<exists>more. snd st'' = snd st @ more \<and> set more \<subseteq> {..<bound}" by blast
  moreover have "fst st'' ! i = fst st ! i" if "bound \<le> i" "i < length (fst st)" for i
  proof -
    have "fst st' ! i = fst st ! i" using assms(1) that unfolding visited_more_def by blast
    moreover have "fst st'' ! i = fst st' ! i" using assms(2,3) that unfolding visited_more_def by simp
    ultimately show ?thesis by (rule trans [rotated])
  qed
  ultimately show ?thesis unfolding visited_more_def by blast
qed

lemma visited_more_mono: "visited_more bound st st' \<Longrightarrow> bound \<le> bound' \<Longrightarrow> visited_more bound' st st'"
  unfolding visited_more_def by (elim conjE exE, intro conjI exI) (assumption, auto)

lemma visiting_mono: "visiting is bound st \<Longrightarrow> bound' \<le> bound \<Longrightarrow> visiting is bound' st"
  unfolding visiting_def by auto

lemma visit_spec:
  assumes "ordered_inputs is" "index < length is" "visiting is (Suc index) st"
  shows "\<exists>st'. visit is index st = Some st' \<and> visiting is (Suc index) st' \<and> visited_more (Suc index) st st'
    \<and> index \<in> set (snd st') \<and> (\<not> fst st ! index \<longrightarrow> last (snd st') = index)"
  using assms(2,3)
proof (induction index arbitrary: st rule: less_induct)
  case (less index)
  have earlier: "\<forall>input \<in> set (inputs (is ! index)). input < index" using assms(1) less.prems(1) by (auto simp: ordered_inputs_def)
  then have guard: "\<not> (index \<ge> length is \<or> (\<exists>input \<in> set (inputs (is ! index)). index \<le> input))"
    using less.prems(1) by auto
  show ?case
  proof (cases "fst st ! index")
    case True
    then have "visit is index st = Some st" using guard by (subst visit.simps) simp
    moreover have "index \<in> set (snd st)" using less.prems True unfolding visiting_def by blast
    moreover have "visited_more (Suc index) st st" by (simp add: visited_more_def)
    ultimately show ?thesis using less.prems(2) True by blast
  next
    case False
    let ?f = "\<lambda>input st. case st of None \<Rightarrow> None | Some st \<Rightarrow> visit is input st"
    have inner: "\<exists>st2. fold ?f todo (Some st1) = Some st2 \<and> visiting is index st2 \<and> visited_more index st1 st2
        \<and> set todo \<subseteq> set (snd st2) \<and> set (snd st1) \<subseteq> set (snd st2)"
      if "\<forall>input \<in> set todo. input < index" "visiting is index st1" for todo st1
      using that
    proof (induction todo arbitrary: st1)
      case Nil
      moreover have "visited_more index st1 st1" by (simp add: visited_more_def)
      ultimately show ?case by simp
    next
      case (Cons input todo)
      have input: "input < index" "input < length is" using Cons.prems(1) less.prems(1) by simp_all
      have "visiting is (Suc input) st1" using visiting_mono [OF Cons.prems(2)] input(1) by simp
      then obtain st2 where 2: "visit is input st1 = Some st2" "visiting is (Suc input) st2" "visited_more (Suc input) st1 st2"
        "input \<in> set (snd st2)"
        using less.IH [OF input(1,2)] by blast
      have lens: "length (fst st1) = length is" "length (fst st2) = length is"
        using Cons.prems(2) 2(2) by (simp_all add: visiting_def)
      have more: "visited_more index st1 st2" using visited_more_mono [OF 2(3)] input(1) by simp
      have "i \<in> set (snd st2)" if "i < index" "i < length is" "fst st2 ! i" for i
      proof (cases "i < Suc input")
        case True
        then show ?thesis using 2(2) that by (simp add: visiting_def)
      next
        case False
        then have "fst st1 ! i" using 2(3) that lens(1) by (simp add: visited_more_def)
        then have "i \<in> set (snd st1)" using Cons.prems(2) that by (simp add: visiting_def)
        then show ?thesis using 2(3) by (auto simp: visited_more_def)
      qed
      then have "visiting is index st2" using 2(2) by (simp add: visiting_def)
      with Cons.IH [of st2] Cons.prems(1) obtain st3 where 3: "fold ?f todo (Some st2) = Some st3" "visiting is index st3"
        "visited_more index st2 st3" "set todo \<subseteq> set (snd st3)" "set (snd st2) \<subseteq> set (snd st3)" by auto
      have "visited_more index st1 st3" using visited_more_trans [OF more 3(3)] lens by simp
      moreover have "set (snd st1) \<subseteq> set (snd st2)" using 2(3) by (auto simp: visited_more_def)
      ultimately show ?case using 2(1,4) 3 by auto
    qed
    let ?st = "((fst st)[index := True], snd st)"
    have len: "length (fst st) = length is" using less.prems(2) by (simp add: visiting_def)
    have marked: "(fst st)[index := True] ! i \<longleftrightarrow> i = index \<or> fst st ! i" for i
      using len less.prems(1) by (cases "i = index") simp_all
    have "visiting is index ?st" using less.prems(2) unfolding visiting_def fst_conv snd_conv marked by simp
    then obtain seen order where 2: "fold ?f (inputs (is ! index)) (Some ?st) = Some (seen, order)"
      "visiting is index (seen, order)" "visited_more index ?st (seen, order)" "set (inputs (is ! index)) \<subseteq> set order"
      using inner [OF earlier, of ?st] by auto
    then have "seen ! index" using less.prems(1) len by (auto simp: visited_more_def)
    obtain more where more: "order = snd st @ more" "set more \<subseteq> {..<index}" using 2(3) by (auto simp: visited_more_def)
    have fresh: "index \<notin> set order" using more less.prems(2) False by (auto simp: visiting_def)
    have "i \<in> set (order @ [index])" if "i < Suc index" "i < length is" "seen ! i" for i
      using 2(2) that unfolding visiting_def by (cases "i = index") simp_all
    moreover have "\<forall>i \<in> set (order @ [index]). i < length is \<and> seen ! i"
      using 2(2) \<open>seen ! index\<close> less.prems(1) unfolding visiting_def by simp
    moreover have "inputs_first is (order @ [index])"
      using 2(2,4) unfolding visiting_def by (intro inputs_first_snoc) simp_all
    ultimately have "visiting is (Suc index) (seen, order @ [index])"
      using 2(2) fresh unfolding visiting_def by simp
    moreover have "seen ! i = fst st ! i" if "Suc index \<le> i" "i < length (fst st)" for i
      using 2(3) that unfolding visited_more_def by simp
    then have "visited_more (Suc index) st (seen, order @ [index])"
      using more by (auto simp: visited_more_def intro!: exI [of _ "more @ [index]"])
    moreover have "visit is index st = Some (seen, order @ [index])"
      using guard False 2(1) by (subst visit.simps) simp
    ultimately show ?thesis by simp
  qed
qed

lemma visit_complete:
  assumes "ordered_inputs is" "r < length is" "loose is \<subseteq> {r}"
  shows "\<exists>seen order. visit is r (replicate (length is) False, []) = Some (seen, order)
    \<and> distinct order \<and> set order = {..<length is} \<and> inputs_first is order \<and> order \<noteq> [] \<and> last order = r"
proof -
  let ?st = "(replicate (length is) False, [])"
  have "visiting is (Suc r) ?st" by (simp add: visiting_def inputs_first_def)
  then obtain st where st: "visit is r ?st = Some st" "visiting is (Suc r) st" "r \<in> set (snd st)" "last (snd st) = r"
    using visit_spec [OF assms(1,2)] assms(2) by fastforce
  have closed: "set (inputs (is ! i)) \<subseteq> set (snd st)" if "i \<in> set (snd st)" for i
    using that st(2) unfolding visiting_def inputs_first_def in_set_conv_nth [of i] by (metis set_take_subset subset_trans)
  have "k \<in> set (snd st)" if "k < length is" for k
    using that
  proof (induction "length is - k" arbitrary: k rule: less_induct)
    case less
    show ?case
    proof (cases "k = r")
      case False
      then have "k \<notin> loose is" using assms(3) by blast
      then obtain i where "i \<in> set is" "k \<in> set (inputs i)" using less.prems unfolding loose_def by blast
      then obtain j where j: "j < length is" "k \<in> set (inputs (is ! j))" by (auto simp: in_set_conv_nth)
      then have "k < j" using assms(1) by (auto simp: ordered_inputs_def)
      then have "j \<in> set (snd st)" using j(1) less.hyps [of j] by simp
      then show ?thesis using closed j(2) by blast
    qed (use st(3) in simp)
  qed
  then have "set (snd st) = {..<length is}" using st(2) by (auto simp: visiting_def)
  moreover have "distinct (snd st)" "inputs_first is (snd st)" using st(2) by (simp_all add: visiting_def)
  moreover have "snd st \<noteq> []" using st(3) by auto
  ultimately show ?thesis using st(1,4) by (cases st) simp
qed

section \<open>Renaming\<close>

lemma renaming_from:
  assumes "distinct order" "set order \<subseteq> {..<length renamed}"
  shows "length (fold (\<lambda>(index, original) renamed. renamed[original := index]) (enumerate n order) renamed) = length renamed
    \<and> (\<forall>k < length order. fold (\<lambda>(index, original) renamed. renamed[original := index]) (enumerate n order) renamed ! (order ! k) = n + k)
    \<and> (\<forall>i < length renamed. i \<notin> set order \<longrightarrow>
        fold (\<lambda>(index, original) renamed. renamed[original := index]) (enumerate n order) renamed ! i = renamed ! i)"
  using assms
proof (induction order arbitrary: n renamed)
  case (Cons x order)
  note IH = Cons.IH [of "renamed[x := n]" "Suc n"]
  show ?case
    using IH Cons.prems by (auto simp: nth_Cons nth_list_update split: nat.splits)
qed simp

lemma renaming_nth:
  assumes "distinct order" "set order = {..<length order}" "k < length order"
  shows "renaming order ! (order ! k) = k"
  using renaming_from [of order "replicate (length order) 0" 0] assms by (simp add: renaming_def)

definition reordered :: "instruction list \<Rightarrow> nat list \<Rightarrow> instruction list" where
  "reordered is order = map (\<lambda>original. rename (renaming order) (is ! original)) order"

lemma length_reordered [simp]: "length (reordered is order) = length order"
  by (simp add: reordered_def)

lemma rename_simps [simp]:
  "operation (rename renamed i) = operation i" "parameter (rename renamed i) = parameter i"
  "inputs (rename renamed i) = map ((!) renamed) (inputs i)"
  by (simp_all add: rename_def)

lemma reordered_facts:
  assumes "distinct order" "set order = {..<length is}" "inputs_first is order" "length order = length is"
  shows "ordered_inputs (reordered is order)"
    and "\<And>k. ordered_inputs is \<Longrightarrow> k < length is \<Longrightarrow> outputs f (reordered is order) ! k = outputs f is ! (order ! k)"
    and "ordered_inputs is \<Longrightarrow> loose is \<subseteq> {last order} \<Longrightarrow> loose (reordered is order) \<subseteq> {length is - 1}"
proof -
  have perm: "set order = {..<length order}" using assms(2,4) by simp
  note name = renaming_nth [OF assms(1) perm]
  have source: "\<exists>j < k. order ! j = input \<and> renaming order ! input = j"
    if "k < length is" "input \<in> set (inputs (is ! (order ! k)))" for k input
  proof -
    have "input \<in> set (take k order)" using assms(3,4) that by (auto simp: inputs_first_def)
    then obtain j where "j < k" "j < length order" "order ! j = input" by (auto simp: in_set_conv_nth)
    then show ?thesis using name by auto
  qed
  show ordered: "ordered_inputs (reordered is order)"
    unfolding ordered_inputs_def using source by (fastforce simp: reordered_def assms(4))
  show "outputs f (reordered is order) ! k = outputs f is ! (order ! k)" if "ordered_inputs is" "k < length is" for k
    using that(2)
  proof (induction k rule: less_induct)
    case (less k)
    have original: "order ! k < length is" using assms(2,4) less.prems nth_mem by fastforce
    have args: "map ((!) (outputs f (reordered is order))) (inputs (reordered is order ! k))
        = map ((!) (outputs f is)) (inputs (is ! (order ! k)))"
      using source [OF less.prems] less.IH less.prems assms(4) by (auto simp: reordered_def)
    have same: "operation (reordered is order ! k) = operation (is ! (order ! k))"
      "parameter (reordered is order ! k) = parameter (is ! (order ! k))"
      using less.prems assms(4) by (simp_all add: reordered_def)
    have "k < length (reordered is order)" using less.prems assms(4) by simp
    from outputs_nth [OF ordered this, of f] outputs_nth [OF that(1) original, of f]
    show ?case unfolding args same by (rule trans [OF _ sym])
  qed
  show "loose (reordered is order) \<subseteq> {length is - 1}" if ordered: "ordered_inputs is" and loose: "loose is \<subseteq> {last order}"
  proof
    fix k assume k: "k \<in> loose (reordered is order)"
    then have len: "k < length order" by (simp add: loose_def)
    show "k \<in> {length is - 1}"
    proof (rule ccontr)
      assume "k \<notin> {length is - 1}"
      then have "k \<noteq> length order - 1" using assms(4) by simp
      moreover have "order \<noteq> []" using len by auto
      ultimately have "order ! k \<noteq> last order"
        using len assms(1) by (simp add: last_conv_nth nth_eq_iff_index_eq)
      then have "order ! k \<notin> loose is" using loose by blast
      moreover have "order ! k < length is" using len assms(2) nth_mem by fastforce
      ultimately obtain i where "i \<in> set is" "order ! k \<in> set (inputs i)" unfolding loose_def by blast
      then obtain j where "j < length is" "order ! k \<in> set (inputs (is ! j))" by (auto simp: in_set_conv_nth)
      then obtain k' where k': "k' < length order" "order ! k \<in> set (inputs (is ! (order ! k')))"
        using assms(2) by (metis in_set_conv_nth lessThan_iff)
      then have "renaming order ! (order ! k) \<in> set (inputs (reordered is order ! k'))" by (simp add: reordered_def)
      then have "k \<in> set (inputs (reordered is order ! k'))" using name [OF len] by simp
      then show False using k k'(1) by (auto simp: loose_def)
    qed
  qed
qed

section \<open>Decoding what was encoded\<close>

text \<open>The instructions of a program of a profile: its inputs and the legal ones.\<close>

definition well_shaped :: "profile \<Rightarrow> nat \<Rightarrow> instruction \<Rightarrow> bool" where
  "well_shaped p top_count i \<longleftrightarrow>
     legal p top_count i \<or> (operation i = 0 \<and> inputs i = [] \<and> parameter i < participants p)"

lemma two_positions: "[0..<2] = [0, 1 :: nat]"
  by (simp add: numeral_2_eq_2)

lemma length_instruction_bytes [simp]: "length (instruction_bytes i) = 16"
  by (simp add: instruction_bytes_def two_positions)

text \<open>The two words of the inputs.\<close>

definition input_word :: "instruction \<Rightarrow> nat \<Rightarrow> nat" where
  "input_word i position = (if position < length (inputs i) then inputs i ! position else u32_bound - 1)"

lemma instruction_fields:
  assumes "operation i < u32_bound" "parameter i < u32_bound" "input_word i 0 < u32_bound" "input_word i 1 < u32_bound"
  shows "le_value (take 4 (instruction_bytes i)) = operation i" "le_value (slice 4 8 (instruction_bytes i)) = input_word i 0"
    "le_value (slice 8 12 (instruction_bytes i)) = input_word i 1" "le_value (drop 12 (instruction_bytes i)) = parameter i"
proof -
  have "instruction_bytes i = le_bytes 4 (operation i) @ le_bytes 4 (input_word i 0) @ le_bytes 4 (input_word i 1) @ le_bytes 4 (parameter i)"
    by (simp add: instruction_bytes_def input_word_def two_positions)
  then show "le_value (take 4 (instruction_bytes i)) = operation i" "le_value (slice 4 8 (instruction_bytes i)) = input_word i 0"
    "le_value (slice 8 12 (instruction_bytes i)) = input_word i 1" "le_value (drop 12 (instruction_bytes i)) = parameter i"
    using assms by (simp_all add: slice_def u32_bound_def)
qed

lemma well_shaped_cases:
  assumes "well_shaped p top_count i"
  obtains (input) "operation i = 0" "inputs i = []" "parameter i < participants p"
  | (pair) "operation i \<in> {1, 2}" "length (inputs i) = 2" "parameter i = 0"
  | (scale) "operation i = 3" "length (inputs i) = 1" "odd (parameter i)" "parameter i \<le> comparison_degree p"
  | (mask) "operation i = 4" "length (inputs i) = 1" "parameter i = 0"
  | (weight) e where "operation i = 4" "length (inputs i) = 1" "0 < e" "e < options p"
      "parameter i = options p * coefficient_family p top_count + e"
  | (add) "operation i = 5" "length (inputs i) = 1" "parameter i \<in> {0, 1, options p + 3}"
  | (ranking) "operation i = 5" "length (inputs i) = 1" "parameter i = 2 + coefficient_family p top_count"
  | (rotate) "operation i = 6" "length (inputs i) = 1" "parameter i = 0"
  using assms unfolding well_shaped_def legal_def by auto

lemma well_shaped_facts:
  assumes p: "rankable p" and k: "1 \<le> top_count" "top_count \<le> options p" and i: "well_shaped p top_count i"
  shows "arity (operation i) = Some (length (inputs i))" "operation i < 7" "parameter i < 512"
    "declared_top_count p (operation i) (parameter i) \<in> {None, Some top_count}"
    "(operation i = 0 \<Longrightarrow> parameter i \<notin> set positions) \<Longrightarrow> valid_parameter p positions (operation i) (parameter i)"
    "operation i = 5 \<and> parameter i = 2 + coefficient_family p top_count \<Longrightarrow>
      declared_top_count p (operation i) (parameter i) = Some top_count"
proof -
  have counts: "2 \<le> options p" "options p \<le> 20" "participants p \<le> 20" "comparison_degree p \<le> 361"
    using p comparison_bounds [OF p] by (simp_all add: rankable_def)
  define family where "family = coefficient_family p top_count"
  have family: "family \<le> options p - 1" "family = 0 \<longleftrightarrow> top_count = options p" "family \<noteq> 0 \<Longrightarrow> family = top_count"
    using k by (auto simp: family_def coefficient_family_def)
  have weight: "options p * family + e < options p * options p" "(options p * family + e) mod options p \<noteq> 0"
    "(options p * family + e) div options p = family" if "0 < e" "e < options p" for e
  proof -
    have "options p * family + e < options p * (family + 1)" using that by simp
    also have "\<dots> \<le> options p * options p" using family(1) counts(1) by (intro mult_le_mono2) simp
    finally show "options p * family + e < options p * options p" .
  qed (use that in simp_all)
  have square: "options p * options p \<le> 400" using mult_le_mono [OF counts(2) counts(2)] by simp
  note f = family_def [symmetric]
  from i show "arity (operation i) = Some (length (inputs i))" "operation i < 7"
    by (cases rule: well_shaped_cases; auto simp: arity_def)+
  from i show "parameter i < 512"
  proof (cases rule: well_shaped_cases)
    case (weight e)
    then have "options p * family + e < options p * options p"
      by (intro \<open>\<And>e. 0 < e \<Longrightarrow> e < options p \<Longrightarrow> options p * family + e < options p * options p\<close>)
    then show ?thesis using weight(5) square unfolding f by linarith
  qed (use counts family(1) in \<open>auto simp: f\<close>)
  from i show "declared_top_count p (operation i) (parameter i) \<in> {None, Some top_count}"
  proof (cases rule: well_shaped_cases)
    case (weight e)
    then show ?thesis using family unfolding f by (simp add: declared_top_count_def)
  next
    case ranking
    then show ?thesis using family unfolding f by (auto simp: declared_top_count_def)
  qed (auto simp: declared_top_count_def)
  show "valid_parameter p positions (operation i) (parameter i)" if fresh: "operation i = 0 \<Longrightarrow> parameter i \<notin> set positions"
    using i
  proof (cases rule: well_shaped_cases)
    case (weight e)
    then show ?thesis using \<open>\<And>e. 0 < e \<Longrightarrow> e < options p \<Longrightarrow> options p * family + e < options p * options p\<close>
      unfolding f by (simp add: valid_parameter_def)
  next
    case scale
    then have "parameter i mod 2 = 1" "1 \<le> parameter i" by (auto simp: odd_iff_mod_2_eq_one intro: Suc_leI odd_pos)
    then show ?thesis using scale by (simp add: valid_parameter_def)
  next
    case ranking
    moreover have "family < options p" using family(1) counts(1) by linarith
    ultimately show ?thesis unfolding f by (simp add: valid_parameter_def)
  qed (use fresh in \<open>auto simp: valid_parameter_def\<close>)
  show "declared_top_count p (operation i) (parameter i) = Some top_count"
    if "operation i = 5 \<and> parameter i = 2 + coefficient_family p top_count"
    using that family counts unfolding f by (auto simp: declared_top_count_def)
qed

text \<open>The state of the decoder after the instructions so far.\<close>

definition use_count :: "instruction list \<Rightarrow> nat \<Rightarrow> nat" where
  "use_count done k = count_list (concat (map inputs done)) k"

definition decoding_state :: "profile \<Rightarrow> nat \<Rightarrow> nat \<Rightarrow> instruction list \<Rightarrow> decoding" where
  "decoding_state p top_count n done =
     \<lparr>decoded = done, input_positions = rev (map parameter (filter (\<lambda>i. operation i = 0) done)),
       uses = map (use_count done) [0..<n],
       declared = (if \<exists>i \<in> set done. declared_top_count p (operation i) (parameter i) \<noteq> None then Some top_count else None)\<rparr>"

lemma read_inputs_uses:
  assumes "length vs \<le> amount" "\<forall>v \<in> set vs. v < index"
  shows "read_inputs amount index (amount - length vs) (vs @ replicate m (u32_bound - 1)) (done, u)
    = Some (done @ vs, fold (\<lambda>v u. u[v := u ! v + 1]) vs u)"
  using assms
proof (induction vs arbitrary: "done" u)
  case Nil
  have "read_inputs amount index (amount + n) (replicate m (u32_bound - 1)) (done, u) = Some (done, u)" for n
    by (induction m arbitrary: n) (simp_all flip: add_Suc_right)
  from this [of 0] show ?case by simp
next
  case (Cons v vs)
  then have "Suc (amount - length (v # vs)) = amount - length vs" "amount - length (v # vs) < amount" by simp_all
  then show ?case using Cons by simp
qed

lemma fold_uses:
  "\<forall>v \<in> set vs. v < n \<Longrightarrow> fold (\<lambda>v u. u[v := u ! v + 1]) vs (map c [0..<n]) = map (\<lambda>k. c k + count_list vs k) [0..<n]"
proof (induction vs arbitrary: c)
  case (Cons v vs)
  have "(map c [0..<n])[v := map c [0..<n] ! v + 1] = map (\<lambda>k. c k + (if v = k then 1 else 0)) [0..<n]"
    using Cons.prems by (intro nth_equalityI) (auto simp: nth_list_update)
  then show ?case using Cons by (simp add: add.assoc)
qed simp

lemma decode_instruction_encoded:
  assumes p: "rankable p" and k: "1 \<le> top_count" "top_count \<le> options p" and i: "well_shaped p top_count i"
    and inputs: "\<forall>v \<in> set (inputs i). v < length done" and n: "length done < n" "n \<le> MAXIMUM_INSTRUCTIONS"
    and fresh: "operation i = 0 \<Longrightarrow> parameter i \<notin> parameter ` {j \<in> set done. operation j = 0}"
  shows "decode_instruction p (length done) (instruction_bytes i) (decoding_state p top_count n done)
    = Some (decoding_state p top_count n (done @ [i]))"
proof -
  note facts = well_shaped_facts [OF p k i]
  have small: "length done < 1024" using n by (simp add: MAXIMUM_INSTRUCTIONS_def)
  have words: "input_word i q < u32_bound" for q
  proof (cases "q < length (inputs i)")
    case True
    then have "inputs i ! q < length done" using inputs nth_mem by blast
    then show ?thesis using small True by (simp add: input_word_def u32_bound_def)
  qed (simp add: input_word_def u32_bound_def)
  note fields = instruction_fields [OF _ _ words words]
  have bounds: "operation i < u32_bound" "parameter i < u32_bound" using facts(2,3) by (simp_all add: u32_bound_def)
  have len: "length (inputs i) \<le> 2" using facts(1) by (auto simp: arity_def split: if_splits)
  have candidates: "[input_word i 0, input_word i 1] = inputs i @ replicate (2 - length (inputs i)) (u32_bound - 1)"
    using len by (cases "inputs i" rule: remdups_adj.cases) (auto simp: input_word_def numeral_2_eq_2)
  let ?st = "decoding_state p top_count n done"
  have read: "read_inputs (length (inputs i)) (length done) 0 [input_word i 0, input_word i 1] ([], uses ?st)
      = Some (inputs i, map (use_count (done @ [i])) [0..<n])"
  proof -
    have "\<forall>v \<in> set (inputs i). v < n" using inputs n(1) by auto
    from fold_uses [OF this, of "use_count done"]
    have "fold (\<lambda>v u. u[v := u ! v + 1]) (inputs i) (uses ?st) = map (use_count (done @ [i])) [0..<n]"
      by (simp add: decoding_state_def use_count_def)
    then show ?thesis
      using read_inputs_uses [of "inputs i" "length (inputs i)" "length done" "2 - length (inputs i)" "[]" "uses ?st"] inputs
      unfolding candidates by simp
  qed
  have valid: "valid_parameter p (input_positions ?st) (operation i) (parameter i)"
    using facts(5) fresh by (auto simp: decoding_state_def)
  have claim: "declared ?st = None \<or> declared ?st = Some top_count" by (simp add: decoding_state_def)
  have rebuilt: "\<lparr>operation = operation i, inputs = inputs i, parameter = parameter i\<rparr> = i" by simp
  show ?thesis
    unfolding decode_instruction_def fields [OF bounds] Let_def facts(1) bind.bind_lunit read prod.case
    using valid claim facts(4) by (auto simp: decoding_state_def)
qed

lemma decode_instructions_encoded:
  assumes p: "rankable p" and k: "1 \<le> top_count" "top_count \<le> options p"
    and i: "\<forall>i \<in> set (done @ rest). well_shaped p top_count i" and ordered: "ordered_inputs (done @ rest)"
    and n: "length (done @ rest) = n" "n \<le> MAXIMUM_INSTRUCTIONS"
    and fresh: "distinct (map parameter (filter (\<lambda>i. operation i = 0) (done @ rest)))"
  shows "decode_instructions p (length done) (map instruction_bytes rest) (decoding_state p top_count n done)
    = Some (decoding_state p top_count n (done @ rest))"
  using i ordered n(1) fresh
proof (induction rest arbitrary: "done")
  case (Cons i rest)
  have "\<forall>v \<in> set (inputs i). v < length done"
    using Cons.prems(2) unfolding ordered_inputs_def by (auto dest!: spec [of _ "length done"])
  moreover have "parameter i \<notin> parameter ` {j \<in> set done. operation j = 0}" if "operation i = 0"
    using Cons.prems(4) that by auto
  ultimately have "decode_instruction p (length done) (instruction_bytes i) (decoding_state p top_count n done)
      = Some (decoding_state p top_count n (done @ [i]))"
    using Cons.prems(1,3) n(2) by (intro decode_instruction_encoded [OF p k]) simp_all
  moreover have "decode_instructions p (length (done @ [i])) (map instruction_bytes rest) (decoding_state p top_count n (done @ [i]))
      = Some (decoding_state p top_count n ((done @ [i]) @ rest))"
    by (rule Cons.IH) (use Cons.prems in simp_all)
  ultimately show ?case by simp
qed simp

section \<open>The program of a profile\<close>

text \<open>A whole program, as the decoder requires it.\<close>

definition whole_program :: "profile \<Rightarrow> nat \<Rightarrow> instruction list \<Rightarrow> bool" where
  "whole_program p top_count is \<longleftrightarrow> is \<noteq> [] \<and> length is \<le> MAXIMUM_INSTRUCTIONS \<and> ordered_inputs is \<and> loose is \<subseteq> {length is - 1}
     \<and> (\<forall>i \<in> set is. well_shaped p top_count i)
     \<and> distinct (map parameter (filter (\<lambda>i. operation i = 0) is))
     \<and> length (filter (\<lambda>i. operation i = 0) is) = participants p
     \<and> (\<exists>i \<in> set is. operation i = 5 \<and> parameter i = 2 + coefficient_family p top_count)"

definition program_bytes :: "instruction list \<Rightarrow> bytes" where
  "program_bytes is = le_bytes 4 DEGREE @ le_bytes 4 (length is) @ le_bytes 4 (length is - 1) @ concat (map instruction_bytes is)"

lemma length_encoded [simp]: "length (concat (map instruction_bytes is)) = 16 * length is"
  by (induction "is") simp_all

lemma program_identity_value:
  assumes "length program + 4 < u32_bound"
  shows "program_identity E program = Inr (shake256 E (identity_preimage RANKING_PROGRAM_DOMAIN program))"
proof -
  have "labelled RANKING_PROGRAM_DOMAIN"
    by (simp add: RANKING_PROGRAM_DOMAIN_def labelled_def ascii_bytes_def printable_ascii_def)
  then show ?thesis using assms by (simp add: program_identity_def identity_value)
qed

lemma decode_program_bytes:
  assumes p: "rankable p" and k: "1 \<le> top_count" "top_count \<le> options p" and whole: "whole_program p top_count is"
  shows "decode_program E p (program_bytes is) = Inr
    \<lparr>program_hash = shake256 E (identity_preimage RANKING_PROGRAM_DOMAIN (program_bytes is)), instructions = is,
      remaining_uses = (map (use_count is) [0..<length is])[length is - 1 := 1], program_top_count = top_count\<rparr>"
proof -
  let ?n = "length is"
  note w = whole [unfolded whole_program_def]
  have n: "1 \<le> ?n" "?n \<le> 1024" using w by (simp_all add: MAXIMUM_INSTRUCTIONS_def Suc_leI)
  have small: "?n < u32_bound" "?n - 1 < u32_bound" "DEGREE < u32_bound"
    using n by (simp_all add: u32_bound_def DEGREE_def)
  have header: "length (program_bytes is) = 12 + 16 * ?n" "le_value (take 4 (program_bytes is)) = DEGREE"
    "le_value (slice 4 8 (program_bytes is)) = ?n" "le_value (slice 8 12 (program_bytes is)) = ?n - 1"
    "drop 12 (program_bytes is) = concat (map instruction_bytes is)"
    using small by (simp_all add: program_bytes_def slice_def u32_bound_def)
  have chunks: "chunks_exact 16 (concat (map instruction_bytes is)) = map instruction_bytes is"
    by (rule chunks_exact_concat) auto
  have hash: "program_identity E (program_bytes is) = Inr (shake256 E (identity_preimage RANKING_PROGRAM_DOMAIN (program_bytes is)))"
    using header(1) n by (intro program_identity_value) (simp add: u32_bound_def)
  have start: "\<lparr>decoded = [], input_positions = [], uses = replicate ?n 0, declared = None\<rparr> = decoding_state p top_count ?n []"
  proof -
    have "use_count [] = (\<lambda>k. 0)" by (simp add: use_count_def fun_eq_iff)
    then show ?thesis by (simp add: decoding_state_def map_replicate_const)
  qed
  have decoded: "decode_instructions p 0 (map instruction_bytes is) (decoding_state p top_count ?n [])
      = Some (decoding_state p top_count ?n is)"
    using decode_instructions_encoded [OF p k, of "[]" "is" ?n] w by simp
  have used: "use_count is j \<noteq> 0" if j: "j < ?n - 1" for j
  proof -
    have "j \<notin> loose is" using w j by auto
    then obtain i where "i \<in> set is" "j \<in> set (inputs i)" using j by (auto simp: loose_def)
    then show ?thesis by (auto simp: use_count_def count_list_0_iff)
  qed
  then have all_used: "0 \<notin> set (take (?n - 1) (map (use_count is) [0..<?n]))"
    by (auto simp: in_set_conv_nth)
  have declared: "\<exists>i \<in> set is. declared_top_count p (operation i) (parameter i) \<noteq> None"
    using w well_shaped_facts(6) [OF p k] by (metis option.simps(3))
  show ?thesis
    unfolding decode_program_def header Let_def hash and_then_simps chunks start decoded ok_or_simps
    using n w all_used declared by (simp add: decoding_state_def MAXIMUM_INSTRUCTIONS_def)
qed

text \<open>What renaming keeps of an instruction.\<close>

definition shape :: "instruction \<Rightarrow> nat \<times> nat \<times> nat" where
  "shape i = (operation i, parameter i, length (inputs i))"

lemma well_shaped_shape: "shape i = shape j \<Longrightarrow> well_shaped p top_count j \<Longrightarrow> well_shaped p top_count i"
  by (auto simp: shape_def well_shaped_def legal_def)

lemma for_profile_whole:
  assumes p: "rankable p" and k: "1 \<le> top_count" "top_count \<le> options p"
  shows "\<exists>is r b. for_profile p top_count = Some (Some (program_bytes is)) \<and> whole_program p top_count is
    \<and> ranking_instructions p top_count = Some (r, b) \<and> (\<forall>f :: nat \<Rightarrow> nat \<Rightarrow> slots list \<Rightarrow> slots. outputs f is ! (length is - 1) = outputs f b ! r)"
proof -
  obtain r b rest where b: "ranking_instructions p top_count = Some (r, b)" "r < length b" "b = input_instructions p @ rest"
    "\<forall>i \<in> set rest. legal p top_count i" "ordered_inputs b" "loose b \<subseteq> {r}" "length b \<le> 1024"
    "\<exists>i \<in> set b. operation i = 5 \<and> parameter i = 2 + coefficient_family p top_count"
    using ranking_instructions_meaning [OF p k, of undefined undefined] by (elim exE conjE) (rule that)
  obtain seen order where order: "visit b r (replicate (length b) False, []) = Some (seen, order)" "distinct order"
    "set order = {..<length b}" "inputs_first b order" "order \<noteq> []" "last order = r"
    using visit_complete [OF b(5,2,6)] by (elim exE conjE) (rule that)
  have len: "length order = length b" using order(2,3) distinct_card [of order] by simp
  note facts = reordered_facts [OF order(2-4) len]
  let ?is = "reordered b order"
  have last: "order ! (length b - 1) = r" using order(5,6) len by (simp add: last_conv_nth)
  have "renaming order ! r = length b - 1"
    using renaming_nth [OF order(2), of "length b - 1"] order(3) len last b(2) by simp
  then have "builder_encode b r = Some (program_bytes ?is)"
    using order(1) len by (simp add: builder_encode_def program_bytes_def reordered_def comp_def)
  then have encoded: "for_profile p top_count = Some (Some (program_bytes ?is))"
    using k b(1) by (simp add: for_profile_def)
  have whole: "whole_program p top_count ?is"
    unfolding whole_program_def
  proof (intro conjI)
    show "?is \<noteq> []" using order(5) by (simp add: reordered_def)
    show "length ?is \<le> MAXIMUM_INSTRUCTIONS" using b(7) len by (simp add: MAXIMUM_INSTRUCTIONS_def)
    show "ordered_inputs ?is" by (rule facts(1))
    show "loose ?is \<subseteq> {length ?is - 1}" using facts(3) [OF b(5)] b(6) order(6) len by simp
    have each: "\<exists>j \<in> set b. shape i = shape j" if "i \<in> set ?is" for i
      using that order(3) by (auto simp: reordered_def shape_def)
    have inputs: "\<forall>i \<in> set b. well_shaped p top_count i"
      using b(3,4) by (auto simp: well_shaped_def input_instructions_def)
    show "\<forall>i \<in> set ?is. well_shaped p top_count i" using each inputs well_shaped_shape by blast
    have mset: "mset (map shape ?is) = mset (map shape b)"
    proof -
      have "set order = set [0..<length b]" unfolding order(3) set_upt by (rule lessThan_atLeast0)
      then have "mset order = mset [0..<length b]"
        by (rule iffD1 [OF set_eq_iff_mset_eq_distinct [OF order(2) distinct_upt]])
      moreover have "map shape ?is = map (\<lambda>k. shape (b ! k)) order" by (simp add: reordered_def shape_def)
      moreover have "map shape b = map (\<lambda>k. shape (b ! k)) [0..<length b]" by (rule nth_equalityI) simp_all
      ultimately show ?thesis by (simp only: mset_map)
    qed
    have filtered: "map parameter (filter (\<lambda>i. operation i = 0) is) = map (fst \<circ> snd) (filter (\<lambda>t. fst t = 0) (map shape is))" for "is"
      by (induction "is") (simp_all add: shape_def)
    have "filter (\<lambda>i. operation i = 0) rest = []" using b(4) by (auto simp: filter_empty_conv legal_def)
    then have original: "map parameter (filter (\<lambda>i. operation i = 0) b) = [0..<participants p]"
      unfolding b(3) by (simp add: input_instructions_def filter_map comp_def)
    have same: "mset (map parameter (filter (\<lambda>i. operation i = 0) ?is)) = mset [0..<participants p]"
      unfolding original [symmetric] filtered by (simp only: mset_map [of "fst \<circ> snd"] mset_filter mset)
    then show "distinct (map parameter (filter (\<lambda>i. operation i = 0) ?is))"
      using mset_eq_imp_distinct_iff [OF same] by simp
    show "length (filter (\<lambda>i. operation i = 0) ?is) = participants p"
      using mset_eq_length [OF same] by simp
    obtain j where j: "j \<in> set b" "operation j = 5 \<and> parameter j = 2 + coefficient_family p top_count" using b(8) by blast
    then obtain k where "k \<in> set order" "b ! k = j" using order(3) by (auto simp: in_set_conv_nth)
    then show "\<exists>i \<in> set ?is. operation i = 5 \<and> parameter i = 2 + coefficient_family p top_count"
      using j(2) by (auto simp: reordered_def intro!: bexI [of _ k])
  qed
  have "outputs f ?is ! (length ?is - 1) = outputs f b ! r" for f :: "nat \<Rightarrow> nat \<Rightarrow> slots list \<Rightarrow> slots"
    using facts(2) [OF b(5), of "length b - 1" f] b(2) last len by simp
  then show ?thesis using encoded whole b(1) by blast
qed

end
