(* ===== verification/Ranking.thy ===== *)
theory Ranking
  imports Ranking_Codec
begin

text \<open>
  What the encrypted ranking computes: the constants an evaluation runs with
  (\<open>Engine::new\<close> in \<open>encrypted-ranking/src/ranking.rs\<close>), the plaintexts of the
  ballots, and the options the terminal decoder selects
  (\<open>selected_positions\<close> in \<open>evaluation-target/src/terminal.rs\<close>).

  The program of a profile, run on packed ballots, leaves a one exactly at the slot of
  each requested rank's option; decoding these slots gives the options in the order of
  their totals, ties going to the option that is listed first.
\<close>

section \<open>The constants and the inputs of an evaluation\<close>

definition engine_constants :: "profile \<Rightarrow> nat \<Rightarrow> ranking_constants option" where
  "engine_constants p top_count = do {
     (comparison, ranking, offset) \<leftarrow> parameters p top_count;
     mask \<leftarrow> rank_mask p;
     padding \<leftarrow> padding_correction p;
     Some \<lparr>comparison_coefficients = comparison, ranking_coefficients = ranking, input_offset = offset,
       rank_mask_plaintext = mask, padding_plaintext = padding\<rparr> }"

text \<open>
  The plaintext an author contributes: the zero value when no ballot of theirs was accepted
  (\<open>ballot_input\<close> in \<open>evaluation-target/src/target.rs\<close>), else what \<open>encode\<close> in
  \<open>ballot-encryption/src/packing.rs\<close> packs, which the accepted ciphertext encrypts.
\<close>

definition evaluation_input :: "bytes \<Rightarrow> nat list option \<Rightarrow> int list option" where
  "evaluation_input TABLE ballot =
     (case ballot of None \<Rightarrow> Some (replicate DEGREE 0)
      | Some scores \<Rightarrow> (case packing_encode TABLE scores of Some (Inr cs) \<Rightarrow> Some cs | _ \<Rightarrow> None))"

definition valid_ballot :: "profile \<Rightarrow> nat list option \<Rightarrow> bool" where
  "valid_ballot p ballot \<longleftrightarrow>
     (case ballot of None \<Rightarrow> True
      | Some scores \<Rightarrow> length scores = options p \<and> (\<forall>score \<in> set scores. MINIMUM_SCORE \<le> score \<and> score \<le> MAXIMUM_SCORE))"

text \<open>The total score of an option, and the order in which options are ranked.\<close>

definition score_of :: "nat list option \<Rightarrow> nat \<Rightarrow> nat" where
  "score_of ballot option = (case ballot of None \<Rightarrow> 0 | Some scores \<Rightarrow> scores ! option)"

definition total :: "nat list option list \<Rightarrow> nat \<Rightarrow> nat" where
  "total ballots option = (\<Sum>ballot\<leftarrow>ballots. score_of ballot option)"

definition outranks :: "nat list option list \<Rightarrow> nat \<Rightarrow> nat \<Rightarrow> bool" where
  "outranks ballots a b \<longleftrightarrow> total ballots a > total ballots b \<or> (total ballots a = total ballots b \<and> a < b)"

definition rank :: "profile \<Rightarrow> nat list option list \<Rightarrow> nat \<Rightarrow> nat" where
  "rank p ballots option = card {opponent. opponent < options p \<and> outranks ballots opponent option}"

section \<open>The slots of a ballot\<close>

lemma zero_slots: "s < ACTIVE_SLOTS \<Longrightarrow> slot_value (replicate DEGREE 0) m s = 0"
proof -
  assume s: "s < ACTIVE_SLOTS"
  have m: "ENCODING_DEGREE = 2 ^ (10 + 2)" "ENCODING_DEGREE div 2 = 2 ^ Suc 10" by (simp_all add: ENCODING_DEGREE_def)
  let ?cs = "map canonical (replicate DEGREE 0)"
  have len: "16 * 2 ^ (10 + 2) = length ?cs" by (simp add: DEGREE_def)
  have encoding: "encoding_degree (length ?cs) = Some (2 ^ (10 + 2))" using degree_encoding unfolding m by simp
  obtain root ys where ys: "odd_power_values ?cs = Some ys" "length ys = 2 ^ Suc 10"
    "\<And>k. k < 2 ^ Suc 10 \<Longrightarrow> res (ys ! k) = (\<Sum>j<2 ^ Suc 10. res (?cs ! (2 * 16 * j)) * res root ^ (j * (2 * k + 1)))"
    by (rule odd_power_values_value [OF len _ _ encoding]) (simp, simp, rule that)
  have zero: "res (?cs ! (2 * 16 * j)) = 0" if "j < 2 ^ Suc 10" for j
    using that by (simp add: canonical_def DEGREE_def)
  have "res (ys ! k) = 0" if "k < 2 ^ Suc 10" for k
    unfolding ys(3) [OF that] by (intro sum.neutral ballI) (simp only: lessThan_iff zero mult_zero_left)
  moreover have "slot_positions ENCODING_DEGREE ! s < 2 ^ Suc 10"
    using slot_positions_facts(1,3) [of 10] s nth_mem [of s "slot_positions ENCODING_DEGREE"] unfolding m
    by (simp add: ACTIVE_SLOTS_def ENCODING_DEGREE_def)
  ultimately show ?thesis unfolding slot_value_def ys(1) Let_def m(2) by simp
qed

text \<open>The comparison slots of a ballot.\<close>

lemma fold_grid:
  assumes "inj_on g (set is)" "\<forall>i \<in> set is. g i < length vs"
  shows "length (fold (\<lambda>i vs. vs[g i := h i]) is vs) = length vs
    \<and> (\<forall>i \<in> set is. fold (\<lambda>i vs. vs[g i := h i]) is vs ! g i = h i)
    \<and> (\<forall>k < length vs. k \<notin> g ` set is \<longrightarrow> fold (\<lambda>i vs. vs[g i := h i]) is vs ! k = vs ! k)"
  using assms
proof (induction "is" rule: rev_induct)
  case (snoc i "is")
  have IH: "length (fold (\<lambda>i vs. vs[g i := h i]) is vs) = length vs"
    "\<forall>i \<in> set is. fold (\<lambda>i vs. vs[g i := h i]) is vs ! g i = h i"
    "\<forall>k < length vs. k \<notin> g ` set is \<longrightarrow> fold (\<lambda>i vs. vs[g i := h i]) is vs ! k = vs ! k"
    using snoc by (auto intro: inj_on_subset)
  have "j = i" if "j \<in> set is" "g j = g i" for j using snoc.prems(1) that by (auto simp: inj_on_def)
  then show ?case using IH snoc.prems(2) by (auto simp: nth_list_update)
qed simp

definition difference :: "profile \<Rightarrow> nat list option \<Rightarrow> nat \<Rightarrow> int" where
  "difference p ballot s =
     (if s div rank_window p < options p \<and> s mod rank_window p < options p
      then 2 * (int (score_of ballot (s mod rank_window p)) - int (score_of ballot (s div rank_window p))) else 0)"

lemma comparison_slots_value:
  assumes p: "rankable p" and scores: "length scores = options p"
  shows "length (comparison_slots scores (rank_window p) ACTIVE_SLOTS) = ACTIVE_SLOTS"
    "\<forall>v \<in> set (comparison_slots scores (rank_window p) ACTIVE_SLOTS). v < PLAINTEXT_MODULUS"
    "s < ACTIVE_SLOTS \<Longrightarrow> res (comparison_slots scores (rank_window p) ACTIVE_SLOTS ! s) = of_int (difference p (Some scores) s)"
proof -
  note w = window_bounds [OF p]
  let ?w = "rank_window p" and ?n = "options p"
  define g where "g = (\<lambda>i. fst i * ?w + snd i)"
  define h where "h = (\<lambda>i. nat (2 * (int (scores ! snd i) - int (scores ! fst i)) mod int PLAINTEXT_MODULUS))"
  let ?grid = "concat (map (\<lambda>option. map (Pair option) [0..<?n]) [0..<?n])"
  have grid: "set ?grid = {..<?n} \<times> {..<?n}" by auto
  have slots: "comparison_slots scores ?w ACTIVE_SLOTS = fold (\<lambda>i vs. vs[g i := h i]) ?grid (replicate ACTIVE_SLOTS 0)"
    unfolding comparison_slots_def scores g_def h_def by (intro fold_cong) (auto simp: split_beta)
  have parts: "g (a, b) div ?w = a" "g (a, b) mod ?w = b" if "b < ?n" for a b
    using that w(1,3) by (simp_all add: g_def)
  have inj: "inj_on g (set ?grid)"
    unfolding grid using parts by (intro inj_onI) (metis (no_types, lifting) SigmaE lessThan_iff)
  have inside: "g (a, b) < ACTIVE_SLOTS" if "a < ?n" "b < ?n" for a b
  proof -
    have "g (a, b) < Suc a * ?w" using that w(1) by (simp add: g_def)
    also have "\<dots> \<le> ?n * ?w" using that by (intro mult_le_mono1) simp
    finally show ?thesis using w(4) by simp
  qed
  have bounds: "\<forall>i \<in> set ?grid. g i < length (replicate ACTIVE_SLOTS (0 :: nat))"
    unfolding grid using inside by auto
  note F = fold_grid [OF inj bounds, of h, folded slots]
  show len: "length (comparison_slots scores ?w ACTIVE_SLOTS) = ACTIVE_SLOTS" using F by simp
  have at: "comparison_slots scores ?w ACTIVE_SLOTS ! s
      = (if s div ?w < ?n \<and> s mod ?w < ?n then h (s div ?w, s mod ?w) else 0)" if s: "s < ACTIVE_SLOTS" for s
  proof (cases "s div ?w < ?n \<and> s mod ?w < ?n")
    case True
    then have "(s div ?w, s mod ?w) \<in> set ?grid" unfolding grid by simp
    then have "comparison_slots scores ?w ACTIVE_SLOTS ! g (s div ?w, s mod ?w) = h (s div ?w, s mod ?w)" using F by blast
    then show ?thesis using True by (simp add: g_def)
  next
    case False
    have "s \<notin> g ` set ?grid" unfolding grid using False parts by auto
    then have "comparison_slots scores ?w ACTIVE_SLOTS ! s = replicate ACTIVE_SLOTS 0 ! s" using F s by simp
    then show ?thesis unfolding if_not_P [OF False] using s by simp
  qed
  show "\<forall>v \<in> set (comparison_slots scores ?w ACTIVE_SLOTS). v < PLAINTEXT_MODULUS"
  proof
    fix v assume "v \<in> set (comparison_slots scores ?w ACTIVE_SLOTS)"
    then obtain s where "s < ACTIVE_SLOTS" "v = comparison_slots scores ?w ACTIVE_SLOTS ! s"
      unfolding in_set_conv_nth len by blast
    then show "v < PLAINTEXT_MODULUS" using at [of s] by (simp add: h_def nat_less_iff)
  qed
  show "res (comparison_slots scores ?w ACTIVE_SLOTS ! s) = of_int (difference p (Some scores) s)" if "s < ACTIVE_SLOTS"
    unfolding at [OF that] difference_def h_def score_of_def by (simp only: if_distrib [of res] res_of_int fst_conv snd_conv option.case) simp
qed

lemma ballot_slots:
  assumes p: "rankable p" and range: "option_range TABLE = Some r" "range_contains r (options p)" and ballot: "valid_ballot p ballot"
  shows "\<exists>cs. evaluation_input TABLE ballot = Some cs \<and> (\<forall>s < ACTIVE_SLOTS. slot_value cs False s = of_int (difference p ballot s))"
proof (cases ballot)
  case None
  then show ?thesis using zero_slots by (auto simp: evaluation_input_def difference_def score_of_def)
next
  case (Some scores)
  have scores: "length scores = options p" "\<forall>score \<in> set scores. MINIMUM_SCORE \<le> score \<and> score \<le> MAXIMUM_SCORE"
    using ballot Some by (simp_all add: valid_ballot_def)
  note w = window_bounds [OF p]
  let ?slots = "comparison_slots scores (rank_window p) ACTIVE_SLOTS"
  let ?complementary = "scores @ replicate (ACTIVE_SLOTS - length scores) 0"
  have "length scores \<le> ACTIVE_SLOTS" using scores(1) p by (simp add: rankable_def ACTIVE_SLOTS_def ENCODING_DEGREE_def)
  then have len: "length ?complementary = ACTIVE_SLOTS" by simp
  have bounded: "\<forall>v \<in> set ?slots \<union> set ?complementary. v < PLAINTEXT_MODULUS"
    using comparison_slots_value(2) [OF p scores(1)] scores(2) by (auto simp: MAXIMUM_SCORE_def PLAINTEXT_MODULUS_def)
  obtain cs where cs: "encode_orbits ?slots ?complementary DEGREE = Some cs"
    "\<forall>s < ACTIVE_SLOTS. slot_value cs False s = res (?slots ! s) \<and> slot_value cs True s = res (?complementary ! s)"
    using encoded_slots [OF comparison_slots_value(1) [OF p scores(1)] len bounded] by blast
  have checked: "check_scores TABLE scores = Some (Inr ())"
    using range scores by (auto simp: check_scores_def not_le)
  have degree: "is_power_of_two DEGREE" using is_power_of_two_power [of 16] by (simp add: DEGREE_def)
  have window: "next_power_of_two (length scores) = rank_window p" by (simp add: rank_window_def scores(1))
  have quarter: "ENCODING_DEGREE div 4 = ACTIVE_SLOTS" by (simp add: ACTIVE_SLOTS_def)
  have fits: "\<not> ACTIVE_SLOTS < length scores * rank_window p" using w(4) scores(1) by simp
  have "packing_encode TABLE scores = Some (Inr cs)"
    unfolding packing_encode_def encode_with_degree_def checked bind.bind_lunit sum.case degree_encoding Let_def window quarter
    using degree fits cs(1) by (simp add: DEGREE_def)
  then show ?thesis
    using cs(2) comparison_slots_value(3) [OF p scores(1)] by (auto simp: evaluation_input_def Some)
qed

section \<open>The comparisons\<close>

lemma fold_margin:
  "(\<Sum>ballot\<leftarrow>ballots. difference p ballot s) =
    (if s div rank_window p < options p \<and> s mod rank_window p < options p
     then 2 * (int (total ballots (s mod rank_window p)) - int (total ballots (s div rank_window p))) else 0)"
  by (induction ballots) (simp_all add: difference_def total_def algebra_simps)

lemma total_difference:
  assumes "\<forall>ballot \<in> set ballots. valid_ballot p ballot" "a < options p" "b < options p"
  shows "\<bar>int (total ballots a) - int (total ballots b)\<bar> \<le> 9 * int (length ballots)"
  using assms(1)
proof (induction ballots)
  case (Cons ballot ballots)
  have "\<bar>int (score_of ballot a) - int (score_of ballot b)\<bar> \<le> 9"
  proof (cases ballot)
    case (Some scores)
    then have "scores ! a \<in> {1..10}" "scores ! b \<in> {1..10}"
      using Cons.prems assms(2,3) by (auto simp: valid_ballot_def MINIMUM_SCORE_def MAXIMUM_SCORE_def)
    then have "\<bar>int (scores ! a) - int (scores ! b)\<bar> \<le> 9" unfolding atLeastAtMost_iff by linarith
    then show ?thesis using Some by (simp add: score_of_def)
  qed (simp add: score_of_def)
  moreover have "\<bar>int (total ballots a) - int (total ballots b)\<bar> \<le> 9 * int (length ballots)" using Cons by simp
  ultimately show ?case by (simp add: total_def)
qed (simp add: total_def)

definition margin :: "profile \<Rightarrow> nat list option list \<Rightarrow> nat \<Rightarrow> int" where
  "margin p ballots s = (\<Sum>ballot\<leftarrow>ballots. difference p ballot s) + (if earlier p s then 1 else - 1)"

text \<open>The comparison a slot holds: of the option of its window and the opponent of its place in it.\<close>

definition slot_compares :: "profile \<Rightarrow> nat list option list \<Rightarrow> nat \<Rightarrow> bool" where
  "slot_compares p ballots s \<longleftrightarrow> s div rank_window p < options p \<and> s mod rank_window p < options p
     \<and> outranks ballots (s mod rank_window p) (s div rank_window p)"

lemma earlier_iff:
  assumes "rankable p"
  shows "earlier p s \<longleftrightarrow> s div rank_window p < options p \<and> s mod rank_window p < s div rank_window p"
proof
  assume "earlier p s"
  then obtain option opponent where s: "option < options p" "opponent < option" "s = option * rank_window p + opponent"
    unfolding earlier_def by blast
  then have "opponent < rank_window p" using window_bounds(1) [OF assms] by simp
  then show "s div rank_window p < options p \<and> s mod rank_window p < s div rank_window p" using s by simp
next
  assume r: "s div rank_window p < options p \<and> s mod rank_window p < s div rank_window p"
  moreover have "s = s div rank_window p * rank_window p + s mod rank_window p" by simp
  ultimately show "earlier p s" unfolding earlier_def by blast
qed

lemma margin_facts:
  assumes p: "rankable p" and ballots: "\<forall>ballot \<in> set ballots. valid_ballot p ballot" "length ballots = participants p"
  shows "odd (margin p ballots s)" "\<bar>margin p ballots s\<bar> \<le> int (comparison_degree p)"
    "margin p ballots s > 0 \<longleftrightarrow> slot_compares p ballots s"
proof -
  let ?a = "s div rank_window p" and ?b = "s mod rank_window p"
  have degree: "int (comparison_degree p) = 18 * int (participants p) + 1"
    using comparison_bounds(3) [OF p] by linarith
  show "odd (margin p ballots s)" by (simp add: margin_def fold_margin)
  have "\<bar>int (total ballots ?b) - int (total ballots ?a)\<bar> \<le> 9 * int (participants p)" if "?a < options p" "?b < options p"
    using total_difference [OF ballots(1) that(2,1)] ballots(2) by simp
  then show "\<bar>margin p ballots s\<bar> \<le> int (comparison_degree p)"
    unfolding degree margin_def fold_margin by (auto simp: abs_le_iff)
  show "margin p ballots s > 0 \<longleftrightarrow> slot_compares p ballots s"
    unfolding margin_def fold_margin earlier_iff [OF p] slot_compares_def outranks_def by auto
qed

text \<open>What an evaluation runs on: good constants, and plaintexts that pack the ballots.\<close>

definition good_constants :: "profile \<Rightarrow> nat \<Rightarrow> ranking_constants \<Rightarrow> bool" where
  "good_constants p top_count K \<longleftrightarrow>
     good_parameters p top_count (comparison_coefficients K) (ranking_coefficients K) (input_offset K)
     \<and> (\<forall>s < ACTIVE_SLOTS. slot_value (rank_mask_plaintext K) False s = (if s mod rank_window p = 0 then 1 else 0)
          \<and> slot_value (rank_mask_plaintext K) True s = 0)
     \<and> (\<forall>s < ACTIVE_SLOTS. slot_value (padding_plaintext K) False s
            = (if s mod rank_window p = 0 \<and> s div rank_window p \<ge> options p then - 1 else 0)
          \<and> slot_value (padding_plaintext K) True s = 0)"

definition packs :: "profile \<Rightarrow> nat list option list \<Rightarrow> int list list \<Rightarrow> bool" where
  "packs p ballots plaintexts \<longleftrightarrow> length ballots = participants p \<and> length plaintexts = participants p
     \<and> (\<forall>ballot \<in> set ballots. valid_ballot p ballot)
     \<and> (\<forall>i < participants p. \<forall>s < ACTIVE_SLOTS. slot_value (plaintexts ! i) False s = of_int (difference p (ballots ! i) s))"

lemma engine_constants_good:
  assumes p: "rankable p" and k: "1 \<le> top_count" "top_count \<le> options p"
  shows "\<exists>K. engine_constants p top_count = Some K \<and> good_constants p top_count K"
proof -
  obtain comparison ranking offset where P: "parameters p top_count = Some (comparison, ranking, offset)"
    "good_parameters p top_count comparison ranking offset"
    using parameters_good [OF p k] by (elim exE conjE) (rule that)
  obtain mask where M: "rank_mask p = Some mask" "\<forall>s < ACTIVE_SLOTS. slot_value mask False s = (if s mod rank_window p = 0 then 1 else 0)
      \<and> slot_value mask True s = 0"
    using rank_mask_value [of p] by (elim exE conjE) (rule that)
  obtain padding where D: "padding_correction p = Some padding"
    "\<forall>s < ACTIVE_SLOTS. slot_value padding False s = (if s mod rank_window p = 0 \<and> s div rank_window p \<ge> options p then - 1 else 0)
      \<and> slot_value padding True s = 0"
    using padding_correction_value [of p] by (elim exE conjE) (rule that)
  show ?thesis
    using P(2) M(2) D(2) unfolding engine_constants_def P(1) M(1) D(1) bind.bind_lunit prod.case good_constants_def by simp
qed

lemma indicator_sum: "(\<Sum>d<n. if P d then 1 else 0 :: residue) = res (card {d. d < n \<and> P d})" for n :: nat
proof -
  have "{..<n} \<inter> {d. P d} = {d. d < n \<and> P d}" by auto
  then show ?thesis by (simp add: sum.If_cases)
qed

lemma compared_value:
  assumes p: "rankable p" and K: "good_constants p top_count K" and packed: "packs p ballots plaintexts" and s: "s < ACTIVE_SLOTS"
  shows "meaning.compared p K plaintexts p False s = (if slot_compares p ballots s then 1 else 0)"
proof -
  let ?n = "comparison_degree p" and ?c = "comparison_coefficients K" and ?z = "of_int (margin p ballots s) :: residue"
  have ballots: "\<forall>ballot \<in> set ballots. valid_ballot p ballot" "length ballots = participants p"
    using packed by (simp_all add: packs_def)
  note M = margin_facts [OF p ballots, of s]
  have G: "\<forall>i \<le> ?n. i \<noteq> 0 \<longrightarrow> even i \<longrightarrow> (of_int (?c ! i) :: residue) = 0"
    "\<forall>i \<le> ?n. (\<Sum>j\<le>?n. of_int (?c ! j) * of_int (odd_point p i) ^ j) = (if odd_point p i > 0 then 1 else 0 :: residue)"
    "slot_value (input_offset K) False s = (if earlier p s then 1 else - 1)"
    using K s by (simp_all add: good_constants_def good_parameters_def)
  have "(\<Sum>i<participants p. slot_value (plaintexts ! i) False s) = (\<Sum>i<participants p. of_int (difference p (ballots ! i) s))"
    using packed s by (intro sum.cong) (simp_all add: packs_def)
  also have "\<dots> = of_int (\<Sum>ballot\<leftarrow>ballots. difference p ballot s)"
    using ballots(2) by (simp add: sum_list_sum_nth atLeast0LessThan of_int_sum)
  finally have z: "(\<Sum>i<participants p. slot_value (plaintexts ! i) False s) + slot_value (input_offset K) False s = ?z"
    by (simp add: margin_def G(3))
  obtain i where i: "i \<le> ?n" "odd_point p i = margin p ballots s"
  proof -
    have "even (margin p ballots s + int ?n)" using M(1) comparison_bounds(1) [OF p] by simp
    then obtain h where h: "margin p ballots s + int ?n = 2 * h" by (rule evenE)
    have "0 \<le> h" "h \<le> int ?n" using M(2) h unfolding abs_le_iff by linarith+
    then have "nat h \<le> ?n" "odd_point p (nat h) = margin p ballots s"
      using h by (simp_all add: odd_point_def nat_le_iff)
    then show thesis by (rule that)
  qed
  have "meaning.compare_value K ?n ?z + of_int (?c ! 0)
      = (\<Sum>j\<le>?n. (if odd j then of_int (?c ! j) * ?z ^ j else 0) + (if j = 0 then of_int (?c ! 0) else 0))"
    unfolding meaning.compare_value_def sum.distrib by simp
  also have "\<dots> = (\<Sum>j\<le>?n. of_int (?c ! j) * ?z ^ j)" using G(1) by (intro sum.cong) auto
  also have "\<dots> = (if slot_compares p ballots s then 1 else 0)"
    using G(2) [rule_format, OF i(1)] unfolding i(2) M(3) .
  finally show ?thesis unfolding meaning.compared_def by (simp add: slot_meaning_def z)
qed

section \<open>The ranks\<close>

lemma whole_window:
  assumes p: "rankable p" and s: "s < ACTIVE_SLOTS" "s mod rank_window p = 0" and d: "d < rank_window p"
  shows "(s + d) mod ACTIVE_SLOTS = s + d" "s + d < ACTIVE_SLOTS" "(s + d) div rank_window p = s div rank_window p" "(s + d) mod rank_window p = d"
proof -
  note w = window_bounds [OF p]
  obtain a where a: "ACTIVE_SLOTS = rank_window p * a" using w(2) by blast
  obtain q where q: "s = rank_window p * q" using s(2) by (auto simp: mod_eq_0_iff_dvd)
  have "q < a" using s(1) w(3) unfolding a q by simp
  then have "rank_window p * Suc q \<le> ACTIVE_SLOTS" unfolding a by (intro mult_le_mono2) simp
  then show less: "s + d < ACTIVE_SLOTS" using d unfolding q by simp
  then show "(s + d) mod ACTIVE_SLOTS = s + d" by simp
  show "(s + d) div rank_window p = s div rank_window p" "(s + d) mod rank_window p = d" using d w(3) unfolding q by simp_all
qed

definition window_rank :: "profile \<Rightarrow> nat list option list \<Rightarrow> nat \<Rightarrow> nat" where
  "window_rank p ballots u = (if u < options p then rank p ballots u else 0)"

lemma window_rank_bound: "rankable p \<Longrightarrow> window_rank p ballots u < options p"
proof -
  assume p: "rankable p"
  have "rank p ballots u < options p" if "u < options p"
  proof -
    have "{opponent. opponent < options p \<and> outranks ballots opponent u} \<subset> {..<options p}"
      using that by (auto simp: outranks_def)
    then have "rank p ballots u < card {..<options p}" unfolding rank_def by (intro psubset_card_mono) simp_all
    then show ?thesis by simp
  qed
  then show ?thesis using p by (simp add: window_rank_def rankable_def)
qed

lemma masked_value:
  assumes p: "rankable p" and K: "good_constants p top_count K" and packed: "packs p ballots plaintexts" and s: "s < ACTIVE_SLOTS"
  shows "meaning.masked_rank p K plaintexts p False s
    = (if s mod rank_window p = 0 then res (window_rank p ballots (s div rank_window p)) else 0)"
proof (cases "s mod rank_window p = 0")
  case True
  note window = whole_window [OF p s True]
  have "slot_value (rank_mask_plaintext K) False s = 1" using K s True by (simp add: good_constants_def)
  moreover have "(\<Sum>d<rank_window p. meaning.compared p K plaintexts p False ((s + d) mod ACTIVE_SLOTS))
      = (\<Sum>d<rank_window p. if slot_compares p ballots (s + d) then 1 else 0)"
    using window compared_value [OF p K packed] by (intro sum.cong) simp_all
  moreover have "card {d. d < rank_window p \<and> slot_compares p ballots (s + d)} = window_rank p ballots (s div rank_window p)"
  proof -
    have "{d. d < rank_window p \<and> slot_compares p ballots (s + d)}
        = (if s div rank_window p < options p then {d. d < options p \<and> outranks ballots d (s div rank_window p)} else {})"
      using window_bounds(1) [OF p] by (auto simp: slot_compares_def window)
    then show ?thesis by (simp add: window_rank_def rank_def)
  qed
  ultimately show ?thesis using True by (simp add: meaning.masked_rank_def indicator_sum)
next
  case False
  then show ?thesis using K s by (simp add: meaning.masked_rank_def good_constants_def)
qed

lemma mod_once: "a < w + w \<Longrightarrow> a mod w = (if a < w then a else a - w)" for a w :: nat
  by (cases "a < w") (simp_all add: le_mod_geq)

lemma slot_rank_unique:
  assumes "rankable p" "d < rank_window p"
  shows "(s + d) mod rank_window p = 0 \<longleftrightarrow> d = slot_rank p s"
proof -
  let ?w = "rank_window p" and ?r = "s mod rank_window p"
  have w: "0 < ?w" "?r < ?w" using window_bounds(3) [OF assms(1)] by simp_all
  have "(s + d) mod ?w = (?r + d) mod ?w" by (simp add: mod_add_left_eq)
  also have "\<dots> = (if ?r + d < ?w then ?r + d else ?r + d - ?w)" using add_strict_mono [OF w(2) assms(2)] by (rule mod_once)
  finally have sum: "(s + d) mod ?w = (if ?r + d < ?w then ?r + d else ?r + d - ?w)" .
  have rank: "slot_rank p s = (if ?r = 0 then 0 else ?w - ?r)" using w by (simp add: slot_rank_def)
  show ?thesis
  proof (cases "?r = 0 \<or> ?r + d < ?w")
    case True
    then show ?thesis unfolding sum rank using w assms(2) by auto
  next
    case False
    then have "?r + d - ?w = 0 \<longleftrightarrow> d = ?w - ?r" using w(2) by linarith
    then show ?thesis unfolding sum rank using False by simp
  qed
qed

lemma slot_rank_less: "rankable p \<Longrightarrow> slot_rank p s < rank_window p"
  using window_bounds(3) by (simp add: slot_rank_def)

text \<open>The window whose base a slot's rank leads to.\<close>

definition slot_window :: "profile \<Rightarrow> nat \<Rightarrow> nat" where
  "slot_window p s = (s + slot_rank p s) mod ACTIVE_SLOTS div rank_window p"

lemma slot_base:
  assumes "rankable p"
  shows "(s + slot_rank p s) mod ACTIVE_SLOTS = slot_window p s * rank_window p"
proof -
  have "(s + slot_rank p s) mod ACTIVE_SLOTS mod rank_window p = (s + slot_rank p s) mod rank_window p"
    by (rule mod_mod_cancel [OF window_bounds(2) [OF assms]])
  also have "\<dots> = 0" using slot_rank_unique [OF assms slot_rank_less [OF assms], of s s] by simp
  finally show ?thesis unfolding slot_window_def by (simp add: mod_eq_0_iff_dvd)
qed

lemma spread_value:
  assumes p: "rankable p" and K: "good_constants p top_count K" and packed: "packs p ballots plaintexts" and s: "s < ACTIVE_SLOTS"
    and k: "top_count \<le> options p"
  shows "meaning.spread_rank p K plaintexts p top_count False s
    = (if slot_rank p s < top_count then res (window_rank p ballots (slot_window p s)) else 0)"
proof -
  note w = window_bounds [OF p]
  have positive: "0 < ACTIVE_SLOTS" by (simp add: ACTIVE_SLOTS_def ENCODING_DEGREE_def)
  let ?v = "res (window_rank p ballots (slot_window p s))"
  have "meaning.masked_rank p K plaintexts p False ((s + d) mod ACTIVE_SLOTS) = (if d = slot_rank p s then ?v else 0)"
    if "d < top_count" for d
  proof -
    have "d < rank_window p" using that k w(1) by simp
    note unique = slot_rank_unique [OF p this, of s]
    have "(s + d) mod ACTIVE_SLOTS mod rank_window p = (s + d) mod rank_window p" by (rule mod_mod_cancel [OF w(2)])
    then show ?thesis using masked_value [OF p K packed, of "(s + d) mod ACTIVE_SLOTS"] positive unique
      by (simp add: slot_window_def)
  qed
  then have "meaning.spread_rank p K plaintexts p top_count False s = (\<Sum>d<top_count. if d = slot_rank p s then ?v else 0)"
    unfolding meaning.spread_rank_def by (intro sum.cong) simp_all
  then show ?thesis by simp
qed

lemma slot_coordinates:
  assumes p: "rankable p" and s: "s < ACTIVE_SLOTS" and option: "option < options p" and r: "r < rank_window p"
  shows "s = (option * rank_window p + ACTIVE_SLOTS - r) mod ACTIVE_SLOTS \<longleftrightarrow> slot_rank p s = r \<and> slot_window p s = option"
proof -
  note w = window_bounds [OF p]
  have "option * rank_window p \<le> options p * rank_window p" using option by (intro mult_le_mono1) simp
  then have small: "option * rank_window p < ACTIVE_SLOTS" using w(4) by linarith
  have "rank_window p \<le> ACTIVE_SLOTS" using w(2) by (rule dvd_imp_le) (simp add: ACTIVE_SLOTS_def ENCODING_DEGREE_def)
  then have r_small: "r \<le> ACTIVE_SLOTS" and r_strict: "r < ACTIVE_SLOTS" using r by simp_all
  show ?thesis
  proof
    assume eq: "s = (option * rank_window p + ACTIVE_SLOTS - r) mod ACTIVE_SLOTS"
    have "(s + r) mod ACTIVE_SLOTS = (option * rank_window p + ACTIVE_SLOTS - r + r) mod ACTIVE_SLOTS"
      unfolding eq by (rule mod_add_left_eq)
    then have base: "(s + r) mod ACTIVE_SLOTS = option * rank_window p" using r_small small by simp
    have "(s + r) mod rank_window p = (s + r) mod ACTIVE_SLOTS mod rank_window p" by (rule mod_mod_cancel [OF w(2), symmetric])
    then have "slot_rank p s = r" using slot_rank_unique [OF p r, of s] by (simp add: base)
    then show "slot_rank p s = r \<and> slot_window p s = option" using base w(3) by (simp add: slot_window_def)
  next
    assume coordinates: "slot_rank p s = r \<and> slot_window p s = option"
    then have "(s + r) mod ACTIVE_SLOTS = option * rank_window p" using slot_base [OF p, of s] by simp
    moreover have "(s + r) mod ACTIVE_SLOTS = (if s + r < ACTIVE_SLOTS then s + r else s + r - ACTIVE_SLOTS)"
      using s r_small r_strict by (intro mod_once) simp
    ultimately have "s + r = option * rank_window p \<or> s + r = option * rank_window p + ACTIVE_SLOTS"
      by (simp split: if_splits; linarith)
    then have "option * rank_window p + ACTIVE_SLOTS - r = s + ACTIVE_SLOTS \<or> option * rank_window p + ACTIVE_SLOTS - r = s" by linarith
    then show "s = (option * rank_window p + ACTIVE_SLOTS - r) mod ACTIVE_SLOTS" using s by auto
  qed
qed

text \<open>The slots that hold a one: those of the requested ranks' options.\<close>

definition winning_slot :: "profile \<Rightarrow> nat list option list \<Rightarrow> nat \<Rightarrow> nat \<Rightarrow> bool" where
  "winning_slot p ballots top_count s \<longleftrightarrow>
     slot_rank p s < top_count \<and> slot_window p s < options p \<and> rank p ballots (slot_window p s) = slot_rank p s"

lemma ranked_value_slots:
  assumes p: "rankable p" and K: "good_constants p top_count K" and packed: "packs p ballots plaintexts" and s: "s < ACTIVE_SLOTS"
    and k: "1 \<le> top_count" "top_count \<le> options p"
  shows "meaning.ranked_value p K plaintexts p top_count False s = (if winning_slot p ballots top_count s then 1 else 0)"
    "meaning.ranked_value p K plaintexts p top_count True s = 0"
proof -
  note w = window_bounds [OF p]
  let ?t = "slot_rank p s" and ?u = "slot_window p s" and ?f = "coefficient_family p top_count"
  let ?R = "if ?t < top_count then window_rank p ballots ?u else 0"
  have options: "0 < options p" "?f < options p" using k by (auto simp: coefficient_family_def)
  have R: "?R < options p" using window_rank_bound [OF p, of ballots ?u] options by simp
  have spread: "meaning.spread_rank p K plaintexts p top_count False s = res ?R"
    using spread_value [OF p K packed s k(2)] by simp
  have G: "\<forall>r < options p. (\<Sum>e<options p. slot_value (ranking_coefficients K ! e) False s * res r ^ e) = (if ?t < top_count \<and> r = ?t then 1 else 0)"
    "\<forall>e < options p. slot_value (ranking_coefficients K ! e) True s = 0"
    "slot_value (padding_plaintext K) False s = (if s mod rank_window p = 0 \<and> s div rank_window p \<ge> options p then - 1 else 0)"
    "slot_value (padding_plaintext K) True s = 0"
    using K s by (simp_all add: good_constants_def good_parameters_def)
  have terms: "meaning.ranked_value p K plaintexts p top_count m s
      = (\<Sum>e<options p. slot_value (ranking_coefficients K ! e) m s * meaning.spread_rank p K plaintexts p top_count m s ^ e)
        + slot_value (padding_plaintext K) m s" for m
  proof -
    let ?x = "meaning.spread_rank p K plaintexts p top_count m s"
    have split: "{..<options p} = insert 0 {1..<options p}" using options(1) by auto
    have "(\<Sum>e<options p. slot_value (ranking_coefficients K ! e) m s * ?x ^ e)
        = slot_value (ranking_coefficients K ! 0) m s + (\<Sum>e = 1..<options p. slot_value (ranking_coefficients K ! e) m s * ?x ^ e)"
      unfolding split by (subst sum.insert) simp_all
    moreover have "(\<Sum>e\<leftarrow>[1..<options p]. slot_value (if options p * ?f + e = 0 then rank_mask_plaintext K
          else ranking_coefficients K ! ((options p * ?f + e) mod options p)) m s * ?x ^ e)
        = (\<Sum>e = 1..<options p. slot_value (ranking_coefficients K ! e) m s * ?x ^ e)"
      unfolding interv_sum_list_conv_sum_set_nat by (intro sum.cong) simp_all
    ultimately show ?thesis unfolding meaning.ranked_value_def using options(2) by (simp add: add.commute)
  qed
  show "meaning.ranked_value p K plaintexts p top_count True s = 0"
    unfolding terms using G(2,4) by simp
  have zero: "s mod rank_window p = 0 \<longleftrightarrow> ?t = 0" using slot_rank_unique [OF p w(3), of s] by auto
  have here: "s div rank_window p = ?u" if "?t = 0" using that s by (simp add: slot_window_def)
  have sum: "meaning.ranked_value p K plaintexts p top_count False s
      = (if ?t < top_count \<and> ?R = ?t then 1 else 0) + (if ?t = 0 \<and> ?u \<ge> options p then - 1 else 0)"
    unfolding terms spread using G(1) R G(3) zero here by auto
  show "meaning.ranked_value p K plaintexts p top_count False s = (if winning_slot p ballots top_count s then 1 else 0)"
    unfolding sum winning_slot_def window_rank_def using k(1) by (cases "?u < options p") auto
qed

end
