(* ===== verification/Ranking_Result.thy ===== *)
theory Ranking_Result
  imports Ranking Word_Relation
begin

text \<open>
  The terminal decoder of a decrypted result (\<open>selected_positions\<close> in
  \<open>evaluation-target/src/terminal.rs\<close>): it accepts exactly the plaintexts that hold a one
  at the slot of each requested rank's option and a zero everywhere else.
\<close>

section \<open>The decoder\<close>

datatype release_refusal = Release_context | NoResult | Encoding | Release_proof | Release_signature | Incomplete

definition rank_positions :: "profile \<Rightarrow> nat \<Rightarrow> (nat \<times> nat) option list" where
  "rank_positions p top_count =
     fold (\<lambda>(option, place) positions.
         positions[(option * rank_window p + ACTIVE_SLOTS - place) mod ACTIVE_SLOTS := Some (option, place)])
       (concat (map (\<lambda>option. map (Pair option) [0..<top_count]) [0..<options p])) (replicate ACTIVE_SLOTS None)"

fun select_ranked :: "nat list \<Rightarrow> (nat \<times> nat) option list \<Rightarrow> nat \<Rightarrow> nat list \<Rightarrow> nat option list \<Rightarrow> nat option list option" where
  "select_ranked vs positions slot [] selected = Some selected"
| "select_ranked vs positions slot (index # rest) selected =
     (if vs ! (ENCODING_DEGREE div 2 - 1 - index) \<noteq> 0 then None
      else case positions ! slot of
        Some (option, place) \<Rightarrow>
          if vs ! index > 1 \<or> vs ! index = 1 \<and> selected ! place \<noteq> None then None
          else select_ranked vs positions (Suc slot) rest (if vs ! index = 1 then selected[place := Some option] else selected)
      | None \<Rightarrow> if vs ! index \<noteq> 0 then None else select_ranked vs positions (Suc slot) rest selected)"

fun unrepeated :: "bool list \<Rightarrow> nat list \<Rightarrow> bool" where
  "unrepeated seen [] \<longleftrightarrow> True"
| "unrepeated seen (position # rest) \<longleftrightarrow> \<not> seen ! position \<and> unrepeated (seen[position := True]) rest"

text \<open>The outer \<open>None\<close> is an assertion of the transform that fails; it does not occur.\<close>

definition selected_positions :: "profile \<Rightarrow> nat list \<Rightarrow> nat \<Rightarrow> (release_refusal + nat list) option" where
  "selected_positions p coefficients top_count =
     (if \<not> (1 \<le> top_count \<and> top_count \<le> options p) \<or> length coefficients \<noteq> SYSTEMATIC
         \<or> (\<exists>v \<in> set coefficients. v \<ge> PLAINTEXT_MODULUS)
         \<or> (\<exists>(index, v) \<in> set (enumerate 0 coefficients). index mod (2 * SYSTEMATIC div ENCODING_DEGREE) \<noteq> 0 \<and> v \<noteq> 0)
      then Some (Inl Encoding)
      else do {
        vs \<leftarrow> odd_power_values coefficients;
        Some (ok_or Encoding (do {
          selected \<leftarrow> select_ranked vs (rank_positions p top_count) 0 (slot_positions ENCODING_DEGREE) (replicate top_count None);
          result \<leftarrow> those selected;
          if unrepeated (replicate (options p) False) result then Some result else None })) })"

section \<open>The table of positions\<close>

lemma rank_positions_nth:
  assumes p: "rankable p" and k: "top_count \<le> options p" and s: "s < ACTIVE_SLOTS"
  shows "rank_positions p top_count ! s
    = (if slot_rank p s < top_count \<and> slot_window p s < options p then Some (slot_window p s, slot_rank p s) else None)"
proof -
  let ?w = "rank_window p" and ?grid = "concat (map (\<lambda>option. map (Pair option) [0..<top_count]) [0..<options p])"
  define g where "g = (\<lambda>i. (fst i * ?w + ACTIVE_SLOTS - snd i) mod ACTIVE_SLOTS)"
  have positive: "0 < ACTIVE_SLOTS" by (simp add: ACTIVE_SLOTS_def ENCODING_DEGREE_def)
  have grid: "set ?grid = {..<options p} \<times> {..<top_count}" by auto
  have coordinates: "s = g (option, r) \<longleftrightarrow> slot_rank p s = r \<and> slot_window p s = option"
    if "option < options p" "r < top_count" "s < ACTIVE_SLOTS" for option r s
    using slot_coordinates [OF p that(3,1), of r] that(2) k window_bounds(1) [OF p] by (simp add: g_def)
  have inside: "g i < ACTIVE_SLOTS" for i using positive by (simp add: g_def)
  have inj: "inj_on g (set ?grid)"
  proof (rule inj_onI)
    fix i j assume "i \<in> set ?grid" "j \<in> set ?grid" "g i = g j"
    then show "i = j" using coordinates [of "fst i" "snd i" "g i"] coordinates [of "fst j" "snd j" "g i"] inside [of i]
      unfolding grid by (cases i; cases j) auto
  qed
  have table: "rank_positions p top_count = fold (\<lambda>i positions. positions[g i := Some i]) ?grid (replicate ACTIVE_SLOTS None)"
    unfolding rank_positions_def g_def by (intro fold_cong) (auto simp: split_beta)
  note F = fold_grid [OF inj, of "replicate ACTIVE_SLOTS None" Some, folded table, unfolded grid]
  show ?thesis
  proof (cases "slot_rank p s < top_count \<and> slot_window p s < options p")
    case True
    then have "(slot_window p s, slot_rank p s) \<in> {..<options p} \<times> {..<top_count}" by simp
    then have "rank_positions p top_count ! g (slot_window p s, slot_rank p s) = Some (slot_window p s, slot_rank p s)"
      using F inside by auto
    moreover have "s = g (slot_window p s, slot_rank p s)" using True coordinates s by blast
    ultimately show ?thesis using True by simp
  next
    case False
    have "s \<notin> g ` ({..<options p} \<times> {..<top_count})"
    proof
      assume "s \<in> g ` ({..<options p} \<times> {..<top_count})"
      then obtain option r where "option < options p" "r < top_count" "s = g (option, r)" by blast
      then show False using coordinates [of option r s] s False by simp
    qed
    then have "rank_positions p top_count ! s = replicate ACTIVE_SLOTS None ! s" using F inside s by simp
    then show ?thesis unfolding if_not_P [OF False] using s by simp
  qed
qed

section \<open>The scan of the slots\<close>

definition slot_ok :: "nat list \<Rightarrow> (nat \<times> nat) option list \<Rightarrow> nat \<Rightarrow> nat \<Rightarrow> bool" where
  "slot_ok vs positions slot index \<longleftrightarrow> vs ! (ENCODING_DEGREE div 2 - 1 - index) = 0
     \<and> vs ! index \<le> (if positions ! slot = None then 0 else 1)"

fun ones :: "nat list \<Rightarrow> (nat \<times> nat) option list \<Rightarrow> nat \<Rightarrow> nat list \<Rightarrow> (nat \<times> nat) list" where
  "ones vs positions slot [] = []"
| "ones vs positions slot (index # rest) =
     (case positions ! slot of None \<Rightarrow> ones vs positions (Suc slot) rest
      | Some c \<Rightarrow> if vs ! index = 1 then c # ones vs positions (Suc slot) rest else ones vs positions (Suc slot) rest)"

lemma select_ranked_eq:
  assumes "\<forall>c \<in> set (ones vs positions slot is). snd c < length selected"
  shows "select_ranked vs positions slot is selected =
    (if (\<forall>j < length is. slot_ok vs positions (slot + j) (is ! j)) \<and> distinct (map snd (ones vs positions slot is))
        \<and> (\<forall>c \<in> set (ones vs positions slot is). selected ! snd c = None)
     then Some (fold (\<lambda>(option, place) selected. selected[place := Some option]) (ones vs positions slot is) selected) else None)"
  using assms
proof (induction "is" arbitrary: slot selected)
  case (Cons index rest)
  have all: "(\<forall>j < length (index # rest). slot_ok vs positions (slot + j) ((index # rest) ! j))
      \<longleftrightarrow> slot_ok vs positions slot index \<and> (\<forall>j < length rest. slot_ok vs positions (Suc slot + j) (rest ! j))"
    by (auto simp: less_Suc_eq_0_disj)
  show ?case
  proof (cases "vs ! (ENCODING_DEGREE div 2 - 1 - index) = 0")
    case mirror: True
    show ?thesis
    proof (cases "positions ! slot")
      case None
      then show ?thesis using Cons.prems Cons.IH [of "Suc slot" selected] mirror unfolding all by (simp add: slot_ok_def)
    next
      case (Some c)
      obtain option place where c: "c = (option, place)" by fastforce
      consider "vs ! index = 0" | "vs ! index = 1" | "vs ! index > 1" by linarith
      then show ?thesis
      proof cases
        case 1
        then show ?thesis using Cons.prems Cons.IH [of "Suc slot" selected] mirror Some c unfolding all by (simp add: slot_ok_def)
      next
        case 2
        have bound: "place < length selected" "\<forall>c \<in> set (ones vs positions (Suc slot) rest). snd c < length (selected[place := Some option])"
          using Cons.prems 2 Some c by simp_all
        have IH: "select_ranked vs positions (Suc slot) rest (selected[place := Some option]) =
          (if (\<forall>j < length rest. slot_ok vs positions (Suc slot + j) (rest ! j)) \<and> distinct (map snd (ones vs positions (Suc slot) rest))
              \<and> (\<forall>c \<in> set (ones vs positions (Suc slot) rest). selected[place := Some option] ! snd c = None)
           then Some (fold (\<lambda>(option, place) selected. selected[place := Some option]) (ones vs positions (Suc slot) rest)
             (selected[place := Some option])) else None)"
          by (rule Cons.IH [OF bound(2)])
        have fresh: "(\<forall>c \<in> set (ones vs positions (Suc slot) rest). selected[place := Some option] ! snd c = None)
            \<longleftrightarrow> place \<notin> snd ` set (ones vs positions (Suc slot) rest)
               \<and> (\<forall>c \<in> set (ones vs positions (Suc slot) rest). selected ! snd c = None)"
          using bound(1) by (auto simp: nth_list_update)
        show ?thesis
        proof (cases "selected ! place = None")
          case True
          show ?thesis unfolding all using mirror 2 Some c True IH [unfolded fresh] by (auto simp: slot_ok_def)
        next
          case False
          then show ?thesis using mirror 2 Some c by auto
        qed
      next
        case 3
        then show ?thesis using mirror Some c unfolding all by (simp add: slot_ok_def)
      qed
    qed
  next
    case False
    then show ?thesis unfolding all by (simp add: slot_ok_def)
  qed
qed simp

lemma set_ones: "set (ones vs positions slot is) = {c. \<exists>j < length is. positions ! (slot + j) = Some c \<and> vs ! (is ! j) = 1}"
proof (induction "is" arbitrary: slot)
  case (Cons index rest)
  have "{c. \<exists>j < length (index # rest). positions ! (slot + j) = Some c \<and> vs ! ((index # rest) ! j) = 1}
      = {c. positions ! slot = Some c \<and> vs ! index = 1} \<union> {c. \<exists>j < length rest. positions ! (Suc slot + j) = Some c \<and> vs ! (rest ! j) = 1}"
    by (auto simp: less_Suc_eq_0_disj)
  then show ?case using Cons [of "Suc slot"] by (auto split: option.split)
qed simp

lemma distinct_ones:
  assumes "\<And>i j c d. i < j \<Longrightarrow> j < length is \<Longrightarrow> positions ! (slot + i) = Some c \<Longrightarrow> vs ! (is ! i) = 1 \<Longrightarrow>
    positions ! (slot + j) = Some d \<Longrightarrow> vs ! (is ! j) = 1 \<Longrightarrow> snd c \<noteq> snd d"
  shows "distinct (map snd (ones vs positions slot is))"
  using assms
proof (induction "is" arbitrary: slot)
  case (Cons index rest)
  have "distinct (map snd (ones vs positions (Suc slot) rest))"
  proof (rule Cons.IH)
    fix i j c d
    assume "i < j" "j < length rest" "positions ! (Suc slot + i) = Some c" "vs ! (rest ! i) = 1"
      "positions ! (Suc slot + j) = Some d" "vs ! (rest ! j) = 1"
    then show "snd c \<noteq> snd d" using Cons.prems [of "Suc i" "Suc j" c d] by simp
  qed
  moreover have "snd c \<notin> snd ` set (ones vs positions (Suc slot) rest)" if first: "positions ! slot = Some c" "vs ! index = 1" for c
  proof
    assume "snd c \<in> snd ` set (ones vs positions (Suc slot) rest)"
    then obtain d where d: "d \<in> set (ones vs positions (Suc slot) rest)" "snd c = snd d" by blast
    then obtain j where "j < length rest" "positions ! (Suc slot + j) = Some d" "vs ! (rest ! j) = 1" unfolding set_ones by blast
    then show False using Cons.prems [of 0 "Suc j" c d] first d(2) by simp
  qed
  ultimately show ?case
    by (cases "positions ! slot") (simp_all only: ones.simps option.case list.map distinct.simps set_map if_distrib [of "map snd"]
      if_distrib [of distinct], auto simp del: One_nat_def)
qed simp

lemma those_Some_iff: "those xs = Some ys \<longleftrightarrow> xs = map Some ys"
proof (induction xs arbitrary: ys)
  case (Cons x xs)
  then show ?case by (cases ys; cases x) (auto split: option.splits)
qed auto

lemma unrepeated_iff:
  "\<forall>q \<in> set qs. q < length seen \<Longrightarrow> unrepeated seen qs \<longleftrightarrow> distinct qs \<and> (\<forall>q \<in> set qs. \<not> seen ! q)"
  by (induction qs arbitrary: seen) (auto simp: nth_list_update)

lemma fold_ones:
  assumes "distinct (map snd os)" "\<forall>c \<in> set os. snd c < length selected"
  shows "length (fold (\<lambda>(option, place) selected. selected[place := Some option]) os selected) = length selected"
    "c \<in> set os \<Longrightarrow> fold (\<lambda>(option, place) selected. selected[place := Some option]) os selected ! snd c = Some (fst c)"
    "r < length selected \<Longrightarrow> r \<notin> snd ` set os \<Longrightarrow>
      fold (\<lambda>(option, place) selected. selected[place := Some option]) os selected ! r = selected ! r"
proof -
  have eq: "fold (\<lambda>(option, place) selected. selected[place := Some option]) os selected
      = fold (\<lambda>c selected. selected[snd c := Some (fst c)]) os selected"
    by (intro fold_cong) (auto simp: split_beta)
  have "inj_on snd (set os)" using assms(1) by (simp add: distinct_map)
  note F = fold_grid [OF this assms(2), of "\<lambda>c. Some (fst c)"]
  show "length (fold (\<lambda>(option, place) selected. selected[place := Some option]) os selected) = length selected"
    "c \<in> set os \<Longrightarrow> fold (\<lambda>(option, place) selected. selected[place := Some option]) os selected ! snd c = Some (fst c)"
    "r < length selected \<Longrightarrow> r \<notin> snd ` set os \<Longrightarrow>
      fold (\<lambda>(option, place) selected. selected[place := Some option]) os selected ! r = selected ! r"
    using F unfolding eq by blast+
qed

section \<open>The decoder is exact\<close>

text \<open>The slots of a result: a one at the slot of each rank's option, zeros elsewhere.\<close>

definition holds_ranking :: "profile \<Rightarrow> nat list \<Rightarrow> nat list \<Rightarrow> bool" where
  "holds_ranking p vs result \<longleftrightarrow> (\<forall>s < ACTIVE_SLOTS.
     vs ! (ENCODING_DEGREE div 2 - 1 - slot_positions ENCODING_DEGREE ! s) = 0
     \<and> vs ! (slot_positions ENCODING_DEGREE ! s)
         = (if \<exists>r < length result. s = (result ! r * rank_window p + ACTIVE_SLOTS - r) mod ACTIVE_SLOTS then 1 else 0))"

lemma scan_exact:
  assumes p: "rankable p" and k: "1 \<le> top_count" "top_count \<le> options p"
  shows "(\<exists>selected. select_ranked vs (rank_positions p top_count) 0 (slot_positions ENCODING_DEGREE) (replicate top_count None) = Some selected
      \<and> those selected = Some result \<and> unrepeated (replicate (options p) False) result)
    \<longleftrightarrow> length result = top_count \<and> distinct result \<and> (\<forall>option \<in> set result. option < options p) \<and> holds_ranking p vs result"
    (is "?scan \<longleftrightarrow> ?ranking")
proof -
  let ?pos = "slot_positions ENCODING_DEGREE" and ?table = "rank_positions p top_count"
  let ?os = "ones vs ?table 0 ?pos" and ?start = "replicate top_count None :: nat option list"
  define V where "V = (\<lambda>s. vs ! (?pos ! s))"
  have len: "length ?pos = ACTIVE_SLOTS" by (simp add: ACTIVE_SLOTS_def)
  have positive: "0 < ACTIVE_SLOTS" by (simp add: ACTIVE_SLOTS_def ENCODING_DEGREE_def)
  have small: "top_count \<le> rank_window p" using k(2) window_bounds(1) [OF p] by simp
  let ?slot = "\<lambda>option r. (option * rank_window p + ACTIVE_SLOTS - r) mod ACTIVE_SLOTS"
  have coordinates: "s = ?slot option r \<longleftrightarrow> slot_rank p s = r \<and> slot_window p s = option"
    if "option < options p" "r < top_count" "s < ACTIVE_SLOTS" for option r s
    using slot_coordinates [OF p that(3,1), of r] that(2) small by simp
  have inside: "?slot option r < ACTIVE_SLOTS" for option r using positive by simp
  have table: "?table ! s = Some c \<longleftrightarrow> slot_rank p s < top_count \<and> slot_window p s < options p \<and> c = (slot_window p s, slot_rank p s)"
    if "s < ACTIVE_SLOTS" for s c
    using rank_positions_nth [OF p k(2) that] by auto
  have ones: "(option, r) \<in> set ?os \<longleftrightarrow> option < options p \<and> r < top_count \<and> V (?slot option r) = 1" for option r
  proof
    assume "(option, r) \<in> set ?os"
    then obtain s where s: "s < ACTIVE_SLOTS" "?table ! s = Some (option, r)" "V s = 1"
      unfolding set_ones len V_def by auto
    then have bounds: "option < options p" "r < top_count" "slot_rank p s = r" "slot_window p s = option" using table by auto
    then have "s = ?slot option r" using coordinates s(1) by blast
    then show "option < options p \<and> r < top_count \<and> V (?slot option r) = 1" using bounds s(3) by blast
  next
    assume r: "option < options p \<and> r < top_count \<and> V (?slot option r) = 1"
    then have "?table ! ?slot option r = Some (option, r)"
      using table [OF inside] coordinates [OF _ _ inside, of option r option r] by auto
    then show "(option, r) \<in> set ?os" unfolding set_ones len using r inside by (auto simp: V_def)
  qed
  have bounded: "\<forall>c \<in> set ?os. snd c < length ?start" using ones by auto
  have fresh: "\<forall>c \<in> set ?os. ?start ! snd c = None" using bounded by auto
  note scan = select_ranked_eq [OF bounded, unfolded len]
  show ?thesis
  proof
    assume ?scan
    then obtain selected where selected: "select_ranked vs ?table 0 ?pos ?start = Some selected" "selected = map Some result"
      "unrepeated (replicate (options p) False) result"
      unfolding those_Some_iff by blast
    then have ok: "\<forall>s < ACTIVE_SLOTS. slot_ok vs ?table s (?pos ! s)" "distinct (map snd ?os)"
      "selected = fold (\<lambda>(option, place) selected. selected[place := Some option]) ?os ?start"
      unfolding scan by (auto split: if_splits)
    note F = fold_ones [OF ok(2) bounded, folded ok(3)]
    have length: "length result = top_count" using F(1) selected(2) by simp
    have each: "(result ! r, r) \<in> set ?os" if r: "r < top_count" for r
    proof -
      have "selected ! r \<noteq> None" using selected(2) length r by simp
      moreover have "selected ! r = None" if "r \<notin> snd ` set ?os" using F(3) [of r] r that by simp
      ultimately have "r \<in> snd ` set ?os" by (rule contrapos_np)
      then obtain c where c: "c \<in> set ?os" "snd c = r" by blast
      then have "result ! r = fst c" using F(2) [OF c(1)] selected(2) length r by simp
      then show ?thesis using c by auto
    qed
    then have options: "\<forall>option \<in> set result. option < options p"
      using ones length by (auto simp: in_set_conv_nth)
    have distinct: "distinct result" using selected(3) unrepeated_iff [of result "replicate (options p) False"] options by simp
    have "holds_ranking p vs result"
      unfolding holds_ranking_def
    proof (intro allI impI conjI)
      fix s assume s: "s < ACTIVE_SLOTS"
      have slot: "slot_ok vs ?table s (?pos ! s)" using ok(1) s by blast
      then show "vs ! (ENCODING_DEGREE div 2 - 1 - ?pos ! s) = 0" by (simp add: slot_ok_def)
      show "vs ! (?pos ! s) = (if \<exists>r < length result. s = ?slot (result ! r) r then 1 else 0)"
      proof (cases "V s = 1")
        case True
        then have "?table ! s \<noteq> None" using slot unfolding slot_ok_def V_def by (metis One_nat_def not_one_le_zero)
        then obtain c where "?table ! s = Some c" by blast
        then have c: "slot_rank p s < top_count" "slot_window p s < options p" using table [OF s] by simp_all
        then have eq: "s = ?slot (slot_window p s) (slot_rank p s)" using coordinates [OF c(2,1) s] by simp
        then have member: "(slot_window p s, slot_rank p s) \<in> set ?os" using ones c True by simp
        have "result ! slot_rank p s = slot_window p s" using F(2) [OF member] selected(2) length c(1) by simp
        then have "\<exists>r < length result. s = ?slot (result ! r) r" using eq c(1) length by (intro exI [of _ "slot_rank p s"]) simp
        then show ?thesis using True by (simp add: V_def)
      next
        case False
        have "\<not> (\<exists>r < length result. s = ?slot (result ! r) r)" using each ones length False by auto
        moreover have "V s \<le> 1" using slot by (simp add: slot_ok_def V_def split: if_splits)
        ultimately show ?thesis using False by (simp add: V_def)
      qed
    qed
    then show ?ranking using length distinct options by blast
  next
    assume ranking: ?ranking
    then have length: "length result = top_count" and options: "\<And>r. r < top_count \<Longrightarrow> result ! r < options p"
      and distinct: "distinct result" by auto
    have zero: "vs ! (ENCODING_DEGREE div 2 - 1 - ?pos ! s) = 0" if "s < ACTIVE_SLOTS" for s
      using ranking that by (simp add: holds_ranking_def)
    have V: "V s = (if \<exists>r < top_count. s = ?slot (result ! r) r then 1 else 0)" if "s < ACTIVE_SLOTS" for s
      using ranking that length by (simp add: holds_ranking_def V_def)
    have winner: "result ! slot_rank p s = slot_window p s \<and> slot_rank p s < top_count \<and> slot_window p s < options p"
      if s: "s < ACTIVE_SLOTS" and one: "V s = 1" for s
    proof -
      obtain r where "r < top_count" "s = ?slot (result ! r) r" using V [OF s] one by (auto split: if_splits)
      then show ?thesis using coordinates [OF options _ s] options by metis
    qed
    have "\<forall>s < ACTIVE_SLOTS. slot_ok vs ?table s (?pos ! s)"
    proof (intro allI impI)
      fix s assume s: "s < ACTIVE_SLOTS"
      have "V s \<le> 1" "V s = 1 \<longrightarrow> ?table ! s \<noteq> None" using V [OF s] winner [OF s] table [OF s] by auto
      then show "slot_ok vs ?table s (?pos ! s)" using zero [OF s] by (auto simp: slot_ok_def V_def le_Suc_eq)
    qed
    moreover have different: "distinct (map snd ?os)"
    proof (rule distinct_ones)
      fix i j c d assume ij: "i < j" "j < length ?pos" "?table ! (0 + i) = Some c" "vs ! (?pos ! i) = 1"
        "?table ! (0 + j) = Some d" "vs ! (?pos ! j) = 1"
      have slots: "i < ACTIVE_SLOTS" "j < ACTIVE_SLOTS" using ij(1,2) len by simp_all
      have c: "snd c = slot_rank p i" "snd d = slot_rank p j" using table [OF slots(1)] table [OF slots(2)] ij by simp_all
      have wi: "result ! slot_rank p i = slot_window p i \<and> slot_rank p i < top_count \<and> slot_window p i < options p"
        and wj: "result ! slot_rank p j = slot_window p j \<and> slot_rank p j < top_count \<and> slot_window p j < options p"
        using winner [OF slots(1)] winner [OF slots(2)] ij by (simp_all add: V_def)
      show "snd c \<noteq> snd d"
      proof
        assume "snd c = snd d"
        then have "slot_rank p i = slot_rank p j" "slot_window p i = slot_window p j" using c wi wj by simp_all
        then have "i = j"
          using coordinates [of "slot_window p i" "slot_rank p i" i] coordinates [of "slot_window p i" "slot_rank p i" j] wi slots by simp
        then show False using ij(1) by simp
      qed
    qed
    ultimately have scanned: "select_ranked vs ?table 0 ?pos ?start
        = Some (fold (\<lambda>(option, place) selected. selected[place := Some option]) ?os ?start)"
      unfolding scan using fresh by simp
    note F = fold_ones [OF different bounded]
    have "fold (\<lambda>(option, place) selected. selected[place := Some option]) ?os ?start = map Some result"
    proof (rule nth_equalityI)
      show "length (fold (\<lambda>(option, place) selected. selected[place := Some option]) ?os ?start) = length (map Some result)"
        using F(1) length by simp
      fix r assume "r < length (fold (\<lambda>(option, place) selected. selected[place := Some option]) ?os ?start)"
      then have r: "r < top_count" using F(1) by simp
      then have "V (?slot (result ! r) r) = 1" using V [OF inside] by auto
      then have "(result ! r, r) \<in> set ?os" using ones options r by blast
      then show "fold (\<lambda>(option, place) selected. selected[place := Some option]) ?os ?start ! r = map Some result ! r"
        using F(2) [of "(result ! r, r)"] length r by simp
    qed
    moreover have "unrepeated (replicate (options p) False) result"
      using unrepeated_iff [of result "replicate (options p) False"] ranking by simp
    ultimately show ?scan using scanned by (simp add: those_Some_iff)
  qed
qed

end
