(* ===== verification/Ranking_Order.thy ===== *)
theory Ranking_Order
  imports Ranking_Result Poll
begin

text \<open>
  The encrypted ranking from ballots to result: the program of a profile, decoded and run on
  the packed ballots, leaves a plaintext from which the terminal decoder reads the options
  sorted by their totals.
\<close>

section \<open>Ranks are places in the sorted list\<close>

definition ranking_of :: "profile \<Rightarrow> nat list option list \<Rightarrow> nat list" where
  "ranking_of p ballots = sort_key (\<lambda>option. - int (total ballots option)) [0..<options p]"

lemma insort_outranks:
  assumes "sorted_wrt (outranks ballots) ys" "\<forall>y \<in> set ys. x < y"
  shows "sorted_wrt (outranks ballots) (insort_key (\<lambda>option. - int (total ballots option)) x ys)"
  using assms
proof (induction ys)
  case (Cons y ys)
  show ?case
  proof (cases "- int (total ballots x) \<le> - int (total ballots y)")
    case True
    then have first: "outranks ballots x y" using Cons.prems(2) by (auto simp: outranks_def)
    have "outranks ballots x z" if "z \<in> set ys" for z
      using first Cons.prems that by (auto simp: outranks_def)
    then show ?thesis using True first Cons.prems(1) by simp
  next
    case False
    then have "outranks ballots y x" by (simp add: outranks_def)
    then show ?thesis using False Cons by (auto simp: set_insort_key)
  qed
qed simp

lemma sort_outranks:
  "sorted_wrt (<) xs \<Longrightarrow> sorted_wrt (outranks ballots) (sort_key (\<lambda>option. - int (total ballots option)) xs)"
proof (induction xs)
  case (Cons x xs)
  then have "sorted_wrt (outranks ballots) (insort_key (\<lambda>option. - int (total ballots option)) x
      (sort_key (\<lambda>option. - int (total ballots option)) xs))"
    by (intro insort_outranks) simp_all
  then show ?case by (simp add: sort_key_def)
qed (simp add: sort_key_def)

lemma ranking_of_facts:
  shows "length (ranking_of p ballots) = options p" "set (ranking_of p ballots) = {..<options p}" "distinct (ranking_of p ballots)"
    "sorted_wrt (outranks ballots) (ranking_of p ballots)"
  using sort_outranks [of "[0..<options p]" ballots]
  by (auto simp: ranking_of_def)

lemma rank_of_place:
  assumes r: "r < options p"
  shows "rank p ballots (ranking_of p ballots ! r) = r"
proof -
  let ?order = "ranking_of p ballots"
  note F = ranking_of_facts [where p = p and ballots = ballots]
  have before: "outranks ballots (?order ! i) (?order ! j)" if "i < j" "j < options p" for i j
    using sorted_wrt_nth_less [OF F(4) that(1)] that F(1) by simp
  have "{opponent. opponent < options p \<and> outranks ballots opponent (?order ! r)} = set (take r ?order)"
  proof (intro set_eqI iffI)
    fix x assume x: "x \<in> {opponent. opponent < options p \<and> outranks ballots opponent (?order ! r)}"
    then have "x \<in> set ?order" using F(2) by simp
    then obtain i where i: "i < options p" "x = ?order ! i" using F(1) by (auto simp: in_set_conv_nth)
    have "i < r"
    proof (rule ccontr)
      assume "\<not> i < r"
      then have "i = r \<or> outranks ballots (?order ! r) (?order ! i)" using before [of r i] i(1) \<open>\<not> i < r\<close> by (cases "i = r") simp_all
      then show False using x i(2) by (auto simp: outranks_def)
    qed
    then show "x \<in> set (take r ?order)" using i r F(1) by (auto simp: in_set_conv_nth)
  next
    fix x assume "x \<in> set (take r ?order)"
    then obtain i where "i < r" "x = ?order ! i" by (auto simp: in_set_conv_nth)
    moreover from this have "x \<in> set ?order" using r F(1) by simp
    ultimately show "x \<in> {opponent. opponent < options p \<and> outranks ballots opponent (?order ! r)}"
      using before [of i r] r F(2) by simp
  qed
  moreover have "card (set (take r ?order)) = r" using F(1,3) r by (simp add: distinct_card)
  ultimately show ?thesis by (simp add: rank_def)
qed

lemma winning_slot_iff:
  assumes p: "rankable p" and k: "top_count \<le> options p" and s: "s < ACTIVE_SLOTS"
  shows "winning_slot p ballots top_count s
    \<longleftrightarrow> (\<exists>r < length (take top_count (ranking_of p ballots)).
          s = (take top_count (ranking_of p ballots) ! r * rank_window p + ACTIVE_SLOTS - r) mod ACTIVE_SLOTS)"
proof -
  let ?order = "ranking_of p ballots"
  note F = ranking_of_facts [where p = p and ballots = ballots]
  have len: "length (take top_count ?order) = top_count" using F(1) k by simp
  have at: "s = (?order ! r * rank_window p + ACTIVE_SLOTS - r) mod ACTIVE_SLOTS \<longleftrightarrow> slot_rank p s = r \<and> slot_window p s = ?order ! r"
    if "r < top_count" for r
  proof -
    have "?order ! r \<in> set ?order" using that k F(1) by simp
    then have "?order ! r < options p" using F(2) by simp
    then show ?thesis using slot_coordinates [OF p s, of "?order ! r" r] that k window_bounds(1) [OF p] by simp
  qed
  have "winning_slot p ballots top_count s \<longleftrightarrow> slot_rank p s < top_count \<and> slot_window p s = ?order ! slot_rank p s"
  proof
    assume w: "winning_slot p ballots top_count s"
    then have "slot_window p s \<in> set ?order" using F(2) by (simp add: winning_slot_def)
    then obtain j where j: "j < options p" "?order ! j = slot_window p s" using F(1) by (auto simp: in_set_conv_nth)
    then have "j = slot_rank p s" using rank_of_place [OF j(1), of ballots] w by (simp add: winning_slot_def)
    then show "slot_rank p s < top_count \<and> slot_window p s = ?order ! slot_rank p s" using w j(2) by (simp add: winning_slot_def)
  next
    assume r: "slot_rank p s < top_count \<and> slot_window p s = ?order ! slot_rank p s"
    then have "slot_rank p s < options p" using k by simp
    moreover from this have "?order ! slot_rank p s \<in> set ?order" using F(1) by simp
    ultimately show "winning_slot p ballots top_count s"
      using r rank_of_place [of "slot_rank p s" p ballots] F(2) by (simp add: winning_slot_def)
  qed
  also have "\<dots> \<longleftrightarrow> (\<exists>r < top_count. slot_rank p s = r \<and> slot_window p s = ?order ! r)" by blast
  also have "\<dots> \<longleftrightarrow> (\<exists>r < top_count. s = (?order ! r * rank_window p + ACTIVE_SLOTS - r) mod ACTIVE_SLOTS)"
    using at by blast
  finally show ?thesis unfolding len by (simp cong: conj_cong)
qed

section \<open>Plaintexts of a result\<close>

text \<open>The coefficients the terminal decoder takes: canonical, and zero outside the plaintext subring.\<close>

definition result_coefficients :: "nat list \<Rightarrow> bool" where
  "result_coefficients cs \<longleftrightarrow> length cs = SYSTEMATIC \<and> (\<forall>v \<in> set cs. v < PLAINTEXT_MODULUS)
     \<and> (\<forall>index < length cs. index mod (2 * SYSTEMATIC div ENCODING_DEGREE) \<noteq> 0 \<longrightarrow> cs ! index = 0)"

definition decrypts_to :: "nat list \<Rightarrow> slots \<Rightarrow> bool" where
  "decrypts_to cs v \<longleftrightarrow> result_coefficients cs
     \<and> (\<forall>s < ACTIVE_SLOTS. \<forall>mirrored. slot_value (map int cs) mirrored s = v mirrored s)"

lemma canonical_int: "v < PLAINTEXT_MODULUS \<Longrightarrow> canonical (int v) = v"
  by (simp add: canonical_def)

lemma canonical_bound [simp]: "canonical c < PLAINTEXT_MODULUS"
  by (simp add: canonical_def nat_less_iff)

lemma result_values:
  assumes "length cs = SYSTEMATIC"
  shows "\<exists>vs. odd_power_values cs = Some vs \<and> length vs = ENCODING_DEGREE div 2 \<and> (\<forall>v \<in> set vs. v < PLAINTEXT_MODULUS)"
proof -
  have m: "ENCODING_DEGREE = 2 ^ (10 + 2)" "ENCODING_DEGREE div 2 = 2 ^ Suc 10" by (simp_all add: ENCODING_DEGREE_def)
  have len: "16 * 2 ^ (10 + 2) = length cs" using assms by (simp add: SYSTEMATIC_def DEGREE_def)
  have encoding: "encoding_degree (length cs) = Some (2 ^ (10 + 2))"
    using degree_encoding assms unfolding m by (simp add: SYSTEMATIC_def)
  obtain ys where "odd_power_values cs = Some ys" "length ys = 2 ^ Suc 10" "\<forall>v \<in> set ys. v < PLAINTEXT_MODULUS"
    by (rule odd_power_values_value [OF len _ _ encoding]) (simp, simp, rule that)
  then show ?thesis unfolding m(2) by blast
qed

lemma position_bounds:
  assumes "s < ACTIVE_SLOTS"
  shows "slot_positions ENCODING_DEGREE ! s < ENCODING_DEGREE div 2"
proof -
  have m: "ENCODING_DEGREE = 2 ^ (10 + 2)" "ENCODING_DEGREE div 2 = 2 ^ (10 + 1)" "ACTIVE_SLOTS = 2 ^ 10"
    by (simp_all add: ENCODING_DEGREE_def ACTIVE_SLOTS_def)
  have "s < length (slot_positions (2 ^ (10 + 2)))" using slot_positions_facts(1) [of 10] assms m(3) by simp
  then have "slot_positions (2 ^ (10 + 2)) ! s \<in> set (slot_positions (2 ^ (10 + 2)))" by (rule nth_mem)
  then show ?thesis using slot_positions_facts(3) [of 10] unfolding m(1,2) m(2) [unfolded m(1)] by blast
qed

lemma decrypted_ranking:
  assumes p: "rankable p" and k: "1 \<le> top_count" "top_count \<le> options p" and cs: "decrypts_to cs v"
    and v: "\<forall>s < ACTIVE_SLOTS. v False s = (if winning_slot p ballots top_count s then 1 else 0) \<and> v True s = 0"
  shows "selected_positions p cs top_count = Some (Inr (take top_count (ranking_of p ballots)))"
proof -
  let ?result = "take top_count (ranking_of p ballots)"
  have shape: "length cs = SYSTEMATIC" "\<forall>v \<in> set cs. v < PLAINTEXT_MODULUS"
    "\<forall>index < length cs. index mod (2 * SYSTEMATIC div ENCODING_DEGREE) \<noteq> 0 \<longrightarrow> cs ! index = 0"
    using cs by (simp_all add: decrypts_to_def result_coefficients_def)
  obtain vs where vs: "odd_power_values cs = Some vs" "length vs = ENCODING_DEGREE div 2" "\<forall>v \<in> set vs. v < PLAINTEXT_MODULUS"
    using result_values [OF shape(1)] by blast
  have same: "map canonical (map int cs) = cs" using shape(2) by (simp add: map_idI canonical_int)
  have small: "vs ! i < PLAINTEXT_MODULUS" if "i < ENCODING_DEGREE div 2" for i using vs(2,3) that by simp
  have zero: "(0 :: nat) < PLAINTEXT_MODULUS" "(1 :: nat) < PLAINTEXT_MODULUS" by (simp_all add: PLAINTEXT_MODULUS_def)
  have "holds_ranking p vs ?result"
    unfolding holds_ranking_def
  proof (intro allI impI conjI)
    fix s assume s: "s < ACTIVE_SLOTS"
    let ?i = "slot_positions ENCODING_DEGREE ! s"
    have i: "?i < ENCODING_DEGREE div 2" by (rule position_bounds [OF s])
    have "slot_value (map int cs) True s = 0" "slot_value (map int cs) False s = (if winning_slot p ballots top_count s then 1 else 0)"
      using cs v s by (simp_all add: decrypts_to_def)
    then have R: "res (vs ! (ENCODING_DEGREE div 2 - 1 - ?i)) = res 0"
      "res (vs ! ?i) = res (if winning_slot p ballots top_count s then 1 else 0)"
      unfolding slot_value_def same vs(1) Let_def by simp_all
    have "ENCODING_DEGREE div 2 - 1 - ?i < ENCODING_DEGREE div 2" using i by linarith
    then show "vs ! (ENCODING_DEGREE div 2 - 1 - ?i) = 0" using R(1) res_inject [OF small zero(1)] by blast
    have "(if winning_slot p ballots top_count s then 1 else 0 :: nat) < PLAINTEXT_MODULUS" using zero by simp
    then have "vs ! ?i = (if winning_slot p ballots top_count s then 1 else 0)" using R(2) res_inject [OF small [OF i]] by blast
    then show "vs ! ?i = (if \<exists>r < length ?result. s = (?result ! r * rank_window p + ACTIVE_SLOTS - r) mod ACTIVE_SLOTS then 1 else 0)"
      unfolding winning_slot_iff [OF p k(2) s] .
  qed
  moreover have "length ?result = top_count" "distinct ?result" "\<forall>option \<in> set ?result. option < options p"
    using ranking_of_facts [where p = p and ballots = ballots] k by (auto dest: in_set_takeD)
  ultimately obtain selected where selected:
    "select_ranked vs (rank_positions p top_count) 0 (slot_positions ENCODING_DEGREE) (replicate top_count None) = Some selected"
    "those selected = Some ?result" "unrepeated (replicate (options p) False) ?result"
    using scan_exact [OF p k, of vs ?result] by blast
  have "\<not> (\<exists>(index, v) \<in> set (enumerate 0 cs). index mod (2 * SYSTEMATIC div ENCODING_DEGREE) \<noteq> 0 \<and> v \<noteq> 0)"
    using shape(3) by (auto simp: in_set_enumerate_eq)
  then show ?thesis
    unfolding selected_positions_def using k shape(1,2) vs(1) selected by (simp add: not_le)
qed

text \<open>Every zero-one pattern of slots is the plaintext of some coefficients the decoder takes.\<close>

lemma twist_into_off: "\<not> 2 * stride dvd m \<Longrightarrow> twist_into u stride i t vs cs ! m = cs ! m"
proof (induction vs arbitrary: i t cs)
  case (Cons v vs)
  have "2 * stride * i \<noteq> m" using Cons.prems by auto
  then show ?case using Cons by simp
qed simp

lemma decrypts_to_exists:
  assumes v: "\<forall>s < ACTIVE_SLOTS. v False s = (if P s then 1 else 0) \<and> v True s = 0"
  shows "\<exists>cs. decrypts_to cs v"
proof -
  have m: "ENCODING_DEGREE = 2 ^ (10 + 2)" "ACTIVE_SLOTS = 2 ^ 10" by (simp_all add: ENCODING_DEGREE_def ACTIVE_SLOTS_def)
  let ?slots = "map (\<lambda>s. if P s then 1 else 0) [0..<ACTIVE_SLOTS] :: nat list" and ?zero = "replicate ACTIVE_SLOTS (0 :: nat)"
  have lens: "length ?slots = ACTIVE_SLOTS" "length ?zero = ACTIVE_SLOTS" by simp_all
  have bounded: "\<forall>v \<in> set ?slots \<union> set ?zero. v < PLAINTEXT_MODULUS" by (auto simp: PLAINTEXT_MODULUS_def)
  obtain enc where enc: "encode_orbits ?slots ?zero DEGREE = Some enc" "length enc = DEGREE"
    "\<forall>s < ACTIVE_SLOTS. slot_value enc False s = res (?slots ! s) \<and> slot_value enc True s = res (?zero ! s)"
    using encoded_slots [OF lens bounded] by blast
  let ?some = "replicate DEGREE (0 :: nat)"
  have len: "16 * 2 ^ (10 + 2) = length ?some" by (simp add: DEGREE_def)
  have encoding: "encoding_degree (length ?some) = Some (2 ^ (10 + 2))" using degree_encoding unfolding m by simp
  obtain root where root: "primitive_root (2 ^ (10 + 2)) = Some root"
    by (rule odd_power_values_value [OF len _ _ encoding]) (simp, simp, rule that)
  have "DEGREE = 16 * 2 ^ (10 + 2)" by (simp add: DEGREE_def)
  from encode_value [OF this _ lens(1) [unfolded m] lens(2) [unfolded m] degree_encoding [unfolded m] root]
  have form: "\<exists>u t vs. enc = twist_into u 16 0 t vs (replicate DEGREE 0)" using enc(1) unfolding m by auto
  let ?cs = "map canonical enc"
  have stride: "2 * SYSTEMATIC div ENCODING_DEGREE = 2 * 16" by (simp add: SYSTEMATIC_def DEGREE_def ENCODING_DEGREE_def)
  have "?cs ! index = 0" if "index < DEGREE" "index mod (2 * 16) \<noteq> 0" for index
  proof -
    have "\<not> 2 * 16 dvd index" using that(2) by (simp add: dvd_eq_mod_eq_0)
    then have "enc ! index = replicate DEGREE 0 ! index" using form twist_into_off [of 16 index] by auto
    then show ?thesis using that(1) enc(2) by (simp add: canonical_def)
  qed
  then have "result_coefficients ?cs"
    unfolding result_coefficients_def stride using enc(2) by (auto simp: SYSTEMATIC_def)
  moreover have "slot_value (map int ?cs) mirrored s = slot_value enc mirrored s" for mirrored s
  proof -
    have same: "map canonical (map int ?cs) = map canonical enc" by (simp add: canonical_int)
    show ?thesis unfolding slot_value_def same ..
  qed
  moreover have "slot_value enc mirrored s = v mirrored s" if "s < ACTIVE_SLOTS" for mirrored s
    using enc(3) v that by (cases mirrored) simp_all
  ultimately show ?thesis unfolding decrypts_to_def by auto
qed

section \<open>From ballots to result\<close>

lemma ballots_pack:
  assumes p: "rankable p" and range: "option_range TABLE = Some r" "range_contains r (options p)"
    and ballots: "\<forall>ballot \<in> set ballots. valid_ballot p ballot" "length ballots = participants p"
  shows "\<exists>plaintexts. those (map (evaluation_input TABLE) ballots) = Some plaintexts \<and> packs p ballots plaintexts"
proof -
  have "\<exists>cs. evaluation_input TABLE (ballots ! i) = Some cs
      \<and> (\<forall>s < ACTIVE_SLOTS. slot_value cs False s = of_int (difference p (ballots ! i) s))" if "i < participants p" for i
    using ballot_slots [OF p range, of "ballots ! i"] ballots that by simp
  then have "\<exists>ys. those (map (\<lambda>i. evaluation_input TABLE (ballots ! i)) [0..<participants p]) = Some ys \<and> length ys = participants p
      \<and> (\<forall>i < participants p. \<forall>s < ACTIVE_SLOTS. slot_value (ys ! i) False s = of_int (difference p (ballots ! i) s))"
    by (rule those_choice)
  moreover have "map (\<lambda>i. evaluation_input TABLE (ballots ! i)) [0..<participants p] = map (evaluation_input TABLE) ballots"
    using ballots(2) by (intro nth_equalityI) simp_all
  ultimately show ?thesis using ballots by (auto simp: packs_def)
qed

lemma program_value:
  assumes p: "rankable p" and k: "1 \<le> top_count" "top_count \<le> options p"
    and K: "good_constants p top_count K" and packed: "packs p ballots plaintexts"
  shows "\<exists>bs program. for_profile p top_count = Some (Some bs) \<and> decode_program E p bs = Inr program
    \<and> program_top_count program = top_count
    \<and> (\<forall>s < ACTIVE_SLOTS.
        (last (outputs (slot_meaning p K plaintexts) (instructions program))) False s = (if winning_slot p ballots top_count s then 1 else 0)
        \<and> (last (outputs (slot_meaning p K plaintexts) (instructions program))) True s = 0)"
proof -
  let ?f = "slot_meaning p K plaintexts"
  obtain "is" r b where w: "for_profile p top_count = Some (Some (program_bytes is))" "whole_program p top_count is"
    "ranking_instructions p top_count = Some (r, b)"
    "\<forall>f :: nat \<Rightarrow> nat \<Rightarrow> slots list \<Rightarrow> slots. outputs f is ! (length is - 1) = outputs f b ! r"
    using for_profile_whole [OF p k] by (elim exE conjE) (rule that)
  obtain program where program: "decode_program E p (program_bytes is) = Inr program" "instructions program = is"
    "program_top_count program = top_count"
    using decode_program_bytes [OF p k w(2), of E] by simp
  have meaning: "(outputs ?f b ! r) m s = meaning.ranked_value p K plaintexts p top_count m s" if "s < ACTIVE_SLOTS" for m s
    using ranking_instructions_meaning [OF p k, of K plaintexts] w(3) that by auto
  have "is \<noteq> []" using w(2) by (simp add: whole_program_def)
  then have "outputs ?f is \<noteq> []" by (metis length_0_conv length_outputs)
  then have "last (outputs ?f is) = outputs ?f b ! r" using w(4) by (simp add: last_conv_nth)
  then show ?thesis
    using w(1) program meaning ranked_value_slots [OF p K packed _ k] by (intro exI conjI) auto
qed

text \<open>
  C4. The encrypted ranking ranks: for every supported profile and requested length, and for all valid
  ballots of its participants, absent ones included, the program that the evaluation emits is
  accepted by the engine's decoder, the ballots pack, and the slots that the program computes are
  those of a plaintext that the terminal decoder takes; whichever plaintext with these slots it
  takes, it returns the requested number of options in descending order of their totals, an
  option before a later one of equal total.
\<close>

theorem encrypted_ranking_is_the_sorted_ranking:
  assumes "rankable p" "1 \<le> top_count" "top_count \<le> options p"
    and "option_range TABLE = Some r" "range_contains r (options p)"
    and "\<forall>ballot \<in> set ballots. valid_ballot p ballot" "length ballots = participants p"
  shows "\<exists>bs program K plaintexts. for_profile p top_count = Some (Some bs) \<and> decode_program E p bs = Inr program
    \<and> engine_constants p (program_top_count program) = Some K
    \<and> those (map (evaluation_input TABLE) ballots) = Some plaintexts
    \<and> (\<exists>cs. decrypts_to cs (last (outputs (slot_meaning p K plaintexts) (instructions program))))
    \<and> (\<forall>cs. decrypts_to cs (last (outputs (slot_meaning p K plaintexts) (instructions program)))
         \<longrightarrow> selected_positions p cs top_count
               = Some (Inr (take top_count (sort_key (\<lambda>option. - int (total ballots option)) [0..<options p]))))"
proof -
  obtain K where K: "engine_constants p top_count = Some K" "good_constants p top_count K"
    using engine_constants_good [OF assms(1-3)] by blast
  obtain plaintexts where packed: "those (map (evaluation_input TABLE) ballots) = Some plaintexts" "packs p ballots plaintexts"
    using ballots_pack [OF assms(1,4-7)] by blast
  obtain bs program where program: "for_profile p top_count = Some (Some bs)" "decode_program E p bs = Inr program"
    "program_top_count program = top_count"
    "\<forall>s < ACTIVE_SLOTS.
        (last (outputs (slot_meaning p K plaintexts) (instructions program))) False s = (if winning_slot p ballots top_count s then 1 else 0)
        \<and> (last (outputs (slot_meaning p K plaintexts) (instructions program))) True s = 0"
    using program_value [OF assms(1-3) K(2) packed(2), of E] by blast
  show ?thesis
    using program(1-3) K(1) packed(1) decrypts_to_exists [OF program(4)]
      decrypted_ranking [OF assms(1-3) _ program(4), unfolded ranking_of_def]
    by (intro exI [of _ bs] exI [of _ program] exI [of _ K] exI [of _ plaintexts]) simp
qed

theorem encrypted_ranking_is_the_sorted_ranking_witness:
  "\<exists>bs program K plaintexts. for_profile sample_profile 2 = Some (Some bs)
    \<and> decode_program sample_externals sample_profile bs = Inr program
    \<and> engine_constants sample_profile (program_top_count program) = Some K
    \<and> those (map (evaluation_input sample_TABLE) [Some [1, 10, 4], None, Some [3, 2, 9], None, None]) = Some plaintexts
    \<and> (\<exists>cs. decrypts_to cs (last (outputs (slot_meaning sample_profile K plaintexts) (instructions program)))
         \<and> selected_positions sample_profile cs 2 = Some (Inr [2, 1]))"
proof -
  let ?ballots = "[Some [1, 10, 4], None, Some [3, 2, 9], None, None] :: nat list option list"
  have range: "option_range sample_TABLE = Some \<lparr>range_start = 3, range_end = 3\<rparr>"
    by (simp add: option_range_def sample_table)
  have sorted: "take 2 (sort_key (\<lambda>option. - int (total ?ballots option)) [0..<options sample_profile]) = [2, 1]"
    by (simp add: sample_profile_def upt_rec sort_key_def total_def score_of_def)
  have ballots: "\<forall>ballot \<in> set ?ballots. valid_ballot sample_profile ballot"
    by (simp add: valid_ballot_def sample_profile_def MINIMUM_SCORE_def MAXIMUM_SCORE_def)
  have "rankable sample_profile" "(1 :: nat) \<le> 2" "2 \<le> options sample_profile"
    "range_contains \<lparr>range_start = 3, range_end = 3\<rparr> (options sample_profile)" "length ?ballots = participants sample_profile"
    by (simp_all add: rankable_def sample_profile_def range_contains_def)
  note facts = this
  from encrypted_ranking_is_the_sorted_ranking [OF facts(1-3) range facts(4) ballots facts(5), of sample_externals]
  show ?thesis unfolding sorted by blast
qed

text \<open>
  C16. The terminal decoder refuses everything but a ranking: it never fails an assertion, and it
  returns a result exactly when the requested length is allowed, the coefficients are canonical and
  lie in the plaintext subring, and their slots hold a one at the slot of each returned option at
  its rank and zeros everywhere else, for as many distinct options as requested; every other
  plaintext is refused as an encoding error.
\<close>

theorem terminal_decoder_is_exact:
  assumes "rankable p"
  shows "\<exists>outcome. selected_positions p cs top_count = Some outcome
    \<and> (\<forall>refusal. outcome = Inl refusal \<longrightarrow> refusal = Encoding)
    \<and> (\<forall>result. outcome = Inr result \<longleftrightarrow>
         1 \<le> top_count \<and> top_count \<le> options p \<and> result_coefficients cs \<and> length result = top_count \<and> distinct result
         \<and> (\<forall>option \<in> set result. option < options p)
         \<and> (\<exists>vs. odd_power_values cs = Some vs \<and> holds_ranking p vs result))"
proof (cases "1 \<le> top_count \<and> top_count \<le> options p \<and> result_coefficients cs")
  case True
  then have shape: "1 \<le> top_count" "top_count \<le> options p" "length cs = SYSTEMATIC" "\<forall>v \<in> set cs. v < PLAINTEXT_MODULUS"
    "\<not> (\<exists>(index, v) \<in> set (enumerate 0 cs). index mod (2 * SYSTEMATIC div ENCODING_DEGREE) \<noteq> 0 \<and> v \<noteq> 0)"
    by (auto simp: result_coefficients_def in_set_enumerate_eq)
  obtain vs where vs: "odd_power_values cs = Some vs" using result_values [OF shape(3)] by blast
  let ?scan = "do {
      selected \<leftarrow> select_ranked vs (rank_positions p top_count) 0 (slot_positions ENCODING_DEGREE) (replicate top_count None);
      result \<leftarrow> those selected;
      if unrepeated (replicate (options p) False) result then Some result else None }"
  have "\<not> (\<exists>v \<in> set cs. v \<ge> PLAINTEXT_MODULUS)" using shape(4) by (auto simp: not_le)
  then have cond: "\<not> (\<not> (1 \<le> top_count \<and> top_count \<le> options p) \<or> length cs \<noteq> SYSTEMATIC \<or> (\<exists>v \<in> set cs. v \<ge> PLAINTEXT_MODULUS)
      \<or> (\<exists>(index, v) \<in> set (enumerate 0 cs). index mod (2 * SYSTEMATIC div ENCODING_DEGREE) \<noteq> 0 \<and> v \<noteq> 0))"
    using shape(1-3,5) by blast
  have "selected_positions p cs top_count = Some (ok_or Encoding ?scan)"
    unfolding selected_positions_def if_not_P [OF cond] vs bind.bind_lunit ..
  moreover have S: "ok_or Encoding ?scan = Inr result \<longleftrightarrow> length result = top_count \<and> distinct result
      \<and> (\<forall>option \<in> set result. option < options p) \<and> holds_ranking p vs result" for result
    unfolding scan_exact [OF assms shape(1,2), symmetric] ok_or_Inr_iff by (auto simp: bind_eq_Some_conv split: if_splits)
  moreover have "ok_or Encoding ?scan = Inl refusal \<longrightarrow> refusal = Encoding" for refusal by (cases ?scan) simp_all
  moreover have "(\<exists>vs. odd_power_values cs = Some vs \<and> holds_ranking p vs result) \<longleftrightarrow> holds_ranking p vs result" for result
    using vs by simp
  ultimately show ?thesis using True by (intro exI [of _ "ok_or Encoding ?scan"] conjI allI) (assumption, blast, blast)
next
  case False
  then have "\<not> (1 \<le> top_count \<and> top_count \<le> options p) \<or> length cs \<noteq> SYSTEMATIC \<or> (\<exists>v \<in> set cs. v \<ge> PLAINTEXT_MODULUS)
      \<or> (\<exists>(index, v) \<in> set (enumerate 0 cs). index mod (2 * SYSTEMATIC div ENCODING_DEGREE) \<noteq> 0 \<and> v \<noteq> 0)"
    by (fastforce simp: result_coefficients_def in_set_enumerate_eq not_less)
  then have "selected_positions p cs top_count = Some (Inl Encoding)" unfolding selected_positions_def by (rule if_P)
  then show ?thesis using False by auto
qed

theorem terminal_decoder_is_exact_witness:
  "\<exists>outcome. selected_positions sample_profile [] 1 = Some outcome \<and> outcome \<noteq> Inr [0] \<and> outcome = Inl Encoding"
proof -
  have "rankable sample_profile" by (simp add: rankable_def sample_profile_def)
  from terminal_decoder_is_exact [OF this, of "[]" 1]
  obtain outcome where o: "selected_positions sample_profile [] 1 = Some outcome" "\<forall>refusal. outcome = Inl refusal \<longrightarrow> refusal = Encoding"
    "\<forall>result. outcome = Inr result \<longrightarrow> result_coefficients []"
    by blast
  have "\<not> result_coefficients []" by (simp add: result_coefficients_def SYSTEMATIC_def DEGREE_def)
  then show ?thesis using o by (cases outcome) auto
qed

end
