(* ===== verification/Threshold_Decryption.thy ===== *)
theory Threshold_Decryption
  imports Reconstruction Centered_Codec Certification Ranking_Order "HOL-Library.Signed_Division"
begin

text \<open>
  The release of a result (\<open>evaluation-target/src/terminal.rs\<close>, \<open>release.rs\<close>): the collector of
  verified release shares, the decryption from the first shares of a release threshold, and the
  proof that it recovers the plaintext within the noise budget.
\<close>

section \<open>Shares and the collector\<close>

record verified_release_body =
  body_certificate :: inventory_certificate
  body_position :: nat
  body_identity :: bytes
  body_length :: nat
  body_partial :: "int list"

record verified_release_share =
  share_body :: verified_release_body

record release_collector =
  releases_certificate :: inventory_certificate
  release_shares :: "verified_release_share option list"

abbreviation releases_target :: "release_collector \<Rightarrow> verified_evaluation_target" where
  "releases_target K \<equiv> certificate_target (releases_certificate K)"

definition verify_no_result :: "inventory_certificate \<Rightarrow> release_refusal + inventory_certificate" where
  "verify_no_result certificate =
     (if vt_ciphertext (certificate_target certificate) \<noteq> None then Inl Release_context else Inr certificate)"

definition release_collector_new :: "inventory_certificate \<Rightarrow> release_refusal + release_collector" where
  "release_collector_new certificate =
     (let target = certificate_target certificate; p = inputs_profile (vt_setup target) in
      if vt_ciphertext target = None then Inl NoResult
      else if length (roster_records (auth_proposal (inputs_roster (vt_setup target)))) \<noteq> participants p
          \<or> option_count (poll_manifest (vt_poll target)) \<noteq> options p
          \<or> \<not> (1 \<le> unat (poll_top_count (vt_poll target)) \<and> unat (poll_top_count (vt_poll target)) \<le> options p)
      then Inl Release_context
      else Inr \<lparr> releases_certificate = certificate, release_shares = replicate (participants p) None \<rparr>)"

definition release_insert ::
  "verified_release_share \<Rightarrow> release_collector \<Rightarrow> release_collector \<times> (release_refusal + bool)" where
  "release_insert share K =
     (let target = certificate_target (body_certificate (share_body share)) in
      if vt_identity target \<noteq> vt_identity (releases_target K) \<or> vt_body target \<noteq> vt_body (releases_target K)
      then (K, Inl Release_context)
      else case get (release_shares K) (body_position (share_body share)) of
        None \<Rightarrow> (K, Inl Release_context)
      | Some (Some _) \<Rightarrow> (K, Inr False)
      | Some None \<Rightarrow>
          (K\<lparr>release_shares := (release_shares K)[body_position (share_body share) := Some share]\<rparr>, Inr True))"

section \<open>The decryption\<close>

definition release_polynomial :: "bytes \<Rightarrow> bytes \<Rightarrow> release_refusal + int list" where
  "release_polynomial bs modulus =
     (if length bs \<noteq> SYSTEMATIC * record_bytes (centered_half modulus) then Inl release_refusal.Encoding
      else ok_or release_refusal.Encoding (decode_records (centered_half modulus) bs))"

fun modpow :: "int \<Rightarrow> nat \<Rightarrow> int \<Rightarrow> int" where
  "modpow base e modulus =
     (if e = 0 then 1 mod modulus
      else let rest = modpow (base * base mod modulus) (e div 2) modulus in
        if odd e then base * rest mod modulus else rest)"

declare modpow.simps [simp del]

text \<open>The shares that are present, with their positions.\<close>

definition present :: "release_collector \<Rightarrow> (nat \<times> verified_release_share) list" where
  "present K = List.map_filter (\<lambda>(position, share). map_option (Pair position) share) (enumerate 0 (release_shares K))"

fun add_shifted :: "int \<Rightarrow> nat \<Rightarrow> nat \<Rightarrow> int list \<Rightarrow> int list \<Rightarrow> int list" where
  "add_shifted weight shift index [] phase = phase"
| "add_shifted weight shift index (v # rest) phase =
     (let position = index + shift; summand = v * weight in
      add_shifted weight shift (Suc index) rest
        (if position < SYSTEMATIC then phase[position := phase ! position + summand]
         else phase[position - SYSTEMATIC := phase ! (position - SYSTEMATIC) - summand]))"

definition add_share :: "nat \<Rightarrow> int list \<times> int list \<Rightarrow> int list \<Rightarrow> int list" where
  "add_share stride = (\<lambda>(weights, partial) phase.
     fold (\<lambda>(e, weight) phase. if weight = 0 then phase else add_shifted weight (e * stride) 0 partial phase)
       (enumerate 0 weights) phase)"

text \<open>Remainders of the source are truncated.\<close>

definition plaintext_coefficient :: "int \<Rightarrow> int \<Rightarrow> nat \<Rightarrow> int \<Rightarrow> nat" where
  "plaintext_coefficient modulus inverse_clearing inverse_plain_clearing v =
     (let half = modulus div 2;
          v = (v * inverse_clearing) smod modulus;
          v = (if v < 0 then v + modulus else v);
          negative = v > half;
          magnitude = (if negative then modulus - v else v);
          rounded = (magnitude * int PLAINTEXT_MODULUS + half) sdiv modulus;
          v = (if negative then - rounded else rounded);
          residue = (v smod int PLAINTEXT_MODULUS + int PLAINTEXT_MODULUS) smod int PLAINTEXT_MODULUS
      in multiply (nat residue) inverse_plain_clearing)"

record verified_result =
  result_certificate :: inventory_certificate
  result_identifiers :: "bytes list"
  result_participants :: "nat list"

definition result_plaintext :: "profile \<Rightarrow> int \<Rightarrow> int list list \<Rightarrow> int list list \<Rightarrow> int list \<Rightarrow> nat list" where
  "result_plaintext p modulus weights partials constant =
     (let clearing = int (clearing_factor p);
          inverse_clearing = modpow clearing (nat (modulus - 2)) modulus;
          phase = fold (add_share (point_stride p)) (zip weights partials) (map (\<lambda>v. v * clearing * clearing) constant);
          inverse_plain_clearing = power_mod (clearing_factor p) (PLAINTEXT_MODULUS - 2)
      in map (plaintext_coefficient modulus inverse_clearing inverse_plain_clearing) phase)"

text \<open>The outer \<open>None\<close> is a panic: an index out of range or an assertion that fails.\<close>

definition released_result :: "release_collector \<Rightarrow> (release_refusal + verified_result) option" where
  "released_result K =
     (let target = releases_target K; p = inputs_profile (vt_setup target);
          chosen = take (release_threshold p) (present K); positions = map fst chosen in
      if length chosen \<noteq> release_threshold p then Some (Inl Incomplete)
      else do {
        weights \<leftarrow> cleared_weights p positions;
        case weights of Inl _ \<Rightarrow> Some (Inl Release_context)
        | Inr weights \<Rightarrow> do {
            modulus \<leftarrow> to_bytes (release p);
            case vt_ciphertext target of None \<Rightarrow> Some (Inl NoResult)
            | Some cipher \<Rightarrow>
                let width = release_coefficient_bytes p in
                if length cipher < SYSTEMATIC * width then None
                else case release_polynomial (take (SYSTEMATIC * width) cipher) modulus of
                  Inl refusal \<Rightarrow> Some (Inl refusal)
                | Inr constant \<Rightarrow> do {
                    ordered \<leftarrow> selected_positions p
                      (result_plaintext p (int (le_value modulus)) weights
                         (map (\<lambda>(position, share). body_partial (share_body share)) chosen) constant)
                      (unat (poll_top_count (vt_poll target)));
                    case ordered of Inl refusal \<Rightarrow> Some (Inl refusal)
                    | Inr ordered \<Rightarrow>
                        let available = manifest_options (poll_manifest (vt_poll target)) in
                        if \<exists>position \<in> set ordered. position \<ge> length available then None
                        else Some (Inr \<lparr> result_certificate = releases_certificate K,
                               result_identifiers = map (\<lambda>position. option_identifier (available ! position)) ordered,
                               result_participants = positions \<rparr>) } } })"

section \<open>Sums of shifted polynomials\<close>

lemma coefficient_at_antiperiodic:
  assumes "cs \<noteq> []"
  shows "coefficient_at cs (k + int (length cs)) = - coefficient_at cs k"
  using coefficient_at_period [OF assms, of "k + int (length cs)"] by simp

lemma coefficient_at_fold:
  assumes "length cs = n" "index < n" "shift < n"
  shows "coefficient_at cs (int index - int shift) = (if shift \<le> index then cs ! (index - shift) else - (cs ! (index + n - shift)))"
proof (cases "shift \<le> index")
  case True
  then have "int index - int shift = int (index - shift)" by simp
  then show ?thesis using True assms by (simp only: coefficient_at_nth) simp
next
  case False
  then have "int index - int shift = int (index + n - shift) - int (length cs)" using assms by (simp add: of_nat_diff)
  moreover have "cs \<noteq> []" using assms by auto
  moreover have "index + n - shift < length cs" using False assms by linarith
  ultimately show ?thesis using False by (simp add: coefficient_at_period coefficient_at_nth del: of_nat_diff)
qed

lemma length_add_shifted [simp]: "length (add_shifted weight shift index cs phase) = length phase"
  by (induction weight shift index cs phase rule: add_shifted.induct) (simp_all add: Let_def)

lemma add_shifted_nth:
  assumes "shift < SYSTEMATIC" "index + length cs \<le> SYSTEMATIC" "length phase = SYSTEMATIC" "n < SYSTEMATIC"
    and "source = (if shift \<le> n then n - shift else n + SYSTEMATIC - shift)"
  shows "add_shifted weight shift index cs phase ! n = phase ! n + (if index \<le> source \<and> source < index + length cs
      then (if shift \<le> n then cs ! (source - index) * weight else - (cs ! (source - index) * weight)) else 0)"
  using assms(2,3)
proof (induction cs arbitrary: index phase)
  case (Cons c cs)
  define step where "step = (if index + shift < SYSTEMATIC then phase[index + shift := phase ! (index + shift) + c * weight]
    else phase[index + shift - SYSTEMATIC := phase ! (index + shift - SYSTEMATIC) - c * weight])"
  have index: "index < SYSTEMATIC" using Cons.prems(1) by simp
  have hit: "index + shift < SYSTEMATIC \<and> index + shift = n \<longleftrightarrow> index = source \<and> shift \<le> n"
    "index + shift \<ge> SYSTEMATIC \<and> index + shift - SYSTEMATIC = n \<longleftrightarrow> index = source \<and> \<not> shift \<le> n"
    using index assms(1,4) unfolding assms(5) by auto
  have entry: "step ! n = phase ! n + (if index = source then (if shift \<le> n then c * weight else - (c * weight)) else 0)"
  proof (cases "index + shift < SYSTEMATIC")
    case True
    then show ?thesis using hit Cons.prems(2) by (auto simp: step_def nth_list_update)
  next
    case False
    have "index + shift - SYSTEMATIC < length phase" using index assms(1) Cons.prems(2) by linarith
    then show ?thesis using hit False by (auto simp: step_def nth_list_update)
  qed
  have "Suc index + length cs \<le> SYSTEMATIC" "length step = SYSTEMATIC" using Cons.prems by (simp_all add: step_def)
  note IH = Cons.IH [OF this]
  have unfold: "add_shifted weight shift index (c # cs) phase = add_shifted weight shift (Suc index) cs step"
    by (simp add: step_def Let_def)
  show ?case
  proof (cases "index = source")
    case True
    then show ?thesis unfolding unfold IH entry by simp
  next
    case False
    then have "index \<le> source \<and> source < index + length (c # cs) \<longleftrightarrow> Suc index \<le> source \<and> source < Suc index + length cs" by auto
    moreover have "(c # cs) ! (source - index) = cs ! (source - Suc index)" if "Suc index \<le> source"
      using that by (simp add: nth_Cons')
    ultimately show ?thesis using False unfolding unfold IH entry by simp
  qed
qed simp

lemma add_shifted_value:
  assumes "shift < SYSTEMATIC" "length cs = SYSTEMATIC" "length phase = SYSTEMATIC" "n < SYSTEMATIC"
  shows "add_shifted weight shift 0 cs phase ! n = phase ! n + weight * coefficient_at cs (int n - int shift)"
proof -
  have "(if shift \<le> n then n - shift else n + SYSTEMATIC - shift) < SYSTEMATIC" using assms by auto
  then show ?thesis
    using assms add_shifted_nth [OF assms(1) _ assms(3,4) refl, of 0 cs weight]
    by (simp add: coefficient_at_fold mult.commute)
qed

lemma fold_shifts:
  assumes "stride * (first + length weights) \<le> SYSTEMATIC" "0 < stride"
    and "length cs = SYSTEMATIC" "length phase = SYSTEMATIC" "n < SYSTEMATIC"
  shows "fold (\<lambda>(e, weight) phase. if weight = 0 then phase else add_shifted weight (e * stride) 0 cs phase)
      (enumerate first weights) phase ! n
    = phase ! n + (\<Sum>e<length weights. weights ! e * coefficient_at cs (int n - int (stride * (first + e))))"
  using assms(1,4)
proof (induction weights arbitrary: first phase)
  case (Cons weight weights)
  let ?phase = "if weight = 0 then phase else add_shifted weight (first * stride) 0 cs phase"
  have "first * stride < stride * (first + length (weight # weights))" 
    unfolding mult.commute [of first] using assms(2) by (intro mult_strict_left_mono) simp_all
  then have shift: "first * stride < SYSTEMATIC" using Cons.prems(1) by linarith
  have entry: "?phase ! n = phase ! n + weight * coefficient_at cs (int n - int (stride * first))"
    using add_shifted_value [OF shift assms(3) Cons.prems(2) assms(5)] by (simp add: mult.commute)
  have "stride * (Suc first + length weights) \<le> SYSTEMATIC" "length ?phase = SYSTEMATIC"
    using Cons.prems by simp_all
  from Cons.IH [OF this] show ?case
    unfolding enumerate_simps fold_simps comp_apply prod.case entry
    by (simp add: lessThan_Suc_eq_insert_0 sum.reindex zero_notin_Suc_image distrib_left add.left_commute)
qed simp

lemma length_add_share [simp]: "length (add_share stride share phase) = length phase"
proof -
  have "length (fold (\<lambda>(e, weight) phase. if weight = 0 then phase else add_shifted weight (e * stride) 0 cs phase) ws phase) = length phase" for ws cs phase
    by (induction ws arbitrary: phase) (auto split: prod.splits)
  then show ?thesis by (simp add: add_share_def split: prod.splits)
qed

lemma add_shares_value:
  assumes "\<forall>(weights, cs) \<in> set shares. stride * length weights \<le> SYSTEMATIC \<and> length cs = SYSTEMATIC" "0 < stride"
    and "length phase = SYSTEMATIC" "n < SYSTEMATIC"
  shows "fold (add_share stride) shares phase ! n
    = phase ! n + (\<Sum>(weights, cs)\<leftarrow>shares. \<Sum>e<length weights. weights ! e * coefficient_at cs (int n - int (stride * e)))"
  using assms(1,3)
proof (induction shares arbitrary: phase)
  case (Cons share shares)
  obtain weights cs where share: "share = (weights, cs)" by force
  have "add_share stride share phase ! n
      = phase ! n + (\<Sum>e<length weights. weights ! e * coefficient_at cs (int n - int (stride * e)))"
    using fold_shifts [of stride 0 weights cs phase n] Cons.prems assms(2,4) unfolding share add_share_def by simp
  moreover have "fold (add_share stride) shares (add_share stride share phase) ! n = add_share stride share phase ! n
      + (\<Sum>(weights, cs)\<leftarrow>shares. \<Sum>e<length weights. weights ! e * coefficient_at cs (int n - int (stride * e)))"
    using Cons.prems by (intro Cons.IH) simp_all
  ultimately show ?case by (simp add: share)
qed simp

text \<open>A sum over one period does not depend on where it starts.\<close>

lemma shifted_sum:
  assumes "length cs = r" "0 < r" "\<And>u. h (u + int r) = - h u"
  shows "(\<Sum>e<r. cs ! e * h (int (e + s))) = (\<Sum>e<r. coefficient_at cs (int e - int s) * (h (int e) :: int))"
  using assms(3)
proof (induction s arbitrary: h)
  case 0
  show ?case using assms(1) by (intro sum.cong) (simp_all add: coefficient_at_nth)
next
  case (Suc s)
  have nonempty: "cs \<noteq> []" using assms(1,2) by auto
  let ?f = "\<lambda>e. coefficient_at cs (int e - int (Suc s)) * h (int e)"
  have "(\<Sum>e<r. cs ! e * h (int (e + Suc s))) = (\<Sum>e<r. coefficient_at cs (int e - int s) * h (int e + 1))"
  proof -
    have "h (u + int r + 1) = - h (u + 1)" for u using Suc.prems [of "u + 1"] by (simp add: add.commute add.left_commute)
    then have "(\<Sum>e<r. cs ! e * h (int (e + s) + 1)) = (\<Sum>e<r. coefficient_at cs (int e - int s) * h (int e + 1))"
      using Suc.IH [of "\<lambda>u. h (u + 1)"] by simp
    then show ?thesis by (simp add: add.commute add.left_commute)
  qed
  also have "\<dots> = (\<Sum>e<r. ?f (Suc e))"
  proof (rule sum.cong [OF refl])
    fix e
    have "int (Suc e) - int (Suc s) = int e - int s" "int (Suc e) = int e + 1" by simp_all
    then show "coefficient_at cs (int e - int s) * h (int e + 1) = ?f (Suc e)" by (simp only:)
  qed
  also have "\<dots> = (\<Sum>e<r. ?f e) + ?f r - ?f 0" by (induction r) simp_all
  also have "?f r = ?f 0"
  proof -
    have "int r - int (Suc s) = - int (Suc s) + int (length cs)" using assms(1) by simp
    then have "coefficient_at cs (int r - int (Suc s)) = - coefficient_at cs (- int (Suc s))"
      by (simp only: coefficient_at_antiperiodic [OF nonempty])
    moreover have "h (int r) = - h 0" using Suc.prems [of 0] by simp
    ultimately show ?thesis by simp
  qed
  finally show ?case by simp
qed

text \<open>Coefficient \<open>k\<close> of the value that a polynomial of polynomials takes at a position's point.\<close>

definition at_position :: "profile \<Rightarrow> int list list \<Rightarrow> nat \<Rightarrow> int \<Rightarrow> int" where
  "at_position p S position k = (\<Sum>e<length S. coefficient_at (S ! e) (k - int (point_stride p * (position * e))))"

lemma weights_recover:
  assumes p: "2 \<le> participants p" "participants p \<le> 32" and positions: "admissible p positions"
    and weights: "length weights = length positions"
      "\<And>i. i < length positions \<Longrightarrow> length (weights ! i) = interpolation_degree p"
      "\<And>e index. e < release_threshold p \<Longrightarrow> index < interpolation_degree p \<Longrightarrow>
        (\<Sum>i<length positions. coefficient_at (weights ! i) (int index - int (positions ! i * e)))
          = (if e = 0 \<and> index = 0 then int (clearing_factor p) else 0)"
    and S: "S \<noteq> []" "length S \<le> release_threshold p" "\<forall>cs \<in> set S. length cs = SYSTEMATIC"
    and n: "n < SYSTEMATIC"
  shows "(\<Sum>i<length positions. \<Sum>e<interpolation_degree p. weights ! i ! e * at_position p S (positions ! i) (int n - int (point_stride p * e)))
    = int (clearing_factor p) * S ! 0 ! n"
proof -
  let ?r = "interpolation_degree p" and ?stride = "point_stride p"
  have stride: "?stride * ?r = SYSTEMATIC"
    using point_stride_exact [of p] p by (simp add: SYSTEMATIC_def DEGREE_def)
  have r: "0 < ?r" by (simp add: interpolation_degree_def)
  have one: "(\<Sum>i<length positions. \<Sum>e<?r. weights ! i ! e * coefficient_at (S ! d) (int n - int (?stride * e) - int (?stride * (positions ! i * d))))
      = (if d = 0 then int (clearing_factor p) * S ! 0 ! n else 0)" if d: "d < length S" for d
  proof -
    define h where "h u = coefficient_at (S ! d) (int n - int ?stride * u)" for u
    have l: "length (S ! d) = SYSTEMATIC" using S(3) d by simp
    then have "S ! d \<noteq> []" by (auto simp: SYSTEMATIC_def DEGREE_def)
    then have anti: "h (u + int ?r) = - h u" for u
      using coefficient_at_period [of "S ! d" "int n - int ?stride * u"] l stride
      by (simp add: h_def distrib_left of_nat_mult [symmetric] diff_diff_eq del: of_nat_mult)
    have "(\<Sum>i<length positions. \<Sum>e<?r. weights ! i ! e * coefficient_at (S ! d) (int n - int (?stride * e) - int (?stride * (positions ! i * d))))
        = (\<Sum>i<length positions. \<Sum>e<?r. weights ! i ! e * h (int (e + positions ! i * d)))"
      by (simp add: h_def algebra_simps)
    also have "\<dots> = (\<Sum>i<length positions. \<Sum>e<?r. coefficient_at (weights ! i) (int e - int (positions ! i * d)) * h (int e))"
    proof (rule sum.cong [OF refl])
      fix i assume "i \<in> {..<length positions}"
      then have "length (weights ! i) = ?r" using weights(2) by simp
      then show "(\<Sum>e<?r. weights ! i ! e * h (int (e + positions ! i * d)))
          = (\<Sum>e<?r. coefficient_at (weights ! i) (int e - int (positions ! i * d)) * h (int e))"
        by (rule shifted_sum [where h = h, OF _ r anti])
    qed
    also have "\<dots> = (\<Sum>e<?r. (\<Sum>i<length positions. coefficient_at (weights ! i) (int e - int (positions ! i * d))) * h (int e))"
      by (subst sum.swap) (simp add: sum_distrib_right)
    also have "\<dots> = (\<Sum>e<?r. (if d = 0 \<and> e = 0 then int (clearing_factor p) else 0) * h (int e))"
      using weights(3) [of d] d S(2) by (intro sum.cong) simp_all
    also have "\<dots> = (if d = 0 then int (clearing_factor p) * h 0 else 0)"
    proof -
      have "(\<Sum>e<?r. (if d = 0 \<and> e = 0 then int (clearing_factor p) else 0) * h (int e))
          = (\<Sum>e<?r. if e = 0 then (if d = 0 then int (clearing_factor p) * h 0 else 0) else 0)"
        by (intro sum.cong) auto
      then show ?thesis using r by simp
    qed
    also have "h 0 = S ! d ! n" using n l by (simp add: h_def coefficient_at_nth)
    finally show ?thesis by simp
  qed
  have "(\<Sum>i<length positions. \<Sum>e<?r. weights ! i ! e * at_position p S (positions ! i) (int n - int (?stride * e)))
      = (\<Sum>d<length S. \<Sum>i<length positions. \<Sum>e<?r. weights ! i ! e * coefficient_at (S ! d) (int n - int (?stride * e) - int (?stride * (positions ! i * d))))"
    unfolding at_position_def sum_distrib_left by (simp add: sum.swap [where A = "{..<?r}" and B = "{..<length S}"] sum.swap [where A = "{..<length positions}" and B = "{..<length S}"])
  also have "\<dots> = (\<Sum>d<length S. if d = 0 then int (clearing_factor p) * S ! 0 ! n else 0)"
    by (intro sum.cong refl one) simp
  finally show ?thesis using S(1) by simp
qed

section \<open>Rounding\<close>

lemma positive_remainder:
  assumes "0 < (m :: int)"
  shows "(if v smod m < 0 then v smod m + m else v smod m) = v mod m"
proof (cases "0 \<le> v")
  case True
  then have "v smod m = v mod m" "0 \<le> v mod m" using assms by (simp_all add: smod_int_alt_def sgn_if)
  then show ?thesis by simp
next
  case False
  then have "v smod m = - ((- v) mod m)" using assms by (simp add: smod_int_alt_def sgn_if)
  moreover have "v mod m = (if (- v) mod m = 0 then 0 else m - (- v) mod m)"
    using zmod_zminus1_eq_if [of "- v" m] by simp
  moreover have "0 \<le> (- v) mod m" using assms by simp
  ultimately show ?thesis by auto
qed

lemma shifted_remainder:
  assumes "0 < (m :: int)"
  shows "(v smod m + m) smod m = v mod m"
proof -
  have "- m < v smod m" using assms smod_int_range [of m v] by simp
  then have "(v smod m + m) smod m = (v smod m + m) mod m"
    using assms by (simp add: smod_int_alt_def sgn_if)
  also have "\<dots> = v mod m"
    using positive_remainder [OF assms, of v] by (metis mod_add_self2 mod_mod_trivial)
  finally show ?thesis .
qed

lemma plaintext_coefficient_exact:
  assumes q: "0 < q" and eq: "int PLAINTEXT_MODULUS * (v * inverse_clearing) = q * m + f + int PLAINTEXT_MODULUS * q * j"
    and small: "2 * \<bar>f\<bar> < q"
  shows "plaintext_coefficient q inverse_clearing ipc v = multiply (nat (m mod int PLAINTEXT_MODULUS)) ipc"
proof -
  let ?t = "int PLAINTEXT_MODULUS"
  define half u where "half = q div 2" and "u = (v * inverse_clearing) mod q"
  have half: "2 * half \<le> q" "q < 2 * half + 2" using q by (simp_all add: half_def)
  have f: "- half \<le> f" "f \<le> half" using small half by linarith+
  obtain i where i: "v * inverse_clearing = u + q * i" unfolding u_def by (metis mod_mult_div_eq)
  have u: "?t * u = q * (m + ?t * (j - i)) + f"
    using eq unfolding i by (simp add: algebra_simps)
  have bounds: "0 \<le> u" "u < q" using q by (simp_all add: u_def)
  have round: "(q * n + g + half) div q = n" if "- half \<le> g" "2 * \<bar>g\<bar> < q" for n g
  proof -
    have "0 \<le> g + half" "g + half < q" using that half by linarith+
    then show ?thesis using q by (simp add: add.assoc div_pos_pos_trivial)
  qed
  have residue: "x mod ?t = m mod ?t" if "x = m + ?t * (j - i) \<or> x = m + ?t * (j - i) - ?t" for x
    using that by (auto simp: mod_mult_self2 mod_diff_eq [symmetric] minus_mod_self2)
  have nonneg: "a sdiv q = a div q" if "0 \<le> a" for a using that q by (simp add: signed_divide_int_def sgn_if)
  define x where "x = (if u > half then - (((q - u) * ?t + half) div q) else (u * ?t + half) div q)"
  have "0 \<le> (q - u) * ?t + half" "0 \<le> u * ?t + half" using bounds half_def q by simp_all
  then have "plaintext_coefficient q inverse_clearing ipc v = multiply (nat ((x smod ?t + ?t) smod ?t)) ipc"
    unfolding plaintext_coefficient_def Let_def positive_remainder [OF q] u_def [symmetric] half_def [symmetric]
    by (simp add: x_def nonneg)
  then have result: "plaintext_coefficient q inverse_clearing ipc v = multiply (nat (x mod ?t)) ipc"
    by (simp add: shifted_remainder)
  have "x = m + ?t * (j - i) \<or> x = m + ?t * (j - i) - ?t"
  proof (cases "u > half")
    case True
    have "?t * (q - u) = q * (- (m + ?t * (j - i) - ?t)) + (- f)" using u by (simp add: algebra_simps)
    then have "((q - u) * ?t + half) div q = - (m + ?t * (j - i) - ?t)"
      using round [of "- f" "- (m + ?t * (j - i) - ?t)"] f small by (simp add: mult.commute)
    then show ?thesis using True by (simp add: x_def)
  next
    case False
    have "(u * ?t + half) div q = m + ?t * (j - i)"
      using round [of f "m + ?t * (j - i)"] f small u by (simp add: mult.commute)
    then show ?thesis using False by (simp add: x_def)
  qed
  then show ?thesis unfolding result by (simp only: residue)
qed

section \<open>Decryption\<close>

lemma modpow_value: "0 < m \<Longrightarrow> modpow base e m = base ^ e mod m"
proof (induction base e m rule: modpow.induct)
  case (1 base e m)
  show ?case
  proof (cases "e = 0")
    case False
    have "modpow (base * base mod m) (e div 2) m = (base * base) ^ (e div 2) mod m"
      using 1 False by (simp add: power_mod)
    then have rest: "modpow (base * base mod m) (e div 2) m = base ^ (2 * (e div 2)) mod m"
      by (simp add: power_mult power2_eq_square)
    show ?thesis
    proof (cases "odd e")
      case True
      then have "e = Suc (2 * (e div 2))" by simp
      then have "base ^ e = base * base ^ (2 * (e div 2))" by (metis power_Suc)
      then show ?thesis using True False by (subst modpow.simps) (simp add: rest mod_mult_right_eq)
    next
      case even: False
      then have "2 * (e div 2) = e" by simp
      then show ?thesis using even False by (subst modpow.simps) (simp add: rest)
    qed
  qed (simp add: modpow.simps)
qed

lemma coefficient_at_bound:
  assumes "\<forall>i < length cs. \<bar>cs ! i\<bar> \<le> b" "cs \<noteq> []"
  shows "\<bar>coefficient_at cs k\<bar> \<le> b"
proof -
  have "nat (k mod int (length cs)) < length cs" using assms(2) by (simp add: nat_less_iff)
  then show ?thesis using assms(1) by (simp add: coefficient_at_def Let_def)
qed

text \<open>The noise that a coefficient of the combined shares carries.\<close>

lemma weighted_noise_bound:
  assumes "length weights = n" "\<And>i e. i < n \<Longrightarrow> e < length (weights ! i) \<Longrightarrow> \<bar>g i e\<bar> \<le> b" "0 \<le> b"
  shows "\<bar>\<Sum>i<n. \<Sum>e<length (weights ! i). weights ! i ! e * g i e\<bar> \<le> sum_list (map weight_norm weights) * (b :: int)"
proof -
  have "\<bar>\<Sum>i<n. \<Sum>e<length (weights ! i). weights ! i ! e * g i e\<bar>
      \<le> (\<Sum>i<n. \<Sum>e<length (weights ! i). \<bar>weights ! i ! e * g i e\<bar>)"
    by (intro order_trans [OF sum_abs] sum_mono sum_abs)
  also have "\<dots> \<le> (\<Sum>i<n. \<Sum>e<length (weights ! i). \<bar>weights ! i ! e\<bar> * b)"
    unfolding abs_mult using assms(2) by (intro sum_mono mult_left_mono) simp_all
  also have "\<dots> = (\<Sum>i<n. weight_norm (weights ! i)) * b"
    by (simp add: weight_norm_def sum_distrib_right)
  also have "(\<Sum>i<n. weight_norm (weights ! i)) = sum_list (map weight_norm weights)"
    using assms(1) by (simp add: sum_list_sum_nth atLeast0LessThan)
  finally show ?thesis .
qed

text \<open>A congruence at the coefficients is one at every integer position.\<close>

lemma coefficient_at_sign:
  assumes "length cs = n" "0 < n" "0 \<le> r" "r < int n"
  shows "coefficient_at cs (r + int n * d) = (if even d then cs ! nat r else - (cs ! nat r))"
  using assms by (simp add: coefficient_at_def div_mult_self1 [where c = r])

lemma coefficient_at_shift:
  assumes "length cs = n" "0 < n"
  shows "coefficient_at cs (k + int n * d) = (if even d then coefficient_at cs k else - coefficient_at cs k)"
  using assms by (auto simp: coefficient_at_def Let_def div_mult_self1 mult.commute)

lemma at_position_shift:
  assumes "\<forall>cs \<in> set S. length cs = n" "0 < n"
  shows "at_position p S position (k + int n * d) = (if even d then at_position p S position k else - at_position p S position k)"
proof -
  have "coefficient_at (S ! e) (k + int n * d - int (point_stride p * (position * e)))
      = (if even d then coefficient_at (S ! e) (k - int (point_stride p * (position * e)))
         else - coefficient_at (S ! e) (k - int (point_stride p * (position * e))))" if "e < length S" for e
    using coefficient_at_shift [of "S ! e" n "k - int (point_stride p * (position * e))" d] that assms
    by (simp add: algebra_simps)
  then show ?thesis by (simp add: at_position_def sum_negf)
qed

lemma partial_congruence:
  assumes partial: "length partial = SYSTEMATIC" "length noise = SYSTEMATIC" "\<forall>cs \<in> set S. length cs = SYSTEMATIC"
    and eq: "\<forall>n < SYSTEMATIC. partial ! n mod q = (c * (at_position p S position (int n) + noise ! n)) mod q"
  shows "\<exists>y. coefficient_at partial k = c * (at_position p S position k + coefficient_at noise k) + q * y"
proof -
  define d r where "d = k div int SYSTEMATIC" and "r = k mod int SYSTEMATIC"
  have N: "0 < SYSTEMATIC" by (simp add: SYSTEMATIC_def DEGREE_def)
  then have r: "0 \<le> r" "r < int SYSTEMATIC" by (simp_all add: r_def)
  have k: "k = r + int SYSTEMATIC * d" by (simp add: d_def r_def)
  have "nat r < SYSTEMATIC" using r by simp
  then have "partial ! nat r mod q = (c * (at_position p S position r + noise ! nat r)) mod q" using eq r(1) by fastforce
  then obtain y where "partial ! nat r = c * (at_position p S position r + noise ! nat r) + q * y"
    by (metis mod_eqE)
  then have "coefficient_at partial k = c * (at_position p S position k + coefficient_at noise k) + q * (if even d then y else - y)"
    unfolding k coefficient_at_sign [OF partial(1) N r] coefficient_at_sign [OF partial(2) N r] at_position_shift [OF partial(3) N]
    by (simp add: algebra_simps)
  then show ?thesis by blast
qed

lemma result_plaintext_exact:
  assumes p: "2 \<le> participants p" "participants p \<le> 32"
    and q: "2 < q" "int (clearing_factor p) ^ nat (q - 1) mod q = 1"
    and positions: "admissible p positions" and weights: "cleared_weights p positions = Some (Inr weights)"
    and partials: "length partials = length positions" "length noises = length positions"
      "\<And>i. i < length positions \<Longrightarrow> length (partials ! i) = SYSTEMATIC \<and> length (noises ! i) = SYSTEMATIC
        \<and> (\<forall>n < SYSTEMATIC. \<bar>noises ! i ! n\<bar> \<le> B
            \<and> partials ! i ! n mod q = (int (clearing_factor p) * (at_position p S (positions ! i) (int n) + noises ! i ! n)) mod q)"
    and S: "S \<noteq> []" "length S \<le> release_threshold p" "\<forall>cs \<in> set S. length cs = SYSTEMATIC"
    and message: "length constant = SYSTEMATIC" "length m = SYSTEMATIC"
      "\<And>n. n < SYSTEMATIC \<Longrightarrow> m ! n < PLAINTEXT_MODULUS \<and> (\<exists>err k. \<bar>err\<bar> \<le> A
          \<and> int PLAINTEXT_MODULUS * (constant ! n + S ! 0 ! n) = q * int (m ! n) + err + int PLAINTEXT_MODULUS * q * k)"
    and budget: "2 * (int (clearing_factor p) * A + int PLAINTEXT_MODULUS * (sum_list (map weight_norm weights) * B)) < q" "0 \<le> B"
  shows "result_plaintext p q weights partials constant = m"
proof (rule nth_equalityI)
  define c where "c = int (clearing_factor p)"
  define inverse_c where "inverse_c = modpow c (nat (q - 2)) q"
  define r where "r = interpolation_degree p"
  let ?stride = "point_stride p" and ?t = "int PLAINTEXT_MODULUS"
  let ?phase = "fold (add_share ?stride) (zip weights partials) (map (\<lambda>v. v * c * c) constant)"
  have length_phase: "length (fold (add_share ?stride) shares phase) = length phase" for shares phase
    by (induction shares arbitrary: phase) simp_all
  then show "length (result_plaintext p q weights partials constant) = length m"
    using message(1,2) by (simp add: result_plaintext_def Let_def)
  obtain weights' where "cleared_weights p positions = Some (Inr weights')" "length weights' = length positions"
    "\<And>i. i < length positions \<Longrightarrow> length (weights' ! i) = r"
    "\<And>i z. i < length positions \<Longrightarrow> z ^ interpolation_degree p = - 1 \<Longrightarrow> peval (weights' ! i) z
         = of_nat (clearing_factor p) * lagrange ((\<lambda>a. z ^ a) ` set positions) (z ^ (positions ! i))"
    unfolding r_def by (rule weights_exist [OF p positions]) blast
  moreover from this(1) weights have "weights' = weights" by simp
  ultimately have w: "length weights = length positions" "\<And>i. i < length positions \<Longrightarrow> length (weights ! i) = r"
    "\<And>e index. e < release_threshold p \<Longrightarrow> index < interpolation_degree p \<Longrightarrow>
      (\<Sum>i<length positions. coefficient_at (weights ! i) (int index - int (positions ! i * e)))
        = (if e = 0 \<and> index = 0 then int (clearing_factor p) else 0)"
    using weights_reconstruct [OF p positions, of weights] unfolding r_def by simp_all
  have stride: "?stride * r = SYSTEMATIC" "0 < ?stride"
  proof -
    show eq: "?stride * r = SYSTEMATIC" using point_stride_exact [of p] p by (simp add: SYSTEMATIC_def DEGREE_def r_def)
    show "0 < ?stride" using eq by (cases "?stride = 0") (simp_all add: SYSTEMATIC_def DEGREE_def)
  qed
  have inverse: "\<exists>z. c * inverse_c = 1 + q * z"
  proof -
    have "c * inverse_c mod q = c ^ Suc (nat (q - 2)) mod q"
      using q(1) by (simp add: inverse_c_def modpow_value mod_mult_right_eq)
    also have "Suc (nat (q - 2)) = nat (q - 1)" using q(1) by simp
    finally have "c * inverse_c mod q = 1 mod q" using q by (simp add: c_def)
    then show ?thesis by (metis mod_eqE)
  qed
  fix n assume "n < length (result_plaintext p q weights partials constant)"
  then have n: "n < SYSTEMATIC" using message(1) length_phase by (simp add: result_plaintext_def Let_def)
  define noise where "noise = (\<Sum>i<length positions. \<Sum>e<r. weights ! i ! e * coefficient_at (noises ! i) (int n - int (?stride * e)))"
  have phase: "\<exists>y. ?phase ! n = constant ! n * c * c + c * (c * S ! 0 ! n + noise) + q * y"
  proof -
    have "?phase ! n = constant ! n * c * c
        + (\<Sum>(ws, cs)\<leftarrow>zip weights partials. \<Sum>e<length ws. ws ! e * coefficient_at cs (int n - int (?stride * e)))"
    proof (subst add_shares_value [OF _ stride(2) _ n])
      show "\<forall>(ws, cs) \<in> set (zip weights partials). ?stride * length ws \<le> SYSTEMATIC \<and> length cs = SYSTEMATIC"
        using w(1,2) partials stride by (auto simp: set_zip)
    qed (use message n in simp_all)
    also have "(\<Sum>(ws, cs)\<leftarrow>zip weights partials. \<Sum>e<length ws. ws ! e * coefficient_at cs (int n - int (?stride * e)))
        = (\<Sum>i<length positions. \<Sum>e<r. weights ! i ! e * coefficient_at (partials ! i) (int n - int (?stride * e)))"
      using w(1,2) partials(1) by (simp add: sum_list_sum_nth atLeast0LessThan)
    finally have sum: "?phase ! n = constant ! n * c * c
        + (\<Sum>i<length positions. \<Sum>e<r. weights ! i ! e * coefficient_at (partials ! i) (int n - int (?stride * e)))" .
    have "\<exists>y. coefficient_at (partials ! i) k = c * (at_position p S (positions ! i) k + coefficient_at (noises ! i) k) + q * y"
      if "i < length positions" for i k
      using partials(3) [OF that] S(3) unfolding c_def by (intro partial_congruence) simp_all
    then obtain y where y: "\<And>i k. i < length positions \<Longrightarrow>
        coefficient_at (partials ! i) k = c * (at_position p S (positions ! i) k + coefficient_at (noises ! i) k) + q * y i k"
      by metis
    have "(\<Sum>i<length positions. \<Sum>e<r. weights ! i ! e * coefficient_at (partials ! i) (int n - int (?stride * e)))
        = (\<Sum>i<length positions. \<Sum>e<r. c * (weights ! i ! e * at_position p S (positions ! i) (int n - int (?stride * e)))
            + c * (weights ! i ! e * coefficient_at (noises ! i) (int n - int (?stride * e)))
            + q * (weights ! i ! e * y i (int n - int (?stride * e))))"
      using y by (intro sum.cong refl) (simp add: algebra_simps)
    also have "\<dots> = c * (\<Sum>i<length positions. \<Sum>e<r. weights ! i ! e * at_position p S (positions ! i) (int n - int (?stride * e)))
        + c * noise + q * (\<Sum>i<length positions. \<Sum>e<r. weights ! i ! e * y i (int n - int (?stride * e)))"
      by (simp add: sum.distrib sum_distrib_left noise_def)
    also have "(\<Sum>i<length positions. \<Sum>e<r. weights ! i ! e * at_position p S (positions ! i) (int n - int (?stride * e)))
        = c * S ! 0 ! n"
      unfolding c_def r_def using w S n by (intro weights_recover [OF p positions]) (simp_all add: r_def)
    finally show ?thesis unfolding sum by (auto simp: algebra_simps)
  qed
  have noise_bound: "\<bar>noise\<bar> \<le> sum_list (map weight_norm weights) * B"
  proof -
    have "\<bar>coefficient_at (noises ! i) k\<bar> \<le> B" if "i < length positions" for i k
      using partials(3) [OF that] by (intro coefficient_at_bound) (auto simp: SYSTEMATIC_def DEGREE_def)
    then show ?thesis
      using weighted_noise_bound [OF w(1), of "\<lambda>i e. coefficient_at (noises ! i) (int n - int (?stride * e))" B] w(2) budget(2)
      by (simp add: noise_def)
  qed
  obtain err k where err: "\<bar>err\<bar> \<le> A" "?t * (constant ! n + S ! 0 ! n) = q * int (m ! n) + err + ?t * q * k"
    using message(3) [OF n] by blast
  obtain y where y: "?phase ! n = constant ! n * c * c + c * (c * S ! 0 ! n + noise) + q * y" using phase by blast
  obtain z where z: "c * inverse_c = 1 + q * z" using inverse by blast
  define v where "v = c * (constant ! n + S ! 0 ! n) + noise"
  have "?phase ! n * inverse_c = v * (c * inverse_c) + q * y * inverse_c" unfolding y v_def by (simp add: algebra_simps)
  then have "?t * (?phase ! n * inverse_c) = ?t * v + ?t * q * (z * v + y * inverse_c)" unfolding z by (simp add: algebra_simps)
  also have "?t * v = c * (?t * (constant ! n + S ! 0 ! n)) + ?t * noise" unfolding v_def by (simp add: algebra_simps)
  also have "\<dots> = q * (c * int (m ! n)) + (c * err + ?t * noise) + ?t * q * (c * k)" unfolding err(2) by (simp add: algebra_simps)
  finally have eq: "?t * (?phase ! n * inverse_c)
      = q * (c * int (m ! n)) + (c * err + ?t * noise) + ?t * q * (c * k + z * v + y * inverse_c)"
    by (simp add: algebra_simps)
  have "\<bar>c * err + ?t * noise\<bar> \<le> c * A + ?t * (sum_list (map weight_norm weights) * B)"
  proof -
    have "\<bar>c * err\<bar> \<le> c * A" using err(1) by (simp add: abs_mult c_def mult_left_mono)
    moreover have "\<bar>?t * noise\<bar> \<le> ?t * (sum_list (map weight_norm weights) * B)"
      using noise_bound by (simp add: abs_mult mult_left_mono)
    ultimately show ?thesis by linarith
  qed
  then have small: "2 * \<bar>c * err + ?t * noise\<bar> < q"
    by (intro le_less_trans [OF mult_left_mono budget(1)]) (simp_all add: c_def)
  have "result_plaintext p q weights partials constant ! n
      = plaintext_coefficient q inverse_c (power_mod (clearing_factor p) (PLAINTEXT_MODULUS - 2)) (?phase ! n)"
    using n message(1) length_phase by (simp add: result_plaintext_def Let_def c_def inverse_c_def)
  also have "\<dots> = multiply (nat (c * int (m ! n) mod ?t)) (power_mod (clearing_factor p) (PLAINTEXT_MODULUS - 2))"
    using q(1) by (intro plaintext_coefficient_exact [OF _ eq small]) simp
  also have "nat (c * int (m ! n) mod ?t) = multiply (clearing_factor p) (m ! n)"
    by (simp add: c_def multiply_def nat_mod_distrib flip: of_nat_mult of_nat_mod)
  also have "multiply (multiply (clearing_factor p) (m ! n)) (power_mod (clearing_factor p) (PLAINTEXT_MODULUS - 2)) = m ! n"
  proof (rule iffD1 [OF res_inject])
    have "0 < clearing_factor p" "clearing_factor p \<le> 16" using release_threshold_bounds(3) [OF p(2)] by (simp_all add: clearing_factor_def)
    then have "res (clearing_factor p) \<noteq> 0" by (auto simp: res_0_iff PLAINTEXT_MODULUS_def dest: dvd_imp_le)
    note one = res_inverse [OF this]
    have "x * y * i = y * (x * i)" for x y i :: residue by (simp only: ac_simps)
    then show "res (multiply (multiply (clearing_factor p) (m ! n))
        (power_mod (clearing_factor p) (PLAINTEXT_MODULUS - 2))) = res (m ! n)"
      unfolding res_multiply res_power using one by (metis mult_1_right)
  qed (use message(3) [OF n] in simp_all)
  finally show "result_plaintext p q weights partials constant ! n = m ! n" .
qed

lemma release_polynomial_length:
  assumes "release_polynomial bs modulus = Inr cs"
  shows "length cs = SYSTEMATIC"
proof -
  have n: "0 < record_bytes (centered_half modulus)" by (simp add: record_bytes_def)
  have "length bs = SYSTEMATIC * record_bytes (centered_half modulus)"
    "those (map (decode_record (centered_half modulus)) (chunks_exact (record_bytes (centered_half modulus)) bs)) = Some cs"
    using assms by (auto simp: release_polynomial_def decode_records_def split: if_splits)
  then show ?thesis using length_chunks_exact [OF n, of bs] n unfolding those_map_iff by (auto dest: list_all2_lengthD)
qed

lemma selected_options:
  assumes "rankable p" "selected_positions p cs top_count = Some (Inr ordered)"
  shows "\<forall>option \<in> set ordered. option < options p"
proof -
  obtain vs selected where "1 \<le> top_count" "top_count \<le> options p"
    "select_ranked vs (rank_positions p top_count) 0 (slot_positions ENCODING_DEGREE) (replicate top_count None) = Some selected"
    "those selected = Some ordered" "unrepeated (replicate (options p) False) ordered"
    using assms(2) by (auto simp: selected_positions_def ok_or_def bind_eq_Some_conv split: if_splits option.splits)
  then show ?thesis using scan_exact [OF assms(1), of top_count vs ordered] by blast
qed

text \<open>The shares that are present come in ascending order of their positions.\<close>

lemma present_alt:
  "List.map_filter (\<lambda>(position, share). map_option (Pair position) share) (enumerate first shares)
    = map (\<lambda>i. (first + i, the (shares ! i))) (filter (\<lambda>i. shares ! i \<noteq> None) [0..<length shares])"
proof (induction shares arbitrary: first)
  case (Cons share shares)
  have upt: "[0..<length (share # shares)] = 0 # map Suc [0..<length shares]"
    by (simp add: map_Suc_upt upt_conv_Cons del: upt_Suc)
  show ?case unfolding upt by (simp add: List.map_filter_simps Cons.IH filter_map comp_def split: option.splits)
qed (simp add: List.map_filter_simps)

lemma present_shares:
  "present K = map (\<lambda>i. (i, the (release_shares K ! i))) (filter (\<lambda>i. release_shares K ! i \<noteq> None) [0..<length (release_shares K)])"
  unfolding present_def present_alt by simp

lemma present_prefix:
  assumes "length (release_shares K) = participants p" "release_threshold p \<le> length (present K)"
  shows "admissible p (map fst (take (release_threshold p) (present K)))"
    "\<forall>(position, share) \<in> set (take (release_threshold p) (present K)).
       position < participants p \<and> release_shares K ! position = Some share"
proof -
  let ?positions = "filter (\<lambda>i. release_shares K ! i \<noteq> None) [0..<participants p]"
  have present: "present K = map (\<lambda>i. (i, the (release_shares K ! i))) ?positions"
    unfolding present_shares assms(1) ..
  have positions: "map fst (take (release_threshold p) (present K)) = take (release_threshold p) ?positions"
    by (simp add: present take_map comp_def)
  have "sorted_wrt (<) ?positions" by (rule sorted_wrt_filter) simp
  then have "sorted_wrt (<) (take (release_threshold p) ?positions)" by (rule sorted_wrt_take)
  moreover have "\<forall>position \<in> set (take (release_threshold p) ?positions). position < participants p"
    by (auto dest: in_set_takeD)
  moreover have "release_threshold p \<le> length ?positions" using assms(2) unfolding present length_map .
  then have "length (take (release_threshold p) ?positions) = release_threshold p" by (simp only: length_take min_absorb2)
  ultimately show "admissible p (map fst (take (release_threshold p) (present K)))"
    unfolding positions admissible_def by (intro conjI)
  show "\<forall>(position, share) \<in> set (take (release_threshold p) (present K)).
       position < participants p \<and> release_shares K ! position = Some share"
  proof
    fix entry assume "entry \<in> set (take (release_threshold p) (present K))"
    then have "entry \<in> set (present K)" by (rule in_set_takeD)
    then obtain i where "entry = (i, the (release_shares K ! i))" "i < participants p" "release_shares K ! i \<noteq> None"
      unfolding present by auto
    then show "case entry of (position, share) \<Rightarrow> position < participants p \<and> release_shares K ! position = Some share"
      by simp
  qed
qed

text \<open>
  C5. A threshold of shares decrypts.  Let the collector hold, among its shares, as many as the release
  threshold, each the clearing factor times the value that one polynomial of sharing degree takes
  at the share's point plus a bounded noise, modulo the release modulus; let the target's constant
  component plus the polynomial's constant coefficient be the scaled message up to an error; and
  let the combined noise of the chosen shares stay below half the modulus.  Then the decryption
  ends without an overflow or a failed assertion, recovers the message exactly, whichever shares
  are present, and returns what the terminal decoder makes of it.
\<close>

theorem threshold_of_shares_decrypts:
  assumes "p = inputs_profile (vt_setup (releases_target K))" "rankable p" "2 \<le> participants p"
    and "to_bytes (release p) = Some modulus" "q = int (le_value modulus)" "2 < q"
      "int (clearing_factor p) ^ nat (q - 1) mod q = 1"
    and "length (release_shares K) = participants p" "release_threshold p \<le> length (present K)"
    and "\<And>position share. position < participants p \<Longrightarrow> release_shares K ! position = Some share \<Longrightarrow>
      length (body_partial (share_body share)) = SYSTEMATIC \<and> (\<exists>noise. length noise = SYSTEMATIC
        \<and> (\<forall>n < SYSTEMATIC. \<bar>noise ! n\<bar> \<le> B \<and> body_partial (share_body share) ! n mod q
             = (int (clearing_factor p) * (at_position p S position (int n) + noise ! n)) mod q))"
    and "S \<noteq> []" "length S \<le> release_threshold p" "\<forall>cs \<in> set S. length cs = SYSTEMATIC"
    and "vt_ciphertext (releases_target K) = Some cipher" "SYSTEMATIC * release_coefficient_bytes p \<le> length cipher"
      "release_polynomial (take (SYSTEMATIC * release_coefficient_bytes p) cipher) modulus = Inr offsets"
    and "length message = SYSTEMATIC" "\<And>n. n < SYSTEMATIC \<Longrightarrow> message ! n < PLAINTEXT_MODULUS \<and> (\<exists>err k. \<bar>err\<bar> \<le> A
      \<and> int PLAINTEXT_MODULUS * (offsets ! n + S ! 0 ! n) = q * int (message ! n) + err + int PLAINTEXT_MODULUS * q * k)"
    and "\<And>weights. cleared_weights p (map fst (take (release_threshold p) (present K))) = Some (Inr weights) \<Longrightarrow>
      2 * (int (clearing_factor p) * A + int PLAINTEXT_MODULUS * (sum_list (map weight_norm weights) * B)) < q" "0 \<le> B"
    and "option_count (poll_manifest (vt_poll (releases_target K))) = options p"
  shows "released_result K
    = map_option (\<lambda>outcome. case outcome of Inl refusal \<Rightarrow> Inl refusal
        | Inr ordered \<Rightarrow> Inr \<lparr> result_certificate = releases_certificate K,
            result_identifiers = map (\<lambda>option. option_identifier (manifest_options (poll_manifest (vt_poll (releases_target K))) ! option)) ordered,
            result_participants = map fst (take (release_threshold p) (present K)) \<rparr>)
      (selected_positions p message (unat (poll_top_count (vt_poll (releases_target K)))))"
proof -
  let ?chosen = "take (release_threshold p) (present K)"
  let ?positions = "map fst ?chosen" and ?partials = "map (\<lambda>(position, share). body_partial (share_body share)) ?chosen"
  note prefix = present_prefix [OF assms(8,9)]
  have participants: "participants p \<le> 32" using assms(2) by (simp add: rankable_def)
  obtain weights where weights: "cleared_weights p ?positions = Some (Inr weights)"
    by (rule weights_exist [OF assms(3) participants prefix(1)]) (rule that)
  have length_chosen: "length ?chosen = release_threshold p" using assms(9) by simp
  have each: "\<exists>noise. length (?partials ! i) = SYSTEMATIC \<and> length noise = SYSTEMATIC
      \<and> (\<forall>n < SYSTEMATIC. \<bar>noise ! n\<bar> \<le> B
          \<and> ?partials ! i ! n mod q = (int (clearing_factor p) * (at_position p S (?positions ! i) (int n) + noise ! n)) mod q)"
    if "i < length ?chosen" for i
  proof -
    obtain position share where share: "?chosen ! i = (position, share)" by force
    have "(position, share) \<in> set ?chosen" using nth_mem [OF that] unfolding share .
    from bspec [OF prefix(2) this] have inside: "position < participants p" "release_shares K ! position = Some share" by simp_all
    have at: "?partials ! i = body_partial (share_body share)" "?positions ! i = position"
      using share by (simp_all only: nth_map [OF that] prod.case fst_conv)
    show ?thesis unfolding at using assms(10) [OF inside] by blast
  qed
  then obtain noise where noise: "\<And>i. i < length ?chosen \<Longrightarrow> length (?partials ! i) = SYSTEMATIC \<and> length (noise i) = SYSTEMATIC
      \<and> (\<forall>n < SYSTEMATIC. \<bar>noise i ! n\<bar> \<le> B
          \<and> ?partials ! i ! n mod q = (int (clearing_factor p) * (at_position p S (?positions ! i) (int n) + noise i ! n)) mod q)"
    by metis
  have plaintext: "result_plaintext p q weights ?partials offsets = message"
  proof (rule result_plaintext_exact [OF assms(3) participants assms(6,7) prefix(1) weights, where noises = "map noise [0..<length ?chosen]"])
    show "length (?partials ! i) = SYSTEMATIC \<and> length (map noise [0..<length ?chosen] ! i) = SYSTEMATIC
        \<and> (\<forall>n < SYSTEMATIC. \<bar>map noise [0..<length ?chosen] ! i ! n\<bar> \<le> B
            \<and> ?partials ! i ! n mod q = (int (clearing_factor p) * (at_position p S (?positions ! i) (int n) + map noise [0..<length ?chosen] ! i ! n)) mod q)"
      if "i < length ?positions" for i
      using noise [of i] that by simp
    show "length offsets = SYSTEMATIC" by (rule release_polynomial_length [OF assms(16)])
  qed (use assms(11-13,17-20) weights in simp_all)
  let ?outcome = "selected_positions p message (unat (poll_top_count (vt_poll (releases_target K))))"
  let ?available = "manifest_options (poll_manifest (vt_poll (releases_target K)))"
  have "released_result K = ?outcome \<bind> (\<lambda>ordered. case ordered of Inl refusal \<Rightarrow> Some (Inl refusal)
      | Inr ordered \<Rightarrow> if \<exists>position \<in> set ordered. position \<ge> length ?available then None
          else Some (Inr \<lparr> result_certificate = releases_certificate K,
            result_identifiers = map (\<lambda>position. option_identifier (?available ! position)) ordered,
            result_participants = ?positions \<rparr>))"
    using length_chosen plaintext assms(5,15)
    unfolding released_result_def Let_def assms(1) [symmetric] weights assms(4,14) by (simp add: assms(16))
  also have "\<dots> = map_option (\<lambda>outcome. case outcome of Inl refusal \<Rightarrow> Inl refusal
        | Inr ordered \<Rightarrow> Inr \<lparr> result_certificate = releases_certificate K,
            result_identifiers = map (\<lambda>option. option_identifier (?available ! option)) ordered,
            result_participants = ?positions \<rparr>) ?outcome"
  proof (cases ?outcome)
    case (Some outcome)
    show ?thesis
    proof (cases outcome)
      case (Inr ordered)
      have "\<not> (\<exists>position \<in> set ordered. position \<ge> length ?available)"
        using selected_options [OF assms(2) Some [unfolded Inr]] assms(21) by (auto simp: option_count_def)
      then show ?thesis unfolding Some Inr by simp
    qed (simp add: Some)
  qed simp
  finally show ?thesis .
qed

text \<open>A release of three shares over a small release modulus.\<close>

definition release_profile :: profile where
  "release_profile = sample_profile\<lparr>release := \<lparr>proth_exponent = 18, proth_odd_factor = 3, proth_witness = 5\<rparr>\<rparr>"

lemma release_modulus: "to_bytes (release release_profile) = Some [1, 0, 12]" "le_value [1, 0, 12] = 786433"
proof -
  have "to_bytes \<lparr>proth_exponent = 18, proth_odd_factor = 3, proth_witness = 5\<rparr> = Some [1, 0, 12]" by code_simp
  then show "to_bytes (release release_profile) = Some [1, 0, 12]" by (simp add: release_profile_def)
  show "le_value [1, 0, 12] = 786433" by simp
qed

lemma modpow_numeral:
  "modpow base (numeral (Num.Bit0 n)) m = modpow (base * base mod m) (numeral n) m"
  "modpow base (numeral (Num.Bit1 n)) m = base * modpow (base * base mod m) (numeral n) m mod m"
  "modpow base (Suc 0) m = base * (1 mod m) mod m"
proof -
  have "(numeral (Num.Bit0 n) :: nat) div 2 = numeral n" "(numeral (Num.Bit1 n) :: nat) div 2 = numeral n" by simp_all
  then show "modpow base (numeral (Num.Bit0 n)) m = modpow (base * base mod m) (numeral n) m"
    "modpow base (numeral (Num.Bit1 n)) m = base * modpow (base * base mod m) (numeral n) m mod m"
    by (subst modpow.simps, simp)+
  show "modpow base (Suc 0) m = base * (1 mod m) mod m" by (simp add: modpow.simps [of base "Suc 0"] modpow.simps [of _ 0])
qed

lemma release_fermat: "(2 :: int) ^ 786432 mod 786433 = 1"
proof -
  have "modpow 2 786432 786433 = 1" by (simp add: modpow_numeral)
  moreover have "modpow 2 786432 786433 = 2 ^ 786432 mod 786433" by (rule modpow_value) (rule zero_less_numeral)
  ultimately show ?thesis by (metis (no_types))
qed

lemma release_facts:
  "participants release_profile = 5" "options release_profile = 3" "rankable release_profile"
  "release_threshold release_profile = 2" "clearing_factor release_profile = 2"
  "release_coefficient_bytes release_profile = 4"
  by (simp_all add: release_profile_def sample_profile_def rankable_def release_threshold_def maximum_corrupt_participants_def
      clearing_factor_def next_power_of_two_def bit_length.simps release_coefficient_bytes_def byte_length_def bits_def div_ceil_def)

text \<open>Every plaintext coefficient is a scaled coefficient up to the rounding.\<close>

lemma release_scaling:
  assumes "m < PLAINTEXT_MODULUS"
  shows "\<exists>v. \<bar>v\<bar> \<le> (393216 :: int) \<and> (\<exists>err k. \<bar>err\<bar> \<le> 6145
    \<and> int PLAINTEXT_MODULUS * v = 786433 * int m + err + int PLAINTEXT_MODULUS * 786433 * k)"
proof -
  define a where "a = (786433 * int m + 6144) div 12289"
  define r where "r = (786433 * int m + 6144) mod 12289"
  have t: "int PLAINTEXT_MODULUS = 12289" by (simp add: PLAINTEXT_MODULUS_def)
  have eq: "12289 * a + r = 786433 * int m + 6144" unfolding a_def r_def by (rule mult_div_mod_eq)
  have r: "0 \<le> r" "r < 12289" by (simp_all add: r_def)
  have m: "int m \<le> 12288" using assms t by linarith
  show ?thesis
  proof (cases "a \<le> 393216")
    case True
    have "12289 * a = 786433 * int m + (6144 - r) + 12289 * 786433 * 0" using eq by simp
    moreover have "0 \<le> a" using eq r by linarith
    ultimately show ?thesis unfolding t using True r by (intro exI [of _ a] conjI exI [of _ "6144 - r"] exI [of _ 0]) linarith+
  next
    case False
    have "12289 * (a - 786433) = 786433 * int m + (6144 - r) + 12289 * 786433 * - 1" using eq by simp
    moreover have "a \<le> 786433" using eq r m by linarith
    ultimately show ?thesis unfolding t using False r
      by (intro exI [of _ "a - 786433"] conjI exI [of _ "6144 - r"] exI [of _ "- 1"]) linarith+
  qed
qed

lemma release_constant:
  assumes "length message = SYSTEMATIC" "\<forall>v \<in> set message. v < PLAINTEXT_MODULUS"
  obtains cipher cs where "length cipher = SYSTEMATIC * 4" "release_polynomial cipher [1, 0, 12] = Inr cs"
    "\<And>n. n < SYSTEMATIC \<Longrightarrow> message ! n < PLAINTEXT_MODULUS \<and> (\<exists>err k. \<bar>err\<bar> \<le> 6145
      \<and> int PLAINTEXT_MODULUS * cs ! n = 786433 * int (message ! n) + err + int PLAINTEXT_MODULUS * 786433 * k)"
proof -
  have "\<forall>m \<in> set message. \<exists>v. \<bar>v\<bar> \<le> (393216 :: int) \<and> (\<exists>err k. \<bar>err\<bar> \<le> 6145
      \<and> int PLAINTEXT_MODULUS * v = 786433 * int m + err + int PLAINTEXT_MODULUS * 786433 * k)"
    using assms(2) release_scaling by blast
  from bchoice [OF this] obtain f where f: "\<forall>m \<in> set message. \<bar>f m\<bar> \<le> (393216 :: int) \<and> (\<exists>err k. \<bar>err\<bar> \<le> 6145
      \<and> int PLAINTEXT_MODULUS * f m = 786433 * int m + err + int PLAINTEXT_MODULUS * 786433 * k)"
    by blast
  let ?constant = "map f message"
  have half: "int (le_value [1, 0, 12] div 2) = 393216" by simp
  have small: "\<forall>v \<in> set ?constant. \<bar>v\<bar> \<le> int (le_value [1, 0, 12] div 2)" unfolding half using f by simp
  have "\<exists>bs. encode_record 4 v = Some bs \<and> length bs = 4" if "\<bar>v\<bar> \<le> int (le_value [1, 0, 12] div 2)" for v
    by (rule encode_record_small [OF _ that]) (auto simp: eval_nat_numeral)
  then have "\<forall>v \<in> set ?constant. \<exists>bs. encode_record 4 v = Some bs \<and> length bs = 4" using small by blast
  from bchoice [OF this] obtain g where g: "\<forall>v \<in> set ?constant. encode_record 4 v = Some (g v) \<and> length (g v) = 4" by blast
  let ?rs = "map g ?constant"
  have rs: "those (map (encode_record (1 + length [1, 0, 12 :: byte])) ?constant) = Some ?rs"
    using g by (simp add: those_map_iff list_all2_map2 list.rel_map list_all2_same eval_nat_numeral)
  have "decode_records (centered_half [1, 0, 12]) (concat ?rs) = Some ?constant"
    using decode_records_exact [of "[1, 0, 12]" "concat ?rs" ?constant] small rs by blast
  moreover have length: "length (concat ?rs) = SYSTEMATIC * 4"
  proof -
    have "length (concat (map g cs)) = length cs * 4" if "\<forall>v \<in> set cs. length (g v) = 4" for cs
      using that by (induction cs) simp_all
    from this [of ?constant] show ?thesis using g assms(1) by simp
  qed
  ultimately have "release_polynomial (concat ?rs) [1, 0, 12] = Inr ?constant"
    by (simp add: release_polynomial_def record_bytes_def del: map_map)
  moreover have "message ! n < PLAINTEXT_MODULUS \<and> (\<exists>err k. \<bar>err\<bar> \<le> 6145
      \<and> int PLAINTEXT_MODULUS * ?constant ! n = 786433 * int (message ! n) + err + int PLAINTEXT_MODULUS * 786433 * k)"
    if "n < SYSTEMATIC" for n
  proof -
    have "n < length message" using that assms(1) by simp
    then have "message ! n \<in> set message" "?constant ! n = f (message ! n)" by simp_all
    then show ?thesis using bspec [OF f] assms(2) by auto
  qed
  ultimately show thesis by (rule that [OF length])
qed

lemma at_position_zero:
  assumes "\<And>k. coefficient_at zero k = 0"
  shows "at_position p [zero] position k = 0"
  using assms by (simp add: at_position_def)

definition release_sample :: "bytes \<Rightarrow> release_collector" where
  "release_sample cipher =
     (let certificate =
           \<lparr> certificate_target =
               \<lparr> vt_poll = sample_poll,
                 vt_setup = bar_setup\<lparr>inputs_selection := (inputs_selection bar_setup)\<lparr>as_roster := (as_roster (inputs_selection bar_setup))
                   \<lparr>auth_proposal := (auth_proposal (as_roster (inputs_selection bar_setup)))\<lparr>roster_profile := release_profile\<rparr>\<rparr>\<rparr>\<rparr>,
                 vt_classified = None, vt_body = [], vt_identity = [], vt_ciphertext = Some cipher \<rparr>,
             certificate_votes = [] \<rparr>;
          share = \<lambda>position. \<lparr>share_body = \<lparr>body_certificate = certificate, body_position = position, body_identity = [],
            body_length = 0, body_partial = replicate SYSTEMATIC 0\<rparr>\<rparr>
      in \<lparr> releases_certificate = certificate,
           release_shares = [Some (share 0), None, None, Some (share 3), Some (share 4)] \<rparr>)"

lemma release_sample_facts:
  "inputs_profile (vt_setup (releases_target (release_sample cipher))) = release_profile"
  "vt_poll (releases_target (release_sample cipher)) = sample_poll"
  "vt_ciphertext (releases_target (release_sample cipher)) = Some cipher"
  "length (release_shares (release_sample cipher)) = 5"
  "map fst (present (release_sample cipher)) = [0, 3, 4]"
  by (simp_all add: release_sample_def Let_def inputs_profile_def inputs_roster_def bar_setup_def present_def List.map_filter_simps)

lemma release_sample_partial:
  assumes "release_shares (release_sample cipher) ! position = Some share" "position < 5"
  shows "body_partial (share_body share) = replicate SYSTEMATIC 0"
  using assms by (auto simp: release_sample_def Let_def numeral_eq_Suc less_Suc_eq nth_Cons')

lemma coefficient_at_zeros: "coefficient_at (replicate SYSTEMATIC 0) k = 0"
proof -
  have "0 < int SYSTEMATIC" by (simp add: SYSTEMATIC_def DEGREE_def)
  then have "nat (k mod int SYSTEMATIC) < SYSTEMATIC" by (simp add: nat_less_iff)
  then show ?thesis by (simp add: coefficient_at_def Let_def)
qed

theorem threshold_of_shares_decrypts_witness:
  "\<exists>cipher. map_option (map_sum id (\<lambda>r. (result_identifiers r, result_participants r))) (released_result (release_sample cipher))
     = Some (Inr ([[99], [98]], [0, 3]))"
proof -
  let ?ballots = "[Some [1, 10, 4], None, Some [3, 2, 9], None, None] :: nat list option list"
  define v :: slots where "v = (\<lambda>mirrored s. if mirrored then 0 else if winning_slot release_profile ?ballots 2 s then 1 else 0)"
  have slots: "\<forall>s < ACTIVE_SLOTS. v False s = (if winning_slot release_profile ?ballots 2 s then 1 else 0) \<and> v True s = 0"
    by (simp add: v_def)
  obtain message where message: "decrypts_to message v" using decrypts_to_exists [OF slots] by blast
  have two: "(1 :: nat) \<le> 2" "2 \<le> options release_profile" by (simp_all add: release_facts)
  have sorted: "take 2 (ranking_of release_profile ?ballots) = [2, 1]"
    by (simp add: ranking_of_def release_facts upt_rec sort_key_def total_def score_of_def)
  have selected: "selected_positions release_profile message 2 = Some (Inr [2, 1])"
    using decrypted_ranking [OF release_facts(3) two message slots] unfolding sorted .
  have shape: "length message = SYSTEMATIC" "\<forall>v \<in> set message. v < PLAINTEXT_MODULUS"
    using message by (simp_all add: decrypts_to_def result_coefficients_def)
  obtain cipher cs where cipher: "length cipher = SYSTEMATIC * 4" "release_polynomial cipher [1, 0, 12] = Inr cs"
    and scaled: "\<And>n. n < SYSTEMATIC \<Longrightarrow> message ! n < PLAINTEXT_MODULUS \<and> (\<exists>err k. \<bar>err\<bar> \<le> 6145
      \<and> int PLAINTEXT_MODULUS * cs ! n = 786433 * int (message ! n) + err + int PLAINTEXT_MODULUS * 786433 * k)"
    using release_constant [OF shape] by blast
  let ?K = "release_sample cipher" and ?zero = "replicate SYSTEMATIC (0 :: int)"
  have count: "length (present ?K) = 3" using arg_cong [OF release_sample_facts(5) [of cipher], of length] by simp
  have fermat: "int (clearing_factor release_profile) ^ nat (786433 - 1) mod 786433 = 1"
  proof -
    have "nat (786433 - 1) = 786432" by simp
    then show ?thesis using release_fermat by (simp only: release_facts of_nat_numeral)
  qed
  have "released_result ?K
    = map_option (\<lambda>outcome. case outcome of Inl refusal \<Rightarrow> Inl refusal
        | Inr ordered \<Rightarrow> Inr \<lparr> result_certificate = releases_certificate ?K,
            result_identifiers = map (\<lambda>option. option_identifier (manifest_options (poll_manifest (vt_poll (releases_target ?K))) ! option)) ordered,
            result_participants = map fst (take (release_threshold release_profile) (present ?K)) \<rparr>)
      (selected_positions release_profile message (unat (poll_top_count (vt_poll (releases_target ?K)))))"
  proof (rule threshold_of_shares_decrypts [where q = 786433 and modulus = "[1, 0, 12]" and S = "[?zero]" and B = 0 and A = 6145
        and cipher = cipher and offsets = cs])
    show "length (body_partial (share_body share)) = SYSTEMATIC \<and> (\<exists>noise. length noise = SYSTEMATIC
        \<and> (\<forall>n < SYSTEMATIC. \<bar>noise ! n\<bar> \<le> 0 \<and> body_partial (share_body share) ! n mod 786433
             = (int (clearing_factor release_profile) * (at_position release_profile [?zero] position (int n) + noise ! n)) mod 786433))"
      if "position < participants release_profile" "release_shares ?K ! position = Some share" for position share
      using release_sample_partial [OF that(2)] that(1)
      by (intro conjI exI [of _ ?zero]) (simp_all add: release_facts at_position_zero coefficient_at_zeros)
    show "int (clearing_factor release_profile) ^ nat (786433 - 1) mod 786433 = 1" by (rule fermat)
    show "message ! n < PLAINTEXT_MODULUS \<and> (\<exists>err k. \<bar>err\<bar> \<le> 6145
        \<and> int PLAINTEXT_MODULUS * (cs ! n + [?zero] ! 0 ! n) = 786433 * int (message ! n) + err + int PLAINTEXT_MODULUS * 786433 * k)"
      if "n < SYSTEMATIC" for n
      using scaled [OF that] that by simp
  qed (simp_all add: release_sample_facts release_facts release_modulus count cipher shape sample_poll_def option_count_def sample_manifest_def)
  then show ?thesis
    unfolding release_sample_facts
    by (intro exI [of _ cipher]) (simp add: sample_poll_def selected take_map release_sample_facts release_facts
        sample_manifest_def flip: take_map)
qed

end
