(* ===== verification/Spec2Isabelle.thy ===== *)
theory Spec2Isabelle
  imports Ceremony Threshold_Decryption
begin

text \<open>
  A verification library for the research protocol of sealed-lattice
  (\<open>crates/protocol-research\<close>): encrypted ranking polls among a fixed roster, with a custody that
  signs, a close that fixes the ballots, and an evaluation whose target a quorum certifies.  All
  file names below are relative to that directory.

  \<^bold>\<open>The program.\<close>  An organizer creates a poll; participants register keys; the organizer's
  roster proposal fixes the members; members offer setup contributions, the organizer selects a
  number of them and a quorum endorses the selection; members cast ballots under the certified
  setup; the organizer announces a closing time, members answer with the ballots they know, and a
  proposal over a quorum of answers fixes for every member whether the ballot is absent, usable or
  conflicting; the usable ballots are classified and evaluated; members vote for the evaluated
  target, and a quorum of votes certifies it; then members release their decryption shares.
  Everything a member signs goes through its credential, whose keys are one-time per purpose.

  \<^bold>\<open>Theories and sources.\<close>
  \<^item> \<open>Prelude\<close>: results, options, little-endian words, slices, the record \<open>externals\<close> of functions
    the sources only call (SHAKE256, the Keccak permutation, the Unicode tables).
  \<^item> \<open>Display_Text\<close> (\<open>foundation/text.rs\<close>), \<open>Canonical_Tuple\<close> (\<open>foundation/canonical-tuple*\<close>),
    \<open>Schemas\<close>, \<open>Manifest\<close> (\<open>foundation/schemas.rs\<close>, \<open>manifest.rs\<close>): the canonical encoding with
    its budgets, and option manifests.
  \<^item> \<open>Protocol_Hash\<close>, \<open>Hash_Stream\<close> (\<open>parallel-work/src/protocol-hash.rs\<close>, \<open>stream.rs\<close>) and
    \<open>Identity\<close> (\<open>foundation/hash.rs\<close>, \<open>identity.rs\<close>): the sponge, streams hashed by helpers, and
    labelled identities.
  \<^item> \<open>Supported_Profile\<close>, \<open>Word_Relation\<close> (\<open>supported-profile/src\<close>): thresholds, the profile
    table and the layouts of the word relations.
  \<^item> \<open>Purpose_Signature\<close> (\<open>purpose-signature/src/lib.rs\<close>, \<open>authentication.rs\<close>): hash-based one-time
    signatures, one leaf per purpose.
  \<^item> \<open>Poll\<close>, \<open>Registration_Header\<close>, \<open>Signed_Packet\<close>, \<open>Credential\<close>, \<open>Message\<close>, \<open>Roster\<close>,
    \<open>Contribution_Offer\<close>, \<open>Setup_Selection\<close>, \<open>Ballot_Signing\<close>, \<open>Close_Signing\<close>,
    \<open>Target_Signing\<close>: the files of \<open>protocol-foundations/src\<close> of the same names.  The credential
    is one record with a field for each field of the source; an operation takes it and returns the
    credential the source leaves, also when it refuses.
  \<^item> \<open>Participant\<close>, \<open>Participant_Safety\<close>: every operation of a credential as one step, and what
    holds of all sequences of steps.
  \<^item> \<open>Selection_Codec\<close>, \<open>Ceremony\<close>: what holds across members: the exact codec of selection
    certificates, agreement of certificates, and certification by the votes of the honest members.
  \<^item> \<open>Close_Codec\<close>: the exact codec of close messages.  \<open>Ballot_Submission\<close>
    (\<open>ballot-proof/src/submission.rs\<close>, \<open>setup-aggregate/src/verified.rs\<close>), \<open>Close_Barrier\<close> and
    \<open>Close_Session\<close> (\<open>evaluation-target/src/close.rs\<close>, \<open>close-session.rs\<close>): authentication of
    ballots, the barrier, and the command session that produces it.
  \<^item> \<open>Evaluation_Target\<close>, \<open>Certification\<close> (\<open>evaluation-target/src/target.rs\<close>,
    \<open>certification.rs\<close>): classified inventories, target bodies, and the collector of votes.
  \<^item> \<open>Residues\<close>, \<open>Plaintext_Slots\<close> (\<open>supported-profile/src/plaintext.rs\<close>), \<open>Interpolation\<close> and
    \<open>Ranking_Plaintext\<close> (\<open>encrypted-ranking/src/ranking-plaintext.rs\<close>, \<open>ballot-encryption/src/packing.rs\<close>):
    arithmetic modulo the plaintext prime, the transform between coefficients and slots, Newton
    interpolation, the packing of ballots and the constants of an evaluation.
  \<^item> \<open>Ranking_Program\<close> (\<open>evaluation-target/src/program.rs\<close>) and \<open>Ranking_Codec\<close>
    (\<open>encrypted-ranking/src/ranking-program.rs\<close>): the builder of ranking programs and the decoder of
    the engine that runs them.
  \<^item> \<open>Ranking\<close> (\<open>encrypted-ranking/src/ranking.rs\<close>), \<open>Ranking_Result\<close>
    (\<open>evaluation-target/src/terminal.rs\<close>) and \<open>Ranking_Order\<close>: the constants and inputs of an
    evaluation, the terminal decoder, and the ranking they give together.  The definition
    \<open>slot_meaning\<close> is what an instruction does to the plaintext slots of its operands; that the
    ciphertext operations of the engine have this meaning is the correctness of the encryption
    scheme and is not modelled.
  \<^item> \<open>Reconstruction\<close> (\<open>evaluation-target/src/interpolation.rs\<close>), \<open>Centered_Codec\<close>
    (\<open>statement-stream/src/coefficient.rs\<close>) and \<open>Threshold_Decryption\<close>
    (\<open>evaluation-target/src/terminal.rs\<close>, \<open>decode_polynomial\<close> of \<open>release.rs\<close>): the weights that
    reconstruct a secret from the shares at a threshold of positions, the records of centered
    coefficients, the collector of release shares, and the decryption of a result.  A verified
    share is its data; the proof that accompanied it is not modelled, and what it establishes, a
    partial of the right form with bounded noise, is a hypothesis of the decryption theorem.

  \<^bold>\<open>Interfaces.\<close>  \<open>exact_codec\<close> (a parser and a printer that are exact inverses) is interpreted
  for every codec; \<open>quorum_system\<close> (fault bounds and overlapping quorums) for the inventory
  threshold; \<open>one_shot\<close> (a machine that emits at most once per key) for the credential;
  \<open>slotwise\<close> (instructions that act on every slot alike, rotations apart) for the plaintext-slot
  meaning of ranking programs.

  \<^bold>\<open>Conventions.\<close>  A refusal is the left of a sum, a value the right; \<open>?\<close> of the source is
  \<open>and_then\<close>, and for operations on a state \<open>guarded\<close> or \<open>require\<close>.  Machine integers of the
  wire formats are words; lengths and counts are naturals with the source's checked arithmetic
  written out where it can fail.  A function of the sources that indexes out of range would panic;
  the model's operations check the same bounds before they index.  No definition uses fuel:
  recursion is structural or bounded by the nesting depth the decoder carries.

  \<^bold>\<open>What the lemmas show.\<close>  Codecs are exact and canonical, and what the
  tuple encoder emits is read back exactly while the decoder's budgets hold it; identities bind what they name up to
  an exhibited collision; a one-time signature that verifies is the signer's or exhibits a
  collision; a credential signs one message per purpose over its whole life, never replaces a
  commitment, and accounts for its own ballot when it answers a close; a session reaches a barrier
  only over authentic input; a collector certifies exactly the quorums of first votes,
  and certificates of one roster agree; plaintexts encode and decode exactly; the ranking program
  of every profile, run on packed ballots, yields the slots that the terminal decoder turns into
  the options in descending order of their totals; the reconstruction weights of every threshold
  of positions exist without overflow and are exact, and any threshold of well-formed shares
  decrypts the evaluated ciphertext to its message while the noise stays below half the modulus.

  \<^bold>\<open>Not modelled.\<close>  The lattice cryptography and its proof systems (the ciphertexts of
  \<open>ballot-encryption\<close> and \<open>encrypted-ranking\<close> with their keys and the storage of values, the
  packing witness of a ballot, \<open>encrypted-source-operator\<close>, \<open>word-proof\<close>, \<open>word-verifier\<close>,
  \<open>linked-release-proof\<close>, \<open>setup-witness\<close>, \<open>statement-stream\<close> but for its coefficient records, the proofs of release
  shares): arithmetic of polynomial rings whose security is not a statement about the code's states.  The verification of registrations
  and encrypted sources (\<open>registration.rs\<close>, \<open>registration-session.rs\<close>, \<open>source-seeds.rs\<close>) rests
  on these proofs.  \<open>native-ceremony\<close> and \<open>participant-module\<close> are process and WebAssembly glue
  around the operations modelled here.  AES-GCM, SHAKE256, the Keccak permutation and the profile
  table are parameters.
\<close>

end
